(* ===== verification/Prelude.thy ===== *)
theory Prelude
  imports Main "HOL-Library.Word" "HOL-Library.Monad_Syntax" "HOL-Library.Sublist"
begin

text \<open>
  Shared vocabulary of the development.

  It holds the pieces of the Rust standard library that the modelled crates use
  (\<open>std::cmp::Ordering\<close>, \<open>Vec::resize\<close>, \<open>Vec::truncate\<close>, in-place updates over
  a zipped iterator, \<open>Vec::binary_search_by\<close>, saturating and checked arithmetic, panics as
  the value \<open>None\<close>), the names of the machine integer types, and the collections of facts
  the component theories add to and simplify with.
\<close>

subsection \<open>Fact collections\<close>

named_theorems inv_intros \<open>introduction rules: an operation keeps a well-formedness invariant\<close>
named_theorems abs_simps \<open>equations: the abstract value of an operation's result\<close>

subsection \<open>Machine integers\<close>

type_synonym u8 = "8 word"
type_synonym u16 = "16 word"
type_synonym u32 = "32 word"
type_synonym u64 = "64 word"
type_synonym u128 = "128 word"

definition saturating_sub :: "'a::len word \<Rightarrow> 'a word \<Rightarrow> 'a word" where
  "saturating_sub a b = (if b \<le> a then a - b else 0)"

lemma unat_saturating_sub: "unat (saturating_sub a b) = unat a - unat b"
  by (auto simp: saturating_sub_def unat_sub word_le_nat_alt)

lemma unat_bound: "unat (x :: 'a::len word) < 2 ^ LENGTH('a)"
  by (rule unsigned_less)

lemma unat_bounds:
  "unat (a :: u8) < 2 ^ 8" "unat (b :: u16) < 2 ^ 16" "unat (c :: u32) < 2 ^ 32"
  "unat (d :: u64) < 2 ^ 64"
  using unat_bound [of a] unat_bound [of b] unat_bound [of c] unat_bound [of d] by simp_all

lemma word_less_inc: "x \<noteq> - 1 \<Longrightarrow> x < x + 1" for x :: "'a::len word"
proof -
  assume "x \<noteq> - 1"
  then have "1 + x \<noteq> 0" by (metis add_eq_0_iff)
  then have "unat (x + 1) = Suc (unat x)" by (simp add: unatSuc add.commute)
  then show ?thesis by (simp add: word_less_nat_alt)
qed

subsection \<open>Orderings\<close>

datatype ordering = Less | Equal | Greater

definition cmp :: "'a::linorder \<Rightarrow> 'a \<Rightarrow> ordering" where
  "cmp a b = (if a < b then Less else if a = b then Equal else Greater)"

fun then_with :: "ordering \<Rightarrow> ordering \<Rightarrow> ordering" where
  "then_with Equal o' = o'"
| "then_with Less _ = Less"
| "then_with Greater _ = Greater"

lemma cmp_simps [simp]:
  "cmp a b = Less \<longleftrightarrow> a < b"
  "cmp a b = Equal \<longleftrightarrow> a = b"
  "cmp a b = Greater \<longleftrightarrow> b < a"
  by (auto simp: cmp_def)

lemma then_with_simps [simp]:
  "then_with a b = Less \<longleftrightarrow> a = Less \<or> a = Equal \<and> b = Less"
  "then_with a b = Equal \<longleftrightarrow> a = Equal \<and> b = Equal"
  "then_with a b = Greater \<longleftrightarrow> a = Greater \<or> a = Equal \<and> b = Greater"
  by (cases a; cases b; simp)+

subsection \<open>Vectors\<close>

definition resize :: "'a list \<Rightarrow> nat \<Rightarrow> 'a \<Rightarrow> 'a list" where
  "resize xs n x = take n xs @ replicate (n - length xs) x"

lemma length_resize [simp]: "length (resize xs n x) = n"
  by (simp add: resize_def)

lemma nth_resize: "i < n \<Longrightarrow> resize xs n x ! i = (if i < length xs then xs ! i else x)"
  by (auto simp: resize_def nth_append)

text \<open>
  \<open>for (l, r) in left.iter_mut().zip(right) { *l = f(l, r) }\<close>: the elements of the left vector
  past the end of the right one are left alone.
\<close>

fun zip_update :: "('a \<Rightarrow> 'b \<Rightarrow> 'a) \<Rightarrow> 'a list \<Rightarrow> 'b list \<Rightarrow> 'a list" where
  "zip_update f (x # xs) (y # ys) = f x y # zip_update f xs ys"
| "zip_update f xs _ = xs"

lemma length_zip_update [simp]: "length (zip_update f xs ys) = length xs"
  by (induction f xs ys rule: zip_update.induct) auto

lemma nth_zip_update:
  "i < length xs \<Longrightarrow>
     zip_update f xs ys ! i = (if i < length ys then f (xs ! i) (ys ! i) else xs ! i)"
  by (induction f xs ys arbitrary: i rule: zip_update.induct) (auto simp: nth_Cons split: nat.splits)

subsection \<open>Panics\<close>

text \<open>
  A function that can panic (\<open>unwrap\<close> on \<open>None\<close>, an index out of range, an \<open>assert!\<close>, an
  \<open>ArrayVec\<close> over its capacity) returns an \<open>option\<close>, \<open>None\<close> being the panic, and is written
  with the library's \<open>do\<close> notation. \<open>guard c\<close> is \<open>assert!(c)\<close>.
\<close>

definition guard :: "bool \<Rightarrow> unit option" where
  "guard c = (if c then Some () else None)"

lemma guard_simps [simp]: "guard True = Some ()" "guard False = None" "guard c = Some u \<longleftrightarrow> c"
  by (auto simp: guard_def)

definition vec_first :: "'a list \<Rightarrow> 'a option" where
  "vec_first xs = (case xs of [] \<Rightarrow> None | x # _ \<Rightarrow> Some x)"

definition vec_last :: "'a list \<Rightarrow> 'a option" where
  "vec_last xs = (if xs = [] then None else Some (last xs))"

definition vec_get :: "'a list \<Rightarrow> nat \<Rightarrow> 'a option" where
  "vec_get xs i = (if i < length xs then Some (xs ! i) else None)"

lemma vec_simps [simp]:
  "vec_first [] = None" "vec_first (x # xs) = Some x"
  "vec_last [] = None" "xs \<noteq> [] \<Longrightarrow> vec_last xs = Some (last xs)"
  "i < length xs \<Longrightarrow> vec_get xs i = Some (xs ! i)"
  by (simp_all add: vec_first_def vec_last_def vec_get_def)

lemma vec_first_append: "xs \<noteq> [] \<Longrightarrow> vec_first (xs @ ys) = vec_first xs"
  by (cases xs) auto

lemma vec_last_append: "ys \<noteq> [] \<Longrightarrow> vec_last (xs @ ys) = vec_last ys"
  by (simp add: vec_last_def)

text \<open>\<open>xs[..xs.len() - 1]\<close> followed by a new last element: an assignment through
  \<open>last_mut().unwrap()\<close>.\<close>

definition set_last :: "'a list \<Rightarrow> 'a \<Rightarrow> 'a list option" where
  "set_last xs x = (if xs = [] then None else Some (butlast xs @ [x]))"

definition set_first :: "'a list \<Rightarrow> 'a \<Rightarrow> 'a list option" where
  "set_first xs x = (case xs of [] \<Rightarrow> None | _ # ys \<Rightarrow> Some (x # ys))"

text \<open>Splitting \<open>n\<close> elements at the rounded-up midpoint.\<close>

lemma midpoint_bounds:
  fixes n c :: nat
  assumes "1 < n" and "n \<le> 2 * c"
  shows "0 < (n + 1) div 2" "(n + 1) div 2 < n" "(n + 1) div 2 \<le> c" "n - (n + 1) div 2 \<le> c"
  using assms by linarith+

lemma midpoint_mod: "(n + n mod 2) div 2 = (n + 1) div 2" for n :: nat
  by presburger

end
