(* ===== verification/Clock.thy ===== *)
theory Clock
  imports Prelude
begin

text \<open>
  The logical clocks of \<open>crates/clock/src/clock.rs\<close>: replica ids, Lamport timestamps with the
  tie-breaking order that makes them total, and version vectors (\<open>Global\<close>) with observe, join
  and meet. Integers are machine words; the arithmetic is that of the release build, which wraps.
\<close>

subsection \<open>Replica ids\<close>

datatype replica_id = ReplicaId (as_u16: u16)

definition LOCAL :: replica_id where "LOCAL = ReplicaId 0"
definition REMOTE_SERVER :: replica_id where "REMOTE_SERVER = ReplicaId 1"
definition AGENT :: replica_id where "AGENT = ReplicaId 2"
definition LOCAL_BRANCH :: replica_id where "LOCAL_BRANCH = ReplicaId 3"
definition FIRST_COLLAB_ID :: replica_id where "FIRST_COLLAB_ID = ReplicaId 8"

instantiation replica_id :: linorder
begin

definition less_eq_replica_id :: "replica_id \<Rightarrow> replica_id \<Rightarrow> bool" where
  "less_eq_replica_id a b \<longleftrightarrow> as_u16 a \<le> as_u16 b"

definition less_replica_id :: "replica_id \<Rightarrow> replica_id \<Rightarrow> bool" where
  "less_replica_id a b \<longleftrightarrow> as_u16 a < as_u16 b"

instance
  by standard (auto simp: less_eq_replica_id_def less_replica_id_def intro: replica_id.expand)

end

definition is_remote :: "replica_id \<Rightarrow> bool" where
  "is_remote r \<longleftrightarrow> r = REMOTE_SERVER \<or> FIRST_COLLAB_ID \<le> r"

subsection \<open>Lamport timestamps\<close>

datatype lamport = Lamport (lam_value: u32) (lam_replica: replica_id)

definition lamport_cmp :: "lamport \<Rightarrow> lamport \<Rightarrow> ordering" where
  "lamport_cmp a b =
     then_with (cmp (lam_value a) (lam_value b)) (cmp (lam_replica a) (lam_replica b))"

instantiation lamport :: linorder
begin

definition less_eq_lamport :: "lamport \<Rightarrow> lamport \<Rightarrow> bool" where
  "less_eq_lamport a b \<longleftrightarrow> lamport_cmp a b \<noteq> Greater"

definition less_lamport :: "lamport \<Rightarrow> lamport \<Rightarrow> bool" where
  "less_lamport a b \<longleftrightarrow> lamport_cmp a b = Less"

instance
  by standard
    (auto simp: less_eq_lamport_def less_lamport_def lamport_cmp_def intro: lamport.expand)

end

lemma lamport_less_iff:
  "a < b \<longleftrightarrow> lam_value a < lam_value b \<or> lam_value a = lam_value b \<and> lam_replica a < lam_replica b"
  for a b :: lamport
  by (simp add: less_lamport_def lamport_cmp_def)

lemma lamport_le_iff:
  "a \<le> b \<longleftrightarrow> lam_value a < lam_value b \<or> lam_value a = lam_value b \<and> lam_replica a \<le> lam_replica b"
  for a b :: lamport
  by (auto simp: less_eq_lamport_def lamport_cmp_def)

definition lamport_MIN :: lamport where "lamport_MIN = Lamport 0 (ReplicaId 0)"
definition lamport_MAX :: lamport where "lamport_MAX = Lamport (- 1) (ReplicaId (- 1))"

definition lamport_new :: "replica_id \<Rightarrow> lamport" where
  "lamport_new r = Lamport 1 r"

definition lamport_as_u64 :: "lamport \<Rightarrow> u64" where
  "lamport_as_u64 t = or (push_bit 32 (ucast (lam_value t))) (ucast (as_u16 (lam_replica t)))"

text \<open>\<open>tick\<close> and \<open>observe\<close> take \<open>&mut self\<close>: the new clock is returned (last).\<close>

definition lamport_tick :: "lamport \<Rightarrow> lamport \<times> lamport" where
  "lamport_tick c = (c, Lamport (lam_value c + 1) (lam_replica c))"

definition lamport_observe :: "lamport \<Rightarrow> lamport \<Rightarrow> lamport" where
  "lamport_observe c t = Lamport (max (lam_value c) (lam_value t) + 1) (lam_replica c)"

lemma lamport_MIN_least [simp]: "lamport_MIN \<le> t"
proof -
  have "0 < v \<or> 0 = v" for v :: u32 by (auto simp: word_gt_0)
  then show ?thesis by (simp add: lamport_le_iff lamport_MIN_def less_eq_replica_id_def)
qed

lemma lamport_MAX_greatest [simp]: "t \<le> lamport_MAX"
proof -
  have "v < - 1 \<or> v = - 1" for v :: u32 by (metis word_n1_ge order_le_less)
  then show ?thesis by (auto simp: lamport_le_iff lamport_MAX_def less_eq_replica_id_def)
qed

subsection \<open>Version vectors\<close>

datatype global = Global (g_values: "u32 list")

definition global_new :: global where "global_new = Global []"

definition global_get :: "global \<Rightarrow> replica_id \<Rightarrow> u32" where
  "global_get g r =
     (let i = unat (as_u16 r) in if i < length (g_values g) then g_values g ! i else 0)"

definition global_observe :: "global \<Rightarrow> lamport \<Rightarrow> global" where
  "global_observe g t =
     (if 0 < lam_value t then
        let i = unat (as_u16 (lam_replica t));
            new_len = i + 1;
            vs = (if length (g_values g) < new_len then resize (g_values g) new_len 0
                  else g_values g)
        in Global (vs[i := max (vs ! i) (lam_value t)])
      else g)"

definition global_join :: "global \<Rightarrow> global \<Rightarrow> global" where
  "global_join g other =
     (let vs = (if length (g_values g) < length (g_values other)
                then resize (g_values g) (length (g_values other)) 0 else g_values g)
      in Global (zip_update max vs (g_values other)))"

definition meet_entry :: "u32 \<Rightarrow> u32 \<Rightarrow> u32" where
  "meet_entry left right =
     (if left = 0 then right else if right = 0 then left else min left right)"

text \<open>The loop of \<open>meet\<close>: the index, the running \<open>new_len\<close>, and the zipped entries.\<close>

fun meet_loop :: "nat \<Rightarrow> nat \<Rightarrow> u32 list \<Rightarrow> u32 list \<Rightarrow> nat \<times> u32 list" where
  "meet_loop ix new_len (left # lefts) (right # rights) =
     (let left' = meet_entry left right;
          new_len' = (if left' \<noteq> 0 then ix + 1 else new_len);
          (n, rest) = meet_loop (ix + 1) new_len' lefts rights
      in (n, left' # rest))"
| "meet_loop ix new_len lefts _ = (new_len, lefts)"

definition global_meet :: "global \<Rightarrow> global \<Rightarrow> global" where
  "global_meet g other =
     (let vs = (if length (g_values g) < length (g_values other)
                then resize (g_values g) (length (g_values other)) 0 else g_values g);
          (new_len, vs') = meet_loop 0 0 vs (g_values other)
      in Global (if length (g_values other) = length vs' then take new_len vs' else vs'))"

definition global_iter :: "global \<Rightarrow> lamport list" where
  "global_iter g =
     map (\<lambda>(i, seq). Lamport seq (ReplicaId (of_nat i))) (enumerate 0 (g_values g))"

definition global_observed :: "global \<Rightarrow> lamport \<Rightarrow> bool" where
  "global_observed g t \<longleftrightarrow> lam_value t \<le> global_get g (lam_replica t)"

definition global_observed_any :: "global \<Rightarrow> global \<Rightarrow> bool" where
  "global_observed_any g other \<longleftrightarrow>
     list_ex (\<lambda>(left, right). 0 < lam_value right \<and> lam_value right \<le> lam_value left)
       (zip (global_iter g) (global_iter other))"

definition global_observed_all :: "global \<Rightarrow> global \<Rightarrow> bool" where
  "global_observed_all g other \<longleftrightarrow>
     (if length (g_values g) < length (g_values other) then False
      else list_all (\<lambda>(left, right). lam_value right \<le> lam_value left)
             (zip (global_iter g) (global_iter other)))"

definition global_changed_since :: "global \<Rightarrow> global \<Rightarrow> bool" where
  "global_changed_since g other \<longleftrightarrow>
     length (g_values other) < length (g_values g) \<or>
     list_ex (\<lambda>(left, right). right < left) (zip (g_values g) (g_values other))"

text \<open>\<open>max_by_key\<close> keeps the later of two elements with equal keys.\<close>

fun max_by_value :: "lamport list \<Rightarrow> lamport option" where
  "max_by_value [] = None"
| "max_by_value (t # ts) =
     Some (fold (\<lambda>u best. if lam_value best \<le> lam_value u then u else best) ts t)"

definition global_most_recent :: "global \<Rightarrow> lamport option" where
  "global_most_recent g = max_by_value (global_iter g)"

definition global_from_iter :: "lamport list \<Rightarrow> global" where
  "global_from_iter ts = foldl global_observe global_new ts"

subsection \<open>What the version vector operations mean\<close>

text \<open>
  A version vector is in normal form when it has no trailing zero entry and its indices fit a
  replica id. \<open>entry\<close> reads it as the total map it stands for.
\<close>

definition global_wf :: "global \<Rightarrow> bool" where
  "global_wf g \<longleftrightarrow>
     length (g_values g) \<le> 2 ^ 16 \<and> (g_values g = [] \<or> last (g_values g) \<noteq> 0)"

definition entry :: "u32 list \<Rightarrow> nat \<Rightarrow> u32" where
  "entry vs i = (if i < length vs then vs ! i else 0)"

lemma global_get_entry: "global_get g r = entry (g_values g) (unat (as_u16 r))"
  by (simp add: global_get_def entry_def Let_def)

lemma entry_simps [simp]: "entry [] i = 0"
  by (simp add: entry_def)

lemma entry_resize [simp]: "length vs \<le> n \<Longrightarrow> entry (resize vs n 0) i = entry vs i"
  by (simp add: entry_def nth_resize)

lemma entry_take: "(\<And>j. n \<le> j \<Longrightarrow> j < length vs \<Longrightarrow> vs ! j = 0) \<Longrightarrow> entry (take n vs) i = entry vs i"
  by (auto simp: entry_def)

lemma unat_replica_less: "unat (as_u16 r) < 2 ^ 16"
  using unsigned_less [of "as_u16 r"] by simp

lemma global_get_of_nat:
  "i < 2 ^ 16 \<Longrightarrow> global_get g (ReplicaId (of_nat i)) = entry (g_values g) i"
  by (simp add: global_get_entry unsigned_of_nat take_bit_nat_eq_self)

text \<open>Vectors in normal form are determined by what they observe, so \<open>PartialEq\<close> on the stored
  vectors is equality of version vectors.\<close>

lemma entry_ext:
  assumes "\<forall>i. entry xs i = entry ys i"
    and "xs = [] \<or> last xs \<noteq> 0" and "ys = [] \<or> last ys \<noteq> 0"
  shows "xs = ys"
proof -
  have le: "length us \<le> length vs"
    if "\<forall>i. entry us i = entry vs i" "us = [] \<or> last us \<noteq> 0" for us vs
  proof (rule ccontr)
    assume "\<not> length us \<le> length vs"
    then have "us \<noteq> []" "length vs \<le> length us - 1" by auto
    then have "entry us (length us - 1) = last us" "entry vs (length us - 1) = 0"
      by (auto simp: entry_def last_conv_nth)
    with that \<open>us \<noteq> []\<close> show False by metis
  qed
  from le [OF assms(1,2)] le [of ys xs] assms(1,3) have "length xs = length ys" by simp
  then show ?thesis using assms(1) by (metis entry_def nth_equalityI)
qed

lemma global_ext:
  assumes "global_wf a" and "global_wf b" and "\<And>r. global_get a r = global_get b r"
  shows "a = b"
proof -
  have "entry (g_values a) i = entry (g_values b) i" for i
  proof (cases "i < 2 ^ 16")
    case True
    then show ?thesis using assms(3) [of "ReplicaId (of_nat i)"] by (simp add: global_get_of_nat)
  next
    case False
    with assms(1,2) show ?thesis by (auto simp: entry_def global_wf_def)
  qed
  with assms(1,2) have "g_values a = g_values b"
    by (intro entry_ext) (auto simp: global_wf_def)
  then show ?thesis by (rule global.expand)
qed

lemma last_nonzero_entry: "vs \<noteq> [] \<Longrightarrow> last vs = entry vs (length vs - 1)"
  by (auto simp: entry_def last_conv_nth)

lemma global_wf_new [simp, inv_intros]: "global_wf global_new"
  by (simp add: global_wf_def global_new_def)

lemma global_get_new [simp, abs_simps]: "global_get global_new r = 0"
  by (simp add: global_get_entry global_new_def)

subsubsection \<open>Observe\<close>

lemma entry_list_update:
  "i < length vs \<Longrightarrow> entry (vs[i := x]) j = (if j = i then x else entry vs j)"
  by (auto simp: entry_def)

lemma length_observe:
  "length (g_values (global_observe g t)) =
     (if 0 < lam_value t then max (length (g_values g)) (unat (as_u16 (lam_replica t)) + 1)
      else length (g_values g))"
  by (auto simp: global_observe_def Let_def)

lemma entry_observe:
  "entry (g_values (global_observe g t)) j =
     (if j = unat (as_u16 (lam_replica t)) then max (entry (g_values g) j) (lam_value t)
      else entry (g_values g) j)"
proof -
  have z: "\<not> 0 < lam_value t \<Longrightarrow> lam_value t = 0"
    by (simp add: word_gt_0)
  have m: "max x 0 = x" for x :: u32 by (simp add: max_def)
  show ?thesis
    by (auto simp: global_observe_def Let_def entry_list_update nth_resize entry_def m dest: z)
qed

lemma global_get_observe [abs_simps]:
  "global_get (global_observe g t) r =
     (if r = lam_replica t then max (global_get g r) (lam_value t) else global_get g r)"
proof -
  have "unat (as_u16 r) = unat (as_u16 (lam_replica t)) \<longleftrightarrow> r = lam_replica t"
    by (metis word_unat_eq_iff replica_id.expand)
  then show ?thesis by (simp add: global_get_entry entry_observe)
qed

lemma max_word_nonzero: "x \<noteq> 0 \<or> y \<noteq> 0 \<Longrightarrow> max x y \<noteq> 0" for x y :: "'a::len word"
  by (auto simp: max_def)

lemma global_wf_observe [inv_intros]:
  assumes "global_wf g" shows "global_wf (global_observe g t)"
proof (cases "0 < lam_value t")
  case True
  let ?n = "max (length (g_values g)) (unat (as_u16 (lam_replica t)) + 1)"
  have "entry (g_values (global_observe g t)) (?n - 1) \<noteq> 0"
  proof (cases "?n - 1 = unat (as_u16 (lam_replica t))")
    case True
    with \<open>0 < lam_value t\<close> show ?thesis by (simp add: entry_observe max_word_nonzero word_gt_0)
  next
    case False
    then have "?n = length (g_values g)" "g_values g \<noteq> []" by auto
    with False assms show ?thesis by (auto simp: entry_observe last_nonzero_entry global_wf_def)
  qed
  then show ?thesis using assms True unat_replica_less [of "lam_replica t"]
    by (auto simp: global_wf_def last_nonzero_entry length_observe)
qed (use assms in \<open>simp add: global_observe_def\<close>)

subsubsection \<open>Join and meet\<close>

lemma entry_zip_update:
  "length ys \<le> length xs \<Longrightarrow> (\<And>x. f x 0 = x) \<Longrightarrow>
     entry (zip_update f xs ys) i = f (entry xs i) (entry ys i)"
  by (auto simp: entry_def nth_zip_update)

lemma global_get_join [abs_simps]:
  "global_get (global_join a b) r = max (global_get a r) (global_get b r)"
  by (auto simp: global_join_def Let_def global_get_entry entry_zip_update max_def)

lemma global_wf_join [inv_intros]:
  assumes "global_wf a" and "global_wf b" shows "global_wf (global_join a b)"
proof -
  let ?n = "max (length (g_values a)) (length (g_values b))"
  have len: "length (g_values (global_join a b)) = ?n"
    by (simp add: global_join_def Let_def)
  have ent: "entry (g_values (global_join a b)) i = max (entry (g_values a) i) (entry (g_values b) i)"
    for i by (auto simp: global_join_def Let_def entry_zip_update max_def)
  have "?n \<noteq> 0 \<Longrightarrow> entry (g_values (global_join a b)) (?n - 1) \<noteq> 0"
    unfolding ent using assms by (intro max_word_nonzero) (auto simp: global_wf_def last_nonzero_entry max_def)
  then show ?thesis using assms len
    by (cases "?n = 0") (auto simp: global_wf_def last_nonzero_entry)
qed

lemma meet_loop_entries: "snd (meet_loop ix n xs ys) = zip_update meet_entry xs ys"
  by (induction ix n xs ys rule: meet_loop.induct) (auto simp: Let_def split: prod.splits)

lemma meet_loop_new_len_last:
  "meet_loop ix n xs ys = (n', zs) \<Longrightarrow>
     n' = n \<or> ix < n' \<and> n' \<le> ix + length zs \<and> zs ! (n' - Suc ix) \<noteq> 0"
proof (induction ix n xs ys arbitrary: n' zs rule: meet_loop.induct)
  case (1 ix n x xs y ys)
  from "1.prems" obtain rest where rest: "zs = meet_entry x y # rest"
    and rec: "meet_loop (ix + 1) (if meet_entry x y \<noteq> 0 then ix + 1 else n) xs ys = (n', rest)"
    by (auto simp: Let_def split: prod.splits)
  from "1.IH" [OF refl refl rec] show ?case
    by (auto simp: rest nth_Cons' split: if_splits)
qed auto

lemma meet_loop_zero_tail:
  "meet_loop ix n xs ys = (n', zs) \<Longrightarrow> length xs = length ys \<Longrightarrow> n \<le> ix \<Longrightarrow>
     n \<le> n' \<and> (\<forall>j < length zs. n' \<le> ix + j \<longrightarrow> zs ! j = 0)"
proof (induction ix n xs ys arbitrary: n' zs rule: meet_loop.induct)
  case (1 ix n x xs y ys)
  from "1.prems" obtain rest where rest: "zs = meet_entry x y # rest"
    and rec: "meet_loop (ix + 1) (if meet_entry x y \<noteq> 0 then ix + 1 else n) xs ys = (n', rest)"
    by (auto simp: Let_def split: prod.splits)
  have "(if meet_entry x y \<noteq> 0 then ix + 1 else n) \<le> n' \<and>
      (\<forall>j < length rest. n' \<le> ix + 1 + j \<longrightarrow> rest ! j = 0)"
    using "1.prems" by (intro "1.IH" [OF refl refl rec]) auto
  with \<open>n \<le> ix\<close> show ?case
    by (auto simp: rest nth_Cons split: if_splits nat.splits)
qed auto

lemma entry_meet:
  "entry (g_values (global_meet a b)) i = meet_entry (entry (g_values a) i) (entry (g_values b) i)"
proof -
  let ?vs = "if length (g_values a) < length (g_values b)
             then resize (g_values a) (length (g_values b)) 0 else g_values a"
  obtain n zs where loop: "meet_loop 0 0 ?vs (g_values b) = (n, zs)" by fastforce
  have zs: "zs = zip_update meet_entry ?vs (g_values b)"
    using meet_loop_entries [of 0 0 ?vs "g_values b"] loop by simp
  have ent: "entry zs i = meet_entry (entry (g_values a) i) (entry (g_values b) i)"
    unfolding zs by (subst entry_zip_update) (auto simp: meet_entry_def)
  have "length (g_values b) = length zs \<Longrightarrow> entry (take n zs) i = entry zs i"
    using meet_loop_zero_tail [OF loop] by (intro entry_take) (simp add: zs)
  with ent show ?thesis by (simp add: global_meet_def loop)
qed

lemma global_get_meet [abs_simps]:
  "global_get (global_meet a b) r =
     (if global_get a r = 0 then global_get b r
      else if global_get b r = 0 then global_get a r
      else min (global_get a r) (global_get b r))"
  by (simp add: global_get_entry entry_meet meet_entry_def)

lemma global_wf_meet [inv_intros]:
  assumes "global_wf a" and "global_wf b" shows "global_wf (global_meet a b)"
proof -
  let ?vs = "if length (g_values a) < length (g_values b)
             then resize (g_values a) (length (g_values b)) 0 else g_values a"
  obtain n zs where loop: "meet_loop 0 0 ?vs (g_values b) = (n, zs)" by fastforce
  have len: "length zs = max (length (g_values a)) (length (g_values b))"
    using arg_cong [OF meet_loop_entries [of 0 0 ?vs "g_values b"], of length] loop by auto
  have vals: "g_values (global_meet a b) = (if length (g_values b) = length zs then take n zs else zs)"
    by (simp add: global_meet_def loop)
  show ?thesis
  proof (cases "length (g_values b) = length zs")
    case True
    have n: "n = 0 \<or> 0 < n \<and> n \<le> length zs \<and> zs ! (n - 1) \<noteq> 0"
      using meet_loop_new_len_last [OF loop] by auto
    have v: "g_values (global_meet a b) = take n zs" using vals True by simp
    have "take n zs = [] \<or> last (take n zs) \<noteq> 0"
      using n by (auto simp: last_conv_nth)
    moreover have "length (take n zs) \<le> 2 ^ 16"
      using True assms(2) by (auto simp: global_wf_def)
    ultimately show ?thesis unfolding global_wf_def v by simp
  next
    case False
    with len have long: "length (g_values b) < length (g_values a)" by auto
    with False len vals have l: "length (g_values (global_meet a b)) = length (g_values a)" by auto
    from long have ne: "g_values a \<noteq> []" by auto
    have "entry (g_values (global_meet a b)) (length (g_values a) - 1) = last (g_values a)"
      unfolding entry_meet using long ne by (auto simp: meet_entry_def entry_def last_conv_nth)
    with assms(1) long have "entry (g_values (global_meet a b)) (length (g_values a) - 1) \<noteq> 0"
      by (auto simp: global_wf_def)
    then have "last (g_values (global_meet a b)) \<noteq> 0"
      using long l by (subst last_nonzero_entry) auto
    with assms(1) l show ?thesis by (simp add: global_wf_def)
  qed
qed

subsubsection \<open>Comparisons\<close>

lemma length_global_iter [simp]: "length (global_iter g) = length (g_values g)"
  by (simp add: global_iter_def)

lemma nth_global_iter:
  "i < length (g_values g) \<Longrightarrow>
     global_iter g ! i = Lamport (g_values g ! i) (ReplicaId (of_nat i))"
  by (simp add: global_iter_def nth_enumerate_eq)

lemma entry_le_iff_get:
  assumes "global_wf b"
  shows "(\<forall>r. global_get b r \<le> global_get a r) \<longleftrightarrow>
    (\<forall>i < length (g_values b). entry (g_values b) i \<le> entry (g_values a) i)" (is "?l \<longleftrightarrow> ?r")
proof
  assume l: ?l
  show ?r
  proof (intro allI impI)
    fix i assume "i < length (g_values b)"
    then have "i < 2 ^ 16" using assms by (simp add: global_wf_def)
    then show "entry (g_values b) i \<le> entry (g_values a) i"
      using l by (metis global_get_of_nat)
  qed
next
  assume ?r
  then have "entry (g_values b) i \<le> entry (g_values a) i" for i
    by (cases "i < length (g_values b)") (auto simp: entry_def)
  then show ?l by (simp add: global_get_entry)
qed

lemma last_entry_bound:
  assumes "global_wf b" and "\<forall>i < length (g_values b). entry (g_values b) i \<le> entry vs i"
  shows "length (g_values b) \<le> length vs"
proof (rule ccontr)
  assume neg: "\<not> length (g_values b) \<le> length vs"
  then have ne: "g_values b \<noteq> []" by auto
  let ?i = "length (g_values b) - 1"
  have "entry (g_values b) ?i \<le> entry vs ?i" using assms(2) ne by simp
  moreover have "length vs \<le> ?i" using neg by auto
  then have "entry vs ?i = 0" by (simp add: entry_def)
  ultimately have "last (g_values b) = 0" using ne by (simp add: last_nonzero_entry)
  with assms(1) ne show False by (simp add: global_wf_def)
qed

lemma global_observed_all_iff_entries:
  "global_observed_all a b \<longleftrightarrow> length (g_values b) \<le> length (g_values a) \<and>
      (\<forall>i < length (g_values b). entry (g_values b) i \<le> entry (g_values a) i)"
  by (auto simp: global_observed_all_def list_all_length nth_global_iter entry_def)

lemma global_observed_all_iff_get:
  assumes "global_wf b"
  shows "global_observed_all a b \<longleftrightarrow> (\<forall>r. global_get b r \<le> global_get a r)"
  unfolding global_observed_all_iff_entries
    using last_entry_bound [OF assms, of "g_values a"] entry_le_iff_get [OF assms, of a] by blast

lemma global_changed_since_iff_get:
  assumes "global_wf a"
  shows "global_changed_since a b \<longleftrightarrow> \<not> global_observed_all b a"
proof -
  have "global_changed_since a b \<longleftrightarrow> length (g_values b) < length (g_values a) \<or>
      (\<exists>i < length (g_values a). entry (g_values b) i < entry (g_values a) i)"
  proof (cases "length (g_values b) < length (g_values a)")
    case False
    then show ?thesis
      by (simp add: global_changed_since_def list_ex_length entry_def cong: conj_cong)
  qed (simp add: global_changed_since_def)
  also have "\<dots> \<longleftrightarrow> \<not> (length (g_values a) \<le> length (g_values b) \<and>
      (\<forall>i < length (g_values a). entry (g_values a) i \<le> entry (g_values b) i))"
    by (simp only: de_Morgan_conj not_all not_imp not_le)
  finally show ?thesis by (simp only: global_observed_all_iff_entries)
qed

lemma global_wf_from_iter [inv_intros]: "global_wf (global_from_iter ts)"
proof -
  have "global_wf g \<Longrightarrow> global_wf (foldl global_observe g ts)" for g
    by (induction ts arbitrary: g) (auto intro: global_wf_observe)
  then show ?thesis by (simp add: global_from_iter_def)
qed

lemma word_zero_observed [simp]: "(0::u32) \<le> x" by simp

lemma fold_max_value:
  "let m = fold (\<lambda>u best. if lam_value best \<le> lam_value u then u else best) ts t
   in m \<in> insert t (set ts) \<and> (\<forall>u \<in> insert t (set ts). lam_value u \<le> lam_value m)"
proof (induction ts arbitrary: t)
  case (Cons u ts)
  show ?case
    using Cons.IH [of u] Cons.IH [of t]
    by (cases "lam_value t \<le> lam_value u") (auto simp: Let_def intro: order_trans)
qed simp

subsection \<open>Properties\<close>

lemma lamport_as_u64_value:
  "unat (lamport_as_u64 t) = unat (lam_value t) * 2 ^ 32 + unat (as_u16 (lam_replica t))"
proof -
  let ?v = "push_bit 32 (ucast (lam_value t)) :: u64" and ?r = "ucast (as_u16 (lam_replica t)) :: u64"
  have v: "unat ?v = unat (lam_value t) * 2 ^ 32"
    using unat_bounds(3) [of "lam_value t"]
    by (simp add: push_bit_eq_mult unat_word_ariths unsigned_ucast_eq take_bit_nat_eq_self)
  have r: "unat ?r = unat (as_u16 (lam_replica t))"
    using unat_bounds(2) [of "as_u16 (lam_replica t)"]
    by (simp add: unsigned_ucast_eq take_bit_nat_eq_self)
  have "\<not> bit ?v n \<or> \<not> bit ?r n" for n
    using bit_imp_le_length [of "as_u16 (lam_replica t)" n] by (auto simp: bit_simps)
  then have "lamport_as_u64 t = ?v + ?r"
    unfolding lamport_as_u64_def by (intro disjunctive_add_eq_or [symmetric]) (auto simp: bit_eq_iff bit_and_iff)
  moreover have "unat ?v + unat ?r < 2 ^ 64"
    unfolding v r using unat_bounds(3) [of "lam_value t"] unat_bounds(2) [of "as_u16 (lam_replica t)"]
    by simp
  ultimately show ?thesis using v r by (simp add: unat_word_ariths)
qed

text \<open>The 64-bit key of a Lamport timestamp embeds the total order of timestamps: packing the
  counter above the replica id and comparing the packed words decides exactly \<open>Ord for Lamport\<close>.\<close>

theorem lamport_as_u64_order: "lamport_as_u64 a < lamport_as_u64 b \<longleftrightarrow> a < b"
proof -
  have r: "unat (as_u16 x) < 2 ^ 32" for x
    using unat_bounds(2) [of "as_u16 x"] by simp
  have lex: "(p * 2 ^ 32 + q < p' * 2 ^ 32 + q') = (p < p' \<or> p = p' \<and> q < q')"
    if "q < 2 ^ 32" "q' < 2 ^ 32" for p q p' q' :: nat
    using that by (cases p p' rule: linorder_cases) auto
  show ?thesis
    unfolding word_less_nat_alt lamport_as_u64_value lamport_less_iff less_replica_id_def
    using lex [OF r r] by (simp add: word_less_nat_alt word_unat_eq_iff)
qed

text \<open>A replica that observes a timestamp and then ticks issues a timestamp strictly later than
  the observed one and than everything it issued before, provided the 32-bit counter is not at its
  maximum (the release build wraps there).\<close>

theorem lamport_observe_then_tick:
  assumes "lam_value c \<noteq> - 1" and "lam_value t \<noteq> - 1"
  shows "t < fst (lamport_tick (lamport_observe c t)) \<and> c < fst (lamport_tick (lamport_observe c t))"
proof -
  have "x < max x y + 1 \<and> y < max x y + 1" if "x \<noteq> - 1" "y \<noteq> - 1" for x y :: u32
    using that word_less_inc [of "max x y"] by (auto simp: max_def split: if_splits)
  with assms show ?thesis
    by (auto simp: lamport_tick_def lamport_observe_def lamport_less_iff)
qed

theorem lamport_observe_then_tick_witness:
  "Lamport 7 (ReplicaId 9) < fst (lamport_tick (lamport_observe (Lamport 3 (ReplicaId 8)) (Lamport 7 (ReplicaId 9))))"
  using lamport_observe_then_tick [of "Lamport 3 (ReplicaId 8)" "Lamport 7 (ReplicaId 9)"] by simp

text \<open>C4. Joining two version vectors is the least upper bound of what they have observed: the join
  has observed a timestamp exactly when one of the two has, it keeps the normal form, and the
  operation is commutative, associative and idempotent on the stored vectors themselves.\<close>

theorem global_join_semilattice:
  assumes "global_wf a" and "global_wf b" and "global_wf c"
  shows "(\<forall>t. global_observed (global_join a b) t \<longleftrightarrow> global_observed a t \<or> global_observed b t) \<and>
    global_wf (global_join a b) \<and>
    global_join a b = global_join b a \<and>
    global_join (global_join a b) c = global_join a (global_join b c) \<and>
    global_join a a = a"
  using assms
  by (auto simp: global_observed_def abs_simps le_max_iff_disj max.commute max.assoc max.left_commute
      intro!: global_ext inv_intros)

theorem global_join_semilattice_witness:
  "global_join (Global [3, 0, 5]) (Global [1, 4]) = global_join (Global [1, 4]) (Global [3, 0, 5])"
  using global_join_semilattice [of "Global [3, 0, 5]" "Global [1, 4]" "Global []"]
  by (simp add: global_wf_def)

text \<open>\<open>observed_all\<close> decides the pointwise order of version vectors (it never answers by length
  alone wrongly, because every operation keeps vectors free of trailing zeros), and
  \<open>changed_since\<close> is exactly its negation with the arguments swapped.\<close>

theorem global_observed_all_changed_since:
  assumes "global_wf a" and "global_wf b"
  shows "(global_observed_all a b \<longleftrightarrow> (\<forall>t. global_observed b t \<longrightarrow> global_observed a t)) \<and>
    (global_changed_since b a \<longleftrightarrow> \<not> global_observed_all a b)"
proof -
  have "(\<forall>r. global_get b r \<le> global_get a r) \<longleftrightarrow> (\<forall>t. global_observed b t \<longrightarrow> global_observed a t)"
    unfolding global_observed_def by (metis lamport.sel order_trans order_refl)
  with assms show ?thesis
    by (simp add: global_observed_all_iff_get global_changed_since_iff_get)
qed

theorem global_observed_all_changed_since_witness:
  "global_changed_since (Global [1, 4]) (Global [3, 0, 5]) \<longleftrightarrow>
     \<not> global_observed_all (Global [3, 0, 5]) (Global [1, 4])"
  using global_observed_all_changed_since [of "Global [3, 0, 5]" "Global [1, 4]"]
  by (simp add: global_wf_def)

end
