(* ===== verification/SumTree.thy ===== *)
theory SumTree
  imports Prelude
begin

text \<open>
  The summarised B+ tree of \<open>crates/sum_tree/src/sum_tree.rs\<close>. A leaf holds items and their
  summaries, an internal node holds subtrees and their summaries, and every node caches the sum of
  the summaries below it. The traits \<open>Item\<close> and \<open>Summary\<close> are a dictionary of operations
  passed to every function, as the compiler passes them; the laws a caller's dictionary must
  satisfy are the locale \<open>summary_laws\<close>. \<open>Arc\<close> and \<open>make_mut\<close> (copy on write) are values here.
  A panic (\<open>ArrayVec\<close> over capacity, \<open>unwrap\<close> on an empty vector, \<open>unreachable!\<close>) is \<open>None\<close>,
  and the correctness theorems show that it never happens on well-formed trees.
\<close>

subsection \<open>Dictionaries for the traits\<close>

record ('t, 's) item_ops =
  item_summary :: "'t \<Rightarrow> 's"
  s_zero :: 's
  s_add :: "'s \<Rightarrow> 's \<Rightarrow> 's"

record ('d, 's) dim_ops =
  d_zero :: 'd
  d_add :: "'d \<Rightarrow> 's \<Rightarrow> 'd"

definition from_summary_dim :: "('d, 's) dim_ops \<Rightarrow> 's \<Rightarrow> 'd" where
  "from_summary_dim D s = d_add D (d_zero D) s"

text \<open>A \<open>SeekTarget\<close> is its comparison with a cursor location.\<close>

type_synonym 'd seek_target = "'d \<Rightarrow> ordering"

datatype bias = Left | Right

fun bias_invert :: "bias \<Rightarrow> bias" where
  "bias_invert Left = Right"
| "bias_invert Right = Left"

text \<open>\<open>Dimensions<D1, D2>\<close>: two dimensions measured together; a target in the first seeks in the
  pair.\<close>

definition dimensions2 :: "('d, 's) dim_ops \<Rightarrow> ('e, 's) dim_ops \<Rightarrow> ('d \<times> 'e, 's) dim_ops" where
  "dimensions2 D E = \<lparr>d_zero = (d_zero D, d_zero E),
                      d_add = (\<lambda>(d, e) s. (d_add D d s, d_add E e s))\<rparr>"

definition target_fst :: "'d seek_target \<Rightarrow> ('d \<times> 'e) seek_target" where
  "target_fst tgt = (\<lambda>(d, _). tgt d)"

subsection \<open>Nodes\<close>

definition TREE_BASE :: nat where "TREE_BASE = 6"

lemma TREE_BASE_bounds [simp]: "0 < TREE_BASE" "TREE_BASE \<noteq> 0" "Suc 0 < TREE_BASE"
  "Suc 0 \<le> TREE_BASE" "Suc 0 \<le> 2 * TREE_BASE" "Suc (Suc 0) \<le> 2 * TREE_BASE" "Suc 0 < 2 * TREE_BASE"
  by (simp_all add: TREE_BASE_def)

datatype ('t, 's) sum_tree =
    Internal (height_of: nat) 's "'s list" "('t, 's) sum_tree list"
  | Leaf 's "'t list" "'s list"

fun is_leaf :: "('t, 's) sum_tree \<Rightarrow> bool" where
  "is_leaf (Leaf _ _ _) = True"
| "is_leaf (Internal _ _ _ _) = False"

fun height :: "('t, 's) sum_tree \<Rightarrow> nat" where
  "height (Internal h _ _ _) = h"
| "height (Leaf _ _ _) = 0"

fun summary :: "('t, 's) sum_tree \<Rightarrow> 's" where
  "summary (Internal _ s _ _) = s"
| "summary (Leaf s _ _) = s"

fun child_summaries :: "('t, 's) sum_tree \<Rightarrow> 's list" where
  "child_summaries (Internal _ _ css _) = css"
| "child_summaries (Leaf _ _ iss) = iss"

fun child_trees :: "('t, 's) sum_tree \<Rightarrow> ('t, 's) sum_tree list option" where
  "child_trees (Internal _ _ _ cts) = Some cts"
| "child_trees (Leaf _ _ _) = None"

fun node_items :: "('t, 's) sum_tree \<Rightarrow> 't list option" where
  "node_items (Leaf _ its _) = Some its"
| "node_items (Internal _ _ _ _) = None"

fun is_underflowing :: "('t, 's) sum_tree \<Rightarrow> bool" where
  "is_underflowing (Internal _ _ _ cts) = (length cts < TREE_BASE)"
| "is_underflowing (Leaf _ its _) = (length its < TREE_BASE)"

fun is_empty :: "('t, 's) sum_tree \<Rightarrow> bool" where
  "is_empty (Internal _ _ _ _) = False"
| "is_empty (Leaf _ its _) = (its = [])"

definition s_sum :: "('t, 's) item_ops \<Rightarrow> 's list \<Rightarrow> 's" where
  "s_sum I ss = foldl (s_add I) (s_zero I) ss"

text \<open>Filling an \<open>ArrayVec\<close> of capacity \<open>2 * TREE_BASE\<close>.\<close>

definition array_vec :: "'a list \<Rightarrow> 'a list option" where
  "array_vec xs = (if length xs \<le> 2 * TREE_BASE then Some xs else None)"

lemma array_vec_Some [simp]: "length xs \<le> 2 * TREE_BASE \<Longrightarrow> array_vec xs = Some xs"
  by (simp add: array_vec_def)

subsection \<open>Construction\<close>

definition new :: "('t, 's) item_ops \<Rightarrow> ('t, 's) sum_tree" where
  "new I = Leaf (s_zero I) [] []"

definition from_summary :: "'s \<Rightarrow> ('t, 's) sum_tree" where
  "from_summary s = Leaf s [] []"

definition from_child_trees ::
    "('t, 's) item_ops \<Rightarrow> ('t, 's) sum_tree \<Rightarrow> ('t, 's) sum_tree \<Rightarrow> ('t, 's) sum_tree" where
  "from_child_trees I left right =
     (let css = [summary left, summary right]
      in Internal (height left + 1) (s_sum I css) css [left, right])"

text \<open>
  \<open>push_tree_recursive\<close>: append a tree that is not higher at the right edge; a node that grows
  over its capacity is split at the midpoint and the right half is returned.
\<close>

definition split_internal ::
    "('t, 's) item_ops \<Rightarrow> nat \<Rightarrow> 's \<Rightarrow> 's list \<Rightarrow> ('t, 's) sum_tree list \<Rightarrow> 's list \<Rightarrow>
      ('t, 's) sum_tree list \<Rightarrow> (('t, 's) sum_tree \<times> ('t, 's) sum_tree option) option" where
  "split_internal I h s css cts summaries_to_append trees_to_append =
     (let child_count = length cts + length trees_to_append;
          midpoint = (child_count + child_count mod 2) div 2;
          all_summaries = css @ summaries_to_append;
          all_trees = cts @ trees_to_append
      in if 2 * TREE_BASE < child_count then do {
           left_summaries \<leftarrow> array_vec (take midpoint all_summaries);
           right_summaries \<leftarrow> array_vec (drop midpoint all_summaries);
           left_trees \<leftarrow> array_vec (take midpoint all_trees);
           right_trees \<leftarrow> array_vec (drop midpoint all_trees);
           Some (Internal h (s_sum I left_summaries) left_summaries left_trees,
                 Some (Internal h (s_sum I right_summaries) right_summaries right_trees))
         } else do {
           css' \<leftarrow> array_vec all_summaries;
           cts' \<leftarrow> array_vec all_trees;
           Some (Internal h s css' cts', None)
         })"

definition split_leaf ::
    "('t, 's) item_ops \<Rightarrow> 's \<Rightarrow> 't list \<Rightarrow> 's list \<Rightarrow> 's \<Rightarrow> 't list \<Rightarrow> 's list \<Rightarrow>
      (('t, 's) sum_tree \<times> ('t, 's) sum_tree option) option" where
  "split_leaf I s its iss other_summary other_items other_summaries =
     (let child_count = length its + length other_items;
          midpoint = (child_count + child_count mod 2) div 2;
          all_items = its @ other_items;
          all_summaries = iss @ other_summaries
      in if 2 * TREE_BASE < child_count then do {
           left_items \<leftarrow> array_vec (take midpoint all_items);
           right_items \<leftarrow> array_vec (drop midpoint all_items);
           left_summaries \<leftarrow> array_vec (take midpoint all_summaries);
           right_summaries \<leftarrow> array_vec (drop midpoint all_summaries);
           Some (Leaf (s_sum I left_summaries) left_items left_summaries,
                 Some (Leaf (s_sum I right_summaries) right_items right_summaries))
         } else do {
           its' \<leftarrow> array_vec all_items;
           iss' \<leftarrow> array_vec all_summaries;
           Some (Leaf (s_add I s other_summary) its' iss', None)
         })"

function (sequential) push_tree_recursive ::
    "('t, 's) item_ops \<Rightarrow> ('t, 's) sum_tree \<Rightarrow> ('t, 's) sum_tree \<Rightarrow>
      (('t, 's) sum_tree \<times> ('t, 's) sum_tree option) option" where
  "push_tree_recursive I (Internal h s css cts) other =
     (let s' = s_add I s (summary other); height_delta = h - height other
      in if h < height other then None
         else if height_delta = 0 then do {
           trees_to_append \<leftarrow> child_trees other;
           split_internal I h s' css cts (child_summaries other) trees_to_append
         }
         else if height_delta = 1 \<and> \<not> is_underflowing other then
           split_internal I h s' css cts [summary other] [other]
         else if cts = [] then None
         else do {
           (last_child, tree_to_append) \<leftarrow> push_tree_recursive I (last cts) other;
           cts' \<leftarrow> set_last cts last_child;
           css' \<leftarrow> set_last css (summary last_child);
           (case tree_to_append of
              None \<Rightarrow> split_internal I h s' css' cts' [] []
            | Some split_tree \<Rightarrow> split_internal I h s' css' cts' [summary split_tree] [split_tree])
         })"
| "push_tree_recursive I (Leaf s its iss) other = do {
     other_items \<leftarrow> node_items other;
     split_leaf I s its iss (summary other) other_items (child_summaries other)
   }"
  by pat_completeness auto

lemma size_last_child: "cts \<noteq> [] \<Longrightarrow> size (last cts) < Suc (n + size_list size cts)"
  by (metis last_in_set size_list_estimation' order_refl le_imp_less_Suc trans_le_add2)

lemma size_hd_child: "cts \<noteq> [] \<Longrightarrow> size (hd cts) < Suc (n + size_list size cts)"
  by (metis hd_in_set size_list_estimation' order_refl le_imp_less_Suc trans_le_add2)

termination push_tree_recursive
  by (relation "measure (\<lambda>(_, t, _). size t)") (auto simp: size_last_child)

text \<open>\<open>merge_into_right\<close>: the contents of \<open>small\<close> go in front of \<open>large\<close>; the result is the new
  \<open>large\<close> and, when the two do not fit one node, the left half.\<close>

fun merge_into_right ::
    "('t, 's) item_ops \<Rightarrow> ('t, 's) sum_tree \<Rightarrow> ('t, 's) sum_tree \<Rightarrow>
      (('t, 's) sum_tree \<times> ('t, 's) sum_tree option) option" where
  "merge_into_right I (Internal _ small_summary small_css small_cts) (Internal h s css cts) =
     (let total_child_count = length cts + length small_cts;
          all_trees = small_cts @ cts;
          all_summaries = small_css @ css
      in if total_child_count \<le> 2 * TREE_BASE then do {
           cts' \<leftarrow> array_vec all_trees;
           css' \<leftarrow> array_vec all_summaries;
           Some (Internal h (s_add I small_summary s) css' cts', None)
         } else do {
           let midpoint = (total_child_count + 1) div 2;
           left_trees \<leftarrow> array_vec (take midpoint all_trees);
           right_trees \<leftarrow> array_vec (drop midpoint all_trees);
           left_summaries \<leftarrow> array_vec (take midpoint all_summaries);
           right_summaries \<leftarrow> array_vec (drop midpoint all_summaries);
           Some (Internal h (s_sum I right_summaries) right_summaries right_trees,
                 Some (Internal h (s_sum I left_summaries) left_summaries left_trees))
         })"
| "merge_into_right I (Leaf small_summary small_items small_iss) (Leaf s its iss) =
     (let total_child_count = length small_items + length its;
          all_items = small_items @ its;
          all_summaries = small_iss @ iss
      in if total_child_count \<le> 2 * TREE_BASE then do {
           its' \<leftarrow> array_vec all_items;
           iss' \<leftarrow> array_vec all_summaries;
           Some (Leaf (s_add I small_summary s) its' iss', None)
         } else do {
           let midpoint = (total_child_count + 1) div 2;
           left_items \<leftarrow> array_vec (take midpoint all_items);
           right_items \<leftarrow> array_vec (drop midpoint all_items);
           left_summaries \<leftarrow> array_vec (take midpoint all_summaries);
           right_summaries \<leftarrow> array_vec (drop midpoint all_summaries);
           Some (Leaf (s_sum I right_summaries) right_items right_summaries,
                 Some (Leaf (s_sum I left_summaries) left_items left_summaries))
         })"
| "merge_into_right I _ _ = None"

text \<open>\<open>append_large\<close>: put a small tree in front of a large one; returns the new large tree and, when
  its root is full, a tree of the same height to go in front of it.\<close>

function (sequential) append_large ::
    "('t, 's) item_ops \<Rightarrow> ('t, 's) sum_tree \<Rightarrow> ('t, 's) sum_tree \<Rightarrow>
      (('t, 's) sum_tree \<times> ('t, 's) sum_tree option) option" where
  "append_large I small (Internal h s css cts) =
     (if height small = h then
        (if \<not> is_underflowing small then Some (Internal h s css cts, Some small)
         else merge_into_right I small (Internal h s css cts))
      else if cts = [] then None
      else do {
        (first, res) \<leftarrow> append_large I small (hd cts);
        css \<leftarrow> set_first css (summary first);
        cts \<leftarrow> set_first cts first;
        (case res of
           None \<Rightarrow> Some (Internal h (s_add I (summary small) s) css cts, None)
         | Some tree \<Rightarrow>
             if length cts < 2 * TREE_BASE then do {
               css \<leftarrow> array_vec (summary tree # css);
               cts \<leftarrow> array_vec (tree # cts);
               Some (Internal h (s_add I (summary small) s) css cts, None)
             } else do {
               new_css \<leftarrow> array_vec (summary tree # take TREE_BASE css);
               new_cts \<leftarrow> array_vec (tree # take TREE_BASE cts);
               Some (Internal h (s_sum I (drop TREE_BASE css)) (drop TREE_BASE css) (drop TREE_BASE cts),
                     Some (Internal h (s_sum I new_css) new_css new_cts))
             })
      })"
| "append_large I small (Leaf s its iss) =
     (if height small = 0 then
        (if \<not> is_underflowing small then Some (Leaf s its iss, Some small)
         else merge_into_right I small (Leaf s its iss))
      else None)"
  by pat_completeness auto
termination append_large
  by (relation "measure (\<lambda>(_, _, t). size t)") (auto simp: size_hd_child)

definition append_tree ::
    "('t, 's) item_ops \<Rightarrow> ('t, 's) sum_tree \<Rightarrow> ('t, 's) sum_tree \<Rightarrow> ('t, 's) sum_tree option" where
  "append_tree I self other =
     (if is_empty self then Some other
      else if \<not> is_leaf other \<or> \<not> is_empty other then
        if height self < height other then do {
          (other', tree) \<leftarrow> append_large I self other;
          (case tree of
             Some tree \<Rightarrow> Some (from_child_trees I tree other')
           | None \<Rightarrow> Some other')
        } else do {
          (self', split) \<leftarrow> push_tree_recursive I self other;
          (case split of
             Some split_tree \<Rightarrow> Some (from_child_trees I self' split_tree)
           | None \<Rightarrow> Some self')
        }
      else Some self)"

definition push :: "('t, 's) item_ops \<Rightarrow> ('t, 's) sum_tree \<Rightarrow> 't \<Rightarrow> ('t, 's) sum_tree option" where
  "push I self item =
     (let s = item_summary I item in append_tree I self (Leaf s [item] [s]))"

definition from_item :: "('t, 's) item_ops \<Rightarrow> 't \<Rightarrow> ('t, 's) sum_tree option" where
  "from_item I item = push I (new I) item"

subsection \<open>Bulk construction\<close>

text \<open>The first summary with the others added to it, as \<open>from_iter\<close> and \<open>from_par_iter\<close> compute a
  node's summary.\<close>

definition fold_summary :: "('t, 's) item_ops \<Rightarrow> 's list \<Rightarrow> 's" where
  "fold_summary I ss = foldl (s_add I) (hd ss) (tl ss)"

definition leaf_of :: "('t, 's) item_ops \<Rightarrow> 't list \<Rightarrow> ('t, 's) sum_tree" where
  "leaf_of I its = (let iss = map (item_summary I) its in Leaf (fold_summary I iss) its iss)"

fun leaf_chunks :: "('t, 's) item_ops \<Rightarrow> 't list \<Rightarrow> ('t, 's) sum_tree list" where
  "leaf_chunks I [] = []"
| "leaf_chunks I (x # xs) =
     leaf_of I (take (2 * TREE_BASE) (x # xs)) # leaf_chunks I (drop (2 * TREE_BASE) (x # xs))"

text \<open>One pass of the \<open>for child_node in nodes.drain(..)\<close> loop: the parent being filled, the
  children still to come; a full parent is moved to \<open>parent_nodes\<close>.\<close>

fun parent_level ::
    "('t, 's) item_ops \<Rightarrow> nat \<Rightarrow> ('s \<times> 's list \<times> ('t, 's) sum_tree list) option \<Rightarrow>
      ('t, 's) sum_tree list \<Rightarrow> ('t, 's) sum_tree list option" where
  "parent_level I h None [] = Some []"
| "parent_level I h (Some (s, css, cts)) [] = Some [Internal h s css cts]"
| "parent_level I h current (child # children) =
     (let (s, css, cts) = (case current of None \<Rightarrow> (s_zero I, [], []) | Some parent \<Rightarrow> parent)
      in do {
        let s' = s_add I s (summary child);
        css' \<leftarrow> array_vec (css @ [summary child]);
        cts' \<leftarrow> array_vec (cts @ [child]);
        if length cts' = 2 * TREE_BASE then do {
          rest \<leftarrow> parent_level I h None children;
          Some (Internal h s' css' cts' # rest)
        } else parent_level I h (Some (s', css', cts')) children
      })"

lemma parent_level_length:
  "parent_level I h cur cs = Some ps \<Longrightarrow> (case cur of None \<Rightarrow> True | Some (_, _, cts) \<Rightarrow> cts \<noteq> []) \<Longrightarrow>
     2 * length ps \<le> length cs + (case cur of None \<Rightarrow> 1 | Some _ \<Rightarrow> 2)"
proof (induction I h cur cs arbitrary: ps rule: parent_level.induct)
  case (3 I h current child children)
  obtain s css cts where p: "(case current of None \<Rightarrow> (s_zero I, [], []) | Some parent \<Rightarrow> parent) = (s, css, cts)"
    by (metis prod_cases3)
  from "3.prems"(1) obtain css' cts' where a: "array_vec (css @ [summary child]) = Some css'"
      "array_vec (cts @ [child]) = Some cts'"
    and r: "(if length cts' = 2 * TREE_BASE then do {
          rest \<leftarrow> parent_level I h None children;
          Some (Internal h (s_add I s (summary child)) css' cts' # rest)
        } else parent_level I h (Some (s_add I s (summary child), css', cts')) children) = Some ps"
    by (auto simp: p Let_def split: bind_splits)
  have ne: "cts' \<noteq> []" using a(2) by (auto simp: array_vec_def split: if_splits)
  show ?case
  proof (cases "length cts' = 2 * TREE_BASE")
    case True
    with r obtain rest where rest: "parent_level I h None children = Some rest" "length ps = Suc (length rest)"
      by (auto split: bind_splits)
    have "current \<noteq> None"
      using True a(2) p TREE_BASE_bounds(3)
      by (cases current) (auto simp: array_vec_def split: if_splits)
    with "3.IH"(1) [OF refl p [symmetric] refl refl a True rest(1)] rest(2) show ?thesis
      by (auto split: option.splits)
  next
    case False
    with "3.IH"(2) [OF refl p [symmetric] refl refl a False] r ne show ?thesis
      by (auto split: option.splits)
  qed
qed auto

function (sequential) build_levels ::
    "('t, 's) item_ops \<Rightarrow> nat \<Rightarrow> ('t, 's) sum_tree list \<Rightarrow> ('t, 's) sum_tree option" where
  "build_levels I h [] = Some (new I)"
| "build_levels I h [t] = Some t"
| "build_levels I h ts = do {
     parents \<leftarrow> parent_level I (h + 1) None ts;
     build_levels I (h + 1) parents
   }"
  by pat_completeness auto

termination build_levels
  by (relation "measure (\<lambda>(_, _, ts). length ts)") (auto dest!: parent_level_length simp del: parent_level.simps)

definition from_iter :: "('t, 's) item_ops \<Rightarrow> 't list \<Rightarrow> ('t, 's) sum_tree option" where
  "from_iter I xs = build_levels I 0 (leaf_chunks I xs)"

text \<open>\<open>from_par_iter\<close>: the same tree built level by level from chunks (rayon's \<open>chunks\<close> keeps the
  order, so the parallel map is a map).\<close>

function chunks :: "nat \<Rightarrow> 'a list \<Rightarrow> 'a list list" where
  "chunks n xs = (if xs = [] \<or> n = 0 then [] else take n xs # chunks n (drop n xs))"
  by pat_completeness auto
termination chunks
  by (relation "measure (\<lambda>(_, xs). length xs)") auto

declare chunks.simps [simp del]

definition par_parent :: "('t, 's) item_ops \<Rightarrow> nat \<Rightarrow> ('t, 's) sum_tree list \<Rightarrow> ('t, 's) sum_tree" where
  "par_parent I h cts = (let css = map summary cts in Internal h (fold_summary I css) css cts)"

lemma length_chunks: "0 < n \<Longrightarrow> length (chunks n xs) * n < length xs + n"
proof (induction n xs rule: chunks.induct)
  case (1 n xs)
  then show ?case
    by (cases "xs = []"; cases "length xs \<le> n")
      (auto simp: chunks.simps [of n xs] chunks.simps [of n "[]"] not_le)
qed

lemma length_chunks_less:
  assumes "2 \<le> n" and "2 \<le> length xs" shows "length (chunks n xs) < length xs"
proof -
  have "(length (chunks n xs) - 1) * n < length xs"
    using length_chunks [of n xs] assms unfolding diff_mult_distrib by linarith
  moreover have "(length (chunks n xs) - 1) * 2 \<le> (length (chunks n xs) - 1) * n"
    using assms(1) by simp
  ultimately show ?thesis using assms(2) by linarith
qed

function (sequential) par_levels ::
    "('t, 's) item_ops \<Rightarrow> nat \<Rightarrow> ('t, 's) sum_tree list \<Rightarrow> ('t, 's) sum_tree" where
  "par_levels I h [] = new I"
| "par_levels I h [t] = t"
| "par_levels I h ts = par_levels I (h + 1) (map (par_parent I (h + 1)) (chunks (2 * TREE_BASE) ts))"
  by pat_completeness auto
termination par_levels
proof (relation "measure (\<lambda>(_, _, ts). length ts)")
  fix I :: "('a, 'b) item_ops" and h and v u :: "('a, 'b) sum_tree" and us
  have "length (chunks (2 * TREE_BASE) (v # u # us)) < length (v # u # us)"
    using TREE_BASE_bounds(1) by (intro length_chunks_less) (auto simp: Suc_le_eq)
  then show "((I, h + 1, map (par_parent I (h + 1)) (chunks (2 * TREE_BASE) (v # u # us))), I, h, v # u # us)
      \<in> measure (\<lambda>(_, _, ts). length ts)"
    by simp
qed simp

definition from_par_iter :: "('t, 's) item_ops \<Rightarrow> 't list \<Rightarrow> ('t, 's) sum_tree" where
  "from_par_iter I xs = par_levels I 0 (map (leaf_of I) (chunks (2 * TREE_BASE) xs))"

definition extend :: "('t, 's) item_ops \<Rightarrow> ('t, 's) sum_tree \<Rightarrow> 't list \<Rightarrow> ('t, 's) sum_tree option" where
  "extend I self xs = do { other \<leftarrow> from_iter I xs; append_tree I self other }"

definition par_extend :: "('t, 's) item_ops \<Rightarrow> ('t, 's) sum_tree \<Rightarrow> 't list \<Rightarrow> ('t, 's) sum_tree option" where
  "par_extend I self xs = append_tree I self (from_par_iter I xs)"

subsection \<open>The contents of a tree and its invariant\<close>

fun tree_items :: "('t, 's) sum_tree \<Rightarrow> 't list" where
  "tree_items (Leaf _ its _) = its"
| "tree_items (Internal _ _ _ cts) = concat (map tree_items cts)"

text \<open>\<open>wf_node I k t\<close>: a non-empty node of height \<open>k\<close> within its capacity, all of whose subtrees
  have height \<open>k - 1\<close>, whose cached summaries are the sums of what they summarise.\<close>

fun wf_node :: "('t, 's) item_ops \<Rightarrow> nat \<Rightarrow> ('t, 's) sum_tree \<Rightarrow> bool" where
  "wf_node I k (Leaf s its iss) \<longleftrightarrow>
     k = 0 \<and> its \<noteq> [] \<and> length its \<le> 2 * TREE_BASE \<and> iss = map (item_summary I) its \<and> s = s_sum I iss"
| "wf_node I k (Internal h s css cts) \<longleftrightarrow>
     h = k \<and> 0 < k \<and> cts \<noteq> [] \<and> length cts \<le> 2 * TREE_BASE \<and> css = map summary cts \<and>
     s = s_sum I css \<and> (\<forall>c \<in> set cts. wf_node I (k - 1) c)"

definition wf_tree :: "('t, 's) item_ops \<Rightarrow> ('t, 's) sum_tree \<Rightarrow> bool" where
  "wf_tree I t \<longleftrightarrow> t = new I \<or> wf_node I (height t) t"

lemma wf_node_height: "wf_node I k t \<Longrightarrow> height t = k"
  by (cases t) auto

lemma wf_node_items_ne: "wf_node I k t \<Longrightarrow> tree_items t \<noteq> []"
proof (induction I k t rule: wf_node.induct)
  case (2 I k h s css cts)
  then have "hd cts \<in> set cts" "tree_items (hd cts) \<noteq> []" by auto
  then show ?case using "2.prems" by auto
qed simp

lemma wf_node_not_empty: "wf_node I k t \<Longrightarrow> \<not> is_empty t"
  by (cases t) auto

lemma wf_tree_is_empty: "wf_tree I t \<Longrightarrow> is_empty t \<longleftrightarrow> tree_items t = []"
  unfolding wf_tree_def using wf_node_not_empty wf_node_items_ne by (fastforce simp: new_def)

lemma wf_tree_nonempty: "wf_tree I t \<Longrightarrow> tree_items t \<noteq> [] \<Longrightarrow> wf_node I (height t) t"
  by (auto simp: wf_tree_def new_def)

lemma wf_tree_empty: "wf_tree I t \<Longrightarrow> tree_items t = [] \<Longrightarrow> t = new I"
  unfolding wf_tree_def using wf_node_items_ne by blast

lemma wf_tree_new [simp, inv_intros]: "wf_tree I (new I)"
  by (simp add: wf_tree_def)

lemma tree_items_new [simp, abs_simps]: "tree_items (new I) = []"
  by (simp add: new_def)

lemma wf_treeI [intro]: "wf_node I k t \<Longrightarrow> wf_tree I t"
  by (auto simp: wf_tree_def dest: wf_node_height)

text \<open>What \<open>Summary\<close> implementations promise: the zero is neutral on the left and adding is
  associative. (Several of the code's summaries, which keep the last key, have no right
  neutral element, so none is asked for.)\<close>

locale summary_laws =
  fixes I :: "('t, 's) item_ops"
  assumes zero_left: "s_add I (s_zero I) s = s"
    and add_assoc: "s_add I (s_add I a b) c = s_add I a (s_add I b c)"
begin

lemma s_sum_Nil [simp]: "s_sum I [] = s_zero I"
  by (simp add: s_sum_def)

lemma foldl_add: "foldl (s_add I) a (x # xs) = s_add I a (foldl (s_add I) x xs)"
  by (induction xs arbitrary: x) (simp_all add: add_assoc)

lemma s_sum_Cons: "s_sum I (x # xs) = foldl (s_add I) x xs"
  by (simp add: s_sum_def zero_left)

lemma s_sum_single [simp]: "s_sum I [x] = x"
  by (simp add: s_sum_Cons)

lemma s_sum_append: "ys \<noteq> [] \<Longrightarrow> s_sum I (xs @ ys) = s_add I (s_sum I xs) (s_sum I ys)"
proof (cases ys)
  case (Cons z zs)
  have "s_sum I (xs @ z # zs) = s_add I (s_sum I xs) (foldl (s_add I) z zs)"
    unfolding s_sum_def foldl_append by (rule foldl_add)
  then show ?thesis by (simp add: Cons s_sum_Cons)
qed simp

lemma s_sum_Cons_ne: "xs \<noteq> [] \<Longrightarrow> s_sum I (x # xs) = s_add I x (s_sum I xs)"
  using s_sum_append [of xs "[x]"] by simp

lemma fold_summary_sum: "ss \<noteq> [] \<Longrightarrow> fold_summary I ss = s_sum I ss"
  by (cases ss) (simp_all add: fold_summary_def s_sum_Cons)

lemma s_sum_concat:
  "(\<And>xs. xs \<in> set xss \<Longrightarrow> xs \<noteq> []) \<Longrightarrow> s_sum I (concat xss) = s_sum I (map (s_sum I) xss)"
proof (induction xss rule: rev_induct)
  case (snoc xs xss)
  then show ?case by (simp add: s_sum_append)
qed simp

text \<open>A well-formed node's cached summary is the sum over its items.\<close>

lemma wf_node_summary: "wf_node I k t \<Longrightarrow> summary t = s_sum I (map (item_summary I) (tree_items t))"
proof (induction t arbitrary: k)
  case (Internal h s css cts)
  have "map summary cts = map (\<lambda>c. s_sum I (map (item_summary I) (tree_items c))) cts"
    using Internal by auto
  moreover have "s_sum I (concat (map (\<lambda>c. map (item_summary I) (tree_items c)) cts)) =
      s_sum I (map (s_sum I) (map (\<lambda>c. map (item_summary I) (tree_items c)) cts))"
    using Internal.prems by (intro s_sum_concat) (auto dest: wf_node_items_ne)
  ultimately show ?case using Internal.prems by (simp add: map_concat comp_def cong: map_cong)
qed simp

lemma sum_children:
  assumes "\<forall>c \<in> set cts. wf_node I k c"
  shows "s_sum I (map summary cts) = s_sum I (map (item_summary I) (concat (map tree_items cts)))"
proof -
  have "map summary cts = map (\<lambda>c. s_sum I (map (item_summary I) (tree_items c))) cts"
    using assms wf_node_summary by auto
  moreover have "s_sum I (concat (map (\<lambda>c. map (item_summary I) (tree_items c)) cts)) =
      s_sum I (map (s_sum I) (map (\<lambda>c. map (item_summary I) (tree_items c)) cts))"
    using assms by (intro s_sum_concat) (auto dest: wf_node_items_ne)
  ultimately show ?thesis by (simp add: map_concat comp_def cong: map_cong)
qed

lemma summary_append:
  assumes "wf_node I k a" and "wf_node I j b"
  shows "s_add I (summary a) (summary b) = s_sum I (map (item_summary I) (tree_items a @ tree_items b))"
  using assms by (simp add: wf_node_summary wf_node_items_ne s_sum_append)

subsubsection \<open>Appending\<close>

text \<open>A tree and the overflow split off it together hold a list of items.\<close>

definition holds :: "nat \<Rightarrow> ('t, 's) sum_tree \<times> ('t, 's) sum_tree option \<Rightarrow> 't list \<Rightarrow> bool" where
  "holds k p xs \<longleftrightarrow> wf_node I k (fst p) \<and>
     (case snd p of None \<Rightarrow> tree_items (fst p) = xs
      | Some r \<Rightarrow> wf_node I k r \<and> tree_items (fst p) @ tree_items r = xs)"

lemma split_internal_holds:
  assumes "0 < k" and "cts \<noteq> []" and "length cts \<le> 2 * TREE_BASE" and "length ts \<le> 2 * TREE_BASE"
    and "\<forall>c \<in> set (cts @ ts). wf_node I (k - 1) c"
    and "s = s_sum I (map (item_summary I) (concat (map tree_items (cts @ ts))))"
  shows "\<exists>p. split_internal I k s (map summary cts) cts (map summary ts) ts = Some p \<and>
    holds k p (concat (map tree_items (cts @ ts)))"
proof (cases "2 * TREE_BASE < length cts + length ts")
  case True
  define n where "n = length cts + length ts"
  define m where "m = (n + n mod 2) div 2"
  let ?L = "take m (cts @ ts)" and ?R = "drop m (cts @ ts)"
  have m: "0 < m" "m < n" "m \<le> 2 * TREE_BASE" "n - m \<le> 2 * TREE_BASE"
    using True assms(3,4) TREE_BASE_bounds(1) midpoint_bounds [of n "2 * TREE_BASE"]
    unfolding m_def midpoint_mod by (simp_all add: n_def)
  have sub: "\<forall>c \<in> set ?L. wf_node I (k - 1) c" "\<forall>c \<in> set ?R. wf_node I (k - 1) c"
    using assms(5) set_take_subset [of m "cts @ ts"] set_drop_subset [of m "cts @ ts"] by blast+
  have len: "length ?L \<le> 2 * TREE_BASE" "length ?R \<le> 2 * TREE_BASE" "?L \<noteq> []" "?R \<noteq> []"
    using m by (auto simp: n_def)
  let ?p = "(Internal k (s_sum I (map summary ?L)) (map summary ?L) ?L,
             Some (Internal k (s_sum I (map summary ?R)) (map summary ?R) ?R))"
  have e: "map summary cts @ map summary ts = map summary (cts @ ts)" by simp
  have "split_internal I k s (map summary cts) cts (map summary ts) ts = Some ?p"
    unfolding split_internal_def Let_def e take_map drop_map n_def [symmetric] m_def [symmetric]
    using True len
    by (simp del: take_append drop_append map_append length_append add: n_def)
  moreover have "concat (map tree_items ?L) @ concat (map tree_items ?R) = concat (map tree_items (cts @ ts))"
    by (metis append_take_drop_id concat_append map_append)
  then have "holds k ?p (concat (map tree_items (cts @ ts)))"
    using sub len assms(1)
    by (simp add: holds_def del: take_append drop_append map_append length_append)
  ultimately show ?thesis by blast
next
  case False
  have "holds k (Internal k s (map summary cts @ map summary ts) (cts @ ts), None)
      (concat (map tree_items (cts @ ts)))"
    using False assms sum_children [OF assms(5)] by (auto simp: holds_def)
  with False show ?thesis
    by (simp add: split_internal_def Let_def)
qed

lemma split_leaf_holds:
  assumes "its \<noteq> []" and "length its \<le> 2 * TREE_BASE" and "ys \<noteq> []" and "length ys \<le> 2 * TREE_BASE"
  shows "\<exists>p. split_leaf I (s_sum I (map (item_summary I) its)) its (map (item_summary I) its)
      (s_sum I (map (item_summary I) ys)) ys (map (item_summary I) ys) = Some p \<and> holds 0 p (its @ ys)"
proof (cases "2 * TREE_BASE < length its + length ys")
  case True
  define n where "n = length its + length ys"
  define m where "m = (n + n mod 2) div 2"
  let ?L = "take m (its @ ys)" and ?R = "drop m (its @ ys)"
  have m: "0 < m" "m < n" "m \<le> 2 * TREE_BASE" "n - m \<le> 2 * TREE_BASE"
    using True assms(2,4) TREE_BASE_bounds(1) midpoint_bounds [of n "2 * TREE_BASE"]
    unfolding m_def midpoint_mod by (simp_all add: n_def)
  have len: "length ?L \<le> 2 * TREE_BASE" "length ?R \<le> 2 * TREE_BASE" "?L \<noteq> []" "?R \<noteq> []"
    using m by (auto simp: n_def)
  let ?s = "\<lambda>zs. map (item_summary I) zs"
  let ?p = "(Leaf (s_sum I (?s ?L)) ?L (?s ?L), Some (Leaf (s_sum I (?s ?R)) ?R (?s ?R)))"
  have e: "?s its @ ?s ys = ?s (its @ ys)" by simp
  have "split_leaf I (s_sum I (?s its)) its (?s its) (s_sum I (?s ys)) ys (?s ys) = Some ?p"
    unfolding split_leaf_def Let_def e take_map drop_map n_def [symmetric] m_def [symmetric]
    using True len
    by (simp del: take_append drop_append map_append length_append add: n_def)
  moreover have "holds 0 ?p (its @ ys)"
    using len by (simp add: holds_def del: take_append drop_append map_append length_append)
  ultimately show ?thesis by blast
next
  case False
  with assms show ?thesis
    by (auto simp: split_leaf_def Let_def holds_def s_sum_append)
qed

lemma holds_summary:
  assumes "holds k (a, r) xs"
  shows "(case r of None \<Rightarrow> summary a | Some t \<Rightarrow> s_add I (summary a) (summary t)) =
    s_sum I (map (item_summary I) xs)"
  using assms summary_append [of k a k] wf_node_summary [of k a]
  by (auto simp: holds_def split: option.splits)

lemma push_tree_recursive_holds:
  "wf_node I k a \<Longrightarrow> wf_node I j b \<Longrightarrow> j \<le> k \<Longrightarrow>
     \<exists>p. push_tree_recursive I a b = Some p \<and> holds k p (tree_items a @ tree_items b)"
proof (induction a arbitrary: k)
  case (Leaf s its iss)
  then obtain t ys where b: "b = Leaf t ys (map (item_summary I) ys)" "ys \<noteq> []"
      "length ys \<le> 2 * TREE_BASE" "t = s_sum I (map (item_summary I) ys)"
    by (cases b) auto
  show ?case
    using split_leaf_holds [of its ys] Leaf.prems b by auto
next
  case (Internal h s css cts)
  let ?s = "\<lambda>zs. map (item_summary I) zs"
  have h: "h = k" "0 < k" and cts: "cts \<noteq> []" "length cts \<le> 2 * TREE_BASE" "css = map summary cts"
    and sub: "\<forall>c \<in> set cts. wf_node I (k - 1) c"
    using Internal.prems(1) by auto
  have hb: "height b = j" using Internal.prems(2) by (rule wf_node_height)
  have s': "s_add I s (summary b) = s_sum I (?s (concat (map tree_items cts) @ tree_items b))"
    using summary_append [OF Internal.prems(1,2)] by simp
  consider (eq) "j = k" | (child) "j < k" "k - j = 1" "\<not> is_underflowing b"
    | (deep) "j < k" "\<not> (k - j = 1 \<and> \<not> is_underflowing b)"
    using Internal.prems(3) by linarith
  then show ?case
  proof cases
    case eq
    then obtain t ts where b: "b = Internal k t (map summary ts) ts" and
        ts: "length ts \<le> 2 * TREE_BASE" "\<forall>c \<in> set ts. wf_node I (k - 1) c"
      using Internal.prems(2) h by (cases b) auto
    show ?thesis
      using split_internal_holds [of k cts ts "s_add I s (summary b)"] h cts sub ts s' b eq
      by (auto simp: Let_def)
  next
    case child
    have "j = k - 1" using child by simp
    then have wfb: "\<forall>c \<in> set (cts @ [b]). wf_node I (k - 1) c" and len: "length [b] \<le> 2 * TREE_BASE"
      using Internal.prems(2) sub by simp_all
    have sb: "s_add I s (summary b) = s_sum I (?s (concat (map tree_items (cts @ [b]))))"
      unfolding s' by simp
    obtain p where "split_internal I k (s_add I s (summary b)) (map summary cts) cts
        (map summary [b]) [b] = Some p" "holds k p (concat (map tree_items (cts @ [b])))"
      using split_internal_holds [OF h(2) cts(1,2) len wfb sb] by blast
    moreover have "push_tree_recursive I (Internal h s css cts) b =
        split_internal I k (s_add I s (summary b)) (map summary cts) cts (map summary [b]) [b]"
      using child h cts hb by (simp add: Let_def)
    ultimately show ?thesis by simp
  next
    case deep
    have last: "last cts \<in> set cts" using cts by simp
    obtain a r where rec: "push_tree_recursive I (last cts) b = Some (a, r)"
      and hold: "holds (k - 1) (a, r) (tree_items (last cts) @ tree_items b)"
      using Internal.IH [OF last sub [rule_format, OF last] Internal.prems(2)] deep by fastforce
    have bl: "concat (map tree_items cts) = concat (map tree_items (butlast cts)) @ tree_items (last cts)"
      by (subst append_butlast_last_id [OF cts(1), symmetric], subst map_append, subst concat_append) simp
    have css: "set_last css (summary a) = Some (map summary (butlast cts @ [a]))"
      using cts by (simp add: set_last_def map_butlast)
    have wf: "\<forall>c \<in> set (butlast cts @ [a]). wf_node I (k - 1) c"
      using sub hold by (auto simp: holds_def dest: in_set_butlastD)
    have len: "length (butlast cts @ [a]) \<le> 2 * TREE_BASE" using cts by simp
    show ?thesis
    proof (cases r)
      case None
      with hold have it: "concat (map tree_items (butlast cts @ [a])) = concat (map tree_items cts) @ tree_items b"
        by (simp add: holds_def bl)
      then show ?thesis
        using split_internal_holds [of k "butlast cts @ [a]" "[]" "s_add I s (summary b)"]
          h cts wf len s' deep hb rec css None
        by (auto simp: Let_def set_last_def)
    next
      case (Some t)
      with hold have it: "concat (map tree_items ((butlast cts @ [a]) @ [t])) =
          concat (map tree_items cts) @ tree_items b" and "wf_node I (k - 1) t"
        by (auto simp: holds_def bl)
      moreover have "length [t] \<le> 2 * TREE_BASE" using TREE_BASE_bounds(1) by simp
      ultimately show ?thesis
        using split_internal_holds [of k "butlast cts @ [a]" "[t]" "s_add I s (summary b)"]
          h cts wf len s' deep hb rec css Some
        by (auto simp: Let_def set_last_def)
    qed
  qed
qed

text \<open>\<open>merge_into_right\<close> and \<open>append_large\<close> return the overflow to the left.\<close>

definition holds_left :: "nat \<Rightarrow> ('t, 's) sum_tree \<times> ('t, 's) sum_tree option \<Rightarrow> 't list \<Rightarrow> bool" where
  "holds_left k p xs \<longleftrightarrow> wf_node I k (fst p) \<and>
     (case snd p of None \<Rightarrow> tree_items (fst p) = xs
      | Some l \<Rightarrow> wf_node I k l \<and> tree_items l @ tree_items (fst p) = xs)"

lemma merge_into_right_holds:
  assumes "wf_node I k a" and "wf_node I k b"
  shows "\<exists>p. merge_into_right I a b = Some p \<and> holds_left k p (tree_items a @ tree_items b)"
proof (cases a)
  case (Internal h s css cts)
  with assms obtain t ts where b: "b = Internal k t (map summary ts) ts"
    and ts: "length ts \<le> 2 * TREE_BASE" "\<forall>c \<in> set ts. wf_node I (k - 1) c"
      "ts \<noteq> []" "t = s_sum I (map summary ts)"
    by (cases b) auto
  have a: "css = map summary cts" "s = s_sum I (map summary cts)" "0 < k" "cts \<noteq> []"
      "length cts \<le> 2 * TREE_BASE" "\<forall>c \<in> set cts. wf_node I (k - 1) c"
    using assms(1) Internal by auto
  define n where "n = length ts + length cts"
  let ?m = "(n + 1) div 2" and ?xs = "cts @ ts"
  let ?L = "take ?m ?xs" and ?R = "drop ?m ?xs"
  have sub: "\<forall>c \<in> set ?xs. wf_node I (k - 1) c" using ts a by auto
  show ?thesis
  proof (cases "n \<le> 2 * TREE_BASE")
    case True
    have "s_add I s t = s_sum I (map summary ?xs)"
      using a ts by (simp add: s_sum_append)
    with True a ts sub show ?thesis
      by (auto simp: Internal b Let_def n_def holds_left_def)
  next
    case False
    have m: "0 < ?m" "?m < n" "?m \<le> 2 * TREE_BASE" "n - ?m \<le> 2 * TREE_BASE"
      using False a(5) ts(1) midpoint_bounds [of n "2 * TREE_BASE"] TREE_BASE_bounds(1)
      by (simp_all add: n_def)
    have len: "length ?L \<le> 2 * TREE_BASE" "length ?R \<le> 2 * TREE_BASE" "?L \<noteq> []" "?R \<noteq> []"
      using m a(4) by (simp_all add: n_def del: take_append drop_append)
    have wf: "\<forall>c \<in> set ?L. wf_node I (k - 1) c" "\<forall>c \<in> set ?R. wf_node I (k - 1) c"
      using sub set_take_subset [of ?m ?xs] set_drop_subset [of ?m ?xs] by blast+
    let ?p = "(Internal k (s_sum I (map summary ?R)) (map summary ?R) ?R,
               Some (Internal k (s_sum I (map summary ?L)) (map summary ?L) ?L))"
    have e: "map summary cts @ map summary ts = map summary ?xs" by simp
    have "merge_into_right I a b = Some ?p"
      unfolding Internal b a(1) merge_into_right.simps Let_def e take_map drop_map n_def [symmetric]
      using False len by (simp del: take_append drop_append map_append length_append)
    moreover have "concat (map tree_items ?L) @ concat (map tree_items ?R) = concat (map tree_items ?xs)"
      by (metis append_take_drop_id concat_append map_append)
    then have "holds_left k ?p (tree_items a @ tree_items b)"
      using wf len a(3)
      by (simp add: holds_left_def Internal b del: take_append drop_append length_append)
    ultimately show ?thesis by blast
  qed
next
  case (Leaf s its iss)
  with assms obtain t ys where b: "b = Leaf t ys (map (item_summary I) ys)"
    and ys: "length ys \<le> 2 * TREE_BASE" "ys \<noteq> []" "t = s_sum I (map (item_summary I) ys)"
    by (cases b) auto
  have a: "iss = map (item_summary I) its" "s = s_sum I (map (item_summary I) its)" "k = 0"
      "its \<noteq> []" "length its \<le> 2 * TREE_BASE"
    using assms(1) Leaf by auto
  define n where "n = length its + length ys"
  let ?m = "(n + 1) div 2" and ?xs = "its @ ys" and ?s = "map (item_summary I)"
  let ?L = "take ?m ?xs" and ?R = "drop ?m ?xs"
  show ?thesis
  proof (cases "n \<le> 2 * TREE_BASE")
    case True
    have "s_add I s t = s_sum I (?s ?xs)" using a ys by (simp add: s_sum_append)
    with True a ys show ?thesis
      by (auto simp: Leaf b Let_def n_def holds_left_def)
  next
    case False
    have m: "0 < ?m" "?m < n" "?m \<le> 2 * TREE_BASE" "n - ?m \<le> 2 * TREE_BASE"
      using False a(5) ys(1) midpoint_bounds [of n "2 * TREE_BASE"] TREE_BASE_bounds(1)
      by (simp_all add: n_def)
    have len: "length ?L \<le> 2 * TREE_BASE" "length ?R \<le> 2 * TREE_BASE" "?L \<noteq> []" "?R \<noteq> []"
      using m a(4) by (simp_all add: n_def del: take_append drop_append)
    let ?p = "(Leaf (s_sum I (?s ?R)) ?R (?s ?R), Some (Leaf (s_sum I (?s ?L)) ?L (?s ?L)))"
    have e: "?s its @ ?s ys = ?s ?xs" by simp
    have "merge_into_right I a b = Some ?p"
      unfolding Leaf b a(1) merge_into_right.simps Let_def e take_map drop_map n_def [symmetric]
      using False len by (simp del: take_append drop_append map_append length_append)
    moreover have "holds_left k ?p (tree_items a @ tree_items b)"
      using len a(3)
      by (simp add: holds_left_def Leaf b del: take_append drop_append map_append length_append)
    ultimately show ?thesis by blast
  qed
qed

lemma append_large_holds:
  "wf_node I j a \<Longrightarrow> wf_node I k b \<Longrightarrow> j \<le> k \<Longrightarrow>
     \<exists>p. append_large I a b = Some p \<and> holds_left k p (tree_items a @ tree_items b)"
proof (induction b arbitrary: k)
  case (Leaf s its iss)
  then have "k = 0" "j = 0" "height a = 0" by (auto dest: wf_node_height)
  then show ?case using merge_into_right_holds [of 0 a "Leaf s its iss"] Leaf.prems
    by (auto simp: holds_left_def)
next
  case (Internal h s css cts)
  have h: "h = k" "0 < k" and cts: "cts \<noteq> []" "length cts \<le> 2 * TREE_BASE" "css = map summary cts"
    and s: "s = s_sum I css" and sub: "\<forall>c \<in> set cts. wf_node I (k - 1) c"
    using Internal.prems(2) by auto
  have ha: "height a = j" using Internal.prems(1) by (rule wf_node_height)
  show ?case
  proof (cases "j = k")
    case True
    with merge_into_right_holds [of k a "Internal h s css cts"] Internal.prems ha h
    show ?thesis by (auto simp: holds_left_def)
  next
    case False
    then have jk: "j \<le> k - 1" using Internal.prems(3) by simp
    obtain c cs where cs: "cts = c # cs" using cts(1) by (cases cts) auto
    obtain f r where rec: "append_large I a c = Some (f, r)"
      and hold: "holds_left (k - 1) (f, r) (tree_items a @ tree_items c)"
      using Internal.IH [of c "k - 1"] cs sub jk Internal.prems(1) by fastforce
    have wf: "\<forall>x \<in> set (f # cs). wf_node I (k - 1) x" using hold sub cs by (auto simp: holds_left_def)
    have full: "s_add I (summary a) s = s_sum I (map (item_summary I) (tree_items a @ concat (map tree_items cts)))"
      using summary_append [OF Internal.prems(1,2)] by simp
    show ?thesis
    proof (cases r)
      case None
      with hold have it: "concat (map tree_items (f # cs)) = tree_items a @ concat (map tree_items cts)"
        by (auto simp: holds_left_def cs)
      have "s_add I (summary a) s = s_sum I (map summary (f # cs))"
        unfolding full sum_children [OF wf] it ..
      with None rec it wf cts h False ha show ?thesis
        by (auto simp: cs set_first_def holds_left_def)
    next
      case (Some t)
      then have wft: "wf_node I (k - 1) t" using hold by (simp add: holds_left_def)
      from Some hold have it: "concat (map tree_items (t # f # cs)) = tree_items a @ concat (map tree_items cts)"
        by (auto simp: holds_left_def cs)
      have wf': "\<forall>x \<in> set (t # f # cs). wf_node I (k - 1) x" using wf wft by simp
      show ?thesis
      proof (cases "length (f # cs) < 2 * TREE_BASE")
        case True
        have "s_add I (summary a) s = s_sum I (map summary (t # f # cs))"
          unfolding full sum_children [OF wf'] it ..
        with Some True rec it wf' cts h False ha show ?thesis
          by (auto simp: cs set_first_def holds_left_def Let_def)
      next
        case False
        then have len: "length (f # cs) = 2 * TREE_BASE" using cts(2) cs by simp
        let ?L = "t # take TREE_BASE (f # cs)" and ?R = "drop TREE_BASE (f # cs)"
        have lens: "length ?L \<le> 2 * TREE_BASE" "?R \<noteq> []" "length ?R \<le> 2 * TREE_BASE"
          using len by auto
        have wfs: "\<forall>x \<in> set ?L. wf_node I (k - 1) x" "\<forall>x \<in> set ?R. wf_node I (k - 1) x"
          using wf wft set_take_subset [of TREE_BASE "f # cs"] set_drop_subset [of TREE_BASE "f # cs"]
          by auto
        have its: "concat (map tree_items ?L) @ concat (map tree_items ?R) =
            tree_items a @ concat (map tree_items cts)"
          using it by (metis append_take_drop_id concat_append map_append append_Cons)
        let ?p = "(Internal k (s_sum I (map summary ?R)) (map summary ?R) ?R,
                   Some (Internal k (s_sum I (map summary ?L)) (map summary ?L) ?L))"
        have "append_large I a (Internal h s css cts) = Some ?p"
        proof -
          have c: "set_first css (summary f) = Some (map summary (f # cs))"
            "set_first cts f = Some (f # cs)" "hd cts = c"
            by (simp_all add: cs cts(3) set_first_def)
          have e: "summary t # take TREE_BASE (map summary (f # cs)) = map summary ?L"
            "drop TREE_BASE (map summary (f # cs)) = map summary ?R"
            by (subst take_map, rule list.map(2) [symmetric]) (rule drop_map)
          have "array_vec (map summary ?L) = Some (map summary ?L)" "array_vec ?L = Some ?L"
            using lens(1) by (simp_all only: array_vec_Some length_map)
          then show ?thesis
            using \<open>j \<noteq> k\<close> ha h(1) cts(1) rec Some False c e
            by (simp del: list.map)
        qed
        moreover have "holds_left k ?p (tree_items a @ tree_items (Internal h s css cts))"
          using lens wfs its h(2) by (simp add: holds_left_def)
        ultimately show ?thesis by blast
      qed
    qed
  qed
qed

lemma from_child_trees_holds:
  assumes "wf_node I k a" and "wf_node I k b"
  shows "wf_node I (Suc k) (from_child_trees I a b)"
    and "tree_items (from_child_trees I a b) = tree_items a @ tree_items b"
  using assms TREE_BASE_bounds(3) by (auto simp: from_child_trees_def Let_def dest: wf_node_height)

lemma append_tree_correct:
  assumes "wf_tree I a" and "wf_tree I b"
  shows "\<exists>t. append_tree I a b = Some t \<and> wf_tree I t \<and> tree_items t = tree_items a @ tree_items b"
proof (cases "tree_items a = [] \<or> tree_items b = []")
  case True
  show ?thesis
  proof (cases "is_empty a")
    case True
    with assms show ?thesis by (simp add: append_tree_def wf_tree_is_empty)
  next
    case False
    with True assms have "b = new I" by (simp add: wf_tree_is_empty wf_tree_empty)
    with False assms(1) show ?thesis by (simp add: append_tree_def) (simp add: new_def)
  qed
next
  case False
  then have a: "wf_node I (height a) a" "\<not> is_empty a" and b: "wf_node I (height b) b" "\<not> is_empty b"
    using assms wf_tree_nonempty wf_tree_is_empty by blast+
  show ?thesis
  proof (cases "height a < height b")
    case True
    with append_large_holds [OF a(1) b(1)] obtain o' t where
        r: "append_large I a b = Some (o', t)" "holds_left (height b) (o', t) (tree_items a @ tree_items b)"
      by fastforce
    with True a b from_child_trees_holds [of "height b"] show ?thesis
      by (cases t) (auto simp: append_tree_def holds_left_def)
  next
    case False
    with push_tree_recursive_holds [OF a(1) b(1)] obtain o' t where
        r: "push_tree_recursive I a b = Some (o', t)" "holds (height a) (o', t) (tree_items a @ tree_items b)"
      by fastforce
    with False a b from_child_trees_holds [of "height a"] show ?thesis
      by (cases t) (auto simp: append_tree_def holds_def)
  qed
qed

lemma push_correct:
  assumes "wf_tree I t"
  shows "\<exists>t'. push I t x = Some t' \<and> wf_tree I t' \<and> tree_items t' = tree_items t @ [x]"
proof -
  have "wf_tree I (Leaf (item_summary I x) [x] [item_summary I x])"
    by (rule wf_treeI [of _ 0]) simp
  from append_tree_correct [OF assms this] show ?thesis by (simp add: push_def Let_def)
qed

subsubsection \<open>Bulk construction\<close>

lemma leaf_of_wf: "xs \<noteq> [] \<Longrightarrow> length xs \<le> 2 * TREE_BASE \<Longrightarrow> wf_node I 0 (leaf_of I xs)"
  by (simp add: leaf_of_def Let_def fold_summary_sum)

lemma tree_items_leaf_of [simp]: "tree_items (leaf_of I xs) = xs"
  by (simp add: leaf_of_def Let_def)

lemma leaf_chunks_chunks: "leaf_chunks I xs = map (leaf_of I) (chunks (2 * TREE_BASE) xs)"
proof (induction I xs rule: leaf_chunks.induct)
  case (2 I x xs)
  then show ?case by (subst chunks.simps) simp
qed (simp add: chunks.simps)

lemma chunks_Nil [simp]: "chunks n [] = []"
  by (simp add: chunks.simps)

lemma chunks_short: "xs \<noteq> [] \<Longrightarrow> length xs \<le> n \<Longrightarrow> chunks n xs = [xs]"
  by (subst chunks.simps) (cases n; simp)

lemma chunks_full: "xs \<noteq> [] \<Longrightarrow> length xs = n \<Longrightarrow> chunks n (xs @ ys) = xs # chunks n ys"
  by (subst chunks.simps) (cases n; simp)

lemma chunks_props:
  "0 < n \<Longrightarrow> concat (chunks n xs) = xs \<and> (\<forall>c \<in> set (chunks n xs). c \<noteq> [] \<and> length c \<le> n)"
proof (induction n xs rule: chunks.induct)
  case (1 n xs)
  then show ?case
    by (cases "xs = []") (simp_all add: chunks.simps [of n xs])
qed

lemma par_parent_wf:
  assumes "cts \<noteq> []" "length cts \<le> 2 * TREE_BASE" "\<forall>c \<in> set cts. wf_node I h c"
  shows "wf_node I (Suc h) (par_parent I (Suc h) cts)"
  using assms by (simp add: par_parent_def Let_def fold_summary_sum)

lemma tree_items_par_parent [simp]: "tree_items (par_parent I h cts) = concat (map tree_items cts)"
  by (simp add: par_parent_def Let_def)

lemma par_level_wf:
  assumes "\<forall>t \<in> set ts. wf_node I h t"
  shows "\<forall>p \<in> set (map (par_parent I (Suc h)) (chunks (2 * TREE_BASE) ts)). wf_node I (Suc h) p"
proof -
  have c: "concat (chunks (2 * TREE_BASE) ts) = ts"
    "\<forall>c \<in> set (chunks (2 * TREE_BASE) ts). c \<noteq> [] \<and> length c \<le> 2 * TREE_BASE"
    using chunks_props [of "2 * TREE_BASE" ts] by simp_all
  have "set c \<subseteq> set ts" if "c \<in> set (chunks (2 * TREE_BASE) ts)" for c
    using that by (subst c(1) [symmetric]) auto
  with c(2) assms show ?thesis by (auto intro!: par_parent_wf)
qed

lemma par_level_items:
  "concat (map tree_items (map (par_parent I h) (chunks (2 * TREE_BASE) ts))) = concat (map tree_items ts)"
proof -
  have "concat (map (\<lambda>c. concat (map tree_items c)) cs) = concat (map tree_items (concat cs))" for cs
    by (induction cs) auto
  from this [of "chunks (2 * TREE_BASE) ts"] show ?thesis
    using chunks_props [of "2 * TREE_BASE" ts] by (simp add: comp_def)
qed

lemma par_levels_correct:
  "\<forall>t \<in> set ts. wf_node I h t \<Longrightarrow>
     wf_tree I (par_levels I h ts) \<and> tree_items (par_levels I h ts) = concat (map tree_items ts)"
proof (induction "length ts" arbitrary: h ts rule: less_induct)
  case less
  consider "ts = []" | t where "ts = [t]" | t u us where "ts = t # u # us"
    by (metis list.exhaust)
  then show ?case
  proof cases
    case (3 t u us)
    let ?ps = "map (par_parent I (Suc h)) (chunks (2 * TREE_BASE) ts)"
    have "length ?ps < length ts"
      using length_chunks_less [of "2 * TREE_BASE" ts] 3 by simp
    from less.hyps [OF this par_level_wf [OF less.prems]] par_level_items [of "Suc h" ts]
    show ?thesis by (simp add: 3)
  qed (use less.prems in auto)
qed

lemma parent_level_chunks:
  "parent_level I h None cs = Some (map (par_parent I h) (chunks (2 * TREE_BASE) cs)) \<and>
   (\<forall>cts. cts \<noteq> [] \<longrightarrow> length cts < 2 * TREE_BASE \<longrightarrow>
     parent_level I h (Some (s_sum I (map summary cts), map summary cts, cts)) cs =
       Some (map (par_parent I h) (chunks (2 * TREE_BASE) (cts @ cs))))"
proof (induction cs)
  case Nil
  show ?case by (simp add: chunks_short par_parent_def Let_def fold_summary_sum)
next
  case (Cons c cs)
  have "parent_level I h (Some (s_sum I (map summary cts), map summary cts, cts)) (c # cs) =
       Some (map (par_parent I h) (chunks (2 * TREE_BASE) (cts @ c # cs)))"
    if "cts \<noteq> []" "length cts < 2 * TREE_BASE" for cts
  proof -
    have s: "s_add I (s_sum I (map summary cts)) (summary c) = s_sum I (map summary (cts @ [c]))"
      using that by (simp add: s_sum_append)
    show ?thesis
    proof (cases "length (cts @ [c]) = 2 * TREE_BASE")
      case True
      then have "chunks (2 * TREE_BASE) ((cts @ [c]) @ cs) = (cts @ [c]) # chunks (2 * TREE_BASE) cs"
        by (intro chunks_full) auto
      with True s Cons.IH show ?thesis
        by (simp add: par_parent_def Let_def fold_summary_sum)
    next
      case False
      have "length (cts @ [c]) < 2 * TREE_BASE" using False that by simp
      moreover have "parent_level I h (Some (s_sum I (map summary cts), map summary cts, cts)) (c # cs) =
          parent_level I h (Some (s_sum I (map summary (cts @ [c])), map summary (cts @ [c]), cts @ [c])) cs"
        using False that s by simp
      ultimately show ?thesis using Cons.IH [THEN conjunct2, rule_format, of "cts @ [c]"] by simp
    qed
  qed
  moreover have "parent_level I h None (c # cs) =
      parent_level I h (Some (s_sum I (map summary [c]), map summary [c], [c])) cs"
    by (simp add: zero_left Let_def)
  then have "parent_level I h None (c # cs) = Some (map (par_parent I h) (chunks (2 * TREE_BASE) (c # cs)))"
    using Cons.IH [THEN conjunct2, rule_format, of "[c]"] by simp
  ultimately show ?case by blast
qed

lemma build_levels_par_levels: "build_levels I h ts = Some (par_levels I h ts)"
proof (induction "length ts" arbitrary: h ts rule: less_induct)
  case less
  consider "ts = []" | t where "ts = [t]" | t u us where "ts = t # u # us"
    by (metis list.exhaust)
  then show ?case
  proof cases
    case (3 t u us)
    let ?ps = "map (par_parent I (Suc h)) (chunks (2 * TREE_BASE) ts)"
    have "length ?ps < length ts"
      using length_chunks_less [of "2 * TREE_BASE" ts] 3 by simp
    from less.hyps [OF this] parent_level_chunks [of "Suc h" ts]
    show ?thesis by (simp add: 3 del: parent_level.simps)
  qed auto
qed

lemma from_iter_par_iter: "from_iter I xs = Some (from_par_iter I xs)"
  by (simp add: from_iter_def from_par_iter_def leaf_chunks_chunks build_levels_par_levels)

lemma from_iter_correct:
  "\<exists>t. from_iter I xs = Some t \<and> wf_tree I t \<and> tree_items t = xs"
proof -
  have c: "concat (chunks (2 * TREE_BASE) xs) = xs"
    "\<forall>c \<in> set (chunks (2 * TREE_BASE) xs). c \<noteq> [] \<and> length c \<le> 2 * TREE_BASE"
    using chunks_props [of "2 * TREE_BASE" xs] by simp_all
  then have "\<forall>t \<in> set (map (leaf_of I) (chunks (2 * TREE_BASE) xs)). wf_node I 0 t"
    by (auto intro!: leaf_of_wf)
  from par_levels_correct [OF this] c(1) show ?thesis
    by (simp add: from_iter_par_iter from_par_iter_def comp_def)
qed

lemma extend_correct:
  assumes "wf_tree I t"
  shows "\<exists>t'. extend I t xs = Some t' \<and> wf_tree I t' \<and> tree_items t' = tree_items t @ xs"
  using from_iter_correct [of xs] append_tree_correct [OF assms] by (auto simp: extend_def)

lemma wf_tree_summary: "wf_tree I t \<Longrightarrow> summary t = s_sum I (map (item_summary I) (tree_items t))"
  by (auto simp: wf_tree_def new_def intro: wf_node_summary)

end

end
