(* ===== verification/SumTreeFind.thy ===== *)
theory SumTreeFind
  imports SumTree
begin

text \<open>
  Reading and updating a summarised tree without a cursor (\<open>crates/sum_tree/src/sum_tree.rs\<close>):
  \<open>find\<close>, \<open>find_exact\<close> and \<open>find_with_prev\<close>, which descend from the root by comparing a seek
  target with accumulated dimensions, the first and last items, and the in-place updates of the
  first and last item. The descent is shown to give what a scan of the item list gives
  (\<open>seek_split\<close>), for dimensions and targets that satisfy the laws of the locale \<open>dim_laws\<close>.
\<close>

subsection \<open>Descending\<close>

definition target_in :: "bias \<Rightarrow> ordering \<Rightarrow> bool" where
  "target_in bias comparison \<longleftrightarrow> comparison = Less \<or> comparison = Equal \<and> bias = Left"

text \<open>The loop over the children of an internal node: the position in front of the first child that
  contains the target, and the child; the item it is after, for \<open>find_with_prev\<close>.\<close>

fun find_child ::
    "('d, 's) dim_ops \<Rightarrow> 'd seek_target \<Rightarrow> bias \<Rightarrow> 'd \<Rightarrow> (('t, 's) sum_tree \<times> 's) list \<Rightarrow>
      'd \<times> ('t, 's) sum_tree option" where
  "find_child D target bias position [] = (position, None)"
| "find_child D target bias position ((child_tree, child_summary) # cs) =
     (let child_end = d_add D position child_summary
      in if target_in bias (target child_end) then (position, Some child_tree)
         else find_child D target bias child_end cs)"

text \<open>The loop over the items of a leaf.\<close>

fun find_item ::
    "bool \<Rightarrow> ('d, 's) dim_ops \<Rightarrow> 'd seek_target \<Rightarrow> bias \<Rightarrow> 'd \<Rightarrow> ('t \<times> 's) list \<Rightarrow>
      'd \<times> ('t \<times> 'd) option" where
  "find_item exact D target bias position [] = (position, None)"
| "find_item exact D target bias position ((item, isum) # is) =
     (let child_end = d_add D position isum;
          comparison = target child_end;
          entry_found = (if exact then comparison = Equal else target_in bias comparison)
      in if entry_found then (position, Some (item, child_end))
         else find_item exact D target bias child_end is)"

lemma find_child_mem: "find_child D tg b p cs = (q, Some c) \<Longrightarrow> c \<in> fst ` set cs"
  by (induction D tg b p cs rule: find_child.induct) (auto simp: Let_def split: if_splits)

lemma size_zip_child: "c \<in> fst ` set (zip cts css) \<Longrightarrow> size c < Suc (n + size_list size cts)"
proof -
  assume "c \<in> fst ` set (zip cts css)"
  then have "c \<in> set cts" by (auto dest: set_zip_leftD)
  then have "size c \<le> size_list size cts" by (rule size_list_estimation') simp
  then show ?thesis by simp
qed

function (sequential) find_iterate ::
    "bool \<Rightarrow> ('d, 's) dim_ops \<Rightarrow> 'd seek_target \<Rightarrow> bias \<Rightarrow> 'd \<Rightarrow> ('t, 's) sum_tree \<Rightarrow>
      'd \<times> ('t \<times> 'd) option" where
  "find_iterate exact D target bias position (Internal _ _ css cts) =
     (case find_child D target bias position (zip cts css) of
        (position, Some child_tree) \<Rightarrow> find_iterate exact D target bias position child_tree
      | (position, None) \<Rightarrow> (position, None))"
| "find_iterate exact D target bias position (Leaf _ its item_summaries) =
     find_item exact D target bias position (zip its item_summaries)"
  by pat_completeness auto
termination find_iterate
  by (relation "measure (\<lambda>(_, _, _, _, _, t). size t)")
    (auto dest!: find_child_mem [OF sym] size_zip_child)

text \<open>\<open>find\<close> and \<open>find_exact\<close> share their text; \<open>EXACT\<close> is the const generic.\<close>

definition find_gen ::
    "bool \<Rightarrow> ('d, 's) dim_ops \<Rightarrow> ('t, 's) sum_tree \<Rightarrow> 'd seek_target \<Rightarrow> bias \<Rightarrow> 'd \<times> 'd \<times> 't option" where
  "find_gen exact D tree target bias =
     (let tree_end = d_add D (d_zero D) (summary tree);
          comparison = target tree_end
      in if comparison = Greater \<or> comparison = Equal \<and> bias = Right then (tree_end, tree_end, None)
         else case find_iterate exact D target bias (d_zero D) tree of
           (pos, Some (item, end_pos)) \<Rightarrow> (pos, end_pos, Some item)
         | (pos, None) \<Rightarrow> (pos, pos, None))"

definition find_exact ::
    "('d, 's) dim_ops \<Rightarrow> ('t, 's) sum_tree \<Rightarrow> 'd seek_target \<Rightarrow> bias \<Rightarrow> 'd \<times> 'd \<times> 't option" where
  "find_exact = find_gen True"

definition find ::
    "('d, 's) dim_ops \<Rightarrow> ('t, 's) sum_tree \<Rightarrow> 'd seek_target \<Rightarrow> bias \<Rightarrow> 'd \<times> 'd \<times> 't option" where
  "find = find_gen False"

subsection \<open>First and last\<close>

function (sequential) leftmost_leaf :: "('t, 's) sum_tree \<Rightarrow> ('t, 's) sum_tree option" where
  "leftmost_leaf (Leaf s its iss) = Some (Leaf s its iss)"
| "leftmost_leaf (Internal _ _ _ cts) = (if cts = [] then None else leftmost_leaf (hd cts))"
  by pat_completeness auto
termination leftmost_leaf
  by (relation "measure size") (auto simp: size_hd_child)

function (sequential) rightmost_leaf :: "('t, 's) sum_tree \<Rightarrow> ('t, 's) sum_tree option" where
  "rightmost_leaf (Leaf s its iss) = Some (Leaf s its iss)"
| "rightmost_leaf (Internal _ _ _ cts) = (if cts = [] then None else rightmost_leaf (last cts))"
  by pat_completeness auto
termination rightmost_leaf
  by (relation "measure size") (auto simp: size_last_child)

text \<open>The outer option is the panic, the inner one the code's \<open>Option\<close>.\<close>

definition first :: "('t, 's) sum_tree \<Rightarrow> 't option option" where
  "first t = do { leaf \<leftarrow> leftmost_leaf t; its \<leftarrow> node_items leaf; Some (vec_first its) }"

definition last_item :: "('t, 's) sum_tree \<Rightarrow> 't option option" where
  "last_item t = do { leaf \<leftarrow> rightmost_leaf t; its \<leftarrow> node_items leaf; Some (vec_last its) }"

definition last_summary :: "('t, 's) sum_tree \<Rightarrow> 's option option" where
  "last_summary t = do { leaf \<leftarrow> rightmost_leaf t; Some (vec_last (child_summaries leaf)) }"

definition extent :: "('d, 's) dim_ops \<Rightarrow> ('t, 's) sum_tree \<Rightarrow> 'd" where
  "extent D t = d_add D (d_zero D) (summary t)"

subsection \<open>Finding an item together with its predecessor\<close>

fun find_child_prev ::
    "('d, 's) dim_ops \<Rightarrow> 'd seek_target \<Rightarrow> bias \<Rightarrow> 't option \<Rightarrow> 'd \<Rightarrow> (('t, 's) sum_tree \<times> 's) list \<Rightarrow>
      ('t option \<times> 'd \<times> ('t, 's) sum_tree option) option" where
  "find_child_prev D target bias prev position [] = Some (prev, position, None)"
| "find_child_prev D target bias prev position ((child_tree, child_summary) # cs) =
     (let child_end = d_add D position child_summary
      in if target_in bias (target child_end) then Some (prev, position, Some child_tree)
         else do {
           prev \<leftarrow> last_item child_tree;
           find_child_prev D target bias prev child_end cs
         })"

fun find_item_prev ::
    "('d, 's) dim_ops \<Rightarrow> 'd seek_target \<Rightarrow> bias \<Rightarrow> 't option \<Rightarrow> 'd \<Rightarrow> ('t \<times> 's) list \<Rightarrow>
      'd \<times> ('t option \<times> 't \<times> 'd) option" where
  "find_item_prev D target bias prev position [] = (position, None)"
| "find_item_prev D target bias prev position ((item, isum) # is) =
     (let child_end = d_add D position isum
      in if target_in bias (target child_end) then (position, Some (prev, item, child_end))
         else find_item_prev D target bias (Some item) child_end is)"

lemma find_child_prev_mem:
  "find_child_prev D tg b pr p cs = Some (pr', q, Some c) \<Longrightarrow> c \<in> fst ` set cs"
  by (induction D tg b pr p cs rule: find_child_prev.induct)
    (auto simp: Let_def split: if_splits bind_splits)

function (sequential) find_with_prev_iterate ::
    "('d, 's) dim_ops \<Rightarrow> 'd seek_target \<Rightarrow> bias \<Rightarrow> 't option \<Rightarrow> 'd \<Rightarrow> ('t, 's) sum_tree \<Rightarrow>
      ('d \<times> ('t option \<times> 't \<times> 'd) option) option" where
  "find_with_prev_iterate D target bias prev position (Internal _ _ css cts) =
     (case find_child_prev D target bias prev position (zip cts css) of
        None \<Rightarrow> None
      | Some (prev, position, Some child_tree) \<Rightarrow>
          find_with_prev_iterate D target bias prev position child_tree
      | Some (_, position, None) \<Rightarrow> Some (position, None))"
| "find_with_prev_iterate D target bias prev position (Leaf _ its item_summaries) =
     Some (find_item_prev D target bias prev position (zip its item_summaries))"
  by pat_completeness auto
termination find_with_prev_iterate
  by (relation "measure (\<lambda>(_, _, _, _, _, t). size t)")
    (auto dest!: find_child_prev_mem size_zip_child)

definition find_with_prev ::
    "('d, 's) dim_ops \<Rightarrow> ('t, 's) sum_tree \<Rightarrow> 'd seek_target \<Rightarrow> bias \<Rightarrow>
      ('d \<times> 'd \<times> ('t option \<times> 't) option) option" where
  "find_with_prev D tree target bias =
     (let tree_end = d_add D (d_zero D) (summary tree);
          comparison = target tree_end
      in if comparison = Greater \<or> comparison = Equal \<and> bias = Right
         then Some (tree_end, tree_end, None)
         else do {
           r \<leftarrow> find_with_prev_iterate D target bias None (d_zero D) tree;
           Some (case r of
             (pos, Some (prev, item, end_pos)) \<Rightarrow> (pos, end_pos, Some (prev, item))
           | (pos, None) \<Rightarrow> (pos, pos, None))
         })"

subsection \<open>Updating the first and the last item in place\<close>

function (sequential) update_last_recursive ::
    "('t, 's) item_ops \<Rightarrow> ('t \<Rightarrow> 't) \<Rightarrow> ('t, 's) sum_tree \<Rightarrow> (('t, 's) sum_tree \<times> 's option) option" where
  "update_last_recursive I f (Internal h s css cts) =
     (if css = [] \<or> cts = [] then None
      else do {
        (last_child, child_summary) \<leftarrow> update_last_recursive I f (last cts);
        last_s \<leftarrow> child_summary;
        css' \<leftarrow> set_last css last_s;
        cts' \<leftarrow> set_last cts last_child;
        let s' = s_sum I css';
        Some (Internal h s' css' cts', Some s')
      })"
| "update_last_recursive I f (Leaf s its iss) =
     (if its \<noteq> [] \<and> iss \<noteq> [] then do {
        let item = f (last its);
        its' \<leftarrow> set_last its item;
        iss' \<leftarrow> set_last iss (item_summary I item);
        let s' = s_sum I iss';
        Some (Leaf s' its' iss', Some s')
      }
      else Some (Leaf s its iss, None))"
  by pat_completeness auto
termination update_last_recursive
  by (relation "measure (\<lambda>(_, _, t). size t)") (auto simp: size_last_child)

definition update_last ::
    "('t, 's) item_ops \<Rightarrow> ('t \<Rightarrow> 't) \<Rightarrow> ('t, 's) sum_tree \<Rightarrow> ('t, 's) sum_tree option" where
  "update_last I f t = map_option fst (update_last_recursive I f t)"

function (sequential) update_first_recursive ::
    "('t, 's) item_ops \<Rightarrow> ('t \<Rightarrow> 't) \<Rightarrow> ('t, 's) sum_tree \<Rightarrow> (('t, 's) sum_tree \<times> 's option) option" where
  "update_first_recursive I f (Internal h s css cts) =
     (if css = [] \<or> cts = [] then None
      else do {
        (first_child, child_summary) \<leftarrow> update_first_recursive I f (hd cts);
        first_s \<leftarrow> child_summary;
        css' \<leftarrow> set_first css first_s;
        cts' \<leftarrow> set_first cts first_child;
        let s' = s_sum I css';
        Some (Internal h s' css' cts', Some s')
      })"
| "update_first_recursive I f (Leaf s its iss) =
     (if its \<noteq> [] \<and> iss \<noteq> [] then do {
        let item = f (hd its);
        its' \<leftarrow> set_first its item;
        iss' \<leftarrow> set_first iss (item_summary I item);
        let s' = s_sum I iss';
        Some (Leaf s' its' iss', Some s')
      }
      else Some (Leaf s its iss, None))"
  by pat_completeness auto
termination update_first_recursive
  by (relation "measure (\<lambda>(_, _, t). size t)") (auto simp: size_hd_child)

definition update_first ::
    "('t, 's) item_ops \<Rightarrow> ('t \<Rightarrow> 't) \<Rightarrow> ('t, 's) sum_tree \<Rightarrow> ('t, 's) sum_tree option" where
  "update_first I f t = map_option fst (update_first_recursive I f t)"

subsection \<open>What the descents return\<close>

text \<open>A cursor passes a position when the target is beyond it, or equal to it and biased to the
  right. \<open>seek_split\<close> scans a list of items: what is passed, the rest, the position between.\<close>

definition passes :: "bias \<Rightarrow> ordering \<Rightarrow> bool" where
  "passes bias c \<longleftrightarrow> c = Greater \<or> c = Equal \<and> bias = Right"

lemma target_in_passes: "target_in bias c \<longleftrightarrow> \<not> passes bias c"
  by (cases c; cases bias) (auto simp: target_in_def passes_def)

fun seek_split ::
    "('t, 's) item_ops \<Rightarrow> ('d, 's) dim_ops \<Rightarrow> ('d \<Rightarrow> bool) \<Rightarrow> 'd \<Rightarrow> 't list \<Rightarrow> 't list \<times> 't list \<times> 'd" where
  "seek_split I D P d [] = ([], [], d)"
| "seek_split I D P d (x # xs) =
     (let e = d_add D d (item_summary I x)
      in if P e then (let (a, b, p) = seek_split I D P e xs in (x # a, b, p)) else ([], x # xs, d))"

definition pos_after :: "('t, 's) item_ops \<Rightarrow> ('d, 's) dim_ops \<Rightarrow> 'd \<Rightarrow> 't list \<Rightarrow> 'd" where
  "pos_after I D d xs = foldl (\<lambda>d x. d_add D d (item_summary I x)) d xs"

lemma pos_after_simps [simp]:
  "pos_after I D d [] = d"
  "pos_after I D d (x # xs) = pos_after I D (d_add D d (item_summary I x)) xs"
  "pos_after I D d (xs @ ys) = pos_after I D (pos_after I D d xs) ys"
  by (simp_all add: pos_after_def)

text \<open>The target is monotone over the items: once a position is not passed, no later one is.\<close>

fun never_passes :: "('t, 's) item_ops \<Rightarrow> ('d, 's) dim_ops \<Rightarrow> ('d \<Rightarrow> bool) \<Rightarrow> 'd \<Rightarrow> 't list \<Rightarrow> bool" where
  "never_passes I D P d [] \<longleftrightarrow> True"
| "never_passes I D P d (x # xs) \<longleftrightarrow>
     (let e = d_add D d (item_summary I x) in \<not> P e \<and> never_passes I D P e xs)"

fun mono_target :: "('t, 's) item_ops \<Rightarrow> ('d, 's) dim_ops \<Rightarrow> ('d \<Rightarrow> bool) \<Rightarrow> 'd \<Rightarrow> 't list \<Rightarrow> bool" where
  "mono_target I D P d [] \<longleftrightarrow> True"
| "mono_target I D P d (x # xs) \<longleftrightarrow>
     (let e = d_add D d (item_summary I x)
      in (P e \<or> never_passes I D P e xs) \<and> mono_target I D P e xs)"

lemma never_passes_append:
  "never_passes I D P d (xs @ ys) \<longleftrightarrow>
     never_passes I D P d xs \<and> never_passes I D P (pos_after I D d xs) ys"
  by (induction xs arbitrary: d) (auto simp: Let_def)

lemma never_passes_end:
  "never_passes I D P d xs \<Longrightarrow> xs \<noteq> [] \<Longrightarrow> \<not> P (pos_after I D d xs)"
proof (induction xs arbitrary: d)
  case (Cons x xs)
  then show ?case by (cases "xs = []") (auto simp: Let_def)
qed simp

lemma mono_target_append:
  "mono_target I D P d (xs @ ys) \<Longrightarrow>
     mono_target I D P d xs \<and> mono_target I D P (pos_after I D d xs) ys"
  by (induction xs arbitrary: d) (auto simp: Let_def never_passes_append)

lemma never_seek_split: "never_passes I D P d xs \<Longrightarrow> seek_split I D P d xs = ([], xs, d)"
  by (cases xs) (auto simp: Let_def)

lemma seek_split_all:
  "mono_target I D P d xs \<Longrightarrow> xs \<noteq> [] \<Longrightarrow> P (pos_after I D d xs) \<Longrightarrow>
     seek_split I D P d xs = (xs, [], pos_after I D d xs)"
proof (induction xs arbitrary: d)
  case (Cons x xs)
  then show ?case
    by (cases "xs = []") (auto simp: Let_def dest: never_passes_end)
qed simp

lemma seek_split_append:
  "seek_split I D P d (xs @ ys) =
     (let (a, b, p) = seek_split I D P d xs
      in if b = [] then (let (a', b', p') = seek_split I D P p ys in (a @ a', b', p'))
         else (a, b @ ys, p))"
  by (induction xs arbitrary: d) (auto simp: Let_def split: prod.splits)

lemma seek_split_parts:
  "seek_split I D P d xs = (a, b, p) \<Longrightarrow> xs = a @ b \<and> p = pos_after I D d a"
  by (induction xs arbitrary: d a b p) (auto simp: Let_def split: if_splits prod.splits)

lemma seek_split_stop:
  "seek_split I D P d xs = (a, y # b, p) \<Longrightarrow> \<not> P (d_add D p (item_summary I y))"
  by (induction xs arbitrary: d a p) (auto simp: Let_def split: if_splits prod.splits)

lemma seek_split_not_all:
  "xs \<noteq> [] \<Longrightarrow> \<not> P (pos_after I D d xs) \<Longrightarrow> seek_split I D P d xs = (a, b, p) \<Longrightarrow> b \<noteq> []"
proof (induction xs arbitrary: d a)
  case (Cons x xs)
  then show ?case
    by (cases "xs = []") (auto simp: Let_def split: if_splits prod.splits)
qed simp

lemma seek_split_passed:
  "seek_split I D P d xs = (a, b, p) \<Longrightarrow> a \<noteq> [] \<Longrightarrow> P p"
proof (induction xs arbitrary: d a)
  case (Cons x xs)
  then show ?case
    by (cases "fst (seek_split I D P (d_add D d (item_summary I x)) xs) = []")
      (auto simp: Let_def split: if_splits prod.splits dest: seek_split_parts)
qed simp

lemma ends_wf:
  "wf_node I k t \<Longrightarrow>
     (\<exists>s its iss. leftmost_leaf t = Some (Leaf s its iss) \<and> its \<noteq> [] \<and> hd its = hd (tree_items t)) \<and>
     (\<exists>s its iss. rightmost_leaf t = Some (Leaf s its iss) \<and> its \<noteq> [] \<and> last its = last (tree_items t) \<and>
        iss = map (item_summary I) its)"
proof (induction t arbitrary: k)
  case (Internal h s css cts)
  then have wf: "\<forall>c \<in> set cts. wf_node I (k - 1) c" and ne: "cts \<noteq> []" by auto
  have "hd (tree_items (hd cts)) = hd (concat (map tree_items cts))"
    using ne wf wf_node_items_ne [of I "k - 1" "hd cts"] by (cases cts) (auto simp: hd_append)
  moreover have "last (tree_items (last cts)) = last (concat (map tree_items cts))"
    using ne wf wf_node_items_ne [of I "k - 1" "last cts"] by (cases cts rule: rev_cases) (auto simp: last_append)
  ultimately show ?case
    using Internal.IH [OF hd_in_set [OF ne] wf [rule_format, OF hd_in_set [OF ne]]]
      Internal.IH [OF last_in_set [OF ne] wf [rule_format, OF last_in_set [OF ne]]] ne
    by auto
qed simp

lemma first_wf_node: "wf_node I k t \<Longrightarrow> first t = Some (Some (hd (tree_items t)))"
  using ends_wf [of I k t] by (auto simp: first_def vec_first_def split: list.splits)

lemma last_wf_node: "wf_node I k t \<Longrightarrow> last_item t = Some (Some (last (tree_items t)))"
  using ends_wf [of I k t] by (auto simp: last_item_def)

definition upd_prev :: "'t option \<Rightarrow> 't list \<Rightarrow> 't option" where
  "upd_prev prev xs = (if xs = [] then prev else Some (last xs))"

lemma upd_prev_simps [simp]:
  "upd_prev prev [] = prev" "upd_prev (upd_prev prev xs) ys = upd_prev prev (xs @ ys)"
  "xs \<noteq> [] \<Longrightarrow> upd_prev (Some (last xs)) ys = upd_prev prev (xs @ ys)"
  by (simp_all add: upd_prev_def)

text \<open>The law of a dimension: measuring is additive.\<close>

locale dim_laws = summary_laws I for I :: "('t, 's) item_ops" +
  fixes D :: "('d, 's) dim_ops"
  assumes d_add_add: "d_add D (d_add D d a) b = d_add D d (s_add I a b)"
begin

lemma pos_after_sum:
  "xs \<noteq> [] \<Longrightarrow> d_add D d (s_sum I (map (item_summary I) xs)) = pos_after I D d xs"
proof (induction xs arbitrary: d)
  case (Cons x xs)
  then show ?case
    by (cases "xs = []") (simp_all add: s_sum_Cons_ne flip: d_add_add)
qed simp

lemma node_end: "wf_node I k t \<Longrightarrow> d_add D d (summary t) = pos_after I D d (tree_items t)"
  by (simp add: wf_node_summary wf_node_items_ne pos_after_sum)

lemma find_child_seek_split:
  assumes "\<forall>c \<in> set cts. wf_node I k c"
    and "mono_target I D (\<lambda>d. passes bias (tgt d)) d (concat (map tree_items cts))"
  shows "(case find_child D tgt bias d (zip cts (map summary cts)) of
      (q, Some c) \<Rightarrow> \<exists>cs1 cs2. cts = cs1 @ c # cs2 \<and> q = pos_after I D d (concat (map tree_items cs1)) \<and>
         \<not> passes bias (tgt (pos_after I D q (tree_items c))) \<and>
         mono_target I D (\<lambda>d. passes bias (tgt d)) q (tree_items c) \<and>
         seek_split I D (\<lambda>d. passes bias (tgt d)) d (concat (map tree_items cts)) =
           (let (a, b, p) = seek_split I D (\<lambda>d. passes bias (tgt d)) q (tree_items c)
            in (concat (map tree_items cs1) @ a, b @ concat (map tree_items cs2), p)) \<and>
         (\<forall>prev. find_child_prev D tgt bias prev d (zip cts (map summary cts)) =
           Some (upd_prev prev (concat (map tree_items cs1)), q, Some c))
    | (q, None) \<Rightarrow> (\<forall>prev. \<exists>prev'. find_child_prev D tgt bias prev d (zip cts (map summary cts)) =
           Some (prev', q, None)) \<and> q = pos_after I D d (concat (map tree_items cts)) \<and>
         seek_split I D (\<lambda>d. passes bias (tgt d)) d (concat (map tree_items cts)) =
           (concat (map tree_items cts), [], q))"
  using assms
proof (induction cts arbitrary: d)
  case (Cons c cs)
  let ?P = "\<lambda>d. passes bias (tgt d)"
  have wf: "wf_node I k c" using Cons.prems(1) by simp
  note e = node_end [OF wf, of d]
  have mono: "mono_target I D ?P d (tree_items c)"
    "mono_target I D ?P (pos_after I D d (tree_items c)) (concat (map tree_items cs))"
    using mono_target_append [of I D ?P d "tree_items c"] Cons.prems(2) by simp_all
  show ?case
  proof (cases "?P (pos_after I D d (tree_items c))")
    case False
    obtain a b p where sp: "seek_split I D ?P d (tree_items c) = (a, b, p)" by (metis prod_cases3)
    have "b \<noteq> []" using seek_split_not_all [OF wf_node_items_ne [OF wf] False sp] .
    with sp have "seek_split I D ?P d (concat (map tree_items (c # cs))) = (a, b @ concat (map tree_items cs), p)"
      by (simp add: seek_split_append)
    with False mono sp show ?thesis
      by (simp add: e target_in_passes Let_def, intro exI [of _ "[]"] exI [of _ cs]) simp
  next
    case True
    note all = seek_split_all [OF mono(1) wf_node_items_ne [OF wf] True]
    have rec: "find_child D tgt bias d (zip (c # cs) (map summary (c # cs))) =
        find_child D tgt bias (pos_after I D d (tree_items c)) (zip cs (map summary cs))"
      using True by (simp add: e target_in_passes)
    have rec': "find_child_prev D tgt bias prev d (zip (c # cs) (map summary (c # cs))) =
        find_child_prev D tgt bias (Some (last (tree_items c))) (pos_after I D d (tree_items c))
          (zip cs (map summary cs))" for prev
      using True by (simp add: e target_in_passes last_wf_node [OF wf])
    obtain q r where qr: "find_child D tgt bias (pos_after I D d (tree_items c)) (zip cs (map summary cs)) = (q, r)"
      by fastforce
    have "\<forall>c \<in> set cs. wf_node I k c" using Cons.prems(1) by simp
    note IH = Cons.IH [OF this mono(2), unfolded qr]
    show ?thesis
    proof (cases r)
      case None
      from IH [unfolded None prod.case option.case]
      have pr: "\<forall>prev. \<exists>prev'. find_child_prev D tgt bias prev (pos_after I D d (tree_items c)) (zip cs (map summary cs)) =
           Some (prev', q, None)"
        and qq: "q = pos_after I D (pos_after I D d (tree_items c)) (concat (map tree_items cs))"
        and sp: "seek_split I D ?P (pos_after I D d (tree_items c)) (concat (map tree_items cs)) =
           (concat (map tree_items cs), [], q)"
        by (elim conjE, blast+)
      show ?thesis unfolding rec rec' qr None prod.case option.case
        using pr sp by (auto simp: seek_split_append all qq)
    next
      case (Some c')
      from IH [unfolded Some prod.case option.case] obtain cs1 cs2 where
        cs: "cs = cs1 @ c' # cs2"
        and q: "q = pos_after I D (pos_after I D d (tree_items c)) (concat (map tree_items cs1))"
        and np: "\<not> ?P (pos_after I D q (tree_items c'))" and m: "mono_target I D ?P q (tree_items c')"
        and sp: "seek_split I D ?P (pos_after I D d (tree_items c)) (concat (map tree_items cs)) =
           (let (a, b, p) = seek_split I D ?P q (tree_items c')
            in (concat (map tree_items cs1) @ a, b @ concat (map tree_items cs2), p))"
        and pr: "\<forall>prev. find_child_prev D tgt bias prev (pos_after I D d (tree_items c)) (zip cs (map summary cs)) =
           Some (upd_prev prev (concat (map tree_items cs1)), q, Some c')"
        by (elim exE conjE) (rule that)
      obtain a b p where abp: "seek_split I D ?P q (tree_items c') = (a, b, p)" by (metis prod_cases3)
      have "seek_split I D ?P d (concat (map tree_items (c # cs))) =
          (concat (map tree_items (c # cs1)) @ a, b @ concat (map tree_items cs2), p)"
        using sp abp by (simp add: seek_split_append all)
      moreover have "upd_prev (Some (last (tree_items c))) (concat (map tree_items cs1)) =
          upd_prev prev (concat (map tree_items (c # cs1)))" for prev
        using wf_node_items_ne [OF wf] by (simp add: upd_prev_def)
      ultimately show ?thesis unfolding rec rec' qr Some prod.case option.case
        using cs q np m abp pr by (intro exI [of _ "c # cs1"] exI [of _ cs2]) simp
    qed
  qed
qed simp

lemma find_item_seek_split:
  "find_item False D tgt bias d (zip its (map (item_summary I) its)) =
     (case seek_split I D (\<lambda>d. passes bias (tgt d)) d its of
        (a, [], p) \<Rightarrow> (p, None)
      | (a, y # b, p) \<Rightarrow> (p, Some (y, d_add D p (item_summary I y))))"
  by (induction its arbitrary: d) (auto simp: Let_def target_in_passes split: prod.splits list.splits)

text \<open>The descent from the root gives what scanning the items gives.\<close>

lemma find_iterate_seek_split:
  "wf_node I k t \<Longrightarrow> mono_target I D (\<lambda>d. passes bias (tgt d)) d (tree_items t) \<Longrightarrow>
     find_iterate False D tgt bias d t =
     (case seek_split I D (\<lambda>d. passes bias (tgt d)) d (tree_items t) of
        (a, [], p) \<Rightarrow> (p, None)
      | (a, y # b, p) \<Rightarrow> (p, Some (y, d_add D p (item_summary I y))))"
proof (induction t arbitrary: k d)
  case (Leaf s its iss)
  then show ?case by (simp add: find_item_seek_split)
next
  case (Internal h s css cts)
  let ?P = "\<lambda>d. passes bias (tgt d)"
  have wf: "\<forall>c \<in> set cts. wf_node I (k - 1) c" and css: "css = map summary cts"
    using Internal.prems(1) by auto
  have mono: "mono_target I D ?P d (concat (map tree_items cts))" using Internal.prems(2) by simp
  obtain q r where qr: "find_child D tgt bias d (zip cts (map summary cts)) = (q, r)" by fastforce
  note F = find_child_seek_split [OF wf mono, unfolded qr]
  show ?case
  proof (cases r)
    case None
    with F qr css show ?thesis by simp
  next
    case (Some c)
    from F [unfolded Some prod.case option.case] obtain cs1 cs2 where cts: "cts = cs1 @ c # cs2"
      and np: "\<not> ?P (pos_after I D q (tree_items c))" and m: "mono_target I D ?P q (tree_items c)"
      and sp: "seek_split I D ?P d (concat (map tree_items cts)) =
           (let (a, b, p) = seek_split I D ?P q (tree_items c)
            in (concat (map tree_items cs1) @ a, b @ concat (map tree_items cs2), p))"
      and "\<forall>prev. find_child_prev D tgt bias prev d (zip cts (map summary cts)) =
           Some (upd_prev prev (concat (map tree_items cs1)), q, Some c)"
      by (elim exE conjE) (rule that)
    have c: "c \<in> set cts" "wf_node I (k - 1) c" using cts wf by auto
    obtain a b p where abp: "seek_split I D ?P q (tree_items c) = (a, b, p)" by (metis prod_cases3)
    have "b \<noteq> []" using seek_split_not_all [OF wf_node_items_ne [OF c(2)] np abp] .
    then show ?thesis
      using Internal.IH [OF c(1,2) m] qr Some css sp abp
      by (auto simp: Let_def split: list.splits)
  qed
qed

lemma find_item_exact:
  "mono_target I D (\<lambda>d. passes Right (tgt d)) d its \<Longrightarrow>
     map_option fst (snd (find_item True D tgt Left d (zip its (map (item_summary I) its)))) =
     (case seek_split I D (\<lambda>d. passes Left (tgt d)) d its of
        (a, [], p) \<Rightarrow> None
      | (a, y # b, p) \<Rightarrow> if tgt (d_add D p (item_summary I y)) = Equal then Some y else None)"
proof (induction its arbitrary: d)
  case (Cons x xs)
  let ?e = "d_add D d (item_summary I x)"
  have never: "snd (find_item True D tgt Left e (zip ys (map (item_summary I) ys))) = None"
    if "never_passes I D (\<lambda>d. passes Right (tgt d)) e ys" for e ys
    using that by (induction ys arbitrary: e) (auto simp: Let_def passes_def)
  show ?case
  proof (cases "tgt ?e")
    case Less
    with Cons.prems have "never_passes I D (\<lambda>d. passes Right (tgt d)) ?e xs"
      by (auto simp: passes_def Let_def)
    with Less never show ?thesis by (simp add: Let_def passes_def)
  next
    case Greater
    with Cons show ?thesis by (auto simp: Let_def passes_def split: prod.splits list.splits)
  qed (simp add: Let_def passes_def)
qed simp

lemma find_iterate_exact:
  "wf_node I k t \<Longrightarrow> mono_target I D (\<lambda>d. passes Left (tgt d)) d (tree_items t) \<Longrightarrow>
     mono_target I D (\<lambda>d. passes Right (tgt d)) d (tree_items t) \<Longrightarrow>
     map_option fst (snd (find_iterate True D tgt Left d t)) =
     (case seek_split I D (\<lambda>d. passes Left (tgt d)) d (tree_items t) of
        (a, [], p) \<Rightarrow> None
      | (a, y # b, p) \<Rightarrow> if tgt (d_add D p (item_summary I y)) = Equal then Some y else None)"
proof (induction t arbitrary: k d)
  case (Leaf s its iss)
  then show ?case by (simp add: find_item_exact)
next
  case (Internal h s css cts)
  let ?P = "\<lambda>d. passes Left (tgt d)"
  have wf: "\<forall>c \<in> set cts. wf_node I (k - 1) c" and css: "css = map summary cts"
    using Internal.prems(1) by auto
  have mono: "mono_target I D ?P d (concat (map tree_items cts))"
    "mono_target I D (\<lambda>d. passes Right (tgt d)) d (concat (map tree_items cts))"
    using Internal.prems(2,3) by simp_all
  obtain q r where qr: "find_child D tgt Left d (zip cts (map summary cts)) = (q, r)" by fastforce
  note F = find_child_seek_split [OF wf mono(1), unfolded qr]
  show ?case
  proof (cases r)
    case None
    with F qr css show ?thesis by simp
  next
    case (Some c)
    from F [unfolded Some prod.case option.case] obtain cs1 cs2 where cts: "cts = cs1 @ c # cs2"
      and q: "q = pos_after I D d (concat (map tree_items cs1))"
      and np: "\<not> ?P (pos_after I D q (tree_items c))" and m: "mono_target I D ?P q (tree_items c)"
      and sp: "seek_split I D ?P d (concat (map tree_items cts)) =
           (let (a, b, p) = seek_split I D ?P q (tree_items c)
            in (concat (map tree_items cs1) @ a, b @ concat (map tree_items cs2), p))"
      by (elim exE conjE) (rule that)
    have c: "c \<in> set cts" "wf_node I (k - 1) c" using cts wf by auto
    have mR: "mono_target I D (\<lambda>d. passes Right (tgt d)) q (tree_items c)"
      using mono(2) unfolding cts q by (auto dest!: mono_target_append)
    obtain a b p where abp: "seek_split I D ?P q (tree_items c) = (a, b, p)" by (metis prod_cases3)
    have "b \<noteq> []" using seek_split_not_all [OF wf_node_items_ne [OF c(2)] np abp] .
    then show ?thesis
      using Internal.IH [OF c(1,2) m mR] qr Some css sp abp
      by (auto simp: Let_def split: list.splits)
  qed
qed

lemma find_exact_correct:
  assumes "wf_tree I t" and "mono_target I D (\<lambda>d. passes Left (tgt d)) (d_zero D) (tree_items t)"
    and "mono_target I D (\<lambda>d. passes Right (tgt d)) (d_zero D) (tree_items t)"
  shows "snd (snd (find_exact D t tgt Left)) =
     (case seek_split I D (\<lambda>d. passes Left (tgt d)) (d_zero D) (tree_items t) of
        (a, [], p) \<Rightarrow> None
      | (a, y # b, p) \<Rightarrow> if tgt (d_add D p (item_summary I y)) = Equal then Some y else None)"
proof (cases "tree_items t = []")
  case True
  with assms(1) have "t = new I" by (rule wf_tree_empty)
  then show ?thesis by (simp add: find_exact_def find_gen_def new_def Let_def)
next
  case False
  let ?P = "\<lambda>d. passes Left (tgt d)"
  from False assms(1) have wf: "wf_node I (height t) t" by (simp add: wf_tree_nonempty)
  show ?thesis
  proof (cases "?P (pos_after I D (d_zero D) (tree_items t))")
    case True
    with seek_split_all [OF assms(2) False] show ?thesis
      by (simp add: find_exact_def find_gen_def Let_def node_end [OF wf] passes_def)
  next
    case np: False
    obtain q r where qr: "find_iterate True D tgt Left (d_zero D) t = (q, r)" by fastforce
    have "snd (snd (find_exact D t tgt Left)) = map_option fst r"
      using np by (auto simp: find_exact_def find_gen_def Let_def node_end [OF wf] passes_def qr
          split: option.splits)
    with find_iterate_exact [OF wf assms(2,3)] qr show ?thesis by simp
  qed
qed

lemma find_item_prev_seek_split:
  "find_item_prev D tgt bias prev d (zip its (map (item_summary I) its)) =
     (case seek_split I D (\<lambda>d. passes bias (tgt d)) d its of
        (a, [], p) \<Rightarrow> (p, None)
      | (a, y # b, p) \<Rightarrow> (p, Some (upd_prev prev a, y, d_add D p (item_summary I y))))"
  by (induction its arbitrary: d prev)
    (auto simp: Let_def target_in_passes upd_prev_def split: prod.splits list.splits)

lemma find_with_prev_iterate_seek_split:
  "wf_node I k t \<Longrightarrow> mono_target I D (\<lambda>d. passes bias (tgt d)) d (tree_items t) \<Longrightarrow>
     find_with_prev_iterate D tgt bias prev d t =
     Some (case seek_split I D (\<lambda>d. passes bias (tgt d)) d (tree_items t) of
        (a, [], p) \<Rightarrow> (p, None)
      | (a, y # b, p) \<Rightarrow> (p, Some (upd_prev prev a, y, d_add D p (item_summary I y))))"
proof (induction t arbitrary: k d prev)
  case (Leaf s its iss)
  then show ?case by (simp add: find_item_prev_seek_split)
next
  case (Internal h s css cts)
  let ?P = "\<lambda>d. passes bias (tgt d)"
  have wf: "\<forall>c \<in> set cts. wf_node I (k - 1) c" and css: "css = map summary cts"
    using Internal.prems(1) by auto
  have mono: "mono_target I D ?P d (concat (map tree_items cts))" using Internal.prems(2) by simp
  obtain q r where qr: "find_child D tgt bias d (zip cts (map summary cts)) = (q, r)" by fastforce
  note F = find_child_seek_split [OF wf mono, unfolded qr]
  show ?case
  proof (cases r)
    case None
    from F [unfolded None prod.case option.case] obtain prev' where
      "find_child_prev D tgt bias prev d (zip cts (map summary cts)) = Some (prev', q, None)" by blast
    moreover from F None have "seek_split I D ?P d (concat (map tree_items cts)) =
        (concat (map tree_items cts), [], q)" by simp
    ultimately show ?thesis using css by simp
  next
    case (Some c)
    from F [unfolded Some prod.case option.case] obtain cs1 cs2 where cts: "cts = cs1 @ c # cs2"
      and np: "\<not> ?P (pos_after I D q (tree_items c))" and m: "mono_target I D ?P q (tree_items c)"
      and sp: "seek_split I D ?P d (concat (map tree_items cts)) =
           (let (a, b, p) = seek_split I D ?P q (tree_items c)
            in (concat (map tree_items cs1) @ a, b @ concat (map tree_items cs2), p))"
      and pr: "\<forall>prev. find_child_prev D tgt bias prev d (zip cts (map summary cts)) =
           Some (upd_prev prev (concat (map tree_items cs1)), q, Some c)"
      by (elim exE conjE) (rule that)
    have c: "c \<in> set cts" "wf_node I (k - 1) c" using cts wf by auto
    obtain a b p where abp: "seek_split I D ?P q (tree_items c) = (a, b, p)" by (metis prod_cases3)
    have "b \<noteq> []" using seek_split_not_all [OF wf_node_items_ne [OF c(2)] np abp] .
    then show ?thesis
      using Internal.IH [OF c(1,2) m] pr css sp abp
      by (auto simp: Let_def split: list.splits)
  qed
qed

end

text \<open>A dimension that measures an empty tree as nothing.\<close>

locale zero_dim_laws = dim_laws +
  assumes d_zero_zero: "d_add D (d_zero D) (s_zero I) = d_zero D"
begin

lemma find_correct:
  assumes "wf_tree I t" and "mono_target I D (\<lambda>d. passes bias (tgt d)) (d_zero D) (tree_items t)"
  shows "find D t tgt bias =
     (case seek_split I D (\<lambda>d. passes bias (tgt d)) (d_zero D) (tree_items t) of
        (a, [], p) \<Rightarrow> (p, p, None)
      | (a, y # b, p) \<Rightarrow> (p, d_add D p (item_summary I y), Some y))"
proof (cases "tree_items t = []")
  case True
  with assms(1) have "t = new I" by (rule wf_tree_empty)
  then show ?thesis by (simp add: find_def find_gen_def new_def d_zero_zero Let_def)
next
  case False
  let ?P = "\<lambda>d. passes bias (tgt d)"
  from False assms(1) have wf: "wf_node I (height t) t" by (simp add: wf_tree_nonempty)
  obtain a b p where abp: "seek_split I D ?P (d_zero D) (tree_items t) = (a, b, p)" by (metis prod_cases3)
  show ?thesis
  proof (cases "?P (pos_after I D (d_zero D) (tree_items t))")
    case True
    with seek_split_all [OF assms(2) False] show ?thesis
      by (simp add: find_def find_gen_def Let_def node_end [OF wf] passes_def)
  next
    case np: False
    have "b \<noteq> []" using seek_split_not_all [OF False np abp] .
    with np find_iterate_seek_split [OF wf assms(2)] abp show ?thesis
      by (auto simp: find_def find_gen_def Let_def node_end [OF wf] passes_def split: list.splits)
  qed
qed

lemma find_with_prev_correct:
  assumes "wf_tree I t" and "mono_target I D (\<lambda>d. passes bias (tgt d)) (d_zero D) (tree_items t)"
  shows "find_with_prev D t tgt bias =
     Some (case seek_split I D (\<lambda>d. passes bias (tgt d)) (d_zero D) (tree_items t) of
        (a, [], p) \<Rightarrow> (p, p, None)
      | (a, y # b, p) \<Rightarrow> (p, d_add D p (item_summary I y), Some (vec_last a, y)))"
proof (cases "tree_items t = []")
  case True
  with assms(1) have "t = new I" by (rule wf_tree_empty)
  then show ?thesis by (simp add: find_with_prev_def new_def d_zero_zero Let_def)
next
  case False
  let ?P = "\<lambda>d. passes bias (tgt d)"
  from False assms(1) have wf: "wf_node I (height t) t" by (simp add: wf_tree_nonempty)
  obtain a b p where abp: "seek_split I D ?P (d_zero D) (tree_items t) = (a, b, p)" by (metis prod_cases3)
  show ?thesis
  proof (cases "?P (pos_after I D (d_zero D) (tree_items t))")
    case True
    with seek_split_all [OF assms(2) False] show ?thesis
      by (simp add: find_with_prev_def Let_def node_end [OF wf] passes_def)
  next
    case np: False
    have "b \<noteq> []" using seek_split_not_all [OF False np abp] .
    with np find_with_prev_iterate_seek_split [OF wf assms(2)] abp show ?thesis
      by (auto simp: find_with_prev_def Let_def node_end [OF wf] passes_def upd_prev_def vec_last_def
          split: list.splits)
  qed
qed

end

subsection \<open>First, last and the in-place updates\<close>

lemma first_correct: "wf_tree I t \<Longrightarrow> first t = Some (vec_first (tree_items t))"
  using first_wf_node [of I "height t" t] wf_node_items_ne [of I "height t" t]
  by (auto simp: wf_tree_def vec_first_def first_def new_def split: list.splits)

lemma last_correct: "wf_tree I t \<Longrightarrow> last_item t = Some (vec_last (tree_items t))"
  using last_wf_node [of I "height t" t] wf_node_items_ne [of I "height t" t]
  by (auto simp: wf_tree_def vec_last_def last_item_def new_def)

lemma last_summary_correct:
  "wf_tree I t \<Longrightarrow> last_summary t = Some (map_option (item_summary I) (vec_last (tree_items t)))"
  using ends_wf [of I "height t" t] wf_node_items_ne [of I "height t" t]
  by (auto simp: wf_tree_def vec_last_def last_summary_def new_def last_map)

lemma concat_map_last:
  assumes "cts \<noteq> []" and "f (last cts) \<noteq> []"
  shows "butlast (concat (map f cts)) = concat (map f (butlast cts)) @ butlast (f (last cts))"
    and "last (concat (map f cts)) = last (f (last cts))"
  using assms by (cases cts rule: rev_cases; simp add: butlast_append)+

lemma concat_map_hd:
  assumes "cts \<noteq> []" and "f (hd cts) \<noteq> []"
  shows "tl (concat (map f cts)) = tl (f (hd cts)) @ concat (map f (tl cts))"
    and "hd (concat (map f cts)) = hd (f (hd cts))"
  using assms by (cases cts; simp)+

lemma update_last_recursive_wf:
  "wf_node I k t \<Longrightarrow> \<exists>t'. update_last_recursive I f t = Some (t', Some (summary t')) \<and> wf_node I k t' \<and>
     tree_items t' = butlast (tree_items t) @ [f (last (tree_items t))]"
proof (induction t arbitrary: k)
  case (Leaf s its iss)
  then show ?case by (simp add: set_last_def Let_def map_butlast)
next
  case (Internal h s css cts)
  then have wf: "\<forall>c \<in> set cts. wf_node I (k - 1) c" and ne: "cts \<noteq> []" and css: "css = map summary cts"
    and k: "h = k" "0 < k" "length cts \<le> 2 * TREE_BASE"
    by auto
  have l: "last cts \<in> set cts" using ne by simp
  with wf have wl: "wf_node I (k - 1) (last cts)" by simp
  obtain t' where t': "update_last_recursive I f (last cts) = Some (t', Some (summary t'))"
    "wf_node I (k - 1) t'" "tree_items t' = butlast (tree_items (last cts)) @ [f (last (tree_items (last cts)))]"
    using Internal.IH [OF l wl] by blast
  let ?cts = "butlast cts @ [t']"
  have wf': "\<forall>c \<in> set ?cts. wf_node I (k - 1) c" using wf t'(2) by (auto dest: in_set_butlastD)
  have "update_last_recursive I f (Internal h s css cts) =
      Some (Internal k (s_sum I (map summary ?cts)) (map summary ?cts) ?cts, Some (s_sum I (map summary ?cts)))"
    using ne t'(1) k by (simp add: css set_last_def Let_def map_butlast)
  moreover have "concat (map tree_items ?cts) =
      butlast (concat (map tree_items cts)) @ [f (last (concat (map tree_items cts)))]"
    using concat_map_last [of cts tree_items] ne wf_node_items_ne [OF wl] by (simp add: t'(3))
  ultimately show ?case using wf' k ne by simp
qed

lemma update_first_recursive_wf:
  "wf_node I k t \<Longrightarrow> \<exists>t'. update_first_recursive I f t = Some (t', Some (summary t')) \<and> wf_node I k t' \<and>
     tree_items t' = f (hd (tree_items t)) # tl (tree_items t)"
proof (induction t arbitrary: k)
  case (Leaf s its iss)
  then show ?case by (cases its) (auto simp: set_first_def Let_def)
next
  case (Internal h s css cts)
  then have wf: "\<forall>c \<in> set cts. wf_node I (k - 1) c" and ne: "cts \<noteq> []" and css: "css = map summary cts"
    and k: "h = k" "0 < k" "length cts \<le> 2 * TREE_BASE"
    by auto
  have l: "hd cts \<in> set cts" using ne by simp
  with wf have wl: "wf_node I (k - 1) (hd cts)" by simp
  obtain t' where t': "update_first_recursive I f (hd cts) = Some (t', Some (summary t'))"
    "wf_node I (k - 1) t'" "tree_items t' = f (hd (tree_items (hd cts))) # tl (tree_items (hd cts))"
    using Internal.IH [OF l wl] by blast
  let ?cts = "t' # tl cts"
  have wf': "\<forall>c \<in> set ?cts. wf_node I (k - 1) c" using wf t'(2) ne by (auto dest: list.set_sel(2))
  have "update_first_recursive I f (Internal h s css cts) =
      Some (Internal k (s_sum I (map summary ?cts)) (map summary ?cts) ?cts, Some (s_sum I (map summary ?cts)))"
    using ne t'(1) k by (cases cts) (auto simp: css set_first_def Let_def)
  moreover have "concat (map tree_items ?cts) =
      f (hd (concat (map tree_items cts))) # tl (concat (map tree_items cts))"
    using concat_map_hd [of cts tree_items] ne wf_node_items_ne [OF wl] by (simp add: t'(3))
  ultimately show ?case using wf' k ne by simp
qed

lemma update_last_correct:
  assumes "wf_tree I t"
  shows "\<exists>t'. update_last I f t = Some t' \<and> wf_tree I t' \<and>
    tree_items t' = (if tree_items t = [] then [] else butlast (tree_items t) @ [f (last (tree_items t))])"
proof (cases "t = new I")
  case True
  then show ?thesis by (simp add: update_last_def new_def) (simp add: wf_tree_def new_def)
next
  case False
  with assms have wf: "wf_node I (height t) t" by (simp add: wf_tree_def)
  from update_last_recursive_wf [OF wf, of f] wf_node_items_ne [OF wf] show ?thesis
    by (auto simp: update_last_def intro: wf_treeI split: list.splits)
qed

lemma update_first_correct:
  assumes "wf_tree I t"
  shows "\<exists>t'. update_first I f t = Some t' \<and> wf_tree I t' \<and>
    tree_items t' = (case tree_items t of [] \<Rightarrow> [] | x # xs \<Rightarrow> f x # xs)"
proof (cases "t = new I")
  case True
  then show ?thesis by (simp add: update_first_def new_def) (simp add: wf_tree_def new_def)
next
  case False
  with assms have wf: "wf_node I (height t) t" by (simp add: wf_tree_def)
  from update_first_recursive_wf [OF wf, of f] wf_node_items_ne [OF wf] show ?thesis
    by (auto simp: update_first_def intro: wf_treeI split: list.splits)
qed

end
