(* ===== verification/Cursor.thy ===== *)
theory Cursor
  imports SumTreeFind
begin

text \<open>
  Cursors over a summarised tree (\<open>crates/sum_tree/src/cursor.rs\<close>). A cursor keeps a stack of
  nodes with an index into each, the accumulated dimension in front of it, and two flags. The
  stack, an \<open>ArrayVec\<close> of capacity 16 whose last element is the top, is a list whose head is the
  top; pushing over the capacity panics. The seek target's three aggregates (\<open>()\<close>, a slice, a
  summary) are dictionaries; their contract is the locale \<open>seek_aggregate\<close>.
\<close>

subsection \<open>State\<close>

record ('t, 's, 'd) stack_entry =
  e_tree :: "('t, 's) sum_tree"
  e_index :: nat
  e_position :: 'd

record ('t, 's, 'd) cursor =
  c_tree :: "('t, 's) sum_tree"
  c_stack :: "('t, 's, 'd) stack_entry list"
  c_position :: 'd
  c_did_seek :: bool
  c_at_end :: bool

definition cursor_new :: "('d, 's) dim_ops \<Rightarrow> ('t, 's) sum_tree \<Rightarrow> ('t, 's, 'd) cursor" where
  "cursor_new D tree =
     \<lparr>c_tree = tree, c_stack = [], c_position = d_zero D, c_did_seek = False, c_at_end = is_empty tree\<rparr>"

definition cursor_reset :: "('d, 's) dim_ops \<Rightarrow> ('t, 's, 'd) cursor \<Rightarrow> ('t, 's, 'd) cursor" where
  "cursor_reset D c = c\<lparr>c_did_seek := False, c_at_end := is_empty (c_tree c), c_stack := [],
     c_position := d_zero D\<rparr>"

definition STACK_CAPACITY :: nat where "STACK_CAPACITY = 16"

definition push_entry :: "'e list \<Rightarrow> 'e \<Rightarrow> 'e list option" where
  "push_entry stack e = (if length stack < STACK_CAPACITY then Some (e # stack) else None)"

subsection \<open>Reading at the cursor\<close>

definition cursor_item :: "('t, 's, 'd) cursor \<Rightarrow> 't option option" where
  "cursor_item c = do {
     guard (c_did_seek c);
     (case c_stack c of
        [] \<Rightarrow> Some None
      | entry # _ \<Rightarrow>
          (case e_tree entry of
             Leaf _ its _ \<Rightarrow>
               if e_index entry = length its then Some None
               else map_option Some (vec_get its (e_index entry))
           | Internal _ _ _ _ \<Rightarrow> None))
   }"

definition cursor_item_summary :: "('t, 's, 'd) cursor \<Rightarrow> 's option option" where
  "cursor_item_summary c = do {
     guard (c_did_seek c);
     (case c_stack c of
        [] \<Rightarrow> Some None
      | entry # _ \<Rightarrow>
          (case e_tree entry of
             Leaf _ _ iss \<Rightarrow>
               if e_index entry = length iss then Some None
               else map_option Some (vec_get iss (e_index entry))
           | Internal _ _ _ _ \<Rightarrow> None))
   }"

definition cursor_end :: "('d, 's) dim_ops \<Rightarrow> ('t, 's, 'd) cursor \<Rightarrow> 'd option" where
  "cursor_end D c = do {
     s \<leftarrow> cursor_item_summary c;
     Some (case s of Some isum \<Rightarrow> d_add D (c_position c) isum | None \<Rightarrow> c_position c)
   }"

text \<open>The leaf after and before the one on top of the stack: the entries below it are searched.\<close>

fun next_leaf :: "('t, 's, 'd) stack_entry list \<Rightarrow> ('t, 's) sum_tree option option" where
  "next_leaf [] = Some None"
| "next_leaf (entry # stack) = do {
     cts \<leftarrow> child_trees (e_tree entry);
     guard (cts \<noteq> []);
     if e_index entry < length cts - 1 then do {
       leaf \<leftarrow> leftmost_leaf (cts ! (e_index entry + 1));
       Some (Some leaf)
     } else next_leaf stack
   }"

definition next_item :: "('t, 's, 'd) cursor \<Rightarrow> 't option option" where
  "next_item c = do {
     guard (c_did_seek c);
     (case c_stack c of
        entry # stack \<Rightarrow> do {
          its \<leftarrow> node_items (e_tree entry);
          guard (its \<noteq> []);
          if e_index entry = length its - 1 then do {
            leaf \<leftarrow> next_leaf stack;
            (case leaf of
               Some leaf \<Rightarrow> do { its \<leftarrow> node_items leaf; x \<leftarrow> vec_first its; Some (Some x) }
             | None \<Rightarrow> Some None)
          } else map_option Some (vec_get its (e_index entry + 1))
        }
      | [] \<Rightarrow> if c_at_end c then Some None else first (c_tree c))
   }"

fun prev_leaf :: "('t, 's, 'd) stack_entry list \<Rightarrow> ('t, 's) sum_tree option option" where
  "prev_leaf [] = Some None"
| "prev_leaf (entry # stack) =
     (if e_index entry \<noteq> 0 then do {
        cts \<leftarrow> child_trees (e_tree entry);
        child \<leftarrow> vec_get cts (e_index entry - 1);
        leaf \<leftarrow> rightmost_leaf child;
        Some (Some leaf)
      } else prev_leaf stack)"

definition prev_item :: "('t, 's, 'd) cursor \<Rightarrow> 't option option" where
  "prev_item c = do {
     guard (c_did_seek c);
     (case c_stack c of
        entry # stack \<Rightarrow>
          if e_index entry = 0 then do {
            leaf \<leftarrow> prev_leaf stack;
            (case leaf of
               Some leaf \<Rightarrow> do { its \<leftarrow> node_items leaf; x \<leftarrow> vec_last its; Some (Some x) }
             | None \<Rightarrow> Some None)
          } else do {
            its \<leftarrow> node_items (e_tree entry);
            map_option Some (vec_get its (e_index entry - 1))
          }
      | [] \<Rightarrow> if c_at_end c then last_item (c_tree c) else Some None)
   }"

subsection \<open>Aggregates of a seek\<close>

record ('a, 't, 's) agg_ops =
  begin_leaf :: "'a \<Rightarrow> 'a"
  end_leaf :: "'a \<Rightarrow> 'a option"
  push_item :: "'a \<Rightarrow> 't \<Rightarrow> 's \<Rightarrow> 'a option"
  push_tree :: "'a \<Rightarrow> ('t, 's) sum_tree \<Rightarrow> 's \<Rightarrow> 'a option"

definition unit_agg :: "(unit, 't, 's) agg_ops" where
  "unit_agg = \<lparr>begin_leaf = id, end_leaf = Some, push_item = (\<lambda>a _ _. Some a), push_tree = (\<lambda>a _ _. Some a)\<rparr>"

record ('t, 's) slice_seek_aggregate =
  sl_tree :: "('t, 's) sum_tree"
  sl_leaf_items :: "'t list"
  sl_leaf_item_summaries :: "'s list"
  sl_leaf_summary :: 's

definition slice_end_leaf ::
    "('t, 's) item_ops \<Rightarrow> ('t, 's) slice_seek_aggregate \<Rightarrow> ('t, 's) slice_seek_aggregate option" where
  "slice_end_leaf I a = do {
     tree \<leftarrow> append_tree I (sl_tree a) (Leaf (sl_leaf_summary a) (sl_leaf_items a) (sl_leaf_item_summaries a));
     Some (a\<lparr>sl_tree := tree, sl_leaf_items := [], sl_leaf_item_summaries := [], sl_leaf_summary := s_zero I\<rparr>)
   }"

definition slice_push_item ::
    "('t, 's) item_ops \<Rightarrow> ('t, 's) slice_seek_aggregate \<Rightarrow> 't \<Rightarrow> 's \<Rightarrow> ('t, 's) slice_seek_aggregate option" where
  "slice_push_item I a item isum = do {
     its \<leftarrow> array_vec (sl_leaf_items a @ [item]);
     iss \<leftarrow> array_vec (sl_leaf_item_summaries a @ [isum]);
     Some (a\<lparr>sl_leaf_items := its, sl_leaf_item_summaries := iss,
             sl_leaf_summary := s_add I (sl_leaf_summary a) isum\<rparr>)
   }"

definition slice_push_tree ::
    "('t, 's) item_ops \<Rightarrow> ('t, 's) slice_seek_aggregate \<Rightarrow> ('t, 's) sum_tree \<Rightarrow> 's \<Rightarrow>
      ('t, 's) slice_seek_aggregate option" where
  "slice_push_tree I a tree _ = do {
     tree' \<leftarrow> append_tree I (sl_tree a) tree;
     Some (a\<lparr>sl_tree := tree'\<rparr>)
   }"

definition slice_agg :: "('t, 's) item_ops \<Rightarrow> (('t, 's) slice_seek_aggregate, 't, 's) agg_ops" where
  "slice_agg I = \<lparr>begin_leaf = id, end_leaf = slice_end_leaf I, push_item = slice_push_item I,
                  push_tree = slice_push_tree I\<rparr>"

definition slice_agg_new :: "('t, 's) item_ops \<Rightarrow> ('t, 's) slice_seek_aggregate" where
  "slice_agg_new I = \<lparr>sl_tree = new I, sl_leaf_items = [], sl_leaf_item_summaries = [],
                      sl_leaf_summary = s_zero I\<rparr>"

definition summary_agg :: "('o, 's) dim_ops \<Rightarrow> ('o, 't, 's) agg_ops" where
  "summary_agg Out = \<lparr>begin_leaf = id, end_leaf = Some,
     push_item = (\<lambda>a _ s. Some (d_add Out a s)), push_tree = (\<lambda>a _ s. Some (d_add Out a s))\<rparr>"

subsection \<open>Seeking\<close>

text \<open>The loop over the children of an internal node from the entry's index on.\<close>

fun seek_children ::
    "('a, 't, 's) agg_ops \<Rightarrow> ('d, 's) dim_ops \<Rightarrow> 'd seek_target \<Rightarrow> bias \<Rightarrow> ('t, 's, 'd) stack_entry \<Rightarrow> 'd \<Rightarrow> 'a \<Rightarrow>
      (('t, 's) sum_tree \<times> 's) list \<Rightarrow>
      (('t, 's, 'd) stack_entry \<times> 'd \<times> 'a \<times> ('t, 's) sum_tree option) option" where
  "seek_children G D target bias entry position agg [] = Some (entry, position, agg, None)"
| "seek_children G D target bias entry position agg ((child_tree, child_summary) # cs) =
     (let child_end = d_add D position child_summary; comparison = target child_end
      in if comparison = Greater \<or> comparison = Equal \<and> bias = Right then do {
           agg' \<leftarrow> push_tree G agg child_tree child_summary;
           seek_children G D target bias
             (entry\<lparr>e_index := e_index entry + 1, e_position := child_end\<rparr>) child_end agg' cs
         } else Some (entry, position, agg, Some child_tree))"

text \<open>The loop over the items of a leaf; the flag says that the target is in the leaf
  (\<open>break 'outer\<close>).\<close>

fun seek_items ::
    "('a, 't, 's) agg_ops \<Rightarrow> ('d, 's) dim_ops \<Rightarrow> 'd seek_target \<Rightarrow> bias \<Rightarrow> ('t, 's, 'd) stack_entry \<Rightarrow> 'd \<Rightarrow> 'a \<Rightarrow>
      ('t \<times> 's) list \<Rightarrow> (('t, 's, 'd) stack_entry \<times> 'd \<times> 'a \<times> bool) option" where
  "seek_items G D target bias entry position agg [] = Some (entry, position, agg, False)"
| "seek_items G D target bias entry position agg ((item, isum) # is) =
     (let child_end = d_add D position isum; comparison = target child_end
      in if comparison = Greater \<or> comparison = Equal \<and> bias = Right then do {
           agg' \<leftarrow> push_item G agg item isum;
           seek_items G D target bias (entry\<lparr>e_index := e_index entry + 1\<rparr>) child_end agg' is
         } else Some (entry, position, agg, True))"

text \<open>A bound on the iterations of the loop on the stack: what is still to be visited below it.\<close>

fun tree_weight :: "('t, 's) sum_tree \<Rightarrow> nat" where
  "tree_weight (Internal _ _ _ cts) = 2 + sum_list (map tree_weight cts)"
| "tree_weight (Leaf _ _ _) = 2"

definition entry_weight :: "nat \<Rightarrow> ('t, 's, 'd) stack_entry \<Rightarrow> nat" where
  "entry_weight k e = (case e_tree e of
     Internal _ _ _ cts \<Rightarrow> 1 + sum_list (map tree_weight (drop (e_index e + k) cts))
   | Leaf _ _ _ \<Rightarrow> 1)"

fun stack_weight :: "bool \<Rightarrow> ('t, 's, 'd) stack_entry list \<Rightarrow> nat" where
  "stack_weight ascending [] = 0"
| "stack_weight ascending (e # stack) =
     entry_weight (if ascending then 1 else 0) e + sum_list (map (entry_weight 1) stack)"

lemma seek_children_entry:
  "seek_children G D tg b e p g cs = Some (e', p', g', r) \<Longrightarrow>
     e_tree e' = e_tree e \<and>
     (\<forall>c. r = Some c \<longrightarrow> (\<exists>cs1 s cs2. cs = cs1 @ (c, s) # cs2 \<and> e_index e' = e_index e + length cs1))"
proof (induction G D tg b e p g cs rule: seek_children.induct)
  case (2 G D target bias entry position agg child_tree child_summary cs)
  show ?case
  proof (cases "target (d_add D position child_summary) = Greater \<or>
      target (d_add D position child_summary) = Equal \<and> bias = Right")
    case True
    with "2.prems" obtain agg' where agg': "push_tree G agg child_tree child_summary = Some agg'"
      and rec: "seek_children G D target bias
         (entry\<lparr>e_index := e_index entry + 1, e_position := d_add D position child_summary\<rparr>)
         (d_add D position child_summary) agg' cs = Some (e', p', g', r)"
      by (auto simp: Let_def split: bind_splits)
    note IH = "2.IH" [OF refl refl True agg' rec]
    show ?thesis
    proof (intro conjI allI impI)
      fix c assume "r = Some c"
      with IH obtain cs1 s cs2 where "cs = cs1 @ (c, s) # cs2" "e_index e' = e_index entry + 1 + length cs1"
        by auto
      then show "\<exists>cs1 s cs2. (child_tree, child_summary) # cs = cs1 @ (c, s) # cs2 \<and>
          e_index e' = e_index entry + length cs1"
        by (intro exI [of _ "(child_tree, child_summary) # cs1"] exI [of _ s] exI [of _ cs2]) simp
    qed (use IH in simp)
  next
    case False
    with "2.prems" have "e' = entry" "r = Some child_tree" by (simp_all add: Let_def)
    then show ?thesis by auto
  qed
qed simp

lemma sum_list_drop_le: "sum_list (map f (drop k xs)) \<le> sum_list (map f xs)" for f :: "'a \<Rightarrow> nat"
  by (induction xs arbitrary: k) (auto simp: drop_Cons' trans_le_add2)

lemma weight_descend:
  assumes "i0 \<le> i" and "i < length cts"
  shows "entry_weight 0 \<lparr>e_tree = cts ! i, e_index = 0, e_position = p\<rparr> +
      (1 + sum_list (map tree_weight (drop (Suc i) cts))) < 1 + sum_list (map tree_weight (drop i0 cts))"
proof -
  have "sum_list (map tree_weight (drop i cts)) \<le> sum_list (map tree_weight (drop i0 cts))"
    using sum_list_drop_le [of tree_weight "i - i0" "drop i0 cts"] assms(1) by simp
  moreover have "drop i cts = cts ! i # drop (Suc i) cts"
    using assms(2) by (rule Cons_nth_drop_Suc [symmetric])
  moreover have "entry_weight 0 \<lparr>e_tree = cts ! i, e_index = 0, e_position = p\<rparr> < tree_weight (cts ! i)"
    by (cases "cts ! i") (auto simp: entry_weight_def)
  ultimately show ?thesis by simp
qed

function (sequential) seek_loop ::
    "('a, 't, 's) agg_ops \<Rightarrow> ('d, 's) dim_ops \<Rightarrow> 'd seek_target \<Rightarrow> bias \<Rightarrow>
      ('t, 's, 'd) stack_entry list \<Rightarrow> 'd \<Rightarrow> 'a \<Rightarrow> bool \<Rightarrow>
      (('t, 's, 'd) stack_entry list \<times> 'd \<times> 'a) option" where
  "seek_loop G D target bias [] position agg ascending = Some ([], position, agg)"
| "seek_loop G D target bias (entry # stack) position agg ascending =
     (case e_tree entry of
        Internal h s css cts \<Rightarrow> (
          let entry' = (if ascending
                        then entry\<lparr>e_index := e_index entry + 1, e_position := position\<rparr> else entry)
          in if length cts < e_index entry' \<or> length css < e_index entry' then None
             else case seek_children G D target bias entry' position agg
                         (zip (drop (e_index entry') cts) (drop (e_index entry') css)) of
               None \<Rightarrow> None
             | Some (entry'', position', agg', Some child_tree) \<Rightarrow> (
                 case push_entry (entry'' # stack)
                        \<lparr>e_tree = child_tree, e_index = 0, e_position = position'\<rparr> of
                   None \<Rightarrow> None
                 | Some stack' \<Rightarrow> seek_loop G D target bias stack' position' agg' False)
             | Some (_, position', agg', None) \<Rightarrow>
                 seek_loop G D target bias stack position' agg' True)
      | Leaf s its iss \<Rightarrow>
          if length its < e_index entry \<or> length iss < e_index entry then None
          else case seek_items G D target bias entry position (begin_leaf G agg)
                      (zip (drop (e_index entry) its) (drop (e_index entry) iss)) of
            None \<Rightarrow> None
          | Some (entry', position', agg', in_leaf) \<Rightarrow> (
              case end_leaf G agg' of
                None \<Rightarrow> None
              | Some agg'' \<Rightarrow>
                  if in_leaf then Some (entry' # stack, position', agg'')
                  else seek_loop G D target bias stack position' agg'' True))"
  by pat_completeness auto

lemma push_entry_Some: "push_entry st e = Some st' \<longleftrightarrow> length st < STACK_CAPACITY \<and> st' = e # st"
  by (auto simp: push_entry_def)

lemma stack_weight_pop: "stack_weight True stack < stack_weight ascending (e # stack)"
  by (cases stack) (auto simp: entry_weight_def split: sum_tree.splits)

lemma stack_weight_descend:
  assumes "seek_children G D tg b e p g (zip (drop i0 cts) (drop i0 css)) = Some (e', p', g', Some c)"
    and "e_tree e0 = Internal h s css cts" and "e_index e = i0"
    and "e_tree e = e_tree e0" and "i0 = e_index e0 + (if asc then 1 else 0)"
  shows "stack_weight False (\<lparr>e_tree = c, e_index = 0, e_position = p'\<rparr> # e' # stack) <
      stack_weight asc (e0 # stack)"
proof -
  let ?i = "e_index e'"
  from seek_children_entry [OF assms(1)] obtain cs1 t cs2 where
    e': "e_tree e' = Internal h s css cts" and i: "?i = i0 + length cs1"
    and z: "zip (drop i0 cts) (drop i0 css) = cs1 @ (c, t) # cs2"
    using assms(2-4) by auto
  have len: "length cs1 < length (zip (drop i0 cts) (drop i0 css))" unfolding z by simp
  have "fst (zip (drop i0 cts) (drop i0 css) ! length cs1) = c" unfolding z by simp
  with len i have c: "cts ! ?i = c" "?i < length cts" by auto
  have le: "i0 \<le> ?i" using i by simp
  have "entry_weight 0 \<lparr>e_tree = c, e_index = 0, e_position = p'\<rparr> + entry_weight 1 e' <
      entry_weight (if asc then 1 else 0) e0"
    using weight_descend [OF le c(2), of p'] c(1) assms e'
    by (auto simp: entry_weight_def)
  then show ?thesis by simp
qed

termination seek_loop
proof (relation "measure (\<lambda>(_, _, _, _, stack, _, _, ascending). stack_weight ascending stack)", goal_cases)
  case 1
  show ?case by simp
next
  case 2
  then show ?case by (simp add: stack_weight_pop del: stack_weight.simps)
next
  case 3
  then show ?case
    by (auto simp: push_entry_Some simp del: stack_weight.simps
        intro!: stack_weight_descend split: if_splits)
next
  case 4
  then show ?case by (simp add: stack_weight_pop del: stack_weight.simps)
qed

definition root_entry :: "('d, 's) dim_ops \<Rightarrow> ('t, 's) sum_tree \<Rightarrow> ('t, 's, 'd) stack_entry" where
  "root_entry D tree = \<lparr>e_tree = tree, e_index = 0, e_position = d_zero D\<rparr>"

definition seek_internal ::
    "('a, 't, 's) agg_ops \<Rightarrow> ('d, 's) dim_ops \<Rightarrow> ('t, 's, 'd) cursor \<Rightarrow> 'd seek_target \<Rightarrow> bias \<Rightarrow> 'a \<Rightarrow>
      (('t, 's, 'd) cursor \<times> 'a \<times> bool) option" where
  "seek_internal G D c target bias agg = do {
     guard (target (c_position c) \<noteq> Less);
     stack \<leftarrow> (if c_did_seek c then Some (c_stack c) else push_entry (c_stack c) (root_entry D (c_tree c)));
     (stack', position, agg') \<leftarrow> seek_loop G D target bias stack (c_position c) agg False;
     let c' = c\<lparr>c_stack := stack', c_position := position, c_did_seek := True, c_at_end := (stack' = [])\<rparr>;
     end_pos \<leftarrow> (if bias = Left then cursor_end D c' else Some position);
     Some (c', agg', target end_pos = Equal)
   }"

definition seek_forward ::
    "('d, 's) dim_ops \<Rightarrow> ('t, 's, 'd) cursor \<Rightarrow> 'd seek_target \<Rightarrow> bias \<Rightarrow>
      (('t, 's, 'd) cursor \<times> bool) option" where
  "seek_forward D c target bias =
     map_option (\<lambda>(c', _, found). (c', found)) (seek_internal unit_agg D c target bias ())"

definition seek ::
    "('d, 's) dim_ops \<Rightarrow> ('t, 's, 'd) cursor \<Rightarrow> 'd seek_target \<Rightarrow> bias \<Rightarrow>
      (('t, 's, 'd) cursor \<times> bool) option" where
  "seek D c target bias =
     map_option (\<lambda>(c', _, found). (c', found)) (seek_internal unit_agg D (cursor_reset D c) target bias ())"

definition slice ::
    "('t, 's) item_ops \<Rightarrow> ('d, 's) dim_ops \<Rightarrow> ('t, 's, 'd) cursor \<Rightarrow> 'd seek_target \<Rightarrow> bias \<Rightarrow>
      (('t, 's, 'd) cursor \<times> ('t, 's) sum_tree) option" where
  "slice I D c target bias =
     map_option (\<lambda>(c', agg, _). (c', sl_tree agg))
       (seek_internal (slice_agg I) D c target bias (slice_agg_new I))"

text \<open>\<open>End\<close> is a target beyond every position.\<close>

definition end_target :: "'d seek_target" where "end_target = (\<lambda>_. Greater)"

definition suffix ::
    "('t, 's) item_ops \<Rightarrow> ('d, 's) dim_ops \<Rightarrow> ('t, 's, 'd) cursor \<Rightarrow>
      (('t, 's, 'd) cursor \<times> ('t, 's) sum_tree) option" where
  "suffix I D c = slice I D c end_target Right"

definition cursor_summary ::
    "('d, 's) dim_ops \<Rightarrow> ('o, 's) dim_ops \<Rightarrow> ('t, 's, 'd) cursor \<Rightarrow> 'd seek_target \<Rightarrow> bias \<Rightarrow>
      (('t, 's, 'd) cursor \<times> 'o) option" where
  "cursor_summary D Out c target bias =
     map_option (\<lambda>(c', out, _). (c', out)) (seek_internal (summary_agg Out) D c target bias (d_zero Out))"

subsection \<open>Moving forward item by item\<close>

fun forward_children ::
    "('d, 's) dim_ops \<Rightarrow> ('s \<Rightarrow> bool) \<Rightarrow> ('t, 's, 'd) stack_entry \<Rightarrow> 'd \<Rightarrow> 's list \<Rightarrow>
      ('t, 's, 'd) stack_entry \<times> 'd" where
  "forward_children D filter_node entry position [] = (entry, position)"
| "forward_children D filter_node entry position (next_summary # css) =
     (if filter_node next_summary then (entry, position)
      else forward_children D filter_node
             (entry\<lparr>e_index := e_index entry + 1, e_position := d_add D (e_position entry) next_summary\<rparr>)
             (d_add D position next_summary) css)"

fun forward_items ::
    "('d, 's) dim_ops \<Rightarrow> ('s \<Rightarrow> bool) \<Rightarrow> ('t, 's, 'd) stack_entry \<Rightarrow> 'd \<Rightarrow> 's list \<Rightarrow>
      ('t, 's, 'd) stack_entry \<times> 'd \<times> bool" where
  "forward_items D filter_node entry position [] = (entry, position, False)"
| "forward_items D filter_node entry position (next_summary # iss) =
     (if filter_node next_summary then (entry, position, True)
      else forward_items D filter_node
             (entry\<lparr>e_index := e_index entry + 1, e_position := d_add D (e_position entry) next_summary\<rparr>)
             (d_add D position next_summary) iss)"

lemma forward_children_entry:
  "forward_children D f e p css = (e', p') \<Longrightarrow> e_tree e' = e_tree e \<and> e_index e \<le> e_index e'"
  by (induction D f e p css rule: forward_children.induct) (auto split: if_splits)

text \<open>The loop on the stack; the flag is the early \<open>return\<close> at an accepted item.\<close>

function (sequential) forward_loop ::
    "('d, 's) dim_ops \<Rightarrow> ('s \<Rightarrow> bool) \<Rightarrow> ('t, 's, 'd) stack_entry list \<Rightarrow> 'd \<Rightarrow> bool \<Rightarrow>
      (('t, 's, 'd) stack_entry list \<times> 'd \<times> bool) option" where
  "forward_loop D f [] position descend = Some ([], position, False)"
| "forward_loop D f (entry # stack) position descend =
     (case e_tree entry of
        Internal h s css cts \<Rightarrow> (
          let entry1 = (if descend then entry
                        else entry\<lparr>e_index := e_index entry + 1, e_position := position\<rparr>)
          in case forward_children D f entry1 position (drop (e_index entry1) css) of
               (entry2, position') \<Rightarrow> (
                 case vec_get cts (e_index entry2) of
                   Some subtree \<Rightarrow> (
                     case push_entry (entry2 # stack)
                            \<lparr>e_tree = subtree, e_index = 0, e_position = position'\<rparr> of
                       None \<Rightarrow> None
                     | Some stack' \<Rightarrow> forward_loop D f stack' position' True)
                 | None \<Rightarrow> forward_loop D f stack position' False))
      | Leaf s its iss \<Rightarrow> (
          case (if descend then Some (entry, position)
                else map_option (\<lambda>isum.
                       (entry\<lparr>e_index := e_index entry + 1, e_position := d_add D (e_position entry) isum\<rparr>,
                        d_add D position isum)) (vec_get iss (e_index entry))) of
            None \<Rightarrow> None
          | Some (entry1, position1) \<Rightarrow> (
              case forward_items D f entry1 position1 (drop (e_index entry1) iss) of
                (entry2, position2, found) \<Rightarrow>
                  if found then Some (entry2 # stack, position2, True)
                  else forward_loop D f stack position2 False)))"
  by pat_completeness auto

lemma forward_weight_descend:
  assumes "forward_children D f e p (drop i0 css) = (e', p')"
    and "vec_get cts (e_index e') = Some c" and "e_tree e0 = Internal h s css0 cts"
    and "e_tree e = e_tree e0" and "e_index e = e_index e0 + (if desc then 0 else 1)"
  shows "stack_weight False (\<lparr>e_tree = c, e_index = 0, e_position = q\<rparr> # e' # stack) <
      stack_weight (\<not> desc) (e0 # stack)"
proof -
  have c: "cts ! e_index e' = c" "e_index e' < length cts"
    using assms(2) by (auto simp: vec_get_def split: if_splits)
  have e': "e_tree e' = Internal h s css0 cts" "e_index e0 + (if desc then 0 else 1) \<le> e_index e'"
    using forward_children_entry [OF assms(1)] assms(3-5) by auto
  have "entry_weight 0 \<lparr>e_tree = c, e_index = 0, e_position = q\<rparr> + entry_weight 1 e' <
      entry_weight (if desc then 0 else 1) e0"
    using weight_descend [OF e'(2) c(2), of q] c(1) assms(3) e'(1) by (auto simp: entry_weight_def)
  then show ?thesis by (cases desc) simp_all
qed

lemma forward_weight_down:
  assumes "(e', p') = forward_children D f e0 p (drop (e_index e0) css)"
    and "vec_get cts (e_index e') = Some c" and "e_tree e0 = Internal h s css0 cts"
  shows "stack_weight False (\<lparr>e_tree = c, e_index = 0, e_position = q\<rparr> # e' # stack) <
      stack_weight False (e0 # stack)"
  using forward_weight_descend [OF assms(1) [symmetric] assms(2,3), where desc = True] by simp

lemma forward_weight_right:
  assumes "(e', p') = forward_children D f (e0\<lparr>e_index := Suc (e_index e0), e_position := p\<rparr>) p
        (drop (Suc (e_index e0)) css)"
    and "vec_get cts (e_index e') = Some c" and "e_tree e0 = Internal h s css0 cts"
  shows "stack_weight False (\<lparr>e_tree = c, e_index = 0, e_position = q\<rparr> # e' # stack) <
      stack_weight True (e0 # stack)"
  using forward_weight_descend [OF assms(1) [symmetric] assms(2,3), where desc = False] by simp

termination forward_loop
proof (relation "measure (\<lambda>(_, _, stack, _, descend). stack_weight (\<not> descend) stack)", goal_cases)
  case 1
  show ?case by simp
next
  case 2
  then show ?case by (simp add: stack_weight_pop del: stack_weight.simps)
next
  case 3
  then show ?case
    by (clarsimp simp: push_entry_Some simp del: stack_weight.simps split: if_splits)
      (elim forward_weight_down forward_weight_right; simp)+
next
  case 4
  then show ?case by (auto simp: stack_weight_pop simp del: stack_weight.simps)
qed

definition search_forward ::
    "('d, 's) dim_ops \<Rightarrow> ('s \<Rightarrow> bool) \<Rightarrow> ('t, 's, 'd) cursor \<Rightarrow> ('t, 's, 'd) cursor option" where
  "search_forward D f c = do {
     stack \<leftarrow> (if c_stack c = [] \<and> \<not> c_at_end c then push_entry [] (root_entry D (c_tree c))
              else Some (c_stack c));
     let descend = (c_stack c = [] \<and> \<not> c_at_end c);
     let did_seek = (if c_stack c = [] then True else c_did_seek c);
     (stack', position, returned) \<leftarrow> forward_loop D f stack (c_position c) descend;
     Some (c\<lparr>c_stack := stack', c_position := position, c_did_seek := did_seek,
             c_at_end := (if returned then c_at_end c else stack' = [])\<rparr>)
   }"

definition cursor_next :: "('d, 's) dim_ops \<Rightarrow> ('t, 's, 'd) cursor \<Rightarrow> ('t, 's, 'd) cursor option" where
  "cursor_next D c = search_forward D (\<lambda>_. True) c"

subsection \<open>Moving backward item by item\<close>

text \<open>The loop of \<open>search_backward\<close>. The index of a pushed child is its length minus one: for an
  empty child the subtraction wraps and the slice that follows panics.\<close>

fun backward_tree_weight :: "('t, 's) sum_tree \<Rightarrow> nat" where
  "backward_tree_weight (Internal _ _ css cts) = 2 + length css + sum_list (map backward_tree_weight cts)"
| "backward_tree_weight (Leaf _ _ iss) = 2 + length iss"

definition backward_weight :: "nat \<Rightarrow> ('t, 's, 'd) stack_entry \<Rightarrow> nat" where
  "backward_weight k e = 1 + (e_index e + k) + (case e_tree e of
     Internal _ _ _ cts \<Rightarrow> sum_list (map backward_tree_weight (take (e_index e + k) cts))
   | Leaf _ _ _ \<Rightarrow> 0)"

fun backward_stack_weight :: "bool \<Rightarrow> ('t, 's, 'd) stack_entry list \<Rightarrow> nat" where
  "backward_stack_weight descending [] = 0"
| "backward_stack_weight descending (e # stack) =
     backward_weight (if descending then 1 else 0) e + sum_list (map (backward_weight 0) stack)"

function (sequential) backward_loop ::
    "('d, 's) dim_ops \<Rightarrow> ('s \<Rightarrow> bool) \<Rightarrow> ('t, 's, 'd) stack_entry list \<Rightarrow> 'd \<Rightarrow> bool \<Rightarrow>
      (('t, 's, 'd) stack_entry list \<times> 'd) option" where
  "backward_loop D f [] position descending = Some ([], position)"
| "backward_loop D f (entry # stack) position descending =
     (let position0 = (case stack of [] \<Rightarrow> d_zero D | parent # _ \<Rightarrow> e_position parent)
      in if \<not> descending \<and> e_index entry = 0 then backward_loop D f stack position0 False
         else
           let i = (if descending then e_index entry else e_index entry - 1);
               css = child_summaries (e_tree entry);
               position1 = foldl (d_add D) position0 (take i css);
               entry1 = entry\<lparr>e_index := i, e_position := position1\<rparr>
           in if length css \<le> i then None
              else case e_tree entry of
                Internal h s _ cts \<Rightarrow>
                  if f (css ! i) then (
                    case vec_get cts i of
                      None \<Rightarrow> None
                    | Some tree \<Rightarrow>
                        if child_summaries tree = [] then None
                        else case push_entry (entry1 # stack)
                               \<lparr>e_tree = tree, e_index = length (child_summaries tree) - 1,
                                e_position = d_zero D\<rparr> of
                          None \<Rightarrow> None
                        | Some stack' \<Rightarrow> backward_loop D f stack' position1 True)
                  else backward_loop D f (entry1 # stack) position1 False
              | Leaf s _ _ \<Rightarrow>
                  if f (css ! i) then Some (entry1 # stack, position1)
                  else backward_loop D f (entry1 # stack) position1 False)"
  by pat_completeness auto

lemma backward_weight_pop:
  "backward_stack_weight False stack < backward_stack_weight desc (e # stack)"
  by (cases stack) (auto simp: backward_weight_def)

lemma sum_list_take_mono:
  fixes f :: "'a \<Rightarrow> nat" assumes "i \<le> j"
  shows "sum_list (map f (take i xs)) \<le> sum_list (map f (take j xs))"
proof -
  have "take j xs = take i xs @ take (j - i) (drop i xs)" using assms by (metis le_add_diff_inverse take_add)
  then show ?thesis by simp
qed

lemma sum_list_take_le: "sum_list (map f (take k xs)) \<le> sum_list (map f xs)" for f :: "'a \<Rightarrow> nat"
  using sum_list_take_mono [of k "max k (length xs)" f xs] by simp

lemma backward_weight_left:
  assumes "\<not> (\<not> desc \<and> e_index e = 0)"
  shows "backward_stack_weight False
      (e\<lparr>e_index := if desc then e_index e else e_index e - 1, e_position := p\<rparr> # stack) <
     backward_stack_weight desc (e # stack)"
  using assms sum_list_take_mono [of "e_index e" "e_index e + 1" backward_tree_weight]
    sum_list_take_mono [of "e_index e - 1" "e_index e" backward_tree_weight]
  by (auto simp: backward_weight_def less_Suc_eq_le add_le_less_mono split: sum_tree.splits)

lemma backward_weight_descend:
  assumes nd: "\<not> (\<not> desc \<and> e_index e = 0)" and e: "e_tree e = Internal h s css cts"
    and i: "i = (if desc then e_index e else e_index e - 1)"
    and c: "vec_get cts i = Some t" and ne: "child_summaries t \<noteq> []"
  shows "backward_stack_weight True
      (\<lparr>e_tree = t, e_index = length (child_summaries t) - 1, e_position = z\<rparr> #
        e\<lparr>e_index := i, e_position := p\<rparr> # stack) < backward_stack_weight desc (e # stack)"
proof -
  have t: "i < length cts" "t = cts ! i" using c by (auto simp: vec_get_def split: if_splits)
  have "backward_weight 1 \<lparr>e_tree = t, e_index = length (child_summaries t) - 1, e_position = z\<rparr> <
      backward_tree_weight t"
    using ne by (cases t) (auto simp: backward_weight_def less_Suc_eq_le sum_list_take_le)
  moreover have "take (Suc i) cts = take i cts @ [t]" using t by (simp add: take_Suc_conv_app_nth)
  moreover have "backward_weight (if desc then 1 else 0) e =
      1 + Suc i + sum_list (map backward_tree_weight (take (Suc i) cts))"
    using nd i e by (auto simp: backward_weight_def)
  ultimately show ?thesis using e by (simp add: backward_weight_def [of 0])
qed

termination backward_loop
proof (relation "measure (\<lambda>(_, _, stack, _, descending). backward_stack_weight descending stack)", goal_cases)
  case 1
  show ?case by simp
next
  case 2
  then show ?case by (simp add: backward_weight_pop del: backward_stack_weight.simps)
next
  case 3
  then show ?case
    by (simp only: in_measure prod.case push_entry_Some)
      (intro backward_weight_descend, assumption+, simp_all)
next
  case 4
  then show ?case
    by (simp only: in_measure prod.case) (rule backward_weight_left)
next
  case 5
  then show ?case
    by (simp only: in_measure prod.case) (rule backward_weight_left)
qed

definition search_backward ::
    "('d, 's) dim_ops \<Rightarrow> ('s \<Rightarrow> bool) \<Rightarrow> ('t, 's, 'd) cursor \<Rightarrow> ('t, 's, 'd) cursor option" where
  "search_backward D f c = do {
     let at_end = (if c_did_seek c then c_at_end c else True);
     let tree = c_tree c;
     let position = (if at_end then d_zero D else c_position c);
     let at_end' = (if at_end then is_empty tree else False);
     stack \<leftarrow> (if at_end \<and> \<not> is_empty tree
              then push_entry (c_stack c) \<lparr>e_tree = tree, e_index = length (child_summaries tree),
                     e_position = from_summary_dim D (summary tree)\<rparr>
              else Some (c_stack c));
     (stack', position') \<leftarrow> backward_loop D f stack position False;
     Some (c\<lparr>c_stack := stack', c_position := position', c_did_seek := True, c_at_end := at_end'\<rparr>)
   }"

definition cursor_prev :: "('d, 's) dim_ops \<Rightarrow> ('t, 's, 'd) cursor \<Rightarrow> ('t, 's, 'd) cursor option" where
  "cursor_prev D c = search_backward D (\<lambda>_. True) c"

text \<open>\<open>Iterator for Cursor\<close>.\<close>

definition cursor_iter_next ::
    "('d, 's) dim_ops \<Rightarrow> ('t, 's, 'd) cursor \<Rightarrow> (('t, 's, 'd) cursor \<times> 't option) option" where
  "cursor_iter_next D c = do {
     c \<leftarrow> (if c_did_seek c then Some c else cursor_next D c);
     item \<leftarrow> cursor_item c;
     (case item of
        Some x \<Rightarrow> do { c' \<leftarrow> cursor_next D c; Some (c', Some x) }
      | None \<Rightarrow> Some (c, None))
   }"

text \<open>The loops of \<open>items\<close> and of \<open>collect\<close> on the iterator; \<open>None\<close> covers not returning.\<close>

partial_function (option) collect_items ::
    "('d, 's) dim_ops \<Rightarrow> ('t, 's, 'd) cursor \<Rightarrow> 't list option" where
  "collect_items D c = do {
     item \<leftarrow> cursor_item c;
     (case item of
        None \<Rightarrow> Some []
      | Some x \<Rightarrow> do { c' \<leftarrow> cursor_next D c; xs \<leftarrow> collect_items D c'; Some (x # xs) })
   }"

definition unit_dim :: "(unit, 's) dim_ops" where
  "unit_dim = \<lparr>d_zero = (), d_add = (\<lambda>_ _. ())\<rparr>"

definition items :: "('t, 's) sum_tree \<Rightarrow> 't list option" where
  "items t = do { c \<leftarrow> cursor_next unit_dim (cursor_new unit_dim t); collect_items unit_dim c }"

end
