(* ===== verification/CursorSeek.thy ===== *)
theory CursorSeek
  imports Cursor
begin

text \<open>
  What seeking does to a cursor (\<open>seek_internal\<close>, \<open>slice\<close>, \<open>summary\<close> in
  \<open>crates/sum_tree/src/cursor.rs\<close>). A cursor stands between the items it is past
  (\<open>cursor_done\<close>) and the items in front of it (\<open>cursor_rest\<close>); \<open>cursor_ok\<close> is the invariant
  that ties the stack to them. Seeking splits the rest as the scan \<open>seek_split\<close> does, whatever the
  aggregate, which gets exactly the items passed.
\<close>

subsection \<open>The items behind and in front of a stack\<close>

definition entry_done :: "nat \<Rightarrow> ('t, 's, 'd) stack_entry \<Rightarrow> 't list" where
  "entry_done j e = (case e_tree e of
     Internal _ _ _ cts \<Rightarrow> concat (map tree_items (take (e_index e + j) cts))
   | Leaf _ its _ \<Rightarrow> take (e_index e + j) its)"

definition entry_rest :: "nat \<Rightarrow> ('t, 's, 'd) stack_entry \<Rightarrow> 't list" where
  "entry_rest j e = (case e_tree e of
     Internal _ _ _ cts \<Rightarrow> concat (map tree_items (drop (e_index e + j) cts))
   | Leaf _ its _ \<Rightarrow> drop (e_index e + j) its)"

fun stack_done :: "nat \<Rightarrow> ('t, 's, 'd) stack_entry list \<Rightarrow> 't list" where
  "stack_done j [] = []"
| "stack_done j (e # st) = stack_done 0 st @ entry_done j e"

fun stack_rest :: "nat \<Rightarrow> ('t, 's, 'd) stack_entry list \<Rightarrow> 't list" where
  "stack_rest j [] = []"
| "stack_rest j (e # st) = entry_rest j e @ stack_rest 1 st"

definition child_at :: "('t, 's, 'd) stack_entry \<Rightarrow> ('t, 's) sum_tree" where
  "child_at e = (case e_tree e of Internal _ _ _ cts \<Rightarrow> cts ! e_index e | Leaf _ _ _ \<Rightarrow> e_tree e)"

fun on_path :: "('t, 's) sum_tree \<Rightarrow> ('t, 's) sum_tree \<Rightarrow> ('t, 's, 'd) stack_entry list \<Rightarrow> bool" where
  "on_path tree t [] \<longleftrightarrow> t = tree"
| "on_path tree t (p # _) \<longleftrightarrow> t = child_at p"

text \<open>\<open>stack_ok I tree k j st\<close>: a path of \<open>tree\<close> whose top is a node of height \<open>k\<close>, with the index
  of the top at least \<open>j\<close> below the end.\<close>

fun stack_ok ::
    "('t, 's) item_ops \<Rightarrow> ('t, 's) sum_tree \<Rightarrow> nat \<Rightarrow> nat \<Rightarrow> ('t, 's, 'd) stack_entry list \<Rightarrow> bool" where
  "stack_ok I tree k j [] \<longleftrightarrow> True"
| "stack_ok I tree k j (e # st) \<longleftrightarrow>
     wf_node I k (e_tree e) \<and> e_index e + j \<le> length (child_summaries (e_tree e)) \<and>
     on_path tree (e_tree e) st \<and>
     stack_ok I tree (k + 1) 1 st"

text \<open>Every parent entry remembers the position of the child on top of it.\<close>

fun parents_at :: "('t, 's) item_ops \<Rightarrow> ('d, 's) dim_ops \<Rightarrow> ('t, 's, 'd) stack_entry list \<Rightarrow> bool" where
  "parents_at I D [] \<longleftrightarrow> True"
| "parents_at I D (e # st) \<longleftrightarrow>
     e_position e = pos_after I D (d_zero D) (stack_done 0 (e # st)) \<and> parents_at I D st"

lemma stack_ok_height: "stack_ok I tree k j (e # st) \<Longrightarrow> k + length st = height tree"
proof (induction st arbitrary: k j e)
  case (Cons e' st)
  then have "stack_ok I tree (k + 1) 1 (e' # st)" by simp
  from Cons.IH [OF this] show ?case by simp
qed (auto dest: wf_node_height)

lemma wf_node_Internal:
  "wf_node I k t \<Longrightarrow> 0 < k \<Longrightarrow> \<exists>s cts. t = Internal k s (map summary cts) cts"
  by (cases t) auto

lemma wf_node_Leaf: "wf_node I 0 t \<Longrightarrow> \<exists>s its. t = Leaf s its (map (item_summary I) its)"
  by (cases t) auto

lemma entry_done_rest:
  "wf_node I k (e_tree e) \<Longrightarrow> entry_done j e @ entry_rest j e = tree_items (e_tree e)"
  by (cases "e_tree e") (simp_all add: entry_done_def entry_rest_def flip: concat_append map_append)

lemma entry_rest_child:
  assumes "wf_node I k (e_tree e)" and "0 < k" and "e_index e < length (child_summaries (e_tree e))"
  shows "entry_rest 0 e = tree_items (child_at e) @ entry_rest 1 e"
    and "entry_done 1 e = entry_done 0 e @ tree_items (child_at e)"
    and "wf_node I (k - 1) (child_at e)"
proof -
  obtain s cts where e: "e_tree e = Internal k s (map summary cts) cts"
    using wf_node_Internal [OF assms(1,2)] by blast
  with assms have i: "e_index e < length cts" by simp
  then have "drop (e_index e) cts = cts ! e_index e # drop (Suc (e_index e)) cts"
    "take (Suc (e_index e)) cts = take (e_index e) cts @ [cts ! e_index e]"
    by (simp_all add: Cons_nth_drop_Suc take_Suc_conv_app_nth)
  then show "entry_rest 0 e = tree_items (child_at e) @ entry_rest 1 e"
    "entry_done 1 e = entry_done 0 e @ tree_items (child_at e)"
    by (simp_all add: entry_rest_def entry_done_def child_at_def e)
  show "wf_node I (k - 1) (child_at e)" using assms i by (simp add: child_at_def e)
qed

lemma stack_done_rest:
  "stack_ok I tree k j st \<Longrightarrow> st \<noteq> [] \<Longrightarrow> stack_done j st @ stack_rest j st = tree_items tree"
proof (induction st arbitrary: k j)
  case (Cons e st)
  have wf: "wf_node I k (e_tree e)" using Cons.prems by simp
  note er = entry_done_rest [OF wf, of j]
  show ?case
  proof (cases st)
    case Nil
    then show ?thesis using Cons.prems er by simp
  next
    case (Cons p st')
    with Cons.prems have p: "wf_node I (k + 1) (e_tree p)" "e_index p < length (child_summaries (e_tree p))"
      "e_tree e = child_at p" and ok: "stack_ok I tree (k + 1) 1 st" by auto
    have "stack_done j (e # st) @ stack_rest j (e # st) =
        stack_done 0 st @ (entry_done j e @ entry_rest j e) @ stack_rest 1 st" by simp
    also have "entry_done j e @ entry_rest j e = tree_items (child_at p)"
      using er p Cons.prems by simp
    also have "stack_done 0 st @ tree_items (child_at p) @ stack_rest 1 st = stack_done 1 st @ stack_rest 1 st"
      using entry_rest_child(2) [OF p(1) _ p(2)] by (simp add: Cons)
    also have "\<dots> = tree_items tree" using Cons.IH [OF ok] by (simp add: Cons)
    finally show ?thesis .
  qed
qed simp

lemma stack_ok_index:
  "stack_ok I tree k j (e # st) \<Longrightarrow> e_tree e' = e_tree e \<Longrightarrow>
     e_index e' + j' \<le> length (child_summaries (e_tree e)) \<Longrightarrow> stack_ok I tree k j' (e' # st)"
  by simp

lemma stack_done_top_irrelevant:
  "e_tree e' = e_tree e \<Longrightarrow> e_index e' = e_index e \<Longrightarrow>
     stack_done j (e' # st) = stack_done j (e # st) \<and> stack_rest j (e' # st) = stack_rest j (e # st)"
  by (simp add: entry_done_def entry_rest_def split: sum_tree.splits)

text \<open>Going down to the child at the index, and coming back up from a finished child.\<close>

lemma stack_ok_down:
  assumes "stack_ok I tree k 1 (e # st)" and "0 < k"
  shows "stack_ok I tree (k - 1) 0 (\<lparr>e_tree = child_at e, e_index = 0, e_position = p\<rparr> # e # st)"
    and "stack_rest 0 (\<lparr>e_tree = child_at e, e_index = 0, e_position = p\<rparr> # e # st) = stack_rest 0 (e # st)"
    and "stack_done 0 (\<lparr>e_tree = child_at e, e_index = 0, e_position = p\<rparr> # e # st) = stack_done 0 (e # st)"
proof -
  have e: "wf_node I k (e_tree e)" "e_index e < length (child_summaries (e_tree e))"
    using assms by auto
  note c = entry_rest_child [OF e(1) assms(2) e(2)]
  show "stack_ok I tree (k - 1) 0 (\<lparr>e_tree = child_at e, e_index = 0, e_position = p\<rparr> # e # st)"
    using assms c(3) by simp
  have "entry_rest 0 \<lparr>e_tree = child_at e, e_index = 0, e_position = p\<rparr> = tree_items (child_at e)"
    "entry_done 0 \<lparr>e_tree = child_at e, e_index = 0, e_position = p\<rparr> = []"
    by (simp_all add: entry_rest_def entry_done_def split: sum_tree.splits)
  then show "stack_rest 0 (\<lparr>e_tree = child_at e, e_index = 0, e_position = p\<rparr> # e # st) = stack_rest 0 (e # st)"
    "stack_done 0 (\<lparr>e_tree = child_at e, e_index = 0, e_position = p\<rparr> # e # st) = stack_done 0 (e # st)"
    using c(1) by simp_all
qed

lemma stack_pop:
  assumes "stack_ok I tree k 0 (e # st)" and "e_index e = length (child_summaries (e_tree e))" and "st \<noteq> []"
  shows "stack_done 1 st = stack_done 0 (e # st)" and "stack_rest 1 st = stack_rest 0 (e # st)"
proof -
  obtain p st' where st: "st = p # st'" using assms(3) by (cases st) auto
  have p: "wf_node I (k + 1) (e_tree p)" "e_index p < length (child_summaries (e_tree p))"
    "e_tree e = child_at p" and e: "wf_node I k (e_tree e)"
    using assms(1) by (auto simp: st)
  have "entry_done 0 e = tree_items (e_tree e)" "entry_rest 0 e = []"
    using e assms(2) by (cases "e_tree e"; simp add: entry_done_def entry_rest_def)+
  then show "stack_done 1 st = stack_done 0 (e # st)" "stack_rest 1 st = stack_rest 0 (e # st)"
    using entry_rest_child(2) [OF p(1) _ p(2)] p(3) by (simp_all add: st)
qed

subsection \<open>The cursor's invariant and view\<close>

definition cursor_done :: "('t, 's, 'd) cursor \<Rightarrow> 't list" where
  "cursor_done c = (if c_stack c = [] then (if c_at_end c then tree_items (c_tree c) else [])
     else stack_done 0 (c_stack c))"

definition cursor_rest :: "('t, 's, 'd) cursor \<Rightarrow> 't list" where
  "cursor_rest c = (if c_stack c = [] then (if c_at_end c then [] else tree_items (c_tree c))
     else stack_rest 0 (c_stack c))"

definition cursor_ok :: "('t, 's) item_ops \<Rightarrow> ('d, 's) dim_ops \<Rightarrow> ('t, 's, 'd) cursor \<Rightarrow> bool" where
  "cursor_ok I D c \<longleftrightarrow>
     wf_tree I (c_tree c) \<and> height (c_tree c) < STACK_CAPACITY \<and>
     c_position c = pos_after I D (d_zero D) (cursor_done c) \<and>
     (c_stack c = [] \<longrightarrow> c_at_end c \<or> tree_items (c_tree c) \<noteq> []) \<and>
     (c_stack c \<noteq> [] \<longrightarrow> c_did_seek c \<and> \<not> c_at_end c \<and> stack_ok I (c_tree c) 0 1 (c_stack c) \<and>
        parents_at I D (tl (c_stack c))) \<and>
     (\<not> c_did_seek c \<longrightarrow> c_at_end c = is_empty (c_tree c))"

text \<open>Not moved in front of the first item by \<open>prev\<close>: seeking from there does nothing.\<close>

definition can_seek :: "('t, 's, 'd) cursor \<Rightarrow> bool" where
  "can_seek c \<longleftrightarrow> \<not> (c_did_seek c \<and> c_stack c = [] \<and> \<not> c_at_end c)"

lemma cursor_new_ok:
  "wf_tree I t \<Longrightarrow> height t < STACK_CAPACITY \<Longrightarrow>
     cursor_ok I D (cursor_new D t) \<and> can_seek (cursor_new D t) \<and>
     cursor_done (cursor_new D t) = [] \<and> cursor_rest (cursor_new D t) = tree_items t"
  using wf_tree_is_empty [of I t]
  by (auto simp: cursor_ok_def cursor_new_def cursor_done_def cursor_rest_def can_seek_def)

lemma cursor_reset_new: "cursor_reset D c = cursor_new D (c_tree c)"
  by (simp add: cursor_reset_def cursor_new_def)

lemma cursor_done_rest: "cursor_ok I D c \<Longrightarrow> cursor_done c @ cursor_rest c = tree_items (c_tree c)"
  using stack_done_rest [of I "c_tree c" 0 0 "c_stack c"]
  by (cases "c_stack c") (auto simp: cursor_ok_def cursor_done_def cursor_rest_def)

lemma stack_top_leaf:
  assumes "stack_ok I tree 0 1 (e # st)"
  obtains s its where "e_tree e = Leaf s its (map (item_summary I) its)" "e_index e < length its"
    "stack_rest 0 (e # st) = its ! e_index e # stack_rest 1 (e # st)"
proof -
  obtain s its where e: "e_tree e = Leaf s its (map (item_summary I) its)"
    using wf_node_Leaf [of I "e_tree e"] assms by auto
  moreover have i: "e_index e < length its" using assms by (auto simp: e)
  ultimately show ?thesis
    using that Cons_nth_drop_Suc [OF i] by (auto simp: entry_rest_def)
qed

lemma cursor_item_ok:
  assumes "cursor_ok I D c" and "c_did_seek c" and "can_seek c"
  shows "cursor_item c = Some (vec_first (cursor_rest c))"
    and "cursor_item_summary c = Some (map_option (item_summary I) (vec_first (cursor_rest c)))"
proof -
  have "cursor_item c = Some (vec_first (cursor_rest c)) \<and>
      cursor_item_summary c = Some (map_option (item_summary I) (vec_first (cursor_rest c)))"
  proof (cases "c_stack c")
    case Nil
    with assms show ?thesis
      by (auto simp: cursor_item_def cursor_item_summary_def cursor_rest_def can_seek_def)
  next
    case (Cons e st)
    then have "stack_ok I (c_tree c) 0 1 (e # st)" using assms(1) by (simp add: cursor_ok_def)
    then show ?thesis
      by (rule stack_top_leaf)
        (simp add: cursor_item_def cursor_item_summary_def cursor_rest_def Cons assms(2) del: stack_rest.simps)
  qed
  then show "cursor_item c = Some (vec_first (cursor_rest c))"
    "cursor_item_summary c = Some (map_option (item_summary I) (vec_first (cursor_rest c)))" by simp_all
qed

subsection \<open>The states of the loop on the stack\<close>

text \<open>Before an iteration: the path, the position between what is done and what is left, and where
  the ascending flag says that the child at the top's index is finished. After it: a stop at an item
  of a leaf, or an empty stack.\<close>

definition seek_pre :: "('t, 's) item_ops \<Rightarrow> ('d, 's) dim_ops \<Rightarrow> ('t, 's) sum_tree \<Rightarrow> nat \<Rightarrow> bool \<Rightarrow> ('t, 's, 'd) stack_entry list \<Rightarrow> 'd \<Rightarrow> bool" where
  "seek_pre I D tree k asc st d \<longleftrightarrow>
     stack_ok I tree k (if asc then 1 else 0) st \<and> (asc \<longrightarrow> 0 < k) \<and> parents_at I D (tl st) \<and>
     (st \<noteq> [] \<longrightarrow> d = pos_after I D (d_zero D) (stack_done (if asc then 1 else 0) st)) \<and>
     (\<not> asc \<and> 0 < k \<and> st \<noteq> [] \<longrightarrow> e_position (hd st) = d)"

definition seek_post :: "('t, 's) item_ops \<Rightarrow> ('d, 's) dim_ops \<Rightarrow> ('t, 's) sum_tree \<Rightarrow> ('t, 's, 'd) stack_entry list \<Rightarrow> 't list \<Rightarrow> bool" where
  "seek_post I D tree st b \<longleftrightarrow>
     (st = [] \<longleftrightarrow> b = []) \<and> stack_ok I tree 0 1 st \<and> stack_rest 0 st = b \<and> parents_at I D (tl st)"

lemma stack_ok_weaken: "stack_ok I tree k 1 st \<Longrightarrow> stack_ok I tree k 0 st"
  by (cases st) auto

subsection \<open>The contract of an aggregate\<close>

text \<open>\<open>AR a xs\<close>: the aggregate has taken in the items \<open>xs\<close>. \<open>PR a xs ys\<close>: the same, with the
  items \<open>ys\<close> of the leaf being scanned still pending.\<close>

locale seek_aggregate = summary_laws I for I :: "('t, 's) item_ops" +
  fixes G :: "('a, 't, 's) agg_ops"
    and AR :: "'a \<Rightarrow> 't list \<Rightarrow> bool"
    and PR :: "'a \<Rightarrow> 't list \<Rightarrow> 't list \<Rightarrow> bool"
  assumes begin_leaf_law: "AR a xs \<Longrightarrow> PR (begin_leaf G a) xs []"
    and push_item_law: "PR a xs ys \<Longrightarrow> length ys < 2 * TREE_BASE \<Longrightarrow>
      \<exists>a'. push_item G a x (item_summary I x) = Some a' \<and> PR a' xs (ys @ [x])"
    and end_leaf_law: "PR a xs ys \<Longrightarrow> \<exists>a'. end_leaf G a = Some a' \<and> AR a' (xs @ ys)"
    and push_tree_law: "AR a xs \<Longrightarrow> wf_node I k t \<Longrightarrow>
      \<exists>a'. push_tree G a t (summary t) = Some a' \<and> AR a' (xs @ tree_items t)"

locale seek_cursor = seek_aggregate I G AR PR + dim_laws I D
  for I :: "('t, 's) item_ops" and G :: "('a, 't, 's) agg_ops" and AR PR and D :: "('d, 's) dim_ops"
begin

lemma seek_items_correct:
  assumes "PR agg xs ys" and "length ys + length its \<le> 2 * TREE_BASE"
    and "seek_split I D (\<lambda>d. passes bias (tgt d)) d its = (a, b, p)"
  shows "\<exists>agg'. seek_items G D tgt bias e d agg (zip its (map (item_summary I) its)) =
      Some (e\<lparr>e_index := e_index e + length a\<rparr>, p, agg', b \<noteq> []) \<and> PR agg' xs (ys @ a)"
  using assms
proof (induction its arbitrary: e d agg ys a)
  case (Cons x its)
  let ?P = "\<lambda>d. passes bias (tgt d)" and ?d = "d_add D d (item_summary I x)"
  show ?case
  proof (cases "?P ?d")
    case True
    obtain a' where sp: "seek_split I D ?P ?d its = (a', b, p)" "a = x # a'"
      using Cons.prems(3) True by (auto simp: Let_def split: prod.splits)
    obtain agg1 where agg1: "push_item G agg x (item_summary I x) = Some agg1" "PR agg1 xs (ys @ [x])"
      using push_item_law [OF Cons.prems(1), of x] Cons.prems(2) by auto
    have "length (ys @ [x]) + length its \<le> 2 * TREE_BASE" using Cons.prems(2) by simp
    from Cons.IH [OF agg1(2) this sp(1), of "e\<lparr>e_index := e_index e + 1\<rparr>"]
    show ?thesis using True sp(2) agg1(1) by (auto simp: Let_def passes_def)
  next
    case False
    then have "a = []" "b = x # its" "p = d" using Cons.prems(3) by (auto simp: Let_def)
    with False Cons.prems(1) show ?thesis by (auto simp: Let_def passes_def)
  qed
qed simp

lemma seek_children_correct:
  assumes "AR agg xs" and "\<forall>c \<in> set cts. wf_node I k c"
    and "mono_target I D (\<lambda>d. passes bias (tgt d)) d (concat (map tree_items cts))"
  shows "\<exists>cs1 cs2 e' agg'. cts = cs1 @ cs2 \<and>
     seek_children G D tgt bias e d agg (zip cts (map summary cts)) =
       Some (e', pos_after I D d (concat (map tree_items cs1)), agg', vec_first cs2) \<and>
     AR agg' (xs @ concat (map tree_items cs1)) \<and>
     e_tree e' = e_tree e \<and> e_index e' = e_index e + length cs1 \<and>
     e_position e' = (if cs1 = [] then e_position e else pos_after I D d (concat (map tree_items cs1))) \<and>
     seek_split I D (\<lambda>d. passes bias (tgt d)) d (concat (map tree_items cs1)) =
       (concat (map tree_items cs1), [], pos_after I D d (concat (map tree_items cs1)))"
  using assms
proof (induction cts arbitrary: e d agg xs)
  case Nil
  then show ?case by auto
next
  case (Cons c cs)
  let ?P = "\<lambda>d. passes bias (tgt d)"
  have wf: "wf_node I k c" using Cons.prems(2) by simp
  note e = node_end [OF wf, of d]
  have mono: "mono_target I D ?P d (tree_items c)"
    "mono_target I D ?P (pos_after I D d (tree_items c)) (concat (map tree_items cs))"
    using mono_target_append [of I D ?P d "tree_items c"] Cons.prems(3) by simp_all
  show ?case
  proof (cases "?P (pos_after I D d (tree_items c))")
    case False
    then show ?thesis using Cons.prems(1) e
      by (rule_tac x = "[]" in exI, rule_tac x = "c # cs" in exI, rule_tac x = e in exI, rule_tac x = agg in exI)
        (auto simp: passes_def Let_def)
  next
    case True
    let ?d = "pos_after I D d (tree_items c)"
    have sp: "seek_split I D ?P d (tree_items c) = (tree_items c, [], ?d)"
      using seek_split_all [OF mono(1) wf_node_items_ne [OF wf] True] .
    obtain agg1 where agg1: "push_tree G agg c (summary c) = Some agg1" "AR agg1 (xs @ tree_items c)"
      using push_tree_law [OF Cons.prems(1) wf] by blast
    from Cons.IH [OF agg1(2) _ mono(2), of "e\<lparr>e_index := e_index e + 1, e_position := ?d\<rparr>"] Cons.prems(2)
    obtain cs1 cs2 e' agg' where IH: "cs = cs1 @ cs2"
       "seek_children G D tgt bias (e\<lparr>e_index := e_index e + 1, e_position := ?d\<rparr>) ?d agg1 (zip cs (map summary cs)) =
         Some (e', pos_after I D ?d (concat (map tree_items cs1)), agg', vec_first cs2)"
       "AR agg' ((xs @ tree_items c) @ concat (map tree_items cs1))"
       "e_tree e' = e_tree e" "e_index e' = e_index e + 1 + length cs1"
       "e_position e' = (if cs1 = [] then ?d else pos_after I D ?d (concat (map tree_items cs1)))"
       "seek_split I D ?P ?d (concat (map tree_items cs1)) =
         (concat (map tree_items cs1), [], pos_after I D ?d (concat (map tree_items cs1)))"
      by auto
    show ?thesis
      using IH True agg1(1) e sp
      by (rule_tac x = "c # cs1" in exI, rule_tac x = cs2 in exI, rule_tac x = e' in exI, rule_tac x = agg' in exI)
        (simp add: passes_def Let_def seek_split_append)
  qed
qed

lemma seek_loop_leaf:
  assumes pre: "seek_pre I D tree 0 False (e # stk) d" and AR: "AR agg xs"
    and sp: "seek_split I D (\<lambda>d. passes bias (tgt d)) d (entry_rest 0 e) = (a, b, p)"
  shows "\<exists>agg'. AR agg' (xs @ a) \<and>
      seek_loop G D tgt bias (e # stk) d agg False =
        (if b \<noteq> [] then Some (e\<lparr>e_index := e_index e + length a\<rparr> # stk, p, agg')
         else seek_loop G D tgt bias stk p agg' True) \<and>
      (b \<noteq> [] \<longrightarrow> seek_post I D tree (e\<lparr>e_index := e_index e + length a\<rparr> # stk) (b @ stack_rest 1 stk)) \<and>
      (b = [] \<longrightarrow> seek_pre I D tree 1 True stk p)"
proof -
  have ok: "stack_ok I tree 0 0 (e # stk)" and par: "parents_at I D stk"
    and d: "d = pos_after I D (d_zero D) (stack_done 0 (e # stk))"
    using pre by (auto simp: seek_pre_def)
  obtain s its where e: "e_tree e = Leaf s its (map (item_summary I) its)"
    using wf_node_Leaf [of I "e_tree e"] ok by auto
  let ?i = "e_index e" and ?e' = "e\<lparr>e_index := e_index e + length a\<rparr>"
  have i: "?i \<le> length its" "length its \<le> 2 * TREE_BASE" using ok by (auto simp: e)
  have r: "entry_rest 0 e = drop ?i its" by (simp add: entry_rest_def e)
  note parts = seek_split_parts [OF sp [unfolded r]]
  have cap: "length ([] :: 't list) + length (drop ?i its) \<le> 2 * TREE_BASE"
    using i by (metis add_0 diff_le_self length_drop list.size(3) order_trans)
  obtain agg1 where agg1: "seek_items G D tgt bias e d (begin_leaf G agg)
      (zip (drop ?i its) (map (item_summary I) (drop ?i its))) = Some (?e', p, agg1, b \<noteq> [])" "PR agg1 xs ([] @ a)"
    using seek_items_correct [OF begin_leaf_law [OF AR] cap sp [unfolded r], of e] by blast
  obtain agg2 where agg2: "end_leaf G agg1 = Some agg2" "AR agg2 (xs @ a)"
    using end_leaf_law [OF agg1(2)] by auto
  have ab: "its = take ?i its @ a @ b" using parts by (metis append_take_drop_id)
  have len: "length its = ?i + length a + length b" using ab i(1) by (metis length_append length_take add.assoc min.absorb2)
  have d': "p = pos_after I D (d_zero D) (stack_done 0 (?e' # stk))"
    using parts ab d i by (simp add: entry_done_def e) (metis (no_types) pos_after_simps(3) append_assoc take_add append_eq_conv_conj)
  have ok': "stack_ok I tree 0 0 (?e' # stk)" by (rule stack_ok_index [OF ok]) (use len in \<open>simp_all add: e\<close>)
  have rest': "entry_rest 0 ?e' = b"
  proof -
    have "drop (?i + length a) its = b" using parts by (metis add.commute append_eq_conv_conj drop_drop)
    then show ?thesis by (simp add: entry_rest_def e)
  qed
  show ?thesis
  proof (intro exI [of _ agg2] conjI impI)
    show "seek_loop G D tgt bias (e # stk) d agg False =
        (if b \<noteq> [] then Some (?e' # stk, p, agg2) else seek_loop G D tgt bias stk p agg2 True)"
      using i agg1(1) agg2(1) by (simp add: e drop_map)
    show "seek_post I D tree (?e' # stk) (b @ stack_rest 1 stk)" if "b \<noteq> []"
    proof -
      have "stack_ok I tree 0 1 (?e' # stk)"
        by (rule stack_ok_index [OF ok]) (use len that in \<open>auto simp: e Suc_le_eq\<close>)
      then show ?thesis
        unfolding seek_post_def using that rest' par by (simp del: stack_ok.simps)
    qed
    show "seek_pre I D tree 1 True stk p" if "b = []"
    proof -
      have full: "e_index ?e' = length (child_summaries (e_tree ?e'))" using that len by (simp add: e)
      have "stk \<noteq> [] \<Longrightarrow> p = pos_after I D (d_zero D) (stack_done 1 stk)"
        using stack_pop(1) [OF ok' full] d' by simp
      then show ?thesis using ok par by (cases stk) (auto simp: seek_pre_def)
    qed
  qed (use agg2 in simp_all)
qed

lemma seek_loop_node:
  assumes pre: "seek_pre I D tree k asc (e # stk) d" and k: "0 < k" and AR: "AR agg xs"
    and mono: "mono_target I D (\<lambda>d. passes bias (tgt d)) d (entry_rest (if asc then 1 else 0) e)"
    and h: "height tree < STACK_CAPACITY"
  shows "\<exists>agg' a1 r1. AR agg' (xs @ a1) \<and> entry_rest (if asc then 1 else 0) e = a1 @ r1 \<and>
      seek_split I D (\<lambda>d. passes bias (tgt d)) d a1 = (a1, [], pos_after I D d a1) \<and>
      (seek_loop G D tgt bias (e # stk) d agg asc = seek_loop G D tgt bias stk (pos_after I D d a1) agg' True \<and>
        r1 = [] \<and> seek_pre I D tree (k + 1) True stk (pos_after I D d a1) \<or>
       (\<exists>e1 e2. seek_loop G D tgt bias (e # stk) d agg asc =
          seek_loop G D tgt bias (e2 # e1 # stk) (pos_after I D d a1) agg' False \<and>
        seek_pre I D tree (k - 1) False (e2 # e1 # stk) (pos_after I D d a1) \<and>
        stack_rest 0 (e2 # e1 # stk) = r1 @ stack_rest 1 stk \<and>
        stack_weight False (e2 # e1 # stk) < stack_weight asc (e # stk)))"
proof -
  let ?j = "if asc then 1 else 0 :: nat"
  let ?e = "if asc then e\<lparr>e_index := e_index e + 1, e_position := d\<rparr> else e"
  let ?i = "e_index ?e"
  have ok: "stack_ok I tree k ?j (e # stk)" and par: "parents_at I D stk"
    and d: "d = pos_after I D (d_zero D) (stack_done ?j (e # stk))" and posd: "e_position ?e = d"
    using pre k by (auto simp: seek_pre_def)
  obtain s cts where e: "e_tree e = Internal k s (map summary cts) cts"
    using wf_node_Internal [of I k "e_tree e"] ok k by auto
  have et: "e_tree ?e = e_tree e" and ij: "?i = e_index e + ?j" by simp_all
  have i: "?i \<le> length cts" using ok by (auto simp: e)
  have ch: "\<forall>c \<in> set (drop ?i cts). wf_node I (k - 1) c" using ok by (auto simp: e dest: in_set_dropD)
  have r: "entry_rest ?j e = concat (map tree_items (drop ?i cts))" by (simp add: entry_rest_def e)
  obtain cs1 cs2 e1 agg' where c: "drop ?i cts = cs1 @ cs2"
    "seek_children G D tgt bias ?e d agg (zip (drop ?i cts) (map summary (drop ?i cts))) =
       Some (e1, pos_after I D d (concat (map tree_items cs1)), agg', vec_first cs2)"
    "AR agg' (xs @ concat (map tree_items cs1))" "e_tree e1 = e_tree e" "e_index e1 = ?i + length cs1"
    "e_position e1 = (if cs1 = [] then e_position ?e else pos_after I D d (concat (map tree_items cs1)))"
    "seek_split I D (\<lambda>d. passes bias (tgt d)) d (concat (map tree_items cs1)) =
       (concat (map tree_items cs1), [], pos_after I D d (concat (map tree_items cs1)))"
    using seek_children_correct [OF AR ch mono [unfolded r], of ?e] by auto
  let ?a = "concat (map tree_items cs1)" and ?r = "concat (map tree_items cs2)"
  let ?p = "pos_after I D d ?a"
  have ctseq: "cts = take ?i cts @ cs1 @ cs2" using c(1) by (metis append_take_drop_id)
  have tk: "take (?i + length cs1) cts = take ?i cts @ cs1"
    using c(1) by (metis add_diff_cancel_left' append_eq_conv_conj take_add)
  have len: "length cts = ?i + length cs1 + length cs2"
    using ctseq i by (metis length_append length_take add.assoc min.absorb2)
  have p: "?p = pos_after I D (d_zero D) (stack_done 0 (e1 # stk))"
    using d by (simp add: entry_done_def c(4) e c(5) tk [unfolded ij] ij)
  have e1pos: "e_position e1 = ?p" using c(6) posd by simp
  have step: "seek_loop G D tgt bias (e # stk) d agg asc =
     (case vec_first cs2 of
        None \<Rightarrow> seek_loop G D tgt bias stk ?p agg' True
      | Some c \<Rightarrow> (case push_entry (e1 # stk) \<lparr>e_tree = c, e_index = 0, e_position = ?p\<rparr> of
          None \<Rightarrow> None | Some st' \<Rightarrow> seek_loop G D tgt bias st' ?p agg' False))"
    using i c(2) by (simp add: e Let_def drop_map not_less [symmetric] split: option.split)
  show ?thesis
  proof (cases cs2)
    case Nil
    have ok1: "stack_ok I tree k 0 (e1 # stk)" by (rule stack_ok_index [OF ok c(4)]) (use len in \<open>simp add: c(5) e\<close>)
    have full: "e_index e1 = length (child_summaries (e_tree e1))" using len Nil by (simp add: c e)
    have "stk \<noteq> [] \<Longrightarrow> ?p = pos_after I D (d_zero D) (stack_done 1 stk)"
      using stack_pop(1) [OF ok1 full] p by simp
    then have "seek_pre I D tree (k + 1) True stk ?p" using ok par by (cases stk) (auto simp: seek_pre_def)
    with Nil c r step show ?thesis
      by (intro exI [of _ agg'] exI [of _ ?a] exI [of _ "[]"]) simp
  next
    case (Cons c' cs')
    have ok1: "stack_ok I tree k 1 (e1 # stk)" by (rule stack_ok_index [OF ok c(4)]) (use len Cons in \<open>simp add: c(5) e\<close>)
    have ca: "child_at e1 = c'"
    proof -
      have "cts ! (?i + length cs1) = drop ?i cts ! length cs1" using i by simp
      then show ?thesis using c(1) Cons by (simp add: child_at_def c(4,5) e)
    qed
    let ?e2 = "\<lparr>e_tree = c', e_index = 0, e_position = ?p\<rparr>"
    note down = stack_ok_down [OF ok1 k, of ?p, unfolded ca]
    have cap: "Suc (length stk) < STACK_CAPACITY" using stack_ok_height [OF ok] h k by simp
    have pre': "seek_pre I D tree (k - 1) False (?e2 # e1 # stk) ?p"
      unfolding seek_pre_def using down(1) down(3) [folded p] p par e1pos
      by (simp del: stack_ok.simps stack_done.simps)
    have "stack_rest 0 (e1 # stk) = ?r @ stack_rest 1 stk"
    proof -
      have "drop (?i + length cs1) cts = cs2"
        using c(1) by (metis add.commute append_eq_conv_conj drop_drop)
      then show ?thesis by (simp add: entry_rest_def c(4,5) e)
    qed
    moreover have "stack_weight False (?e2 # e1 # stk) < stack_weight asc (e # stk)"
      using c(2) Cons
      by (intro stack_weight_descend [of G D tgt bias ?e d agg ?i cts "map summary cts"])
        (simp_all add: e drop_map)
    moreover have "seek_loop G D tgt bias (e # stk) d agg asc = seek_loop G D tgt bias (?e2 # e1 # stk) ?p agg' False"
      using step Cons cap by (simp add: push_entry_def)
    ultimately show ?thesis
      using c(1,3,7) r pre' down(2)
      by (intro exI [of _ agg'] exI [of _ ?a] exI [of _ ?r] conjI disjI2 exI [of _ e1] exI [of _ ?e2]) simp_all
  qed
qed

lemma seek_loop_correct:
  assumes "seek_pre I D tree k asc st d" and "AR agg xs" and "height tree < STACK_CAPACITY"
    and "mono_target I D (\<lambda>d. passes bias (tgt d)) d (stack_rest (if asc then 1 else 0) st)"
    and "seek_split I D (\<lambda>d. passes bias (tgt d)) d (stack_rest (if asc then 1 else 0) st) = (a, b, p)"
  shows "\<exists>st' agg'. seek_loop G D tgt bias st d agg asc = Some (st', p, agg') \<and> AR agg' (xs @ a) \<and>
     seek_post I D tree st' b"
  using assms
proof (induction "stack_weight asc st" arbitrary: asc st k d agg xs a rule: less_induct)
  case less
  let ?P = "\<lambda>d. passes bias (tgt d)" and ?j = "if asc then 1 else 0 :: nat"
  show ?case
  proof (cases st)
    case Nil
    with less.prems show ?thesis by (auto simp: seek_post_def)
  next
    case (Cons e stk)
    have pre: "seek_pre I D tree k asc (e # stk) d" using less.prems(1) Cons by simp
    have m: "mono_target I D ?P d (entry_rest ?j e @ stack_rest 1 stk)" using less.prems(4) Cons by simp
    have m1: "mono_target I D ?P d (entry_rest ?j e)"
      and m2: "mono_target I D ?P (pos_after I D d (entry_rest ?j e)) (stack_rest 1 stk)"
      using mono_target_append [OF m] by blast+
    have sp: "seek_split I D ?P d (entry_rest ?j e @ stack_rest 1 stk) = (a, b, p)"
      using less.prems(5) Cons by simp
    show ?thesis
    proof (cases "k = 0")
      case True
      then have asc: "\<not> asc" using pre by (auto simp: seek_pre_def)
      obtain a1 b1 p1 where s1: "seek_split I D ?P d (entry_rest 0 e) = (a1, b1, p1)" by (metis prod_cases3)
      note parts = seek_split_parts [OF s1]
      from seek_loop_leaf [OF pre [unfolded True, simplified asc] less.prems(2) s1] asc
      obtain agg' where l: "AR agg' (xs @ a1)"
        "seek_loop G D tgt bias (e # stk) d agg asc =
          (if b1 \<noteq> [] then Some (e\<lparr>e_index := e_index e + length a1\<rparr> # stk, p1, agg')
           else seek_loop G D tgt bias stk p1 agg' True)"
        "b1 \<noteq> [] \<Longrightarrow> seek_post I D tree (e\<lparr>e_index := e_index e + length a1\<rparr> # stk) (b1 @ stack_rest 1 stk)"
        "b1 = [] \<Longrightarrow> seek_pre I D tree 1 True stk p1"
        by (auto simp del: seek_loop.simps)
      show ?thesis
      proof (cases "b1 = []")
        case False
        then have "a = a1" "b = b1 @ stack_rest 1 stk" "p = p1"
          using sp s1 asc by (auto simp: seek_split_append)
        with False l show ?thesis by (auto simp: Cons simp del: seek_loop.simps)
      next
        case b1: True
        obtain a2 where s2: "seek_split I D ?P p1 (stack_rest 1 stk) = (a2, b, p)" "a = a1 @ a2"
          using sp s1 asc b1 by (auto simp: seek_split_append split: prod.splits)
        have "mono_target I D ?P p1 (stack_rest 1 stk)" using m2 asc parts b1 by simp
        from less.hyps [OF _ l(4) [OF b1] l(1) less.prems(3)] this s2 b1 l(2)
        show ?thesis by (simp add: Cons stack_weight_pop del: seek_loop.simps stack_weight.simps)
      qed
    next
      case False
      then have k: "0 < k" by simp
      from seek_loop_node [OF pre k less.prems(2) m1 less.prems(3)]
      obtain agg' a1 r1 where n: "AR agg' (xs @ a1)" "entry_rest ?j e = a1 @ r1"
          "seek_split I D ?P d a1 = (a1, [], pos_after I D d a1)"
        and alt: "seek_loop G D tgt bias (e # stk) d agg asc = seek_loop G D tgt bias stk (pos_after I D d a1) agg' True \<and>
           r1 = [] \<and> seek_pre I D tree (k + 1) True stk (pos_after I D d a1) \<or>
          (\<exists>e1 e2. seek_loop G D tgt bias (e # stk) d agg asc =
             seek_loop G D tgt bias (e2 # e1 # stk) (pos_after I D d a1) agg' False \<and>
           seek_pre I D tree (k - 1) False (e2 # e1 # stk) (pos_after I D d a1) \<and>
           stack_rest 0 (e2 # e1 # stk) = r1 @ stack_rest 1 stk \<and>
           stack_weight False (e2 # e1 # stk) < stack_weight asc (e # stk))"
        by blast
      let ?d = "pos_after I D d a1"
      obtain a2 where s2: "seek_split I D ?P ?d (r1 @ stack_rest 1 stk) = (a2, b, p)" "a = a1 @ a2"
        using sp unfolding n(2) append_assoc
        by (subst (asm) seek_split_append) (auto simp: n(3) split: prod.splits)
      have m: "mono_target I D ?P ?d (r1 @ stack_rest 1 stk)"
        using less.prems(4) mono_target_append [of I D ?P d a1] by (simp add: Cons n(2))
      from alt show ?thesis
      proof (elim disjE exE conjE)
        assume r: "r1 = []" and p: "seek_pre I D tree (k + 1) True stk ?d"
          and l: "seek_loop G D tgt bias (e # stk) d agg asc = seek_loop G D tgt bias stk ?d agg' True"
        from less.hyps [OF _ p n(1) less.prems(3)] m s2 r l
        show ?thesis by (simp add: Cons stack_weight_pop del: seek_loop.simps stack_weight.simps)
      next
        fix e1 e2
        assume p: "seek_pre I D tree (k - 1) False (e2 # e1 # stk) ?d"
          and l: "seek_loop G D tgt bias (e # stk) d agg asc = seek_loop G D tgt bias (e2 # e1 # stk) ?d agg' False"
          and r: "stack_rest 0 (e2 # e1 # stk) = r1 @ stack_rest 1 stk"
          and w: "stack_weight False (e2 # e1 # stk) < stack_weight asc (e # stk)"
        from less.hyps [OF _ p n(1) less.prems(3)] m s2 r l w
        show ?thesis by (simp add: Cons del: seek_loop.simps stack_weight.simps stack_rest.simps)
      qed
    qed
  qed
qed

lemma seek_internal_stack:
  assumes ok: "cursor_ok I D c" and cs: "can_seek c" and AR: "AR agg xs"
    and mono: "mono_target I D (\<lambda>d. passes bias (tgt d)) (c_position c) (cursor_rest c)"
    and sp: "seek_split I D (\<lambda>d. passes bias (tgt d)) (c_position c) (cursor_rest c) = (a, b, p)"
  shows "\<exists>st st' agg'. (if c_did_seek c then Some (c_stack c)
        else push_entry (c_stack c) (root_entry D (c_tree c))) = Some st \<and>
     seek_loop G D tgt bias st (c_position c) agg False = Some (st', p, agg') \<and> AR agg' (xs @ a) \<and>
     seek_post I D (c_tree c) st' b"
proof -
  let ?P = "\<lambda>d. passes bias (tgt d)"
  have h: "height (c_tree c) < STACK_CAPACITY" using ok by (simp add: cursor_ok_def)
  consider (mid) "c_did_seek c" "c_stack c \<noteq> []" | (fin) "c_did_seek c" "c_stack c = []" "c_at_end c"
    | (start) "\<not> c_did_seek c" "c_stack c = []" "tree_items (c_tree c) \<noteq> []"
    | (empty) "\<not> c_did_seek c" "c_stack c = []" "tree_items (c_tree c) = []"
    using ok cs unfolding cursor_ok_def can_seek_def by blast
  then show ?thesis
  proof cases
    case mid
    then have "seek_pre I D (c_tree c) 0 False (c_stack c) (c_position c)"
      using ok by (auto simp: seek_pre_def cursor_ok_def cursor_done_def stack_ok_weaken)
    from seek_loop_correct [OF this AR h] mid mono sp show ?thesis by (simp add: cursor_rest_def)
  next
    case fin
    then show ?thesis using sp AR by (simp add: cursor_rest_def seek_post_def)
  next
    case start
    let ?e = "root_entry D (c_tree c) :: ('t, 's, 'd) stack_entry"
    have wf: "wf_node I (height (c_tree c)) (c_tree c)"
      using ok start wf_tree_nonempty by (auto simp: cursor_ok_def)
    have ne: "\<not> c_at_end c" using ok start wf_tree_is_empty by (auto simp: cursor_ok_def)
    have d: "entry_done 0 ?e = []" "entry_rest 0 ?e = tree_items (c_tree c)"
      by (simp_all add: entry_done_def entry_rest_def root_entry_def split: sum_tree.split)
    have "c_position c = d_zero D" using ok start ne by (simp add: cursor_ok_def cursor_done_def)
    then have "seek_pre I D (c_tree c) (height (c_tree c)) False [?e] (c_position c)"
      using wf d by (auto simp: seek_pre_def root_entry_def)
    moreover have "cursor_rest c = stack_rest 0 [?e]" using start ne d by (simp add: cursor_rest_def)
    ultimately show ?thesis
      using seek_loop_correct [OF _ AR h] mono sp start
      by (simp add: push_entry_def STACK_CAPACITY_def del: seek_loop.simps)
  next
    case empty
    then have t: "c_tree c = new I" using ok wf_tree_empty by (auto simp: cursor_ok_def)
    have "cursor_rest c = []" using empty by (simp add: cursor_rest_def)
    with sp have "a = []" "b = []" "p = c_position c" by simp_all
    moreover obtain agg' where "end_leaf G (begin_leaf G agg) = Some agg'" "AR agg' (xs @ [])"
      using end_leaf_law [OF begin_leaf_law [OF AR]] by auto
    ultimately show ?thesis
      using empty by (simp add: push_entry_def STACK_CAPACITY_def root_entry_def t new_def seek_post_def)
  qed
qed

lemma seek_internal_correct:
  assumes ok: "cursor_ok I D c" and cs: "can_seek c" and AR: "AR agg xs" and ge: "tgt (c_position c) \<noteq> Less"
    and mono: "mono_target I D (\<lambda>d. passes bias (tgt d)) (c_position c) (cursor_rest c)"
    and sp: "seek_split I D (\<lambda>d. passes bias (tgt d)) (c_position c) (cursor_rest c) = (a, b, p)"
  shows "\<exists>c' agg'. seek_internal G D c tgt bias agg = Some (c', agg',
       tgt (if bias = Left \<and> b \<noteq> [] then d_add D p (item_summary I (hd b)) else p) = Equal) \<and>
     AR agg' (xs @ a) \<and> cursor_ok I D c' \<and> can_seek c' \<and> c_did_seek c' \<and> c_tree c' = c_tree c \<and>
     cursor_done c' = cursor_done c @ a \<and> cursor_rest c' = b \<and> c_position c' = p"
proof -
  obtain st st' agg' where s: "(if c_did_seek c then Some (c_stack c)
        else push_entry (c_stack c) (root_entry D (c_tree c))) = Some st"
     "seek_loop G D tgt bias st (c_position c) agg False = Some (st', p, agg')" "AR agg' (xs @ a)"
     "seek_post I D (c_tree c) st' b"
    using seek_internal_stack [OF ok cs AR mono sp] by auto
  let ?c' = "c\<lparr>c_stack := st', c_position := p, c_did_seek := True, c_at_end := (st' = [])\<rparr>"
  note parts = seek_split_parts [OF sp]
  have all: "(cursor_done c @ a) @ b = tree_items (c_tree c)"
    using cursor_done_rest [OF ok] parts by simp
  have rest: "cursor_rest ?c' = b" using s(4) by (auto simp: cursor_rest_def seek_post_def)
  have dn: "cursor_done ?c' = cursor_done c @ a"
  proof (cases "st' = []")
    case True
    then show ?thesis using all s(4) by (simp add: cursor_done_def seek_post_def)
  next
    case False
    have "stack_ok I (c_tree c) 0 0 st'" using s(4) by (simp add: seek_post_def stack_ok_weaken)
    from stack_done_rest [OF this False] have "stack_done 0 st' @ b = tree_items (c_tree c)"
      using s(4) by (simp add: seek_post_def)
    with all have "stack_done 0 st' = cursor_done c @ a" by (metis append_same_eq)
    with False show ?thesis by (subst cursor_done_def) simp
  qed
  have p: "p = pos_after I D (d_zero D) (cursor_done ?c')"
    unfolding dn using parts ok by (simp add: cursor_ok_def)
  have ok': "cursor_ok I D ?c'"
    using s(4) ok p by (auto simp: cursor_ok_def seek_post_def simp del: stack_ok.simps)
  have cs': "can_seek ?c'" by (simp add: can_seek_def)
  have e: "cursor_end D ?c' = Some (if b = [] then p else d_add D p (item_summary I (hd b)))"
    using cursor_item_ok(2) [OF ok' _ cs'] rest by (cases b) (simp_all add: cursor_end_def)
  have "seek_internal G D c tgt bias agg = Some (?c', agg',
       tgt (if bias = Left \<and> b \<noteq> [] then d_add D p (item_summary I (hd b)) else p) = Equal)"
    unfolding seek_internal_def s(1) using ge e s(2)
    by (cases bias; cases "b = []") (simp_all add: Let_def del: seek_loop.simps)
  then show ?thesis using s(3) ok' cs' dn rest by auto
qed

end

subsection \<open>The three aggregates keep the contract\<close>

definition slice_AR :: "('t, 's) item_ops \<Rightarrow> ('t, 's) slice_seek_aggregate \<Rightarrow> 't list \<Rightarrow> bool" where
  "slice_AR I a xs \<longleftrightarrow> wf_tree I (sl_tree a) \<and> tree_items (sl_tree a) = xs \<and> sl_leaf_items a = [] \<and>
     sl_leaf_item_summaries a = [] \<and> sl_leaf_summary a = s_zero I"

definition slice_PR :: "('t, 's) item_ops \<Rightarrow> ('t, 's) slice_seek_aggregate \<Rightarrow> 't list \<Rightarrow> 't list \<Rightarrow> bool" where
  "slice_PR I a xs ys \<longleftrightarrow> wf_tree I (sl_tree a) \<and> tree_items (sl_tree a) = xs \<and> sl_leaf_items a = ys \<and>
     length ys \<le> 2 * TREE_BASE \<and>
     sl_leaf_item_summaries a = map (item_summary I) ys \<and>
     sl_leaf_summary a = s_sum I (map (item_summary I) ys)"

lemma slice_agg_new_AR: "slice_AR I (slice_agg_new I) []"
  by (simp add: slice_AR_def slice_agg_new_def)

sublocale summary_laws \<subseteq> slice_agg: seek_aggregate I "slice_agg I" "slice_AR I" "slice_PR I"
proof unfold_locales
  show "slice_PR I (begin_leaf (slice_agg I) a) xs []" if "slice_AR I a xs" for a xs
    using that by (simp add: slice_AR_def slice_PR_def slice_agg_def)
next
  fix a xs ys x
  assume "slice_PR I a xs ys" "length ys < 2 * TREE_BASE"
  then show "\<exists>a'. push_item (slice_agg I) a x (item_summary I x) = Some a' \<and> slice_PR I a' xs (ys @ [x])"
    by (simp add: slice_PR_def slice_agg_def slice_push_item_def s_sum_append Suc_le_eq)
next
  fix a xs ys
  assume p: "slice_PR I a xs ys"
  let ?leaf = "Leaf (sl_leaf_summary a) (sl_leaf_items a) (sl_leaf_item_summaries a)"
  have "wf_tree I ?leaf"
    using p by (cases "ys = []") (auto simp: slice_PR_def wf_tree_def new_def)
  moreover have "wf_tree I (sl_tree a)" using p by (simp add: slice_PR_def)
  ultimately obtain t where "append_tree I (sl_tree a) ?leaf = Some t" "wf_tree I t"
    "tree_items t = tree_items (sl_tree a) @ ys"
    using append_tree_correct [of "sl_tree a" ?leaf] p by (auto simp: slice_PR_def)
  then show "\<exists>a'. end_leaf (slice_agg I) a = Some a' \<and> slice_AR I a' (xs @ ys)"
    using p by (simp add: slice_AR_def slice_PR_def slice_agg_def slice_end_leaf_def)
next
  fix a xs k t
  assume p: "slice_AR I a xs" and t: "wf_node I k t"
  then obtain t' where "append_tree I (sl_tree a) t = Some t'" "wf_tree I t'" "tree_items t' = xs @ tree_items t"
    using append_tree_correct [of "sl_tree a" t] wf_treeI [OF t] by (auto simp: slice_AR_def)
  then show "\<exists>a'. push_tree (slice_agg I) a t (summary t) = Some a' \<and> slice_AR I a' (xs @ tree_items t)"
    using p by (simp add: slice_AR_def slice_agg_def slice_push_tree_def)
qed

sublocale dim_laws \<subseteq> slice_seek: seek_cursor I "slice_agg I" "slice_AR I" "slice_PR I" D
  by unfold_locales

sublocale dim_laws \<subseteq> unit_seek: seek_cursor I unit_agg "\<lambda>_ _. True" "\<lambda>_ _ _. True" D
  by unfold_locales (simp_all add: unit_agg_def)

sublocale dim_laws \<subseteq> summary_agg: seek_aggregate I "summary_agg D"
    "\<lambda>a xs. a = pos_after I D (d_zero D) xs" "\<lambda>a xs ys. a = pos_after I D (d_zero D) (xs @ ys)"
  by unfold_locales (auto simp: summary_agg_def node_end)

subsection \<open>Seeking, slicing, summarising\<close>

context dim_laws
begin

lemma seek_correct:
  assumes "wf_tree I t" and "height t < STACK_CAPACITY" and "c_tree c = t" and "tgt (d_zero D) \<noteq> Less"
    and "mono_target I D (\<lambda>d. passes bias (tgt d)) (d_zero D) (tree_items t)"
    and "seek_split I D (\<lambda>d. passes bias (tgt d)) (d_zero D) (tree_items t) = (a, b, p)"
  shows "\<exists>c'. seek D c tgt bias = Some (c',
       tgt (if bias = Left \<and> b \<noteq> [] then d_add D p (item_summary I (hd b)) else p) = Equal) \<and>
     cursor_ok I D c' \<and> can_seek c' \<and> c_did_seek c' \<and> c_tree c' = t \<and>
     cursor_done c' = a \<and> cursor_rest c' = b \<and> c_position c' = p"
proof -
  have n: "cursor_ok I D (cursor_new D t)" "can_seek (cursor_new D t)" "cursor_done (cursor_new D t) = []"
    "cursor_rest (cursor_new D t) = tree_items t" "c_position (cursor_new D t) = d_zero D"
    using cursor_new_ok [OF assms(1,2), of D] by (simp_all add: cursor_new_def)
  have t: "c_tree (cursor_new D t) = t" by (simp add: cursor_new_def)
  show ?thesis
    using unit_seek.seek_internal_correct [OF n(1,2) TrueI, of tgt bias a b p "()"] assms n t
    by (auto simp: seek_def cursor_reset_new)
qed

lemma seek_forward_correct:
  assumes "cursor_ok I D c" and "can_seek c" and "tgt (c_position c) \<noteq> Less"
    and "mono_target I D (\<lambda>d. passes bias (tgt d)) (c_position c) (cursor_rest c)"
    and "seek_split I D (\<lambda>d. passes bias (tgt d)) (c_position c) (cursor_rest c) = (a, b, p)"
  shows "\<exists>c'. seek_forward D c tgt bias = Some (c',
       tgt (if bias = Left \<and> b \<noteq> [] then d_add D p (item_summary I (hd b)) else p) = Equal) \<and>
     cursor_ok I D c' \<and> can_seek c' \<and> c_did_seek c' \<and> c_tree c' = c_tree c \<and>
     cursor_done c' = cursor_done c @ a \<and> cursor_rest c' = b \<and> c_position c' = p"
  using unit_seek.seek_internal_correct [OF assms(1,2) TrueI assms(3-5), of "()"]
  by (auto simp: seek_forward_def)

lemma slice_correct:
  assumes "cursor_ok I D c" and "can_seek c" and "tgt (c_position c) \<noteq> Less"
    and "mono_target I D (\<lambda>d. passes bias (tgt d)) (c_position c) (cursor_rest c)"
    and "seek_split I D (\<lambda>d. passes bias (tgt d)) (c_position c) (cursor_rest c) = (a, b, p)"
  shows "\<exists>c' t'. slice I D c tgt bias = Some (c', t') \<and> wf_tree I t' \<and> tree_items t' = a \<and>
     cursor_ok I D c' \<and> can_seek c' \<and> c_did_seek c' \<and> c_tree c' = c_tree c \<and>
     cursor_done c' = cursor_done c @ a \<and> cursor_rest c' = b \<and> c_position c' = p"
  using slice_seek.seek_internal_correct [OF assms(1,2) slice_agg_new_AR assms(3-5)]
  by (auto simp: slice_def slice_AR_def)

lemma end_target_passes: "passes bias (end_target d)"
  by (simp add: passes_def end_target_def)

lemma seek_split_true: "(\<And>d. P d) \<Longrightarrow> seek_split I D P d xs = (xs, [], pos_after I D d xs)"
  by (induction xs arbitrary: d) (auto simp: Let_def)

lemma mono_target_true: "(\<And>d. P d) \<Longrightarrow> mono_target I D P d xs"
  by (induction xs arbitrary: d) (auto simp: Let_def)

lemma suffix_correct:
  assumes "cursor_ok I D c" and "can_seek c"
  shows "\<exists>c' t'. suffix I D c = Some (c', t') \<and> wf_tree I t' \<and> tree_items t' = cursor_rest c \<and>
     cursor_ok I D c' \<and> c_at_end c' = True \<and> cursor_rest c' = []"
proof -
  have "\<exists>c' t'. slice I D c end_target Right = Some (c', t') \<and> wf_tree I t' \<and> tree_items t' = cursor_rest c \<and>
     cursor_ok I D c' \<and> can_seek c' \<and> c_did_seek c' \<and> c_tree c' = c_tree c \<and>
     cursor_done c' = cursor_done c @ cursor_rest c \<and> cursor_rest c' = [] \<and>
     c_position c' = pos_after I D (c_position c) (cursor_rest c)"
    using end_target_passes
    by (intro slice_correct [OF assms]) (simp_all add: end_target_def mono_target_true seek_split_true)
  moreover have "c_at_end c'" if "cursor_ok I D c'" "cursor_rest c' = []" "c_did_seek c'" "can_seek c'" for c'
  proof (cases "c_stack c'")
    case Nil
    then show ?thesis using that by (auto simp: can_seek_def)
  next
    case (Cons e st)
    then have "stack_ok I (c_tree c') 0 1 (e # st)" using that by (simp add: cursor_ok_def)
    then show ?thesis by (rule stack_top_leaf) (use that Cons in \<open>simp add: cursor_rest_def\<close>)
  qed
  ultimately show ?thesis unfolding suffix_def by (metis (full_types))
qed

lemma summary_agg_laws: "seek_aggregate I (summary_agg D)
    (\<lambda>a xs. a = pos_after I D (d_zero D) xs) (\<lambda>a xs ys. a = pos_after I D (d_zero D) (xs @ ys))"
  by (rule summary_agg.seek_aggregate_axioms)

end

lemma cursor_summary_correct:
  assumes D: "dim_laws I D" and Out: "dim_laws I Out"
    and c: "cursor_ok I D c" "can_seek c" "tgt (c_position c) \<noteq> Less"
    and mono: "mono_target I D (\<lambda>d. passes bias (tgt d)) (c_position c) (cursor_rest c)"
    and sp: "seek_split I D (\<lambda>d. passes bias (tgt d)) (c_position c) (cursor_rest c) = (a, b, p)"
  shows "\<exists>c'. cursor_summary D Out c tgt bias = Some (c', pos_after I Out (d_zero Out) a) \<and>
     cursor_ok I D c' \<and> cursor_done c' = cursor_done c @ a \<and> cursor_rest c' = b"
proof -
  note S = seek_cursor.intro [OF dim_laws.summary_agg_laws [OF Out] D]
  show ?thesis
    using seek_cursor.seek_internal_correct [OF S c(1,2) _ c(3) mono sp, of "d_zero Out" "[]"]
    by (auto simp: cursor_summary_def)
qed

end
