(* ===== verification/CursorMove.thy ===== *)
theory CursorMove
  imports CursorSeek
begin

text \<open>
  What \<open>search_forward\<close>, \<open>search_backward\<close>, \<open>next\<close>, \<open>prev\<close> and the iterators do to a
  cursor (\<open>crates/sum_tree/src/cursor.rs\<close>), on the view of \<open>CursorSeek\<close>: moving with a filter on
  summaries skips exactly the items the filter refuses, \<open>next\<close> and \<open>prev\<close> move by one item, and
  \<open>items\<close> returns and lists the tree.
\<close>

subsection \<open>Forward\<close>

text \<open>A filter on summaries may refuse a node only if it refuses every item below it.\<close>

definition node_filter :: "('t, 's) item_ops \<Rightarrow> ('s \<Rightarrow> bool) \<Rightarrow> bool" where
  "node_filter I f \<longleftrightarrow>
     (\<forall>k t. wf_node I k t \<longrightarrow> \<not> f (summary t) \<longrightarrow> (\<forall>x \<in> set (tree_items t). \<not> f (item_summary I x)))"

lemma node_filter_True [simp]: "node_filter I (\<lambda>_. True)"
  by (simp add: node_filter_def)

abbreviation skipped :: "('t, 's) item_ops \<Rightarrow> ('s \<Rightarrow> bool) \<Rightarrow> 't \<Rightarrow> bool" where
  "skipped I f x \<equiv> \<not> f (item_summary I x)"

lemma forward_items_correct:
  "\<exists>q. forward_items D f e d (map (item_summary I) its) =
     (e\<lparr>e_index := e_index e + length (takeWhile (skipped I f) its), e_position := q\<rparr>,
      pos_after I D d (takeWhile (skipped I f) its), dropWhile (skipped I f) its \<noteq> [])"
proof (induction its arbitrary: e d)
  case Nil
  show ?case by (rule exI [of _ "e_position e"]) simp
next
  case (Cons x its)
  show ?case
  proof (cases "f (item_summary I x)")
    case True
    then show ?thesis by (intro exI [of _ "e_position e"]) simp
  next
    case False
    from Cons.IH [of "e\<lparr>e_index := e_index e + 1, e_position := d_add D (e_position e) (item_summary I x)\<rparr>"
        "d_add D d (item_summary I x)"] False
    show ?thesis by auto
  qed
qed

text \<open>The items in front of the cursor other than the one it is at.\<close>

definition pending :: "('t, 's, 'd) cursor \<Rightarrow> 't list" where
  "pending c = (if c_stack c = [] then cursor_rest c else tl (cursor_rest c))"

context dim_laws
begin

lemma forward_children_correct:
  assumes "\<forall>c \<in> set cts. wf_node I k c" and "e_position e = d" and "node_filter I f"
  shows "\<exists>cs1 cs2. cts = cs1 @ cs2 \<and>
     forward_children D f e d (map summary cts) =
       (e\<lparr>e_index := e_index e + length cs1, e_position := pos_after I D d (concat (map tree_items cs1))\<rparr>,
        pos_after I D d (concat (map tree_items cs1))) \<and>
     (\<forall>x \<in> set (concat (map tree_items cs1)). skipped I f x)"
  using assms(1,2)
proof (induction cts arbitrary: e d)
  case (Cons c cs)
  show ?case
  proof (cases "f (summary c)")
    case True
    then show ?thesis
      using Cons.prems by (rule_tac x = "[]" in exI, rule_tac x = "c # cs" in exI) auto
  next
    case False
    let ?d = "pos_after I D d (tree_items c)"
    have wf: "wf_node I k c" using Cons.prems by simp
    have n: "d_add D d (summary c) = ?d" by (rule node_end [OF wf])
    have sk: "\<forall>x \<in> set (tree_items c). skipped I f x" using assms(3) wf False by (auto simp: node_filter_def)
    from Cons.IH [of "e\<lparr>e_index := e_index e + 1, e_position := ?d\<rparr>" ?d] Cons.prems(1)
    obtain cs1 cs2 where "cs = cs1 @ cs2"
      "forward_children D f (e\<lparr>e_index := e_index e + 1, e_position := ?d\<rparr>) ?d (map summary cs) =
       (e\<lparr>e_index := e_index e + 1 + length cs1, e_position := pos_after I D ?d (concat (map tree_items cs1))\<rparr>,
        pos_after I D ?d (concat (map tree_items cs1)))"
      "\<forall>x \<in> set (concat (map tree_items cs1)). skipped I f x"
      by auto
    with False n sk Cons.prems(2) show ?thesis
      by (rule_tac x = "c # cs1" in exI, rule_tac x = cs2 in exI) auto
  qed
qed simp

lemma forward_leaf:
  fixes f :: "'s \<Rightarrow> bool"
  assumes ok: "stack_ok I tree 0 0 (e # stk)" and par: "parents_at I D stk"
    and d: "d = pos_after I D (d_zero D) (stack_done 0 (e # stk))"
  defines "a \<equiv> takeWhile (skipped I f) (entry_rest 0 e)" and "b \<equiv> dropWhile (skipped I f) (entry_rest 0 e)"
  shows "\<exists>e' p. forward_items D f e d (drop (e_index e) (child_summaries (e_tree e))) = (e', p, b \<noteq> []) \<and>
      (b \<noteq> [] \<longrightarrow> seek_post I D tree (e' # stk) (b @ stack_rest 1 stk)) \<and>
      p = pos_after I D (d_zero D) (stack_done 0 (e' # stk)) \<and> p = pos_after I D d a \<and>
      (b = [] \<longrightarrow> seek_pre I D tree 1 True stk p)"
proof -
  obtain s its where e: "e_tree e = Leaf s its (map (item_summary I) its)"
    using wf_node_Leaf [of I "e_tree e"] ok by auto
  let ?i = "e_index e"
  have i: "?i \<le> length its" using ok by (simp add: e)
  have r: "entry_rest 0 e = drop ?i its" by (simp add: entry_rest_def e)
  have ab: "drop ?i its = a @ b" unfolding a_def b_def r by simp
  obtain q where q: "forward_items D f e d (map (item_summary I) (drop ?i its)) =
      (e\<lparr>e_index := ?i + length a, e_position := q\<rparr>, pos_after I D d a, b \<noteq> [])"
    using forward_items_correct [of D f e d I "drop ?i its"] unfolding a_def b_def r by blast
  let ?e' = "e\<lparr>e_index := ?i + length a, e_position := q\<rparr>"
  have len: "length its = ?i + length a + length b"
    using ab i by (metis add.assoc le_add_diff_inverse length_append length_drop)
  have ok': "stack_ok I tree 0 0 (?e' # stk)" by (rule stack_ok_index [OF ok]) (use len in \<open>simp_all add: e\<close>)
  have "take (?i + length a) its = take ?i its @ a" using ab by (simp add: take_add)
  then have d': "pos_after I D d a = pos_after I D (d_zero D) (stack_done 0 (?e' # stk))"
    using d by (simp add: entry_done_def e)
  have "drop (?i + length a) its = b" using ab by (metis add.commute append_eq_conv_conj drop_drop)
  then have rest': "entry_rest 0 ?e' = b" by (simp add: entry_rest_def e)
  have post: "seek_post I D tree (?e' # stk) (b @ stack_rest 1 stk)" if "b \<noteq> []"
  proof -
    have "stack_ok I tree 0 1 (?e' # stk)"
      by (rule stack_ok_index [OF ok]) (use len that in \<open>auto simp: e Suc_le_eq\<close>)
    then show ?thesis
      unfolding seek_post_def using that rest' par by (simp del: stack_ok.simps)
  qed
  have pre: "seek_pre I D tree 1 True stk (pos_after I D d a)" if "b = []"
  proof -
    have full: "e_index ?e' = length (child_summaries (e_tree ?e'))" using that len by (simp add: e)
    have "stk \<noteq> [] \<Longrightarrow> pos_after I D d a = pos_after I D (d_zero D) (stack_done 1 stk)"
      using stack_pop(1) [OF ok' full] d' by simp
    then show ?thesis using ok par by (cases stk) (auto simp: seek_pre_def)
  qed
  show ?thesis
    using q d' post pre by (intro exI [of _ ?e'] exI [of _ "pos_after I D d a"]) (simp add: e drop_map del: stack_done.simps)
qed

lemma forward_node:
  assumes pre: "seek_pre I D tree k asc (e # stk) d" and k: "0 < k" and f: "node_filter I f"
    and h: "height tree < STACK_CAPACITY"
  shows "\<exists>a1 r1. entry_rest (if asc then 1 else 0) e = a1 @ r1 \<and> (\<forall>x \<in> set a1. skipped I f x) \<and>
      (forward_loop D f (e # stk) d (\<not> asc) = forward_loop D f stk (pos_after I D d a1) False \<and>
        r1 = [] \<and> seek_pre I D tree (k + 1) True stk (pos_after I D d a1) \<or>
       (\<exists>e1 e2. forward_loop D f (e # stk) d (\<not> asc) = forward_loop D f (e2 # e1 # stk) (pos_after I D d a1) True \<and>
        seek_pre I D tree (k - 1) False (e2 # e1 # stk) (pos_after I D d a1) \<and>
        stack_rest 0 (e2 # e1 # stk) = r1 @ stack_rest 1 stk \<and>
        stack_weight False (e2 # e1 # stk) < stack_weight asc (e # stk)))"
proof -
  let ?j = "if asc then 1 else 0 :: nat"
  let ?e = "if asc then e\<lparr>e_index := e_index e + 1, e_position := d\<rparr> else e"
  let ?i = "e_index ?e"
  have ok: "stack_ok I tree k ?j (e # stk)" and par: "parents_at I D stk"
    and d: "d = pos_after I D (d_zero D) (stack_done ?j (e # stk))" and posd: "e_position ?e = d"
    using pre k by (auto simp: seek_pre_def)
  obtain s cts where e: "e_tree e = Internal k s (map summary cts) cts"
    using wf_node_Internal [of I k "e_tree e"] ok k by auto
  have ij: "?i = e_index e + ?j" by simp
  have i: "?i \<le> length cts" using ok by (auto simp: e)
  have ch: "\<forall>c \<in> set (drop ?i cts). wf_node I (k - 1) c" using ok by (auto simp: e dest: in_set_dropD)
  have r: "entry_rest ?j e = concat (map tree_items (drop ?i cts))" by (simp add: entry_rest_def e)
  obtain cs1 cs2 where c: "drop ?i cts = cs1 @ cs2"
    "forward_children D f ?e d (map summary (drop ?i cts)) =
       (?e\<lparr>e_index := ?i + length cs1, e_position := pos_after I D d (concat (map tree_items cs1))\<rparr>,
        pos_after I D d (concat (map tree_items cs1)))"
    "\<forall>x \<in> set (concat (map tree_items cs1)). skipped I f x"
    using forward_children_correct [OF ch posd f] by blast
  let ?a = "concat (map tree_items cs1)" and ?r = "concat (map tree_items cs2)"
  let ?p = "pos_after I D d ?a"
  let ?e1 = "?e\<lparr>e_index := ?i + length cs1, e_position := ?p\<rparr>"
  have tk: "take (?i + length cs1) cts = take ?i cts @ cs1"
    using c(1) by (metis add_diff_cancel_left' append_eq_conv_conj take_add)
  have len: "length cts = ?i + length cs1 + length cs2"
    using c(1) i by (metis add.assoc le_add_diff_inverse length_append length_drop)
  have e1: "e_tree ?e1 = Internal k s (map summary cts) cts" "e_index ?e1 = ?i + length cs1"
    "e_position ?e1 = ?p" "e_tree ?e1 = e_tree e" by (simp_all add: e)
  have p: "?p = pos_after I D (d_zero D) (stack_done 0 (?e1 # stk))"
    using d tk [unfolded ij] unfolding stack_done.simps entry_done_def e1
    by (cases asc) (simp_all add: entry_done_def e)
  have step: "forward_loop D f (e # stk) d (\<not> asc) =
     (case vec_get cts (?i + length cs1) of
        None \<Rightarrow> forward_loop D f stk ?p False
      | Some c \<Rightarrow> (case push_entry (?e1 # stk) \<lparr>e_tree = c, e_index = 0, e_position = ?p\<rparr> of
          None \<Rightarrow> None | Some st' \<Rightarrow> forward_loop D f st' ?p True))"
    using c(2) by (cases asc) (simp_all add: e Let_def drop_map split: option.split)
  show ?thesis
  proof (cases cs2)
    case Nil
    have ok1: "stack_ok I tree k 0 (?e1 # stk)" by (rule stack_ok_index [OF ok e1(4)]) (use len in \<open>simp add: e\<close>)
    have full: "e_index ?e1 = length (child_summaries (e_tree ?e1))" using len Nil unfolding e1 by simp
    have "stk \<noteq> [] \<Longrightarrow> ?p = pos_after I D (d_zero D) (stack_done 1 stk)"
      using stack_pop(1) [OF ok1 full] p by simp
    then have "seek_pre I D tree (k + 1) True stk ?p" using ok par by (cases stk) (auto simp: seek_pre_def)
    moreover have "vec_get cts (?i + length cs1) = None" using len Nil by (simp add: vec_get_def)
    ultimately show ?thesis
      using Nil c r step by (intro exI [of _ ?a] exI [of _ "[]"]) simp
  next
    case (Cons c' cs')
    have ok1: "stack_ok I tree k 1 (?e1 # stk)" by (rule stack_ok_index [OF ok e1(4)]) (use len Cons in \<open>simp add: e\<close>)
    have "cts ! (?i + length cs1) = drop ?i cts ! length cs1" using i by simp
    then have nth: "cts ! (?i + length cs1) = c'" using c(1) Cons by simp
    then have ca: "child_at ?e1 = c'" unfolding child_at_def e1 by simp
    have get: "vec_get cts (?i + length cs1) = Some c'" using len Cons nth by (simp add: vec_get_def)
    let ?e2 = "\<lparr>e_tree = c', e_index = 0, e_position = ?p\<rparr>"
    note down = stack_ok_down [OF ok1 k, of ?p, unfolded ca]
    have cap: "Suc (length stk) < STACK_CAPACITY" using stack_ok_height [OF ok] h k by simp
    have pre': "seek_pre I D tree (k - 1) False (?e2 # ?e1 # stk) ?p"
      unfolding seek_pre_def using down(1) down(3) [folded p] p par e1(3)
      by (simp del: stack_ok.simps stack_done.simps)
    have dr: "drop (?i + length cs1) cts = cs2"
      using c(1) by (metis add.commute append_eq_conv_conj drop_drop)
    have "stack_rest 0 (?e1 # stk) = ?r @ stack_rest 1 stk"
      unfolding stack_rest.simps entry_rest_def e1 using dr [unfolded ij] by (cases asc) simp_all
    moreover have "stack_weight False (?e2 # ?e1 # stk) < stack_weight asc (e # stk)"
    proof -
      have fc: "forward_children D f ?e d (drop ?i (map summary cts)) = (?e1, ?p)"
        using c(2) by (simp only: drop_map)
      have "stack_weight False (?e2 # ?e1 # stk) < stack_weight (\<not> \<not> asc) (e # stk)"
        by (rule forward_weight_descend [OF fc]) (use get e1(2) e in simp_all)
      then show ?thesis by (simp only: not_not)
    qed
    moreover have "forward_loop D f (e # stk) d (\<not> asc) = forward_loop D f (?e2 # ?e1 # stk) ?p True"
      using step get cap by (simp add: push_entry_def del: forward_loop.simps)
    ultimately show ?thesis
      using c(1,3) r pre' down(2)
      by (intro exI [of _ ?a] exI [of _ ?r] conjI disjI2 exI [of _ ?e1] exI [of _ ?e2])
        (simp_all del: forward_loop.simps stack_weight.simps stack_rest.simps)
  qed
qed

lemma forward_loop_correct:
  assumes "seek_pre I D tree k (\<not> desc) st d" and "height tree < STACK_CAPACITY" and "node_filter I f"
  shows "\<exists>st'. forward_loop D f st d desc = Some (st',
       pos_after I D d (takeWhile (skipped I f) (stack_rest (if desc then 0 else 1) st)),
       dropWhile (skipped I f) (stack_rest (if desc then 0 else 1) st) \<noteq> []) \<and>
     seek_post I D tree st' (dropWhile (skipped I f) (stack_rest (if desc then 0 else 1) st))"
  using assms(1)
proof (induction "stack_weight (\<not> desc) st" arbitrary: desc st k d rule: less_induct)
  case less
  let ?S = "skipped I f" and ?j = "if desc then 0 else 1 :: nat"
  show ?case
  proof (cases st)
    case Nil
    then show ?thesis by (simp add: seek_post_def)
  next
    case (Cons e stk)
    have pre: "seek_pre I D tree k (\<not> desc) (e # stk) d" using less.prems Cons by simp
    show ?thesis
    proof (cases "k = 0")
      case True
      then have desc: "desc" using pre by (auto simp: seek_pre_def)
      have l: "stack_ok I tree 0 0 (e # stk)" "parents_at I D stk"
        "d = pos_after I D (d_zero D) (stack_done 0 (e # stk))"
        using pre desc True by (simp_all add: seek_pre_def)
      obtain s its where e: "e_tree e = Leaf s its (map (item_summary I) its)"
        using wf_node_Leaf [of I "e_tree e"] l(1) by auto
      from forward_leaf [OF l, of f]
      obtain e' p where fl: "forward_items D f e d (drop (e_index e) (child_summaries (e_tree e))) =
          (e', p, dropWhile ?S (entry_rest 0 e) \<noteq> [])"
        "dropWhile ?S (entry_rest 0 e) \<noteq> [] \<Longrightarrow>
           seek_post I D tree (e' # stk) (dropWhile ?S (entry_rest 0 e) @ stack_rest 1 stk)"
        "p = pos_after I D d (takeWhile ?S (entry_rest 0 e))"
        "dropWhile ?S (entry_rest 0 e) = [] \<Longrightarrow> seek_pre I D tree 1 True stk p" by blast
      have step: "forward_loop D f (e # stk) d True =
          (if dropWhile ?S (entry_rest 0 e) \<noteq> [] then Some (e' # stk, p, True) else forward_loop D f stk p False)"
        using fl(1) by (simp add: e)
      show ?thesis
      proof (cases "dropWhile ?S (entry_rest 0 e) = []")
        case False
        then have "\<exists>x \<in> set (entry_rest 0 e). \<not> ?S x" by (auto simp: dropWhile_eq_Nil_conv)
        then show ?thesis
          using False step fl(2,3) desc
          by (auto simp: Cons dropWhile_append takeWhile_append simp del: forward_loop.simps)
      next
        case all: True
        then have sk: "\<forall>x \<in> set (entry_rest 0 e). ?S x" by (auto simp: dropWhile_eq_Nil_conv)
        have w: "stack_weight (\<not> False) stk < stack_weight (\<not> desc) st"
          by (simp add: Cons stack_weight_pop del: stack_weight.simps)
        have pre': "seek_pre I D tree 1 (\<not> False) stk p" using fl(4) [OF all] by simp
        have "takeWhile ?S (entry_rest 0 e) = entry_rest 0 e" using sk by (simp add: takeWhile_eq_all_conv)
        with less.hyps [OF w pre'] step all sk fl(3) desc show ?thesis
          by (simp add: Cons del: forward_loop.simps)
      qed
    next
      case False
      then have k: "0 < k" by simp
      have j: "(if \<not> desc then 1 else 0 :: nat) = ?j" by simp
      from forward_node [OF pre k assms(3,2), unfolded j not_not]
      obtain a1 r1 where n: "entry_rest ?j e = a1 @ r1" "\<forall>x \<in> set a1. ?S x"
        and alt: "forward_loop D f (e # stk) d desc = forward_loop D f stk (pos_after I D d a1) False \<and>
           r1 = [] \<and> seek_pre I D tree (k + 1) True stk (pos_after I D d a1) \<or>
          (\<exists>e1 e2. forward_loop D f (e # stk) d desc = forward_loop D f (e2 # e1 # stk) (pos_after I D d a1) True \<and>
           seek_pre I D tree (k - 1) False (e2 # e1 # stk) (pos_after I D d a1) \<and>
           stack_rest 0 (e2 # e1 # stk) = r1 @ stack_rest 1 stk \<and>
           stack_weight False (e2 # e1 # stk) < stack_weight (\<not> desc) (e # stk))"
        by (elim exE conjE) (rule that)
      from alt show ?thesis
      proof (elim disjE exE conjE)
        assume r: "r1 = []" and p: "seek_pre I D tree (k + 1) True stk (pos_after I D d a1)"
          and l: "forward_loop D f (e # stk) d desc = forward_loop D f stk (pos_after I D d a1) False"
        have w: "stack_weight (\<not> False) stk < stack_weight (\<not> desc) st"
          by (simp add: Cons stack_weight_pop del: stack_weight.simps)
        have p': "seek_pre I D tree (k + 1) (\<not> False) stk (pos_after I D d a1)" using p by simp
        from less.hyps [OF w p'] n r l show ?thesis
          by (simp add: Cons del: forward_loop.simps stack_weight.simps)
      next
        fix e1 e2
        assume p: "seek_pre I D tree (k - 1) False (e2 # e1 # stk) (pos_after I D d a1)"
          and l: "forward_loop D f (e # stk) d desc = forward_loop D f (e2 # e1 # stk) (pos_after I D d a1) True"
          and r: "stack_rest 0 (e2 # e1 # stk) = r1 @ stack_rest 1 stk"
          and w: "stack_weight False (e2 # e1 # stk) < stack_weight (\<not> desc) (e # stk)"
        have w': "stack_weight (\<not> True) (e2 # e1 # stk) < stack_weight (\<not> desc) st"
          using w by (simp add: Cons del: stack_weight.simps)
        have p': "seek_pre I D tree (k - 1) (\<not> True) (e2 # e1 # stk) (pos_after I D d a1)" using p by simp
        have "stack_rest ?j st = a1 @ stack_rest 0 (e2 # e1 # stk)"
          using n(1) r by (cases desc) (simp_all add: Cons)
        with less.hyps [OF w' p'] n(2) l show ?thesis
          by (simp add: Cons del: forward_loop.simps stack_weight.simps stack_rest.simps)
      qed
    qed
  qed
qed

lemma search_forward_stack:
  assumes ok: "cursor_ok I D c" and f: "node_filter I f"
  shows "\<exists>st st' p. (if c_stack c = [] \<and> \<not> c_at_end c then push_entry [] (root_entry D (c_tree c))
        else Some (c_stack c)) = Some st \<and>
     forward_loop D f st (c_position c) (c_stack c = [] \<and> \<not> c_at_end c) =
       Some (st', p, dropWhile (skipped I f) (pending c) \<noteq> []) \<and>
     (dropWhile (skipped I f) (pending c) = [] \<longrightarrow> p = pos_after I D (d_zero D) (tree_items (c_tree c))) \<and>
     (dropWhile (skipped I f) (pending c) \<noteq> [] \<longrightarrow> p = pos_after I D (d_zero D) (stack_done 0 st')) \<and>
     seek_post I D (c_tree c) st' (dropWhile (skipped I f) (pending c))"
proof -
  let ?S = "skipped I f" and ?r = "dropWhile (skipped I f) (pending c)"
  have h: "height (c_tree c) < STACK_CAPACITY" using ok by (simp add: cursor_ok_def)
  have key: ?thesis
    if st: "(if c_stack c = [] \<and> \<not> c_at_end c then push_entry [] (root_entry D (c_tree c)) else Some (c_stack c)) = Some st"
      and pre: "seek_pre I D (c_tree c) k False st' d" and ne: "st' \<noteq> []"
      and loop: "forward_loop D f st (c_position c) (c_stack c = [] \<and> \<not> c_at_end c) = forward_loop D f st' d True"
      and rest: "stack_rest 0 st' = pending c" for st st' d k
  proof -
    let ?p = "pos_after I D d (takeWhile ?S (pending c))"
    have pre': "seek_pre I D (c_tree c) k (\<not> True) st' d" using pre by simp
    obtain st'' where r: "forward_loop D f st' d True = Some (st'', ?p, ?r \<noteq> [])"
      "seek_post I D (c_tree c) st'' ?r"
      using forward_loop_correct [OF pre' h f] rest by auto
    have d: "d = pos_after I D (d_zero D) (stack_done 0 st')" and sok: "stack_ok I (c_tree c) k 0 st'"
      using pre ne by (auto simp: seek_pre_def)
    have all: "stack_done 0 st' @ takeWhile ?S (pending c) @ ?r = tree_items (c_tree c)"
      using stack_done_rest [OF sok ne] rest by simp
    have p: "?p = pos_after I D (d_zero D) (stack_done 0 st' @ takeWhile ?S (pending c))" using d by simp
    have "?p = pos_after I D (d_zero D) (stack_done 0 st'')" if "?r \<noteq> []"
    proof -
      have "stack_ok I (c_tree c) 0 0 st''" "st'' \<noteq> []" "stack_rest 0 st'' = ?r"
        using r(2) that stack_ok_weaken by (auto simp: seek_post_def)
      with stack_done_rest have "stack_done 0 st'' @ ?r = tree_items (c_tree c)" by metis
      with all have "stack_done 0 st'' = stack_done 0 st' @ takeWhile ?S (pending c)"
        by (metis append_assoc append_same_eq)
      then show ?thesis using p by simp
    qed
    moreover have "?p = pos_after I D (d_zero D) (tree_items (c_tree c))" if "?r = []"
      unfolding p using all that by (metis append_Nil2)
    ultimately show ?thesis using st loop r by auto
  qed
  consider (start) "c_stack c = []" "\<not> c_at_end c" | (fin) "c_stack c = []" "c_at_end c"
    | (mid) e stk where "c_stack c = e # stk" by (cases "c_stack c") auto
  then show ?thesis
  proof cases
    case start
    let ?e = "root_entry D (c_tree c) :: ('t, 's, 'd) stack_entry"
    have "wf_node I (height (c_tree c)) (c_tree c)"
      using ok start wf_tree_nonempty by (auto simp: cursor_ok_def)
    moreover have d: "entry_done 0 ?e = []" "entry_rest 0 ?e = tree_items (c_tree c)"
      by (simp_all add: entry_done_def entry_rest_def root_entry_def split: sum_tree.split)
    moreover have "c_position c = d_zero D" using ok start by (simp add: cursor_ok_def cursor_done_def)
    ultimately have "seek_pre I D (c_tree c) (height (c_tree c)) False [?e] (c_position c)"
      by (auto simp: seek_pre_def root_entry_def)
    then show ?thesis
      using start d by (intro key [of "[?e]" _ "[?e]"])
        (simp_all add: push_entry_def STACK_CAPACITY_def pending_def cursor_rest_def)
  next
    case fin
    then show ?thesis using ok by (simp add: pending_def cursor_rest_def cursor_ok_def cursor_done_def seek_post_def)
  next
    case mid
    have top: "stack_ok I (c_tree c) 0 1 (e # stk)" using ok mid by (simp add: cursor_ok_def)
    obtain s its where e: "e_tree e = Leaf s its (map (item_summary I) its)" "e_index e < length its"
      "stack_rest 0 (e # stk) = its ! e_index e # stack_rest 1 (e # stk)"
      using stack_top_leaf [OF top] .
    let ?isum = "item_summary I (its ! e_index e)"
    let ?d = "d_add D (c_position c) ?isum"
    let ?e = "e\<lparr>e_index := e_index e + 1, e_position := d_add D (e_position e) ?isum\<rparr>"
    have ok1: "stack_ok I (c_tree c) 0 0 (?e # stk)"
      by (rule stack_ok_index [OF top]) (use e(1,2) in simp_all)
    have "entry_done 0 ?e = entry_done 0 e @ [its ! e_index e]"
      using e(2) by (simp add: entry_done_def e(1) take_Suc_conv_app_nth)
    then have pos: "?d = pos_after I D (d_zero D) (stack_done 0 (?e # stk))"
      using ok mid by (simp add: cursor_ok_def cursor_done_def)
    have "parents_at I D stk" using ok mid by (simp add: cursor_ok_def)
    with ok1 pos have pre: "seek_pre I D (c_tree c) 0 False (?e # stk) ?d"
      by (simp add: seek_pre_def del: stack_ok.simps stack_done.simps)
    have "entry_rest 0 ?e = entry_rest 1 e" by (simp add: entry_rest_def e(1))
    then have rest: "stack_rest 0 (?e # stk) = pending c"
      using e(3) mid by (simp add: pending_def cursor_rest_def)
    have loop: "forward_loop D f (e # stk) (c_position c) False = forward_loop D f (?e # stk) ?d True"
      using e(2) by (simp add: e(1))
    show ?thesis
      by (rule key [OF _ pre _ _ rest, of "e # stk"]) (simp_all add: mid loop del: forward_loop.simps)
  qed
qed

lemma search_forward_correct:
  assumes ok: "cursor_ok I D c" and f: "node_filter I f"
  shows "\<exists>c'. search_forward D f c = Some c' \<and> cursor_ok I D c' \<and> can_seek c' \<and> c_did_seek c' \<and>
     c_tree c' = c_tree c \<and> cursor_rest c' = dropWhile (skipped I f) (pending c)"
proof -
  define r where "r = dropWhile (skipped I f) (pending c)"
  obtain st st' p where s: "(if c_stack c = [] \<and> \<not> c_at_end c then push_entry [] (root_entry D (c_tree c))
        else Some (c_stack c)) = Some st"
     "forward_loop D f st (c_position c) (c_stack c = [] \<and> \<not> c_at_end c) = Some (st', p, r \<noteq> [])"
     "r = [] \<Longrightarrow> p = pos_after I D (d_zero D) (tree_items (c_tree c))"
     "r \<noteq> [] \<Longrightarrow> p = pos_after I D (d_zero D) (stack_done 0 st')"
     "seek_post I D (c_tree c) st' r"
    using search_forward_stack [OF ok f] unfolding r_def by blast
  have ae: "c_at_end c \<Longrightarrow> r = []"
    using ok by (cases "c_stack c") (auto simp: r_def pending_def cursor_rest_def cursor_ok_def)
  let ?ds = "if c_stack c = [] then True else c_did_seek c"
  let ?c' = "c\<lparr>c_stack := st', c_position := p, c_did_seek := ?ds,
             c_at_end := (if r \<noteq> [] then c_at_end c else st' = [])\<rparr>"
  have ds: "?ds" using ok by (auto simp: cursor_ok_def)
  have st': "st' = [] \<longleftrightarrow> r = []" using s(5) by (simp add: seek_post_def)
  have eq: "search_forward D f c = Some ?c'"
    unfolding search_forward_def s(1) Let_def using s(2) by (simp del: forward_loop.simps)
  have "cursor_ok I D ?c' \<and> can_seek ?c' \<and> cursor_rest ?c' = r"
  proof (cases "r = []")
    case True
    with st' s(3) ds ok show ?thesis
      by (auto simp: cursor_ok_def can_seek_def cursor_rest_def cursor_done_def)
  next
    case False
    with st' s(4,5) ds ok ae show ?thesis
      by (auto simp: cursor_ok_def can_seek_def cursor_rest_def cursor_done_def seek_post_def)
  qed
  with eq ds show ?thesis unfolding r_def [symmetric] by auto
qed

lemma cursor_next_correct:
  assumes "cursor_ok I D c"
  shows "\<exists>c'. cursor_next D c = Some c' \<and> cursor_ok I D c' \<and> can_seek c' \<and> c_did_seek c' \<and>
     c_tree c' = c_tree c \<and> cursor_rest c' = pending c"
proof -
  have "dropWhile (skipped I (\<lambda>_. True)) (pending c) = pending c" by (cases "pending c") simp_all
  then show ?thesis using search_forward_correct [OF assms node_filter_True] by (simp add: cursor_next_def)
qed

text \<open>Listing from a cursor at an item, and from a fresh one.\<close>

lemma collect_items_correct:
  "cursor_ok I D c \<Longrightarrow> can_seek c \<Longrightarrow> c_did_seek c \<Longrightarrow> collect_items D c = Some (cursor_rest c)"
proof (induction "length (cursor_rest c)" arbitrary: c rule: less_induct)
  case less
  note item = cursor_item_ok(1) [OF less.prems(1,3,2)]
  show ?case
  proof (cases "cursor_rest c")
    case Nil
    then show ?thesis using item by (subst collect_items.simps) simp
  next
    case (Cons x xs)
    then have p: "pending c = xs"
      using less.prems by (auto simp: pending_def cursor_rest_def can_seek_def split: if_splits)
    obtain c' where c': "cursor_next D c = Some c'" "cursor_ok I D c'" "can_seek c'" "c_did_seek c'"
      "cursor_rest c' = xs"
      using cursor_next_correct [OF less.prems(1)] p by auto
    with less.hyps [of c'] Cons item show ?thesis by (subst collect_items.simps) simp
  qed
qed

end

lemma unit_dim_laws: "summary_laws I \<Longrightarrow> dim_laws I unit_dim"
  by (simp add: dim_laws_def dim_laws_axioms_def unit_dim_def)

lemma items_wf:
  assumes "summary_laws I" and "wf_tree I t" and "height t < STACK_CAPACITY"
  shows "items t = Some (tree_items t)"
proof -
  note U = unit_dim_laws [OF assms(1)]
  note n = cursor_new_ok [OF assms(2,3), of unit_dim]
  have p: "pending (cursor_new unit_dim t) = tree_items t"
    using n by (simp add: pending_def cursor_new_def)
  obtain c where "cursor_next unit_dim (cursor_new unit_dim t) = Some c" "cursor_ok I unit_dim c"
    "can_seek c" "c_did_seek c" "cursor_rest c = tree_items t"
    using dim_laws.cursor_next_correct [OF U conjunct1 [OF n]] p by auto
  then show ?thesis
    using dim_laws.collect_items_correct [OF U, of c] by (simp add: items_def)
qed

end
