(* ===== verification/CursorBack.thy ===== *)
theory CursorBack
  imports CursorMove
begin

text \<open>
  The backward half of the cursor (\<open>search_backward\<close>, \<open>prev\<close>, \<open>prev_item\<close>, \<open>next_item\<close> in
  \<open>crates/sum_tree/src/cursor.rs\<close>), on the view of \<open>CursorSeek\<close>.
\<close>

subsection \<open>The loop of \<open>search_backward\<close>\<close>

text \<open>What is left of the items behind when those the filter refuses are dropped from the end.\<close>

definition drop_back :: "('t, 's) item_ops \<Rightarrow> ('s \<Rightarrow> bool) \<Rightarrow> 't list \<Rightarrow> 't list" where
  "drop_back I f xs = rev (dropWhile (skipped I f) (rev xs))"

lemma drop_back_Nil [simp]: "drop_back I f [] = []"
  by (simp add: drop_back_def)

lemma drop_back_skip: "\<forall>x \<in> set ys. skipped I f x \<Longrightarrow> drop_back I f (xs @ ys) = drop_back I f xs"
  by (simp add: drop_back_def dropWhile_append)

lemma drop_back_keep: "f (item_summary I x) \<Longrightarrow> drop_back I f (xs @ [x]) = xs @ [x]"
  by (simp add: drop_back_def)

lemma drop_back_True [simp]: "drop_back I (\<lambda>_. True) xs = xs"
  by (cases xs rule: rev_cases) (simp_all add: drop_back_def)

definition back_post ::
    "('t, 's) item_ops \<Rightarrow> ('d, 's) dim_ops \<Rightarrow> ('t, 's) sum_tree \<Rightarrow> ('t, 's, 'd) stack_entry list \<Rightarrow> 'd \<Rightarrow> 't list \<Rightarrow> bool" where
  "back_post I D tree st p b \<longleftrightarrow>
     (st = [] \<longleftrightarrow> b = []) \<and> stack_ok I tree 0 1 st \<and> stack_done 0 st = butlast b \<and>
     parents_at I D (tl st) \<and> p = pos_after I D (d_zero D) (butlast b)"

text \<open>The items \<open>prev\<close> searches: a cursor that never moved starts at the end.\<close>

definition behind :: "('t, 's, 'd) cursor \<Rightarrow> 't list" where
  "behind c = (if c_did_seek c then cursor_done c else tree_items (c_tree c))"

context dim_laws
begin

lemma backward_position:
  assumes "wf_node I k (e_tree e)" and "i \<le> length (child_summaries (e_tree e))"
  shows "foldl (d_add D) d (take i (child_summaries (e_tree e))) =
     pos_after I D d (entry_done 0 (e\<lparr>e_index := i, e_position := q\<rparr>))"
proof (cases "e_tree e")
  case (Leaf s its iss)
  then show ?thesis using assms
    by (simp add: entry_done_def pos_after_def take_map foldl_map)
next
  case (Internal h s css cts)
  have "foldl (d_add D) d (map summary cs) = pos_after I D d (concat (map tree_items cs))"
    if "\<forall>c \<in> set cs. wf_node I (k - 1) c" for cs d
    using that by (induction cs arbitrary: d) (simp_all add: node_end [of "k - Suc 0"])
  then show ?thesis using assms Internal by (auto simp: entry_done_def take_map dest: in_set_takeD)
qed

text \<open>One iteration past an entry that is not at its start.\<close>

lemma backward_entry:
  assumes ok: "stack_ok I tree k (if desc then 1 else 0) (e # stk)" and par: "parents_at I D stk"
    and nd: "\<not> (\<not> desc \<and> e_index e = 0)"
    and i: "i = (if desc then e_index e else e_index e - 1)"
    and q: "q = foldl (d_add D) (case stk of [] \<Rightarrow> d_zero D | p # _ \<Rightarrow> e_position p)
              (take i (child_summaries (e_tree e)))"
    and e1: "e1 = e\<lparr>e_index := i, e_position := q\<rparr>"
  shows "i < length (child_summaries (e_tree e))" and "stack_ok I tree k 1 (e1 # stk)"
    and "parents_at I D (e1 # stk)" and "q = pos_after I D (d_zero D) (stack_done 0 (e1 # stk))"
    and "stack_done (if desc then 1 else 0) (e # stk) = stack_done 1 (e1 # stk)"
proof -
  show il: "i < length (child_summaries (e_tree e))" using ok nd i by (cases desc) auto
  show "stack_ok I tree k 1 (e1 # stk)" by (rule stack_ok_index [OF ok]) (use il in \<open>simp_all add: e1\<close>)
  have "(case stk of [] \<Rightarrow> d_zero D | p # _ \<Rightarrow> e_position p) = pos_after I D (d_zero D) (stack_done 0 stk)"
    using par by (cases stk) auto
  then have "q = foldl (d_add D) (pos_after I D (d_zero D) (stack_done 0 stk)) (take i (child_summaries (e_tree e)))"
    unfolding q by (simp only:)
  also have "\<dots> = pos_after I D (pos_after I D (d_zero D) (stack_done 0 stk)) (entry_done 0 e1)"
    unfolding e1 by (rule backward_position) (use ok il in auto)
  finally show qd: "q = pos_after I D (d_zero D) (stack_done 0 (e1 # stk))" by simp
  then show "parents_at I D (e1 # stk)" using par by (simp add: e1)
  show "stack_done (if desc then 1 else 0) (e # stk) = stack_done 1 (e1 # stk)"
    using nd i by (cases desc) (auto simp: e1 entry_done_def split: sum_tree.split)
qed

lemma backward_loop_step:
  assumes "\<not> (\<not> desc \<and> e_index e = 0)"
    and "i = (if desc then e_index e else e_index e - 1)"
    and "q = foldl (d_add D) (case stk of [] \<Rightarrow> d_zero D | p # _ \<Rightarrow> e_position p)
              (take i (child_summaries (e_tree e)))"
    and "e1 = e\<lparr>e_index := i, e_position := q\<rparr>" and "i < length (child_summaries (e_tree e))"
  shows "e_tree e = Leaf s its iss \<Longrightarrow> backward_loop D f (e # stk) pos desc =
      (if f (iss ! i) then Some (e1 # stk, q) else backward_loop D f (e1 # stk) q False)"
    and "e_tree e = Internal h s css cts \<Longrightarrow> i < length cts \<Longrightarrow> child_summaries (cts ! i) \<noteq> [] \<Longrightarrow>
      Suc (length stk) < STACK_CAPACITY \<Longrightarrow> backward_loop D f (e # stk) pos desc =
      (if f (css ! i) then backward_loop D f (\<lparr>e_tree = cts ! i, e_index = length (child_summaries (cts ! i)) - 1,
          e_position = d_zero D\<rparr> # e1 # stk) q True
       else backward_loop D f (e1 # stk) q False)"
proof -
  note [simp del] = backward_loop.simps
  have u: "backward_loop D f (e # stk) pos desc =
      (case e_tree e of
                Internal h s _ cts \<Rightarrow>
                  if f (child_summaries (e_tree e) ! i) then (
                    case vec_get cts i of
                      None \<Rightarrow> None
                    | Some tree \<Rightarrow>
                        if child_summaries tree = [] then None
                        else case push_entry (e1 # stk)
                               \<lparr>e_tree = tree, e_index = length (child_summaries tree) - 1,
                                e_position = d_zero D\<rparr> of
                          None \<Rightarrow> None
                        | Some stack' \<Rightarrow> backward_loop D f stack' q True)
                  else backward_loop D f (e1 # stk) q False
              | Leaf s _ _ \<Rightarrow>
                  if f (child_summaries (e_tree e) ! i) then Some (e1 # stk, q)
                  else backward_loop D f (e1 # stk) q False)"
    by (subst backward_loop.simps(2), unfold Let_def, unfold assms(2) [symmetric], unfold assms(3) [symmetric],
        unfold assms(4) [symmetric]) (use assms(1,5) in \<open>simp only: if_False not_le [symmetric]\<close>)
  show "e_tree e = Leaf s its iss \<Longrightarrow> backward_loop D f (e # stk) pos desc =
      (if f (iss ! i) then Some (e1 # stk, q) else backward_loop D f (e1 # stk) q False)"
    unfolding u by simp
  show "e_tree e = Internal h s css cts \<Longrightarrow> i < length cts \<Longrightarrow> child_summaries (cts ! i) \<noteq> [] \<Longrightarrow>
      Suc (length stk) < STACK_CAPACITY \<Longrightarrow> backward_loop D f (e # stk) pos desc =
      (if f (css ! i) then backward_loop D f (\<lparr>e_tree = cts ! i, e_index = length (child_summaries (cts ! i)) - 1,
          e_position = d_zero D\<rparr> # e1 # stk) q True
       else backward_loop D f (e1 # stk) q False)"
    unfolding u by (simp add: push_entry_def)
qed

lemma backward_loop_correct:
  assumes "stack_ok I tree k (if desc then 1 else 0) st" and "parents_at I D (tl st)"
    and "st = [] \<Longrightarrow> pos = d_zero D" and "height tree < STACK_CAPACITY" and "node_filter I f"
  shows "\<exists>st' p. backward_loop D f st pos desc = Some (st', p) \<and>
     back_post I D tree st' p (drop_back I f (stack_done (if desc then 1 else 0) st))"
  using assms(1-3)
proof (induction "backward_stack_weight desc st" arbitrary: desc st pos k rule: less_induct)
  case less
  let ?j = "if desc then 1 else 0 :: nat"
  show ?case
  proof (cases st)
    case Nil
    then show ?thesis using less.prems by (simp add: back_post_def)
  next
    case (Cons e stk)
    have ok: "stack_ok I tree k ?j (e # stk)" and par: "parents_at I D stk" using less.prems Cons by simp_all
    let ?p0 = "case stk of [] \<Rightarrow> d_zero D | p # _ \<Rightarrow> e_position p"
    show ?thesis
    proof (cases "\<not> desc \<and> e_index e = 0")
      case True
      have ok': "stack_ok I tree (k + 1) (if False then 1 else 0) stk" "parents_at I D (tl stk)"
        "stk = [] \<Longrightarrow> ?p0 = d_zero D"
        using ok par stack_ok_weaken [of I tree "k + 1" stk] by (simp, cases stk, simp_all)
      have "backward_stack_weight False stk < backward_stack_weight desc st"
        unfolding Cons by (rule backward_weight_pop)
      note IH = less.hyps [OF this ok']
      have "stack_done 0 (e # stk) = stack_done 0 stk"
        using True by (simp add: entry_done_def split: sum_tree.split)
      with IH True show ?thesis by (simp add: Cons del: stack_done.simps)
    next
      case False
      define i where "i = (if desc then e_index e else e_index e - 1)"
      define q where "q = foldl (d_add D) ?p0 (take i (child_summaries (e_tree e)))"
      define e1 where "e1 = e\<lparr>e_index := i, e_position := q\<rparr>"
      note b = backward_entry [OF ok par False i_def q_def e1_def]
      have sm: "e_tree e1 = e_tree e" "e_index e1 = i" by (simp_all add: e1_def)
      have wf: "wf_node I k (e_tree e)" using ok by simp
      have w1: "backward_stack_weight False (e1 # stk) < backward_stack_weight desc st"
        using backward_weight_left [OF False] by (simp add: Cons e1_def i_def del: backward_stack_weight.simps)
      have ok0: "stack_ok I tree k (if False then 1 else 0) (e1 # stk)" using stack_ok_weaken [OF b(2)] by simp
      note IH1 = less.hyps [OF w1 ok0, of q]
      show ?thesis
      proof (cases "e_tree e")
        case (Leaf s its iss)
        then have iss: "iss = map (item_summary I) its" "i < length its" using wf b(1) by simp_all
        have dn: "stack_done 1 (e1 # stk) = stack_done 0 (e1 # stk) @ [its ! i]"
          using iss(2) by (simp add: entry_done_def sm Leaf take_Suc_conv_app_nth)
        have step: "backward_loop D f st pos desc =
            (if f (item_summary I (its ! i)) then Some (e1 # stk, q) else backward_loop D f (e1 # stk) q False)"
          using backward_loop_step(1) [OF False i_def q_def e1_def b(1) Leaf] iss
          by (simp add: Cons del: backward_loop.simps)
        show ?thesis
        proof (cases "f (item_summary I (its ! i))")
          case True
          have k: "k = 0" using wf Leaf by simp
          have "back_post I D tree (e1 # stk) q (stack_done 0 (e1 # stk) @ [its ! i])"
            using b(2,4) k par by (simp add: back_post_def del: stack_ok.simps stack_done.simps)
          with step True b(5) dn show ?thesis
            by (simp add: Cons drop_back_keep del: stack_done.simps backward_loop.simps)
        next
          case nf: False
          with IH1 par step b(5) dn show ?thesis
            by (simp add: Cons drop_back_skip del: stack_done.simps backward_loop.simps)
        qed
      next
        case (Internal h s css cts)
        have k: "0 < k" using wf Internal by simp
        have cs: "css = map summary cts" "i < length cts" using wf Internal b(1) by auto
        have il: "e_index e1 < length (child_summaries (e_tree e1))" using b(1) sm by simp
        have wf1: "wf_node I k (e_tree e1)" using wf sm by simp
        have ca: "child_at e1 = cts ! i" by (simp add: child_at_def sm Internal)
        note ch = entry_rest_child [OF wf1 k il, unfolded ca]
        have dn: "stack_done 1 (e1 # stk) = stack_done 0 (e1 # stk) @ tree_items (cts ! i)"
          using ch(2) by simp
        have ne: "child_summaries (cts ! i) \<noteq> []" using ch(3) by (cases "cts ! i") auto
        let ?e2 = "\<lparr>e_tree = cts ! i, e_index = length (child_summaries (cts ! i)) - 1, e_position = d_zero D\<rparr>"
        have cap: "Suc (length stk) < STACK_CAPACITY" using stack_ok_height [OF ok] assms(4) k by simp
        have step: "backward_loop D f st pos desc =
            (if f (summary (cts ! i)) then backward_loop D f (?e2 # e1 # stk) q True
             else backward_loop D f (e1 # stk) q False)"
          using backward_loop_step(2) [OF False i_def q_def e1_def b(1) Internal cs(2) ne cap] cs
          by (simp add: Cons del: backward_loop.simps)
        show ?thesis
        proof (cases "f (summary (cts ! i))")
          case True
          have ok2: "stack_ok I tree (k - 1) (if True then 1 else 0) (?e2 # e1 # stk)"
            using b(2) ch(3) k ne ca by (simp add: Suc_le_eq)
          have w2: "backward_stack_weight True (?e2 # e1 # stk) < backward_stack_weight desc st"
            unfolding Cons e1_def
            by (rule backward_weight_descend [OF False Internal i_def]) (use cs ne in simp_all)
          have "entry_done 1 ?e2 = tree_items (cts ! i)"
            using ch(3) ne by (cases "cts ! i") (auto simp: entry_done_def)
          then have "stack_done 1 (?e2 # e1 # stk) = stack_done 1 (e1 # stk)" using dn by simp
          with less.hyps [OF w2 ok2, of q] True step b(3,5) show ?thesis
            by (simp add: Cons del: stack_done.simps backward_loop.simps)
        next
          case nf: False
          have "\<forall>x \<in> set (tree_items (cts ! i)). skipped I f x"
            using assms(5) ch(3) nf by (auto simp: node_filter_def)
          with IH1 par step b(5) dn nf show ?thesis
            by (simp add: Cons drop_back_skip del: stack_done.simps backward_loop.simps)
        qed
      qed
    qed
  qed
qed

lemma search_backward_correct:
  assumes ok: "cursor_ok I D c" and f: "node_filter I f"
  shows "\<exists>c'. search_backward D f c = Some c' \<and> cursor_ok I D c' \<and> c_did_seek c' \<and> c_tree c' = c_tree c \<and>
     cursor_done c' = butlast (drop_back I f (behind c)) \<and>
     (can_seek c' \<longleftrightarrow> drop_back I f (behind c) \<noteq> [] \<or> tree_items (c_tree c) = [])"
proof -
  define b where "b = drop_back I f (behind c)"
  let ?t = "c_tree c"
  have h: "height ?t < STACK_CAPACITY" and wf: "wf_tree I ?t" using ok by (simp_all add: cursor_ok_def)
  have emp: "is_empty ?t \<longleftrightarrow> tree_items ?t = []" using wf by (rule wf_tree_is_empty)
  define at_end where "at_end = (if c_did_seek c then c_at_end c else True)"
  define st where "st = (if at_end \<and> \<not> is_empty ?t then [\<lparr>e_tree = ?t, e_index = length (child_summaries ?t),
                     e_position = from_summary_dim D (summary ?t)\<rparr>] else c_stack c)"
  define pos where "pos = (if at_end then d_zero D else c_position c)"
  have stk: "at_end \<Longrightarrow> c_stack c = []" using ok by (auto simp: at_end_def cursor_ok_def)
  have stkE: "at_end \<Longrightarrow> is_empty ?t \<Longrightarrow> st = []" by (simp add: st_def stk)
  have push: "(if at_end \<and> \<not> is_empty ?t
      then push_entry (c_stack c) \<lparr>e_tree = ?t, e_index = length (child_summaries ?t),
             e_position = from_summary_dim D (summary ?t)\<rparr> else Some (c_stack c)) = Some st"
    using stk by (simp add: st_def push_entry_def STACK_CAPACITY_def)
  consider (at_back) "at_end" "\<not> is_empty ?t" | (none) "at_end" "is_empty ?t" | (front) "\<not> at_end" "c_stack c = []"
    | (mid) "\<not> at_end" "c_stack c \<noteq> []" by blast
  then have "\<exists>k. stack_ok I ?t k (if False then 1 else 0) st \<and> parents_at I D (tl st) \<and>
    (st = [] \<longrightarrow> pos = d_zero D) \<and> stack_done 0 st = behind c \<and>
    ((if at_end then is_empty ?t else False) \<longleftrightarrow> is_empty ?t)"
  proof cases
    case at_back
    then have "wf_node I (height ?t) ?t" using wf emp wf_tree_nonempty by blast
    moreover from this have "entry_done 0 \<lparr>e_tree = ?t, e_index = length (child_summaries ?t),
             e_position = from_summary_dim D (summary ?t)\<rparr> = tree_items ?t"
      by (cases ?t) (simp_all add: entry_done_def)
    moreover have "behind c = tree_items ?t"
      using at_back stk by (simp add: behind_def cursor_done_def at_end_def split: if_splits)
    ultimately show ?thesis using at_back by (intro exI [of _ "height ?t"]) (simp add: st_def)
  next
    case none
    then show ?thesis using emp stk by (simp add: st_def pos_def behind_def cursor_done_def)
  next
    case front
    then have "c_did_seek c" "\<not> c_at_end c" by (auto simp: at_end_def split: if_splits)
    then show ?thesis using front ok emp
      by (simp add: st_def pos_def behind_def cursor_done_def cursor_ok_def)
  next
    case mid
    then have m: "c_did_seek c" "stack_ok I ?t 0 1 (c_stack c)" "parents_at I D (tl (c_stack c))"
      using ok by (auto simp: cursor_ok_def)
    obtain e r where er: "c_stack c = e # r" using mid(2) by (cases "c_stack c") auto
    have "tree_items ?t \<noteq> []"
      using cursor_done_rest [OF ok] m(2) stack_top_leaf [of I ?t e r "tree_items ?t \<noteq> []"]
      by (auto simp: er cursor_rest_def simp del: stack_ok.simps stack_rest.simps)
    with m mid emp stack_ok_weaken [OF m(2)] show ?thesis
      by (intro exI [of _ 0]) (simp add: st_def behind_def cursor_done_def del: stack_ok.simps)
  qed
  then obtain k where pre: "stack_ok I ?t k (if False then 1 else 0) st" "parents_at I D (tl st)"
    "st = [] \<Longrightarrow> pos = d_zero D" "stack_done 0 st = behind c"
    and ae: "(if at_end then is_empty ?t else False) \<longleftrightarrow> is_empty ?t" by blast
  obtain st' p where l: "backward_loop D f st pos False = Some (st', p)" "back_post I D ?t st' p b"
    using backward_loop_correct [OF pre(1,2,3) h f] pre(4) unfolding b_def by auto
  let ?c' = "c\<lparr>c_stack := st', c_position := p, c_did_seek := True, c_at_end := (if at_end then is_empty ?t else False)\<rparr>"
  have eq: "search_backward D f c = Some ?c'"
    unfolding search_backward_def Let_def at_end_def [symmetric] push pos_def [symmetric]
    using l(1) by (simp del: backward_loop.simps)
  have "b = [] \<or> \<not> is_empty ?t"
    using emp ok cursor_done_rest [OF ok] by (auto simp: b_def behind_def)
  then have "cursor_ok I D ?c' \<and> cursor_done ?c' = butlast b \<and> (can_seek ?c' \<longleftrightarrow> b \<noteq> [] \<or> tree_items ?t = [])"
    using l(2) wf h emp ae
    by (auto simp: cursor_ok_def cursor_done_def can_seek_def back_post_def simp del: stack_ok.simps)
  with eq show ?thesis unfolding b_def [symmetric] by auto
qed

lemma cursor_prev_correct:
  assumes "cursor_ok I D c"
  shows "\<exists>c'. cursor_prev D c = Some c' \<and> cursor_ok I D c' \<and> c_did_seek c' \<and> c_tree c' = c_tree c \<and>
     cursor_done c' = butlast (behind c) \<and> (can_seek c' \<longleftrightarrow> behind c \<noteq> [] \<or> tree_items (c_tree c) = [])"
  using search_backward_correct [OF assms node_filter_True] by (simp add: cursor_prev_def)

end

subsection \<open>The items next to the cursor\<close>

lemma next_leaf_ok:
  assumes "stack_ok I tree k 1 st" and "0 < k"
  shows "if stack_rest 1 st = [] then next_leaf st = Some None
     else \<exists>s its iss. next_leaf st = Some (Some (Leaf s its iss)) \<and> its \<noteq> [] \<and> hd its = hd (stack_rest 1 st)"
  using assms
proof (induction st arbitrary: k)
  case (Cons e st)
  obtain s cts where e: "e_tree e = Internal k s (map summary cts) cts"
    using wf_node_Internal [of I k "e_tree e"] Cons.prems by auto
  have i: "e_index e < length cts" and wf: "\<forall>c \<in> set cts. wf_node I (k - 1) c" and ne: "cts \<noteq> []"
    using Cons.prems by (auto simp: e)
  show ?case
  proof (cases "e_index e < length cts - 1")
    case True
    let ?c = "cts ! (e_index e + 1)"
    have "drop (Suc (e_index e)) cts = ?c # drop (Suc (Suc (e_index e))) cts"
      using True by (simp add: Cons_nth_drop_Suc)
    then have r: "stack_rest 1 (e # st) = tree_items ?c @ concat (map tree_items (drop (Suc (Suc (e_index e))) cts)) @ stack_rest 1 st"
      by (simp add: entry_rest_def e)
    have c: "wf_node I (k - 1) ?c" using wf True by simp
    obtain s' its iss where "leftmost_leaf ?c = Some (Leaf s' its iss)" "its \<noteq> []" "hd its = hd (tree_items ?c)"
      using ends_wf [OF c] by blast
    then show ?thesis
      unfolding r using True ne wf_node_items_ne [OF c] by (simp add: e hd_append)
  next
    case False
    then have "drop (Suc (e_index e)) cts = []" using i by simp
    then have r: "stack_rest 1 (e # st) = stack_rest 1 st" by (simp add: entry_rest_def e)
    have l: "next_leaf (e # st) = next_leaf st" using False ne by (simp add: e)
    have "stack_ok I tree (k + 1) 1 st" using Cons.prems by simp
    then show ?thesis unfolding r l by (rule Cons.IH) simp
  qed
qed simp

lemma prev_leaf_ok:
  assumes "stack_ok I tree k 1 st" and "0 < k"
  shows "if stack_done 0 st = [] then prev_leaf st = Some None
     else \<exists>s its iss. prev_leaf st = Some (Some (Leaf s its iss)) \<and> its \<noteq> [] \<and> last its = last (stack_done 0 st)"
  using assms
proof (induction st arbitrary: k)
  case (Cons e st)
  obtain s cts where e: "e_tree e = Internal k s (map summary cts) cts"
    using wf_node_Internal [of I k "e_tree e"] Cons.prems by auto
  have i: "e_index e < length cts" and wf: "\<forall>c \<in> set cts. wf_node I (k - 1) c"
    using Cons.prems by (auto simp: e)
  show ?case
  proof (cases "e_index e = 0")
    case False
    let ?c = "cts ! (e_index e - 1)"
    have "take (e_index e) cts = take (e_index e - 1) cts @ [?c]"
      using False i by (metis Suc_diff_1 Suc_lessD neq0_conv take_Suc_conv_app_nth)
    then have r: "stack_done 0 (e # st) = stack_done 0 st @ concat (map tree_items (take (e_index e - 1) cts)) @ tree_items ?c"
      by (simp add: entry_done_def e)
    have c: "wf_node I (k - 1) ?c" using wf i by simp
    obtain s' its iss where "rightmost_leaf ?c = Some (Leaf s' its iss)" "its \<noteq> []" "last its = last (tree_items ?c)"
      using ends_wf [OF c] by blast
    then show ?thesis
      unfolding r using False i wf_node_items_ne [OF c] by (simp add: e last_append)
  next
    case True
    then have r: "stack_done 0 (e # st) = stack_done 0 st" by (simp add: entry_done_def e)
    have l: "prev_leaf (e # st) = prev_leaf st" using True by simp
    have "stack_ok I tree (k + 1) 1 st" using Cons.prems by simp
    then show ?thesis unfolding r l by (rule Cons.IH) simp
  qed
qed simp

lemma next_item_ok:
  assumes "cursor_ok I D c" and "c_did_seek c"
  shows "next_item c = Some (vec_first (pending c))"
proof (cases "c_stack c")
  case Nil
  have "first (c_tree c) = Some (vec_first (tree_items (c_tree c)))"
    using assms(1) first_correct by (auto simp: cursor_ok_def)
  with Nil show ?thesis using assms(2) by (simp add: next_item_def pending_def cursor_rest_def)
next
  case (Cons e st)
  have ok: "stack_ok I (c_tree c) 0 1 (e # st)" using assms(1) Cons by (simp add: cursor_ok_def)
  obtain s its where e: "e_tree e = Leaf s its (map (item_summary I) its)" "e_index e < length its"
    "stack_rest 0 (e # st) = its ! e_index e # stack_rest 1 (e # st)"
    using stack_top_leaf [OF ok] .
  have p: "pending c = drop (Suc (e_index e)) its @ stack_rest 1 st"
    using e(3) Cons by (simp add: pending_def cursor_rest_def entry_rest_def e(1))
  have ne: "its \<noteq> []" using e(2) by auto
  show ?thesis
  proof (cases "e_index e = length its - 1")
    case True
    then have "pending c = stack_rest 1 st" using p by simp
    moreover have "stack_ok I (c_tree c) 1 1 st" using ok by simp
    ultimately show ?thesis
      using next_leaf_ok [of I "c_tree c" 1 st] True ne
      by (cases "stack_rest (Suc 0) st") (auto simp: next_item_def Cons assms(2) e(1) vec_first_def split: list.splits)
  next
    case False
    then have i: "Suc (e_index e) < length its" using e(2) by simp
    then have "drop (Suc (e_index e)) its = its ! Suc (e_index e) # drop (Suc (Suc (e_index e))) its"
      by (simp add: Cons_nth_drop_Suc)
    with i False ne show ?thesis unfolding p by (simp add: next_item_def Cons assms(2) e(1))
  qed
qed

lemma prev_item_ok:
  assumes "cursor_ok I D c" and "c_did_seek c"
  shows "prev_item c = Some (vec_last (cursor_done c))"
proof (cases "c_stack c")
  case Nil
  have "last_item (c_tree c) = Some (vec_last (tree_items (c_tree c)))"
    using assms(1) last_correct by (auto simp: cursor_ok_def)
  with Nil show ?thesis using assms(2) by (simp add: prev_item_def cursor_done_def)
next
  case (Cons e st)
  have ok: "stack_ok I (c_tree c) 0 1 (e # st)" using assms(1) Cons by (simp add: cursor_ok_def)
  obtain s its where e: "e_tree e = Leaf s its (map (item_summary I) its)" "e_index e < length its"
    using stack_top_leaf [OF ok] .
  have p: "cursor_done c = stack_done 0 st @ take (e_index e) its"
    using Cons by (simp add: cursor_done_def entry_done_def e(1))
  show ?thesis
  proof (cases "e_index e = 0")
    case True
    moreover have "stack_ok I (c_tree c) 1 1 st" using ok by simp
    ultimately show ?thesis
      using prev_leaf_ok [of I "c_tree c" 1 st] p
      by (cases "stack_done 0 st = []") (auto simp: prev_item_def Cons assms(2))
  next
    case False
    then have "take (e_index e) its = take (e_index e - 1) its @ [its ! (e_index e - 1)]"
      using e(2) by (metis Suc_diff_1 Suc_lessD neq0_conv take_Suc_conv_app_nth)
    with False e(2) show ?thesis unfolding p by (simp add: prev_item_def Cons assms(2) e(1))
  qed
qed

text \<open>A cursor that \<open>prev\<close> moved in front of the first item cannot seek: the stack is empty, so the
  loop of \<open>seek_internal\<close> ends at once and marks the cursor as at the end.\<close>

lemma suffix_before_start:
  assumes "cursor_ok I D c" and "\<not> can_seek c"
  shows "\<exists>c'. suffix I D c = Some (c', new I) \<and> c_at_end c' \<and> c_position c' = d_zero D"
    and "cursor_rest c = tree_items (c_tree c)" and "tree_items (c_tree c) \<noteq> []"
  using assms
  by (auto simp: can_seek_def cursor_ok_def cursor_done_def cursor_rest_def suffix_def slice_def
      seek_internal_def end_target_def slice_agg_new_def)

end
