(* ===== verification/Keyed.thy ===== *)
theory Keyed
  imports CursorBack "HOL-Library.Multiset"
begin

text \<open>
  The operations on trees of keyed items (\<open>impl SumTree<T: KeyedItem>\<close> in
  \<open>crates/sum_tree/src/sum_tree.rs\<close>): \<open>insert_or_replace\<close>, \<open>remove\<close>, \<open>edit\<close>, \<open>get\<close>, built
  from a cursor, its slices and its suffix. The key of an item is an argument, and the contract of
  a keyed item (measuring an item gives its key) is the locale \<open>keyed_laws\<close>, inside which the
  operations are shown to implement a finite map.
\<close>

subsection \<open>The operations\<close>

text \<open>\<open>SeekTarget\<close> for a dimension that is ordered: the comparison with it.\<close>

definition key_target :: "'k::linorder \<Rightarrow> 'k seek_target" where
  "key_target k = (\<lambda>d. cmp k d)"

definition insert_or_replace ::
    "('t, 's) item_ops \<Rightarrow> ('k::linorder, 's) dim_ops \<Rightarrow> ('t \<Rightarrow> 'k) \<Rightarrow> ('t, 's) sum_tree \<Rightarrow> 't \<Rightarrow>
      (('t, 's) sum_tree \<times> 't option) option" where
  "insert_or_replace I D key self item = do {
     (cursor, new_tree) \<leftarrow> slice I D (cursor_new D self) (key_target (key item)) Left;
     it \<leftarrow> cursor_item cursor;
     (replaced, cursor) \<leftarrow> (case it of
         Some at \<Rightarrow>
           if key at = key item then do {
             cursor \<leftarrow> cursor_next D cursor;
             Some (Some at, cursor)
           } else Some (None, cursor)
       | None \<Rightarrow> Some (None, cursor));
     new_tree \<leftarrow> push I new_tree item;
     (_, suf) \<leftarrow> suffix I D cursor;
     new_tree \<leftarrow> append_tree I new_tree suf;
     Some (new_tree, replaced)
   }"

definition remove ::
    "('t, 's) item_ops \<Rightarrow> ('k::linorder, 's) dim_ops \<Rightarrow> ('t \<Rightarrow> 'k) \<Rightarrow> ('t, 's) sum_tree \<Rightarrow> 'k \<Rightarrow>
      (('t, 's) sum_tree \<times> 't option) option" where
  "remove I D key self k = do {
     (cursor, new_tree) \<leftarrow> slice I D (cursor_new D self) (key_target k) Left;
     it \<leftarrow> cursor_item cursor;
     (removed, cursor) \<leftarrow> (case it of
         Some item \<Rightarrow>
           if key item = k then do {
             cursor \<leftarrow> cursor_next D cursor;
             Some (Some item, cursor)
           } else Some (None, cursor)
       | None \<Rightarrow> Some (None, cursor));
     (_, suf) \<leftarrow> suffix I D cursor;
     new_tree \<leftarrow> append_tree I new_tree suf;
     Some (new_tree, removed)
   }"

datatype ('t, 'k) edit = Insert 't | Remove 'k

fun edit_key :: "('t \<Rightarrow> 'k) \<Rightarrow> ('t, 'k) edit \<Rightarrow> 'k" where
  "edit_key key (Insert item) = key item"
| "edit_key key (Remove k) = k"

text \<open>\<open>edit\<close> after its sort: the loop over the edits carries the new tree, the buffered insertions,
  the cursor and the removed items.\<close>

record ('t, 's, 'd) edit_state =
  es_tree :: "('t, 's) sum_tree"
  es_buffered :: "'t list"
  es_cursor :: "('t, 's, 'd) cursor"
  es_removed :: "'t list"

definition edit_step ::
    "('t, 's) item_ops \<Rightarrow> ('k::linorder, 's) dim_ops \<Rightarrow> ('t \<Rightarrow> 'k) \<Rightarrow> ('t, 's, 'k) edit_state \<Rightarrow> ('t, 'k) edit \<Rightarrow>
      ('t, 's, 'k) edit_state option" where
  "edit_step I D key st ed = do {
     let new_key = edit_key key ed;
     old_item \<leftarrow> cursor_item (es_cursor st);
     (st, old_item) \<leftarrow> (case old_item of
         Some old \<Rightarrow>
           if key old < new_key then do {
             new_tree \<leftarrow> SumTree.extend I (es_tree st) (es_buffered st);
             (cursor, sl) \<leftarrow> slice I D (es_cursor st) (key_target new_key) Left;
             new_tree \<leftarrow> append_tree I new_tree sl;
             old_item \<leftarrow> cursor_item cursor;
             Some (st\<lparr>es_tree := new_tree, es_buffered := [], es_cursor := cursor\<rparr>, old_item)
           } else Some (st, old_item)
       | None \<Rightarrow> Some (st, old_item));
     st \<leftarrow> (case old_item of
         Some old \<Rightarrow>
           if key old = new_key then do {
             cursor \<leftarrow> cursor_next D (es_cursor st);
             Some (st\<lparr>es_cursor := cursor, es_removed := es_removed st @ [old]\<rparr>)
           } else Some st
       | None \<Rightarrow> Some st);
     Some (case ed of
         Insert item \<Rightarrow> st\<lparr>es_buffered := es_buffered st @ [item]\<rparr>
       | Remove _ \<Rightarrow> st)
   }"

fun edit_loop ::
    "('t, 's) item_ops \<Rightarrow> ('k::linorder, 's) dim_ops \<Rightarrow> ('t \<Rightarrow> 'k) \<Rightarrow> ('t, 's, 'k) edit_state \<Rightarrow> ('t, 'k) edit list \<Rightarrow>
      ('t, 's, 'k) edit_state option" where
  "edit_loop I D key st [] = Some st"
| "edit_loop I D key st (ed # eds) = do { st \<leftarrow> edit_step I D key st ed; edit_loop I D key st eds }"

definition edit_sorted ::
    "('t, 's) item_ops \<Rightarrow> ('k::linorder, 's) dim_ops \<Rightarrow> ('t \<Rightarrow> 'k) \<Rightarrow> ('t, 's) sum_tree \<Rightarrow> ('t, 'k) edit list \<Rightarrow>
      (('t, 's) sum_tree \<times> 't list) option" where
  "edit_sorted I D key self eds =
     (if eds = [] then Some (self, [])
      else do {
        (cursor, _) \<leftarrow> seek D (cursor_new D self) (key_target (d_zero D)) Left;
        st \<leftarrow> edit_loop I D key
               \<lparr>es_tree = new I, es_buffered = [], es_cursor = cursor, es_removed = []\<rparr> eds;
        new_tree \<leftarrow> SumTree.extend I (es_tree st) (es_buffered st);
        (_, suf) \<leftarrow> suffix I D (es_cursor st);
        new_tree \<leftarrow> append_tree I new_tree suf;
        Some (new_tree, es_removed st)
      })"

text \<open>\<open>sort_unstable_by_key\<close> promises a sorted permutation and nothing about equal keys: \<open>edit\<close> is a
  relation, with one outcome for every such permutation.\<close>

definition sorted_edits :: "('t \<Rightarrow> 'k::linorder) \<Rightarrow> ('t, 'k) edit list \<Rightarrow> ('t, 'k) edit list \<Rightarrow> bool" where
  "sorted_edits key eds eds' \<longleftrightarrow> mset eds' = mset eds \<and> sorted (map (edit_key key) eds')"

definition edits ::
    "('t, 's) item_ops \<Rightarrow> ('k::linorder, 's) dim_ops \<Rightarrow> ('t \<Rightarrow> 'k) \<Rightarrow> ('t, 's) sum_tree \<Rightarrow> ('t, 'k) edit list \<Rightarrow>
      (('t, 's) sum_tree \<times> 't list) option \<Rightarrow> bool" where
  "edits I D key self eds res \<longleftrightarrow> (\<exists>eds'. sorted_edits key eds eds' \<and> res = edit_sorted I D key self eds')"

definition get :: "('k::linorder, 's) dim_ops \<Rightarrow> ('t, 's) sum_tree \<Rightarrow> 'k \<Rightarrow> 't option" where
  "get D self k = (case find_exact D self (key_target k) Left of (_, _, Some item) \<Rightarrow> Some item | _ \<Rightarrow> None)"

subsection \<open>The map a tree represents\<close>

definition sorted_keys :: "('t \<Rightarrow> 'k::linorder) \<Rightarrow> 't list \<Rightarrow> bool" where
  "sorted_keys key xs \<longleftrightarrow> sorted_wrt (\<lambda>x y. key x < key y) xs"

definition keyed_map :: "('t \<Rightarrow> 'k) \<Rightarrow> 't list \<Rightarrow> 'k \<rightharpoonup> 't" where
  "keyed_map key xs = map_of (map (\<lambda>x. (key x, x)) xs)"

lemma keyed_map_simps [simp]:
  "keyed_map key [] = Map.empty"
  "keyed_map key (x # xs) = (keyed_map key xs)(key x \<mapsto> x)"
  "keyed_map key (xs @ ys) = keyed_map key ys ++ keyed_map key xs"
  by (auto simp: keyed_map_def fun_eq_iff)

lemma keyed_map_None: "keyed_map key xs k = None \<longleftrightarrow> (\<forall>x \<in> set xs. key x \<noteq> k)"
  by (auto simp: keyed_map_def map_of_eq_None_iff image_iff)

lemma keyed_map_SomeD: "keyed_map key xs k = Some x \<Longrightarrow> x \<in> set xs \<and> key x = k"
  by (auto simp: keyed_map_def dest: map_of_SomeD)

lemma sorted_keys_simps [simp]:
  "sorted_keys key []"
  "sorted_keys key (x # xs) \<longleftrightarrow> (\<forall>y \<in> set xs. key x < key y) \<and> sorted_keys key xs"
  "sorted_keys key (xs @ ys) \<longleftrightarrow> sorted_keys key xs \<and> sorted_keys key ys \<and> (\<forall>x \<in> set xs. \<forall>y \<in> set ys. key x < key y)"
  by (auto simp: sorted_keys_def sorted_wrt_append)

definition below :: "('t \<Rightarrow> 'k::linorder) \<Rightarrow> 'k \<Rightarrow> 't list \<Rightarrow> 't list" where
  "below key k xs = takeWhile (\<lambda>x. key x < k) xs"

definition from_key :: "('t \<Rightarrow> 'k::linorder) \<Rightarrow> 'k \<Rightarrow> 't list \<Rightarrow> 't list" where
  "from_key key k xs = dropWhile (\<lambda>x. key x < k) xs"

definition above :: "('t \<Rightarrow> 'k::linorder) \<Rightarrow> 'k \<Rightarrow> 't list \<Rightarrow> 't list" where
  "above key k xs = (case from_key key k xs of x # ys \<Rightarrow> if key x = k then ys else x # ys | [] \<Rightarrow> [])"

lemma below_from_key: "below key k xs @ from_key key k xs = xs"
  by (simp add: below_def from_key_def)

lemma below_less: "x \<in> set (below key k xs) \<Longrightarrow> key x < k"
  by (auto simp: below_def dest: set_takeWhileD)

lemma sorted_from_key: "sorted_keys key xs \<Longrightarrow> sorted_keys key (from_key key k xs)"
  by (metis below_from_key sorted_keys_simps(3))

lemma from_key_ge: "sorted_keys key xs \<Longrightarrow> x \<in> set (from_key key k xs) \<Longrightarrow> k \<le> key x"
  by (induction xs) (auto simp: from_key_def split: if_splits)

lemma above_props:
  assumes "sorted_keys key xs"
  shows "sorted_keys key (above key k xs)" and "x \<in> set (above key k xs) \<Longrightarrow> k < key x"
    and "keyed_map key xs k = (case from_key key k xs of y # ys \<Rightarrow> if key y = k then Some y else None | [] \<Rightarrow> None)"
    and "xs = below key k xs @ (case keyed_map key xs k of None \<Rightarrow> [] | Some y \<Rightarrow> [y]) @ above key k xs"
proof -
  note s = sorted_from_key [OF assms, of k] and ge = from_key_ge [OF assms, of _ k]
  show "sorted_keys key (above key k xs)"
    using s by (cases "from_key key k xs") (auto simp: above_def)
  show "k < key x" if "x \<in> set (above key k xs)"
    using that s ge [of x] ge [of "hd (from_key key k xs)"]
    by (cases "from_key key k xs") (force simp: above_def split: if_splits)+
  have none: "keyed_map key (below key k xs) k = None"
    by (auto simp: keyed_map_None dest: below_less)
  have "keyed_map key xs k = keyed_map key (from_key key k xs) k"
    using none by (subst below_from_key [symmetric, of xs key k]) (auto simp: map_add_def split: option.splits)
  also have "\<dots> = (case from_key key k xs of y # ys \<Rightarrow> if key y = k then Some y else None | [] \<Rightarrow> None)"
  proof (cases "from_key key k xs")
    case (Cons y ys)
    have "keyed_map key ys k = None" if "key y \<noteq> k"
      using that s ge [of y] Cons by (auto simp: keyed_map_None)
    then show ?thesis by (simp add: Cons)
  qed simp
  finally show m: "keyed_map key xs k =
      (case from_key key k xs of y # ys \<Rightarrow> if key y = k then Some y else None | [] \<Rightarrow> None)" .
  show "xs = below key k xs @ (case keyed_map key xs k of None \<Rightarrow> [] | Some y \<Rightarrow> [y]) @ above key k xs"
    unfolding m using below_from_key [of key k xs]
    by (cases "from_key key k xs") (auto simp: above_def)
qed

lemma keyed_map_below: "k \<le> k' \<Longrightarrow> keyed_map key (below key k xs) k' = None"
  by (auto simp: keyed_map_None dest: below_less)

lemma keyed_map_split:
  assumes "sorted_keys key xs"
  shows "keyed_map key (below key k xs @ above key k xs) = (keyed_map key xs)(k := None)"
    and "key x = k \<Longrightarrow> keyed_map key (below key k xs @ x # above key k xs) = (keyed_map key xs)(k \<mapsto> x)"
proof -
  note p = above_props [OF assms, where k = k]
  have a: "keyed_map key (above key k xs) k = None" and b: "keyed_map key (below key k xs) k = None"
    using p(2) by (auto simp: keyed_map_None dest: below_less)
  have x: "keyed_map key xs = keyed_map key (below key k xs @ (case keyed_map key xs k of None \<Rightarrow> [] | Some y \<Rightarrow> [y]) @ above key k xs)"
    using p(4) by simp
  have o: "keyed_map key xs k' = keyed_map key (below key k xs @ above key k xs) k'" if "k' \<noteq> k" for k'
    using that by (subst x) (auto simp: map_add_def dest!: keyed_map_SomeD split: option.splits)
  show 1: "keyed_map key (below key k xs @ above key k xs) = (keyed_map key xs)(k := None)"
    using a b by (rule_tac ext) (auto simp: o map_add_def)
  show "key x = k \<Longrightarrow> keyed_map key (below key k xs @ x # above key k xs) = (keyed_map key xs)(k \<mapsto> x)"
    using a b by (rule_tac ext) (auto simp: o map_add_def split: option.split)
qed

lemma sorted_split:
  assumes "sorted_keys key xs"
  shows "sorted_keys key (below key k xs @ above key k xs)"
    and "key x = k \<Longrightarrow> sorted_keys key (below key k xs @ x # above key k xs)"
proof -
  note p = above_props [OF assms, where k = k]
  have "sorted_keys key (below key k xs)" using assms p(4) by (metis sorted_keys_simps(3))
  with p(1,2) show "sorted_keys key (below key k xs @ above key k xs)"
    "key x = k \<Longrightarrow> sorted_keys key (below key k xs @ x # above key k xs)"
    by (auto dest!: below_less intro: less_trans)
qed

subsection \<open>The contract of a keyed item, and the operations as a finite map's\<close>

fun apply_edit :: "('t \<Rightarrow> 'k) \<Rightarrow> ('k \<rightharpoonup> 't) \<Rightarrow> ('t, 'k) edit \<Rightarrow> ('k \<rightharpoonup> 't)" where
  "apply_edit key m (Insert x) = m(key x \<mapsto> x)"
| "apply_edit key m (Remove k) = m(k := None)"

lemma below_append:
  "(\<forall>x \<in> set xs. key x < k) \<Longrightarrow> below key k (xs @ ys) = xs @ below key k ys"
  "(\<forall>x \<in> set xs. key x < k) \<Longrightarrow> above key k (xs @ ys) = above key k ys"
  by (induction xs) (auto simp: below_def above_def from_key_def)

definition edit_ok ::
    "('t, 's) item_ops \<Rightarrow> ('k::linorder, 's) dim_ops \<Rightarrow> ('t \<Rightarrow> 'k) \<Rightarrow> ('t, 's) sum_tree \<Rightarrow> ('k \<rightharpoonup> 't) \<Rightarrow>
      ('t, 's, 'k) edit_state \<Rightarrow> bool" where
  "edit_ok I D key t m st \<longleftrightarrow>
     wf_tree I (es_tree st) \<and> cursor_ok I D (es_cursor st) \<and> can_seek (es_cursor st) \<and>
     c_did_seek (es_cursor st) \<and> c_tree (es_cursor st) = t \<and>
     sorted_keys key ((tree_items (es_tree st) @ es_buffered st) @ cursor_rest (es_cursor st)) \<and>
     keyed_map key ((tree_items (es_tree st) @ es_buffered st) @ cursor_rest (es_cursor st)) = m"

definition edit_inv ::
    "('t, 's) item_ops \<Rightarrow> ('k::linorder, 's) dim_ops \<Rightarrow> ('t \<Rightarrow> 'k) \<Rightarrow> ('t, 's) sum_tree \<Rightarrow> ('k \<rightharpoonup> 't) \<Rightarrow> 'k \<Rightarrow>
      ('t, 's, 'k) edit_state \<Rightarrow> bool" where
  "edit_inv I D key t m k st \<longleftrightarrow> edit_ok I D key t m st \<and>
     (\<forall>x \<in> set (tree_items (es_tree st) @ es_buffered st). key x < k) \<and>
     (\<forall>x \<in> set (cursor_done (es_cursor st)). key x < k)"

text \<open>A measure that is at most the keys of ordered items.\<close>

definition key_bound :: "('t \<Rightarrow> 'k::linorder) \<Rightarrow> 'k \<Rightarrow> 't list \<Rightarrow> bool" where
  "key_bound key d xs \<longleftrightarrow> sorted_keys key xs \<and> (\<forall>x \<in> set xs. d \<le> key x)"

locale keyed_laws = dim_laws I D
  for I :: "('t, 's) item_ops" and D :: "('k::linorder, 's) dim_ops" +
  fixes key :: "'t \<Rightarrow> 'k"
  assumes key_law: "d \<le> key x \<Longrightarrow> d_add D d (item_summary I x) = key x"
    and zero_le: "d_zero D \<le> key x"
begin

lemma passes_key: "passes Left (key_target k d) \<longleftrightarrow> d < k" "passes Right (key_target k d) \<longleftrightarrow> d \<le> k"
  by (auto simp: passes_def key_target_def)

lemma key_bound_simps [simp]:
  "key_bound key d []"
  "key_bound key d (x # xs) \<longleftrightarrow> d \<le> key x \<and> (\<forall>y \<in> set xs. key x < key y) \<and> key_bound key (key x) xs"
  by (auto simp: key_bound_def)

lemma key_bound_zero [simp]: "key_bound key (d_zero D) xs \<longleftrightarrow> sorted_keys key xs"
  by (simp add: key_bound_def zero_le)

lemma key_boundD: "key_bound key d xs \<Longrightarrow> sorted_keys key xs"
  by (simp add: key_bound_def)

lemma pos_after_key: "key_bound key d xs \<Longrightarrow> xs \<noteq> [] \<Longrightarrow> pos_after I D d xs = key (last xs)"
proof (induction xs arbitrary: d)
  case (Cons x xs)
  then show ?case by (cases "xs = []") (simp_all add: key_law)
qed simp

lemma never_passes_key:
  "key_bound key d xs \<Longrightarrow> never_passes I D P d xs \<longleftrightarrow> (\<forall>x \<in> set xs. \<not> P (key x))"
  by (induction xs arbitrary: d) (auto simp: key_law)

lemma mono_key:
  assumes "key_bound key d xs"
  shows "mono_target I D (\<lambda>d. passes b (key_target k d)) d xs"
  using assms
proof (induction xs arbitrary: d)
  case (Cons x xs)
  then show ?case
    by (cases b) (auto simp: key_law never_passes_key passes_key)
qed simp

lemma seek_split_key:
  assumes "key_bound key d xs"
  shows "\<exists>p. seek_split I D (\<lambda>d. passes Left (key_target k d)) d xs = (below key k xs, from_key key k xs, p)"
  using assms
proof (induction xs arbitrary: d)
  case (Cons x xs)
  then obtain p where "seek_split I D (\<lambda>d. passes Left (key_target k d)) (key x) xs =
      (below key k xs, from_key key k xs, p)" by auto
  then show ?case using Cons.prems by (auto simp: key_law passes_key below_def from_key_def Let_def)
qed (simp add: below_def from_key_def)

text \<open>The position of a cursor on an ordered tree is at most the keys in front of it.\<close>

lemma cursor_key_bound:
  assumes "cursor_ok I D c" and "sorted_keys key (tree_items (c_tree c))"
  shows "key_bound key (c_position c) (cursor_rest c)"
proof -
  have s: "sorted_keys key (cursor_done c @ cursor_rest c)"
    using assms(2) unfolding cursor_done_rest [OF assms(1)] .
  have p: "c_position c = pos_after I D (d_zero D) (cursor_done c)" using assms(1) by (simp add: cursor_ok_def)
  show ?thesis
  proof (cases "cursor_done c = []")
    case False
    with s have "c_position c = key (last (cursor_done c))" unfolding p by (intro pos_after_key) simp_all
    then show ?thesis using s False by (auto simp: key_bound_def intro: less_imp_le)
  qed (use p s in simp)
qed

lemma slice_key:
  assumes "cursor_ok I D c" and "can_seek c" and "sorted_keys key (tree_items (c_tree c))" and "c_position c \<le> k"
  shows "\<exists>c' t'. slice I D c (key_target k) Left = Some (c', t') \<and> wf_tree I t' \<and>
     tree_items t' = below key k (cursor_rest c) \<and>
     cursor_ok I D c' \<and> can_seek c' \<and> c_did_seek c' \<and> c_tree c' = c_tree c \<and>
     cursor_done c' = cursor_done c @ below key k (cursor_rest c) \<and> cursor_rest c' = from_key key k (cursor_rest c)"
proof -
  obtain p where "seek_split I D (\<lambda>d. passes Left (key_target k d)) (c_position c) (cursor_rest c) =
      (below key k (cursor_rest c), from_key key k (cursor_rest c), p)"
    using seek_split_key [OF cursor_key_bound [OF assms(1,3)]] by blast
  moreover have "key_target k (c_position c) \<noteq> Less" using assms(4) by (simp add: key_target_def not_less)
  ultimately show ?thesis using slice_correct [OF assms(1,2) _ mono_key [OF cursor_key_bound [OF assms(1,3)]]] by blast
qed

text \<open>Past the item with the key, when there is one.\<close>

lemma skip_key:
  assumes c: "cursor_ok I D c" "can_seek c" "c_did_seek c"
    and rest: "cursor_rest c = from_key key k xs" and s: "sorted_keys key xs"
  shows "\<exists>c'. (do { it \<leftarrow> cursor_item c;
         (case it of
           Some at \<Rightarrow> if key at = k then do { cursor \<leftarrow> cursor_next D c; Some (Some at, cursor) }
              else Some (None, c)
         | None \<Rightarrow> Some (None, c)) }) = Some (keyed_map key xs k, c') \<and>
     cursor_ok I D c' \<and> can_seek c' \<and> c_did_seek c' \<and> c_tree c' = c_tree c \<and>
     cursor_rest c' = above key k xs"
proof -
  note item = cursor_item_ok(1) [OF c(1,3,2)]
  note m = above_props(3) [OF s, of k]
  show ?thesis
  proof (cases "from_key key k xs")
    case Nil
    then show ?thesis using c item m rest by (simp add: above_def)
  next
    case (Cons y ys)
    show ?thesis
    proof (cases "key y = k")
      case False
      then show ?thesis using c item m rest Cons by (simp add: above_def)
    next
      case True
      have "c_stack c \<noteq> []" using c rest Cons by (auto simp: can_seek_def cursor_rest_def)
      then have "pending c = ys" using rest Cons by (simp add: pending_def)
      with cursor_next_correct [OF c(1)] show ?thesis
        using True item m rest Cons by (auto simp: above_def)
    qed
  qed
qed

lemma fresh_cursor:
  assumes "wf_tree I t" and "height t < STACK_CAPACITY"
  shows "cursor_ok I D (cursor_new D t)" "can_seek (cursor_new D t)" "cursor_done (cursor_new D t) = []"
    "cursor_rest (cursor_new D t) = tree_items t" "c_position (cursor_new D t) = d_zero D"
    "c_tree (cursor_new D t) = t"
  using cursor_new_ok [OF assms, of D] by (simp_all add: cursor_new_def)

lemma seek_key:
  assumes t: "wf_tree I t" "height t < STACK_CAPACITY" and s: "sorted_keys key (tree_items t)" and k: "d_zero D \<le> k"
  shows "\<exists>c r. seek D (cursor_new D t) (key_target k) Left = Some (c, r) \<and> cursor_ok I D c \<and> can_seek c \<and>
     c_did_seek c \<and> c_tree c = t \<and> cursor_done c = below key k (tree_items t) \<and>
     cursor_rest c = from_key key k (tree_items t)"
proof -
  have b: "key_bound key (d_zero D) (tree_items t)" using s by simp
  obtain p where "seek_split I D (\<lambda>d. passes Left (key_target k d)) (d_zero D) (tree_items t) =
      (below key k (tree_items t), from_key key k (tree_items t), p)"
    using seek_split_key [OF b] by blast
  moreover have "key_target k (d_zero D) \<noteq> Less" using k by (simp add: key_target_def not_less)
  moreover have "c_tree (cursor_new D t) = t" by (simp add: cursor_new_def)
  ultimately show ?thesis using seek_correct [OF t _ _ mono_key [OF b]] by blast
qed

lemma insert_or_replace_items:
  assumes t: "wf_tree I t" "height t < STACK_CAPACITY" and s: "sorted_keys key (tree_items t)"
  shows "\<exists>t'. insert_or_replace I D key t x = Some (t', keyed_map key (tree_items t) (key x)) \<and> wf_tree I t' \<and>
     tree_items t' = below key (key x) (tree_items t) @ x # above key (key x) (tree_items t)"
proof -
  note n = fresh_cursor [OF t]
  obtain c t1 where c: "slice I D (cursor_new D t) (key_target (key x)) Left = Some (c, t1)" "wf_tree I t1"
    "tree_items t1 = below key (key x) (tree_items t)" "cursor_ok I D c" "can_seek c" "c_did_seek c"
    "cursor_rest c = from_key key (key x) (tree_items t)"
    using slice_key [OF n(1,2), of "key x"] n s zero_le by auto
  obtain c' where k: "(do { it \<leftarrow> cursor_item c;
         (case it of
           Some at \<Rightarrow> if key at = key x then do { cursor \<leftarrow> cursor_next D c; Some (Some at, cursor) }
              else Some (None, c)
         | None \<Rightarrow> Some (None, c)) }) = Some (keyed_map key (tree_items t) (key x), c')"
     "cursor_ok I D c'" "can_seek c'" "cursor_rest c' = above key (key x) (tree_items t)"
    using skip_key [OF c(4-7) s] by blast
  obtain t2 where t2: "push I t1 x = Some t2" "wf_tree I t2" "tree_items t2 = tree_items t1 @ [x]"
    using push_correct [OF c(2)] by blast
  obtain c'' suf where sf: "suffix I D c' = Some (c'', suf)" "wf_tree I suf" "tree_items suf = cursor_rest c'"
    using suffix_correct [OF k(2,3)] by blast
  obtain t3 where t3: "append_tree I t2 suf = Some t3" "wf_tree I t3" "tree_items t3 = tree_items t2 @ tree_items suf"
    using append_tree_correct [OF t2(2) sf(2)] by blast
  have "insert_or_replace I D key t x = Some (t3, keyed_map key (tree_items t) (key x))"
    using c(1) k(1) t2(1) sf(1) t3(1) unfolding insert_or_replace_def
    by (simp add: bind_eq_Some_conv) (auto simp: bind_eq_Some_conv)
  with t3 t2 c sf k show ?thesis by auto
qed

lemma remove_items:
  assumes t: "wf_tree I t" "height t < STACK_CAPACITY" and s: "sorted_keys key (tree_items t)"
    and k0: "d_zero D \<le> k"
  shows "\<exists>t'. remove I D key t k = Some (t', keyed_map key (tree_items t) k) \<and> wf_tree I t' \<and>
     tree_items t' = below key k (tree_items t) @ above key k (tree_items t)"
proof -
  note n = fresh_cursor [OF t]
  obtain c t1 where c: "slice I D (cursor_new D t) (key_target k) Left = Some (c, t1)" "wf_tree I t1"
    "tree_items t1 = below key k (tree_items t)" "cursor_ok I D c" "can_seek c" "c_did_seek c"
    "cursor_rest c = from_key key k (tree_items t)"
    using slice_key [OF n(1,2), of k] n s k0 by auto
  obtain c' where k: "(do { it \<leftarrow> cursor_item c;
         (case it of
           Some at \<Rightarrow> if key at = k then do { cursor \<leftarrow> cursor_next D c; Some (Some at, cursor) }
              else Some (None, c)
         | None \<Rightarrow> Some (None, c)) }) = Some (keyed_map key (tree_items t) k, c')"
     "cursor_ok I D c'" "can_seek c'" "cursor_rest c' = above key k (tree_items t)"
    using skip_key [OF c(4-7) s] by blast
  obtain c'' suf where sf: "suffix I D c' = Some (c'', suf)" "wf_tree I suf" "tree_items suf = cursor_rest c'"
    using suffix_correct [OF k(2,3)] by blast
  obtain t3 where t3: "append_tree I t1 suf = Some t3" "wf_tree I t3" "tree_items t3 = tree_items t1 @ tree_items suf"
    using append_tree_correct [OF c(2) sf(2)] by blast
  have "remove I D key t k = Some (t3, keyed_map key (tree_items t) k)"
    using c(1) k(1) sf(1) t3(1) unfolding remove_def
    by (simp add: bind_eq_Some_conv) (auto simp: bind_eq_Some_conv)
  with t3 c sf k show ?thesis by auto
qed

lemma get_items:
  assumes "wf_tree I t" and "sorted_keys key (tree_items t)"
  shows "get D t k = keyed_map key (tree_items t) k"
proof -
  obtain p where sp: "seek_split I D (\<lambda>d. passes Left (key_target k d)) (d_zero D) (tree_items t) =
      (below key k (tree_items t), from_key key k (tree_items t), p)"
    using seek_split_key [of "d_zero D" "tree_items t" k] assms(2) by auto
  have b: "key_bound key (d_zero D) (tree_items t)" using assms(2) by simp
  have pk: "d_add D p (item_summary I y) = key y" if "from_key key k (tree_items t) = y # ys" for y ys
  proof -
    have "p = pos_after I D (d_zero D) (below key k (tree_items t))" using seek_split_parts [OF sp] by simp
    moreover have "sorted_keys key (below key k (tree_items t) @ y # ys)"
      using assms(2) unfolding that [symmetric] below_from_key .
    ultimately have "p \<le> key y"
      using pos_after_key [of "d_zero D" "below key k (tree_items t)"] zero_le
      by (cases "below key k (tree_items t) = []") (auto intro: less_imp_le)
    then show ?thesis by (rule key_law)
  qed
  have "snd (snd (find_exact D t (key_target k) Left)) = keyed_map key (tree_items t) k"
    unfolding find_exact_correct [OF assms(1) mono_key [OF b] mono_key [OF b]] sp
      above_props(3) [OF assms(2)]
    by (cases "from_key key k (tree_items t)") (auto simp: pk key_target_def)
  then show ?thesis
    by (cases "find_exact D t (key_target k) Left") (auto simp: get_def split: option.splits)
qed

subsubsection \<open>\<open>edit\<close>\<close>

lemma edit_position:
  assumes "edit_inv I D key t m k st" and "d_zero D \<le> k" and st: "sorted_keys key (tree_items t)"
  shows "c_position (es_cursor st) \<le> k"
proof (cases "cursor_done (es_cursor st) = []")
  case False
  then have "key (last (cursor_done (es_cursor st))) < k" using assms(1) by (auto simp: edit_inv_def edit_ok_def)
  have "cursor_ok I D (es_cursor st)" "c_tree (es_cursor st) = t" using assms(1) by (simp_all add: edit_inv_def edit_ok_def)
  with cursor_done_rest [of I D "es_cursor st"] st have "sorted_keys key (cursor_done (es_cursor st) @ cursor_rest (es_cursor st))"
    by simp
  then have "key_bound key (d_zero D) (cursor_done (es_cursor st))" by simp
  from pos_after_key [OF this False] show ?thesis
    using assms(1) \<open>key (last _) < k\<close> by (simp add: edit_inv_def edit_ok_def cursor_ok_def)
qed (use assms in \<open>simp add: edit_inv_def edit_ok_def cursor_ok_def\<close>)

lemma edit_flush:
  assumes inv: "edit_inv I D key t m k st" and k0: "d_zero D \<le> k" and srt: "sorted_keys key (tree_items t)"
  shows "\<exists>st1. (do {
       old_item \<leftarrow> cursor_item (es_cursor st);
       (case old_item of
         Some old \<Rightarrow>
           if key old < k then do {
             new_tree \<leftarrow> SumTree.extend I (es_tree st) (es_buffered st);
             (cursor, sl) \<leftarrow> slice I D (es_cursor st) (key_target k) Left;
             new_tree \<leftarrow> append_tree I new_tree sl;
             old_item \<leftarrow> cursor_item cursor;
             Some (st\<lparr>es_tree := new_tree, es_buffered := [], es_cursor := cursor\<rparr>, old_item)
           } else Some (st, old_item)
       | None \<Rightarrow> Some (st, old_item)) }) = Some (st1, vec_first (cursor_rest (es_cursor st1))) \<and>
     edit_inv I D key t m k st1 \<and> es_removed st1 = es_removed st \<and>
     tree_items (es_tree st1) @ es_buffered st1 =
       (tree_items (es_tree st) @ es_buffered st) @ below key k (cursor_rest (es_cursor st)) \<and>
     cursor_rest (es_cursor st1) = from_key key k (cursor_rest (es_cursor st))"
proof -
  let ?rest = "cursor_rest (es_cursor st)"
  have c: "cursor_ok I D (es_cursor st)" "can_seek (es_cursor st)" "c_did_seek (es_cursor st)"
    and s: "sorted_keys key ?rest" using inv by (auto simp: edit_inv_def edit_ok_def)
  note item = cursor_item_ok(1) [OF c(1,3,2)]
  show ?thesis
  proof (cases "\<exists>y ys. ?rest = y # ys \<and> key y < k")
    case False
    then have "below key k ?rest = []" "from_key key k ?rest = ?rest"
      by (cases ?rest; simp add: below_def from_key_def)+
    with False inv item show ?thesis
      by (intro exI [of _ st]) (cases ?rest; auto)
  next
    case True
    then obtain y ys where y: "?rest = y # ys" "key y < k" by blast
    obtain t1 where t1: "SumTree.extend I (es_tree st) (es_buffered st) = Some t1" "wf_tree I t1"
      "tree_items t1 = tree_items (es_tree st) @ es_buffered st"
      using extend_correct [of "es_tree st" "es_buffered st"] inv unfolding edit_inv_def edit_ok_def by blast
    obtain c' sl where sl: "slice I D (es_cursor st) (key_target k) Left = Some (c', sl)" "wf_tree I sl"
      "tree_items sl = below key k ?rest" "cursor_ok I D c'" "can_seek c'" "c_did_seek c'"
      "c_tree c' = c_tree (es_cursor st)" "cursor_done c' = cursor_done (es_cursor st) @ below key k ?rest"
      "cursor_rest c' = from_key key k ?rest"
      using slice_key [OF c(1,2) _ edit_position [OF inv k0 srt]] srt inv
      by (auto simp: edit_inv_def edit_ok_def)
    obtain t2 where t2: "append_tree I t1 sl = Some t2" "wf_tree I t2" "tree_items t2 = tree_items t1 @ tree_items sl"
      using append_tree_correct [OF t1(2) sl(2)] by blast
    note item' = cursor_item_ok(1) [OF sl(4,6,5)]
    let ?st1 = "st\<lparr>es_tree := t2, es_buffered := [], es_cursor := c'\<rparr>"
    have all: "(tree_items t2 @ []) @ cursor_rest c' = (tree_items (es_tree st) @ es_buffered st) @ ?rest"
      using t1(3) t2(3) sl(3,9) below_from_key [of key k ?rest] by simp
    have "sorted_keys key ((tree_items t2 @ []) @ cursor_rest c')"
      "keyed_map key ((tree_items t2 @ []) @ cursor_rest c') = m"
      unfolding all using inv unfolding edit_inv_def edit_ok_def by blast+
    moreover have "\<forall>x \<in> set (tree_items t2 @ []). key x < k" "\<forall>x \<in> set (cursor_done c'). key x < k"
      using inv t1(3) t2(3) sl(3,8) unfolding edit_inv_def edit_ok_def by (auto dest: below_less)
    moreover have "c_tree c' = t" using inv sl(7) by (simp add: edit_inv_def edit_ok_def)
    ultimately have "edit_inv I D key t m k ?st1"
      using t2(2) sl(4,5,6) by (simp add: edit_inv_def edit_ok_def)
    then show ?thesis
      using y item item' t1 t2 sl by (intro exI [of _ ?st1]) simp
  qed
qed

lemma edit_step_correct:
  assumes inv: "edit_inv I D key t m k st" and k: "edit_key key ed = k" and k0: "d_zero D \<le> k"
    and st: "sorted_keys key (tree_items t)"
  shows "\<exists>st'. edit_step I D key st ed = Some st' \<and> edit_ok I D key t (apply_edit key m ed) st' \<and>
     (\<forall>k'. k < k' \<longrightarrow> edit_inv I D key t (apply_edit key m ed) k' st') \<and>
     es_removed st' = es_removed st @ (case m k of None \<Rightarrow> [] | Some y \<Rightarrow> [y])"
proof -
  let ?F = "tree_items (es_tree st) @ es_buffered st" and ?rest = "cursor_rest (es_cursor st)"
  obtain st1 where flush: "(do {
       old_item \<leftarrow> cursor_item (es_cursor st);
       (case old_item of
         Some old \<Rightarrow>
           if key old < k then do {
             new_tree \<leftarrow> SumTree.extend I (es_tree st) (es_buffered st);
             (cursor, sl) \<leftarrow> slice I D (es_cursor st) (key_target k) Left;
             new_tree \<leftarrow> append_tree I new_tree sl;
             old_item \<leftarrow> cursor_item cursor;
             Some (st\<lparr>es_tree := new_tree, es_buffered := [], es_cursor := cursor\<rparr>, old_item)
           } else Some (st, old_item)
       | None \<Rightarrow> Some (st, old_item)) }) = Some (st1, vec_first (cursor_rest (es_cursor st1)))"
    and inv1: "edit_inv I D key t m k st1" and rem1: "es_removed st1 = es_removed st"
    and F1: "tree_items (es_tree st1) @ es_buffered st1 = ?F @ below key k ?rest"
    and rest1: "cursor_rest (es_cursor st1) = from_key key k ?rest"
    using edit_flush [OF inv k0 st] by blast
  have c1: "cursor_ok I D (es_cursor st1)" "can_seek (es_cursor st1)" "c_did_seek (es_cursor st1)"
    and wf1: "wf_tree I (es_tree st1)" and ct1: "c_tree (es_cursor st1) = t"
    using inv1 by (simp_all add: edit_inv_def edit_ok_def)
  have sX: "sorted_keys key (?F @ ?rest)" and Fk: "\<forall>x \<in> set ?F. key x < k" and mX: "m = keyed_map key (?F @ ?rest)"
    and s: "sorted_keys key ?rest"
    using inv by (auto simp: edit_inv_def edit_ok_def)
  have FX: "?F @ below key k ?rest = below key k (?F @ ?rest)" "above key k ?rest = above key k (?F @ ?rest)"
    using below_append [OF Fk, of ?rest] by (simp_all del: append_assoc)
  have "keyed_map key ?F k = None" using Fk by (auto simp: keyed_map_None)
  then have mk: "m k = keyed_map key ?rest k" by (auto simp: mX map_add_def simp del: append_assoc split: option.splits)
  obtain st2 c2 where skip: "(case vec_first (cursor_rest (es_cursor st1)) of
         Some old \<Rightarrow>
           if key old = k then do {
             cursor \<leftarrow> cursor_next D (es_cursor st1);
             Some (st1\<lparr>es_cursor := cursor, es_removed := es_removed st1 @ [old]\<rparr>)
           } else Some st1
       | None \<Rightarrow> Some st1) = Some st2"
     and st2: "es_tree st2 = es_tree st1" "es_buffered st2 = es_buffered st1" "es_cursor st2 = c2"
       "es_removed st2 = es_removed st @ (case m k of None \<Rightarrow> [] | Some y \<Rightarrow> [y])"
     and c2: "cursor_ok I D c2" "can_seek c2" "c_did_seek c2" "c_tree c2 = t" "cursor_rest c2 = above key k ?rest"
  proof -
    note m = above_props(3) [OF s, of k]
    consider (hit) y ys where "from_key key k ?rest = y # ys" "key y = k"
      | (miss) "above key k ?rest = from_key key k ?rest" "keyed_map key ?rest k = None"
        "\<And>y ys. from_key key k ?rest = y # ys \<Longrightarrow> key y \<noteq> k"
      using m by (cases "from_key key k ?rest") (auto simp: above_def)
    then show ?thesis
    proof cases
      case hit
      have "c_stack (es_cursor st1) \<noteq> []" using c1 rest1 hit by (auto simp: can_seek_def cursor_rest_def)
      then have "pending (es_cursor st1) = ys" using rest1 hit by (simp add: pending_def)
      with cursor_next_correct [OF c1(1)] obtain c2 where "cursor_next D (es_cursor st1) = Some c2" "cursor_ok I D c2"
        "can_seek c2" "c_did_seek c2" "c_tree c2 = t" "cursor_rest c2 = ys" using ct1 by auto
      then show ?thesis
        using hit rest1 m rem1 mk by (intro that [of "st1\<lparr>es_cursor := c2, es_removed := es_removed st1 @ [y]\<rparr>" c2])
          (simp_all add: above_def)
    next
      case miss
      then show ?thesis
        using c1 ct1 rest1 rem1 mk by (intro that [of st1 "es_cursor st1"]) (auto split: option.split simp: vec_first_def split: list.splits)
    qed
  qed
  let ?st3 = "case ed of Insert item \<Rightarrow> st2\<lparr>es_buffered := es_buffered st2 @ [item]\<rparr> | Remove _ \<Rightarrow> st2"
  have step: "edit_step I D key st ed = Some ?st3"
    unfolding edit_step_def Let_def k using flush skip by (simp add: bind_eq_Some_conv) blast
  have f3: "es_tree ?st3 = es_tree st1" "es_cursor ?st3 = c2" "es_removed ?st3 = es_removed st2"
    "tree_items (es_tree ?st3) @ es_buffered ?st3 =
       below key k (?F @ ?rest) @ (case ed of Insert x \<Rightarrow> [x] | Remove _ \<Rightarrow> [])"
    using st2 F1 FX(1) by (auto split: edit.split simp del: append_assoc)
  have bl: "\<And>x. x \<in> set (below key k (?F @ ?rest)) \<Longrightarrow> key x < k" by (rule below_less)
  have rest3: "cursor_rest c2 = above key k (?F @ ?rest)" using c2(5) FX(2) by simp
  have ok3: "edit_ok I D key t (apply_edit key m ed) ?st3"
  proof -
    have "sorted_keys key (below key k (?F @ ?rest) @ (case ed of Insert x \<Rightarrow> [x] | Remove _ \<Rightarrow> []) @ above key k (?F @ ?rest))"
      using sorted_split [OF sX, where k = k] k by (cases ed) (auto simp del: append_assoc sorted_keys_simps)
    moreover have "keyed_map key (below key k (?F @ ?rest) @ (case ed of Insert x \<Rightarrow> [x] | Remove _ \<Rightarrow> []) @ above key k (?F @ ?rest)) =
        apply_edit key m ed"
    proof (cases ed)
      case (Insert x)
      then show ?thesis using keyed_map_split(2) [OF sX, of x k] k mX
        by (simp del: append_assoc keyed_map_simps)
    next
      case (Remove k')
      then show ?thesis using keyed_map_split(1) [OF sX, of k] k mX
        by (simp del: append_assoc keyed_map_simps)
    qed
    ultimately show ?thesis
      unfolding edit_ok_def f3(4) unfolding f3(1,2) rest3 append_assoc using wf1 c2(1-4) by blast
  qed
  have inv3: "edit_inv I D key t (apply_edit key m ed) k' ?st3" if "k < k'" for k'
  proof -
    have all: "cursor_done c2 @ above key k ?rest = tree_items t"
      using cursor_done_rest [OF c2(1)] c2(4,5) by simp
    have dk: "\<forall>x \<in> set (cursor_done c2). key x < k'"
    proof
      fix x assume x: "x \<in> set (cursor_done c2)"
      have d1: "cursor_done (es_cursor st1) @ from_key key k ?rest = tree_items t"
        using cursor_done_rest [OF c1(1)] ct1 rest1 by simp
      have "x \<in> set (cursor_done (es_cursor st1)) \<or> x \<in> set (from_key key k ?rest) \<and> key x = k"
      proof (cases "above key k ?rest = from_key key k ?rest")
        case True
        then have "cursor_done c2 = cursor_done (es_cursor st1)" using all d1 by (metis append_same_eq)
        then show ?thesis using x by simp
      next
        case False
        then obtain y where y: "from_key key k ?rest = y # above key k ?rest" "key y = k"
          by (cases "from_key key k ?rest") (auto simp: above_def split: if_splits)
        have "cursor_done c2 @ above key k ?rest = (cursor_done (es_cursor st1) @ [y]) @ above key k ?rest"
          using all d1 y(1) by simp
        then have "cursor_done c2 = cursor_done (es_cursor st1) @ [y]" by (simp only: append_same_eq)
        then show ?thesis using x y by auto
      qed
      then show "key x < k'" using inv1 that by (auto simp: edit_inv_def)
    qed
    have "\<forall>x \<in> set (below key k (?F @ ?rest) @ (case ed of Insert x \<Rightarrow> [x] | Remove _ \<Rightarrow> [])). key x < k'"
      using bl that k by (auto split: edit.splits intro: less_trans)
    then show ?thesis
      unfolding edit_inv_def f3(4) unfolding f3(2) using ok3 dk by blast
  qed
  show ?thesis using step ok3 inv3 f3(3) st2(4) by auto
qed

lemma edit_loop_correct:
  assumes "edit_ok I D key t m st" and "eds \<noteq> [] \<Longrightarrow> edit_inv I D key t m (edit_key key (hd eds)) st"
    and "sorted_wrt (<) (map (edit_key key) eds)"
    and "\<forall>e \<in> set eds. d_zero D \<le> edit_key key e" and "sorted_keys key (tree_items t)"
  shows "\<exists>st'. edit_loop I D key st eds = Some st' \<and> edit_ok I D key t (foldl (apply_edit key) m eds) st' \<and>
     es_removed st' = es_removed st @ concat (map (\<lambda>e. case m (edit_key key e) of None \<Rightarrow> [] | Some y \<Rightarrow> [y]) eds)"
  using assms(1-4)
proof (induction eds arbitrary: st m)
  case (Cons e eds)
  have e: "edit_inv I D key t m (edit_key key e) st" "d_zero D \<le> edit_key key e" using Cons.prems by auto
  obtain st1 where st1: "edit_step I D key st e = Some st1" "edit_ok I D key t (apply_edit key m e) st1"
     "\<And>k'. edit_key key e < k' \<Longrightarrow> edit_inv I D key t (apply_edit key m e) k' st1"
     "es_removed st1 = es_removed st @ (case m (edit_key key e) of None \<Rightarrow> [] | Some y \<Rightarrow> [y])"
    using edit_step_correct [OF e(1) refl e(2) assms(5)] by blast
  have m: "map (\<lambda>a. case apply_edit key m e (edit_key key a) of None \<Rightarrow> [] | Some y \<Rightarrow> [y]) eds =
      map (\<lambda>a. case m (edit_key key a) of None \<Rightarrow> [] | Some y \<Rightarrow> [y]) eds"
    using Cons.prems(3) by (intro map_cong refl, cases e) auto
  have inv1: "edit_inv I D key t (apply_edit key m e) (edit_key key (hd eds)) st1" if "eds \<noteq> []"
    using that Cons.prems(3) by (intro st1(3)) (cases eds; simp)
  obtain st' where "edit_loop I D key st1 eds = Some st'"
    "edit_ok I D key t (foldl (apply_edit key) (apply_edit key m e) eds) st'"
    "es_removed st' = es_removed st1 @ concat (map (\<lambda>a. case m (edit_key key a) of None \<Rightarrow> [] | Some y \<Rightarrow> [y]) eds)"
    using Cons.IH [OF st1(2) inv1] Cons.prems(3,4) unfolding m by auto
  with st1 show ?case by simp
qed simp

lemma edit_sorted_items:
  assumes t: "wf_tree I t" "height t < STACK_CAPACITY" and s: "sorted_keys key (tree_items t)"
    and eds: "sorted_wrt (<) (map (edit_key key) eds)" "\<forall>e \<in> set eds. d_zero D \<le> edit_key key e"
  shows "\<exists>t'. edit_sorted I D key t eds = Some (t',
       concat (map (\<lambda>e. case keyed_map key (tree_items t) (edit_key key e) of None \<Rightarrow> [] | Some y \<Rightarrow> [y]) eds)) \<and>
     wf_tree I t' \<and> sorted_keys key (tree_items t') \<and>
     keyed_map key (tree_items t') = foldl (apply_edit key) (keyed_map key (tree_items t)) eds"
proof (cases "eds = []")
  case True
  then show ?thesis using t s by (auto simp: edit_sorted_def)
next
  case False
  let ?m = "keyed_map key (tree_items t)"
  have b: "below key (d_zero D) (tree_items t) = []" "from_key key (d_zero D) (tree_items t) = tree_items t"
    using zero_le by (cases "tree_items t"; auto simp: below_def from_key_def not_less)+
  obtain c r where c: "seek D (cursor_new D t) (key_target (d_zero D)) Left = Some (c, r)" "cursor_ok I D c" "can_seek c"
    "c_did_seek c" "c_tree c = t" "cursor_done c = []" "cursor_rest c = tree_items t"
    using seek_key [OF t s, of "d_zero D"] unfolding b by blast
  let ?st = "\<lparr>es_tree = new I, es_buffered = [], es_cursor = c, es_removed = []\<rparr>"
  have ok: "edit_ok I D key t ?m ?st" using c s by (simp add: edit_ok_def)
  have "edit_inv I D key t ?m k ?st" for k using ok c by (simp add: edit_inv_def)
  from edit_loop_correct [OF ok this eds s] obtain st where st: "edit_loop I D key ?st eds = Some st"
    "edit_ok I D key t (foldl (apply_edit key) ?m eds) st"
    "es_removed st = concat (map (\<lambda>e. case ?m (edit_key key e) of None \<Rightarrow> [] | Some y \<Rightarrow> [y]) eds)"
    by auto
  have o: "wf_tree I (es_tree st)" "cursor_ok I D (es_cursor st)" "can_seek (es_cursor st)"
    "sorted_keys key ((tree_items (es_tree st) @ es_buffered st) @ cursor_rest (es_cursor st))"
    "keyed_map key ((tree_items (es_tree st) @ es_buffered st) @ cursor_rest (es_cursor st)) = foldl (apply_edit key) ?m eds"
    using st(2) unfolding edit_ok_def by blast+
  obtain t1 where t1: "SumTree.extend I (es_tree st) (es_buffered st) = Some t1" "wf_tree I t1"
      "tree_items t1 = tree_items (es_tree st) @ es_buffered st"
    using extend_correct [OF o(1)] by blast
  obtain c'' suf where sf: "suffix I D (es_cursor st) = Some (c'', suf)" "wf_tree I suf" "tree_items suf = cursor_rest (es_cursor st)"
    using suffix_correct [OF o(2,3)] by blast
  obtain t3 where t3: "append_tree I t1 suf = Some t3" "wf_tree I t3" "tree_items t3 = tree_items t1 @ tree_items suf"
    using append_tree_correct [OF t1(2) sf(2)] by blast
  have "edit_sorted I D key t eds = Some (t3, es_removed st)"
    using False c(1) st(1) t1(1) sf(1) t3(1) by (simp add: edit_sorted_def)
  moreover have "tree_items t3 = (tree_items (es_tree st) @ es_buffered st) @ cursor_rest (es_cursor st)"
    using t3(3) t1(3) sf(3) by simp
  ultimately show ?thesis using t3(2) o(4,5) st(3) by (metis (no_types, lifting))
qed

text \<open>Insertions with distinct keys, in whatever order the unstable sort leaves them, override the map.\<close>

lemma foldl_insert_edits:
  "foldl (apply_edit key) m (map Insert xs) = m ++ map_of (rev (map (\<lambda>x. (key x, x)) xs))"
  by (induction xs arbitrary: m) (auto simp: fun_eq_iff map_add_def split: option.splits)

lemma insert_edits:
  assumes t: "wf_tree I t" "height t < STACK_CAPACITY" and s: "sorted_keys key (tree_items t)"
    and d: "distinct (map key xs)" and r: "edits I D key t (map Insert xs) r"
  shows "\<exists>t' removed. r = Some (t', removed) \<and> wf_tree I t' \<and> sorted_keys key (tree_items t') \<and>
     keyed_map key (tree_items t') = keyed_map key (tree_items t) ++ keyed_map key xs"
proof -
  obtain eds where e: "mset eds = mset (map Insert xs)" "sorted (map (edit_key key) eds)" "r = edit_sorted I D key t eds"
    using r by (auto simp: edits_def sorted_edits_def)
  define item :: "('t, 'k) edit \<Rightarrow> 't" where "item ed = (case ed of Insert x \<Rightarrow> x | Remove _ \<Rightarrow> undefined)" for ed
  define ys where "ys = map item eds"
  have "mset ys = image_mset item (mset (map Insert xs))"
    unfolding ys_def mset_map [of _ eds] by (simp only: e(1))
  then have perm: "mset ys = mset xs" by (simp add: image_mset.compositionality comp_def item_def)
  have "set eds = set (map Insert xs)" using e(1) by (metis set_mset_mset)
  then have eds: "eds = map Insert ys" unfolding ys_def map_map by (intro map_idI [symmetric]) (auto simp: item_def)
  have keys: "map (edit_key key) eds = map key ys" by (simp add: eds)
  have "mset (map key ys) = mset (map key xs)" using perm by simp
  then have dist: "distinct (map key ys)" using d by (metis mset_eq_imp_distinct_iff)
  then have "sorted_wrt (<) (map (edit_key key) eds)" using e(2) by (simp only: keys strict_sorted_iff simp_thms)
  moreover have "\<forall>ed \<in> set eds. d_zero D \<le> edit_key key ed" by (auto simp: eds zero_le)
  ultimately obtain t' removed where t': "r = Some (t', removed)" "wf_tree I t'" "sorted_keys key (tree_items t')"
    "keyed_map key (tree_items t') = foldl (apply_edit key) (keyed_map key (tree_items t)) eds"
    unfolding e(3) using edit_sorted_items [OF t s] by blast
  have "map_of (rev (map (\<lambda>x. (key x, x)) ys)) = keyed_map key xs"
    unfolding keyed_map_def using dist d perm
    by (subst map_of_inject_set) (auto simp: rev_map [symmetric] comp_def dest: mset_eq_setD)
  then show ?thesis using t' by (simp add: eds foldl_insert_edits)
qed

end

subsection \<open>Insertions with repeated keys\<close>

text \<open>What \<open>edit\<close> makes of insertions whose keys do not decrease: each is put behind the items with
  smaller keys, and an item of the tree with the key of one of them goes.\<close>

fun merge_inserts :: "('t \<Rightarrow> 'k::linorder) \<Rightarrow> 't list \<Rightarrow> 't list \<Rightarrow> 't list" where
  "merge_inserts key rest [] = rest"
| "merge_inserts key rest (x # xs) = below key (key x) rest @ x # merge_inserts key (above key (key x) rest) xs"

lemma above_subset: "set (above key k xs) \<subseteq> set xs"
proof (cases "from_key key k xs")
  case (Cons y ys)
  then have "set (y # ys) \<subseteq> set xs" by (metis below_from_key set_append sup_ge2)
  then show ?thesis using Cons by (auto simp: above_def)
qed (simp add: above_def)

lemma below_subset: "set (below key k xs) \<subseteq> set xs"
  by (auto simp: below_def dest: set_takeWhileD)

lemma merge_inserts_sorted:
  assumes "sorted_keys key rest" and "sorted (map key xs)"
  shows "sorted (map key (merge_inserts key rest xs)) \<and> set (merge_inserts key rest xs) \<subseteq> set rest \<union> set xs \<and>
    mset (merge_inserts key rest xs) = mset xs + mset (filter (\<lambda>y. key y \<notin> key ` set xs) rest)"
  using assms
proof (induction xs arbitrary: rest)
  case Nil
  then have "sorted_wrt (<) (map key rest)" by (simp add: sorted_keys_def sorted_wrt_map)
  then have "sorted (map key rest)" using strict_sorted_iff by blast
  then show ?case by simp
next
  case (Cons x xs)
  let ?a = "above key (key x) rest" and ?b = "below key (key x) rest"
  have sa: "sorted_keys key ?a" using above_props(1) [OF Cons.prems(1)] .
  have IH: "sorted (map key (merge_inserts key ?a xs))" "set (merge_inserts key ?a xs) \<subseteq> set ?a \<union> set xs"
    "mset (merge_inserts key ?a xs) = mset xs + mset (filter (\<lambda>y. key y \<notin> key ` set xs) ?a)"
    using Cons.IH [OF sa] Cons.prems(2) by simp_all
  have sb: "sorted (map key ?b)"
  proof -
    have "sorted_keys key ?b" using Cons.prems(1) above_props(4) [OF Cons.prems(1), of "key x"] by (metis sorted_keys_simps(3))
    then have "sorted_wrt (<) (map key ?b)" by (simp add: sorted_keys_def sorted_wrt_map)
    then show ?thesis using strict_sorted_iff by blast
  qed
  have ge: "key x \<le> key y" if "y \<in> set (merge_inserts key ?a xs)" for y
  proof -
    from that IH(2) have "y \<in> set ?a \<or> y \<in> set xs" by blast
    then show ?thesis using above_props(2) [OF Cons.prems(1)] Cons.prems(2) by (auto intro: less_imp_le)
  qed
  have lt: "key y < key x" if "y \<in> set ?b" for y using that by (rule below_less)
  have 1: "sorted (map key (merge_inserts key rest (x # xs)))"
    using sb IH(1) ge lt by (auto simp: sorted_append intro: less_imp_le less_le_trans)
  let ?P = "\<lambda>y. key y \<notin> key ` set xs" and ?Q = "\<lambda>y. key y \<notin> key ` set (x # xs)"
  let ?h = "case keyed_map key rest (key x) of None \<Rightarrow> [] | Some y \<Rightarrow> [y]"
  have "filter ?Q ?h = []" by (auto split: option.split dest: keyed_map_SomeD)
  moreover have "filter ?Q ?a = filter ?P ?a" using above_props(2) [OF Cons.prems(1), of _ "key x"] by (intro filter_cong) fastforce+
  moreover have "filter ?Q ?b = ?b" using lt Cons.prems(2) by (fastforce simp: filter_id_conv)
  moreover have "filter ?Q rest = filter ?Q ?b @ filter ?Q ?h @ filter ?Q ?a"
    using arg_cong [OF above_props(4) [OF Cons.prems(1), of "key x"], of "filter ?Q"] by (simp only: filter_append)
  ultimately have 2: "mset (merge_inserts key rest (x # xs)) = mset (x # xs) + mset (filter ?Q rest)"
    using IH(3) by simp
  have 3: "set (merge_inserts key rest (x # xs)) \<subseteq> set rest \<union> set (x # xs)"
    using IH(2) above_subset [of key "key x" rest] below_subset [of key "key x" rest] by auto
  show ?case using 1 2 3 by simp
qed

context keyed_laws
begin

lemma done_position:
  assumes "cursor_ok I D c" and "sorted_keys key (tree_items (c_tree c))" and "\<forall>y \<in> set (cursor_done c). key y \<le> k" and "d_zero D \<le> k"
  shows "c_position c \<le> k"
proof (cases "cursor_done c = []")
  case False
  have "sorted_keys key (cursor_done c @ cursor_rest c)" using assms(2) unfolding cursor_done_rest [OF assms(1)] .
  then have "key_bound key (d_zero D) (cursor_done c)" by simp
  from pos_after_key [OF this False] show ?thesis using assms(1,3) False by (simp add: cursor_ok_def)
qed (use assms(1,4) in \<open>simp add: cursor_ok_def\<close>)

text \<open>One insertion, for keys that do not decrease.\<close>

lemma insert_step_any:
  assumes wf: "wf_tree I (es_tree st)" and c: "cursor_ok I D (es_cursor st)" "can_seek (es_cursor st)" "c_did_seek (es_cursor st)"
    and t: "sorted_keys key (tree_items (c_tree (es_cursor st)))" and dn: "\<forall>y \<in> set (cursor_done (es_cursor st)). key y \<le> key x"
  shows "\<exists>st'. edit_step I D key st (Insert x) = Some st' \<and> wf_tree I (es_tree st') \<and> cursor_ok I D (es_cursor st') \<and>
    can_seek (es_cursor st') \<and> c_did_seek (es_cursor st') \<and> c_tree (es_cursor st') = c_tree (es_cursor st) \<and>
    tree_items (es_tree st') @ es_buffered st' =
      tree_items (es_tree st) @ es_buffered st @ below key (key x) (cursor_rest (es_cursor st)) @ [x] \<and>
    cursor_rest (es_cursor st') = above key (key x) (cursor_rest (es_cursor st)) \<and>
    (\<forall>y \<in> set (cursor_done (es_cursor st')). key y \<le> key x)"
proof -
  let ?k = "key x" and ?c = "es_cursor st" and ?rest = "cursor_rest (es_cursor st)"
  note all = cursor_done_rest [OF c(1)]
  have "sorted_keys key (cursor_done ?c @ ?rest)" using t unfolding all .
  then have s: "sorted_keys key ?rest" by simp
  note p = above_props [OF s, where k = ?k]
  obtain TT B CC where flush: "(do {
         old_item \<leftarrow> cursor_item ?c;
         (case old_item of
           Some old \<Rightarrow>
             if key old < ?k then do {
               new_tree \<leftarrow> SumTree.extend I (es_tree st) (es_buffered st);
               (cursor, sl) \<leftarrow> slice I D ?c (key_target ?k) Left;
               new_tree \<leftarrow> append_tree I new_tree sl;
               old_item \<leftarrow> cursor_item cursor;
               Some (st\<lparr>es_tree := new_tree, es_buffered := [], es_cursor := cursor\<rparr>, old_item)
             } else Some (st, old_item)
         | None \<Rightarrow> Some (st, old_item)) }) =
      Some (st\<lparr>es_tree := TT, es_buffered := B, es_cursor := CC\<rparr>, vec_first (from_key key ?k ?rest))"
    and w1: "wf_tree I TT" and F1: "tree_items TT @ B = tree_items (es_tree st) @ es_buffered st @ below key ?k ?rest"
    and CC: "cursor_ok I D CC" "can_seek CC" "c_did_seek CC" "c_tree CC = c_tree ?c" "cursor_rest CC = from_key key ?k ?rest"
  proof (cases "\<exists>y ys. ?rest = y # ys \<and> key y < ?k")
    case False
    then have "below key ?k ?rest = []" "from_key key ?k ?rest = ?rest" by (cases ?rest; simp add: below_def from_key_def)+
    with False show thesis using cursor_item_ok(1) [OF c(1,3,2)] wf c
      by (intro that [where CC = ?c and B = "es_buffered st" and TT = "es_tree st"]) (cases ?rest; auto)+
  next
    case True
    then obtain y ys where y: "?rest = y # ys" "key y < ?k" by blast
    obtain t0 where t0: "SumTree.extend I (es_tree st) (es_buffered st) = Some t0" "wf_tree I t0"
      "tree_items t0 = tree_items (es_tree st) @ es_buffered st" using extend_correct [OF wf] by blast
    have pos: "c_position ?c \<le> ?k" by (rule done_position [OF c(1) t dn zero_le])
    obtain c' sl where sl: "slice I D ?c (key_target ?k) Left = Some (c', sl)" "wf_tree I sl" "tree_items sl = below key ?k ?rest"
      "cursor_ok I D c'" "can_seek c'" "c_did_seek c'" "c_tree c' = c_tree ?c" "cursor_rest c' = from_key key ?k ?rest"
      using slice_key [OF c(1,2) t pos] by blast
    obtain t2 where t2: "append_tree I t0 sl = Some t2" "wf_tree I t2" "tree_items t2 = tree_items t0 @ tree_items sl"
      using append_tree_correct [OF t0(2) sl(2)] by blast
    show thesis using cursor_item_ok(1) [OF c(1,3,2)] cursor_item_ok(1) [OF sl(4,6,5)] y t0 sl t2
      by (intro that [where CC = c' and B = "[]" and TT = t2]) simp_all
  qed
  let ?st1 = "st\<lparr>es_tree := TT, es_buffered := B, es_cursor := CC\<rparr>"
  obtain st2 c2 where skip: "(case vec_first (from_key key ?k ?rest) of
         Some old \<Rightarrow>
           if key old = ?k then do {
             cursor \<leftarrow> cursor_next D (es_cursor ?st1);
             Some (?st1\<lparr>es_cursor := cursor, es_removed := es_removed ?st1 @ [old]\<rparr>)
           } else Some ?st1
       | None \<Rightarrow> Some ?st1) = Some st2"
    and st2: "es_tree st2 = TT" "es_buffered st2 = B" "es_cursor st2 = c2"
    and c2: "cursor_ok I D c2" "can_seek c2" "c_did_seek c2" "c_tree c2 = c_tree ?c" "cursor_rest c2 = above key ?k ?rest"
  proof (cases "\<exists>y ys. from_key key ?k ?rest = y # ys \<and> key y = ?k")
    case True
    then obtain y ys where y: "from_key key ?k ?rest = y # ys" "key y = ?k" by blast
    have "c_stack CC \<noteq> []" using CC y by (auto simp: can_seek_def cursor_rest_def)
    then have "pending CC = ys" using CC y by (simp add: pending_def)
    with cursor_next_correct [OF CC(1)] obtain c2 where "cursor_next D CC = Some c2" "cursor_ok I D c2" "can_seek c2" "c_did_seek c2"
      "c_tree c2 = c_tree CC" "cursor_rest c2 = ys" by auto
    then show thesis using y CC(4)
      by (intro that [of "?st1\<lparr>es_cursor := c2, es_removed := es_removed ?st1 @ [y]\<rparr>" c2]) (simp_all add: above_def)
  next
    case False
    then show thesis using CC by (intro that [of ?st1 CC]) (cases "from_key key ?k ?rest"; auto simp: above_def)+
  qed
  let ?st3 = "st2\<lparr>es_buffered := es_buffered st2 @ [x]\<rparr>"
  have step: "edit_step I D key st (Insert x) = Some ?st3"
    unfolding edit_step_def Let_def edit_key.simps using flush skip by (auto simp: bind_eq_Some_conv)
  have "cursor_done c2 @ above key ?k ?rest = cursor_done ?c @ ?rest" using cursor_done_rest [OF c2(1)] c2(4,5) all by simp
  also have "\<dots> = (cursor_done ?c @ below key ?k ?rest @ (case keyed_map key ?rest ?k of None \<Rightarrow> [] | Some y \<Rightarrow> [y])) @ above key ?k ?rest"
    using p(4) by simp
  finally have d2: "cursor_done c2 = cursor_done ?c @ below key ?k ?rest @ (case keyed_map key ?rest ?k of None \<Rightarrow> [] | Some y \<Rightarrow> [y])"
    by (simp only: append_same_eq)
  have "\<forall>y \<in> set (cursor_done c2). key y \<le> ?k"
  proof
    fix y assume "y \<in> set (cursor_done c2)"
    then consider "y \<in> set (cursor_done ?c)" | "y \<in> set (below key ?k ?rest)" | "keyed_map key ?rest ?k = Some y"
      unfolding d2 by (cases "keyed_map key ?rest ?k") auto
    then show "key y \<le> ?k"
    proof cases
      case 2
      then show ?thesis using below_less [of y key ?k ?rest] by simp
    next
      case 3
      then show ?thesis using keyed_map_SomeD [OF 3] by simp
    qed (use dn in blast)
  qed
  then show ?thesis using step w1 c2 st2 F1 by (intro exI [of _ ?st3]) simp
qed

lemma insert_loop_any:
  assumes "wf_tree I (es_tree st)" and "cursor_ok I D (es_cursor st)" "can_seek (es_cursor st)" "c_did_seek (es_cursor st)"
    and "sorted_keys key (tree_items (c_tree (es_cursor st)))" and "sorted (map key xs)"
    and "\<forall>x \<in> set xs. \<forall>y \<in> set (cursor_done (es_cursor st)). key y \<le> key x"
  shows "\<exists>st'. edit_loop I D key st (map Insert xs) = Some st' \<and> wf_tree I (es_tree st') \<and> cursor_ok I D (es_cursor st') \<and>
    can_seek (es_cursor st') \<and>
    tree_items (es_tree st') @ es_buffered st' @ cursor_rest (es_cursor st') =
      tree_items (es_tree st) @ es_buffered st @ merge_inserts key (cursor_rest (es_cursor st)) xs"
  using assms
proof (induction xs arbitrary: st)
  case (Cons x xs)
  have d: "\<forall>y \<in> set (cursor_done (es_cursor st)). key y \<le> key x" using Cons.prems(7) by simp
  obtain st1 where s: "edit_step I D key st (Insert x) = Some st1" "wf_tree I (es_tree st1)" "cursor_ok I D (es_cursor st1)"
    "can_seek (es_cursor st1)" "c_did_seek (es_cursor st1)" "c_tree (es_cursor st1) = c_tree (es_cursor st)"
    "tree_items (es_tree st1) @ es_buffered st1 =
      tree_items (es_tree st) @ es_buffered st @ below key (key x) (cursor_rest (es_cursor st)) @ [x]"
    "cursor_rest (es_cursor st1) = above key (key x) (cursor_rest (es_cursor st))"
    "\<forall>y \<in> set (cursor_done (es_cursor st1)). key y \<le> key x"
    using insert_step_any [OF Cons.prems(1-5) d] by blast
  have t1: "sorted_keys key (tree_items (c_tree (es_cursor st1)))" "sorted (map key xs)"
    "\<forall>z \<in> set xs. \<forall>y \<in> set (cursor_done (es_cursor st1)). key y \<le> key z"
    using Cons.prems(5,6) s(6,9) by (auto intro: order_trans)
  obtain st' where st': "edit_loop I D key st1 (map Insert xs) = Some st'" "wf_tree I (es_tree st')" "cursor_ok I D (es_cursor st')"
    "can_seek (es_cursor st')" "tree_items (es_tree st') @ es_buffered st' @ cursor_rest (es_cursor st') =
      tree_items (es_tree st1) @ es_buffered st1 @ merge_inserts key (cursor_rest (es_cursor st1)) xs"
    using Cons.IH [OF s(2-5) t1] by blast
  have "tree_items (es_tree st1) @ es_buffered st1 @ zs =
      (tree_items (es_tree st) @ es_buffered st @ below key (key x) (cursor_rest (es_cursor st)) @ [x]) @ zs" for zs
    using s(7) by (metis append_assoc)
  then show ?case using s(1,8) st' by simp
qed simp

lemma insert_edits_any:
  assumes t: "wf_tree I t" "height t < STACK_CAPACITY" and s: "sorted_keys key (tree_items t)" and xs: "sorted (map key xs)"
  shows "\<exists>t' rm. edit_sorted I D key t (map Insert xs) = Some (t', rm) \<and> wf_tree I t' \<and>
    tree_items t' = merge_inserts key (tree_items t) xs"
proof (cases "xs = []")
  case True
  then show ?thesis using t by (simp add: edit_sorted_def)
next
  case False
  have b: "below key (d_zero D) (tree_items t) = []" "from_key key (d_zero D) (tree_items t) = tree_items t"
    using zero_le by (cases "tree_items t"; auto simp: below_def from_key_def not_less)+
  obtain c r where c: "seek D (cursor_new D t) (key_target (d_zero D)) Left = Some (c, r)" "cursor_ok I D c" "can_seek c"
    "c_did_seek c" "c_tree c = t" "cursor_done c = []" "cursor_rest c = tree_items t"
    using seek_key [OF t s, of "d_zero D"] unfolding b by blast
  let ?st = "\<lparr>es_tree = new I, es_buffered = [], es_cursor = c, es_removed = []\<rparr>"
  obtain st where st: "edit_loop I D key ?st (map Insert xs) = Some st" "wf_tree I (es_tree st)" "cursor_ok I D (es_cursor st)"
    "can_seek (es_cursor st)"
    "tree_items (es_tree st) @ es_buffered st @ cursor_rest (es_cursor st) = merge_inserts key (tree_items t) xs"
    using insert_loop_any [of ?st xs] c s xs by auto
  obtain t1 where t1: "SumTree.extend I (es_tree st) (es_buffered st) = Some t1" "wf_tree I t1"
    "tree_items t1 = tree_items (es_tree st) @ es_buffered st" using extend_correct [OF st(2)] by blast
  obtain c'' suf where sf: "suffix I D (es_cursor st) = Some (c'', suf)" "wf_tree I suf" "tree_items suf = cursor_rest (es_cursor st)"
    using suffix_correct [OF st(3,4)] by blast
  obtain t3 where t3: "append_tree I t1 suf = Some t3" "wf_tree I t3" "tree_items t3 = tree_items t1 @ tree_items suf"
    using append_tree_correct [OF t1(2) sf(2)] by blast
  show ?thesis using False c(1) st t1 sf t3 by (simp add: edit_sorted_def)
qed

end

end
