(* ===== verification/TreeIter.thy ===== *)
theory TreeIter
  imports CursorBack
begin

text \<open>
  The iterators over a summarised tree (\<open>Iter\<close> and \<open>Iterator for Cursor\<close> in
  \<open>crates/sum_tree/src/cursor.rs\<close>). \<open>Iter\<close> walks the same stack as a cursor's \<open>next\<close> without
  positions: it is shown to be that walk at the unit dimension, and to list the tree.
\<close>

subsection \<open>\<open>Iter\<close>\<close>

record ('t, 's) tree_iter =
  ti_tree :: "('t, 's) sum_tree"
  ti_stack :: "('t, 's, unit) stack_entry list"

definition iter_new :: "('t, 's) sum_tree \<Rightarrow> ('t, 's) tree_iter" where
  "iter_new tree = \<lparr>ti_tree = tree, ti_stack = []\<rparr>"

function (sequential) iter_loop ::
    "('t, 's, unit) stack_entry list \<Rightarrow> bool \<Rightarrow> (('t, 's, unit) stack_entry list \<times> 't option) option" where
  "iter_loop [] descend = Some ([], None)"
| "iter_loop (entry # stack) descend =
     (let entry1 = (if descend then entry else entry\<lparr>e_index := e_index entry + 1\<rparr>)
      in case e_tree entry of
           Internal _ _ _ cts \<Rightarrow> (
             case vec_get cts (e_index entry1) of
               Some subtree \<Rightarrow> (
                 case push_entry (entry1 # stack) \<lparr>e_tree = subtree, e_index = 0, e_position = ()\<rparr> of
                   None \<Rightarrow> None
                 | Some stack' \<Rightarrow> iter_loop stack' True)
             | None \<Rightarrow> iter_loop stack False)
         | Leaf _ its _ \<Rightarrow> (
             case vec_get its (e_index entry1) of
               Some x \<Rightarrow> Some (entry1 # stack, Some x)
             | None \<Rightarrow> iter_loop stack False))"
  by pat_completeness auto

lemma iter_weight_descend:
  assumes "vec_get cts i = Some c" and "e_tree e = Internal h s css cts" and "i = e_index e + (if desc then 0 else 1)"
    and "e_tree e1 = e_tree e" and "e_index e1 = i"
  shows "stack_weight False (\<lparr>e_tree = c, e_index = 0, e_position = ()\<rparr> # e1 # stack) <
      stack_weight (\<not> desc) (e # stack)"
proof -
  have c: "cts ! i = c" "i < length cts" using assms(1) by (auto simp: vec_get_def split: if_splits)
  have "entry_weight 0 \<lparr>e_tree = c, e_index = 0, e_position = ()\<rparr> + entry_weight 1 e1 <
      entry_weight (if desc then 0 else 1) e"
    using weight_descend [of i i cts "()"] c assms by (auto simp: entry_weight_def)
  then show ?thesis by (cases desc) simp_all
qed

termination iter_loop
proof (relation "measure (\<lambda>(stack, descend). stack_weight (\<not> descend) stack)", goal_cases)
  case 1
  show ?case by simp
next
  case 2
  then show ?case by (simp add: stack_weight_pop del: stack_weight.simps)
next
  case 3
  then show ?case
    by (simp only: in_measure prod.case push_entry_Some not_True_eq_False)
      (elim conjE, erule iter_weight_descend, simp_all)
next
  case 4
  then show ?case by (simp add: stack_weight_pop del: stack_weight.simps)
qed

definition iter_next :: "('t, 's) tree_iter \<Rightarrow> (('t, 's) tree_iter \<times> 't option) option" where
  "iter_next it = do {
     stack \<leftarrow> (if ti_stack it = [] then push_entry [] \<lparr>e_tree = ti_tree it, e_index = 0, e_position = ()\<rparr>
              else Some (ti_stack it));
     (stack', item) \<leftarrow> iter_loop stack (ti_stack it = []);
     Some (it\<lparr>ti_stack := stack'\<rparr>, item)
   }"

definition iter_last :: "('t, 's) tree_iter \<Rightarrow> 't option option" where
  "iter_last it = last_item (ti_tree it)"

definition iter_size_hint :: "('t, 's) tree_iter \<Rightarrow> nat" where
  "iter_size_hint it = (case ti_stack it of
     e # _ \<Rightarrow> length (child_summaries (e_tree e)) - e_index e
   | [] \<Rightarrow> length (child_summaries (ti_tree it)))"

text \<open>\<open>collect\<close> on the iterator, and on a cursor.\<close>

partial_function (option) iter_collect :: "('t, 's) tree_iter \<Rightarrow> 't list option" where
  "iter_collect it = do {
     (it', item) \<leftarrow> iter_next it;
     (case item of
        None \<Rightarrow> Some []
      | Some x \<Rightarrow> do { xs \<leftarrow> iter_collect it'; Some (x # xs) })
   }"

partial_function (option) cursor_collect :: "('d, 's) dim_ops \<Rightarrow> ('t, 's, 'd) cursor \<Rightarrow> 't list option" where
  "cursor_collect D c = do {
     (c', item) \<leftarrow> cursor_iter_next D c;
     (case item of
        None \<Rightarrow> Some []
      | Some x \<Rightarrow> do { xs \<leftarrow> cursor_collect D c'; Some (x # xs) })
   }"

definition iter :: "('t, 's) sum_tree \<Rightarrow> 't list option" where
  "iter t = iter_collect (iter_new t)"

subsection \<open>\<open>FilterCursor\<close>\<close>

record ('t, 's, 'd) filter_cursor =
  fc_cursor :: "('t, 's, 'd) cursor"
  fc_filter_node :: "'s \<Rightarrow> bool"

definition filter_cursor_new :: "('d, 's) dim_ops \<Rightarrow> ('t, 's) sum_tree \<Rightarrow> ('s \<Rightarrow> bool) \<Rightarrow> ('t, 's, 'd) filter_cursor" where
  "filter_cursor_new D tree f = \<lparr>fc_cursor = cursor_new D tree, fc_filter_node = f\<rparr>"

definition filter_cursor_next :: "('d, 's) dim_ops \<Rightarrow> ('t, 's, 'd) filter_cursor \<Rightarrow> ('t, 's, 'd) filter_cursor option" where
  "filter_cursor_next D fc =
     map_option (\<lambda>c. fc\<lparr>fc_cursor := c\<rparr>) (search_forward D (fc_filter_node fc) (fc_cursor fc))"

definition filter_cursor_prev :: "('d, 's) dim_ops \<Rightarrow> ('t, 's, 'd) filter_cursor \<Rightarrow> ('t, 's, 'd) filter_cursor option" where
  "filter_cursor_prev D fc =
     map_option (\<lambda>c. fc\<lparr>fc_cursor := c\<rparr>) (search_backward D (fc_filter_node fc) (fc_cursor fc))"

definition filter_cursor_iter_next ::
    "('d, 's) dim_ops \<Rightarrow> ('t, 's, 'd) filter_cursor \<Rightarrow> (('t, 's, 'd) filter_cursor \<times> 't option) option" where
  "filter_cursor_iter_next D fc = do {
     fc \<leftarrow> (if c_did_seek (fc_cursor fc) then Some fc else filter_cursor_next D fc);
     item \<leftarrow> cursor_item (fc_cursor fc);
     (case item of
        Some x \<Rightarrow> do { fc' \<leftarrow> filter_cursor_next D fc; Some (fc', Some x) }
      | None \<Rightarrow> Some (fc, None))
   }"

partial_function (option) filter_cursor_collect :: "('d, 's) dim_ops \<Rightarrow> ('t, 's, 'd) filter_cursor \<Rightarrow> 't list option" where
  "filter_cursor_collect D fc = do {
     (fc', item) \<leftarrow> filter_cursor_iter_next D fc;
     (case item of
        None \<Rightarrow> Some []
      | Some x \<Rightarrow> do { xs \<leftarrow> filter_cursor_collect D fc'; Some (x # xs) })
   }"

subsection \<open>The walk of \<open>Iter\<close> is the walk of a cursor's \<open>next\<close>\<close>

text \<open>Nodes whose summaries are as many as what they summarise.\<close>

fun lens_ok :: "('t, 's) sum_tree \<Rightarrow> bool" where
  "lens_ok (Internal _ _ css cts) \<longleftrightarrow> length css = length cts \<and> (\<forall>c \<in> set cts. lens_ok c)"
| "lens_ok (Leaf _ its iss) \<longleftrightarrow> length iss = length its"

lemma wf_node_lens: "wf_node I k t \<Longrightarrow> lens_ok t"
  by (induction t arbitrary: k) auto

definition top_item :: "('t, 's, 'd) stack_entry list \<Rightarrow> 't option" where
  "top_item st = (case st of e # _ \<Rightarrow> (case e_tree e of Leaf _ its _ \<Rightarrow> vec_get its (e_index e) | _ \<Rightarrow> None) | [] \<Rightarrow> None)"

lemma unit_entry: "e\<lparr>e_position := u\<rparr> = e" for e :: "('t, 's, unit) stack_entry"
  by (cases e) simp

lemma forward_children_unit:
  "forward_children D (\<lambda>_. True) e () css = (e, ())"
  by (cases css) simp_all

lemma iter_loop_forward:
  assumes "\<forall>e \<in> set st. lens_ok (e_tree e)"
    and "\<forall>e \<in> set (tl st). \<not> is_leaf (e_tree e)"
    and "st \<noteq> [] \<Longrightarrow> \<not> desc \<Longrightarrow> is_leaf (e_tree (hd st)) \<Longrightarrow>
           e_index (hd st) < length (child_summaries (e_tree (hd st)))"
  shows "iter_loop st desc =
     map_option (\<lambda>(st', _, found). (st', if found then top_item st' else None))
       (forward_loop unit_dim (\<lambda>_. True) st () desc)"
  using assms
proof (induction st desc rule: iter_loop.induct)
  case (2 entry stack descend)
  let ?e1 = "if descend then entry else entry\<lparr>e_index := e_index entry + 1\<rparr>"
  have pop: "iter_loop stack False = map_option (\<lambda>(st', _, found). (st', if found then top_item st' else None))
       (forward_loop unit_dim (\<lambda>_. True) stack () False)"
    if "\<And>h s css cts. e_tree entry = Internal h s css cts \<Longrightarrow> vec_get cts (e_index ?e1) = None"
      "\<And>s its iss. e_tree entry = Leaf s its iss \<Longrightarrow> vec_get its (e_index ?e1) = None"
  proof -
    have "\<forall>e \<in> set stack. lens_ok (e_tree e)" "\<forall>e \<in> set (tl stack). \<not> is_leaf (e_tree e)"
      "stack \<noteq> [] \<Longrightarrow> \<not> False \<Longrightarrow> is_leaf (e_tree (hd stack)) \<Longrightarrow>
         e_index (hd stack) < length (child_summaries (e_tree (hd stack)))"
      using "2.prems" by (cases stack; auto)+
    with 2 that show ?thesis by (cases "e_tree entry") auto
  qed
  show ?case
  proof (cases "e_tree entry")
    case (Internal h s css cts)
    have len: "length css = length cts" using "2.prems"(1) Internal by auto
    have step: "forward_loop unit_dim (\<lambda>_. True) (entry # stack) () descend =
      (case vec_get cts (e_index ?e1) of
         Some subtree \<Rightarrow> (
           case push_entry (?e1 # stack) \<lparr>e_tree = subtree, e_index = 0, e_position = ()\<rparr> of
             None \<Rightarrow> None
           | Some stack' \<Rightarrow> forward_loop unit_dim (\<lambda>_. True) stack' () True)
       | None \<Rightarrow> forward_loop unit_dim (\<lambda>_. True) stack () False)"
      using Internal by (simp add: Let_def forward_children_unit unit_entry cong: option.case_cong)
    show ?thesis
    proof (cases "vec_get cts (e_index ?e1)")
      case None
      then show ?thesis using pop step Internal by simp
    next
      case (Some c)
      then have c: "c \<in> set cts" by (auto simp: vec_get_def split: if_splits)
      show ?thesis
      proof (cases "length (?e1 # stack) < STACK_CAPACITY")
        case False
        then show ?thesis using step Some Internal by (simp add: push_entry_def)
      next
        case True
        let ?st = "\<lparr>e_tree = c, e_index = 0, e_position = ()\<rparr> # ?e1 # stack"
        have p: "push_entry (?e1 # stack) \<lparr>e_tree = c, e_index = 0, e_position = ()\<rparr> = Some ?st"
          using True by (simp add: push_entry_def)
        have "iter_loop ?st True = map_option (\<lambda>(st', _, found). (st', if found then top_item st' else None))
            (forward_loop unit_dim (\<lambda>_. True) ?st () True)"
          using "2.prems" c Internal by (intro "2.IH"(2) [OF refl Internal Some p]) auto
        moreover have "iter_loop (entry # stack) descend = iter_loop ?st True"
          by (subst iter_loop.simps) (simp only: Let_def Internal sum_tree.case Some option.case p)
        moreover have "forward_loop unit_dim (\<lambda>_. True) (entry # stack) () descend =
            forward_loop unit_dim (\<lambda>_. True) ?st () True"
          unfolding step Some by (simp only: option.case p)
        ultimately show ?thesis by (simp only:)
      qed
    qed
  next
    case (Leaf s its iss)
    have len: "length iss = length its" using "2.prems"(1) Leaf by auto
    have i: "\<not> descend \<Longrightarrow> e_index entry < length its" using "2.prems"(3) Leaf len by auto
    have step: "forward_loop unit_dim (\<lambda>_. True) (entry # stack) () descend =
      (case vec_get its (e_index ?e1) of
         Some x \<Rightarrow> Some (?e1 # stack, (), True)
       | None \<Rightarrow> forward_loop unit_dim (\<lambda>_. True) stack () False)"
      using Leaf len i
      by (cases "drop (e_index ?e1) iss")
        (auto simp: Let_def unit_entry vec_get_def not_less dest: arg_cong [where f = length])
    show ?thesis
    proof (cases "vec_get its (e_index ?e1)")
      case None
      then show ?thesis using pop step Leaf by simp
    next
      case (Some x)
      moreover have "top_item (?e1 # stack) = Some x" using Some Leaf by (cases descend) (simp_all add: top_item_def)
      moreover have "iter_loop (entry # stack) descend = Some (?e1 # stack, Some x)"
        by (subst iter_loop.simps) (simp only: Let_def Leaf sum_tree.case Some option.case)
      ultimately show ?thesis unfolding step by simp
    qed
  qed
qed simp

text \<open>What \<open>next\<close> on an iterator does: it returns the items of the tree in order.\<close>

definition iter_rest :: "('t, 's) tree_iter \<Rightarrow> 't list" where
  "iter_rest it = (if ti_stack it = [] then tree_items (ti_tree it) else stack_rest 1 (ti_stack it))"

definition iter_ok :: "('t, 's) item_ops \<Rightarrow> ('t, 's) tree_iter \<Rightarrow> bool" where
  "iter_ok I it \<longleftrightarrow> wf_tree I (ti_tree it) \<and> height (ti_tree it) < STACK_CAPACITY \<and>
     stack_ok I (ti_tree it) 0 1 (ti_stack it)"

lemma stack_ok_nodes:
  "stack_ok I tree k j st \<Longrightarrow> (\<forall>e \<in> set st. lens_ok (e_tree e)) \<and> (\<forall>e \<in> set (tl st). \<not> is_leaf (e_tree e))"
proof (induction st arbitrary: k j)
  case (Cons e st)
  have ok: "stack_ok I tree (k + 1) 1 st" using Cons.prems by simp
  have "\<forall>e \<in> set st. \<not> is_leaf (e_tree e)"
  proof (cases st)
    case (Cons e' st')
    with ok have "wf_node I (k + 1) (e_tree e')" by simp
    then have "\<not> is_leaf (e_tree e')" by (cases "e_tree e'") auto
    then show ?thesis using Cons.IH [OF ok] Cons by simp
  qed simp
  with Cons.IH [OF ok] Cons.prems show ?case by (auto intro: wf_node_lens)
qed simp

lemma parents_at_unit: "parents_at I unit_dim st"
  by (induction st) simp_all

lemma iter_next_correct:
  assumes I: "summary_laws I" and ok: "iter_ok I it"
  shows "\<exists>it'. iter_next it = Some (it', vec_first (iter_rest it)) \<and>
     (iter_rest it \<noteq> [] \<longrightarrow> iter_ok I it' \<and> iter_rest it' = tl (iter_rest it))"
proof (cases "tree_items (ti_tree it) = []")
  case True
  then have t: "ti_tree it = new I" using ok wf_tree_empty by (auto simp: iter_ok_def)
  have "ti_stack it = []"
  proof (rule ccontr)
    assume ne: "ti_stack it \<noteq> []"
    then obtain e st where e: "ti_stack it = e # st" by (cases "ti_stack it") auto
    have "stack_ok I (ti_tree it) 0 1 (e # st)" using ok e by (simp add: iter_ok_def)
    then obtain s its where "stack_rest 0 (e # st) \<noteq> []" by (rule stack_top_leaf) simp
    moreover have "stack_ok I (ti_tree it) 0 0 (ti_stack it)" using ok stack_ok_weaken by (auto simp: iter_ok_def)
    ultimately show False using stack_done_rest [OF _ ne, of I "ti_tree it" 0 0] True e by auto
  qed
  then show ?thesis
    by (simp add: iter_next_def push_entry_def STACK_CAPACITY_def t new_def vec_get_def iter_rest_def)
next
  case False
  note U = unit_dim_laws [OF I]
  let ?c = "\<lparr>c_tree = ti_tree it, c_stack = ti_stack it, c_position = (), c_did_seek = ti_stack it \<noteq> [],
             c_at_end = False\<rparr>"
  have "\<not> is_empty (ti_tree it)" using ok False wf_tree_is_empty by (auto simp: iter_ok_def)
  then have cok: "cursor_ok I unit_dim ?c"
    using ok False by (auto simp: cursor_ok_def iter_ok_def parents_at_unit)
  have pend: "pending ?c = iter_rest it"
  proof (cases "ti_stack it")
    case (Cons e st)
    then have "stack_ok I (ti_tree it) 0 1 (e # st)" using ok by (simp add: iter_ok_def)
    then show ?thesis
      by (rule stack_top_leaf) (simp add: pending_def cursor_rest_def iter_rest_def Cons del: stack_rest.simps)
  qed (simp add: pending_def cursor_rest_def iter_rest_def)
  have dw: "dropWhile (skipped I (\<lambda>_. True)) xs = xs" for xs by (cases xs) simp_all
  obtain st st' where s: "(if ti_stack it = [] then push_entry [] (root_entry unit_dim (ti_tree it))
        else Some (ti_stack it)) = Some st"
     "forward_loop unit_dim (\<lambda>_. True) st () (ti_stack it = []) = Some (st', (), iter_rest it \<noteq> [])"
     "seek_post I unit_dim (ti_tree it) st' (iter_rest it)"
    using dim_laws.search_forward_stack [OF U cok node_filter_True, unfolded pend dw cursor.simps] by auto
  have st: "\<forall>e \<in> set st. lens_ok (e_tree e)" "\<forall>e \<in> set (tl st). \<not> is_leaf (e_tree e)"
    "st \<noteq> [] \<Longrightarrow> ti_stack it \<noteq> [] \<Longrightarrow> is_leaf (e_tree (hd st)) \<Longrightarrow>
       e_index (hd st) < length (child_summaries (e_tree (hd st)))"
  proof -
    have wf: "wf_node I (height (ti_tree it)) (ti_tree it)" using ok False wf_tree_nonempty by (auto simp: iter_ok_def)
    have so: "stack_ok I (ti_tree it) 0 1 (ti_stack it)" using ok by (simp add: iter_ok_def)
    show "\<forall>e \<in> set st. lens_ok (e_tree e)" "\<forall>e \<in> set (tl st). \<not> is_leaf (e_tree e)"
      using s(1) wf_node_lens [OF wf] stack_ok_nodes [OF so]
      by (auto simp: push_entry_def STACK_CAPACITY_def root_entry_def split: if_splits)
    show "st \<noteq> [] \<Longrightarrow> ti_stack it \<noteq> [] \<Longrightarrow> is_leaf (e_tree (hd st)) \<Longrightarrow>
       e_index (hd st) < length (child_summaries (e_tree (hd st)))"
      using s(1) so by (cases st) auto
  qed
  have loop: "iter_loop st (ti_stack it = []) = Some (st', if iter_rest it \<noteq> [] then top_item st' else None)"
    using iter_loop_forward [of st "ti_stack it = []"] st s(2) by simp
  have nx: "iter_next it = Some (it\<lparr>ti_stack := st'\<rparr>, if iter_rest it \<noteq> [] then top_item st' else None)"
  proof -
    have st1: "(if ti_stack it = [] then push_entry [] \<lparr>e_tree = ti_tree it, e_index = 0, e_position = ()\<rparr>
        else Some (ti_stack it)) = Some st"
      using s(1) by (cases "ti_stack it = []") (simp_all add: root_entry_def unit_dim_def)
    show ?thesis unfolding iter_next_def st1 using loop by simp
  qed
  show ?thesis
  proof (cases "iter_rest it")
    case Nil
    then show ?thesis using nx by simp
  next
    case (Cons x xs)
    then obtain e r where er: "st' = e # r" using s(3) by (cases st') (auto simp: seek_post_def)
    have so: "stack_ok I (ti_tree it) 0 1 (e # r)" and sr: "stack_rest 0 (e # r) = x # xs"
      using s(3) er Cons by (simp_all add: seek_post_def)
    obtain s' its where l: "e_tree e = Leaf s' its (map (item_summary I) its)" "e_index e < length its"
      "stack_rest 0 (e # r) = its ! e_index e # stack_rest 1 (e # r)" using stack_top_leaf [OF so] .
    have "top_item st' = Some x" using l sr by (simp add: er top_item_def)
    moreover have "stack_rest 1 (e # r) = xs" using l(3) sr by simp
    ultimately show ?thesis
      using nx Cons ok so by (simp add: er iter_ok_def iter_rest_def del: stack_ok.simps stack_rest.simps)
  qed
qed

lemma iter_collect_correct:
  assumes "summary_laws I" and "iter_ok I it"
  shows "iter_collect it = Some (iter_rest it)"
  using assms(2)
proof (induction "length (iter_rest it)" arbitrary: it rule: less_induct)
  case less
  obtain it' where n: "iter_next it = Some (it', vec_first (iter_rest it))"
    "iter_rest it \<noteq> [] \<Longrightarrow> iter_ok I it' \<and> iter_rest it' = tl (iter_rest it)"
    using iter_next_correct [OF assms(1) less.prems] by blast
  show ?case
  proof (cases "iter_rest it")
    case Nil
    then show ?thesis using n by (subst iter_collect.simps) simp
  next
    case (Cons x xs)
    with n less.hyps [of it'] show ?thesis by (subst iter_collect.simps) simp
  qed
qed

lemma iter_wf:
  assumes "summary_laws I" and "wf_tree I t" and "height t < STACK_CAPACITY"
  shows "iter t = Some (tree_items t)"
  using iter_collect_correct [OF assms(1), of "iter_new t"] assms(2,3)
  by (simp add: iter_def iter_ok_def iter_new_def iter_rest_def)

subsection \<open>\<open>Iterator for Cursor\<close>\<close>

context dim_laws
begin

lemma cursor_iter_next_correct:
  assumes "cursor_ok I D c" and "can_seek c" and "c_did_seek c"
  shows "\<exists>c'. cursor_iter_next D c = Some (c', vec_first (cursor_rest c)) \<and>
     (cursor_rest c \<noteq> [] \<longrightarrow> cursor_ok I D c' \<and> can_seek c' \<and> c_did_seek c' \<and> cursor_rest c' = tl (cursor_rest c))"
proof (cases "cursor_rest c")
  case Nil
  then show ?thesis using cursor_item_ok(1) [OF assms(1,3,2)] assms(3) by (simp add: cursor_iter_next_def)
next
  case (Cons x xs)
  then have "pending c = xs"
    using assms by (auto simp: pending_def cursor_rest_def can_seek_def split: if_splits)
  then show ?thesis
    using cursor_item_ok(1) [OF assms(1,3,2)] assms(3) Cons cursor_next_correct [OF assms(1)]
    by (auto simp: cursor_iter_next_def)
qed

lemma cursor_collect_correct:
  "cursor_ok I D c \<Longrightarrow> can_seek c \<Longrightarrow> c_did_seek c \<Longrightarrow> cursor_collect D c = Some (cursor_rest c)"
proof (induction "length (cursor_rest c)" arbitrary: c rule: less_induct)
  case less
  obtain c' where n: "cursor_iter_next D c = Some (c', vec_first (cursor_rest c))"
    "cursor_rest c \<noteq> [] \<Longrightarrow> cursor_ok I D c' \<and> can_seek c' \<and> c_did_seek c' \<and> cursor_rest c' = tl (cursor_rest c)"
    using cursor_iter_next_correct [OF less.prems] by blast
  show ?case
  proof (cases "cursor_rest c")
    case Nil
    then show ?thesis using n by (subst cursor_collect.simps) simp
  next
    case (Cons x xs)
    with n less.hyps [of c'] show ?thesis by (subst cursor_collect.simps) simp
  qed
qed

text \<open>A filter cursor at an accepted item lists the accepted items of the rest.\<close>

lemma filter_cursor_collect_correct:
  assumes "cursor_ok I D (fc_cursor fc)" and "can_seek (fc_cursor fc)" and "c_did_seek (fc_cursor fc)"
    and "node_filter I (fc_filter_node fc)" and "\<And>x xs. cursor_rest (fc_cursor fc) = x # xs \<Longrightarrow> fc_filter_node fc (item_summary I x)"
  shows "filter_cursor_collect D fc =
     Some (filter (\<lambda>x. fc_filter_node fc (item_summary I x)) (cursor_rest (fc_cursor fc)))"
  using assms
proof (induction "length (cursor_rest (fc_cursor fc))" arbitrary: fc rule: less_induct)
  case less
  let ?c = "fc_cursor fc" and ?f = "fc_filter_node fc"
  note item = cursor_item_ok(1) [OF less.prems(1,3,2)]
  show ?case
  proof (cases "cursor_rest ?c")
    case Nil
    then show ?thesis
      using item less.prems(3) by (subst filter_cursor_collect.simps) (simp add: filter_cursor_iter_next_def)
  next
    case (Cons x xs)
    then have p: "pending ?c = xs"
      using less.prems by (auto simp: pending_def cursor_rest_def can_seek_def split: if_splits)
    have fx: "?f (item_summary I x)" by (rule less.prems(5) [OF Cons])
    obtain c' where c': "search_forward D ?f ?c = Some c'" "cursor_ok I D c'" "can_seek c'" "c_did_seek c'"
      "cursor_rest c' = dropWhile (\<lambda>x. \<not> ?f (item_summary I x)) xs"
      using search_forward_correct [OF less.prems(1,4)] p by auto
    let ?fc = "fc\<lparr>fc_cursor := c'\<rparr>"
    have len: "length (cursor_rest (fc_cursor ?fc)) < length (cursor_rest ?c)"
      using c'(5) Cons length_dropWhile_le [of "\<lambda>x. \<not> ?f (item_summary I x)" xs] by simp
    have hd: "?f (item_summary I y)" if "cursor_rest c' = y # ys" for y ys
      using that c'(5) hd_dropWhile [of "\<lambda>x. \<not> ?f (item_summary I x)" xs] by simp
    have "filter_cursor_collect D ?fc =
        Some (filter (\<lambda>x. fc_filter_node ?fc (item_summary I x)) (cursor_rest (fc_cursor ?fc)))"
    proof (rule less.hyps [OF len])
      show "fc_filter_node ?fc (item_summary I y)" if "cursor_rest (fc_cursor ?fc) = y # ys" for y ys
        using hd that by simp
    qed (simp_all add: c'(2,3,4) less.prems(4))
    then have "filter_cursor_collect D ?fc = Some (filter (\<lambda>x. ?f (item_summary I x)) (cursor_rest c'))"
      by simp
    moreover have "filter (\<lambda>x. ?f (item_summary I x)) (cursor_rest c') = filter (\<lambda>x. ?f (item_summary I x)) xs"
      unfolding c'(5) by (induction xs) auto
    moreover have "filter_cursor_iter_next D fc = Some (?fc, Some x)"
      using item less.prems(3) Cons c'(1) by (simp add: filter_cursor_iter_next_def filter_cursor_next_def)
    ultimately show ?thesis
      using fx Cons by (subst filter_cursor_collect.simps) simp
  qed
qed

end

end
