(* ===== verification/TreeMap.thy ===== *)
theory TreeMap
  imports Keyed TreeIter "HOL-Library.Option_ord"
begin

text \<open>
  The ordered map and set on a summarised tree (\<open>crates/sum_tree/src/tree_map.rs\<close>). An entry is
  summarised by its key, \<open>MapKey(Option<K>)\<close>, and the sum of summaries is the last one; the empty
  summary is \<open>None\<close>, which is below every key. The dictionaries of this instance satisfy the
  contracts of the tree, of a dimension and of a keyed item, and the map's operations are shown to
  implement a finite map.
\<close>

subsection \<open>The instance\<close>

record ('k, 'v) map_entry =
  me_key :: 'k
  me_value :: 'v

type_synonym ('k, 'v) tree_map = "(('k, 'v) map_entry, 'k option) sum_tree"

definition entry_key :: "('k, 'v) map_entry \<Rightarrow> 'k option" where
  "entry_key e = Some (me_key e)"

definition map_ops :: "(('k, 'v) map_entry, 'k option) item_ops" where
  "map_ops = \<lparr>item_summary = entry_key, s_zero = None, s_add = (\<lambda>_ summary. summary)\<rparr>"

definition map_key_ref :: "('k option, 'k option) dim_ops" where
  "map_key_ref = \<lparr>d_zero = None, d_add = (\<lambda>_ summary. summary)\<rparr>"

text \<open>\<open>MapSeekTargetAdaptor\<close>: a target on keys; the start of the tree is before every target.\<close>

definition map_target :: "('k \<Rightarrow> ordering) \<Rightarrow> 'k option seek_target" where
  "map_target cmp_cursor = (\<lambda>location. case location of Some key \<Rightarrow> cmp_cursor key | None \<Rightarrow> Greater)"

subsection \<open>Operations\<close>

definition tm_empty :: "('k, 'v) tree_map" where
  "tm_empty = new map_ops"

definition tm_from_ordered_entries :: "('k \<times> 'v) list \<Rightarrow> ('k, 'v) tree_map option" where
  "tm_from_ordered_entries xs = from_iter map_ops (map (\<lambda>(k, v). \<lparr>me_key = k, me_value = v\<rparr>) xs)"

definition tm_is_empty :: "('k, 'v) tree_map \<Rightarrow> bool" where
  "tm_is_empty m = is_empty m"

definition tm_get :: "('k::linorder, 'v) tree_map \<Rightarrow> 'k \<Rightarrow> 'v option" where
  "tm_get m key = (case find map_key_ref m (key_target (Some key)) Left of
     (_, _, Some item) \<Rightarrow> if Some key = entry_key item then Some (me_value item) else None
   | (_, _, None) \<Rightarrow> None)"

definition tm_contains_key :: "('k::linorder, 'v) tree_map \<Rightarrow> 'k \<Rightarrow> bool" where
  "tm_contains_key m key \<longleftrightarrow> tm_get m key \<noteq> None"

definition tm_insert_or_replace ::
    "('k::linorder, 'v) tree_map \<Rightarrow> 'k \<Rightarrow> 'v \<Rightarrow> (('k, 'v) tree_map \<times> 'v option) option" where
  "tm_insert_or_replace m key v = do {
     (m', old) \<leftarrow> insert_or_replace map_ops map_key_ref entry_key m \<lparr>me_key = key, me_value = v\<rparr>;
     Some (m', map_option me_value old)
   }"

definition tm_insert :: "('k::linorder, 'v) tree_map \<Rightarrow> 'k \<Rightarrow> 'v \<Rightarrow> ('k, 'v) tree_map option" where
  "tm_insert m key v = map_option fst (insert_or_replace map_ops map_key_ref entry_key m \<lparr>me_key = key, me_value = v\<rparr>)"

definition tm_extend :: "('k::linorder, 'v) tree_map \<Rightarrow> ('k \<times> 'v) list \<Rightarrow> ('k, 'v) tree_map option \<Rightarrow> bool" where
  "tm_extend m kvs res \<longleftrightarrow>
     (\<exists>r. edits map_ops map_key_ref entry_key m (map (\<lambda>(k, v). Insert \<lparr>me_key = k, me_value = v\<rparr>) kvs) r \<and>
          res = map_option fst r)"

definition tm_remove :: "('k::linorder, 'v) tree_map \<Rightarrow> 'k \<Rightarrow> (('k, 'v) tree_map \<times> 'v option) option" where
  "tm_remove m k = do {
     let key = Some k;
     (cursor, new_tree) \<leftarrow> slice map_ops map_key_ref (cursor_new map_key_ref m) (key_target key) Left;
     end_pos \<leftarrow> cursor_end map_key_ref cursor;
     (removed, cursor) \<leftarrow> (if key_target key end_pos = Equal then do {
         it \<leftarrow> cursor_item cursor;
         item \<leftarrow> it;
         cursor \<leftarrow> cursor_next map_key_ref cursor;
         Some (Some (me_value item), cursor)
       } else Some (None, cursor));
     (_, suf) \<leftarrow> suffix map_ops map_key_ref cursor;
     new_tree \<leftarrow> append_tree map_ops new_tree suf;
     Some (new_tree, removed)
   }"

definition tm_remove_range ::
    "('k::linorder, 'v) tree_map \<Rightarrow> ('k \<Rightarrow> ordering) \<Rightarrow> ('k \<Rightarrow> ordering) \<Rightarrow> ('k, 'v) tree_map option" where
  "tm_remove_range m start_t end_t = do {
     (cursor, new_tree) \<leftarrow> slice map_ops map_key_ref (cursor_new map_key_ref m) (map_target start_t) Left;
     (cursor, _) \<leftarrow> seek map_key_ref cursor (map_target end_t) Left;
     (_, suf) \<leftarrow> suffix map_ops map_key_ref cursor;
     append_tree map_ops new_tree suf
   }"

definition tm_closest :: "('k::linorder, 'v) tree_map \<Rightarrow> 'k \<Rightarrow> ('k \<times> 'v) option option" where
  "tm_closest m k = do {
     (cursor, _) \<leftarrow> seek map_key_ref (cursor_new map_key_ref m) (key_target (Some k)) Right;
     cursor \<leftarrow> cursor_prev map_key_ref cursor;
     it \<leftarrow> cursor_item cursor;
     Some (map_option (\<lambda>item. (me_key item, me_value item)) it)
   }"

definition tm_iter_from :: "('k::linorder, 'v) tree_map \<Rightarrow> 'k \<Rightarrow> ('k \<times> 'v) list option" where
  "tm_iter_from m from = do {
     (cursor, _) \<leftarrow> seek map_key_ref (cursor_new map_key_ref m) (key_target (Some from)) Left;
     es \<leftarrow> cursor_collect map_key_ref cursor;
     Some (map (\<lambda>e. (me_key e, me_value e)) es)
   }"

definition tm_update ::
    "('k::linorder, 'v) tree_map \<Rightarrow> 'k \<Rightarrow> ('v \<Rightarrow> 'v \<times> 'r) \<Rightarrow> (('k, 'v) tree_map \<times> 'r option) option" where
  "tm_update m k f = do {
     let key = Some k;
     (cursor, new_tree) \<leftarrow> slice map_ops map_key_ref (cursor_new map_key_ref m) (key_target key) Left;
     end_pos \<leftarrow> cursor_end map_key_ref cursor;
     (result, new_tree, cursor) \<leftarrow> (if key_target key end_pos = Equal then do {
         it \<leftarrow> cursor_item cursor;
         updated \<leftarrow> it;
         let (v, r) = f (me_value updated);
         new_tree \<leftarrow> push map_ops new_tree (updated\<lparr>me_value := v\<rparr>);
         cursor \<leftarrow> cursor_next map_key_ref cursor;
         Some (Some r, new_tree, cursor)
       } else Some (None, new_tree, cursor));
     (_, suf) \<leftarrow> suffix map_ops map_key_ref cursor;
     new_tree \<leftarrow> append_tree map_ops new_tree suf;
     Some (new_tree, result)
   }"

partial_function (option) tm_retain_loop ::
    "('k \<Rightarrow> 'v \<Rightarrow> bool) \<Rightarrow> ('k, 'v) tree_map \<Rightarrow> (('k, 'v) map_entry, 'k option, 'k option) cursor \<Rightarrow>
      ('k, 'v) tree_map option" where
  "tm_retain_loop predicate new_map cursor = do {
     it \<leftarrow> cursor_item cursor;
     (case it of
        None \<Rightarrow> Some new_map
      | Some item \<Rightarrow> do {
          new_map \<leftarrow> (if predicate (me_key item) (me_value item) then push map_ops new_map item else Some new_map);
          cursor \<leftarrow> cursor_next map_key_ref cursor;
          tm_retain_loop predicate new_map cursor
        })
   }"

definition tm_retain :: "('k, 'v) tree_map \<Rightarrow> ('k \<Rightarrow> 'v \<Rightarrow> bool) \<Rightarrow> ('k, 'v) tree_map option" where
  "tm_retain m predicate = do {
     cursor \<leftarrow> cursor_next map_key_ref (cursor_new map_key_ref m);
     tm_retain_loop predicate (new map_ops) cursor
   }"

definition tm_iter :: "('k, 'v) tree_map \<Rightarrow> ('k \<times> 'v) list option" where
  "tm_iter m = map_option (map (\<lambda>e. (me_key e, me_value e))) (iter m)"

definition tm_values :: "('k, 'v) tree_map \<Rightarrow> 'v list option" where
  "tm_values m = map_option (map me_value) (iter m)"

definition tm_first :: "('k, 'v) tree_map \<Rightarrow> ('k \<times> 'v) option option" where
  "tm_first m = map_option (map_option (\<lambda>e. (me_key e, me_value e))) (first m)"

definition tm_last :: "('k, 'v) tree_map \<Rightarrow> ('k \<times> 'v) option option" where
  "tm_last m = map_option (map_option (\<lambda>e. (me_key e, me_value e))) (last_item m)"

definition tm_insert_tree :: "('k::linorder, 'v) tree_map \<Rightarrow> ('k, 'v) tree_map \<Rightarrow> ('k, 'v) tree_map option \<Rightarrow> bool" where
  "tm_insert_tree m other res \<longleftrightarrow>
     (\<exists>kvs. tm_iter other = Some kvs \<and>
       (\<exists>r. edits map_ops map_key_ref entry_key m (map (\<lambda>(k, v). Insert \<lparr>me_key = k, me_value = v\<rparr>) kvs) r \<and>
            res = map_option fst r))"

subsection \<open>The instance keeps the contracts\<close>

interpretation map_sum: summary_laws map_ops
  by unfold_locales (simp_all add: map_ops_def)

interpretation map_dim: zero_dim_laws map_ops map_key_ref
  by unfold_locales (simp_all add: map_ops_def map_key_ref_def)

interpretation map_keyed: keyed_laws map_ops map_key_ref entry_key
  by unfold_locales (simp_all add: map_ops_def map_key_ref_def entry_key_def less_eq_option_None)

lemma map_key_bound [simp]: "key_bound entry_key None xs \<longleftrightarrow> sorted_keys entry_key xs"
  by (simp add: key_bound_def less_eq_option_None)

interpretation map_slice: seek_cursor map_ops "slice_agg map_ops" "slice_AR map_ops" "slice_PR map_ops" map_key_ref ..

subsection \<open>The map a tree map stands for\<close>

definition tm_ok :: "('k::linorder, 'v) tree_map \<Rightarrow> bool" where
  "tm_ok m \<longleftrightarrow> wf_tree map_ops m \<and> sorted_keys entry_key (tree_items m)"

definition fits_stack :: "('t, 's) sum_tree \<Rightarrow> bool" where
  "fits_stack t \<longleftrightarrow> height t < STACK_CAPACITY"

definition entries :: "('k, 'v) map_entry list \<Rightarrow> 'k \<rightharpoonup> 'v" where
  "entries xs = (\<lambda>k. map_option me_value (keyed_map entry_key xs (Some k)))"

definition tm_map :: "('k, 'v) tree_map \<Rightarrow> 'k \<rightharpoonup> 'v" where
  "tm_map m = entries (tree_items m)"

lemma entries_map_of: "entries xs = map_of (map (\<lambda>e. (me_key e, me_value e)) xs)"
proof
  fix k show "entries xs k = map_of (map (\<lambda>e. (me_key e, me_value e)) xs) k"
    by (induction xs) (auto simp: entries_def entry_key_def)
qed

lemma entries_put: "keyed_map entry_key ys = (keyed_map entry_key xs)(Some k \<mapsto> e) \<Longrightarrow> entries ys = (entries xs)(k \<mapsto> me_value e)"
  by (auto simp: entries_def fun_eq_iff)

lemma entries_drop: "keyed_map entry_key ys = (keyed_map entry_key xs)(Some k := None) \<Longrightarrow> entries ys = (entries xs)(k := None)"
  by (auto simp: entries_def fun_eq_iff)

lemma tm_map_get: "map_option me_value (keyed_map entry_key (tree_items m) (Some k)) = tm_map m k"
  by (simp add: tm_map_def entries_def)

lemma map_ops_simps [simp]: "item_summary map_ops = entry_key" "d_zero map_key_ref = None"
  "d_add map_key_ref d s = s" "s_zero map_ops = None"
  by (simp_all add: map_ops_def map_key_ref_def)

lemma tm_empty_ok: "tm_ok tm_empty" "tm_map tm_empty = Map.empty" "fits_stack tm_empty"
  by (simp_all add: tm_ok_def tm_empty_def tm_map_def entries_def fits_stack_def STACK_CAPACITY_def new_def wf_tree_def)

subsection \<open>Lookups\<close>

lemma tm_get_ok:
  assumes "tm_ok m" shows "tm_get m k = tm_map m k"
proof -
  let ?xs = "tree_items m"
  have m: "wf_tree map_ops m" "sorted_keys entry_key ?xs" using assms by (simp_all add: tm_ok_def)
  obtain p where sp: "seek_split map_ops map_key_ref (\<lambda>d. passes Left (key_target (Some k) d)) None ?xs =
      (below entry_key (Some k) ?xs, from_key entry_key (Some k) ?xs, p)"
    using map_keyed.seek_split_key [of None ?xs "Some k"] m(2) by auto
  note f = map_dim.find_correct [OF m(1) map_keyed.mono_key [of _ _ Left "Some k"]]
  show ?thesis
    unfolding tm_get_def tm_map_get [symmetric] above_props(3) [OF m(2)]
    using f sp m(2) by (cases "from_key entry_key (Some k) ?xs") auto
qed

lemma tm_first_ok:
  assumes "tm_ok m"
  shows "tm_first m = Some (map_option (\<lambda>e. (me_key e, me_value e)) (vec_first (tree_items m)))"
  using first_correct [of map_ops m] assms by (simp add: tm_first_def tm_ok_def)

lemma tm_iter_ok:
  assumes "tm_ok m" and "fits_stack m"
  shows "tm_iter m = Some (map (\<lambda>e. (me_key e, me_value e)) (tree_items m))"
  using iter_wf [OF map_sum.summary_laws_axioms, of m] assms by (simp add: tm_iter_def tm_ok_def fits_stack_def)

text \<open>The entry on or before a key.\<close>

lemma seek_right_split:
  assumes "sorted_keys entry_key xs"
  shows "\<exists>p. seek_split map_ops map_key_ref (\<lambda>d. passes Right (key_target k d)) d xs =
     (takeWhile (\<lambda>e. entry_key e \<le> k) xs, dropWhile (\<lambda>e. entry_key e \<le> k) xs, p)"
  using assms
proof (induction xs arbitrary: d)
  case (Cons x xs)
  then obtain p where "seek_split map_ops map_key_ref (\<lambda>d. passes Right (key_target k d)) (entry_key x) xs =
     (takeWhile (\<lambda>e. entry_key e \<le> k) xs, dropWhile (\<lambda>e. entry_key e \<le> k) xs, p)" by fastforce
  then show ?case by (auto simp: map_keyed.passes_key Let_def)
qed simp

lemma tm_closest_ok:
  assumes "tm_ok m" and "fits_stack m"
  shows "tm_closest m k = Some (map_option (\<lambda>e. (me_key e, me_value e))
     (vec_last (takeWhile (\<lambda>e. me_key e \<le> k) (tree_items m))))"
proof -
  let ?xs = "tree_items m" and ?k = "Some k"
  let ?a = "takeWhile (\<lambda>e. entry_key e \<le> ?k) ?xs" and ?b = "dropWhile (\<lambda>e. entry_key e \<le> ?k) ?xs"
  have m: "wf_tree map_ops m" "sorted_keys entry_key ?xs" "height m < STACK_CAPACITY"
    using assms by (simp_all add: tm_ok_def fits_stack_def)
  obtain p where sp: "seek_split map_ops map_key_ref (\<lambda>d. passes Right (key_target ?k d)) (d_zero map_key_ref) ?xs = (?a, ?b, p)"
    using seek_right_split [OF m(2)] by blast
  have "c_tree (cursor_new map_key_ref m) = m" "key_target ?k (d_zero map_key_ref) \<noteq> Less"
    by (simp_all add: cursor_new_def key_target_def)
  from map_dim.seek_correct [OF m(1,3) this map_keyed.mono_key sp] m(2)
  obtain c r where c: "seek map_key_ref (cursor_new map_key_ref m) (key_target ?k) Right = Some (c, r)"
    "cursor_ok map_ops map_key_ref c" "c_did_seek c" "c_tree c = m" "cursor_done c = ?a" by auto
  obtain c' where c': "cursor_prev map_key_ref c = Some c'" "cursor_ok map_ops map_key_ref c'" "c_did_seek c'"
    "c_tree c' = m" "cursor_done c' = butlast ?a" "can_seek c' \<longleftrightarrow> ?a \<noteq> [] \<or> ?xs = []"
    using map_dim.cursor_prev_correct [OF c(2)] c by (auto simp: behind_def)
  have "cursor_item c' = Some (vec_last ?a)"
  proof (cases "?a = []")
    case True
    show ?thesis
    proof (cases "can_seek c'")
      case True
      then have e: "?xs = []" using c'(6) \<open>?a = []\<close> by simp
      then have "cursor_rest c' = []" using cursor_done_rest [OF c'(2)] c' by simp
      with cursor_item_ok(1) [OF c'(2,3) True] e show ?thesis by simp
    next
      case False
      then show ?thesis using True c'(3) by (simp add: can_seek_def cursor_item_def)
    qed
  next
    case False
    have "butlast ?a @ cursor_rest c' = ?a @ ?b" using cursor_done_rest [OF c'(2)] c' by simp
    also have "?a @ ?b = (butlast ?a @ [last ?a]) @ ?b" by (simp only: append_butlast_last_id [OF False])
    finally have "butlast ?a @ cursor_rest c' = butlast ?a @ last ?a # ?b" by simp
    then have "cursor_rest c' = last ?a # ?b" by (simp only: same_append_eq)
    with cursor_item_ok(1) [OF c'(2,3)] c'(6) False show ?thesis by simp
  qed
  moreover have "?a = takeWhile (\<lambda>e. me_key e \<le> k) ?xs"
    by (simp add: entry_key_def)
  ultimately show ?thesis using c(1) c'(1) by (simp add: tm_closest_def)
qed

subsection \<open>Updates\<close>

lemma tm_insert_or_replace_ok:
  assumes "tm_ok m" and "fits_stack m"
  shows "\<exists>m'. tm_insert_or_replace m k v = Some (m', tm_map m k) \<and> tm_insert m k v = Some m' \<and> tm_ok m' \<and>
     tm_map m' = (tm_map m)(k \<mapsto> v)"
proof -
  let ?e = "\<lparr>me_key = k, me_value = v\<rparr>"
  have m: "wf_tree map_ops m" "height m < STACK_CAPACITY" "sorted_keys entry_key (tree_items m)"
    using assms by (simp_all add: tm_ok_def fits_stack_def)
  have e: "entry_key ?e = Some k" by (simp add: entry_key_def)
  obtain m' where m': "insert_or_replace map_ops map_key_ref entry_key m ?e = Some (m', keyed_map entry_key (tree_items m) (Some k))"
    "wf_tree map_ops m'" "tree_items m' = below entry_key (Some k) (tree_items m) @ ?e # above entry_key (Some k) (tree_items m)"
    using map_keyed.insert_or_replace_items [OF m, of ?e] unfolding e by blast
  have "tm_ok m'" using m'(2,3) sorted_split(2) [OF m(3) e] by (simp add: tm_ok_def)
  moreover have "tm_map m' = (tm_map m)(k \<mapsto> v)"
    using entries_put [OF keyed_map_split(2) [OF m(3) e]] by (simp add: tm_map_def m'(3))
  ultimately show ?thesis
    using m'(1) by (simp add: tm_insert_or_replace_def tm_insert_def tm_map_get)
qed

text \<open>After a slice to a key: the end of the cursor is the key exactly when the map has it.\<close>

lemma slice_at_key:
  assumes "tm_ok m" and "fits_stack m"
  shows "\<exists>c t1 p. slice map_ops map_key_ref (cursor_new map_key_ref m) (key_target (Some k)) Left = Some (c, t1) \<and>
     wf_tree map_ops t1 \<and> tree_items t1 = below entry_key (Some k) (tree_items m) \<and>
     cursor_end map_key_ref c = Some p \<and>
     (case keyed_map entry_key (tree_items m) (Some k) of
        None \<Rightarrow> key_target (Some k) p \<noteq> Equal \<and>
          (\<exists>c1 suf. suffix map_ops map_key_ref c = Some (c1, suf) \<and> wf_tree map_ops suf \<and>
             tree_items suf = above entry_key (Some k) (tree_items m))
      | Some x \<Rightarrow> key_target (Some k) p = Equal \<and> cursor_item c = Some (Some x) \<and>
          (\<exists>c1 c2 suf. cursor_next map_key_ref c = Some c1 \<and> suffix map_ops map_key_ref c1 = Some (c2, suf) \<and>
             wf_tree map_ops suf \<and> tree_items suf = above entry_key (Some k) (tree_items m)))"
proof -
  let ?xs = "tree_items m" and ?k = "Some k"
  have m: "wf_tree map_ops m" "height m < STACK_CAPACITY" "sorted_keys entry_key ?xs"
    using assms by (simp_all add: tm_ok_def fits_stack_def)
  note n = map_keyed.fresh_cursor [OF m(1,2)]
  obtain c t1 where c: "slice map_ops map_key_ref (cursor_new map_key_ref m) (key_target ?k) Left = Some (c, t1)"
    "wf_tree map_ops t1" "tree_items t1 = below entry_key ?k ?xs" "cursor_ok map_ops map_key_ref c"
    "can_seek c" "c_did_seek c" "cursor_done c = below entry_key ?k ?xs" "cursor_rest c = from_key entry_key ?k ?xs"
    using map_keyed.slice_key [OF n(1,2), of ?k] n m(3) by auto
  note item = cursor_item_ok [OF c(4,6,5)]
  note ab = above_props(3) [OF m(3), of ?k]
  have pos: "c_position c \<noteq> ?k"
  proof (cases "cursor_done c = []")
    case False
    then have "entry_key (last (cursor_done c)) < ?k" using c(7) by (intro below_less [of _ entry_key ?k ?xs]) simp
    moreover have "sorted_keys entry_key (cursor_done c @ cursor_rest c)"
      unfolding c(7,8) below_from_key by (rule m(3))
    then have "sorted_keys entry_key (cursor_done c)" by simp
    ultimately show ?thesis
      using c(4) map_keyed.pos_after_key [of None, OF _ False] by (simp add: cursor_ok_def)
  qed (use c(4) in \<open>simp add: cursor_ok_def\<close>)
  show ?thesis
  proof (cases "keyed_map entry_key ?xs ?k")
    case None
    then have a: "above entry_key ?k ?xs = from_key entry_key ?k ?xs"
      using ab by (cases "from_key entry_key ?k ?xs") (auto simp: above_def split: if_splits)
    obtain c1 suf where sf: "suffix map_ops map_key_ref c = Some (c1, suf)" "wf_tree map_ops suf"
      "tree_items suf = cursor_rest c"
      using map_dim.suffix_correct [OF c(4,5)] by blast
    let ?p = "case vec_first (cursor_rest c) of None \<Rightarrow> c_position c | Some x \<Rightarrow> entry_key x"
    have "cursor_end map_key_ref c = Some ?p"
      using item(2) by (simp add: cursor_end_def split: option.split)
    moreover have "key_target ?k ?p \<noteq> Equal"
      using pos None ab c(8) by (auto simp: key_target_def split: list.splits if_splits)
    ultimately show ?thesis using None c(1,2,3,8) sf a by auto
  next
    case (Some x)
    then obtain ys where y: "from_key entry_key ?k ?xs = x # ys" "entry_key x = ?k"
      using ab by (auto split: list.splits if_splits)
    then have a: "above entry_key ?k ?xs = ys" by (simp add: above_def)
    have "c_stack c \<noteq> []" using c y by (auto simp: can_seek_def cursor_rest_def)
    then have "pending c = ys" using c(8) y by (simp add: pending_def)
    with map_dim.cursor_next_correct [OF c(4)] obtain c1 where c1: "cursor_next map_key_ref c = Some c1"
      "cursor_ok map_ops map_key_ref c1" "can_seek c1" "cursor_rest c1 = ys" by auto
    obtain c2 suf where sf: "suffix map_ops map_key_ref c1 = Some (c2, suf)" "wf_tree map_ops suf"
      "tree_items suf = cursor_rest c1"
      using map_dim.suffix_correct [OF c1(2,3)] by blast
    have "cursor_end map_key_ref c = Some ?k" "cursor_item c = Some (Some x)"
      using item c(8) y by (simp_all add: cursor_end_def)
    then show ?thesis using Some c(1,2,3) c1 sf a by (auto simp: key_target_def)
  qed
qed

lemma tm_remove_ok:
  assumes "tm_ok m" and "fits_stack m"
  shows "\<exists>m'. tm_remove m k = Some (m', tm_map m k) \<and> tm_ok m' \<and> tm_map m' = (tm_map m)(k := None)"
proof -
  have s: "sorted_keys entry_key (tree_items m)" using assms by (simp add: tm_ok_def)
  obtain c t1 p where c: "slice map_ops map_key_ref (cursor_new map_key_ref m) (key_target (Some k)) Left = Some (c, t1)"
     "wf_tree map_ops t1" "tree_items t1 = below entry_key (Some k) (tree_items m)"
     "cursor_end map_key_ref c = Some p"
    and r: "case keyed_map entry_key (tree_items m) (Some k) of
        None \<Rightarrow> key_target (Some k) p \<noteq> Equal \<and>
          (\<exists>c1 suf. suffix map_ops map_key_ref c = Some (c1, suf) \<and> wf_tree map_ops suf \<and>
             tree_items suf = above entry_key (Some k) (tree_items m))
      | Some x \<Rightarrow> key_target (Some k) p = Equal \<and> cursor_item c = Some (Some x) \<and>
          (\<exists>c1 c2 suf. cursor_next map_key_ref c = Some c1 \<and> suffix map_ops map_key_ref c1 = Some (c2, suf) \<and>
             wf_tree map_ops suf \<and> tree_items suf = above entry_key (Some k) (tree_items m))"
    using slice_at_key [OF assms] by blast
  obtain m' where "tm_remove m k = Some (m', map_option me_value (keyed_map entry_key (tree_items m) (Some k)))"
    "wf_tree map_ops m'" "tree_items m' = below entry_key (Some k) (tree_items m) @ above entry_key (Some k) (tree_items m)"
  proof (cases "keyed_map entry_key (tree_items m) (Some k)")
    case None
    with r obtain c1 suf where sf: "key_target (Some k) p \<noteq> Equal" "suffix map_ops map_key_ref c = Some (c1, suf)"
      "wf_tree map_ops suf" "tree_items suf = above entry_key (Some k) (tree_items m)" by auto
    from map_sum.append_tree_correct [OF c(2) sf(3)] show ?thesis
      using that None c sf by (auto simp: tm_remove_def Let_def)
  next
    case (Some x)
    with r obtain c1 c2 suf where sf: "key_target (Some k) p = Equal" "cursor_item c = Some (Some x)"
      "cursor_next map_key_ref c = Some c1" "suffix map_ops map_key_ref c1 = Some (c2, suf)"
      "wf_tree map_ops suf" "tree_items suf = above entry_key (Some k) (tree_items m)" by auto
    from map_sum.append_tree_correct [OF c(2) sf(5)] show ?thesis
      using that Some c sf by (auto simp: tm_remove_def Let_def)
  qed
  then show ?thesis
    using sorted_split(1) [OF s, of "Some k"] entries_drop [OF keyed_map_split(1) [OF s, of "Some k"]]
    by (auto simp: tm_ok_def tm_map_def entries_def simp del: sorted_keys_simps keyed_map_simps)
qed

lemma tm_update_ok:
  assumes "tm_ok m" and "fits_stack m"
  shows "\<exists>m'. tm_update m k f = Some (m', map_option (\<lambda>v. snd (f v)) (tm_map m k)) \<and> tm_ok m' \<and>
     tm_map m' = (case tm_map m k of None \<Rightarrow> tm_map m | Some v \<Rightarrow> (tm_map m)(k \<mapsto> fst (f v)))"
proof -
  have s: "sorted_keys entry_key (tree_items m)" using assms by (simp add: tm_ok_def)
  obtain c t1 p where c: "slice map_ops map_key_ref (cursor_new map_key_ref m) (key_target (Some k)) Left = Some (c, t1)"
     "wf_tree map_ops t1" "tree_items t1 = below entry_key (Some k) (tree_items m)"
     "cursor_end map_key_ref c = Some p"
    and r: "case keyed_map entry_key (tree_items m) (Some k) of
        None \<Rightarrow> key_target (Some k) p \<noteq> Equal \<and>
          (\<exists>c1 suf. suffix map_ops map_key_ref c = Some (c1, suf) \<and> wf_tree map_ops suf \<and>
             tree_items suf = above entry_key (Some k) (tree_items m))
      | Some x \<Rightarrow> key_target (Some k) p = Equal \<and> cursor_item c = Some (Some x) \<and>
          (\<exists>c1 c2 suf. cursor_next map_key_ref c = Some c1 \<and> suffix map_ops map_key_ref c1 = Some (c2, suf) \<and>
             wf_tree map_ops suf \<and> tree_items suf = above entry_key (Some k) (tree_items m))"
    using slice_at_key [OF assms] by blast
  show ?thesis
  proof (cases "keyed_map entry_key (tree_items m) (Some k)")
    case None
    with r obtain c1 suf where sf: "key_target (Some k) p \<noteq> Equal" "suffix map_ops map_key_ref c = Some (c1, suf)"
      "wf_tree map_ops suf" "tree_items suf = above entry_key (Some k) (tree_items m)" by auto
    have xs: "tree_items m = below entry_key (Some k) (tree_items m) @ above entry_key (Some k) (tree_items m)"
      using above_props(4) [OF s, of "Some k"] None by simp
    obtain t2 where "append_tree map_ops t1 suf = Some t2" "wf_tree map_ops t2" "tree_items t2 = tree_items m"
      using map_sum.append_tree_correct [OF c(2) sf(3)] c(3) sf(4) xs by auto
    then show ?thesis
      using None c sf s tm_map_get [of m k] by (auto simp: tm_update_def Let_def tm_ok_def tm_map_def)
  next
    case (Some x)
    with r obtain c1 c2 suf where sf: "key_target (Some k) p = Equal" "cursor_item c = Some (Some x)"
      "cursor_next map_key_ref c = Some c1" "suffix map_ops map_key_ref c1 = Some (c2, suf)"
      "wf_tree map_ops suf" "tree_items suf = above entry_key (Some k) (tree_items m)" by auto
    let ?x = "x\<lparr>me_value := fst (f (me_value x))\<rparr>"
    have ex: "entry_key ?x = Some k" using keyed_map_SomeD [OF Some] by (simp add: entry_key_def)
    obtain t2 where t2: "push map_ops t1 ?x = Some t2" "wf_tree map_ops t2" "tree_items t2 = tree_items t1 @ [?x]"
      using map_sum.push_correct [OF c(2)] by blast
    obtain t3 where t3: "append_tree map_ops t2 suf = Some t3" "wf_tree map_ops t3"
      "tree_items t3 = below entry_key (Some k) (tree_items m) @ ?x # above entry_key (Some k) (tree_items m)"
      using map_sum.append_tree_correct [OF t2(2) sf(5)] c(3) sf(6) t2(3) by auto
    have v: "tm_map m k = Some (me_value x)" using Some tm_map_get [of m k] by simp
    have "tm_update m k f = Some (t3, Some (snd (f (me_value x))))"
      using c sf t2(1) t3(1) by (simp add: tm_update_def Let_def split_beta)
    moreover have "tm_ok t3" using t3 sorted_split(2) [OF s ex] by (simp add: tm_ok_def del: sorted_keys_simps)
    moreover have "tm_map t3 = (tm_map m)(k \<mapsto> fst (f (me_value x)))"
      using entries_put [OF keyed_map_split(2) [OF s ex]] by (simp add: tm_map_def t3(3) del: keyed_map_simps)
    ultimately show ?thesis by (simp add: v)
  qed
qed

subsection \<open>Ranges, filters and bulk updates\<close>

text \<open>A target that keys once not before it stay so.\<close>

definition mono_keys :: "('k::linorder \<Rightarrow> ordering) \<Rightarrow> bool" where
  "mono_keys t \<longleftrightarrow> (\<forall>a b. a \<le> b \<longrightarrow> t b = Greater \<longrightarrow> t a = Greater)"

lemma mono_keys_cmp [simp]: "mono_keys (cmp k)"
  by (auto simp: mono_keys_def)

lemma mono_keysD: "mono_keys t \<Longrightarrow> a < b \<Longrightarrow> t b = Greater \<Longrightarrow> t a = Greater"
  unfolding mono_keys_def using less_imp_le by blast

lemma entry_key_cmp [simp]:
  "entry_key x < entry_key y \<longleftrightarrow> me_key x < me_key y" "entry_key x = Some k \<longleftrightarrow> me_key x = k"
  by (simp_all add: entry_key_def)

lemma passes_map_target: "passes Left (map_target t (entry_key e)) \<longleftrightarrow> t (me_key e) = Greater"
  by (simp add: passes_def map_target_def entry_key_def)

lemma map_target_split:
  assumes "mono_keys t" and "sorted_keys entry_key xs"
  shows "mono_target map_ops map_key_ref (\<lambda>d. passes Left (map_target t d)) d xs"
    and "\<exists>p. seek_split map_ops map_key_ref (\<lambda>d. passes Left (map_target t d)) d xs =
      (takeWhile (\<lambda>e. t (me_key e) = Greater) xs, dropWhile (\<lambda>e. t (me_key e) = Greater) xs, p)"
proof -
  have "mono_target map_ops map_key_ref (\<lambda>d. passes Left (map_target t d)) d xs"
    using assms(2)
  proof (induction xs arbitrary: d)
    case (Cons x xs)
    have "\<forall>y \<in> set xs. t (me_key y) = Greater \<longrightarrow> t (me_key x) = Greater"
      using Cons.prems assms(1) by (auto dest: mono_keysD)
    moreover have "key_bound entry_key (entry_key x) xs"
      using Cons.prems by (auto simp: key_bound_def intro: less_imp_le)
    ultimately show ?case
      using Cons by (auto simp: Let_def passes_map_target map_keyed.never_passes_key)
  qed simp
  then show "mono_target map_ops map_key_ref (\<lambda>d. passes Left (map_target t d)) d xs" .
  show "\<exists>p. seek_split map_ops map_key_ref (\<lambda>d. passes Left (map_target t d)) d xs =
      (takeWhile (\<lambda>e. t (me_key e) = Greater) xs, dropWhile (\<lambda>e. t (me_key e) = Greater) xs, p)"
  proof (induction xs arbitrary: d)
    case (Cons x xs)
    obtain p where "seek_split map_ops map_key_ref (\<lambda>d. passes Left (map_target t d)) (entry_key x) xs =
      (takeWhile (\<lambda>e. t (me_key e) = Greater) xs, dropWhile (\<lambda>e. t (me_key e) = Greater) xs, p)"
      using Cons.IH by blast
    then show ?case by (auto simp: Let_def passes_map_target)
  qed simp
qed

lemma map_target_start: "map_target t None \<noteq> Less"
  by (simp add: map_target_def)

lemma tm_remove_range_items:
  assumes "tm_ok m" and "fits_stack m" and "mono_keys s" and "mono_keys e"
  shows "\<exists>m'. tm_remove_range m s e = Some m' \<and> wf_tree map_ops m' \<and>
     tree_items m' = takeWhile (\<lambda>x. s (me_key x) = Greater) (tree_items m) @
       dropWhile (\<lambda>x. e (me_key x) = Greater) (tree_items m)"
proof -
  let ?xs = "tree_items m"
  have m: "wf_tree map_ops m" "height m < STACK_CAPACITY" "sorted_keys entry_key ?xs"
    using assms by (simp_all add: tm_ok_def fits_stack_def)
  note n = map_keyed.fresh_cursor [OF m(1,2)]
  obtain p where sp: "seek_split map_ops map_key_ref (\<lambda>d. passes Left (map_target s d)) None ?xs =
      (takeWhile (\<lambda>e. s (me_key e) = Greater) ?xs, dropWhile (\<lambda>e. s (me_key e) = Greater) ?xs, p)"
    using map_target_split(2) [OF assms(3) m(3)] by blast
  have "map_target s (c_position (cursor_new map_key_ref m)) \<noteq> Less"
    "mono_target map_ops map_key_ref (\<lambda>d. passes Left (map_target s d)) (c_position (cursor_new map_key_ref m))
       (cursor_rest (cursor_new map_key_ref m))"
    unfolding n using map_target_start map_target_split(1) [OF assms(3) m(3)] by simp_all
  from map_dim.slice_correct [OF n(1,2) this] sp n
  obtain c t1 where c: "slice map_ops map_key_ref (cursor_new map_key_ref m) (map_target s) Left = Some (c, t1)"
    "wf_tree map_ops t1" "tree_items t1 = takeWhile (\<lambda>e. s (me_key e) = Greater) ?xs"
    "c_tree c = m" by (auto simp: cursor_new_def)
  obtain q where sq: "seek_split map_ops map_key_ref (\<lambda>d. passes Left (map_target e d)) (d_zero map_key_ref) ?xs =
      (takeWhile (\<lambda>x. e (me_key x) = Greater) ?xs, dropWhile (\<lambda>x. e (me_key x) = Greater) ?xs, q)"
    using map_target_split(2) [OF assms(4) m(3)] by blast
  have "map_target e (d_zero map_key_ref) \<noteq> Less" using map_target_start by simp
  from map_dim.seek_correct [OF m(1,2) c(4) this map_target_split(1) [OF assms(4) m(3)] sq]
  obtain c2 r where c2: "seek map_key_ref c (map_target e) Left = Some (c2, r)" "cursor_ok map_ops map_key_ref c2"
    "can_seek c2" "cursor_rest c2 = dropWhile (\<lambda>x. e (me_key x) = Greater) ?xs" by blast
  obtain c3 suf where sf: "suffix map_ops map_key_ref c2 = Some (c3, suf)" "wf_tree map_ops suf"
    "tree_items suf = cursor_rest c2"
    using map_dim.suffix_correct [OF c2(2,3)] by blast
  from map_sum.append_tree_correct [OF c(2) sf(2)] show ?thesis
    using c c2 sf by (auto simp: tm_remove_range_def)
qed

lemma filter_mono_keys:
  assumes "mono_keys t" and "sorted_keys entry_key xs"
  shows "takeWhile (\<lambda>x. t (me_key x) = Greater) xs = filter (\<lambda>x. t (me_key x) = Greater) xs"
    and "dropWhile (\<lambda>x. t (me_key x) = Greater) xs = filter (\<lambda>x. t (me_key x) \<noteq> Greater) xs"
proof -
  have "takeWhile (\<lambda>x. t (me_key x) = Greater) xs = filter (\<lambda>x. t (me_key x) = Greater) xs \<and>
      dropWhile (\<lambda>x. t (me_key x) = Greater) xs = filter (\<lambda>x. t (me_key x) \<noteq> Greater) xs"
    using assms(2)
  proof (induction xs)
    case (Cons x xs)
    have "\<forall>y \<in> set xs. t (me_key y) = Greater \<longrightarrow> t (me_key x) = Greater"
      using Cons.prems assms(1) by (auto dest: mono_keysD)
    with Cons show ?case by (auto simp: filter_empty_conv filter_id_conv)
  qed simp
  then show "takeWhile (\<lambda>x. t (me_key x) = Greater) xs = filter (\<lambda>x. t (me_key x) = Greater) xs"
    "dropWhile (\<lambda>x. t (me_key x) = Greater) xs = filter (\<lambda>x. t (me_key x) \<noteq> Greater) xs" by simp_all
qed

lemma entries_filter:
  assumes "sorted_keys entry_key xs"
  shows "entries (filter (\<lambda>x. P (me_key x) (me_value x)) xs) =
    (\<lambda>k. case entries xs k of None \<Rightarrow> None | Some v \<Rightarrow> if P k v then Some v else None)"
  using assms
proof (induction xs)
  case (Cons x xs)
  have "entries xs (me_key x) = None"
    using Cons.prems by (auto simp: entries_def keyed_map_None)
  then have "entries (filter (\<lambda>x. P (me_key x) (me_value x)) xs) (me_key x) = None"
    using Cons by simp
  then show ?case
    using Cons by (auto simp: entries_map_of fun_eq_iff entry_key_def)
qed (simp add: entries_def)

lemma sorted_filter: "sorted_keys key xs \<Longrightarrow> sorted_keys key (filter P xs)"
  by (induction xs) auto

lemma tm_remove_range_ok:
  assumes "tm_ok m" and "fits_stack m" and "mono_keys s" and "mono_keys e"
    and le: "\<And>k. s k = Greater \<Longrightarrow> e k = Greater"
  shows "\<exists>m'. tm_remove_range m s e = Some m' \<and> tm_ok m' \<and>
     tm_map m' = tm_map m |` {k. s k = Greater \<or> e k \<noteq> Greater}"
proof -
  have srt: "sorted_keys entry_key (tree_items m)" using assms(1) by (simp add: tm_ok_def)
  obtain m' where m': "tm_remove_range m s e = Some m'" "wf_tree map_ops m'"
    "tree_items m' = takeWhile (\<lambda>x. s (me_key x) = Greater) (tree_items m) @
       dropWhile (\<lambda>x. e (me_key x) = Greater) (tree_items m)"
    using tm_remove_range_items [OF assms(1-4)] by blast
  have "takeWhile (\<lambda>x. s (me_key x) = Greater) xs @ dropWhile (\<lambda>x. e (me_key x) = Greater) xs =
      filter (\<lambda>x. s (me_key x) = Greater \<or> e (me_key x) \<noteq> Greater) xs" if "sorted_keys entry_key xs" for xs
    using that
  proof (induction xs)
    case (Cons x xs)
    have st: "filter (\<lambda>y. s (me_key y) = Greater) xs = [] " if "s (me_key x) \<noteq> Greater"
      using that Cons.prems assms(3) by (auto simp: filter_empty_conv dest: mono_keysD)
    have en: "filter (\<lambda>y. e (me_key y) \<noteq> Greater) xs = xs" if "e (me_key x) \<noteq> Greater"
      using that Cons.prems assms(4) by (auto simp: filter_id_conv dest: mono_keysD)
    show ?case
      using Cons st en le [of "me_key x"] filter_mono_keys [OF assms(3), of xs] filter_mono_keys [OF assms(4), of xs]
      by (auto simp: filter_id_conv)
  qed simp
  then have items: "tree_items m' = filter (\<lambda>x. s (me_key x) = Greater \<or> e (me_key x) \<noteq> Greater) (tree_items m)"
    using m'(3) srt by simp
  have "tm_ok m'" using m'(2) sorted_filter [OF srt] by (simp add: tm_ok_def items)
  moreover have "tm_map m' = tm_map m |` {k. s k = Greater \<or> e k \<noteq> Greater}"
    using entries_filter [OF srt, of "\<lambda>k _. s k = Greater \<or> e k \<noteq> Greater"]
    by (auto simp: tm_map_def items restrict_map_def fun_eq_iff split: option.splits)
  ultimately show ?thesis using m'(1) by blast
qed

lemma tm_retain_loop_ok:
  assumes "cursor_ok map_ops map_key_ref c" and "can_seek c" and "c_did_seek c" and "wf_tree map_ops t"
  shows "\<exists>t'. tm_retain_loop P t c = Some t' \<and> wf_tree map_ops t' \<and>
     tree_items t' = tree_items t @ filter (\<lambda>x. P (me_key x) (me_value x)) (cursor_rest c)"
  using assms
proof (induction "length (cursor_rest c)" arbitrary: c t rule: less_induct)
  case less
  note item = cursor_item_ok(1) [OF less.prems(1,3,2)]
  show ?case
  proof (cases "cursor_rest c")
    case Nil
    then show ?thesis using item less.prems(4) by (subst tm_retain_loop.simps) simp
  next
    case (Cons x xs)
    then have "pending c = xs"
      using less.prems by (auto simp: pending_def cursor_rest_def can_seek_def split: if_splits)
    then obtain c' where c': "cursor_next map_key_ref c = Some c'" "cursor_ok map_ops map_key_ref c'"
      "can_seek c'" "c_did_seek c'" "cursor_rest c' = xs"
      using map_dim.cursor_next_correct [OF less.prems(1)] by auto
    obtain t1 where t1: "(if P (me_key x) (me_value x) then push map_ops t x else Some t) = Some t1"
      "wf_tree map_ops t1" "tree_items t1 = tree_items t @ filter (\<lambda>x. P (me_key x) (me_value x)) [x]"
      using map_sum.push_correct [OF less.prems(4), of x] less.prems(4)
      by (cases "P (me_key x) (me_value x)") auto
    have "length (cursor_rest c') < length (cursor_rest c)" using c'(5) Cons by simp
    from less.hyps [OF this c'(2-4) t1(2)] show ?thesis
      using t1 c' item Cons by (subst tm_retain_loop.simps) auto
  qed
qed

lemma tm_retain_ok:
  assumes "tm_ok m" and "fits_stack m"
  shows "\<exists>m'. tm_retain m P = Some m' \<and> tm_ok m' \<and>
     tm_map m' = (\<lambda>k. case tm_map m k of None \<Rightarrow> None | Some v \<Rightarrow> if P k v then Some v else None)"
proof -
  have m: "wf_tree map_ops m" "height m < STACK_CAPACITY" "sorted_keys entry_key (tree_items m)"
    using assms by (simp_all add: tm_ok_def fits_stack_def)
  note n = map_keyed.fresh_cursor [OF m(1,2)]
  have "pending (cursor_new map_key_ref m) = tree_items m" using n by (simp add: pending_def cursor_new_def)
  then obtain c where c: "cursor_next map_key_ref (cursor_new map_key_ref m) = Some c" "cursor_ok map_ops map_key_ref c"
    "can_seek c" "c_did_seek c" "cursor_rest c = tree_items m"
    using map_dim.cursor_next_correct [OF n(1)] by auto
  from tm_retain_loop_ok [OF c(2-4) wf_tree_new, of P] show ?thesis
    using c(1,5) m(3) entries_filter [OF m(3), of P] sorted_filter [OF m(3)]
    by (auto simp: tm_retain_def tm_ok_def tm_map_def)
qed

lemma tm_iter_from_ok:
  assumes "tm_ok m" and "fits_stack m"
  shows "tm_iter_from m k = Some (map (\<lambda>e. (me_key e, me_value e)) (filter (\<lambda>e. k \<le> me_key e) (tree_items m)))"
proof -
  let ?xs = "tree_items m"
  have m: "wf_tree map_ops m" "height m < STACK_CAPACITY" "sorted_keys entry_key ?xs"
    using assms by (simp_all add: tm_ok_def fits_stack_def)
  obtain c r where c: "seek map_key_ref (cursor_new map_key_ref m) (key_target (Some k)) Left = Some (c, r)"
    "cursor_ok map_ops map_key_ref c" "can_seek c" "c_did_seek c" "cursor_rest c = from_key entry_key (Some k) ?xs"
    using map_keyed.seek_key [OF m, of "Some k"] by auto
  have "from_key entry_key (Some k) ?xs = filter (\<lambda>e. k \<le> me_key e) ?xs"
    using filter_mono_keys(2) [OF mono_keys_cmp [of k] m(3)]
    by (simp add: from_key_def entry_key_def not_less)
  then show ?thesis
    using c map_dim.cursor_collect_correct [OF c(2-4)] by (simp add: tm_iter_from_def)
qed

lemma entries_inserts:
  "entries (map (\<lambda>(k, v). \<lparr>me_key = k, me_value = v\<rparr>) kvs) = map_of kvs"
  by (simp add: entries_map_of comp_def split_beta)

lemma entries_add: "keyed_map entry_key zs = keyed_map entry_key xs ++ keyed_map entry_key ys \<Longrightarrow> entries zs = entries xs ++ entries ys"
  by (auto simp: entries_def fun_eq_iff map_add_def split: option.splits)

lemma tm_edits_ok:
  assumes "tm_ok m" and "fits_stack m" and "distinct (map fst kvs)"
    and "edits map_ops map_key_ref entry_key m (map (\<lambda>(k, v). Insert \<lparr>me_key = k, me_value = v\<rparr>) kvs) r"
  shows "\<exists>m' removed. r = Some (m', removed) \<and> tm_ok m' \<and> tm_map m' = tm_map m ++ map_of kvs"
proof -
  let ?xs = "map (\<lambda>(k, v). \<lparr>me_key = k, me_value = v\<rparr>) kvs"
  have m: "wf_tree map_ops m" "height m < STACK_CAPACITY" "sorted_keys entry_key (tree_items m)"
    using assms by (simp_all add: tm_ok_def fits_stack_def)
  have "map entry_key ?xs = map Some (map fst kvs)" by (simp add: entry_key_def split_beta)
  then have "distinct (map entry_key ?xs)" using assms(3) by (simp only: distinct_map [of Some]) simp
  moreover have "map (\<lambda>(k, v). Insert \<lparr>me_key = k, me_value = v\<rparr>) kvs =
      (map Insert ?xs :: (('a, 'b) map_entry, 'a option) edit list)" by (induction kvs) auto
  then have "edits map_ops map_key_ref entry_key m (map Insert ?xs) r" using assms(4) by (simp only:)
  ultimately obtain m' removed where m': "r = Some (m', removed)" "wf_tree map_ops m'" "sorted_keys entry_key (tree_items m')"
    "keyed_map entry_key (tree_items m') = keyed_map entry_key (tree_items m) ++ keyed_map entry_key ?xs"
    using map_keyed.insert_edits [OF m] by blast
  then show ?thesis using entries_add [OF m'(4)] entries_inserts [of kvs] by (simp add: tm_ok_def tm_map_def)
qed

subsection \<open>\<open>TreeSet\<close>\<close>

type_synonym 'k tree_set = "('k, unit) tree_map"

definition ts_from_ordered_entries :: "'k list \<Rightarrow> 'k tree_set option" where
  "ts_from_ordered_entries ks = tm_from_ordered_entries (map (\<lambda>k. (k, ())) ks)"

definition ts_is_empty :: "'k tree_set \<Rightarrow> bool" where
  "ts_is_empty s = tm_is_empty s"

definition ts_insert :: "'k::linorder tree_set \<Rightarrow> 'k \<Rightarrow> 'k tree_set option" where
  "ts_insert s k = tm_insert s k ()"

definition ts_remove :: "'k::linorder tree_set \<Rightarrow> 'k \<Rightarrow> ('k tree_set \<times> bool) option" where
  "ts_remove s k = map_option (\<lambda>(s', r). (s', r \<noteq> None)) (tm_remove s k)"

definition ts_extend :: "'k::linorder tree_set \<Rightarrow> 'k list \<Rightarrow> 'k tree_set option \<Rightarrow> bool" where
  "ts_extend s ks res = tm_extend s (map (\<lambda>k. (k, ())) ks) res"

definition ts_contains :: "'k::linorder tree_set \<Rightarrow> 'k \<Rightarrow> bool" where
  "ts_contains s k \<longleftrightarrow> tm_get s k \<noteq> None"

definition ts_iter :: "'k tree_set \<Rightarrow> 'k list option" where
  "ts_iter s = map_option (map fst) (tm_iter s)"

definition ts_iter_from :: "'k::linorder tree_set \<Rightarrow> 'k \<Rightarrow> 'k list option" where
  "ts_iter_from s k = map_option (map fst) (tm_iter_from s k)"

lemma ts_ops:
  assumes "tm_ok s" and "fits_stack s"
  shows "ts_contains s k \<longleftrightarrow> k \<in> dom (tm_map s)"
    and "\<exists>s'. ts_insert s k = Some s' \<and> tm_ok s' \<and> dom (tm_map s') = insert k (dom (tm_map s))"
    and "\<exists>s'. ts_remove s k = Some (s', k \<in> dom (tm_map s)) \<and> tm_ok s' \<and> dom (tm_map s') = dom (tm_map s) - {k}"
proof -
  show "ts_contains s k \<longleftrightarrow> k \<in> dom (tm_map s)"
    using tm_get_ok [OF assms(1)] by (simp add: ts_contains_def domIff)
  show "\<exists>s'. ts_insert s k = Some s' \<and> tm_ok s' \<and> dom (tm_map s') = insert k (dom (tm_map s))"
    using tm_insert_or_replace_ok [OF assms, of k "()"] by (auto simp: ts_insert_def)
  show "\<exists>s'. ts_remove s k = Some (s', k \<in> dom (tm_map s)) \<and> tm_ok s' \<and> dom (tm_map s') = dom (tm_map s) - {k}"
    using tm_remove_ok [OF assms, of k] by (auto simp: ts_remove_def domIff)
qed

subsection \<open>Properties\<close>

definition sample_map :: "(nat, nat) tree_map" where
  "sample_map = Leaf (Some 7) [\<lparr>me_key = 2, me_value = 20\<rparr>, \<lparr>me_key = 4, me_value = 40\<rparr>, \<lparr>me_key = 7, me_value = 70\<rparr>]
     [Some 2, Some 4, Some 7]"

lemma sample_map_ok: "tm_ok sample_map" "fits_stack sample_map"
  by (simp_all add: tm_ok_def fits_stack_def sample_map_def wf_tree_def map_ops_def entry_key_def s_sum_def
      STACK_CAPACITY_def TREE_BASE_def sorted_keys_def)

lemma sample_map_map: "tm_map sample_map = [2 \<mapsto> 20, 4 \<mapsto> 40, 7 \<mapsto> 70]"
  by (auto simp: tm_map_def entries_map_of sample_map_def)

text \<open>C7. The operations on a tree map implement a finite map: \<open>get\<close> looks up, \<open>insert\<close>,
  \<open>remove\<close> and \<open>update\<close> return what was there and change the map at that key only, keep the
  keys strictly ordered, and never panic while the tree fits the cursor's stack.\<close>

theorem tree_map_refines:
  assumes "tm_ok m" and "fits_stack m"
  shows "tm_get m k = tm_map m k \<and>
    (\<exists>m'. tm_insert_or_replace m k v = Some (m', tm_map m k) \<and> tm_ok m' \<and> tm_map m' = (tm_map m)(k \<mapsto> v)) \<and>
    (\<exists>m'. tm_remove m k = Some (m', tm_map m k) \<and> tm_ok m' \<and> tm_map m' = (tm_map m)(k := None)) \<and>
    (\<exists>m'. tm_update m k f = Some (m', map_option (\<lambda>v. snd (f v)) (tm_map m k)) \<and> tm_ok m' \<and>
       tm_map m' = (case tm_map m k of None \<Rightarrow> tm_map m | Some v \<Rightarrow> (tm_map m)(k \<mapsto> fst (f v))))"
  using tm_get_ok [OF assms(1)] tm_insert_or_replace_ok [OF assms] tm_remove_ok [OF assms] tm_update_ok [OF assms]
  by blast

lemma tree_map_refines_witness:
  "tm_get sample_map 4 = Some 40 \<and>
   (\<exists>m'. tm_insert_or_replace sample_map 4 9 = Some (m', Some 40) \<and> tm_ok m' \<and> tm_map m' 4 = Some 9)"
  using tree_map_refines [OF sample_map_ok, of 4 9 "\<lambda>v. (v, ())"] by (auto simp: sample_map_map)

text \<open>Iterating a tree map lists the entries of the map in strictly increasing order of keys, and
  iterating from a key lists those that are not below it.\<close>

theorem tree_map_iter:
  assumes "tm_ok m" and "fits_stack m"
  shows "\<exists>kvs. tm_iter m = Some kvs \<and> sorted_wrt (<) (map fst kvs) \<and> map_of kvs = tm_map m \<and>
     tm_iter_from m k = Some (filter (\<lambda>(k', _). k \<le> k') kvs)"
proof -
  have "sorted_keys entry_key (tree_items m)" using assms(1) by (simp add: tm_ok_def)
  then have "sorted_wrt (<) (map fst (map (\<lambda>e. (me_key e, me_value e)) (tree_items m)))"
    by (simp add: sorted_wrt_map sorted_keys_def)
  then show ?thesis
    using tm_iter_ok [OF assms] tm_iter_from_ok [OF assms, of k]
    by (auto simp: tm_map_def entries_map_of filter_map comp_def)
qed

lemma tree_map_iter_witness:
  "\<exists>kvs. tm_iter sample_map = Some kvs \<and> sorted_wrt (<) (map fst kvs) \<and> map_of kvs 7 = Some 70"
  using tree_map_iter [OF sample_map_ok, of 0] by (auto simp: sample_map_map)

lemma sorted_keys_last:
  "sorted_keys entry_key xs \<Longrightarrow> e \<in> set xs \<Longrightarrow> me_key e \<le> me_key (last xs)"
  by (induction xs rule: rev_induct) (auto simp: less_imp_le)

text \<open>\<open>closest\<close> returns the entry with the greatest key at or below the given one, and nothing
  exactly when there is none.\<close>

theorem tree_map_closest:
  assumes "tm_ok m" and "fits_stack m"
  shows "\<exists>r. tm_closest m k = Some r \<and>
     (case r of None \<Rightarrow> \<forall>k'. k' \<le> k \<longrightarrow> tm_map m k' = None
      | Some (k', v) \<Rightarrow> k' \<le> k \<and> tm_map m k' = Some v \<and> (\<forall>k''. k' < k'' \<and> k'' \<le> k \<longrightarrow> tm_map m k'' = None))"
proof -
  let ?xs = "tree_items m"
  let ?a = "takeWhile (\<lambda>e. me_key e \<le> k) ?xs" and ?b = "dropWhile (\<lambda>e. me_key e \<le> k) ?xs"
  have s: "sorted_keys entry_key (?a @ ?b)" using assms(1) by (simp add: tm_ok_def)
  have none: "tm_map m k' = None" if "\<forall>e \<in> set (?a @ ?b). me_key e \<noteq> k'" for k'
    using that by (auto simp: tm_map_def entries_def keyed_map_None)
  have b: "k < me_key e" if "e \<in> set ?b" for e
  proof (cases ?b)
    case (Cons y ys)
    then have "\<not> me_key y \<le> k" using hd_dropWhile [of "\<lambda>e. me_key e \<le> k" ?xs] by simp
    moreover have "me_key y \<le> me_key e" using that s Cons by auto
    ultimately show ?thesis by simp
  next
    case Nil
    have False using that unfolding Nil by simp
    then show ?thesis ..
  qed
  have some: "tm_map m (me_key e) = Some (me_value e)" if "e \<in> set ?xs" for e
  proof -
    have "distinct (map me_key ?xs)"
      using s by (simp add: sorted_keys_def strict_sorted_iff flip: sorted_wrt_map)
    then show ?thesis using that
      by (auto simp: tm_map_def entries_map_of comp_def intro!: map_of_is_SomeI)
  qed
  show ?thesis
  proof (cases "?a = []")
    case True
    then have "tm_map m k' = None" if "k' \<le> k" for k'
      using that b by (intro none) fastforce
    with True show ?thesis using tm_closest_ok [OF assms, of k] by simp
  next
    case False
    let ?e = "last ?a"
    have ea: "?e \<in> set ?a" using False by simp
    have "me_key ?e \<le> k" using ea set_takeWhileD by fastforce
    moreover have "tm_map m (me_key ?e) = Some (me_value ?e)" using ea set_takeWhileD by (intro some) fastforce
    moreover have "tm_map m k'' = None" if "me_key ?e < k''" "k'' \<le> k" for k''
    proof (rule none, rule ballI)
      fix e assume e: "e \<in> set (?a @ ?b)"
      show "me_key e \<noteq> k''"
      proof (cases "e \<in> set ?a")
        case True
        have "sorted_keys entry_key ?a" using s by (simp only: sorted_keys_simps)
        with sorted_keys_last [OF this True] that show ?thesis by auto
      next
        case False
        then have "e \<in> set ?b" using e by (simp only: set_append Un_iff simp_thms)
        from b [OF this] that show ?thesis by auto
      qed
    qed
    ultimately show ?thesis using tm_closest_ok [OF assms, of k] False by simp
  qed
qed

lemma tree_map_closest_witness:
  "\<exists>r. tm_closest sample_map 5 = Some r \<and> (\<forall>k'. 4 < k' \<and> k' \<le> 5 \<longrightarrow> tm_map sample_map k' = None)"
  using tree_map_closest [OF sample_map_ok, of 5] by (auto simp: sample_map_map)

text \<open>\<open>remove_range\<close> keeps exactly the keys before the start or not before the end, for targets
  that are monotone in the key and a start not after the end; \<open>retain\<close> keeps exactly what the
  predicate accepts.\<close>

theorem tree_map_remove_range_retain:
  assumes "tm_ok m" and "fits_stack m" and "mono_keys s" and "mono_keys e"
    and "\<And>k. s k = Greater \<Longrightarrow> e k = Greater"
  shows "(\<exists>m'. tm_remove_range m s e = Some m' \<and> tm_ok m' \<and> tm_map m' = tm_map m |` {k. s k = Greater \<or> e k \<noteq> Greater}) \<and>
    (\<exists>m'. tm_retain m P = Some m' \<and> tm_ok m' \<and>
       tm_map m' = (\<lambda>k. case tm_map m k of None \<Rightarrow> None | Some v \<Rightarrow> if P k v then Some v else None))"
  using tm_remove_range_ok [OF assms] tm_retain_ok [OF assms(1,2)] by blast

lemma tree_map_remove_range_retain_witness:
  "\<exists>m'. tm_remove_range sample_map (cmp 3) (cmp 6) = Some m' \<and> tm_map m' 4 = None \<and> tm_map m' 7 = Some 70"
  using tree_map_remove_range_retain [OF sample_map_ok mono_keys_cmp mono_keys_cmp, of 3 6 "\<lambda>_ _. True"]
  by (auto simp: sample_map_map)

text \<open>\<open>extend\<close> with distinct keys overrides the map with the given pairs, whatever order the
  unstable sort leaves them in.\<close>

theorem tree_map_extend:
  assumes "tm_ok m" and "fits_stack m" and "distinct (map fst kvs)" and "tm_extend m kvs res"
  shows "\<exists>m'. res = Some m' \<and> tm_ok m' \<and> tm_map m' = tm_map m ++ map_of kvs"
  using assms(4) tm_edits_ok [OF assms(1-3)] by (force simp: tm_extend_def)

lemma tree_map_extend_witness:
  "\<exists>m'. tm_extend sample_map [(5, 50), (4, 1)] (Some m') \<and> tm_ok m' \<and> tm_map m' 4 = Some 1"
proof -
  have "\<exists>res. tm_extend sample_map [(5, 50), (4, 1)] res"
    by (auto simp: tm_extend_def edits_def sorted_edits_def entry_key_def
        intro!: exI [of _ "[Insert \<lparr>me_key = 4, me_value = 1\<rparr>, Insert \<lparr>me_key = 5, me_value = 50\<rparr>]"])
  then show ?thesis
    using tree_map_extend [OF sample_map_ok, of "[(5, 50), (4, 1)]"] by (fastforce simp: sample_map_map)
qed

lemma sorted_entry_keys: "sorted (map entry_key xs) \<longleftrightarrow> sorted (map me_key xs)"
  by (induction xs) (auto simp: entry_key_def)

lemma tm_ok_distinct:
  assumes "wf_tree map_ops m" and "sorted (map me_key (tree_items m))"
  shows "tm_ok m \<longleftrightarrow> distinct (map me_key (tree_items m))"
proof -
  have "sorted_keys entry_key xs \<longleftrightarrow> sorted_wrt (<) (map me_key xs)" for xs :: "('a, 'b) map_entry list"
    by (simp add: sorted_keys_def sorted_wrt_map entry_key_def)
  then show ?thesis using assms strict_sorted_iff [of "map me_key (tree_items m)"] by (simp add: tm_ok_def)
qed

text \<open>C13. \<open>extend\<close> for any keys, in any order, repeated or not, whatever order the unstable sort leaves: it
  returns a well-formed tree, sorted by key, of all the given pairs and those pairs of the map whose keys are not
  among theirs. So nothing removes the repeated ones: the result is a map, with one entry for a key, exactly when
  the keys given are distinct.\<close>

theorem tree_map_extend_repeated_key:
  fixes m :: "('k::linorder, 'v) tree_map"
  assumes "tm_ok m" and "fits_stack m" and "tm_extend m kvs res"
  shows "\<exists>m'. res = Some m' \<and> wf_tree map_ops m' \<and> sorted (map me_key (tree_items m')) \<and>
    mset (map (\<lambda>e. (me_key e, me_value e)) (tree_items m')) =
      mset kvs + mset (filter (\<lambda>(k, _). k \<notin> fst ` set kvs) (map (\<lambda>e. (me_key e, me_value e)) (tree_items m))) \<and>
    (tm_ok m' \<longleftrightarrow> distinct (map fst kvs))"
proof -
  let ?es = "map (\<lambda>(k, v). \<lparr>me_key = k, me_value = v\<rparr>) kvs" and ?pair = "\<lambda>e. (me_key e, me_value e)"
  have m: "wf_tree map_ops m" "height m < STACK_CAPACITY" "sorted_keys entry_key (tree_items m)"
    using assms(1,2) by (simp_all add: tm_ok_def fits_stack_def)
  define ys where "ys = ?es"
  obtain eds where e: "mset eds = mset (map Insert ys)" "sorted (map (edit_key entry_key) eds)"
    "res = map_option fst (edit_sorted map_ops map_key_ref entry_key m eds)"
    using assms(3) by (auto simp: ys_def tm_extend_def edits_def sorted_edits_def comp_def case_prod_unfold)
  obtain xs where xs: "eds = map Insert xs" "mset xs = mset ys"
  proof -
    have "set eds \<subseteq> range Insert" using mset_eq_setD [OF e(1)] by auto
    then obtain xs where "eds = map Insert xs" by (metis ex_map_conv rangeE subsetD)
    moreover from this have "image_mset (Insert :: _ \<Rightarrow> (_, 'k option) edit) (mset xs) = image_mset Insert (mset ys)" using e(1) by simp
    then have "mset xs = mset ys" by (rule injD [OF multiset.inj_map, rotated]) (simp add: inj_def)
    ultimately show thesis by (rule that)
  qed
  have s: "sorted (map entry_key xs)" using e(2) xs(1) by (simp add: comp_def)
  obtain m' rm where m': "edit_sorted map_ops map_key_ref entry_key m (map Insert xs) = Some (m', rm)" "wf_tree map_ops m'"
    "tree_items m' = merge_inserts entry_key (tree_items m) xs" using map_keyed.insert_edits_any [OF m s] by blast
  note g = merge_inserts_sorted [OF m(3) s, folded m'(3)]
  have so: "sorted (map me_key (tree_items m'))" using g by (simp add: sorted_entry_keys)
  have keys: "entry_key ` set xs = Some ` fst ` set kvs" using mset_eq_setD [OF xs(2)] by (force simp: ys_def entry_key_def)
  have f: "map ?pair (filter (\<lambda>y. entry_key y \<notin> entry_key ` set xs) (tree_items m)) =
      filter (\<lambda>(k, _). k \<notin> fst ` set kvs) (map ?pair (tree_items m))"
    unfolding keys by (simp add: filter_map comp_def entry_key_def inj_image_mem_iff)
  have "image_mset ?pair (mset (tree_items m')) = image_mset ?pair (mset xs) +
      image_mset ?pair (mset (filter (\<lambda>y. entry_key y \<notin> entry_key ` set xs) (tree_items m)))" using g by simp
  moreover have "image_mset ?pair (mset xs) = mset kvs" unfolding xs(2) ys_def by (simp add: multiset.map_comp comp_def case_prod_unfold flip: mset_map)
  ultimately have ms: "mset (map ?pair (tree_items m')) =
      mset kvs + mset (filter (\<lambda>(k, _). k \<notin> fst ` set kvs) (map ?pair (tree_items m)))"
    unfolding f [symmetric] mset_map by simp
  have "image_mset fst (mset (map ?pair (tree_items m'))) = mset (map me_key (tree_items m'))" by (simp add: multiset.map_comp comp_def)
  then have mk: "mset (map me_key (tree_items m')) =
      mset (map fst kvs @ map fst (filter (\<lambda>(k, _). k \<notin> fst ` set kvs) (map ?pair (tree_items m))))" unfolding ms by simp
  have "distinct (map me_key (tree_items m))" using tm_ok_distinct m assms(1) strict_sorted_iff
    by (fastforce simp: tm_ok_def sorted_keys_def sorted_wrt_map entry_key_def)
  then have "distinct (map fst (filter (\<lambda>(k, _). k \<notin> fst ` set kvs) (map ?pair (tree_items m))))"
    by (intro distinct_map_filter) (simp add: comp_def)
  then have "distinct (map me_key (tree_items m')) \<longleftrightarrow> distinct (map fst kvs)"
    unfolding mset_eq_imp_distinct_iff [OF mk] by (auto simp: rev_image_eqI)
  then show ?thesis using e(3) xs(1) m' so ms tm_ok_distinct [OF m'(2) so] by auto
qed

lemma tree_map_extend_repeated_key_witness:
  "\<exists>m'. tm_extend sample_map [(4, 1), (4, 2)] (Some m') \<and> \<not> tm_ok m' \<and>
     mset (map (\<lambda>e. (me_key e, me_value e)) (tree_items m')) \<supseteq># {#(4, 1), (4, 2)#}"
proof -
  have "\<exists>res. tm_extend sample_map [(4, 1), (4, 2)] res"
    by (auto simp: tm_extend_def edits_def sorted_edits_def entry_key_def
        intro!: exI [of _ "[Insert \<lparr>me_key = 4, me_value = 1\<rparr>, Insert \<lparr>me_key = 4, me_value = 2\<rparr>]"])
  then obtain res where r: "tm_extend sample_map [(4, 1), (4, 2)] res" by blast
  from tree_map_extend_repeated_key [OF sample_map_ok r] show ?thesis using r by auto
qed

end
