(* ===== verification/SumTreeSpec.thy ===== *)
theory SumTreeSpec
  imports TreeMap
begin

text \<open>
  The properties of the summarised tree, its cursor and its keyed operations, stated for any
  dictionary that keeps the contracts (\<open>summary_laws\<close>, \<open>dim_laws\<close>, \<open>zero_dim_laws\<close>, \<open>keyed_laws\<close>). The witnesses
  apply them at the tree map's dictionary.
\<close>

text \<open>C5. Appending trees and pushing items never panic, keep the B+ tree invariant (equal depth,
  capacity, cached summaries equal to the sums below them) and concatenate the items, for trees of
  any heights; so does extending with an iterator's items.\<close>

theorem append_push_extend:
  assumes "summary_laws I" and "wf_tree I a" and "wf_tree I b"
  shows "(\<exists>t. append_tree I a b = Some t \<and> wf_tree I t \<and> tree_items t = tree_items a @ tree_items b \<and>
       summary t = s_sum I (map (item_summary I) (tree_items a @ tree_items b))) \<and>
    (\<exists>t. push I a x = Some t \<and> wf_tree I t \<and> tree_items t = tree_items a @ [x]) \<and>
    (\<exists>t. SumTree.extend I a xs = Some t \<and> wf_tree I t \<and> tree_items t = tree_items a @ xs)"
  using summary_laws.append_tree_correct [OF assms] summary_laws.push_correct [OF assms(1,2)]
    summary_laws.extend_correct [OF assms(1,2)] summary_laws.wf_tree_summary [OF assms(1)]
  by metis

lemma append_push_extend_witness:
  "\<exists>t. append_tree map_ops sample_map sample_map = Some t \<and> wf_tree map_ops t \<and>
     tree_items t = tree_items sample_map @ tree_items sample_map"
  using append_push_extend [OF map_sum.summary_laws_axioms, of sample_map sample_map undefined "[]"] sample_map_ok
  by (auto simp: tm_ok_def)

text \<open>C10. Building a tree from an iterator and from a parallel iterator gives the same tree, which
  is well formed and holds the items in order.\<close>

theorem from_iter_from_par_iter:
  assumes "summary_laws I"
  shows "from_iter I xs = Some (from_par_iter I xs) \<and> wf_tree I (from_par_iter I xs) \<and>
    tree_items (from_par_iter I xs) = xs"
  using summary_laws.from_iter_correct [OF assms, of xs] summary_laws.from_iter_par_iter [OF assms, of xs] by auto

lemma from_iter_from_par_iter_witness:
  "tree_items (from_par_iter map_ops (replicate 30 \<lparr>me_key = 1 :: nat, me_value = ()\<rparr>)) =
     replicate 30 \<lparr>me_key = 1, me_value = ()\<rparr>"
  using from_iter_from_par_iter [OF map_sum.summary_laws_axioms] by blast

text \<open>C11. The stackless descents agree with a scan of the items: for a target that is monotone over
  them, \<open>find\<close> returns the first item whose end the target does not pass, with the positions
  before and after it, and \<open>find_with_prev\<close> returns the item before it as well.\<close>

theorem find_scan:
  assumes "zero_dim_laws I D" and "wf_tree I t"
    and "mono_target I D (\<lambda>d. passes bias (tgt d)) (d_zero D) (tree_items t)"
  shows "find D t tgt bias =
     (case seek_split I D (\<lambda>d. passes bias (tgt d)) (d_zero D) (tree_items t) of
        (a, [], p) \<Rightarrow> (p, p, None)
      | (a, y # b, p) \<Rightarrow> (p, d_add D p (item_summary I y), Some y)) \<and>
    find_with_prev D t tgt bias =
     Some (case seek_split I D (\<lambda>d. passes bias (tgt d)) (d_zero D) (tree_items t) of
        (a, [], p) \<Rightarrow> (p, p, None)
      | (a, y # b, p) \<Rightarrow> (p, d_add D p (item_summary I y), Some (vec_last a, y)))"
  using zero_dim_laws.find_correct [OF assms] zero_dim_laws.find_with_prev_correct [OF assms] by simp

lemma find_scan_witness:
  "find map_key_ref sample_map (key_target (Some 3)) Left = (Some 2, Some 4, Some \<lparr>me_key = 4, me_value = 40\<rparr>)"
  using find_scan [OF map_dim.zero_dim_laws_axioms, of sample_map Left "key_target (Some 3)"] sample_map_ok
    map_keyed.mono_key [of None "tree_items sample_map" Left "Some 3"]
  by (simp add: tm_ok_def sample_map_def passes_def key_target_def entry_key_def cmp_def)

text \<open>C6. Seeking splits what is in front of the cursor exactly where the scan does: \<open>slice\<close> returns
  the items passed as a well-formed tree and leaves the cursor at the first item not passed, with
  its position the measure of everything behind it; \<open>summary\<close> returns the measure of the items
  passed instead. Seeking starts the scan afresh.\<close>

theorem seek_slice_summary:
  assumes D: "dim_laws I D" and Out: "dim_laws I Out" and c: "cursor_ok I D c" "can_seek c"
    and ge: "tgt (c_position c) \<noteq> Less"
    and mono: "mono_target I D (\<lambda>d. passes bias (tgt d)) (c_position c) (cursor_rest c)"
    and sp: "seek_split I D (\<lambda>d. passes bias (tgt d)) (c_position c) (cursor_rest c) = (a, b, p)"
  shows "(\<exists>c' t'. slice I D c tgt bias = Some (c', t') \<and> wf_tree I t' \<and> tree_items t' = a \<and>
       cursor_ok I D c' \<and> cursor_done c' = cursor_done c @ a \<and> cursor_rest c' = b \<and> c_position c' = p \<and>
       cursor_item c' = Some (vec_first b)) \<and>
    (\<exists>c'. cursor_summary D Out c tgt bias = Some (c', pos_after I Out (d_zero Out) a) \<and> cursor_rest c' = b) \<and>
    (\<exists>c'. seek_forward D c tgt bias = Some (c',
       tgt (if bias = Left \<and> b \<noteq> [] then d_add D p (item_summary I (hd b)) else p) = Equal) \<and> cursor_rest c' = b)"
proof (intro conjI)
  obtain c' t' where s: "slice I D c tgt bias = Some (c', t')" "wf_tree I t'" "tree_items t' = a" "cursor_ok I D c'"
    "can_seek c'" "c_did_seek c'" "cursor_done c' = cursor_done c @ a" "cursor_rest c' = b" "c_position c' = p"
    using dim_laws.slice_correct [OF D c ge mono sp] by blast
  then show "\<exists>c' t'. slice I D c tgt bias = Some (c', t') \<and> wf_tree I t' \<and> tree_items t' = a \<and>
       cursor_ok I D c' \<and> cursor_done c' = cursor_done c @ a \<and> cursor_rest c' = b \<and> c_position c' = p \<and>
       cursor_item c' = Some (vec_first b)"
    using cursor_item_ok(1) [OF s(4,6,5)] by blast
  show "\<exists>c'. cursor_summary D Out c tgt bias = Some (c', pos_after I Out (d_zero Out) a) \<and> cursor_rest c' = b"
    using cursor_summary_correct [OF D Out c ge mono sp] by blast
  show "\<exists>c'. seek_forward D c tgt bias = Some (c',
       tgt (if bias = Left \<and> b \<noteq> [] then d_add D p (item_summary I (hd b)) else p) = Equal) \<and> cursor_rest c' = b"
    using dim_laws.seek_forward_correct [OF D c ge mono sp] by blast
qed

lemma seek_slice_summary_witness:
  "\<exists>c' t'. slice map_ops map_key_ref (cursor_new map_key_ref sample_map) (key_target (Some 4)) Left = Some (c', t') \<and>
     tree_items t' = [\<lparr>me_key = 2, me_value = 20\<rparr>] \<and> cursor_item c' = Some (Some \<lparr>me_key = 4, me_value = 40\<rparr>)"
proof -
  have m: "wf_tree map_ops sample_map" "height sample_map < STACK_CAPACITY" "sorted_keys entry_key (tree_items sample_map)"
    using sample_map_ok by (simp_all add: tm_ok_def fits_stack_def)
  note n = map_keyed.fresh_cursor [OF m(1,2)]
  have "key_target (Some 4) (c_position (cursor_new map_key_ref sample_map)) \<noteq> Less"
    unfolding n by (simp add: key_target_def)
  note S = seek_slice_summary [where tgt = "key_target (Some 4)", OF map_dim.dim_laws_axioms
      map_dim.dim_laws_axioms n(1,2) this, where bias = Left and a = "[\<lparr>me_key = 2, me_value = 20\<rparr>]" and p = "Some 2" and
        b = "[\<lparr>me_key = 4, me_value = 40\<rparr>, \<lparr>me_key = 7, me_value = 70\<rparr>]"]
  have "mono_target map_ops map_key_ref (\<lambda>d. passes Left (key_target (Some 4) d)) (c_position (cursor_new map_key_ref sample_map))
     (cursor_rest (cursor_new map_key_ref sample_map))"
    unfolding n by (rule map_keyed.mono_key) (simp add: m(3))
  moreover have "seek_split map_ops map_key_ref (\<lambda>d. passes Left (key_target (Some 4) d))
      (c_position (cursor_new map_key_ref sample_map)) (cursor_rest (cursor_new map_key_ref sample_map)) =
     ([\<lparr>me_key = 2, me_value = 20\<rparr>], [\<lparr>me_key = 4, me_value = 40\<rparr>, \<lparr>me_key = 7, me_value = 70\<rparr>], Some 2)"
    unfolding n by (simp add: sample_map_def passes_def key_target_def entry_key_def cmp_def)
  ultimately show ?thesis using S by auto
qed

text \<open>C9. \<open>next\<close> moves the cursor over exactly one item and \<open>prev\<close> back over exactly one, with
  the position kept the measure of the items behind; \<open>next_item\<close> and \<open>prev_item\<close> see the items
  around the cursor without moving it.\<close>

theorem cursor_next_prev:
  assumes "dim_laws I D" and "cursor_ok I D c" and "c_did_seek c" and "can_seek c" and "cursor_rest c = x # ys"
  shows "cursor_item c = Some (Some x) \<and> next_item c = Some (vec_first ys) \<and>
    prev_item c = Some (vec_last (cursor_done c)) \<and>
    (\<exists>c1. cursor_next D c = Some c1 \<and> cursor_ok I D c1 \<and> cursor_done c1 = cursor_done c @ [x] \<and> cursor_rest c1 = ys \<and>
       (\<exists>c2. cursor_prev D c1 = Some c2 \<and> cursor_ok I D c2 \<and> cursor_done c2 = cursor_done c \<and>
          cursor_rest c2 = x # ys \<and> c_position c2 = c_position c))"
proof -
  have st: "c_stack c \<noteq> []" using assms by (auto simp: can_seek_def cursor_rest_def)
  then have p: "pending c = ys" using assms(5) by (simp add: pending_def)
  obtain c1 where c1: "cursor_next D c = Some c1" "cursor_ok I D c1" "c_did_seek c1" "c_tree c1 = c_tree c"
    "cursor_rest c1 = ys"
    using dim_laws.cursor_next_correct [OF assms(1,2)] p by auto
  have "cursor_done c1 @ ys = (cursor_done c @ [x]) @ ys"
    using cursor_done_rest [OF c1(2)] cursor_done_rest [OF assms(2)] c1(4,5) assms(5) by simp
  then have d1: "cursor_done c1 = cursor_done c @ [x]" by (simp only: append_same_eq)
  obtain c2 where c2: "cursor_prev D c1 = Some c2" "cursor_ok I D c2" "c_tree c2 = c_tree c"
    "cursor_done c2 = cursor_done c"
    using dim_laws.cursor_prev_correct [OF assms(1) c1(2)] c1(3,4) d1 by (auto simp: behind_def)
  have "cursor_done c @ cursor_rest c2 = cursor_done c @ x # ys"
    using cursor_done_rest [OF c2(2)] cursor_done_rest [OF assms(2)] c2(3,4) assms(5) by simp
  then have "cursor_rest c2 = x # ys" by (simp only: same_append_eq)
  moreover have "c_position c2 = c_position c" using c2(2,4) assms(2) by (simp add: cursor_ok_def)
  ultimately show ?thesis
    using cursor_item_ok(1) [OF assms(2,3,4)] next_item_ok [OF assms(2,3)] prev_item_ok [OF assms(2,3)] p c1 d1 c2 assms(5)
    by auto
qed

lemma cursor_next_prev_witness:
  "\<exists>(c :: ((nat, nat) map_entry, nat option, nat option) cursor) x. cursor_item c = Some (Some x) \<and> me_key x = 4 \<and>
     (\<exists>c1. cursor_next map_key_ref c = Some c1 \<and> (\<exists>c2. cursor_prev map_key_ref c1 = Some c2 \<and> c_position c2 = Some 2))"
proof -
  have m: "wf_tree map_ops sample_map" "height sample_map < STACK_CAPACITY" "sorted_keys entry_key (tree_items sample_map)"
    using sample_map_ok by (simp_all add: tm_ok_def fits_stack_def)
  note n = map_keyed.fresh_cursor [OF m(1,2)]
  obtain c t where c: "cursor_ok map_ops map_key_ref c" "can_seek c" "c_did_seek c"
    "cursor_done c = below entry_key (Some 4) (tree_items sample_map)"
    "cursor_rest c = from_key entry_key (Some 4) (tree_items sample_map)"
    using map_keyed.slice_key [OF n(1,2), of "Some 4"] n m(3) by auto
  have r: "cursor_rest c = \<lparr>me_key = 4, me_value = 40\<rparr> # [\<lparr>me_key = 7, me_value = 70\<rparr>]"
    and d: "cursor_done c = [\<lparr>me_key = 2, me_value = 20\<rparr>]"
    unfolding c by (simp_all add: from_key_def below_def sample_map_def entry_key_def)
  have "c_position c = Some 2" using c(1) d by (simp add: cursor_ok_def entry_key_def)
  with cursor_next_prev [OF map_dim.dim_laws_axioms c(1,3,2) r] show ?thesis by fastforce
qed

text \<open>Searching with a filter on summaries that refuses a node only when it refuses all its items
  moves to the next accepted item, forward and backward: what is skipped is exactly what the filter
  refuses.\<close>

theorem cursor_search:
  assumes "dim_laws I D" and "cursor_ok I D c" and "node_filter I f"
  shows "(\<exists>c'. search_forward D f c = Some c' \<and> cursor_ok I D c' \<and>
       cursor_rest c' = dropWhile (\<lambda>x. \<not> f (item_summary I x)) (pending c)) \<and>
    (\<exists>c'. search_backward D f c = Some c' \<and> cursor_ok I D c' \<and>
       cursor_done c' = butlast (rev (dropWhile (\<lambda>x. \<not> f (item_summary I x)) (rev (behind c)))))"
  using dim_laws.search_forward_correct [OF assms] dim_laws.search_backward_correct [OF assms]
  unfolding drop_back_def by blast

definition max_ops :: "(nat, nat) item_ops" where
  "max_ops = \<lparr>item_summary = (\<lambda>n. n), s_zero = 0, s_add = max\<rparr>"

definition max_dim :: "(nat, nat) dim_ops" where
  "max_dim = \<lparr>d_zero = 0, d_add = max\<rparr>"

lemma max_laws: "dim_laws max_ops max_dim"
  by unfold_locales (simp_all add: max_ops_def max_dim_def)

lemma max_filter: "node_filter max_ops (\<lambda>s. 3 < s)"
proof -
  have le: "x \<le> s_sum max_ops xs" if "x \<in> set xs" for x xs
  proof -
    have a: "a \<le> foldl max a ys" for a :: nat and ys
      by (induction ys arbitrary: a) (auto intro: order_trans [OF max.cobounded1])
    have "x \<le> foldl max a xs" for a
      using that
    proof (induction xs arbitrary: a)
      case (Cons y xs)
      then show ?case using a [of "max a y" xs] by (cases "x = y") auto
    qed simp
    then show ?thesis using that by (simp add: s_sum_def max_ops_def)
  qed
  have sl: "summary_laws max_ops" using max_laws by (simp add: dim_laws_def)
  have m: "map (item_summary max_ops) xs = xs" for xs by (simp add: max_ops_def)
  show ?thesis
    unfolding node_filter_def
  proof (intro allI impI ballI)
    fix k t x assume "wf_node max_ops k t" "\<not> 3 < summary t" "x \<in> set (tree_items t)"
    then show "\<not> 3 < item_summary max_ops x"
      using le [of x "tree_items t"] summary_laws.wf_node_summary [OF sl] by (simp add: m) (simp add: max_ops_def)
  qed
qed

lemma cursor_search_witness:
  "\<exists>c'. search_forward max_dim (\<lambda>s. 3 < s) (cursor_new max_dim (Leaf 9 [2, 3, 9, 5] [2, 3, 9, 5])) = Some c' \<and>
     cursor_rest c' = [9, 5 :: nat]"
proof -
  have t: "wf_tree max_ops (Leaf 9 [2, 3, 9, 5] [2, 3, 9, 5])"
    "height (Leaf 9 [2, 3, 9, 5] [2, 3, 9, 5] :: (nat, nat) sum_tree) < STACK_CAPACITY"
    by (simp_all add: wf_tree_def max_ops_def s_sum_def TREE_BASE_def STACK_CAPACITY_def)
  note n = cursor_new_ok [OF t, of max_dim]
  have "pending (cursor_new max_dim (Leaf 9 [2, 3, 9, 5] [2, 3, 9, 5])) = [2, 3, 9, 5 :: nat]"
    using n by (simp add: pending_def cursor_new_def)
  with cursor_search [OF max_laws conjunct1 [OF n] max_filter] show ?thesis by (auto simp: max_ops_def)
qed

text \<open>C12. Listing a tree with \<open>items\<close> (a cursor moved by \<open>next\<close>) and with the iterator both return,
  and return the items in order.\<close>

theorem items_and_iter:
  assumes "summary_laws I" and "wf_tree I t" and "height t < STACK_CAPACITY"
  shows "items t = Some (tree_items t) \<and> iter t = Some (tree_items t)"
  using items_wf [OF assms] iter_wf [OF assms] by blast

lemma items_and_iter_witness: "items sample_map = Some (tree_items sample_map)"
  using items_and_iter [OF map_sum.summary_laws_axioms, of sample_map] sample_map_ok
  by (simp add: tm_ok_def fits_stack_def)

text \<open>C8. The operations on keyed items implement a finite map from keys to items: inserting
  overrides at the key and returns what it replaced, removing deletes and returns what was there,
  and a batch of edits with distinct keys applies them all and returns the items it displaced.\<close>

theorem keyed_operations:
  assumes L: "keyed_laws I D key" and t: "wf_tree I t" "height t < STACK_CAPACITY" "sorted_keys key (tree_items t)"
    and k: "d_zero D \<le> k" and eds: "sorted_wrt (<) (map (edit_key key) eds)" "\<forall>e \<in> set eds. d_zero D \<le> edit_key key e"
  shows "get D t k = keyed_map key (tree_items t) k \<and>
    (\<exists>t'. insert_or_replace I D key t x = Some (t', keyed_map key (tree_items t) (key x)) \<and> wf_tree I t' \<and>
       sorted_keys key (tree_items t') \<and> keyed_map key (tree_items t') = (keyed_map key (tree_items t))(key x \<mapsto> x)) \<and>
    (\<exists>t'. remove I D key t k = Some (t', keyed_map key (tree_items t) k) \<and> wf_tree I t' \<and>
       sorted_keys key (tree_items t') \<and> keyed_map key (tree_items t') = (keyed_map key (tree_items t))(k := None)) \<and>
    (\<exists>t'. edit_sorted I D key t eds = Some (t',
         concat (map (\<lambda>e. case keyed_map key (tree_items t) (edit_key key e) of None \<Rightarrow> [] | Some y \<Rightarrow> [y]) eds)) \<and>
       wf_tree I t' \<and> sorted_keys key (tree_items t') \<and>
       keyed_map key (tree_items t') = foldl (apply_edit key) (keyed_map key (tree_items t)) eds)"
proof (intro conjI)
  show "get D t k = keyed_map key (tree_items t) k" by (rule keyed_laws.get_items [OF L t(1,3)])
  show "\<exists>t'. insert_or_replace I D key t x = Some (t', keyed_map key (tree_items t) (key x)) \<and> wf_tree I t' \<and>
       sorted_keys key (tree_items t') \<and> keyed_map key (tree_items t') = (keyed_map key (tree_items t))(key x \<mapsto> x)"
    using keyed_laws.insert_or_replace_items [OF L t, of x] sorted_split(2) [OF t(3) refl] keyed_map_split(2) [OF t(3) refl]
    by metis
  show "\<exists>t'. remove I D key t k = Some (t', keyed_map key (tree_items t) k) \<and> wf_tree I t' \<and>
       sorted_keys key (tree_items t') \<and> keyed_map key (tree_items t') = (keyed_map key (tree_items t))(k := None)"
    using keyed_laws.remove_items [OF L t k] sorted_split(1) [OF t(3)] keyed_map_split(1) [OF t(3)] by metis
  show "\<exists>t'. edit_sorted I D key t eds = Some (t',
         concat (map (\<lambda>e. case keyed_map key (tree_items t) (edit_key key e) of None \<Rightarrow> [] | Some y \<Rightarrow> [y]) eds)) \<and>
       wf_tree I t' \<and> sorted_keys key (tree_items t') \<and>
       keyed_map key (tree_items t') = foldl (apply_edit key) (keyed_map key (tree_items t)) eds"
    by (rule keyed_laws.edit_sorted_items [OF L t eds])
qed

lemma keyed_operations_witness:
  "\<exists>t'. edit_sorted map_ops map_key_ref entry_key sample_map
       [Remove (Some 2), Insert \<lparr>me_key = 4, me_value = 1\<rparr>] =
     Some (t', [\<lparr>me_key = 2, me_value = 20\<rparr>, \<lparr>me_key = 4, me_value = 40\<rparr>]) \<and> wf_tree map_ops t'"
  using keyed_operations [OF map_keyed.keyed_laws_axioms, of sample_map "Some 2"
      "[Remove (Some 2), Insert \<lparr>me_key = 4, me_value = 1\<rparr>]"] sample_map_ok
  by (auto simp: tm_ok_def fits_stack_def sample_map_def entry_key_def)

end
