(* ===== verification/Locator.thy ===== *)
theory Locator
  imports SumTreeFind "HOL-Library.List_Lexorder"
begin

text \<open>
  Locators (\<open>crates/text/src/locator.rs\<close>): identifiers of positions in an ordered sequence, lists
  of 64-bit words compared lexicographically, with an operation that makes a new one between two
  others. It is shown to stay strictly between them for the locators the code makes, which end with
  a nonzero word, and to be at most one word longer than the longer of the two.
\<close>

subsection \<open>The type and its order\<close>

datatype locator = Locator (locator_words: "u64 list")

instantiation locator :: linorder
begin

definition less_eq_locator :: "locator \<Rightarrow> locator \<Rightarrow> bool" where
  "less_eq_locator a b \<longleftrightarrow> locator_words a \<le> locator_words b"

definition less_locator :: "locator \<Rightarrow> locator \<Rightarrow> bool" where
  "less_locator a b \<longleftrightarrow> locator_words a < locator_words b"

instance
  by standard (auto simp: less_eq_locator_def less_locator_def intro: locator.expand)

end

lemma locator_less_iff [simp]: "Locator xs < Locator ys \<longleftrightarrow> xs < ys"
  by (simp add: less_locator_def)

lemma locator_le_iff [simp]: "Locator xs \<le> Locator ys \<longleftrightarrow> xs \<le> ys"
  by (simp add: less_eq_locator_def)

subsection \<open>Operations\<close>

definition locator_min :: locator where
  "locator_min = Locator [0]"

definition locator_max :: locator where
  "locator_max = Locator [- 1]"

text \<open>\<open>SmallVec::resize\<close> and \<open>copy_from_slice\<close>, which panics when the lengths differ.\<close>

definition locator_assign :: "locator \<Rightarrow> locator \<Rightarrow> locator option" where
  "locator_assign self other = do {
     let resized = resize (locator_words self) (length (locator_words other)) 0;
     guard (length resized = length (locator_words other));
     Some (Locator (locator_words other))
   }"

text \<open>The iterators are extended without end, the left one with the least word and the right one
  with the greatest; \<open>lhs\<close> and \<open>rhs\<close> are what is left of the two lists. Past the end of both
  lists the middle is above the left word, so the loop ends.\<close>

definition padded_hd :: "u64 \<Rightarrow> u64 list \<Rightarrow> u64" where
  "padded_hd pad ws = (case ws of [] \<Rightarrow> pad | w # _ \<Rightarrow> w)"

definition locator_mid :: "u64 \<Rightarrow> u64 \<Rightarrow> u64" where
  "locator_mid l r = l + drop_bit 48 (saturating_sub r l)"

lemma locator_mid_ends [simp]: "locator_mid 0 (- 1) = 65535"
  by (simp add: locator_mid_def saturating_sub_def mask_eq_exp_minus_1)

function between_words :: "u64 list \<Rightarrow> u64 list \<Rightarrow> u64 list" where
  "between_words lhs rhs =
     (let l = padded_hd 0 lhs; r = padded_hd (- 1) rhs; mid = locator_mid l r
      in mid # (if l < mid then [] else between_words (tl lhs) (tl rhs)))"
  by pat_completeness auto
termination between_words
proof (relation "measure (\<lambda>(lhs, rhs). length lhs + length rhs)")
  fix lhs rhs :: "u64 list" and l r mid
  assume "l = padded_hd 0 lhs" "r = padded_hd (- 1) rhs" "mid = locator_mid l r" "\<not> l < mid"
  then have "lhs \<noteq> [] \<or> rhs \<noteq> []" by (auto simp: padded_hd_def)
  then show "((tl lhs, tl rhs), lhs, rhs) \<in> measure (\<lambda>(lhs, rhs). length lhs + length rhs)"
    by (cases lhs; cases rhs) auto
qed simp

declare between_words.simps [simp del]

definition locator_between :: "locator \<Rightarrow> locator \<Rightarrow> locator" where
  "locator_between lhs rhs = Locator (between_words (locator_words lhs) (locator_words rhs))"

definition locator_len :: "locator \<Rightarrow> nat" where
  "locator_len self = length (locator_words self)"

definition locator_is_empty :: "locator \<Rightarrow> bool" where
  "locator_is_empty self \<longleftrightarrow> locator_len self = 0"

definition locator_default :: locator where
  "locator_default = locator_min"

text \<open>A locator is its own summary, and the sum of summaries is the last one (\<open>assign\<close>).\<close>

definition locator_ops :: "(locator, locator) item_ops" where
  "locator_ops = \<lparr>item_summary = (\<lambda>x. x), s_zero = locator_default, s_add = (\<lambda>_ summary. summary)\<rparr>"

definition locator_dim :: "(locator, locator) dim_ops" where
  "locator_dim = \<lparr>d_zero = locator_default, d_add = (\<lambda>_ summary. summary)\<rparr>"

interpretation locator_dim: zero_dim_laws locator_ops locator_dim
  by unfold_locales (simp_all add: locator_ops_def locator_dim_def)

lemma locator_assign_ok: "locator_assign self other = Some other"
  by (simp add: locator_assign_def)

subsection \<open>The word between two words\<close>

lemma unat_locator_mid:
  "unat (locator_mid l r) = unat l + (unat r - unat l) div 2 ^ 48"
proof -
  let ?d = "unat r - unat l"
  have d: "unat (drop_bit 48 (saturating_sub r l)) = ?d div 2 ^ 48"
    by (subst unat_drop_bit_eq) (simp only: unat_saturating_sub drop_bit_eq_div)
  have "?d div 2 ^ 48 \<le> ?d" by (rule div_le_dividend)
  then have "unat l + ?d div 2 ^ 48 < 2 ^ LENGTH(64)"
    using unat_bound [of r] unat_bound [of l] by (cases "unat l \<le> unat r") auto
  then show ?thesis unfolding locator_mid_def using d by (simp add: unat_word_ariths(1))
qed

lemma locator_mid_ge: "l \<le> locator_mid l r"
  by (simp add: word_le_nat_alt unat_locator_mid)

lemma locator_mid_less: "l < r \<Longrightarrow> locator_mid l r < r"
proof -
  assume "l < r"
  then have "unat l < unat r" by (simp add: word_less_nat_alt)
  moreover from this have "(unat r - unat l) div 2 ^ 48 < unat r - unat l" by (intro div_less_dividend) simp_all
  ultimately show ?thesis unfolding word_less_nat_alt unat_locator_mid by linarith
qed

lemma locator_mid_same: "r \<le> l \<Longrightarrow> locator_mid l r = l"
  by (simp add: word_unat_eq_iff unat_locator_mid word_le_nat_alt)

subsection \<open>A locator between two locators\<close>

lemma between_above: "lhs < between_words lhs rhs"
proof (induction lhs rhs rule: between_words.induct)
  case (1 lhs rhs)
  let ?m = "locator_mid (padded_hd 0 lhs) (padded_hd (- 1) rhs)"
  show ?case
  proof (cases lhs)
    case Nil
    then show ?thesis by (subst between_words.simps) (simp add: Let_def)
  next
    case (Cons l ls)
    show ?thesis
    proof (cases "l < ?m")
      case True
      then show ?thesis using Cons by (subst between_words.simps) (simp add: Let_def)
    next
      case False
      then have "?m = l" using locator_mid_ge [of l] Cons by (simp add: padded_hd_def not_less antisym)
      then show ?thesis
        using "1.IH" [OF refl refl refl] Cons False
        by (subst between_words.simps) (simp add: Let_def padded_hd_def)
    qed
  qed
qed

lemma between_below:
  assumes "lhs < rhs" and "last rhs \<noteq> 0"
  shows "between_words lhs rhs < rhs"
  using assms
proof (induction lhs rhs rule: between_words.induct)
  case (1 lhs rhs)
  obtain r rs where rhs: "rhs = r # rs" using "1.prems"(1) by (cases rhs) auto
  let ?l = "padded_hd 0 lhs"
  have le: "?l \<le> r" using "1.prems"(1) rhs by (cases lhs) (auto simp: padded_hd_def)
  show ?case
  proof (cases "?l < r")
    case True
    then show ?thesis
      using locator_mid_less [OF True] rhs by (subst between_words.simps) (simp add: Let_def padded_hd_def)
  next
    case False
    with le have l: "?l = r" by simp
    have tl: "tl lhs < rs"
    proof (cases lhs)
      case Nil
      with l "1.prems"(2) rhs show ?thesis by (auto simp: padded_hd_def neq_Nil_conv split: if_splits)
    qed (use "1.prems"(1) l rhs in \<open>auto simp: padded_hd_def\<close>)
    then have "last rs \<noteq> 0" using "1.prems"(2) rhs by (auto split: if_splits)
    have "between_words (tl lhs) rs < rs"
      using "1.IH" [OF refl refl refl] tl \<open>last rs \<noteq> 0\<close> l rhs by (simp add: padded_hd_def locator_mid_same)
    then show ?thesis
      using l rhs by (subst between_words.simps) (simp add: Let_def padded_hd_def locator_mid_same)
  qed
qed

lemma between_last: "last (between_words lhs rhs) \<noteq> 0"
proof (induction lhs rhs rule: between_words.induct)
  case (1 lhs rhs)
  have ne: "between_words xs ys \<noteq> []" for xs ys by (subst between_words.simps) (simp add: Let_def)
  show ?case
    using "1.IH" [OF refl refl refl]
    by (subst between_words.simps) (auto simp: Let_def ne)
qed

lemma length_between: "length (between_words lhs rhs) \<le> Suc (max (length lhs) (length rhs))"
proof (induction lhs rhs rule: between_words.induct)
  case (1 lhs rhs)
  show ?case
  proof (cases "lhs = [] \<and> rhs = []")
    case True
    then show ?thesis by (subst between_words.simps) (simp add: padded_hd_def)
  next
    case False
    then have "Suc (max (length (tl lhs)) (length (tl rhs))) \<le> max (length lhs) (length rhs)"
      by (cases lhs; cases rhs) auto
    then show ?thesis
      using "1.IH" [OF refl refl refl] by (subst between_words.simps) (auto simp: Let_def)
  qed
qed

text \<open>The locators the code uses as right ends: not the minimum, and the last word not zero.\<close>

definition locator_ok :: "locator \<Rightarrow> bool" where
  "locator_ok a \<longleftrightarrow> locator_words a \<noteq> [] \<and> last (locator_words a) \<noteq> 0"

lemma locator_max_ok: "locator_ok locator_max"
  by (simp add: locator_ok_def locator_max_def)

text \<open>C14. \<open>Locator::between\<close> returns a locator strictly between its arguments, again fit to be an
  end of the next call, and at most one word longer than the longer argument: the sequence of
  positions is dense, in front of the maximum and behind the minimum.\<close>

theorem locator_between_dense:
  assumes "lhs < rhs" and "locator_ok rhs"
  shows "lhs < locator_between lhs rhs \<and> locator_between lhs rhs < rhs \<and> locator_ok (locator_between lhs rhs) \<and>
    locator_len (locator_between lhs rhs) \<le> Suc (max (locator_len lhs) (locator_len rhs))"
proof -
  have "between_words (locator_words lhs) (locator_words rhs) \<noteq> []"
    by (subst between_words.simps) (simp add: Let_def)
  then show ?thesis
    using assms between_above [of "locator_words lhs" "locator_words rhs"]
      between_below [of "locator_words lhs" "locator_words rhs"] between_last length_between
    by (simp add: less_locator_def locator_between_def locator_ok_def locator_len_def)
qed

lemma locator_between_dense_witness:
  "locator_min < locator_between locator_min locator_max \<and> locator_between locator_min locator_max < locator_max \<and>
   locator_len (locator_between locator_min locator_max) \<le> 2"
  using locator_between_dense [of locator_min locator_max] locator_max_ok
  by (simp add: locator_min_def locator_max_def locator_len_def numeral_2_eq_2 word_greater_zero_iff)

text \<open>A right end with a trailing zero has no locator the code could return in front of it.\<close>

lemma between_trailing_zero:
  "Locator [5] < Locator [5, 0]" "Locator [5, 0] < locator_between (Locator [5]) (Locator [5, 0])"
  by (simp_all add: locator_between_def between_words.simps padded_hd_def locator_mid_same)

end
