(* ===== verification/UndoMap.thy ===== *)
theory UndoMap
  imports Clock Keyed TreeIter
begin

text \<open>
  The undo counts of edits (\<open>crates/text/src/undo_map.rs\<close>): a summarised tree of entries keyed by
  the edit and the undo operation that counted it. An edit is undone when the greatest of its counts
  is odd. The tree is shown to implement the map from edits and undo operations to counts, and the
  queries, which scan the entries of an edit with a cursor, to return the greatest count.
\<close>

subsection \<open>Keys and entries\<close>

datatype undo_map_key = UndoMapKey (edit_id: lamport) (undo_id: lamport)

instantiation undo_map_key :: linorder
begin

definition less_eq_undo_map_key :: "undo_map_key \<Rightarrow> undo_map_key \<Rightarrow> bool" where
  "less_eq_undo_map_key a b \<longleftrightarrow> edit_id a < edit_id b \<or> edit_id a = edit_id b \<and> undo_id a \<le> undo_id b"

definition less_undo_map_key :: "undo_map_key \<Rightarrow> undo_map_key \<Rightarrow> bool" where
  "less_undo_map_key a b \<longleftrightarrow> edit_id a < edit_id b \<or> edit_id a = edit_id b \<and> undo_id a < undo_id b"

instance
  by standard
    (auto simp: less_eq_undo_map_key_def less_undo_map_key_def intro: undo_map_key.expand)

end

record undo_map_entry =
  ue_key :: undo_map_key
  ue_count :: u32

record undo_operation =
  undo_timestamp :: lamport
  undo_version :: global
  undo_counts :: "(lamport \<times> u32) list"  \<comment> \<open>a \<open>HashMap\<close>, in the order it is iterated\<close>

definition undo_zero :: undo_map_key where
  "undo_zero = UndoMapKey lamport_MIN lamport_MIN"

definition undo_ops :: "(undo_map_entry, undo_map_key) item_ops" where
  "undo_ops = \<lparr>item_summary = ue_key, s_zero = undo_zero, s_add = max\<rparr>"

text \<open>A summary measures itself (the dimension of every \<open>Summary\<close>).\<close>

definition undo_dim :: "(undo_map_key, undo_map_key) dim_ops" where
  "undo_dim = \<lparr>d_zero = undo_zero, d_add = max\<rparr>"

type_synonym undo_map = "(undo_map_entry, undo_map_key) sum_tree"

subsection \<open>Operations\<close>

definition undo_map_new :: undo_map where
  "undo_map_new = new undo_ops"

definition undo_insert :: "undo_map \<Rightarrow> undo_operation \<Rightarrow> undo_map option \<Rightarrow> bool" where
  "undo_insert self undo res \<longleftrightarrow> (\<exists>r.
     edits undo_ops undo_dim ue_key self
       (map (\<lambda>(edit_id, count).
          Insert \<lparr>ue_key = UndoMapKey edit_id (undo_timestamp undo), ue_count = count\<rparr>) (undo_counts undo)) r \<and>
     res = map_option fst r)"

text \<open>The loop over the entries in front of the cursor; \<open>counts\<close> says which entries count.\<close>

partial_function (option) undo_scan ::
    "lamport \<Rightarrow> (undo_map_entry \<Rightarrow> bool) \<Rightarrow> (undo_map_entry, undo_map_key, undo_map_key) cursor \<Rightarrow> u32 \<Rightarrow> u32 option"
  where
  "undo_scan edit counts cursor undo_count = do {
     (cursor', next_entry) \<leftarrow> cursor_iter_next undo_dim cursor;
     (case next_entry of
        None \<Rightarrow> Some undo_count
      | Some e \<Rightarrow>
          if edit_id (ue_key e) \<noteq> edit then Some undo_count
          else undo_scan edit counts cursor'
                 (if counts e then max undo_count (ue_count e) else undo_count))
   }"

definition undo_count :: "undo_map \<Rightarrow> lamport \<Rightarrow> u32 option" where
  "undo_count self edit = do {
     (cursor, _) \<leftarrow> seek undo_dim (cursor_new undo_dim self) (key_target (UndoMapKey edit lamport_MIN)) Left;
     undo_scan edit (\<lambda>_. True) cursor 0
   }"

definition is_undone :: "undo_map \<Rightarrow> lamport \<Rightarrow> bool option" where
  "is_undone self edit = do { count \<leftarrow> undo_count self edit; Some (count mod 2 = 1) }"

definition was_undone :: "undo_map \<Rightarrow> lamport \<Rightarrow> global \<Rightarrow> bool option" where
  "was_undone self edit version = do {
     (cursor, _) \<leftarrow> seek undo_dim (cursor_new undo_dim self) (key_target (UndoMapKey edit lamport_MIN)) Left;
     count \<leftarrow> undo_scan edit (\<lambda>e. global_observed version (undo_id (ue_key e))) cursor 0;
     Some (count mod 2 = 1)
   }"

subsection \<open>The instance keeps the contracts\<close>

lemma undo_zero_least [simp]: "undo_zero \<le> k"
  using lamport_MIN_least [of "edit_id k"] lamport_MIN_least [of "undo_id k"]
  by (auto simp: undo_zero_def less_eq_undo_map_key_def order.order_iff_strict)

lemma undo_ops_simps [simp]: "item_summary undo_ops = ue_key" "d_zero undo_dim = undo_zero"
  "d_add undo_dim = max" "s_zero undo_ops = undo_zero" "s_add undo_ops = max"
  by (simp_all add: undo_ops_def undo_dim_def)

interpretation undo_keyed: keyed_laws undo_ops undo_dim ue_key
  by unfold_locales (simp_all add: max.assoc max.absorb2)

subsection \<open>The map an undo map stands for\<close>

definition undo_ok :: "undo_map \<Rightarrow> bool" where
  "undo_ok m \<longleftrightarrow> wf_tree undo_ops m \<and> sorted_keys ue_key (tree_items m)"

definition undo_fits :: "undo_map \<Rightarrow> bool" where
  "undo_fits m \<longleftrightarrow> height m < STACK_CAPACITY"

definition undo_view :: "undo_map \<Rightarrow> lamport \<Rightarrow> lamport \<rightharpoonup> u32" where
  "undo_view m edit undo = map_option ue_count (keyed_map ue_key (tree_items m) (UndoMapKey edit undo))"

text \<open>The greatest of the counts of an edit that satisfy a predicate on the undo operation.\<close>

definition greatest_count :: "undo_map \<Rightarrow> lamport \<Rightarrow> (lamport \<Rightarrow> bool) \<Rightarrow> u32 \<Rightarrow> bool" where
  "greatest_count m edit P c \<longleftrightarrow>
     (c = 0 \<or> (\<exists>u. P u \<and> undo_view m edit u = Some c)) \<and> (\<forall>u c'. P u \<longrightarrow> undo_view m edit u = Some c' \<longrightarrow> c' \<le> c)"

definition scan_step :: "(undo_map_entry \<Rightarrow> bool) \<Rightarrow> undo_map_entry \<Rightarrow> u32 \<Rightarrow> u32" where
  "scan_step counts e c = (if counts e then max c (ue_count e) else c)"

lemma undo_scan_correct:
  assumes "cursor_ok undo_ops undo_dim c" and "can_seek c" and "c_did_seek c"
  shows "undo_scan edit counts c n =
     Some (fold (scan_step counts) (takeWhile (\<lambda>e. edit_id (ue_key e) = edit) (cursor_rest c)) n)"
  using assms
proof (induction "length (cursor_rest c)" arbitrary: c n rule: less_induct)
  case less
  obtain c' where c': "cursor_iter_next undo_dim c = Some (c', vec_first (cursor_rest c))"
    "cursor_rest c \<noteq> [] \<Longrightarrow> cursor_ok undo_ops undo_dim c' \<and> can_seek c' \<and> c_did_seek c' \<and>
       cursor_rest c' = tl (cursor_rest c)"
    using undo_keyed.cursor_iter_next_correct [OF less.prems] by blast
  show ?case
  proof (cases "cursor_rest c")
    case Nil
    then show ?thesis using c'(1) by (subst undo_scan.simps) simp
  next
    case (Cons x xs)
    then show ?thesis
      using c' less.hyps [of c'] by (subst undo_scan.simps) (simp add: scan_step_def)
  qed
qed

lemma fold_scan_step:
  "fold (scan_step counts) xs n = (if filter counts xs = [] then n else max n (Max (ue_count ` set (filter counts xs))))"
proof (induction xs arbitrary: n)
  case (Cons x xs)
  show ?case
    by (cases "filter counts xs = []") (auto simp: Cons.IH scan_step_def [of counts x] max.assoc simp del: set_filter)
qed simp

text \<open>The entries of an edit are what the scan from its least key reads.\<close>

lemma undo_entries:
  assumes "sorted_keys ue_key xs"
  shows "set (takeWhile (\<lambda>e. edit_id (ue_key e) = edit) (from_key ue_key (UndoMapKey edit lamport_MIN) xs)) =
    {e \<in> set xs. edit_id (ue_key e) = edit}"
proof -
  let ?k = "UndoMapKey edit lamport_MIN"
  have ge: "?k \<le> ue_key e" if "edit_id (ue_key e) = edit" for e
    using that by (simp add: less_eq_undo_map_key_def)
  have "set (takeWhile (\<lambda>e. edit_id (ue_key e) = edit) ys) = {e \<in> set ys. edit_id (ue_key e) = edit}"
    if "sorted_keys ue_key ys" "\<forall>y \<in> set ys. ?k \<le> ue_key y" for ys
    using that
  proof (induction ys)
    case (Cons y ys)
    show ?case
    proof (cases "edit_id (ue_key y) = edit")
      case False
      then have "edit < edit_id (ue_key y)" using Cons.prems(2) by (simp add: less_eq_undo_map_key_def)
      moreover have "edit_id (ue_key y) \<le> edit_id (ue_key z)" if "z \<in> set ys" for z
        using that Cons.prems(1) by (auto simp: less_undo_map_key_def)
      ultimately show ?thesis using False by fastforce
    qed (use Cons in auto)
  qed simp
  note this [OF sorted_from_key [OF assms]]
  moreover have "\<forall>y \<in> set (from_key ue_key ?k xs). ?k \<le> ue_key y" using from_key_ge [OF assms] by blast
  moreover have "e \<in> set (from_key ue_key ?k xs)" if "e \<in> set xs" "edit_id (ue_key e) = edit" for e
  proof -
    have "e \<in> set (below ue_key ?k xs @ from_key ue_key ?k xs)" unfolding below_from_key by (rule that(1))
    then show ?thesis using ge [OF that(2)] by (auto dest: below_less)
  qed
  moreover have "set (from_key ue_key ?k xs) \<subseteq> set xs" unfolding from_key_def by (rule set_dropWhileD [THEN subsetI])
  ultimately show ?thesis by auto
qed

lemma undo_view_iff:
  assumes "sorted_keys ue_key (tree_items m)"
  shows "undo_view m edit u = Some c \<longleftrightarrow> (\<exists>e \<in> set (tree_items m). ue_key e = UndoMapKey edit u \<and> ue_count e = c)"
proof -
  have "distinct (map ue_key (tree_items m))"
    using assms by (simp add: sorted_keys_def strict_sorted_iff flip: sorted_wrt_map)
  then have "keyed_map ue_key (tree_items m) k = Some e \<longleftrightarrow> e \<in> set (tree_items m) \<and> ue_key e = k" for k e
    by (auto simp: keyed_map_def map_of_eq_Some_iff comp_def)
  then show ?thesis by (auto simp: undo_view_def)
qed

lemma undo_scan_view:
  assumes "undo_ok m" and "undo_fits m"
  shows "\<exists>c r n. seek undo_dim (cursor_new undo_dim m) (key_target (UndoMapKey edit lamport_MIN)) Left = Some (c, r) \<and>
    undo_scan edit (\<lambda>e. P (undo_id (ue_key e))) c 0 = Some n \<and> greatest_count m edit P n"
proof -
  have m: "wf_tree undo_ops m" "height m < STACK_CAPACITY" "sorted_keys ue_key (tree_items m)"
    using assms by (simp_all add: undo_ok_def undo_fits_def)
  obtain c r where c: "seek undo_dim (cursor_new undo_dim m) (key_target (UndoMapKey edit lamport_MIN)) Left = Some (c, r)"
    "cursor_ok undo_ops undo_dim c" "can_seek c" "c_did_seek c"
    "cursor_rest c = from_key ue_key (UndoMapKey edit lamport_MIN) (tree_items m)"
    using undo_keyed.seek_key [OF m, of "UndoMapKey edit lamport_MIN"] by auto
  let ?xs = "takeWhile (\<lambda>e. edit_id (ue_key e) = edit) (cursor_rest c)"
  let ?P = "\<lambda>e. P (undo_id (ue_key e))"
  define n where "n = fold (scan_step ?P) ?xs 0"
  have xs: "set (filter ?P ?xs) = {e \<in> set (tree_items m). edit_id (ue_key e) = edit \<and> ?P e}"
    unfolding set_filter c(5) undo_entries [OF m(3)] by auto
  have "undo_view m edit u = Some c' \<longleftrightarrow>
      (\<exists>e \<in> set (tree_items m). edit_id (ue_key e) = edit \<and> undo_id (ue_key e) = u \<and> ue_count e = c')" for u c'
    unfolding undo_view_iff [OF m(3)] by (metis undo_map_key.collapse undo_map_key.sel)
  note view = this
  have le: "ue_count e \<le> n" if "e \<in> set (filter ?P ?xs)" for e
    using that unfolding n_def fold_scan_step by (auto simp del: set_filter simp: le_max_iff_disj intro: Max_ge)
  have "n = 0 \<or> (\<exists>e \<in> set (filter ?P ?xs). ue_count e = n)"
  proof (cases "filter ?P ?xs = []")
    case False
    then have "Max (ue_count ` set (filter ?P ?xs)) \<in> ue_count ` set (filter ?P ?xs)" 
      by (intro Max_in finite_imageI finite_set) (simp only: image_is_empty set_empty not_False_eq_True)
    then obtain e where "Max (ue_count ` set (filter ?P ?xs)) = ue_count e" "e \<in> set (filter ?P ?xs)"
      by (rule imageE)
    moreover have "n = Max (ue_count ` set (filter ?P ?xs))" using False unfolding n_def fold_scan_step by (simp del: set_filter)
    ultimately show ?thesis by metis
  qed (simp add: n_def fold_scan_step)
  then have "greatest_count m edit P n"
    using le unfolding xs greatest_count_def view by blast
  moreover have "undo_scan edit ?P c 0 = Some n"
    unfolding n_def by (rule undo_scan_correct [OF c(2-4)])
  ultimately show ?thesis using c(1) by blast
qed

lemma undo_insert_view:
  assumes "undo_ok m" and "undo_fits m" and "distinct (map fst (undo_counts undo))" and "undo_insert m undo res"
  shows "\<exists>m'. res = Some m' \<and> undo_ok m' \<and>
     (\<forall>edit u. undo_view m' edit u =
        (if u = undo_timestamp undo \<and> map_of (undo_counts undo) edit \<noteq> None
         then map_of (undo_counts undo) edit else undo_view m edit u))"
proof -
  have m: "wf_tree undo_ops m" "height m < STACK_CAPACITY" "sorted_keys ue_key (tree_items m)"
    using assms by (simp_all add: undo_ok_def undo_fits_def)
  let ?e = "\<lambda>(edit, count). \<lparr>ue_key = UndoMapKey edit (undo_timestamp undo), ue_count = count\<rparr>"
  let ?xs = "map ?e (undo_counts undo)"
  have "map (\<lambda>(edit_id, count). Insert \<lparr>ue_key = UndoMapKey edit_id (undo_timestamp undo), ue_count = count\<rparr>)
      (undo_counts undo) = (map Insert ?xs :: (undo_map_entry, undo_map_key) edit list)" by auto
  with assms(4) obtain r where r: "edits undo_ops undo_dim ue_key m (map Insert ?xs) r" "res = map_option fst r"
    unfolding undo_insert_def by metis
  have "map ue_key ?xs = map (\<lambda>e. UndoMapKey e (undo_timestamp undo)) (map fst (undo_counts undo))"
    by (simp add: split_beta)
  then have "distinct (map ue_key ?xs)"
    using assms(3) by (simp only: distinct_map [of "\<lambda>e. UndoMapKey e _"]) (simp add: inj_on_def)
  from undo_keyed.insert_edits [OF m this r(1)] obtain m' removed where m': "r = Some (m', removed)"
    "wf_tree undo_ops m'" "sorted_keys ue_key (tree_items m')"
    "keyed_map ue_key (tree_items m') = keyed_map ue_key (tree_items m) ++ keyed_map ue_key ?xs" by blast
  have new: "map_option ue_count (keyed_map ue_key (map ?e xs) (UndoMapKey edit u)) =
      (if u = undo_timestamp undo then map_of xs edit else None)" for edit u xs
    by (induction xs) auto
  have "undo_view m' edit u =
        (if u = undo_timestamp undo \<and> map_of (undo_counts undo) edit \<noteq> None
         then map_of (undo_counts undo) edit else undo_view m edit u)" for edit u
    using new [of "undo_counts undo" edit u] unfolding undo_view_def m'(4)
    by (cases "keyed_map ue_key ?xs (UndoMapKey edit u)") (auto simp: map_add_def split: if_splits)
  then show ?thesis using m' r(2) by (auto simp: undo_ok_def)
qed

text \<open>C15. The queries of an undo map return the greatest count of the edit (0 when there is none), among
  all its undo operations or among those a version has observed, and read its parity; inserting an
  undo operation sets its count for each edit it names and changes nothing else, whatever order the
  hash map is iterated in.\<close>

theorem undo_map_counts:
  assumes "undo_ok m" and "undo_fits m" and "distinct (map fst (undo_counts undo))" and "undo_insert m undo res"
  shows "(\<exists>n. undo_count m edit = Some n \<and> is_undone m edit = Some (n mod 2 = 1) \<and> greatest_count m edit (\<lambda>_. True) n) \<and>
    (\<exists>n. was_undone m edit version = Some (n mod 2 = 1) \<and> greatest_count m edit (global_observed version) n) \<and>
    (\<exists>m'. res = Some m' \<and> undo_ok m' \<and>
       (\<forall>e u. undo_view m' e u =
          (if u = undo_timestamp undo \<and> map_of (undo_counts undo) e \<noteq> None
           then map_of (undo_counts undo) e else undo_view m e u)))"
  using undo_scan_view [OF assms(1,2), of edit "\<lambda>_. True"] undo_scan_view [OF assms(1,2), of edit "global_observed version"]
    undo_insert_view [OF assms]
  by (auto simp: undo_count_def is_undone_def was_undone_def)

lemma undo_new_ok: "undo_ok undo_map_new" "undo_fits undo_map_new" "undo_view undo_map_new e u = None"
  by (simp_all add: undo_ok_def undo_fits_def undo_map_new_def undo_view_def new_def wf_tree_def STACK_CAPACITY_def)

lemma undo_map_counts_witness:
  "\<exists>m'. undo_insert undo_map_new
       \<lparr>undo_timestamp = Lamport 9 LOCAL, undo_version = global_new, undo_counts = [(Lamport 3 LOCAL, 1)]\<rparr> (Some m') \<and>
     undo_ok m' \<and> undo_view m' (Lamport 3 LOCAL) (Lamport 9 LOCAL) = Some 1"
proof -
  let ?u = "\<lparr>undo_timestamp = Lamport 9 LOCAL, undo_version = global_new, undo_counts = [(Lamport 3 LOCAL, 1)]\<rparr>"
  have "\<exists>res. undo_insert undo_map_new ?u res"
    by (auto simp: undo_insert_def edits_def sorted_edits_def
        intro!: exI [of _ "[Insert \<lparr>ue_key = UndoMapKey (Lamport 3 LOCAL) (Lamport 9 LOCAL), ue_count = 1\<rparr>]"])
  then obtain res where r: "undo_insert undo_map_new ?u res" ..
  have "distinct (map fst (undo_counts ?u))" by simp
  from undo_map_counts [OF undo_new_ok(1,2) this r] obtain m' where m': "res = Some m'" "undo_ok m'"
    and v: "\<forall>e u. undo_view m' e u = (if u = undo_timestamp ?u \<and> map_of (undo_counts ?u) e \<noteq> None
       then map_of (undo_counts ?u) e else undo_view undo_map_new e u)" by blast
  have "undo_view m' (Lamport 3 LOCAL) (Lamport 9 LOCAL) = Some 1"
    using v [rule_format, of "Lamport 3 LOCAL" "Lamport 9 LOCAL"] by simp
  with r m' show ?thesis by blast
qed

end
