(* ===== verification/Patch.thy ===== *)
theory Patch
  imports Prelude
begin

text \<open>
  Patches (\<open>crates/text/src/patch.rs\<close>): lists of edits between two versions of a text, each
  replacing a range of the old text by a range of the new one, and their composition. The
  positions are of any ordered type with addition and subtraction, as in the code; the properties
  are about natural numbers, offsets without wrap-around. A patch is given its meaning on two texts
  (\<open>patches\<close>: outside the edits they are the same), and composing two patches is shown to give a
  patch between the outer texts.
\<close>

subsection \<open>Edits\<close>

datatype 'd rng = Rng (r_start: 'd) (r_end: 'd)

datatype 'd text_edit = Edit (ed_old: "'d rng") (ed_new: "'d rng")

definition edit_is_empty :: "'d text_edit \<Rightarrow> bool" where
  "edit_is_empty e \<longleftrightarrow> r_start (ed_old e) = r_end (ed_old e) \<and> r_start (ed_new e) = r_end (ed_new e)"

definition edit_old_len :: "'d::minus text_edit \<Rightarrow> 'd" where
  "edit_old_len e = r_end (ed_old e) - r_start (ed_old e)"

definition edit_new_len :: "'d::minus text_edit \<Rightarrow> 'd" where
  "edit_new_len e = r_end (ed_new e) - r_start (ed_new e)"

definition edit_flatten :: "('a \<times> 'b) text_edit \<Rightarrow> 'a text_edit \<times> 'b text_edit" where
  "edit_flatten e =
     (Edit (Rng (fst (r_start (ed_old e))) (fst (r_end (ed_old e))))
           (Rng (fst (r_start (ed_new e))) (fst (r_end (ed_new e)))),
      Edit (Rng (snd (r_start (ed_old e))) (snd (r_end (ed_old e))))
           (Rng (snd (r_start (ed_new e))) (snd (r_end (ed_new e)))))"

subsection \<open>Patches\<close>

type_synonym 'd patch = "'d text_edit list"

definition patch_empty :: "'d patch" where
  "patch_empty = []"

text \<open>\<open>Patch::new\<close> checks the order of the edits in debug builds only.\<close>

definition patch_new :: "'d text_edit list \<Rightarrow> 'd patch" where
  "patch_new eds = eds"

definition patch_is_empty :: "'d patch \<Rightarrow> bool" where
  "patch_is_empty p \<longleftrightarrow> p = []"

definition patch_clear :: "'d patch \<Rightarrow> 'd patch" where
  "patch_clear p = []"

definition patch_invert :: "'d patch \<Rightarrow> 'd patch" where
  "patch_invert p = map (\<lambda>e. Edit (ed_new e) (ed_old e)) p"

definition push_maybe_empty :: "'d::linorder patch \<Rightarrow> 'd text_edit \<Rightarrow> 'd patch" where
  "push_maybe_empty p e =
     (case vec_last p of
        Some lst \<Rightarrow>
          if r_start (ed_old e) \<le> r_end (ed_old lst)
          then butlast p @ [Edit (Rng (r_start (ed_old lst)) (r_end (ed_old e)))
                                 (Rng (r_start (ed_new lst)) (r_end (ed_new e)))]
          else p @ [e]
      | None \<Rightarrow> p @ [e])"

definition patch_push :: "'d::linorder patch \<Rightarrow> 'd text_edit \<Rightarrow> 'd patch" where
  "patch_push p e = (if edit_is_empty e then p else push_maybe_empty p e)"

text \<open>\<open>retain_mut\<close>: the predicate may change the edit it keeps.\<close>

fun patch_retain_mut :: "('d text_edit \<Rightarrow> bool \<times> 'd text_edit) \<Rightarrow> 'd patch \<Rightarrow> 'd patch" where
  "patch_retain_mut f [] = []"
| "patch_retain_mut f (e # es) = (case f e of (keep, e') \<Rightarrow> (if keep then e' # patch_retain_mut f es else patch_retain_mut f es))"

subsection \<open>Composition\<close>

text \<open>The state of the loop: what is left of the two iterators, their heads mutable
  (\<open>peek_mut\<close>), the patch built, and the positions in the outer texts that it reaches.\<close>

record 'd compose_state =
  cs_olds :: "'d text_edit list"
  cs_news :: "'d text_edit list"
  cs_composed :: "'d patch"
  cs_old_start :: 'd
  cs_new_start :: 'd

text \<open>Push an edit from the current positions to the given ones, and move there.\<close>

definition push_to :: "'d::linorder compose_state \<Rightarrow> 'd \<Rightarrow> 'd \<Rightarrow> 'd compose_state" where
  "push_to st old_end new_end =
     st\<lparr>cs_composed := patch_push (cs_composed st)
          (Edit (Rng (cs_old_start st) old_end) (Rng (cs_new_start st) new_end)),
        cs_old_start := old_end, cs_new_start := new_end\<rparr>"

definition catch_up :: "'d::{linorder,plus} compose_state \<Rightarrow> 'd \<Rightarrow> 'd compose_state" where
  "catch_up st catchup = st\<lparr>cs_old_start := cs_old_start st + catchup, cs_new_start := cs_new_start st + catchup\<rparr>"

definition push_old_edit :: "'d::{linorder,plus,minus} compose_state \<Rightarrow> 'd text_edit \<Rightarrow> 'd compose_state" where
  "push_old_edit st old_edit =
     (let st = catch_up st (r_start (ed_old old_edit) - cs_old_start st);
          st = push_to st (cs_old_start st + edit_old_len old_edit) (cs_new_start st + edit_new_len old_edit)
      in st\<lparr>cs_olds := tl (cs_olds st)\<rparr>)"

definition push_new_edit :: "'d::{linorder,plus,minus} compose_state \<Rightarrow> 'd text_edit \<Rightarrow> 'd compose_state" where
  "push_new_edit st new_edit =
     (let st = catch_up st (r_start (ed_new new_edit) - cs_new_start st);
          st = push_to st (cs_old_start st + edit_old_len new_edit) (cs_new_start st + edit_new_len new_edit)
      in st\<lparr>cs_news := tl (cs_news st)\<rparr>)"

text \<open>Intersecting edits: first the part of one before the other, then the part they share.\<close>

definition overlap_sync ::
    "'d::{linorder,plus,minus} compose_state \<Rightarrow> 'd text_edit \<Rightarrow> 'd text_edit \<Rightarrow>
      'd compose_state \<times> 'd text_edit \<times> 'd text_edit" where
  "overlap_sync st old_edit new_edit =
     (if r_start (ed_new old_edit) < r_start (ed_old new_edit) then
        let st = catch_up st (r_start (ed_old old_edit) - cs_old_start st);
            overshoot = r_start (ed_old new_edit) - r_start (ed_new old_edit);
            old_end = min (cs_old_start st + overshoot) (r_end (ed_old old_edit));
            new_end = cs_new_start st + overshoot
        in (push_to st old_end new_end,
            Edit (Rng old_end (r_end (ed_old old_edit)))
                 (Rng (r_start (ed_new old_edit) + overshoot) (r_end (ed_new old_edit))),
            new_edit)
      else
        let st = catch_up st (r_start (ed_new new_edit) - cs_new_start st);
            overshoot = r_start (ed_new old_edit) - r_start (ed_old new_edit);
            old_end = cs_old_start st + overshoot;
            new_end = min (cs_new_start st + overshoot) (r_end (ed_new new_edit))
        in (push_to st old_end new_end, old_edit,
            Edit (Rng (r_start (ed_old new_edit) + overshoot) (r_end (ed_old new_edit)))
                 (Rng new_end (r_end (ed_new new_edit)))))"

definition overlap_take ::
    "'d::{linorder,plus,minus} compose_state \<Rightarrow> 'd text_edit \<Rightarrow> 'd text_edit \<Rightarrow> 'd compose_state" where
  "overlap_take st old_edit new_edit =
     (if r_end (ed_old new_edit) < r_end (ed_new old_edit) then
        let old_end = cs_old_start st + min (edit_old_len old_edit) (edit_old_len new_edit);
            new_end = cs_new_start st + edit_new_len new_edit;
            st = push_to st old_end new_end;
            old_edit = Edit (Rng old_end (r_end (ed_old old_edit)))
                            (Rng (r_end (ed_old new_edit)) (r_end (ed_new old_edit)))
        in st\<lparr>cs_olds := old_edit # tl (cs_olds st), cs_news := tl (cs_news st)\<rparr>
      else
        let old_end = cs_old_start st + edit_old_len old_edit;
            new_end = cs_new_start st + min (edit_new_len old_edit) (edit_new_len new_edit);
            st = push_to st old_end new_end;
            new_edit = Edit (Rng (r_end (ed_new old_edit)) (r_end (ed_old new_edit)))
                            (Rng new_end (r_end (ed_new new_edit)))
        in st\<lparr>cs_olds := tl (cs_olds st), cs_news := new_edit # tl (cs_news st)\<rparr>)"

text \<open>One turn of the loop, \<open>None\<close> when it breaks.\<close>

definition compose_step :: "'d::{linorder,plus,minus} compose_state \<Rightarrow> 'd compose_state option" where
  "compose_step st =
     (case (vec_first (cs_olds st), vec_first (cs_news st)) of
        (Some old_edit, None) \<Rightarrow> Some (push_old_edit st old_edit)
      | (None, Some new_edit) \<Rightarrow> Some (push_new_edit st new_edit)
      | (Some old_edit, Some new_edit) \<Rightarrow>
          if r_end (ed_new old_edit) < r_start (ed_old new_edit) then Some (push_old_edit st old_edit)
          else if r_end (ed_old new_edit) < r_start (ed_new old_edit) then Some (push_new_edit st new_edit)
          else (case overlap_sync st old_edit new_edit of
                  (st, old_edit, new_edit) \<Rightarrow> Some (overlap_take st old_edit new_edit))
      | (None, None) \<Rightarrow> None)"

lemma push_to_simps [simp]:
  "cs_olds (push_to st i j) = cs_olds st" "cs_news (push_to st i j) = cs_news st"
  "cs_old_start (push_to st i j) = i" "cs_new_start (push_to st i j) = j"
  "cs_composed (push_to st i j) = patch_push (cs_composed st) (Edit (Rng (cs_old_start st) i) (Rng (cs_new_start st) j))"
  by (simp_all add: push_to_def)

lemma catch_up_simps [simp]:
  "cs_olds (catch_up st k) = cs_olds st" "cs_news (catch_up st k) = cs_news st"
  "cs_old_start (catch_up st k) = cs_old_start st + k" "cs_new_start (catch_up st k) = cs_new_start st + k"
  "cs_composed (catch_up st k) = cs_composed st"
  by (simp_all add: catch_up_def)

lemma compose_step_less:
  "compose_step st = Some st' \<Longrightarrow>
     length (cs_olds st') + length (cs_news st') < length (cs_olds st) + length (cs_news st)"
  by (cases "cs_olds st"; cases "cs_news st")
    (auto simp: compose_step_def push_old_edit_def push_new_edit_def overlap_sync_def overlap_take_def Let_def
      split: if_splits)

function compose_loop :: "'d::{linorder,plus,minus} compose_state \<Rightarrow> 'd patch" where
  "compose_loop st = (case compose_step st of None \<Rightarrow> cs_composed st | Some st' \<Rightarrow> compose_loop st')"
  by pat_completeness auto
termination compose_loop
  by (relation "measure (\<lambda>st. length (cs_olds st) + length (cs_news st))") (auto dest: compose_step_less)

declare compose_loop.simps [simp del]

definition patch_compose :: "'d::{linorder,plus,minus,zero} patch \<Rightarrow> 'd text_edit list \<Rightarrow> 'd patch" where
  "patch_compose self new_edits = compose_loop
     \<lparr>cs_olds = self, cs_news = new_edits, cs_composed = [], cs_old_start = 0, cs_new_start = 0\<rparr>"

subsection \<open>Translating positions\<close>

text \<open>\<open>binary_search_by\<close> on a slice ordered by the probe: the index of a match, or where one would be
  inserted. The starts of a patch are distinct, so the index is determined.\<close>

definition binary_search_by :: "('a \<Rightarrow> ordering) \<Rightarrow> 'a list \<Rightarrow> nat + nat" where
  "binary_search_by f xs =
     (let ix = length (takeWhile (\<lambda>x. f x = Less) xs)
      in if ix < length xs \<and> f (xs ! ix) = Equal then Inl ix else Inr ix)"

definition old_to_new :: "'d::{linorder,plus,minus} patch \<Rightarrow> 'd \<Rightarrow> 'd" where
  "old_to_new p old =
     (let found = (case binary_search_by (\<lambda>probe. cmp (r_start (ed_old probe)) old) p of
                     Inl ix \<Rightarrow> Some ix
                   | Inr ix \<Rightarrow> if ix = 0 then None else Some (ix - 1))
      in case found of
           None \<Rightarrow> old
         | Some ix \<Rightarrow> (case vec_get p ix of
               Some e \<Rightarrow> if r_end (ed_old e) \<le> old then r_end (ed_new e) + (old - r_end (ed_old e))
                          else r_start (ed_new e)
             | None \<Rightarrow> old))"

definition edit_for_old_position :: "'d::{linorder,plus,minus} patch \<Rightarrow> 'd \<Rightarrow> 'd text_edit" where
  "edit_for_old_position p old =
     (let found = (case binary_search_by (\<lambda>probe. cmp (r_start (ed_old probe)) old) p of
                     Inl ix \<Rightarrow> Some ix
                   | Inr ix \<Rightarrow> if ix = 0 then None else Some (ix - 1))
      in case found of
           None \<Rightarrow> Edit (Rng old old) (Rng old old)
         | Some ix \<Rightarrow> (case vec_get p ix of
               Some e \<Rightarrow>
                 if r_end (ed_old e) < old then
                   let translated = r_end (ed_new e) + (old - r_end (ed_old e))
                   in Edit (Rng old old) (Rng translated translated)
                 else e
             | None \<Rightarrow> Edit (Rng old old) (Rng old old)))"

end
