(* ===== verification/PatchSpec.thy ===== *)
theory PatchSpec
  imports Patch
begin

text \<open>
  The meaning of a patch on two texts and the properties of the operations on patches. A patch
  covers two texts when they are the same outside its edits (\<open>covers\<close>); composition, inversion
  and translation of positions are stated against that.
\<close>

subsection \<open>Equal segments\<close>

text \<open>The segment of the old text from \<open>i\<close> to \<open>i'\<close> is the segment of the new one from \<open>j\<close> to \<open>j'\<close>.\<close>

definition same :: "'c list \<Rightarrow> 'c list \<Rightarrow> nat \<Rightarrow> nat \<Rightarrow> nat \<Rightarrow> nat \<Rightarrow> bool" where
  "same old new i j i' j' \<longleftrightarrow> i \<le> i' \<and> i' \<le> length old \<and> j \<le> j' \<and> j' \<le> length new \<and> i' - i = j' - j \<and>
     (\<forall>k < i' - i. old ! (i + k) = new ! (j + k))"

lemma same_refl [simp]: "same old new i j i j \<longleftrightarrow> i \<le> length old \<and> j \<le> length new"
  by (auto simp: same_def)

lemma same_bounds:
  "same old new i j i' j' \<Longrightarrow> i \<le> i' \<and> j \<le> j' \<and> i' \<le> length old \<and> j' \<le> length new \<and> i' + j = j' + i"
  by (auto simp: same_def)

lemma same_trans:
  assumes "same old new i j i' j'" and "same old new i' j' i'' j''"
  shows "same old new i j i'' j''"
proof -
  have "old ! (i + k) = new ! (j + k)" if "k < i'' - i" for k
  proof (cases "k < i' - i")
    case False
    define l where "l = k - (i' - i)"
    have "i + k = i' + l" "j + k = j' + l" "l < i'' - i'"
      using False that assms by (auto simp: l_def same_def)
    then show ?thesis using assms(2) by (simp add: same_def)
  qed (use assms in \<open>simp add: same_def\<close>)
  then show ?thesis using assms by (auto simp: same_def)
qed

lemma same_take:
  assumes "same old new i j i' j'" and "i \<le> k" and "k \<le> i'" and "k + j = l + i"
  shows "same old new i j k l" and "same old new k l i' j'"
proof -
  have "old ! (k + m) = new ! (l + m)" if "m < i' - k" for m
  proof -
    have "k + m = i + (k - i + m)" "l + m = j + (k - i + m)" "k - i + m < i' - i" using that assms by auto
    then show ?thesis using assms(1) unfolding same_def by metis
  qed
  then show "same old new k l i' j'" using assms by (auto simp: same_def)
  show "same old new i j k l" using assms by (auto simp: same_def)
qed

lemma same_comp:
  assumes "same t0 t1 a b a' b'" and "same t1 t2 b c b' c'"
  shows "same t0 t2 a c a' c'"
  using assms by (auto simp: same_def)

lemma same_sym: "same old new i j i' j' \<Longrightarrow> same new old j i j' i'"
  by (auto simp: same_def)

subsection \<open>What a patch says of two texts\<close>

text \<open>From the positions \<open>i\<close>, \<open>j\<close> to \<open>i'\<close>, \<open>j'\<close> the two texts are the same outside the edits.\<close>

fun covers :: "'c list \<Rightarrow> 'c list \<Rightarrow> nat \<Rightarrow> nat \<Rightarrow> nat patch \<Rightarrow> nat \<Rightarrow> nat \<Rightarrow> bool" where
  "covers old new i j [] i' j' \<longleftrightarrow> same old new i j i' j'"
| "covers old new i j (e # es) i' j' \<longleftrightarrow>
     same old new i j (r_start (ed_old e)) (r_start (ed_new e)) \<and>
     r_start (ed_old e) \<le> r_end (ed_old e) \<and> r_start (ed_new e) \<le> r_end (ed_new e) \<and>
     covers old new (r_end (ed_old e)) (r_end (ed_new e)) es i' j'"

definition patches :: "nat patch \<Rightarrow> 'c list \<Rightarrow> 'c list \<Rightarrow> bool" where
  "patches p old new \<longleftrightarrow> covers old new 0 0 p (length old) (length new)"

lemma covers_bounds:
  "covers old new i j p i' j' \<Longrightarrow> i \<le> i' \<and> j \<le> j' \<and> i' \<le> length old \<and> j' \<le> length new"
  by (induction p arbitrary: i j) (fastforce dest: same_bounds)+

lemma covers_extend:
  "covers old new i j p k l \<Longrightarrow> same old new k l i' j' \<Longrightarrow> covers old new i j p i' j'"
  by (induction p arbitrary: i j) (auto intro: same_trans)

lemma covers_gap:
  "same old new i j k l \<Longrightarrow> covers old new k l p i' j' \<Longrightarrow> covers old new i j p i' j'"
  by (cases p) (auto intro: same_trans)

lemma covers_append:
  "covers old new i j (p @ q) i' j' \<longleftrightarrow> (\<exists>k l. covers old new i j p k l \<and> covers old new k l q i' j')"
proof (induction p arbitrary: i j)
  case Nil
  have "same old new i j i j" if "covers old new i j q i' j'" using covers_bounds [OF that] by simp
  then show ?case unfolding append_Nil covers.simps(1) by (blast intro: covers_gap)
qed auto

lemma covers_snoc:
  "covers old new i j (p @ [e]) i' j' \<longleftrightarrow>
     covers old new i j p (r_start (ed_old e)) (r_start (ed_new e)) \<and>
     r_start (ed_old e) \<le> r_end (ed_old e) \<and> r_start (ed_new e) \<le> r_end (ed_new e) \<and>
     same old new (r_end (ed_old e)) (r_end (ed_new e)) i' j'"
proof -
  have "same old new (r_start (ed_old e)) (r_start (ed_new e)) (r_start (ed_old e)) (r_start (ed_new e))"
    if "covers old new i j p (r_start (ed_old e)) (r_start (ed_new e))"
    using covers_bounds [OF that] by simp
  then show ?thesis unfolding covers_append covers.simps by (blast intro: covers_extend)
qed

text \<open>The gap in front of the first edit, and what follows it from any point of the gap.\<close>

lemma covers_first_gap:
  assumes "covers old new i j p (length old) (length new)"
  obtains k l where "same old new i j k l"
    and "\<And>i' j'. same old new i' j' k l \<Longrightarrow> covers old new i' j' p (length old) (length new)"
    and "vec_first p = None \<Longrightarrow> k = length old \<and> l = length new"
    and "\<And>e. vec_first p = Some e \<Longrightarrow> k = r_start (ed_old e) \<and> l = r_start (ed_new e)"
proof (cases p)
  case Nil
  show ?thesis by (rule that [of "length old" "length new"]) (use Nil assms in auto)
next
  case (Cons e es)
  show ?thesis by (rule that [of "r_start (ed_old e)" "r_start (ed_new e)"]) (use Cons assms in auto)
qed

text \<open>Edits that are not empty and do not touch, what \<open>Patch::new\<close> asserts.\<close>

fun separated :: "nat patch \<Rightarrow> bool" where
  "separated (e # e' # es) \<longleftrightarrow> \<not> edit_is_empty e \<and> r_end (ed_old e) < r_start (ed_old e') \<and>
     r_end (ed_new e) < r_start (ed_new e') \<and> separated (e' # es)"
| "separated [e] \<longleftrightarrow> \<not> edit_is_empty e"
| "separated [] \<longleftrightarrow> True"

lemma separated_snoc:
  "separated (p @ [e]) \<longleftrightarrow> separated p \<and> \<not> edit_is_empty e \<and>
     (p \<noteq> [] \<longrightarrow> r_end (ed_old (last p)) < r_start (ed_old e) \<and> r_end (ed_new (last p)) < r_start (ed_new e))"
  by (induction p rule: separated.induct) auto

lemma push_covers:
  assumes "covers old new 0 0 p i j" and "i \<le> i'" and "j \<le> j'" and "i' \<le> length old" and "j' \<le> length new"
    and "separated p"
  shows "covers old new 0 0 (patch_push p (Edit (Rng i i') (Rng j j'))) i' j'"
    and "separated (patch_push p (Edit (Rng i i') (Rng j j')))"
proof -
  let ?e = "Edit (Rng i i') (Rng j j')"
  have "covers old new 0 0 (patch_push p ?e) i' j' \<and> separated (patch_push p ?e)"
  proof (cases "edit_is_empty ?e \<or> p = []")
    case True
    then show ?thesis using assms by (auto simp: patch_push_def edit_is_empty_def push_maybe_empty_def)
  next
    case False
    then obtain q l where p: "p = q @ [l]" by (cases p rule: rev_cases) auto
    have s: "same old new (r_end (ed_old l)) (r_end (ed_new l)) i j" using assms(1) by (simp add: p covers_snoc)
    show ?thesis
    proof (cases "i \<le> r_end (ed_old l)")
      case True
      then have "r_end (ed_old l) = i" "r_end (ed_new l) = j" using same_bounds [OF s] by auto
      then show ?thesis
        using assms False True
        by (auto simp: p patch_push_def push_maybe_empty_def covers_snoc separated_snoc edit_is_empty_def)
    next
      case n: False
      then have "patch_push p ?e = p @ [?e]"
        using False by (simp add: patch_push_def push_maybe_empty_def vec_last_def p)
      moreover have "r_end (ed_old (last p)) < i" "r_end (ed_new (last p)) < j"
        using n same_bounds [OF s] by (auto simp: p)
      ultimately show ?thesis using assms False by (simp add: covers_snoc separated_snoc)
    qed
  qed
  then show "covers old new 0 0 (patch_push p ?e) i' j'" and "separated (patch_push p ?e)" by auto
qed

subsection \<open>Composition\<close>

text \<open>The patch built covers the outer texts up to the current positions, and what is left of the two
  patches covers the rest from a common position in the middle text.\<close>

definition compose_inv :: "'c list \<Rightarrow> 'c list \<Rightarrow> 'c list \<Rightarrow> nat compose_state \<Rightarrow> bool" where
  "compose_inv t0 t1 t2 st \<longleftrightarrow>
     separated (cs_composed st) \<and> covers t0 t2 0 0 (cs_composed st) (cs_old_start st) (cs_new_start st) \<and>
     (\<exists>b. covers t0 t1 (cs_old_start st) b (cs_olds st) (length t0) (length t1) \<and>
          covers t1 t2 b (cs_new_start st) (cs_news st) (length t1) (length t2))"

lemma push_to_covers:
  assumes "separated (cs_composed st)" and "covers t0 t2 0 0 (cs_composed st) (cs_old_start st) (cs_new_start st)"
    and "cs_old_start st \<le> i" and "cs_new_start st \<le> j" and "i \<le> length t0" and "j \<le> length t2"
  shows "separated (cs_composed (push_to st i j))" and "covers t0 t2 0 0 (cs_composed (push_to st i j)) i j"
  using push_covers [OF assms(2-6,1)] by simp_all

lemma push_old_edit_inv:
  assumes inv: "compose_inv t0 t1 t2 st" and o: "cs_olds st = e # es"
    and n: "\<And>e'. vec_first (cs_news st) = Some e' \<Longrightarrow> r_end (ed_new e) < r_start (ed_old e')"
  shows "compose_inv t0 t1 t2 (push_old_edit st e)"
proof -
  obtain b where sep: "separated (cs_composed st)"
    and C: "covers t0 t2 0 0 (cs_composed st) (cs_old_start st) (cs_new_start st)"
    and g: "same t0 t1 (cs_old_start st) b (r_start (ed_old e)) (r_start (ed_new e))"
      "r_start (ed_old e) \<le> r_end (ed_old e)" "r_start (ed_new e) \<le> r_end (ed_new e)"
    and P: "covers t0 t1 (r_end (ed_old e)) (r_end (ed_new e)) es (length t0) (length t1)"
    and Q: "covers t1 t2 b (cs_new_start st) (cs_news st) (length t1) (length t2)"
    using inv o by (auto simp: compose_inv_def)
  have gb: "cs_old_start st \<le> r_start (ed_old e)" "b \<le> r_start (ed_new e)"
    "r_start (ed_old e) + b = r_start (ed_new e) + cs_old_start st"
    using same_bounds [OF g(1)] by auto
  let ?k = "r_start (ed_old e) - cs_old_start st"
  let ?c = "cs_new_start st + ?k" and ?l = "edit_new_len e"
  have Q': "same t1 t2 b (cs_new_start st) (r_start (ed_new e)) ?c \<and>
      covers t1 t2 (r_end (ed_new e)) (?c + ?l) (cs_news st) (length t1) (length t2) \<and> ?c + ?l \<le> length t2"
  proof -
    obtain i j where s: "same t1 t2 b (cs_new_start st) i j" and e: "r_end (ed_new e) \<le> i"
      and rest: "\<And>i' j'. same t1 t2 i' j' i j \<Longrightarrow> covers t1 t2 i' j' (cs_news st) (length t1) (length t2)"
      using covers_bounds [OF P] n by (cases "vec_first (cs_news st)") (rule covers_first_gap [OF Q]; fastforce)+
    have "same t1 t2 b (cs_new_start st) (r_start (ed_new e)) ?c"
      by (rule same_take(1) [OF s]) (use gb g e in auto)
    moreover have s': "same t1 t2 (r_end (ed_new e)) (?c + ?l) i j"
      by (rule same_take(2) [OF s]) (use gb g e in \<open>auto simp: edit_new_len_def\<close>)
    ultimately show ?thesis using rest [OF s'] same_bounds [OF s'] by simp
  qed
  have "same t0 t2 (cs_old_start st) (cs_new_start st) (r_start (ed_old e)) ?c"
    using same_comp [OF g(1)] Q' by blast
  then have C': "covers t0 t2 0 0 (cs_composed st) (r_start (ed_old e)) ?c" by (rule covers_extend [OF C])
  have "r_end (ed_old e) \<le> length t0" using covers_bounds [OF P] by simp
  then have "separated (cs_composed (push_old_edit st e)) \<and>
      covers t0 t2 0 0 (cs_composed (push_old_edit st e)) (r_end (ed_old e)) (?c + ?l)"
    using push_covers [OF C' g(2) _ _ _ sep, of "?c + ?l"] Q' g gb
    by (simp add: push_old_edit_def Let_def edit_old_len_def)
  moreover have "cs_old_start (push_old_edit st e) = r_end (ed_old e)" "cs_new_start (push_old_edit st e) = ?c + ?l"
    "cs_olds (push_old_edit st e) = es" "cs_news (push_old_edit st e) = cs_news st"
    using g gb o by (simp_all add: push_old_edit_def Let_def edit_old_len_def)
  ultimately show ?thesis using P Q' by (auto simp: compose_inv_def)
qed

text \<open>The other side is the mirror image, with the two outer texts exchanged.\<close>

lemma push_new_edit_inv:
  assumes inv: "compose_inv t0 t1 t2 st" and o: "cs_news st = e # es"
    and n: "\<And>e'. vec_first (cs_olds st) = Some e' \<Longrightarrow> r_end (ed_old e) < r_start (ed_new e')"
  shows "compose_inv t0 t1 t2 (push_new_edit st e)"
proof -
  obtain b where sep: "separated (cs_composed st)"
    and C: "covers t0 t2 0 0 (cs_composed st) (cs_old_start st) (cs_new_start st)"
    and g: "same t1 t2 b (cs_new_start st) (r_start (ed_old e)) (r_start (ed_new e))"
      "r_start (ed_old e) \<le> r_end (ed_old e)" "r_start (ed_new e) \<le> r_end (ed_new e)"
    and Q: "covers t1 t2 (r_end (ed_old e)) (r_end (ed_new e)) es (length t1) (length t2)"
    and P: "covers t0 t1 (cs_old_start st) b (cs_olds st) (length t0) (length t1)"
    using inv o by (auto simp: compose_inv_def)
  have gb: "b \<le> r_start (ed_old e)" "cs_new_start st \<le> r_start (ed_new e)"
    "r_start (ed_old e) + cs_new_start st = r_start (ed_new e) + b"
    using same_bounds [OF g(1)] by auto
  let ?k = "r_start (ed_new e) - cs_new_start st"
  let ?a = "cs_old_start st + ?k" and ?l = "edit_old_len e"
  have P': "same t0 t1 (cs_old_start st) b ?a (r_start (ed_old e)) \<and>
      covers t0 t1 (?a + ?l) (r_end (ed_old e)) (cs_olds st) (length t0) (length t1) \<and> ?a + ?l \<le> length t0"
  proof -
    obtain i j where s: "same t0 t1 (cs_old_start st) b i j" and e: "r_end (ed_old e) \<le> j"
      and rest: "\<And>i' j'. same t0 t1 i' j' i j \<Longrightarrow> covers t0 t1 i' j' (cs_olds st) (length t0) (length t1)"
      using covers_bounds [OF Q] n by (cases "vec_first (cs_olds st)") (rule covers_first_gap [OF P]; fastforce)+
    have "same t0 t1 (cs_old_start st) b ?a (r_start (ed_old e))"
      by (rule same_take(1) [OF s]) (use gb g e same_bounds [OF s] in auto)
    moreover have s': "same t0 t1 (?a + ?l) (r_end (ed_old e)) i j"
      by (rule same_take(2) [OF s]) (use gb g e same_bounds [OF s] in \<open>auto simp: edit_old_len_def\<close>)
    ultimately show ?thesis using rest [OF s'] same_bounds [OF s'] by simp
  qed
  have "same t0 t2 (cs_old_start st) (cs_new_start st) ?a (r_start (ed_new e))"
    using same_comp [OF _ g(1)] P' by blast
  then have C': "covers t0 t2 0 0 (cs_composed st) ?a (r_start (ed_new e))" by (rule covers_extend [OF C])
  have "r_end (ed_new e) \<le> length t2" using covers_bounds [OF Q] by simp
  then have "separated (cs_composed (push_new_edit st e)) \<and>
      covers t0 t2 0 0 (cs_composed (push_new_edit st e)) (?a + ?l) (r_end (ed_new e))"
    using push_covers [OF C' _ g(3) _ _ sep, of "?a + ?l"] P' g gb
    by (simp add: push_new_edit_def Let_def edit_new_len_def)
  moreover have "cs_new_start (push_new_edit st e) = r_end (ed_new e)" "cs_old_start (push_new_edit st e) = ?a + ?l"
    "cs_news (push_new_edit st e) = es" "cs_olds (push_new_edit st e) = cs_olds st"
    using g gb o by (simp_all add: push_new_edit_def Let_def edit_new_len_def)
  ultimately show ?thesis using Q P' by (auto simp: compose_inv_def)
qed

text \<open>After the first part of an overlap the edits start at the current positions.\<close>

definition synced :: "'c list \<Rightarrow> 'c list \<Rightarrow> 'c list \<Rightarrow> nat compose_state \<Rightarrow> nat text_edit \<Rightarrow> nat text_edit \<Rightarrow> bool" where
  "synced t0 t1 t2 st oe ne \<longleftrightarrow>
     separated (cs_composed st) \<and> covers t0 t2 0 0 (cs_composed st) (cs_old_start st) (cs_new_start st) \<and>
     r_start (ed_old oe) = cs_old_start st \<and> r_start (ed_new oe) = r_start (ed_old ne) \<and>
     r_start (ed_new ne) = cs_new_start st \<and>
     covers t0 t1 (cs_old_start st) (r_start (ed_new oe)) (oe # tl (cs_olds st)) (length t0) (length t1) \<and>
     covers t1 t2 (r_start (ed_new oe)) (cs_new_start st) (ne # tl (cs_news st)) (length t1) (length t2)"

lemma overlap_sync_inv:
  assumes inv: "compose_inv t0 t1 t2 st" and o: "cs_olds st = oe # os" and n: "cs_news st = ne # ns"
    and ov: "\<not> r_end (ed_new oe) < r_start (ed_old ne)" "\<not> r_end (ed_old ne) < r_start (ed_new oe)"
    and res: "overlap_sync st oe ne = (st', oe', ne')"
  shows "synced t0 t1 t2 st' oe' ne' \<and> cs_olds st' = cs_olds st \<and> cs_news st' = cs_news st"
proof -
  obtain b where sep: "separated (cs_composed st)"
    and C: "covers t0 t2 0 0 (cs_composed st) (cs_old_start st) (cs_new_start st)"
    and g: "same t0 t1 (cs_old_start st) b (r_start (ed_old oe)) (r_start (ed_new oe))"
      "r_start (ed_old oe) \<le> r_end (ed_old oe)" "r_start (ed_new oe) \<le> r_end (ed_new oe)"
    and P: "covers t0 t1 (r_end (ed_old oe)) (r_end (ed_new oe)) os (length t0) (length t1)"
    and h: "same t1 t2 b (cs_new_start st) (r_start (ed_old ne)) (r_start (ed_new ne))"
      "r_start (ed_old ne) \<le> r_end (ed_old ne)" "r_start (ed_new ne) \<le> r_end (ed_new ne)"
    and Q: "covers t1 t2 (r_end (ed_old ne)) (r_end (ed_new ne)) ns (length t1) (length t2)"
    using inv o n by (auto simp: compose_inv_def)
  note gb = same_bounds [OF g(1)] and hb = same_bounds [OF h(1)]
  have len: "r_end (ed_old oe) \<le> length t0" "r_end (ed_new oe) \<le> length t1"
    "r_end (ed_old ne) \<le> length t1" "r_end (ed_new ne) \<le> length t2"
    using covers_bounds [OF P] covers_bounds [OF Q] by simp_all
  show ?thesis
  proof (cases "r_start (ed_new oe) < r_start (ed_old ne)")
    case True
    let ?k = "r_start (ed_old oe) - cs_old_start st"
    let ?c = "cs_new_start st + ?k" and ?s = "r_start (ed_old ne) - r_start (ed_new oe)"
    let ?i = "min (r_start (ed_old oe) + ?s) (r_end (ed_old oe))"
    have "same t1 t2 b (cs_new_start st) (r_start (ed_new oe)) ?c"
      by (rule same_take(1) [OF h(1)]) (use gb hb True in auto)
    then have C': "covers t0 t2 0 0 (cs_composed st) (r_start (ed_old oe)) ?c"
      by (intro covers_extend [OF C] same_comp [OF g(1)])
    have cs: "?c + ?s = r_start (ed_new ne)" using gb hb True by linarith
    have oe': "oe' = Edit (Rng ?i (r_end (ed_old oe))) (Rng (r_start (ed_old ne)) (r_end (ed_new oe)))" "ne' = ne"
      and st': "cs_old_start st' = ?i" "cs_new_start st' = ?c + ?s" "cs_olds st' = cs_olds st" "cs_news st' = cs_news st"
        "cs_composed st' = patch_push (cs_composed st) (Edit (Rng (r_start (ed_old oe)) ?i) (Rng ?c (?c + ?s)))"
      using res True gb by (auto simp: overlap_sync_def Let_def)
    have "separated (cs_composed st') \<and> covers t0 t2 0 0 (cs_composed st') ?i (?c + ?s)"
      using push_covers [OF C' _ _ _ _ sep, of ?i "?c + ?s"] g(2) len hb cs unfolding st' by auto
    then show ?thesis
      using P Q o n g h len ov cs True unfolding synced_def st' oe' by auto
  next
    case False
    let ?k = "r_start (ed_new ne) - cs_new_start st"
    let ?a = "cs_old_start st + ?k" and ?s = "r_start (ed_new oe) - r_start (ed_old ne)"
    let ?j = "min (r_start (ed_new ne) + ?s) (r_end (ed_new ne))"
    have "same t0 t1 (cs_old_start st) b ?a (r_start (ed_old ne))"
      by (rule same_take(1) [OF g(1)]) (use gb hb False in auto)
    then have C': "covers t0 t2 0 0 (cs_composed st) ?a (r_start (ed_new ne))"
      by (intro covers_extend [OF C] same_comp [OF _ h(1)])
    have cs: "?a + ?s = r_start (ed_old oe)" using gb hb False by linarith
    have ne': "ne' = Edit (Rng (r_start (ed_new oe)) (r_end (ed_old ne))) (Rng ?j (r_end (ed_new ne)))" "oe' = oe"
      and st': "cs_old_start st' = ?a + ?s" "cs_new_start st' = ?j" "cs_olds st' = cs_olds st" "cs_news st' = cs_news st"
        "cs_composed st' = patch_push (cs_composed st) (Edit (Rng ?a (?a + ?s)) (Rng (r_start (ed_new ne)) ?j))"
      using res False hb by (auto simp: overlap_sync_def Let_def)
    have "separated (cs_composed st') \<and> covers t0 t2 0 0 (cs_composed st') (?a + ?s) ?j"
      using push_covers [OF C' _ _ _ _ sep, of "?a + ?s" ?j] h(3) len gb cs unfolding st' by auto
    then show ?thesis
      using P Q o n g h len ov cs False unfolding synced_def st' ne' by auto
  qed
qed

lemma overlap_take_inv:
  assumes "synced t0 t1 t2 st oe ne" and "cs_olds st = e # os" and "cs_news st = e' # ns"
  shows "compose_inv t0 t1 t2 (overlap_take st oe ne)"
proof -
  have sep: "separated (cs_composed st)"
    and C: "covers t0 t2 0 0 (cs_composed st) (cs_old_start st) (cs_new_start st)"
    and h: "r_start (ed_old oe) = cs_old_start st" "r_start (ed_new oe) = r_start (ed_old ne)"
      "r_start (ed_new ne) = cs_new_start st"
    and P: "cs_old_start st \<le> r_end (ed_old oe)" "r_start (ed_old ne) \<le> r_end (ed_new oe)"
      "covers t0 t1 (r_end (ed_old oe)) (r_end (ed_new oe)) os (length t0) (length t1)"
    and Q: "r_start (ed_old ne) \<le> r_end (ed_old ne)" "cs_new_start st \<le> r_end (ed_new ne)"
      "covers t1 t2 (r_end (ed_old ne)) (r_end (ed_new ne)) ns (length t1) (length t2)"
    using assms by (simp_all add: synced_def)
  have len: "r_end (ed_old oe) \<le> length t0" "r_end (ed_new oe) \<le> length t1"
    "r_end (ed_old ne) \<le> length t1" "r_end (ed_new ne) \<le> length t2"
    using covers_bounds [OF P(3)] covers_bounds [OF Q(3)] by simp_all
  show ?thesis
  proof (cases "r_end (ed_old ne) < r_end (ed_new oe)")
    case True
    let ?i = "cs_old_start st + min (edit_old_len oe) (edit_old_len ne)" and ?j = "r_end (ed_new ne)"
    have i: "cs_old_start st \<le> ?i" "?i \<le> r_end (ed_old oe)" using h P by (auto simp: edit_old_len_def)
    have j: "cs_new_start st + edit_new_len ne = ?j" using h Q by (simp add: edit_new_len_def)
    have C': "separated (patch_push (cs_composed st) (Edit (Rng (cs_old_start st) ?i) (Rng (cs_new_start st) ?j)))"
      "covers t0 t2 0 0 (patch_push (cs_composed st) (Edit (Rng (cs_old_start st) ?i) (Rng (cs_new_start st) ?j))) ?i ?j"
      using push_covers [OF C i(1) Q(2) _ _ sep] i len by auto
    show ?thesis
      using True C' i(2) j P Q len assms(2,3) unfolding compose_inv_def overlap_take_def
      by (auto simp: Let_def intro!: exI [of _ "r_end (ed_old ne)"])
  next
    case False
    let ?i = "r_end (ed_old oe)" and ?j = "cs_new_start st + min (edit_new_len oe) (edit_new_len ne)"
    have j: "cs_new_start st \<le> ?j" "?j \<le> r_end (ed_new ne)" using h Q by (auto simp: edit_new_len_def)
    have i: "cs_old_start st + edit_old_len oe = ?i" using h P by (simp add: edit_old_len_def)
    have C': "separated (patch_push (cs_composed st) (Edit (Rng (cs_old_start st) ?i) (Rng (cs_new_start st) ?j)))"
      "covers t0 t2 0 0 (patch_push (cs_composed st) (Edit (Rng (cs_old_start st) ?i) (Rng (cs_new_start st) ?j))) ?i ?j"
      using push_covers [OF C P(1) j(1) _ _ sep] j len by auto
    show ?thesis
      using False C' j(2) i P Q len assms(2,3) unfolding compose_inv_def overlap_take_def
      by (auto simp: Let_def intro!: exI [of _ "r_end (ed_new oe)"])
  qed
qed

lemma compose_step_inv:
  assumes inv: "compose_inv t0 t1 t2 st" and s: "compose_step st = Some st'"
  shows "compose_inv t0 t1 t2 st'"
proof (cases "cs_olds st")
  case Nil
  then show ?thesis using s push_new_edit_inv [OF inv]
    by (cases "cs_news st") (auto simp: compose_step_def)
next
  case o: (Cons oe os)
  show ?thesis
  proof (cases "cs_news st")
    case Nil
    then show ?thesis using s o push_old_edit_inv [OF inv o] by (auto simp: compose_step_def)
  next
    case n: (Cons ne ns)
    consider "r_end (ed_new oe) < r_start (ed_old ne)" | "\<not> r_end (ed_new oe) < r_start (ed_old ne)"
        "r_end (ed_old ne) < r_start (ed_new oe)"
      | "\<not> r_end (ed_new oe) < r_start (ed_old ne)" "\<not> r_end (ed_old ne) < r_start (ed_new oe)" by blast
    then show ?thesis
    proof cases
      case 1
      then show ?thesis using s o n push_old_edit_inv [OF inv o] by (simp add: compose_step_def)
    next
      case 2
      then show ?thesis using s o n push_new_edit_inv [OF inv n] by (simp add: compose_step_def)
    next
      case 3
      obtain st1 oe' ne' where y: "overlap_sync st oe ne = (st1, oe', ne')" by (cases "overlap_sync st oe ne")
      then have "st' = overlap_take st1 oe' ne'" using s o n 3 by (simp add: compose_step_def)
      then show ?thesis using overlap_sync_inv [OF inv o n 3 y] overlap_take_inv o n by metis
    qed
  qed
qed

lemma compose_loop_inv:
  "compose_inv t0 t1 t2 st \<Longrightarrow>
     separated (compose_loop st) \<and> patches (compose_loop st) t0 t2"
proof (induction st rule: compose_loop.induct)
  case (1 st)
  show ?case
  proof (cases "compose_step st")
    case None
    then have n: "cs_olds st = []" "cs_news st = []"
      by (auto simp: compose_step_def vec_first_def split: list.splits if_splits prod.splits)
    obtain b where "same t0 t1 (cs_old_start st) b (length t0) (length t1)"
      "same t1 t2 b (cs_new_start st) (length t1) (length t2)"
      using "1.prems" n by (auto simp: compose_inv_def)
    then have "patches (cs_composed st) t0 t2"
      unfolding patches_def using "1.prems" by (auto simp: compose_inv_def intro: covers_extend same_comp)
    then show ?thesis
      using "1.prems" None by (subst (1 2) compose_loop.simps) (simp add: compose_inv_def)
  next
    case (Some st')
    then show ?thesis using "1.IH" [OF Some compose_step_inv [OF "1.prems" Some]]
      by (subst (1 2) compose_loop.simps) simp
  qed
qed

lemma patch_compose_ok:
  "patches p t0 t1 \<Longrightarrow> patches q t1 t2 \<Longrightarrow> patches (patch_compose p q) t0 t2 \<and> separated (patch_compose p q)"
  unfolding patch_compose_def
  by (rule conj_commute [THEN iffD1, OF compose_loop_inv [where ?t1.0 = t1]])
    (auto simp: compose_inv_def patches_def)

subsection \<open>Inversion\<close>

lemma covers_invert: "covers old new i j p i' j' \<Longrightarrow> covers new old j i (patch_invert p) j' i'"
  by (induction p arbitrary: i j) (auto simp: patch_invert_def same_sym)

subsection \<open>Translating positions\<close>

fun translate :: "nat \<Rightarrow> nat \<Rightarrow> nat patch \<Rightarrow> nat \<Rightarrow> nat" where
  "translate i j [] x = j + (x - i)"
| "translate i j (e # es) x =
     (if x < r_start (ed_old e) then j + (x - i)
      else if x < r_end (ed_old e) then r_start (ed_new e)
      else translate (r_end (ed_old e)) (r_end (ed_new e)) es x)"

text \<open>The last edit that starts at or before a position.\<close>

definition edit_before :: "nat patch \<Rightarrow> nat \<Rightarrow> nat text_edit option" where
  "edit_before p x = vec_last (takeWhile (\<lambda>e. r_start (ed_old e) \<le> x) p)"

lemma separated_sorted:
  "separated (e # es) \<Longrightarrow> covers old new i j (e # es) i' j' \<Longrightarrow> e' \<in> set es \<Longrightarrow> r_end (ed_old e) < r_start (ed_old e')"
proof (induction es arbitrary: e i j)
  case (Cons f fs)
  show ?case
  proof (cases "e' = f")
    case False
    have "separated (f # fs)" "r_end (ed_old e) < r_start (ed_old f)" using Cons.prems(1) by simp_all
    moreover from this have "r_end (ed_old f) < r_start (ed_old e')"
      using Cons.IH [of f "r_end (ed_old e)" "r_end (ed_new e)"] Cons.prems(2,3) False by simp
    ultimately show ?thesis using Cons.prems(2) by simp
  qed (use Cons.prems in simp)
qed simp

lemma separated_tl: "separated (e # es) \<Longrightarrow> separated es"
  by (cases es) auto

lemma search_edit:
  assumes "separated p" and "covers old new i j p i' j'"
  shows "(case binary_search_by (\<lambda>probe. cmp (r_start (ed_old probe)) x) p of
       Inl ix \<Rightarrow> vec_get p ix
     | Inr ix \<Rightarrow> if ix = 0 then None else vec_get p (ix - 1)) = edit_before p x"
  using assms
proof (induction p arbitrary: i j)
  case (Cons e es)
  let ?s = "binary_search_by (\<lambda>probe. cmp (r_start (ed_old probe)) x)"
  have later: "r_start (ed_old e) < r_start (ed_old e')" if "e' \<in> set es" for e'
    using separated_sorted [OF Cons.prems that] Cons.prems(2) by simp
  have tw: "takeWhile (\<lambda>e. r_start (ed_old e) \<le> x) es = []" if "x \<le> r_start (ed_old e)"
    using that later by (cases es) fastforce+
  consider "r_start (ed_old e) < x" | "r_start (ed_old e) = x" | "x < r_start (ed_old e)" by linarith
  then show ?case
  proof cases
    case 1
    have IH: "(case ?s es of Inl ix \<Rightarrow> vec_get es ix | Inr ix \<Rightarrow> if ix = 0 then None else vec_get es (ix - 1)) = edit_before es x"
      using Cons.IH [OF separated_tl [OF Cons.prems(1)]] Cons.prems(2) by auto
    have s: "?s (e # es) = (case ?s es of Inl ix \<Rightarrow> Inl (Suc ix) | Inr ix \<Rightarrow> Inr (Suc ix))"
      using 1 by (simp add: binary_search_by_def Let_def)
    have eb: "edit_before (e # es) x = (case edit_before es x of None \<Rightarrow> Some e | Some e' \<Rightarrow> Some e')"
      using 1 by (simp add: edit_before_def vec_last_def)
    have "length (takeWhile (\<lambda>y. r_start (ed_old y) < x) es) \<le> length es" by (rule length_takeWhile_le)
    moreover have "length (takeWhile (\<lambda>y. r_start (ed_old y) < x) es) \<noteq> 0 \<Longrightarrow> es \<noteq> []" by auto
    ultimately show ?thesis unfolding s eb IH [symmetric]
      by (cases "?s es"; cases "takeWhile (\<lambda>y. r_start (ed_old y) < x) es")
        (auto simp: vec_get_def binary_search_by_def Let_def nth_Cons' split: if_splits)
  next
    case 2
    then show ?thesis using tw by (simp add: binary_search_by_def edit_before_def vec_last_def)
  next
    case 3
    then show ?thesis by (simp add: binary_search_by_def edit_before_def Let_def)
  qed
qed (simp add: binary_search_by_def edit_before_def)

lemma translate_before:
  assumes "separated p" and "covers old new i j p i' j'"
  shows "translate i j p x = (case edit_before p x of
     None \<Rightarrow> j + (x - i)
   | Some e \<Rightarrow> if r_end (ed_old e) \<le> x then r_end (ed_new e) + (x - r_end (ed_old e)) else r_start (ed_new e))"
  using assms
proof (induction p arbitrary: i j)
  case (Cons e es)
  have IH: "translate (r_end (ed_old e)) (r_end (ed_new e)) es x = (case edit_before es x of
       None \<Rightarrow> r_end (ed_new e) + (x - r_end (ed_old e))
     | Some e \<Rightarrow> if r_end (ed_old e) \<le> x then r_end (ed_new e) + (x - r_end (ed_old e)) else r_start (ed_new e))"
    using Cons.IH [OF separated_tl [OF Cons.prems(1)]] Cons.prems(2) by simp
  have none: "edit_before es x = None" if "x < r_end (ed_old e)"
    using that separated_sorted [OF Cons.prems] by (cases es) (fastforce simp: edit_before_def)+
  show ?case
    using IH none Cons.prems(2) by (auto simp: edit_before_def vec_last_def split: if_splits)
qed (simp add: edit_before_def)

lemma old_to_new_translate:
  assumes "separated p" and "patches p old new"
  shows "old_to_new p x = translate 0 0 p x"
  using search_edit [OF assms(1) assms(2)[unfolded patches_def], of x]
  unfolding translate_before [OF assms(1) assms(2)[unfolded patches_def]] old_to_new_def Let_def
  by (auto split: sum.splits option.splits if_splits)

lemma translate_bounds:
  assumes "covers old new i j p i' j'" and "i \<le> x" and "x \<le> i'"
  shows "j \<le> translate i j p x" and "translate i j p x \<le> j'"
proof -
  have "j \<le> translate i j p x \<and> translate i j p x \<le> j'"
    using assms
  proof (induction p arbitrary: i j)
    case (Cons e es)
    have g: "same old new i j (r_start (ed_old e)) (r_start (ed_new e))"
      and c: "covers old new (r_end (ed_old e)) (r_end (ed_new e)) es i' j'" using Cons.prems(1) by simp_all
    show ?case
      using Cons.IH [OF c] Cons.prems same_bounds [OF g] covers_bounds [OF c] by auto
  qed (auto dest: same_bounds)
  then show "j \<le> translate i j p x" and "translate i j p x \<le> j'" by simp_all
qed

lemma translate_mono:
  assumes "covers old new i j p i' j'" and "i \<le> x" and "x \<le> y" and "y \<le> i'"
  shows "translate i j p x \<le> translate i j p y"
  using assms
proof (induction p arbitrary: i j)
  case (Cons e es)
  have g: "same old new i j (r_start (ed_old e)) (r_start (ed_new e))"
    and c: "covers old new (r_end (ed_old e)) (r_end (ed_new e)) es i' j'" using Cons.prems(1) by simp_all
  have "r_end (ed_new e) \<le> translate (r_end (ed_old e)) (r_end (ed_new e)) es y" if "r_end (ed_old e) \<le> y"
    by (rule translate_bounds(1) [OF c that Cons.prems(4)])
  then show ?case
    using Cons.IH [OF c] Cons.prems same_bounds [OF g] by (auto simp: not_less intro: order_trans)
qed simp

lemma translate_same:
  assumes "covers old new i j p i' j'" and "i \<le> x" and "x < i'"
    and "\<forall>e \<in> set p. \<not> (r_start (ed_old e) \<le> x \<and> x < r_end (ed_old e))"
  shows "new ! translate i j p x = old ! x"
  using assms
proof (induction p arbitrary: i j)
  case Nil
  then have "x - i < i' - i" "\<forall>k < i' - i. old ! (i + k) = new ! (j + k)" unfolding covers.simps same_def by auto
  then have "old ! (i + (x - i)) = new ! (j + (x - i))" by blast
  then show ?case using Nil by simp
next
  case (Cons e es)
  show ?case
  proof (cases "x < r_start (ed_old e)")
    case True
    then have "x - i < r_start (ed_old e) - i" "\<forall>k < r_start (ed_old e) - i. old ! (i + k) = new ! (j + k)"
      using Cons.prems(1,2) unfolding covers.simps same_def by auto
    then have "old ! (i + (x - i)) = new ! (j + (x - i))" by blast
    then show ?thesis using True Cons.prems(2) by simp
  next
    case False
    then show ?thesis using Cons by auto
  qed
qed

lemma edit_for_old_before:
  assumes "separated p" and "patches p old new"
  shows "edit_for_old_position p x = (case edit_before p x of
     None \<Rightarrow> Edit (Rng x x) (Rng x x)
   | Some e \<Rightarrow> if r_end (ed_old e) < x
       then let t = r_end (ed_new e) + (x - r_end (ed_old e)) in Edit (Rng x x) (Rng t t) else e)"
  using search_edit [OF assms(1) assms(2)[unfolded patches_def], of x]
  unfolding edit_for_old_position_def Let_def by (auto split: sum.splits option.splits if_splits)

lemma edit_before_last:
  assumes "separated p" and "covers old new i j p i' j'" and "edit_before p x = Some e"
  shows "e \<in> set p" "r_start (ed_old e) \<le> x"
  using assms(3) by (auto simp: edit_before_def vec_last_def split: if_splits
      dest!: last_in_set [of "takeWhile _ _"] set_takeWhileD)

text \<open>An edit of an ordered patch that starts at or before a position and ends at or after it is the
  last one that starts there.\<close>

lemma edit_before_touching:
  assumes "separated p" and "covers old new i j p i' j'"
    and "f \<in> set p" and "r_start (ed_old f) \<le> x" and "x \<le> r_end (ed_old f)"
  shows "edit_before p x = Some f"
  using assms
proof (induction p arbitrary: i j)
  case (Cons e es)
  note later = separated_sorted [OF Cons.prems(1,2)]
  show ?case
  proof (cases "f = e")
    case True
    then have "takeWhile (\<lambda>e. r_start (ed_old e) \<le> x) es = []"
      using later Cons.prems(5) by (cases es) fastforce+
    then show ?thesis using True Cons.prems(4) by (simp add: edit_before_def vec_last_def)
  next
    case False
    then have "edit_before es x = Some f"
      using Cons.IH [OF separated_tl [OF Cons.prems(1)]] Cons.prems(2-5) by auto
    moreover have "r_start (ed_old e) \<le> x"
      using later [of f] False Cons.prems(2,3,4) by auto
    ultimately show ?thesis by (auto simp: edit_before_def vec_last_def split: if_splits)
  qed
qed simp

subsection \<open>The properties\<close>

text \<open>C16. Composing a patch from a first text to a second with a patch from the second to a third
  gives a patch from the first text to the third, in order, with no empty or touching edits.\<close>

theorem patch_compose_correct:
  fixes p q :: "nat patch"
  assumes "patches p t0 t1" and "patches q t1 t2"
  shows "patches (patch_compose p q) t0 t2 \<and> separated (patch_compose p q)"
  by (rule patch_compose_ok [OF assms])

lemma patch_compose_correct_witness:
  "patches (patch_compose [Edit (Rng 1 1) (Rng 1 (3 :: nat))] [Edit (Rng 2 3) (Rng 2 2), Edit (Rng 4 4) (Rng 3 4)])
     ''abc'' ''axbyc'' \<and>
   patch_compose [Edit (Rng 1 1) (Rng 1 (3 :: nat))] [Edit (Rng 2 3) (Rng 2 2), Edit (Rng 4 4) (Rng 3 4)] =
     [Edit (Rng 1 1) (Rng 1 2), Edit (Rng 2 2) (Rng 3 4)]"
proof
  have "patches [Edit (Rng 1 1) (Rng 1 (3 :: nat))] ''abc'' ''axzbc''"
    "patches [Edit (Rng 2 3) (Rng 2 2), Edit (Rng 4 4) (Rng 3 (4 :: nat))] ''axzbc'' ''axbyc''"
    by (simp_all add: patches_def same_def nth_Cons' All_less_Suc numeral_eq_Suc)
  from patch_compose_correct [OF this]
  show "patches (patch_compose [Edit (Rng 1 1) (Rng 1 (3 :: nat))] [Edit (Rng 2 3) (Rng 2 2), Edit (Rng 4 4) (Rng 3 4)])
     ''abc'' ''axbyc''" by simp
  show "patch_compose [Edit (Rng 1 1) (Rng 1 (3 :: nat))] [Edit (Rng 2 3) (Rng 2 2), Edit (Rng 4 4) (Rng 3 4)] =
     [Edit (Rng 1 1) (Rng 1 2), Edit (Rng 2 2) (Rng 3 4)]" by code_simp
qed

text \<open>C17. Inverting a patch twice gives it back, and the inverse is a patch from the new text to the old.\<close>

theorem patch_invert_roundtrip:
  fixes p :: "nat patch"
  assumes "patches p old new"
  shows "patch_invert (patch_invert p) = p \<and> patches (patch_invert p) new old"
  using covers_invert [of old new 0 0 p "length old" "length new"] assms
  by (simp add: patches_def) (simp add: patch_invert_def comp_def)

lemma patch_invert_roundtrip_witness:
  "patches (patch_invert [Edit (Rng 1 1) (Rng 1 (3 :: nat))]) ''axzbc'' ''abc''"
proof -
  have "patches [Edit (Rng 1 1) (Rng 1 (3 :: nat))] ''abc'' ''axzbc''"
    by (simp add: patches_def same_def nth_Cons' All_less_Suc numeral_eq_Suc)
  with patch_invert_roundtrip show ?thesis by blast
qed

text \<open>C18. \<open>old_to_new\<close> maps positions of the old text to positions of the new one in order, and a
  position outside the edits to the same character; \<open>edit_for_old_position\<close> returns the edit that
  touches the position, its end included, and otherwise an empty edit at the translated position.\<close>

theorem old_to_new_translates:
  fixes p :: "nat patch"
  assumes "separated p" and "patches p old new" and "x \<le> y" and "y \<le> length old"
  shows "old_to_new p x \<le> old_to_new p y \<and> old_to_new p y \<le> length new \<and>
    (x < length old \<and> (\<forall>e \<in> set p. \<not> (r_start (ed_old e) \<le> x \<and> x < r_end (ed_old e))) \<longrightarrow>
       new ! old_to_new p x = old ! x) \<and>
    (\<forall>e \<in> set p. r_start (ed_old e) \<le> x \<and> x \<le> r_end (ed_old e) \<longrightarrow> edit_for_old_position p x = e) \<and>
    ((\<forall>e \<in> set p. \<not> (r_start (ed_old e) \<le> x \<and> x \<le> r_end (ed_old e))) \<longrightarrow>
       edit_for_old_position p x = Edit (Rng x x) (Rng (old_to_new p x) (old_to_new p x)))"
proof -
  note c = assms(2) [unfolded patches_def] and t = old_to_new_translate [OF assms(1,2)]
  note b = translate_before [OF assms(1) c] and e = edit_for_old_before [OF assms(1,2)]
  have "edit_for_old_position p x = f" if "f \<in> set p" "r_start (ed_old f) \<le> x" "x \<le> r_end (ed_old f)" for f
    using edit_before_touching [OF assms(1) c that] that by (simp add: e)
  moreover have "edit_for_old_position p x = Edit (Rng x x) (Rng (old_to_new p x) (old_to_new p x))"
    if "\<forall>e \<in> set p. \<not> (r_start (ed_old e) \<le> x \<and> x \<le> r_end (ed_old e))"
  proof (cases "edit_before p x")
    case None
    then show ?thesis by (simp add: t b e)
  next
    case (Some f)
    then have "r_end (ed_old f) < x" using that edit_before_last [OF assms(1) c Some] by auto
    then show ?thesis using Some by (simp add: t b e Let_def)
  qed
  ultimately show ?thesis
    using translate_mono [OF c _ assms(3,4)] translate_bounds(2) [OF c _ assms(4)] translate_same [OF c] assms(3,4)
    unfolding t by auto
qed

lemma old_to_new_translates_witness:
  "old_to_new [Edit (Rng 1 1) (Rng 1 (3 :: nat))] 2 = 4 \<and> ''axzbc'' ! 4 = ''abc'' ! 2"
proof -
  have "patches [Edit (Rng 1 1) (Rng 1 (3 :: nat))] ''abc'' ''axzbc''"
    by (simp add: patches_def same_def nth_Cons' All_less_Suc numeral_eq_Suc)
  then have "''axzbc'' ! old_to_new [Edit (Rng 1 1) (Rng 1 (3 :: nat))] 2 = ''abc'' ! 2"
    using old_to_new_translates [of "[Edit (Rng 1 1) (Rng 1 (3 :: nat))]" "''abc''" "''axzbc''" 2 2]
    by (simp add: edit_is_empty_def)
  moreover have "old_to_new [Edit (Rng 1 1) (Rng 1 (3 :: nat))] 2 = 4" by code_simp
  ultimately show ?thesis by simp
qed

end
