(* ===== verification/Subscription.thy ===== *)
theory Subscription
  imports PatchSpec
begin

text \<open>
  Subscriptions to the edits of a text (\<open>crates/text/src/subscription.rs\<close>). A topic holds weak
  pointers to the patches of its subscribers; publishing edits composes them onto every patch still
  alive and forgets the others; a subscriber takes its patch and leaves an empty one. The heap is
  explicit: a map from addresses to the patches that have an owner, and the mutexes are the atomic
  steps. A run of the topic interleaves subscribing, publishing, consuming and dropping, and every
  subscriber's patch is shown to lead from the text it last saw to the current one.
\<close>

subsection \<open>Operations\<close>

record 'd topic_state =
  topic_subs :: "nat list"                      \<comment> \<open>\<open>Topic\<close>: the weak pointers, as addresses\<close>
  topic_heap :: "nat \<rightharpoonup> 'd patch"              \<comment> \<open>the patches with a strong pointer\<close>
  topic_fresh :: nat                            \<comment> \<open>the next address allocated\<close>

definition topic_default :: "'d topic_state" where
  "topic_default = \<lparr>topic_subs = [], topic_heap = Map.empty, topic_fresh = 0\<rparr>"

definition subscribe :: "'d topic_state \<Rightarrow> 'd topic_state \<times> nat" where
  "subscribe t =
     (let subscription = topic_fresh t
      in (t\<lparr>topic_subs := topic_subs t @ [subscription],
            topic_heap := (topic_heap t)(subscription \<mapsto> patch_empty),
            topic_fresh := subscription + 1\<rparr>, subscription))"

text \<open>\<open>retain\<close> over the subscriptions: upgrade the weak pointer, compose, keep.\<close>

fun publish_all ::
    "'d::{linorder,plus,minus,zero} text_edit list \<Rightarrow> nat list \<Rightarrow> (nat \<rightharpoonup> 'd patch) \<Rightarrow> nat list \<times> (nat \<rightharpoonup> 'd patch)"
  where
  "publish_all eds [] heap = ([], heap)"
| "publish_all eds (subscription # subs) heap =
     (case heap subscription of
        Some p \<Rightarrow>
          (let (subs', heap') = publish_all eds subs (heap(subscription \<mapsto> patch_compose p eds))
           in (subscription # subs', heap'))
      | None \<Rightarrow> publish_all eds subs heap)"

definition publish :: "'d::{linorder,plus,minus,zero} topic_state \<Rightarrow> 'd text_edit list \<Rightarrow> 'd topic_state" where
  "publish t eds =
     (let (subs, heap) = publish_all eds (topic_subs t) (topic_heap t)
      in t\<lparr>topic_subs := subs, topic_heap := heap\<rparr>)"

text \<open>\<open>consume\<close> needs a subscription, so a strong pointer; dropping one frees its patch.\<close>

definition consume :: "'d topic_state \<Rightarrow> nat \<Rightarrow> ('d topic_state \<times> 'd patch) option" where
  "consume t subscription =
     (case topic_heap t subscription of
        Some p \<Rightarrow> Some (t\<lparr>topic_heap := (topic_heap t)(subscription \<mapsto> patch_empty)\<rparr>, p)
      | None \<Rightarrow> None)"

definition drop_subscription :: "'d topic_state \<Rightarrow> nat \<Rightarrow> 'd topic_state" where
  "drop_subscription t subscription = t\<lparr>topic_heap := (topic_heap t)(subscription := None)\<rparr>"

subsection \<open>Runs\<close>

text \<open>A state of the topic, the current text, and the text each subscriber last saw.\<close>

inductive topic_run :: "nat topic_state \<Rightarrow> 'c list \<Rightarrow> (nat \<Rightarrow> 'c list) \<Rightarrow> bool" where
  run_start: "topic_run topic_default now seen"
| run_subscribe: "topic_run t now seen \<Longrightarrow> subscribe t = (t', s) \<Longrightarrow> topic_run t' now (seen(s := now))"
| run_publish: "topic_run t now seen \<Longrightarrow> patches eds now now' \<Longrightarrow> topic_run (publish t eds) now' seen"
| run_consume: "topic_run t now seen \<Longrightarrow> consume t s = Some (t', p) \<Longrightarrow> topic_run t' now (seen(s := now))"
| run_drop: "topic_run t now seen \<Longrightarrow> topic_run (drop_subscription t s) now seen"

definition topic_inv :: "nat topic_state \<Rightarrow> 'c list \<Rightarrow> (nat \<Rightarrow> 'c list) \<Rightarrow> bool" where
  "topic_inv t now seen \<longleftrightarrow>
     distinct (topic_subs t) \<and> (\<forall>s \<in> set (topic_subs t). s < topic_fresh t) \<and>
     dom (topic_heap t) \<subseteq> set (topic_subs t) \<and>
     (\<forall>s p. topic_heap t s = Some p \<longrightarrow> patches p (seen s) now)"

lemma publish_all_result:
  assumes "distinct subs"
  shows "publish_all eds subs heap =
    (filter (\<lambda>s. heap s \<noteq> None) subs,
     \<lambda>s. if s \<in> set subs then map_option (\<lambda>p. patch_compose p eds) (heap s) else heap s)"
  using assms
proof (induction eds subs heap rule: publish_all.induct)
  case (2 eds subscription subs heap)
  show ?case
  proof (cases "heap subscription")
    case None
    have "publish_all eds subs heap = (filter (\<lambda>s. heap s \<noteq> None) subs,
        \<lambda>s. if s \<in> set subs then map_option (\<lambda>p. patch_compose p eds) (heap s) else heap s)"
      by (rule "2.IH"(1) [OF None]) (use "2.prems" in simp)
    then show ?thesis using None "2.prems" by (auto simp: fun_eq_iff)
  next
    case (Some p)
    let ?heap = "heap(subscription \<mapsto> patch_compose p eds)"
    have "publish_all eds subs ?heap = (filter (\<lambda>s. ?heap s \<noteq> None) subs,
        \<lambda>s. if s \<in> set subs then map_option (\<lambda>p. patch_compose p eds) (?heap s) else ?heap s)"
      by (rule "2.IH"(2) [OF Some]) (use "2.prems" in simp)
    moreover have "filter (\<lambda>s. ?heap s \<noteq> None) subs = filter (\<lambda>s. heap s \<noteq> None) subs"
      using "2.prems" by (intro filter_cong) auto
    ultimately show ?thesis
      using Some "2.prems" by (simp only: publish_all.simps option.case Let_def prod.case) (auto simp: fun_eq_iff)
  qed
qed simp

lemma patches_empty: "patches patch_empty now now"
  by (simp add: patches_def patch_empty_def same_def)

lemma topic_run_inv: "topic_run t now seen \<Longrightarrow> topic_inv t now seen"
proof (induction rule: topic_run.induct)
  case (run_start now seen)
  show ?case by (simp add: topic_inv_def topic_default_def)
next
  case (run_subscribe t now seen t' s)
  then show ?case
    using patches_empty [of now]
    by (fastforce simp: topic_inv_def subscribe_def Let_def dom_def split: if_splits)
next
  case (run_publish t now seen eds now')
  have "patches (patch_compose p eds) (seen s) now'" if "topic_heap t s = Some p" for s p
    using patch_compose_ok [OF _ run_publish(2)] run_publish(3) that by (simp add: topic_inv_def)
  then show ?case
    using run_publish(3) publish_all_result [of "topic_subs t" eds "topic_heap t"]
    by (fastforce simp: topic_inv_def publish_def dom_def split: if_splits)
next
  case (run_consume t now seen s t' p)
  then show ?case
    using patches_empty [of now]
    by (fastforce simp: topic_inv_def consume_def dom_def split: option.splits if_splits)
next
  case (run_drop t now seen s)
  then show ?case by (auto simp: topic_inv_def drop_subscription_def split: if_splits)
qed

text \<open>C19. Whatever subscribing, publishing, consuming and dropping went before, in any order, the
  patch a subscriber consumes leads from the text it last saw to the current text; consuming again
  gives the empty patch; and publishing forgets exactly the dropped subscriptions.\<close>

theorem subscription_consume_current:
  assumes "topic_run t now seen" and "consume t s = Some (t', p)"
  shows "patches p (seen s) now \<and> map_option snd (consume t' s) = Some patch_empty \<and>
    set (topic_subs (publish t eds)) = dom (topic_heap t)"
proof -
  have i: "topic_inv t now seen" by (rule topic_run_inv [OF assms(1)])
  then have "set (topic_subs (publish t eds)) = dom (topic_heap t)"
    using publish_all_result [of "topic_subs t" eds "topic_heap t"] by (auto simp: topic_inv_def publish_def)
  then show ?thesis
    using i assms(2) by (auto simp: consume_def topic_inv_def split: option.splits)
qed

lemma subscription_consume_current_witness:
  "\<exists>t t' p. topic_run t ''axbc'' (\<lambda>_. ''abc'') \<and> consume t 0 = Some (t', p) \<and> patches p ''abc'' ''axbc''"
proof -
  let ?e = "[Edit (Rng 1 1) (Rng 1 (2 :: nat))]"
  obtain t0 :: "nat topic_state" and s where t0: "subscribe topic_default = (t0, s)" "s = 0" "topic_heap t0 = [0 \<mapsto> patch_empty]"
    "topic_subs t0 = [0]" by (simp add: subscribe_def topic_default_def)
  have "topic_run t0 ''abc'' ((\<lambda>_. ''abc'')(s := ''abc''))" by (rule run_subscribe [OF run_start t0(1)])
  then have "topic_run t0 ''abc'' (\<lambda>_. ''abc'')" by (simp add: fun_upd_idem)
  moreover have "patches ?e ''abc'' ''axbc''"
    by (simp add: patches_def same_def nth_Cons' All_less_Suc numeral_eq_Suc)
  ultimately have r: "topic_run (publish t0 ?e) ''axbc'' (\<lambda>_. ''abc'')" by (rule run_publish)
  obtain t' p where c: "consume (publish t0 ?e) 0 = Some (t', p)"
    by (simp add: consume_def publish_def t0)
  show ?thesis using r c subscription_consume_current [OF r c] by blast
qed

end
