(* ===== verification/Bits.thy ===== *)
theory Bits
  imports Prelude
begin

text \<open>
  Bit counting and selection on machine words, as the chunks of a rope use them
  (\<open>crates/rope/src/chunk.rs\<close>): the intrinsics \<open>count_ones\<close>, \<open>leading_zeros\<close>,
  \<open>trailing_zeros\<close>, the masks, and the branchless search for the n-th set bit, which counts bits in
  parallel in fields of 2, 4, 8 and 16 bits and narrows a window on them. It is shown to return the
  position of the n-th set bit. Below, a word is also read as the list of its bits, least first.
\<close>

subsection \<open>The operations\<close>

definition count_ones :: "'a::len word \<Rightarrow> nat" where
  "count_ones w = length (filter (bit w) [0..<LENGTH('a)])"

definition trailing_zeros :: "'a::len word \<Rightarrow> nat" where
  "trailing_zeros w = length (takeWhile (\<lambda>i. \<not> bit w i) [0..<LENGTH('a)])"

definition leading_zeros :: "'a::len word \<Rightarrow> nat" where
  "leading_zeros w = length (takeWhile (\<lambda>i. \<not> bit w i) (rev [0..<LENGTH('a)]))"

text \<open>\<open>unbounded_shl\<close> and \<open>unbounded_shr\<close> give 0 when every bit is shifted out, as \<open>push_bit\<close> and
  \<open>drop_bit\<close> do.\<close>

definition saturating_shl_mask :: "nat \<Rightarrow> u128" where
  "saturating_shl_mask offset = push_bit offset 1 - 1"

definition saturating_shr_mask :: "nat \<Rightarrow> u128" where
  "saturating_shr_mask offset = not (drop_bit offset (- 1))"

definition nth_set_bit_u64 :: "u64 \<Rightarrow> u64 \<Rightarrow> u64" where
  "nth_set_bit_u64 v n =
     (let v = word_reverse v;
          s = 64;
          a = v - and (drop_bit 1 v) ((- 1) div 3);
          b = and a ((- 1) div 5) + and (drop_bit 2 a) ((- 1) div 5);
          c = and (b + drop_bit 4 b) ((- 1) div 0x11);
          d = and (c + drop_bit 8 c) ((- 1) div 0x101);
          t = drop_bit 32 d + drop_bit 48 d;
          s = s - drop_bit 3 (and (t - n) 256);
          n = n - and t (drop_bit 8 (t - n));
          t = and (drop_bit (unat (s - 16)) d) 0xff;
          s = s - drop_bit 4 (and (t - n) 256);
          n = n - and t (drop_bit 8 (t - n));
          t = and (drop_bit (unat (s - 8)) c) 0xf;
          s = s - drop_bit 5 (and (t - n) 256);
          n = n - and t (drop_bit 8 (t - n));
          t = and (drop_bit (unat (s - 4)) b) 7;
          s = s - drop_bit 6 (and (t - n) 256);
          n = n - and t (drop_bit 8 (t - n));
          t = and (drop_bit (unat (s - 2)) a) 3;
          s = s - drop_bit 7 (and (t - n) 256);
          n = n - and t (drop_bit 8 (t - n));
          t = and (drop_bit (unat (s - 1)) v) 1;
          s = s - drop_bit 8 (and (t - n) 256)
      in 65 - s - 1)"

definition nth_set_bit :: "u128 \<Rightarrow> nat \<Rightarrow> nat" where
  "nth_set_bit v n =
     (let low = ucast v :: u64; high = ucast (drop_bit 64 v) :: u64; low_count = count_ones low
      in if low_count < n then 64 + unat (nth_set_bit_u64 high (of_nat (n - low_count)))
         else unat (nth_set_bit_u64 low (of_nat n)))"

subsection \<open>Numbers by their digits\<close>

text \<open>The number with \<open>n\<close> digits \<open>D 0\<close>, \<open>D 1\<close>, \<dots> to the base \<open>B\<close>.\<close>

fun digits :: "nat \<Rightarrow> nat \<Rightarrow> (nat \<Rightarrow> nat) \<Rightarrow> nat" where
  "digits B 0 D = 0"
| "digits B (Suc n) D = D 0 + B * digits B n (\<lambda>k. D (Suc k))"

lemma digits_less: "(\<And>k. k < n \<Longrightarrow> D k < B) \<Longrightarrow> digits B n D < B ^ n"
proof (induction n arbitrary: D)
  case (Suc n)
  then have "digits B n (\<lambda>k. D (Suc k)) + 1 \<le> B ^ n" using Suc_le_eq by auto
  then have "B * digits B n (\<lambda>k. D (Suc k)) + B \<le> B * B ^ n"
    using mult_le_mono2 [of "digits B n (\<lambda>k. D (Suc k)) + 1" "B ^ n" B] by simp
  moreover have "D 0 < B" by (rule Suc.prems) simp
  ultimately show ?case by simp
qed simp

lemma digits_cong: "(\<And>k. k < n \<Longrightarrow> D k = E k) \<Longrightarrow> digits B n D = digits B n E"
proof (induction n arbitrary: D E)
  case (Suc n)
  have "digits B n (\<lambda>k. D (Suc k)) = digits B n (\<lambda>k. E (Suc k))" by (rule Suc.IH) (simp add: Suc.prems)
  then show ?case using Suc.prems [of 0] by simp
qed simp

lemma digits_add: "digits B n D + digits B n E = digits B n (\<lambda>k. D k + E k)"
proof (induction n arbitrary: D E)
  case (Suc n)
  show ?case using Suc.IH [of "\<lambda>k. D (Suc k)" "\<lambda>k. E (Suc k)"] by (simp flip: add_mult_distrib2)
qed simp

lemma digits_div:
  assumes "\<And>k. k < n \<Longrightarrow> D k < B" and "i \<le> n"
  shows "digits B n D div B ^ i = digits B (n - i) (\<lambda>k. D (k + i))"
  using assms
proof (induction i arbitrary: n D)
  case (Suc i)
  then obtain m where n: "n = Suc m" by (cases n) auto
  have "digits B n D div B ^ Suc i = digits B n D div B div B ^ i" by (simp add: div_mult2_eq)
  also have "digits B n D div B = digits B m (\<lambda>k. D (Suc k))"
    using Suc.prems(1) [of 0] by (simp add: n)
  also have "\<dots> div B ^ i = digits B (m - i) (\<lambda>k. D (Suc (k + i)))"
    using Suc.IH [of m "\<lambda>k. D (Suc k)"] Suc.prems by (simp add: n)
  finally show ?case by (simp add: n)
qed simp

lemma digits_digit:
  assumes "\<And>k. k < n \<Longrightarrow> D k < B" and "i < n"
  shows "digits B n D div B ^ i mod B = D i"
proof -
  obtain m where m: "n - i = Suc m" using assms(2) by (cases "n - i") auto
  have "digits B n D div B ^ i = D i + B * digits B m (\<lambda>k. D (Suc k + i))"
    using digits_div [of n D B i] assms m by simp
  then show ?thesis using assms(1) [OF assms(2)] by simp
qed

lemma digits_pair: "digits B (2 * n) D = digits (B ^ 2) n (\<lambda>k. D (2 * k) + B * D (2 * k + 1))"
proof (induction n arbitrary: D)
  case (Suc n)
  have "digits B (2 * Suc n) D = D 0 + B * (D 1 + B * digits B (2 * n) (\<lambda>k. D (Suc (Suc k))))" by simp
  then show ?case unfolding Suc.IH by (simp add: algebra_simps power2_eq_square)
qed simp

lemma and_split:
  fixes p q m k :: nat
  assumes "p < 2 ^ w" and "q < 2 ^ w"
  shows "and (p + 2 ^ w * m) (q + 2 ^ w * k) = and p q + 2 ^ w * and m k"
proof -
  have b: "bit (p + 2 ^ w * m) i \<longleftrightarrow> (if i < w then bit p i else bit m (i - w))" if "p < 2 ^ w" for p m i :: nat
  proof -
    have p: "\<not> bit p j" if "w \<le> j" for j
      using \<open>p < 2 ^ w\<close> that by (metis bit_take_bit_iff not_less take_bit_nat_eq_self)
    then have "p + push_bit w m = or p (push_bit w m)"
      by (intro disjunctive_add) (auto simp: bit_push_bit_iff_nat)
    then have "p + 2 ^ w * m = or p (push_bit w m)" by (simp add: push_bit_eq_mult mult.commute)
    then show ?thesis using p by (auto simp: bit_or_iff bit_push_bit_iff_nat)
  qed
  have "take_bit w (and p q) = and p q" by (simp add: take_bit_and take_bit_nat_eq_self assms)
  then have "and p q < 2 ^ w" by (metis take_bit_nat_less_exp)
  then show ?thesis
    by (intro bit_eqI) (auto simp: bit_and_iff b assms)
qed

lemma and_mask_low:
  fixes p q :: nat
  assumes "p < 2 ^ w"
  shows "and (p + 2 ^ w * q) (2 ^ w - 1) = p"
proof -
  have "and (p + 2 ^ w * q) (2 ^ w - 1) = take_bit w (p + 2 ^ w * q)" by (simp add: take_bit_eq_mask mask_eq_exp_minus_1)
  then show ?thesis using assms by (simp add: take_bit_eq_mod)
qed

lemma digits_mask:
  assumes "\<And>k. k < n \<Longrightarrow> p k < 2 ^ w" and "\<And>k. k < n \<Longrightarrow> q k < 2 ^ w"
  shows "and (digits (2 ^ (2 * w)) n (\<lambda>k. p k + 2 ^ w * q k)) (digits (2 ^ (2 * w)) n (\<lambda>_. 2 ^ w - 1)) =
    digits (2 ^ (2 * w)) n p"
  using assms
proof (induction n arbitrary: p q)
  case (Suc n)
  have "q 0 + 1 \<le> 2 ^ w" "p 0 < 2 ^ w" using Suc.prems [of 0] by simp_all
  then have "2 ^ w * (q 0 + 1) \<le> 2 ^ w * 2 ^ w" by (intro mult_le_mono2)
  then have "p 0 + 2 ^ w * q 0 < 2 ^ (2 * w)" using \<open>p 0 < 2 ^ w\<close> by (simp add: mult_2 power_add)
  moreover have "(2 :: nat) ^ w - 1 < 2 ^ (2 * w)"
    by (rule less_le_trans [of _ "2 ^ w"]) simp_all
  moreover have "and (digits (2 ^ (2 * w)) n (\<lambda>k. p (Suc k) + 2 ^ w * q (Suc k))) (digits (2 ^ (2 * w)) n (\<lambda>_. 2 ^ w - 1)) =
      digits (2 ^ (2 * w)) n (\<lambda>k. p (Suc k))"
    by (rule Suc.IH) (simp_all add: Suc.prems)
  ultimately show ?case
    by (simp only: digits.simps and_split and_mask_low [OF \<open>p 0 < 2 ^ w\<close>])
qed simp

lemma digits_extend: "(\<And>k. n \<le> k \<Longrightarrow> D k = 0) \<Longrightarrow> digits B (n + m) D = digits B n D"
proof (induction n arbitrary: D)
  case 0
  have "digits B m E = 0" if "\<And>k. E k = 0" for E
    using that
  proof (induction m arbitrary: E)
    case (Suc m)
    have "digits B m (\<lambda>k. E (Suc k)) = 0" by (rule Suc.IH) (rule Suc.prems)
    then show ?case using Suc.prems [of 0] by simp
  qed simp
  then have "digits B m D = 0" using 0 by blast
  then show ?case by simp
next
  case (Suc n)
  have "digits B (n + m) (\<lambda>k. D (Suc k)) = digits B n (\<lambda>k. D (Suc k))" by (rule Suc.IH) (rule Suc.prems, simp)
  then show ?case by simp
qed

subsection \<open>Counting in parallel\<close>

definition cnt :: "(nat \<Rightarrow> bool) \<Rightarrow> nat \<Rightarrow> nat \<Rightarrow> nat" where
  "cnt f i w = length (filter f [i..<i + w])"

lemma cnt_add: "cnt f i (v + w) = cnt f i v + cnt f (i + v) w"
  using upt_add_eq_append [of i "i + v" w] by (simp add: cnt_def add.assoc)

lemma cnt_le: "cnt f i w \<le> w"
  unfolding cnt_def by (rule order_trans [OF length_filter_le]) simp

lemma cnt_0 [simp]: "cnt f i 0 = 0"
  by (simp add: cnt_def)

lemma cnt_one: "cnt f i 1 = of_bool (f i)"
  by (simp add: cnt_def)

lemma cnt_zero: "(\<And>k. i \<le> k \<Longrightarrow> \<not> f k) \<Longrightarrow> cnt f i w = 0"
  by (simp add: cnt_def filter_empty_conv)

text \<open>The counts in fields of \<open>w\<close> bits, as one number.\<close>

definition fields :: "(nat \<Rightarrow> bool) \<Rightarrow> nat \<Rightarrow> nat \<Rightarrow> nat" where
  "fields f w n = digits (2 ^ w) n (\<lambda>k. cnt f (w * k) w)"

definition field_mask :: "nat \<Rightarrow> nat \<Rightarrow> nat" where
  "field_mask w n = digits (2 ^ (2 * w)) n (\<lambda>_. 2 ^ w - 1)"

lemma cnt_double: "cnt f (2 * w * k) (2 * w) = cnt f (w * (2 * k)) w + cnt f (w * (2 * k + 1)) w"
proof -
  have "cnt f (2 * w * k) (2 * w) = cnt f (w * (2 * k)) (w + w)" by (intro arg_cong2 [where f = "cnt f"]) simp_all
  also have "\<dots> = cnt f (w * (2 * k)) w + cnt f (w * (2 * k) + w) w" by (rule cnt_add)
  also have "w * (2 * k) + w = w * (2 * k + 1)" by simp
  finally show ?thesis .
qed

lemma cnt_less: "cnt f i w < 2 ^ w"
  by (rule le_less_trans [OF cnt_le less_exp])

lemma square_power: "((2 :: nat) ^ w)\<^sup>2 = 2 ^ (2 * w)"
  by (simp add: power_mult [symmetric] mult.commute)

lemma fields_pair:
  "fields f w (2 * n) = digits (2 ^ (2 * w)) n (\<lambda>k. cnt f (w * (2 * k)) w + 2 ^ w * cnt f (w * (2 * k + 1)) w)"
  unfolding fields_def digits_pair square_power ..

lemma fields_shift:
  assumes "\<And>k. 2 * n * w \<le> k \<Longrightarrow> \<not> f k"
  shows "fields f w (2 * n) div 2 ^ w = digits (2 ^ w) (2 * n) (\<lambda>k. cnt f (w * (k + 1)) w)"
proof -
  have "cnt f (w * k) w = 0" if "2 * n \<le> k" for k
  proof (rule cnt_zero)
    fix j assume "w * k \<le> j"
    moreover have "2 * n * w \<le> w * k" using that by (simp add: mult.commute)
    ultimately show "\<not> f j" by (intro assms) (rule order_trans)
  qed
  then have "fields f w (2 * n) = digits (2 ^ w) (2 * n + 1) (\<lambda>k. cnt f (w * k) w)"
    unfolding fields_def by (intro digits_extend [symmetric]) simp
  also have "\<dots> div 2 ^ w = digits (2 ^ w) (2 * n) (\<lambda>k. cnt f (w * (k + 1)) w)"
    using digits_div [of "2 * n + 1" "\<lambda>k. cnt f (w * k) w" "2 ^ w" 1] cnt_less by simp
  finally show ?thesis .
qed

lemma fields_masked:
  assumes "\<And>k. 2 * n * w \<le> k \<Longrightarrow> \<not> f k"
  shows "and (fields f w (2 * n)) (field_mask w n) = digits (2 ^ (2 * w)) n (\<lambda>k. cnt f (w * (2 * k)) w)"
    and "and (fields f w (2 * n) div 2 ^ w) (field_mask w n) = digits (2 ^ (2 * w)) n (\<lambda>k. cnt f (w * (2 * k + 1)) w)"
proof -
  show "and (fields f w (2 * n)) (field_mask w n) = digits (2 ^ (2 * w)) n (\<lambda>k. cnt f (w * (2 * k)) w)"
    unfolding fields_pair field_mask_def by (rule digits_mask) (rule cnt_less)+
  show "and (fields f w (2 * n) div 2 ^ w) (field_mask w n) = digits (2 ^ (2 * w)) n (\<lambda>k. cnt f (w * (2 * k + 1)) w)"
  proof -
    have "fields f w (2 * n) div 2 ^ w =
        digits (2 ^ (2 * w)) n (\<lambda>k. cnt f (w * (2 * k + 1)) w + 2 ^ w * cnt f (w * (2 * k + 1 + 1)) w)"
      using fields_shift [of n w f, OF assms] by (simp only: digits_pair square_power)
    then show ?thesis
      using digits_mask [of n "\<lambda>k. cnt f (w * (2 * k + 1)) w" w "\<lambda>k. cnt f (w * (2 * k + 1 + 1)) w"] cnt_less
      by (simp only: field_mask_def)
  qed
qed

text \<open>The three ways the code adds neighbouring fields.\<close>

lemma fields_subtract:
  assumes "\<And>k. 2 * n \<le> k \<Longrightarrow> \<not> f k"
  shows "fields f 1 (2 * n) = fields f 2 n + and (fields f 1 (2 * n) div 2) (field_mask 1 n)"
proof -
  have "fields f 1 (2 * n) = digits (2 ^ 2) n (\<lambda>k. cnt f (2 * k) 1 + 2 * cnt f (2 * k + 1) 1)"
    using fields_pair [of f 1 n] by simp
  moreover have "and (fields f 1 (2 * n) div 2) (field_mask 1 n) = digits (2 ^ 2) n (\<lambda>k. cnt f (2 * k + 1) 1)"
    using fields_masked(2) [of n 1 f] assms by simp
  moreover have "fields f 2 n = digits (2 ^ 2) n (\<lambda>k. cnt f (2 * k) 1 + cnt f (2 * k + 1) 1)"
    unfolding fields_def using cnt_double [of f 1] by simp
  moreover have "cnt f (2 * k) 1 + cnt f (2 * k + 1) 1 + cnt f (2 * k + 1) 1 = cnt f (2 * k) 1 + 2 * cnt f (2 * k + 1) 1" for k
    by simp
  ultimately show ?thesis by (simp only: digits_add)
qed

lemma fields_add:
  assumes "\<And>k. 2 * n * w \<le> k \<Longrightarrow> \<not> f k"
  shows "and (fields f w (2 * n)) (field_mask w n) + and (fields f w (2 * n) div 2 ^ w) (field_mask w n) = fields f (2 * w) n"
proof -
  have "fields f (2 * w) n = digits (2 ^ (2 * w)) n (\<lambda>k. cnt f (w * (2 * k)) w + cnt f (w * (2 * k + 1)) w)"
    unfolding fields_def cnt_double ..
  then show ?thesis
    using fields_masked [of n w f, OF assms] by (simp only: digits_add)
qed

lemma fields_add_mask:
  assumes "\<And>k. 2 * n * w \<le> k \<Longrightarrow> \<not> f k" and "2 * w < 2 ^ w"
  shows "and (fields f w (2 * n) + fields f w (2 * n) div 2 ^ w) (field_mask w n) = fields f (2 * w) n"
    and "fields f w (2 * n) + fields f w (2 * n) div 2 ^ w < 2 ^ (w * (2 * n))"
proof -
  have less: "cnt f i w + cnt f j w < 2 ^ w" for i j
    using cnt_le [of f i w] cnt_le [of f j w] assms(2) by simp
  have sum: "fields f w (2 * n) + fields f w (2 * n) div 2 ^ w =
      digits (2 ^ w) (2 * n) (\<lambda>k. cnt f (w * k) w + cnt f (w * (k + 1)) w)"
    using fields_shift [of n w f, OF assms(1)] by (simp only: fields_def digits_add)
  show "fields f w (2 * n) + fields f w (2 * n) div 2 ^ w < 2 ^ (w * (2 * n))"
    unfolding sum power_mult [of 2 w] by (rule digits_less) (rule less)
  have "fields f (2 * w) n = digits (2 ^ (2 * w)) n (\<lambda>k. cnt f (w * (2 * k)) w + cnt f (w * (2 * k + 1)) w)"
    unfolding fields_def cnt_double ..
  then show "and (fields f w (2 * n) + fields f w (2 * n) div 2 ^ w) (field_mask w n) = fields f (2 * w) n"
    using digits_mask [of n "\<lambda>k. cnt f (w * (2 * k)) w + cnt f (w * (2 * k + 1)) w" w
        "\<lambda>k. cnt f (w * (2 * k + 1)) w + cnt f (w * (2 * k + 1 + 1)) w"] less
    by (simp only: sum digits_pair square_power field_mask_def)
qed

lemma fields_digit: "i < n \<Longrightarrow> fields f w n div 2 ^ (w * i) mod 2 ^ w = cnt f (w * i) w"
  unfolding fields_def power_mult by (rule digits_digit) (rule cnt_less)

lemma fields_less: "fields f w n < 2 ^ (w * n)"
  unfolding fields_def power_mult by (rule digits_less) (rule cnt_less)

text \<open>A number is its fields of one bit.\<close>

lemma digits_take_bit: "digits 2 n (\<lambda>k. of_bool (bit a k)) = take_bit n a" for a :: nat
proof (induction n arbitrary: a)
  case (Suc n)
  have "digits 2 n (\<lambda>k. of_bool (bit a (Suc k))) = take_bit n (a div 2)"
    using Suc.IH [of "a div 2"] by (simp add: bit_Suc)
  then show ?case by (simp add: take_bit_Suc bit_0 mod_2_eq_odd)
qed simp

lemma unat_fields: "unat (v :: u64) = fields (bit v) 1 64"
proof -
  have "unat v = take_bit 64 (unat v)" using unat_bounds(4) [of v] by (simp add: take_bit_nat_eq_self)
  then show ?thesis unfolding fields_def using digits_take_bit [of 64 "unat v"] cnt_one [of "bit v"]
    by (simp add: bit_unsigned_iff) 
qed

subsection \<open>The parallel counts of the code\<close>

lemma digits_numeral:
  "digits B (numeral n) D = D 0 + B * digits B (pred_numeral n) (\<lambda>k. D (Suc k))"
  by (simp add: numeral_eq_Suc)

lemma unat_masks:
  "unat ((- 1) div 3 :: u64) = field_mask 1 32" "unat ((- 1) div 5 :: u64) = field_mask 2 16"
  "unat ((- 1) div 0x11 :: u64) = field_mask 4 8" "unat ((- 1) div 0x101 :: u64) = field_mask 8 4"
  by (simp_all add: field_mask_def digits_numeral)

lemma parallel_counts:
  fixes v :: u64
  defines "a \<equiv> v - and (drop_bit 1 v) ((- 1) div 3)"
  defines "b \<equiv> and a ((- 1) div 5) + and (drop_bit 2 a) ((- 1) div 5)"
  defines "c \<equiv> and (b + drop_bit 4 b) ((- 1) div 0x11)"
  defines "d \<equiv> and (c + drop_bit 8 c) ((- 1) div 0x101)"
  shows "unat a = fields (bit v) 2 32" "unat b = fields (bit v) 4 16"
    "unat c = fields (bit v) 8 8" "unat d = fields (bit v) 16 4"
proof -
  have f: "\<not> bit v k" if "64 \<le> k" for k using that bit_imp_le_length [of v k] by auto
  note u = unsigned_and_eq unat_drop_bit_eq drop_bit_eq_div [where 'a = nat] unat_masks
  have a1: "unat (and (drop_bit 1 v) ((- 1) div 3)) = and (fields (bit v) 1 64 div 2) (field_mask 1 32)"
    by (simp only: u unat_fields [of v] power_one_right)
  have a2: "fields (bit v) 1 64 = fields (bit v) 2 32 + and (fields (bit v) 1 64 div 2) (field_mask 1 32)"
    using fields_subtract [of 32 "bit v"] f by simp
  have "and (drop_bit 1 v) ((- 1) div 3) \<le> v"
    unfolding word_le_nat_alt a1 unat_fields [of v] using a2 by linarith
  then show a: "unat a = fields (bit v) 2 32"
    unfolding a_def using a1 a2 unat_fields [of v] by (simp add: unat_sub)
  have b1: "unat (and a ((- 1) div 5)) + unat (and (drop_bit 2 a) ((- 1) div 5)) = fields (bit v) 4 16"
  proof -
    have "2 * 16 * 2 = (64 :: nat)" "2 * 16 = (32 :: nat)" "2 * 2 = (4 :: nat)" by simp_all
    moreover have "\<not> bit v k" if "2 * 16 * 2 \<le> k" for k using f that by simp
    note fields_add [of 16 2 "bit v", OF this]
    ultimately show ?thesis by (simp only: u a)
  qed
  then show b: "unat b = fields (bit v) 4 16"
    unfolding b_def using fields_less [of "bit v" 4 16] by (simp add: unat_word_ariths)
  have c1: "and (fields (bit v) 4 16 + fields (bit v) 4 16 div 2 ^ 4) (field_mask 4 8) = fields (bit v) 8 8"
    "fields (bit v) 4 16 + fields (bit v) 4 16 div 2 ^ 4 < 2 ^ 64"
    using fields_add_mask [of 8 4 "bit v"] f by simp_all
  then have "unat (b + drop_bit 4 b) = fields (bit v) 4 16 + fields (bit v) 4 16 div 2 ^ 4"
    by (simp add: unat_word_ariths u b)
  then show c: "unat c = fields (bit v) 8 8" unfolding c_def using c1 by (simp only: u)
  have d1: "and (fields (bit v) 8 8 + fields (bit v) 8 8 div 2 ^ 8) (field_mask 8 4) = fields (bit v) 16 4"
    "fields (bit v) 8 8 + fields (bit v) 8 8 div 2 ^ 8 < 2 ^ 64"
    using fields_add_mask [of 4 8 "bit v"] f by simp_all
  then have "unat (c + drop_bit 8 c) = fields (bit v) 8 8 + fields (bit v) 8 8 div 2 ^ 8"
    by (simp add: unat_word_ariths u c)
  then show "unat d = fields (bit v) 16 4" unfolding d_def using d1 by (simp only: u)
qed

subsection \<open>The branchless comparison\<close>

lemma borrow:
  fixes t n :: u64
  assumes t: "unat t = lo + 65536 * hi" and lo: "lo \<le> 64" and hi: "hi \<le> 64" and n: "unat n \<le> 64"
  shows "unat (and (t - n) 256) = (if lo < unat n then 256 else 0)"
    and "unat (and t (drop_bit 8 (t - n))) = (if lo < unat n then lo else 0)"
proof -
  define r where "r = unat (t - n)"
  have r: "r = (if unat n \<le> unat t then unat t - unat n else 2 ^ 64 + unat t - unat n)"
    unfolding r_def using unat_bounds(4) [of t] unat_bounds(4) [of n]
    by (auto simp: unat_sub_if_size word_size)
  obtain r0 r1 where r01: "r = r0 + 2 ^ 8 * r1" "r0 < 2 ^ 8" "odd r1 \<longleftrightarrow> lo < unat n"
    and a: "and (unat t) r1 = (if lo < unat n then lo else 0)"
  proof (cases "lo < unat n")
    case True
    let ?x = "256 - (unat n - lo)"
    show ?thesis
    proof (cases hi)
      case 0
      have "r = ?x + 2 ^ 8 * (2 ^ 56 - 1)" using True n t r 0 by simp
      moreover have "and (unat t) (2 ^ 56 - 1) = lo"
      proof -
        have "and (unat t) (2 ^ 56 - 1) = take_bit 56 (unat t)" by (simp only: take_bit_eq_mask mask_eq_exp_minus_1)
        then show ?thesis using t 0 lo take_bit_nat_eq_self [of lo 56] by simp
      qed
      ultimately show ?thesis using True by (intro that [of ?x "2 ^ 56 - 1"]) simp_all
    next
      case (Suc k)
      have "r = ?x + 2 ^ 8 * (255 + 2 ^ 8 * k)" using True n t r Suc by simp
      moreover have "and (unat t) (255 + 2 ^ 8 * k) = and (lo + 2 ^ 8 * (2 ^ 8 * hi)) (255 + 2 ^ 8 * k)" using t by simp
      moreover have "\<dots> = and lo 255 + 2 ^ 8 * and (2 ^ 8 * hi) k" by (rule and_split) (use lo in simp_all)
      moreover have "and (0 + 2 ^ 8 * hi) (k + 2 ^ 8 * 0) = and 0 k + 2 ^ 8 * and hi 0"
        by (rule and_split) (use hi Suc in simp_all)
      moreover have "and lo 255 = lo"
        using lo take_bit_eq_mask [of 8 lo] by (simp add: take_bit_nat_eq_self mask_eq_exp_minus_1)
      ultimately show ?thesis using True by (intro that [of ?x "255 + 2 ^ 8 * k"]) simp_all
    qed
  next
    case False
    have "r = (lo - unat n) + 2 ^ 8 * (0 + 2 ^ 8 * hi)" using False t r by simp
    moreover have "and (unat t) (0 + 2 ^ 8 * hi) = and (lo + 2 ^ 8 * (2 ^ 8 * hi)) (0 + 2 ^ 8 * hi)" using t by simp
    moreover have "\<dots> = and lo 0 + 2 ^ 8 * and (2 ^ 8 * hi) hi" by (rule and_split) (use lo in simp_all)
    moreover have "and (0 + 2 ^ 8 * hi) (hi + 2 ^ 8 * 0) = and 0 hi + 2 ^ 8 * and hi 0"
      by (rule and_split) (use hi in simp_all)
    ultimately show ?thesis using False lo by (intro that [of "lo - unat n" "0 + 2 ^ 8 * hi"]) simp_all
  qed
  have "and (r0 + 2 ^ 8 * r1) (0 + 2 ^ 8 * 1) = and r0 0 + 2 ^ 8 * and r1 1"
    by (rule and_split) (use r01(2) in simp_all)
  then show "unat (and (t - n) 256) = (if lo < unat n then 256 else 0)"
    using r01 by (cases "odd r1") (auto simp: unsigned_and_eq r_def [symmetric] and_one_eq mod_2_eq_odd)
  have "unat (drop_bit 8 (t - n)) = r1"
    using r01(1,2) by (simp add: unat_drop_bit_eq drop_bit_eq_div [where 'a = nat] r_def [symmetric])
  then show "unat (and t (drop_bit 8 (t - n))) = (if lo < unat n then lo else 0)"
    using a by (simp only: unsigned_and_eq)
qed

subsection \<open>Narrowing the window\<close>

text \<open>Counting from the top, the bit looked for is the \<open>n\<close>-th of the window of \<open>h\<close> bits below \<open>s\<close>,
  and the \<open>N\<close>-th of the word.\<close>

definition window :: "(nat \<Rightarrow> bool) \<Rightarrow> nat \<Rightarrow> u64 \<Rightarrow> nat \<Rightarrow> u64 \<Rightarrow> bool" where
  "window f N s h n \<longleftrightarrow> unat s \<le> 64 \<and> h dvd unat s \<and> h \<le> unat s \<and>
     cnt f (unat s) (64 - unat s) + unat n = N \<and> 1 \<le> unat n \<and> unat n \<le> cnt f (unat s - h) h"

lemma narrow:
  assumes w: "window f N s (2 * k) n" and k: "k * 2 ^ m = 256" "k \<le> 32"
    and t: "unat t = cnt f (unat s - k) k + 65536 * hi" "hi \<le> 64"
  shows "window f N (s - drop_bit m (and (t - n) 256)) k (n - and t (drop_bit 8 (t - n)))"
proof -
  have s: "unat s \<le> 64" "2 * k dvd unat s" "2 * k \<le> unat s" "cnt f (unat s) (64 - unat s) + unat n = N"
    "1 \<le> unat n" "unat n \<le> cnt f (unat s - 2 * k) (2 * k)"
    using w by (simp_all add: window_def)
  let ?lo = "cnt f (unat s - k) k"
  have lo: "?lo \<le> 64" and n: "unat n \<le> 64"
    using cnt_le [of f "unat s - k" k] s(6) cnt_le [of f "unat s - 2 * k" "2 * k"] k(2) by linarith+
  note b = borrow [OF t(1) lo t(2) n]
  have m: "256 div 2 ^ m = k" using k(1) by (metis nonzero_mult_div_cancel_right power_not_zero zero_neq_numeral)
  have parts: "cnt f (unat s - 2 * k) (2 * k) = cnt f (unat s - 2 * k) k + ?lo"
    using cnt_add [of f "unat s - 2 * k" k k] s(3) by (simp add: mult_2)
  have dv: "k dvd unat s" using s(2) by (rule dvd_mult_right [of 2 k])
  show ?thesis
  proof (cases "?lo < unat n")
    case True
    then have "unat (drop_bit m (and (t - n) 256)) = k"
      using m by (simp only: unat_drop_bit_eq drop_bit_eq_div [where 'a = nat] b(1) if_True)
    then have s': "unat (s - drop_bit m (and (t - n) 256)) = unat s - k"
      using s(3) by (subst unat_sub) (simp_all add: word_le_nat_alt)
    have n': "unat (n - and t (drop_bit 8 (t - n))) = unat n - ?lo"
      using b(2) True by (subst unat_sub) (simp_all add: word_le_nat_alt)
    have "cnt f (unat s - k) (64 - (unat s - k)) = ?lo + cnt f (unat s) (64 - unat s)"
    proof -
      have "64 - (unat s - k) = k + (64 - unat s)" using s(1,3) by simp
      then show ?thesis using cnt_add [of f "unat s - k" k "64 - unat s"] s(3) by simp
    qed
    moreover have "k \<le> unat s - k" "k dvd unat s - k" using s(3) dv by (simp_all add: dvd_diff_nat)
    moreover have "unat s - k - k = unat s - 2 * k" "unat s - k \<le> 64" using s(1) by simp_all
    moreover have "?lo + cnt f (unat s) (64 - unat s) + (unat n - ?lo) = N" "1 \<le> unat n - ?lo"
      "unat n - ?lo \<le> cnt f (unat s - 2 * k) k"
      using s(4,6) True parts by linarith+
    ultimately show ?thesis unfolding window_def s' n' by simp
  next
    case False
    then have "unat (drop_bit m (and (t - n) 256)) = 0"
      by (simp only: unat_drop_bit_eq drop_bit_eq_div [where 'a = nat] b(1) if_False div_0)
    then have s': "s - drop_bit m (and (t - n) 256) = s" by (simp add: unat_eq_zero)
    have n': "n - and t (drop_bit 8 (t - n)) = n" using b(2) False by (simp add: unat_eq_zero)
    show ?thesis unfolding window_def s' n' using s dv False by simp
  qed
qed

text \<open>Reading the field below \<open>s\<close>.\<close>

lemma read_field:
  fixes x mk :: u64
  assumes x: "unat x = fields f h j" and hj: "h * j = 64" "0 < h" and s: "h dvd s" "0 < s" "s \<le> 64"
    and m: "mk = of_nat (2 ^ i - 1)" "i \<le> h" "h < 2 ^ i"
  shows "unat (and (drop_bit (s - h) x) mk) = cnt f (s - h) h"
proof -
  obtain l where l: "s = h * l" using s(1) by blast
  then have l0: "0 < l" using s(2) by simp
  have sh: "s - h = h * (l - 1)" using l by (simp add: algebra_simps)
  have "h * l \<le> h * j" using s(3) l hj(1) by simp
  then have lj: "l - 1 < j" using l0 hj(2) by simp
  have c: "cnt f (s - h) h < 2 ^ i" by (rule le_less_trans [OF cnt_le m(3)])
  have "h \<le> 64" using hj by (metis dvd_imp_le dvd_triv_left zero_less_numeral)
  then have "(2 :: nat) ^ i \<le> 2 ^ 64" using m(2) by (intro power_increasing) simp_all
  then have "(2 :: nat) ^ i - 1 < 2 ^ 64" by (rule less_le_trans [rotated]) simp
  then have mk: "unat mk = 2 ^ i - 1"
    unfolding m(1) unat_of_nat by (intro mod_less) simp
  have "unat (and (drop_bit (s - h) x) mk) = take_bit i (fields f h j div 2 ^ (h * (l - 1)))"
    unfolding unsigned_and_eq mk unat_drop_bit_eq x sh drop_bit_eq_div [where 'a = nat]
    by (simp only: take_bit_eq_mask mask_eq_exp_minus_1)
  also have "\<dots> = take_bit i (take_bit h (fields f h j div 2 ^ (h * (l - 1))))"
    using m(2) by (simp add: min_absorb1)
  also have "\<dots> = take_bit i (cnt f (s - h) h)"
    using fields_digit [OF lj, of f h] by (simp add: take_bit_eq_mod sh)
  also have "\<dots> = cnt f (s - h) h" using c by (simp add: take_bit_nat_eq_self)
  finally show ?thesis .
qed

subsection \<open>The n-th set bit\<close>

lemma cnt_reverse:
  "m \<le> 64 \<Longrightarrow> cnt (bit (word_reverse v)) (64 - m) m = cnt (bit v) 0 m" for v :: u64
proof (induction m)
  case (Suc m)
  have "64 - Suc m + 1 = 64 - m" using Suc.prems by simp
  then have "cnt (bit (word_reverse v)) (64 - Suc m) (Suc m) =
      cnt (bit (word_reverse v)) (64 - Suc m) 1 + cnt (bit (word_reverse v)) (64 - m) m"
    using cnt_add [of "bit (word_reverse v)" "64 - Suc m" 1 m] by simp
  moreover have "cnt (bit v) 0 (Suc m) = cnt (bit v) 0 m + cnt (bit v) m 1"
    using cnt_add [of "bit v" 0 m 1] by simp
  moreover have "bit (word_reverse v) (64 - Suc m) \<longleftrightarrow> bit v m"
  proof -
    have "64 - Suc m < 64" "63 - (64 - Suc m) = m" using Suc.prems by linarith+
    then show ?thesis by (simp add: bit_word_reverse_iff)
  qed
  ultimately show ?case using Suc by (simp only: cnt_one)
qed (simp add: cnt_def)

lemma cnt_count_ones: "count_ones v = cnt (bit v) 0 64" for v :: u64
  by (simp add: count_ones_def cnt_def)

lemma window_end:
  assumes "window f N s 1 n"
  shows "f (unat s - 1)" "1 \<le> unat s" "unat s \<le> 64" "cnt f (unat s) (64 - unat s) + 1 = N"
proof -
  have w: "1 \<le> unat s" "unat s \<le> 64" "cnt f (unat s) (64 - unat s) + unat n = N" "1 \<le> unat n"
    "unat n \<le> of_bool (f (unat s - 1))"
    using assms cnt_one [of f "unat s - 1"] by (simp_all add: window_def)
  then show f: "f (unat s - 1)" by (cases "f (unat s - 1)") simp_all
  show "1 \<le> unat s" "unat s \<le> 64" by (rule w)+
  show "cnt f (unat s) (64 - unat s) + 1 = N" using f w(3-5) by simp
qed

lemma narrow_read:
  assumes w: "window f N s (2 * k) n" and k: "k * 2 ^ m = 256" "k \<le> 32"
    and x: "unat x = fields f k j" "k * j = 64" "0 < k"
    and mk: "mk = of_nat (2 ^ i - 1)" "i \<le> k" "k < 2 ^ i" and l: "l = of_nat k"
    and t: "t = and (drop_bit (unat (s - l)) x) mk"
  shows "window f N (s - drop_bit m (and (t - n) 256)) k (n - and t (drop_bit 8 (t - n)))"
proof (rule narrow [OF w k, of t 0])
  have s: "unat s \<le> 64" "2 * k dvd unat s" "2 * k \<le> unat s" using w by (simp_all add: window_def)
  have lk: "unat l = k" unfolding l unat_of_nat by (intro mod_less) (use k(2) in simp)
  have "unat (s - l) = unat s - k"
    using s(3) lk by (subst unat_sub) (simp_all add: word_le_nat_alt)
  moreover have "k dvd unat s" using s(2) by (rule dvd_mult_right [of 2 k])
  ultimately show "unat t = cnt f (unat s - k) k + 65536 * 0"
    unfolding t using read_field [OF x _ _ s(1) mk] s(3) x(3) by simp
qed simp

lemma nth_set_bit_u64_window:
  assumes "1 \<le> unat n" and "unat n \<le> count_ones v"
  obtains s m where "nth_set_bit_u64 v n = 65 - s - 1" "window (bit (word_reverse v)) (unat n) s 1 m"
proof -
  define v' where "v' = word_reverse v"
  define f where "f = bit v'"
  define a where "a = v' - and (drop_bit 1 v') ((- 1) div 3)"
  define b where "b = and a ((- 1) div 5) + and (drop_bit 2 a) ((- 1) div 5)"
  define c where "c = and (b + drop_bit 4 b) ((- 1) div 0x11)"
  define d where "d = and (c + drop_bit 8 c) ((- 1) div 0x101)"
  define t1 where "t1 = drop_bit 32 d + drop_bit 48 d"
  define s1 where "s1 = 64 - drop_bit 3 (and (t1 - n) 256)"
  define n1 where "n1 = n - and t1 (drop_bit 8 (t1 - n))"
  define t2 where "t2 = and (drop_bit (unat (s1 - 16)) d) 0xff"
  define s2 where "s2 = s1 - drop_bit 4 (and (t2 - n1) 256)"
  define n2 where "n2 = n1 - and t2 (drop_bit 8 (t2 - n1))"
  define t3 where "t3 = and (drop_bit (unat (s2 - 8)) c) 0xf"
  define s3 where "s3 = s2 - drop_bit 5 (and (t3 - n2) 256)"
  define n3 where "n3 = n2 - and t3 (drop_bit 8 (t3 - n2))"
  define t4 where "t4 = and (drop_bit (unat (s3 - 4)) b) 7"
  define s4 where "s4 = s3 - drop_bit 6 (and (t4 - n3) 256)"
  define n4 where "n4 = n3 - and t4 (drop_bit 8 (t4 - n3))"
  define t5 where "t5 = and (drop_bit (unat (s4 - 2)) a) 3"
  define s5 where "s5 = s4 - drop_bit 7 (and (t5 - n4) 256)"
  define n5 where "n5 = n4 - and t5 (drop_bit 8 (t5 - n4))"
  define t6 where "t6 = and (drop_bit (unat (s5 - 1)) v') 1"
  define s6 where "s6 = s5 - drop_bit 8 (and (t6 - n5) 256)"
  note counts = parallel_counts [of v', folded a_def, folded b_def, folded c_def, folded d_def, folded f_def]
  have w0: "window f (unat n) 64 (2 * 32) n"
    using assms cnt_reverse [of 64 v] by (simp add: window_def f_def v'_def cnt_count_ones)
  have w1: "window f (unat n) s1 32 n1"
    unfolding s1_def n1_def
  proof (rule narrow [OF w0])
    let ?D = "\<lambda>k. cnt f (16 * k) 16"
    have d: "unat d = ?D 0 + 2 ^ 16 * ?D 1 + 2 ^ 32 * ?D 2 + 2 ^ 48 * ?D 3"
      unfolding counts(4) fields_def by (simp add: digits_numeral)
    have D: "?D k \<le> 16" for k by (rule cnt_le)
    have "unat d div 2 ^ 32 = ?D 2 + 2 ^ 16 * ?D 3" "unat d div 2 ^ 48 = ?D 3"
      using D [of 0] D [of 1] D [of 2] unfolding d by simp_all
    then have "unat t1 = ?D 2 + 2 ^ 16 * ?D 3 + ?D 3"
      unfolding t1_def using D [of 2] D [of 3]
      by (simp add: unat_word_ariths unat_drop_bit_eq drop_bit_eq_div [where 'a = nat])
    moreover have "cnt f 32 32 = ?D 2 + ?D 3" using cnt_add [of f 32 16 16] by simp
    ultimately show "unat t1 = cnt f (unat (64 :: u64) - 32) 32 + 65536 * ?D 3" by simp
    show "?D 3 \<le> 64" using D [of 3] by simp
  qed simp_all
  have w2: "window f (unat n) s2 16 n2"
    unfolding s2_def n2_def by (rule narrow_read [OF _ _ _ counts(4), where i = 8 and l = 16]) (use w1 t2_def in simp_all)
  have w3: "window f (unat n) s3 8 n3"
    unfolding s3_def n3_def by (rule narrow_read [OF _ _ _ counts(3), where i = 4 and l = 8]) (use w2 t3_def in simp_all)
  have w4: "window f (unat n) s4 4 n4"
    unfolding s4_def n4_def by (rule narrow_read [OF _ _ _ counts(2), where i = 3 and l = 4]) (use w3 t4_def in simp_all)
  have w5: "window f (unat n) s5 2 n5"
    unfolding s5_def n5_def by (rule narrow_read [OF _ _ _ counts(1), where i = 2 and l = 2]) (use w4 t5_def in simp_all)
  have w6: "window f (unat n) s6 1 (n5 - and t6 (drop_bit 8 (t6 - n5)))"
    unfolding s6_def
    by (rule narrow_read [OF _ _ _ unat_fields [of v', folded f_def], where i = 1 and l = 1]) (use w5 t6_def in simp_all)
  have "nth_set_bit_u64 v n = 65 - s6 - 1"
    unfolding nth_set_bit_u64_def Let_def s6_def t6_def n5_def s5_def t5_def n4_def s4_def t4_def n3_def s3_def t3_def
      n2_def s2_def t2_def n1_def s1_def t1_def d_def c_def b_def a_def v'_def ..
  with w6 show ?thesis unfolding f_def v'_def by (rule that [rotated])
qed

lemma nth_set_bit_u64_spec:
  assumes "1 \<le> unat n" and "unat n \<le> count_ones v"
  shows "unat (nth_set_bit_u64 v n) < 64" and "bit v (unat (nth_set_bit_u64 v n))"
    and "cnt (bit v) 0 (unat (nth_set_bit_u64 v n)) = unat n - 1"
proof -
  obtain s m where r: "nth_set_bit_u64 v n = 65 - s - 1" and w: "window (bit (word_reverse v)) (unat n) s 1 m"
    using nth_set_bit_u64_window [OF assms] .
  note e = window_end [OF w]
  have "unat (65 - s) = 65 - unat s" using e(3) by (subst unat_sub) (simp_all add: word_le_nat_alt)
  then have u: "unat (nth_set_bit_u64 v n) = 64 - unat s"
    unfolding r using e(3) by (subst unat_sub) (simp_all add: word_le_nat_alt)
  show "unat (nth_set_bit_u64 v n) < 64" using u e(2) by simp
  show "bit v (unat (nth_set_bit_u64 v n))"
    using e(1-3) unfolding u by (simp add: bit_word_reverse_iff)
  have "64 - (64 - unat s) = unat s" using e(3) by simp
  then show "cnt (bit v) 0 (unat (nth_set_bit_u64 v n)) = unat n - 1"
    using cnt_reverse [of "64 - unat s" v] e(4) unfolding u by simp
qed

subsection \<open>The search in a bitmap of a chunk\<close>

lemma cnt_cong: "(\<And>k. i \<le> k \<Longrightarrow> k < i + w \<Longrightarrow> f k = g (j + (k - i))) \<Longrightarrow> cnt f i w = cnt g j w"
proof (induction w)
  case (Suc w)
  have "cnt f i w = cnt g j w" by (rule Suc.IH) (simp add: Suc.prems)
  moreover have "f (i + w) = g (j + w)" using Suc.prems [of "i + w"] by simp
  ultimately show ?case using cnt_add [of f i w 1] cnt_add [of g j w 1] by (simp only: cnt_one Suc_eq_plus1)
qed simp

lemma nth_filter:
  assumes "f r" and "r < N" and "cnt f 0 r = k"
  shows "filter f [0..<N] ! k = r"
proof -
  have "[0..<N] = [0..<r] @ r # [Suc r..<N]"
    using upt_add_eq_append [of 0 r "N - r"] upt_conv_Cons [of r N] assms(2) by simp
  then have "filter f [0..<N] = filter f [0..<r] @ r # filter f [Suc r..<N]" using assms(1) by simp
  then show ?thesis using assms(3) by (simp add: cnt_def nth_append)
qed

lemma count_ones_cnt: "count_ones v = cnt (bit v) 0 LENGTH('a)" for v :: "'a::len word"
  by (simp add: count_ones_def cnt_def)

lemma count_ones_le: "count_ones v \<le> LENGTH('a)" for v :: "'a::len word"
  unfolding count_ones_cnt by (rule cnt_le)

lemma nth_set_bit_spec:
  assumes "1 \<le> n" and "n \<le> count_ones v"
  shows "nth_set_bit v n < 128 \<and> bit v (nth_set_bit v n) \<and> cnt (bit v) 0 (nth_set_bit v n) = n - 1"
proof -
  let ?low = "ucast v :: u64" and ?high = "ucast (drop_bit 64 v) :: u64"
  have low: "cnt (bit ?low) 0 m = cnt (bit v) 0 m" if "m \<le> 64" for m
    using that by (intro cnt_cong) (simp add: bit_unsigned_iff)
  have high: "cnt (bit ?high) 0 m = cnt (bit v) 64 m" if "m \<le> 64" for m
    using that by (intro cnt_cong) (simp add: bit_unsigned_iff bit_drop_bit_eq)
  have total: "count_ones v = count_ones ?low + count_ones ?high"
    using cnt_add [of "bit v" 0 64 64] by (simp add: count_ones_cnt low high)
  have small: "unat (of_nat m :: u64) = m" if "m \<le> 64" for m
    unfolding unat_of_nat using that by (intro mod_less) simp
  show ?thesis
  proof (cases "count_ones ?low < n")
    case True
    let ?m = "n - count_ones ?low" and ?r = "unat (nth_set_bit_u64 ?high (of_nat (n - count_ones ?low)))"
    have m: "?m \<le> count_ones ?high" "1 \<le> ?m" using True assms total by simp_all
    moreover have "unat (of_nat ?m :: u64) = ?m" using m(1) count_ones_le [of ?high] by (intro small) simp
    ultimately have r: "?r < 64" "bit ?high ?r" "cnt (bit ?high) 0 ?r = ?m - 1"
      using nth_set_bit_u64_spec [of "of_nat ?m" ?high] by simp_all
    have "cnt (bit v) 0 (64 + ?r) = count_ones ?low + (?m - 1)"
      using cnt_add [of "bit v" 0 64 ?r] r low [of 64] high [of ?r] by (simp add: count_ones_cnt)
    then have c: "cnt (bit v) 0 (64 + ?r) = n - 1" using m True by simp
    have e: "nth_set_bit v n = 64 + ?r" using True by (simp add: nth_set_bit_def Let_def)
    show ?thesis unfolding e using r(1,2) c by (simp add: bit_unsigned_iff bit_drop_bit_eq)
  next
    case False
    let ?r = "unat (nth_set_bit_u64 ?low (of_nat n))"
    have "unat (of_nat n :: u64) = n" using False count_ones_le [of ?low] by (intro small) simp
    then have r: "?r < 64" "bit ?low ?r" "cnt (bit ?low) 0 ?r = n - 1"
      using nth_set_bit_u64_spec [of "of_nat n" ?low] False assms(1) by simp_all
    have e: "nth_set_bit v n = ?r" using False by (simp add: nth_set_bit_def Let_def)
    show ?thesis unfolding e using r low [of ?r] by (simp add: bit_unsigned_iff)
  qed
qed

text \<open>C24. The branchless search finds the n-th set bit: for every 128-bit bitmap and every n from 1 to the
  number of its set bits, \<open>nth_set_bit\<close> returns the n-th entry of the ascending list of the positions of
  the set bits.\<close>

theorem nth_set_bit_is_nth:
  assumes "1 \<le> n" and "n \<le> count_ones v"
  shows "nth_set_bit v n = filter (bit v) [0..<128] ! (n - 1)"
  using nth_set_bit_spec [OF assms] nth_filter [of "bit v" "nth_set_bit v n" 128 "n - 1"] by simp

theorem nth_set_bit_is_nth_witness: "nth_set_bit (0x10000000000000000000000005 :: u128) 3 = 100"
proof -
  have b: "filter (bit (0x10000000000000000000000005 :: u128)) [0..<128] = [0, 2, 100]" by code_simp
  then have "count_ones (0x10000000000000000000000005 :: u128) = 3" by (simp add: count_ones_def)
  then show ?thesis using nth_set_bit_is_nth [of 3 "0x10000000000000000000000005"] b by simp
qed

end
