(* ===== verification/Points.thy ===== *)
theory Points
  imports Prelude
begin

text \<open>
  Positions in a text (\<open>crates/rope/src/point.rs\<close>, \<open>point_utf16.rs\<close>, \<open>offset_utf16.rs\<close>,
  \<open>unclipped.rs\<close>): a row and a column, in bytes or in UTF-16 code units. The types are generic in
  the integer, so that the same definitions are read at 32-bit words, what the code has, and at
  natural numbers, where nothing wraps. The order of the code packs row and column into one 64-bit
  word; it is shown to be the lexicographic one.
\<close>

subsection \<open>Points\<close>

datatype 'n point = Point (row: 'n) (column: 'n)

definition point_MAX :: "u32 point" where
  "point_MAX = Point (- 1) (- 1)"

definition point_row_range :: "'n::zero \<Rightarrow> 'n \<Rightarrow> 'n point \<times> 'n point" where
  "point_row_range range_start range_end = (Point range_start 0, Point range_end 0)"

definition point_zero :: "'n::zero point" where
  "point_zero = Point 0 0"

instantiation point :: (zero) zero
begin
definition zero_point :: "'a point" where "zero_point = point_zero"
instance ..
end

lemma zero_point_eq: "0 = Point 0 0"
  by (simp add: zero_point_def point_zero_def)

definition point_is_zero :: "'n::zero point \<Rightarrow> bool" where
  "point_is_zero p \<longleftrightarrow> row p = 0 \<and> column p = 0"

definition point_add :: "'n::monoid_add point \<Rightarrow> 'n point \<Rightarrow> 'n point" where
  "point_add self other =
     (if row other = 0 then Point (row self) (column self + column other)
      else Point (row self + row other) (column other))"

instantiation point :: (monoid_add) plus
begin
definition plus_point :: "'a point \<Rightarrow> 'a point \<Rightarrow> 'a point" where "plus_point = point_add"
instance ..
end

lemmas plus_point_eq = plus_point_def point_add_def

definition point_sub :: "'n::cancel_comm_monoid_add point \<Rightarrow> 'n point \<Rightarrow> 'n point" where
  "point_sub self other =
     (if row self = row other then Point 0 (column self - column other)
      else Point (row self - row other) (column self))"

instantiation point :: (cancel_comm_monoid_add) minus
begin
definition minus_point :: "'a point \<Rightarrow> 'a point \<Rightarrow> 'a point" where "minus_point = point_sub"
instance ..
end

lemmas minus_point_eq = minus_point_def point_sub_def

text \<open>\<open>AddAssign\<close> is written out on its own in the code.\<close>

definition point_add_assign :: "'n::monoid_add point \<Rightarrow> 'n point \<Rightarrow> 'n point" where
  "point_add_assign self other =
     (if row other = 0 then Point (row self) (column self + column other)
      else let self = Point (row self + row other) (column self) in Point (row self) (column other))"

text \<open>The order: lexicographic, as on 32-bit targets; on 64-bit targets row and column are packed.\<close>

definition point_lex_cmp :: "'n::linorder point \<Rightarrow> 'n point \<Rightarrow> ordering" where
  "point_lex_cmp a b = then_with (cmp (row a) (row b)) (cmp (column a) (column b))"

instantiation point :: (linorder) linorder
begin

definition less_eq_point :: "'a point \<Rightarrow> 'a point \<Rightarrow> bool" where
  "less_eq_point a b \<longleftrightarrow> point_lex_cmp a b \<noteq> Greater"

definition less_point :: "'a point \<Rightarrow> 'a point \<Rightarrow> bool" where
  "less_point a b \<longleftrightarrow> point_lex_cmp a b = Less"

instance
  by standard (auto simp: less_eq_point_def less_point_def point_lex_cmp_def intro: point.expand)

end

definition pack :: "u32 \<Rightarrow> u32 \<Rightarrow> u64" where
  "pack r c = or (push_bit 32 (ucast r)) (ucast c)"

definition point_cmp :: "u32 point \<Rightarrow> u32 point \<Rightarrow> ordering" where
  "point_cmp self other = cmp (pack (row self) (column self)) (pack (row other) (column other))"

definition point_saturating_sub :: "'n::{linorder,cancel_comm_monoid_add} point \<Rightarrow> 'n point \<Rightarrow> 'n point" where
  "point_saturating_sub self other = (if self < other then 0 else self - other)"

subsection \<open>UTF-16 points\<close>

datatype 'n point_utf16 = PointUtf16 (row16: 'n) (column16: 'n)

definition point_utf16_MAX :: "u32 point_utf16" where
  "point_utf16_MAX = PointUtf16 (- 1) (- 1)"

definition point_utf16_zero :: "'n::zero point_utf16" where
  "point_utf16_zero = PointUtf16 0 0"

instantiation point_utf16 :: (zero) zero
begin
definition zero_point_utf16 :: "'a point_utf16" where "zero_point_utf16 = point_utf16_zero"
instance ..
end

lemma zero_point_utf16_eq: "0 = PointUtf16 0 0"
  by (simp add: zero_point_utf16_def point_utf16_zero_def)

definition point_utf16_is_zero :: "'n::zero point_utf16 \<Rightarrow> bool" where
  "point_utf16_is_zero p \<longleftrightarrow> row16 p = 0 \<and> column16 p = 0"

definition point_utf16_add :: "'n::monoid_add point_utf16 \<Rightarrow> 'n point_utf16 \<Rightarrow> 'n point_utf16" where
  "point_utf16_add self other =
     (if row16 other = 0 then PointUtf16 (row16 self) (column16 self + column16 other)
      else PointUtf16 (row16 self + row16 other) (column16 other))"

instantiation point_utf16 :: (monoid_add) plus
begin
definition plus_point_utf16 :: "'a point_utf16 \<Rightarrow> 'a point_utf16 \<Rightarrow> 'a point_utf16" where "plus_point_utf16 = point_utf16_add"
instance ..
end

lemmas plus_point_utf16_eq = plus_point_utf16_def point_utf16_add_def

definition point_utf16_sub :: "'n::cancel_comm_monoid_add point_utf16 \<Rightarrow> 'n point_utf16 \<Rightarrow> 'n point_utf16" where
  "point_utf16_sub self other =
     (if row16 self = row16 other then PointUtf16 0 (column16 self - column16 other)
      else PointUtf16 (row16 self - row16 other) (column16 self))"

instantiation point_utf16 :: (cancel_comm_monoid_add) minus
begin
definition minus_point_utf16 :: "'a point_utf16 \<Rightarrow> 'a point_utf16 \<Rightarrow> 'a point_utf16" where "minus_point_utf16 = point_utf16_sub"
instance ..
end

lemmas minus_point_utf16_eq = minus_point_utf16_def point_utf16_sub_def

definition point_utf16_add_assign :: "'n::monoid_add point_utf16 \<Rightarrow> 'n point_utf16 \<Rightarrow> 'n point_utf16" where
  "point_utf16_add_assign self other =
     (if row16 other = 0 then PointUtf16 (row16 self) (column16 self + column16 other)
      else let self = PointUtf16 (row16 self + row16 other) (column16 self) in PointUtf16 (row16 self) (column16 other))"

definition point_utf16_lex_cmp :: "'n::linorder point_utf16 \<Rightarrow> 'n point_utf16 \<Rightarrow> ordering" where
  "point_utf16_lex_cmp a b = then_with (cmp (row16 a) (row16 b)) (cmp (column16 a) (column16 b))"

instantiation point_utf16 :: (linorder) linorder
begin

definition less_eq_point_utf16 :: "'a point_utf16 \<Rightarrow> 'a point_utf16 \<Rightarrow> bool" where
  "less_eq_point_utf16 a b \<longleftrightarrow> point_utf16_lex_cmp a b \<noteq> Greater"

definition less_point_utf16 :: "'a point_utf16 \<Rightarrow> 'a point_utf16 \<Rightarrow> bool" where
  "less_point_utf16 a b \<longleftrightarrow> point_utf16_lex_cmp a b = Less"

instance
  by standard (auto simp: less_eq_point_utf16_def less_point_utf16_def point_utf16_lex_cmp_def intro: point_utf16.expand)

end

definition point_utf16_cmp :: "u32 point_utf16 \<Rightarrow> u32 point_utf16 \<Rightarrow> ordering" where
  "point_utf16_cmp self other = cmp (pack (row16 self) (column16 self)) (pack (row16 other) (column16 other))"

definition point_utf16_saturating_sub ::
    "'n::{linorder,cancel_comm_monoid_add} point_utf16 \<Rightarrow> 'n point_utf16 \<Rightarrow> 'n point_utf16" where
  "point_utf16_saturating_sub self other = (if self < other then 0 else self - other)"

subsection \<open>UTF-16 offsets and unclipped values\<close>

datatype 'n offset_utf16 = OffsetUtf16 (offset16: 'n)

definition offset_utf16_zero :: "'n::zero offset_utf16" where
  "offset_utf16_zero = OffsetUtf16 0"

instantiation offset_utf16 :: (zero) zero
begin
definition zero_offset_utf16 :: "'a offset_utf16" where "zero_offset_utf16 = offset_utf16_zero"
instance ..
end

lemma zero_offset_utf16_eq: "0 = OffsetUtf16 0"
  by (simp add: zero_offset_utf16_def offset_utf16_zero_def)

definition offset_utf16_add :: "'n::plus offset_utf16 \<Rightarrow> 'n offset_utf16 \<Rightarrow> 'n offset_utf16" where
  "offset_utf16_add self other = OffsetUtf16 (offset16 self + offset16 other)"

instantiation offset_utf16 :: (plus) plus
begin
definition plus_offset_utf16 :: "'a offset_utf16 \<Rightarrow> 'a offset_utf16 \<Rightarrow> 'a offset_utf16" where "plus_offset_utf16 = offset_utf16_add"
instance ..
end

lemmas plus_offset_utf16_eq = plus_offset_utf16_def offset_utf16_add_def

definition offset_utf16_sub :: "'n::minus offset_utf16 \<Rightarrow> 'n offset_utf16 \<Rightarrow> 'n offset_utf16" where
  "offset_utf16_sub self other = OffsetUtf16 (offset16 self - offset16 other)"

instantiation offset_utf16 :: (minus) minus
begin
definition minus_offset_utf16 :: "'a offset_utf16 \<Rightarrow> 'a offset_utf16 \<Rightarrow> 'a offset_utf16" where "minus_offset_utf16 = offset_utf16_sub"
instance ..
end

lemmas minus_offset_utf16_eq = minus_offset_utf16_def offset_utf16_sub_def

instantiation offset_utf16 :: (linorder) linorder
begin

definition less_eq_offset_utf16 :: "'a offset_utf16 \<Rightarrow> 'a offset_utf16 \<Rightarrow> bool" where
  "less_eq_offset_utf16 a b \<longleftrightarrow> offset16 a \<le> offset16 b"

definition less_offset_utf16 :: "'a offset_utf16 \<Rightarrow> 'a offset_utf16 \<Rightarrow> bool" where
  "less_offset_utf16 a b \<longleftrightarrow> offset16 a < offset16 b"

instance
  by standard (auto simp: less_eq_offset_utf16_def less_offset_utf16_def intro: offset_utf16.expand)

end

datatype 'a unclipped = Unclipped (clip_inner: 'a)

definition unclipped_from :: "'a \<Rightarrow> 'a unclipped" where
  "unclipped_from v = Unclipped v"

definition unclipped_add :: "'a::plus unclipped \<Rightarrow> 'a unclipped \<Rightarrow> 'a unclipped" where
  "unclipped_add self rhs = Unclipped (clip_inner self + clip_inner rhs)"

definition unclipped_sub :: "'a::minus unclipped \<Rightarrow> 'a unclipped \<Rightarrow> 'a unclipped" where
  "unclipped_sub self rhs = Unclipped (clip_inner self - clip_inner rhs)"

subsection \<open>Arithmetic\<close>

lemma point_add_assign_plus: "point_add_assign a b = a + b"
  by (simp add: point_add_assign_def plus_point_eq)

lemma point_utf16_add_assign_plus: "point_utf16_add_assign a b = a + b"
  by (simp add: point_utf16_add_assign_def plus_point_utf16_eq)

lemma point_zero_simps [simp]: "row 0 = 0" "column 0 = 0"
  by (simp_all add: zero_point_eq)

lemma point_utf16_zero_simps [simp]: "row16 0 = 0" "column16 0 = 0"
  by (simp_all add: zero_point_utf16_eq)

lemma point_plus_simps [simp]:
  "row (a + b) = (if row b = 0 then row a else row a + row b)"
  "column (a + b) = (if row b = 0 then column a + column b else column b)"
  by (simp_all add: plus_point_eq)

lemma point_utf16_plus_simps [simp]:
  "row16 (a + b) = (if row16 b = 0 then row16 a else row16 a + row16 b)"
  "column16 (a + b) = (if row16 b = 0 then column16 a + column16 b else column16 b)"
  by (simp_all add: plus_point_utf16_eq)

lemma offset_utf16_simps [simp]:
  "offset16 0 = 0" "offset16 (a + b) = offset16 a + offset16 b"
  by (simp_all add: zero_offset_utf16_eq plus_offset_utf16_eq)

text \<open>Where no sum of rows wraps to 0 the points are a monoid.\<close>

instance point :: (canonically_ordered_monoid_add) monoid_add
  by standard (auto simp: add.assoc intro!: point.expand)

instance point_utf16 :: (canonically_ordered_monoid_add) monoid_add
  by standard (auto simp: add.assoc intro!: point_utf16.expand)

instance offset_utf16 :: (monoid_add) monoid_add
  by standard (auto simp: add.assoc intro!: offset_utf16.expand)

lemma unat_pack: "unat (pack r c) = 2 ^ 32 * unat r + unat c"
proof -
  have "and (push_bit 32 (ucast r)) (ucast c) = (0 :: u64)"
    by (rule bit_word_eqI) (auto simp: bit_simps dest: bit_imp_le_length)
  then have "pack r c = push_bit 32 (ucast r) + ucast c"
    unfolding pack_def by (simp add: disjunctive_add bit_eq_iff bit_simps)
  moreover have "unat (push_bit 32 (ucast r :: u64)) = 2 ^ 32 * unat r"
    using unat_bounds(3) [of r] by (simp add: push_bit_eq_mult unat_word_ariths unsigned_ucast_eq take_bit_nat_eq_self)
  moreover have "unat (ucast c :: u64) = unat c"
    using unat_bounds(3) [of c] by (simp add: unsigned_ucast_eq take_bit_nat_eq_self)
  ultimately show ?thesis
    using unat_bounds(3) [of r] unat_bounds(3) [of c] by (simp add: unat_word_ariths)
qed

lemma pack_less: "pack r c < pack r' c' \<longleftrightarrow> r < r' \<or> r = r' \<and> c < c'"
  using unat_bounds(3) [of c] unat_bounds(3) [of c'] unat_bounds(3) [of r] unat_bounds(3) [of r']
  by (auto simp: word_less_nat_alt unat_pack word_unat_eq_iff)

lemma pack_eq: "pack r c = pack r' c' \<longleftrightarrow> r = r' \<and> c = c'"
proof
  assume "pack r c = pack r' c'"
  then have "\<not> pack r c < pack r' c'" "\<not> pack r' c' < pack r c" by simp_all
  then show "r = r' \<and> c = c'" unfolding pack_less by auto
qed simp

lemma pack_order: "cmp (pack r c) (pack r' c') = then_with (cmp r r') (cmp c c')"
  by (auto simp: cmp_def pack_less pack_eq)

text \<open>C27. The arithmetic of points at the width of the code, wrap-around included: subtraction undoes
  addition on both sides; the packed comparison is the lexicographic order of row and column; and
  \<open>AddAssign\<close> is \<open>Add\<close>. For UTF-16 points likewise.\<close>

theorem point_arithmetic:
  fixes p q :: "u32 point" and u v :: "u32 point_utf16"
  shows "q + (p - q) = p \<and> (q + p) - q = p \<and> point_add_assign q p = q + p \<and>
      (point_cmp p q = Less \<longleftrightarrow> p < q) \<and> (point_cmp p q = Equal \<longleftrightarrow> p = q) \<and>
      point_saturating_sub p q = (if point_cmp p q = Less then 0 else p - q) \<and>
      v + (u - v) = u \<and> (v + u) - v = u \<and> point_utf16_add_assign v u = v + u \<and>
      (point_utf16_cmp u v = Less \<longleftrightarrow> u < v) \<and> (point_utf16_cmp u v = Equal \<longleftrightarrow> u = v) \<and>
      point_utf16_saturating_sub u v = (if point_utf16_cmp u v = Less then 0 else u - v)"
proof -
  have "q + (p - q) = p" "(q + p) - q = p" by (auto simp: minus_point_eq intro!: point.expand)
  moreover have "v + (u - v) = u" "(v + u) - v = u" by (auto simp: minus_point_utf16_eq intro!: point_utf16.expand)
  moreover have c: "point_cmp p q = Less \<longleftrightarrow> p < q" "point_cmp p q = Equal \<longleftrightarrow> p = q"
    by (auto simp: point_cmp_def pack_order less_point_def point_lex_cmp_def intro: point.expand simp del: cmp_simps) (auto intro: point.expand)
  moreover have d: "point_utf16_cmp u v = Less \<longleftrightarrow> u < v" "point_utf16_cmp u v = Equal \<longleftrightarrow> u = v"
    by (auto simp: point_utf16_cmp_def pack_order less_point_utf16_def point_utf16_lex_cmp_def intro: point_utf16.expand simp del: cmp_simps)
      (auto intro: point_utf16.expand)
  ultimately show ?thesis
    by (simp add: point_add_assign_plus point_utf16_add_assign_plus point_saturating_sub_def point_utf16_saturating_sub_def)
qed

end
