(* ===== verification/TextSummary.thy ===== *)
theory TextSummary
  imports Points
begin

text \<open>
  Summaries of text (\<open>TextSummary\<close> in \<open>crates/rope/src/rope.rs\<close>): lengths in bytes, characters and
  UTF-16 code units, the position after the last byte, and the first, last and longest line. The
  summary of a text is computed by a pass over its characters, and summaries are added when texts
  are concatenated; the addition is shown to be exact. A text is the list of its characters, and
  the definitions are generic in the integers: \<open>'u\<close> is \<open>usize\<close>, \<open>'n\<close> is \<open>u32\<close>.
\<close>

subsection \<open>Characters\<close>

text \<open>A \<open>char\<close> is its scalar value.\<close>

type_synonym rust_char = nat

definition scalar_value :: "rust_char \<Rightarrow> bool" where
  "scalar_value c \<longleftrightarrow> c < 0xD800 \<or> 0xE000 \<le> c \<and> c < 0x110000"

definition newline_char :: rust_char where
  "newline_char = 10"

definition len_utf8 :: "rust_char \<Rightarrow> nat" where
  "len_utf8 c = (if c < 0x80 then 1 else if c < 0x800 then 2 else if c < 0x10000 then 3 else 4)"

definition len_utf16 :: "rust_char \<Rightarrow> nat" where
  "len_utf16 c = (if c < 0x10000 then 1 else 2)"

definition str_len :: "rust_char list \<Rightarrow> nat" where
  "str_len cs = sum_list (map len_utf8 cs)"

subsection \<open>Summaries\<close>

record ('u, 'n) text_summary =
  ts_len :: 'u
  ts_chars :: 'u
  ts_len_utf16 :: "'u offset_utf16"
  ts_lines :: "'n point"
  ts_first_line_chars :: 'n
  ts_last_line_chars :: 'n
  ts_last_line_len_utf16 :: 'n
  ts_longest_row :: 'n
  ts_longest_row_chars :: 'n

definition ts_zero :: "('u::zero, 'n::zero) text_summary" where
  "ts_zero = \<lparr>ts_len = 0, ts_chars = 0, ts_len_utf16 = 0, ts_lines = 0, ts_first_line_chars = 0,
     ts_last_line_chars = 0, ts_last_line_len_utf16 = 0, ts_longest_row = 0, ts_longest_row_chars = 0\<rparr>"

definition lines_utf16 :: "('u, 'n) text_summary \<Rightarrow> 'n point_utf16" where
  "lines_utf16 self = PointUtf16 (row (ts_lines self)) (ts_last_line_len_utf16 self)"

definition ts_newline :: "('u::{zero,one}, 'n::{zero,one}) text_summary" where
  "ts_newline = \<lparr>ts_len = 1, ts_chars = 1, ts_len_utf16 = OffsetUtf16 1, ts_lines = Point 1 0,
     ts_first_line_chars = 0, ts_last_line_chars = 0, ts_last_line_len_utf16 = 0,
     ts_longest_row = 0, ts_longest_row_chars = 0\<rparr>"

definition ts_add_newline :: "('u::semiring_1, 'n::semiring_1) text_summary \<Rightarrow> ('u, 'n) text_summary" where
  "ts_add_newline self =
     self\<lparr>ts_len := ts_len self + 1,
          ts_len_utf16 := ts_len_utf16 self + OffsetUtf16 (offset16 (ts_len_utf16 self) + 1),
          ts_last_line_chars := 0,
          ts_last_line_len_utf16 := 0,
          ts_lines := ts_lines self + Point 1 0\<rparr>"

text \<open>One turn of the loop of \<open>TextSummary::from\<close>; the local variables are the fields of a summary.\<close>

definition summary_step ::
    "('u::semiring_1, 'n::{semiring_1,linorder}) text_summary \<Rightarrow> rust_char \<Rightarrow> ('u, 'n) text_summary" where
  "summary_step st c =
     (let st = st\<lparr>ts_chars := ts_chars st + 1,
                  ts_len_utf16 := OffsetUtf16 (offset16 (ts_len_utf16 st) + of_nat (len_utf16 c))\<rparr>;
          st = (if c = newline_char
                then st\<lparr>ts_lines := ts_lines st + Point 1 0, ts_last_line_len_utf16 := 0, ts_last_line_chars := 0\<rparr>
                else st\<lparr>ts_lines := Point (row (ts_lines st)) (column (ts_lines st) + of_nat (len_utf8 c)),
                        ts_last_line_len_utf16 := ts_last_line_len_utf16 st + of_nat (len_utf16 c),
                        ts_last_line_chars := ts_last_line_chars st + 1\<rparr>);
          st = (if row (ts_lines st) = 0 then st\<lparr>ts_first_line_chars := ts_last_line_chars st\<rparr> else st)
      in if ts_longest_row_chars st < ts_last_line_chars st
         then st\<lparr>ts_longest_row := row (ts_lines st), ts_longest_row_chars := ts_last_line_chars st\<rparr> else st)"

definition ts_from :: "rust_char list \<Rightarrow> ('u::semiring_1, 'n::{semiring_1,linorder}) text_summary" where
  "ts_from cs = (foldl summary_step ts_zero cs)\<lparr>ts_len := of_nat (str_len cs)\<rparr>"

text \<open>\<open>AddAssign\<close>: the statements in the order of the code.\<close>

definition ts_add ::
    "('u::plus, 'n::{monoid_add,linorder}) text_summary \<Rightarrow> ('u, 'n) text_summary \<Rightarrow> ('u, 'n) text_summary" where
  "ts_add self other =
     (let joined_chars = ts_last_line_chars self + ts_first_line_chars other;
          self = (if ts_longest_row_chars self < joined_chars
                  then self\<lparr>ts_longest_row := row (ts_lines self), ts_longest_row_chars := joined_chars\<rparr> else self);
          self = (if ts_longest_row_chars self < ts_longest_row_chars other
                  then self\<lparr>ts_longest_row := row (ts_lines self) + ts_longest_row other,
                            ts_longest_row_chars := ts_longest_row_chars other\<rparr> else self);
          self = (if row (ts_lines self) = 0
                  then self\<lparr>ts_first_line_chars := ts_first_line_chars self + ts_first_line_chars other\<rparr> else self);
          self = (if row (ts_lines other) = 0
                  then self\<lparr>ts_last_line_chars := ts_last_line_chars self + ts_first_line_chars other,
                            ts_last_line_len_utf16 := ts_last_line_len_utf16 self + ts_last_line_len_utf16 other\<rparr>
                  else self\<lparr>ts_last_line_chars := ts_last_line_chars other,
                            ts_last_line_len_utf16 := ts_last_line_len_utf16 other\<rparr>)
      in self\<lparr>ts_chars := ts_chars self + ts_chars other, ts_len := ts_len self + ts_len other,
             ts_len_utf16 := ts_len_utf16 self + ts_len_utf16 other,
             ts_lines := ts_lines self + ts_lines other\<rparr>)"

subsection \<open>The fields of a sum and of a step\<close>

lemma ts_add_simps [simp]:
  "ts_len (ts_add a b) = ts_len a + ts_len b"
  "ts_chars (ts_add a b) = ts_chars a + ts_chars b"
  "ts_len_utf16 (ts_add a b) = ts_len_utf16 a + ts_len_utf16 b"
  "ts_lines (ts_add a b) = ts_lines a + ts_lines b"
  "ts_first_line_chars (ts_add a b) =
     (if row (ts_lines a) = 0 then ts_first_line_chars a + ts_first_line_chars b else ts_first_line_chars a)"
  "ts_last_line_chars (ts_add a b) =
     (if row (ts_lines b) = 0 then ts_last_line_chars a + ts_first_line_chars b else ts_last_line_chars b)"
  "ts_last_line_len_utf16 (ts_add a b) =
     (if row (ts_lines b) = 0 then ts_last_line_len_utf16 a + ts_last_line_len_utf16 b else ts_last_line_len_utf16 b)"
  by (auto simp: ts_add_def Let_def)

lemma ts_add_longest:
  "(ts_longest_row (ts_add a b), ts_longest_row_chars (ts_add a b)) =
     (let j = ts_last_line_chars a + ts_first_line_chars b;
          (r, m) = (if ts_longest_row_chars a < j then (row (ts_lines a), j)
                    else (ts_longest_row a, ts_longest_row_chars a))
      in if m < ts_longest_row_chars b then (row (ts_lines a) + ts_longest_row b, ts_longest_row_chars b) else (r, m))"
  by (auto simp: ts_add_def Let_def)

lemma summary_step_simps [simp]:
  "ts_chars (summary_step s c) = ts_chars s + 1"
  "ts_len (summary_step s c) = ts_len s"
  "ts_len_utf16 (summary_step s c) = ts_len_utf16 s + OffsetUtf16 (of_nat (len_utf16 c))"
  "ts_lines (summary_step s c) =
     (if c = newline_char then ts_lines s + Point 1 0
      else Point (row (ts_lines s)) (column (ts_lines s) + of_nat (len_utf8 c)))"
  "ts_last_line_chars (summary_step s c) = (if c = newline_char then 0 else ts_last_line_chars s + 1)"
  "ts_last_line_len_utf16 (summary_step s c) =
     (if c = newline_char then 0 else ts_last_line_len_utf16 s + of_nat (len_utf16 c))"
  "ts_first_line_chars (summary_step s c) =
     (if row (ts_lines (summary_step s c)) = 0 then ts_last_line_chars (summary_step s c) else ts_first_line_chars s)"
  by (auto simp: summary_step_def Let_def plus_offset_utf16_eq)

lemma summary_step_longest:
  "(ts_longest_row (summary_step s c), ts_longest_row_chars (summary_step s c)) =
     (if ts_longest_row_chars s < ts_last_line_chars (summary_step s c)
      then (row (ts_lines (summary_step s c)), ts_last_line_chars (summary_step s c))
      else (ts_longest_row s, ts_longest_row_chars s))"
  by (auto simp: summary_step_def Let_def)

text \<open>What holds of the summary of a text: the longest row is the first of the longest lines.\<close>

definition ts_ok :: "('u, nat) text_summary \<Rightarrow> bool" where
  "ts_ok s \<longleftrightarrow> ts_first_line_chars s \<le> ts_longest_row_chars s \<and> ts_last_line_chars s \<le> ts_longest_row_chars s \<and>
     ts_longest_row s \<le> row (ts_lines s) \<and>
     (ts_longest_row s = 0 \<longrightarrow> ts_longest_row_chars s = ts_first_line_chars s) \<and>
     (row (ts_lines s) = 0 \<longrightarrow> ts_first_line_chars s = ts_last_line_chars s)"

lemma ts_zero_ok: "ts_ok ts_zero"
  by (simp add: ts_ok_def ts_zero_def)

lemma summary_step_ok: "ts_ok s \<Longrightarrow> ts_ok (summary_step s c)"
  using summary_step_longest [of s c] by (auto simp: ts_ok_def split: if_splits)

text \<open>The longest row of a sum, and of a step after it, in natural numbers.\<close>

lemma longest_newline [simp]:
  fixes s :: "('u::semiring_1, nat) text_summary"
  shows "ts_longest_row (summary_step s newline_char) = ts_longest_row s"
    and "ts_longest_row_chars (summary_step s newline_char) = ts_longest_row_chars s"
  using summary_step_longest [of s newline_char] by simp_all

lemma summary_step_add_longest:
  fixes a b :: "(nat, nat) text_summary"
  assumes "ts_ok a" and "ts_ok b"
  shows "(ts_longest_row (summary_step (ts_add a b) c), ts_longest_row_chars (summary_step (ts_add a b) c)) =
      (ts_longest_row (ts_add a (summary_step b c)), ts_longest_row_chars (ts_add a (summary_step b c)))"
proof (cases "c = newline_char")
  case True
  then have "ts_first_line_chars (summary_step b c) = ts_first_line_chars b" by simp
  then show ?thesis unfolding True longest_newline ts_add_longest by simp
next
  case c: False
  note A = ts_add_longest [of a b] and B = summary_step_longest [of b c]
  have m: "ts_first_line_chars a \<le> ts_longest_row_chars a" "ts_last_line_chars a \<le> ts_longest_row_chars a"
    "ts_first_line_chars b \<le> ts_longest_row_chars b" "ts_last_line_chars b \<le> ts_longest_row_chars b"
    using assms by (simp_all add: ts_ok_def)
  show ?thesis
  proof (cases "row (ts_lines b) = 0")
    case True
    then have "ts_first_line_chars b = ts_last_line_chars b" "ts_longest_row b = 0"
      "ts_longest_row_chars b = ts_last_line_chars b"
      using assms(2) by (simp_all add: ts_ok_def)
    then show ?thesis
      using A B m True c unfolding ts_add_longest [of a "summary_step b c"] summary_step_longest [of "ts_add a b" c]
      by (simp add: Let_def split: if_splits)
  next
    case False
    then show ?thesis
      using A B m c unfolding ts_add_longest [of a "summary_step b c"] summary_step_longest [of "ts_add a b" c]
      by (simp add: Let_def split: if_splits)
  qed
qed

lemma summary_step_add:
  fixes a b :: "(nat, nat) text_summary"
  assumes "ts_ok a" and "ts_ok b"
  shows "summary_step (ts_add a b) c = ts_add a (summary_step b c)"
proof (rule text_summary.equality)
  note l = summary_step_add_longest [OF assms, of c]
  show "ts_longest_row (summary_step (ts_add a b) c) = ts_longest_row (ts_add a (summary_step b c))"
    and "ts_longest_row_chars (summary_step (ts_add a b) c) = ts_longest_row_chars (ts_add a (summary_step b c))"
    using l by simp_all
qed (use assms in \<open>auto simp: ts_ok_def intro!: point.expand offset_utf16.expand\<close>)

subsection \<open>Summaries of concatenated texts\<close>

definition ts_scan :: "rust_char list \<Rightarrow> ('u::semiring_1, 'n::{semiring_1,linorder}) text_summary" where
  "ts_scan cs = foldl summary_step ts_zero cs"

lemma ts_scan_simps: "ts_scan [] = ts_zero" "ts_scan (cs @ [c]) = summary_step (ts_scan cs) c"
  by (simp_all add: ts_scan_def)

lemma ts_scan_ok: "ts_ok (ts_scan cs)"
  by (induction cs rule: rev_induct) (simp_all add: ts_scan_simps ts_zero_ok summary_step_ok)

lemma ts_add_zero [simp]: "ts_ok a \<Longrightarrow> ts_add a ts_zero = a" for a :: "(nat, nat) text_summary"
  by (auto simp: ts_add_def ts_zero_def Let_def ts_ok_def intro!: text_summary.equality)

lemma ts_scan_append: "(ts_scan (s @ t) :: (nat, nat) text_summary) = ts_add (ts_scan s) (ts_scan t)"
proof (induction t rule: rev_induct)
  case (snoc c t)
  then show ?case
    by (simp add: ts_scan_simps(2) summary_step_add [OF ts_scan_ok ts_scan_ok] flip: append_assoc)
qed (simp add: ts_scan_simps ts_scan_ok)

lemma str_len_append [simp]: "str_len (s @ t) = str_len s + str_len t"
  by (simp add: str_len_def)

lemma ts_from_scan: "ts_from cs = (ts_scan cs)\<lparr>ts_len := of_nat (str_len cs)\<rparr>"
  by (simp add: ts_from_def ts_scan_def)

lemma ts_add_len: "ts_add (a\<lparr>ts_len := k\<rparr>) (b\<lparr>ts_len := l\<rparr>) = (ts_add a b)\<lparr>ts_len := k + l\<rparr>"
  by (simp add: ts_add_def Let_def)

lemma ts_from_append: "(ts_from (s @ t) :: (nat, nat) text_summary) = ts_add (ts_from s) (ts_from t)"
  by (simp add: ts_from_scan ts_scan_append ts_add_len)

subsection \<open>The summaries of machine integers\<close>

text \<open>The image of a summary of natural numbers.\<close>

definition ts_cast :: "(nat, nat) text_summary \<Rightarrow> ('u::semiring_1, 'n::semiring_1) text_summary" where
  "ts_cast s = \<lparr>ts_len = of_nat (ts_len s), ts_chars = of_nat (ts_chars s),
     ts_len_utf16 = OffsetUtf16 (of_nat (offset16 (ts_len_utf16 s))),
     ts_lines = Point (of_nat (row (ts_lines s))) (of_nat (column (ts_lines s))),
     ts_first_line_chars = of_nat (ts_first_line_chars s), ts_last_line_chars = of_nat (ts_last_line_chars s),
     ts_last_line_len_utf16 = of_nat (ts_last_line_len_utf16 s),
     ts_longest_row = of_nat (ts_longest_row s), ts_longest_row_chars = of_nat (ts_longest_row_chars s)\<rparr>"

text \<open>The fields of the summary of a text are at most its length in bytes.\<close>

definition ts_bounded :: "nat \<Rightarrow> ('u, nat) text_summary \<Rightarrow> bool" where
  "ts_bounded n s \<longleftrightarrow> row (ts_lines s) \<le> n \<and> ts_last_line_chars s \<le> n \<and> ts_first_line_chars s \<le> n \<and>
     ts_longest_row_chars s \<le> n"

lemma len_utf8_pos: "0 < len_utf8 c"
  by (simp add: len_utf8_def)

lemma ts_scan_bounded: "ts_bounded (str_len cs) (ts_scan cs :: (nat, nat) text_summary)"
proof (induction cs rule: rev_induct)
  case (snoc c cs)
  have "0 < len_utf8 c" by (rule len_utf8_pos)
  moreover have "ts_longest_row_chars (summary_step t c) \<le> max (ts_longest_row_chars t) (ts_last_line_chars t + 1)"
    for t :: "(nat, nat) text_summary"
    using summary_step_longest [of t c] by (cases "c = newline_char") (auto split: if_splits)
  note this [of "ts_scan cs"]
  moreover have "str_len (cs @ [c]) = str_len cs + len_utf8 c" by (simp add: str_len_def)
  ultimately show ?case
    using snoc unfolding ts_scan_simps(2) by (auto simp: ts_bounded_def)
qed (simp add: ts_bounded_def ts_scan_def ts_zero_def)

lemma of_nat_less_word:
  "a < 2 ^ LENGTH('a) \<Longrightarrow> b < 2 ^ LENGTH('a) \<Longrightarrow> (of_nat a :: 'a::len word) < of_nat b \<longleftrightarrow> a < b"
  by (simp add: word_less_nat_alt unat_of_nat take_bit_nat_eq_self)

lemma of_nat_zero_word: "a < 2 ^ LENGTH('a) \<Longrightarrow> (of_nat a :: 'a::len word) = 0 \<longleftrightarrow> a = 0"
  by (simp add: word_unat_eq_iff unat_of_nat take_bit_nat_eq_self)

lemma ts_cast_simps [simp]:
  "ts_len (ts_cast s) = of_nat (ts_len s)" "ts_chars (ts_cast s) = of_nat (ts_chars s)"
  "ts_len_utf16 (ts_cast s) = OffsetUtf16 (of_nat (offset16 (ts_len_utf16 s)))"
  "ts_lines (ts_cast s) = Point (of_nat (row (ts_lines s))) (of_nat (column (ts_lines s)))"
  "ts_first_line_chars (ts_cast s) = of_nat (ts_first_line_chars s)"
  "ts_last_line_chars (ts_cast s) = of_nat (ts_last_line_chars s)"
  "ts_last_line_len_utf16 (ts_cast s) = of_nat (ts_last_line_len_utf16 s)"
  "ts_longest_row (ts_cast s) = of_nat (ts_longest_row s)"
  "ts_longest_row_chars (ts_cast s) = of_nat (ts_longest_row_chars s)"
  by (simp_all add: ts_cast_def)

lemma summary_step_cast:
  fixes s :: "(nat, nat) text_summary"
  assumes "ts_bounded n s" and "n + 1 < 2 ^ 32"
  shows "summary_step (ts_cast s :: (u64, u32) text_summary) c = ts_cast (summary_step s c)"
proof (rule text_summary.equality)
  let ?t = "ts_cast s :: (u64, u32) text_summary"
  have b: "row (ts_lines s) + 1 < 2 ^ LENGTH(32)" "ts_last_line_chars s + 1 < 2 ^ LENGTH(32)"
    "ts_longest_row_chars s < 2 ^ LENGTH(32)" using assms by (simp_all add: ts_bounded_def)
  have l: "ts_lines (summary_step ?t c) = ts_lines (ts_cast (summary_step s c) :: (u64, u32) text_summary)"
    by (auto intro!: point.expand)
  have m: "ts_last_line_chars (summary_step ?t c) = of_nat (ts_last_line_chars (summary_step s c))" by simp
  have r0: "row (ts_lines (summary_step ?t c)) = 0 \<longleftrightarrow> row (ts_lines (summary_step s c)) = 0"
    unfolding l using of_nat_zero_word [of "row (ts_lines (summary_step s c))", where 'a = 32] b(1) by simp
  have lt: "(of_nat (ts_longest_row_chars s) :: u32) < of_nat (ts_last_line_chars (summary_step s c)) \<longleftrightarrow>
      ts_longest_row_chars s < ts_last_line_chars (summary_step s c)"
    by (rule of_nat_less_word) (use b(2,3) in auto)
  show "ts_lines (summary_step ?t c) = ts_lines (ts_cast (summary_step s c) :: (u64, u32) text_summary)" by (rule l)
  show "ts_first_line_chars (summary_step ?t c) = ts_first_line_chars (ts_cast (summary_step s c) :: (u64, u32) text_summary)"
    using r0 by simp
  have "(ts_longest_row (summary_step ?t c), ts_longest_row_chars (summary_step ?t c)) =
      (ts_longest_row (ts_cast (summary_step s c)), ts_longest_row_chars (ts_cast (summary_step s c)))"
  proof (cases "ts_longest_row_chars s < ts_last_line_chars (summary_step s c)")
    case True
    then have "ts_longest_row (summary_step s c) = row (ts_lines (summary_step s c))"
      "ts_longest_row_chars (summary_step s c) = ts_last_line_chars (summary_step s c)"
      using summary_step_longest [of s c] by (simp_all only: if_True prod.inject)
    then show ?thesis unfolding summary_step_longest [of ?t] l m ts_cast_simps lt using True by (simp only: if_True point.sel)
  next
    case False
    then have "ts_longest_row (summary_step s c) = ts_longest_row s" "ts_longest_row_chars (summary_step s c) = ts_longest_row_chars s"
      using summary_step_longest [of s c] by (simp_all only: if_False prod.inject)
    then show ?thesis unfolding summary_step_longest [of ?t] l m ts_cast_simps lt using False by (simp only: if_False)
  qed
  then show "ts_longest_row (summary_step ?t c) = ts_longest_row (ts_cast (summary_step s c) :: (u64, u32) text_summary)"
    and "ts_longest_row_chars (summary_step ?t c) = ts_longest_row_chars (ts_cast (summary_step s c) :: (u64, u32) text_summary)"
    by simp_all
qed (simp_all add: plus_offset_utf16_eq)

lemma ts_scan_cast:
  assumes "str_len cs < 2 ^ 32"
  shows "(ts_scan cs :: (u64, u32) text_summary) = ts_cast (ts_scan cs)"
  using assms
proof (induction cs rule: rev_induct)
  case (snoc c cs)
  have "0 < len_utf8 c" by (rule len_utf8_pos)
  then have l: "str_len cs + 1 < 2 ^ 32" using snoc.prems by (simp add: str_len_def)
  then have "(ts_scan cs :: (u64, u32) text_summary) = ts_cast (ts_scan cs)" by (intro snoc.IH) simp
  then show ?case
    using summary_step_cast [OF ts_scan_bounded l] by (simp only: ts_scan_simps)
qed (simp add: ts_scan_simps ts_zero_def ts_cast_def zero_point_eq zero_offset_utf16_eq)

lemma ts_from_cast:
  assumes "str_len cs < 2 ^ 32"
  shows "(ts_from cs :: (u64, u32) text_summary) = ts_cast (ts_from cs)"
  unfolding ts_from_scan ts_scan_cast [OF assms] by (simp add: ts_cast_def)

lemma ts_cast_add:
  fixes a b :: "(nat, nat) text_summary"
  assumes "ts_bounded m a" and "ts_bounded n b" and "m + n < 2 ^ 32"
  shows "ts_add (ts_cast a :: (u64, u32) text_summary) (ts_cast b) = ts_cast (ts_add a b)"
proof (rule text_summary.equality)
  let ?a = "ts_cast a :: (u64, u32) text_summary" and ?b = "ts_cast b :: (u64, u32) text_summary"
  have w: "row (ts_lines a) < 2 ^ LENGTH(32)" "row (ts_lines b) < 2 ^ LENGTH(32)"
    "ts_last_line_chars a + ts_first_line_chars b < 2 ^ LENGTH(32)" "ts_longest_row_chars a < 2 ^ LENGTH(32)"
    "ts_longest_row_chars b < 2 ^ LENGTH(32)"
    using assms by (simp_all add: ts_bounded_def)
  note z = of_nat_zero_word [OF w(1)] of_nat_zero_word [OF w(2)]
  have j: "ts_last_line_chars ?a + ts_first_line_chars ?b = of_nat (ts_last_line_chars a + ts_first_line_chars b)" by simp
  note lt = of_nat_less_word [OF w(4,3)] of_nat_less_word [OF w(4,5)] of_nat_less_word [OF w(3,5)]
  have "(ts_longest_row (ts_add ?a ?b), ts_longest_row_chars (ts_add ?a ?b)) =
      (ts_longest_row (ts_cast (ts_add a b)), ts_longest_row_chars (ts_cast (ts_add a b)))"
  proof (cases "ts_longest_row_chars a < ts_last_line_chars a + ts_first_line_chars b")
    case True
    then show ?thesis
      using ts_add_longest [of a b] unfolding ts_add_longest [of ?a ?b] j Let_def ts_cast_simps point.sel lt
      by (cases "ts_last_line_chars a + ts_first_line_chars b < ts_longest_row_chars b")
        (simp_all only: lt if_True if_False prod.case prod.inject flip: of_nat_add)
  next
    case False
    then show ?thesis
      using ts_add_longest [of a b] unfolding ts_add_longest [of ?a ?b] j Let_def ts_cast_simps point.sel lt
      by (cases "ts_longest_row_chars a < ts_longest_row_chars b")
        (simp_all only: lt if_True if_False prod.case prod.inject flip: of_nat_add)
  qed
  then show "ts_longest_row (ts_add ?a ?b) = ts_longest_row (ts_cast (ts_add a b) :: (u64, u32) text_summary)"
    and "ts_longest_row_chars (ts_add ?a ?b) = ts_longest_row_chars (ts_cast (ts_add a b) :: (u64, u32) text_summary)"
    by simp_all
qed (use assms in \<open>auto simp: of_nat_zero_word ts_bounded_def plus_offset_utf16_eq intro!: point.expand\<close>)

text \<open>C23. The summary of a concatenation is the sum of the summaries, at the widths of the code, for
  texts of less than \<open>2 ^ 32\<close> bytes: appending to a rope never has to look at the text again, the
  position and length of the longest line included.\<close>

theorem text_summary_concat:
  assumes "str_len (s @ t) < 2 ^ 32"
  shows "(ts_from (s @ t) :: (u64, u32) text_summary) = ts_add (ts_from s) (ts_from t) \<and>
    ts_add (ts_from s) (ts_from [newline_char] :: (u64, u32) text_summary) = ts_add (ts_from s) ts_newline"
proof -
  have b: "ts_bounded (str_len u) (ts_from u :: (nat, nat) text_summary)" for u
    using ts_scan_bounded [of u] by (simp add: ts_from_scan ts_bounded_def)
  have "(ts_from (s @ t) :: (u64, u32) text_summary) = ts_cast (ts_add (ts_from s) (ts_from t))"
    using ts_from_cast [OF assms] by (simp only: ts_from_append)
  also have "\<dots> = ts_add (ts_cast (ts_from s)) (ts_cast (ts_from t))"
    using ts_cast_add [OF b b] assms by simp
  also have "\<dots> = ts_add (ts_from s) (ts_from t)"
    using assms by (simp add: ts_from_cast)
  finally show ?thesis
    by (simp add: ts_from_def summary_step_def ts_zero_def ts_newline_def newline_char_def len_utf16_def
        len_utf8_def str_len_def Let_def zero_point_eq zero_offset_utf16_eq plus_point_eq)
qed

lemma text_summary_concat_witness:
  "(ts_from ([97, 10] @ [233, 128512]) :: (u64, u32) text_summary) = ts_add (ts_from [97, 10]) (ts_from [233, 128512])"
  using text_summary_concat [of "[97, 10]" "[233, 128512]"] by (simp add: str_len_def len_utf8_def)

lemma scan_utf16_pos: "offset16 (ts_len_utf16 (ts_scan cs :: (nat, nat) text_summary)) = sum_list (map len_utf16 cs)"
  by (induction cs rule: rev_induct) (simp_all add: ts_scan_simps ts_zero_def zero_offset_utf16_eq plus_offset_utf16_eq)

text \<open>C28. \<open>add_newline\<close> does not keep the summary of the text with a newline appended, for any text of less than
  \<open>2 ^ 32 - 1\<close> bytes: it does not count the newline as a character, and it adds the UTF-16 length to itself, so that
  this is right for the empty text only. The length in bytes, the lines, the last line, the first line and the
  longest row are right.\<close>

theorem add_newline_wrong:
  assumes "str_len cs + 1 < 2 ^ 32"
  shows "let s = ts_add_newline (ts_from cs) :: (u64, u32) text_summary; t = ts_from (cs @ [newline_char])
    in ts_chars s \<noteq> ts_chars t \<and> (ts_len_utf16 s = ts_len_utf16 t \<longleftrightarrow> cs = []) \<and>
      s\<lparr>ts_chars := ts_chars t, ts_len_utf16 := ts_len_utf16 t\<rparr> = t"
proof -
  let ?s = "ts_scan cs :: (u64, u32) text_summary" and ?a = "ts_add_newline (ts_from cs) :: (u64, u32) text_summary"
    and ?t = "ts_from (cs @ [newline_char]) :: (u64, u32) text_summary" and ?n = "sum_list (map len_utf16 cs)"
  have l: "str_len cs < 2 ^ 32" using assms by simp
  have b: "ts_bounded (str_len cs) (ts_scan cs :: (nat, nat) text_summary)" by (rule ts_scan_bounded)
  have c: "(ts_from cs :: (u64, u32) text_summary) = ts_cast (ts_from cs)" by (rule ts_from_cast [OF l])
  have u: "offset16 (ts_len_utf16 ?s) = of_nat ?n" using arg_cong [OF c, of "\<lambda>s. offset16 (ts_len_utf16 s)"]
    by (simp add: ts_from_scan ts_cast_def scan_utf16_pos)
  have r: "row (ts_lines ?s) = of_nat (row (ts_lines (ts_scan cs :: (nat, nat) text_summary)))"
    using arg_cong [OF c, of "\<lambda>s. row (ts_lines s)"] by (simp add: ts_from_scan ts_cast_def)
  have k: "row (ts_lines (ts_scan cs :: (nat, nat) text_summary)) + 1 < 2 ^ LENGTH(32)"
    using b assms by (simp add: ts_bounded_def)
  have z: "row (ts_lines ?s) + 1 \<noteq> 0"
    using of_nat_zero_word [OF k] r by (simp add: add.commute)
  have n: "length cs \<le> ?n \<and> ?n \<le> str_len cs"
    by (induction cs) (auto simp: str_len_def len_utf16_def len_utf8_def)
  have "?n = 0 \<Longrightarrow> cs = []" using n by (metis le_zero_eq length_0_conv)
  then have w: "(of_nat ?n :: u64) = 0 \<longleftrightarrow> cs = []"
    using of_nat_zero_word [of ?n, where 'a = 64] n l by auto
  have f: "?t = (summary_step ?s newline_char)\<lparr>ts_len := of_nat (str_len cs) + 1\<rparr>"
    by (simp add: ts_from_scan ts_scan_simps(2) str_len_def newline_char_def len_utf8_def)
  have g: "ts_longest_row (summary_step ?s newline_char) = ts_longest_row ?s"
    "ts_longest_row_chars (summary_step ?s newline_char) = ts_longest_row_chars ?s"
    using summary_step_longest [of ?s newline_char] by simp_all
  have t: "?a = (ts_add_newline ?s)\<lparr>ts_len := of_nat (str_len cs) + 1\<rparr>"
    by (simp add: ts_from_scan ts_add_newline_def)
  show ?thesis unfolding Let_def
  proof (intro conjI)
    show "ts_chars ?a \<noteq> ts_chars ?t"
      unfolding f t by (simp add: ts_add_newline_def)
    have "ts_len_utf16 ?a = OffsetUtf16 (of_nat ?n + of_nat ?n + 1)"
      unfolding t by (simp add: ts_add_newline_def plus_offset_utf16_eq u ac_simps)
    moreover have "ts_len_utf16 ?t = OffsetUtf16 (of_nat ?n + 1)"
      unfolding f using u by (simp add: plus_offset_utf16_eq newline_char_def len_utf16_def)
    ultimately show "ts_len_utf16 ?a = ts_len_utf16 ?t \<longleftrightarrow> cs = []" using w by simp
    show "?a\<lparr>ts_chars := ts_chars ?t, ts_len_utf16 := ts_len_utf16 ?t\<rparr> = ?t"
      unfolding f t
      by (rule text_summary.equality) (use z in \<open>simp_all add: g ts_add_newline_def plus_point_eq\<close>)
  qed
qed

lemma add_newline_wrong_witness:
  "ts_len_utf16 (ts_add_newline (ts_from [97]) :: (u64, u32) text_summary) \<noteq> ts_len_utf16 (ts_from ([97] @ [newline_char]) :: (u64, u32) text_summary)"
  using add_newline_wrong [of "[97]"] by (simp add: str_len_def len_utf8_def Let_def)

end
