(* ===== verification/Chunk.thy ===== *)
theory Chunk
  imports Bits TextSummary
begin

text \<open>
  Chunks of a rope (\<open>crates/rope/src/chunk.rs\<close>): at most 128 bytes of text with four bitmaps of it,
  and the slices borrowed from them. A \<open>str\<close> is the list of its bytes; the operations of the standard
  library on it look at the bytes, as they do in Rust. Offsets and rows are natural numbers: on the
  128 bytes of a chunk every sum and count of the code stays below 256. Where the code narrows an
  offset it is given (\<open>offset as u32\<close>) the model does. A panic is \<open>None\<close>; \<open>debug_panic\<close> and
  the logging of \<open>assert_char_boundary\<close> do nothing in a release build.
\<close>

subsection \<open>Text as bytes\<close>

type_synonym str = "u8 list"

definition is_utf8_char_boundary :: "u8 \<Rightarrow> bool" where
  "is_utf8_char_boundary b \<longleftrightarrow> - 0x40 \<le> sint b"

definition str_is_char_boundary :: "str \<Rightarrow> nat \<Rightarrow> bool" where
  "str_is_char_boundary s i \<longleftrightarrow> i = 0 \<or> (if length s \<le> i then i = length s else is_utf8_char_boundary (s ! i))"

definition str_split_at :: "str \<Rightarrow> nat \<Rightarrow> (str \<times> str) option" where
  "str_split_at s mid = (if str_is_char_boundary s mid then Some (take mid s, drop mid s) else None)"

definition str_slice :: "str \<Rightarrow> nat \<Rightarrow> nat \<Rightarrow> str option" where
  "str_slice s i j =
     (if i \<le> j \<and> str_is_char_boundary s i \<and> str_is_char_boundary s j then Some (take (j - i) (drop i s)) else None)"

fun floor_boundary :: "str \<Rightarrow> nat \<Rightarrow> nat" where
  "floor_boundary s 0 = 0"
| "floor_boundary s (Suc i) = (if is_utf8_char_boundary (s ! Suc i) then Suc i else floor_boundary s i)"

definition str_floor_char_boundary :: "str \<Rightarrow> nat \<Rightarrow> nat" where
  "str_floor_char_boundary s i = (if length s \<le> i then length s else floor_boundary s i)"

definition str_ceil_char_boundary :: "str \<Rightarrow> nat \<Rightarrow> nat" where
  "str_ceil_char_boundary s i =
     (if length s \<le> i then length s
      else i + length (takeWhile (\<lambda>b. \<not> is_utf8_char_boundary b) (drop i s)))"

subsection \<open>The state\<close>

record chunk =
  ck_chars :: u128
  ck_chars_utf16 :: u128
  ck_newlines :: u128
  ck_tabs :: u128
  ck_text :: str

type_synonym chunk_slice = chunk

definition MAX_BASE :: nat where "MAX_BASE = 128"

definition MIN_BASE :: nat where "MIN_BASE = MAX_BASE div 2"

definition slice_empty :: chunk_slice where
  "slice_empty = \<lparr>ck_chars = 0, ck_chars_utf16 = 0, ck_newlines = 0, ck_tabs = 0, ck_text = []\<rparr>"

text \<open>\<open>ArrayString::push_str\<close> fails when the capacity is exceeded; the code unwraps it.\<close>

definition array_push_str :: "str \<Rightarrow> str \<Rightarrow> str option" where
  "array_push_str buf s = (if length buf + length s \<le> MAX_BASE then Some (buf @ s) else None)"

subsection \<open>Construction\<close>

definition byte_bits :: "(u8 \<Rightarrow> bool) \<Rightarrow> u8 list \<Rightarrow> u8" where
  "byte_bits p bytes = foldl (\<lambda>m (ix, b). or m (push_bit ix (of_bool (p b)))) 0 (enumerate 0 bytes)"

text \<open>The loop of \<open>Chunk::new\<close>, eight bytes a turn.\<close>

function new_loop :: "u8 list \<Rightarrow> nat \<Rightarrow> u8 list \<times> u8 list \<times> u8 list \<times> u8 list \<Rightarrow>
    u8 list \<times> u8 list \<times> u8 list \<times> u8 list" where
  "new_loop bytes ix (chars, newlines, tabs, utf16) =
     (if bytes = [] then (chars, newlines, tabs, utf16)
      else let n = min (length bytes) 8; chunk = take n bytes; rest = drop n bytes
           in new_loop rest (ix + 1)
                (chars[ix := byte_bits is_utf8_char_boundary chunk],
                 newlines[ix := byte_bits (\<lambda>b. b = 10) chunk],
                 tabs[ix := byte_bits (\<lambda>b. b = 9) chunk],
                 utf16[ix := byte_bits (\<lambda>b. 240 \<le> b) chunk]))"
  by pat_completeness auto
termination
  by (relation "measure (\<lambda>(bytes, _). length bytes)") (auto simp: Let_def)

definition from_le_bytes :: "u8 list \<Rightarrow> u128" where
  "from_le_bytes bytes = foldr (\<lambda>b w. or (ucast b) (push_bit 8 w)) bytes 0"

definition chunk_new :: "str \<Rightarrow> chunk option" where
  "chunk_new s = do {
     t \<leftarrow> array_push_str [] s;
     let zeros = replicate (MAX_BASE div 8) 0;
     let (chars, newlines, tabs, utf16) = new_loop t 0 (zeros, zeros, zeros, zeros);
     let cs = from_le_bytes chars;
     Some \<lparr>ck_chars = cs, ck_chars_utf16 = or (push_bit 1 (from_le_bytes utf16)) cs,
           ck_newlines = from_le_bytes newlines, ck_tabs = from_le_bytes tabs, ck_text = t\<rparr>
   }"

text \<open>\<open>x << n\<close> on a \<open>u128\<close> uses \<open>n\<close> modulo 128; a shift by 128 occurs only before a push that panics.\<close>

definition shl :: "u128 \<Rightarrow> nat \<Rightarrow> u128" where
  "shl x n = push_bit (n mod 128) x"

definition chunk_append :: "chunk \<Rightarrow> chunk_slice \<Rightarrow> chunk option" where
  "chunk_append self sl =
     (if ck_text sl = [] then Some self
      else let base_ix = length (ck_text self)
           in do {
             t \<leftarrow> array_push_str (ck_text self) (ck_text sl);
             Some \<lparr>ck_chars = or (ck_chars self) (shl (ck_chars sl) base_ix),
                   ck_chars_utf16 = or (ck_chars_utf16 self) (shl (ck_chars_utf16 sl) base_ix),
                   ck_newlines = or (ck_newlines self) (shl (ck_newlines sl) base_ix),
                   ck_tabs = or (ck_tabs self) (shl (ck_tabs sl) base_ix), ck_text = t\<rparr>
           })"

definition chunk_prepend :: "chunk \<Rightarrow> chunk_slice \<Rightarrow> chunk option" where
  "chunk_prepend self sl =
     (if ck_text sl = [] then Some self
      else if ck_text self = [] then chunk_new (ck_text sl)
      else let shift = length (ck_text sl)
           in do {
             t \<leftarrow> array_push_str [] (ck_text sl);
             t \<leftarrow> array_push_str t (ck_text self);
             Some \<lparr>ck_chars = or (ck_chars sl) (shl (ck_chars self) shift),
                   ck_chars_utf16 = or (ck_chars_utf16 sl) (shl (ck_chars_utf16 self) shift),
                   ck_newlines = or (ck_newlines sl) (shl (ck_newlines self) shift),
                   ck_tabs = or (ck_tabs sl) (shl (ck_tabs self) shift), ck_text = t\<rparr>
           })"

definition as_slice :: "chunk \<Rightarrow> chunk_slice" where
  "as_slice self = self"

definition chunk_push_str :: "chunk \<Rightarrow> str \<Rightarrow> chunk option" where
  "chunk_push_str self s = do { c \<leftarrow> chunk_new s; chunk_append self (as_slice c) }"

definition chunk_prepend_str :: "chunk \<Rightarrow> str \<Rightarrow> chunk option" where
  "chunk_prepend_str self s = do { c \<leftarrow> chunk_new s; chunk_prepend self (as_slice c) }"

subsection \<open>Boundaries and slices\<close>

definition chunk_is_char_boundary :: "chunk \<Rightarrow> nat \<Rightarrow> bool" where
  "chunk_is_char_boundary self offset \<longleftrightarrow>
     and (push_bit (offset mod 2 ^ 32) 1) (ck_chars self) \<noteq> 0 \<or> offset = length (ck_text self)"

definition chunk_floor_char_boundary :: "chunk \<Rightarrow> nat \<Rightarrow> nat" where
  "chunk_floor_char_boundary self index =
     (if length (ck_text self) \<le> index then length (ck_text self) else floor_boundary (ck_text self) index)"

definition assert_char_boundary :: "bool \<Rightarrow> chunk \<Rightarrow> nat \<Rightarrow> bool option" where
  "assert_char_boundary panics self offset =
     (if chunk_is_char_boundary self offset then Some True else if panics then None else Some False)"

definition slice_split_at :: "chunk_slice \<Rightarrow> nat \<Rightarrow> (chunk_slice \<times> chunk_slice) option" where
  "slice_split_at self mid =
     (if mid = MAX_BASE then Some (self, slice_empty)
      else let mask = shl 1 mid - 1
           in do {
             (l, r) \<leftarrow> str_split_at (ck_text self) mid;
             Some (\<lparr>ck_chars = and (ck_chars self) mask, ck_chars_utf16 = and (ck_chars_utf16 self) mask,
                     ck_newlines = and (ck_newlines self) mask, ck_tabs = and (ck_tabs self) mask, ck_text = l\<rparr>,
                   \<lparr>ck_chars = drop_bit mid (ck_chars self), ck_chars_utf16 = drop_bit mid (ck_chars_utf16 self),
                     ck_newlines = drop_bit mid (ck_newlines self), ck_tabs = drop_bit mid (ck_tabs self), ck_text = r\<rparr>)
           })"

definition slice_range :: "chunk_slice \<Rightarrow> nat \<Rightarrow> nat \<Rightarrow> chunk_slice option" where
  "slice_range self range_start range_end =
     (if range_start = MAX_BASE then Some slice_empty
      else do {
        ok \<leftarrow> assert_char_boundary False self range_start;
        let s = (if ok then range_start else str_ceil_char_boundary (ck_text self) range_start);
        ok \<leftarrow> assert_char_boundary False self range_end;
        let e = (if ok then range_end
                 else if range_end < s then s else str_floor_char_boundary (ck_text self) range_end);
        let mask = push_bit (e mod 2 ^ 32) 1 - 1;
        t \<leftarrow> str_slice (ck_text self) s e;
        Some \<lparr>ck_chars = drop_bit (s mod 128) (and (ck_chars self) mask),
              ck_chars_utf16 = drop_bit (s mod 128) (and (ck_chars_utf16 self) mask),
              ck_newlines = drop_bit (s mod 128) (and (ck_newlines self) mask),
              ck_tabs = drop_bit (s mod 128) (and (ck_tabs self) mask), ck_text = t\<rparr>
      })"

definition chunk_slice_range :: "chunk \<Rightarrow> nat \<Rightarrow> nat \<Rightarrow> chunk_slice option" where
  "chunk_slice_range self range_start range_end = slice_range (as_slice self) range_start range_end"

subsection \<open>Measures\<close>

definition slice_len :: "chunk_slice \<Rightarrow> nat" where
  "slice_len self = length (ck_text self)"

definition slice_len_utf16 :: "chunk_slice \<Rightarrow> nat offset_utf16" where
  "slice_len_utf16 self = OffsetUtf16 (count_ones (ck_chars_utf16 self))"

definition slice_lines :: "chunk_slice \<Rightarrow> nat point" where
  "slice_lines self =
     Point (count_ones (ck_newlines self)) (leading_zeros (ck_newlines self) - (128 - length (ck_text self)))"

definition slice_first_line_chars :: "chunk_slice \<Rightarrow> nat" where
  "slice_first_line_chars self =
     count_ones (and (ck_chars self) (saturating_shl_mask (trailing_zeros (ck_newlines self))))"

definition slice_last_line_chars :: "chunk_slice \<Rightarrow> nat" where
  "slice_last_line_chars self =
     count_ones (and (ck_chars self) (saturating_shr_mask (leading_zeros (ck_newlines self))))"

definition slice_last_line_len_utf16 :: "chunk_slice \<Rightarrow> nat" where
  "slice_last_line_len_utf16 self =
     count_ones (and (ck_chars_utf16 self) (saturating_shr_mask (leading_zeros (ck_newlines self))))"

lemma drop_newline_less:
  assumes "n \<noteq> 0"
  shows "unat (drop_bit (Suc 0) (drop_bit (trailing_zeros n) n)) < unat n"
proof -
  have "0 < unat n" using assms by (simp add: unat_gt_0)
  have "unat (drop_bit (Suc 0) (drop_bit (trailing_zeros n) n)) = unat n div 2 ^ trailing_zeros n div 2"
    by (simp only: unat_drop_bit_eq drop_bit_eq_div [where 'a = nat] power_one_right One_nat_def [symmetric])
  also have "\<dots> \<le> unat n div 2" by (simp add: div_le_mono)
  also have "\<dots> < unat n" using \<open>0 < unat n\<close> by simp
  finally show ?thesis .
qed

text \<open>The loop of \<open>longest_row\<close>: row, longest row, its characters, total characters.\<close>

function longest_row_loop :: "u128 \<Rightarrow> u128 \<Rightarrow> nat \<Rightarrow> nat \<Rightarrow> nat \<Rightarrow> nat \<Rightarrow> (nat \<times> nat) \<times> nat" where
  "longest_row_loop chars newlines r longest_row longest_row_chars total_chars =
     (if newlines \<noteq> 0
      then let newline_ix = trailing_zeros newlines;
               row_chars = count_ones (and chars (push_bit newline_ix 1 - 1)) mod 256;
               total_chars = total_chars + row_chars;
               (longest_row, longest_row_chars) =
                 (if longest_row_chars < row_chars then (r, row_chars) else (longest_row, longest_row_chars))
           in longest_row_loop (drop_bit 1 (drop_bit newline_ix chars)) (drop_bit 1 (drop_bit newline_ix newlines))
                (r + 1) longest_row longest_row_chars (total_chars + 1)
      else let row_chars = count_ones chars mod 256; total_chars = total_chars + row_chars
           in if longest_row_chars < row_chars then ((r, row_chars), total_chars)
              else ((longest_row, longest_row_chars), total_chars))"
  by pat_completeness auto
termination
  by (relation "measure (\<lambda>(_, newlines, _). unat newlines)")
    (auto simp del: drop_bit_drop_bit intro: drop_newline_less)

definition slice_longest_row :: "chunk_slice \<Rightarrow> (nat \<times> nat) \<times> nat" where
  "slice_longest_row self = longest_row_loop (ck_chars self) (ck_newlines self) 0 0 0 0"

definition slice_text_summary :: "chunk_slice \<Rightarrow> (nat, nat) text_summary" where
  "slice_text_summary self =
     (let ((longest_row, longest_row_chars), chars) = slice_longest_row self
      in \<lparr>ts_len = slice_len self, ts_chars = chars, ts_len_utf16 = slice_len_utf16 self,
          ts_lines = slice_lines self, ts_first_line_chars = slice_first_line_chars self,
          ts_last_line_chars = slice_last_line_chars self,
          ts_last_line_len_utf16 = slice_last_line_len_utf16 self,
          ts_longest_row = longest_row, ts_longest_row_chars = longest_row_chars\<rparr>)"

subsection \<open>Conversions\<close>

text \<open>The range of bytes of a row, its newline excluded.\<close>

definition offset_range_for_row :: "chunk_slice \<Rightarrow> nat \<Rightarrow> nat \<times> nat" where
  "offset_range_for_row self r =
     (let row_start = (if 0 < r then nth_set_bit (ck_newlines self) r + 1 else 0);
          row_len = (if row_start = MAX_BASE then 0
                     else min (trailing_zeros (drop_bit row_start (ck_newlines self))) (length (ck_text self) - row_start))
      in (row_start, row_start + row_len))"

definition slice_offset_to_point :: "chunk_slice \<Rightarrow> nat \<Rightarrow> nat point" where
  "slice_offset_to_point self offset =
     (let mask = push_bit (offset mod 2 ^ 32) 1 - 1;
          row = count_ones (and (ck_newlines self) mask);
          newline_ix = 128 - leading_zeros (and (ck_newlines self) mask);
          column = offset - newline_ix
      in Point row column)"

definition slice_point_to_offset :: "chunk_slice \<Rightarrow> nat point \<Rightarrow> nat" where
  "slice_point_to_offset self point =
     (if row (slice_lines self) < row point then slice_len self
      else let (s, e) = offset_range_for_row self (row point)
           in if e - s < column point then e else s + column point)"

definition slice_offset_to_offset_utf16 :: "chunk_slice \<Rightarrow> nat \<Rightarrow> nat offset_utf16" where
  "slice_offset_to_offset_utf16 self offset =
     (let mask = push_bit (offset mod 2 ^ 32) 1 - 1 in OffsetUtf16 (count_ones (and (ck_chars_utf16 self) mask)))"

definition slice_point_to_offset_utf16 :: "chunk_slice \<Rightarrow> nat point \<Rightarrow> nat offset_utf16" where
  "slice_point_to_offset_utf16 self point =
     (if row (slice_lines self) < row point then slice_len_utf16 self
      else slice_offset_to_offset_utf16 self (slice_point_to_offset self point))"

definition slice_offset_utf16_to_offset :: "chunk_slice \<Rightarrow> nat offset_utf16 \<Rightarrow> nat" where
  "slice_offset_utf16_to_offset self target =
     (if offset16 target = 0 then 0
      else let ix = nth_set_bit (ck_chars_utf16 self) (offset16 target) + 1
           in if ix = MAX_BASE then MAX_BASE
              else ix + min (trailing_zeros (drop_bit ix (ck_chars_utf16 self))) (length (ck_text self) - ix))"

definition slice_offset_to_point_utf16 :: "chunk_slice \<Rightarrow> nat \<Rightarrow> nat point_utf16" where
  "slice_offset_to_point_utf16 self offset =
     (let mask = saturating_shl_mask (offset mod 2 ^ 32);
          row = count_ones (and (ck_newlines self) (saturating_shl_mask (offset mod 2 ^ 32)));
          newline_ix = 128 - leading_zeros (and (ck_newlines self) mask);
          column = (if newline_ix = MAX_BASE then 0
                    else count_ones (drop_bit newline_ix (and (ck_chars_utf16 self) mask)))
      in PointUtf16 row column)"

definition slice_point_to_point_utf16 :: "chunk_slice \<Rightarrow> nat point \<Rightarrow> nat point_utf16" where
  "slice_point_to_point_utf16 self point = slice_offset_to_point_utf16 self (slice_point_to_offset self point)"

text \<open>The loop that moves an offset left to a boundary; 0 is one.\<close>

fun step_left :: "str \<Rightarrow> nat \<Rightarrow> nat" where
  "step_left s 0 = 0"
| "step_left s (Suc i) = (if str_is_char_boundary s (Suc i) then Suc i else step_left s i)"

definition slice_point_utf16_to_offset :: "chunk_slice \<Rightarrow> nat point_utf16 \<Rightarrow> bool \<Rightarrow> nat option" where
  "slice_point_utf16_to_offset self point clip =
     (if row (slice_lines self) < row16 point then Some (slice_len self)
      else let (s, e) = offset_range_for_row self (row16 point)
           in do {
             line \<leftarrow> slice_range self s e;
             if slice_last_line_len_utf16 line < column16 point then Some e
             else if 0 < column16 point
             then let offset = s + slice_offset_utf16_to_offset line (OffsetUtf16 (column16 point))
                  in Some (if str_is_char_boundary (ck_text self) offset then offset
                           else step_left (ck_text self) (offset - 1))
             else Some s
           })"

definition slice_unclipped_point_utf16_to_point :: "chunk_slice \<Rightarrow> nat point_utf16 \<Rightarrow> nat point option" where
  "slice_unclipped_point_utf16_to_point self point =
     (let max_point = slice_lines self
      in if row max_point < row16 point then Some max_point
         else let (s, e) = offset_range_for_row self (row16 point)
              in do {
                line \<leftarrow> slice_range self s e;
                Some (if column16 point = 0 then Point (row16 point) 0
                      else if offset16 (slice_len_utf16 line) \<le> column16 point then Point (row16 point) (slice_len line)
                      else Point (row16 point)
                             (step_left (ck_text line) (slice_offset_utf16_to_offset line (OffsetUtf16 (column16 point)))))
              })"

subsection \<open>Clipping\<close>

text \<open>Grapheme boundaries are those of the \<open>unicode_segmentation\<close> crate: \<open>grapheme s i\<close> is what
  \<open>GraphemeCursor::is_boundary\<close> answers, \<open>false\<close> when it fails. The loop ends when a boundary is met;
  the column is a \<open>usize\<close>, which wraps.\<close>

partial_function (option) clip_loop :: "(str \<Rightarrow> nat \<Rightarrow> bool) \<Rightarrow> chunk_slice \<Rightarrow> bool \<Rightarrow> nat \<Rightarrow> nat option" where
  "clip_loop grapheme line left col =
     (if chunk_is_char_boundary line col \<and> grapheme (ck_text line) col then Some col
      else clip_loop grapheme line left ((if left then col + 2 ^ 64 - 1 else col + 1) mod 2 ^ 64))"

definition slice_clip_point :: "(str \<Rightarrow> nat \<Rightarrow> bool) \<Rightarrow> chunk_slice \<Rightarrow> nat point \<Rightarrow> bool \<Rightarrow> nat point option" where
  "slice_clip_point grapheme self point left =
     (let max_point = slice_lines self
      in if row max_point < row point then Some max_point
         else let (s, e) = offset_range_for_row self (row point)
              in do {
                line \<leftarrow> slice_range self s e;
                if column point = 0 then Some point
                else if slice_len line \<le> column point then Some (Point (row point) (slice_len line))
                else if ck_text line ! (column point - 1) < 128 \<and> ck_text line ! column point < 128
                then Some (Point (row point) (column point))
                else do {
                  col \<leftarrow> clip_loop grapheme line left (column point);
                  Some (Point (row point) col)
                }
              })"

text \<open>The loop of \<open>clip_offset_utf16\<close>.\<close>

partial_function (option) clip_offset_loop :: "str \<Rightarrow> bool \<Rightarrow> nat \<Rightarrow> nat option" where
  "clip_offset_loop s left i =
     (if str_is_char_boundary s i then Some i
      else clip_offset_loop s left ((if left then i + 2 ^ 64 - 1 else i + 1) mod 2 ^ 64))"

definition slice_clip_offset_utf16 :: "chunk_slice \<Rightarrow> nat offset_utf16 \<Rightarrow> bool \<Rightarrow> nat offset_utf16 option" where
  "slice_clip_offset_utf16 self target left =
     (if target = 0 then Some 0
      else if offset16 (slice_len_utf16 self) \<le> offset16 target then Some (slice_len_utf16 self)
      else do {
        offset \<leftarrow> clip_offset_loop (ck_text self) left (slice_offset_utf16_to_offset self target);
        Some (slice_offset_to_offset_utf16 self offset)
      })"

definition slice_clip_point_utf16 :: "chunk_slice \<Rightarrow> nat point_utf16 \<Rightarrow> bool \<Rightarrow> nat point_utf16 option" where
  "slice_clip_point_utf16 self point left =
     (let max_point = slice_lines self
      in if row max_point < row16 point then Some (PointUtf16 (row max_point) (slice_last_line_len_utf16 self))
         else let (s, e) = offset_range_for_row self (row16 point)
              in do {
                line \<leftarrow> slice_range self s e;
                col \<leftarrow> slice_clip_offset_utf16 line (OffsetUtf16 (column16 point)) left;
                Some (PointUtf16 (row16 point) (offset16 col))
              })"

subsection \<open>Tabs\<close>

text \<open>The iterator of tab positions: byte and character offset.\<close>

definition tabs_next :: "u128 \<times> u128 \<Rightarrow> (nat \<times> nat) option \<times> (u128 \<times> u128)" where
  "tabs_next self =
     (case self of (tabs, chars) \<Rightarrow>
        if tabs = 0 then (None, self)
        else let tab_offset = trailing_zeros tabs;
                 char_offset = count_ones (and chars (push_bit tab_offset 1 - 1))
             in (Some (tab_offset, char_offset), (xor tabs (push_bit tab_offset 1), chars)))"

definition slice_tabs :: "chunk_slice \<Rightarrow> u128 \<times> u128" where
  "slice_tabs self = (ck_tabs self, ck_chars self)"

end
