(* ===== verification/Bitmap.thy ===== *)
theory Bitmap
  imports Chunk
begin

text \<open>
  The bitmaps of a chunk as lists of bits, least first: what the masks, shifts and counts of
  \<open>crates/rope/src/chunk.rs\<close> do to the list.
\<close>

subsection \<open>Bitmaps\<close>

definition bitmap :: "bool list \<Rightarrow> u128" where
  "bitmap bs = horner_sum of_bool 2 bs"

lemma bit_bitmap: "bit (bitmap bs) i \<longleftrightarrow> i < 128 \<and> i < length bs \<and> bs ! i"
  by (auto simp: bitmap_def bit_horner_sum_bit_word_iff)

lemma bitmap_cong: "(\<And>i. i < 128 \<Longrightarrow> (i < length bs \<and> bs ! i) = (i < length cs \<and> cs ! i)) \<Longrightarrow> bitmap bs = bitmap cs"
  by (rule bit_eqI) (auto simp: bit_bitmap)

lemma bitmapI: "(\<And>i. i < 128 \<Longrightarrow> bit w i = (i < length bs \<and> bs ! i)) \<Longrightarrow> w = bitmap bs"
  by (rule bit_eqI) (auto simp: bit_bitmap)

lemma bitmap_Nil [simp]: "bitmap [] = 0"
  by (simp add: bitmap_def)

lemma bitmap_eq_0: "length bs \<le> 128 \<Longrightarrow> bitmap bs = 0 \<longleftrightarrow> True \<notin> set bs"
  by (auto simp: bit_eq_iff bit_bitmap in_set_conv_nth)

lemma bit_low_mask: "bit (2 ^ e - 1 :: u128) i \<longleftrightarrow> i < 128 \<and> i < e"
  by (simp add: bit_mask_iff flip: mask_eq_exp_minus_1)

lemma bitmap_take: "and (bitmap bs) (push_bit e 1 - 1) = bitmap (take e bs)"
  by (rule bitmapI) (auto simp: bit_and_iff bit_bitmap bit_low_mask)

lemma bitmap_drop: "length bs \<le> 128 \<Longrightarrow> drop_bit s (bitmap bs) = bitmap (drop s bs)"
  by (rule bitmapI) (auto simp: bit_drop_bit_eq bit_bitmap)

lemma bitmap_append:
  assumes "length xs + length ys \<le> 128" and "ys \<noteq> []"
  shows "or (bitmap xs) (shl (bitmap ys) (length xs)) = bitmap (xs @ ys)"
proof -
  have "length xs mod 128 = length xs" using assms by (cases ys) auto
  then show ?thesis
    using assms by (intro bitmapI) (auto simp: shl_def bit_or_iff bit_push_bit_iff bit_bitmap nth_append)
qed

subsection \<open>Counts\<close>

abbreviation ones :: "bool list \<Rightarrow> nat" where
  "ones bs \<equiv> count_list bs True"

lemma ones_filter: "ones bs = length (filter id bs)"
  by (induction bs) auto

lemma cnt_nth: "n \<le> length bs \<Longrightarrow> (\<And>i. i < n \<Longrightarrow> f i = bs ! i) \<Longrightarrow> cnt f 0 n = ones (take n bs)"
proof (induction n)
  case (Suc n)
  then have "cnt f 0 n = ones (take n bs)" "f n = bs ! n" by simp_all
  then show ?case
    using cnt_add [of f 0 n 1] Suc.prems(1) cnt_one [of f n] by (simp add: take_Suc_conv_app_nth)
qed simp

lemma cnt_bitmap: "length bs \<le> 128 \<Longrightarrow> n \<le> 128 \<Longrightarrow> cnt (bit (bitmap bs)) 0 n = ones (take n bs)"
proof -
  assume l: "length bs \<le> 128" "n \<le> 128"
  show ?thesis
  proof (cases "n \<le> length bs")
    case True
    then show ?thesis using l by (intro cnt_nth) (simp_all add: bit_bitmap)
  next
    case False
    have "cnt (bit (bitmap bs)) 0 n = cnt (bit (bitmap bs)) 0 (length bs) + cnt (bit (bitmap bs)) (length bs) (n - length bs)"
      using cnt_add [of "bit (bitmap bs)" 0 "length bs" "n - length bs"] False by simp
    moreover have "cnt (bit (bitmap bs)) (length bs) (n - length bs) = 0" by (rule cnt_zero) (simp add: bit_bitmap)
    moreover have "cnt (bit (bitmap bs)) 0 (length bs) = ones (take (length bs) bs)"
      using l by (intro cnt_nth) (simp_all add: bit_bitmap)
    ultimately show ?thesis using False by simp
  qed
qed

lemma count_ones_bitmap: "length bs \<le> 128 \<Longrightarrow> count_ones (bitmap bs) = ones bs"
  using cnt_bitmap [of bs 128] by (simp add: count_ones_cnt)

lemma takeWhile_length_eqI:
  assumes "n \<le> length xs" and "\<And>i. i < n \<Longrightarrow> P (xs ! i)" and "n < length xs \<Longrightarrow> \<not> P (xs ! n)"
  shows "length (takeWhile P xs) = n"
  by (metis (no_types, lifting) assms le_neq_implies_less length_takeWhile_le nat_neq_iff nth_length_takeWhile
      nth_mem set_takeWhileD takeWhile_nth)

lemma takeWhile_upto:
  "n \<le> N \<Longrightarrow> (\<And>i. i < n \<Longrightarrow> P i) \<Longrightarrow> (n < N \<Longrightarrow> \<not> P n) \<Longrightarrow> length (takeWhile P [0..<N]) = n"
  by (rule takeWhile_length_eqI) auto

lemma trailing_zeros_bitmap:
  assumes "length bs \<le> 128"
  shows "trailing_zeros (bitmap bs) = (if True \<in> set bs then length (takeWhile Not bs) else 128)"
proof (cases "True \<in> set bs")
  case True
  let ?n = "length (takeWhile Not bs)"
  have l: "?n < length bs" using True by (metis length_takeWhile_le le_neq_implies_less takeWhile_eq_all_conv
      append_eq_conv_conj takeWhile_dropWhile_id takeWhile_eq_take take_all_iff order_refl)
  have "\<not> bs ! i" if "i < ?n" for i
    using that by (metis nth_mem set_takeWhileD takeWhile_nth)
  moreover have "bs ! ?n" using nth_length_takeWhile [OF l] by simp
  ultimately have "length (takeWhile (\<lambda>i. \<not> bit (bitmap bs) i) [0..<128]) = ?n"
    using l assms by (intro takeWhile_upto) (auto simp: bit_bitmap)
  then show ?thesis using True by (simp add: trailing_zeros_def)
next
  case False
  then have "\<not> bit (bitmap bs) i" for i by (auto simp: bit_bitmap in_set_conv_nth)
  then have "length (takeWhile (\<lambda>i. \<not> bit (bitmap bs) i) [0..<128]) = 128" by (intro takeWhile_upto) simp_all
  then show ?thesis using False by (simp add: trailing_zeros_def)
qed

text \<open>The position after the last set bit.\<close>

definition after_last :: "bool list \<Rightarrow> nat" where
  "after_last bs = length (dropWhile Not (rev bs))"

lemma after_last_le: "after_last bs \<le> length bs"
  unfolding after_last_def by (metis length_dropWhile_le length_rev)

lemma leading_zeros_bitmap:
  assumes "length bs \<le> 128"
  shows "leading_zeros (bitmap bs) = 128 - after_last bs"
proof -
  let ?a = "after_last bs"
  have a: "?a \<le> length bs" by (rule after_last_le)
  have z: "\<not> bs ! i" if "?a \<le> i" "i < length bs" for i
  proof -
    have "rev bs ! (length bs - 1 - i) = bs ! i" using that(2) by (simp add: rev_nth)
    moreover have "length (takeWhile Not (rev bs)) = length bs - ?a"
      unfolding after_last_def by (metis add_diff_cancel_right' length_append length_rev takeWhile_dropWhile_id)
    then have "length bs - 1 - i < length (takeWhile Not (rev bs))" using that by simp
    then have "\<not> rev bs ! (length bs - 1 - i)" by (metis nth_mem set_takeWhileD takeWhile_nth)
    ultimately show ?thesis by simp
  qed
  have o: "bs ! (?a - 1)" if "0 < ?a"
  proof -
    have "dropWhile Not (rev bs) \<noteq> []" using that by (auto simp: after_last_def)
    then have "hd (dropWhile Not (rev bs))" using hd_dropWhile [of Not "rev bs"] by simp
    moreover have l: "length (takeWhile Not (rev bs)) = length bs - ?a"
      unfolding after_last_def by (metis add_diff_cancel_right' length_append length_rev takeWhile_dropWhile_id)
    moreover have "length bs - ?a < length bs" using that a by simp
    ultimately have "rev bs ! (length bs - ?a)" using nth_length_takeWhile [of Not "rev bs"] by simp
    then show ?thesis using that a by (simp add: rev_nth)
  qed
  have "length (takeWhile (\<lambda>i. \<not> bit (bitmap bs) i) (rev [0..<128])) = 128 - ?a"
  proof (rule takeWhile_length_eqI)
    show "\<not> bit (bitmap bs) (rev [0..<128] ! i)" if "i < 128 - ?a" for i
      using that z by (auto simp: rev_nth bit_bitmap)
    show "\<not> \<not> bit (bitmap bs) (rev [0..<128] ! (128 - ?a))" if "128 - ?a < length (rev [0..<128])"
    proof -
      have "0 < ?a" "?a \<le> 128" using that a assms by simp_all
      then have "?a - 1 < 128" "?a - 1 < length bs" using a by linarith+
      then show ?thesis using o \<open>0 < ?a\<close> \<open>?a \<le> 128\<close> by (simp add: rev_nth bit_bitmap)
    qed
  qed simp
  then show ?thesis by (simp add: leading_zeros_def)
qed

lemma bit_shr_mask: "n \<le> 128 \<Longrightarrow> bit (saturating_shr_mask (128 - n)) i \<longleftrightarrow> i < 128 \<and> n \<le> i"
  by (auto simp: saturating_shr_mask_def bit_not_iff bit_drop_bit_eq bit_mask_iff)

lemma ones_append: "ones (xs @ ys) = ones xs + ones ys"
  by simp

lemma ones_map: "ones (map P xs) = length (filter P xs)"
  by (induction xs) auto

lemma bitmap_shl_mask: "and (bitmap bs) (saturating_shl_mask e) = bitmap (take e bs)"
  unfolding saturating_shl_mask_def by (rule bitmap_take)

lemma count_ones_shr_mask:
  assumes "length bs \<le> 128" and "n \<le> 128"
  shows "count_ones (and (bitmap bs) (saturating_shr_mask (128 - n))) = ones (drop n bs)"
proof -
  have "and (bitmap bs) (saturating_shr_mask (128 - n)) = bitmap (replicate (min n (length bs)) False @ drop n bs)"
    by (rule bitmapI) (use assms in \<open>auto simp: bit_and_iff bit_bitmap bit_shr_mask nth_append\<close>)
  moreover have "ones (replicate m False) = 0" for m by (induction m) simp_all
  ultimately show ?thesis using assms by (simp add: count_ones_bitmap)
qed

lemma nth_set_bit_bitmap:
  assumes "length (xs @ True # ys) \<le> 128"
  shows "nth_set_bit (bitmap (xs @ True # ys)) (Suc (ones xs)) = length xs"
proof -
  let ?bs = "xs @ True # ys" and ?n = "Suc (ones xs)"
  let ?r = "nth_set_bit (bitmap ?bs) ?n"
  have "?n \<le> count_ones (bitmap ?bs)" using assms by (subst count_ones_bitmap) simp_all
  then have r: "?r < 128" "bit (bitmap ?bs) ?r" "cnt (bit (bitmap ?bs)) 0 ?r = ones xs"
    using nth_set_bit_spec [of ?n "bitmap ?bs"] by simp_all
  have o: "ones (take ?r ?bs) = ones xs" using r cnt_bitmap [of ?bs ?r] assms by simp
  have l: "?r < length ?bs" "?bs ! ?r" using r(2) by (simp_all add: bit_bitmap)
  show ?thesis
  proof (rule ccontr)
    assume "?r \<noteq> length xs"
    then consider "?r < length xs" | "length xs < ?r" by linarith
    then show False
    proof cases
      case 1
      then have "ones xs = ones (take ?r xs) + ones (drop ?r xs)" by (metis append_take_drop_id count_list_append)
      moreover have "drop ?r xs = xs ! ?r # drop (Suc ?r) xs" using 1 by (simp add: Cons_nth_drop_Suc)
      moreover have "xs ! ?r" using l(2) 1 by (simp add: nth_append)
      ultimately show False using o 1 by simp
    next
      case 2
      then obtain k where "?r = length xs + Suc k" by (metis add_Suc_right less_imp_Suc_add)
      then show False using o by simp
    qed
  qed
qed

end
