(* ===== verification/ChunkText.thy ===== *)
theory ChunkText
  imports Bitmap
begin

text \<open>
  What a chunk stores for a text: the text in UTF-8 and the four bitmaps of it. The construction,
  \<open>append\<close>, \<open>prepend\<close>, \<open>split_at\<close> and \<open>slice\<close> of \<open>crates/rope/src/chunk.rs\<close> are shown to compute
  the chunk of the concatenated or divided text, or to panic when it is longer than 128 bytes.
\<close>

subsection \<open>UTF-8\<close>

definition encode_char :: "rust_char \<Rightarrow> str" where
  "encode_char c =
     (if c < 0x80 then [of_nat c]
      else if c < 0x800 then [of_nat (0xC0 + c div 64), of_nat (0x80 + c mod 64)]
      else if c < 0x10000 then [of_nat (0xE0 + c div 4096), of_nat (0x80 + c div 64 mod 64), of_nat (0x80 + c mod 64)]
      else [of_nat (0xF0 + c div 262144), of_nat (0x80 + c div 4096 mod 64), of_nat (0x80 + c div 64 mod 64),
            of_nat (0x80 + c mod 64)])"

definition utf8 :: "rust_char list \<Rightarrow> str" where
  "utf8 cs = concat (map encode_char cs)"

lemma utf8_simps [simp]: "utf8 [] = []" "utf8 (c # cs) = encode_char c @ utf8 cs" "utf8 (cs @ ds) = utf8 cs @ utf8 ds"
  by (simp_all add: utf8_def)

lemma length_encode_char [simp]: "length (encode_char c) = len_utf8 c"
  by (simp add: encode_char_def len_utf8_def)

lemma length_utf8 [simp]: "length (utf8 cs) = str_len cs"
  by (induction cs) (simp_all add: str_len_def)

lemma unat_byte: "n < 256 \<Longrightarrow> unat (of_nat n :: u8) = n"
  unfolding unat_of_nat by (intro mod_less) simp

lemma boundary_byte: "n < 256 \<Longrightarrow> is_utf8_char_boundary (of_nat n) \<longleftrightarrow> n < 128 \<or> 192 \<le> n"
proof -
  assume n: "n < 256"
  show ?thesis
  proof (cases "n < 128")
    case True
    then have "sint (of_nat n :: u8) = int n" by (simp add: signed_of_nat signed_take_bit_int_eq_self)
    then show ?thesis using True by (simp add: is_utf8_char_boundary_def)
  next
    case False
    have "signed_take_bit 7 (int n - 256 + 2 ^ 8) = signed_take_bit 7 (int n - 256)"
      by (simp add: signed_take_bit_eq_iff_take_bit_eq take_bit_eq_mod)
    then have "sint (of_nat n :: u8) = int n - 256"
      using False n by (simp add: signed_of_nat signed_take_bit_int_eq_self)
    then show ?thesis using False by (auto simp: is_utf8_char_boundary_def)
  qed
qed

text \<open>The bytes of a character: one boundary, then continuation bytes.\<close>

definition continuation :: "u8 \<Rightarrow> bool" where
  "continuation b \<longleftrightarrow> 128 \<le> b \<and> b < 192"

lemma continuation_byte: "n < 64 \<Longrightarrow> continuation (of_nat (128 + n))"
  by (simp add: continuation_def word_le_nat_alt word_less_nat_alt unat_byte del: of_nat_add)

lemma continuation_simps:
  assumes "continuation b"
  shows "\<not> is_utf8_char_boundary b" "\<not> 240 \<le> b" "b \<noteq> 10" "b \<noteq> 9"
proof -
  have u: "128 \<le> unat b" "unat b < 192" using assms by (simp_all add: continuation_def word_le_nat_alt word_less_nat_alt)
  show "\<not> is_utf8_char_boundary b" using boundary_byte [of "unat b"] u by simp
  show "\<not> 240 \<le> b" "b \<noteq> 10" "b \<noteq> 9" using u by (auto simp: word_le_nat_alt)
qed

lemma encode_char_cases:
  assumes "scalar_value c"
  obtains b bs where "encode_char c = b # bs" "is_utf8_char_boundary b" "\<forall>x\<in>set bs. continuation x"
    "240 \<le> b \<longleftrightarrow> 0x10000 \<le> c" "b = 10 \<longleftrightarrow> c = 10" "b = 9 \<longleftrightarrow> c = 9" "length bs = len_utf8 c - 1"
proof -
  have c: "c < 0x110000" using assms by (auto simp: scalar_value_def)
  have t: "continuation (of_nat (128 + x mod 64))" for x by (rule continuation_byte) simp
  have e: "(of_nat n :: u8) = 10 \<longleftrightarrow> n = 10" "(of_nat n :: u8) = 9 \<longleftrightarrow> n = 9" "240 \<le> (of_nat n :: u8) \<longleftrightarrow> 240 \<le> n"
    if "n < 256" for n
    using unat_byte [OF that] by (auto simp: word_unat_eq_iff word_le_nat_alt simp del: of_nat_add)
  consider "c < 0x80" | "0x80 \<le> c" "c < 0x800" | "0x800 \<le> c" "c < 0x10000" | "0x10000 \<le> c" by linarith
  then show thesis
  proof cases
    case 1
    then show thesis
      by (intro that [of "of_nat c" "[]"]) (simp_all add: encode_char_def boundary_byte e len_utf8_def)
  next
    case 2
    let ?n = "0xC0 + c div 64"
    have "?n < 256" "?n < 240" using 2 by simp_all
    then show thesis using 2
      by (intro that [of "of_nat ?n" "[of_nat (128 + c mod 64)]"])
        (simp_all add: encode_char_def boundary_byte e t len_utf8_def del: of_nat_add)
  next
    case 3
    let ?n = "0xE0 + c div 4096"
    have "?n < 256" "?n < 240" using 3 by simp_all
    then show thesis using 3
      by (intro that [of "of_nat ?n" "[of_nat (128 + c div 64 mod 64), of_nat (128 + c mod 64)]"])
        (simp_all add: encode_char_def boundary_byte e t len_utf8_def del: of_nat_add)
  next
    case 4
    let ?n = "0xF0 + c div 262144"
    have "?n < 256" using c by simp
    then show thesis using 4
      by (intro that [of "of_nat ?n" "[of_nat (128 + c div 4096 mod 64), of_nat (128 + c div 64 mod 64), of_nat (128 + c mod 64)]"])
        (simp_all add: encode_char_def boundary_byte e t len_utf8_def del: of_nat_add)
  qed
qed

subsection \<open>The bits of a text\<close>

definition valid :: "rust_char list \<Rightarrow> bool" where
  "valid cs \<longleftrightarrow> (\<forall>c\<in>set cs. scalar_value c)"

lemma valid_simps [simp]: "valid []" "valid (c # cs) \<longleftrightarrow> scalar_value c \<and> valid cs"
  "valid (cs @ ds) \<longleftrightarrow> valid cs \<and> valid ds"
  by (auto simp: valid_def)

definition char_bits :: "rust_char \<Rightarrow> bool list" where
  "char_bits c = True # replicate (len_utf8 c - 1) False"

definition utf16_bits :: "rust_char \<Rightarrow> bool list" where
  "utf16_bits c = (if 0x10000 \<le> c then [True, True, False, False] else char_bits c)"

definition eq_bits :: "rust_char \<Rightarrow> rust_char \<Rightarrow> bool list" where
  "eq_bits k c = (c = k) # replicate (len_utf8 c - 1) False"

definition wide_bits :: "rust_char \<Rightarrow> bool list" where
  "wide_bits c = (0x10000 \<le> c) # replicate (len_utf8 c - 1) False"

definition bits :: "(rust_char \<Rightarrow> bool list) \<Rightarrow> rust_char list \<Rightarrow> bool list" where
  "bits f cs = concat (map f cs)"

lemma bits_simps [simp]: "bits f [] = []" "bits f (c # cs) = f c @ bits f cs" "bits f (cs @ ds) = bits f cs @ bits f ds"
  by (simp_all add: bits_def)

definition chunk_of :: "rust_char list \<Rightarrow> chunk" where
  "chunk_of cs = \<lparr>ck_chars = bitmap (bits char_bits cs), ck_chars_utf16 = bitmap (bits utf16_bits cs),
     ck_newlines = bitmap (bits (eq_bits 10) cs), ck_tabs = bitmap (bits (eq_bits 9) cs), ck_text = utf8 cs\<rparr>"

lemma length_char_bits [simp]:
  "length (char_bits c) = len_utf8 c" "length (utf16_bits c) = len_utf8 c" "length (eq_bits k c) = len_utf8 c"
  "length (wide_bits c) = len_utf8 c"
  using len_utf8_pos [of c] by (simp_all add: char_bits_def utf16_bits_def eq_bits_def wide_bits_def len_utf8_def)

lemma length_bits [simp]:
  "length (bits char_bits cs) = str_len cs" "length (bits utf16_bits cs) = str_len cs"
  "length (bits (eq_bits k) cs) = str_len cs" "length (bits wide_bits cs) = str_len cs"
  by (induction cs) (simp_all add: str_len_def)

lemma map_replicate_false: "\<forall>x\<in>set xs. \<not> P x \<Longrightarrow> map P xs = replicate (length xs) False"
  by (induction xs) auto

lemma map_encode_char:
  assumes "scalar_value c"
  shows "map is_utf8_char_boundary (encode_char c) = char_bits c" "map (\<lambda>b. b = 10) (encode_char c) = eq_bits 10 c"
    "map (\<lambda>b. b = 9) (encode_char c) = eq_bits 9 c" "map (\<lambda>b. 240 \<le> b) (encode_char c) = wide_bits c"
proof -
  obtain b bs where b: "encode_char c = b # bs" "is_utf8_char_boundary b" "\<forall>x\<in>set bs. continuation x"
    "240 \<le> b \<longleftrightarrow> 0x10000 \<le> c" "b = 10 \<longleftrightarrow> c = 10" "b = 9 \<longleftrightarrow> c = 9" "length bs = len_utf8 c - 1"
    by (rule encode_char_cases [OF assms])
  have m: "map P bs = replicate (len_utf8 c - 1) False" if "\<And>x. continuation x \<Longrightarrow> \<not> P x" for P
    using map_replicate_false [of bs P] b(3,7) that by simp
  have m: "map is_utf8_char_boundary bs = replicate (len_utf8 c - 1) False"
    "map (\<lambda>b. b = 10) bs = replicate (len_utf8 c - 1) False" "map (\<lambda>b. b = 9) bs = replicate (len_utf8 c - 1) False"
    "map (\<lambda>b. 240 \<le> b) bs = replicate (len_utf8 c - 1) False"
    by (rule m, erule continuation_simps)+
  show "map is_utf8_char_boundary (encode_char c) = char_bits c" "map (\<lambda>b. b = 10) (encode_char c) = eq_bits 10 c"
    "map (\<lambda>b. b = 9) (encode_char c) = eq_bits 9 c" "map (\<lambda>b. 240 \<le> b) (encode_char c) = wide_bits c"
    unfolding b(1) list.map m char_bits_def eq_bits_def wide_bits_def using b(2,4-6) by simp_all
qed

lemma map_utf8:
  assumes "valid cs"
  shows "map is_utf8_char_boundary (utf8 cs) = bits char_bits cs" "map (\<lambda>b. b = 10) (utf8 cs) = bits (eq_bits 10) cs"
    "map (\<lambda>b. b = 9) (utf8 cs) = bits (eq_bits 9) cs" "map (\<lambda>b. 240 \<le> b) (utf8 cs) = bits wide_bits cs"
  using assms by (induction cs) (simp_all add: map_encode_char)

text \<open>The bit after the first byte of a wide character is set.\<close>

lemma utf16_bits_zip:
  "bits utf16_bits cs = map2 (\<or>) (bits char_bits cs) (False # bits wide_bits cs) \<and> last (False # bits wide_bits cs) = False"
proof (induction cs)
  case (Cons c cs)
  define w where "w = False # butlast (wide_bits c)"
  have w: "length w = len_utf8 c" "wide_bits c = butlast (wide_bits c) @ [False]"
  proof -
    show "length w = len_utf8 c" using len_utf8_pos [of c] by (simp add: w_def)
    have "wide_bits c \<noteq> []" "last (wide_bits c) = False"
      by (auto simp: wide_bits_def len_utf8_def)
    then show "wide_bits c = butlast (wide_bits c) @ [False]" by (metis append_butlast_last_id)
  qed
  have e: "False # bits wide_bits (c # cs) = w @ (False # bits wide_bits cs)"
    by (subst bits_simps, subst w(2)) (simp add: w_def)
  have r: "replicate 2 False = [False, False]" "replicate 3 False = [False, False, False]"
    by (simp_all add: numeral_eq_Suc)
  have u: "utf16_bits c = map2 (\<or>) (char_bits c) w"
    by (auto simp: r w_def wide_bits_def utf16_bits_def char_bits_def len_utf8_def)
  show ?case unfolding e using Cons w(1) by (simp add: u)
qed simp

lemma bit_utf16:
  assumes "str_len cs \<le> 128"
  shows "or (push_bit 1 (bitmap (bits wide_bits cs))) (bitmap (bits char_bits cs)) = bitmap (bits utf16_bits cs)"
proof (rule bitmapI)
  fix i :: nat assume i: "i < 128"
  let ?w = "bits wide_bits cs" and ?c = "bits char_bits cs"
  have "bit (or (push_bit 1 (bitmap ?w)) (bitmap ?c)) i \<longleftrightarrow>
      1 \<le> i \<and> i - 1 < str_len cs \<and> ?w ! (i - 1) \<or> i < str_len cs \<and> ?c ! i"
    using i by (simp only: bit_or_iff bit_push_bit_iff bit_bitmap length_bits) auto
  also have "\<dots> \<longleftrightarrow> i < str_len cs \<and> (?c ! i \<or> (False # ?w) ! i)"
  proof (cases "i = str_len cs")
    case True
    have "(False # ?w) ! (length (False # ?w) - 1) = last (False # ?w)" by (rule last_conv_nth [symmetric]) simp
    then have "\<not> (False # ?w) ! str_len cs" using conjunct2 [OF utf16_bits_zip [of cs]] by (simp del: last.simps)
    then have "1 \<le> i \<Longrightarrow> \<not> ?w ! (i - 1)" using True by (simp add: nth_Cons')
    then show ?thesis using True by auto
  qed (auto simp: nth_Cons')
  also have "\<dots> \<longleftrightarrow> i < str_len cs \<and> bits utf16_bits cs ! i"
  proof (cases "i < str_len cs")
    case True
    have "bits utf16_bits cs ! i \<longleftrightarrow> ?c ! i \<or> (False # ?w) ! i"
      using True utf16_bits_zip [of cs] by simp
    then show ?thesis by simp
  qed simp
  finally show "bit (or (push_bit 1 (bitmap ?w)) (bitmap ?c)) i = (i < length (bits utf16_bits cs) \<and> bits utf16_bits cs ! i)"
    by simp
qed

subsection \<open>Construction\<close>

lemma bit_byte_bits_aux:
  "bit (foldl (\<lambda>m (ix, b). or m (push_bit ix (of_bool (p b)))) m (enumerate k bytes) :: u8) i \<longleftrightarrow>
    bit m i \<or> k \<le> i \<and> i < k + length bytes \<and> i < 8 \<and> p (bytes ! (i - k))"
proof (induction bytes arbitrary: m k)
  case (Cons b bytes)
  have "bit (or m (push_bit k (of_bool (p b)))) i \<longleftrightarrow> bit m i \<or> i = k \<and> i < 8 \<and> p b" for m :: u8
    by (auto simp: bit_or_iff bit_push_bit_iff bit_1_iff)
  note step = this and IH = Cons.IH [of "or m (push_bit k (of_bool (p b)))" "Suc k", unfolded this]
  consider "i < k" | "i = k" | "Suc k \<le> i" by linarith
  then show ?case
  proof cases
    case 3
    then have "(b # bytes) ! (i - k) = bytes ! (i - Suc k)" by (simp add: nth_Cons' Suc_diff_le)
    then show ?thesis using IH 3 by simp
  qed (use IH in simp_all)
qed auto

lemma bit_byte_bits: "bit (byte_bits p bytes) i \<longleftrightarrow> i < 8 \<and> i < length bytes \<and> p (bytes ! i)"
  unfolding byte_bits_def using bit_byte_bits_aux [of p 0 0 bytes i] by auto

lemma bit_from_le_bytes:
  "bit (from_le_bytes bs) i \<longleftrightarrow> i < 128 \<and> i div 8 < length bs \<and> bit (bs ! (i div 8)) (i mod 8)"
proof (induction bs arbitrary: i)
  case (Cons b bs)
  have "from_le_bytes (b # bs) = or (ucast b) (push_bit 8 (from_le_bytes bs))" by (simp add: from_le_bytes_def)
  moreover have "\<not> bit b i" if "8 \<le> i" using bit_imp_le_length [of b i] that by auto
  ultimately show ?case
  proof (cases "i < 8")
    case False
    then have "i div 8 = Suc ((i - 8) div 8)" "i mod 8 = (i - 8) mod 8" by (simp_all add: div_if mod_if)
    then show ?thesis
      using \<open>from_le_bytes (b # bs) = _\<close> \<open>8 \<le> i \<Longrightarrow> \<not> bit b i\<close> Cons.IH [of "i - 8"] False
      by (auto simp: bit_or_iff bit_push_bit_iff bit_unsigned_iff)
  qed (simp add: bit_or_iff bit_push_bit_iff bit_unsigned_iff)
qed (simp add: from_le_bytes_def)

text \<open>What the loop does to one of the arrays.\<close>

function fill :: "(u8 \<Rightarrow> bool) \<Rightarrow> u8 list \<Rightarrow> nat \<Rightarrow> u8 list \<Rightarrow> u8 list" where
  "fill p bytes ix arr = (if bytes = [] then arr else fill p (drop 8 bytes) (ix + 1) (arr[ix := byte_bits p (take 8 bytes)]))"
  by pat_completeness auto
termination
  by (relation "measure (\<lambda>(_, bytes, _). length bytes)") auto

declare fill.simps [simp del] new_loop.simps [simp del]

lemma new_loop_fill:
  "new_loop bytes ix (a, b, c, d) =
    (fill is_utf8_char_boundary bytes ix a, fill (\<lambda>b. b = 10) bytes ix b, fill (\<lambda>b. b = 9) bytes ix c,
     fill (\<lambda>b. 240 \<le> b) bytes ix d)"
proof (induction "length bytes" arbitrary: bytes ix a b c d rule: less_induct)
  case less
  show ?case
  proof (cases "bytes = []")
    case True
    then show ?thesis by (simp add: new_loop.simps fill.simps)
  next
    case False
    then have "take (min (length bytes) 8) bytes = take 8 bytes" "drop (min (length bytes) 8) bytes = drop 8 bytes"
      by (auto simp: min_def)
    moreover have "length (drop 8 bytes) < length bytes" using False by simp
    note IH = less [OF this]
    ultimately show ?thesis
      using False by (subst new_loop.simps, subst (1 2 3 4) fill.simps) (simp add: Let_def IH)
  qed
qed

lemma fill_nth:
  "length (fill p bytes ix arr) = length arr \<and> (j < length arr \<longrightarrow> fill p bytes ix arr ! j =
    (if ix \<le> j \<and> 8 * (j - ix) < length bytes then byte_bits p (take 8 (drop (8 * (j - ix)) bytes)) else arr ! j))"
proof (induction p bytes ix arr rule: fill.induct)
  case (1 p bytes ix arr)
  show ?case
  proof (cases "bytes = []")
    case True
    then show ?thesis by (simp add: fill.simps)
  next
    case False
    have d: "drop (8 * (j - Suc ix)) (drop 8 bytes) = drop (8 * (j - ix)) bytes"
      "8 * (j - Suc ix) < length bytes - 8 \<longleftrightarrow> 8 * (j - ix) < length bytes" if "Suc ix \<le> j"
    proof -
      have "8 * (j - Suc ix) + 8 = 8 * (j - ix)" using that by simp
      then show "drop (8 * (j - Suc ix)) (drop 8 bytes) = drop (8 * (j - ix)) bytes"
        "8 * (j - Suc ix) < length bytes - 8 \<longleftrightarrow> 8 * (j - ix) < length bytes" by (simp, linarith)
    qed
    consider "j < ix" | "j = ix" | "Suc ix \<le> j" by linarith
    then show ?thesis using 1 [OF False] False d by cases (simp_all add: fill.simps [of p bytes])
  qed
qed

lemma from_le_bytes_fill:
  assumes "length t \<le> 128"
  shows "from_le_bytes (fill p t 0 (replicate 16 0)) = bitmap (map p t)"
proof (rule bitmapI)
  fix i :: nat assume i: "i < 128"
  have d: "8 * (i div 8) + i mod 8 = i" by simp
  then have "i div 8 < 16" using i by linarith
  then show "bit (from_le_bytes (fill p t 0 (replicate 16 0))) i = (i < length (map p t) \<and> map p t ! i)"
    using i fill_nth [of p t 0 "replicate 16 0" "i div 8"] d
    by (auto simp: bit_from_le_bytes bit_byte_bits less_diff_conv add.commute)
qed

lemmas bit_utf16_times = bit_utf16 [simplified]

lemma chunk_new_of:
  assumes "valid cs"
  shows "chunk_new (utf8 cs) = (if str_len cs \<le> 128 then Some (chunk_of cs) else None)"
  by (simp add: chunk_new_def array_push_str_def MAX_BASE_def Let_def new_loop_fill from_le_bytes_fill map_utf8 [OF assms]
      bit_utf16_times chunk_of_def)

subsection \<open>Concatenation\<close>

lemma bits_append:
  assumes "str_len xs + str_len ys \<le> 128" and "ys \<noteq> []"
  shows "or (bitmap (bits char_bits xs)) (shl (bitmap (bits char_bits ys)) (str_len xs)) = bitmap (bits char_bits (xs @ ys))"
    "or (bitmap (bits utf16_bits xs)) (shl (bitmap (bits utf16_bits ys)) (str_len xs)) = bitmap (bits utf16_bits (xs @ ys))"
    "or (bitmap (bits (eq_bits k) xs)) (shl (bitmap (bits (eq_bits k) ys)) (str_len xs)) = bitmap (bits (eq_bits k) (xs @ ys))"
proof -
  obtain y zs where y: "ys = y # zs" using assms(2) by (cases ys) auto
  have "bits char_bits ys \<noteq> []" "bits utf16_bits ys \<noteq> []" "bits (eq_bits k) ys \<noteq> []"
    using y by (simp_all add: char_bits_def utf16_bits_def eq_bits_def)
  then show "or (bitmap (bits char_bits xs)) (shl (bitmap (bits char_bits ys)) (str_len xs)) = bitmap (bits char_bits (xs @ ys))"
    "or (bitmap (bits utf16_bits xs)) (shl (bitmap (bits utf16_bits ys)) (str_len xs)) = bitmap (bits utf16_bits (xs @ ys))"
    "or (bitmap (bits (eq_bits k) xs)) (shl (bitmap (bits (eq_bits k) ys)) (str_len xs)) = bitmap (bits (eq_bits k) (xs @ ys))"
    using bitmap_append [of "bits char_bits xs" "bits char_bits ys"] bitmap_append [of "bits utf16_bits xs" "bits utf16_bits ys"]
      bitmap_append [of "bits (eq_bits k) xs" "bits (eq_bits k) ys"] assms(1) by simp_all
qed

lemma utf8_eq_Nil [simp]: "utf8 cs = [] \<longleftrightarrow> cs = []"
proof (cases cs)
  case (Cons c ds)
  have "encode_char c \<noteq> []" using len_utf8_pos [of c] length_encode_char [of c] by (metis less_irrefl list.size(3))
  then show ?thesis using Cons by simp
qed simp

lemma chunk_of_fields [simp]: "ck_text (chunk_of cs) = utf8 cs" "ck_chars (chunk_of cs) = bitmap (bits char_bits cs)"
  "ck_chars_utf16 (chunk_of cs) = bitmap (bits utf16_bits cs)" "ck_newlines (chunk_of cs) = bitmap (bits (eq_bits 10) cs)"
  "ck_tabs (chunk_of cs) = bitmap (bits (eq_bits 9) cs)"
  by (simp_all add: chunk_of_def)

lemma chunk_append_of:
  "chunk_append (chunk_of xs) (chunk_of ys) =
    (if ys = [] \<or> str_len (xs @ ys) \<le> 128 then Some (chunk_of (xs @ ys)) else None)"
proof (cases "ys = []")
  case False
  then show ?thesis
    using bits_append [OF _ False, of xs] unfolding chunk_append_def Let_def array_push_str_def MAX_BASE_def
    by (simp del: bits_simps(3) add: chunk_of_def)
qed (simp add: chunk_append_def)

lemma chunk_prepend_of:
  assumes "valid ys" and "str_len xs \<le> 128"
  shows "chunk_prepend (chunk_of xs) (chunk_of ys) =
    (if str_len (ys @ xs) \<le> 128 then Some (chunk_of (ys @ xs)) else None)"
proof -
  have "chunk_prepend (chunk_of xs) (chunk_of ys) = (if str_len (ys @ xs) \<le> 128 then Some (chunk_of (ys @ xs)) else None)"
    if "xs \<noteq> []" "ys \<noteq> []"
    using that bits_append [OF _ that(1), of ys] unfolding chunk_prepend_def Let_def array_push_str_def MAX_BASE_def
    by (simp del: bits_simps(3) add: chunk_of_def)
  then show ?thesis using assms by (auto simp: chunk_prepend_def chunk_new_of str_len_def)
qed

lemma chunk_push_str_of:
  assumes "valid ys" and "str_len xs \<le> 128"
  shows "chunk_push_str (chunk_of xs) (utf8 ys) = (if str_len (xs @ ys) \<le> 128 then Some (chunk_of (xs @ ys)) else None)"
  using assms by (auto simp: chunk_push_str_def chunk_new_of as_slice_def chunk_append_of str_len_def)

lemma chunk_prepend_str_of:
  assumes "valid ys" and "str_len xs \<le> 128"
  shows "chunk_prepend_str (chunk_of xs) (utf8 ys) = (if str_len (ys @ xs) \<le> 128 then Some (chunk_of (ys @ xs)) else None)"
  using assms by (simp add: chunk_prepend_str_def chunk_new_of as_slice_def chunk_prepend_of)

subsection \<open>Boundaries\<close>

text \<open>The boundaries of a text are the ends of its prefixes.\<close>

definition boundary :: "rust_char list \<Rightarrow> nat \<Rightarrow> bool" where
  "boundary cs i \<longleftrightarrow> (\<exists>xs ys. cs = xs @ ys \<and> i = str_len xs)"

lemma boundary_0 [simp]: "boundary cs 0"
  unfolding boundary_def by (rule exI [of _ "[]"]) (simp add: str_len_def)

lemma boundary_Cons: "boundary (c # cs) i \<longleftrightarrow> i = 0 \<or> len_utf8 c \<le> i \<and> boundary cs (i - len_utf8 c)"
proof
  assume "boundary (c # cs) i"
  then obtain xs ys where "c # cs = xs @ ys" "i = str_len xs" by (auto simp: boundary_def)
  then show "i = 0 \<or> len_utf8 c \<le> i \<and> boundary cs (i - len_utf8 c)"
    by (cases xs) (auto simp: boundary_def str_len_def)
next
  assume "i = 0 \<or> len_utf8 c \<le> i \<and> boundary cs (i - len_utf8 c)"
  then show "boundary (c # cs) i"
  proof
    assume "len_utf8 c \<le> i \<and> boundary cs (i - len_utf8 c)"
    then obtain xs ys where "cs = xs @ ys" "i = str_len (c # xs)" by (auto simp: boundary_def str_len_def)
    then show ?thesis unfolding boundary_def by (intro exI [of _ "c # xs"] exI [of _ ys]) simp
  qed simp
qed

lemma boundary_bits: "boundary cs i \<longleftrightarrow> i = str_len cs \<or> i < str_len cs \<and> bits char_bits cs ! i"
proof (induction cs arbitrary: i)
  case (Cons c cs)
  have "0 < len_utf8 c" by (rule len_utf8_pos)
  moreover have "char_bits c ! i \<longleftrightarrow> i = 0" if "i < len_utf8 c"
    using that by (simp add: char_bits_def nth_Cons')
  ultimately show ?case unfolding boundary_Cons Cons.IH by (auto simp: nth_append str_len_def)
qed (auto simp: boundary_def str_len_def)

lemma str_boundary: "valid cs \<Longrightarrow> str_is_char_boundary (utf8 cs) i \<longleftrightarrow> boundary cs i"
proof -
  assume v: "valid cs"
  have "is_utf8_char_boundary (utf8 cs ! i) \<longleftrightarrow> bits char_bits cs ! i" if "i < str_len cs"
    using map_utf8(1) [OF v] that by (metis length_utf8 nth_map)
  moreover note boundary_0 [of cs]
  ultimately show ?thesis unfolding str_is_char_boundary_def using boundary_bits [of cs i] by auto
qed

lemma boundary_append: "boundary (xs @ ys) (str_len xs)"
  by (auto simp: boundary_def)

lemma boundary_le: "boundary cs i \<Longrightarrow> i \<le> str_len cs"
  by (auto simp: boundary_def)

lemma chunk_boundary:
  assumes "str_len cs \<le> 128" and "i < 2 ^ 32"
  shows "chunk_is_char_boundary (chunk_of cs) i \<longleftrightarrow> boundary cs i"
proof -
  have "and (push_bit i 1) w \<noteq> 0 \<longleftrightarrow> i < 128 \<and> bit w i" for w :: u128
  proof -
    have "bit (and (push_bit i 1) w) n \<longleftrightarrow> n = i \<and> i < 128 \<and> bit w i" for n
      by (auto simp: bit_and_iff bit_exp_iff)
    then show ?thesis by (metis bit_0_eq bot_apply bit_eq_iff bot_bool_def)
  qed
  note this [of "bitmap (bits char_bits cs)"]
  then have "and (push_bit i 1) (bitmap (bits char_bits cs)) \<noteq> 0 \<longleftrightarrow> i < str_len cs \<and> bits char_bits cs ! i"
    using assms by (auto simp only: bit_bitmap length_bits)
  then show ?thesis unfolding chunk_is_char_boundary_def boundary_bits using assms
    by (simp only: chunk_of_fields length_utf8 mod_less) blast
qed

text \<open>Two texts with the same bytes up to a boundary.\<close>

lemma str_len_eq_0 [simp]: "str_len cs = 0 \<longleftrightarrow> cs = []"
  by (metis length_0_conv length_utf8 utf8_eq_Nil)

lemma boundary_split:
  assumes "boundary cs i" and "boundary cs j" and "i \<le> j"
  obtains xs ys zs where "cs = xs @ ys @ zs" "i = str_len xs" "j = str_len (xs @ ys)"
proof -
  obtain xs us where x: "cs = xs @ us" "i = str_len xs" using assms(1) by (auto simp: boundary_def)
  obtain vs zs where z: "cs = vs @ zs" "j = str_len vs" using assms(2) by (auto simp: boundary_def)
  obtain ws where "xs = vs @ ws \<and> ws @ us = zs \<or> xs @ ws = vs \<and> us = ws @ zs"
    using x(1) z(1) append_eq_append_conv2 [of xs us vs zs] by auto
  then show thesis
  proof
    assume a: "xs = vs @ ws \<and> ws @ us = zs"
    then have "ws = []" using x z assms(3) by simp
    then show thesis using that [of xs "[]" us] x z a by simp
  next
    assume "xs @ ws = vs \<and> us = ws @ zs"
    then show thesis using that [of xs ws zs] x z by auto
  qed
qed

subsection \<open>Division\<close>

lemma chunk_of_Nil: "chunk_of [] = slice_empty"
  by (simp add: chunk_of_def slice_empty_def)

lemma bits_take:
  "take (str_len xs) (bits char_bits (xs @ ys)) = bits char_bits xs"
  "take (str_len xs) (bits utf16_bits (xs @ ys)) = bits utf16_bits xs"
  "take (str_len xs) (bits (eq_bits k) (xs @ ys)) = bits (eq_bits k) xs"
  "take (str_len xs) (utf8 (xs @ ys)) = utf8 xs"
  by simp_all

lemma bits_drop:
  "drop (str_len xs) (bits char_bits (xs @ ys)) = bits char_bits ys"
  "drop (str_len xs) (bits utf16_bits (xs @ ys)) = bits utf16_bits ys"
  "drop (str_len xs) (bits (eq_bits k) (xs @ ys)) = bits (eq_bits k) ys"
  "drop (str_len xs) (utf8 (xs @ ys)) = utf8 ys"
  by simp_all

lemma slice_split_at_of:
  assumes "valid (xs @ ys)" and "str_len (xs @ ys) \<le> 128"
  shows "slice_split_at (chunk_of (xs @ ys)) (str_len xs) = Some (chunk_of xs, chunk_of ys)"
proof (cases "str_len xs = 128")
  case True
  then have "ys = []" using assms(2) by simp
  then show ?thesis using True by (simp add: slice_split_at_def MAX_BASE_def chunk_of_Nil)
next
  case False
  then have m: "str_len xs mod 128 = str_len xs" "str_len xs \<noteq> MAX_BASE" using assms(2) by (simp_all add: MAX_BASE_def)
  have b: "str_is_char_boundary (utf8 (xs @ ys)) (str_len xs)" using str_boundary [OF assms(1)] boundary_append by simp
  have l: "length (bits f (xs @ ys)) \<le> 128" if "f \<in> {char_bits, utf16_bits, eq_bits 10, eq_bits 9}" for f
    using that assms(2) by auto
  show ?thesis
    unfolding slice_split_at_def Let_def shl_def m(1) chunk_of_fields bitmap_take str_split_at_def if_P [OF b] bits_take bits_drop
    using m(2) l by (simp only: bitmap_drop bits_drop if_False insert_iff simp_thms option.simps bind.bind_lunit prod.case)
      (simp add: chunk_of_def)
qed

lemma slice_split_at_panics:
  assumes "valid cs" and "\<not> boundary cs i" and "i \<noteq> 128"
  shows "slice_split_at (chunk_of cs) i = None"
  using assms by (simp add: slice_split_at_def MAX_BASE_def str_split_at_def str_boundary Let_def)

lemma bits_range:
  assumes "str_len (xs @ ys @ zs) \<le> 128"
  shows "drop_bit (str_len xs) (and (bitmap (bits char_bits (xs @ ys @ zs))) (push_bit (str_len (xs @ ys)) 1 - 1)) = bitmap (bits char_bits ys)"
    "drop_bit (str_len xs) (and (bitmap (bits utf16_bits (xs @ ys @ zs))) (push_bit (str_len (xs @ ys)) 1 - 1)) = bitmap (bits utf16_bits ys)"
    "drop_bit (str_len xs) (and (bitmap (bits (eq_bits k) (xs @ ys @ zs))) (push_bit (str_len (xs @ ys)) 1 - 1)) = bitmap (bits (eq_bits k) ys)"
proof -
  have "drop_bit (str_len xs) (and (bitmap (bs @ cs @ ds)) (push_bit (str_len (xs @ ys)) 1 - 1)) = bitmap cs"
    if "length bs = str_len xs" "length cs = str_len ys" for bs cs ds
    unfolding bitmap_take using that assms by (simp add: bitmap_drop)
  then show "drop_bit (str_len xs) (and (bitmap (bits char_bits (xs @ ys @ zs))) (push_bit (str_len (xs @ ys)) 1 - 1)) = bitmap (bits char_bits ys)"
    "drop_bit (str_len xs) (and (bitmap (bits utf16_bits (xs @ ys @ zs))) (push_bit (str_len (xs @ ys)) 1 - 1)) = bitmap (bits utf16_bits ys)"
    "drop_bit (str_len xs) (and (bitmap (bits (eq_bits k) (xs @ ys @ zs))) (push_bit (str_len (xs @ ys)) 1 - 1)) = bitmap (bits (eq_bits k) ys)"
    by (simp_all only: bits_simps length_bits)
qed

lemma str_slice_of:
  assumes "valid (xs @ ys @ zs)"
  shows "str_slice (utf8 (xs @ ys @ zs)) (str_len xs) (str_len (xs @ ys)) = Some (utf8 ys)"
  using str_boundary [OF assms] boundary_append [of xs "ys @ zs"] boundary_append [of "xs @ ys" zs]
  by (simp add: str_slice_def)

text \<open>The offsets snap to boundaries: the start up, the end down.\<close>

definition snap_start :: "rust_char list \<Rightarrow> nat \<Rightarrow> nat" where
  "snap_start cs i = (if boundary cs i then i else str_ceil_char_boundary (utf8 cs) i)"

definition snap_end :: "rust_char list \<Rightarrow> nat \<Rightarrow> nat \<Rightarrow> nat" where
  "snap_end cs s j = (if boundary cs j then j else if j < s then s else str_floor_char_boundary (utf8 cs) j)"

lemma slice_range_snap:
  assumes v: "valid cs" and l: "str_len cs \<le> 128" and i: "i < 2 ^ 32" "i \<noteq> 128" and j: "j < 2 ^ 32"
    and s: "snap_start cs i = str_len xs" "str_len xs \<noteq> 128"
    and e: "snap_end cs (str_len xs) j = str_len (xs @ ys)" and cs: "cs = xs @ ys @ zs"
  shows "slice_range (chunk_of cs) i j = Some (chunk_of ys)"
proof -
  have a: "assert_char_boundary False (chunk_of cs) k = Some (boundary cs k)" if "k < 2 ^ 32" for k
    using chunk_boundary [OF l that] by (simp add: assert_char_boundary_def)
  have n: "str_len (xs @ ys) mod 2 ^ 32 = str_len (xs @ ys)" "str_len xs mod 128 = str_len xs" using l cs s(2) by simp_all
  have l': "str_len (xs @ ys @ zs) \<le> 128" and v': "valid (xs @ ys @ zs)" using l v by (simp_all only: cs)
  have i': "i \<noteq> MAX_BASE" using i(2) by (simp add: MAX_BASE_def)
  show ?thesis
    unfolding slice_range_def if_not_P [OF i'] a [OF i(1)] a [OF j] bind.bind_lunit Let_def chunk_of_fields
      snap_start_def [of cs i, symmetric] s(1) snap_end_def [symmetric] e n
    unfolding cs str_slice_of [OF v'] bits_range [OF l'] bind.bind_lunit by (simp add: chunk_of_def)
qed

lemma slice_range_of:
  assumes "valid (xs @ ys @ zs)" and "str_len (xs @ ys @ zs) \<le> 128"
  shows "slice_range (chunk_of (xs @ ys @ zs)) (str_len xs) (str_len (xs @ ys)) = Some (chunk_of ys)"
proof (cases "str_len xs = 128")
  case True
  then have "ys = []" using assms(2) by simp
  then show ?thesis using True by (simp add: slice_range_def MAX_BASE_def chunk_of_Nil)
next
  case False
  have "snap_start (xs @ ys @ zs) (str_len xs) = str_len xs"
    "snap_end (xs @ ys @ zs) (str_len xs) (str_len (xs @ ys)) = str_len (xs @ ys)"
    using boundary_append [of xs "ys @ zs"] boundary_append [of "xs @ ys" zs] by (simp_all add: snap_start_def snap_end_def)
  then show ?thesis using slice_range_snap [OF assms] assms(2) False by simp
qed

text \<open>Where the offsets snap to.\<close>

lemma floor_boundary_snap:
  "floor_boundary t i \<le> i \<and> (floor_boundary t i = 0 \<or> is_utf8_char_boundary (t ! floor_boundary t i)) \<and>
   (\<forall>k. floor_boundary t i < k \<and> k \<le> i \<longrightarrow> \<not> is_utf8_char_boundary (t ! k))"
proof (induction t i rule: floor_boundary.induct)
  case (2 t i)
  then show ?case by (auto simp: le_Suc_eq)
qed simp

lemma boundary_bytes:
  "valid cs \<Longrightarrow> boundary cs k \<longleftrightarrow> k = 0 \<or> (if str_len cs \<le> k then k = str_len cs else is_utf8_char_boundary (utf8 cs ! k))"
  using str_boundary [of cs k] unfolding str_is_char_boundary_def length_utf8 by blast

lemma str_floor_snap:
  assumes "valid cs" and "\<not> boundary cs j"
  shows "boundary cs (str_floor_char_boundary (utf8 cs) j)"
    and "\<And>k. boundary cs k \<Longrightarrow> k \<le> j \<Longrightarrow> k \<le> str_floor_char_boundary (utf8 cs) j"
    and "str_floor_char_boundary (utf8 cs) j \<le> j"
proof -
  let ?f = "str_floor_char_boundary (utf8 cs) j"
  note b = boundary_bytes [OF assms(1)]
  note s = floor_boundary_snap [of "utf8 cs" j]
  show "?f \<le> j" using s by (auto simp: str_floor_char_boundary_def)
  show "boundary cs ?f"
  proof (cases "str_len cs \<le> j")
    case True
    then show ?thesis using b [of "str_len cs"] by (simp add: str_floor_char_boundary_def)
  next
    case False
    then show ?thesis using s b [of ?f] by (auto simp: str_floor_char_boundary_def)
  qed
  show "k \<le> ?f" if "boundary cs k" "k \<le> j" for k
  proof (cases "str_len cs \<le> j")
    case True
    then show ?thesis using boundary_le [OF that(1)] by (simp add: str_floor_char_boundary_def)
  next
    case False
    then have "k = 0 \<or> is_utf8_char_boundary (utf8 cs ! k)" using b [of k] that by (auto split: if_splits)
    then show ?thesis using s that(2) False by (auto simp: str_floor_char_boundary_def not_le)
  qed
qed

lemma str_ceil_snap:
  assumes "valid cs"
  shows "boundary cs (str_ceil_char_boundary (utf8 cs) i)"
    and "\<And>k. boundary cs k \<Longrightarrow> i \<le> k \<Longrightarrow> i \<noteq> 0 \<Longrightarrow> str_ceil_char_boundary (utf8 cs) i \<le> k"
    and "i \<le> str_len cs \<Longrightarrow> i \<le> str_ceil_char_boundary (utf8 cs) i"
proof -
  let ?c = "str_ceil_char_boundary (utf8 cs) i" and ?w = "takeWhile (\<lambda>b. \<not> is_utf8_char_boundary b) (drop i (utf8 cs))"
  note b = boundary_bytes [OF assms(1)]
  have w: "length ?w \<le> str_len cs - i" using length_takeWhile_le [of _ "drop i (utf8 cs)"] by simp
  have c: "?c = (if str_len cs \<le> i then str_len cs else i + length ?w)" by (simp add: str_ceil_char_boundary_def)
  show "i \<le> str_len cs \<Longrightarrow> i \<le> ?c" by (simp add: c)
  have "is_utf8_char_boundary (utf8 cs ! (i + length ?w))" if "i + length ?w < str_len cs"
    using nth_length_takeWhile [of "\<lambda>b. \<not> is_utf8_char_boundary b" "drop i (utf8 cs)"] that by simp
  then show "boundary cs ?c" using w unfolding c b by auto
  show "?c \<le> k" if "boundary cs k" "i \<le> k" "i \<noteq> 0" for k
  proof (rule ccontr)
    assume "\<not> ?c \<le> k"
    then have k: "k < str_len cs" "k - i < length ?w" using boundary_le [OF that(1)] w that(2) c by (auto split: if_splits)
    then have "?w ! (k - i) = utf8 cs ! k" using takeWhile_nth [of "k - i" _ "drop i (utf8 cs)"] that(2) by simp
    then have "\<not> is_utf8_char_boundary (utf8 cs ! k)" using k(2) nth_mem set_takeWhileD by metis
    then show False using b [of k] that k(1) by simp
  qed
qed

text \<open>A slice whose end is not before its start never panics.\<close>

lemma slice_range_total:
  assumes v: "valid cs" and l: "str_len cs \<le> 128" and ij: "i \<le> j" "j < 2 ^ 32" and s: "i = 128 \<or> snap_start cs i \<noteq> 128"
  obtains xs ys zs where "cs = xs @ ys @ zs" "slice_range (chunk_of cs) i j = Some (chunk_of ys)"
    "i \<noteq> 128 \<longrightarrow> str_len xs = snap_start cs i \<and> str_len (xs @ ys) = snap_end cs (snap_start cs i) j"
proof (cases "i = 128")
  case True
  then show thesis using that [of cs "[]" "[]"] by (simp add: slice_range_def MAX_BASE_def chunk_of_Nil)
next
  case False
  let ?s = "snap_start cs i" and ?e = "snap_end cs (snap_start cs i) j"
  have bs: "boundary cs ?s" using str_ceil_snap(1) [OF v] by (simp add: snap_start_def)
  have le: "?s \<le> k" if "boundary cs k" "i \<le> k" for k
    using str_ceil_snap(2) [OF v that] that(2) by (cases "i = 0") (auto simp: snap_start_def)
  have be: "boundary cs ?e" using str_floor_snap(1) [OF v, of j] bs by (simp add: snap_end_def)
  have "?s \<le> ?e" using le [of j] ij str_floor_snap(2) [OF v _ bs] by (auto simp: snap_end_def)
  then obtain xs ys zs where x: "cs = xs @ ys @ zs" "?s = str_len xs" "?e = str_len (xs @ ys)"
    using boundary_split [OF bs be] by metis
  have "slice_range (chunk_of cs) i j = Some (chunk_of ys)"
    by (rule slice_range_snap [OF v l _ False ij(2) x(2) _ _ x(1)]) (use x s False ij in simp_all)
  then show thesis using that [of xs ys zs] x by simp
qed

subsection \<open>The properties\<close>

text \<open>C21. The editing operations of a chunk keep text and bitmaps together: on chunks of texts of at most
  128 bytes, \<open>new\<close>, \<open>push_str\<close>, \<open>prepend_str\<close>, \<open>append\<close> and \<open>prepend\<close> give the chunk of the
  concatenated text (with the bitmaps that construction from scratch gives), or panic when it is longer
  than 128 bytes; \<open>split_at\<close> at the end of a prefix gives the chunks of the two parts, and between two
  bytes of a character it panics.\<close>

theorem chunk_editing:
  assumes "valid (xs @ ys)" and "str_len xs \<le> 128" and "str_len ys \<le> 128"
  shows "chunk_new (utf8 xs) = Some (chunk_of xs) \<and>
    chunk_push_str (chunk_of xs) (utf8 ys) = (if str_len (xs @ ys) \<le> 128 then Some (chunk_of (xs @ ys)) else None) \<and>
    chunk_prepend_str (chunk_of ys) (utf8 xs) = (if str_len (xs @ ys) \<le> 128 then Some (chunk_of (xs @ ys)) else None) \<and>
    chunk_append (chunk_of xs) (chunk_of ys) = (if str_len (xs @ ys) \<le> 128 then Some (chunk_of (xs @ ys)) else None) \<and>
    chunk_prepend (chunk_of ys) (chunk_of xs) = (if str_len (xs @ ys) \<le> 128 then Some (chunk_of (xs @ ys)) else None) \<and>
    (str_len (xs @ ys) \<le> 128 \<longrightarrow> slice_split_at (chunk_of (xs @ ys)) (str_len xs) = Some (chunk_of xs, chunk_of ys)) \<and>
    (\<forall>i < 128. \<not> str_is_char_boundary (utf8 xs) i \<longrightarrow> slice_split_at (chunk_of xs) i = None)"
proof (intro conjI allI impI)
  have v: "valid xs" "valid ys" using assms(1) by simp_all
  show "chunk_new (utf8 xs) = Some (chunk_of xs)" using chunk_new_of [OF v(1)] assms(2) by simp
  show "chunk_push_str (chunk_of xs) (utf8 ys) = (if str_len (xs @ ys) \<le> 128 then Some (chunk_of (xs @ ys)) else None)"
    by (rule chunk_push_str_of [OF v(2) assms(2)])
  show "chunk_prepend_str (chunk_of ys) (utf8 xs) = (if str_len (xs @ ys) \<le> 128 then Some (chunk_of (xs @ ys)) else None)"
    by (rule chunk_prepend_str_of [OF v(1) assms(3)])
  have "str_len [] = 0" by simp
  then show "chunk_append (chunk_of xs) (chunk_of ys) = (if str_len (xs @ ys) \<le> 128 then Some (chunk_of (xs @ ys)) else None)"
    using assms(2) unfolding chunk_append_of by (cases "ys = []") simp_all
  show "chunk_prepend (chunk_of ys) (chunk_of xs) = (if str_len (xs @ ys) \<le> 128 then Some (chunk_of (xs @ ys)) else None)"
    by (rule chunk_prepend_of [OF v(1) assms(3)])
  show "slice_split_at (chunk_of (xs @ ys)) (str_len xs) = Some (chunk_of xs, chunk_of ys)" if "str_len (xs @ ys) \<le> 128"
    by (rule slice_split_at_of [OF assms(1) that])
  show "slice_split_at (chunk_of xs) i = None" if "i < 128" "\<not> str_is_char_boundary (utf8 xs) i" for i
    using slice_split_at_panics [OF v(1)] str_boundary [OF v(1)] that by simp
qed

theorem chunk_editing_witness:
  "chunk_push_str (chunk_of [97, 10]) (utf8 [233, 128512]) = Some (chunk_of [97, 10, 233, 128512]) \<and>
   slice_split_at (chunk_of [97, 10, 233, 128512]) 2 = Some (chunk_of [97, 10], chunk_of [233, 128512]) \<and>
   slice_split_at (chunk_of [233, 128512]) 1 = None"
proof -
  have v: "valid ([97, 10] @ [233, 128512])" "valid ([233, 128512] @ [])" by (simp_all add: scalar_value_def)
  have l: "str_len [97, 10] = 2" "str_len [233, 128512] = 6" "str_len [97, 10, 233, 128512] = 8" "str_len [] = 0"
    by (simp_all add: str_len_def len_utf8_def)
  have "utf8 [233, 128512] ! 1 = 0xA9" by (simp add: encode_char_def)
  then have "\<not> str_is_char_boundary (utf8 [233, 128512]) 1"
    using boundary_byte [of "0xA9"] by (simp only: str_is_char_boundary_def length_utf8 l) simp
  then show ?thesis
    using chunk_editing [OF v(1)] chunk_editing [OF v(2)] unfolding append.simps append_Nil2 l by auto
qed

text \<open>C25. Slicing never panics when the end is not before the start: the offsets snap to the character
  boundaries, the start up and the end down, and the slice has the text between them with its bitmaps,
  whenever the start does not snap to 128.\<close>

theorem slice_snaps:
  assumes "valid cs" and "str_len cs \<le> 128" and "i \<le> j" and "j < 2 ^ 32" and "i \<noteq> 128" and "snap_start cs i \<noteq> 128"
  shows "\<exists>xs ys zs. cs = xs @ ys @ zs \<and> chunk_slice_range (chunk_of cs) i j = Some (chunk_of ys) \<and>
    str_len xs = snap_start cs i \<and> str_len (xs @ ys) = snap_end cs (snap_start cs i) j"
proof (rule slice_range_total [OF assms(1-4)])
  show "i = 128 \<or> snap_start cs i \<noteq> 128" using assms(6) by blast
qed (use assms(5) in \<open>auto simp: as_slice_def chunk_slice_range_def\<close>)

theorem slice_snaps_witness:
  "\<exists>xs ys zs. [97, 233, 10] = xs @ ys @ zs \<and> chunk_slice_range (chunk_of [97, 233, 10]) 0 2 = Some (chunk_of ys) \<and>
     str_len xs = 0"
proof -
  have "valid [97, 233, 10]" "str_len [97, 233, 10] \<le> 128" "snap_start [97, 233, 10] 0 = 0"
    by (simp_all add: scalar_value_def str_len_def len_utf8_def snap_start_def)
  then show ?thesis using slice_snaps [of "[97, 233, 10]" 0 2] by auto
qed

text \<open>C26. When the start of a slice lies inside the last character of a full chunk, it snaps to 128 and
  the bitmaps are shifted by 128, which a release build takes as 0: the slice has no text but all the
  bitmaps of the chunk, so that its summary counts the characters of the chunk.\<close>

theorem slice_snaps_to_end:
  assumes "valid cs" and "str_len cs = 128" and "i \<noteq> 128" and "i < 2 ^ 32" and "snap_start cs i = 128"
  shows "chunk_slice_range (chunk_of cs) i 128 = Some ((chunk_of cs)\<lparr>ck_text := []\<rparr>) \<and>
    slice_len_utf16 ((chunk_of cs)\<lparr>ck_text := []\<rparr>) = slice_len_utf16 (chunk_of cs)"
proof -
  have b: "boundary cs 128" using boundary_append [of cs "[]"] assms(2) by simp
  then have e: "snap_end cs 128 128 = 128" by (simp add: snap_end_def)
  have a: "assert_char_boundary False (chunk_of cs) k = Some (boundary cs k)" if "k < 2 ^ 32" for k
    using chunk_boundary [of cs k] assms(2) that by (simp add: assert_char_boundary_def)
  have i': "i \<noteq> MAX_BASE" using assms(3) by (simp add: MAX_BASE_def)
  have "push_bit (128 mod 2 ^ 32) 1 - 1 = (- 1 :: u128)" by simp
  then have m: "and w (push_bit (128 mod 2 ^ 32) 1 - 1) = w" for w :: u128 by (simp only: and.right_neutral)
  have t: "str_slice (utf8 cs) 128 128 = Some []" using str_boundary [OF assms(1)] b by (simp add: str_slice_def)
  have k: "assert_char_boundary False (chunk_of cs) 128 = Some (boundary cs 128)" by (rule a) simp
  have "chunk_slice_range (chunk_of cs) i 128 = Some ((chunk_of cs)\<lparr>ck_text := []\<rparr>)"
    unfolding chunk_slice_range_def as_slice_def slice_range_def if_not_P [OF i'] a [OF assms(4)] k bind.bind_lunit Let_def
      chunk_of_fields snap_start_def [of cs i, symmetric] assms(5) snap_end_def [symmetric] e t m
    by (simp add: chunk_of_def)
  then show ?thesis by (simp add: slice_len_utf16_def)
qed

theorem slice_snaps_to_end_witness:
  "chunk_slice_range (chunk_of (replicate 125 97 @ [0x20AC])) 126 128 =
     Some ((chunk_of (replicate 125 97 @ [0x20AC]))\<lparr>ck_text := []\<rparr>)"
proof -
  let ?cs = "replicate 125 97 @ [0x20AC]"
  have v: "valid ?cs" by (simp add: valid_def scalar_value_def)
  have l: "str_len ?cs = 128" by (simp add: str_len_def len_utf8_def sum_list_replicate)
  have u: "concat (replicate n [x]) = replicate n x" for n and x :: u8 by (induction n) simp_all
  have "utf8 ?cs = replicate 125 97 @ [0xE2, 0x82, 0xAC]" by (simp add: utf8_def encode_char_def u)
  moreover have "\<not> is_utf8_char_boundary 0x82" "\<not> is_utf8_char_boundary 0xAC"
    using boundary_byte [of "0x82"] boundary_byte [of "0xAC"] by simp_all
  ultimately have "snap_start ?cs 126 = 128" using l boundary_bytes [OF v, of 126]
    by (simp add: snap_start_def str_ceil_char_boundary_def nth_append)
  then show ?thesis using slice_snaps_to_end [OF v l] by simp
qed

end
