(* ===== verification/ChunkSummary.thy ===== *)
theory ChunkSummary
  imports ChunkText
begin

text \<open>
  The measures of a chunk (\<open>len\<close>, \<open>lines\<close>, \<open>first_line_chars\<close>, \<open>longest_row\<close>, \dots, and
  \<open>text_summary\<close> in \<open>crates/rope/src/chunk.rs\<close>), which count bits, are those that
  \<open>TextSummary::from\<close> finds by a pass over the characters.
\<close>

subsection \<open>Counting\<close>

definition utf16_len :: "rust_char list \<Rightarrow> nat" where
  "utf16_len cs = sum_list (map len_utf16 cs)"

lemma utf16_len_simps [simp]: "utf16_len [] = 0" "utf16_len (c # cs) = len_utf16 c + utf16_len cs"
  "utf16_len (cs @ ds) = utf16_len cs + utf16_len ds"
  by (simp_all add: utf16_len_def)

lemma str_len_simps [simp]: "str_len [] = 0" "str_len (c # cs) = len_utf8 c + str_len cs"
  by (simp_all add: str_len_def)

lemma ones_replicate [simp]: "ones (replicate n False) = 0"
  by (induction n) simp_all

lemma ones_bits [simp]:
  "ones (bits char_bits cs) = length cs" "ones (bits utf16_bits cs) = utf16_len cs"
  "ones (bits (eq_bits k) cs) = count_list cs k"
  by (induction cs) (simp_all add: char_bits_def utf16_bits_def eq_bits_def len_utf16_def)

lemma length_le_str_len: "length cs \<le> str_len cs"
proof (induction cs)
  case (Cons c cs)
  then show ?case using len_utf8_pos [of c] by simp
qed simp

lemma eq_bits_newline [simp]: "eq_bits 10 10 = [True]" "len_utf8 10 = 1" "len_utf16 10 = 1" "char_bits 10 = [True]"
  "utf16_bits 10 = [True]"
  by (simp_all add: eq_bits_def len_utf8_def len_utf16_def char_bits_def utf16_bits_def)

lemma no_newline_bits: "10 \<notin> set cs \<Longrightarrow> bits (eq_bits 10) cs = replicate (str_len cs) False"
proof (induction cs)
  case (Cons c cs)
  have "eq_bits 10 c = replicate (len_utf8 c) False"
    using Cons.prems len_utf8_pos [of c] by (cases "len_utf8 c") (auto simp: eq_bits_def)
  then show ?case using Cons by (simp add: replicate_add)
qed simp

subsection \<open>Lines\<close>

text \<open>A text that ends with a newline or is empty.\<close>

definition line_end :: "rust_char list \<Rightarrow> bool" where
  "line_end cs \<longleftrightarrow> cs = [] \<or> last cs = 10"

lemma last_line:
  obtains as bs where "cs = as @ bs" "line_end as" "10 \<notin> set bs"
proof (cases "10 \<in> set cs")
  case True
  then obtain as bs where "cs = as @ 10 # bs" "10 \<notin> set bs" by (metis split_list_last)
  then show thesis using that [of "as @ [10]" bs] by (simp add: line_end_def)
qed (use that [of "[]" cs] in \<open>simp add: line_end_def\<close>)

lemma first_line:
  obtains as bs where "cs = as @ bs" "10 \<notin> set as" "bs = [] \<or> (\<exists>ds. bs = 10 # ds)"
proof (cases "10 \<in> set cs")
  case True
  then obtain as bs where "cs = as @ 10 # bs" "10 \<notin> set as" by (metis split_list_first)
  then show thesis using that [of as "10 # bs"] by simp
qed (use that [of cs "[]"] in simp)

lemma line_end_snoc: "line_end cs \<Longrightarrow> cs \<noteq> [] \<Longrightarrow> \<exists>ds. cs = ds @ [10]"
  by (metis append_butlast_last_id line_end_def)

lemma dropWhile_replicate: "dropWhile Not (replicate n False @ xs) = dropWhile Not xs"
  by (induction n) simp_all

lemma after_last_newlines:
  assumes "line_end as" and "10 \<notin> set bs"
  shows "after_last (bits (eq_bits 10) (as @ bs)) = str_len as"
proof (cases "as = []")
  case True
  then show ?thesis using assms(2) dropWhile_replicate [of "str_len bs" "[]"] by (simp add: after_last_def no_newline_bits)
next
  case False
  then obtain ds where "as = ds @ [10]" using line_end_snoc assms(1) by blast
  then show ?thesis using assms(2) by (simp add: after_last_def no_newline_bits dropWhile_replicate)
qed

text \<open>The summary of a line, and of a text that ends with a newline.\<close>

abbreviation scan :: "rust_char list \<Rightarrow> (nat, nat) text_summary" where
  "scan cs \<equiv> ts_scan cs"

lemma scan_counts [simp]: "ts_chars (scan cs) = length cs" "ts_len_utf16 (scan cs) = OffsetUtf16 (utf16_len cs)"
  by (induction cs rule: rev_induct)
    (simp_all add: ts_scan_simps ts_zero_def zero_offset_utf16_eq plus_offset_utf16_eq)

lemma scan_rows [simp]: "row (ts_lines (scan cs)) = count_list cs 10"
  by (induction cs rule: rev_induct) (simp_all add: ts_scan_simps ts_zero_def zero_point_eq plus_point_eq newline_char_def)

lemma scan_line:
  "10 \<notin> set cs \<Longrightarrow> ts_lines (scan cs) = Point 0 (str_len cs) \<and> ts_last_line_chars (scan cs) = length cs \<and>
    ts_first_line_chars (scan cs) = length cs \<and> ts_last_line_len_utf16 (scan cs) = utf16_len cs \<and>
    ts_longest_row (scan cs) = 0 \<and> ts_longest_row_chars (scan cs) = length cs"
proof (induction cs rule: rev_induct)
  case (snoc c cs)
  then have IH: "ts_lines (scan cs) = Point 0 (str_len cs)" "ts_last_line_chars (scan cs) = length cs"
    "ts_first_line_chars (scan cs) = length cs" "ts_last_line_len_utf16 (scan cs) = utf16_len cs"
    "ts_longest_row (scan cs) = 0" "ts_longest_row_chars (scan cs) = length cs" "c \<noteq> newline_char"
    by (simp_all add: newline_char_def)
  then show ?case using summary_step_longest [of "scan cs" c] by (simp add: ts_scan_simps)
qed (simp add: ts_scan_simps ts_zero_def zero_point_eq)

lemma scan_line_end:
  assumes "line_end cs"
  shows "ts_lines (scan cs) = Point (count_list cs 10) 0" "ts_last_line_chars (scan cs) = 0" "ts_last_line_len_utf16 (scan cs) = 0"
proof -
  have "ts_lines (scan cs) = Point (count_list cs 10) 0 \<and> ts_last_line_chars (scan cs) = 0 \<and> ts_last_line_len_utf16 (scan cs) = 0"
  proof (cases "cs = []")
    case False
    then obtain ds where d: "cs = ds @ [newline_char]" using line_end_snoc [OF assms] by (auto simp: newline_char_def)
    show ?thesis unfolding d ts_scan_simps by (simp add: plus_point_eq newline_char_def)
  qed (simp add: ts_scan_simps ts_zero_def zero_point_eq)
  then show "ts_lines (scan cs) = Point (count_list cs 10) 0" "ts_last_line_chars (scan cs) = 0" "ts_last_line_len_utf16 (scan cs) = 0"
    by simp_all
qed

lemma scan_last_line:
  assumes "line_end as" and "10 \<notin> set bs"
  shows "ts_lines (scan (as @ bs)) = Point (count_list as 10) (str_len bs)" "ts_last_line_chars (scan (as @ bs)) = length bs"
    "ts_last_line_len_utf16 (scan (as @ bs)) = utf16_len bs"
  using scan_line_end [OF assms(1)] scan_line [OF assms(2)] by (simp_all add: ts_scan_append plus_point_eq)

lemma scan_first_line:
  assumes "10 \<notin> set as" and "bs = [] \<or> (\<exists>ds. bs = 10 # ds)"
  shows "ts_first_line_chars (scan (as @ bs)) = length as"
proof (cases "bs = []")
  case False
  then obtain ds where d: "bs = [10] @ ds" using assms(2) by auto
  have "ts_first_line_chars (scan bs) = 0"
    unfolding d ts_scan_append by (simp add: ts_scan_def ts_zero_def newline_char_def zero_point_eq plus_point_eq)
  then show ?thesis using scan_line [OF assms(1)] by (simp add: ts_scan_append)
qed (use scan_line [OF assms(1)] in simp)

subsection \<open>The measures\<close>

lemma lines_of: "str_len cs \<le> 128 \<Longrightarrow> slice_lines (chunk_of cs) = ts_lines (scan cs)"
proof -
  assume l: "str_len cs \<le> 128"
  obtain as bs where c: "cs = as @ bs" "line_end as" "10 \<notin> set bs" by (rule last_line)
  have "count_list bs 10 = 0" using c(3) by (simp add: count_list_0_iff)
  then show ?thesis
    using l c scan_last_line [OF c(2,3)] by (simp add: slice_lines_def count_ones_bitmap leading_zeros_bitmap
        after_last_newlines [OF c(2,3), simplified])
qed

lemma last_line_of:
  assumes "str_len cs \<le> 128"
  shows "slice_last_line_chars (chunk_of cs) = ts_last_line_chars (scan cs)"
    and "slice_last_line_len_utf16 (chunk_of cs) = ts_last_line_len_utf16 (scan cs)"
proof -
  obtain as bs where c: "cs = as @ bs" "line_end as" "10 \<notin> set bs" by (rule last_line)
  have l: "leading_zeros (bitmap (bits (eq_bits 10) cs)) = 128 - str_len as"
    using assms by (simp only: leading_zeros_bitmap length_bits after_last_newlines [OF c(2,3), folded c(1)])
  have a: "str_len as \<le> 128" using assms c(1) by simp
  show "slice_last_line_chars (chunk_of cs) = ts_last_line_chars (scan cs)"
    unfolding slice_last_line_chars_def chunk_of_fields l using assms a scan_last_line [OF c(2,3)]
    by (simp add: count_ones_shr_mask c(1))
  show "slice_last_line_len_utf16 (chunk_of cs) = ts_last_line_len_utf16 (scan cs)"
    unfolding slice_last_line_len_utf16_def chunk_of_fields l using assms a scan_last_line [OF c(2,3)]
    by (simp add: count_ones_shr_mask c(1))
qed

lemma takeWhile_newline:
  assumes "10 \<notin> set as"
  shows "length (takeWhile Not (bits (eq_bits 10) (as @ 10 # ds))) = str_len as"
proof -
  have "takeWhile Not (replicate n False @ True # xs) = replicate n False" for n xs by (induction n) simp_all
  then show ?thesis using assms by (simp add: no_newline_bits)
qed

lemma trailing_newline:
  assumes "10 \<notin> set as" and "str_len (as @ bs) \<le> 128" and "bs = [] \<or> (\<exists>ds. bs = 10 # ds)"
  shows "trailing_zeros (bitmap (bits (eq_bits 10) (as @ bs))) = (if bs = [] then 128 else str_len as)"
proof (cases "bs = []")
  case True
  then show ?thesis using assms by (simp add: trailing_zeros_bitmap no_newline_bits)
next
  case False
  then obtain ds where "bs = 10 # ds" using assms(3) by blast
  then show ?thesis using assms takeWhile_newline [OF assms(1), of ds] by (simp add: trailing_zeros_bitmap)
qed

lemma first_line_of:
  assumes "str_len cs \<le> 128"
  shows "slice_first_line_chars (chunk_of cs) = ts_first_line_chars (scan cs)"
proof -
  obtain as bs where c: "cs = as @ bs" "10 \<notin> set as" "bs = [] \<or> (\<exists>ds. bs = 10 # ds)" by (rule first_line)
  show ?thesis
    using assms scan_first_line [OF c(2,3)] trailing_newline [OF c(2) _ c(3)]
    by (simp add: slice_first_line_chars_def bitmap_shl_mask c(1) count_ones_bitmap split: if_splits)
qed

text \<open>The loop of \<open>longest_row\<close>: after the lines of \<open>as\<close>, on the bitmaps of the rest.\<close>

declare longest_row_loop.simps [simp del]

lemma longest_row_loop_of:
  assumes "line_end as" and "str_len cs \<le> 128"
  shows "longest_row_loop (bitmap (bits char_bits cs)) (bitmap (bits (eq_bits 10) cs)) (count_list as 10)
      (ts_longest_row (scan as)) (ts_longest_row_chars (scan as)) (length as) =
    ((ts_longest_row (scan (as @ cs)), ts_longest_row_chars (scan (as @ cs))), length (as @ cs))"
  using assms
proof (induction "length cs" arbitrary: as cs rule: less_induct)
  case less
  obtain us vs where c: "cs = us @ vs" "10 \<notin> set us" "vs = [] \<or> (\<exists>ds. vs = 10 # ds)" by (rule first_line)
  have l: "length us \<le> 128" using length_le_str_len [of us] less.prems(2) by (simp add: c(1))
  then have m: "length us mod 256 = length us" by simp
  note e = scan_line_end [OF less.prems(1)] scan_line [OF c(2)]
  show ?case
  proof (cases "vs = []")
    case True
    have z: "bitmap (bits (eq_bits 10) cs) = 0"
      using True less.prems(2) c by (simp add: no_newline_bits bitmap_eq_0)
    have o: "count_ones (bitmap (bits char_bits cs)) mod 256 = length us"
      using True less.prems(2) c m by (simp add: count_ones_bitmap)
    have "(ts_longest_row (scan (as @ cs)), ts_longest_row_chars (scan (as @ cs))) =
        (if ts_longest_row_chars (scan as) < length us then (count_list as 10, length us)
         else (ts_longest_row (scan as), ts_longest_row_chars (scan as)))"
      using ts_add_longest [of "scan as" "scan us"] e True c(1) by (simp add: ts_scan_append)
    then show ?thesis
      unfolding z using o True c(1) by (simp add: Let_def longest_row_loop.simps [of _ 0])
  next
    case False
    then obtain ds where d: "vs = 10 # ds" using c(3) by blast
    have cs: "cs = (us @ [10]) @ ds" "str_len (us @ 10 # ds) \<le> 128" using c(1) d less.prems(2) by simp_all
    let ?n = "bitmap (bits (eq_bits 10) cs)" and ?c = "bitmap (bits char_bits cs)"
    have t: "trailing_zeros ?n = str_len us" using trailing_newline [OF c(2) _ c(3)] False less.prems(2) c(1) by simp
    have n: "?n \<noteq> 0" using cs by (simp add: bitmap_eq_0)
    have row_chars: "count_ones (and ?c (push_bit (str_len us) 1 - 1)) mod 256 = length us"
      unfolding bitmap_take using cs m by (simp add: count_ones_bitmap)
    have shifts: "drop_bit 1 (drop_bit (str_len us) ?n) = bitmap (bits (eq_bits 10) ds)"
      "drop_bit 1 (drop_bit (str_len us) ?c) = bitmap (bits char_bits ds)"
      using cs by (simp_all add: bitmap_drop del: drop_bit_drop_bit)
    let ?as = "as @ us @ [10]"
    have "ts_longest_row (scan (us @ [10])) = 0 \<and> ts_longest_row_chars (scan (us @ [10])) = length us \<and>
        ts_first_line_chars (scan (us @ [10])) = length us"
      using e(4) scan_first_line [OF c(2), of "[10]"] by (simp add: ts_scan_simps newline_char_def [symmetric])
    then have acc: "(ts_longest_row (scan ?as), ts_longest_row_chars (scan ?as)) =
        (if ts_longest_row_chars (scan as) < length us then (count_list as 10, length us)
         else (ts_longest_row (scan as), ts_longest_row_chars (scan as)))"
      using ts_add_longest [of "scan as" "scan (us @ [10])"] e(2) by (simp add: ts_scan_append [of as])
    have "line_end ?as" "str_len ds \<le> 128" "length ds < length cs" using cs by (simp_all add: line_end_def)
    note IH = less.hyps [OF this(3,1,2)]
    show ?thesis
      using IH acc count_list_0_iff [of us 10] c(2)
      unfolding longest_row_loop.simps [of _ ?n] if_P [OF n] Let_def t row_chars shifts
      by (cases "ts_longest_row_chars (scan as) < length us") (simp_all add: cs(1))
  qed
qed

lemma longest_row_of:
  assumes "str_len cs \<le> 128"
  shows "slice_longest_row (chunk_of cs) = ((ts_longest_row (scan cs), ts_longest_row_chars (scan cs)), length cs)"
  using longest_row_loop_of [of "[]", OF _ assms] by (simp add: slice_longest_row_def line_end_def ts_scan_simps ts_zero_def)

lemma text_summary_of:
  assumes "str_len cs \<le> 128"
  shows "slice_text_summary (chunk_of cs) = ts_from cs"
  using assms by (simp add: slice_text_summary_def longest_row_of lines_of last_line_of first_line_of ts_from_scan
      slice_len_def slice_len_utf16_def count_ones_bitmap)

text \<open>C22. The summary of a chunk, which counts and searches bits of its bitmaps, is the one that
  \<open>TextSummary::from\<close> computes by a pass over its characters, for every valid text of at most 128 bytes,
  the first longest row included; so are the values at the widths of the code.\<close>

theorem chunk_text_summary:
  assumes "str_len cs \<le> 128"
  shows "slice_text_summary (chunk_of cs) = ts_from cs \<and>
    ts_cast (slice_text_summary (chunk_of cs)) = (ts_from cs :: (u64, u32) text_summary)"
  using text_summary_of [OF assms] ts_from_cast [of cs] assms by simp

theorem chunk_text_summary_witness:
  "ts_longest_row (slice_text_summary (chunk_of [97, 10, 233, 128512, 10])) = 1 \<and>
   ts_lines (slice_text_summary (chunk_of [97, 10, 233, 128512, 10])) = Point 2 0 \<and>
   ts_len_utf16 (slice_text_summary (chunk_of [97, 10, 233, 128512, 10])) = OffsetUtf16 6"
  using chunk_text_summary [of "[97, 10, 233, 128512, 10]"]
  by (simp add: len_utf8_def len_utf16_def ts_from_def summary_step_def ts_zero_def newline_char_def Let_def
      zero_point_eq zero_offset_utf16_eq plus_point_eq)

end
