(* ===== verification/ChunkPosition.thy ===== *)
theory ChunkPosition
  imports ChunkSummary
begin

text \<open>
  The conversions between byte offsets, points, UTF-16 offsets and UTF-16 points in a chunk
  (\<open>crates/rope/src/chunk.rs\<close>), at the end of a prefix of its text: each kind of position is the
  measure of the prefix. Positions that are inside a character or outside the text are clipped.
\<close>

subsection \<open>From offsets\<close>

lemma mod_32: "n \<le> 128 \<Longrightarrow> n mod 2 ^ 32 = (n :: nat)"
  by simp

lemma prefix_le: "str_len (xs @ ys) \<le> 128 \<Longrightarrow> str_len xs \<le> 128"
  by simp

lemma offset_to_point_of:
  assumes "str_len (xs @ ys) \<le> 128"
  shows "slice_offset_to_point (chunk_of (xs @ ys)) (str_len xs) = ts_lines (scan xs)"
proof -
  note l = prefix_le [OF assms]
  obtain as bs where c: "xs = as @ bs" "line_end as" "10 \<notin> set bs" by (rule last_line)
  have "count_list bs 10 = 0" using c(3) by (simp add: count_list_0_iff)
  then show ?thesis
    unfolding slice_offset_to_point_def Let_def mod_32 [OF l] chunk_of_fields bitmap_take bits_take
    using l scan_last_line [OF c(2,3)] after_last_newlines [OF c(2,3)] c(1)
    by (simp add: count_ones_bitmap leading_zeros_bitmap)
qed

lemma offset_to_offset_utf16_of:
  assumes "str_len (xs @ ys) \<le> 128"
  shows "slice_offset_to_offset_utf16 (chunk_of (xs @ ys)) (str_len xs) = OffsetUtf16 (utf16_len xs)"
  unfolding slice_offset_to_offset_utf16_def Let_def mod_32 [OF prefix_le [OF assms]] chunk_of_fields bitmap_take bits_take
  using assms by (simp add: count_ones_bitmap)

lemma offset_to_point_utf16_of:
  assumes "str_len (xs @ ys) \<le> 128"
  shows "slice_offset_to_point_utf16 (chunk_of (xs @ ys)) (str_len xs) = lines_utf16 (scan xs)"
proof -
  note l = prefix_le [OF assms]
  obtain as bs where c: "xs = as @ bs" "line_end as" "10 \<notin> set bs" by (rule last_line)
  have b: "count_list bs 10 = 0" using c(3) by (simp add: count_list_0_iff)
  have d: "count_ones (drop_bit (str_len as) (bitmap (bits utf16_bits xs))) = utf16_len bs"
    using l by (simp add: bitmap_drop count_ones_bitmap c(1))
  have z: "utf16_len bs = 0" if "str_len as = 128" using that l c(1) by simp
  show ?thesis
    unfolding slice_offset_to_point_utf16_def Let_def mod_32 [OF l] chunk_of_fields saturating_shl_mask_def bitmap_take bits_take
    using l scan_last_line [OF c(2,3)] after_last_newlines [OF c(2,3)] b d z c(1)
    by (simp add: count_ones_bitmap leading_zeros_bitmap lines_utf16_def MAX_BASE_def)
qed

subsection \<open>From points\<close>

lemma row_start_of:
  assumes "line_end as" and "str_len (as @ bs) \<le> 128" and "as \<noteq> []"
  shows "nth_set_bit (bitmap (bits (eq_bits 10) (as @ bs))) (count_list as 10) + 1 = str_len as" "0 < count_list as 10"
proof -
  obtain ds where d: "as = ds @ [10]" using line_end_snoc assms(1,3) by blast
  have "nth_set_bit (bitmap (bits (eq_bits 10) (as @ bs))) (Suc (ones (bits (eq_bits 10) ds))) = length (bits (eq_bits 10) ds)"
    using nth_set_bit_bitmap [of "bits (eq_bits 10) ds" "bits (eq_bits 10) bs"] assms(2) by (simp add: d)
  then show "nth_set_bit (bitmap (bits (eq_bits 10) (as @ bs))) (count_list as 10) + 1 = str_len as" "0 < count_list as 10"
    by (simp_all add: d)
qed

lemma offset_range_of:
  assumes "line_end as" and "10 \<notin> set bs" and "ds = [] \<or> (\<exists>es. ds = 10 # es)" and "str_len (as @ bs @ ds) \<le> 128"
  shows "offset_range_for_row (chunk_of (as @ bs @ ds)) (count_list as 10) = (str_len as, str_len as + str_len bs)"
proof -
  let ?n = "bitmap (bits (eq_bits 10) (as @ bs @ ds))"
  have s: "(if 0 < count_list as 10 then nth_set_bit ?n (count_list as 10) + 1 else 0) = str_len as"
    using row_start_of [OF assms(1,4)] by (cases "as = []") simp_all
  have "trailing_zeros (drop_bit (str_len as) ?n) = (if ds = [] then 128 else str_len bs)"
    using trailing_newline [OF assms(2) _ assms(3)] assms(4) by (simp add: bitmap_drop)
  moreover have "min 128 (str_len bs) = str_len bs" "str_len as = 128 \<Longrightarrow> bs = []" using assms(4) by simp_all
  ultimately show ?thesis
    unfolding offset_range_for_row_def Let_def chunk_of_fields s by (simp add: MAX_BASE_def)
qed

text \<open>A prefix of a text: the lines before its last, the part of its last line, the rest of that line.\<close>

lemma position_split:
  obtains as bs cs ds where "xs = as @ bs" "ys = cs @ ds" "line_end as" "10 \<notin> set bs" "10 \<notin> set (bs @ cs)"
    "ds = [] \<or> (\<exists>es. ds = 10 # es)"
proof -
  obtain as bs where a: "xs = as @ bs" "line_end as" "10 \<notin> set bs" by (rule last_line)
  obtain cs ds where c: "ys = cs @ ds" "10 \<notin> set cs" "ds = [] \<or> (\<exists>es. ds = 10 # es)" by (rule first_line)
  show thesis by (rule that [OF a(1) c(1) a(2,3) _ c(3)]) (use a(3) c(2) in simp)
qed

lemma point_to_offset_of:
  assumes "str_len (xs @ ys) \<le> 128"
  shows "slice_point_to_offset (chunk_of (xs @ ys)) (ts_lines (scan xs)) = str_len xs"
proof -
  obtain as bs cs ds where p: "xs = as @ bs" "ys = cs @ ds" "line_end as" "10 \<notin> set bs" "10 \<notin> set (bs @ cs)"
    "ds = [] \<or> (\<exists>es. ds = 10 # es)" by (rule position_split)
  have "str_len (as @ (bs @ cs) @ ds) \<le> 128" using assms p by simp
  note r = offset_range_of [OF p(3,5,6) this]
  show ?thesis
    using r lines_of [OF assms] p by (simp add: slice_point_to_offset_def scan_last_line [OF p(3,4)])
qed

text \<open>A point beyond the text or beyond its row goes to the end of the text or of the row.\<close>

lemma point_to_offset_clips:
  assumes "line_end as" and "10 \<notin> set bs" and "ds = [] \<or> (\<exists>es. ds = 10 # es)" and "str_len (as @ bs @ ds) \<le> 128"
  shows "str_len bs \<le> k \<Longrightarrow> slice_point_to_offset (chunk_of (as @ bs @ ds)) (Point (count_list as 10) k) = str_len (as @ bs)"
    and "count_list (as @ bs @ ds) 10 < r \<Longrightarrow> slice_point_to_offset (chunk_of (as @ bs @ ds)) (Point r k) = str_len (as @ bs @ ds)"
  using offset_range_of [OF assms] lines_of [OF assms(4)]
  by (simp_all add: slice_point_to_offset_def slice_len_def)

subsection \<open>From UTF-16 offsets\<close>

lemma takeWhile_zeros: "length (takeWhile Not (replicate k False @ True # xs)) = k"
  by (induction k) simp_all

lemma bits_first: "ys \<noteq> [] \<Longrightarrow> \<exists>bs. bits utf16_bits ys = True # bs"
  by (cases ys) (auto simp: utf16_bits_def char_bits_def)

text \<open>The offset after the n-th set bit, moved over the unset ones.\<close>

lemma offset_utf16_bits:
  assumes "str_len cs \<le> 128" and "bits utf16_bits cs = us @ True # replicate k False @ vs" and "vs = [] \<or> (\<exists>ws. vs = True # ws)"
  shows "slice_offset_utf16_to_offset (chunk_of cs) (OffsetUtf16 (Suc (ones us))) = Suc (length us) + k"
proof -
  let ?b = "bitmap (bits utf16_bits cs)"
  have len: "str_len cs = Suc (length us) + k + length vs" using length_bits(2) [of cs] assms(2) by simp
  have n: "nth_set_bit ?b (Suc (ones us)) = length us"
    using nth_set_bit_bitmap [of us "replicate k False @ vs"] assms(1) length_bits(2) [of cs] unfolding assms(2) by simp
  have "trailing_zeros (drop_bit (Suc (length us)) ?b) = (if vs = [] then 128 else k)"
    using assms(1,3) length_bits(2) [of cs] takeWhile_zeros [of k]
    by (auto simp: bitmap_drop assms(2) trailing_zeros_bitmap)
  moreover have "k \<le> 128" using len assms(1) by simp
  ultimately show ?thesis using len assms(1) n by (auto simp: slice_offset_utf16_to_offset_def Let_def MAX_BASE_def)
qed

lemma utf16_bits_cases:
  obtains "c < 0x10000" "utf16_bits c = [] @ True # replicate (len_utf8 c - 1) False" "len_utf16 c = 1"
  | "0x10000 \<le> c" "utf16_bits c = [True] @ True # replicate 2 False" "len_utf8 c = 4" "len_utf16 c = 2"
proof (cases "c < 0x10000")
  case True
  then show thesis using that(1) by (simp add: utf16_bits_def char_bits_def len_utf16_def)
next
  case False
  moreover have "replicate 2 False = [False, False]" by (simp add: numeral_eq_Suc)
  ultimately show thesis using that(2) by (simp add: utf16_bits_def len_utf16_def len_utf8_def)
qed

lemma utf16_len_pos: "xs \<noteq> [] \<Longrightarrow> 0 < utf16_len xs"
  by (cases xs) (simp_all add: len_utf16_def)

lemma offset_utf16_to_offset_of:
  assumes "str_len (xs @ ys) \<le> 128"
  shows "slice_offset_utf16_to_offset (chunk_of (xs @ ys)) (OffsetUtf16 (utf16_len xs)) = str_len xs"
proof (cases xs rule: rev_cases)
  case (snoc zs c)
  have v: "bits utf16_bits ys = [] \<or> (\<exists>ws. bits utf16_bits ys = True # ws)" using bits_first by (cases "ys = []") auto
  show ?thesis
  proof (cases c rule: utf16_bits_cases)
    case 1
    then show ?thesis
      using offset_utf16_bits [OF assms _ v, of "bits utf16_bits zs" "len_utf8 c - 1"] snoc len_utf8_pos [of c] by simp
  next
    case 2
    then show ?thesis
      using offset_utf16_bits [OF assms _ v, of "bits utf16_bits zs @ [True]" 2] snoc by simp
  qed
qed (simp add: slice_offset_utf16_to_offset_def)

text \<open>Between the two code units of a wide character: one byte into it.\<close>

lemma offset_utf16_inside:
  assumes "str_len (zs @ c # ys) \<le> 128" and "0x10000 \<le> c"
  shows "slice_offset_utf16_to_offset (chunk_of (zs @ c # ys)) (OffsetUtf16 (utf16_len zs + 1)) = str_len zs + 1"
  using offset_utf16_bits [OF assms(1), of "bits utf16_bits zs" 0 "[True, False, False] @ bits utf16_bits ys"] assms(2)
  by (simp add: utf16_bits_def)

lemma not_boundary_inside:
  assumes "1 \<le> k" and "k < len_utf8 c"
  shows "\<not> boundary (zs @ c # ys) (str_len zs + k)"
proof -
  have "\<not> bits char_bits (zs @ c # ys) ! (str_len zs + k)"
  proof -
    have "k - Suc 0 < len_utf8 c - Suc 0" using assms by linarith
    then show ?thesis using assms by (simp add: nth_append char_bits_def nth_Cons')
  qed
  then show ?thesis unfolding boundary_bits using assms by simp
qed

lemma step_left_boundary: "str_is_char_boundary s i \<Longrightarrow> step_left s i = i"
  by (cases i) simp_all

subsection \<open>From UTF-16 points\<close>

text \<open>The text of a chunk around one of its rows: what is before the row, the row, the rest.\<close>

definition row_text :: "rust_char list \<Rightarrow> rust_char list \<Rightarrow> rust_char list \<Rightarrow> bool" where
  "row_text as bs ds \<longleftrightarrow> valid (as @ bs @ ds) \<and> line_end as \<and> 10 \<notin> set bs \<and> (ds = [] \<or> (\<exists>es. ds = 10 # es)) \<and>
     str_len (as @ bs @ ds) \<le> 128"

lemma row_line:
  assumes "row_text as bs ds"
  shows "slice_range (chunk_of (as @ bs @ ds)) (str_len as) (str_len as + str_len bs) = Some (chunk_of bs)"
    and "count_list as 10 \<le> row (slice_lines (chunk_of (as @ bs @ ds)))"
    and "slice_last_line_len_utf16 (chunk_of bs) = utf16_len bs" and "slice_len_utf16 (chunk_of bs) = OffsetUtf16 (utf16_len bs)"
    and "offset_range_for_row (chunk_of (as @ bs @ ds)) (count_list as 10) = (str_len as, str_len as + str_len bs)"
    and "str_len bs \<le> 128" and "valid bs" and "slice_len (chunk_of bs) = str_len bs"
proof -
  have a: "valid (as @ bs @ ds)" "line_end as" "10 \<notin> set bs" "ds = [] \<or> (\<exists>es. ds = 10 # es)" "str_len (as @ bs @ ds) \<le> 128"
    using assms by (simp_all add: row_text_def)
  show "slice_range (chunk_of (as @ bs @ ds)) (str_len as) (str_len as + str_len bs) = Some (chunk_of bs)"
    using slice_range_of [OF a(1,5)] by simp
  show "offset_range_for_row (chunk_of (as @ bs @ ds)) (count_list as 10) = (str_len as, str_len as + str_len bs)"
    by (rule offset_range_of [OF a(2-5)])
  show "count_list as 10 \<le> row (slice_lines (chunk_of (as @ bs @ ds)))" using lines_of [OF a(5)] by simp
  show "str_len bs \<le> 128" "valid bs" "slice_len (chunk_of bs) = str_len bs"
    "slice_len_utf16 (chunk_of bs) = OffsetUtf16 (utf16_len bs)"
    using a by (simp_all add: slice_len_utf16_def count_ones_bitmap slice_len_def)
  then show "slice_last_line_len_utf16 (chunk_of bs) = utf16_len bs" using last_line_of(2) scan_line [OF a(3)] by simp
qed

lemma position_row:
  assumes "valid (xs @ ys)" and "str_len (xs @ ys) \<le> 128"
  obtains as bs cs ds where "xs = as @ bs" "ys = cs @ ds" "line_end as" "10 \<notin> set bs" "row_text as (bs @ cs) ds"
proof (rule position_split [of xs ys])
  fix as bs cs ds
  assume p: "xs = as @ bs" "ys = cs @ ds" "line_end as" "10 \<notin> set bs" "10 \<notin> set (bs @ cs)" "ds = [] \<or> (\<exists>es. ds = 10 # es)"
  then show thesis using that [OF p(1-4)] assms by (simp add: row_text_def)
qed

lemma str_boundary_prefix: "valid (xs @ ys) \<Longrightarrow> str_is_char_boundary (utf8 (xs @ ys)) (str_len xs)"
  using str_boundary boundary_append by blast

lemma step_left_inside:
  assumes "valid (zs @ c # ys)" and "0x10000 \<le> c"
  shows "step_left (utf8 (zs @ c # ys)) (str_len zs + 1) = str_len zs" "\<not> str_is_char_boundary (utf8 (zs @ c # ys)) (str_len zs + 1)"
    "step_left (utf8 (zs @ c # ys)) (str_len zs) = str_len zs"
proof -
  have "len_utf8 c = 4" using assms(2) by (simp add: len_utf8_def)
  then show n: "\<not> str_is_char_boundary (utf8 (zs @ c # ys)) (str_len zs + 1)"
    using not_boundary_inside [of 1 c zs ys] str_boundary [OF assms(1)] by simp
  show s: "step_left (utf8 (zs @ c # ys)) (str_len zs) = str_len zs"
    by (rule step_left_boundary [OF str_boundary_prefix [OF assms(1)]])
  show "step_left (utf8 (zs @ c # ys)) (str_len zs + 1) = str_len zs" using n s by simp
qed

text \<open>At a character boundary.\<close>

lemma point_utf16_to_offset_of:
  assumes "valid (xs @ ys)" and "str_len (xs @ ys) \<le> 128"
  shows "slice_point_utf16_to_offset (chunk_of (xs @ ys)) (lines_utf16 (scan xs)) clip = Some (str_len xs)"
    and "slice_unclipped_point_utf16_to_point (chunk_of (xs @ ys)) (lines_utf16 (scan xs)) = Some (ts_lines (scan xs))"
proof -
  obtain as bs cs ds where p: "xs = as @ bs" "ys = cs @ ds" "line_end as" "10 \<notin> set bs" "row_text as (bs @ cs) ds"
    by (rule position_row [OF assms])
  have t: "xs @ ys = as @ (bs @ cs) @ ds" by (simp add: p)
  have c: "lines_utf16 (scan xs) = PointUtf16 (count_list as 10) (utf16_len bs)" "ts_lines (scan xs) = Point (count_list as 10) (str_len bs)"
    using scan_last_line [OF p(3,4)] by (simp_all add: p(1) lines_utf16_def)
  note r = row_line [OF p(5), folded t]
  have o: "slice_offset_utf16_to_offset (chunk_of (bs @ cs)) (OffsetUtf16 (utf16_len bs)) = str_len bs"
    by (rule offset_utf16_to_offset_of) (rule r(6))
  have b: "str_is_char_boundary (utf8 (xs @ ys)) (str_len as + str_len bs)" "str_is_char_boundary (utf8 (bs @ cs)) (str_len bs)"
    using str_boundary_prefix [OF assms(1)] str_boundary_prefix [OF r(7)] by (simp_all add: p(1))
  have z: "bs = []" if "utf16_len bs = 0" using utf16_len_pos [of bs] that by auto
  show "slice_point_utf16_to_offset (chunk_of (xs @ ys)) (lines_utf16 (scan xs)) clip = Some (str_len xs)"
    unfolding slice_point_utf16_to_offset_def c point_utf16.sel r(5) prod.case r(1) bind.bind_lunit r(3) o Let_def chunk_of_fields
    using r(2) b(1) z by (auto simp: p(1))
  have e: "str_len bs = str_len (bs @ cs)" if "utf16_len (bs @ cs) \<le> utf16_len bs"
    using that utf16_len_pos [of cs] by (cases cs) auto
  show "slice_unclipped_point_utf16_to_point (chunk_of (xs @ ys)) (lines_utf16 (scan xs)) = Some (ts_lines (scan xs))"
    unfolding slice_unclipped_point_utf16_to_point_def c point_utf16.sel r(5) prod.case r(1) bind.bind_lunit r(4) offset_utf16.sel
      r(8) o Let_def chunk_of_fields step_left_boundary [OF b(2)]
    using r(2) z e by auto
qed

text \<open>Between the two code units of a character.\<close>

lemma point_utf16_inside:
  assumes "valid (xs @ c # ys)" and "str_len (xs @ c # ys) \<le> 128" and "0x10000 \<le> c"
    and "lines_utf16 (scan xs) = PointUtf16 r k"
  shows "slice_point_utf16_to_offset (chunk_of (xs @ c # ys)) (PointUtf16 r (k + 1)) clip = Some (str_len xs)"
    and "slice_unclipped_point_utf16_to_point (chunk_of (xs @ c # ys)) (PointUtf16 r (k + 1)) = Some (ts_lines (scan xs))"
proof -
  obtain as bs cs' ds where p: "xs = as @ bs" "c # ys = cs' @ ds" "line_end as" "10 \<notin> set bs" "row_text as (bs @ cs') ds"
    by (rule position_row [OF assms(1,2)])
  obtain cs where cs: "cs' = c # cs" using p(2,5) assms(3) by (cases cs') (auto simp: row_text_def)
  have t: "xs @ c # ys = as @ (bs @ c # cs) @ ds" using p(1,2) cs by simp
  have e: "r = count_list as 10" "k = utf16_len bs" "ts_lines (scan xs) = Point (count_list as 10) (str_len bs)"
    using scan_last_line [OF p(3,4)] assms(4) by (simp_all add: p(1) lines_utf16_def)
  note w = row_line [OF p(5) [unfolded cs], folded t]
  have o: "slice_offset_utf16_to_offset (chunk_of (bs @ c # cs)) (OffsetUtf16 (utf16_len bs + 1)) = str_len bs + 1"
    by (rule offset_utf16_inside [OF w(6) assms(3)])
  note i = step_left_inside [OF assms(1,3)] step_left_inside [OF w(7) assms(3)]
  have a: "str_len as + (str_len bs + 1) = str_len xs + 1" "str_len xs + 1 - 1 = str_len xs" by (simp_all add: p(1))
  have c2: "len_utf16 c = 2" using assms(3) by (simp add: len_utf16_def)
  show "slice_point_utf16_to_offset (chunk_of (xs @ c # ys)) (PointUtf16 r (k + 1)) clip = Some (str_len xs)"
    unfolding slice_point_utf16_to_offset_def e point_utf16.sel w(5) prod.case w(1) bind.bind_lunit w(3) o Let_def chunk_of_fields a i(3)
    using w(2) i(2) c2 by auto
  show "slice_unclipped_point_utf16_to_point (chunk_of (xs @ c # ys)) (PointUtf16 r (k + 1)) = Some (ts_lines (scan xs))"
    unfolding slice_unclipped_point_utf16_to_point_def e point_utf16.sel w(5) prod.case w(1) bind.bind_lunit w(4) offset_utf16.sel
      w(8) o Let_def chunk_of_fields i(4)
    using w(2) c2 by auto
qed

text \<open>Beyond the row, and beyond the text.\<close>

lemma point_utf16_clips:
  assumes "row_text as bs ds" and "utf16_len bs < k"
  shows "slice_point_utf16_to_offset (chunk_of (as @ bs @ ds)) (PointUtf16 (count_list as 10) k) clip = Some (str_len (as @ bs))"
    and "slice_unclipped_point_utf16_to_point (chunk_of (as @ bs @ ds)) (PointUtf16 (count_list as 10) k) =
      Some (Point (count_list as 10) (str_len bs))"
  unfolding slice_point_utf16_to_offset_def slice_unclipped_point_utf16_to_point_def point_utf16.sel
    row_line(5) [OF assms(1)] prod.case row_line(1) [OF assms(1)] bind.bind_lunit row_line(3,4,8) [OF assms(1)] offset_utf16.sel Let_def
  using row_line(2) [OF assms(1)] assms(2) by auto

lemma point_utf16_beyond:
  assumes "str_len cs \<le> 128" and "count_list cs 10 < r"
  shows "slice_point_utf16_to_offset (chunk_of cs) (PointUtf16 r k) clip = Some (str_len cs)"
    and "slice_unclipped_point_utf16_to_point (chunk_of cs) (PointUtf16 r k) = Some (ts_lines (scan cs))"
  using assms lines_of [OF assms(1)]
  by (simp_all add: slice_point_utf16_to_offset_def slice_unclipped_point_utf16_to_point_def slice_len_def Let_def)

subsection \<open>Clipping UTF-16 positions\<close>

lemma clip_offset_loop_stop: "str_is_char_boundary s i \<Longrightarrow> clip_offset_loop s left i = Some i"
  by (simp add: clip_offset_loop.simps)

lemma clip_offset_loop_step:
  "\<not> str_is_char_boundary s i \<Longrightarrow> 0 < i \<Longrightarrow> i < 2 ^ 63 \<Longrightarrow>
    clip_offset_loop s left i = clip_offset_loop s left (if left then i - 1 else i + 1)"
  by (subst clip_offset_loop.simps) (auto simp: mod_if)

lemma clip_offset_of:
  assumes "valid (xs @ ys)" and "str_len (xs @ ys) \<le> 128"
  shows "slice_clip_offset_utf16 (chunk_of (xs @ ys)) (OffsetUtf16 (utf16_len xs)) left = Some (OffsetUtf16 (utf16_len xs))"
proof -
  have "xs = []" if "utf16_len xs = 0" using utf16_len_pos [of xs] that by auto
  moreover have "slice_len_utf16 (chunk_of (xs @ ys)) = OffsetUtf16 (utf16_len (xs @ ys))"
    using assms(2) by (simp add: slice_len_utf16_def count_ones_bitmap)
  moreover have "ys = []" if "utf16_len (xs @ ys) \<le> utf16_len xs" using utf16_len_pos [of ys] that by auto
  ultimately show ?thesis
    using offset_utf16_to_offset_of [OF assms(2)] offset_to_offset_utf16_of [OF assms(2)]
      clip_offset_loop_stop [OF str_boundary_prefix [OF assms(1)], of left]
    by (auto simp: slice_clip_offset_utf16_def Let_def zero_offset_utf16_eq)
qed

lemma clip_offset_inside:
  assumes "valid (xs @ c # ys)" and "str_len (xs @ c # ys) \<le> 128" and "0x10000 \<le> c"
  shows "slice_clip_offset_utf16 (chunk_of (xs @ c # ys)) (OffsetUtf16 (utf16_len xs + 1)) left =
    Some (OffsetUtf16 (utf16_len xs + (if left then 0 else 2)))"
proof -
  let ?t = "utf8 (xs @ c # ys)"
  have c: "len_utf8 c = 4" "len_utf16 c = 2" using assms(3) by (simp_all add: len_utf8_def len_utf16_def)
  have l: "str_len xs \<le> 124" using assms(2) c by simp
  have n: "\<not> str_is_char_boundary ?t (str_len xs + k)" if "1 \<le> k" "k < 4" for k
    using not_boundary_inside [of k c xs ys] that c str_boundary [OF assms(1)] by simp
  have s: "str_is_char_boundary ?t (str_len xs)" by (rule str_boundary_prefix [OF assms(1)])
  have e: "str_is_char_boundary ?t (str_len xs + 4)"
    using str_boundary_prefix [of "xs @ [c]" ys] assms(1) c by simp
  note step = clip_offset_loop_step [OF n] and stop = clip_offset_loop_stop
  have loop: "clip_offset_loop ?t left (str_len xs + 1) = Some (str_len xs + (if left then 0 else 4))"
  proof (cases left)
    case True
    then show ?thesis using step [of 1 left] stop [OF s] l by simp
  next
    case False
    have "clip_offset_loop ?t False (str_len xs + k) = clip_offset_loop ?t False (str_len xs + Suc k)" if "1 \<le> k" "k < 4" for k
      using step [OF that, of False] that l by simp
    note this [of 1] this [of 2] this [of 3]
    then have "clip_offset_loop ?t False (str_len xs + 1) = clip_offset_loop ?t False (str_len xs + 4)"
      by (simp add: eval_nat_numeral)
    then show ?thesis using False stop [OF e, of False] by simp
  qed
  have "slice_offset_to_offset_utf16 (chunk_of (xs @ c # ys)) (str_len xs + (if left then 0 else 4)) =
      OffsetUtf16 (utf16_len xs + (if left then 0 else 2))"
    using offset_to_offset_utf16_of [OF assms(2)] offset_to_offset_utf16_of [of "xs @ [c]" ys] assms(2) c by simp
  then show ?thesis
    using offset_utf16_inside [OF assms(2,3)] loop c assms(2)
    using ones_bits(2) [of "[c]"]
    by (simp add: slice_clip_offset_utf16_def zero_offset_utf16_eq slice_len_utf16_def count_ones_bitmap)
qed

lemma clip_offset_beyond:
  "str_len cs \<le> 128 \<Longrightarrow> utf16_len cs \<le> k \<Longrightarrow> slice_clip_offset_utf16 (chunk_of cs) (OffsetUtf16 k) left = Some (OffsetUtf16 (utf16_len cs))"
  by (auto simp: slice_clip_offset_utf16_def slice_len_utf16_def count_ones_bitmap zero_offset_utf16_eq)

text \<open>A UTF-16 position is at a character boundary, or between the code units of a wide character.\<close>

lemma utf16_position_cases:
  assumes "k \<le> utf16_len cs"
  obtains xs ys where "cs = xs @ ys" "k = utf16_len xs"
  | xs c ys where "cs = xs @ c # ys" "0x10000 \<le> c" "k = utf16_len xs + 1"
  using assms
proof (induction cs arbitrary: k thesis)
  case (Cons c cs)
  show ?case
  proof (cases "len_utf16 c \<le> k")
    case True
    then have "k - len_utf16 c \<le> utf16_len cs" using Cons.prems(3) by simp
    then show ?thesis
    proof (rule Cons.IH [rotated 2])
      fix xs ys assume "cs = xs @ ys" "k - len_utf16 c = utf16_len xs"
      then show ?thesis using Cons.prems(1) [of "c # xs" ys] True by simp
    next
      fix xs d ys assume "cs = xs @ d # ys" "0x10000 \<le> d" "k - len_utf16 c = utf16_len xs + 1"
      then show ?thesis using Cons.prems(2) [of "c # xs" d ys] True by simp
    qed
  next
    case False
    then consider "k = 0" | "k = 1" "0x10000 \<le> c" by (force simp: len_utf16_def split: if_splits)
    then show ?thesis using Cons.prems(1) [of "[]" "c # cs"] Cons.prems(2) [of "[]" c cs] by cases simp_all
  qed
qed (auto simp: utf16_len_def)

text \<open>Clipping a UTF-16 offset always ends, and gives the offset of a character boundary: the offset
  itself, the boundary before or after it (by the bias) when it is between the two code units of a
  character, or the end of the text when it is beyond.\<close>

lemma clip_offset_utf16_boundary:
  assumes "valid cs" and "str_len cs \<le> 128"
  shows "\<exists>xs ys. cs = xs @ ys \<and> slice_clip_offset_utf16 (chunk_of cs) (OffsetUtf16 k) left = Some (OffsetUtf16 (utf16_len xs)) \<and>
    (if utf16_len cs \<le> k then ys = []
     else if left then utf16_len xs \<le> k \<and> k \<le> utf16_len xs + 1 else k \<le> utf16_len xs \<and> utf16_len xs \<le> k + 1)"
proof (cases "utf16_len cs \<le> k")
  case True
  then show ?thesis using clip_offset_beyond [OF assms(2) True] by (intro exI [of _ cs] exI [of _ "[]"]) simp
next
  case False
  then have "k \<le> utf16_len cs" by simp
  then show ?thesis
  proof (cases rule: utf16_position_cases)
    case (1 xs ys)
    then show ?thesis using clip_offset_of [of xs ys] assms False by (intro exI [of _ xs] exI [of _ ys]) simp
  next
    case (2 xs c ys)
    have v: "valid (xs @ c # ys)" "str_len (xs @ c # ys) \<le> 128" "valid (xs @ [c])" using assms 2(1) by simp_all
    have "len_utf16 c = 2" using 2(2) by (simp add: len_utf16_def)
    then show ?thesis
      using clip_offset_inside [OF v(1,2) 2(2), of left] 2 False
      by (intro exI [of _ "if left then xs else xs @ [c]"] exI [of _ "if left then c # ys else ys"]) simp
  qed
qed

lemma clip_offset_utf16_boundary_at:
  "\<exists>xs ys. [97, 128512, 98] = xs @ ys \<and>
     slice_clip_offset_utf16 (chunk_of [97, 128512, 98]) (OffsetUtf16 2) False = Some (OffsetUtf16 (utf16_len xs)) \<and>
     2 \<le> utf16_len xs \<and> utf16_len xs \<le> 3"
proof -
  have v: "valid [97, 128512, 98]" "str_len [97, 128512, 98] \<le> 128" by (simp_all add: scalar_value_def len_utf8_def)
  have "utf16_len [97, 128512, 98] = 4" by (simp add: len_utf16_def)
  then show ?thesis using clip_offset_utf16_boundary [OF v, of 2 False] by auto
qed

lemma clip_point_utf16_row:
  assumes "row_text as bs ds"
  shows "slice_clip_point_utf16 (chunk_of (as @ bs @ ds)) (PointUtf16 (count_list as 10) k) left =
    map_option (\<lambda>c. PointUtf16 (count_list as 10) (offset16 c)) (slice_clip_offset_utf16 (chunk_of bs) (OffsetUtf16 k) left)"
  unfolding slice_clip_point_utf16_def point_utf16.sel row_line(5) [OF assms] prod.case row_line(1) [OF assms] bind.bind_lunit Let_def
  using row_line(2) [OF assms] by (cases "slice_clip_offset_utf16 (chunk_of bs) (OffsetUtf16 k) left") auto

subsection \<open>Clipping points\<close>

text \<open>The search of \<open>clip_point\<close> for a grapheme boundary.\<close>

definition stop_at :: "(str \<Rightarrow> nat \<Rightarrow> bool) \<Rightarrow> rust_char list \<Rightarrow> nat \<Rightarrow> bool" where
  "stop_at g bs k \<longleftrightarrow> boundary bs k \<and> g (utf8 bs) k"

lemma clip_loop_step:
  assumes "str_len bs \<le> 128" and "k \<le> 128"
  shows "clip_loop g (chunk_of bs) left k = (if stop_at g bs k then Some k
    else clip_loop g (chunk_of bs) left ((if left then k + 2 ^ 64 - 1 else k + 1) mod 2 ^ 64))"
  using chunk_boundary [OF assms(1), of k] assms(2) by (subst clip_loop.simps) (simp add: stop_at_def)

lemma clip_loop_left:
  assumes "str_len bs \<le> 128" and "g (utf8 bs) 0" and "k \<le> 128"
  shows "\<exists>c \<le> k. clip_loop g (chunk_of bs) True k = Some c \<and> stop_at g bs c \<and> (\<forall>j. c < j \<and> j \<le> k \<longrightarrow> \<not> stop_at g bs j)"
  using assms(3)
proof (induction k)
  case 0
  then show ?case using clip_loop_step [OF assms(1), of 0 g True] assms(2) by (simp add: stop_at_def)
next
  case (Suc k)
  show ?case
  proof (cases "stop_at g bs (Suc k)")
    case True
    then show ?thesis using clip_loop_step [OF assms(1) Suc.prems, of g True] by (intro exI [of _ "Suc k"]) auto
  next
    case False
    have "clip_loop g (chunk_of bs) True (Suc k) = clip_loop g (chunk_of bs) True k"
      using clip_loop_step [OF assms(1) Suc.prems, of g True] False Suc.prems by simp
    then show ?thesis using Suc False by (auto simp: le_Suc_eq)
  qed
qed

lemma clip_loop_right:
  assumes "str_len bs \<le> 128" and "g (utf8 bs) (str_len bs)" and "k \<le> str_len bs"
  shows "\<exists>c. k \<le> c \<and> c \<le> str_len bs \<and> clip_loop g (chunk_of bs) False k = Some c \<and> stop_at g bs c \<and>
    (\<forall>j. k \<le> j \<and> j < c \<longrightarrow> \<not> stop_at g bs j)"
  using assms(3)
proof (induction "str_len bs - k" arbitrary: k)
  case 0
  then have "k = str_len bs" by simp
  moreover have "boundary bs (str_len bs)" by (simp add: boundary_bits)
  ultimately show ?case using clip_loop_step [OF assms(1), of k g False] assms(1,2) by (auto simp: stop_at_def)
next
  case (Suc n)
  show ?case
  proof (cases "stop_at g bs k")
    case True
    then show ?thesis using clip_loop_step [OF assms(1), of k g False] assms(1) Suc by (intro exI [of _ k]) auto
  next
    case False
    have "clip_loop g (chunk_of bs) False k = clip_loop g (chunk_of bs) False (Suc k)"
      using clip_loop_step [OF assms(1), of k g False] False assms(1) Suc by simp
    moreover have p: "n = str_len bs - Suc k" "Suc k \<le> str_len bs" using Suc.hyps(2) by simp_all
    moreover obtain c where "Suc k \<le> c" "c \<le> str_len bs" "clip_loop g (chunk_of bs) False (Suc k) = Some c" "stop_at g bs c"
      "\<forall>j. Suc k \<le> j \<and> j < c \<longrightarrow> \<not> stop_at g bs j"
      using Suc.hyps(1) [OF p] by blast
    moreover have "\<not> stop_at g bs j" if "k \<le> j" "j < c" for j
      using calculation(8) that False by (cases "j = k") (simp_all add: Suc_le_eq)
    ultimately show ?thesis by (intro exI [of _ c]) simp
  qed
qed

text \<open>Clipping a point always ends, for any grapheme segmentation that has the start and the end of a
  line as boundaries. On a row of the chunk, a column in the line goes to itself when both neighbouring
  bytes are ASCII or it is a boundary of characters and graphemes, else to the nearest such boundary on
  the side of the bias; a column beyond the line goes to its end, a row beyond the text to the end of the
  text.\<close>

lemma clip_point_ends:
  assumes "row_text as bs ds" and "\<And>t. g t 0 \<and> g t (length t)"
  shows "slice_clip_point g (chunk_of (as @ bs @ ds)) (Point (count_list as 10) k) left =
      Some (Point (count_list as 10)
        (if str_len bs \<le> k then str_len bs
         else if k = 0 \<or> utf8 bs ! (k - 1) < 128 \<and> utf8 bs ! k < 128 then k
         else if left then Max {c. c \<le> k \<and> stop_at g bs c} else Min {c. k \<le> c \<and> c \<le> str_len bs \<and> stop_at g bs c})) \<and>
    (count_list (as @ bs @ ds) 10 < r \<longrightarrow>
       slice_clip_point g (chunk_of (as @ bs @ ds)) (Point r k) left = Some (ts_lines (scan (as @ bs @ ds))))"
proof
  note w = row_line [OF assms(1)]
  let ?l = "Max {c. c \<le> k \<and> stop_at g bs c}" and ?r = "Min {c. k \<le> c \<and> c \<le> str_len bs \<and> stop_at g bs c}"
  have loop: "clip_loop g (chunk_of bs) left k = Some (if left then ?l else ?r)" if k: "k < str_len bs"
  proof (cases left)
    case True
    have "k \<le> 128" using k w(6) by simp
    then obtain c where c: "c \<le> k" "clip_loop g (chunk_of bs) True k = Some c" "stop_at g bs c"
      "\<forall>j. c < j \<and> j \<le> k \<longrightarrow> \<not> stop_at g bs j"
      using clip_loop_left [of bs g k] w(6) assms(2) by blast
    have "y \<le> c" if "y \<in> {c. c \<le> k \<and> stop_at g bs c}" for y using c(4) that not_le by blast
    moreover have "finite {c. c \<le> k \<and> stop_at g bs c}" by simp
    ultimately have "?l = c" using c(1,3) by (intro Max_eqI) simp_all
    then show ?thesis using True c(2) by simp
  next
    case False
    have "g (utf8 bs) (str_len bs)" using assms(2) [of "utf8 bs"] by simp
    then obtain c where c: "k \<le> c" "c \<le> str_len bs" "clip_loop g (chunk_of bs) False k = Some c" "stop_at g bs c"
      "\<forall>j. k \<le> j \<and> j < c \<longrightarrow> \<not> stop_at g bs j"
      using clip_loop_right [of bs g k] w(6) k by (meson less_imp_le)
    have "c \<le> y" if "y \<in> {c. k \<le> c \<and> c \<le> str_len bs \<and> stop_at g bs c}" for y using c(5) that not_le by blast
    moreover have "finite {c. k \<le> c \<and> c \<le> str_len bs \<and> stop_at g bs c}" by simp
    ultimately have "?r = c" using c(1,2,4) by (intro Min_eqI) simp_all
    then show ?thesis using False c(3) by simp
  qed
  show "slice_clip_point g (chunk_of (as @ bs @ ds)) (Point (count_list as 10) k) left =
      Some (Point (count_list as 10)
        (if str_len bs \<le> k then str_len bs
         else if k = 0 \<or> utf8 bs ! (k - 1) < 128 \<and> utf8 bs ! k < 128 then k
         else if left then Max {c. c \<le> k \<and> stop_at g bs c} else Min {c. k \<le> c \<and> c \<le> str_len bs \<and> stop_at g bs c}))"
    unfolding slice_clip_point_def point.sel w(5) prod.case w(1) bind.bind_lunit w(8) Let_def chunk_of_fields
    using w(2) loop by (cases "str_len bs \<le> k") auto
  show "count_list (as @ bs @ ds) 10 < r \<longrightarrow>
      slice_clip_point g (chunk_of (as @ bs @ ds)) (Point r k) left = Some (ts_lines (scan (as @ bs @ ds)))"
    using lines_of [of "as @ bs @ ds"] assms(1) by (simp add: slice_clip_point_def row_text_def Let_def)
qed

lemma clip_point_ends_at:
  "slice_clip_point (\<lambda>t k. True) (chunk_of ([97, 10] @ [233, 98] @ [10])) (Point 1 9) True = Some (Point 1 3)"
proof -
  have "row_text [97, 10] [233, 98] [10]" by (simp add: row_text_def scalar_value_def len_utf8_def line_end_def)
  moreover have "str_len [233, 98] = 3" by (simp add: len_utf8_def)
  ultimately show ?thesis using clip_point_ends [of "[97, 10]" "[233, 98]" "[10]" "\<lambda>t k. True" 9 True] by simp
qed

subsection \<open>Round trips\<close>

text \<open>C20. Positions of all kinds convert into one another without loss: at the end of every prefix of the
  text of a chunk, the byte offset, the UTF-16 offset, the point and the UTF-16 point are the measures of
  the prefix, and the conversions take each to the others.\<close>

theorem chunk_positions:
  assumes "valid (xs @ ys)" and "str_len (xs @ ys) \<le> 128"
  shows "(let c = chunk_of (xs @ ys); offset = str_len xs; offset_utf16 = OffsetUtf16 (utf16_len xs);
              point = ts_lines (ts_from xs :: (nat, nat) text_summary); point_utf16 = lines_utf16 (ts_from xs :: (nat, nat) text_summary)
          in slice_offset_to_point c offset = point \<and> slice_point_to_offset c point = offset \<and>
             slice_offset_to_offset_utf16 c offset = offset_utf16 \<and> slice_offset_utf16_to_offset c offset_utf16 = offset \<and>
             slice_offset_to_point_utf16 c offset = point_utf16 \<and>
             slice_point_utf16_to_offset c point_utf16 clip = Some offset \<and>
             slice_point_to_offset_utf16 c point = offset_utf16 \<and> slice_point_to_point_utf16 c point = point_utf16 \<and>
             slice_unclipped_point_utf16_to_point c point_utf16 = Some point)"
proof -
  have "ts_lines (ts_from xs :: (nat, nat) text_summary) = ts_lines (scan xs)"
    "lines_utf16 (ts_from xs :: (nat, nat) text_summary) = lines_utf16 (scan xs)"
    by (simp_all add: ts_from_scan lines_utf16_def)
  moreover have "\<not> row (slice_lines (chunk_of (xs @ ys))) < row (ts_lines (scan xs))"
    using lines_of [OF assms(2)] by simp
  ultimately show ?thesis
    using offset_to_point_of [OF assms(2)] point_to_offset_of [OF assms(2)] offset_to_offset_utf16_of [OF assms(2)]
      offset_utf16_to_offset_of [OF assms(2)] offset_to_point_utf16_of [OF assms(2)] point_utf16_to_offset_of [OF assms]
    by (simp add: Let_def slice_point_to_offset_utf16_def slice_point_to_point_utf16_def del: scan_rows)
qed

theorem chunk_positions_witness:
  "slice_point_to_offset (chunk_of ([97, 10, 128512] @ [98])) (Point 1 4) = 6 \<and>
   slice_point_to_point_utf16 (chunk_of ([97, 10, 128512] @ [98])) (Point 1 4) = PointUtf16 1 2 \<and>
   slice_offset_utf16_to_offset (chunk_of ([97, 10, 128512] @ [98])) (OffsetUtf16 4) = 6"
proof -
  have "valid ([97, 10, 128512] @ [98])" "str_len ([97, 10, 128512] @ [98]) \<le> 128"
    by (simp_all add: scalar_value_def len_utf8_def)
  note positions = chunk_positions [OF this, where clip = True]
  have "str_len [97, 10, 128512] = 6" "utf16_len [97, 10, 128512] = 4"
    "ts_lines (ts_from [97, 10, 128512] :: (nat, nat) text_summary) = Point 1 4"
    "lines_utf16 (ts_from [97, 10, 128512] :: (nat, nat) text_summary) = PointUtf16 1 2"
    by (simp_all add: len_utf8_def len_utf16_def ts_from_def summary_step_def ts_zero_def newline_char_def Let_def
        zero_point_eq zero_offset_utf16_eq plus_point_eq lines_utf16_def)
  then show ?thesis using positions unfolding Let_def by (simp only:)
qed

subsection \<open>Tabs\<close>

text \<open>The positions the iterator yields in \<open>n\<close> calls, and the positions of the tabs of a text that starts at
  byte \<open>b\<close> and character \<open>k\<close>.\<close>

fun tabs_run :: "nat \<Rightarrow> u128 \<times> u128 \<Rightarrow> (nat \<times> nat) list" where
  "tabs_run 0 self = []"
| "tabs_run (Suc n) self = (case tabs_next self of (None, _) \<Rightarrow> [] | (Some p, self') \<Rightarrow> p # tabs_run n self')"

fun tab_positions :: "nat \<Rightarrow> nat \<Rightarrow> rust_char list \<Rightarrow> (nat \<times> nat) list" where
  "tab_positions b k [] = []"
| "tab_positions b k (c # cs) = (if c = 9 then [(b, k)] else []) @ tab_positions (b + len_utf8 c) (k + 1) cs"

lemma tab_positions_append:
  "tab_positions b k (us @ vs) = tab_positions b k us @ tab_positions (b + str_len us) (k + length us) vs"
  by (induction us arbitrary: b k) (simp_all add: add.assoc)

lemma no_tabs: "9 \<notin> set cs \<Longrightarrow> tab_positions b k cs = [] \<and> bits (eq_bits 9) cs = replicate (str_len cs) False"
proof (induction cs arbitrary: b k)
  case (Cons c cs)
  have "eq_bits 9 c = replicate (len_utf8 c) False"
    using Cons.prems len_utf8_pos [of c] by (cases "len_utf8 c") (auto simp: eq_bits_def)
  then show ?case using Cons by (simp add: replicate_add)
qed simp

lemma bitmap_clear:
  assumes "n < 128"
  shows "xor (bitmap (replicate n False @ True # bs)) (push_bit n 1) = bitmap (replicate (Suc n) False @ bs)"
proof (rule bitmapI)
  fix i :: nat assume i: "i < 128"
  have "(replicate n False @ True # bs) ! i \<longleftrightarrow> i = n \<or> n < i \<and> bs ! (i - Suc n)"
    by (auto simp: nth_append nth_Cons')
  moreover have "(replicate (Suc n) False @ bs) ! i \<longleftrightarrow> n < i \<and> bs ! (i - Suc n)" by (auto simp: nth_append simp del: replicate_Suc)
  moreover have "bit (push_bit n 1 :: u128) i \<longleftrightarrow> i = n" using i by (auto simp: bit_exp_iff)
  ultimately show "bit (xor (bitmap (replicate n False @ True # bs)) (push_bit n 1)) i =
      (i < length (replicate (Suc n) False @ bs) \<and> (replicate (Suc n) False @ bs) ! i)"
    using i by (auto simp: bit_xor_iff bit_bitmap)
qed

lemma tabs_run_of:
  assumes "str_len (xs @ ys) \<le> 128" and "length ys < n"
  shows "tabs_run n (bitmap (replicate (str_len xs) False @ bits (eq_bits 9) ys), bitmap (bits char_bits (xs @ ys))) =
    tab_positions (str_len xs) (length xs) ys"
  using assms
proof (induction n arbitrary: xs ys)
  case (Suc n)
  let ?tabs = "bitmap (replicate (str_len xs) False @ bits (eq_bits 9) ys)" and ?chars = "bitmap (bits char_bits (xs @ ys))"
  show ?case
  proof (cases "9 \<in> set ys")
    case False
    then have "?tabs = 0" using Suc.prems(1) no_tabs [of ys 0 0] by (simp add: bitmap_eq_0)
    then show ?thesis using no_tabs [OF False] by (simp add: tabs_next_def)
  next
    case True
    then obtain us vs where y: "ys = us @ 9 # vs" "9 \<notin> set us" by (metis split_list_first)
    let ?n = "str_len (xs @ us)"
    have e: "eq_bits 9 9 = [True]" "len_utf8 9 = 1" "char_bits 9 = [True]" by (simp_all add: eq_bits_def len_utf8_def char_bits_def)
    have b: "replicate (str_len xs) False @ bits (eq_bits 9) ys = replicate ?n False @ True # bits (eq_bits 9) vs"
      using no_tabs [OF y(2)] by (simp add: y(1) e replicate_add)
    have n: "?n < 128" using Suc.prems(1) by (simp add: y(1) e)
    have t: "trailing_zeros ?tabs = ?n" "?tabs \<noteq> 0"
      using Suc.prems(1) takeWhile_zeros [of ?n "bits (eq_bits 9) vs"] unfolding b
      by (simp_all add: trailing_zeros_bitmap bitmap_eq_0 y(1) e)
    have "and ?chars (push_bit ?n 1 - 1) = bitmap (bits char_bits (xs @ us))"
      unfolding bitmap_take by (simp add: y(1))
    then have c: "count_ones (and ?chars (push_bit ?n 1 - 1)) = length (xs @ us)"
      using n by (simp add: count_ones_bitmap)
    have x: "xor ?tabs (push_bit ?n 1) = bitmap (replicate (str_len (xs @ us @ [9])) False @ bits (eq_bits 9) vs)"
      using bitmap_clear [OF n, of "bits (eq_bits 9) vs"] unfolding b by (simp add: e)
    have "str_len ((xs @ us @ [9]) @ vs) \<le> 128" "length vs < n" using Suc.prems by (simp_all add: y(1))
    note IH = Suc.IH [OF this]
    have step: "tabs_next (?tabs, ?chars) = (Some (?n, length (xs @ us)), (xor ?tabs (push_bit ?n 1), ?chars))"
      unfolding tabs_next_def prod.case if_not_P [OF t(2)] Let_def t(1) c ..
    show ?thesis
      unfolding tabs_run.simps step x prod.case option.case using IH no_tabs [OF y(2)]
      by (simp add: y(1) e tab_positions_append)
  qed
qed simp

text \<open>The tab iterator of a chunk yields the byte and character offsets of exactly the tabs of its text,
  in order, and then ends.\<close>

theorem chunk_tabs:
  assumes "str_len cs \<le> 128"
  shows "tabs_run 129 (slice_tabs (chunk_of cs)) = tab_positions 0 0 cs"
  using tabs_run_of [of "[]" cs 129] assms length_le_str_len [of cs] by (simp add: slice_tabs_def)

theorem chunk_tabs_witness: "tabs_run 129 (slice_tabs (chunk_of [9, 233, 9])) = [(0, 0), (3, 2)]"
  using chunk_tabs [of "[9, 233, 9]"] by (simp add: len_utf8_def)

end
