(* ===== verification/SliceHeight.thy ===== *)
theory SliceHeight
  imports CursorMove
begin

text \<open>
  How high the trees are that a cursor slices from a tree (\<open>crates/sum_tree/src/cursor.rs\<close>). A slice
  appends the subtrees it passes one by one, higher and higher ones on the way up from the cursor, lower
  and lower ones on the way down to the target, and at each height fewer of them than fill a root. So a
  slice is at most twice as high as the tree, and a suffix at most one higher: cursors over slices fit
  their stacks when the tree is low enough.
\<close>

fun root_count :: "('t, 's) sum_tree \<Rightarrow> nat" where
  "root_count (Internal _ _ _ cts) = length cts"
| "root_count (Leaf _ its _) = length its"

text \<open>A tree below height \<open>k\<close>, or of height \<open>k\<close> with at most \<open>n\<close> children in its root.\<close>

definition fits :: "nat \<Rightarrow> nat \<Rightarrow> ('t, 's) sum_tree \<Rightarrow> bool" where
  "fits k n t \<longleftrightarrow> height t < k \<or> height t = k \<and> root_count t \<le> n"

lemma fits_le: "fits k n t \<Longrightarrow> height t \<le> k"
  by (auto simp: fits_def)

lemma fits_above: "height t \<le> k \<Longrightarrow> fits (Suc k) n t"
  by (auto simp: fits_def)

lemma fits_mono: "fits k n t \<Longrightarrow> n \<le> n' \<Longrightarrow> fits k n' t"
  by (auto simp: fits_def)

lemma split_internal_room:
  assumes "length cts + length ts \<le> 2 * TREE_BASE" and "split_internal I h s css cts ss ts = Some (o', r)"
  shows "r = None \<and> root_count o' = length cts + length ts"
  using assms by (auto simp: split_internal_def Let_def array_vec_def split: if_splits bind_splits)

lemma set_last_length: "set_last xs x = Some ys \<Longrightarrow> length ys = length xs"
  by (auto simp: set_last_def split: if_splits)

lemma push_root_room:
  assumes "push_tree_recursive I (Internal h s css cts) b = Some (o', r)" and "height b < h" and "Suc (length cts) \<le> 2 * TREE_BASE"
  shows "r = None \<and> root_count o' \<le> Suc (length cts)"
proof -
  have "(\<exists>ss. split_internal I h (s_add I s (summary b)) css cts ss [b] = Some (o', r)) \<or>
      (\<exists>css' cts' ss ts. split_internal I h (s_add I s (summary b)) css' cts' ss ts = Some (o', r) \<and>
         length cts' = length cts \<and> length ts \<le> 1)"
    using assms(1,2)
    by (auto simp: Let_def set_last_length split: if_splits bind_splits option.splits)
      (metis length_Cons list.size(3) One_nat_def order_refl set_last_length zero_le)+
  then show ?thesis
  proof (elim disjE exE conjE)
    fix ss assume "split_internal I h (s_add I s (summary b)) css cts ss [b] = Some (o', r)"
    from split_internal_room [OF _ this] assms(3) show ?thesis by simp
  next
    fix css' cts' ss ts
    assume a: "split_internal I h (s_add I s (summary b)) css' cts' ss ts = Some (o', r)" "length cts' = length cts" "length ts \<le> 1"
    from split_internal_room [OF _ a(1)] a(2,3) assms(3) show ?thesis by simp
  qed
qed

context summary_laws
begin

lemma append_height_cases:
  assumes "wf_tree I a" and "wf_tree I b" and "append_tree I a b = Some t"
  obtains "is_empty a" "t = b" | "is_empty b" "t = a" | "height a < height b" "height t = height b"
  | "\<not> is_empty a" "height a < height b" "height t = Suc (height b)" "root_count t = 2"
  | o' where "\<not> is_empty a" "height b \<le> height a" "push_tree_recursive I a b = Some (o', None)" "t = o'" "height t = height a"
  | o' r where "\<not> is_empty a" "height b \<le> height a" "push_tree_recursive I a b = Some (o', Some r)" "height t = Suc (height a)" "root_count t = 2"
proof (cases "is_empty a \<or> is_empty b")
  case True
  then show thesis
  proof (cases "is_empty a")
    case True
    then show thesis using that(1) assms(3) by (simp add: append_tree_def)
  next
    case False
    then have "b = new I" using True assms(2) wf_tree_is_empty wf_tree_empty by blast
    then show thesis using that(2) False assms(3) by (simp add: append_tree_def new_def)
  qed
next
  case False
  then have a: "wf_node I (height a) a" and b: "wf_node I (height b) b"
    using assms wf_tree_nonempty wf_tree_is_empty by blast+
  have f: "height (from_child_trees I x y) = Suc (height x)" "root_count (from_child_trees I x y) = 2" for x y
    by (simp_all add: from_child_trees_def Let_def)
  show thesis
  proof (cases "height a < height b")
    case True
    with append_large_holds [OF a b] obtain o' r where
        r: "append_large I a b = Some (o', r)" "holds_left (height b) (o', r) (tree_items a @ tree_items b)"
      by fastforce
    have h: "height o' = height b" "r = Some l \<Longrightarrow> height l = height b" for l
      using r(2) by (auto simp: holds_left_def dest: wf_node_height)
    have "t = (case r of Some l \<Rightarrow> from_child_trees I l o' | None \<Rightarrow> o')"
      using assms(3) False True r(1) by (auto simp: append_tree_def split: option.splits)
    then show thesis using that(3,4) True False h f by (cases r) auto
  next
    case ge: False
    with push_tree_recursive_holds [OF a b] obtain o' r where
        r: "push_tree_recursive I a b = Some (o', r)" "holds (height a) (o', r) (tree_items a @ tree_items b)"
      by fastforce
    have h: "height o' = height a" using r(2) by (auto simp: holds_def dest: wf_node_height)
    have "t = (case r of Some l \<Rightarrow> from_child_trees I o' l | None \<Rightarrow> o')"
      using assms(3) False ge r(1) by (auto simp: append_tree_def split: option.splits)
    then show thesis using that(5,6) False ge h f r(1) by (cases r) auto
  qed
qed

lemma append_height:
  assumes "wf_tree I a" and "wf_tree I b" and "append_tree I a b = Some t"
  shows "height t \<le> Suc (max (height a) (height b))"
  by (rule append_height_cases [OF assms]) auto

lemma append_fits:
  assumes "wf_tree I a" and "wf_tree I b" and "append_tree I a b = Some t"
    and "height b < k" and "fits k n a" and "0 < n \<or> is_empty a" and "n < 2 * TREE_BASE"
  shows "fits k (Suc n) t"
proof (rule append_height_cases [OF assms(1-3)])
  fix o' assume o': "height b \<le> height a" "push_tree_recursive I a b = Some (o', None)" "t = o'" "height t = height a"
  show ?thesis
  proof (cases "height a = k")
    case True
    then obtain s css cts where a: "a = Internal k s css cts" using assms(4) by (cases a) auto
    have "length cts \<le> n" using assms(5) True by (simp add: fits_def a)
    then show ?thesis using push_root_room [of I k s css cts b o' None] o' a assms(4,7) True by (simp add: fits_def)
  qed (use o' assms(5) in \<open>auto simp: fits_def\<close>)
next
  fix o' r assume o': "\<not> is_empty a" "height b \<le> height a" "push_tree_recursive I a b = Some (o', Some r)" "height t = Suc (height a)" "root_count t = 2"
  show ?thesis
  proof (cases "height a = k")
    case True
    then obtain s css cts where a: "a = Internal k s css cts" using assms(4) by (cases a) auto
    have "length cts \<le> n" using assms(5) True by (simp add: fits_def a)
    then show ?thesis using push_root_room [of I k s css cts b o' "Some r"] o' a assms(4,7) by simp
  qed (use o' assms(5,6) in \<open>auto simp: fits_def\<close>)
qed (use assms(4-6) in \<open>auto simp: fits_def\<close>)

end

subsection \<open>The loop over the children\<close>

context dim_laws
begin

lemma slice_push_tree_fits:
  assumes "push_tree (slice_agg I) agg c (summary c) = Some agg'" and "wf_tree I (sl_tree agg)" and "wf_node I j c" and "j < k"
    and "fits k n (sl_tree agg)" and "0 < n \<or> is_empty (sl_tree agg)" and "n < 2 * TREE_BASE"
  shows "fits k (Suc n) (sl_tree agg') \<and> wf_tree I (sl_tree agg')"
proof -
  obtain t where t: "append_tree I (sl_tree agg) c = Some t" "sl_tree agg' = t"
    using assms(1) by (auto simp: slice_agg_def slice_push_tree_def split: bind_splits)
  have "height c < k" using assms(3,4) by (simp add: wf_node_height)
  then show ?thesis
    using append_fits [OF assms(2) wf_treeI [OF assms(3)] t(1) _ assms(5-7)]
      append_tree_correct [OF assms(2) wf_treeI [OF assms(3)]] t by auto
qed

lemma children_fits:
  assumes "seek_children (slice_agg I) D tgt bias e d agg (zip cts (map summary cts)) = Some (e', p, agg', r)"
    and "wf_tree I (sl_tree agg)" and "\<forall>c\<in>set cts. wf_node I j c" and "j < k"
    and "fits k n (sl_tree agg)" and "0 < n \<or> is_empty (sl_tree agg)"
    and "n + length cts \<le> 2 * TREE_BASE + (if r = None then 0 else 1)"
  shows "fits k (2 * TREE_BASE) (sl_tree agg') \<and> wf_tree I (sl_tree agg') \<and>
    (case r of None \<Rightarrow> True | Some c \<Rightarrow> c \<in> set cts \<and> \<not> passes bias (tgt (d_add D p (summary c))))"
  using assms
proof (induction cts arbitrary: e d agg n)
  case Nil
  then show ?case using fits_mono by auto
next
  case (Cons c cs)
  have wf: "wf_node I j c" using Cons.prems(3) by simp
  show ?case
  proof (cases "passes bias (tgt (d_add D d (summary c)))")
    case True
    obtain agg1 where agg1: "push_tree (slice_agg I) agg c (summary c) = Some agg1"
      "seek_children (slice_agg I) D tgt bias (e\<lparr>e_index := e_index e + 1, e_position := d_add D d (summary c)\<rparr>)
         (d_add D d (summary c)) agg1 (zip cs (map summary cs)) = Some (e', p, agg', r)"
      using Cons.prems(1) True by (auto simp: passes_def Let_def split: bind_splits)
    have n: "n < 2 * TREE_BASE"
    proof (cases "r = None")
      case False
      have "cs \<noteq> []" using agg1(2) False by auto
      then show ?thesis using Cons.prems(7) False by (cases cs) auto
    qed (use Cons.prems(7) in simp)
    from slice_push_tree_fits [OF agg1(1) Cons.prems(2) wf Cons.prems(4-6) n]
    show ?thesis using Cons.IH [OF agg1(2), of "Suc n"] Cons.prems(3,4,7) by (auto split: option.splits)
  next
    case False
    then have "p = d" "agg' = agg" "r = Some c" using Cons.prems(1) by (auto simp: passes_def Let_def)
    moreover have "n \<le> 2 * TREE_BASE" using Cons.prems(7) by (auto split: if_splits)
    ultimately show ?thesis using Cons.prems(2,3) False fits_mono [OF Cons.prems(5)] by simp
  qed
qed

lemma slice_leaf_height:
  assumes "seek_items (slice_agg I) D tgt bias e d (begin_leaf (slice_agg I) agg) (zip its (map (item_summary I) its)) = Some (e', p, agg1, f)"
    and "end_leaf (slice_agg I) agg1 = Some agg2" and "slice_AR I agg xs" and "length its \<le> 2 * TREE_BASE"
  shows "height (sl_tree agg2) \<le> Suc (height (sl_tree agg)) \<and> (is_empty (sl_tree agg) \<longrightarrow> height (sl_tree agg2) = 0)"
proof -
  obtain a b q where sp: "seek_split I D (\<lambda>d. passes bias (tgt d)) d its = (a, b, q)" by (metis prod_cases3)
  have PR: "slice_PR I (begin_leaf (slice_agg I) agg) xs []" by (rule slice_agg.begin_leaf_law [OF assms(3)])
  have "length ([] :: 't list) + length its \<le> 2 * TREE_BASE" using assms(4) by simp
  from slice_seek.seek_items_correct [OF PR this sp, of e]
  have PR1: "slice_PR I agg1 xs ([] @ a)" using assms(1) by auto
  have same: "sl_tree agg1 = sl_tree agg"
  proof -
    have "sl_tree a2 = sl_tree a1" if "seek_items (slice_agg I) D tgt bias e d a1 ys = Some (e', p, a2, f)" for e d a1 a2 ys
      using that
      by (induction ys arbitrary: e d a1)
        (auto simp: slice_agg_def slice_push_item_def Let_def split: if_splits bind_splits)
    from this [OF assms(1)] show ?thesis by (simp add: slice_agg_def)
  qed
  let ?leaf = "Leaf (sl_leaf_summary agg1) (sl_leaf_items agg1) (sl_leaf_item_summaries agg1)"
  have wf: "wf_tree I ?leaf"
    using PR1 by (cases "a = []") (auto simp: slice_PR_def wf_tree_def new_def)
  have wf': "wf_tree I (sl_tree agg)" using PR1 same by (simp add: slice_PR_def)
  have t: "append_tree I (sl_tree agg) ?leaf = Some (sl_tree agg2)"
    using assms(2) same by (auto simp: slice_agg_def slice_end_leaf_def split: bind_splits)
  have "sl_tree agg2 = ?leaf" if "is_empty (sl_tree agg)" using t that by (simp add: append_tree_def)
  then show ?thesis using append_height [OF wf' wf t] by auto
qed

text \<open>On the way down to the target: every node has a child that is not passed.\<close>

lemma descend_height:
  assumes "wf_node I k c" and "mono_target I D (\<lambda>d. passes bias (tgt d)) d (tree_items c)"
    and "\<not> passes bias (tgt (pos_after I D d (tree_items c)))"
    and "slice_AR I agg xs" and "height (sl_tree agg) \<le> K" and "k \<le> Suc K"
    and "seek_loop (slice_agg I) D tgt bias (\<lparr>e_tree = c, e_index = 0, e_position = d\<rparr> # stk) d agg False = Some (st', p, agg')"
  shows "height (sl_tree agg') \<le> Suc (K + k) \<and> st' \<noteq> []"
  using assms
proof (induction k arbitrary: c d agg xs K stk)
  case 0
  let ?P = "\<lambda>d. passes bias (tgt d)" and ?e = "\<lparr>e_tree = c, e_index = 0, e_position = d\<rparr>"
  obtain s its where c: "c = Leaf s its (map (item_summary I) its)" using wf_node_Leaf [OF "0.prems"(1)] by blast
  have its: "its \<noteq> []" "length its \<le> 2 * TREE_BASE" using "0.prems"(1) c by simp_all
  obtain a b q where sp: "seek_split I D ?P d its = (a, b, q)" by (metis prod_cases3)
  have b: "b \<noteq> []" using seek_split_not_all [OF its(1) _ sp] "0.prems"(3) c by simp
  have PR: "slice_PR I (begin_leaf (slice_agg I) agg) xs []" by (rule slice_agg.begin_leaf_law [OF "0.prems"(4)])
  have "length ([] :: 't list) + length its \<le> 2 * TREE_BASE" using its(2) by simp
  from slice_seek.seek_items_correct [OF PR this sp, of ?e] b
  obtain agg1 e1 where s: "seek_items (slice_agg I) D tgt bias ?e d (begin_leaf (slice_agg I) agg)
      (zip its (map (item_summary I) its)) = Some (e1, q, agg1, True)" by auto
  obtain agg2 where e: "end_leaf (slice_agg I) agg1 = Some agg2" and l: "st' = e1 # stk" "agg' = agg2"
    using "0.prems"(7) by (subst (asm) seek_loop.simps(2))
      (use s in \<open>auto simp: c simp del: seek_loop.simps split: option.splits\<close>)
  show ?case using slice_leaf_height [OF s e "0.prems"(4) its(2)] "0.prems"(5) l by auto
next
  case (Suc k)
  let ?P = "\<lambda>d. passes bias (tgt d)" and ?e = "\<lparr>e_tree = c, e_index = 0, e_position = d\<rparr>"
  obtain s cts where c: "c = Internal (Suc k) s (map summary cts) cts" using wf_node_Internal [OF Suc.prems(1)] by auto
  have cts: "cts \<noteq> []" "length cts \<le> 2 * TREE_BASE" "\<forall>c\<in>set cts. wf_node I k c" using Suc.prems(1) c by simp_all
  have mono: "mono_target I D ?P d (concat (map tree_items cts))" using Suc.prems(2) c by simp
  obtain cs1 cs2 e1 agg1 where n: "cts = cs1 @ cs2"
     "seek_children (slice_agg I) D tgt bias ?e d agg (zip cts (map summary cts)) =
       Some (e1, pos_after I D d (concat (map tree_items cs1)), agg1, vec_first cs2)"
     "slice_AR I agg1 (xs @ concat (map tree_items cs1))"
     "seek_split I D ?P d (concat (map tree_items cs1)) =
       (concat (map tree_items cs1), [], pos_after I D d (concat (map tree_items cs1)))"
    using slice_seek.seek_children_correct [OF Suc.prems(4) cts(3) mono, of ?e] by blast
  let ?p = "pos_after I D d (concat (map tree_items cs1))"
  have wf: "wf_tree I (sl_tree agg)" using Suc.prems(4) by (simp add: slice_AR_def)
  have "concat (map tree_items cts) \<noteq> []" using wf_node_items_ne [OF Suc.prems(1)] c by simp
  then have "cs2 \<noteq> []" using n(1) seek_split_passed [OF n(4)] Suc.prems(3) c by (cases cs2) auto
  then obtain c' cs where cs2: "cs2 = c' # cs" by (cases cs2) auto
  have room: "1 + length cts \<le> 2 * TREE_BASE + (if vec_first cs2 = None then 0 else 1)" using cts(2) cs2 by simp
  have fits1: "fits (Suc K) 1 (sl_tree agg)" by (rule fits_above [OF Suc.prems(5)])
  have "k < Suc K" using Suc.prems(6) by simp
  from children_fits [OF n(2) wf cts(3) this fits1 _ room]
  have f: "height (sl_tree agg1) \<le> Suc K" "c' \<in> set cts" "\<not> ?P (d_add D ?p (summary c'))"
    using fits_le by (auto simp: cs2)
  have wf': "wf_node I k c'" using cts(3) f(2) by blast
  have stop: "\<not> ?P (pos_after I D ?p (tree_items c'))" using f(3) node_end [OF wf', of ?p] by simp
  have "mono_target I D ?P d (concat (map tree_items cs1) @ tree_items c' @ concat (map tree_items cs))"
    using mono n(1) cs2 by simp
  then have mono': "mono_target I D ?P ?p (tree_items c')" by (blast dest: mono_target_append)
  have step: "seek_loop (slice_agg I) D tgt bias (\<lparr>e_tree = c', e_index = 0, e_position = ?p\<rparr> # e1 # stk) ?p agg1 False = Some (st', p, agg')"
    using Suc.prems(7) by (subst (asm) seek_loop.simps(2))
      (use n(2) cs2 in \<open>auto simp: c push_entry_Some Let_def simp del: seek_loop.simps split: option.splits\<close>)
  have "k \<le> Suc (Suc K)" using Suc.prems(6) by simp
  from Suc.IH [OF wf' mono' stop n(3) f(1) this step] show ?case by simp
qed

text \<open>One node: its children from an index on. It is left upwards, or a child that is not passed is
  entered.\<close>

lemma node_height:
  assumes "e_tree e = Internal k s (map summary cts) cts" and "0 < k" and "\<forall>c\<in>set cts. wf_node I (k - 1) c"
    and "length cts \<le> 2 * TREE_BASE" and "i = e_index (if asc then e\<lparr>e_index := e_index e + 1, e_position := d\<rparr> else e)"
    and "i \<le> length cts" and "mono_target I D (\<lambda>d. passes bias (tgt d)) d (concat (map tree_items (drop i cts)))"
    and "slice_AR I agg xs" and "height (sl_tree agg) < k" and "0 < i \<or> is_empty (sl_tree agg)"
    and "seek_loop (slice_agg I) D tgt bias (e # stk) d agg asc = Some (st', p, agg')"
  shows "(height (sl_tree agg') \<le> 2 * k \<and> st' \<noteq> []) \<or>
    (\<exists>agg1. slice_AR I agg1 (xs @ concat (map tree_items (drop i cts))) \<and> height (sl_tree agg1) \<le> k \<and>
      seek_loop (slice_agg I) D tgt bias stk (pos_after I D d (concat (map tree_items (drop i cts)))) agg1 True = Some (st', p, agg'))"
proof -
  let ?P = "\<lambda>d. passes bias (tgt d)"
  let ?e = "if asc then e\<lparr>e_index := e_index e + 1, e_position := d\<rparr> else e" and ?cts = "drop i cts"
  have wfc: "\<forall>c\<in>set ?cts. wf_node I (k - 1) c" using assms(3) by (auto dest: in_set_dropD)
  obtain cs1 cs2 e1 agg1 where n: "?cts = cs1 @ cs2"
     "seek_children (slice_agg I) D tgt bias ?e d agg (zip ?cts (map summary ?cts)) =
       Some (e1, pos_after I D d (concat (map tree_items cs1)), agg1, vec_first cs2)"
     "slice_AR I agg1 (xs @ concat (map tree_items cs1))"
    using slice_seek.seek_children_correct [OF assms(8) wfc assms(7), of ?e] by blast
  let ?p = "pos_after I D d (concat (map tree_items cs1))"
  have wf: "wf_tree I (sl_tree agg)" using assms(8) by (simp add: slice_AR_def)
  have k: "k - 1 < k" using assms(2) by simp
  have fits0: "fits k (if 0 < i then 1 else 0) (sl_tree agg)" using assms(9) by (simp add: fits_def)
  have room: "(if 0 < i then 1 else 0) + length ?cts \<le> 2 * TREE_BASE + (if vec_first cs2 = None then 0 else 1)"
    using assms(4,6) by auto
  have "0 < (if 0 < i then 1 else 0 :: nat) \<or> is_empty (sl_tree agg)" using assms(10) by auto
  from children_fits [OF n(2) wf wfc k fits0 this room]
  have f: "height (sl_tree agg1) \<le> k" "cs2 \<noteq> [] \<Longrightarrow> \<not> ?P (d_add D ?p (summary (hd cs2)))"
    using fits_le by (cases cs2; auto)+
  have lens: "\<not> length cts < e_index ?e" using assms(5,6) by simp
  show ?thesis
  proof (cases cs2)
    case Nil
    then have "seek_loop (slice_agg I) D tgt bias stk ?p agg1 True = Some (st', p, agg')"
      using assms(11) by (subst (asm) seek_loop.simps(2))
        (use n(2) lens assms(5) in \<open>auto simp: assms(1) drop_map Let_def simp del: seek_loop.simps split: if_splits\<close>)
    then show ?thesis using n(1,3) f(1) Nil by auto
  next
    case (Cons c' cs)
    have wf': "wf_node I (k - 1) c'" using wfc n(1) Cons by simp
    have stop: "\<not> ?P (pos_after I D ?p (tree_items c'))" using f(2) node_end [OF wf', of ?p] Cons by simp
    have "mono_target I D ?P d (concat (map tree_items cs1) @ tree_items c' @ concat (map tree_items cs))"
      using assms(7) n(1) Cons by simp
    then have mono': "mono_target I D ?P ?p (tree_items c')" by (blast dest: mono_target_append)
    have step: "seek_loop (slice_agg I) D tgt bias (\<lparr>e_tree = c', e_index = 0, e_position = ?p\<rparr> # e1 # stk) ?p agg1 False = Some (st', p, agg')"
      using assms(11) by (subst (asm) seek_loop.simps(2))
        (use n(2) lens Cons assms(5) in \<open>auto simp: assms(1) drop_map Let_def push_entry_Some simp del: seek_loop.simps split: option.splits if_splits\<close>)
    have "k - 1 \<le> Suc k" by simp
    from descend_height [OF wf' mono' stop n(3) f(1) this step] show ?thesis using assms(2) by auto
  qed
qed

text \<open>On the way up.\<close>

lemma ascend_height:
  assumes "stack_ok I tree k 1 st" and "0 < k" and "mono_target I D (\<lambda>d. passes bias (tgt d)) d (stack_rest 1 st)"
    and "slice_AR I agg xs" and "height (sl_tree agg) < k" and "k + length st = Suc (height tree)"
    and "seek_loop (slice_agg I) D tgt bias st d agg True = Some (st', p, agg')"
  shows "height (sl_tree agg') \<le> (if st' = [] then height tree else 2 * height tree)"
  using assms
proof (induction st arbitrary: k d agg xs)
  case Nil
  then show ?case by auto
next
  case (Cons e stk)
  let ?P = "\<lambda>d. passes bias (tgt d)"
  obtain s cts where e: "e_tree e = Internal k s (map summary cts) cts"
    using wf_node_Internal [of I k "e_tree e"] Cons.prems(1,2) by auto
  have ok: "\<forall>c\<in>set cts. wf_node I (k - 1) c" "length cts \<le> 2 * TREE_BASE" "e_index e + 1 \<le> length cts"
    "stack_ok I tree (k + 1) 1 stk" using Cons.prems(1) e by auto
  let ?i = "e_index e + 1"
  have r: "entry_rest 1 e = concat (map tree_items (drop ?i cts))" by (simp add: entry_rest_def e)
  have m: "mono_target I D ?P d (concat (map tree_items (drop ?i cts)) @ stack_rest 1 stk)" using Cons.prems(3) r by simp
  have m1: "mono_target I D ?P d (concat (map tree_items (drop ?i cts)))"
    and m2: "mono_target I D ?P (pos_after I D d (concat (map tree_items (drop ?i cts)))) (stack_rest 1 stk)"
    using mono_target_append [OF m] by blast+
  have "?i = e_index (if True then e\<lparr>e_index := e_index e + 1, e_position := d\<rparr> else e)" "0 < ?i \<or> is_empty (sl_tree agg)"
    by simp_all
  note node = node_height [OF e Cons.prems(2) ok(1,2) this(1) ok(3) m1 Cons.prems(4,5) this(2) Cons.prems(7)]
  have le: "2 * k \<le> 2 * height tree" using Cons.prems(6) by simp
  from node show ?case
  proof (elim disjE exE conjE)
    fix agg1
    assume a: "slice_AR I agg1 (xs @ concat (map tree_items (drop ?i cts)))" "height (sl_tree agg1) \<le> k"
      "seek_loop (slice_agg I) D tgt bias stk (pos_after I D d (concat (map tree_items (drop ?i cts)))) agg1 True = Some (st', p, agg')"
    have "height (sl_tree agg1) < k + 1" "0 < k + 1" "k + 1 + length stk = Suc (height tree)" using a(2) Cons.prems(6) by simp_all
    from Cons.IH [OF ok(4) this(2) m2 a(1) this(1,3) a(3)] show ?thesis .
  qed (use le in simp)
qed

subsection \<open>Slices\<close>

lemma leaf_height:
  assumes "e_tree e = Leaf s its (map (item_summary I) its)" and "length its \<le> 2 * TREE_BASE" and "e_index e \<le> length its"
    and "stack_ok I tree 1 1 stk" and "Suc (length stk) = Suc (height tree)"
    and "mono_target I D (\<lambda>d. passes bias (tgt d)) d (drop (e_index e) its @ stack_rest 1 stk)"
    and "seek_loop (slice_agg I) D tgt bias (e # stk) d (slice_agg_new I) False = Some (st', p, agg')"
  shows "height (sl_tree agg') \<le> (if st' = [] then height tree else 2 * height tree)"
proof -
  let ?P = "\<lambda>d. passes bias (tgt d)" and ?its = "drop (e_index e) its"
  obtain a b q where sp: "seek_split I D ?P d ?its = (a, b, q)" by (metis prod_cases3)
  have PR: "slice_PR I (begin_leaf (slice_agg I) (slice_agg_new I)) [] []" by (rule slice_agg.begin_leaf_law [OF slice_agg_new_AR])
  have cap: "length ([] :: 't list) + length ?its \<le> 2 * TREE_BASE" using assms(2) by simp
  from slice_seek.seek_items_correct [OF PR cap sp, of e]
  obtain agg1 e1 where s: "seek_items (slice_agg I) D tgt bias e d (begin_leaf (slice_agg I) (slice_agg_new I))
      (zip ?its (map (item_summary I) ?its)) = Some (e1, q, agg1, b \<noteq> [])" "slice_PR I agg1 [] ([] @ a)" by auto
  obtain agg2 where e: "end_leaf (slice_agg I) agg1 = Some agg2" "slice_AR I agg2 ([] @ [] @ a)"
    using slice_agg.end_leaf_law [OF s(2)] by auto
  have empty: "is_empty (sl_tree (slice_agg_new I))" by (simp add: slice_agg_new_def new_def)
  have "length ?its \<le> 2 * TREE_BASE" using assms(2) by simp
  from slice_leaf_height [OF s(1) e(1) slice_agg_new_AR this]
  have h: "height (sl_tree agg2) = 0" using empty by blast
  show ?thesis
  proof (cases "b = []")
    case False
    then have "st' = e1 # stk \<and> agg' = agg2"
      using assms(7) by (subst (asm) seek_loop.simps(2))
        (use assms(3) s(1) e(1) in \<open>auto simp: assms(1) drop_map simp del: seek_loop.simps\<close>)
    then show ?thesis using h by simp
  next
    case True
    then have l: "seek_loop (slice_agg I) D tgt bias stk q agg2 True = Some (st', p, agg')"
      using assms(7) by (subst (asm) seek_loop.simps(2))
        (use assms(3) s(1) e(1) in \<open>auto simp: assms(1) drop_map simp del: seek_loop.simps\<close>)
    have "q = pos_after I D d ?its" using seek_split_parts [OF sp] True by simp
    then have m: "mono_target I D ?P q (stack_rest 1 stk)" using mono_target_append [OF assms(6)] by simp
    have "1 + length stk = Suc (height tree)" "height (sl_tree agg2) < 1" using assms(5) h by simp_all
    from ascend_height [OF assms(4) _ m e(2) this(2,1) l] show ?thesis by simp
  qed
qed

lemma slice_height:
  assumes "cursor_ok I D c" and "can_seek c"
    and "mono_target I D (\<lambda>d. passes bias (tgt d)) (c_position c) (cursor_rest c)"
    and "slice I D c tgt bias = Some (c', t)"
  shows "height t \<le> (if c_stack c' = [] then height (c_tree c) else 2 * height (c_tree c))"
proof -
  let ?tree = "c_tree c" and ?P = "\<lambda>d. passes bias (tgt d)"
  obtain st st' p agg' where l: "(if c_did_seek c then Some (c_stack c) else push_entry (c_stack c) (root_entry D ?tree)) = Some st"
    "seek_loop (slice_agg I) D tgt bias st (c_position c) (slice_agg_new I) False = Some (st', p, agg')"
    "c_stack c' = st'" "t = sl_tree agg'"
    using assms(4) by (auto simp: slice_def seek_internal_def Let_def split: bind_splits if_splits)
  have empty: "height (sl_tree (slice_agg_new I)) = 0" "is_empty (sl_tree (slice_agg_new I))"
    by (simp_all add: slice_agg_new_def new_def)
  consider (mid) "c_did_seek c" "c_stack c \<noteq> []" | (fin) "c_did_seek c" "c_stack c = []"
    | (start) "\<not> c_did_seek c" "c_stack c = []"
    using assms(1) unfolding cursor_ok_def by blast
  then show ?thesis
  proof cases
    case mid
    then obtain e stk where st: "st = e # stk" "c_stack c = e # stk" using l(1) by (cases "c_stack c") auto
    have ok: "stack_ok I ?tree 0 1 (e # stk)" using assms(1) st mid by (simp add: cursor_ok_def)
    obtain s its where e: "e_tree e = Leaf s its (map (item_summary I) its)"
      using wf_node_Leaf [of I "e_tree e"] ok by auto
    have "stack_ok I ?tree 1 1 stk" "length its \<le> 2 * TREE_BASE" "e_index e \<le> length its" using ok e by auto
    moreover have "Suc (length stk) = Suc (height ?tree)" using stack_ok_height [OF ok] by simp
    moreover have "mono_target I D ?P (c_position c) (drop (e_index e) its @ stack_rest 1 stk)"
      using assms(3) st by (simp add: cursor_rest_def entry_rest_def e)
    ultimately show ?thesis using leaf_height [OF e] l st(1) by blast
  next
    case fin
    then show ?thesis using l empty by auto
  next
    case start
    then have st: "st = [root_entry D ?tree]" using l(1) by (auto simp: push_entry_Some)
    have rest: "cursor_rest c = tree_items ?tree"
    proof (cases "tree_items ?tree = []")
      case False
      then have "\<not> c_at_end c" using assms(1) start wf_tree_is_empty by (auto simp: cursor_ok_def)
      then show ?thesis using start by (simp add: cursor_rest_def)
    qed (use start in \<open>simp add: cursor_rest_def\<close>)
    have wf: "wf_tree I ?tree" using assms(1) by (simp add: cursor_ok_def)
    show ?thesis
    proof (cases ?tree)
      case (Leaf s its iss)
      then have its: "iss = map (item_summary I) its" "length its \<le> 2 * TREE_BASE" using wf by (auto simp: wf_tree_def new_def)
      have "e_tree (root_entry D ?tree) = Leaf s its (map (item_summary I) its)" using Leaf its by (simp add: root_entry_def)
      then show ?thesis
        using leaf_height [of "root_entry D ?tree" s its ?tree "[]" bias tgt "c_position c" st' p agg'] its assms(3) l st rest Leaf
        by (simp add: root_entry_def)
    next
      case (Internal h s css cts)
      then have n: "wf_node I h ?tree" using wf by (auto simp: wf_tree_def new_def)
      have c: "css = map summary cts" "0 < h" "\<forall>c\<in>set cts. wf_node I (h - 1) c" "length cts \<le> 2 * TREE_BASE"
        using n Internal by auto
      have e: "e_tree (root_entry D ?tree) = Internal h s (map summary cts) cts" using Internal c(1) by (simp add: root_entry_def)
      have "0 = e_index (if False then (root_entry D ?tree)\<lparr>e_index := e_index (root_entry D ?tree) + 1, e_position := c_position c\<rparr>
          else root_entry D ?tree)" by (simp add: root_entry_def)
      moreover have "mono_target I D ?P (c_position c) (concat (map tree_items (drop 0 cts)))"
        using assms(3) rest Internal by simp
      moreover have "0 \<le> length cts" "height (sl_tree (slice_agg_new I)) < h" using empty c(2) by simp_all
      ultimately have "(height (sl_tree agg') \<le> 2 * h \<and> st' \<noteq> []) \<or>
          (\<exists>agg1. height (sl_tree agg1) \<le> h \<and> seek_loop (slice_agg I) D tgt bias []
             (pos_after I D (c_position c) (concat (map tree_items (drop 0 cts)))) agg1 True = Some (st', p, agg'))"
        using node_height [OF e c(2,3,4) _ _ _ slice_agg_new_AR, of 0 False "c_position c" bias tgt "[]" st' p agg'] empty(2) l(2) st
        by blast
      then show ?thesis using l(3,4) Internal by auto
    qed
  qed
qed

lemma suffix_height:
  assumes "cursor_ok I D c" and "can_seek c" and "suffix I D c = Some (c', t)"
  shows "height t \<le> height (c_tree c)"
proof -
  have e: "passes bias (end_target d)" for bias :: bias and d :: 'd by (simp add: passes_def end_target_def)
  have s: "slice I D c end_target Right = Some (c', t)" using assms(3) by (simp add: suffix_def)
  obtain c'' t'' where "suffix I D c = Some (c'', t'')" "cursor_ok I D c''" "c_at_end c''"
    using suffix_correct [OF assms(1,2)] by blast
  then have "c_stack c' = []" using assms(3) by (auto simp: cursor_ok_def)
  moreover have "mono_target I D (\<lambda>d. passes Right (end_target d)) (c_position c) (cursor_rest c)"
    using e by (rule mono_target_true)
  ultimately show ?thesis using slice_height [OF assms(1,2) _ s] by simp
qed

end

lemma update_last_height: "update_last I f t = Some t' \<Longrightarrow> height t' = height t"
  by (cases t) (auto simp: update_last_def Let_def split: bind_splits option.splits if_splits)

end
