(* ===== verification/RopeSummary.thy ===== *)
theory RopeSummary
  imports ChunkPosition SliceHeight Keyed
begin

text \<open>
  The summaries and dimensions of a rope's tree (\<open>crates/rope/src/rope.rs\<close>): the summary of a chunk
  is the summary of its text, and a text is measured in bytes, in UTF-16 code units, in points, in
  UTF-16 points, or by its whole summary. Lengths, rows and columns are natural numbers, that is, the
  text is shorter than 2^32 bytes; \<open>text_summary_concat\<close> relates them to the machine integers.
\<close>

subsection \<open>Summaries of texts form a monoid\<close>

text \<open>\<open>AddAssign\<close> is not associative on every value of the structure; it is on the summaries that hold
  what summaries of texts hold, and the type of a chunk's summary is the type of those.\<close>

definition cs_ok :: "('u, nat) text_summary \<Rightarrow> bool" where
  "cs_ok s \<longleftrightarrow> ts_ok s \<and> (ts_longest_row s \<noteq> 0 \<longrightarrow> ts_first_line_chars s < ts_longest_row_chars s)"

text \<open>The longest of two rows, the first on a tie; rows moved down.\<close>

definition pick :: "nat \<times> nat \<Rightarrow> nat \<times> nat \<Rightarrow> nat \<times> nat" where
  "pick p q = (if snd p < snd q then q else p)"

definition down :: "nat \<Rightarrow> nat \<times> nat \<Rightarrow> nat \<times> nat" where
  "down n p = (n + fst p, snd p)"

definition longest :: "('u, nat) text_summary \<Rightarrow> nat \<times> nat" where
  "longest s = (ts_longest_row s, ts_longest_row_chars s)"

lemma pick_assoc: "pick (pick p q) r = pick p (pick q r)"
  by (simp add: pick_def)

lemma pick_row: "pick (r, m) (r, m') = (r, max m m')"
  by (simp add: pick_def)

lemma down_pick: "down n (pick p q) = pick (down n p) (down n q)"
  by (simp add: pick_def down_def)

lemma down_simps: "down n (r, m) = (n + r, m)" "down n (down k p) = down (n + k) p" "down 0 p = p"
  by (simp_all add: down_def)

lemma longest_add:
  "longest (ts_add a b) =
     pick (pick (longest a) (row (ts_lines a), ts_last_line_chars a + ts_first_line_chars b)) (down (row (ts_lines a)) (longest b))"
  using ts_add_longest [of a b] by (simp add: longest_def pick_def down_def Let_def split: if_splits)

lemma ts_add_ok:
  fixes a b :: "(nat, nat) text_summary"
  assumes "ts_ok a" and "ts_ok b"
  shows "ts_ok (ts_add a b)"
  using ts_add_longest [of a b] assms by (auto simp: ts_ok_def Let_def split: if_splits)

lemma cs_add_ok:
  fixes a b :: "(nat, nat) text_summary"
  assumes "cs_ok a" and "cs_ok b"
  shows "cs_ok (ts_add a b)"
proof -
  have "ts_ok (ts_add a b)" using ts_add_ok assms by (simp add: cs_ok_def)
  moreover have "ts_longest_row (ts_add a b) \<noteq> 0 \<longrightarrow> ts_first_line_chars (ts_add a b) < ts_longest_row_chars (ts_add a b)"
    using longest_add [of a b] assms
    by (auto simp: cs_ok_def ts_ok_def longest_def pick_def down_def split: if_splits)
  ultimately show ?thesis by (simp add: cs_ok_def)
qed

lemma longest_add_assoc:
  fixes a b c :: "(nat, nat) text_summary"
  assumes "ts_ok b"
  shows "longest (ts_add (ts_add a b) c) = longest (ts_add a (ts_add b c))"
proof (cases "row (ts_lines b) = 0")
  case True
  then have b: "longest b = (0, ts_last_line_chars b)" "ts_first_line_chars b = ts_last_line_chars b"
    using assms by (auto simp: longest_def ts_ok_def)
  define m where "m = ts_last_line_chars a + (ts_last_line_chars b + ts_first_line_chars c)"
  have m: "max (ts_last_line_chars a + ts_last_line_chars b) (ts_last_line_chars b) = ts_last_line_chars a + ts_last_line_chars b"
    "max (ts_last_line_chars a + ts_last_line_chars b) m = m"
    "max (ts_last_line_chars b) (ts_last_line_chars b + ts_first_line_chars c) = ts_last_line_chars b + ts_first_line_chars c"
    "max m (ts_last_line_chars b + ts_first_line_chars c) = m"
    by (simp_all add: m_def)
  let ?r = "row (ts_lines a)"
  have "longest (ts_add (ts_add a b) c) = pick (longest a) (pick (?r, m) (down ?r (longest c)))"
    using True b by (simp add: longest_add down_simps pick_assoc m m_def [symmetric]
        pick_row pick_assoc [of "(?r, _)" "(?r, _)", symmetric] add.assoc)
  moreover have "longest (ts_add a (ts_add b c)) = pick (longest a) (pick (?r, m) (down ?r (longest c)))"
    using True b by (simp add: longest_add down_simps down_pick pick_assoc m m_def [symmetric]
        pick_row pick_assoc [of "(?r, _)" "(?r, _)", symmetric] add.assoc)
  ultimately show ?thesis by simp
next
  case False
  then show ?thesis by (simp add: longest_add down_pick down_simps pick_assoc)
qed

lemma ts_add_assoc:
  fixes a b c :: "(nat, nat) text_summary"
  assumes "ts_ok b"
  shows "ts_add (ts_add a b) c = ts_add a (ts_add b c)"
proof -
  have z: "row (ts_lines b) = 0 \<Longrightarrow> ts_first_line_chars b = ts_last_line_chars b" using assms by (simp add: ts_ok_def)
  show ?thesis
    by (rule text_summary.equality)
      (use longest_add_assoc [OF assms, of a c] z in \<open>simp_all add: longest_def add.assoc\<close>)
qed

lemma ts_scan_cs_ok: "cs_ok (ts_scan cs :: (nat, nat) text_summary)"
proof (induction cs rule: rev_induct)
  case (snoc c cs)
  let ?s = "ts_scan cs :: (nat, nat) text_summary"
  have "ts_longest_row (summary_step ?s c) \<noteq> 0 \<longrightarrow>
      ts_first_line_chars (summary_step ?s c) < ts_longest_row_chars (summary_step ?s c)"
    using snoc summary_step_longest [of ?s c] by (auto simp: cs_ok_def ts_ok_def split: if_splits)
  then show ?case using ts_scan_ok [of "cs @ [c]"] by (simp add: cs_ok_def ts_scan_simps)
qed (simp add: cs_ok_def ts_scan_simps ts_zero_ok, simp add: ts_zero_def)

lemma ts_from_cs_ok: "cs_ok (ts_from cs :: (nat, nat) text_summary)"
  using ts_scan_cs_ok [of cs] by (simp add: ts_from_scan cs_ok_def ts_ok_def)

lemma ts_zero_add: "cs_ok a \<Longrightarrow> ts_add ts_zero a = a" for a :: "(nat, nat) text_summary"
proof -
  assume a: "cs_ok a"
  have "longest (ts_add ts_zero a) = longest a"
    using a by (simp add: longest_add down_simps) (auto simp: longest_def ts_zero_def pick_def down_def cs_ok_def ts_ok_def)
  moreover have "row (ts_lines a) = 0 \<longrightarrow> ts_first_line_chars a = ts_last_line_chars a" using a by (simp add: cs_ok_def ts_ok_def)
  ultimately show ?thesis by (intro text_summary.equality) (simp_all add: longest_def ts_zero_def)
qed

typedef chunk_summary = "{s :: (nat, nat) text_summary. cs_ok s}"
  morphisms cs_text Chunk_Summary
  using ts_scan_cs_ok by blast

setup_lifting type_definition_chunk_summary

lift_definition cs_zero :: chunk_summary is ts_zero
  using ts_scan_cs_ok [of "[]"] by (simp add: ts_scan_simps)

lift_definition cs_add :: "chunk_summary \<Rightarrow> chunk_summary \<Rightarrow> chunk_summary" is ts_add
  by (rule cs_add_ok)

text \<open>The summary of a chunk always is one of those (\<open>chunk_summary_of\<close> below).\<close>

lift_definition chunk_summary_new :: "(nat, nat) text_summary \<Rightarrow> chunk_summary" is
  "\<lambda>s. if cs_ok s then s else ts_zero"
  using ts_scan_cs_ok [of "[]"] by (simp add: ts_scan_simps)

definition chunk_ops :: "(chunk, chunk_summary) item_ops" where
  "chunk_ops = \<lparr>item_summary = (\<lambda>self. chunk_summary_new (slice_text_summary (as_slice self))),
                s_zero = cs_zero, s_add = cs_add\<rparr>"

interpretation rope_tree: summary_laws chunk_ops
proof
  show "s_add chunk_ops (s_zero chunk_ops) s = s" for s
    unfolding chunk_ops_def by simp (transfer, rule ts_zero_add)
  show "s_add chunk_ops (s_add chunk_ops a b) c = s_add chunk_ops a (s_add chunk_ops b c)" for a b c
    unfolding chunk_ops_def by simp (transfer, simp add: ts_add_assoc cs_ok_def)
qed

subsection \<open>Dimensions\<close>

text \<open>The trait \<open>TextDimension\<close>: a dimension of the tree that also measures slices of chunks.\<close>

record 'd text_dimension =
  td_dim :: "('d, chunk_summary) dim_ops"
  td_from_text_summary :: "(nat, nat) text_summary \<Rightarrow> 'd"
  td_from_chunk :: "chunk_slice \<Rightarrow> 'd"
  td_add_assign :: "'d \<Rightarrow> 'd \<Rightarrow> 'd"

definition usize_dim :: "(nat, chunk_summary) dim_ops" where
  "usize_dim = \<lparr>d_zero = 0, d_add = (\<lambda>d s. d + ts_len (cs_text s))\<rparr>"

definition usize_td :: "nat text_dimension" where
  "usize_td = \<lparr>td_dim = usize_dim, td_from_text_summary = ts_len, td_from_chunk = slice_len, td_add_assign = (+)\<rparr>"

definition offset_utf16_dim :: "(nat offset_utf16, chunk_summary) dim_ops" where
  "offset_utf16_dim = \<lparr>d_zero = 0, d_add = (\<lambda>d s. d + ts_len_utf16 (cs_text s))\<rparr>"

definition offset_utf16_td :: "nat offset_utf16 text_dimension" where
  "offset_utf16_td = \<lparr>td_dim = offset_utf16_dim, td_from_text_summary = ts_len_utf16, td_from_chunk = slice_len_utf16,
     td_add_assign = (+)\<rparr>"

definition point_dim :: "(nat point, chunk_summary) dim_ops" where
  "point_dim = \<lparr>d_zero = 0, d_add = (\<lambda>d s. d + ts_lines (cs_text s))\<rparr>"

definition point_td :: "nat point text_dimension" where
  "point_td = \<lparr>td_dim = point_dim, td_from_text_summary = ts_lines, td_from_chunk = slice_lines, td_add_assign = (+)\<rparr>"

definition point_utf16_dim :: "(nat point_utf16, chunk_summary) dim_ops" where
  "point_utf16_dim = \<lparr>d_zero = 0, d_add = (\<lambda>d s. d + lines_utf16 (cs_text s))\<rparr>"

definition point_utf16_td :: "nat point_utf16 text_dimension" where
  "point_utf16_td = \<lparr>td_dim = point_utf16_dim, td_from_text_summary = lines_utf16,
     td_from_chunk = (\<lambda>chunk. PointUtf16 (row (slice_lines chunk)) (slice_last_line_len_utf16 chunk)), td_add_assign = (+)\<rparr>"

definition text_summary_dim :: "((nat, nat) text_summary, chunk_summary) dim_ops" where
  "text_summary_dim = \<lparr>d_zero = ts_zero, d_add = (\<lambda>d s. ts_add d (cs_text s))\<rparr>"

definition text_summary_td :: "(nat, nat) text_summary text_dimension" where
  "text_summary_td = \<lparr>td_dim = text_summary_dim, td_from_text_summary = id, td_from_chunk = slice_text_summary,
     td_add_assign = ts_add\<rparr>"

text \<open>\<open>Dimensions<D1, D2>\<close> as a text dimension.\<close>

definition dimensions2_td :: "'d text_dimension \<Rightarrow> 'e text_dimension \<Rightarrow> ('d \<times> 'e) text_dimension" where
  "dimensions2_td D E = \<lparr>td_dim = dimensions2 (td_dim D) (td_dim E),
     td_from_text_summary = (\<lambda>s. (td_from_text_summary D s, td_from_text_summary E s)),
     td_from_chunk = (\<lambda>chunk. (td_from_chunk D chunk, td_from_chunk E chunk)),
     td_add_assign = (\<lambda>a b. (td_add_assign D (fst a) (fst b), td_add_assign E (snd a) (snd b)))\<rparr>"

text \<open>\<open>DimensionPair\<close>: only the key is compared; the value is lost when the other one has none.\<close>

datatype ('k, 'v) dimension_pair = DimensionPair (pair_key: 'k) (pair_value: "'v option")

definition pair_default :: "'k \<Rightarrow> 'v \<Rightarrow> ('k, 'v) dimension_pair" where
  "pair_default k v = DimensionPair k (Some v)"

definition pair_cmp :: "('k::linorder, 'v) dimension_pair \<Rightarrow> ('k, 'v) dimension_pair \<Rightarrow> ordering" where
  "pair_cmp self other = cmp (pair_key self) (pair_key other)"

definition pair_eq :: "('k, 'v) dimension_pair \<Rightarrow> ('k, 'v) dimension_pair \<Rightarrow> bool" where
  "pair_eq self other \<longleftrightarrow> pair_key self = pair_key other"

definition pair_sub :: "('k::minus, 'v::minus) dimension_pair \<Rightarrow> ('k, 'v) dimension_pair \<Rightarrow> ('k, 'v) dimension_pair" where
  "pair_sub self rhs = DimensionPair (pair_key self - pair_key rhs)
     (case (pair_value self, pair_value rhs) of (Some a, Some b) \<Rightarrow> Some (a - b) | _ \<Rightarrow> None)"

definition pair_add_assign ::
    "('k \<Rightarrow> 'k \<Rightarrow> 'k) \<Rightarrow> ('v \<Rightarrow> 'v \<Rightarrow> 'v) \<Rightarrow> ('k, 'v) dimension_pair \<Rightarrow> ('k, 'v) dimension_pair \<Rightarrow> ('k, 'v) dimension_pair" where
  "pair_add_assign addk addv self rhs = DimensionPair (addk (pair_key self) (pair_key rhs))
     (case pair_value self of None \<Rightarrow> None
      | Some v \<Rightarrow> (case pair_value rhs of Some w \<Rightarrow> Some (addv v w) | None \<Rightarrow> None))"

definition pair_dim :: "('k, 's) dim_ops \<Rightarrow> ('v, 's) dim_ops \<Rightarrow> (('k, 'v) dimension_pair, 's) dim_ops" where
  "pair_dim K V = \<lparr>d_zero = DimensionPair (d_zero K) (Some (d_zero V)),
     d_add = (\<lambda>self s. DimensionPair (d_add K (pair_key self) s) (map_option (\<lambda>v. d_add V v s) (pair_value self)))\<rparr>"

definition pair_td :: "'k text_dimension \<Rightarrow> 'v text_dimension \<Rightarrow> ('k, 'v) dimension_pair text_dimension" where
  "pair_td K V = \<lparr>td_dim = pair_dim (td_dim K) (td_dim V),
     td_from_text_summary = (\<lambda>s. DimensionPair (td_from_text_summary K s) (Some (td_from_text_summary V s))),
     td_from_chunk = (\<lambda>chunk. DimensionPair (td_from_chunk K chunk) (Some (td_from_chunk V chunk))),
     td_add_assign = pair_add_assign (td_add_assign K) (td_add_assign V)\<rparr>"

subsection \<open>What the dimensions measure\<close>

lemma chunk_summary_of: "str_len cs \<le> 128 \<Longrightarrow> cs_text (item_summary chunk_ops (chunk_of cs)) = ts_from cs"
  unfolding chunk_ops_def as_slice_def by (simp add: text_summary_of) (transfer, simp add: ts_from_cs_ok)

lemma cs_text_add: "cs_text (s_add chunk_ops a b) = ts_add (cs_text a) (cs_text b)" "cs_text (s_zero chunk_ops) = ts_zero"
  by (simp_all add: chunk_ops_def cs_add.rep_eq cs_zero.rep_eq)

lemma lines_utf16_add: "lines_utf16 (ts_add a b) = lines_utf16 a + lines_utf16 (b :: (nat, nat) text_summary)"
  by (auto simp: lines_utf16_def intro!: point_utf16.expand)

lemma ts_zero_fields: "ts_len ts_zero = 0" "ts_len_utf16 ts_zero = 0" "ts_lines ts_zero = 0" "lines_utf16 ts_zero = 0"
  by (simp_all add: ts_zero_def lines_utf16_def zero_point_utf16_eq)

interpretation usize_laws: dim_laws chunk_ops usize_dim
  by unfold_locales (simp_all add: usize_dim_def cs_text_add ts_zero_fields)

interpretation offset_utf16_laws: dim_laws chunk_ops offset_utf16_dim
  by unfold_locales (simp_all add: offset_utf16_dim_def cs_text_add ts_zero_fields add.assoc)

interpretation point_laws: dim_laws chunk_ops point_dim
  by unfold_locales (simp_all add: point_dim_def cs_text_add ts_zero_fields add.assoc)

interpretation point_utf16_laws: dim_laws chunk_ops point_utf16_dim
  by unfold_locales (simp_all add: point_utf16_dim_def cs_text_add ts_zero_fields add.assoc lines_utf16_add)

interpretation text_summary_laws: dim_laws chunk_ops text_summary_dim
proof
  show "d_add text_summary_dim (d_add text_summary_dim d a) b = d_add text_summary_dim d (s_add chunk_ops a b)" for d a b
  proof -
    have "ts_ok (cs_text a)" using cs_text [of a] by (simp add: cs_ok_def)
    then show ?thesis by (simp add: text_summary_dim_def cs_text_add ts_add_assoc)
  qed
qed

lemma dimensions2_laws:
  assumes "dim_laws chunk_ops D" and "dim_laws chunk_ops E"
  shows "dim_laws chunk_ops (dimensions2 D E)"
  using assms unfolding dim_laws_def dim_laws_axioms_def by (auto simp: dimensions2_def)

lemma pair_dim_laws:
  assumes "dim_laws chunk_ops K" and "dim_laws chunk_ops V"
  shows "dim_laws chunk_ops (pair_dim K V)"
  using assms unfolding dim_laws_def dim_laws_axioms_def by (auto simp: pair_dim_def option.map_comp comp_def)

lemma ts_from_Nil: "ts_zero = (ts_from [] :: (nat, nat) text_summary)"
  by (simp add: ts_from_scan ts_scan_simps ts_zero_def)

text \<open>\<open>m cs\<close> is what a dimension measures of the text \<open>cs\<close>.\<close>

locale text_measure =
  fixes D :: "'d text_dimension" and m :: "rust_char list \<Rightarrow> 'd"
  assumes laws: "dim_laws chunk_ops (td_dim D)"
    and zero: "d_zero (td_dim D) = m []"
    and add_text: "cs_text s = ts_from ys \<Longrightarrow> d_add (td_dim D) (m xs) s = m (xs @ ys)"
    and from_chunk: "str_len cs \<le> 128 \<Longrightarrow> td_from_chunk D (chunk_of cs) = m cs"
    and from_summary: "td_from_text_summary D (ts_from cs) = m cs"
    and add_assign: "td_add_assign D (m xs) (m ys) = m (xs @ ys)"
begin

lemma zero_laws: "zero_dim_laws chunk_ops (td_dim D)"
proof -
  have "cs_text (s_zero chunk_ops) = ts_from []" by (simp add: cs_text_add ts_from_Nil)
  from add_text [OF this, of "[]"] have "d_add (td_dim D) (d_zero (td_dim D)) (s_zero chunk_ops) = d_zero (td_dim D)"
    by (simp add: zero)
  then show ?thesis by (intro zero_dim_laws.intro laws zero_dim_laws_axioms.intro)
qed

lemma pos_after_text:
  "\<forall>cs \<in> set css. str_len cs \<le> 128 \<Longrightarrow>
     pos_after chunk_ops (td_dim D) (m xs) (map chunk_of css) = m (xs @ concat css)"
proof (induction css arbitrary: xs)
  case (Cons cs css)
  then show ?case using add_text [OF chunk_summary_of, of cs xs] Cons.IH [of "xs @ cs"] by simp
qed simp

end

text \<open>A measure that positions are compared and subtracted in.\<close>

locale text_position = text_measure D m for D :: "'d::{linorder,plus,minus} text_dimension" and m +
  assumes less: "ys \<noteq> [] \<Longrightarrow> m xs < m (xs @ ys)"
    and plus: "m xs + m ys = m (xs @ ys)"
    and minus: "m (xs @ ys) - m xs = m ys"
begin

lemma le: "m xs \<le> m (xs @ ys)"
  using less [of ys xs] by (cases "ys = []") (auto simp: less_imp_le)

lemma prefix_le_iff: "m (xs @ ys) \<le> m xs \<longleftrightarrow> ys = []"
  using less [of ys xs] by (cases "ys = []") auto

end

lemma scan_lines_append: "ts_lines (scan (xs @ ys)) = ts_lines (scan xs) + ts_lines (scan ys)"
  "lines_utf16 (scan (xs @ ys)) = lines_utf16 (scan xs) + lines_utf16 (scan ys)"
  by (simp_all add: ts_scan_append lines_utf16_add)

lemma str_len_pos: "cs \<noteq> [] \<Longrightarrow> 0 < str_len cs"
  using str_len_eq_0 [of cs] by linarith

lemma scan_lines_pos:
  assumes "ys \<noteq> []"
  shows "0 < ts_lines (scan ys)" "0 < lines_utf16 (scan ys)"
proof -
  obtain as bs where c: "ys = as @ bs" "line_end as" "10 \<notin> set bs" by (rule last_line)
  have r: "as \<noteq> [] \<Longrightarrow> 0 < count_list as 10" using line_end_snoc [OF c(2)] by auto
  have "bs \<noteq> [] \<Longrightarrow> 0 < str_len bs" "bs \<noteq> [] \<Longrightarrow> 0 < utf16_len bs" using utf16_len_pos str_len_pos by blast+
  with r assms show "0 < ts_lines (scan ys)" "0 < lines_utf16 (scan ys)"
    using scan_last_line [OF c(2,3)] c(1)
    by (auto simp: less_point_def point_lex_cmp_def less_point_utf16_def point_utf16_lex_cmp_def lines_utf16_def)
qed

lemma point_less_add: "0 < q \<Longrightarrow> p < p + q" for p q :: "nat point"
  by (auto simp: less_point_def point_lex_cmp_def)

lemma point_utf16_less_add: "0 < q \<Longrightarrow> p < p + q" for p q :: "nat point_utf16"
  by (auto simp: less_point_utf16_def point_utf16_lex_cmp_def)

lemma point_add_sub: "p + q - p = q" for p q :: "nat point"
  by (auto simp: minus_point_eq intro!: point.expand)

lemma point_utf16_add_sub: "p + q - p = q" for p q :: "nat point_utf16"
  by (auto simp: minus_point_utf16_eq intro!: point_utf16.expand)

interpretation usize_pos: text_position usize_td str_len
  by unfold_locales
    (auto simp: usize_td_def usize_dim_def cs_text_add ts_zero_fields ts_from_scan slice_len_def str_len_pos)

interpretation offset_utf16_pos: text_position offset_utf16_td "\<lambda>cs. OffsetUtf16 (utf16_len cs)"
  using utf16_len_pos offset_utf16_laws.dim_laws_axioms
  by unfold_locales
    (auto simp: offset_utf16_td_def offset_utf16_dim_def cs_text_add zero_offset_utf16_eq ts_from_scan slice_len_utf16_def
       count_ones_bitmap plus_offset_utf16_eq minus_offset_utf16_eq less_offset_utf16_def dim_laws_def dim_laws_axioms_def)

interpretation point_pos: text_position point_td "\<lambda>cs. ts_lines (scan cs)"
  using point_laws.dim_laws_axioms
  by unfold_locales
    (auto simp: point_td_def point_dim_def ts_from_scan lines_of scan_lines_append scan_lines_pos point_less_add point_add_sub
       ts_scan_simps ts_zero_fields dim_laws_def dim_laws_axioms_def)

lemma lines_utf16_from: "lines_utf16 (ts_from cs :: (nat, nat) text_summary) = lines_utf16 (scan cs)"
  "str_len cs \<le> 128 \<Longrightarrow> PointUtf16 (row (slice_lines (chunk_of cs))) (slice_last_line_len_utf16 (chunk_of cs)) = lines_utf16 (scan cs)"
  by (simp_all add: lines_utf16_def ts_from_scan lines_of last_line_of)

interpretation point_utf16_pos: text_position point_utf16_td "\<lambda>cs. lines_utf16 (scan cs)"
proof (intro text_position.intro text_measure.intro text_position_axioms.intro)
  show "dim_laws chunk_ops (td_dim point_utf16_td)" by (simp add: point_utf16_td_def point_utf16_laws.dim_laws_axioms)
qed (simp_all add: point_utf16_td_def point_utf16_dim_def lines_utf16_from scan_lines_append scan_lines_pos
       point_utf16_less_add point_utf16_add_sub ts_scan_simps ts_zero_fields)

interpretation summary_measure: text_measure text_summary_td ts_from
proof (intro text_measure.intro)
  show "dim_laws chunk_ops (td_dim text_summary_td)" by (simp add: text_summary_td_def text_summary_laws.dim_laws_axioms)
qed (simp_all add: text_summary_td_def text_summary_dim_def text_summary_of ts_from_append ts_from_Nil)

lemma dimensions2_measure:
  assumes "text_measure D m" and "text_measure E n"
  shows "text_measure (dimensions2_td D E) (\<lambda>cs. (m cs, n cs))"
  using assms dimensions2_laws [of "td_dim D" "td_dim E"]
  unfolding text_measure_def by (auto simp: dimensions2_td_def dimensions2_def)

end
