(* ===== verification/Rope.thy ===== *)
theory Rope
  imports RopeSummary
begin

text \<open>
  Ropes (\<open>crates/rope/src/rope.rs\<close>): a text as a tree of chunks of at most 128 bytes. This theory
  holds the structure, its edits and its cursor, the conversions between positions and the clipping of
  positions; \<open>RopeText\<close>, \<open>RopeCursor\<close> and \<open>RopePosition\<close> hold what they do. Offsets are natural numbers:
  the offset of an item that was found is at most the offset sought, so that the code's differences do
  not wrap. \<open>check_invariants\<close> is empty outside tests; what it asserts in them is part of \<open>rope_of\<close>.
\<close>

record rope =
  rope_chunks :: "(chunk, chunk_summary) sum_tree"

definition rope_new :: rope where
  "rope_new = \<lparr>rope_chunks = new chunk_ops\<rparr>"

definition rope_summary :: "rope \<Rightarrow> (nat, nat) text_summary" where
  "rope_summary self = cs_text (summary (rope_chunks self))"

definition rope_len :: "rope \<Rightarrow> nat" where
  "rope_len self = extent usize_dim (rope_chunks self)"

definition rope_is_empty :: "rope \<Rightarrow> bool" where
  "rope_is_empty self \<longleftrightarrow> rope_len self = 0"

definition rope_max_point :: "rope \<Rightarrow> nat point" where
  "rope_max_point self = extent point_dim (rope_chunks self)"

definition rope_max_point_utf16 :: "rope \<Rightarrow> nat point_utf16" where
  "rope_max_point_utf16 self = extent point_utf16_dim (rope_chunks self)"

subsection \<open>Character boundaries\<close>

definition rope_is_char_boundary :: "rope \<Rightarrow> nat \<Rightarrow> bool" where
  "rope_is_char_boundary self offset =
     (if is_empty (rope_chunks self) then offset = 0
      else let (start, _, item) = find usize_dim (rope_chunks self) (key_target offset) Left;
               chunk_offset = offset - start
           in case item of Some chunk \<Rightarrow> chunk_is_char_boundary chunk chunk_offset | None \<Rightarrow> False)"

definition rope_assert_char_boundary :: "bool \<Rightarrow> rope \<Rightarrow> nat \<Rightarrow> bool option" where
  "rope_assert_char_boundary panics self offset =
     (if is_empty (rope_chunks self) \<and> offset = 0 then Some True
      else let (start, _, item) = find usize_dim (rope_chunks self) (key_target offset) Left
           in case item of
                Some chunk \<Rightarrow> let chunk_offset = offset - start in assert_char_boundary panics chunk chunk_offset
              | None \<Rightarrow> if panics then None else Some False)"

definition rope_floor_char_boundary :: "rope \<Rightarrow> nat \<Rightarrow> nat" where
  "rope_floor_char_boundary self index =
     (if rope_len self \<le> index then rope_len self
      else let (start, _, item) = find usize_dim (rope_chunks self) (key_target index) Left;
               chunk_offset = index - start
           in case item of
                Some chunk \<Rightarrow> start + str_floor_char_boundary (ck_text chunk) chunk_offset
              | None \<Rightarrow> rope_len self)"

definition rope_ceil_char_boundary :: "rope \<Rightarrow> nat \<Rightarrow> nat" where
  "rope_ceil_char_boundary self index =
     (if rope_len self < index then rope_len self
      else let (start, _, item) = find usize_dim (rope_chunks self) (key_target index) Left;
               chunk_offset = index - start
           in case item of
                Some chunk \<Rightarrow> start + str_ceil_char_boundary (ck_text chunk) chunk_offset
              | None \<Rightarrow> rope_len self)"

subsection \<open>Pushing text\<close>

text \<open>\<open>update_last\<close> with a closure that may panic and that hands a value out through a captured
  variable; on an empty tree it is not called.\<close>

definition update_last_with ::
    "(chunk \<Rightarrow> (chunk \<times> 'a) option) \<Rightarrow> 'a \<Rightarrow> (chunk, chunk_summary) sum_tree \<Rightarrow>
      ((chunk, chunk_summary) sum_tree \<times> 'a) option" where
  "update_last_with f captured tree = do {
     it \<leftarrow> last_item tree;
     (case it of
        None \<Rightarrow> do { tree \<leftarrow> update_last chunk_ops id tree; Some (tree, captured) }
      | Some chunk \<Rightarrow> do {
          (chunk', captured) \<leftarrow> f chunk;
          tree \<leftarrow> update_last chunk_ops (\<lambda>_. chunk') tree;
          Some (tree, captured)
        })
   }"

text \<open>The closure of \<open>push\<close>: fill the last chunk, at least up to its minimum.\<close>

definition push_fill :: "str \<Rightarrow> chunk \<Rightarrow> (chunk \<times> str) option" where
  "push_fill text last_chunk = do {
     split_ix \<leftarrow>
       (if length (ck_text last_chunk) + length text \<le> MAX_BASE then Some (length text)
        else clip_offset_loop text False (min (MIN_BASE - length (ck_text last_chunk)) (length text)));
     (suf, remainder) \<leftarrow> str_split_at text split_ix;
     last_chunk \<leftarrow> chunk_push_str last_chunk suf;
     Some (last_chunk, remainder)
   }"

text \<open>The loop that divides the text into chunks; \<open>cap\<close> is the capacity of the vector, \<open>None\<close> for one
  that grows.\<close>

partial_function (option) split_loop :: "nat option \<Rightarrow> str \<Rightarrow> str list \<Rightarrow> str list option" where
  "split_loop cap text new_chunks =
     (if text = [] then Some new_chunks
      else do {
        split_ix \<leftarrow> clip_offset_loop text True (min MAX_BASE (length text));
        (chunk, remainder) \<leftarrow> str_split_at text split_ix;
        guard (case cap of None \<Rightarrow> True | Some n \<Rightarrow> length new_chunks < n);
        split_loop cap remainder (new_chunks @ [chunk])
      })"

definition PARALLEL_THRESHOLD :: nat where "PARALLEL_THRESHOLD = 84 * (2 * TREE_BASE)"

definition push_large :: "rope \<Rightarrow> str \<Rightarrow> rope option" where
  "push_large self text = do {
     new_chunks \<leftarrow> split_loop None text [];
     cs \<leftarrow> those (map chunk_new new_chunks);
     tree \<leftarrow> (if PARALLEL_THRESHOLD \<le> length new_chunks then par_extend chunk_ops (rope_chunks self) cs
             else SumTree.extend chunk_ops (rope_chunks self) cs);
     Some (self\<lparr>rope_chunks := tree\<rparr>)
   }"

definition NUM_CHUNKS :: nat where "NUM_CHUNKS = 4"

definition rope_push :: "rope \<Rightarrow> str \<Rightarrow> rope option" where
  "rope_push self text = do {
     (tree, text) \<leftarrow> update_last_with (push_fill text) text (rope_chunks self);
     let self = self\<lparr>rope_chunks := tree\<rparr>;
     (if text = [] then Some self
      else if NUM_CHUNKS * MAX_BASE - NUM_CHUNKS * 4 < length text then push_large self text
      else do {
        new_chunks \<leftarrow> split_loop (Some NUM_CHUNKS) text [];
        cs \<leftarrow> those (map chunk_new new_chunks);
        tree \<leftarrow> SumTree.extend chunk_ops (rope_chunks self) cs;
        Some (self\<lparr>rope_chunks := tree\<rparr>)
      })
   }"

definition rope_from :: "str \<Rightarrow> rope option" where
  "rope_from text = rope_push rope_new text"

text \<open>\<open>FromIterator\<close>.\<close>

fun rope_push_all :: "rope \<Rightarrow> str list \<Rightarrow> rope option" where
  "rope_push_all self [] = Some self"
| "rope_push_all self (chunk # rest) = do { self \<leftarrow> rope_push self chunk; rope_push_all self rest }"

definition rope_from_iter :: "str list \<Rightarrow> rope option" where
  "rope_from_iter xs = rope_push_all rope_new xs"

subsection \<open>Pushing chunks\<close>

partial_function (option) slice_boundary_loop :: "chunk_slice \<Rightarrow> nat \<Rightarrow> nat option" where
  "slice_boundary_loop chunk split_ix =
     (if chunk_is_char_boundary chunk split_ix then Some split_ix
      else slice_boundary_loop chunk ((split_ix + 1) mod 2 ^ 64))"

definition push_chunk_fill :: "chunk_slice \<Rightarrow> chunk \<Rightarrow> (chunk \<times> chunk_slice) option" where
  "push_chunk_fill chunk last_chunk = do {
     split_ix \<leftarrow>
       (if length (ck_text last_chunk) + slice_len chunk \<le> MAX_BASE then Some (slice_len chunk)
        else slice_boundary_loop chunk (min (MIN_BASE - length (ck_text last_chunk)) (slice_len chunk)));
     (suf, remainder) \<leftarrow> slice_split_at chunk split_ix;
     last_chunk \<leftarrow> chunk_append last_chunk suf;
     Some (last_chunk, remainder)
   }"

text \<open>\<open>Into<Chunk>\<close>: the text is copied into an array of the capacity of a chunk.\<close>

definition slice_into_chunk :: "chunk_slice \<Rightarrow> chunk option" where
  "slice_into_chunk self = do { t \<leftarrow> array_push_str [] (ck_text self); Some (self\<lparr>ck_text := t\<rparr>) }"

definition push_chunk :: "rope \<Rightarrow> chunk_slice \<Rightarrow> rope option" where
  "push_chunk self chunk = do {
     (tree, chunk) \<leftarrow> update_last_with (push_chunk_fill chunk) chunk (rope_chunks self);
     (if ck_text chunk \<noteq> []
      then do { c \<leftarrow> slice_into_chunk chunk; tree \<leftarrow> push chunk_ops tree c; Some (self\<lparr>rope_chunks := tree\<rparr>) }
      else Some (self\<lparr>rope_chunks := tree\<rparr>))
   }"

definition rope_append :: "rope \<Rightarrow> rope \<Rightarrow> rope option" where
  "rope_append self rope = do {
     fst_chunk \<leftarrow> first (rope_chunks rope);
     small \<leftarrow> (case fst_chunk of
         None \<Rightarrow> Some None
       | Some chunk \<Rightarrow> do {
           l \<leftarrow> last_item (rope_chunks self);
           Some (if (case l of Some c \<Rightarrow> length (ck_text c) < MIN_BASE | None \<Rightarrow> False) \<or> length (ck_text chunk) < MIN_BASE
                 then Some chunk else None)
         });
     (case small of
        Some chunk \<Rightarrow> do {
          self \<leftarrow> push_chunk self (as_slice chunk);
          cursor \<leftarrow> cursor_next unit_dim (cursor_new unit_dim (rope_chunks rope));
          cursor \<leftarrow> cursor_next unit_dim cursor;
          (_, suf) \<leftarrow> suffix chunk_ops unit_dim cursor;
          tree \<leftarrow> append_tree chunk_ops (rope_chunks self) suf;
          Some (self\<lparr>rope_chunks := tree\<rparr>)
        }
      | None \<Rightarrow> do {
          tree \<leftarrow> append_tree chunk_ops (rope_chunks self) (rope_chunks rope);
          Some (self\<lparr>rope_chunks := tree\<rparr>)
        })
   }"

definition rope_push_front :: "rope \<Rightarrow> str \<Rightarrow> rope option" where
  "rope_push_front self text =
     (if text = [] then Some self
      else if rope_is_empty self then rope_push self text
      else do {
        f \<leftarrow> first (rope_chunks self);
        (case f of
           Some c \<Rightarrow>
             if length (ck_text c) + length text \<le> MAX_BASE
             then do {
               c \<leftarrow> chunk_prepend_str c text;
               tree \<leftarrow> update_first chunk_ops (\<lambda>_. c) (rope_chunks self);
               Some (self\<lparr>rope_chunks := tree\<rparr>)
             }
             else do { new_self \<leftarrow> rope_from text; rope_append new_self self }
         | None \<Rightarrow> do { new_self \<leftarrow> rope_from text; rope_append new_self self })
      })"

subsection \<open>The cursor of a rope\<close>

record rope_cursor =
  rc_rope :: rope
  rc_chunks :: "(chunk, chunk_summary, nat) cursor"
  rc_offset :: nat

definition rope_cursor_new :: "rope \<Rightarrow> nat \<Rightarrow> rope_cursor option" where
  "rope_cursor_new rope offset = do {
     (c, _) \<leftarrow> seek usize_dim (cursor_new usize_dim (rope_chunks rope)) (key_target offset) Right;
     Some \<lparr>rc_rope = rope, rc_chunks = c, rc_offset = offset\<rparr>
   }"

definition rope_seek_forward :: "rope_cursor \<Rightarrow> nat \<Rightarrow> rope_cursor option" where
  "rope_seek_forward self end_offset = do {
     guard (rc_offset self \<le> end_offset);
     guard (end_offset \<le> rope_len (rc_rope self));
     (c, _) \<leftarrow> seek_forward usize_dim (rc_chunks self) (key_target end_offset) Right;
     Some (self\<lparr>rc_chunks := c, rc_offset := end_offset\<rparr>)
   }"

definition rope_cursor_slice :: "rope_cursor \<Rightarrow> nat \<Rightarrow> (rope_cursor \<times> rope) option" where
  "rope_cursor_slice self end_offset = do {
     guard (rc_offset self \<le> end_offset);
     guard (end_offset \<le> rope_len (rc_rope self));
     it \<leftarrow> cursor_item (rc_chunks self);
     end_pos \<leftarrow> cursor_end usize_dim (rc_chunks self);
     slice \<leftarrow> (case it of
         None \<Rightarrow> Some rope_new
       | Some start_chunk \<Rightarrow> do {
           let start_ix = rc_offset self - c_position (rc_chunks self);
           let end_ix = min end_offset end_pos - c_position (rc_chunks self);
           sl \<leftarrow> chunk_slice_range start_chunk start_ix end_ix;
           push_chunk rope_new sl
         });
     (if end_pos < end_offset then do {
        c \<leftarrow> cursor_next usize_dim (rc_chunks self);
        (c, t) \<leftarrow> Cursor.slice chunk_ops usize_dim c (key_target end_offset) Right;
        slice \<leftarrow> rope_append slice \<lparr>rope_chunks = t\<rparr>;
        it \<leftarrow> cursor_item c;
        slice \<leftarrow> (case it of
            None \<Rightarrow> Some slice
          | Some end_chunk \<Rightarrow> do {
              let end_ix = end_offset - c_position c;
              sl \<leftarrow> chunk_slice_range end_chunk 0 end_ix;
              push_chunk slice sl
            });
        Some (self\<lparr>rc_chunks := c, rc_offset := end_offset\<rparr>, slice)
      } else Some (self\<lparr>rc_offset := end_offset\<rparr>, slice))
   }"

definition rope_cursor_summary :: "'d text_dimension \<Rightarrow> rope_cursor \<Rightarrow> nat \<Rightarrow> (rope_cursor \<times> 'd) option" where
  "rope_cursor_summary D self end_offset = do {
     guard (rc_offset self \<le> end_offset);
     guard (end_offset \<le> rope_len (rc_rope self));
     it \<leftarrow> cursor_item (rc_chunks self);
     end_pos \<leftarrow> cursor_end usize_dim (rc_chunks self);
     s \<leftarrow> (case it of
         None \<Rightarrow> Some (d_zero (td_dim D))
       | Some start_chunk \<Rightarrow> do {
           let start_ix = rc_offset self - c_position (rc_chunks self);
           let end_ix = min end_offset end_pos - c_position (rc_chunks self);
           sl \<leftarrow> chunk_slice_range start_chunk start_ix end_ix;
           Some (td_add_assign D (d_zero (td_dim D)) (td_from_chunk D sl))
         });
     (if end_pos < end_offset then do {
        c \<leftarrow> cursor_next usize_dim (rc_chunks self);
        (c, t) \<leftarrow> cursor_summary usize_dim (td_dim D) c (key_target end_offset) Right;
        let s = td_add_assign D s t;
        it \<leftarrow> cursor_item c;
        s \<leftarrow> (case it of
            None \<Rightarrow> Some s
          | Some end_chunk \<Rightarrow> do {
              let end_ix = end_offset - c_position c;
              sl \<leftarrow> chunk_slice_range end_chunk 0 end_ix;
              Some (td_add_assign D s (td_from_chunk D sl))
            });
        Some (self\<lparr>rc_chunks := c, rc_offset := end_offset\<rparr>, s)
      } else Some (self\<lparr>rc_offset := end_offset\<rparr>, s))
   }"

definition rope_cursor_suffix :: "rope_cursor \<Rightarrow> rope option" where
  "rope_cursor_suffix self =
     map_option snd (rope_cursor_slice self (extent usize_dim (rope_chunks (rc_rope self))))"

definition rope_replace :: "rope \<Rightarrow> nat \<Rightarrow> nat \<Rightarrow> str \<Rightarrow> rope option" where
  "rope_replace self range_start range_end text = do {
     cursor \<leftarrow> rope_cursor_new self 0;
     (cursor, before) \<leftarrow> rope_cursor_slice cursor range_start;
     new_rope \<leftarrow> rope_append rope_new before;
     cursor \<leftarrow> rope_seek_forward cursor range_end;
     new_rope \<leftarrow> rope_push new_rope text;
     after \<leftarrow> rope_cursor_suffix cursor;
     rope_append new_rope after
   }"

definition rope_slice :: "rope \<Rightarrow> nat \<Rightarrow> nat \<Rightarrow> rope option" where
  "rope_slice self range_start range_end = do {
     cursor \<leftarrow> rope_cursor_new self 0;
     cursor \<leftarrow> rope_seek_forward cursor range_start;
     map_option snd (rope_cursor_slice cursor range_end)
   }"

subsection \<open>Conversions\<close>

text \<open>A position beyond the end is converted to the end. Others are sought in the pair of dimensions,
  and what overshoots the start of the chunk found is converted in it.\<close>

definition found_at ::
    "rope \<Rightarrow> ('d::linorder, chunk_summary) dim_ops \<Rightarrow> ('e, chunk_summary) dim_ops \<Rightarrow> 'd \<Rightarrow> ('d \<times> 'e) \<times> chunk option" where
  "found_at self D E target =
     (let (start, _, item) = find (dimensions2 D E) (rope_chunks self) (target_fst (key_target target)) Left in (start, item))"

definition sought_at ::
    "rope \<Rightarrow> ('d::linorder, chunk_summary) dim_ops \<Rightarrow> ('e, chunk_summary) dim_ops \<Rightarrow> 'd \<Rightarrow>
      (('d \<times> 'e) \<times> chunk option) option" where
  "sought_at self D E target = do {
     (cursor, _) \<leftarrow> seek (dimensions2 D E) (cursor_new (dimensions2 D E) (rope_chunks self)) (target_fst (key_target target)) Left;
     item \<leftarrow> cursor_item cursor;
     Some (c_position cursor, item)
   }"

definition rope_offset_to_offset_utf16 :: "rope \<Rightarrow> nat \<Rightarrow> nat offset_utf16" where
  "rope_offset_to_offset_utf16 self offset =
     (if ts_len (rope_summary self) \<le> offset then ts_len_utf16 (rope_summary self)
      else let (start, item) = found_at self usize_dim offset_utf16_dim offset; overshoot = offset - fst start
           in snd start + (case item of Some chunk \<Rightarrow> slice_offset_to_offset_utf16 (as_slice chunk) overshoot | None \<Rightarrow> 0))"

definition rope_offset_utf16_to_offset :: "rope \<Rightarrow> nat offset_utf16 \<Rightarrow> nat" where
  "rope_offset_utf16_to_offset self offset =
     (if ts_len_utf16 (rope_summary self) \<le> offset then ts_len (rope_summary self)
      else let (start, item) = found_at self offset_utf16_dim usize_dim offset; overshoot = offset - fst start
           in snd start + (case item of Some chunk \<Rightarrow> slice_offset_utf16_to_offset (as_slice chunk) overshoot | None \<Rightarrow> 0))"

definition rope_offset_to_point :: "rope \<Rightarrow> nat \<Rightarrow> nat point" where
  "rope_offset_to_point self offset =
     (if ts_len (rope_summary self) \<le> offset then ts_lines (rope_summary self)
      else let (start, item) = found_at self usize_dim point_dim offset; overshoot = offset - fst start
           in snd start + (case item of Some chunk \<Rightarrow> slice_offset_to_point (as_slice chunk) overshoot | None \<Rightarrow> 0))"

definition rope_offset_to_point_utf16 :: "rope \<Rightarrow> nat \<Rightarrow> nat point_utf16" where
  "rope_offset_to_point_utf16 self offset =
     (if ts_len (rope_summary self) \<le> offset then lines_utf16 (rope_summary self)
      else let (start, item) = found_at self usize_dim point_utf16_dim offset; overshoot = offset - fst start
           in snd start + (case item of Some chunk \<Rightarrow> slice_offset_to_point_utf16 (as_slice chunk) overshoot | None \<Rightarrow> 0))"

definition rope_point_to_point_utf16 :: "rope \<Rightarrow> nat point \<Rightarrow> nat point_utf16" where
  "rope_point_to_point_utf16 self point =
     (if ts_lines (rope_summary self) \<le> point then lines_utf16 (rope_summary self)
      else let (start, item) = found_at self point_dim point_utf16_dim point; overshoot = point - fst start
           in snd start + (case item of Some chunk \<Rightarrow> slice_point_to_point_utf16 (as_slice chunk) overshoot | None \<Rightarrow> 0))"

definition rope_point_utf16_to_point :: "rope \<Rightarrow> nat point_utf16 \<Rightarrow> nat point option" where
  "rope_point_utf16_to_point self point =
     (if lines_utf16 (rope_summary self) \<le> point then Some (ts_lines (rope_summary self))
      else do {
        (start, item) \<leftarrow> sought_at self point_utf16_dim point_dim point;
        let overshoot = point - fst start;
        p \<leftarrow> (case item of
            Some chunk \<Rightarrow> do {
              offset \<leftarrow> slice_point_utf16_to_offset (as_slice chunk) overshoot False;
              Some (slice_offset_to_point (as_slice chunk) offset)
            }
          | None \<Rightarrow> Some 0);
        Some (snd start + p)
      })"

definition rope_point_to_offset :: "rope \<Rightarrow> nat point \<Rightarrow> nat" where
  "rope_point_to_offset self point =
     (if ts_lines (rope_summary self) \<le> point then ts_len (rope_summary self)
      else let (start, item) = found_at self point_dim usize_dim point; overshoot = point - fst start
           in snd start + (case item of Some chunk \<Rightarrow> slice_point_to_offset (as_slice chunk) overshoot | None \<Rightarrow> 0))"

definition rope_point_to_offset_utf16 :: "rope \<Rightarrow> nat point \<Rightarrow> nat offset_utf16 option" where
  "rope_point_to_offset_utf16 self point =
     (if ts_lines (rope_summary self) \<le> point then Some (ts_len_utf16 (rope_summary self))
      else do {
        (start, item) \<leftarrow> sought_at self point_dim offset_utf16_dim point;
        let overshoot = point - fst start;
        Some (snd start + (case item of Some chunk \<Rightarrow> slice_point_to_offset_utf16 (as_slice chunk) overshoot | None \<Rightarrow> 0))
      })"

definition rope_point_utf16_to_offset_impl :: "rope \<Rightarrow> nat point_utf16 \<Rightarrow> bool \<Rightarrow> nat option" where
  "rope_point_utf16_to_offset_impl self point clip =
     (if lines_utf16 (rope_summary self) \<le> point then Some (ts_len (rope_summary self))
      else let (start, item) = found_at self point_utf16_dim usize_dim point; overshoot = point - fst start
           in do {
             offset \<leftarrow> (case item of
                 Some chunk \<Rightarrow> slice_point_utf16_to_offset (as_slice chunk) overshoot clip
               | None \<Rightarrow> Some 0);
             Some (snd start + offset)
           })"

definition rope_point_utf16_to_offset :: "rope \<Rightarrow> nat point_utf16 \<Rightarrow> nat option" where
  "rope_point_utf16_to_offset self point = rope_point_utf16_to_offset_impl self point False"

definition rope_unclipped_point_utf16_to_offset :: "rope \<Rightarrow> nat point_utf16 unclipped \<Rightarrow> nat option" where
  "rope_unclipped_point_utf16_to_offset self point = rope_point_utf16_to_offset_impl self (clip_inner point) True"

definition rope_point_utf16_to_offset_utf16_impl :: "rope \<Rightarrow> nat point_utf16 \<Rightarrow> bool \<Rightarrow> nat offset_utf16 option" where
  "rope_point_utf16_to_offset_utf16_impl self point clip =
     (if lines_utf16 (rope_summary self) \<le> point then Some (ts_len_utf16 (rope_summary self))
      else do {
        (start, item) \<leftarrow> sought_at self point_utf16_dim offset_utf16_dim point;
        let overshoot = point - fst start;
        o16 \<leftarrow> (case item of
            Some chunk \<Rightarrow> do {
              offset \<leftarrow> slice_point_utf16_to_offset (as_slice chunk) overshoot clip;
              Some (slice_offset_to_offset_utf16 (as_slice chunk) offset)
            }
          | None \<Rightarrow> Some 0);
        Some (snd start + o16)
      })"

definition rope_point_utf16_to_offset_utf16 :: "rope \<Rightarrow> nat point_utf16 \<Rightarrow> nat offset_utf16 option" where
  "rope_point_utf16_to_offset_utf16 self point = rope_point_utf16_to_offset_utf16_impl self point False"

definition rope_unclipped_point_utf16_to_point :: "rope \<Rightarrow> nat point_utf16 unclipped \<Rightarrow> nat point option" where
  "rope_unclipped_point_utf16_to_point self point =
     (if lines_utf16 (rope_summary self) \<le> clip_inner point then Some (ts_lines (rope_summary self))
      else let (start, item) = found_at self point_utf16_dim point_dim (clip_inner point);
               overshoot = clip_inner point - fst start
           in do {
             p \<leftarrow> (case item of
                 Some chunk \<Rightarrow> slice_unclipped_point_utf16_to_point (as_slice chunk) overshoot
               | None \<Rightarrow> Some 0);
             Some (snd start + p)
           })"

definition rope_slice_rows :: "rope \<Rightarrow> nat \<Rightarrow> nat \<Rightarrow> rope option" where
  "rope_slice_rows self range_start range_end =
     (let start = rope_point_to_offset self (Point range_start 0); e = rope_point_to_offset self (Point range_end 0)
      in rope_slice self start e)"

subsection \<open>Clipping\<close>

definition rope_clip_offset :: "rope \<Rightarrow> nat \<Rightarrow> bias \<Rightarrow> nat" where
  "rope_clip_offset self offset bias =
     (case bias of Left \<Rightarrow> rope_floor_char_boundary self offset | Right \<Rightarrow> rope_ceil_char_boundary self offset)"

definition rope_clip_offset_utf16 :: "rope \<Rightarrow> nat offset_utf16 \<Rightarrow> bias \<Rightarrow> nat offset_utf16 option" where
  "rope_clip_offset_utf16 self offset bias =
     (let (start, _, item) = find offset_utf16_dim (rope_chunks self) (key_target offset) Right
      in case item of
           Some chunk \<Rightarrow> let overshoot = offset - start
             in map_option ((+) start) (slice_clip_offset_utf16 (as_slice chunk) overshoot (bias = Left))
         | None \<Rightarrow> Some (ts_len_utf16 (rope_summary self)))"

definition rope_clip_point :: "(str \<Rightarrow> nat \<Rightarrow> bool) \<Rightarrow> rope \<Rightarrow> nat point \<Rightarrow> bias \<Rightarrow> nat point option" where
  "rope_clip_point grapheme self point bias =
     (let (start, _, item) = find point_dim (rope_chunks self) (key_target point) Right
      in case item of
           Some chunk \<Rightarrow> let overshoot = point - start
             in map_option ((+) start) (slice_clip_point grapheme (as_slice chunk) overshoot (bias = Left))
         | None \<Rightarrow> Some (ts_lines (rope_summary self)))"

definition rope_clip_point_utf16 :: "rope \<Rightarrow> nat point_utf16 unclipped \<Rightarrow> bias \<Rightarrow> nat point_utf16 option" where
  "rope_clip_point_utf16 self point bias =
     (let (start, _, item) = find point_utf16_dim (rope_chunks self) (key_target (clip_inner point)) Right
      in case item of
           Some chunk \<Rightarrow> let overshoot = clip_inner point - start
             in map_option ((+) start) (slice_clip_point_utf16 (as_slice chunk) overshoot (bias = Left))
         | None \<Rightarrow> Some (lines_utf16 (rope_summary self)))"

definition rope_line_len :: "(str \<Rightarrow> nat \<Rightarrow> bool) \<Rightarrow> rope \<Rightarrow> nat \<Rightarrow> nat option" where
  "rope_line_len grapheme self r = map_option column (rope_clip_point grapheme self (Point r (2 ^ 32 - 1)) Left)"

end
