(* ===== verification/RopeText.thy ===== *)
theory RopeText
  imports Rope
begin

text \<open>
  What editing does to the text of a rope (\<open>crates/rope/src/rope.rs\<close>): \<open>push\<close>, \<open>append\<close>,
  \<open>push_front\<close> and the constructors concatenate texts, never panic, and keep the tree, the chunks and
  the least length of every chunk but the last that the tests assert.
\<close>

subsection \<open>The text of a rope\<close>

definition chunk_text :: "rust_char list \<Rightarrow> bool" where
  "chunk_text cs \<longleftrightarrow> valid cs \<and> cs \<noteq> [] \<and> str_len cs \<le> 128"

definition full_enough :: "rust_char list \<Rightarrow> bool" where
  "full_enough cs \<longleftrightarrow> MIN_BASE \<le> str_len cs + 3"

text \<open>\<open>rope_of r css\<close>: the rope's chunks hold the texts \<open>css\<close>.\<close>

definition rope_of :: "rope \<Rightarrow> rust_char list list \<Rightarrow> bool" where
  "rope_of r css \<longleftrightarrow> wf_tree chunk_ops (rope_chunks r) \<and> tree_items (rope_chunks r) = map chunk_of css \<and>
     (\<forall>cs\<in>set css. chunk_text cs) \<and> (\<forall>cs\<in>set (butlast css). full_enough cs)"

definition rope_text :: "rope \<Rightarrow> rust_char list \<Rightarrow> bool" where
  "rope_text r cs \<longleftrightarrow> (\<exists>css. rope_of r css \<and> cs = concat css)"

lemma rope_textI: "rope_of r css \<Longrightarrow> concat css = cs \<Longrightarrow> rope_text r cs"
  by (auto simp: rope_text_def)

lemma rope_of_new: "rope_of rope_new []"
  by (simp add: rope_of_def rope_new_def)

lemma rope_ofI:
  assumes "wf_tree chunk_ops t" and "tree_items t = map chunk_of css" and "\<forall>cs\<in>set css. chunk_text cs"
    and "\<forall>cs\<in>set (butlast css). full_enough cs"
  shows "rope_of (r\<lparr>rope_chunks := t\<rparr>) css"
  using assms by (simp add: rope_of_def)

lemma rope_text_valid: "rope_of r css \<Longrightarrow> valid (concat css)"
  by (auto simp: rope_of_def chunk_text_def valid_def)

subsection \<open>The loops that look for a boundary\<close>

lemma len_utf8_le: "len_utf8 c \<le> 4"
  by (simp add: len_utf8_def)

lemma byte_position_cases:
  assumes "i \<le> str_len t"
  obtains a b where "t = a @ b" "i = str_len a"
  | a c b k where "t = a @ c # b" "i = str_len a + k" "1 \<le> k" "k < len_utf8 c"
proof -
  have "(\<exists>a b. t = a @ b \<and> i = str_len a) \<or> (\<exists>a c b k. t = a @ c # b \<and> i = str_len a + k \<and> 1 \<le> k \<and> k < len_utf8 c)"
    using assms
  proof (induction t arbitrary: i)
    case (Cons c t)
    consider "i = 0" | "1 \<le> i" "i < len_utf8 c" | "len_utf8 c \<le> i" by linarith
    then show ?case
    proof cases
      case 1
      then have "c # t = [] @ c # t \<and> i = str_len []" by simp
      then show ?thesis by blast
    next
      case 2
      then have "c # t = [] @ c # t \<and> i = str_len [] + i \<and> 1 \<le> i \<and> i < len_utf8 c" by simp
      then show ?thesis by blast
    next
      case 3
      then have "i - len_utf8 c \<le> str_len t" using Cons.prems by simp
      from Cons.IH [OF this] 3 show ?thesis
      proof (elim disjE exE conjE)
        fix a b assume "t = a @ b" "i - len_utf8 c = str_len a"
        then have "c # t = (c # a) @ b \<and> i = str_len (c # a)" using 3 by simp
        then show ?thesis by blast
      next
        fix a d b k assume "t = a @ d # b" "i - len_utf8 c = str_len a + k" "1 \<le> k" "k < len_utf8 d"
        then have "c # t = (c # a) @ d # b \<and> i = str_len (c # a) + k \<and> 1 \<le> k \<and> k < len_utf8 d" using 3 by simp
        then show ?thesis by blast
      qed
    qed
  qed simp
  then show thesis using that by blast
qed

lemma clip_loop_inside:
  assumes "valid (a @ c # b)" and "str_len (a @ c # b) < 2 ^ 63" and "k < len_utf8 c"
  shows "clip_offset_loop (utf8 (a @ c # b)) True (str_len a + k) = Some (str_len a)"
    and "0 < k \<Longrightarrow> clip_offset_loop (utf8 (a @ c # b)) False (str_len a + k) = Some (str_len a + len_utf8 c)"
proof -
  have n: "\<not> str_is_char_boundary (utf8 (a @ c # b)) (str_len a + j)" if "1 \<le> j" "j < len_utf8 c" for j
    using not_boundary_inside [OF that] str_boundary [OF assms(1)] by simp
  show "clip_offset_loop (utf8 (a @ c # b)) True (str_len a + k) = Some (str_len a)"
    using assms(3)
  proof (induction k)
    case 0
    then show ?case using str_boundary_prefix [OF assms(1)] by (simp add: clip_offset_loop_stop)
  next
    case (Suc k)
    then have "str_len a + Suc k < 2 ^ 63" using assms(2) by simp
    then show ?case using clip_offset_loop_step [OF n [of "Suc k"], of True] Suc by simp
  qed
  show "clip_offset_loop (utf8 (a @ c # b)) False (str_len a + k) = Some (str_len a + len_utf8 c)" if "0 < k"
    using that assms(3)
  proof (induction "len_utf8 c - k" arbitrary: k)
    case (Suc d)
    have s: "clip_offset_loop (utf8 (a @ c # b)) False (str_len a + k) = clip_offset_loop (utf8 (a @ c # b)) False (str_len a + (k + 1))"
      using clip_offset_loop_step [OF n [of k], of False] Suc.prems assms(2) by simp
    show ?case
    proof (cases "k + 1 = len_utf8 c")
      case True
      have "str_is_char_boundary (utf8 (a @ c # b)) (str_len (a @ [c]))"
        using str_boundary_prefix [of "a @ [c]" b] assms(1) by simp
      then show ?thesis unfolding s using True by (simp add: clip_offset_loop_stop)
    next
      case False
      then show ?thesis unfolding s using Suc.hyps(1) [of "k + 1"] Suc.hyps(2) Suc.prems by simp
    qed
  qed simp
qed

lemma clip_loop_boundary:
  assumes "valid t" and "str_len t < 2 ^ 63" and "i \<le> str_len t"
  obtains a b where "t = a @ b" "clip_offset_loop (utf8 t) left i = Some (str_len a)"
    "if left then str_len a \<le> i \<and> i \<le> str_len a + 3 else i \<le> str_len a \<and> str_len a \<le> i + 3"
    "i = 0 \<Longrightarrow> a = []"
proof (rule byte_position_cases [OF assms(3)])
  fix a b assume t: "t = a @ b" "i = str_len a"
  then have "clip_offset_loop (utf8 t) left i = Some (str_len a)"
    using str_boundary_prefix [of a b] assms(1) by (simp add: clip_offset_loop_stop)
  then show thesis by (intro that [OF t(1)]) (use t in auto)
next
  fix a c b k assume t: "t = a @ c # b" "i = str_len a + k" "1 \<le> k" "k < len_utf8 c"
  have v: "valid (a @ c # b)" "str_len (a @ c # b) < 2 ^ 63" using assms t by simp_all
  have k: "k \<le> 3" "len_utf8 c \<le> k + 3" using t len_utf8_le [of c] by simp_all
  show thesis
  proof (cases left)
    case True
    then show thesis using clip_loop_inside(1) [OF v t(4)] t k by (intro that [OF t(1)]) auto
  next
    case False
    have "clip_offset_loop (utf8 t) left i = Some (str_len (a @ [c]))"
      using False clip_loop_inside(2) [OF v t(4)] t by simp
    then show thesis using that [of "a @ [c]" b] t k False by simp
  qed
qed

lemma slice_loop_step:
  assumes "str_len t \<le> 128" and "i < 128"
  shows "\<not> boundary t i \<Longrightarrow> slice_boundary_loop (chunk_of t) i = slice_boundary_loop (chunk_of t) (i + 1)"
    and "boundary t i \<Longrightarrow> slice_boundary_loop (chunk_of t) i = Some i"
  using chunk_boundary [OF assms(1), of i] assms(2) slice_boundary_loop.simps [of "chunk_of t" i] by auto

lemma slice_loop_boundary:
  assumes "valid t" and "str_len t \<le> 128" and "i \<le> str_len t"
  obtains a b where "t = a @ b" "slice_boundary_loop (chunk_of t) i = Some (str_len a)" "i \<le> str_len a" "str_len a \<le> i + 3"
    "i = 0 \<Longrightarrow> a = []"
proof -
  have stop: "slice_boundary_loop (chunk_of t) j = Some j" if "boundary t j" for j
    using chunk_boundary [OF assms(2), of j] boundary_le [OF that] assms(2) that
    by (subst slice_boundary_loop.simps) simp
  show thesis
  proof (rule byte_position_cases [OF assms(3)])
    fix a b assume "t = a @ b" "i = str_len a"
    then show thesis using that stop [of i] boundary_append [of a b] by auto
  next
    fix a c b k assume t: "t = a @ c # b" "i = str_len a + k" "1 \<le> k" "k < len_utf8 c"
    have "slice_boundary_loop (chunk_of t) (str_len a + k) = Some (str_len (a @ [c]))" using t(3,4)
    proof (induction "len_utf8 c - k" arbitrary: k)
      case (Suc d)
      have "\<not> boundary t (str_len a + k)" using not_boundary_inside [OF Suc.prems] t(1) by simp
      moreover have "str_len a + k < 128" using assms(2) Suc.prems t(1) by simp
      ultimately have s: "slice_boundary_loop (chunk_of t) (str_len a + k) = slice_boundary_loop (chunk_of t) (str_len a + (k + 1))"
        using slice_loop_step(1) [OF assms(2), of "str_len a + k"] by simp
      show ?case
      proof (cases "k + 1 = len_utf8 c")
        case True
        have "boundary t (str_len (a @ [c]))" using boundary_append [of "a @ [c]" b] t(1) by simp
        then show ?thesis unfolding s using stop True by simp
      next
        case False
        then show ?thesis unfolding s using Suc.hyps(1) [of "k + 1"] Suc.hyps(2) Suc.prems by simp
      qed
    qed simp
    then show thesis using that [of "a @ [c]" b] t len_utf8_le [of c] by simp
  qed
qed

subsection \<open>Dividing a text into chunks\<close>

lemma split_loop_chunks:
  assumes "valid t" and "str_len t < 2 ^ 63"
    and "case cap of None \<Rightarrow> True | Some n \<Rightarrow> length acc \<le> n \<and> str_len t \<le> 124 * (n - length acc)"
  shows "\<exists>css. split_loop cap (utf8 t) acc = Some (acc @ map utf8 css) \<and> concat css = t \<and>
    (\<forall>cs\<in>set css. chunk_text cs) \<and> (\<forall>cs\<in>set (butlast css). full_enough cs)"
  using assms
proof (induction "length t" arbitrary: t acc rule: less_induct)
  case less
  show ?case
  proof (cases "t = []")
    case True
    then show ?thesis by (subst split_loop.simps) simp
  next
    case False
    let ?i = "min MAX_BASE (length (utf8 t))"
    have "?i \<le> str_len t" by simp
    then obtain a b where t: "t = a @ b" and c: "clip_offset_loop (utf8 t) True ?i = Some (str_len a)"
      and ab: "str_len a \<le> ?i" "?i \<le> str_len a + 3"
      using clip_loop_boundary [OF less.prems(1,2), of ?i True] by (metis (full_types))
    have len: "0 < str_len t" using False by (rule str_len_pos)
    have i: "0 < ?i" "?i \<le> 128" using len by (simp_all add: MAX_BASE_def)
    have a: "a \<noteq> []"
    proof
      assume z: "a = []"
      then have "?i \<le> 3" using ab(2) by simp
      then have "?i = str_len t" by (simp add: MAX_BASE_def split: if_splits)
      then have "str_is_char_boundary (utf8 t) ?i" by (simp add: str_is_char_boundary_def)
      then have "clip_offset_loop (utf8 t) True ?i = Some ?i" by (rule clip_offset_loop_stop)
      then show False using c z i(1) by simp
    qed
    have b: "b = [] \<or> full_enough a" "b \<noteq> [] \<Longrightarrow> 125 \<le> str_len a"
    proof -
      have "125 \<le> str_len a" if "b \<noteq> []"
      proof (cases "str_len t \<le> 128")
        case True
        then have "?i = str_len t" by (simp add: MAX_BASE_def)
        then have "str_is_char_boundary (utf8 t) ?i" by (simp add: str_is_char_boundary_def)
        then have "clip_offset_loop (utf8 t) True ?i = Some ?i" by (rule clip_offset_loop_stop)
        then show ?thesis using c \<open>?i = str_len t\<close> t str_len_pos [OF that] by simp
      next
        case False
        then show ?thesis using ab(2) by (simp add: MAX_BASE_def)
      qed
      then show "b = [] \<or> full_enough a" "b \<noteq> [] \<Longrightarrow> 125 \<le> str_len a"
        by (cases "b = []"; simp add: full_enough_def MIN_BASE_def MAX_BASE_def)+
    qed
    have sp: "str_split_at (utf8 t) (str_len a) = Some (utf8 a, utf8 b)"
      using str_boundary_prefix [of a b] less.prems(1) t by (simp add: str_split_at_def)
    have room: "case cap of None \<Rightarrow> True | Some n \<Rightarrow> length acc < n"
      using less.prems(3) len by (auto split: option.splits)
    have sl: "split_loop cap (utf8 t) acc = split_loop cap (utf8 b) (acc @ [utf8 a])"
      by (subst split_loop.simps) (use False c sp room in \<open>auto split: option.splits\<close>)
    have "length b < length t" using a t by simp
    moreover have "valid b" "str_len b < 2 ^ 63" using less.prems t by simp_all
    moreover have "case cap of None \<Rightarrow> True
        | Some n \<Rightarrow> length (acc @ [utf8 a]) \<le> n \<and> str_len b \<le> 124 * (n - length (acc @ [utf8 a]))"
      using less.prems(3) room b(2) t str_len_eq_0 [of b] by (cases "b = []") (auto split: option.splits)
    ultimately obtain css where css: "split_loop cap (utf8 b) (acc @ [utf8 a]) = Some ((acc @ [utf8 a]) @ map utf8 css)"
      "concat css = b" "\<forall>cs\<in>set css. chunk_text cs" "\<forall>cs\<in>set (butlast css). full_enough cs"
      using less.hyps by blast
    have "chunk_text a" using a ab(1) i(2) less.prems(1) t by (simp add: chunk_text_def)
    moreover have "css = []" if "b = []" using css(2,3) that by (cases css) (auto simp: chunk_text_def)
    ultimately show ?thesis
      using css t b(1) sl by (intro exI [of _ "a # css"]) auto
  qed
qed

lemma those_chunk_new:
  "\<forall>cs\<in>set css. chunk_text cs \<Longrightarrow> those (map chunk_new (map utf8 css)) = Some (map chunk_of css)"
  by (induction css) (auto simp: chunk_text_def chunk_new_of)

subsection \<open>The last chunk\<close>

lemma update_last_with_empty:
  assumes "rope_of r []"
  shows "\<exists>t. update_last_with f a (rope_chunks r) = Some (t, a) \<and> rope_of (r\<lparr>rope_chunks := t\<rparr>) [] \<and>
    height t = height (rope_chunks r)"
  using assms update_last_height last_correct [of chunk_ops "rope_chunks r"] update_last_correct [of chunk_ops "rope_chunks r" id]
  by (auto simp: update_last_with_def rope_of_def)

lemma update_last_with_chunk:
  assumes "rope_of r (css @ [d])" and "f (chunk_of d) = Some (chunk_of d', a')" and "chunk_text d'"
  shows "\<exists>t. update_last_with f a (rope_chunks r) = Some (t, a') \<and> rope_of (r\<lparr>rope_chunks := t\<rparr>) (css @ [d']) \<and>
    height t = height (rope_chunks r)"
  using assms update_last_height last_correct [of chunk_ops "rope_chunks r"] update_last_correct [of chunk_ops "rope_chunks r" "\<lambda>_. chunk_of d'"]
  by (auto simp: update_last_with_def rope_of_def)

text \<open>How much of a text goes to the last chunk.\<close>

definition fill_split :: "rust_char list \<Rightarrow> rust_char list \<Rightarrow> rust_char list \<Rightarrow> bool" where
  "fill_split d t1 t2 \<longleftrightarrow> str_len (d @ t1) \<le> 128 \<and>
     (t2 \<noteq> [] \<longrightarrow> full_enough (d @ t1) \<and> (str_len (t1 @ t2) \<le> 128 \<longrightarrow> full_enough (t1 @ t2) \<longrightarrow> full_enough t2)) \<and>
     (t2 = [] \<longrightarrow> full_enough t1 \<longrightarrow> full_enough (d @ t1))"

lemma fill_split_all: "str_len (d @ t) \<le> 128 \<Longrightarrow> fill_split d t []"
  by (simp add: fill_split_def full_enough_def)

lemma fill_split_part:
  assumes "str_len d \<le> 128" and "128 < str_len (d @ t1 @ t2)" and "t1 @ t2 = t"
    and "i = min (64 - str_len d) (str_len t)" and "i \<le> str_len t1" "str_len t1 \<le> i + 3" and "i = 0 \<Longrightarrow> t1 = []"
  shows "fill_split d t1 t2"
proof (cases "str_len d < 64")
  case True
  then have i: "i = 64 - str_len d" using assms(2-4) by auto
  then have "64 \<le> str_len (d @ t1)" "str_len (d @ t1) \<le> 67" using assms(5,6) True by simp_all
  moreover from this have "61 < str_len t2" using assms(2) by simp
  ultimately show ?thesis by (auto simp: fill_split_def full_enough_def MIN_BASE_def MAX_BASE_def)
next
  case False
  then have "t1 = []" using assms(4,7) by simp
  then show ?thesis using assms False by (auto simp: fill_split_def full_enough_def MIN_BASE_def MAX_BASE_def)
qed

lemma push_fill_of:
  assumes "valid t" and "str_len t < 2 ^ 63" and "chunk_text d"
  shows "\<exists>t1 t2. t = t1 @ t2 \<and> push_fill (utf8 t) (chunk_of d) = Some (chunk_of (d @ t1), utf8 t2) \<and>
    fill_split d t1 t2 \<and> chunk_text (d @ t1)"
proof -
  have d: "valid d" "d \<noteq> []" "str_len d \<le> 128" using assms(3) by (simp_all add: chunk_text_def)
  have step: "push_fill (utf8 t) (chunk_of d) = Some (chunk_of (d @ t1), utf8 t2) \<and> chunk_text (d @ t1)"
    if "t = t1 @ t2" "fill_split d t1 t2"
      and ix: "(if length (ck_text (chunk_of d)) + length (utf8 t) \<le> MAX_BASE then Some (length (utf8 t))
        else clip_offset_loop (utf8 t) False (min (MIN_BASE - length (ck_text (chunk_of d))) (length (utf8 t)))) = Some (str_len t1)"
      for t1 t2
  proof -
    have s: "str_split_at (utf8 t) (str_len t1) = Some (utf8 t1, utf8 t2)"
      using str_boundary_prefix [of t1 t2] assms(1) that(1) by (simp add: str_split_at_def)
    have "str_len (d @ t1) \<le> 128" using that(2) by (simp add: fill_split_def)
    then show ?thesis
      using s chunk_push_str_of [of t1 d] assms(1) d that(1)
      unfolding push_fill_def ix by (simp add: chunk_text_def)
  qed
  show ?thesis
  proof (cases "str_len d + str_len t \<le> 128")
    case True
    then show ?thesis using step [of t "[]"] fill_split_all [of d t]
      by (intro exI [of _ t] exI [of _ "[]"]) (simp add: MAX_BASE_def)
  next
    case False
    let ?i = "min (64 - str_len d) (str_len t)"
    have "?i \<le> str_len t" by simp
    then obtain t1 t2 where t: "t = t1 @ t2" "clip_offset_loop (utf8 t) False ?i = Some (str_len t1)"
      "?i \<le> str_len t1" "str_len t1 \<le> ?i + 3" "?i = 0 \<Longrightarrow> t1 = []"
      using clip_loop_boundary [OF assms(1,2), of ?i False] by (metis (full_types))
    have "fill_split d t1 t2"
      by (rule fill_split_part [OF d(3) _ t(1) [symmetric] refl t(3-5)]) (use False t(1) in simp_all)
    then show ?thesis using step [OF t(1)] t(1,2) False
      by (intro exI [of _ t1] exI [of _ t2]) (auto simp: MAX_BASE_def MIN_BASE_def)
  qed
qed

lemma push_chunk_fill_of:
  assumes "valid t" and "str_len t \<le> 128" and "chunk_text d"
  shows "\<exists>t1 t2. t = t1 @ t2 \<and> push_chunk_fill (chunk_of t) (chunk_of d) = Some (chunk_of (d @ t1), chunk_of t2) \<and>
    fill_split d t1 t2 \<and> chunk_text (d @ t1)"
proof -
  have d: "valid d" "d \<noteq> []" "str_len d \<le> 128" using assms(3) by (simp_all add: chunk_text_def)
  have step: "push_chunk_fill (chunk_of t) (chunk_of d) = Some (chunk_of (d @ t1), chunk_of t2) \<and> chunk_text (d @ t1)"
    if "t = t1 @ t2" "fill_split d t1 t2"
      and ix: "(if length (ck_text (chunk_of d)) + slice_len (chunk_of t) \<le> MAX_BASE then Some (slice_len (chunk_of t))
        else slice_boundary_loop (chunk_of t) (min (MIN_BASE - length (ck_text (chunk_of d))) (slice_len (chunk_of t)))) = Some (str_len t1)"
      for t1 t2
  proof -
    have s: "slice_split_at (chunk_of t) (str_len t1) = Some (chunk_of t1, chunk_of t2)"
      using slice_split_at_of [of t1 t2] assms(1,2) that(1) by simp
    have "str_len (d @ t1) \<le> 128" using that(2) by (simp add: fill_split_def)
    then show ?thesis
      using s chunk_append_of [of d t1] assms(1) d that(1)
      unfolding push_chunk_fill_def ix by (simp add: chunk_text_def)
  qed
  show ?thesis
  proof (cases "str_len d + str_len t \<le> 128")
    case True
    then show ?thesis using step [of t "[]"] fill_split_all [of d t]
      by (intro exI [of _ t] exI [of _ "[]"]) (simp add: MAX_BASE_def slice_len_def)
  next
    case False
    let ?i = "min (64 - str_len d) (str_len t)"
    have "?i \<le> str_len t" by simp
    then obtain t1 t2 where t: "t = t1 @ t2" "slice_boundary_loop (chunk_of t) ?i = Some (str_len t1)"
      "?i \<le> str_len t1" "str_len t1 \<le> ?i + 3" "?i = 0 \<Longrightarrow> t1 = []"
      using slice_loop_boundary [OF assms(1,2), of ?i] by metis
    have "fill_split d t1 t2"
      by (rule fill_split_part [OF d(3) _ t(1) [symmetric] refl t(3-5)]) (use False t(1) in simp_all)
    then show ?thesis using step [OF t(1)] t(1,2) False
      by (intro exI [of _ t1] exI [of _ t2]) (auto simp: MAX_BASE_def MIN_BASE_def slice_len_def)
  qed
qed

subsection \<open>Push\<close>

lemma rope_of_extend:
  assumes "rope_of r css" and "\<forall>cs\<in>set dss. chunk_text cs" and "\<forall>cs\<in>set (butlast dss). full_enough cs"
    and "dss \<noteq> [] \<Longrightarrow> css \<noteq> [] \<Longrightarrow> full_enough (last css)"
    and "wf_tree chunk_ops t" and "tree_items t = tree_items (rope_chunks r) @ map chunk_of dss"
  shows "rope_of (r\<lparr>rope_chunks := t\<rparr>) (css @ dss)"
proof (rule rope_ofI [OF assms(5)])
  show "tree_items t = map chunk_of (css @ dss)" "\<forall>cs\<in>set (css @ dss). chunk_text cs"
    using assms(1,2,6) by (auto simp: rope_of_def)
  have "full_enough cs" if "cs \<in> set css" "dss \<noteq> []" for cs
    using that assms(1,4) in_set_butlast_appendI by (cases css rule: rev_cases) (auto simp: rope_of_def)
  then show "\<forall>cs\<in>set (butlast (css @ dss)). full_enough cs"
    using assms(1,3) by (cases "dss = []") (auto simp: rope_of_def butlast_append)
qed

definition push_rest :: "rope \<Rightarrow> str \<Rightarrow> rope option" where
  "push_rest r text =
     (if text = [] then Some r
      else if NUM_CHUNKS * MAX_BASE - NUM_CHUNKS * 4 < length text then push_large r text
      else do {
        new_chunks \<leftarrow> split_loop (Some NUM_CHUNKS) text [];
        cs \<leftarrow> those (map chunk_new new_chunks);
        tree \<leftarrow> SumTree.extend chunk_ops (rope_chunks r) cs;
        Some (r\<lparr>rope_chunks := tree\<rparr>)
      })"

lemma rope_push_alt:
  "rope_push r text =
     do { (tree, text) \<leftarrow> update_last_with (push_fill text) text (rope_chunks r); push_rest (r\<lparr>rope_chunks := tree\<rparr>) text }"
  by (simp add: rope_push_def push_rest_def Let_def cong: if_cong)

lemma rope_push_rest:
  assumes "rope_of r css" and "valid t" and "str_len t < 2 ^ 63" and "t \<noteq> [] \<Longrightarrow> css \<noteq> [] \<Longrightarrow> full_enough (last css)"
  shows "\<exists>r' dss. push_rest r (utf8 t) = Some r' \<and> rope_of r' (css @ dss) \<and> concat dss = t"
proof (cases "t = []")
  case True
  then show ?thesis using assms(1) by (intro exI [of _ r] exI [of _ "[]"]) (simp add: push_rest_def)
next
  case False
  have wf: "wf_tree chunk_ops (rope_chunks r)" using assms(1) by (simp add: rope_of_def)
  have nz: "utf8 t \<noteq> []" using False by simp
  have ne: "dss \<noteq> []" if "concat dss = t" for dss using that False by auto
  show ?thesis
  proof (cases "NUM_CHUNKS * MAX_BASE - NUM_CHUNKS * 4 < length (utf8 t)")
    case True
    obtain dss where d: "split_loop None (utf8 t) [] = Some (map utf8 dss)" "concat dss = t"
      "\<forall>cs\<in>set dss. chunk_text cs" "\<forall>cs\<in>set (butlast dss). full_enough cs"
      using split_loop_chunks [OF assms(2,3), where cap = None and acc = "[]"] by auto
    obtain u where u: "SumTree.extend chunk_ops (rope_chunks r) (map chunk_of dss) = Some u" "wf_tree chunk_ops u"
      "tree_items u = tree_items (rope_chunks r) @ map chunk_of dss"
      using rope_tree.extend_correct [OF wf] by blast
    have par: "par_extend chunk_ops (rope_chunks r) xs = SumTree.extend chunk_ops (rope_chunks r) xs" for xs
      by (simp add: par_extend_def SumTree.extend_def rope_tree.from_iter_par_iter)
    have "push_large r (utf8 t) = Some (r\<lparr>rope_chunks := u\<rparr>)"
      unfolding push_large_def by (simp only: d(1) those_chunk_new [OF d(3)] bind.bind_lunit par u(1) if_cancel)
    then have "push_rest r (utf8 t) = Some (r\<lparr>rope_chunks := u\<rparr>)" using True nz by (simp only: push_rest_def if_True if_False)
    moreover have "rope_of (r\<lparr>rope_chunks := u\<rparr>) (css @ dss)"
      by (rule rope_of_extend [OF assms(1) d(3,4) _ u(2,3)]) (use assms(4) False in simp)
    ultimately show ?thesis using d(2) by blast
  next
    case small: False
    then have "str_len t \<le> 124 * (4 - length ([] :: str list))" by (simp add: NUM_CHUNKS_def MAX_BASE_def)
    then obtain dss where d: "split_loop (Some NUM_CHUNKS) (utf8 t) [] = Some (map utf8 dss)" "concat dss = t"
      "\<forall>cs\<in>set dss. chunk_text cs" "\<forall>cs\<in>set (butlast dss). full_enough cs"
      using split_loop_chunks [OF assms(2,3), where cap = "Some NUM_CHUNKS" and acc = "[]"] by (auto simp: NUM_CHUNKS_def)
    obtain u where u: "SumTree.extend chunk_ops (rope_chunks r) (map chunk_of dss) = Some u" "wf_tree chunk_ops u"
      "tree_items u = tree_items (rope_chunks r) @ map chunk_of dss"
      using rope_tree.extend_correct [OF wf] by blast
    have "push_rest r (utf8 t) = Some (r\<lparr>rope_chunks := u\<rparr>)"
      unfolding push_rest_def by (simp only: nz small if_False d(1) those_chunk_new [OF d(3)] bind.bind_lunit u(1))
    moreover have "rope_of (r\<lparr>rope_chunks := u\<rparr>) (css @ dss)"
      by (rule rope_of_extend [OF assms(1) d(3,4) _ u(2,3)]) (use assms(4) False in simp)
    ultimately show ?thesis using d(2) by blast
  qed
qed

lemma rope_push_of:
  assumes "rope_of r css" and "valid t" and "str_len t < 2 ^ 63"
  shows "\<exists>r' dss. rope_push r (utf8 t) = Some r' \<and> rope_of r' dss \<and> concat dss = concat css @ t"
proof (cases css rule: rev_cases)
  case Nil
  obtain u where u: "update_last_with (push_fill (utf8 t)) (utf8 t) (rope_chunks r) = Some (u, utf8 t)"
    "rope_of (r\<lparr>rope_chunks := u\<rparr>) []"
    using update_last_with_empty [of r "push_fill (utf8 t)" "utf8 t"] assms(1) Nil by auto
  obtain r' dss where "push_rest (r\<lparr>rope_chunks := u\<rparr>) (utf8 t) = Some r'" "rope_of r' ([] @ dss)" "concat dss = t"
    using rope_push_rest [OF u(2) assms(2,3)] by auto
  then show ?thesis using Nil u(1) by (auto simp: rope_push_alt)
next
  case (snoc ds d)
  then have d: "chunk_text d" using assms(1) by (simp add: rope_of_def)
  obtain t1 t2 where t: "t = t1 @ t2" "push_fill (utf8 t) (chunk_of d) = Some (chunk_of (d @ t1), utf8 t2)"
    "fill_split d t1 t2" "chunk_text (d @ t1)"
    using push_fill_of [OF assms(2,3) d] by blast
  obtain u where u: "update_last_with (push_fill (utf8 t)) (utf8 t) (rope_chunks r) = Some (u, utf8 t2)"
    "rope_of (r\<lparr>rope_chunks := u\<rparr>) (ds @ [d @ t1])"
    using update_last_with_chunk [where f = "push_fill (utf8 t)", OF _ t(2,4)] assms(1) snoc by blast
  have "valid t2" "str_len t2 < 2 ^ 63" "t2 \<noteq> [] \<Longrightarrow> full_enough (last (ds @ [d @ t1]))"
    using assms(2,3) t(1,3) by (simp_all add: fill_split_def)
  from rope_push_rest [OF u(2) this]
  obtain r' dss where "push_rest (r\<lparr>rope_chunks := u\<rparr>) (utf8 t2) = Some r'" "rope_of r' ((ds @ [d @ t1]) @ dss)"
    "concat dss = t2" by auto
  then show ?thesis using snoc t(1) u(1)
    by (intro exI [of _ r'] exI [of _ "(ds @ [d @ t1]) @ dss"]) (simp add: rope_push_alt)
qed

subsection \<open>Push a chunk\<close>

lemma push_chunk_alt:
  "push_chunk r chunk =
     do { (tree, chunk) \<leftarrow> update_last_with (push_chunk_fill chunk) chunk (rope_chunks r);
          if ck_text chunk \<noteq> []
          then do { c \<leftarrow> slice_into_chunk chunk; tree \<leftarrow> push chunk_ops tree c; Some (r\<lparr>rope_chunks := tree\<rparr>) }
          else Some (r\<lparr>rope_chunks := tree\<rparr>) }"
  by (simp add: push_chunk_def)

lemma push_height:
  assumes "wf_tree chunk_ops t" and "push chunk_ops t x = Some u"
  shows "height u \<le> Suc (height t)"
proof -
  have "wf_tree chunk_ops (Leaf (item_summary chunk_ops x) [x] [item_summary chunk_ops x])"
    by (rule wf_treeI [of _ 0]) simp
  from rope_tree.append_height [OF assms(1) this] assms(2) show ?thesis by (simp add: push_def Let_def)
qed

lemma push_rest_chunk:
  assumes "rope_of r css" and "valid t" and "str_len t \<le> 128" and "t \<noteq> []" and "css \<noteq> [] \<Longrightarrow> full_enough (last css)"
  shows "\<exists>u. push chunk_ops (rope_chunks r) (chunk_of t) = Some u \<and> rope_of (r\<lparr>rope_chunks := u\<rparr>) (css @ [t]) \<and>
    height u \<le> Suc (height (rope_chunks r))"
proof -
  obtain u where u: "push chunk_ops (rope_chunks r) (chunk_of t) = Some u" "wf_tree chunk_ops u"
    "tree_items u = tree_items (rope_chunks r) @ map chunk_of [t]"
    using rope_tree.push_correct [of "rope_chunks r" "chunk_of t"] assms(1) by (auto simp: rope_of_def)
  have "rope_of (r\<lparr>rope_chunks := u\<rparr>) (css @ [t])"
    by (rule rope_of_extend [OF assms(1) _ _ _ u(2,3)]) (use assms(2-5) in \<open>simp_all add: chunk_text_def\<close>)
  moreover have "height u \<le> Suc (height (rope_chunks r))" using push_height assms(1) u(1) by (simp add: rope_of_def)
  ultimately show ?thesis using u(1) by blast
qed

lemma slice_into_chunk_of: "str_len t \<le> 128 \<Longrightarrow> slice_into_chunk (chunk_of t) = Some (chunk_of t)"
  by (simp add: slice_into_chunk_def array_push_str_def MAX_BASE_def chunk_of_def)

lemma push_chunk_of:
  assumes "rope_of r css" and "valid t" and "str_len t \<le> 128"
  shows "\<exists>r' dss. push_chunk r (chunk_of t) = Some r' \<and> rope_of r' dss \<and> concat dss = concat css @ t \<and>
    (full_enough t \<longrightarrow> dss \<noteq> [] \<longrightarrow> full_enough (last dss)) \<and>
    height (rope_chunks r') \<le> Suc (height (rope_chunks r))"
proof (cases css rule: rev_cases)
  case Nil
  obtain u where u: "update_last_with (push_chunk_fill (chunk_of t)) (chunk_of t) (rope_chunks r) = Some (u, chunk_of t)"
    "rope_of (r\<lparr>rope_chunks := u\<rparr>) []" "height u = height (rope_chunks r)"
    using update_last_with_empty [of r "push_chunk_fill (chunk_of t)" "chunk_of t"] assms(1) Nil by auto
  show ?thesis
  proof (cases "t = []")
    case True
    then show ?thesis using u Nil by (intro exI [of _ "r\<lparr>rope_chunks := u\<rparr>"] exI [of _ "[]"]) (simp add: push_chunk_alt)
  next
    case False
    obtain v where v: "push chunk_ops u (chunk_of t) = Some v" "rope_of (r\<lparr>rope_chunks := u, rope_chunks := v\<rparr>) ([] @ [t])"
      "height v \<le> Suc (height u)"
      using push_rest_chunk [OF u(2) assms(2,3) False] by auto
    then show ?thesis using u(1,3) Nil False slice_into_chunk_of [OF assms(3)]
      by (intro exI [of _ "r\<lparr>rope_chunks := v\<rparr>"] exI [of _ "[t]"]) (simp add: push_chunk_alt)
  qed
next
  case (snoc ds d)
  then have d: "chunk_text d" using assms(1) by (simp add: rope_of_def)
  obtain t1 t2 where t: "t = t1 @ t2" "push_chunk_fill (chunk_of t) (chunk_of d) = Some (chunk_of (d @ t1), chunk_of t2)"
    "fill_split d t1 t2" "chunk_text (d @ t1)"
    using push_chunk_fill_of [OF assms(2,3) d] by blast
  obtain u where u: "update_last_with (push_chunk_fill (chunk_of t)) (chunk_of t) (rope_chunks r) = Some (u, chunk_of t2)"
    "rope_of (r\<lparr>rope_chunks := u\<rparr>) (ds @ [d @ t1])" "height u = height (rope_chunks r)"
    using update_last_with_chunk [where f = "push_chunk_fill (chunk_of t)", OF _ t(2,4)] assms(1) snoc by blast
  show ?thesis
  proof (cases "t2 = []")
    case True
    then have "full_enough t \<longrightarrow> full_enough (d @ t1)" using t(1,3) by (simp add: fill_split_def)
    then show ?thesis using u True snoc t(1)
      by (intro exI [of _ "r\<lparr>rope_chunks := u\<rparr>"] exI [of _ "ds @ [d @ t1]"]) (simp add: push_chunk_alt)
  next
    case False
    have t2: "valid t2" "str_len t2 \<le> 128" using assms(2,3) t(1) by simp_all
    have "full_enough (last (ds @ [d @ t1]))" using t(3) False by (simp add: fill_split_def)
    from push_rest_chunk [OF u(2) t2 False this]
    obtain v where v: "push chunk_ops u (chunk_of t2) = Some v"
      "rope_of (r\<lparr>rope_chunks := u, rope_chunks := v\<rparr>) ((ds @ [d @ t1]) @ [t2])" "height v \<le> Suc (height u)" by auto
    moreover have "full_enough t \<longrightarrow> full_enough t2" using t(1,3) False assms(3) by (simp add: fill_split_def)
    ultimately show ?thesis using u(1,3) snoc False t(1) slice_into_chunk_of [OF t2(2)]
      by (intro exI [of _ "r\<lparr>rope_chunks := v\<rparr>"] exI [of _ "(ds @ [d @ t1]) @ [t2]"]) (simp add: push_chunk_alt)
  qed
qed

subsection \<open>Append\<close>

lemma rest_after_first:
  assumes "wf_tree chunk_ops t" and "height t < STACK_CAPACITY" and "tree_items t = x # xs"
  obtains c1 c2 c3 u where "cursor_next unit_dim (cursor_new unit_dim t) = Some c1" "cursor_next unit_dim c1 = Some c2"
    "suffix chunk_ops unit_dim c2 = Some (c3, u)" "wf_tree chunk_ops u" "tree_items u = xs"
    "height u \<le> height t"
proof -
  note U = unit_dim_laws [OF rope_tree.summary_laws_axioms]
  note n = cursor_new_ok [OF assms(1,2), of unit_dim]
  have p: "pending (cursor_new unit_dim t) = x # xs" using n assms(3) by (simp add: pending_def cursor_new_def)
  obtain c1 where c1: "cursor_next unit_dim (cursor_new unit_dim t) = Some c1" "cursor_ok chunk_ops unit_dim c1" "can_seek c1"
    "c_did_seek c1" "cursor_rest c1 = x # xs" "c_tree c1 = t"
    using dim_laws.cursor_next_correct [OF U conjunct1 [OF n]] p by (auto simp: cursor_new_def)
  have "c_stack c1 \<noteq> []" using c1(3-5) by (auto simp: cursor_rest_def can_seek_def)
  then have "pending c1 = xs" using c1(5) by (simp add: pending_def)
  then obtain c2 where c2: "cursor_next unit_dim c1 = Some c2" "cursor_ok chunk_ops unit_dim c2" "can_seek c2" "cursor_rest c2 = xs"
    "c_tree c2 = t"
    using dim_laws.cursor_next_correct [OF U c1(2)] c1(6) by metis
  obtain c3 u where "suffix chunk_ops unit_dim c2 = Some (c3, u)" "wf_tree chunk_ops u" "tree_items u = xs"
    using dim_laws.suffix_correct [OF U c2(2,3)] c2(4) by auto
  moreover from this(1) have "height u \<le> height t" using dim_laws.suffix_height [OF U c2(2,3)] c2(5) by simp
  ultimately show thesis using that c1(1) c2(1) by blast
qed

lemma rope_append_of:
  assumes "rope_of r css" and "rope_of s dss" and "height (rope_chunks s) < STACK_CAPACITY"
  shows "\<exists>r' ess. rope_append r s = Some r' \<and> rope_of r' ess \<and> concat ess = concat css @ concat dss \<and>
    height (rope_chunks r') \<le> Suc (max (Suc (height (rope_chunks r))) (height (rope_chunks s)))"
proof -
  have wf: "wf_tree chunk_ops (rope_chunks r)" "wf_tree chunk_ops (rope_chunks s)"
    and it: "tree_items (rope_chunks r) = map chunk_of css" "tree_items (rope_chunks s) = map chunk_of dss"
    using assms(1,2) by (simp_all add: rope_of_def)
  have f: "first (rope_chunks s) = Some (map_option chunk_of (vec_first dss))"
    using first_correct [OF wf(2)] it(2) by (cases dss) simp_all
  have l: "last_item (rope_chunks r) = Some (map_option chunk_of (vec_last css))"
    using last_correct [OF wf(1)] it(1) by (cases css rule: rev_cases) simp_all
  obtain u where u: "append_tree chunk_ops (rope_chunks r) (rope_chunks s) = Some u" "wf_tree chunk_ops u"
    "tree_items u = tree_items (rope_chunks r) @ map chunk_of dss"
    using rope_tree.append_tree_correct [OF wf] it(2) by auto
  have hu: "height u \<le> Suc (max (height (rope_chunks r)) (height (rope_chunks s)))" by (rule rope_tree.append_height [OF wf u(1)])
  have plain: ?thesis if "rope_append r s = Some (r\<lparr>rope_chunks := u\<rparr>)" "dss \<noteq> [] \<Longrightarrow> css \<noteq> [] \<Longrightarrow> full_enough (last css)"
    using rope_of_extend [OF assms(1) _ _ that(2) u(2,3)] assms(2) that(1) hu
    by (intro exI [of _ "r\<lparr>rope_chunks := u\<rparr>"] exI [of _ "css @ dss"]) (simp add: rope_of_def)
  show ?thesis
  proof (cases dss)
    case Nil
    then show ?thesis using f u(1) by (intro plain) (simp_all add: rope_append_def)
  next
    case (Cons d ds)
    let ?small = "(case vec_last css of Some c \<Rightarrow> str_len c < MIN_BASE | None \<Rightarrow> False) \<or> str_len d < MIN_BASE"
    show ?thesis
    proof (cases ?small)
      case False
      then have "css \<noteq> [] \<Longrightarrow> full_enough (last css)" by (simp add: full_enough_def)
      moreover have "rope_append r s = Some (r\<lparr>rope_chunks := u\<rparr>)"
        using False f l u(1) Cons unfolding rope_append_def by (cases css rule: rev_cases) simp_all
      ultimately show ?thesis by (intro plain)
    next
      case True
      have d: "chunk_text d" "\<forall>e\<in>set ds. chunk_text e" "ds \<noteq> [] \<Longrightarrow> full_enough d" "\<forall>e\<in>set (butlast ds). full_enough e"
        using assms(2) Cons by (auto simp: rope_of_def split: if_splits)
      obtain r' ess where r': "push_chunk r (chunk_of d) = Some r'" "rope_of r' ess" "concat ess = concat css @ d"
        "full_enough d \<longrightarrow> ess \<noteq> [] \<longrightarrow> full_enough (last ess)" "height (rope_chunks r') \<le> Suc (height (rope_chunks r))"
        using push_chunk_of [OF assms(1), of d] d(1) by (auto simp: chunk_text_def)
      have "tree_items (rope_chunks s) = chunk_of d # map chunk_of ds" using it(2) Cons by simp
      from rest_after_first [OF wf(2) assms(3) this] obtain c1 c2 c3 v where
        c: "cursor_next unit_dim (cursor_new unit_dim (rope_chunks s)) = Some c1" "cursor_next unit_dim c1 = Some c2"
        "suffix chunk_ops unit_dim c2 = Some (c3, v)" "wf_tree chunk_ops v" "tree_items v = map chunk_of ds"
        "height v \<le> height (rope_chunks s)" .
      obtain w where w: "append_tree chunk_ops (rope_chunks r') v = Some w" "wf_tree chunk_ops w"
        "tree_items w = tree_items (rope_chunks r') @ map chunk_of ds"
        using rope_tree.append_tree_correct [of "rope_chunks r'" v] r'(2) c(4,5) by (auto simp: rope_of_def)
      have hw: "height w \<le> Suc (max (height (rope_chunks r')) (height v))"
        using rope_tree.append_height [OF _ c(4) w(1)] r'(2) by (simp add: rope_of_def)
      have "rope_append r s = Some (r'\<lparr>rope_chunks := w\<rparr>)"
        using True f l Cons r'(1) c(1-3) w(1) unfolding rope_append_def as_slice_def
        by (cases css rule: rev_cases) simp_all
      moreover have "rope_of (r'\<lparr>rope_chunks := w\<rparr>) (ess @ ds)"
        by (rule rope_of_extend [OF r'(2) d(2,4) _ w(2,3)]) (use d(3) r'(4) in blast)
      ultimately show ?thesis using r'(3,5) hw c(6) Cons by (intro exI [of _ "r'\<lparr>rope_chunks := w\<rparr>"] exI [of _ "ess @ ds"]) simp
    qed
  qed
qed

subsection \<open>Extents\<close>

context text_measure
begin

lemma extent_text:
  assumes "rope_of r css"
  shows "extent (td_dim D) (rope_chunks r) = m (concat css)"
proof (cases "css = []")
  case True
  then have "rope_chunks r = new chunk_ops" using assms by (auto simp: rope_of_def intro: wf_tree_empty)
  then show ?thesis using zero_dim_laws.d_zero_zero [OF zero_laws] zero True by (simp add: extent_def new_def)
next
  case False
  have t: "wf_tree chunk_ops (rope_chunks r)" "tree_items (rope_chunks r) = map chunk_of css"
    "\<forall>cs\<in>set css. str_len cs \<le> 128"
    using assms by (auto simp: rope_of_def chunk_text_def)
  have "wf_node chunk_ops (height (rope_chunks r)) (rope_chunks r)"
    using wf_tree_nonempty [OF t(1)] t(2) False by simp
  from dim_laws.node_end [OF laws this] show ?thesis
    using pos_after_text [OF t(3), of "[]"] zero by (simp add: extent_def t(2))
qed

end

lemma rope_measures:
  assumes "rope_of r css"
  shows "rope_len r = str_len (concat css)" "rope_max_point r = ts_lines (scan (concat css))"
    "rope_max_point_utf16 r = lines_utf16 (scan (concat css))" "rope_summary r = ts_from (concat css)"
    "rope_is_empty r \<longleftrightarrow> css = []"
proof -
  show l: "rope_len r = str_len (concat css)"
    using usize_pos.extent_text [OF assms] by (simp add: rope_len_def usize_td_def)
  show "rope_max_point r = ts_lines (scan (concat css))"
    using point_pos.extent_text [OF assms] by (simp add: rope_max_point_def point_td_def)
  show "rope_max_point_utf16 r = lines_utf16 (scan (concat css))"
    using point_utf16_pos.extent_text [OF assms] by (simp add: rope_max_point_utf16_def point_utf16_td_def)
  have "ts_add ts_zero (cs_text (summary (rope_chunks r))) = ts_from (concat css)"
    using summary_measure.extent_text [OF assms] by (simp add: extent_def text_summary_td_def text_summary_dim_def)
  then show "rope_summary r = ts_from (concat css)"
    using cs_text [of "summary (rope_chunks r)"] by (simp add: rope_summary_def ts_zero_add)
  show "rope_is_empty r \<longleftrightarrow> css = []"
    using l assms by (cases css) (auto simp: rope_is_empty_def rope_of_def chunk_text_def)
qed

subsection \<open>Pushing at the front\<close>

lemma rope_from_of:
  assumes "valid t" and "str_len t < 2 ^ 63"
  shows "\<exists>r' dss. rope_from (utf8 t) = Some r' \<and> rope_of r' dss \<and> concat dss = t"
  using rope_push_of [OF rope_of_new assms] by (simp add: rope_from_def)

lemma rope_push_front_of:
  assumes "rope_of r css" and "height (rope_chunks r) < STACK_CAPACITY" and "valid t" and "str_len t < 2 ^ 63"
  shows "\<exists>r' dss. rope_push_front r (utf8 t) = Some r' \<and> rope_of r' dss \<and> concat dss = t @ concat css"
proof (cases "t = []")
  case True
  then show ?thesis using assms(1) by (auto simp: rope_push_front_def)
next
  case t: False
  show ?thesis
  proof (cases css)
    case Nil
    then show ?thesis using rope_push_of [OF assms(1,3,4)] rope_measures(5) [OF assms(1)] t by (simp add: rope_push_front_def)
  next
    case (Cons d ds)
    have d: "chunk_text d" "\<forall>e\<in>set ds. chunk_text e" "ds \<noteq> [] \<Longrightarrow> full_enough d" "\<forall>e\<in>set (butlast ds). full_enough e"
      using assms(1) Cons by (auto simp: rope_of_def split: if_splits)
    have wf: "wf_tree chunk_ops (rope_chunks r)" and it: "tree_items (rope_chunks r) = chunk_of d # map chunk_of ds"
      using assms(1) Cons by (simp_all add: rope_of_def)
    have f: "first (rope_chunks r) = Some (Some (chunk_of d))" using first_correct [OF wf] it by simp
    have ne: "\<not> rope_is_empty r" using rope_measures(5) [OF assms(1)] Cons by simp
    show ?thesis
    proof (cases "str_len d + str_len t \<le> 128")
      case True
      obtain u where u: "update_first chunk_ops (\<lambda>_. chunk_of (t @ d)) (rope_chunks r) = Some u" "wf_tree chunk_ops u"
        "tree_items u = chunk_of (t @ d) # map chunk_of ds"
        using update_first_correct [OF wf, of "\<lambda>_. chunk_of (t @ d)"] it by auto
      have "rope_push_front r (utf8 t) = Some (r\<lparr>rope_chunks := u\<rparr>)"
        using True f u(1) t ne chunk_prepend_str_of [OF assms(3), of d] d(1)
        by (simp add: rope_push_front_def MAX_BASE_def chunk_text_def)
      moreover have "rope_of (r\<lparr>rope_chunks := u\<rparr>) ((t @ d) # ds)"
        by (rule rope_ofI [OF u(2)]) (use u(3) d True assms(3) in \<open>auto simp: chunk_text_def full_enough_def split: if_splits\<close>)
      ultimately show ?thesis using Cons by (intro exI [of _ "r\<lparr>rope_chunks := u\<rparr>"] exI [of _ "(t @ d) # ds"]) simp
    next
      case False
      obtain s dss where s: "rope_from (utf8 t) = Some s" "rope_of s dss" "concat dss = t"
        using rope_from_of [OF assms(3,4)] by blast
      have "rope_push_front r (utf8 t) = rope_append s r"
        using False f t ne s(1) by (simp add: rope_push_front_def MAX_BASE_def)
      then show ?thesis using rope_append_of [OF s(2) assms(1,2)] s(3) by auto
    qed
  qed
qed

lemma rope_push_all_of:
  assumes "rope_of r css" and "\<forall>t\<in>set ts. valid t \<and> str_len t < 2 ^ 63"
  shows "\<exists>r' dss. rope_push_all r (map utf8 ts) = Some r' \<and> rope_of r' dss \<and> concat dss = concat css @ concat ts"
  using assms
proof (induction ts arbitrary: r css)
  case (Cons t ts)
  obtain r' dss where r': "rope_push r (utf8 t) = Some r'" "rope_of r' dss" "concat dss = concat css @ t"
    using rope_push_of [OF Cons.prems(1), of t] Cons.prems(2) by auto
  then show ?case using Cons.IH [OF r'(2)] Cons.prems(2) by simp
qed auto

subsection \<open>Editing concatenates\<close>

text \<open>C29. A rope's edits concatenate texts and never panic: \<open>push\<close>, \<open>append\<close>, \<open>push_front\<close>, the
  constructors, for any text in UTF-8. The result keeps the invariants: its tree is well-formed, every
  chunk holds at most 128 bytes with the bitmaps of its text, none is empty, and every chunk but the last
  is within three bytes of the minimum. Its summary and lengths are those of the text. (\<open>append\<close> drives a
  cursor over its argument, so that must be lower than the cursor's stack.)\<close>

theorem rope_editing:
  assumes "rope_text r cs" and "rope_text s ds" and "height (rope_chunks s) < STACK_CAPACITY"
    and "valid t" and "str_len t < 2 ^ 63"
  shows "(\<exists>r'. rope_push r (utf8 t) = Some r' \<and> rope_text r' (cs @ t)) \<and>
    (\<exists>r'. rope_append r s = Some r' \<and> rope_text r' (cs @ ds)) \<and>
    (\<exists>r'. rope_push_front s (utf8 t) = Some r' \<and> rope_text r' (t @ ds)) \<and>
    (\<exists>r'. rope_from (utf8 t) = Some r' \<and> rope_text r' t) \<and>
    (\<exists>r'. rope_from_iter [utf8 t, utf8 t] = Some r' \<and> rope_text r' (t @ t)) \<and>
    rope_text rope_new [] \<and>
    rope_summary r = ts_from cs \<and> rope_len r = str_len cs \<and> rope_max_point r = ts_lines (ts_from cs :: (nat, nat) text_summary) \<and>
    rope_max_point_utf16 r = lines_utf16 (ts_from cs :: (nat, nat) text_summary) \<and> (rope_is_empty r \<longleftrightarrow> cs = [])"
proof -
  obtain css dss where r: "rope_of r css" "cs = concat css" and s: "rope_of s dss" "ds = concat dss"
    using assms(1,2) by (auto simp: rope_text_def)
  have "\<exists>r'. rope_push r (utf8 t) = Some r' \<and> rope_text r' (cs @ t)"
    using rope_push_of [OF r(1) assms(4,5)] r(2) rope_textI by metis
  moreover have "\<exists>r'. rope_append r s = Some r' \<and> rope_text r' (cs @ ds)"
    using rope_append_of [OF r(1) s(1) assms(3)] r(2) s(2) rope_textI by metis
  moreover have "\<exists>r'. rope_push_front s (utf8 t) = Some r' \<and> rope_text r' (t @ ds)"
    using rope_push_front_of [OF s(1) assms(3-5)] s(2) rope_textI by metis
  moreover have "\<exists>r'. rope_from (utf8 t) = Some r' \<and> rope_text r' t"
    using rope_from_of [OF assms(4,5)] rope_textI by metis
  moreover have "\<exists>r'. rope_from_iter [utf8 t, utf8 t] = Some r' \<and> rope_text r' (t @ t)"
    using rope_push_all_of [OF rope_of_new, of "[t, t]"] assms(4,5) by (auto simp: rope_from_iter_def intro: rope_textI)
  moreover have "rope_text rope_new []" using rope_of_new by (auto simp: rope_text_def)
  moreover have "css = [] \<longleftrightarrow> cs = []" using r by (cases css) (auto simp: rope_of_def chunk_text_def)
  ultimately show ?thesis using rope_measures [OF r(1)] r(2) by (simp add: ts_from_scan lines_utf16_def)
qed

lemma rope_editing_witness:
  "\<exists>r. rope_push rope_new (utf8 [97, 10, 128512]) = Some r \<and> rope_text r [97, 10, 128512]"
proof -
  have "rope_text rope_new []" by (rule rope_textI [OF rope_of_new]) simp
  moreover have "height (rope_chunks rope_new) < STACK_CAPACITY" by (simp add: rope_new_def new_def STACK_CAPACITY_def)
  moreover have "valid [97, 10, 128512]" "str_len [97, 10, 128512] < 2 ^ 63" by (simp_all add: scalar_value_def len_utf8_def)
  ultimately show ?thesis using rope_editing [of rope_new "[]" rope_new "[]" "[97, 10, 128512]"] by (simp only: append_Nil)
qed

end
