(* ===== verification/RopeSeek.thy ===== *)
theory RopeSeek
  imports RopeText
begin

text \<open>
  Seeking in a rope's tree (\<open>crates/rope/src/rope.rs\<close>) by a measure of texts: which chunk a position is
  found in, with either bias, for any dimension that carries the measure.
\<close>

lemma passes_cmp:
  "passes Left (cmp t d) \<longleftrightarrow> d < t" "passes Right (cmp t d) \<longleftrightarrow> d \<le> t" for t :: "'a::linorder"
  by (auto simp: passes_def le_less)

lemma passes_cmp_mono: "passes bias (cmp t e) \<Longrightarrow> d \<le> e \<Longrightarrow> passes bias (cmp t d)" for t :: "'a::linorder"
  by (cases bias) (auto simp: passes_cmp)

text \<open>\<open>tracks DD n m tgt t\<close>: the target \<open>tgt\<close> in the dimension \<open>DD\<close>, which measures \<open>n\<close>, is the value
  \<open>t\<close> of the measure \<open>m\<close>.\<close>

definition tracks :: "'c text_dimension \<Rightarrow> (rust_char list \<Rightarrow> 'c) \<Rightarrow> (rust_char list \<Rightarrow> 'd::linorder) \<Rightarrow> 'c seek_target \<Rightarrow> 'd \<Rightarrow> bool" where
  "tracks DD n m tgt t \<longleftrightarrow> text_measure DD n \<and> (\<forall>xs. tgt (n xs) = cmp t (m xs))"

context text_position
begin

lemma tracks_self: "tracks D m m (key_target t) t"
  by (simp add: tracks_def key_target_def text_measure_axioms)

lemma tracks_pair: "text_measure E n \<Longrightarrow> tracks (dimensions2_td D E) (\<lambda>cs. (m cs, n cs)) m (target_fst (key_target t)) t"
  by (simp add: tracks_def key_target_def target_fst_def dimensions2_measure text_measure_axioms)

lemma mono_text:
  assumes "tracks DD n m tgt t" and "\<forall>cs\<in>set css. str_len cs \<le> 128"
  shows "mono_target chunk_ops (td_dim DD) (\<lambda>d. passes bias (tgt d)) (n xs) (map chunk_of css)"
  using assms(2)
proof (induction css arbitrary: xs)
  case (Cons cs css)
  have n: "text_measure DD n" and tgt: "tgt (n ys) = cmp t (m ys)" for ys using assms(1) by (simp_all add: tracks_def)
  have add: "d_add (td_dim DD) (n ys) (item_summary chunk_ops (chunk_of cs)) = n (ys @ cs)" if "str_len cs \<le> 128" for ys cs
    using text_measure.add_text [OF n chunk_summary_of [OF that]] .
  have never: "never_passes chunk_ops (td_dim DD) (\<lambda>d. passes bias (tgt d)) (n ys) (map chunk_of dss)"
    if "\<not> passes bias (cmp t (m ys))" "\<forall>cs\<in>set dss. str_len cs \<le> 128" for ys dss
    using that
  proof (induction dss arbitrary: ys)
    case (Cons ds dss)
    have "\<not> passes bias (cmp t (m (ys @ ds)))" using Cons.prems(1) passes_cmp_mono le by blast
    then show ?case using Cons.IH [of "ys @ ds"] Cons.prems(2) add [of ds ys] by (simp add: tgt)
  qed simp
  show ?case using Cons.IH [of "xs @ cs"] Cons.prems never [of "xs @ cs" css] add [of cs xs] by (auto simp: tgt)
qed simp

lemma seek_text:
  assumes "tracks DD n m tgt t" and "\<forall>cs\<in>set css. str_len cs \<le> 128"
  obtains css1 css2 where "css = css1 @ css2"
    "seek_split chunk_ops (td_dim DD) (\<lambda>d. passes bias (tgt d)) (n xs) (map chunk_of css) =
       (map chunk_of css1, map chunk_of css2, n (xs @ concat css1))"
    "css1 \<noteq> [] \<Longrightarrow> passes bias (cmp t (m (xs @ concat css1)))"
    "css2 \<noteq> [] \<Longrightarrow> \<not> passes bias (cmp t (m (xs @ concat css1 @ hd css2)))"
proof -
  have n: "text_measure DD n" and tgt: "tgt (n ys) = cmp t (m ys)" for ys using assms(1) by (simp_all add: tracks_def)
  have add: "d_add (td_dim DD) (n ys) (item_summary chunk_ops (chunk_of cs)) = n (ys @ cs)" if "str_len cs \<le> 128" for ys cs
    using text_measure.add_text [OF n chunk_summary_of [OF that]] .
  have "\<exists>css1 css2. css = css1 @ css2 \<and>
      seek_split chunk_ops (td_dim DD) (\<lambda>d. passes bias (tgt d)) (n xs) (map chunk_of css) =
        (map chunk_of css1, map chunk_of css2, n (xs @ concat css1)) \<and>
      (css1 \<noteq> [] \<longrightarrow> passes bias (cmp t (m (xs @ concat css1)))) \<and>
      (css2 \<noteq> [] \<longrightarrow> \<not> passes bias (cmp t (m (xs @ concat css1 @ hd css2))))"
    using assms(2)
  proof (induction css arbitrary: xs)
    case (Cons cs css)
    show ?case
    proof (cases "passes bias (cmp t (m (xs @ cs)))")
      case True
      have "\<forall>cs\<in>set css. str_len cs \<le> 128" using Cons.prems by simp
      from Cons.IH [OF this, of "xs @ cs"] obtain css1 css2 where c: "css = css1 @ css2"
        "seek_split chunk_ops (td_dim DD) (\<lambda>d. passes bias (tgt d)) (n (xs @ cs)) (map chunk_of css) =
          (map chunk_of css1, map chunk_of css2, n ((xs @ cs) @ concat css1))"
        "css1 \<noteq> [] \<longrightarrow> passes bias (cmp t (m ((xs @ cs) @ concat css1)))"
        "css2 \<noteq> [] \<longrightarrow> \<not> passes bias (cmp t (m ((xs @ cs) @ concat css1 @ hd css2)))" by blast
      then show ?thesis using True Cons.prems add [of cs xs]
        by (intro exI [of _ "cs # css1"] exI [of _ css2]) (cases css1; simp add: tgt)
    next
      case False
      then show ?thesis using Cons.prems add [of cs xs]
        by (intro exI [of _ "[]"] exI [of _ "cs # css"]) (simp add: tgt)
    qed
  qed simp
  then show thesis using that by blast
qed

end

end
