(* ===== verification/RopeCursor.thy ===== *)
theory RopeCursor
  imports RopeSeek
begin

text \<open>
  The cursor of a rope (\<open>Cursor\<close> of \<open>crates/rope/src/rope.rs\<close>) and what is built on it: \<open>slice\<close>,
  \<open>summary\<close>, \<open>suffix\<close>, \<open>replace\<close>. At offsets of character boundaries they divide the text where the
  offsets say.
\<close>

subsection \<open>Positions of the cursor\<close>

lemma td_dim_usize [simp]: "td_dim usize_td = usize_dim" "d_zero usize_dim = 0"
  by (simp_all add: usize_td_def usize_dim_def)

lemma append_prefix:
  assumes "a @ b = c @ d" and "str_len a \<le> str_len c"
  obtains e where "c = a @ e" "b = e @ d"
proof -
  obtain e where "a = c @ e \<and> e @ b = d \<or> a @ e = c \<and> b = e @ d" using assms(1) append_eq_append_conv2 by blast
  then show thesis
  proof (elim disjE conjE)
    assume "a = c @ e" "e @ b = d"
    then show thesis using that [of "[]"] assms(2) by simp
  next
    assume "a @ e = c" "b = e @ d"
    then show thesis using that [of e] by simp
  qed
qed

text \<open>The text in front of the cursor ends inside the chunk it is at, or at its start or end.\<close>

definition inside :: "rust_char list list \<Rightarrow> rust_char list list \<Rightarrow> rust_char list \<Rightarrow> rust_char list \<Rightarrow> rust_char list \<Rightarrow> rust_char list \<Rightarrow> bool" where
  "inside css1 css2 xs ys as bs \<longleftrightarrow> xs = concat css1 @ as \<and>
     (if css2 = [] then as = [] \<and> bs = [] \<and> ys = [] else hd css2 = as @ bs \<and> ys = bs @ concat (tl css2))"

lemma inside_split:
  assumes "concat (css1 @ css2) = xs @ ys" and "css1 \<noteq> [] \<Longrightarrow> str_len (concat css1) \<le> str_len xs"
    and "css2 \<noteq> [] \<Longrightarrow> str_len xs \<le> str_len (concat css1 @ hd css2)"
  obtains as bs where "inside css1 css2 xs ys as bs"
proof -
  have "str_len (concat css1) \<le> str_len xs" using assms(2) by (cases "css1 = []") auto
  moreover have "concat css1 @ concat css2 = xs @ ys" using assms(1) by simp
  ultimately obtain as where as: "xs = concat css1 @ as" "concat css2 = as @ ys" using append_prefix by metis
  show thesis
  proof (cases css2)
    case Nil
    then show thesis using as that [of "[]" "[]"] by (simp add: inside_def)
  next
    case (Cons cs rest)
    have "as @ ys = cs @ concat rest" "str_len as \<le> str_len cs" using as assms(3) Cons by simp_all
    then obtain bs where "cs = as @ bs" "ys = bs @ concat rest" by (rule append_prefix)
    then show thesis using as Cons that [of as bs] by (simp add: inside_def)
  qed
qed

definition tree_cursor_at :: "(chunk, chunk_summary, nat) cursor \<Rightarrow> rope \<Rightarrow> rust_char list list \<Rightarrow> rust_char list list \<Rightarrow> bool" where
  "tree_cursor_at c r css1 css2 \<longleftrightarrow> rope_of r (css1 @ css2) \<and> cursor_ok chunk_ops usize_dim c \<and> can_seek c \<and> c_did_seek c \<and>
     c_tree c = rope_chunks r \<and> cursor_done c = map chunk_of css1 \<and> cursor_rest c = map chunk_of css2"

definition cursor_at :: "rope_cursor \<Rightarrow> rope \<Rightarrow> rust_char list \<Rightarrow> rust_char list \<Rightarrow> bool" where
  "cursor_at c r xs ys \<longleftrightarrow> rc_rope c = r \<and> rc_offset c = str_len xs \<and>
     (\<exists>css1 css2 as bs. tree_cursor_at (rc_chunks c) r css1 css2 \<and> inside css1 css2 xs ys as bs)"

lemma rope_chunk_lens: "rope_of r css \<Longrightarrow> \<forall>cs\<in>set css. str_len cs \<le> 128"
  by (auto simp: rope_of_def chunk_text_def)

lemma inside_concat: "inside css1 css2 xs ys as bs \<Longrightarrow> concat (css1 @ css2) = xs @ ys"
  by (cases css2) (auto simp: inside_def split: if_splits)

lemma tree_cursor_at_facts:
  assumes "tree_cursor_at c r css1 css2"
  shows "c_position c = str_len (concat css1)" "cursor_item c = Some (map_option chunk_of (vec_first css2))"
    "cursor_end usize_dim c = Some (str_len (concat css1 @ (if css2 = [] then [] else hd css2)))"
    "\<forall>cs\<in>set css2. str_len cs \<le> 128"
proof -
  have c: "cursor_ok chunk_ops usize_dim c" "can_seek c" "c_did_seek c" "cursor_done c = map chunk_of css1"
      "cursor_rest c = map chunk_of css2"
    and l: "\<forall>cs\<in>set (css1 @ css2). str_len cs \<le> 128"
    using assms rope_chunk_lens by (auto simp: tree_cursor_at_def)
  show "\<forall>cs\<in>set css2. str_len cs \<le> 128" using l by simp
  have "c_position c = pos_after chunk_ops (td_dim usize_td) (str_len []) (map chunk_of css1)"
    using c(1,4) by (simp add: cursor_ok_def usize_dim_def)
  also have "\<dots> = str_len (concat css1)" using usize_pos.pos_after_text [of css1 "[]"] l by simp
  finally show p: "c_position c = str_len (concat css1)" .
  show "cursor_item c = Some (map_option chunk_of (vec_first css2))"
    using cursor_item_ok(1) [OF c(1,3,2)] c(5) by (cases css2) simp_all
  show "cursor_end usize_dim c = Some (str_len (concat css1 @ (if css2 = [] then [] else hd css2)))"
    using cursor_item_ok(2) [OF c(1,3,2)] c(5) p l chunk_summary_of [of "hd css2"]
    by (cases css2) (simp_all add: cursor_end_def usize_dim_def ts_from_scan)
qed

lemma seek_right_at:
  assumes "rope_of r css" and "height (rope_chunks r) < STACK_CAPACITY" and "concat css = xs @ ys" and "c_tree c0 = rope_chunks r"
  obtains c f css1 css2 as bs where "seek usize_dim c0 (key_target (str_len xs)) Right = Some (c, f)" "tree_cursor_at c r css1 css2"
    "inside css1 css2 xs ys as bs" "css2 \<noteq> [] \<Longrightarrow> bs \<noteq> []"
proof -
  let ?tgt = "key_target (str_len xs)"
  have r: "wf_tree chunk_ops (rope_chunks r)" "tree_items (rope_chunks r) = map chunk_of css" using assms(1) by (simp_all add: rope_of_def)
  note t = usize_pos.tracks_self [of "str_len xs"]
  obtain css1 css2 where s: "css = css1 @ css2"
    "seek_split chunk_ops usize_dim (\<lambda>d. passes Right (?tgt d)) (str_len []) (map chunk_of css) =
       (map chunk_of css1, map chunk_of css2, str_len ([] @ concat css1))"
    "css1 \<noteq> [] \<Longrightarrow> passes Right (cmp (str_len xs) (str_len ([] @ concat css1)))"
    "css2 \<noteq> [] \<Longrightarrow> \<not> passes Right (cmp (str_len xs) (str_len ([] @ concat css1 @ hd css2)))"
    using usize_pos.seek_text [OF t rope_chunk_lens [OF assms(1)], of Right "[]"] by auto
  have m: "mono_target chunk_ops usize_dim (\<lambda>d. passes Right (?tgt d)) (d_zero usize_dim) (tree_items (rope_chunks r))"
    using usize_pos.mono_text [OF t rope_chunk_lens [OF assms(1)], of Right "[]"] r(2) by simp
  have n: "?tgt (d_zero usize_dim) \<noteq> Less" by (simp add: key_target_def usize_dim_def)
  obtain c where c: "seek usize_dim c0 ?tgt Right = Some (c, ?tgt (str_len (concat css1)) = Equal)"
    "cursor_ok chunk_ops usize_dim c" "can_seek c" "c_did_seek c" "c_tree c = rope_chunks r"
    "cursor_done c = map chunk_of css1" "cursor_rest c = map chunk_of css2"
    using usize_laws.seek_correct [OF r(1) assms(2,4) n m, of "map chunk_of css1" "map chunk_of css2" "str_len (concat css1)"] s(2) r(2)
    by auto
  have at: "tree_cursor_at c r css1 css2" using c assms(1) s(1) by (simp add: tree_cursor_at_def)
  have "concat (css1 @ css2) = xs @ ys" using assms(3) s(1) by simp
  then obtain as bs where i: "inside css1 css2 xs ys as bs"
    by (rule inside_split) (use s(3,4) in \<open>auto simp: passes_cmp\<close>)
  have "bs \<noteq> []" if "css2 \<noteq> []" using i s(4) [OF that] that by (auto simp: inside_def passes_cmp)
  then show thesis using that c(1) at i by blast
qed

lemma rope_cursor_new_at:
  assumes "rope_of r css" and "height (rope_chunks r) < STACK_CAPACITY" and "concat css = xs @ ys"
  shows "\<exists>c. rope_cursor_new r (str_len xs) = Some c \<and> cursor_at c r xs ys"
proof -
  have t: "c_tree (cursor_new usize_dim (rope_chunks r)) = rope_chunks r" by (simp add: cursor_new_def)
  obtain c f css1 css2 as bs where "seek usize_dim (cursor_new usize_dim (rope_chunks r)) (key_target (str_len xs)) Right = Some (c, f)"
    "tree_cursor_at c r css1 css2" "inside css1 css2 xs ys as bs"
    using seek_right_at [OF assms t] by metis
  then show ?thesis by (auto simp: rope_cursor_new_def cursor_at_def)
qed

text \<open>Where a forward move of the tree's cursor goes, for an offset at or after its chunk's start.\<close>

lemma forward_split:
  assumes "tree_cursor_at c r css1 css2" and "concat (css1 @ css2) = xs @ ys" and "str_len (concat css1) \<le> str_len xs"
  obtains dss1 dss2 as bs where "css2 = dss1 @ dss2" "inside (css1 @ dss1) dss2 xs ys as bs"
    "seek_split chunk_ops usize_dim (\<lambda>d. passes Right (key_target (str_len xs) d)) (c_position c) (cursor_rest c) =
       (map chunk_of dss1, map chunk_of dss2, str_len (concat (css1 @ dss1)))"
    "mono_target chunk_ops usize_dim (\<lambda>d. passes Right (key_target (str_len xs) d)) (c_position c) (cursor_rest c)"
    "key_target (str_len xs) (c_position c) \<noteq> Less" "dss2 = [] \<or> bs \<noteq> []"
proof -
  let ?tgt = "key_target (str_len xs)"
  note f = tree_cursor_at_facts [OF assms(1)]
  have rest: "cursor_rest c = map chunk_of css2" using assms(1) by (simp add: tree_cursor_at_def)
  note t = usize_pos.tracks_self [of "str_len xs"]
  obtain dss1 dss2 where s: "css2 = dss1 @ dss2"
    "seek_split chunk_ops usize_dim (\<lambda>d. passes Right (?tgt d)) (str_len (concat css1)) (map chunk_of css2) =
       (map chunk_of dss1, map chunk_of dss2, str_len (concat css1 @ concat dss1))"
    "dss1 \<noteq> [] \<Longrightarrow> passes Right (cmp (str_len xs) (str_len (concat css1 @ concat dss1)))"
    "dss2 \<noteq> [] \<Longrightarrow> \<not> passes Right (cmp (str_len xs) (str_len (concat css1 @ concat dss1 @ hd dss2)))"
    using usize_pos.seek_text [OF t f(4), of Right "concat css1"] by auto
  have m: "mono_target chunk_ops usize_dim (\<lambda>d. passes Right (?tgt d)) (c_position c) (cursor_rest c)"
    using usize_pos.mono_text [OF t f(4), of Right "concat css1"] f(1) rest by simp
  have "concat ((css1 @ dss1) @ dss2) = xs @ ys" using assms(2) s(1) by simp
  then obtain as bs where i: "inside (css1 @ dss1) dss2 xs ys as bs"
  proof (rule inside_split)
    show "str_len (concat (css1 @ dss1)) \<le> str_len xs" using s(3) assms(3) by (cases "dss1 = []") (auto simp: passes_cmp)
    show "dss2 \<noteq> [] \<Longrightarrow> str_len xs \<le> str_len (concat (css1 @ dss1) @ hd dss2)" using s(4) by (simp add: passes_cmp)
  qed
  moreover have "dss2 = [] \<or> bs \<noteq> []" using i s(4) by (auto simp: inside_def passes_cmp)
  moreover have "?tgt (c_position c) \<noteq> Less" using f(1) assms(3) by (simp add: key_target_def)
  ultimately show thesis using that [of dss1 dss2 as bs] s(1,2) m f(1) rest by simp
qed

lemma rope_seek_forward_at:
  assumes "cursor_at c r xs (zs @ ws)"
  shows "\<exists>c'. rope_seek_forward c (str_len (xs @ zs)) = Some c' \<and> cursor_at c' r (xs @ zs) ws"
proof -
  obtain css1 css2 as bs where c: "rc_rope c = r" "rc_offset c = str_len xs" "tree_cursor_at (rc_chunks c) r css1 css2"
    "inside css1 css2 xs (zs @ ws) as bs"
    using assms by (auto simp: cursor_at_def)
  let ?tc = "rc_chunks c"
  have at: "rope_of r (css1 @ css2)" "cursor_ok chunk_ops usize_dim ?tc" "can_seek ?tc" "c_tree ?tc = rope_chunks r"
    "cursor_done ?tc = map chunk_of css1"
    using c(3) by (simp_all add: tree_cursor_at_def)
  have tx: "concat (css1 @ css2) = (xs @ zs) @ ws" using inside_concat [OF c(4)] by simp
  have "str_len (concat css1) \<le> str_len (xs @ zs)" using c(4) by (simp add: inside_def)
  from forward_split [OF c(3) tx this] obtain dss1 dss2 as' bs' where s: "css2 = dss1 @ dss2"
    "inside (css1 @ dss1) dss2 (xs @ zs) ws as' bs'"
    "seek_split chunk_ops usize_dim (\<lambda>d. passes Right (key_target (str_len (xs @ zs)) d)) (c_position ?tc) (cursor_rest ?tc) =
       (map chunk_of dss1, map chunk_of dss2, str_len (concat (css1 @ dss1)))"
    "mono_target chunk_ops usize_dim (\<lambda>d. passes Right (key_target (str_len (xs @ zs)) d)) (c_position ?tc) (cursor_rest ?tc)"
    "key_target (str_len (xs @ zs)) (c_position ?tc) \<noteq> Less" "dss2 = [] \<or> bs' \<noteq> []" .
  obtain tc' f where tc': "seek_forward usize_dim ?tc (key_target (str_len (xs @ zs))) Right = Some (tc', f)"
    "cursor_ok chunk_ops usize_dim tc'" "can_seek tc'" "c_did_seek tc'" "c_tree tc' = rope_chunks r"
    "cursor_done tc' = map chunk_of (css1 @ dss1)" "cursor_rest tc' = map chunk_of dss2"
    using usize_laws.seek_forward_correct [OF at(2,3) s(5,4,3)] at(4,5) by auto
  have "tree_cursor_at tc' r (css1 @ dss1) dss2" using tc' at(1) s(1) by (simp add: tree_cursor_at_def)
  then have "cursor_at (c\<lparr>rc_chunks := tc', rc_offset := str_len (xs @ zs)\<rparr>) r (xs @ zs) ws"
    using s(2) c(1) by (auto simp: cursor_at_def)
  moreover have "str_len (xs @ zs) \<le> rope_len r"
    using rope_measures(1) [OF at(1)] tx by (metis le_add1 str_len_append)
  ultimately show ?thesis using c(1,2) tc'(1) by (simp add: rope_seek_forward_def)
qed

subsection \<open>The two parts of a range\<close>

text \<open>From the cursor to the end of its chunk or of the range, and the rest of the range.\<close>

lemma first_part:
  assumes "tree_cursor_at c r css1 css2" and "inside css1 css2 xs (zs @ ws) as bs"
    and "e = str_len (concat css1 @ (if css2 = [] then [] else hd css2))"
  obtains t1 t2 where "zs = t1 @ t2"
    "case vec_first css2 of None \<Rightarrow> t1 = []
     | Some cs \<Rightarrow> chunk_slice_range (chunk_of cs) (str_len xs - c_position c) (min (str_len (xs @ zs)) e - c_position c) = Some (chunk_of t1)"
    "e < str_len (xs @ zs) \<longleftrightarrow> t2 \<noteq> []" "t2 = [] \<Longrightarrow> \<exists>as bs. inside css1 css2 (xs @ zs) ws as bs"
    "t2 \<noteq> [] \<Longrightarrow> css2 \<noteq> [] \<and> xs @ t1 = concat css1 @ hd css2" "valid t1" "str_len t1 \<le> 128"
proof (cases css2)
  case Nil
  then have "zs = []" "ws = []" "xs = concat css1" using assms(2) by (auto simp: inside_def)
  then show thesis using that [of "[]" "[]"] Nil assms(2,3) by auto
next
  case (Cons cs rest)
  have i: "xs = concat css1 @ as" "cs = as @ bs" "zs @ ws = bs @ concat rest" using assms(2) Cons by (simp_all add: inside_def)
  have p: "c_position c = str_len (concat css1)" by (rule tree_cursor_at_facts(1) [OF assms(1)])
  have "chunk_text cs" using assms(1) Cons by (simp add: tree_cursor_at_def rope_of_def)
  then have v: "valid (as @ bs)" "str_len (as @ bs) \<le> 128" using i(2) by (simp_all add: chunk_text_def)
  show thesis
  proof (cases "str_len zs \<le> str_len bs")
    case True
    from append_prefix [OF i(3) this] obtain us where us: "bs = zs @ us" "ws = us @ concat rest" .
    have "chunk_slice_range (chunk_of cs) (str_len as) (str_len (as @ zs)) = Some (chunk_of zs)"
      using slice_range_of [of as zs us] v us(1) i(2) by (simp add: chunk_slice_range_def as_slice_def)
    moreover have "min (str_len (xs @ zs)) e = str_len (xs @ zs)" using True assms(3) Cons i(1,2) by simp
    moreover have "inside css1 css2 (xs @ zs) ws (as @ zs) us" using i us Cons by (simp add: inside_def)
    ultimately show thesis using that [of zs "[]"] Cons i(1,2) p v us(1) True assms(3) by auto
  next
    case False
    then have "str_len bs \<le> str_len zs" by simp
    from append_prefix [OF i(3) [symmetric] this] obtain us where us: "zs = bs @ us" "concat rest = us @ ws" .
    have "chunk_slice_range (chunk_of cs) (str_len as) (str_len (as @ bs)) = Some (chunk_of bs)"
      using slice_range_of [of as bs "[]"] v i(2) by (simp add: chunk_slice_range_def as_slice_def)
    moreover have "min (str_len (xs @ zs)) e = str_len (concat css1 @ as @ bs)" using us(1) assms(3) Cons i(1,2) by simp
    moreover have ne: "us \<noteq> []" using False us(1) by auto
    moreover have "e < str_len (xs @ zs)" using str_len_pos [OF ne] us(1) assms(3) Cons i(1,2) by simp
    ultimately show thesis using that [of bs us] Cons i(1,2) p v us(1) by simp
  qed
qed

lemma second_part:
  assumes "tree_cursor_at c r css1 css2" and "css2 \<noteq> []" and "concat (css1 @ css2) = xs @ ys"
    and "str_len (concat css1 @ hd css2) \<le> str_len xs"
  obtains c1 dss1 dss2 as bs where "cursor_next usize_dim c = Some c1" "tree_cursor_at c1 r (css1 @ [hd css2]) (tl css2)"
    "tl css2 = dss1 @ dss2" "inside ((css1 @ [hd css2]) @ dss1) dss2 xs ys as bs"
    "seek_split chunk_ops usize_dim (\<lambda>d. passes Right (key_target (str_len xs) d)) (c_position c1) (cursor_rest c1) =
       (map chunk_of dss1, map chunk_of dss2, str_len (concat ((css1 @ [hd css2]) @ dss1)))"
    "mono_target chunk_ops usize_dim (\<lambda>d. passes Right (key_target (str_len xs) d)) (c_position c1) (cursor_rest c1)"
    "key_target (str_len xs) (c_position c1) \<noteq> Less"
proof -
  have c: "cursor_ok chunk_ops usize_dim c" "can_seek c" "c_did_seek c" "c_tree c = rope_chunks r" "cursor_rest c = map chunk_of css2"
    "rope_of r (css1 @ css2)"
    using assms(1) by (simp_all add: tree_cursor_at_def)
  have "c_stack c \<noteq> []" using c(2,3,5) assms(2) by (auto simp: cursor_rest_def can_seek_def)
  then have p: "pending c = map chunk_of (tl css2)" using c(5) by (simp add: pending_def map_tl)
  obtain c1 where c1: "cursor_next usize_dim c = Some c1" "cursor_ok chunk_ops usize_dim c1" "can_seek c1" "c_did_seek c1"
    "c_tree c1 = rope_chunks r" "cursor_rest c1 = map chunk_of (tl css2)"
    using usize_laws.cursor_next_correct [OF c(1)] c(4) p by auto
  have css2: "css2 = hd css2 # tl css2" using assms(2) by simp
  have "cursor_done c1 @ map chunk_of (tl css2) = map chunk_of (css1 @ hd css2 # tl css2)"
    using cursor_done_rest [OF c1(2)] c1(5,6) c(6) css2 by (simp add: rope_of_def)
  then have "cursor_done c1 = map chunk_of (css1 @ [hd css2])" by simp
  then have at: "tree_cursor_at c1 r (css1 @ [hd css2]) (tl css2)" using c1 c(6) css2 by (simp add: tree_cursor_at_def)
  have "concat ((css1 @ [hd css2]) @ tl css2) = xs @ ys" using assms(3) css2 by (metis append.assoc append_Cons append_Nil)
  moreover have "str_len (concat (css1 @ [hd css2])) \<le> str_len xs" using assms(4) by simp
  ultimately show thesis using forward_split [OF at] that [OF c1(1) at] by metis
qed

lemma last_part:
  assumes "tree_cursor_at c r css1 css2" and "inside css1 css2 xs ys as bs"
  shows "case vec_first css2 of None \<Rightarrow> as = []
    | Some cs \<Rightarrow> chunk_slice_range (chunk_of cs) 0 (str_len xs - c_position c) = Some (chunk_of as)"
    and "valid as" "str_len as \<le> 128"
proof -
  have "css2 = [] \<Longrightarrow> as = []" using assms(2) by (simp add: inside_def)
  moreover have "valid as \<and> str_len as \<le> 128 \<and>
      chunk_slice_range (chunk_of (hd css2)) 0 (str_len xs - c_position c) = Some (chunk_of as)" if "css2 \<noteq> []"
  proof -
    have i: "xs = concat css1 @ as" "hd css2 = as @ bs" using assms(2) that by (simp_all add: inside_def)
    have "chunk_text (hd css2)" using assms(1) that by (simp add: tree_cursor_at_def rope_of_def)
    then have "valid (as @ bs)" "str_len (as @ bs) \<le> 128" using i(2) by (simp_all add: chunk_text_def)
    then show ?thesis
      using slice_range_of [of "[]" as bs] i tree_cursor_at_facts(1) [OF assms(1)] by (simp add: chunk_slice_range_def as_slice_def)
  qed
  ultimately show "case vec_first css2 of None \<Rightarrow> as = []
    | Some cs \<Rightarrow> chunk_slice_range (chunk_of cs) 0 (str_len xs - c_position c) = Some (chunk_of as)"
    "valid as" "str_len as \<le> 128"
    by (cases css2; auto)+
qed

subsection \<open>Slices\<close>

lemma rope_of_part: "rope_of r (css1 @ css2 @ css3) \<Longrightarrow> wf_tree chunk_ops t \<Longrightarrow> tree_items t = map chunk_of css2 \<Longrightarrow>
    rope_of \<lparr>rope_chunks = t\<rparr> css2"
  by (cases "css3 = []"; cases "css2 = []") (auto simp: rope_of_def butlast_append dest: in_set_butlastD)

lemma slice_start:
  assumes "case vec_first css2 of None \<Rightarrow> t1 = []
     | Some cs \<Rightarrow> chunk_slice_range (chunk_of cs) i j = Some (chunk_of t1)" and "valid t1" "str_len t1 \<le> 128" and "rope_of s ess"
  shows "\<exists>s' ess'. (case map_option chunk_of (vec_first css2) of None \<Rightarrow> Some s
      | Some chunk \<Rightarrow> do { sl \<leftarrow> chunk_slice_range chunk i j; push_chunk s sl }) = Some s' \<and>
    rope_of s' ess' \<and> concat ess' = concat ess @ t1 \<and> height (rope_chunks s') \<le> Suc (height (rope_chunks s))"
proof (cases "vec_first css2")
  case None
  then show ?thesis using assms(1,4) by (intro exI [of _ s] exI [of _ ess]) simp
next
  case (Some cs)
  then show ?thesis using assms(1) push_chunk_of [OF assms(4,2,3)] by auto
qed

lemma rope_cursor_slice_alt:
  "rope_cursor_slice self end_offset = do {
     guard (rc_offset self \<le> end_offset);
     guard (end_offset \<le> rope_len (rc_rope self));
     it \<leftarrow> cursor_item (rc_chunks self);
     end_pos \<leftarrow> cursor_end usize_dim (rc_chunks self);
     slice \<leftarrow> (case it of None \<Rightarrow> Some rope_new
       | Some chunk \<Rightarrow> do { sl \<leftarrow> chunk_slice_range chunk (rc_offset self - c_position (rc_chunks self))
           (min end_offset end_pos - c_position (rc_chunks self)); push_chunk rope_new sl });
     (if end_pos < end_offset then do {
        c \<leftarrow> cursor_next usize_dim (rc_chunks self);
        (c, t) \<leftarrow> Cursor.slice chunk_ops usize_dim c (key_target end_offset) Right;
        slice \<leftarrow> rope_append slice \<lparr>rope_chunks = t\<rparr>;
        it \<leftarrow> cursor_item c;
        slice \<leftarrow> (case it of None \<Rightarrow> Some slice
          | Some chunk \<Rightarrow> do { sl \<leftarrow> chunk_slice_range chunk 0 (end_offset - c_position c); push_chunk slice sl });
        Some (self\<lparr>rc_chunks := c, rc_offset := end_offset\<rparr>, slice)
      } else Some (self\<lparr>rc_offset := end_offset\<rparr>, slice))
   }"
  unfolding rope_cursor_slice_def Let_def by (rule refl)

lemma rope_cursor_slice_at:
  assumes "cursor_at c r xs (zs @ ws)" and "height (rope_chunks r) \<le> 6"
  obtains c' s ess where "rope_cursor_slice c (str_len (xs @ zs)) = Some (c', s)" "cursor_at c' r (xs @ zs) ws"
    "rope_of s ess" "concat ess = zs" "height (rope_chunks s) < STACK_CAPACITY"
proof -
  obtain css1 css2 as bs where c: "rc_rope c = r" "rc_offset c = str_len xs" "tree_cursor_at (rc_chunks c) r css1 css2"
    "inside css1 css2 xs (zs @ ws) as bs"
    using assms by (auto simp: cursor_at_def)
  note f = tree_cursor_at_facts [OF c(3)]
  define e where "e = str_len (concat css1 @ (if css2 = [] then [] else hd css2))"
  have r: "rope_of r (css1 @ css2)" using c(3) by (simp add: tree_cursor_at_def)
  have tx: "concat (css1 @ css2) = (xs @ zs) @ ws" using inside_concat [OF c(4)] by simp
  have g: "guard (str_len xs \<le> str_len (xs @ zs)) = Some ()" "guard (str_len (xs @ zs) \<le> rope_len (rc_rope c)) = Some ()"
    unfolding c(1,2) rope_measures(1) [OF r] tx by simp_all
  obtain t1 t2 where t: "zs = t1 @ t2"
    "case vec_first css2 of None \<Rightarrow> t1 = []
     | Some cs \<Rightarrow> chunk_slice_range (chunk_of cs) (str_len xs - c_position (rc_chunks c))
         (min (str_len (xs @ zs)) e - c_position (rc_chunks c)) = Some (chunk_of t1)"
    "e < str_len (xs @ zs) \<longleftrightarrow> t2 \<noteq> []" "t2 = [] \<Longrightarrow> \<exists>as bs. inside css1 css2 (xs @ zs) ws as bs"
    "t2 \<noteq> [] \<Longrightarrow> css2 \<noteq> [] \<and> xs @ t1 = concat css1 @ hd css2" "valid t1" "str_len t1 \<le> 128"
    using first_part [OF c(3,4) e_def] by blast
  obtain s1 ess1 where s1: "(case map_option chunk_of (vec_first css2) of None \<Rightarrow> Some rope_new
      | Some chunk \<Rightarrow> do { sl \<leftarrow> chunk_slice_range chunk (str_len xs - c_position (rc_chunks c))
            (min (str_len (xs @ zs)) e - c_position (rc_chunks c)); push_chunk rope_new sl }) = Some s1"
    "rope_of s1 ess1" "concat ess1 = t1" "height (rope_chunks s1) \<le> 1"
    using slice_start [OF t(2,6,7) rope_of_new] by (auto simp: rope_new_def new_def)
  note start = c(2) g f(2) f(3) [folded e_def] s1(1)
  show thesis
  proof (cases "t2 = []")
    case True
    then have "rope_cursor_slice c (str_len (xs @ zs)) = Some (c\<lparr>rc_offset := str_len (xs @ zs)\<rparr>, s1)"
      using t(3) by (simp only: rope_cursor_slice_alt start bind.bind_lunit if_False simp_thms)
    moreover have "cursor_at (c\<lparr>rc_offset := str_len (xs @ zs)\<rparr>) r (xs @ zs) ws"
      using c(1,3) t(4) True by (auto simp: cursor_at_def)
    ultimately show thesis using that s1(2-4) t(1) True by (simp add: STACK_CAPACITY_def)
  next
    case False
    have "xs @ zs = (concat css1 @ hd css2) @ t2" using t(5) [OF False] t(1) by (metis append.assoc)
    then have "str_len (concat css1 @ hd css2) \<le> str_len (xs @ zs)" by simp
    from second_part [OF c(3) conjunct1 [OF t(5) [OF False]] tx this] obtain c1 dss1 dss2 as' bs' where
      n: "cursor_next usize_dim (rc_chunks c) = Some c1" "tree_cursor_at c1 r (css1 @ [hd css2]) (tl css2)"
      "tl css2 = dss1 @ dss2" "inside ((css1 @ [hd css2]) @ dss1) dss2 (xs @ zs) ws as' bs'"
      and sk: "seek_split chunk_ops usize_dim (\<lambda>d. passes Right (key_target (str_len (xs @ zs)) d)) (c_position c1) (cursor_rest c1) =
        (map chunk_of dss1, map chunk_of dss2, str_len (concat ((css1 @ [hd css2]) @ dss1)))"
      "mono_target chunk_ops usize_dim (\<lambda>d. passes Right (key_target (str_len (xs @ zs)) d)) (c_position c1) (cursor_rest c1)"
      "key_target (str_len (xs @ zs)) (c_position c1) \<noteq> Less" .
    have c1: "cursor_ok chunk_ops usize_dim c1" "can_seek c1" "c_tree c1 = rope_chunks r" "cursor_done c1 = map chunk_of (css1 @ [hd css2])"
      using n(2) by (simp_all add: tree_cursor_at_def)
    obtain c2 t where c2: "Cursor.slice chunk_ops usize_dim c1 (key_target (str_len (xs @ zs))) Right = Some (c2, t)" "wf_tree chunk_ops t"
      "tree_items t = map chunk_of dss1" "cursor_ok chunk_ops usize_dim c2" "can_seek c2" "c_did_seek c2" "c_tree c2 = rope_chunks r"
      "cursor_done c2 = cursor_done c1 @ map chunk_of dss1" "cursor_rest c2 = map chunk_of dss2"
      using usize_laws.slice_correct [OF c1(1,2) sk(3,2,1)] c1(3) by auto
    have ht: "height t \<le> 12" using usize_laws.slice_height [OF c1(1,2) sk(2) c2(1)] c1(3) assms(2) by (auto split: if_splits)
    have css2: "css2 = hd css2 # dss1 @ dss2" using t(5) [OF False] n(3) by (metis list.collapse)
    have r': "rope_of r ((css1 @ [hd css2]) @ dss1 @ dss2)" using r css2 by (metis append.assoc append_Cons append_Nil)
    have part: "rope_of \<lparr>rope_chunks = t\<rparr> dss1" by (rule rope_of_part [OF r' c2(2,3)])
    have at2: "tree_cursor_at c2 r ((css1 @ [hd css2]) @ dss1) dss2"
      using c2(4-9) c1(4) r' by (simp add: tree_cursor_at_def)
    obtain s2 ess2 where s2: "rope_append s1 \<lparr>rope_chunks = t\<rparr> = Some s2" "rope_of s2 ess2" "concat ess2 = t1 @ concat dss1"
      "height (rope_chunks s2) \<le> 13"
      using rope_append_of [OF s1(2) part] ht s1(3,4) by (auto simp: STACK_CAPACITY_def)
    obtain s3 ess3 where s3: "(case map_option chunk_of (vec_first dss2) of None \<Rightarrow> Some s2
        | Some chunk \<Rightarrow> do { sl \<leftarrow> chunk_slice_range chunk 0 (str_len (xs @ zs) - c_position c2); push_chunk s2 sl }) = Some s3"
      "rope_of s3 ess3" "concat ess3 = concat ess2 @ as'" "height (rope_chunks s3) \<le> 14"
      using slice_start [OF last_part [OF at2 n(4)] s2(2)] s2(4) by auto
    have "rope_cursor_slice c (str_len (xs @ zs)) = Some (c\<lparr>rc_chunks := c2, rc_offset := str_len (xs @ zs)\<rparr>, s3)"
      using False t(3)
      by (simp only: rope_cursor_slice_alt start bind.bind_lunit if_True simp_thms n(1) c2(1) s2(1)
          tree_cursor_at_facts(2) [OF at2] s3(1) prod.case)
    moreover have "cursor_at (c\<lparr>rc_chunks := c2, rc_offset := str_len (xs @ zs)\<rparr>) r (xs @ zs) ws"
      using c(1) at2 n(4) by (auto simp: cursor_at_def)
    moreover have "zs = t1 @ concat dss1 @ as'"
    proof -
      have "xs @ zs = (concat css1 @ hd css2) @ concat dss1 @ as'" using n(4) by (simp add: inside_def)
      then show ?thesis using t(5) [OF False] by (metis append.assoc same_append_eq)
    qed
    ultimately show thesis using that s3(2-4) s2(3) by (simp add: STACK_CAPACITY_def)
  qed
qed

subsection \<open>Summaries\<close>

lemma cursor_summary_at:
  assumes "dim_laws chunk_ops D" and "dim_laws chunk_ops Out"
    and "cursor_ok chunk_ops D c" "can_seek c" "tgt (c_position c) \<noteq> Less"
    and "mono_target chunk_ops D (\<lambda>d. passes bias (tgt d)) (c_position c) (cursor_rest c)"
    and "seek_split chunk_ops D (\<lambda>d. passes bias (tgt d)) (c_position c) (cursor_rest c) = (a, b, p)"
  obtains c' where "cursor_summary D Out c tgt bias = Some (c', pos_after chunk_ops Out (d_zero Out) a)"
    "cursor_ok chunk_ops D c'" "can_seek c'" "c_did_seek c'" "c_tree c' = c_tree c" "cursor_done c' = cursor_done c @ a"
    "cursor_rest c' = b"
proof -
  note S = seek_cursor.intro [OF dim_laws.summary_agg_laws [OF assms(2)] assms(1)]
  show thesis
    using seek_cursor.seek_internal_correct [OF S assms(3,4) _ assms(5-7), of "d_zero Out" "[]"] that
    by (auto simp: cursor_summary_def)
qed

lemma rope_cursor_summary_alt:
  "rope_cursor_summary D self end_offset = do {
     guard (rc_offset self \<le> end_offset);
     guard (end_offset \<le> rope_len (rc_rope self));
     it \<leftarrow> cursor_item (rc_chunks self);
     end_pos \<leftarrow> cursor_end usize_dim (rc_chunks self);
     s \<leftarrow> (case it of None \<Rightarrow> Some (d_zero (td_dim D))
       | Some chunk \<Rightarrow> do { sl \<leftarrow> chunk_slice_range chunk (rc_offset self - c_position (rc_chunks self))
           (min end_offset end_pos - c_position (rc_chunks self));
           Some (td_add_assign D (d_zero (td_dim D)) (td_from_chunk D sl)) });
     (if end_pos < end_offset then do {
        c \<leftarrow> cursor_next usize_dim (rc_chunks self);
        (c, t) \<leftarrow> cursor_summary usize_dim (td_dim D) c (key_target end_offset) Right;
        it \<leftarrow> cursor_item c;
        s \<leftarrow> (case it of None \<Rightarrow> Some (td_add_assign D s t)
          | Some chunk \<Rightarrow> do { sl \<leftarrow> chunk_slice_range chunk 0 (end_offset - c_position c);
              Some (td_add_assign D (td_add_assign D s t) (td_from_chunk D sl)) });
        Some (self\<lparr>rc_chunks := c, rc_offset := end_offset\<rparr>, s)
      } else Some (self\<lparr>rc_offset := end_offset\<rparr>, s))
   }"
  unfolding rope_cursor_summary_def Let_def by (rule refl)

context text_measure
begin

lemma summary_step_of:
  assumes "case vec_first css2 of None \<Rightarrow> t1 = []
     | Some cs \<Rightarrow> chunk_slice_range (chunk_of cs) i j = Some (chunk_of t1)" and "str_len t1 \<le> 128"
  shows "(case map_option chunk_of (vec_first css2) of None \<Rightarrow> Some (m xs)
      | Some chunk \<Rightarrow> do { sl \<leftarrow> chunk_slice_range chunk i j; Some (td_add_assign D (m xs) (td_from_chunk D sl)) }) =
    Some (m (xs @ t1))"
  using assms from_chunk [OF assms(2)] add_assign [of xs t1] by (cases "vec_first css2") simp_all

lemma rope_cursor_summary_at:
  assumes "cursor_at c r xs (zs @ ws)"
  shows "\<exists>c'. rope_cursor_summary D c (str_len (xs @ zs)) = Some (c', m zs) \<and> cursor_at c' r (xs @ zs) ws"
proof -
  obtain css1 css2 as bs where c: "rc_rope c = r" "rc_offset c = str_len xs" "tree_cursor_at (rc_chunks c) r css1 css2"
    "inside css1 css2 xs (zs @ ws) as bs"
    using assms by (auto simp: cursor_at_def)
  note f = tree_cursor_at_facts [OF c(3)]
  define e where "e = str_len (concat css1 @ (if css2 = [] then [] else hd css2))"
  have r: "rope_of r (css1 @ css2)" using c(3) by (simp add: tree_cursor_at_def)
  have tx: "concat (css1 @ css2) = (xs @ zs) @ ws" using inside_concat [OF c(4)] by simp
  have g: "guard (str_len xs \<le> str_len (xs @ zs)) = Some ()" "guard (str_len (xs @ zs) \<le> rope_len (rc_rope c)) = Some ()"
    unfolding c(1,2) rope_measures(1) [OF r] tx by simp_all
  obtain t1 t2 where t: "zs = t1 @ t2"
    "case vec_first css2 of None \<Rightarrow> t1 = []
     | Some cs \<Rightarrow> chunk_slice_range (chunk_of cs) (str_len xs - c_position (rc_chunks c))
         (min (str_len (xs @ zs)) e - c_position (rc_chunks c)) = Some (chunk_of t1)"
    "e < str_len (xs @ zs) \<longleftrightarrow> t2 \<noteq> []" "t2 = [] \<Longrightarrow> \<exists>as bs. inside css1 css2 (xs @ zs) ws as bs"
    "t2 \<noteq> [] \<Longrightarrow> css2 \<noteq> [] \<and> xs @ t1 = concat css1 @ hd css2" "valid t1" "str_len t1 \<le> 128"
    using first_part [OF c(3,4) e_def] by blast
  note start = c(2) g f(2) f(3) [folded e_def] zero summary_step_of [OF t(2,7), of "[]", unfolded append_Nil]
  show ?thesis
  proof (cases "t2 = []")
    case True
    then have "rope_cursor_summary D c (str_len (xs @ zs)) = Some (c\<lparr>rc_offset := str_len (xs @ zs)\<rparr>, m t1)"
      using t(3) by (simp only: rope_cursor_summary_alt start bind.bind_lunit if_False simp_thms)
    moreover have "cursor_at (c\<lparr>rc_offset := str_len (xs @ zs)\<rparr>) r (xs @ zs) ws"
      using c(1,3) t(4) True by (auto simp: cursor_at_def)
    ultimately show ?thesis using t(1) True by simp
  next
    case False
    have "xs @ zs = (concat css1 @ hd css2) @ t2" using t(5) [OF False] t(1) by (metis append.assoc)
    then have "str_len (concat css1 @ hd css2) \<le> str_len (xs @ zs)" by simp
    from second_part [OF c(3) conjunct1 [OF t(5) [OF False]] tx this] obtain c1 dss1 dss2 as' bs' where
      n: "cursor_next usize_dim (rc_chunks c) = Some c1" "tree_cursor_at c1 r (css1 @ [hd css2]) (tl css2)"
      "tl css2 = dss1 @ dss2" "inside ((css1 @ [hd css2]) @ dss1) dss2 (xs @ zs) ws as' bs'"
      and sk: "seek_split chunk_ops usize_dim (\<lambda>d. passes Right (key_target (str_len (xs @ zs)) d)) (c_position c1) (cursor_rest c1) =
        (map chunk_of dss1, map chunk_of dss2, str_len (concat ((css1 @ [hd css2]) @ dss1)))"
      "mono_target chunk_ops usize_dim (\<lambda>d. passes Right (key_target (str_len (xs @ zs)) d)) (c_position c1) (cursor_rest c1)"
      "key_target (str_len (xs @ zs)) (c_position c1) \<noteq> Less" .
    have c1: "cursor_ok chunk_ops usize_dim c1" "can_seek c1" "c_tree c1 = rope_chunks r" "cursor_done c1 = map chunk_of (css1 @ [hd css2])"
      using n(2) by (simp_all add: tree_cursor_at_def)
    obtain c2 where c2: "cursor_summary usize_dim (td_dim D) c1 (key_target (str_len (xs @ zs))) Right =
        Some (c2, pos_after chunk_ops (td_dim D) (d_zero (td_dim D)) (map chunk_of dss1))"
      "cursor_ok chunk_ops usize_dim c2" "can_seek c2" "c_did_seek c2" "c_tree c2 = c_tree c1"
      "cursor_done c2 = cursor_done c1 @ map chunk_of dss1" "cursor_rest c2 = map chunk_of dss2"
      by (rule cursor_summary_at [OF usize_laws.dim_laws_axioms laws c1(1,2) sk(3,2,1)])
    have css2: "css2 = hd css2 # dss1 @ dss2" using t(5) [OF False] n(3) by (metis list.collapse)
    have r': "rope_of r ((css1 @ [hd css2]) @ dss1 @ dss2)" using r css2 by (metis append.assoc append_Cons append_Nil)
    have at2: "tree_cursor_at c2 r ((css1 @ [hd css2]) @ dss1) dss2"
      using c2(2-7) c1(3,4) r' by (simp add: tree_cursor_at_def)
    have "\<forall>cs\<in>set dss1. str_len cs \<le> 128" using rope_chunk_lens [OF r'] by simp
    from pos_after_text [OF this, of "[]"] have s2: "pos_after chunk_ops (td_dim D) (m []) (map chunk_of dss1) = m (concat dss1)" by simp
    note last = last_part [OF at2 n(4)]
    have "rope_cursor_summary D c (str_len (xs @ zs)) =
        Some (c\<lparr>rc_chunks := c2, rc_offset := str_len (xs @ zs)\<rparr>, m ((t1 @ concat dss1) @ as'))"
      using False t(3)
      by (simp only: rope_cursor_summary_alt start bind.bind_lunit if_True simp_thms n(1) c2(1) s2 add_assign
          tree_cursor_at_facts(2) [OF at2] summary_step_of [OF last(1,3)] prod.case)
    moreover have "cursor_at (c\<lparr>rc_chunks := c2, rc_offset := str_len (xs @ zs)\<rparr>) r (xs @ zs) ws"
      using c(1) at2 n(4) by (auto simp: cursor_at_def)
    moreover have "zs = (t1 @ concat dss1) @ as'"
    proof -
      have "xs @ zs = (concat css1 @ hd css2) @ concat dss1 @ as'" using n(4) by (simp add: inside_def)
      then show ?thesis using t(5) [OF False] by (metis append.assoc same_append_eq)
    qed
    ultimately show ?thesis by blast
  qed
qed

end

subsection \<open>Replacing a range\<close>

lemma rope_cursor_suffix_at:
  assumes "cursor_at c r xs zs" and "height (rope_chunks r) \<le> 6"
  obtains s ess where "rope_cursor_suffix c = Some s" "rope_of s ess" "concat ess = zs" "height (rope_chunks s) < STACK_CAPACITY"
proof -
  have "cursor_at c r xs (zs @ [])" using assms(1) by simp
  from rope_cursor_slice_at [OF this assms(2)] obtain c' s ess where
    s: "rope_cursor_slice c (str_len (xs @ zs)) = Some (c', s)" "rope_of s ess" "concat ess = zs"
      "height (rope_chunks s) < STACK_CAPACITY" by blast
  obtain css1 css2 as bs where c: "rc_rope c = r" "tree_cursor_at (rc_chunks c) r css1 css2" "inside css1 css2 xs zs as bs"
    using assms(1) by (auto simp: cursor_at_def)
  have "rope_of r (css1 @ css2)" using c(2) by (simp add: tree_cursor_at_def)
  from rope_measures(1) [OF this] have "extent usize_dim (rope_chunks (rc_rope c)) = str_len (xs @ zs)"
    using inside_concat [OF c(3)] c(1) by (metis rope_len_def)
  then show thesis using s that by (simp add: rope_cursor_suffix_def)
qed

lemma rope_cursor_zero:
  assumes "rope_text r cs" and "height (rope_chunks r) \<le> 6"
  obtains c where "rope_cursor_new r 0 = Some c" "cursor_at c r [] cs"
proof -
  obtain css where r: "rope_of r css" "concat css = [] @ cs" using assms(1) by (auto simp: rope_text_def)
  then show thesis using rope_cursor_new_at [OF r(1) _ r(2)] assms(2) that by (auto simp: STACK_CAPACITY_def)
qed

lemma rope_slice_of:
  assumes "rope_text r (xs @ ys @ zs)" and "height (rope_chunks r) \<le> 6"
  shows "\<exists>s. rope_slice r (str_len xs) (str_len (xs @ ys)) = Some s \<and> rope_text s ys"
proof -
  obtain c where c: "rope_cursor_new r 0 = Some c" "cursor_at c r [] (xs @ ys @ zs)" by (rule rope_cursor_zero [OF assms])
  obtain c1 where c1: "rope_seek_forward c (str_len xs) = Some c1" "cursor_at c1 r xs (ys @ zs)"
    using rope_seek_forward_at [OF c(2)] by auto
  obtain c2 s ess where "rope_cursor_slice c1 (str_len (xs @ ys)) = Some (c2, s)" "rope_of s ess" "concat ess = ys"
    using rope_cursor_slice_at [OF c1(2) assms(2)] by blast
  then show ?thesis using c(1) c1(1) by (auto simp: rope_slice_def intro: rope_textI)
qed

lemma rope_replace_of:
  assumes "rope_text r (xs @ ys @ zs)" and "height (rope_chunks r) \<le> 6" and "valid t" and "str_len t < 2 ^ 63"
  shows "\<exists>s. rope_replace r (str_len xs) (str_len (xs @ ys)) (utf8 t) = Some s \<and> rope_text s (xs @ t @ zs)"
proof -
  obtain c where c: "rope_cursor_new r 0 = Some c" "cursor_at c r [] (xs @ ys @ zs)" by (rule rope_cursor_zero [OF assms(1,2)])
  obtain c1 s1 ess where s1: "rope_cursor_slice c (str_len xs) = Some (c1, s1)" "cursor_at c1 r xs (ys @ zs)" "rope_of s1 ess"
    "concat ess = xs" "height (rope_chunks s1) < STACK_CAPACITY"
    using rope_cursor_slice_at [OF c(2) assms(2)] by auto
  obtain s2 ess2 where s2: "rope_append rope_new s1 = Some s2" "rope_of s2 ess2" "concat ess2 = xs"
    using rope_append_of [OF rope_of_new s1(3,5)] s1(4) by auto
  obtain c2 where c2: "rope_seek_forward c1 (str_len (xs @ ys)) = Some c2" "cursor_at c2 r (xs @ ys) zs"
    using rope_seek_forward_at [OF s1(2)] by auto
  obtain s3 ess3 where s3: "rope_push s2 (utf8 t) = Some s3" "rope_of s3 ess3" "concat ess3 = xs @ t"
    using rope_push_of [OF s2(2) assms(3,4)] s2(3) by auto
  obtain s4 ess4 where s4: "rope_cursor_suffix c2 = Some s4" "rope_of s4 ess4" "concat ess4 = zs" "height (rope_chunks s4) < STACK_CAPACITY"
    by (rule rope_cursor_suffix_at [OF c2(2) assms(2)])
  obtain s5 ess5 where "rope_append s3 s4 = Some s5" "rope_of s5 ess5" "concat ess5 = (xs @ t) @ zs"
    using rope_append_of [OF s3(2) s4(2,4)] s3(3) s4(3) by auto
  then show ?thesis using c(1) s1(1) s2(1) c2(1) s3(1) s4(1) by (auto simp: rope_replace_def intro!: rope_textI)
qed

text \<open>C30. Ranges of a rope: for offsets of character boundaries, \<open>slice\<close> has the text of the range,
  \<open>replace\<close> has the new text in its place, neither panics, and \<open>Cursor::summary\<close> between the two offsets
  is what the dimension measures of the text of the range, for offsets, UTF-16 offsets, points, UTF-16
  points and whole summaries. (Slices are divided off a tree of height at most six, which holds up
  to \<open>12 ^ 7\<close> chunks; the proved bound on the height of a slice of a higher one exceeds the stack of the
  cursor \<open>append\<close> uses.)\<close>

theorem rope_ranges:
  assumes "rope_text r (xs @ ys @ zs)" and "height (rope_chunks r) \<le> 6" and "valid t" and "str_len t < 2 ^ 63"
  shows "(\<exists>s. rope_slice r (str_len xs) (str_len (xs @ ys)) = Some s \<and> rope_text s ys) \<and>
    (\<exists>s. rope_replace r (str_len xs) (str_len (xs @ ys)) (utf8 t) = Some s \<and> rope_text s (xs @ t @ zs)) \<and>
    (\<exists>c. rope_cursor_new r (str_len xs) = Some c \<and>
      map_option snd (rope_cursor_summary usize_td c (str_len (xs @ ys))) = Some (str_len ys) \<and>
      map_option snd (rope_cursor_summary offset_utf16_td c (str_len (xs @ ys))) = Some (OffsetUtf16 (utf16_len ys)) \<and>
      map_option snd (rope_cursor_summary point_td c (str_len (xs @ ys))) = Some (ts_lines (ts_from ys :: (nat, nat) text_summary)) \<and>
      map_option snd (rope_cursor_summary point_utf16_td c (str_len (xs @ ys))) = Some (lines_utf16 (ts_from ys :: (nat, nat) text_summary)) \<and>
      map_option snd (rope_cursor_summary text_summary_td c (str_len (xs @ ys))) = Some (ts_from ys))"
proof -
  obtain css where r: "rope_of r css" "concat css = xs @ ys @ zs" using assms(1) by (auto simp: rope_text_def)
  obtain c where c: "rope_cursor_new r (str_len xs) = Some c" "cursor_at c r xs (ys @ zs)"
    using rope_cursor_new_at [OF r(1) _ r(2)] assms(2) by (auto simp: STACK_CAPACITY_def)
  have "map_option snd (rope_cursor_summary usize_td c (str_len (xs @ ys))) = Some (str_len ys)"
    using usize_pos.rope_cursor_summary_at [OF c(2)] by auto
  moreover have "map_option snd (rope_cursor_summary offset_utf16_td c (str_len (xs @ ys))) = Some (OffsetUtf16 (utf16_len ys))"
    using offset_utf16_pos.rope_cursor_summary_at [OF c(2)] by auto
  moreover have "map_option snd (rope_cursor_summary point_td c (str_len (xs @ ys))) = Some (ts_lines (ts_from ys :: (nat, nat) text_summary))"
    using point_pos.rope_cursor_summary_at [OF c(2)] by (auto simp: ts_from_scan)
  moreover have "map_option snd (rope_cursor_summary point_utf16_td c (str_len (xs @ ys))) = Some (lines_utf16 (ts_from ys :: (nat, nat) text_summary))"
    using point_utf16_pos.rope_cursor_summary_at [OF c(2)] by (auto simp: ts_from_scan lines_utf16_def)
  moreover have "map_option snd (rope_cursor_summary text_summary_td c (str_len (xs @ ys))) = Some (ts_from ys)"
    using summary_measure.rope_cursor_summary_at [OF c(2)] by auto
  ultimately show ?thesis using c(1) rope_slice_of [OF assms(1,2)] rope_replace_of [OF assms] by blast
qed

lemma rope_ranges_witness:
  "\<exists>r s. push_chunk rope_new (chunk_of [97, 233, 10]) = Some r \<and> rope_replace r 1 3 (utf8 [98, 98]) = Some s \<and>
     rope_text s [97, 98, 98, 10]"
proof -
  have t: "valid [97, 233, 10]" "str_len [97, 233, 10] \<le> 128" by (simp_all add: scalar_value_def len_utf8_def)
  obtain r css where r: "push_chunk rope_new (chunk_of [97, 233, 10]) = Some r" "rope_of r css" "concat css = [97, 233, 10]"
    "height (rope_chunks r) \<le> 1"
    using push_chunk_of [OF rope_of_new t] by (auto simp: rope_new_def new_def)
  have "rope_text r ([97] @ [233] @ [10])" by (rule rope_textI [OF r(2)]) (simp add: r(3))
  moreover have "height (rope_chunks r) \<le> 6" using r(4) by simp
  moreover have "valid [98, 98]" "str_len [98, 98] < 2 ^ 63" by (simp_all add: scalar_value_def len_utf8_def)
  ultimately have "\<exists>s. rope_replace r (str_len [97]) (str_len ([97] @ [233])) (utf8 [98, 98]) = Some s \<and>
      rope_text s ([97] @ [98, 98] @ [10])"
    using rope_ranges [of r "[97]" "[233]" "[10]" "[98, 98]"] by blast
  moreover have "str_len [97] = 1" "str_len ([97] @ [233]) = 3" by (simp_all add: len_utf8_def)
  ultimately show ?thesis using r(1) by (simp only: append_Cons append_Nil) blast
qed

end
