(* ===== verification/RopePosition.thy ===== *)
theory RopePosition
  imports RopeCursor
begin

text \<open>
  Positions in a rope (\<open>crates/rope/src/rope.rs\<close>): the conversions at the end of every prefix of the text,
  and what clipping does to a position anywhere.
\<close>

subsection \<open>Where a position is found\<close>

context text_position
begin

lemma prefix_order:
  assumes "a @ b = c @ d" and "m a \<le> m c"
  obtains e where "c = a @ e" "b = e @ d"
proof -
  obtain e where "a = c @ e \<and> e @ b = d \<or> a @ e = c \<and> b = e @ d" using assms(1) append_eq_append_conv2 by blast
  then show thesis
  proof (elim disjE conjE)
    assume "a = c @ e" "e @ b = d"
    then show thesis using that [of "[]"] assms(2) prefix_le_iff [of c e] by simp
  next
    assume "a @ e = c" "b = e @ d"
    then show thesis using that [of e] by simp
  qed
qed

lemma found_split:
  assumes "rope_of r css" and "tracks DD n m tgt t" and "css \<noteq> []" and "\<not> passes bias (cmp t (m (concat css)))"
  obtains css1 cs css2 where "css = css1 @ cs # css2"
    "seek_split chunk_ops (td_dim DD) (\<lambda>d. passes bias (tgt d)) (d_zero (td_dim DD)) (tree_items (rope_chunks r)) =
       (map chunk_of css1, chunk_of cs # map chunk_of css2, n (concat css1))"
    "css1 \<noteq> [] \<Longrightarrow> passes bias (cmp t (m (concat css1)))" "\<not> passes bias (cmp t (m (concat css1 @ cs)))"
    "mono_target chunk_ops (td_dim DD) (\<lambda>d. passes bias (tgt d)) (d_zero (td_dim DD)) (tree_items (rope_chunks r))"
proof -
  have n: "text_measure DD n" using assms(2) by (simp add: tracks_def)
  have z: "d_zero (td_dim DD) = n []" by (rule text_measure.zero [OF n])
  have l: "\<forall>cs\<in>set css. str_len cs \<le> 128" using assms(1) by (auto simp: rope_of_def chunk_text_def)
  have r: "tree_items (rope_chunks r) = map chunk_of css" using assms(1) by (simp add: rope_of_def)
  obtain css1 css2' where s: "css = css1 @ css2'"
    "seek_split chunk_ops (td_dim DD) (\<lambda>d. passes bias (tgt d)) (n []) (map chunk_of css) =
       (map chunk_of css1, map chunk_of css2', n (concat css1))"
    "css1 \<noteq> [] \<Longrightarrow> passes bias (cmp t (m (concat css1)))"
    "css2' \<noteq> [] \<Longrightarrow> \<not> passes bias (cmp t (m (concat css1 @ hd css2')))"
    using seek_text [OF assms(2) l, of bias "[]"] by auto
  have "css2' \<noteq> []" using s(1,3) assms(3,4) by auto
  then obtain cs css2 where c: "css2' = cs # css2" by (cases css2') auto
  show thesis
    by (rule that [of css1 cs css2]) (use s c z r mono_text [OF assms(2) l, of bias "[]"] in simp_all)
qed

lemma find_text:
  assumes "rope_of r css" and "tracks DD n m tgt t" and "css \<noteq> []" and "\<not> passes bias (cmp t (m (concat css)))"
  obtains css1 cs css2 where "css = css1 @ cs # css2"
    "find (td_dim DD) (rope_chunks r) tgt bias = (n (concat css1), n (concat css1 @ cs), Some (chunk_of cs))"
    "css1 \<noteq> [] \<Longrightarrow> passes bias (cmp t (m (concat css1)))" "\<not> passes bias (cmp t (m (concat css1 @ cs)))"
    "height (rope_chunks r) < STACK_CAPACITY \<Longrightarrow> tgt (n []) \<noteq> Less \<Longrightarrow>
       \<exists>c f. seek (td_dim DD) (cursor_new (td_dim DD) (rope_chunks r)) tgt bias = Some (c, f) \<and>
         c_position c = n (concat css1) \<and> cursor_item c = Some (Some (chunk_of cs))"
proof (rule found_split [OF assms])
  fix css1 cs css2
  assume s: "css = css1 @ cs # css2"
    "seek_split chunk_ops (td_dim DD) (\<lambda>d. passes bias (tgt d)) (d_zero (td_dim DD)) (tree_items (rope_chunks r)) =
       (map chunk_of css1, chunk_of cs # map chunk_of css2, n (concat css1))"
    "css1 \<noteq> [] \<Longrightarrow> passes bias (cmp t (m (concat css1)))" "\<not> passes bias (cmp t (m (concat css1 @ cs)))"
    "mono_target chunk_ops (td_dim DD) (\<lambda>d. passes bias (tgt d)) (d_zero (td_dim DD)) (tree_items (rope_chunks r))"
  have n: "text_measure DD n" using assms(2) by (simp add: tracks_def)
  have r: "wf_tree chunk_ops (rope_chunks r)" using assms(1) by (simp add: rope_of_def)
  have "str_len cs \<le> 128" using assms(1) s(1) by (simp add: rope_of_def chunk_text_def)
  then have e: "d_add (td_dim DD) (n (concat css1)) (item_summary chunk_ops (chunk_of cs)) = n (concat css1 @ cs)"
    using text_measure.add_text [OF n chunk_summary_of] by blast
  have "find (td_dim DD) (rope_chunks r) tgt bias = (n (concat css1), n (concat css1 @ cs), Some (chunk_of cs))"
    using zero_dim_laws.find_correct [OF text_measure.zero_laws [OF n] r s(5)] s(2) e by simp
  moreover have "\<exists>c f. seek (td_dim DD) (cursor_new (td_dim DD) (rope_chunks r)) tgt bias = Some (c, f) \<and>
      c_position c = n (concat css1) \<and> cursor_item c = Some (Some (chunk_of cs))"
    if h: "height (rope_chunks r) < STACK_CAPACITY" and t: "tgt (n []) \<noteq> Less"
  proof -
    have t': "tgt (d_zero (td_dim DD)) \<noteq> Less" using t text_measure.zero [OF n] by simp
    have c0: "c_tree (cursor_new (td_dim DD) (rope_chunks r)) = rope_chunks r" by (simp add: cursor_new_def)
    show ?thesis
      using dim_laws.seek_correct [OF text_measure.laws [OF n] r h c0 t' s(5,2)] cursor_item_ok(1) by fastforce
  qed
  ultimately show thesis using that s(1,3,4) by blast
qed

lemma find_beyond:
  assumes "rope_of r css" and "tracks DD n m tgt t" and "passes bias (cmp t (m (concat css)))"
  shows "find (td_dim DD) (rope_chunks r) tgt bias = (n (concat css), n (concat css), None)"
proof -
  have n: "text_measure DD n" using assms(2) by (simp add: tracks_def)
  have z: "d_zero (td_dim DD) = n []" by (rule text_measure.zero [OF n])
  have l: "\<forall>cs\<in>set css. str_len cs \<le> 128" using assms(1) by (auto simp: rope_of_def chunk_text_def)
  have r: "wf_tree chunk_ops (rope_chunks r)" "tree_items (rope_chunks r) = map chunk_of css" using assms(1) by (simp_all add: rope_of_def)
  obtain css1 css2 where s: "css = css1 @ css2"
    "seek_split chunk_ops (td_dim DD) (\<lambda>d. passes bias (tgt d)) (n []) (map chunk_of css) =
       (map chunk_of css1, map chunk_of css2, n (concat css1))"
    "css1 \<noteq> [] \<Longrightarrow> passes bias (cmp t (m (concat css1)))"
    "css2 \<noteq> [] \<Longrightarrow> \<not> passes bias (cmp t (m (concat css1 @ hd css2)))"
    using seek_text [OF assms(2) l, of bias "[]"] by auto
  have "css2 = []"
  proof (rule ccontr)
    assume ne: "css2 \<noteq> []"
    then have "concat css = (concat css1 @ hd css2) @ concat (tl css2)" using s(1) by (cases css2) simp_all
    then have "m (concat css1 @ hd css2) \<le> m (concat css)" using le by metis
    then show False using passes_cmp_mono [OF assms(3)] s(4) [OF ne] by blast
  qed
  have mo: "mono_target chunk_ops (td_dim DD) (\<lambda>d. passes bias (tgt d)) (d_zero (td_dim DD)) (tree_items (rope_chunks r))"
    unfolding z r(2) by (rule mono_text [OF assms(2) l])
  show ?thesis
    using zero_dim_laws.find_correct [OF text_measure.zero_laws [OF n] r(1) mo] s(1,2) \<open>css2 = []\<close> z r(2) by simp
qed

text \<open>The end of a prefix of the text is found in the chunk that holds the end of the prefix.\<close>

lemma prefix_found:
  assumes "rope_of r css" and "concat css = xs @ ys" and "ys \<noteq> []" and "text_measure E n"
  obtains ps as bs where "xs = ps @ as" "chunk_text (as @ bs)"
    "found_at r (td_dim D) (td_dim E) (m xs) = ((m ps, n ps), Some (chunk_of (as @ bs)))"
    "height (rope_chunks r) < STACK_CAPACITY \<Longrightarrow>
      sought_at r (td_dim D) (td_dim E) (m xs) = Some ((m ps, n ps), Some (chunk_of (as @ bs)))"
proof -
  let ?DD = "dimensions2_td D E" and ?tgt = "target_fst (key_target (m xs))"
  note t = tracks_pair [OF assms(4), of "m xs"]
  have ne: "css \<noteq> []" using assms(2,3) by auto
  have np: "\<not> passes Left (cmp (m xs) (m (concat css)))" using le [of xs ys] assms(2) by (simp add: passes_cmp)
  show thesis
  proof (rule find_text [OF assms(1) t ne np])
    fix css1 cs css2
    assume s: "css = css1 @ cs # css2"
      "find (td_dim ?DD) (rope_chunks r) ?tgt Left = ((m (concat css1), n (concat css1)), (m (concat css1 @ cs), n (concat css1 @ cs)), Some (chunk_of cs))"
      "css1 \<noteq> [] \<Longrightarrow> passes Left (cmp (m xs) (m (concat css1)))" "\<not> passes Left (cmp (m xs) (m (concat css1 @ cs)))"
      "height (rope_chunks r) < STACK_CAPACITY \<Longrightarrow> ?tgt (m [], n []) \<noteq> Less \<Longrightarrow>
         \<exists>c f. seek (td_dim ?DD) (cursor_new (td_dim ?DD) (rope_chunks r)) ?tgt Left = Some (c, f) \<and>
           c_position c = (m (concat css1), n (concat css1)) \<and> cursor_item c = Some (Some (chunk_of cs))"
    have "m (concat css1) \<le> m xs" using s(3) le [of "[]" xs] by (cases "css1 = []") (auto simp: passes_cmp)
    moreover have "concat css1 @ (cs @ concat css2) = xs @ ys" using assms(2) s(1) by simp
    ultimately obtain as where as: "xs = concat css1 @ as" "cs @ concat css2 = as @ ys" using prefix_order by blast
    have "m xs \<le> m (concat css1 @ cs)" using s(4) by (simp add: passes_cmp)
    moreover have "xs @ ys = (concat css1 @ cs) @ concat css2" using as by simp
    ultimately obtain bs where "concat css1 @ cs = xs @ bs" using prefix_order by blast
    then have bs: "cs = as @ bs" using as(1) by simp
    have dd: "td_dim ?DD = dimensions2 (td_dim D) (td_dim E)" by (simp add: dimensions2_td_def)
    have "m [] \<le> m xs" using le [of "[]" xs] by simp
    then have "?tgt (m [], n []) \<noteq> Less" by (auto simp: target_fst_def key_target_def cmp_def)
    then have "sought_at r (td_dim D) (td_dim E) (m xs) = Some ((m (concat css1), n (concat css1)), Some (chunk_of (as @ bs)))"
      if "height (rope_chunks r) < STACK_CAPACITY"
      using s(5) [OF that] bs unfolding sought_at_def dd by auto
    moreover have "found_at r (td_dim D) (td_dim E) (m xs) = ((m (concat css1), n (concat css1)), Some (chunk_of (as @ bs)))"
      using s(2) bs unfolding found_at_def dd by simp
    moreover have "chunk_text (as @ bs)" using assms(1) s(1) bs by (simp add: rope_of_def)
    ultimately show thesis using that as(1) by blast
  qed
qed

end

subsection \<open>Conversions\<close>

lemma td_dims [simp]: "td_dim usize_td = usize_dim" "td_dim offset_utf16_td = offset_utf16_dim" "td_dim point_td = point_dim"
  "td_dim point_utf16_td = point_utf16_dim"
  by (simp_all add: usize_td_def offset_utf16_td_def point_td_def point_utf16_td_def)

lemma summary_measures:
  assumes "rope_of r css"
  shows "ts_len (rope_summary r) = str_len (concat css)" "ts_len_utf16 (rope_summary r) = OffsetUtf16 (utf16_len (concat css))"
    "ts_lines (rope_summary r) = ts_lines (scan (concat css))" "lines_utf16 (rope_summary r) = lines_utf16 (scan (concat css))"
  unfolding rope_measures(4) [OF assms]
  using usize_pos.from_summary [of "concat css"] offset_utf16_pos.from_summary [of "concat css"]
    point_pos.from_summary [of "concat css"] point_utf16_pos.from_summary [of "concat css"]
  by (simp_all add: usize_td_def offset_utf16_td_def point_td_def point_utf16_td_def)

lemma chunk_point_conversions:
  assumes "chunk_text (as @ bs)"
  shows "slice_point_to_offset_utf16 (chunk_of (as @ bs)) (ts_lines (scan as)) = OffsetUtf16 (utf16_len as)"
    and "slice_point_to_point_utf16 (chunk_of (as @ bs)) (ts_lines (scan as)) = lines_utf16 (scan as)"
proof -
  have l: "str_len (as @ bs) \<le> 128" using assms by (simp add: chunk_text_def)
  have "\<not> row (slice_lines (chunk_of (as @ bs))) < row (ts_lines (scan as))" using lines_of [OF l] by simp
  then show "slice_point_to_offset_utf16 (chunk_of (as @ bs)) (ts_lines (scan as)) = OffsetUtf16 (utf16_len as)"
    "slice_point_to_point_utf16 (chunk_of (as @ bs)) (ts_lines (scan as)) = lines_utf16 (scan as)"
    using point_to_offset_of [OF l] offset_to_offset_utf16_of [OF l] offset_to_point_utf16_of [OF l]
    by (simp_all add: Let_def slice_point_to_offset_utf16_def slice_point_to_point_utf16_def del: scan_rows)
qed

lemma chunk_conversions:
  assumes "chunk_text (as @ bs)"
  shows "slice_offset_to_point (chunk_of (as @ bs)) (str_len as) = ts_lines (scan as)"
    "slice_offset_to_offset_utf16 (chunk_of (as @ bs)) (str_len as) = OffsetUtf16 (utf16_len as)"
    "slice_offset_to_point_utf16 (chunk_of (as @ bs)) (str_len as) = lines_utf16 (scan as)"
    "slice_offset_utf16_to_offset (chunk_of (as @ bs)) (OffsetUtf16 (utf16_len as)) = str_len as"
    "slice_point_to_offset (chunk_of (as @ bs)) (ts_lines (scan as)) = str_len as"
    "slice_point_utf16_to_offset (chunk_of (as @ bs)) (lines_utf16 (scan as)) clip = Some (str_len as)"
    "slice_unclipped_point_utf16_to_point (chunk_of (as @ bs)) (lines_utf16 (scan as)) = Some (ts_lines (scan as))"
  using assms offset_to_point_of offset_to_offset_utf16_of offset_to_point_utf16_of offset_utf16_to_offset_of point_to_offset_of
    point_utf16_to_offset_of
  by (simp_all add: chunk_text_def)

lemmas position_arithmetic = usize_pos.minus offset_utf16_pos.minus point_pos.minus point_utf16_pos.minus
  usize_pos.plus offset_utf16_pos.plus point_pos.plus point_utf16_pos.plus
  usize_pos.prefix_le_iff offset_utf16_pos.prefix_le_iff point_pos.prefix_le_iff point_utf16_pos.prefix_le_iff

lemmas conversion_simps = position_arithmetic chunk_conversions chunk_point_conversions as_slice_def td_dims Let_def
  prod.case fst_conv snd_conv option.case if_False simp_thms bind.bind_lunit unclipped.sel

lemma rope_offset_to_at:
  assumes "rope_of r css" and "concat css = xs @ ys"
  shows "rope_offset_to_point r (str_len xs) = ts_lines (scan xs)"
    and "rope_offset_to_offset_utf16 r (str_len xs) = OffsetUtf16 (utf16_len xs)"
    and "rope_offset_to_point_utf16 r (str_len xs) = lines_utf16 (scan xs)"
    and "rope_offset_utf16_to_offset r (OffsetUtf16 (utf16_len xs)) = str_len xs"
proof -
  note s = summary_measures [OF assms(1), unfolded assms(2)]
  show "rope_offset_to_point r (str_len xs) = ts_lines (scan xs)"
  proof (cases "ys = []")
    case False
    show ?thesis
      by (rule usize_pos.prefix_found [OF assms(1,2) False point_pos.text_measure_axioms])
        (use False in \<open>simp only: rope_offset_to_point_def s conversion_simps\<close>)
  qed (simp add: rope_offset_to_point_def s)
  show "rope_offset_to_offset_utf16 r (str_len xs) = OffsetUtf16 (utf16_len xs)"
  proof (cases "ys = []")
    case False
    show ?thesis
      by (rule usize_pos.prefix_found [OF assms(1,2) False offset_utf16_pos.text_measure_axioms])
        (use False in \<open>simp only: rope_offset_to_offset_utf16_def s conversion_simps\<close>)
  qed (simp add: rope_offset_to_offset_utf16_def s)
  show "rope_offset_to_point_utf16 r (str_len xs) = lines_utf16 (scan xs)"
  proof (cases "ys = []")
    case False
    show ?thesis
      by (rule usize_pos.prefix_found [OF assms(1,2) False point_utf16_pos.text_measure_axioms])
        (use False in \<open>simp only: rope_offset_to_point_utf16_def s conversion_simps\<close>)
  qed (simp add: rope_offset_to_point_utf16_def s)
  show "rope_offset_utf16_to_offset r (OffsetUtf16 (utf16_len xs)) = str_len xs"
  proof (cases "ys = []")
    case False
    show ?thesis
      by (rule offset_utf16_pos.prefix_found [OF assms(1,2) False usize_pos.text_measure_axioms])
        (use False in \<open>simp only: rope_offset_utf16_to_offset_def s conversion_simps\<close>)
  qed (simp add: rope_offset_utf16_to_offset_def s)
qed

lemma rope_point_to_at:
  assumes "rope_of r css" and "concat css = xs @ ys" and "height (rope_chunks r) < STACK_CAPACITY"
  shows "rope_point_to_offset r (ts_lines (scan xs)) = str_len xs"
    and "rope_point_to_offset_utf16 r (ts_lines (scan xs)) = Some (OffsetUtf16 (utf16_len xs))"
    and "rope_point_to_point_utf16 r (ts_lines (scan xs)) = lines_utf16 (scan xs)"
proof -
  note s = summary_measures [OF assms(1), unfolded assms(2)]
  show "rope_point_to_offset r (ts_lines (scan xs)) = str_len xs"
  proof (cases "ys = []")
    case False
    show ?thesis
      by (rule point_pos.prefix_found [OF assms(1,2) False usize_pos.text_measure_axioms])
        (use False in \<open>simp only: rope_point_to_offset_def s conversion_simps\<close>)
  qed (simp add: rope_point_to_offset_def s)
  show "rope_point_to_offset_utf16 r (ts_lines (scan xs)) = Some (OffsetUtf16 (utf16_len xs))"
  proof (cases "ys = []")
    case False
    show ?thesis
      by (rule point_pos.prefix_found [OF assms(1,2) False offset_utf16_pos.text_measure_axioms])
        (use False assms(3) in \<open>simp only: rope_point_to_offset_utf16_def s conversion_simps\<close>)
  qed (simp add: rope_point_to_offset_utf16_def s)
  show "rope_point_to_point_utf16 r (ts_lines (scan xs)) = lines_utf16 (scan xs)"
  proof (cases "ys = []")
    case False
    show ?thesis
      by (rule point_pos.prefix_found [OF assms(1,2) False point_utf16_pos.text_measure_axioms])
        (use False in \<open>simp only: rope_point_to_point_utf16_def s conversion_simps\<close>)
  qed (simp add: rope_point_to_point_utf16_def s)
qed

lemma rope_point_utf16_to_at:
  assumes "rope_of r css" and "concat css = xs @ ys" and "height (rope_chunks r) < STACK_CAPACITY"
  shows "rope_point_utf16_to_offset_impl r (lines_utf16 (scan xs)) clip = Some (str_len xs)"
    and "rope_point_utf16_to_offset_utf16_impl r (lines_utf16 (scan xs)) clip = Some (OffsetUtf16 (utf16_len xs))"
    and "rope_point_utf16_to_point r (lines_utf16 (scan xs)) = Some (ts_lines (scan xs))"
    and "rope_unclipped_point_utf16_to_point r (Unclipped (lines_utf16 (scan xs))) = Some (ts_lines (scan xs))"
proof -
  note s = summary_measures [OF assms(1), unfolded assms(2)]
  show "rope_point_utf16_to_offset_impl r (lines_utf16 (scan xs)) clip = Some (str_len xs)"
  proof (cases "ys = []")
    case False
    show ?thesis
      by (rule point_utf16_pos.prefix_found [OF assms(1,2) False usize_pos.text_measure_axioms])
        (use False in \<open>simp only: rope_point_utf16_to_offset_impl_def s conversion_simps\<close>)
  qed (simp add: rope_point_utf16_to_offset_impl_def s)
  show "rope_point_utf16_to_offset_utf16_impl r (lines_utf16 (scan xs)) clip = Some (OffsetUtf16 (utf16_len xs))"
  proof (cases "ys = []")
    case False
    show ?thesis
      by (rule point_utf16_pos.prefix_found [OF assms(1,2) False offset_utf16_pos.text_measure_axioms])
        (use False assms(3) in \<open>simp only: rope_point_utf16_to_offset_utf16_impl_def s conversion_simps\<close>)
  qed (simp add: rope_point_utf16_to_offset_utf16_impl_def s)
  show "rope_point_utf16_to_point r (lines_utf16 (scan xs)) = Some (ts_lines (scan xs))"
  proof (cases "ys = []")
    case False
    show ?thesis
      by (rule point_utf16_pos.prefix_found [OF assms(1,2) False point_pos.text_measure_axioms])
        (use False assms(3) in \<open>simp only: rope_point_utf16_to_point_def s conversion_simps\<close>)
  qed (simp add: rope_point_utf16_to_point_def s)
  show "rope_unclipped_point_utf16_to_point r (Unclipped (lines_utf16 (scan xs))) = Some (ts_lines (scan xs))"
  proof (cases "ys = []")
    case False
    show ?thesis
      by (rule point_utf16_pos.prefix_found [OF assms(1,2) False point_pos.text_measure_axioms])
        (use False in \<open>simp only: rope_unclipped_point_utf16_to_point_def s conversion_simps\<close>)
  qed (simp add: rope_unclipped_point_utf16_to_point_def s)
qed

text \<open>C31. Positions of all kinds convert into one another without loss in a rope: at the end of every
  prefix of its text, the byte offset, the UTF-16 offset, the point and the UTF-16 point are the measures
  of the prefix, and every conversion takes its kind to the other, across chunks and at the end of the
  text, without a panic. Between the starts of two rows, \<open>slice_rows\<close> has the text of the rows.\<close>

theorem rope_positions:
  assumes "rope_text r (xs @ ys)" and "height (rope_chunks r) \<le> 6"
  shows "(let offset = str_len xs; offset_utf16 = OffsetUtf16 (utf16_len xs);
              point = ts_lines (ts_from xs :: (nat, nat) text_summary); point_utf16 = lines_utf16 (ts_from xs :: (nat, nat) text_summary)
          in rope_offset_to_point r offset = point \<and> rope_offset_to_offset_utf16 r offset = offset_utf16 \<and>
             rope_offset_to_point_utf16 r offset = point_utf16 \<and> rope_offset_utf16_to_offset r offset_utf16 = offset \<and>
             rope_point_to_offset r point = offset \<and> rope_point_to_offset_utf16 r point = Some offset_utf16 \<and>
             rope_point_to_point_utf16 r point = point_utf16 \<and> rope_point_utf16_to_offset r point_utf16 = Some offset \<and>
             rope_unclipped_point_utf16_to_offset r (Unclipped point_utf16) = Some offset \<and>
             rope_point_utf16_to_offset_utf16 r point_utf16 = Some offset_utf16 \<and>
             rope_point_utf16_to_point r point_utf16 = Some point \<and>
             rope_unclipped_point_utf16_to_point r (Unclipped point_utf16) = Some point) \<and>
    (\<forall>as bs. xs = as @ bs \<and> line_end as \<and> line_end xs \<longrightarrow>
       (\<exists>s. rope_slice_rows r (count_list as 10) (count_list xs 10) = Some s \<and> rope_text s bs))"
proof
  obtain css where r: "rope_of r css" "concat css = xs @ ys" using assms(1) by (auto simp: rope_text_def)
  have h: "height (rope_chunks r) < STACK_CAPACITY" using assms(2) by (simp add: STACK_CAPACITY_def)
  have m: "ts_lines (ts_from xs :: (nat, nat) text_summary) = ts_lines (scan xs)"
    "lines_utf16 (ts_from xs :: (nat, nat) text_summary) = lines_utf16 (scan xs)"
    by (simp_all add: ts_from_scan lines_utf16_def)
  show "let offset = str_len xs; offset_utf16 = OffsetUtf16 (utf16_len xs);
              point = ts_lines (ts_from xs :: (nat, nat) text_summary); point_utf16 = lines_utf16 (ts_from xs :: (nat, nat) text_summary)
          in rope_offset_to_point r offset = point \<and> rope_offset_to_offset_utf16 r offset = offset_utf16 \<and>
             rope_offset_to_point_utf16 r offset = point_utf16 \<and> rope_offset_utf16_to_offset r offset_utf16 = offset \<and>
             rope_point_to_offset r point = offset \<and> rope_point_to_offset_utf16 r point = Some offset_utf16 \<and>
             rope_point_to_point_utf16 r point = point_utf16 \<and> rope_point_utf16_to_offset r point_utf16 = Some offset \<and>
             rope_unclipped_point_utf16_to_offset r (Unclipped point_utf16) = Some offset \<and>
             rope_point_utf16_to_offset_utf16 r point_utf16 = Some offset_utf16 \<and>
             rope_point_utf16_to_point r point_utf16 = Some point \<and>
             rope_unclipped_point_utf16_to_point r (Unclipped point_utf16) = Some point"
    unfolding Let_def m rope_point_utf16_to_offset_def rope_unclipped_point_utf16_to_offset_def rope_point_utf16_to_offset_utf16_def
      unclipped.sel
    using rope_offset_to_at [OF r] rope_point_to_at [OF r h] rope_point_utf16_to_at [OF r h] by blast
  show "\<forall>as bs. xs = as @ bs \<and> line_end as \<and> line_end xs \<longrightarrow>
       (\<exists>s. rope_slice_rows r (count_list as 10) (count_list xs 10) = Some s \<and> rope_text s bs)"
  proof (intro allI impI)
    fix as bs assume x: "xs = as @ bs \<and> line_end as \<and> line_end xs"
    have "concat css = as @ (bs @ ys)" using r(2) x by simp
    from rope_point_to_at(1) [OF r(1) this h] rope_point_to_at(1) [OF r h]
    have "rope_point_to_offset r (Point (count_list as 10) 0) = str_len as"
      "rope_point_to_offset r (Point (count_list xs 10) 0) = str_len xs"
      using scan_line_end(1) [OF conjunct1 [OF conjunct2 [OF x]]] scan_line_end(1) [OF conjunct2 [OF conjunct2 [OF x]]]
      by (simp_all only:)
    then have "rope_slice_rows r (count_list as 10) (count_list xs 10) = rope_slice r (str_len as) (str_len xs)"
      unfolding rope_slice_rows_def Let_def by (simp only:)
    then show "\<exists>s. rope_slice_rows r (count_list as 10) (count_list xs 10) = Some s \<and> rope_text s bs"
      using rope_slice_of [of r as bs ys] assms x by simp
  qed
qed

lemma rope_positions_witness:
  "\<exists>r. push_chunk rope_new (chunk_of [97, 10, 128512, 10]) = Some r \<and> rope_point_to_offset r (Point 1 4) = 6 \<and>
     rope_point_utf16_to_offset_utf16 r (PointUtf16 1 2) = Some (OffsetUtf16 4)"
proof -
  have t: "valid [97, 10, 128512, 10]" "str_len [97, 10, 128512, 10] \<le> 128" by (simp_all add: scalar_value_def len_utf8_def)
  obtain r css where r: "push_chunk rope_new (chunk_of [97, 10, 128512, 10]) = Some r" "rope_of r css"
    "concat css = [97, 10, 128512, 10]" "height (rope_chunks r) \<le> 1"
    using push_chunk_of [OF rope_of_new t] by (auto simp: rope_new_def new_def)
  have "rope_text r ([97, 10, 128512] @ [10])" by (rule rope_textI [OF r(2)]) (simp add: r(3))
  moreover have "height (rope_chunks r) \<le> 6" using r(4) by simp
  ultimately have p: "rope_point_to_offset r (ts_lines (ts_from [97, 10, 128512] :: (nat, nat) text_summary)) = str_len [97, 10, 128512]"
    "rope_point_utf16_to_offset_utf16 r (lines_utf16 (ts_from [97, 10, 128512] :: (nat, nat) text_summary)) =
       Some (OffsetUtf16 (utf16_len [97, 10, 128512]))"
    using rope_positions [of r "[97, 10, 128512]" "[10]"] by (simp_all only: Let_def)
  have "scan ([97, 10] @ [128512]) = ts_add (scan [97, 10]) (scan [128512])" by (rule ts_scan_append)
  moreover have "ts_lines (scan [97, 10]) = Point 1 0" "ts_last_line_len_utf16 (scan [97, 10]) = 0"
    using scan_line_end [of "[97, 10]"] by (simp_all add: line_end_def)
  moreover have "ts_lines (scan [128512]) = Point 0 4" "ts_last_line_len_utf16 (scan [128512]) = 2"
    using scan_line [of "[128512]"] by (simp_all add: len_utf8_def len_utf16_def)
  ultimately have "ts_lines (ts_from [97, 10, 128512] :: (nat, nat) text_summary) = Point 1 4"
    "lines_utf16 (ts_from [97, 10, 128512] :: (nat, nat) text_summary) = PointUtf16 1 2"
    by (simp_all add: ts_from_scan lines_utf16_def plus_point_eq)
  moreover have "str_len [97, 10, 128512] = 6" "utf16_len [97, 10, 128512] = 4" by (simp_all add: len_utf8_def len_utf16_def)
  ultimately show ?thesis using p r(1) by auto
qed

end
