(* ===== verification/RopeClip.thy ===== *)
theory RopeClip
  imports RopePosition
begin

text \<open>
  Clipping in a rope (\<open>crates/rope/src/rope.rs\<close>): the boundary functions and the clip functions at any
  position, across chunks, and the length of a line.
\<close>

subsection \<open>Arithmetic of positions\<close>

lemma point_le_iff: "p \<le> q \<longleftrightarrow> row p < row q \<or> row p = row q \<and> column p \<le> column q" for p q :: "nat point"
  by (auto simp: less_eq_point_def point_lex_cmp_def)

lemma point_less_iff: "p < q \<longleftrightarrow> row p < row q \<or> row p = row q \<and> column p < column q" for p q :: "nat point"
  by (auto simp: less_point_def point_lex_cmp_def)

lemma point_utf16_le_iff: "p \<le> q \<longleftrightarrow> row16 p < row16 q \<or> row16 p = row16 q \<and> column16 p \<le> column16 q" for p q :: "nat point_utf16"
  by (auto simp: less_eq_point_utf16_def point_utf16_lex_cmp_def)

lemma point_utf16_less_iff: "p < q \<longleftrightarrow> row16 p < row16 q \<or> row16 p = row16 q \<and> column16 p < column16 q" for p q :: "nat point_utf16"
  by (auto simp: less_point_utf16_def point_utf16_lex_cmp_def)

text \<open>Where a clip function may end: \<open>t\<close> was clipped to \<open>q\<close>, in front of the text \<open>b\<close>.\<close>

definition line_of :: "rust_char list \<Rightarrow> rust_char list" where
  "line_of b = takeWhile (\<lambda>c. c \<noteq> 10) b"

definition clipped :: "('d \<Rightarrow> nat) \<Rightarrow> (rust_char list \<Rightarrow> 'd::{linorder,plus}) \<Rightarrow> bias \<Rightarrow> 'd \<Rightarrow> 'd \<Rightarrow> rust_char list \<Rightarrow> bool" where
  "clipped rowf m bias t q b \<longleftrightarrow> (rowf q = rowf t \<or> b = [] \<and> q < t) \<and>
     (case bias of Left \<Rightarrow> q \<le> t \<and> (line_of b = [] \<or> t < q + m (line_of b)) | Right \<Rightarrow> t \<le> q \<or> line_of b = [])"

lemma line_of_append: "10 \<notin> set bs \<Longrightarrow> ds = [] \<or> (\<exists>es. ds = 10 # es) \<Longrightarrow> line_of (bs @ ds) = bs"
  by (induction bs) (auto simp: line_of_def)

lemma line_of_extend: "\<exists>e. line_of (b @ ss) = line_of b @ e"
  by (induction b) (auto simp: line_of_def)

lemma line_of_Nil: "line_of b = [] \<longleftrightarrow> b = [] \<or> hd b = 10"
  by (cases b) (auto simp: line_of_def)

text \<open>A measure whose positions are arranged in rows.\<close>

locale text_rows = text_position D m for D :: "'d::{linorder,plus,minus} text_dimension" and m +
  fixes rowf :: "'d \<Rightarrow> nat"
  assumes plus_minus: "s \<le> t \<Longrightarrow> s + (t - s) = t"
    and plus_mono: "a \<le> b \<Longrightarrow> s + a \<le> s + b" and plus_less: "a < b \<Longrightarrow> s + a < s + b"
    and plus_assoc: "s + (a + b) = (s + a) + b" and nonneg: "m [] \<le> t"
    and row_plus: "rowf a = rowf b \<Longrightarrow> rowf (s + a) = rowf (s + b)"
begin

lemma clipped_shift:
  assumes "clipped rowf m bias (t - s) q b" and "s \<le> t"
  shows "clipped rowf m bias t (s + q) b"
proof -
  have t: "t = s + (t - s)" using plus_minus [OF assms(2)] by simp
  have "q \<le> t - s \<Longrightarrow> s + q \<le> t" "q < t - s \<Longrightarrow> s + q < t" "t - s \<le> q \<Longrightarrow> t \<le> s + q"
    "t - s < q + m (line_of b) \<Longrightarrow> t < (s + q) + m (line_of b)" "rowf q = rowf (t - s) \<Longrightarrow> rowf (s + q) = rowf t"
    using plus_mono [of _ _ s] plus_less [of _ _ s] row_plus [of q "t - s" s] t plus_assoc by metis+
  then show ?thesis using assms(1) by (auto simp: clipped_def split: bias.splits)
qed

lemma clipped_extend:
  assumes "clipped rowf m bias t q b" and "b = [] \<Longrightarrow> t < q"
  shows "clipped rowf m bias t q (b @ ss)"
proof -
  obtain e where e: "line_of (b @ ss) = line_of b @ e" using line_of_extend by blast
  have "q + m (line_of b) \<le> q + m (line_of (b @ ss))" unfolding e by (rule plus_mono [OF le])
  moreover have "b \<noteq> [] \<Longrightarrow> line_of b = [] \<Longrightarrow> line_of (b @ ss) = []" by (simp add: line_of_Nil)
  ultimately show ?thesis using assms by (cases "b = []") (auto simp: clipped_def split: bias.splits)
qed

lemma clipped_beyond: "q \<le> t \<Longrightarrow> clipped rowf m bias t q []"
  by (auto simp: clipped_def line_of_def split: bias.splits)

lemma clip_found:
  assumes "rope_of r css"
    and f: "\<And>cs t. chunk_text cs \<Longrightarrow> \<exists>a b. cs = a @ b \<and> f (chunk_of cs) t = Some (m a) \<and> R t (m a) b"
    and shift: "\<And>s t q b. R (t - s) q b \<Longrightarrow> s \<le> t \<Longrightarrow> R t (s + q) b"
    and extend: "\<And>t q b ss. R t q b \<Longrightarrow> (b = [] \<Longrightarrow> t < q) \<Longrightarrow> R t q (b @ ss)"
    and beyond: "\<And>q. q \<le> t \<Longrightarrow> R t q []"
  shows "\<exists>a b. concat css = a @ b \<and>
    (let (start, _, item) = find (td_dim D) (rope_chunks r) (key_target t) Right
     in case item of Some chunk \<Rightarrow> map_option ((+) start) (f chunk (t - start)) | None \<Rightarrow> Some (m (concat css))) = Some (m a) \<and>
    R t (m a) b"
proof (cases "m (concat css) \<le> t")
  case True
  note fb = find_beyond [OF assms(1) tracks_self [of t], of Right]
  have "find (td_dim D) (rope_chunks r) (key_target t) Right = (m (concat css), m (concat css), None)"
    by (rule fb) (use True in \<open>simp add: passes_cmp\<close>)
  moreover have "R t (m (concat css)) []" by (rule beyond [OF True])
  ultimately show ?thesis by (intro exI [of _ "concat css"] exI [of _ "[]"]) simp
next
  case False
  show ?thesis
  proof (cases "css = []")
    case True
    then show ?thesis using False nonneg by simp
  next
    case ne: False
    have np: "\<not> passes Right (cmp t (m (concat css)))" using False by (simp add: passes_cmp)
    show ?thesis
    proof (rule find_text [OF assms(1) tracks_self ne np])
      fix css1 cs css2
      assume s: "css = css1 @ cs # css2"
        "find (td_dim D) (rope_chunks r) (key_target t) Right = (m (concat css1), m (concat css1 @ cs), Some (chunk_of cs))"
        "css1 \<noteq> [] \<Longrightarrow> passes Right (cmp t (m (concat css1)))" "\<not> passes Right (cmp t (m (concat css1 @ cs)))"
      have le: "m (concat css1) \<le> t" using s(3) nonneg by (cases "css1 = []") (auto simp: passes_cmp)
      have lt: "t < m (concat css1 @ cs)" using s(4) by (simp add: passes_cmp)
      have "chunk_text cs" using assms(1) s(1) by (simp add: rope_of_def)
      then obtain a b where a: "cs = a @ b" "f (chunk_of cs) (t - m (concat css1)) = Some (m a)"
        "R (t - m (concat css1)) (m a) b" using f by blast
      have "R t (m (concat css1 @ a)) b" using shift [OF a(3) le] plus by simp
      then have "R t (m (concat css1 @ a)) (b @ concat css2)"
        by (rule extend) (use lt a(1) in simp)
      then show ?thesis using s(1,2) a(1,2) plus
        by (intro exI [of _ "concat css1 @ a"] exI [of _ "b @ concat css2"]) simp
    qed
  qed
qed

end

lemma scan_Nil: "ts_lines (scan []) = Point 0 0" "lines_utf16 (scan []) = PointUtf16 0 0"
  using scan_line [of "[]"] by (simp_all add: lines_utf16_def)

interpretation point_rows: text_rows point_td "\<lambda>cs. ts_lines (scan cs)" row
  by unfold_locales
    (auto simp: point_le_iff point_less_iff scan_Nil minus_point_eq add.assoc intro!: point.expand split: if_splits)

interpretation point_utf16_rows: text_rows point_utf16_td "\<lambda>cs. lines_utf16 (scan cs)" row16
  by unfold_locales
    (auto simp: point_utf16_le_iff point_utf16_less_iff scan_Nil minus_point_utf16_eq add.assoc intro!: point_utf16.expand split: if_splits)

interpretation offset_utf16_rows: text_rows offset_utf16_td "\<lambda>cs. OffsetUtf16 (utf16_len cs)" "\<lambda>_. 0"
  by unfold_locales
    (auto simp: less_eq_offset_utf16_def less_offset_utf16_def minus_offset_utf16_eq intro!: offset_utf16.expand)

subsection \<open>Clipping in a chunk\<close>

lemma row_exists:
  assumes "valid cs" and "str_len cs \<le> 128" and "r \<le> count_list cs 10"
  obtains as bs ds where "cs = as @ bs @ ds" "row_text as bs ds" "count_list as 10 = r"
proof -
  have "\<exists>as us. cs = as @ us \<and> line_end as \<and> count_list as 10 = r" using assms(3)
  proof (induction r)
    case 0
    have "cs = [] @ cs \<and> line_end [] \<and> count_list [] 10 = (0 :: nat)" by (simp add: line_end_def)
    then show ?case by blast
  next
    case (Suc r)
    then obtain as us where a: "cs = as @ us" "line_end as" "count_list as 10 = r" by auto
    then have "10 \<in> set us" using Suc.prems by (auto simp: count_list_0_iff intro: ccontr)
    then obtain vs ws where u: "us = vs @ 10 # ws" "10 \<notin> set vs" by (metis split_list_first)
    have "cs = (as @ vs @ [10]) @ ws \<and> line_end (as @ vs @ [10]) \<and> count_list (as @ vs @ [10]) 10 = Suc r"
      using a u by (simp add: line_end_def)
    then show ?case by blast
  qed
  then obtain as us where a: "cs = as @ us" "line_end as" "count_list as 10 = r" by blast
  obtain bs ds where b: "us = bs @ ds" "10 \<notin> set bs" "ds = [] \<or> (\<exists>es. ds = 10 # es)" by (rule first_line)
  show thesis by (rule that [of as bs ds]) (use a b assms(1,2) in \<open>simp_all add: row_text_def\<close>)
qed

text \<open>The column that \<open>clip_point\<close> goes to is a boundary of the line, on the side of the bias.\<close>

lemma clip_column:
  assumes "valid bs" and g: "\<And>t. g t 0 \<and> g t (length t)"
  defines "c left k \<equiv> (if str_len bs \<le> k then str_len bs
     else if k = 0 \<or> utf8 bs ! (k - 1) < 128 \<and> utf8 bs ! k < 128 then k
     else if left then Max {c. c \<le> k \<and> stop_at g bs c} else Min {c. k \<le> c \<and> c \<le> str_len bs \<and> stop_at g bs c})"
  shows "boundary bs (c left k) \<and> c left k \<le> str_len bs \<and> (left \<longrightarrow> c left k \<le> k) \<and>
    (\<not> left \<longrightarrow> k \<le> c left k \<or> c left k = str_len bs) \<and> (str_len bs \<le> k \<longrightarrow> c left k = str_len bs)"
proof -
  let ?l = "{c. c \<le> k \<and> stop_at g bs c}" and ?r = "{c. k \<le> c \<and> c \<le> str_len bs \<and> stop_at g bs c}"
  have e: "boundary bs (str_len bs)" by (simp add: boundary_bits)
  have "0 \<in> ?l" using g by (simp add: stop_at_def)
  then have l: "Max ?l \<in> ?l" by (intro Max_in) auto
  have "str_len bs \<in> ?r" if "k < str_len bs" using g [of "utf8 bs"] e that by (simp add: stop_at_def)
  then have r: "Min ?r \<in> ?r" if "k < str_len bs" using that by (intro Min_in) auto
  have "boundary bs k" if "utf8 bs ! k < 128" "k < str_len bs"
  proof -
    have "unat (utf8 bs ! k) < 128" using that(1) by (simp add: word_less_nat_alt)
    then have "is_utf8_char_boundary (utf8 bs ! k)" using boundary_byte [of "unat (utf8 bs ! k)"] by simp
    then show ?thesis using boundary_bytes [OF assms(1), of k] that(2) by simp
  qed
  then show ?thesis using e l r boundary_le by (auto simp: c_def stop_at_def)
qed

lemma clip_point_in_chunk:
  assumes "chunk_text cs" and g: "\<And>t. g t 0 \<and> g t (length t)"
  shows "\<exists>a b. cs = a @ b \<and> slice_clip_point g (chunk_of cs) p (bias = Left) = Some (ts_lines (scan a)) \<and>
    clipped row (\<lambda>cs. ts_lines (scan cs)) bias p (ts_lines (scan a)) b"
proof -
  have v: "valid cs" "str_len cs \<le> 128" using assms(1) by (simp_all add: chunk_text_def)
  obtain r k where p: "p = Point r k" by (cases p)
  show ?thesis
  proof (cases "r \<le> count_list cs 10")
    case False
    obtain as bs ds where w: "cs = as @ bs @ ds" "row_text as bs ds" by (rule row_exists [OF v, of 0]) simp
    have "slice_clip_point g (chunk_of cs) p (bias = Left) = Some (ts_lines (scan cs))"
      using clip_point_ends [OF w(2) g, where r = r and k = k and left = "bias = Left"] False w(1) p by simp
    moreover have l: "ts_lines (scan cs) < p" using False p by (simp add: point_less_iff)
    moreover from l have "clipped row (\<lambda>cs. ts_lines (scan cs)) bias p (ts_lines (scan cs)) []"
      by (auto simp: clipped_def line_of_def split: bias.splits)
    ultimately show ?thesis by (metis append_Nil2)
  next
    case True
    then obtain as bs ds where w: "cs = as @ bs @ ds" "row_text as bs ds" "count_list as 10 = r" by (rule row_exists [OF v])
    have b: "valid bs" "10 \<notin> set bs" "line_end as" "ds = [] \<or> (\<exists>es. ds = 10 # es)" using w(2) by (auto simp: row_text_def)
    define c where "c = (if str_len bs \<le> k then str_len bs
         else if k = 0 \<or> utf8 bs ! (k - 1) < 128 \<and> utf8 bs ! k < 128 then k
         else if bias = Left then Max {c. c \<le> k \<and> stop_at g bs c} else Min {c. k \<le> c \<and> c \<le> str_len bs \<and> stop_at g bs c})"
    have clip: "slice_clip_point g (chunk_of cs) p (bias = Left) = Some (Point r c)"
      using clip_point_ends [OF w(2) g, where k = k and left = "bias = Left"] w(1,3) p by (simp add: c_def)
    have c: "boundary bs c \<and> c \<le> str_len bs \<and> (bias = Left \<longrightarrow> c \<le> k) \<and> (bias = Right \<longrightarrow> k \<le> c \<or> c = str_len bs) \<and>
        (str_len bs \<le> k \<longrightarrow> c = str_len bs)"
      using clip_column [OF b(1) g, of k "bias = Left", folded c_def] by (cases bias) auto
    then obtain b1 b2 where bb: "bs = b1 @ b2" "c = str_len b1" by (auto simp: boundary_def)
    have m: "ts_lines (scan (as @ b1)) = Point r c"
      using scan_last_line(1) [OF b(3), of b1] b(2) bb w(3) by simp
    have l: "line_of (b2 @ ds) = b2" by (rule line_of_append) (use b bb in auto)
    have "10 \<notin> set b2" using b(2) bb(1) by simp
    then have "ts_lines (scan b2) = Point 0 (str_len b2)" using scan_line by blast
    then have "clipped row (\<lambda>cs. ts_lines (scan cs)) bias p (Point r c) (b2 @ ds)"
      using c bb p unfolding clipped_def l by (auto simp: point_le_iff point_less_iff split: bias.splits)
    then show ?thesis using clip m w(1) bb(1) by (intro exI [of _ "as @ b1"] exI [of _ "b2 @ ds"]) simp
  qed
qed

lemma clip_point_utf16_in_chunk:
  assumes "chunk_text cs"
  shows "\<exists>a b. cs = a @ b \<and> slice_clip_point_utf16 (chunk_of cs) p (bias = Left) = Some (lines_utf16 (scan a)) \<and>
    clipped row16 (\<lambda>cs. lines_utf16 (scan cs)) bias p (lines_utf16 (scan a)) b"
proof -
  have v: "valid cs" "str_len cs \<le> 128" using assms(1) by (simp_all add: chunk_text_def)
  obtain r k where p: "p = PointUtf16 r k" by (cases p)
  show ?thesis
  proof (cases "r \<le> count_list cs 10")
    case False
    have "slice_clip_point_utf16 (chunk_of cs) p (bias = Left) = Some (lines_utf16 (scan cs))"
      using False lines_of [OF v(2)] last_line_of [OF v(2)] p by (simp add: slice_clip_point_utf16_def lines_utf16_def)
    moreover have l: "lines_utf16 (scan cs) < p" using False p by (simp add: point_utf16_less_iff lines_utf16_def)
    moreover from l have "clipped row16 (\<lambda>cs. lines_utf16 (scan cs)) bias p (lines_utf16 (scan cs)) []"
      by (auto simp: clipped_def line_of_def split: bias.splits)
    ultimately show ?thesis by (metis append_Nil2)
  next
    case True
    then obtain as bs ds where w: "cs = as @ bs @ ds" "row_text as bs ds" "count_list as 10 = r" by (rule row_exists [OF v])
    have b: "valid bs" "10 \<notin> set bs" "line_end as" "ds = [] \<or> (\<exists>es. ds = 10 # es)" "str_len bs \<le> 128"
      using w(2) by (auto simp: row_text_def)
    obtain b1 b2 where bb: "bs = b1 @ b2"
      "slice_clip_offset_utf16 (chunk_of bs) (OffsetUtf16 k) (bias = Left) = Some (OffsetUtf16 (utf16_len b1))"
      "if utf16_len bs \<le> k then b2 = []
       else if bias = Left then utf16_len b1 \<le> k \<and> k \<le> utf16_len b1 + 1 else k \<le> utf16_len b1 \<and> utf16_len b1 \<le> k + 1"
      using clip_offset_utf16_boundary [OF b(1,5), of k "bias = Left"] by blast
    have clip: "slice_clip_point_utf16 (chunk_of cs) p (bias = Left) = Some (PointUtf16 r (utf16_len b1))"
      using clip_point_utf16_row [OF w(2)] w(1,3) p bb(2) by simp
    have n: "10 \<notin> set b1" "10 \<notin> set b2" using b(2) bb(1) by auto
    have m: "lines_utf16 (scan (as @ b1)) = PointUtf16 r (utf16_len b1)"
      using scan_last_line [OF b(3) n(1)] w(3) by (simp add: lines_utf16_def)
    have l: "line_of (b2 @ ds) = b2" by (rule line_of_append [OF n(2) b(4)])
    have "lines_utf16 (scan b2) = PointUtf16 0 (utf16_len b2)" using scan_line [OF n(2)] by (simp add: lines_utf16_def)
    then have "clipped row16 (\<lambda>cs. lines_utf16 (scan cs)) bias p (PointUtf16 r (utf16_len b1)) (b2 @ ds)"
      using bb p unfolding clipped_def l by (cases bias) (auto simp: point_utf16_le_iff point_utf16_less_iff split: if_splits)
    then show ?thesis using clip m w(1) bb(1) by (intro exI [of _ "as @ b1"] exI [of _ "b2 @ ds"]) simp
  qed
qed

text \<open>A UTF-16 offset goes at most one code unit to the side of the bias, or back to the end of the text.\<close>

definition clipped16 :: "bias \<Rightarrow> nat offset_utf16 \<Rightarrow> nat offset_utf16 \<Rightarrow> rust_char list \<Rightarrow> bool" where
  "clipped16 bias t q b \<longleftrightarrow> b = [] \<and> q \<le> t \<or>
     (case bias of Left \<Rightarrow> q \<le> t \<and> offset16 t \<le> offset16 q + 1 | Right \<Rightarrow> t \<le> q \<and> offset16 q \<le> offset16 t + 1)"

lemma clip_offset_utf16_in_chunk:
  assumes "chunk_text cs"
  shows "\<exists>a b. cs = a @ b \<and> slice_clip_offset_utf16 (chunk_of cs) t (bias = Left) = Some (OffsetUtf16 (utf16_len a)) \<and>
    clipped16 bias t (OffsetUtf16 (utf16_len a)) b"
proof -
  obtain k where t: "t = OffsetUtf16 k" by (cases t)
  obtain a b where ab: "cs = a @ b" "slice_clip_offset_utf16 (chunk_of cs) t (bias = Left) = Some (OffsetUtf16 (utf16_len a))"
    "if utf16_len cs \<le> k then b = []
     else if bias = Left then utf16_len a \<le> k \<and> k \<le> utf16_len a + 1 else k \<le> utf16_len a \<and> utf16_len a \<le> k + 1"
    using clip_offset_utf16_boundary [of cs k "bias = Left"] assms unfolding t chunk_text_def by blast
  have "clipped16 bias t (OffsetUtf16 (utf16_len a)) b"
    using ab(1,3) t by (cases bias) (auto simp: clipped16_def less_eq_offset_utf16_def split: if_splits)
  then show ?thesis using ab by blast
qed

subsection \<open>Clipping in a rope\<close>

lemma rope_clip_point_ends:
  assumes "rope_of r css" and g: "\<And>t. g t 0 \<and> g t (length t)"
  shows "\<exists>a b. concat css = a @ b \<and> rope_clip_point g r p bias = Some (ts_lines (scan a)) \<and>
    clipped row (\<lambda>cs. ts_lines (scan cs)) bias p (ts_lines (scan a)) b"
  using point_rows.clip_found [where f = "\<lambda>chunk t. slice_clip_point g chunk t (bias = Left)" and t = p and
      R = "clipped row (\<lambda>cs. ts_lines (scan cs)) bias", OF assms(1) clip_point_in_chunk [OF _ g] point_rows.clipped_shift
      point_rows.clipped_extend point_rows.clipped_beyond]
  unfolding rope_clip_point_def Let_def as_slice_def summary_measures [OF assms(1)] by simp

lemma rope_clip_point_utf16_ends:
  assumes "rope_of r css"
  shows "\<exists>a b. concat css = a @ b \<and> rope_clip_point_utf16 r (Unclipped p) bias = Some (lines_utf16 (scan a)) \<and>
    clipped row16 (\<lambda>cs. lines_utf16 (scan cs)) bias p (lines_utf16 (scan a)) b"
  using point_utf16_rows.clip_found [where f = "\<lambda>chunk t. slice_clip_point_utf16 chunk t (bias = Left)" and t = p and
      R = "clipped row16 (\<lambda>cs. lines_utf16 (scan cs)) bias", OF assms(1) clip_point_utf16_in_chunk
      point_utf16_rows.clipped_shift point_utf16_rows.clipped_extend point_utf16_rows.clipped_beyond]
  unfolding rope_clip_point_utf16_def Let_def as_slice_def summary_measures [OF assms(1)] unclipped.sel by simp

lemma rope_clip_offset_utf16_ends:
  assumes "rope_of r css"
  shows "\<exists>a b. concat css = a @ b \<and> rope_clip_offset_utf16 r t bias = Some (OffsetUtf16 (utf16_len a)) \<and>
    clipped16 bias t (OffsetUtf16 (utf16_len a)) b"
proof -
  have sh: "clipped16 bias (u - s) q b \<Longrightarrow> s \<le> u \<Longrightarrow> clipped16 bias u (s + q) b" for u s q b
    by (cases bias) (auto simp: clipped16_def less_eq_offset_utf16_def minus_offset_utf16_eq plus_offset_utf16_eq offset_utf16_sub_def)
  have ex: "clipped16 bias u q b \<Longrightarrow> (b = [] \<Longrightarrow> u < q) \<Longrightarrow> clipped16 bias u q (b @ ss)" for u q b ss
    by (cases bias) (auto simp: clipped16_def)
  have be: "q \<le> t \<Longrightarrow> clipped16 bias t q []" for q by (simp add: clipped16_def)
  show ?thesis
    using offset_utf16_rows.clip_found [where f = "\<lambda>chunk t. slice_clip_offset_utf16 chunk t (bias = Left)" and t = t and
        R = "clipped16 bias", OF assms(1) clip_offset_utf16_in_chunk sh ex be]
    unfolding rope_clip_offset_utf16_def Let_def as_slice_def summary_measures [OF assms(1)] by simp
qed

subsection \<open>Character boundaries\<close>

lemma boundary_within:
  assumes "k \<le> str_len cs"
  shows "boundary (ps @ cs @ ss) (str_len ps + k) \<longleftrightarrow> boundary cs k"
proof
  assume "boundary (ps @ cs @ ss) (str_len ps + k)"
  then obtain xs ys where x: "ps @ (cs @ ss) = xs @ ys" "str_len ps + k = str_len xs" by (auto simp: boundary_def)
  then have "str_len ps \<le> str_len xs" by simp
  with x(1) obtain e where e: "xs = ps @ e" "cs @ ss = e @ ys" by (rule append_prefix)
  have "str_len e \<le> str_len cs" using e(1) x(2) assms by simp
  with e(2) [symmetric] obtain f where "cs = e @ f" by (rule append_prefix)
  then show "boundary cs k" using e(1) x(2) by (auto simp: boundary_def)
next
  assume "boundary cs k"
  then obtain xs ys where "cs = xs @ ys" "k = str_len xs" by (auto simp: boundary_def)
  then have "ps @ cs @ ss = (ps @ xs) @ ys @ ss" "str_len ps + k = str_len (ps @ xs)" by simp_all
  then show "boundary (ps @ cs @ ss) (str_len ps + k)" unfolding boundary_def by blast
qed

lemma str_floor_nearest:
  assumes "valid cs"
  shows "boundary cs (str_floor_char_boundary (utf8 cs) j)" "str_floor_char_boundary (utf8 cs) j \<le> j"
    "boundary cs k \<Longrightarrow> k \<le> j \<Longrightarrow> k \<le> str_floor_char_boundary (utf8 cs) j"
proof -
  let ?f = "str_floor_char_boundary (utf8 cs) j"
  have "boundary cs ?f \<and> ?f \<le> j \<and> (\<forall>k. boundary cs k \<and> k \<le> j \<longrightarrow> k \<le> ?f)"
  proof (cases "boundary cs j")
    case True
    then have "j = 0 \<or> (if str_len cs \<le> j then j = str_len cs else is_utf8_char_boundary (utf8 cs ! j))"
      using boundary_bytes [OF assms] by simp
    then have "?f = j" by (cases j) (auto simp: str_floor_char_boundary_def split: if_splits)
    then show ?thesis using True by simp
  next
    case False
    then show ?thesis using str_floor_snap [OF assms False] by blast
  qed
  then show "boundary cs ?f" "?f \<le> j" "boundary cs k \<Longrightarrow> k \<le> j \<Longrightarrow> k \<le> ?f" by blast+
qed

lemma offset_found:
  assumes "rope_of r css" and "css \<noteq> []" and "i \<le> str_len (concat css)"
  obtains css1 cs css2 where "css = css1 @ cs # css2"
    "find usize_dim (rope_chunks r) (key_target i) Left = (str_len (concat css1), str_len (concat css1 @ cs), Some (chunk_of cs))"
    "str_len (concat css1) \<le> i" "i - str_len (concat css1) \<le> str_len cs" "css1 \<noteq> [] \<Longrightarrow> str_len (concat css1) < i"
    "valid cs" "str_len cs \<le> 128"
proof -
  note ft = usize_pos.find_text [OF assms(1) usize_pos.tracks_self [of i] assms(2), of Left]
  show thesis
  proof (rule ft)
    show "\<not> passes Left (cmp i (str_len (concat css)))" using assms(3) by (simp add: passes_cmp)
    fix css1 cs css2
    assume s: "css = css1 @ cs # css2"
      "find (td_dim usize_td) (rope_chunks r) (key_target i) Left =
         (str_len (concat css1), str_len (concat css1 @ cs), Some (chunk_of cs))"
      "css1 \<noteq> [] \<Longrightarrow> passes Left (cmp i (str_len (concat css1)))" "\<not> passes Left (cmp i (str_len (concat css1 @ cs)))"
    have "chunk_text cs" using assms(1) s(1) by (simp add: rope_of_def)
    moreover have "str_len (concat css1) \<le> i" using s(3) by (cases "css1 = []") (auto simp: passes_cmp)
    ultimately show thesis using s by (intro that [of css1 cs css2]) (auto simp: passes_cmp chunk_text_def)
  qed
qed

lemma offset_beyond:
  assumes "rope_of r css" and "str_len (concat css) < i"
  shows "find usize_dim (rope_chunks r) (key_target i) Left = (str_len (concat css), str_len (concat css), None)"
  using usize_pos.find_beyond [OF assms(1) usize_pos.tracks_self [of i], of Left] assms(2) by (simp add: passes_cmp)

lemma rope_is_empty_of: "rope_of r css \<Longrightarrow> is_empty (rope_chunks r) \<longleftrightarrow> css = []"
  using wf_tree_is_empty [of chunk_ops "rope_chunks r"] by (simp add: rope_of_def)

lemma rope_boundary_of:
  assumes "rope_of r css"
  shows "rope_is_char_boundary r i \<longleftrightarrow> boundary (concat css) i"
    and "rope_assert_char_boundary panics r i =
      (if boundary (concat css) i then Some True else if panics then None else Some False)"
proof -
  note e = rope_is_empty_of [OF assms]
  have nil: "boundary [] i \<longleftrightarrow> i = 0" by (auto simp: boundary_def)
  have "(rope_is_char_boundary r i \<longleftrightarrow> boundary (concat css) i) \<and> rope_assert_char_boundary panics r i =
      (if boundary (concat css) i then Some True else if panics then None else Some False)"
  proof (cases "i \<le> str_len (concat css)")
    case False
    then have "\<not> boundary (concat css) i" using boundary_le by blast
    then show ?thesis using False offset_beyond [OF assms, of i] e nil
      by (cases "css = []") (simp_all add: rope_is_char_boundary_def rope_assert_char_boundary_def)
  next
    case True
    show ?thesis
    proof (cases "css = []")
      case True
      then show ?thesis using e nil \<open>i \<le> str_len (concat css)\<close>
        by (simp add: rope_is_char_boundary_def rope_assert_char_boundary_def)
    next
      case ne: False
      from offset_found [OF assms ne True] obtain css1 cs css2 where s: "css = css1 @ cs # css2"
        "find usize_dim (rope_chunks r) (key_target i) Left = (str_len (concat css1), str_len (concat css1 @ cs), Some (chunk_of cs))"
        "str_len (concat css1) \<le> i" "i - str_len (concat css1) \<le> str_len cs" "str_len cs \<le> 128" by metis
      have "boundary (concat css) i \<longleftrightarrow> boundary cs (i - str_len (concat css1))"
        using boundary_within [OF s(4), of "concat css1" "concat css2"] s(1,3) by simp
      moreover have "i - str_len (concat css1) < 2 ^ 32" using s(4,5) by simp
      ultimately show ?thesis using chunk_boundary [OF s(5)] s(2) e ne
        by (simp add: rope_is_char_boundary_def rope_assert_char_boundary_def assert_char_boundary_def)
    qed
  qed
  then show "rope_is_char_boundary r i \<longleftrightarrow> boundary (concat css) i" "rope_assert_char_boundary panics r i =
      (if boundary (concat css) i then Some True else if panics then None else Some False)" by blast+
qed

text \<open>A boundary of the text at or before the chunk of a position, or in that chunk, or behind it.\<close>

lemma boundary_cases:
  assumes "boundary (ps @ cs @ ss) k"
  obtains "k < str_len ps" | j where "k = str_len ps + j" "j \<le> str_len cs" "boundary cs j" | "str_len ps + str_len cs < k"
proof -
  consider "k < str_len ps" | "str_len ps \<le> k" "k \<le> str_len ps + str_len cs" | "str_len ps + str_len cs < k" by linarith
  then show thesis
  proof cases
    case 2
    then have "k = str_len ps + (k - str_len ps)" "k - str_len ps \<le> str_len cs" by simp_all
    then show thesis using that(2) boundary_within assms by metis
  qed (use that in blast)+
qed

lemma rope_floor_of:
  assumes "rope_of r css"
  shows "boundary (concat css) (rope_floor_char_boundary r i) \<and> rope_floor_char_boundary r i \<le> i \<and>
    (boundary (concat css) k \<and> k \<le> i \<longrightarrow> k \<le> rope_floor_char_boundary r i)"
proof (cases "str_len (concat css) \<le> i")
  case True
  moreover have "boundary (concat css) (str_len (concat css))" by (simp add: boundary_bits)
  ultimately show ?thesis using boundary_le rope_measures(1) [OF assms] by (simp add: rope_floor_char_boundary_def)
next
  case False
  then have "css \<noteq> []" "i \<le> str_len (concat css)" by auto
  from offset_found [OF assms this] obtain css1 cs css2 where s: "css = css1 @ cs # css2"
    "find usize_dim (rope_chunks r) (key_target i) Left = (str_len (concat css1), str_len (concat css1 @ cs), Some (chunk_of cs))"
    "str_len (concat css1) \<le> i" "i - str_len (concat css1) \<le> str_len cs" "valid cs" by metis
  let ?p = "str_len (concat css1)"
  note f = str_floor_nearest [OF s(5), where j = "i - ?p"]
  have tx: "concat css = concat css1 @ cs @ concat css2" using s(1) by simp
  have r: "rope_floor_char_boundary r i = ?p + str_floor_char_boundary (utf8 cs) (i - ?p)"
    using False s(2) rope_measures(1) [OF assms] by (simp add: rope_floor_char_boundary_def)
  have "boundary (concat css) (?p + str_floor_char_boundary (utf8 cs) (i - ?p))"
    using boundary_within [of "str_floor_char_boundary (utf8 cs) (i - ?p)" cs "concat css1" "concat css2"] f(1) boundary_le [OF f(1)]
      tx by simp
  moreover have "k \<le> ?p + str_floor_char_boundary (utf8 cs) (i - ?p)" if b: "boundary (concat css) k" "k \<le> i"
    using b(1) unfolding tx
  proof (cases rule: boundary_cases)
    case (2 j)
    then show ?thesis using f(3) [of j] b(2) by simp
  next
    case 3
    then show ?thesis using s(4) b(2) by simp
  qed simp
  ultimately show ?thesis unfolding r using f(2) s(3) by auto
qed

lemma str_ceil_zero:
  assumes "valid cs"
  shows "str_ceil_char_boundary (utf8 cs) 0 = 0"
proof (cases cs)
  case (Cons c ds)
  then obtain bs where "map is_utf8_char_boundary (utf8 cs) = True # bs" using map_utf8(1) [OF assms] by (auto simp: char_bits_def)
  then have "is_utf8_char_boundary (utf8 cs ! 0)" by (cases "utf8 cs") simp_all
  then show ?thesis by (cases "utf8 cs") (simp_all add: str_ceil_char_boundary_def)
qed (simp add: str_ceil_char_boundary_def)

lemma rope_ceil_of:
  assumes "rope_of r css"
  shows "boundary (concat css) (rope_ceil_char_boundary r i) \<and>
    (i \<le> str_len (concat css) \<longrightarrow> i \<le> rope_ceil_char_boundary r i) \<and>
    (boundary (concat css) k \<and> i \<le> k \<longrightarrow> rope_ceil_char_boundary r i \<le> k) \<and>
    (str_len (concat css) < i \<longrightarrow> rope_ceil_char_boundary r i = str_len (concat css))"
proof (cases "str_len (concat css) < i \<or> css = []")
  case True
  have b: "boundary (concat css) (str_len (concat css))" by (simp add: boundary_bits)
  have "rope_ceil_char_boundary r i = str_len (concat css)"
  proof (cases "str_len (concat css) < i")
    case False
    then have "css = []" "i = 0" using True by simp_all
    moreover have "find usize_dim (rope_chunks r) (key_target 0) Left = (0, 0, None)"
      using zero_dim_laws.find_correct [OF usize_pos.zero_laws [unfolded usize_td_def text_dimension.simps], of "rope_chunks r" Left "key_target 0"] assms \<open>css = []\<close>
      by (simp add: rope_of_def usize_dim_def)
    ultimately show ?thesis using rope_measures(1) [OF assms] by (simp add: rope_ceil_char_boundary_def)
  qed (simp add: rope_ceil_char_boundary_def rope_measures(1) [OF assms])
  then show ?thesis using b boundary_le [of "concat css" k] True by auto
next
  case False
  then have "css \<noteq> []" "i \<le> str_len (concat css)" by auto
  from offset_found [OF assms this] obtain css1 cs css2 where s: "css = css1 @ cs # css2"
    "find usize_dim (rope_chunks r) (key_target i) Left = (str_len (concat css1), str_len (concat css1 @ cs), Some (chunk_of cs))"
    "str_len (concat css1) \<le> i" "i - str_len (concat css1) \<le> str_len cs" "css1 \<noteq> [] \<Longrightarrow> str_len (concat css1) < i" "valid cs" by metis
  let ?p = "str_len (concat css1)"
  let ?c = "str_ceil_char_boundary (utf8 cs) (i - ?p)"
  note f = str_ceil_snap [OF s(6), where i = "i - ?p"]
  have tx: "concat css = concat css1 @ cs @ concat css2" using s(1) by simp
  have r: "rope_ceil_char_boundary r i = ?p + ?c"
    using False s(2) rope_measures(1) [OF assms] by (simp add: rope_ceil_char_boundary_def)
  have "boundary (concat css) (?p + ?c)"
    using boundary_within [of ?c cs "concat css1" "concat css2"] f(1) boundary_le [OF f(1)] tx by simp
  moreover have "?p + ?c \<le> k" if b: "boundary (concat css) k" "i \<le> k"
    using b(1) unfolding tx
  proof (cases rule: boundary_cases)
    case 1
    then show ?thesis using b(2) s(3) by simp
  next
    case (2 j)
    show ?thesis
    proof (cases "i - ?p = 0")
      case True
      then have "css1 = []" using s(5) by auto
      then show ?thesis using True str_ceil_zero [OF s(6)] by simp
    next
      case False
      then show ?thesis using f(2) [of j] 2 b(2) by simp
    qed
  next
    case 3
    then show ?thesis using boundary_le [OF f(1)] by simp
  qed
  moreover have "i \<le> ?p + ?c" using f(3) [OF s(4)] s(3) by simp
  ultimately show ?thesis unfolding r using False by auto
qed

subsection \<open>The length of a line\<close>

lemma rope_line_len_of:
  assumes "rope_of r css" and "concat css = as @ bs @ ds" and "line_end as" and "10 \<notin> set bs" and "ds = [] \<or> (\<exists>es. ds = 10 # es)"
    and "str_len bs < 2 ^ 32" and g: "\<And>t. g t 0 \<and> g t (length t)"
  shows "rope_line_len g r (count_list as 10) = Some (str_len bs)"
proof -
  let ?t = "Point (count_list as 10) (2 ^ 32 - 1)" and ?m = "\<lambda>cs. ts_lines (scan cs)"
  obtain a b where a: "concat css = a @ b" "rope_clip_point g r ?t Left = Some (?m a)" "clipped row ?m Left ?t (?m a) b"
    using rope_clip_point_ends [OF assms(1) g, of ?t Left] by blast
  have e: "?m (as @ bs) = Point (count_list as 10) (str_len bs)" by (rule scan_last_line(1) [OF assms(3,4)])
  then have t: "?m (as @ bs) \<le> ?t" using assms(6) by (simp add: point_le_iff)
  have "a @ b = (as @ bs) @ ds" using a(1) assms(2) by simp
  then obtain us where us: "a = (as @ bs) @ us \<and> us @ b = ds \<or> a @ us = as @ bs \<and> b = us @ ds"
    using append_eq_append_conv2 by blast
  then have "us = []"
  proof (elim disjE conjE)
    assume u: "a = (as @ bs) @ us" "us @ b = ds"
    show "us = []"
    proof (rule ccontr)
      assume "us \<noteq> []"
      then have "count_list us 10 \<noteq> 0" using u(2) assms(5) by (cases us) auto
      then have "count_list as 10 < count_list a 10" using u(1) by simp
      then show False using a(3) by (simp add: clipped_def point_le_iff)
    qed
  next
    assume u: "a @ us = as @ bs" "b = us @ ds"
    show "us = []"
    proof (rule ccontr)
      assume ne: "us \<noteq> []"
      then have "count_list a 10 = count_list as 10" using a(3) u(2) by (simp add: clipped_def)
      moreover have "count_list (a @ us) 10 = count_list as 10" using u(1) assms(4) by (simp add: count_list_0_iff)
      ultimately have "10 \<notin> set us" by (simp add: count_list_0_iff)
      then have "line_of b = us" using line_of_append assms(5) u(2) by blast
      then have "?t < ?m a + ?m us" using a(3) ne by (simp add: clipped_def)
      moreover have "?m a + ?m us = ?m (as @ bs)" using u(1) point_pos.plus [of a us] by simp
      ultimately show False using t by simp
    qed
  qed
  then have "a = as @ bs" using us by auto
  then show ?thesis using a(2) e by (simp add: rope_line_len_def)
qed

subsection \<open>The properties\<close>

text \<open>C32. Character boundaries of a rope: \<open>is_char_boundary\<close> and \<open>assert_char_boundary\<close> decide them at
  any offset, also between chunks and beyond the end; clipping an offset to the left gives the greatest
  boundary not after it, to the right the least one not before it, or the end when it is beyond.\<close>

theorem rope_boundaries:
  assumes "rope_text r cs"
  shows "(rope_is_char_boundary r i \<longleftrightarrow> boundary cs i) \<and>
    rope_assert_char_boundary panics r i = (if boundary cs i then Some True else if panics then None else Some False) \<and>
    rope_clip_offset r i Left = Max {k. boundary cs k \<and> k \<le> i} \<and>
    rope_clip_offset r i Right = (if i \<le> str_len cs then Min {k. boundary cs k \<and> i \<le> k} else str_len cs)"
proof -
  obtain css where r: "rope_of r css" "cs = concat css" using assms by (auto simp: rope_text_def)
  have f: "finite {k. boundary cs k \<and> P k}" for P
    by (rule finite_subset [of _ "{..str_len cs}"]) (auto dest: boundary_le)
  have "Max {k. boundary cs k \<and> k \<le> i} = rope_floor_char_boundary r i"
    by (rule Max_eqI [OF f]) (use rope_floor_of [OF r(1), where i = i] r(2) in auto)
  moreover have "Min {k. boundary cs k \<and> i \<le> k} = rope_ceil_char_boundary r i" if "i \<le> str_len cs"
    by (rule Min_eqI [OF f]) (use rope_ceil_of [OF r(1), where i = i] r(2) that in auto)
  moreover have "\<not> i \<le> str_len cs \<Longrightarrow> rope_ceil_char_boundary r i = str_len cs" using rope_ceil_of [OF r(1), where i = i] r(2) by simp
  ultimately show ?thesis
    unfolding rope_clip_offset_def bias.case using rope_boundary_of [OF r(1), where i = i] r(2) by simp
qed

text \<open>C33. Clipping a point, a UTF-16 point or a UTF-16 offset of a rope always ends, for any grapheme
  segmentation with the ends of a line as boundaries, at a character boundary of the text. A point stays
  on its row (or goes to the end of the text when there is no such row); to the left it goes to a position
  not after it, and at the end of its line only when it is not inside the line; to the right to one not
  before it, or to the end of the line. A UTF-16 offset moves at most one code unit. \<open>line_len\<close> is the
  length of the line.\<close>

theorem rope_clipping:
  assumes "rope_text r cs" and "\<And>t. g t 0 \<and> g t (length t)"
  shows "(\<exists>a b. cs = a @ b \<and> rope_clip_point g r p bias = Some (ts_lines (scan a)) \<and>
      clipped row (\<lambda>cs. ts_lines (scan cs)) bias p (ts_lines (scan a)) b) \<and>
    (\<exists>a b. cs = a @ b \<and> rope_clip_point_utf16 r (Unclipped q) bias = Some (lines_utf16 (scan a)) \<and>
      clipped row16 (\<lambda>cs. lines_utf16 (scan cs)) bias q (lines_utf16 (scan a)) b) \<and>
    (\<exists>a b. cs = a @ b \<and> rope_clip_offset_utf16 r u bias = Some (OffsetUtf16 (utf16_len a)) \<and>
      clipped16 bias u (OffsetUtf16 (utf16_len a)) b) \<and>
    (\<forall>as bs ds. cs = as @ bs @ ds \<and> line_end as \<and> 10 \<notin> set bs \<and> (ds = [] \<or> (\<exists>es. ds = 10 # es)) \<and> str_len bs < 2 ^ 32 \<longrightarrow>
      rope_line_len g r (count_list as 10) = Some (str_len bs))"
proof -
  obtain css where r: "rope_of r css" "cs = concat css" using assms by (auto simp: rope_text_def)
  have "rope_line_len g r (count_list as 10) = Some (str_len bs)"
    if "cs = as @ bs @ ds \<and> line_end as \<and> 10 \<notin> set bs \<and> (ds = [] \<or> (\<exists>es. ds = 10 # es)) \<and> str_len bs < 2 ^ 32" for as bs ds
    using rope_line_len_of [OF r(1), of as bs ds g] that assms(2) r(2) by simp
  then show ?thesis
    using rope_clip_point_ends [OF r(1) assms(2), of p bias] rope_clip_point_utf16_ends [OF r(1), of q bias]
      rope_clip_offset_utf16_ends [OF r(1), of u bias] unfolding r(2) by blast
qed

subsection \<open>At a concrete rope\<close>

lemma sample_rope:
  obtains r where "push_chunk rope_new (chunk_of [97, 10, 128512, 10]) = Some r" "rope_text r [97, 10, 128512, 10]"
proof -
  have t: "valid [97, 10, 128512, 10]" "str_len [97, 10, 128512, 10] \<le> 128" by (simp_all add: scalar_value_def len_utf8_def)
  show thesis using push_chunk_of [OF rope_of_new t] that rope_textI by (auto simp: rope_new_def new_def)
qed

lemma rope_boundaries_witness:
  "\<exists>r. push_chunk rope_new (chunk_of [97, 10, 128512, 10]) = Some r \<and> \<not> rope_is_char_boundary r 3 \<and> rope_is_char_boundary r 6 \<and>
     rope_clip_offset r 9 Right = 7"
proof -
  obtain r where r: "push_chunk rope_new (chunk_of [97, 10, 128512, 10]) = Some r" "rope_text r [97, 10, 128512, 10]"
    by (rule sample_rope)
  have "str_len [97, 10, 128512, 10] = 7" by (simp add: len_utf8_def)
  moreover have "\<not> boundary [97, 10, 128512, 10] 3" "boundary [97, 10, 128512, 10] 6"
    by (simp_all add: boundary_Cons len_utf8_def)
  ultimately show ?thesis
    using r rope_boundaries [OF r(2), where i = 3] rope_boundaries [OF r(2), where i = 6] rope_boundaries [OF r(2), where i = 9] by auto
qed

lemma rope_clipping_witness:
  "\<exists>r. push_chunk rope_new (chunk_of [97, 10, 128512, 10]) = Some r \<and> rope_line_len (\<lambda>t k. True) r 1 = Some 4"
proof -
  obtain r where r: "push_chunk rope_new (chunk_of [97, 10, 128512, 10]) = Some r" "rope_text r [97, 10, 128512, 10]"
    by (rule sample_rope)
  have "[97, 10, 128512, 10] = [97, 10] @ [128512] @ [10] \<and> line_end [97, 10] \<and> 10 \<notin> set [128512 :: rust_char] \<and>
      ([10] = [] \<or> (\<exists>es. [10] = 10 # es)) \<and> str_len [128512] < 2 ^ 32"
    by (simp add: line_end_def len_utf8_def)
  moreover have "count_list [97, 10 :: rust_char] 10 = 1" "str_len [128512] = 4" by (simp_all add: len_utf8_def)
  moreover have g: "\<And>t. (\<lambda>t k. True) t 0 \<and> (\<lambda>t k. True) t (length t)" by simp
  note c = conjunct2 [OF conjunct2 [OF conjunct2 [OF rope_clipping [OF r(2) g]]]]
  note spec [OF spec [OF spec [OF c, of "[97, 10]"], of "[128512]"], of "[10]"]
  ultimately show ?thesis using r(1) by (metis (no_types, lifting))
qed

end
