(* ===== verification/RopeIter.thy ===== *)
theory RopeIter
  imports Rope
begin

text \<open>
  The iterators of a rope (\<open>Chunks\<close>, \<open>Bytes\<close>, \<open>Lines\<close> of \<open>crates/rope/src/rope.rs\<close>) and what is
  built on them. A difference of offsets that would wrap makes an index that is out of range, so it is a
  panic, \<open>None\<close>, at once. \<open>RopeChunks\<close> and \<open>RopeLines\<close> hold what the iterators yield.
\<close>

subsection \<open>Strings\<close>

definition byte_find :: "u8 \<Rightarrow> str \<Rightarrow> nat option" where
  "byte_find b s = (let n = length (takeWhile (\<lambda>x. x \<noteq> b) s) in if n < length s then Some n else None)"

definition byte_rfind :: "u8 \<Rightarrow> str \<Rightarrow> nat option" where
  "byte_rfind b s = map_option (\<lambda>n. length s - 1 - n) (byte_find b (rev s))"

text \<open>\<open>split('\n')\<close>.\<close>

fun split_newline :: "str \<Rightarrow> str list" where
  "split_newline [] = [[]]"
| "split_newline (b # s) =
     (if b = 10 then [] # split_newline s
      else case split_newline s of l # ls \<Rightarrow> (b # l) # ls | [] \<Rightarrow> [[b]])"

text \<open>\<open>chars()\<close>: decoding of valid UTF-8.\<close>

fun str_chars :: "str \<Rightarrow> rust_char list" where
  "str_chars [] = []"
| "str_chars (x # s) =
     (if x < 0x80 then unat x # str_chars s
      else case s of [] \<Rightarrow> []
      | y # s \<Rightarrow>
          let y' = unat (and y 0x3F)
          in if x < 0xE0 then (unat (and x 0x1F) * 64 + y') # str_chars s
             else case s of [] \<Rightarrow> []
             | z # s \<Rightarrow>
                 let yz = y' * 64 + unat (and z 0x3F)
                 in if x < 0xF0 then (unat (and x 0x0F) * 4096 + yz) # str_chars s
                    else case s of [] \<Rightarrow> []
                    | w # s \<Rightarrow> (unat (and x 0x07) * 262144 + yz * 64 + unat (and w 0x3F)) # str_chars s)"

definition checked_sub :: "nat \<Rightarrow> nat \<Rightarrow> nat option" where
  "checked_sub a b = (if b \<le> a then Some (a - b) else None)"

subsection \<open>Chunks\<close>

record chunks_iter =
  ci_chunks :: "(chunk, chunk_summary, nat) cursor"
  ci_start :: nat
  ci_end :: nat
  ci_offset :: nat
  ci_reversed :: bool

definition chunks_new :: "rope \<Rightarrow> nat \<Rightarrow> nat \<Rightarrow> bool \<Rightarrow> chunks_iter option" where
  "chunks_new rope range_start range_end reversed = do {
     let offset = (if reversed then range_end else range_start);
     (chunks, _) \<leftarrow> seek usize_dim (cursor_new usize_dim (rope_chunks rope)) (key_target offset)
       (if reversed then Left else Right);
     let chunk_offset = offset - c_position chunks;
     item \<leftarrow> cursor_item chunks;
     _ \<leftarrow> (case item of Some chunk \<Rightarrow> assert_char_boundary True chunk chunk_offset | None \<Rightarrow> Some True);
     Some \<lparr>ci_chunks = chunks, ci_start = range_start, ci_end = range_end, ci_offset = offset, ci_reversed = reversed\<rparr>
   }"

definition offset_is_valid :: "chunks_iter \<Rightarrow> bool" where
  "offset_is_valid self \<longleftrightarrow>
     (if ci_reversed self then \<not> (ci_offset self \<le> ci_start self \<or> ci_end self < ci_offset self)
      else \<not> (ci_offset self < ci_start self \<or> ci_end self \<le> ci_offset self))"

text \<open>\<open>clamp\<close> panics when the range is reversed.\<close>

definition chunks_seek :: "chunks_iter \<Rightarrow> nat \<Rightarrow> chunks_iter option" where
  "chunks_seek self offset = do {
     guard (ci_start self \<le> ci_end self);
     let offset = max (ci_start self) (min offset (ci_end self));
     chunk_end \<leftarrow> cursor_end usize_dim (ci_chunks self);
     chunks \<leftarrow>
       (if ci_reversed self then
          (if chunk_end < offset then map_option fst (seek_forward usize_dim (ci_chunks self) (key_target offset) Left)
           else if offset \<le> c_position (ci_chunks self) then map_option fst (seek usize_dim (ci_chunks self) (key_target offset) Left)
           else Some (ci_chunks self))
        else
          (if chunk_end \<le> offset then map_option fst (seek_forward usize_dim (ci_chunks self) (key_target offset) Right)
           else if offset < c_position (ci_chunks self) then map_option fst (seek usize_dim (ci_chunks self) (key_target offset) Right)
           else Some (ci_chunks self)));
     Some (self\<lparr>ci_chunks := chunks, ci_offset := offset\<rparr>)
   }"

definition chunks_set_range :: "chunks_iter \<Rightarrow> nat \<Rightarrow> nat \<Rightarrow> chunks_iter option" where
  "chunks_set_range self range_start range_end =
     chunks_seek (self\<lparr>ci_start := range_start, ci_end := range_end\<rparr>) range_start"

text \<open>The part of the current chunk that \<open>peek\<close> and \<open>peek_with_bitmaps\<close> show.\<close>

definition peek_range :: "chunks_iter \<Rightarrow> (nat \<times> nat) option" where
  "peek_range self = do {
     let chunk_start = c_position (ci_chunks self);
     (if ci_reversed self then do {
        let slice_start = max chunk_start (ci_start self) - chunk_start;
        slice_end \<leftarrow> checked_sub (ci_offset self) chunk_start;
        Some (slice_start, slice_end)
      } else do {
        slice_start \<leftarrow> checked_sub (ci_offset self) chunk_start;
        chunk_end \<leftarrow> cursor_end usize_dim (ci_chunks self);
        slice_end \<leftarrow> checked_sub (min chunk_end (ci_end self)) chunk_start;
        Some (slice_start, slice_end)
      })
   }"

definition chunks_peek :: "chunks_iter \<Rightarrow> str option option" where
  "chunks_peek self =
     (if \<not> offset_is_valid self then Some None
      else do {
        item \<leftarrow> cursor_item (ci_chunks self);
        (case item of
           None \<Rightarrow> Some None
         | Some chunk \<Rightarrow> do {
             (slice_start, slice_end) \<leftarrow> peek_range self;
             map_option Some (str_slice (ck_text chunk) slice_start slice_end)
           })
      })"

record chunk_bitmaps =
  cb_text :: str
  cb_chars :: u128
  cb_tabs :: u128
  cb_newlines :: u128

text \<open>The shift is that of the release build: by the start modulo 128.\<close>

definition peek_with_bitmaps :: "chunks_iter \<Rightarrow> chunk_bitmaps option option" where
  "peek_with_bitmaps self =
     (if \<not> offset_is_valid self then Some None
      else do {
        item \<leftarrow> cursor_item (ci_chunks self);
        (case item of
           None \<Rightarrow> Some None
         | Some chunk \<Rightarrow> do {
             (slice_start, slice_end) \<leftarrow> peek_range self;
             slice_text \<leftarrow> str_slice (ck_text chunk) slice_start slice_end;
             let n = slice_start mod 128;
             Some (Some \<lparr>cb_text = slice_text, cb_chars = drop_bit n (ck_chars chunk), cb_tabs = drop_bit n (ck_tabs chunk),
               cb_newlines = drop_bit n (ck_newlines chunk)\<rparr>)
           })
      })"

text \<open>\<open>Iterator for Chunks\<close> and for \<open>ChunkWithBitmaps\<close> move alike over a chunk of a length.\<close>

definition chunks_advance :: "chunks_iter \<Rightarrow> nat \<Rightarrow> chunks_iter option" where
  "chunks_advance self n =
     (if ci_reversed self then do {
        let self = self\<lparr>ci_offset := ci_offset self - n\<rparr>;
        (if ci_offset self \<le> c_position (ci_chunks self)
         then do { c \<leftarrow> cursor_prev usize_dim (ci_chunks self); Some (self\<lparr>ci_chunks := c\<rparr>) }
         else Some self)
      } else do {
        let self = self\<lparr>ci_offset := ci_offset self + n\<rparr>;
        chunk_end \<leftarrow> cursor_end usize_dim (ci_chunks self);
        (if chunk_end \<le> ci_offset self
         then do { c \<leftarrow> cursor_next usize_dim (ci_chunks self); Some (self\<lparr>ci_chunks := c\<rparr>) }
         else Some self)
      })"

definition chunks_next :: "chunks_iter \<Rightarrow> (chunks_iter \<times> str option) option" where
  "chunks_next self = do {
     p \<leftarrow> chunks_peek self;
     (case p of
        None \<Rightarrow> Some (self, None)
      | Some chunk \<Rightarrow> do { self \<leftarrow> chunks_advance self (length chunk); Some (self, Some chunk) })
   }"

definition bitmaps_next :: "chunks_iter \<Rightarrow> (chunks_iter \<times> chunk_bitmaps option) option" where
  "bitmaps_next self = do {
     p \<leftarrow> peek_with_bitmaps self;
     (case p of
        None \<Rightarrow> Some (self, None)
      | Some b \<Rightarrow> do { self \<leftarrow> chunks_advance self (length (cb_text b)); Some (self, Some b) })
   }"

subsection \<open>Moving by lines\<close>

definition has_newline :: "chunk_summary \<Rightarrow> bool" where
  "has_newline s \<longleftrightarrow> 0 < row (ts_lines (cs_text s))"

definition chunks_next_line :: "chunks_iter \<Rightarrow> (chunks_iter \<times> bool) option" where
  "chunks_next_line self = do {
     guard (\<not> ci_reversed self);
     p \<leftarrow> chunks_peek self;
     (self, found) \<leftarrow> (case p of
         None \<Rightarrow> Some (self, False)
       | Some chunk \<Rightarrow> do {
           (self, found) \<leftarrow> (case byte_find 10 chunk of
               Some newline_ix \<Rightarrow>
                 let self = self\<lparr>ci_offset := ci_offset self + (newline_ix + 1)\<rparr>
                 in Some (self, ci_offset self \<le> ci_end self)
             | None \<Rightarrow> do {
                 c \<leftarrow> search_forward usize_dim has_newline (ci_chunks self);
                 let self = self\<lparr>ci_chunks := c, ci_offset := c_position c\<rparr>;
                 p \<leftarrow> chunks_peek self;
                 (case Option.bind p (byte_find 10) of
                    Some newline_ix \<Rightarrow>
                      let self = self\<lparr>ci_offset := ci_offset self + (newline_ix + 1)\<rparr>
                      in Some (self, ci_offset self \<le> ci_end self)
                  | None \<Rightarrow> do {
                      chunk_end \<leftarrow> cursor_end usize_dim c;
                      Some (self\<lparr>ci_offset := chunk_end\<rparr>, False)
                    })
               });
           chunk_end \<leftarrow> cursor_end usize_dim (ci_chunks self);
           self \<leftarrow> (if ci_offset self = chunk_end then map_option fst (chunks_next self) else Some self);
           Some (self, found)
         });
     (if ci_end self < ci_offset self then do {
        let self = self\<lparr>ci_offset := min (ci_offset self) (ci_end self)\<rparr>;
        (c, _) \<leftarrow> seek usize_dim (ci_chunks self) (key_target (ci_offset self)) Right;
        Some (self\<lparr>ci_chunks := c\<rparr>, found)
      } else Some (self, found))
   }"

text \<open>The part of \<open>prev_line\<close> that looks in the current chunk: where the line it finds starts.\<close>

definition prev_line_in_chunk :: "chunks_iter \<Rightarrow> nat option option" where
  "prev_line_in_chunk self = do {
     item \<leftarrow> cursor_item (ci_chunks self);
     (case item of
        None \<Rightarrow> Some None
      | Some chunk \<Rightarrow> do {
          end_ix \<leftarrow> checked_sub (ci_offset self) (c_position (ci_chunks self));
          guard (0 < end_ix);
          b \<leftarrow> vec_get (ck_text chunk) (end_ix - 1);
          let end_ix = (if b = 10 then end_ix - 1 else end_ix);
          t \<leftarrow> str_slice (ck_text chunk) 0 end_ix;
          Some (map_option (\<lambda>newline_ix. c_position (ci_chunks self) + newline_ix + 1) (byte_rfind 10 t))
        })
   }"

definition chunks_prev_line :: "chunks_iter \<Rightarrow> (chunks_iter \<times> bool) option" where
  "chunks_prev_line self = do {
     guard (\<not> ci_reversed self);
     let initial_offset = ci_offset self;
     c \<leftarrow> (if ci_offset self = c_position (ci_chunks self) then cursor_prev usize_dim (ci_chunks self) else Some (ci_chunks self));
     let self = self\<lparr>ci_chunks := c\<rparr>;
     p \<leftarrow> prev_line_in_chunk self;
     let self = (case p of Some offset \<Rightarrow> self\<lparr>ci_offset := offset\<rparr> | None \<Rightarrow> self);
     (if p \<noteq> None \<and> offset_is_valid self then Some (self, True)
      else do {
        c \<leftarrow> search_backward usize_dim has_newline (ci_chunks self);
        let self = self\<lparr>ci_chunks := c, ci_offset := c_position c\<rparr>;
        item \<leftarrow> cursor_item c;
        let newline = Option.bind item (\<lambda>chunk. byte_rfind 10 (ck_text chunk));
        let self = (case newline of Some newline_ix \<Rightarrow> self\<lparr>ci_offset := ci_offset self + (newline_ix + 1)\<rparr> | None \<Rightarrow> self);
        (if newline \<noteq> None \<and> offset_is_valid self
         then do {
           chunk_end \<leftarrow> cursor_end usize_dim c;
           c \<leftarrow> (if ci_offset self = chunk_end then cursor_next usize_dim c else Some c);
           Some (self\<lparr>ci_chunks := c\<rparr>, True)
         }
         else do {
           self \<leftarrow> (if \<not> offset_is_valid self \<or> item = None
             then do {
               (c, _) \<leftarrow> seek usize_dim c (key_target (ci_start self)) Right;
               Some (self\<lparr>ci_chunks := c, ci_offset := ci_start self\<rparr>)
             }
             else Some self);
           Some (self, ci_offset self < initial_offset \<and> ci_offset self = 0)
         })
      })
   }"

subsection \<open>Whole texts\<close>

text \<open>A \<open>for\<close> loop over the chunks.\<close>

partial_function (option) chunks_collect :: "chunks_iter \<Rightarrow> str list option" where
  "chunks_collect self = do {
     (self, n) \<leftarrow> chunks_next self;
     (case n of None \<Rightarrow> Some [] | Some chunk \<Rightarrow> do { rest \<leftarrow> chunks_collect self; Some (chunk # rest) })
   }"

definition rope_chunks_in_range :: "rope \<Rightarrow> nat \<Rightarrow> nat \<Rightarrow> chunks_iter option" where
  "rope_chunks_in_range self range_start range_end = chunks_new self range_start range_end False"

definition rope_reversed_chunks_in_range :: "rope \<Rightarrow> nat \<Rightarrow> nat \<Rightarrow> chunks_iter option" where
  "rope_reversed_chunks_in_range self range_start range_end = chunks_new self range_start range_end True"

definition rope_chunks_iter :: "rope \<Rightarrow> chunks_iter option" where
  "rope_chunks_iter self = rope_chunks_in_range self 0 (rope_len self)"

definition rope_chars_at :: "rope \<Rightarrow> nat \<Rightarrow> rust_char list option" where
  "rope_chars_at self start = do {
     it \<leftarrow> rope_chunks_in_range self start (rope_len self);
     chunks \<leftarrow> chunks_collect it;
     Some (concat (map str_chars chunks))
   }"

definition rope_chars :: "rope \<Rightarrow> rust_char list option" where
  "rope_chars self = rope_chars_at self 0"

definition rope_reversed_chars_at :: "rope \<Rightarrow> nat \<Rightarrow> rust_char list option" where
  "rope_reversed_chars_at self start = do {
     it \<leftarrow> rope_reversed_chunks_in_range self 0 start;
     chunks \<leftarrow> chunks_collect it;
     Some (concat (map (\<lambda>chunk. rev (str_chars chunk)) chunks))
   }"

text \<open>\<open>Display\<close>.\<close>

definition rope_display :: "rope \<Rightarrow> str option" where
  "rope_display self = do { it \<leftarrow> rope_chunks_iter self; chunks \<leftarrow> chunks_collect it; Some (concat chunks) }"

definition str_starts_with :: "str \<Rightarrow> str \<Rightarrow> bool" where
  "str_starts_with s pattern \<longleftrightarrow> take (length pattern) s = pattern"

definition str_ends_with :: "str \<Rightarrow> str \<Rightarrow> bool" where
  "str_ends_with s pattern \<longleftrightarrow> length pattern \<le> length s \<and> drop (length s - length pattern) s = pattern"

text \<open>\<open>equals_str\<close>: its two loops, which leave the function at the first chunk that differs.\<close>

partial_function (option) equals_forward :: "chunks_iter \<Rightarrow> str \<Rightarrow> nat \<Rightarrow> bool option" where
  "equals_forward it other offset = do {
     (it, n) \<leftarrow> chunks_next it;
     (case n of
        None \<Rightarrow> Some (offset = length other)
      | Some chunk \<Rightarrow>
          if length other \<le> offset then Some False
          else do {
            s \<leftarrow> str_slice other offset (length other);
            (if str_starts_with s chunk then equals_forward it other (offset + length chunk) else Some False)
          })
   }"

partial_function (option) equals_backward :: "chunks_iter \<Rightarrow> str \<Rightarrow> nat \<Rightarrow> bool option" where
  "equals_backward it other offset = do {
     (it, n) \<leftarrow> chunks_next it;
     (case n of
        None \<Rightarrow> Some (offset = 0)
      | Some chunk \<Rightarrow> do {
          s \<leftarrow> str_slice other 0 offset;
          (if str_ends_with s chunk then equals_backward it other (offset - length chunk) else Some False)
        })
   }"

definition equals_str :: "chunks_iter \<Rightarrow> str \<Rightarrow> bool option" where
  "equals_str self other =
     (if ci_reversed self then equals_backward self other (length other) else equals_forward self other 0)"

text \<open>\<open>starts_with\<close> and \<open>ends_with\<close>; \<open>get\<close> is \<open>None\<close> where slicing panics.\<close>

partial_function (option) starts_with_loop :: "chunks_iter \<Rightarrow> str \<Rightarrow> bool option" where
  "starts_with_loop it remaining = do {
     (it, n) \<leftarrow> chunks_next it;
     (case n of
        None \<Rightarrow> Some (remaining = [])
      | Some chunk \<Rightarrow>
          (case str_slice chunk 0 (min (length remaining) (length chunk)) of
             None \<Rightarrow> Some False
           | Some chunk \<Rightarrow>
               if str_starts_with remaining chunk then do {
                 remaining \<leftarrow> str_slice remaining (length chunk) (length remaining);
                 (if remaining = [] then Some True else starts_with_loop it remaining)
               } else Some False))
   }"

definition rope_starts_with :: "rope \<Rightarrow> str \<Rightarrow> bool option" where
  "rope_starts_with self pattern =
     (if rope_len self < length pattern then Some False
      else do { it \<leftarrow> rope_chunks_in_range self 0 (rope_len self); starts_with_loop it pattern })"

partial_function (option) ends_with_loop :: "chunks_iter \<Rightarrow> str \<Rightarrow> bool option" where
  "ends_with_loop it remaining = do {
     (it, n) \<leftarrow> chunks_next it;
     (case n of
        None \<Rightarrow> Some (remaining = [])
      | Some chunk \<Rightarrow>
          (case str_slice chunk (length chunk - min (length remaining) (length chunk)) (length chunk) of
             None \<Rightarrow> Some False
           | Some chunk \<Rightarrow>
               if str_ends_with remaining chunk then do {
                 remaining \<leftarrow> str_slice remaining 0 (length remaining - length chunk);
                 (if remaining = [] then Some True else ends_with_loop it remaining)
               } else Some False))
   }"

definition rope_ends_with :: "rope \<Rightarrow> str \<Rightarrow> bool option" where
  "rope_ends_with self pattern =
     (if rope_len self < length pattern then Some False
      else do { it \<leftarrow> rope_reversed_chunks_in_range self 0 (rope_len self); ends_with_loop it pattern })"

subsection \<open>Bytes\<close>

record bytes_iter =
  by_chunks :: "(chunk, chunk_summary, nat) cursor"
  by_start :: nat
  by_end :: nat
  by_reversed :: bool

definition bytes_new :: "rope \<Rightarrow> nat \<Rightarrow> nat \<Rightarrow> bool \<Rightarrow> bytes_iter option" where
  "bytes_new rope range_start range_end reversed = do {
     (chunks, _) \<leftarrow>
       (if reversed then seek usize_dim (cursor_new usize_dim (rope_chunks rope)) (key_target range_end) Left
        else seek usize_dim (cursor_new usize_dim (rope_chunks rope)) (key_target range_start) Right);
     Some \<lparr>by_chunks = chunks, by_start = range_start, by_end = range_end, by_reversed = reversed\<rparr>
   }"

definition bytes_peek :: "bytes_iter \<Rightarrow> str option option" where
  "bytes_peek self = do {
     item \<leftarrow> cursor_item (by_chunks self);
     (case item of
        None \<Rightarrow> Some None
      | Some chunk \<Rightarrow> do {
          chunk_end \<leftarrow> cursor_end usize_dim (by_chunks self);
          (if by_reversed self \<and> chunk_end \<le> by_start self then Some None
           else let chunk_start = c_position (by_chunks self)
                in if by_end self \<le> chunk_start then Some None
                   else let s = by_start self - chunk_start; e = min (length (ck_text chunk)) (by_end self - chunk_start)
                        in if s \<le> e then Some (Some (take (e - s) (drop s (ck_text chunk)))) else None)
        })
   }"

definition bytes_step :: "bytes_iter \<Rightarrow> bytes_iter option" where
  "bytes_step self = do {
     c \<leftarrow> (if by_reversed self then cursor_prev usize_dim (by_chunks self) else cursor_next usize_dim (by_chunks self));
     Some (self\<lparr>by_chunks := c\<rparr>)
   }"

definition bytes_next :: "bytes_iter \<Rightarrow> (bytes_iter \<times> str option) option" where
  "bytes_next self = do {
     result \<leftarrow> bytes_peek self;
     self \<leftarrow> (if result \<noteq> None then bytes_step self else Some self);
     Some (self, result)
   }"

text \<open>\<open>io::Read\<close>: a buffer of a length; what is written to its front.\<close>

definition bytes_read :: "bytes_iter \<Rightarrow> nat \<Rightarrow> (bytes_iter \<times> str) option" where
  "bytes_read self buf_len = do {
     p \<leftarrow> bytes_peek self;
     (case p of
        None \<Rightarrow> Some (self, [])
      | Some chunk \<Rightarrow> do {
          let len = min buf_len (length chunk);
          let (self, out) = (if by_reversed self
             then (self\<lparr>by_end := by_end self - len\<rparr>, rev (drop (length chunk - len) chunk))
             else (self\<lparr>by_start := by_start self + len\<rparr>, take len chunk));
          self \<leftarrow> (if len = length chunk then bytes_step self else Some self);
          Some (self, out)
        })
   }"

definition rope_bytes_in_range :: "rope \<Rightarrow> nat \<Rightarrow> nat \<Rightarrow> bytes_iter option" where
  "rope_bytes_in_range self range_start range_end = bytes_new self range_start range_end False"

definition rope_reversed_bytes_in_range :: "rope \<Rightarrow> nat \<Rightarrow> nat \<Rightarrow> bytes_iter option" where
  "rope_reversed_bytes_in_range self range_start range_end = bytes_new self range_start range_end True"

subsection \<open>Lines\<close>

record lines_iter =
  li_chunks :: chunks_iter
  li_current :: str
  li_done :: bool
  li_reversed :: bool

definition chunks_lines :: "chunks_iter \<Rightarrow> lines_iter" where
  "chunks_lines self = \<lparr>li_chunks = self, li_current = [], li_done = False, li_reversed = ci_reversed self\<rparr>"

text \<open>The \<open>while let\<close> loop of \<open>next\<close>: the line taken from a chunk is complete when the chunk has
  another one behind (or in front of) it.\<close>

partial_function (option) lines_loop :: "lines_iter \<Rightarrow> (lines_iter \<times> str) option" where
  "lines_loop self = do {
     p \<leftarrow> chunks_peek (li_chunks self);
     (case p of
        None \<Rightarrow> Some (self\<lparr>li_done := True\<rparr>, li_current self)
      | Some chunk \<Rightarrow> do {
          let chunk_lines = split_newline chunk;
          let chunk_line = (if li_reversed self then last chunk_lines else hd chunk_lines);
          let line_done = (1 < length chunk_lines);
          (if line_done then do {
             it \<leftarrow> (if li_reversed self
               then chunks_seek (li_chunks self) (ci_offset (li_chunks self) - length chunk_line - 1)
               else chunks_seek (li_chunks self) (ci_offset (li_chunks self) + length chunk_line + 1));
             let self = self\<lparr>li_chunks := it\<rparr>;
             (if li_current self = [] then Some (self, chunk_line)
              else do {
                let self = self\<lparr>li_current := (if li_reversed self then chunk_line @ li_current self else li_current self @ chunk_line)\<rparr>;
                Some (self, li_current self)
              })
           } else do {
             let self = self\<lparr>li_current := (if li_reversed self then chunk_line @ li_current self else li_current self @ chunk_line)\<rparr>;
             (it, _) \<leftarrow> chunks_next (li_chunks self);
             lines_loop (self\<lparr>li_chunks := it\<rparr>)
           })
        })
   }"

definition lines_next :: "lines_iter \<Rightarrow> (lines_iter \<times> str option) option" where
  "lines_next self =
     (if li_done self then Some (self, None)
      else map_option (\<lambda>(self, line). (self, Some line)) (lines_loop (self\<lparr>li_current := []\<rparr>)))"

definition lines_seek :: "lines_iter \<Rightarrow> nat \<Rightarrow> lines_iter option" where
  "lines_seek self offset = do {
     it \<leftarrow> chunks_seek (li_chunks self) offset;
     Some (self\<lparr>li_chunks := it, li_current := [], li_done := False\<rparr>)
   }"

definition lines_offset :: "lines_iter \<Rightarrow> nat" where
  "lines_offset self = ci_offset (li_chunks self)"

end
