(* ===== verification/RopeChunks.thy ===== *)
theory RopeChunks
  imports RopeClip RopeIter "HOL-Library.Sublist"
begin

text \<open>
  What the iterators over the chunks of a rope yield (\<open>crates/rope/src/rope.rs\<close>): forward and backward,
  the text of their range in pieces, and what is decided with them.
\<close>

subsection \<open>Moving the cursor by a chunk\<close>

lemma cursor_next_at:
  assumes "tree_cursor_at c r css1 (cs # css2)"
  obtains c' where "cursor_next usize_dim c = Some c'" "tree_cursor_at c' r (css1 @ [cs]) css2"
proof -
  have c: "cursor_ok chunk_ops usize_dim c" "can_seek c" "c_did_seek c" "c_tree c = rope_chunks r"
    "cursor_rest c = chunk_of cs # map chunk_of css2" "cursor_done c = map chunk_of css1" "rope_of r ((css1 @ [cs]) @ css2)"
    using assms by (simp_all add: tree_cursor_at_def)
  have "c_stack c \<noteq> []" using c(2,3,5) by (auto simp: cursor_rest_def can_seek_def)
  then have p: "pending c = map chunk_of css2" using c(5) by (simp add: pending_def)
  obtain c1 where c1: "cursor_next usize_dim c = Some c1" "cursor_ok chunk_ops usize_dim c1" "can_seek c1" "c_did_seek c1"
    "c_tree c1 = rope_chunks r" "cursor_rest c1 = map chunk_of css2"
    using usize_laws.cursor_next_correct [OF c(1)] c(4) p by auto
  have "cursor_done c1 @ map chunk_of css2 = map chunk_of (css1 @ [cs]) @ map chunk_of css2"
    using cursor_done_rest [OF c1(2)] cursor_done_rest [OF c(1)] c1(5,6) c(4-6) by simp
  then have "cursor_done c1 = map chunk_of (css1 @ [cs])" by (simp only: append_same_eq)
  then show thesis using that [OF c1(1)] c1 c(7) by (simp add: tree_cursor_at_def)
qed

lemma cursor_prev_at:
  assumes "tree_cursor_at c r (css1 @ [cs]) css2"
  obtains c' where "cursor_prev usize_dim c = Some c'" "tree_cursor_at c' r css1 (cs # css2)"
proof -
  have c: "cursor_ok chunk_ops usize_dim c" "c_did_seek c" "c_tree c = rope_chunks r"
    "cursor_rest c = map chunk_of css2" "cursor_done c = map chunk_of css1 @ [chunk_of cs]" "rope_of r (css1 @ cs # css2)"
    using assms by (simp_all add: tree_cursor_at_def)
  have b: "behind c = map chunk_of css1 @ [chunk_of cs]" using c(2,5) by (simp add: behind_def)
  obtain c1 where c1: "cursor_prev usize_dim c = Some c1" "cursor_ok chunk_ops usize_dim c1" "can_seek c1" "c_did_seek c1"
    "c_tree c1 = rope_chunks r" "cursor_done c1 = map chunk_of css1"
    using usize_laws.cursor_prev_correct [OF c(1)] c(3) b by auto
  have "map chunk_of css1 @ cursor_rest c1 = map chunk_of css1 @ map chunk_of (cs # css2)"
    using cursor_done_rest [OF c1(2)] cursor_done_rest [OF c(1)] c1(5,6) c(3-5) by simp
  then have "cursor_rest c1 = map chunk_of (cs # css2)" by (simp only: same_append_eq)
  then show thesis using that [OF c1(1)] c1 c(6) by (simp add: tree_cursor_at_def)
qed

lemma tree_cursor_chunk:
  assumes "tree_cursor_at c r css1 (cs # css2)"
  shows "c_position c = str_len (concat css1)" "cursor_item c = Some (Some (chunk_of cs))"
    "cursor_end usize_dim c = Some (str_len (concat css1) + str_len cs)" "chunk_text cs" "ck_text (chunk_of cs) = utf8 cs"
  using tree_cursor_at_facts [OF assms] assms by (simp_all add: tree_cursor_at_def rope_of_def)

lemma tree_cursor_end:
  assumes "tree_cursor_at c r css1 []"
  shows "c_position c = str_len (concat css1)" "cursor_item c = Some None" "cursor_end usize_dim c = Some (str_len (concat css1))"
  using tree_cursor_at_facts [OF assms] by simp_all

lemma tree_cursor_text: "tree_cursor_at c r css1 css2 \<Longrightarrow> rope_text r (concat css1 @ concat css2)"
  by (auto simp: tree_cursor_at_def intro: rope_textI)

subsection \<open>Forward\<close>

definition fwd_cursor :: "(chunk, chunk_summary, nat) cursor \<Rightarrow> rope \<Rightarrow> rust_char list \<Rightarrow> rust_char list \<Rightarrow> bool" where
  "fwd_cursor c r xs ys \<longleftrightarrow>
     (\<exists>css1 css2 as bs. tree_cursor_at c r css1 css2 \<and> inside css1 css2 xs ys as bs \<and> (css2 = [] \<or> bs \<noteq> []))"

text \<open>The iterator has passed \<open>xs\<close>, its range goes on for \<open>zs\<close>, the text for \<open>ws\<close>.\<close>

definition fwd_at :: "chunks_iter \<Rightarrow> rope \<Rightarrow> rust_char list \<Rightarrow> rust_char list \<Rightarrow> rust_char list \<Rightarrow> bool" where
  "fwd_at it r xs zs ws \<longleftrightarrow> \<not> ci_reversed it \<and> ci_offset it = str_len xs \<and> ci_end it = str_len (xs @ zs) \<and>
     ci_start it \<le> str_len xs \<and> (zs \<noteq> [] \<longrightarrow> fwd_cursor (ci_chunks it) r xs (zs @ ws))"

lemma fwd_cursor_start:
  assumes "tree_cursor_at c r css1 css2"
  shows "fwd_cursor c r (concat css1) (concat css2)"
proof (cases css2)
  case Nil
  then show ?thesis using assms unfolding fwd_cursor_def
    by (intro exI [of _ css1] exI [of _ "[] :: rust_char list list"] exI [of _ "[] :: rust_char list"]) (simp add: inside_def)
next
  case (Cons cs rest)
  have "inside css1 css2 (concat css1) (concat css2) [] cs" using Cons by (simp add: inside_def)
  moreover have "cs \<noteq> []" using tree_cursor_chunk(4) assms Cons by (auto simp: chunk_text_def)
  ultimately show ?thesis using assms unfolding fwd_cursor_def by blast
qed

lemma fwd_cases:
  assumes "fwd_cursor c r xs ys"
  obtains (at_end) css1 where "tree_cursor_at c r css1 []" "xs = concat css1" "ys = []"
  | (at_chunk) css1 css2 as bs where "tree_cursor_at c r css1 ((as @ bs) # css2)" "xs = concat css1 @ as" "ys = bs @ concat css2" "bs \<noteq> []"
proof -
  obtain css1 css2 as bs where c: "tree_cursor_at c r css1 css2" "inside css1 css2 xs ys as bs" "css2 = [] \<or> bs \<noteq> []"
    using assms by (auto simp: fwd_cursor_def)
  show thesis
  proof (cases css2)
    case Nil
    then show thesis using at_end c by (simp add: inside_def)
  next
    case (Cons cs rest)
    then show thesis using at_chunk [of css1 as bs rest] c by (simp add: inside_def)
  qed
qed

lemma fwd_end: "fwd_at it r xs [] ws \<Longrightarrow> chunks_peek it = Some None \<and> chunks_next it = Some (it, None)"
  by (simp add: fwd_at_def chunks_next_def chunks_peek_def offset_is_valid_def)

lemma fwd_split:
  fixes zs :: "rust_char list"
  assumes "zs @ ws = bs @ ss" and "zs \<noteq> []" and "bs \<noteq> []"
  obtains t1 t2 us where "zs = t1 @ t2" "bs = t1 @ us" "t1 \<noteq> []" "t2 = [] \<or> us = []" "t2 @ ws = us @ ss"
proof (cases "str_len zs \<le> str_len bs")
  case True
  with assms(1) obtain us where "bs = zs @ us" "ws = us @ ss" by (rule append_prefix)
  then show thesis using that [of zs "[]" us] assms(2) by simp
next
  case False
  then have "str_len bs \<le> str_len zs" by simp
  with assms(1) [symmetric] obtain t2 where "zs = bs @ t2" "ss = t2 @ ws" by (rule append_prefix)
  then show thesis using that [of bs t2 "[]"] assms(3) by simp
qed

lemma fwd_step:
  assumes "fwd_at it r xs zs ws" and "zs \<noteq> []"
  obtains t1 t2 it' where "zs = t1 @ t2" "t1 \<noteq> []" "valid t1" "chunks_peek it = Some (Some (utf8 t1))"
    "chunks_next it = Some (it', Some (utf8 t1))" "fwd_at it' r (xs @ t1) t2 ws" "ci_start it' = ci_start it"
proof -
  have f: "\<not> ci_reversed it" "ci_offset it = str_len xs" "ci_end it = str_len (xs @ zs)" "ci_start it \<le> str_len xs"
    "fwd_cursor (ci_chunks it) r xs (zs @ ws)"
    using assms by (simp_all add: fwd_at_def)
  from f(5) show thesis
  proof (cases rule: fwd_cases)
    case at_end
    then show thesis using assms(2) by simp
  next
    case (at_chunk css1 css2 as bs)
    note k = tree_cursor_chunk [OF at_chunk(1)]
    obtain t1 t2 us where t: "zs = t1 @ t2" "bs = t1 @ us" "t1 \<noteq> []" "t2 = [] \<or> us = []" "t2 @ ws = us @ concat css2"
      by (rule fwd_split [OF at_chunk(3) assms(2) at_chunk(4)])
    have v: "valid (as @ t1 @ us)" using k(4) t(2) by (simp add: chunk_text_def)
    have ok: "offset_is_valid it" using f assms(2) by (simp add: offset_is_valid_def)
    have "peek_range it = Some (str_len as, str_len (as @ t1))"
      using f k(1,3) t(1,2,4) at_chunk(2) by (auto simp: peek_range_def checked_sub_def)
    then have p: "chunks_peek it = Some (Some (utf8 t1))"
      using ok k(2,5) str_slice_of [OF v] t(2) by (simp add: chunks_peek_def)
    have adv: "\<exists>it'. chunks_advance it (str_len t1) = Some it' \<and> fwd_at it' r (xs @ t1) t2 ws \<and> ci_start it' = ci_start it"
    proof (cases "us = []")
      case True
      obtain c' where c': "cursor_next usize_dim (ci_chunks it) = Some c'" "tree_cursor_at c' r (css1 @ [as @ bs]) css2"
        by (rule cursor_next_at [OF at_chunk(1)])
      have "fwd_cursor c' r (xs @ t1) (t2 @ ws)" using fwd_cursor_start [OF c'(2)] at_chunk(2) t True by simp
      then show ?thesis using f c'(1) k(3) t(1,2) True at_chunk(2)
        by (auto simp: chunks_advance_def fwd_at_def)
    next
      case False
      have "str_len us \<noteq> 0" using False by simp
      moreover have "inside (css1 @ []) ((as @ bs) # css2) (xs @ t1) (t2 @ ws) (as @ t1) us"
        using at_chunk t by (simp add: inside_def)
      then have "fwd_cursor (ci_chunks it) r (xs @ t1) (t2 @ ws)" using at_chunk(1) False unfolding fwd_cursor_def by auto
      ultimately show ?thesis using f k(3) t(1,2) at_chunk(2) by (auto simp: chunks_advance_def fwd_at_def)
    qed
    then obtain it' where "chunks_advance it (str_len t1) = Some it'" "fwd_at it' r (xs @ t1) t2 ws" "ci_start it' = ci_start it" by blast
    then show thesis using that [OF t(1,3) _ p] v p by (simp add: chunks_next_def)
  qed
qed

lemma chunks_new_forward:
  assumes "rope_of r css" and "height (rope_chunks r) < STACK_CAPACITY" and "concat css = xs @ zs @ ws"
  obtains it where "chunks_new r (str_len xs) (str_len (xs @ zs)) False = Some it" "fwd_at it r xs zs ws"
proof -
  have t: "c_tree (cursor_new usize_dim (rope_chunks r)) = rope_chunks r" by (simp add: cursor_new_def)
  obtain c f css1 css2 as bs where c: "seek usize_dim (cursor_new usize_dim (rope_chunks r)) (key_target (str_len xs)) Right = Some (c, f)"
    "tree_cursor_at c r css1 css2" "inside css1 css2 xs (zs @ ws) as bs" "css2 = [] \<or> bs \<noteq> []"
    using seek_right_at [OF assms t] by metis
  have fc: "fwd_cursor c r xs (zs @ ws)" using c(2-4) unfolding fwd_cursor_def by blast
  have "\<exists>item. cursor_item c = Some item \<and>
      (case item of Some chunk \<Rightarrow> assert_char_boundary True chunk (str_len xs - c_position c) | None \<Rightarrow> Some True) = Some True"
    using fc
  proof (cases rule: fwd_cases)
    case (at_end ds)
    then show ?thesis using tree_cursor_end by simp
  next
    case (at_chunk ds1 ds2 as bs)
    note k = tree_cursor_chunk [OF at_chunk(1)]
    have "boundary (as @ bs) (str_len as)" by (rule boundary_append)
    moreover have "str_len (as @ bs) \<le> 128" "str_len as < 2 ^ 32" using k(4) by (simp_all add: chunk_text_def)
    ultimately have "chunk_is_char_boundary (chunk_of (as @ bs)) (str_len as)" using chunk_boundary by blast
    then show ?thesis using k(1,2) at_chunk(2) by (simp add: assert_char_boundary_def)
  qed
  then obtain item where "cursor_item c = Some item"
    "(case item of Some chunk \<Rightarrow> assert_char_boundary True chunk (str_len xs - c_position c) | None \<Rightarrow> Some True) = Some True" by blast
  then have "chunks_new r (str_len xs) (str_len (xs @ zs)) False = Some \<lparr>ci_chunks = c, ci_start = str_len xs,
      ci_end = str_len (xs @ zs), ci_offset = str_len xs, ci_reversed = False\<rparr>"
    using c(1) by (simp add: chunks_new_def Let_def)
  then show thesis using that fc by (simp add: fwd_at_def)
qed

subsection \<open>Backward\<close>

text \<open>In front of the cursor's position is a part of its chunk, or there is no text at all.\<close>

definition bwd_cursor :: "(chunk, chunk_summary, nat) cursor \<Rightarrow> rope \<Rightarrow> rust_char list \<Rightarrow> rust_char list \<Rightarrow> bool" where
  "bwd_cursor c r xs ys \<longleftrightarrow> xs \<noteq> [] \<longrightarrow>
     (\<exists>css1 css2 as bs. tree_cursor_at c r css1 ((as @ bs) # css2) \<and> xs = concat css1 @ as \<and> ys = bs @ concat css2 \<and> as \<noteq> [])"

definition bwd_at :: "chunks_iter \<Rightarrow> rope \<Rightarrow> rust_char list \<Rightarrow> rust_char list \<Rightarrow> rust_char list \<Rightarrow> bool" where
  "bwd_at it r xs zs ws \<longleftrightarrow> ci_reversed it \<and> ci_offset it = str_len (xs @ zs) \<and> ci_start it = str_len xs \<and>
     str_len (xs @ zs) \<le> ci_end it \<and> bwd_cursor (ci_chunks it) r (xs @ zs) ws"

lemma bwd_end: "bwd_at it r xs [] ws \<Longrightarrow> chunks_peek it = Some None \<and> chunks_next it = Some (it, None)"
  by (simp add: bwd_at_def chunks_next_def chunks_peek_def offset_is_valid_def)

lemma bwd_split:
  fixes zs :: "rust_char list"
  assumes "xs @ zs = ss @ as" and "zs \<noteq> []" and "as \<noteq> []"
  obtains t1 t2 us where "zs = t1 @ t2" "as = us @ t2" "t2 \<noteq> []" "t1 = [] \<or> us = []" "xs @ t1 = ss @ us"
proof (cases "str_len xs \<le> str_len ss")
  case True
  with assms(1) obtain t1 where "ss = xs @ t1" "zs = t1 @ as" by (rule append_prefix)
  then show thesis using that [of t1 as "[]"] assms(3) by simp
next
  case False
  then have "str_len ss \<le> str_len xs" by simp
  with assms(1) [symmetric] obtain us where "xs = ss @ us" "as = us @ zs" by (rule append_prefix)
  then show thesis using that [of "[]" zs us] assms(2) by simp
qed

lemma bwd_step:
  assumes "bwd_at it r xs zs ws" and "zs \<noteq> []"
  obtains t1 t2 it' where "zs = t1 @ t2" "t2 \<noteq> []" "valid t2" "chunks_peek it = Some (Some (utf8 t2))"
    "chunks_next it = Some (it', Some (utf8 t2))" "bwd_at it' r xs t1 (t2 @ ws)" "ci_end it' = ci_end it"
proof -
  have f: "ci_reversed it" "ci_offset it = str_len (xs @ zs)" "ci_start it = str_len xs" "str_len (xs @ zs) \<le> ci_end it"
    "bwd_cursor (ci_chunks it) r (xs @ zs) ws"
    using assms(1) by (simp_all add: bwd_at_def)
  obtain css1 css2 as bs where at: "tree_cursor_at (ci_chunks it) r css1 ((as @ bs) # css2)" "xs @ zs = concat css1 @ as"
    "ws = bs @ concat css2" "as \<noteq> []"
    using f(5) assms(2) by (auto simp: bwd_cursor_def)
  note k = tree_cursor_chunk [OF at(1)]
  obtain t1 t2 us where t: "zs = t1 @ t2" "as = us @ t2" "t2 \<noteq> []" "t1 = [] \<or> us = []" "xs @ t1 = concat css1 @ us"
    by (rule bwd_split [OF at(2) assms(2) at(4)])
  have len: "str_len xs + str_len t1 = str_len (concat css1) + str_len us" using arg_cong [OF t(5), of str_len] by simp
  have v: "valid (us @ t2 @ bs)" using k(4) t(2) by (simp add: chunk_text_def)
  have ok: "offset_is_valid it" using f assms(2) by (simp add: offset_is_valid_def)
  have "peek_range it = Some (str_len us, str_len (us @ t2))"
    using f k(1) t(1,4) len by (auto simp: peek_range_def checked_sub_def)
  then have p: "chunks_peek it = Some (Some (utf8 t2))"
    using ok k(2,5) str_slice_of [OF v] t(2) by (simp add: chunks_peek_def)
  have adv: "\<exists>it'. chunks_advance it (str_len t2) = Some it' \<and> bwd_at it' r xs t1 (t2 @ ws) \<and> ci_end it' = ci_end it"
  proof (cases "us = []")
    case True
    have "\<exists>c'. cursor_prev usize_dim (ci_chunks it) = Some c' \<and> bwd_cursor c' r (xs @ t1) (t2 @ ws)"
    proof (cases css1 rule: rev_cases)
      case Nil
      have "cursor_ok chunk_ops usize_dim (ci_chunks it)" using at(1) by (simp add: tree_cursor_at_def)
      from usize_laws.cursor_prev_correct [OF this] show ?thesis using t(5) Nil True by (auto simp: bwd_cursor_def)
    next
      case (snoc dss ds)
      obtain c' where c': "cursor_prev usize_dim (ci_chunks it) = Some c'" "tree_cursor_at c' r dss (ds # (as @ bs) # css2)"
        using cursor_prev_at at(1) snoc by blast
      have "tree_cursor_at c' r dss ((ds @ []) # (as @ bs) # css2)" using c'(2) by simp
      moreover have "xs @ t1 = concat dss @ ds" "t2 @ ws = [] @ concat ((as @ bs) # css2)" using t(2,5) at(3) snoc True by simp_all
      moreover have "ds \<noteq> []" using tree_cursor_chunk(4) [OF c'(2)] by (simp add: chunk_text_def)
      ultimately show ?thesis using c'(1) unfolding bwd_cursor_def by blast
    qed
    then show ?thesis using f k(1) t(1) len True by (auto simp: chunks_advance_def bwd_at_def)
  next
    case False
    have "tree_cursor_at (ci_chunks it) r css1 ((us @ (t2 @ bs)) # css2)" using at(1) t(2) by simp
    then have "bwd_cursor (ci_chunks it) r (xs @ t1) (t2 @ ws)" using t(5) at(3) False unfolding bwd_cursor_def by fastforce
    moreover have "str_len us \<noteq> 0" using False by simp
    ultimately show ?thesis using f k(1) t(1) len by (auto simp: chunks_advance_def bwd_at_def)
  qed
  then obtain it' where "chunks_advance it (str_len t2) = Some it'" "bwd_at it' r xs t1 (t2 @ ws)" "ci_end it' = ci_end it" by blast
  then show thesis using that [OF t(1,3) _ p] v p by (simp add: chunks_next_def)
qed

lemma seek_left_at:
  assumes "rope_of r css" and "height (rope_chunks r) < STACK_CAPACITY" and "concat css = xs @ ys" and "c_tree c0 = rope_chunks r"
  obtains c f where "seek usize_dim c0 (key_target (str_len xs)) Left = Some (c, f)" "bwd_cursor c r xs ys"
    "\<exists>css1 css2. tree_cursor_at c r css1 css2 \<and> (xs = [] \<longrightarrow> css1 = [])"
proof -
  let ?tgt = "key_target (str_len xs)"
  have r: "wf_tree chunk_ops (rope_chunks r)" "tree_items (rope_chunks r) = map chunk_of css" using assms(1) by (simp_all add: rope_of_def)
  note t = usize_pos.tracks_self [of "str_len xs"]
  obtain css1 css2 where s: "css = css1 @ css2"
    "seek_split chunk_ops usize_dim (\<lambda>d. passes Left (?tgt d)) (str_len []) (map chunk_of css) =
       (map chunk_of css1, map chunk_of css2, str_len ([] @ concat css1))"
    "css1 \<noteq> [] \<Longrightarrow> passes Left (cmp (str_len xs) (str_len ([] @ concat css1)))"
    "css2 \<noteq> [] \<Longrightarrow> \<not> passes Left (cmp (str_len xs) (str_len ([] @ concat css1 @ hd css2)))"
    using usize_pos.seek_text [OF t rope_chunk_lens [OF assms(1)], of Left "[]"] by auto
  have m: "mono_target chunk_ops usize_dim (\<lambda>d. passes Left (?tgt d)) (d_zero usize_dim) (tree_items (rope_chunks r))"
    using usize_pos.mono_text [OF t rope_chunk_lens [OF assms(1)], of Left "[]"] r(2) by simp
  have n: "?tgt (d_zero usize_dim) \<noteq> Less" by (simp add: key_target_def usize_dim_def)
  obtain c f where c: "seek usize_dim c0 ?tgt Left = Some (c, f)"
    "cursor_ok chunk_ops usize_dim c" "can_seek c" "c_did_seek c" "c_tree c = rope_chunks r"
    "cursor_done c = map chunk_of css1" "cursor_rest c = map chunk_of css2"
    using usize_laws.seek_correct [OF r(1) assms(2,4) n m, of "map chunk_of css1" "map chunk_of css2" "str_len (concat css1)"] s(2) r(2)
    by auto
  have at: "tree_cursor_at c r css1 css2" using c assms(1) s(1) by (simp add: tree_cursor_at_def)
  have tx: "concat css1 @ concat css2 = xs @ ys" using assms(3) s(1) by simp
  have le: "str_len (concat css1) \<le> str_len xs" using s(3) by (cases "css1 = []") (auto simp: passes_cmp)
  from append_prefix [OF tx le] obtain as where as: "xs = concat css1 @ as" "concat css2 = as @ ys" .
  have "bwd_cursor c r xs ys"
  proof (cases css2)
    case Nil
    then have "as = []" "css1 = []" using as s(3) by (auto simp: passes_cmp)
    then show ?thesis using as(1) by (simp add: bwd_cursor_def)
  next
    case (Cons cs rest)
    have "str_len as \<le> str_len cs" using s(4) as(1) Cons by (simp add: passes_cmp)
    moreover have "as @ ys = cs @ concat rest" using as(2) Cons by simp
    ultimately obtain bs where bs: "cs = as @ bs" "ys = bs @ concat rest" using append_prefix by metis
    have "as \<noteq> []" if "xs \<noteq> []" using that as(1) s(3) by (cases "css1 = []") (auto simp: passes_cmp)
    then show ?thesis using at as(1) bs Cons unfolding bwd_cursor_def by blast
  qed
  moreover have "css1 = []" if "xs = []" using that s(3) by (auto simp: passes_cmp)
  ultimately show thesis using that c(1) at by blast
qed

lemma chunks_new_backward:
  assumes "rope_of r css" and "height (rope_chunks r) < STACK_CAPACITY" and "concat css = xs @ zs @ ws"
  obtains it where "chunks_new r (str_len xs) (str_len (xs @ zs)) True = Some it" "bwd_at it r xs zs ws" "ci_end it = str_len (xs @ zs)"
proof -
  have t: "c_tree (cursor_new usize_dim (rope_chunks r)) = rope_chunks r" by (simp add: cursor_new_def)
  have tx: "concat css = (xs @ zs) @ ws" using assms(3) by simp
  obtain c f where c: "seek usize_dim (cursor_new usize_dim (rope_chunks r)) (key_target (str_len (xs @ zs))) Left = Some (c, f)"
    "bwd_cursor c r (xs @ zs) ws" "\<exists>css1 css2. tree_cursor_at c r css1 css2 \<and> (xs @ zs = [] \<longrightarrow> css1 = [])"
    by (rule seek_left_at [OF assms(1,2) tx t])
  have "\<exists>item. cursor_item c = Some item \<and>
      (case item of Some chunk \<Rightarrow> assert_char_boundary True chunk (str_len (xs @ zs) - c_position c) | None \<Rightarrow> Some True) = Some True"
  proof (cases "xs @ zs = []")
    case True
    then obtain css2 where a: "tree_cursor_at c r [] css2" using c(3) by auto
    show ?thesis
    proof (cases css2)
      case Nil
      then show ?thesis using tree_cursor_end a by auto
    next
      case (Cons cs rest)
      note k = tree_cursor_chunk [OF a [unfolded Cons]]
      have "boundary cs 0" "str_len cs \<le> 128" using k(4) by (simp_all add: chunk_text_def)
      then have "chunk_is_char_boundary (chunk_of cs) 0" using chunk_boundary by simp
      then show ?thesis using k(1,2) True by (simp add: assert_char_boundary_def)
    qed
  next
    case False
    then obtain css1 css2 as bs where at: "tree_cursor_at c r css1 ((as @ bs) # css2)" "xs @ zs = concat css1 @ as"
      using c(2) unfolding bwd_cursor_def by blast
    note k = tree_cursor_chunk [OF at(1)]
    have "boundary (as @ bs) (str_len as)" by (rule boundary_append)
    moreover have "str_len (as @ bs) \<le> 128" "str_len as < 2 ^ 32" using k(4) by (simp_all add: chunk_text_def)
    ultimately have "chunk_is_char_boundary (chunk_of (as @ bs)) (str_len as)" using chunk_boundary by blast
    moreover have "str_len (xs @ zs) - c_position c = str_len as" unfolding at(2) k(1) by simp
    ultimately show ?thesis using k(2) by (simp add: assert_char_boundary_def)
  qed
  then obtain item where "cursor_item c = Some item"
    "(case item of Some chunk \<Rightarrow> assert_char_boundary True chunk (str_len (xs @ zs) - c_position c) | None \<Rightarrow> Some True) = Some True" by blast
  then have "chunks_new r (str_len xs) (str_len (xs @ zs)) True = Some \<lparr>ci_chunks = c, ci_start = str_len xs,
      ci_end = str_len (xs @ zs), ci_offset = str_len (xs @ zs), ci_reversed = True\<rparr>"
    using c(1) by (simp add: chunks_new_def Let_def del: str_len_append)
  then show thesis using that c(2) by (simp add: bwd_at_def)
qed

subsection \<open>Collecting\<close>

lemma collect_forward:
  assumes "fwd_at it r xs zs ws"
  shows "\<exists>ts. chunks_collect it = Some (map utf8 ts) \<and> concat ts = zs \<and> [] \<notin> set ts"
  using assms
proof (induction "length zs" arbitrary: it xs zs rule: less_induct)
  case less
  show ?case
  proof (cases "zs = []")
    case True
    then show ?thesis using fwd_end less.prems by (subst chunks_collect.simps) simp
  next
    case False
    obtain t1 t2 it' where t: "zs = t1 @ t2" "t1 \<noteq> []" "valid t1" "chunks_peek it = Some (Some (utf8 t1))"
      "chunks_next it = Some (it', Some (utf8 t1))" "fwd_at it' r (xs @ t1) t2 ws" "ci_start it' = ci_start it"
      by (rule fwd_step [OF less.prems False])
    then obtain ts where ts: "chunks_collect it' = Some (map utf8 ts)" "concat ts = t2" "[] \<notin> set ts"
      using less.hyps [OF _ t(6)] by auto
    have "chunks_collect it = Some (map utf8 (t1 # ts))" by (subst chunks_collect.simps) (simp add: t(5) ts(1))
    moreover have "concat (t1 # ts) = zs" "[] \<notin> set (t1 # ts)" using t(1,2) ts(2,3) by auto
    ultimately show ?thesis by blast
  qed
qed

lemma collect_backward:
  assumes "bwd_at it r xs zs ws"
  shows "\<exists>ts. chunks_collect it = Some (map utf8 ts) \<and> concat (rev ts) = zs \<and> [] \<notin> set ts"
  using assms
proof (induction "length zs" arbitrary: it zs ws rule: less_induct)
  case less
  show ?case
  proof (cases "zs = []")
    case True
    then show ?thesis using bwd_end less.prems by (subst chunks_collect.simps) simp
  next
    case False
    obtain t1 t2 it' where t: "zs = t1 @ t2" "t2 \<noteq> []" "valid t2" "chunks_peek it = Some (Some (utf8 t2))"
      "chunks_next it = Some (it', Some (utf8 t2))" "bwd_at it' r xs t1 (t2 @ ws)" "ci_end it' = ci_end it"
      by (rule bwd_step [OF less.prems False])
    then obtain ts where ts: "chunks_collect it' = Some (map utf8 ts)" "concat (rev ts) = t1" "[] \<notin> set ts"
      using less.hyps [OF _ t(6)] by auto
    have "chunks_collect it = Some (map utf8 (t2 # ts))" by (subst chunks_collect.simps) (simp add: t(5) ts(1))
    moreover have "concat (rev (t2 # ts)) = zs" "[] \<notin> set (t2 # ts)" using t(1,2) ts(2,3) by auto
    ultimately show ?thesis by blast
  qed
qed

subsection \<open>Decoding\<close>

lemma byte_and:
  fixes n :: nat
  assumes "n < 256"
  shows "unat (and (of_nat n :: u8) 0x3F) = n mod 64" "unat (and (of_nat n :: u8) 0x1F) = n mod 32"
    "unat (and (of_nat n :: u8) 0x0F) = n mod 16" "unat (and (of_nat n :: u8) 0x07) = n mod 8"
proof -
  have m: "and (of_nat n :: u8) (mask k) = take_bit k (of_nat n)" for k by (simp add: take_bit_eq_mask)
  have "unat (take_bit k (of_nat n :: u8)) = take_bit k (unat (of_nat n :: u8))" for k by (rule unsigned_take_bit_eq)
  then have u: "unat (take_bit k (of_nat n :: u8)) = n mod 2 ^ k" for k
    unfolding unat_byte [OF assms] by (simp only: take_bit_eq_mod)
  show "unat (and (of_nat n :: u8) 0x3F) = n mod 64" using m [of 6] u [of 6] by (simp add: mask_eq_exp_minus_1)
  show "unat (and (of_nat n :: u8) 0x1F) = n mod 32" using m [of 5] u [of 5] by (simp add: mask_eq_exp_minus_1)
  show "unat (and (of_nat n :: u8) 0x0F) = n mod 16" using m [of 4] u [of 4] by (simp add: mask_eq_exp_minus_1)
  show "unat (and (of_nat n :: u8) 0x07) = n mod 8" using m [of 3] u [of 3] by (simp add: mask_eq_exp_minus_1)
qed

lemma byte_less: "n < 256 \<Longrightarrow> m < 256 \<Longrightarrow> (of_nat n :: u8) < of_nat m \<longleftrightarrow> n < m"
  by (simp add: word_less_nat_alt unat_byte)

lemma byte_less_numeral:
  assumes "n < 256"
  shows "(of_nat n :: u8) < 0x80 \<longleftrightarrow> n < 0x80" "(of_nat n :: u8) < 0xE0 \<longleftrightarrow> n < 0xE0" "(of_nat n :: u8) < 0xF0 \<longleftrightarrow> n < 0xF0"
  using byte_less [OF assms, of "0x80"] byte_less [OF assms, of "0xE0"] byte_less [OF assms, of "0xF0"] by simp_all

lemma tail_byte: "0x80 + x mod 64 < 256" "(0x80 + x mod 64) mod 64 = x mod 64" for x :: nat
  using mod_less_divisor [of 64 x] mod_mult_self1 [of "x mod 64" 2 64] by (simp_all add: add.commute)

lemma lead_byte:
  fixes q :: nat
  shows "q < 32 \<Longrightarrow> (0xC0 + q) mod 32 = q" "q < 16 \<Longrightarrow> (0xE0 + q) mod 16 = q" "q < 8 \<Longrightarrow> (0xF0 + q) mod 8 = q"
  using mod_mult_self1 [of q 6 32] mod_mult_self1 [of q 14 16] mod_mult_self1 [of q 30 8] by (simp_all add: add.commute)

lemma base_64:
  fixes c :: nat
  shows "c div 64 * 64 + c mod 64 = c" "c div 4096 * 4096 + (c div 64 mod 64 * 64 + c mod 64) = c"
    "c div 262144 * 262144 + (c div 4096 mod 64 * 64 + c div 64 mod 64) * 64 + c mod 64 = c"
proof -
  have d: "c div 4096 = c div 64 div 64" "c div 262144 = c div 64 div 64 div 64" by (simp_all add: div_mult2_eq [symmetric])
  have "c div 64 * 64 + c mod 64 = c" "c div 64 div 64 * 64 + c div 64 mod 64 = c div 64"
    "c div 64 div 64 div 64 * 64 + c div 64 div 64 mod 64 = c div 64 div 64" by (rule div_mult_mod_eq)+
  moreover have "v * 4096 + (y * 64 + x) = w \<and> z * 262144 + (t * 64 + y) * 64 + x = w"
    if "u * 64 + x = w" "v * 64 + y = u" "z * 64 + t = v" for u v w x y z t :: nat
    unfolding that(1) [symmetric] that(2) [symmetric] that(3) [symmetric] by simp
  ultimately show "c div 64 * 64 + c mod 64 = c" "c div 4096 * 4096 + (c div 64 mod 64 * 64 + c mod 64) = c"
    "c div 262144 * 262144 + (c div 4096 mod 64 * 64 + c div 64 mod 64) * 64 + c mod 64 = c"
    unfolding d by blast+
qed

lemma str_chars_encode:
  assumes "scalar_value c"
  shows "str_chars (encode_char c @ s) = c # str_chars s"
proof -
  have c: "c < 0x110000" using assms by (auto simp: scalar_value_def)
  note byte = byte_less_numeral byte_and tail_byte Let_def
  consider "c < 0x80" | "0x80 \<le> c" "c < 0x800" | "0x800 \<le> c" "c < 0x10000" | "0x10000 \<le> c" by linarith
  then show ?thesis
  proof cases
    case 1
    then show ?thesis using byte_less_numeral [of c] unat_byte [of c] by (simp add: encode_char_def)
  next
    case 2
    define b where "b = 0xC0 + c div 64"
    have "c div 64 < 32" using 2 by (simp add: less_mult_imp_div_less)
    then have b: "b < 256" "\<not> b < 0x80" "b < 0xE0" "b mod 32 = c div 64" using lead_byte(1) unfolding b_def by simp_all
    show ?thesis using 2 b base_64(1) [of c] by (simp add: encode_char_def b_def [symmetric] byte del: of_nat_add)
  next
    case 3
    define b where "b = 0xE0 + c div 4096"
    have "c div 4096 < 16" using 3 by (simp add: less_mult_imp_div_less)
    then have b: "b < 256" "\<not> b < 0x80" "\<not> b < 0xE0" "b < 0xF0" "b mod 16 = c div 4096"
      using lead_byte(2) unfolding b_def by simp_all
    show ?thesis using 3 b base_64(2) [of c] by (simp add: encode_char_def b_def [symmetric] byte del: of_nat_add)
  next
    case 4
    define b where "b = 0xF0 + c div 262144"
    have "c div 262144 < 5" using c by (simp add: less_mult_imp_div_less)
    then have b: "b < 256" "\<not> b < 0x80" "\<not> b < 0xE0" "\<not> b < 0xF0" "b mod 8 = c div 262144"
      using lead_byte(3) unfolding b_def by simp_all
    show ?thesis using 4 b base_64(3) [of c] by (simp add: encode_char_def b_def [symmetric] byte del: of_nat_add)
  qed
qed

lemma str_chars_utf8: "valid cs \<Longrightarrow> str_chars (utf8 cs @ s) = cs @ str_chars s"
  by (induction cs) (simp_all add: str_chars_encode)

lemma utf8_prefix:
  assumes "valid a" and "valid b" and "utf8 b = utf8 a @ s"
  shows "\<exists>c. b = a @ c \<and> s = utf8 c"
proof -
  have "b = a @ str_chars s" using str_chars_utf8 [OF assms(2), of "[]"] str_chars_utf8 [OF assms(1), of s] assms(3) by simp
  then show ?thesis using assms(3) by (metis append_eq_append_conv utf8_simps(3))
qed

lemma utf8_boundary_start:
  assumes "valid a" and "a \<noteq> []"
  shows "is_utf8_char_boundary (utf8 a ! 0)"
proof -
  obtain c ds where "a = c # ds" using assms(2) by (cases a) auto
  then obtain bs where "map is_utf8_char_boundary (utf8 a) = True # bs" using map_utf8(1) [OF assms(1)] by (auto simp: char_bits_def)
  then show ?thesis by (cases "utf8 a") simp_all
qed

lemma utf8_suffix:
  assumes "valid a" and "valid b" and "utf8 b = s @ utf8 a"
  shows "\<exists>c. b = c @ a \<and> s = utf8 c"
proof (cases "a = []")
  case True
  then show ?thesis using assms(3) by (intro exI [of _ b]) simp
next
  case False
  have "utf8 b ! length s = utf8 a ! 0" using False assms(3) by (simp add: nth_append)
  then have "str_is_char_boundary (utf8 b) (length s)"
    using utf8_boundary_start [OF assms(1) False] False arg_cong [OF assms(3), of length] by (simp add: str_is_char_boundary_def)
  then obtain c d where c: "b = c @ d" "length s = str_len c" using str_boundary [OF assms(2)] by (auto simp: boundary_def)
  then have e: "s = utf8 c" "utf8 a = utf8 d" using assms(3) by (simp_all add: append_eq_append_conv)
  then have "a = d" using str_chars_utf8 [OF assms(1), of "[]"] str_chars_utf8 [of d "[]"] assms(2) c(1) by simp
  then show ?thesis using c(1) e(1) by blast
qed

subsection \<open>Comparing\<close>

lemma starts_with_utf8:
  assumes "valid a" and "valid b"
  shows "str_starts_with (utf8 b) (utf8 a) \<longleftrightarrow> prefix a b"
proof
  assume s: "str_starts_with (utf8 b) (utf8 a)"
  have "utf8 b = take (length (utf8 a)) (utf8 b) @ drop (length (utf8 a)) (utf8 b)" by (simp only: append_take_drop_id)
  then show "prefix a b" using utf8_prefix [OF assms] s unfolding str_starts_with_def prefix_def by metis
qed (auto simp: str_starts_with_def prefix_def)

lemma ends_with_utf8:
  assumes "valid a" and "valid b"
  shows "str_ends_with (utf8 b) (utf8 a) \<longleftrightarrow> Sublist.suffix a b"
proof
  assume s: "str_ends_with (utf8 b) (utf8 a)"
  have "utf8 b = take (length (utf8 b) - length (utf8 a)) (utf8 b) @ drop (length (utf8 b) - length (utf8 a)) (utf8 b)"
    by (simp only: append_take_drop_id)
  then show "Sublist.suffix a b" using utf8_suffix [OF assms] s unfolding str_ends_with_def Sublist.suffix_def by metis
qed (auto simp: str_ends_with_def Sublist.suffix_def)

lemma slice_rest: "valid (xs @ ys) \<Longrightarrow> str_slice (utf8 (xs @ ys)) (str_len xs) (length (utf8 (xs @ ys))) = Some (utf8 ys)"
  using str_slice_of [of xs ys "[]"] by simp

lemma slice_front: "valid (xs @ ys) \<Longrightarrow> str_slice (utf8 (xs @ ys)) 0 (str_len xs) = Some (utf8 xs)"
  using str_slice_of [of "[]" xs ys] by simp

lemma equals_forward_at:
  assumes "fwd_at it r xs zs ws" and "valid (o1 @ o2)"
  shows "equals_forward it (utf8 (o1 @ o2)) (str_len o1) = Some (zs = o2)"
  using assms
proof (induction "length zs" arbitrary: it xs zs o1 o2 rule: less_induct)
  case less
  show ?case
  proof (cases "zs = []")
    case True
    then show ?thesis using fwd_end less.prems by (subst equals_forward.simps) auto
  next
    case False
    obtain t1 t2 it' where t: "zs = t1 @ t2" "t1 \<noteq> []" "valid t1" "chunks_peek it = Some (Some (utf8 t1))"
      "chunks_next it = Some (it', Some (utf8 t1))" "fwd_at it' r (xs @ t1) t2 ws" "ci_start it' = ci_start it"
      by (rule fwd_step [OF less.prems(1) False])
    have v: "valid o2" using less.prems(2) by simp
    have step: "equals_forward it (utf8 (o1 @ o2)) (str_len o1) = (if o2 = [] then Some False
        else if prefix t1 o2 then equals_forward it' (utf8 (o1 @ o2)) (str_len o1 + str_len t1) else Some False)"
      using slice_rest [OF less.prems(2)] starts_with_utf8 [OF t(3) v] by (subst equals_forward.simps) (simp add: t(5))
    show ?thesis
    proof (cases "prefix t1 o2")
      case True
      then obtain o3 where o: "o2 = t1 @ o3" by (auto simp: prefix_def)
      have "valid ((o1 @ t1) @ o3)" using less.prems(2) o by simp
      moreover have "length t2 < length zs" using t(1,2) by simp
      ultimately have "equals_forward it' (utf8 ((o1 @ t1) @ o3)) (str_len (o1 @ t1)) = Some (t2 = o3)"
        using less.hyps [OF _ t(6)] by blast
      then show ?thesis unfolding step using True o t(1,2) by simp
    next
      case np: False
      then have "zs \<noteq> o2" using t(1) by (auto simp: prefix_def)
      then show ?thesis unfolding step using np by simp
    qed
  qed
qed

lemma equals_backward_at:
  assumes "bwd_at it r xs zs ws" and "valid (o1 @ o2)"
  shows "equals_backward it (utf8 (o1 @ o2)) (str_len o1) = Some (zs = o1)"
  using assms
proof (induction "length zs" arbitrary: it zs ws o1 o2 rule: less_induct)
  case less
  show ?case
  proof (cases "zs = []")
    case True
    then show ?thesis using bwd_end less.prems by (subst equals_backward.simps) auto
  next
    case False
    obtain t1 t2 it' where t: "zs = t1 @ t2" "t2 \<noteq> []" "valid t2" "chunks_peek it = Some (Some (utf8 t2))"
      "chunks_next it = Some (it', Some (utf8 t2))" "bwd_at it' r xs t1 (t2 @ ws)" "ci_end it' = ci_end it"
      by (rule bwd_step [OF less.prems(1) False])
    have v: "valid o1" using less.prems(2) by simp
    have step: "equals_backward it (utf8 (o1 @ o2)) (str_len o1) =
        (if Sublist.suffix t2 o1 then equals_backward it' (utf8 (o1 @ o2)) (str_len o1 - str_len t2) else Some False)"
      using slice_front [OF less.prems(2)] ends_with_utf8 [OF t(3) v] by (subst equals_backward.simps) (simp add: t(5))
    show ?thesis
    proof (cases "Sublist.suffix t2 o1")
      case True
      then obtain o3 where o: "o1 = o3 @ t2" by (auto simp: Sublist.suffix_def)
      have "valid (o3 @ (t2 @ o2))" using less.prems(2) o by simp
      moreover have "length t1 < length zs" using t(1,2) by simp
      ultimately have "equals_backward it' (utf8 (o3 @ (t2 @ o2))) (str_len o3) = Some (t1 = o3)"
        using less.hyps [OF _ t(6)] by blast
      then show ?thesis unfolding step using True o t(1) by simp
    next
      case np: False
      then have "zs \<noteq> o1" using t(1) by (auto simp: Sublist.suffix_def)
      then show ?thesis unfolding step using np by simp
    qed
  qed
qed

text \<open>A chunk cut to the length of what is left of the pattern.\<close>

lemma cut_front:
  assumes "valid t" and "n \<le> str_len t"
  obtains "str_slice (utf8 t) 0 n = None" "\<not> boundary t n"
  | u w where "t = u @ w" "n = str_len u" "str_slice (utf8 t) 0 n = Some (utf8 u)"
proof (cases "boundary t n")
  case True
  then obtain u w where "t = u @ w" "n = str_len u" by (auto simp: boundary_def)
  then show thesis using that(2) slice_front assms(1) by blast
next
  case False
  then show thesis using that(1) str_boundary [OF assms(1), of n] by (simp add: str_slice_def)
qed

lemma cut_back:
  assumes "valid t" and "n \<le> str_len t"
  obtains "str_slice (utf8 t) n (length (utf8 t)) = None" "\<not> boundary t n"
  | u w where "t = w @ u" "n = str_len w" "str_slice (utf8 t) n (length (utf8 t)) = Some (utf8 u)"
proof (cases "boundary t n")
  case True
  then obtain w u where "t = w @ u" "n = str_len w" by (auto simp: boundary_def)
  then show thesis using that(2) slice_rest assms(1) by blast
next
  case False
  then show thesis using that(1) str_boundary [OF assms(1), of n] by (simp add: str_slice_def)
qed

lemma starts_with_loop_at:
  assumes "fwd_at it r xs zs ws" and "valid p"
  shows "starts_with_loop it (utf8 p) = Some (prefix p zs)"
  using assms
proof (induction "length zs" arbitrary: it xs zs p rule: less_induct)
  case less
  show ?case
  proof (cases "zs = []")
    case True
    then show ?thesis using fwd_end less.prems by (subst starts_with_loop.simps) auto
  next
    case False
    obtain t1 t2 it' where t: "zs = t1 @ t2" "t1 \<noteq> []" "valid t1" "chunks_peek it = Some (Some (utf8 t1))"
      "chunks_next it = Some (it', Some (utf8 t1))" "fwd_at it' r (xs @ t1) t2 ws" "ci_start it' = ci_start it"
      by (rule fwd_step [OF less.prems(1) False])
    have "min (str_len p) (str_len t1) \<le> str_len t1" by simp
    from t(3) this show ?thesis
    proof (cases rule: cut_front)
      case 1
      have "\<not> prefix p zs"
      proof
        assume "prefix p zs"
        then obtain c where c: "t1 @ t2 = p @ c" using t(1) by (auto simp: prefix_def)
        show False
        proof (cases "str_len p \<le> str_len t1")
          case True
          with c [symmetric] obtain e where "t1 = p @ e" by (rule append_prefix)
          then show False using 1(2) True boundary_append [of p e] by simp
        next
          case False
          then show False using 1(2) boundary_append [of t1 "[]"] by simp
        qed
      qed
      then show ?thesis using 1(1) by (subst starts_with_loop.simps) (simp add: t(5))
    next
      case (2 u w)
      have v: "valid u" using 2(1) t(3) by simp
      have step: "starts_with_loop it (utf8 p) = (if prefix u p then do {
          remaining \<leftarrow> str_slice (utf8 p) (str_len u) (length (utf8 p));
          (if remaining = [] then Some True else starts_with_loop it' remaining) } else Some False)"
        using 2(3) starts_with_utf8 [OF v less.prems(2)] by (subst starts_with_loop.simps) (simp add: t(5))
      show ?thesis
      proof (cases "prefix u p")
        case True
        then obtain o1 where o: "p = u @ o1" by (auto simp: prefix_def)
        have "str_slice (utf8 p) (str_len u) (length (utf8 p)) = Some (utf8 o1)" using slice_rest less.prems(2) o by blast
        then have step2: "starts_with_loop it (utf8 p) = (if o1 = [] then Some True else starts_with_loop it' (utf8 o1))"
          unfolding step using True by simp
        show ?thesis
        proof (cases "o1 = []")
          case True
          then show ?thesis unfolding step2 using o 2(1) t(1) by (simp add: prefix_def)
        next
          case ne: False
          then have "w = []" using 2(1,2) o by (auto simp: min_def split: if_splits)
          then have "t1 = u" using 2(1) by simp
          moreover have "starts_with_loop it' (utf8 o1) = Some (prefix o1 t2)"
            using less.hyps [OF _ t(6)] t(1,2) less.prems(2) o by simp
          ultimately show ?thesis unfolding step2 using ne o t(1) by simp
        qed
      next
        case np: False
        have "\<not> prefix p zs"
        proof
          assume "prefix p zs"
          then obtain c where c: "p @ c = u @ (w @ t2)" using t(1) 2(1) by (auto simp: prefix_def)
          have "str_len u \<le> str_len p" using 2(2) by simp
          with c [symmetric] obtain e where "p = u @ e" by (rule append_prefix)
          then show False using np by (simp add: prefix_def)
        qed
        then show ?thesis unfolding step using np by simp
      qed
    qed
  qed
qed

lemma ends_with_loop_at:
  assumes "bwd_at it r xs zs ws" and "valid p"
  shows "ends_with_loop it (utf8 p) = Some (Sublist.suffix p zs)"
  using assms
proof (induction "length zs" arbitrary: it zs ws p rule: less_induct)
  case less
  show ?case
  proof (cases "zs = []")
    case True
    then show ?thesis using bwd_end less.prems by (subst ends_with_loop.simps) auto
  next
    case False
    obtain t1 t2 it' where t: "zs = t1 @ t2" "t2 \<noteq> []" "valid t2" "chunks_peek it = Some (Some (utf8 t2))"
      "chunks_next it = Some (it', Some (utf8 t2))" "bwd_at it' r xs t1 (t2 @ ws)" "ci_end it' = ci_end it"
      by (rule bwd_step [OF less.prems(1) False])
    have l: "str_len t2 - min (str_len p) (str_len t2) \<le> str_len t2" by simp
    from t(3) this show ?thesis
    proof (cases rule: cut_back)
      case 1
      have "\<not> Sublist.suffix p zs"
      proof
        assume "Sublist.suffix p zs"
        then obtain c where c: "t1 @ t2 = c @ p" using t(1) by (auto simp: Sublist.suffix_def)
        show False
        proof (cases "str_len p \<le> str_len t2")
          case True
          then have "str_len t1 \<le> str_len c" using arg_cong [OF c, of str_len] by simp
          with c obtain e where "t2 = e @ p" by (rule append_prefix)
          then show False using 1(2) boundary_append [of e p] by simp
        next
          case False
          then show False using 1(2) boundary_append [of "[]" t2] by simp
        qed
      qed
      then show ?thesis using 1(1) by (subst ends_with_loop.simps) (simp add: t(5))
    next
      case (2 u w)
      have v: "valid u" using 2(1) t(3) by simp
      have u: "str_len u = min (str_len p) (str_len t2)" using 2(2) arg_cong [OF 2(1), of str_len] by simp
      have step: "ends_with_loop it (utf8 p) = (if Sublist.suffix u p then do {
          remaining \<leftarrow> str_slice (utf8 p) 0 (str_len p - str_len u);
          (if remaining = [] then Some True else ends_with_loop it' remaining) } else Some False)"
        using 2(3) ends_with_utf8 [OF v less.prems(2)] by (subst ends_with_loop.simps) (simp add: t(5))
      show ?thesis
      proof (cases "Sublist.suffix u p")
        case True
        then obtain o1 where o: "p = o1 @ u" by (auto simp: Sublist.suffix_def)
        have "str_slice (utf8 p) 0 (str_len p - str_len u) = Some (utf8 o1)" using slice_front less.prems(2) o by simp
        then have step2: "ends_with_loop it (utf8 p) = (if o1 = [] then Some True else ends_with_loop it' (utf8 o1))"
          unfolding step using True by simp
        show ?thesis
        proof (cases "o1 = []")
          case True
          then show ?thesis unfolding step2 using o 2(1) t(1) by (simp add: Sublist.suffix_def)
        next
          case ne: False
          then have "str_len w = 0" using 2(1) u o by (auto simp: min_def split: if_splits)
          then have "t2 = u" using 2(1) by simp
          moreover have "ends_with_loop it' (utf8 o1) = Some (Sublist.suffix o1 t1)"
            using less.hyps [OF _ t(6)] t(1,2) less.prems(2) o by simp
          ultimately show ?thesis unfolding step2 using ne o t(1) by simp
        qed
      next
        case np: False
        have "\<not> Sublist.suffix p zs"
        proof
          assume "Sublist.suffix p zs"
          then obtain c where c: "(t1 @ w) @ u = c @ p" using t(1) 2(1) by (auto simp: Sublist.suffix_def)
          have "str_len c \<le> str_len (t1 @ w)" using u arg_cong [OF c, of str_len] by simp
          with c [symmetric] obtain e where "p = e @ u" by (rule append_prefix)
          then show False using np by (simp add: Sublist.suffix_def)
        qed
        then show ?thesis unfolding step using np by simp
      qed
    qed
  qed
qed

subsection \<open>The properties\<close>

lemma rope_iters:
  assumes "rope_text r (xs @ zs @ ws)" and "height (rope_chunks r) < STACK_CAPACITY"
  obtains it it' where "rope_chunks_in_range r (str_len xs) (str_len (xs @ zs)) = Some it" "fwd_at it r xs zs ws"
    "rope_reversed_chunks_in_range r (str_len xs) (str_len (xs @ zs)) = Some it'" "bwd_at it' r xs zs ws"
proof -
  obtain css where r: "rope_of r css" "concat css = xs @ zs @ ws" using assms(1) by (auto simp: rope_text_def)
  obtain it where "chunks_new r (str_len xs) (str_len (xs @ zs)) False = Some it" "fwd_at it r xs zs ws"
    by (rule chunks_new_forward [OF r(1) assms(2) r(2)])
  moreover obtain it' where "chunks_new r (str_len xs) (str_len (xs @ zs)) True = Some it'" "bwd_at it' r xs zs ws"
    by (rule chunks_new_backward [OF r(1) assms(2) r(2)])
  ultimately show thesis using that by (simp add: rope_chunks_in_range_def rope_reversed_chunks_in_range_def)
qed

lemma rope_text_len: "rope_text r cs \<Longrightarrow> rope_len r = str_len cs \<and> valid cs"
  using rope_measures(1) rope_text_valid by (auto simp: rope_text_def)

lemma chars_pieces:
  assumes "valid (concat ts)"
  shows "concat (map (str_chars \<circ> utf8) ts) = concat ts"
  using assms
proof (induction ts)
  case (Cons t ts)
  then show ?case using str_chars_utf8 [of t "[]"] by simp
qed simp

lemma rev_chars_pieces:
  assumes "valid (concat (rev ts))"
  shows "concat (map (\<lambda>t. rev (str_chars (utf8 t))) ts) = rev (concat (rev ts))"
  using assms
proof (induction ts)
  case (Cons t ts)
  then show ?case using str_chars_utf8 [of t "[]"] by simp
qed simp

text \<open>C34. The iterators over a range of a rope yield the text of the range in pieces, forward and backward,
  and never panic; \<open>chars\<close> and its reverse give the characters, \<open>Display\<close> the text; \<open>equals_str\<close>,
  in both directions, \<open>starts_with\<close> and \<open>ends_with\<close> decide what they say, for any text compared with.\<close>

theorem rope_iteration:
  assumes "rope_text r (xs @ zs @ ws)" and "height (rope_chunks r) < STACK_CAPACITY" and "valid p"
  shows "(\<exists>it ts. rope_chunks_in_range r (str_len xs) (str_len (xs @ zs)) = Some it \<and>
      chunks_collect it = Some (map utf8 ts) \<and> concat ts = zs \<and> equals_str it (utf8 p) = Some (zs = p)) \<and>
    (\<exists>it ts. rope_reversed_chunks_in_range r (str_len xs) (str_len (xs @ zs)) = Some it \<and>
      chunks_collect it = Some (map utf8 ts) \<and> concat (rev ts) = zs \<and> equals_str it (utf8 p) = Some (zs = p)) \<and>
    rope_chars_at r (str_len xs) = Some (zs @ ws) \<and>
    rope_reversed_chars_at r (str_len (xs @ zs)) = Some (rev (xs @ zs)) \<and>
    rope_display r = Some (utf8 (xs @ zs @ ws)) \<and>
    rope_starts_with r (utf8 p) = Some (prefix p (xs @ zs @ ws)) \<and>
    rope_ends_with r (utf8 p) = Some (Sublist.suffix p (xs @ zs @ ws))"
proof (intro conjI)
  have l: "rope_len r = str_len (xs @ zs @ ws)" and v: "valid (xs @ zs @ ws)" using rope_text_len [OF assms(1)] by simp_all
  have p: "valid ([] @ p)" "valid (p @ [])" using assms(3) by simp_all
  obtain it it' where it: "rope_chunks_in_range r (str_len xs) (str_len (xs @ zs)) = Some it" "fwd_at it r xs zs ws"
    "rope_reversed_chunks_in_range r (str_len xs) (str_len (xs @ zs)) = Some it'" "bwd_at it' r xs zs ws"
    by (rule rope_iters [OF assms(1,2)])
  have "equals_str it (utf8 p) = Some (zs = p)"
    using equals_forward_at [OF it(2) p(1)] it(2) by (simp add: equals_str_def fwd_at_def)
  then show "\<exists>it ts. rope_chunks_in_range r (str_len xs) (str_len (xs @ zs)) = Some it \<and>
      chunks_collect it = Some (map utf8 ts) \<and> concat ts = zs \<and> equals_str it (utf8 p) = Some (zs = p)"
    using it(1) collect_forward [OF it(2)] by blast
  have "equals_str it' (utf8 p) = Some (zs = p)"
    using equals_backward_at [OF it(4) p(2)] it(4) by (simp add: equals_str_def bwd_at_def)
  then show "\<exists>it ts. rope_reversed_chunks_in_range r (str_len xs) (str_len (xs @ zs)) = Some it \<and>
      chunks_collect it = Some (map utf8 ts) \<and> concat (rev ts) = zs \<and> equals_str it (utf8 p) = Some (zs = p)"
    using it(3) collect_backward [OF it(4)] by blast
  have "rope_text r (xs @ (zs @ ws) @ [])" using assms(1) by simp
  from rope_iters [OF this assms(2)] obtain it1 where it1: "rope_chunks_in_range r (str_len xs) (rope_len r) = Some it1"
    "fwd_at it1 r xs (zs @ ws) []" using l by auto
  obtain ts where "chunks_collect it1 = Some (map utf8 ts)" "concat ts = zs @ ws" using collect_forward [OF it1(2)] by blast
  then show "rope_chars_at r (str_len xs) = Some (zs @ ws)" using it1(1) chars_pieces [of ts] v by (simp add: rope_chars_at_def)
  have "rope_text r ([] @ (xs @ zs) @ ws)" using assms(1) by simp
  from rope_iters [OF this assms(2)] obtain it2 where it2: "rope_reversed_chunks_in_range r 0 (str_len (xs @ zs)) = Some it2"
    "bwd_at it2 r [] (xs @ zs) ws" by auto
  obtain us where "chunks_collect it2 = Some (map utf8 us)" "concat (rev us) = xs @ zs" using collect_backward [OF it2(2)] by blast
  then show "rope_reversed_chars_at r (str_len (xs @ zs)) = Some (rev (xs @ zs))"
    using it2(1) rev_chars_pieces [of us] v by (simp add: rope_reversed_chars_at_def comp_def)
  have "rope_text r ([] @ (xs @ zs @ ws) @ [])" using assms(1) by simp
  from rope_iters [OF this assms(2)] obtain it3 it4 where it3: "rope_chunks_in_range r 0 (rope_len r) = Some it3"
    "fwd_at it3 r [] (xs @ zs @ ws) []" "rope_reversed_chunks_in_range r 0 (rope_len r) = Some it4"
    "bwd_at it4 r [] (xs @ zs @ ws) []" using l by auto
  obtain vs where vs: "chunks_collect it3 = Some (map utf8 vs)" "concat vs = xs @ zs @ ws" using collect_forward [OF it3(2)] by blast
  have "concat (map utf8 vs) = utf8 (concat vs)" by (induction vs) simp_all
  then show "rope_display r = Some (utf8 (xs @ zs @ ws))" using it3(1) vs by (simp add: rope_display_def rope_chunks_iter_def)
  have long: "\<not> prefix p (xs @ zs @ ws) \<and> \<not> Sublist.suffix p (xs @ zs @ ws)" if "rope_len r < str_len p"
  proof -
    have "\<not> str_len p \<le> str_len (xs @ zs @ ws)" using that l by simp
    then show ?thesis by (metis le_add1 le_add2 prefix_def str_len_append Sublist.suffix_def)
  qed
  then show "rope_starts_with r (utf8 p) = Some (prefix p (xs @ zs @ ws))"
    using it3(1) starts_with_loop_at [OF it3(2) assms(3)] by (simp add: rope_starts_with_def)
  show "rope_ends_with r (utf8 p) = Some (Sublist.suffix p (xs @ zs @ ws))"
    using long it3(3) ends_with_loop_at [OF it3(4) assms(3)] by (simp add: rope_ends_with_def)
qed

lemma rope_iteration_witness:
  "\<exists>r. push_chunk rope_new (chunk_of [97, 10, 128512, 10]) = Some r \<and> rope_starts_with r (utf8 [97, 10]) = Some True \<and>
     rope_ends_with r (utf8 [97, 10]) = Some False \<and> rope_chars_at r 2 = Some [128512, 10]"
proof -
  have t: "valid [97, 10, 128512, 10]" "str_len [97, 10, 128512, 10] \<le> 128" by (simp_all add: scalar_value_def len_utf8_def)
  obtain r css where r: "push_chunk rope_new (chunk_of [97, 10, 128512, 10]) = Some r" "rope_of r css"
    "concat css = [97, 10, 128512, 10]" "height (rope_chunks r) \<le> 1"
    using push_chunk_of [OF rope_of_new t] by (auto simp: rope_new_def new_def)
  have "rope_text r ([97, 10] @ [128512] @ [10])" by (rule rope_textI [OF r(2)]) (simp add: r(3))
  moreover have "height (rope_chunks r) < STACK_CAPACITY" using r(4) by (simp add: STACK_CAPACITY_def)
  moreover have "valid [97, 10]" by (simp add: scalar_value_def)
  ultimately have "rope_chars_at r (str_len [97, 10]) = Some ([128512] @ [10]) \<and>
      rope_starts_with r (utf8 [97, 10]) = Some (prefix [97, 10] (([97, 10] :: rust_char list) @ [128512] @ [10])) \<and>
      rope_ends_with r (utf8 [97, 10]) = Some (Sublist.suffix [97, 10] (([97, 10] :: rust_char list) @ [128512] @ [10]))"
    using rope_iteration [of r "[97, 10]" "[128512]" "[10]" "[97, 10]"] by blast
  moreover have "str_len [97, 10] = 2" by (simp add: len_utf8_def)
  ultimately show ?thesis using r(1) by (simp add: suffix_Cons numeral_2_eq_2)
qed

end
