(* ===== verification/RopeLines.thy ===== *)
theory RopeLines
  imports RopeChunks
begin

text \<open>
  The lines of a rope (\<open>crates/rope/src/rope.rs\<close>): the iterator \<open>Lines\<close> in both directions, and the
  moves of \<open>Chunks\<close> to the next and the previous line.
\<close>

subsection \<open>Lines of a text\<close>

fun text_lines :: "rust_char list \<Rightarrow> rust_char list list" where
  "text_lines [] = [[]]"
| "text_lines (c # cs) = (if c = 10 then [] # text_lines cs else (c # hd (text_lines cs)) # tl (text_lines cs))"

lemma text_lines_ne [simp]: "text_lines cs \<noteq> []"
  by (cases cs) simp_all

lemma split_newline_no: "10 \<notin> set s \<Longrightarrow> split_newline (s @ t) = (s @ hd (split_newline t)) # tl (split_newline t)"
proof (induction s)
  case Nil
  have "split_newline t \<noteq> []" by (induction t rule: split_newline.induct) (auto split: list.splits)
  then show ?case by simp
qed auto

lemma no_newline_byte:
  assumes "scalar_value c" and "c \<noteq> 10"
  shows "10 \<notin> set (encode_char c)"
proof
  assume n: "10 \<in> set (encode_char c)"
  obtain b bs where e: "encode_char c = b # bs" "\<forall>x\<in>set bs. continuation x" "b = 10 \<longleftrightarrow> c = 10"
    using encode_char_cases [OF assms(1)] by metis
  then show False using n assms(2) continuation_simps(3) by auto
qed

lemma split_newline_utf8: "valid cs \<Longrightarrow> split_newline (utf8 cs) = map utf8 (text_lines cs)"
proof (induction cs)
  case (Cons c cs)
  show ?case
  proof (cases "c = 10")
    case True
    then show ?thesis using Cons by (simp add: encode_char_def)
  next
    case False
    have "scalar_value c" "valid cs" using Cons.prems by simp_all
    then have "split_newline (utf8 (c # cs)) = (encode_char c @ utf8 (hd (text_lines cs))) # map utf8 (tl (text_lines cs))"
      using split_newline_no [OF no_newline_byte, of c "utf8 cs"] False Cons.IH by (simp add: hd_map map_tl)
    then show ?thesis using False by simp
  qed
qed simp

lemma text_lines_no: "10 \<notin> set cs \<Longrightarrow> text_lines cs = [cs]"
  by (induction cs) auto

lemma text_lines_first: "10 \<notin> set l \<Longrightarrow> text_lines (l @ 10 # cs) = l # text_lines cs"
  by (induction l) auto

lemma text_lines_last: "10 \<notin> set l \<Longrightarrow> text_lines (cs @ 10 # l) = text_lines cs @ [l]"
proof (induction cs)
  case (Cons c cs)
  then show ?case by (cases "text_lines cs") auto
qed (simp add: text_lines_no)

lemma newline_cases:
  obtains "10 \<notin> set cs" | l ds where "cs = l @ 10 # ds" "10 \<notin> set l"
  using split_list_first [of 10 cs] by blast

lemma newline_cases_last:
  obtains "10 \<notin> set cs" | l ds where "cs = ds @ 10 # l" "10 \<notin> set l"
  using split_list_last [of 10 cs] by blast

subsection \<open>Seeking\<close>

lemma seek_forward_at:
  assumes "tree_cursor_at c r css1 css2" and "concat (css1 @ css2) = xs @ ys" and "str_len (concat css1) \<le> str_len xs"
  obtains c' f where "seek_forward usize_dim c (key_target (str_len xs)) Right = Some (c', f)" "fwd_cursor c' r xs ys"
proof -
  have at: "rope_of r (css1 @ css2)" "cursor_ok chunk_ops usize_dim c" "can_seek c" "c_tree c = rope_chunks r"
    "cursor_done c = map chunk_of css1"
    using assms(1) by (simp_all add: tree_cursor_at_def)
  from forward_split [OF assms] obtain dss1 dss2 as bs where s: "css2 = dss1 @ dss2" "inside (css1 @ dss1) dss2 xs ys as bs"
    "seek_split chunk_ops usize_dim (\<lambda>d. passes Right (key_target (str_len xs) d)) (c_position c) (cursor_rest c) =
       (map chunk_of dss1, map chunk_of dss2, str_len (concat (css1 @ dss1)))"
    "mono_target chunk_ops usize_dim (\<lambda>d. passes Right (key_target (str_len xs) d)) (c_position c) (cursor_rest c)"
    "key_target (str_len xs) (c_position c) \<noteq> Less" "dss2 = [] \<or> bs \<noteq> []" .
  obtain c' f where c': "seek_forward usize_dim c (key_target (str_len xs)) Right = Some (c', f)"
    "cursor_ok chunk_ops usize_dim c'" "can_seek c'" "c_did_seek c'" "c_tree c' = rope_chunks r"
    "cursor_done c' = map chunk_of (css1 @ dss1)" "cursor_rest c' = map chunk_of dss2"
    using usize_laws.seek_forward_correct [OF at(2,3) s(5,4,3)] at(4,5) by auto
  have "tree_cursor_at c' r (css1 @ dss1) dss2" using c' at(1) s(1) by (simp add: tree_cursor_at_def)
  then have "fwd_cursor c' r xs ys" using s(2,6) unfolding fwd_cursor_def by blast
  then show thesis using that c'(1) by blast
qed

lemma chunks_seek_forward:
  assumes "fwd_at it r xs (z1 @ z2) ws" and "z1 @ z2 \<noteq> []"
  obtains it' where "chunks_seek it (str_len (xs @ z1)) = Some it'" "fwd_at it' r (xs @ z1) z2 ws" "ci_start it' = ci_start it"
proof -
  have f: "\<not> ci_reversed it" "ci_offset it = str_len xs" "ci_end it = str_len (xs @ z1 @ z2)" "ci_start it \<le> str_len xs"
    "fwd_cursor (ci_chunks it) r xs ((z1 @ z2) @ ws)"
    using assms by (simp_all add: fwd_at_def)
  have o: "max (ci_start it) (min (str_len (xs @ z1)) (ci_end it)) = str_len (xs @ z1)" "ci_start it \<le> ci_end it" using f by simp_all
  from f(5) obtain css1 css2 as bs where c: "tree_cursor_at (ci_chunks it) r css1 ((as @ bs) # css2)" "xs = concat css1 @ as"
    "(z1 @ z2) @ ws = bs @ concat css2" "bs \<noteq> []"
    by (rule fwd_cases) (use assms(2) in auto)
  note k = tree_cursor_chunk [OF c(1)]
  show thesis
  proof (cases "str_len (concat css1) + str_len (as @ bs) \<le> str_len (xs @ z1)")
    case True
    have "concat (css1 @ (as @ bs) # css2) = (xs @ z1) @ (z2 @ ws)" using c(2,3) by simp
    moreover have "str_len (concat css1) \<le> str_len (xs @ z1)" using True by simp
    ultimately obtain c' g where s: "seek_forward usize_dim (ci_chunks it) (key_target (str_len (xs @ z1))) Right = Some (c', g)"
      "fwd_cursor c' r (xs @ z1) (z2 @ ws)"
      using seek_forward_at [OF c(1)] by metis
    show thesis
      by (rule that [of "it\<lparr>ci_chunks := c', ci_offset := str_len (xs @ z1)\<rparr>"])
        (use f o s k(3) True in \<open>simp_all add: chunks_seek_def fwd_at_def Let_def del: str_len_append\<close>)
  next
    case False
    have "z1 @ (z2 @ ws) = bs @ concat css2" using c(3) by simp
    moreover have "str_len z1 \<le> str_len bs" using False c(2) by simp
    ultimately obtain us where us: "bs = z1 @ us" "z2 @ ws = us @ concat css2" by (rule append_prefix)
    have "us \<noteq> []" using False c(2) us(1) by auto
    moreover have "inside css1 ((as @ bs) # css2) (xs @ z1) (z2 @ ws) (as @ z1) us" using c(2) us by (simp add: inside_def)
    ultimately have fc: "fwd_cursor (ci_chunks it) r (xs @ z1) (z2 @ ws)" using c(1) unfolding fwd_cursor_def by blast
    have p: "\<not> str_len (xs @ z1) < c_position (ci_chunks it)" using k(1) c(2) by simp
    have "chunks_seek it (str_len (xs @ z1)) = Some (it\<lparr>ci_offset := str_len (xs @ z1)\<rparr>)"
      unfolding chunks_seek_def Let_def o(1) k(3) using o(2) f(1) False p by simp
    moreover have "fwd_at (it\<lparr>ci_offset := str_len (xs @ z1)\<rparr>) r (xs @ z1) z2 ws" using f fc by (simp add: fwd_at_def)
    ultimately show thesis using that by simp
  qed
qed

subsection \<open>The iterator forward\<close>

lemma lines_loop_forward:
  assumes "fwd_at (li_chunks s) r xs zs ws" and "li_current s = utf8 cur" and "\<not> li_reversed s" and "\<not> li_done s"
  shows "\<exists>s'. lines_loop s = Some (s', utf8 (cur @ hd (text_lines zs))) \<and> \<not> li_reversed s' \<and>
    (if tl (text_lines zs) = [] then li_done s'
     else \<not> li_done s' \<and> (\<exists>z1 z2. zs = z1 @ z2 \<and> fwd_at (li_chunks s') r (xs @ z1) z2 ws \<and> text_lines z2 = tl (text_lines zs)))"
  using assms
proof (induction "length zs" arbitrary: s xs zs cur rule: less_induct)
  case less
  show ?case
  proof (cases "zs = []")
    case True
    then show ?thesis using fwd_end less.prems by (subst lines_loop.simps) simp
  next
    case False
    obtain t1 t2 it' where t: "zs = t1 @ t2" "t1 \<noteq> []" "valid t1" "chunks_peek (li_chunks s) = Some (Some (utf8 t1))"
      "chunks_next (li_chunks s) = Some (it', Some (utf8 t1))" "fwd_at it' r (xs @ t1) t2 ws" "ci_start it' = ci_start (li_chunks s)"
      by (rule fwd_step [OF less.prems(1) False])
    show ?thesis
    proof (cases rule: newline_cases [of t1])
      case 1
      let ?s = "s\<lparr>li_current := li_current s @ utf8 t1, li_chunks := it'\<rparr>"
      have step: "lines_loop s = lines_loop ?s"
        using split_newline_utf8 [OF t(3)] text_lines_no [OF 1] less.prems(3) by (subst lines_loop.simps) (simp add: t(4,5))
      have len: "length t2 < length zs" using t(1,2) by simp
      have "text_lines zs = (t1 @ hd (text_lines t2)) # tl (text_lines t2)" using 1 unfolding t(1) by (induction t1) auto
      moreover have "\<exists>s'. lines_loop ?s = Some (s', utf8 ((cur @ t1) @ hd (text_lines t2))) \<and> \<not> li_reversed s' \<and>
          (if tl (text_lines t2) = [] then li_done s'
           else \<not> li_done s' \<and> (\<exists>z1 z2. t2 = z1 @ z2 \<and> fwd_at (li_chunks s') r ((xs @ t1) @ z1) z2 ws \<and> text_lines z2 = tl (text_lines t2)))"
        by (rule less.hyps [OF len]) (use t(6) less.prems in simp_all)
      ultimately show ?thesis unfolding step t(1) by (auto split: if_splits) (metis append.assoc)
    next
      case (2 l ds)
      have zs: "zs = (l @ [10]) @ ds @ t2" using t(1) 2(1) by simp
      obtain it2 where it2: "chunks_seek (li_chunks s) (str_len (xs @ l @ [10])) = Some it2" "fwd_at it2 r (xs @ l @ [10]) (ds @ t2) ws"
        using chunks_seek_forward [of "li_chunks s" r xs "l @ [10]" "ds @ t2" ws] less.prems(1) zs by auto
      have o: "ci_offset (li_chunks s) + str_len l + 1 = str_len (xs @ l @ [10])" using less.prems(1) by (simp add: fwd_at_def len_utf8_def)
      have sp: "split_newline (utf8 t1) = utf8 l # map utf8 (text_lines ds)"
        using split_newline_utf8 [OF t(3)] text_lines_first [OF 2(2)] 2(1) by simp
      have "\<exists>s'. lines_loop s = Some (s', utf8 (cur @ l)) \<and> \<not> li_reversed s' \<and> \<not> li_done s' \<and> li_chunks s' = it2"
        using less.prems(2-4) it2(1) o sp by (subst lines_loop.simps) (cases "cur = []"; simp add: t(4) Let_def)
      moreover have tl: "text_lines zs = l # text_lines (ds @ t2)" using text_lines_first [OF 2(2)] zs by simp
      moreover have "\<exists>z1 z2. zs = z1 @ z2 \<and> fwd_at it2 r (xs @ z1) z2 ws \<and> text_lines z2 = tl (text_lines zs)"
        using it2(2) zs tl by (intro exI [of _ "l @ [10]"] exI [of _ "ds @ t2"]) simp
      ultimately show ?thesis by auto
    qed
  qed
qed

text \<open>Asking for lines until there are no more.\<close>

partial_function (option) lines_collect :: "lines_iter \<Rightarrow> str list option" where
  "lines_collect self = do {
     (self, n) \<leftarrow> lines_next self;
     (case n of None \<Rightarrow> Some [] | Some line \<Rightarrow> do { rest \<leftarrow> lines_collect self; Some (line # rest) })
   }"

lemma lines_collect_done: "li_done s \<Longrightarrow> lines_collect s = Some []"
  by (subst lines_collect.simps) (simp add: lines_next_def)

lemma lines_collect_forward:
  assumes "fwd_at (li_chunks s) r xs zs ws" and "\<not> li_reversed s" and "\<not> li_done s"
  shows "lines_collect s = Some (map utf8 (text_lines zs))"
  using assms
proof (induction "length (text_lines zs)" arbitrary: s xs zs rule: less_induct)
  case less
  let ?s = "s\<lparr>li_current := []\<rparr>"
  have "\<exists>s'. lines_loop ?s = Some (s', utf8 ([] @ hd (text_lines zs))) \<and> \<not> li_reversed s' \<and>
      (if tl (text_lines zs) = [] then li_done s'
       else \<not> li_done s' \<and> (\<exists>z1 z2. zs = z1 @ z2 \<and> fwd_at (li_chunks s') r (xs @ z1) z2 ws \<and> text_lines z2 = tl (text_lines zs)))"
    by (rule lines_loop_forward) (use less.prems in simp_all)
  then obtain s' where s': "lines_loop ?s = Some (s', utf8 (hd (text_lines zs)))" "\<not> li_reversed s'"
    "if tl (text_lines zs) = [] then li_done s'
     else \<not> li_done s' \<and> (\<exists>z1 z2. zs = z1 @ z2 \<and> fwd_at (li_chunks s') r (xs @ z1) z2 ws \<and> text_lines z2 = tl (text_lines zs))"
    by auto
  have step: "lines_collect s = do { rest \<leftarrow> lines_collect s'; Some (utf8 (hd (text_lines zs)) # rest) }"
    using less.prems(3) s'(1) by (subst lines_collect.simps) (simp add: lines_next_def)
  have ne: "text_lines zs = hd (text_lines zs) # tl (text_lines zs)" by simp
  show ?case
  proof (cases "tl (text_lines zs) = []")
    case True
    then show ?thesis using s'(3) step lines_collect_done [of s'] by (subst ne) simp
  next
    case False
    then obtain z1 z2 where z: "zs = z1 @ z2" "fwd_at (li_chunks s') r (xs @ z1) z2 ws" "text_lines z2 = tl (text_lines zs)" "\<not> li_done s'"
      using s'(3) by auto
    have "length (text_lines z2) < length (text_lines zs)" using arg_cong [OF ne, of length] by (simp add: z(3))
    then have "lines_collect s' = Some (map utf8 (text_lines z2))" by (rule less.hyps) (use z s'(2) in simp_all)
    moreover have "map utf8 (text_lines zs) = utf8 (hd (text_lines zs)) # map utf8 (tl (text_lines zs))"
      by (cases "text_lines zs") simp_all
    ultimately show ?thesis using step by (simp add: z(3))
  qed
qed

subsection \<open>The iterator backward\<close>

lemma chunks_seek_backward:
  assumes "bwd_at it r xs (z1 @ z2) ws" and "z1 @ z2 \<noteq> []"
  obtains it' where "chunks_seek it (str_len (xs @ z1)) = Some it'" "bwd_at it' r xs z1 (z2 @ ws)"
proof -
  have f: "ci_reversed it" "ci_offset it = str_len (xs @ z1 @ z2)" "ci_start it = str_len xs" "str_len (xs @ z1 @ z2) \<le> ci_end it"
    "bwd_cursor (ci_chunks it) r (xs @ z1 @ z2) ws"
    using assms by (simp_all add: bwd_at_def)
  have o: "max (ci_start it) (min (str_len (xs @ z1)) (ci_end it)) = str_len (xs @ z1)" "ci_start it \<le> ci_end it" using f by simp_all
  obtain css1 css2 as bs where c: "tree_cursor_at (ci_chunks it) r css1 ((as @ bs) # css2)" "xs @ z1 @ z2 = concat css1 @ as"
    "ws = bs @ concat css2" "as \<noteq> []"
    using f(5) assms(2) unfolding bwd_cursor_def by auto
  note k = tree_cursor_chunk [OF c(1)]
  have r: "rope_of r (css1 @ (as @ bs) # css2)" "c_tree (ci_chunks it) = rope_chunks r" "height (rope_chunks r) < STACK_CAPACITY"
    using c(1) by (auto simp: tree_cursor_at_def cursor_ok_def)
  have "str_len (xs @ z1 @ z2) = str_len (concat css1) + str_len as" unfolding c(2) by simp
  then have e: "\<not> str_len (concat css1) + str_len (as @ bs) < str_len (xs @ z1)" by simp
  have "\<exists>c'. (if str_len (xs @ z1) \<le> c_position (ci_chunks it)
        then map_option fst (seek usize_dim (ci_chunks it) (key_target (str_len (xs @ z1))) Left)
        else Some (ci_chunks it)) = Some c' \<and> bwd_cursor c' r (xs @ z1) (z2 @ ws)"
  proof (cases "str_len (xs @ z1) \<le> c_position (ci_chunks it)")
    case True
    have "concat (css1 @ (as @ bs) # css2) = (xs @ z1 @ z2) @ ws" unfolding c(2,3) by simp
    then have "concat (css1 @ (as @ bs) # css2) = (xs @ z1) @ (z2 @ ws)" by simp
    then show ?thesis using seek_left_at [OF r(1,3) _ r(2), of "xs @ z1" "z2 @ ws"] True by (metis fst_conv option.simps(9))
  next
    case False
    have "concat css1 @ as = (xs @ z1) @ z2" using c(2) by simp
    moreover have "str_len (concat css1) \<le> str_len (xs @ z1)" using False k(1) by simp
    ultimately obtain us where us: "xs @ z1 = concat css1 @ us" "as = us @ z2" by (rule append_prefix)
    have "us \<noteq> []" using False k(1) us(1) by auto
    moreover have "tree_cursor_at (ci_chunks it) r css1 ((us @ (z2 @ bs)) # css2)" "z2 @ ws = (z2 @ bs) @ concat css2"
      using c(1,3) us(2) by simp_all
    ultimately have "bwd_cursor (ci_chunks it) r (xs @ z1) (z2 @ ws)" using us(1) unfolding bwd_cursor_def by blast
    then show ?thesis using False by simp
  qed
  then obtain c' where c': "(if str_len (xs @ z1) \<le> c_position (ci_chunks it)
        then map_option fst (seek usize_dim (ci_chunks it) (key_target (str_len (xs @ z1))) Left)
        else Some (ci_chunks it)) = Some c'" "bwd_cursor c' r (xs @ z1) (z2 @ ws)" by blast
  have "chunks_seek it (str_len (xs @ z1)) = Some (it\<lparr>ci_chunks := c', ci_offset := str_len (xs @ z1)\<rparr>)"
    unfolding chunks_seek_def Let_def o(1) k(3) using o(2) f(1) e c'(1) by simp
  moreover have "bwd_at (it\<lparr>ci_chunks := c', ci_offset := str_len (xs @ z1)\<rparr>) r xs z1 (z2 @ ws)"
    using f c'(2) by (simp add: bwd_at_def)
  ultimately show thesis using that by blast
qed

lemma lines_loop_backward:
  assumes "bwd_at (li_chunks s) r xs zs ws" and "li_current s = utf8 cur" and "li_reversed s" and "\<not> li_done s"
  shows "\<exists>s'. lines_loop s = Some (s', utf8 (last (text_lines zs) @ cur)) \<and> li_reversed s' \<and>
    (if butlast (text_lines zs) = [] then li_done s'
     else \<not> li_done s' \<and> (\<exists>z1 z2. zs = z1 @ z2 \<and> bwd_at (li_chunks s') r xs z1 (z2 @ ws) \<and> text_lines z1 = butlast (text_lines zs)))"
  using assms
proof (induction "length zs" arbitrary: s zs ws cur rule: less_induct)
  case less
  show ?case
  proof (cases "zs = []")
    case True
    then show ?thesis using bwd_end less.prems by (subst lines_loop.simps) simp
  next
    case False
    obtain t1 t2 it' where t: "zs = t1 @ t2" "t2 \<noteq> []" "valid t2" "chunks_peek (li_chunks s) = Some (Some (utf8 t2))"
      "chunks_next (li_chunks s) = Some (it', Some (utf8 t2))" "bwd_at it' r xs t1 (t2 @ ws)" "ci_end it' = ci_end (li_chunks s)"
      by (rule bwd_step [OF less.prems(1) False])
    show ?thesis
    proof (cases rule: newline_cases_last [of t2])
      case 1
      let ?s = "s\<lparr>li_current := utf8 t2 @ li_current s, li_chunks := it'\<rparr>"
      have step: "lines_loop s = lines_loop ?s"
        using split_newline_utf8 [OF t(3)] text_lines_no [OF 1] less.prems(3) by (subst lines_loop.simps) (simp add: t(4,5))
      have len: "length t1 < length zs" using t(1,2) by simp
      have tl: "last (text_lines zs) = last (text_lines t1) @ t2 \<and> butlast (text_lines zs) = butlast (text_lines t1)"
      proof (cases rule: newline_cases_last [of t1])
        case 1
        then show ?thesis using \<open>10 \<notin> set t2\<close> t(1) by (simp add: text_lines_no)
      next
        case (2 l ds)
        then show ?thesis using text_lines_last [of "l @ t2" ds] text_lines_last [of l ds] 1 t(1) by simp
      qed
      have "\<exists>s'. lines_loop ?s = Some (s', utf8 (last (text_lines t1) @ (t2 @ cur))) \<and> li_reversed s' \<and>
          (if butlast (text_lines t1) = [] then li_done s'
           else \<not> li_done s' \<and> (\<exists>z1 z2. t1 = z1 @ z2 \<and> bwd_at (li_chunks s') r xs z1 (z2 @ (t2 @ ws)) \<and>
             text_lines z1 = butlast (text_lines t1)))"
        by (rule less.hyps [OF len]) (use t(6) less.prems in simp_all)
      then show ?thesis unfolding step using tl t(1) by (auto split: if_splits) (metis append.assoc)
    next
      case (2 l ds)
      have zs: "zs = (t1 @ ds) @ (10 # l)" using t(1) 2(1) by simp
      obtain it2 where it2: "chunks_seek (li_chunks s) (str_len (xs @ t1 @ ds)) = Some it2" "bwd_at it2 r xs (t1 @ ds) ((10 # l) @ ws)"
        using chunks_seek_backward [of "li_chunks s" r xs "t1 @ ds" "10 # l" ws] less.prems(1) zs by auto
      have o: "ci_offset (li_chunks s) - str_len l - 1 = str_len (xs @ t1 @ ds)" using less.prems(1) zs by (simp add: bwd_at_def len_utf8_def)
      have sp: "split_newline (utf8 t2) = map utf8 (text_lines ds) @ [utf8 l]"
        using split_newline_utf8 [OF t(3)] text_lines_last [OF 2(2)] 2(1) by simp
      have "\<exists>s'. lines_loop s = Some (s', utf8 (l @ cur)) \<and> li_reversed s' \<and> \<not> li_done s' \<and> li_chunks s' = it2"
        using less.prems(2-4) it2(1) o sp by (subst lines_loop.simps) (cases "cur = []"; simp add: t(4) Let_def)
      moreover have tl: "text_lines zs = text_lines (t1 @ ds) @ [l]" using text_lines_last [OF 2(2), of "t1 @ ds"] zs by simp
      moreover have "\<exists>z1 z2. zs = z1 @ z2 \<and> bwd_at it2 r xs z1 (z2 @ ws) \<and> text_lines z1 = butlast (text_lines zs)"
        using it2(2) zs tl by (intro exI [of _ "t1 @ ds"] exI [of _ "10 # l"]) simp
      ultimately show ?thesis by auto
    qed
  qed
qed

lemma lines_collect_backward:
  assumes "bwd_at (li_chunks s) r xs zs ws" and "li_reversed s" and "\<not> li_done s"
  shows "lines_collect s = Some (map utf8 (rev (text_lines zs)))"
  using assms
proof (induction "length (text_lines zs)" arbitrary: s zs ws rule: less_induct)
  case less
  let ?s = "s\<lparr>li_current := []\<rparr>"
  have "\<exists>s'. lines_loop ?s = Some (s', utf8 (last (text_lines zs) @ [])) \<and> li_reversed s' \<and>
      (if butlast (text_lines zs) = [] then li_done s'
       else \<not> li_done s' \<and> (\<exists>z1 z2. zs = z1 @ z2 \<and> bwd_at (li_chunks s') r xs z1 (z2 @ ws) \<and> text_lines z1 = butlast (text_lines zs)))"
    by (rule lines_loop_backward) (use less.prems in simp_all)
  then obtain s' where s': "lines_loop ?s = Some (s', utf8 (last (text_lines zs)))" "li_reversed s'"
    "if butlast (text_lines zs) = [] then li_done s'
     else \<not> li_done s' \<and> (\<exists>z1 z2. zs = z1 @ z2 \<and> bwd_at (li_chunks s') r xs z1 (z2 @ ws) \<and> text_lines z1 = butlast (text_lines zs))"
    by auto
  have step: "lines_collect s = do { rest \<leftarrow> lines_collect s'; Some (utf8 (last (text_lines zs)) # rest) }"
    using less.prems(3) s'(1) by (subst lines_collect.simps) (simp add: lines_next_def)
  have ne: "rev (text_lines zs) = last (text_lines zs) # rev (butlast (text_lines zs))"
    by (metis append_butlast_last_id rev.simps(2) rev_rev_ident rev_append rev_singleton_conv text_lines_ne append_Cons append_Nil)
  show ?case
  proof (cases "butlast (text_lines zs) = []")
    case True
    then show ?thesis using s'(3) step lines_collect_done [of s'] unfolding ne by simp
  next
    case False
    then obtain z1 z2 where z: "bwd_at (li_chunks s') r xs z1 (z2 @ ws)" "text_lines z1 = butlast (text_lines zs)" "\<not> li_done s'"
      using s'(3) by auto
    have "0 < length (text_lines zs)" by simp
    then have "length (text_lines z1) < length (text_lines zs)" unfolding z(2) by simp
    then have "lines_collect s' = Some (map utf8 (rev (text_lines z1)))" by (rule less.hyps) (use z s'(2) in simp_all)
    then show ?thesis using step unfolding ne by (simp add: z(2))
  qed
qed

text \<open>C35. Line iteration. The iterator \<open>Lines\<close> over the chunks of a byte range of a rope whose ends are
  character boundaries yields, forwards, exactly the lines of the text of the range in order (the text cut at
  each newline, the last line included even when it is empty), and over the reversed chunks the same lines from
  the last to the first; each is assembled across chunk ends, every iteration ends, and nothing panics.\<close>
theorem rope_lines:
  assumes "rope_text r (xs @ zs @ ws)" and "height (rope_chunks r) < STACK_CAPACITY"
  shows "(\<exists>it. rope_chunks_in_range r (str_len xs) (str_len (xs @ zs)) = Some it \<and>
      lines_collect (chunks_lines it) = Some (map utf8 (text_lines zs))) \<and>
    (\<exists>it. rope_reversed_chunks_in_range r (str_len xs) (str_len (xs @ zs)) = Some it \<and>
      lines_collect (chunks_lines it) = Some (map utf8 (rev (text_lines zs))))"
proof -
  obtain it it' where it: "rope_chunks_in_range r (str_len xs) (str_len (xs @ zs)) = Some it" "fwd_at it r xs zs ws"
    "rope_reversed_chunks_in_range r (str_len xs) (str_len (xs @ zs)) = Some it'" "bwd_at it' r xs zs ws"
    by (rule rope_iters [OF assms])
  have "lines_collect (chunks_lines it) = Some (map utf8 (text_lines zs))"
    by (rule lines_collect_forward [where r = r and xs = xs and ws = ws])
      (use it(2) in \<open>simp_all add: chunks_lines_def fwd_at_def\<close>)
  moreover have "lines_collect (chunks_lines it') = Some (map utf8 (rev (text_lines zs)))"
    by (rule lines_collect_backward [where r = r and xs = xs and ws = ws])
      (use it(4) in \<open>simp_all add: chunks_lines_def bwd_at_def\<close>)
  ultimately show ?thesis using it(1,3) by blast
qed

lemma rope_lines_witness:
  "\<exists>r it it'. push_chunk rope_new (chunk_of [97, 10, 128512]) = Some r \<and> rope_chunks_in_range r 1 6 = Some it \<and>
     rope_reversed_chunks_in_range r 1 6 = Some it' \<and>
     lines_collect (chunks_lines it) = Some [[], [0xF0, 0x9F, 0x98, 0x80]] \<and>
     lines_collect (chunks_lines it') = Some [[0xF0, 0x9F, 0x98, 0x80], []]"
proof -
  have t: "valid [97, 10, 128512]" "str_len [97, 10, 128512] \<le> 128" by (simp_all add: scalar_value_def len_utf8_def)
  obtain r css where r: "push_chunk rope_new (chunk_of [97, 10, 128512]) = Some r" "rope_of r css"
    "concat css = [97, 10, 128512]" "height (rope_chunks r) \<le> 1"
    using push_chunk_of [OF rope_of_new t] by (auto simp: rope_new_def new_def)
  have "rope_text r ([97] @ [10, 128512] @ [])" by (rule rope_textI [OF r(2)]) (simp add: r(3))
  moreover have "height (rope_chunks r) < STACK_CAPACITY" using r(4) by (simp add: STACK_CAPACITY_def)
  ultimately have "(\<exists>it. rope_chunks_in_range r (str_len [97]) (str_len ([97] @ [10, 128512])) = Some it \<and>
      lines_collect (chunks_lines it) = Some (map utf8 (text_lines [10, 128512]))) \<and>
    (\<exists>it. rope_reversed_chunks_in_range r (str_len [97]) (str_len ([97] @ [10, 128512])) = Some it \<and>
      lines_collect (chunks_lines it) = Some (map utf8 (rev (text_lines [10, 128512]))))" by (rule rope_lines)
  moreover have "str_len [97] = 1" "str_len ([97] @ [10, 128512]) = 6" by (simp_all add: len_utf8_def)
  moreover have "utf8 [128512] = [0xF0, 0x9F, 0x98, 0x80]" by (simp add: utf8_def encode_char_def)
  ultimately show ?thesis using r(1) by (simp del: str_len_append) blast
qed

end
