(* ===== verification/Selection.thy ===== *)
theory Selection
  imports Prelude
begin

text \<open>
  Selections (\<open>crates/text/src/selection.rs\<close>): a range with the end the user moves (the head) and the
  end the selection started at (the tail). Positions are any linearly ordered type; the pixel positions
  of a goal, floating-point numbers the code only carries along, are type parameters.
\<close>

subsection \<open>The type\<close>

datatype ('f32, 'f64) selection_goal =
    NoGoal
  | HorizontalPosition 'f64
  | HorizontalRange (hr_start: 'f64) (hr_end: 'f64)
  | WrappedHorizontalPosition "u32 \<times> 'f32"

record ('f32, 'f64, 'a) selection =
  sel_id :: nat
  sel_start :: 'a
  sel_end :: 'a
  sel_reversed :: bool
  sel_goal :: "('f32, 'f64) selection_goal"

subsection \<open>Operations\<close>

definition sel_head :: "('f32, 'f64, 'a) selection \<Rightarrow> 'a" where
  "sel_head self = (if sel_reversed self then sel_start self else sel_end self)"

definition sel_tail :: "('f32, 'f64, 'a) selection \<Rightarrow> 'a" where
  "sel_tail self = (if sel_reversed self then sel_end self else sel_start self)"

definition sel_map :: "('a \<Rightarrow> 'b) \<Rightarrow> ('f32, 'f64, 'a) selection \<Rightarrow> ('f32, 'f64, 'b) selection" where
  "sel_map f self = \<lparr>sel_id = sel_id self, sel_start = f (sel_start self), sel_end = f (sel_end self),
     sel_reversed = sel_reversed self, sel_goal = sel_goal self\<rparr>"

definition sel_collapse_to ::
    "('f32, 'f64, 'a) selection \<Rightarrow> 'a \<Rightarrow> ('f32, 'f64) selection_goal \<Rightarrow> ('f32, 'f64, 'a) selection" where
  "sel_collapse_to self point new_goal =
     self\<lparr>sel_start := point, sel_end := point, sel_goal := new_goal, sel_reversed := False\<rparr>"

definition sel_is_empty :: "('f32, 'f64, 'a) selection \<Rightarrow> bool" where
  "sel_is_empty self \<longleftrightarrow> sel_start self = sel_end self"

definition sel_set_head ::
    "('f32, 'f64, 'a::linorder) selection \<Rightarrow> 'a \<Rightarrow> ('f32, 'f64) selection_goal \<Rightarrow> ('f32, 'f64, 'a) selection" where
  "sel_set_head self head new_goal =
     (if cmp head (sel_tail self) = Less then
        let self = (if \<not> sel_reversed self then self\<lparr>sel_end := sel_start self, sel_reversed := True\<rparr> else self)
        in self\<lparr>sel_start := head, sel_goal := new_goal\<rparr>
      else
        let self = (if sel_reversed self then self\<lparr>sel_start := sel_end self, sel_reversed := False\<rparr> else self)
        in self\<lparr>sel_end := head, sel_goal := new_goal\<rparr>)"

definition sel_set_tail ::
    "('f32, 'f64, 'a::linorder) selection \<Rightarrow> 'a \<Rightarrow> ('f32, 'f64) selection_goal \<Rightarrow> ('f32, 'f64, 'a) selection" where
  "sel_set_tail self tail new_goal =
     (if cmp tail (sel_head self) \<noteq> Greater then
        let self = (if sel_reversed self then self\<lparr>sel_end := sel_start self, sel_reversed := False\<rparr> else self)
        in self\<lparr>sel_start := tail, sel_goal := new_goal\<rparr>
      else
        let self = (if \<not> sel_reversed self then self\<lparr>sel_start := sel_end self, sel_reversed := True\<rparr> else self)
        in self\<lparr>sel_end := tail, sel_goal := new_goal\<rparr>)"

definition sel_set_head_tail ::
    "('f32, 'f64, 'a::linorder) selection \<Rightarrow> 'a \<Rightarrow> 'a \<Rightarrow> ('f32, 'f64) selection_goal \<Rightarrow> ('f32, 'f64, 'a) selection" where
  "sel_set_head_tail self head tail new_goal =
     (if head < tail then self\<lparr>sel_reversed := True, sel_start := head, sel_end := tail, sel_goal := new_goal\<rparr>
      else self\<lparr>sel_reversed := False, sel_start := tail, sel_end := head, sel_goal := new_goal\<rparr>)"

definition sel_swap_head_tail :: "('f32, 'f64, 'a) selection \<Rightarrow> ('f32, 'f64, 'a) selection" where
  "sel_swap_head_tail self =
     (if sel_reversed self then self\<lparr>sel_reversed := False\<rparr>
      else self\<lparr>sel_start := sel_end self, sel_end := sel_start self\<rparr>)"

definition sel_range :: "('f32, 'f64, 'a) selection \<Rightarrow> 'a \<times> 'a" where
  "sel_range self = (sel_start self, sel_end self)"

definition sel_len :: "('f32, 'f64, 'a::minus) selection \<Rightarrow> 'a" where
  "sel_len self = sel_end self - sel_start self"

definition sel_equals :: "('f32, 'f64, 'a) selection \<Rightarrow> 'a \<times> 'a \<Rightarrow> bool" where
  "sel_equals self offset_range \<longleftrightarrow> sel_start self = fst offset_range \<and> sel_end self = snd offset_range"

subsection \<open>Properties\<close>

text \<open>What the code relies on: the start is not after the end.\<close>

definition sel_ordered :: "('f32, 'f64, 'a::linorder) selection \<Rightarrow> bool" where
  "sel_ordered self \<longleftrightarrow> sel_start self \<le> sel_end self"

lemma head_tail_of: "sel_head (sel_set_head_tail s h t g) = h" "sel_tail (sel_set_head_tail s h t g) = t"
  "sel_ordered (sel_set_head_tail s h t g)"
  by (auto simp: sel_head_def sel_tail_def sel_set_head_tail_def sel_ordered_def)

lemma sel_swap_ordered:
  "sel_ordered s \<Longrightarrow> sel_ordered (sel_swap_head_tail s) \<longleftrightarrow> sel_reversed s \<or> sel_is_empty s"
  by (auto simp: sel_ordered_def sel_swap_head_tail_def sel_is_empty_def)

text \<open>C40. Moving an end of a selection. Setting the head (the tail) moves that end, keeps the other one, and
  is setting both; the start of the result is not after its end, whatever the selection was. Swapping
  exchanges head and tail, keeps the range as a pair of ends, but a forward selection that is not empty is
  left with its start after its end, because the direction is not turned around.\<close>
theorem selection_ends:
  assumes "sel_ordered s"
  shows "sel_set_head s h g = sel_set_head_tail s h (sel_tail s) g \<and>
    sel_set_tail s t g = sel_set_head_tail s (sel_head s) t g \<and>
    sel_head (sel_set_head s h g) = h \<and> sel_tail (sel_set_head s h g) = sel_tail s \<and>
    sel_tail (sel_set_tail s t g) = t \<and> sel_head (sel_set_tail s t g) = sel_head s \<and>
    sel_ordered (sel_set_head s h g) \<and> sel_ordered (sel_set_tail s t g) \<and> sel_ordered (sel_set_head_tail s h t g) \<and>
    sel_head (sel_swap_head_tail s) = sel_tail s \<and> sel_tail (sel_swap_head_tail s) = sel_head s \<and>
    (sel_ordered (sel_swap_head_tail s) \<longleftrightarrow> sel_reversed s \<or> sel_is_empty s)"
proof -
  have h: "sel_set_head s h g = sel_set_head_tail s h (sel_tail s) g"
    by (cases s) (auto simp: sel_set_head_def sel_set_head_tail_def sel_tail_def)
  have t: "sel_set_tail s t g = sel_set_head_tail s (sel_head s) t g"
    by (cases s) (auto simp: sel_set_tail_def sel_set_head_tail_def sel_head_def not_less)
  have "sel_head (sel_swap_head_tail s) = sel_tail s" "sel_tail (sel_swap_head_tail s) = sel_head s"
    by (simp_all add: sel_swap_head_tail_def sel_head_def sel_tail_def)
  then show ?thesis unfolding h t using sel_swap_ordered [OF assms] by (simp add: head_tail_of)
qed

lemma selection_ends_witness:
  "let s = \<lparr>sel_id = 0, sel_start = 2, sel_end = 5, sel_reversed = False, sel_goal = NoGoal\<rparr> :: (unit, unit, nat) selection
   in sel_range (sel_set_head s 1 NoGoal) = (1, 2) \<and> sel_reversed (sel_set_head s 1 NoGoal) \<and>
      sel_range (sel_swap_head_tail s) = (5, 2) \<and> \<not> sel_ordered (sel_swap_head_tail s)"
proof -
  define s where "s = (\<lparr>sel_id = 0, sel_start = 2, sel_end = 5, sel_reversed = False, sel_goal = NoGoal\<rparr> :: (unit, unit, nat) selection)"
  have "sel_ordered s" by (simp add: s_def sel_ordered_def)
  from selection_ends [OF this, of 1 NoGoal] show ?thesis
    unfolding s_def [symmetric] Let_def
    by (simp add: s_def sel_set_head_tail_def sel_tail_def sel_is_empty_def sel_range_def sel_swap_head_tail_def)
qed

end
