(* ===== verification/History.thy ===== *)
theory History
  imports UndoMap TreeMap Rope
begin

text \<open>
  Operations and the undo history of a buffer (\<open>crates/text/src/text.rs\<close>: \<open>Operation\<close>, \<open>Transaction\<close>,
  \<open>HistoryEntry\<close>, \<open>History\<close>). A stack is a vector, its last element the top. Instants and durations are
  natural numbers (nanoseconds), whose subtraction saturates as that of instants does. Handing out a
  reference to an entry is handing out its value.
\<close>

subsection \<open>Operations\<close>

record edit_operation =
  eo_timestamp :: lamport
  eo_version :: global
  eo_ranges :: "(nat \<times> nat) list"      \<comment> \<open>ranges of \<open>FullOffset\<close>\<close>
  eo_new_text :: "str list"

datatype operation = EditOp edit_operation | UndoOp undo_operation

fun op_timestamp :: "operation \<Rightarrow> lamport" where
  "op_timestamp (EditOp ed) = eo_timestamp ed"
| "op_timestamp (UndoOp undo) = undo_timestamp undo"

fun op_version :: "operation \<Rightarrow> global" where
  "op_version (EditOp ed) = eo_version ed"
| "op_version (UndoOp undo) = undo_version undo"

fun as_edit :: "operation \<Rightarrow> edit_operation option" where
  "as_edit (EditOp ed) = Some ed"
| "as_edit (UndoOp _) = None"

definition is_edit :: "operation \<Rightarrow> bool" where
  "is_edit op \<longleftrightarrow> (case op of EditOp _ \<Rightarrow> True | _ \<Rightarrow> False)"

definition op_replica_id :: "operation \<Rightarrow> replica_id" where
  "op_replica_id op = lam_replica (op_timestamp op)"

subsection \<open>Transactions\<close>

record transaction =
  tr_id :: lamport
  tr_edit_ids :: "lamport list"
  tr_start :: global

record history_entry =
  he_transaction :: transaction
  he_first_edit_at :: nat
  he_last_edit_at :: nat
  he_suppress_grouping :: bool

definition transaction_merge_in :: "transaction \<Rightarrow> transaction \<Rightarrow> transaction" where
  "transaction_merge_in self other = self\<lparr>tr_edit_ids := tr_edit_ids self @ tr_edit_ids other\<rparr>"

definition transaction_id :: "history_entry \<Rightarrow> lamport" where
  "transaction_id self = tr_id (he_transaction self)"

record history =
  hi_base_text :: rope
  hi_operations :: "(lamport, operation) tree_map"
  hi_undo_stack :: "history_entry list"
  hi_redo_stack :: "history_entry list"
  hi_transaction_depth :: nat
  hi_group_interval :: nat

text \<open>300 milliseconds.\<close>

definition history_new :: "rope \<Rightarrow> history" where
  "history_new base_text = \<lparr>hi_base_text = base_text, hi_operations = tm_empty, hi_undo_stack = [],
     hi_redo_stack = [], hi_transaction_depth = 0, hi_group_interval = 300000000\<rparr>"

definition history_push :: "history \<Rightarrow> operation \<Rightarrow> history option" where
  "history_push self op = do {
     ops \<leftarrow> tm_insert (hi_operations self) (op_timestamp op) op;
     Some (self\<lparr>hi_operations := ops\<rparr>)
   }"

definition start_transaction ::
    "history \<Rightarrow> global \<Rightarrow> nat \<Rightarrow> lamport \<Rightarrow> history \<times> lamport \<times> lamport option" where
  "start_transaction self start now clock =
     (let self = self\<lparr>hi_transaction_depth := hi_transaction_depth self + 1\<rparr>
      in if hi_transaction_depth self = 1 then
           let (tid, clock) = lamport_tick clock;
               e = \<lparr>he_transaction = \<lparr>tr_id = tid, tr_edit_ids = [], tr_start = start\<rparr>,
                    he_first_edit_at = now, he_last_edit_at = now, he_suppress_grouping = False\<rparr>
           in (self\<lparr>hi_undo_stack := hi_undo_stack self @ [e]\<rparr>, clock, Some tid)
         else (self, clock, None))"

definition end_transaction :: "history \<Rightarrow> nat \<Rightarrow> (history \<times> history_entry option) option" where
  "end_transaction self now = do {
     guard (hi_transaction_depth self \<noteq> 0);
     let self = self\<lparr>hi_transaction_depth := hi_transaction_depth self - 1\<rparr>;
     (if hi_transaction_depth self = 0 then do {
        e \<leftarrow> vec_last (hi_undo_stack self);
        (if tr_edit_ids (he_transaction e) = [] then
           Some (self\<lparr>hi_undo_stack := butlast (hi_undo_stack self)\<rparr>, None)
         else
           let e = e\<lparr>he_last_edit_at := now\<rparr>
           in Some (self\<lparr>hi_redo_stack := [], hi_undo_stack := butlast (hi_undo_stack self) @ [e]\<rparr>, Some e))
      } else Some (self, None))
   }"

text \<open>The loop of \<open>group\<close>, over the entries in front of the last one from the top down.\<close>

fun group_count :: "nat \<Rightarrow> history_entry \<Rightarrow> history_entry list \<Rightarrow> nat" where
  "group_count interval e [] = 0"
| "group_count interval e (prev_entry # prevs) =
     (if \<not> he_suppress_grouping prev_entry \<and> he_first_edit_at e - he_last_edit_at prev_entry < interval
      then 1 + group_count interval prev_entry prevs
      else 0)"

definition group_trailing :: "history \<Rightarrow> nat \<Rightarrow> (history \<times> lamport option) option" where
  "group_trailing self n = do {
     guard (n \<le> length (hi_undo_stack self));
     let new_len = length (hi_undo_stack self) - n;
     let entries_to_keep = take new_len (hi_undo_stack self);
     let entries_to_merge = drop new_len (hi_undo_stack self);
     let kept = (case vec_last entries_to_keep of
         None \<Rightarrow> entries_to_keep
       | Some last_entry \<Rightarrow>
           let t = he_transaction last_entry;
               last_entry = last_entry\<lparr>he_transaction :=
                 t\<lparr>tr_edit_ids := tr_edit_ids t @ concat (map (\<lambda>e. tr_edit_ids (he_transaction e)) entries_to_merge)\<rparr>\<rparr>;
               last_entry = (case vec_last entries_to_merge of
                   Some e \<Rightarrow> last_entry\<lparr>he_last_edit_at := he_last_edit_at e\<rparr>
                 | None \<Rightarrow> last_entry)
           in butlast entries_to_keep @ [last_entry]);
     Some (self\<lparr>hi_undo_stack := kept\<rparr>, map_option transaction_id (vec_last kept))
   }"

definition history_group :: "history \<Rightarrow> (history \<times> lamport option) option" where
  "history_group self =
     group_trailing self
       (case rev (hi_undo_stack self) of
          [] \<Rightarrow> 0
        | e # prevs \<Rightarrow> group_count (hi_group_interval self) e prevs)"

text \<open>The loop of \<open>group_until\<close> over the stack from the top down: how many entries are above the one with
  the id, unless one that suppresses grouping comes first.\<close>

fun group_until_count :: "lamport \<Rightarrow> history_entry list \<Rightarrow> nat \<Rightarrow> nat option" where
  "group_until_count tid [] merged = None"
| "group_until_count tid (e # es) merged =
     (if transaction_id e = tid then Some merged
      else if he_suppress_grouping e then None
      else group_until_count tid es (merged + 1))"

definition group_until :: "history \<Rightarrow> lamport \<Rightarrow> history option" where
  "group_until self tid =
     (case group_until_count tid (rev (hi_undo_stack self)) 0 of
        Some merged \<Rightarrow> map_option fst (group_trailing self merged)
      | None \<Rightarrow> Some self)"

definition finalize_last_transaction :: "history \<Rightarrow> history \<times> transaction option" where
  "finalize_last_transaction self =
     (case vec_last (hi_undo_stack self) of
        None \<Rightarrow> (self, None)
      | Some e \<Rightarrow>
          let e = e\<lparr>he_suppress_grouping := True\<rparr>
          in (self\<lparr>hi_undo_stack := butlast (hi_undo_stack self) @ [e]\<rparr>, Some (he_transaction e)))"

definition push_transaction :: "history \<Rightarrow> transaction \<Rightarrow> nat \<Rightarrow> history option" where
  "push_transaction self t now = do {
     guard (hi_transaction_depth self = 0);
     let e = \<lparr>he_transaction = t, he_first_edit_at = now, he_last_edit_at = now, he_suppress_grouping = False\<rparr>;
     Some (self\<lparr>hi_undo_stack := hi_undo_stack self @ [e]\<rparr>)
   }"

definition push_empty_transaction ::
    "history \<Rightarrow> global \<Rightarrow> nat \<Rightarrow> lamport \<Rightarrow> (history \<times> lamport \<times> lamport) option" where
  "push_empty_transaction self start now clock = do {
     guard (hi_transaction_depth self = 0);
     let (tid, clock) = lamport_tick clock;
     let e = \<lparr>he_transaction = \<lparr>tr_id = tid, tr_edit_ids = [], tr_start = start\<rparr>,
              he_first_edit_at = now, he_last_edit_at = now, he_suppress_grouping = False\<rparr>;
     Some (self\<lparr>hi_undo_stack := hi_undo_stack self @ [e]\<rparr>, clock, tid)
   }"

definition push_undo :: "history \<Rightarrow> lamport \<Rightarrow> history option" where
  "push_undo self op_id = do {
     guard (hi_transaction_depth self \<noteq> 0);
     (case tm_get (hi_operations self) op_id of
        Some (EditOp _) \<Rightarrow> do {
          e \<leftarrow> vec_last (hi_undo_stack self);
          let t = he_transaction e;
          let e = e\<lparr>he_transaction := t\<lparr>tr_edit_ids := tr_edit_ids t @ [op_id]\<rparr>\<rparr>;
          Some (self\<lparr>hi_undo_stack := butlast (hi_undo_stack self) @ [e]\<rparr>)
        }
      | _ \<Rightarrow> Some self)
   }"

definition pop_undo :: "history \<Rightarrow> (history \<times> history_entry option) option" where
  "pop_undo self = do {
     guard (hi_transaction_depth self = 0);
     (case vec_last (hi_undo_stack self) of
        Some e \<Rightarrow> Some (self\<lparr>hi_undo_stack := butlast (hi_undo_stack self), hi_redo_stack := hi_redo_stack self @ [e]\<rparr>,
                        Some e)
      | None \<Rightarrow> Some (self, None))
   }"

text \<open>\<open>iter().rposition\<close>.\<close>

definition rposition :: "('a \<Rightarrow> bool) \<Rightarrow> 'a list \<Rightarrow> nat option" where
  "rposition P xs =
     (let n = length (takeWhile (\<lambda>x. \<not> P x) (rev xs)) in if n < length xs then Some (length xs - 1 - n) else None)"

definition vec_remove :: "'a list \<Rightarrow> nat \<Rightarrow> ('a list \<times> 'a) option" where
  "vec_remove xs i = (if i < length xs then Some (take i xs @ drop (i + 1) xs, xs ! i) else None)"

definition remove_from_undo :: "history \<Rightarrow> lamport \<Rightarrow> (history \<times> history_entry option) option" where
  "remove_from_undo self tid = do {
     guard (hi_transaction_depth self = 0);
     (case rposition (\<lambda>e. transaction_id e = tid) (hi_undo_stack self) of
        None \<Rightarrow> Some (self, None)
      | Some entry_ix \<Rightarrow> do {
          (undo_stack, e) \<leftarrow> vec_remove (hi_undo_stack self) entry_ix;
          Some (self\<lparr>hi_undo_stack := undo_stack, hi_redo_stack := hi_redo_stack self @ [e]\<rparr>, Some e)
        })
   }"

definition remove_from_undo_until :: "history \<Rightarrow> lamport \<Rightarrow> (history \<times> history_entry list) option" where
  "remove_from_undo_until self tid = do {
     guard (hi_transaction_depth self = 0);
     (case rposition (\<lambda>e. transaction_id e = tid) (hi_undo_stack self) of
        None \<Rightarrow> Some (self, [])
      | Some entry_ix \<Rightarrow>
          let moved = rev (drop entry_ix (hi_undo_stack self))
          in Some (self\<lparr>hi_undo_stack := take entry_ix (hi_undo_stack self),
                        hi_redo_stack := hi_redo_stack self @ moved\<rparr>, moved))
   }"

definition history_forget :: "history \<Rightarrow> lamport \<Rightarrow> (history \<times> transaction option) option" where
  "history_forget self tid = do {
     guard (hi_transaction_depth self = 0);
     (case rposition (\<lambda>e. transaction_id e = tid) (hi_undo_stack self) of
        Some entry_ix \<Rightarrow> do {
          (undo_stack, e) \<leftarrow> vec_remove (hi_undo_stack self) entry_ix;
          Some (self\<lparr>hi_undo_stack := undo_stack\<rparr>, Some (he_transaction e))
        }
      | None \<Rightarrow>
          (case rposition (\<lambda>e. transaction_id e = tid) (hi_redo_stack self) of
             Some entry_ix \<Rightarrow> do {
               (redo_stack, e) \<leftarrow> vec_remove (hi_redo_stack self) entry_ix;
               Some (self\<lparr>hi_redo_stack := redo_stack\<rparr>, Some (he_transaction e))
             }
           | None \<Rightarrow> Some (self, None)))
   }"

text \<open>\<open>rfind\<close> in the undo stack, or else in the redo stack.\<close>

definition history_transaction :: "history \<Rightarrow> lamport \<Rightarrow> transaction option" where
  "history_transaction self tid =
     (case List.find (\<lambda>e. transaction_id e = tid) (rev (hi_undo_stack self)) of
        Some e \<Rightarrow> Some (he_transaction e)
      | None \<Rightarrow> map_option he_transaction (List.find (\<lambda>e. transaction_id e = tid) (rev (hi_redo_stack self))))"

text \<open>A change through the reference that \<open>transaction_mut\<close> hands out.\<close>

definition transaction_mut :: "history \<Rightarrow> lamport \<Rightarrow> (transaction \<Rightarrow> transaction) \<Rightarrow> history option" where
  "transaction_mut self tid f =
     (let upd = (\<lambda>es i. es[i := (es ! i)\<lparr>he_transaction := f (he_transaction (es ! i))\<rparr>])
      in case rposition (\<lambda>e. transaction_id e = tid) (hi_undo_stack self) of
           Some i \<Rightarrow> Some (self\<lparr>hi_undo_stack := upd (hi_undo_stack self) i\<rparr>)
         | None \<Rightarrow>
             (case rposition (\<lambda>e. transaction_id e = tid) (hi_redo_stack self) of
                Some i \<Rightarrow> Some (self\<lparr>hi_redo_stack := upd (hi_redo_stack self) i\<rparr>)
              | None \<Rightarrow> None))"

definition merge_transactions :: "history \<Rightarrow> lamport \<Rightarrow> lamport \<Rightarrow> history option" where
  "merge_transactions self t destination = do {
     (self, forgotten) \<leftarrow> history_forget self t;
     (case forgotten of
        Some t \<Rightarrow>
          (case transaction_mut self destination (\<lambda>d. d\<lparr>tr_edit_ids := tr_edit_ids d @ tr_edit_ids t\<rparr>) of
             Some self \<Rightarrow> Some self
           | None \<Rightarrow> Some self)
      | None \<Rightarrow> Some self)
   }"

definition pop_redo :: "history \<Rightarrow> (history \<times> history_entry option) option" where
  "pop_redo self = do {
     guard (hi_transaction_depth self = 0);
     (case vec_last (hi_redo_stack self) of
        Some e \<Rightarrow> Some (self\<lparr>hi_redo_stack := butlast (hi_redo_stack self), hi_undo_stack := hi_undo_stack self @ [e]\<rparr>,
                        Some e)
      | None \<Rightarrow> Some (self, None))
   }"

definition remove_from_redo :: "history \<Rightarrow> lamport \<Rightarrow> (history \<times> history_entry list) option" where
  "remove_from_redo self tid = do {
     guard (hi_transaction_depth self = 0);
     (case rposition (\<lambda>e. transaction_id e = tid) (hi_redo_stack self) of
        None \<Rightarrow> Some (self, [])
      | Some entry_ix \<Rightarrow>
          let moved = rev (drop entry_ix (hi_redo_stack self))
          in Some (self\<lparr>hi_redo_stack := take entry_ix (hi_redo_stack self),
                        hi_undo_stack := hi_undo_stack self @ moved\<rparr>, moved))
   }"

text \<open>\<open>Buffer::end_transaction_at\<close>, which touches the history only: a transaction that ends is grouped
  with the ones before it.\<close>

definition end_transaction_at :: "history \<Rightarrow> nat \<Rightarrow> (history \<times> (lamport \<times> global) option) option" where
  "end_transaction_at self now = do {
     (self, ended) \<leftarrow> end_transaction self now;
     (case ended of
        Some e \<Rightarrow> do {
          (self, tid) \<leftarrow> history_group self;
          tid \<leftarrow> tid;
          Some (self, Some (tid, tr_start (he_transaction e)))
        }
      | None \<Rightarrow> Some (self, None))
   }"

end
