(* ===== verification/HistorySpec.thy ===== *)
theory HistorySpec
  imports History "HOL-Library.Multiset"
begin

text \<open>
  What the undo history of \<open>History\<close> keeps: in every run, transaction ids and edit ids are distinct over
  both stacks, an open transaction has its entry, and no operation panics; undo and redo are inverse;
  grouping merges the longest run of entries close in time.
\<close>

subsection \<open>Entries\<close>

abbreviation edits_of :: "history_entry \<Rightarrow> lamport list" where
  "edits_of e \<equiv> tr_edit_ids (he_transaction e)"

definition edits_in :: "history_entry list \<Rightarrow> lamport list" where
  "edits_in es = concat (map edits_of es)"

definition entries_ok :: "lamport \<Rightarrow> history_entry list \<Rightarrow> bool" where
  "entries_ok c es \<longleftrightarrow> distinct (map transaction_id es) \<and> distinct (edits_in es) \<and>
     (\<forall>e \<in> set es. transaction_id e < c) \<and> (\<forall>t \<in> set (edits_in es). t < c)"

lemma edits_in_simps [simp]: "edits_in [] = []" "edits_in (e # es) = edits_of e @ edits_in es"
  "edits_in (xs @ ys) = edits_in xs @ edits_in ys"
  by (simp_all add: edits_in_def)

lemma edits_in_mset: "mset xs = mset ys \<Longrightarrow> mset (edits_in xs) = mset (edits_in ys)"
proof -
  have "mset (edits_in es) = sum_mset (image_mset (\<lambda>e. mset (edits_of e)) (mset es))" for es
    by (induction es) simp_all
  then show "mset xs = mset ys \<Longrightarrow> mset (edits_in xs) = mset (edits_in ys)" by simp
qed

lemma entries_ok_mset: "mset xs = mset ys \<Longrightarrow> entries_ok c xs \<longleftrightarrow> entries_ok c ys"
  unfolding entries_ok_def
  using mset_eq_imp_distinct_iff [OF edits_in_mset, of xs ys] mset_eq_setD [OF edits_in_mset, of xs ys]
    mset_eq_imp_distinct_iff [of "map transaction_id xs" "map transaction_id ys"] mset_eq_setD [of xs ys]
  by simp

lemma entries_ok_append: "entries_ok c (xs @ ys) \<Longrightarrow> entries_ok c xs \<and> entries_ok c ys"
  by (auto simp: entries_ok_def)

lemma entries_ok_later: "entries_ok c es \<Longrightarrow> c \<le> c' \<Longrightarrow> entries_ok c' es"
  by (auto simp: entries_ok_def intro: less_le_trans)

text \<open>Entries that carry the same ids and edits, as a merge leaves them.\<close>

lemma entries_ok_same:
  assumes "entries_ok c xs" and "distinct (map transaction_id ys)" and "transaction_id ` set ys \<subseteq> transaction_id ` set xs"
    and "mset (edits_in ys) = mset (edits_in xs)"
  shows "entries_ok c ys"
proof -
  have "distinct (edits_in ys)" "set (edits_in ys) = set (edits_in xs)"
    using assms(1) mset_eq_imp_distinct_iff [OF assms(4)] mset_eq_setD [OF assms(4)] by (simp_all add: entries_ok_def)
  moreover have "\<forall>e \<in> set ys. transaction_id e < c"
    using assms(1,3) by (auto simp: entries_ok_def image_subset_iff)
  ultimately show ?thesis using assms(1,2) by (simp add: entries_ok_def)
qed

definition history_inv :: "history \<Rightarrow> lamport \<Rightarrow> bool" where
  "history_inv h c \<longleftrightarrow> entries_ok c (hi_undo_stack h @ hi_redo_stack h) \<and>
     (hi_transaction_depth h \<noteq> 0 \<longrightarrow> hi_undo_stack h \<noteq> [])"

subsection \<open>Vectors\<close>

lemma rposition_Some:
  assumes "rposition P xs = Some i" shows "i < length xs" and "P (xs ! i)" and "\<forall>j. i < j \<and> j < length xs \<longrightarrow> \<not> P (xs ! j)"
proof -
  let ?n = "length (takeWhile (\<lambda>x. \<not> P x) (rev xs))"
  have n: "?n < length xs" "i = length xs - 1 - ?n" using assms by (auto simp: rposition_def Let_def split: if_splits)
  then show "i < length xs" by simp
  have "P (rev xs ! ?n)" using nth_length_takeWhile [of "\<lambda>x. \<not> P x" "rev xs"] n(1) by simp
  then show "P (xs ! i)" using n by (simp add: rev_nth)
  show "\<forall>j. i < j \<and> j < length xs \<longrightarrow> \<not> P (xs ! j)"
  proof (intro allI impI)
    fix j assume j: "i < j \<and> j < length xs"
    let ?k = "length xs - 1 - j"
    have k: "?k < ?n" using j n by linarith
    have "\<not> P (takeWhile (\<lambda>x. \<not> P x) (rev xs) ! ?k)" using nth_mem [OF k] set_takeWhileD by metis
    moreover have "rev xs ! ?k = xs ! j" proof -
      have "?k < length xs" "length xs - Suc ?k = j" using j by linarith+
      then show ?thesis by (simp only: rev_nth)
    qed
    ultimately show "\<not> P (xs ! j)" using takeWhile_nth [OF k] by simp
  qed
qed

lemma rposition_None: "rposition P xs = None \<longleftrightarrow> (\<forall>x \<in> set xs. \<not> P x)"
proof -
  have "length (takeWhile (\<lambda>x. \<not> P x) (rev xs)) < length xs \<longleftrightarrow> (\<exists>x \<in> set xs. P x)"
  proof
    assume "length (takeWhile (\<lambda>x. \<not> P x) (rev xs)) < length xs"
    then have "takeWhile (\<lambda>x. \<not> P x) (rev xs) \<noteq> rev xs" by (metis length_rev less_irrefl)
    then show "\<exists>x \<in> set xs. P x" by (metis takeWhile_eq_all_conv set_rev)
  next
    assume "\<exists>x \<in> set xs. P x"
    then have "takeWhile (\<lambda>x. \<not> P x) (rev xs) \<noteq> rev xs" by (metis takeWhile_eq_all_conv set_rev)
    then show "length (takeWhile (\<lambda>x. \<not> P x) (rev xs)) < length xs"
      by (metis length_rev length_takeWhile_le le_neq_implies_less takeWhile_eq_take take_all order_refl)
  qed
  then show ?thesis by (auto simp: rposition_def Let_def)
qed

lemma split_at: "i < length xs \<Longrightarrow> xs = take i xs @ xs ! i # drop (Suc i) xs"
  by (simp add: id_take_nth_drop)

lemma mset_split_at: "i < length xs \<Longrightarrow> mset xs = add_mset (xs ! i) (mset (take i xs @ drop (Suc i) xs))"
  by (subst split_at [of i xs]) simp_all

lemma vec_last_cases: obtains "xs = []" "vec_last xs = None" | ys x where "xs = ys @ [x]" "vec_last xs = Some x"
  by (cases xs rule: rev_cases) auto

subsection \<open>Operations\<close>

lemma inv_mset:
  assumes "history_inv h c" and "mset (hi_undo_stack h' @ hi_redo_stack h') = mset (hi_undo_stack h @ hi_redo_stack h)"
    and "hi_transaction_depth h' = 0"
  shows "history_inv h' c"
  using assms entries_ok_mset [OF assms(2), of c] by (simp add: history_inv_def)

lemma inv_remove:
  assumes "history_inv h c" and "mset (hi_undo_stack h @ hi_redo_stack h) = add_mset e (mset (hi_undo_stack h' @ hi_redo_stack h'))"
    and "hi_transaction_depth h' = 0"
  shows "history_inv h' c \<and> entries_ok c (e # hi_undo_stack h' @ hi_redo_stack h')"
proof -
  have "entries_ok c (e # hi_undo_stack h' @ hi_redo_stack h')"
    using assms(1,2) entries_ok_mset [of "hi_undo_stack h @ hi_redo_stack h" "e # hi_undo_stack h' @ hi_redo_stack h'" c]
    by (simp add: history_inv_def)
  then show ?thesis using entries_ok_append [of c "[e]"] assms(3) by (simp add: history_inv_def)
qed

lemma group_count_le: "group_count iv e es \<le> length es"
  by (induction iv e es rule: group_count.induct) auto

lemma group_until_count_less: "group_until_count t es k = Some n \<Longrightarrow> n < k + length es"
  by (induction t es k rule: group_until_count.induct) (fastforce split: if_splits)+

text \<open>Merging the entries \<open>es\<close> into the entry \<open>e\<close> below them.\<close>

definition merge_into :: "history_entry \<Rightarrow> history_entry list \<Rightarrow> history_entry" where
  "merge_into e es = e\<lparr>he_transaction := (he_transaction e)\<lparr>tr_edit_ids := edits_of e @ edits_in es\<rparr>,
     he_last_edit_at := (if es = [] then he_last_edit_at e else he_last_edit_at (last es))\<rparr>"

lemma merge_into_simps [simp]: "transaction_id (merge_into e es) = transaction_id e"
  "edits_of (merge_into e es) = edits_of e @ edits_in es" "he_first_edit_at (merge_into e es) = he_first_edit_at e"
  "he_suppress_grouping (merge_into e es) = he_suppress_grouping e"
  "he_last_edit_at (merge_into e es) = (if es = [] then he_last_edit_at e else he_last_edit_at (last es))"
  by (simp_all add: merge_into_def transaction_id_def)

lemma group_trailing_at:
  assumes "hi_undo_stack h = xs @ e # es"
  shows "group_trailing h (length es) =
    Some (h\<lparr>hi_undo_stack := xs @ [merge_into e es]\<rparr>, Some (transaction_id e))"
  using assms by (cases es rule: rev_cases)
    (simp_all add: group_trailing_def merge_into_def edits_in_def transaction_id_def Let_def vec_last_def comp_def)

lemma group_trailing_inv:
  assumes "history_inv h c" and "hi_undo_stack h = xs @ e # es"
  shows "history_inv (h\<lparr>hi_undo_stack := xs @ [merge_into e es]\<rparr>) c"
proof -
  have "entries_ok c ((xs @ [merge_into e es]) @ hi_redo_stack h)"
  proof (rule entries_ok_same)
    show ok: "entries_ok c ((xs @ e # es) @ hi_redo_stack h)" using assms by (simp add: history_inv_def)
    show "distinct (map transaction_id ((xs @ [merge_into e es]) @ hi_redo_stack h))"
      using ok by (auto simp: entries_ok_def)
  qed auto
  then show ?thesis by (simp add: history_inv_def)
qed

lemma history_group_inv:
  assumes "history_inv h c" and "hi_undo_stack h \<noteq> []"
  shows "\<exists>h' t. history_group h = Some (h', Some t) \<and> history_inv h' c"
proof -
  obtain prevs e where u: "rev (hi_undo_stack h) = e # prevs" using assms(2) by (cases "rev (hi_undo_stack h)") auto
  let ?n = "group_count (hi_group_interval h) e prevs"
  have "?n < length (hi_undo_stack h)" using group_count_le [of "hi_group_interval h" e prevs] u by (metis length_rev length_Cons le_imp_less_Suc)
  then have i: "length (hi_undo_stack h) - Suc ?n < length (hi_undo_stack h)" by simp
  obtain xs e' es where s: "hi_undo_stack h = xs @ e' # es" "length es = ?n"
    using split_at [OF i] \<open>?n < _\<close> by (metis Suc_diff_Suc diff_diff_cancel diff_diff_left length_drop less_imp_le_nat plus_1_eq_Suc add.commute Suc_leI)
  show ?thesis using group_trailing_at [OF s(1)] group_trailing_inv [OF assms(1) s(1)] u by (simp add: history_group_def s(2))
qed

lemma group_until_inv:
  assumes "history_inv h c"
  shows "\<exists>h'. group_until h t = Some h' \<and> history_inv h' c"
proof (cases "group_until_count t (rev (hi_undo_stack h)) 0")
  case (Some n)
  then have n: "n < length (hi_undo_stack h)" using group_until_count_less by fastforce
  then have i: "length (hi_undo_stack h) - Suc n < length (hi_undo_stack h)" by simp
  obtain xs e' es where s: "hi_undo_stack h = xs @ e' # es" "length es = n"
    using split_at [OF i] n by (metis Suc_diff_Suc diff_diff_cancel diff_diff_left length_drop less_imp_le_nat plus_1_eq_Suc add.commute Suc_leI)
  show ?thesis using group_trailing_at [OF s(1)] group_trailing_inv [OF assms s(1)] Some by (simp add: group_until_def s(2))
qed (use assms in \<open>simp add: group_until_def\<close>)

subsection \<open>Runs\<close>

text \<open>The calls a buffer makes on its history and its clock. The clock counts up to its last value; a
  transaction pushed from outside has an id and edits of its own.\<close>

inductive history_run :: "history \<Rightarrow> lamport \<Rightarrow> bool" where
  run_new: "history_run (history_new base_text) c"
| run_clock: "history_run h c \<Longrightarrow> c \<le> c' \<Longrightarrow> history_run h c'"
| run_push: "history_run h c \<Longrightarrow> history_push h op = Some h' \<Longrightarrow> history_run h' c"
| run_start: "history_run h c \<Longrightarrow> lam_value c \<noteq> - 1 \<Longrightarrow> start_transaction h version now c = (h', c', t) \<Longrightarrow> history_run h' c'"
| run_edit: "history_run h c \<Longrightarrow> lam_value c \<noteq> - 1 \<Longrightarrow> lamport_tick c = (t, c') \<Longrightarrow> history_push h op = Some h1 \<Longrightarrow>
    op_timestamp op = t \<Longrightarrow> push_undo h1 t = Some h' \<Longrightarrow> history_run h' c'"
| run_end: "history_run h c \<Longrightarrow> end_transaction_at h now = Some (h', r) \<Longrightarrow> history_run h' c"
| run_push_empty: "history_run h c \<Longrightarrow> lam_value c \<noteq> - 1 \<Longrightarrow> push_empty_transaction h version now c = Some (h', c', t) \<Longrightarrow>
    history_run h' c'"
| run_push_transaction: "history_run h c \<Longrightarrow> push_transaction h tr now = Some h' \<Longrightarrow>
    entries_ok c (hi_undo_stack h' @ hi_redo_stack h') \<Longrightarrow> history_run h' c"
| run_finalize: "history_run h c \<Longrightarrow> history_run (fst (finalize_last_transaction h)) c"
| run_group_until: "history_run h c \<Longrightarrow> group_until h t = Some h' \<Longrightarrow> history_run h' c"
| run_undo: "history_run h c \<Longrightarrow> pop_undo h = Some (h', e) \<Longrightarrow> history_run h' c"
| run_redo: "history_run h c \<Longrightarrow> pop_redo h = Some (h', e) \<Longrightarrow> history_run h' c"
| run_remove: "history_run h c \<Longrightarrow> remove_from_undo h t = Some (h', e) \<Longrightarrow> history_run h' c"
| run_remove_until: "history_run h c \<Longrightarrow> remove_from_undo_until h t = Some (h', es) \<Longrightarrow> history_run h' c"
| run_remove_redo: "history_run h c \<Longrightarrow> remove_from_redo h t = Some (h', es) \<Longrightarrow> history_run h' c"
| run_forget: "history_run h c \<Longrightarrow> history_forget h t = Some (h', tr) \<Longrightarrow> history_run h' c"
| run_merge: "history_run h c \<Longrightarrow> merge_transactions h t u = Some h' \<Longrightarrow> history_run h' c"

lemma tick_after: "lam_value c \<noteq> - 1 \<Longrightarrow> lamport_tick c = (t, c') \<Longrightarrow> t = c \<and> c < c'"
  by (auto simp: lamport_tick_def lamport_less_iff word_less_inc)

lemma entries_ok_fresh:
  assumes "entries_ok c es" and "c < c'"
  shows "entries_ok c' (\<lparr>he_transaction = \<lparr>tr_id = c, tr_edit_ids = [], tr_start = v\<rparr>, he_first_edit_at = n,
    he_last_edit_at = n, he_suppress_grouping = b\<rparr> # es)"
proof -
  have "\<forall>e \<in> set es. transaction_id e \<noteq> c" using assms(1) by (auto simp: entries_ok_def)
  then show ?thesis using entries_ok_later [OF assms(1), of c'] assms(2) by (auto simp: entries_ok_def transaction_id_def)
qed

lemma entries_ok_push:
  assumes "entries_ok c (xs @ e # ys)" and "c < c'"
  shows "entries_ok c' (xs @ e\<lparr>he_transaction := (he_transaction e)\<lparr>tr_edit_ids := edits_of e @ [c]\<rparr>\<rparr> # ys)"
proof -
  have "c \<notin> set (edits_in (xs @ e # ys))" using assms(1) by (auto simp: entries_ok_def)
  then show ?thesis using entries_ok_later [OF assms(1), of c'] assms(2) by (auto simp: entries_ok_def transaction_id_def)
qed

lemma entries_ok_change:
  assumes "entries_ok c (xs @ e # ys)" and "he_transaction e' = he_transaction e"
  shows "entries_ok c (xs @ e' # ys)"
  using assms by (auto simp: entries_ok_def transaction_id_def)

lemma history_push_stacks: "history_push h op = Some h' \<Longrightarrow> hi_undo_stack h' = hi_undo_stack h \<and>
    hi_redo_stack h' = hi_redo_stack h \<and> hi_transaction_depth h' = hi_transaction_depth h"
  by (auto simp: history_push_def split: bind_splits)

lemma end_transaction_inv:
  assumes "history_inv h c" and "hi_transaction_depth h \<noteq> 0"
  shows "\<exists>h' r. end_transaction_at h now = Some (h', r) \<and> history_inv h' c"
proof (cases "hi_transaction_depth h = 1")
  case True
  have "hi_undo_stack h \<noteq> []" using assms by (simp add: history_inv_def)
  then obtain xs e where u: "hi_undo_stack h = xs @ [e]" by (cases "hi_undo_stack h" rule: rev_cases) auto
  have ok: "entries_ok c (xs @ e # hi_redo_stack h)" using assms(1) u by (simp add: history_inv_def)
  show ?thesis
  proof (cases "edits_of e = []")
    case True
    have "entries_ok c (e # xs @ hi_redo_stack h)" using ok entries_ok_mset [of "xs @ e # hi_redo_stack h" "e # xs @ hi_redo_stack h" c] by simp
    then have "entries_ok c (xs @ hi_redo_stack h)" using entries_ok_append [of c "[e]"] by simp
    then show ?thesis using True u \<open>hi_transaction_depth h = 1\<close>
      by (simp add: end_transaction_at_def end_transaction_def vec_last_def history_inv_def Let_def)
  next
    case False
    let ?h = "h\<lparr>hi_transaction_depth := 0, hi_redo_stack := [], hi_undo_stack := xs @ [e\<lparr>he_last_edit_at := now\<rparr>]\<rparr>"
    have "entries_ok c (xs @ e\<lparr>he_last_edit_at := now\<rparr> # hi_redo_stack h)" by (rule entries_ok_change [OF ok]) simp
    then have "history_inv ?h c" using entries_ok_append [of c "xs @ [e\<lparr>he_last_edit_at := now\<rparr>]"] by (simp add: history_inv_def)
    moreover have "hi_undo_stack ?h \<noteq> []" by simp
    ultimately obtain h' t where "history_group ?h = Some (h', Some t)" "history_inv h' c" using history_group_inv by blast
    then show ?thesis using False u \<open>hi_transaction_depth h = 1\<close>
      by (simp add: end_transaction_at_def end_transaction_def vec_last_def Let_def)
  qed
next
  case False
  then show ?thesis using assms by (simp add: end_transaction_at_def end_transaction_def history_inv_def Let_def)
qed

lemma forget_inv:
  assumes "history_inv h c" and "history_forget h t = Some (h', r)"
  shows "history_inv h' c \<and> hi_transaction_depth h' = 0 \<and>
    (\<forall>tr. r = Some tr \<longrightarrow> (\<exists>e. he_transaction e = tr \<and> entries_ok c (e # hi_undo_stack h' @ hi_redo_stack h')))"
proof -
  have d: "hi_transaction_depth h = 0" using assms(2) by (auto simp: history_forget_def split: bind_splits)
  show ?thesis
  proof (cases "rposition (\<lambda>e. transaction_id e = t) (hi_undo_stack h)")
    case (Some i)
    note i = rposition_Some(1) [OF Some]
    have "h' = h\<lparr>hi_undo_stack := take i (hi_undo_stack h) @ drop (Suc i) (hi_undo_stack h)\<rparr>"
      "r = Some (he_transaction (hi_undo_stack h ! i))" using assms(2) Some i d by (simp_all add: history_forget_def vec_remove_def)
    moreover from this have "history_inv h' c \<and> entries_ok c (hi_undo_stack h ! i # hi_undo_stack h' @ hi_redo_stack h')"
      using mset_split_at [OF i] d by (intro inv_remove [OF assms(1)]) simp_all
    ultimately show ?thesis using d by auto
  next
    case None
    show ?thesis
    proof (cases "rposition (\<lambda>e. transaction_id e = t) (hi_redo_stack h)")
      case (Some i)
      note i = rposition_Some(1) [OF Some]
      have "h' = h\<lparr>hi_redo_stack := take i (hi_redo_stack h) @ drop (Suc i) (hi_redo_stack h)\<rparr>"
        "r = Some (he_transaction (hi_redo_stack h ! i))" using assms(2) Some None i d by (simp_all add: history_forget_def vec_remove_def)
      moreover from this have "history_inv h' c \<and> entries_ok c (hi_redo_stack h ! i # hi_undo_stack h' @ hi_redo_stack h')"
        using mset_split_at [OF i] d by (intro inv_remove [OF assms(1)]) simp_all
      ultimately show ?thesis using d by auto
    next
      case none: None
      then show ?thesis using assms None d by (auto simp: history_forget_def)
    qed
  qed
qed

lemma extend_entry_ok:
  assumes "entries_ok c (e # xs)" and "i < length xs"
  shows "entries_ok c (xs[i := (xs ! i)\<lparr>he_transaction := (he_transaction (xs ! i))\<lparr>tr_edit_ids := edits_of (xs ! i) @ edits_of e\<rparr>\<rparr>])"
proof -
  let ?e = "(xs ! i)\<lparr>he_transaction := (he_transaction (xs ! i))\<lparr>tr_edit_ids := edits_of (xs ! i) @ edits_of e\<rparr>\<rparr>"
  have t: "transaction_id ?e = transaction_id (xs ! i)" by (simp add: transaction_id_def)
  have x: "xs[i := ?e] = take i xs @ ?e # drop (Suc i) xs" using assms(2) by (rule upd_conv_take_nth_drop)
  have m: "map transaction_id (xs[i := ?e]) = map transaction_id xs" using t assms(2) by (simp add: map_update list_update_same_conv)
  have ms: "mset (edits_in xs) = mset (edits_in (take i xs)) + mset (edits_of (xs ! i)) + mset (edits_in (drop (Suc i) xs))"
    by (subst split_at [OF assms(2)]) simp
  show ?thesis
  proof (rule entries_ok_same [OF assms(1)])
    show "distinct (map transaction_id (xs[i := ?e]))" using assms(1) m by (simp add: entries_ok_def)
    show "transaction_id ` set (xs[i := ?e]) \<subseteq> transaction_id ` set (e # xs)" using arg_cong [OF m, of set] by auto
    show "mset (edits_in (xs[i := ?e])) = mset (edits_in (e # xs))" unfolding x using ms by simp
  qed
qed

lemma merge_inv:
  assumes "history_inv h c" and "merge_transactions h t u = Some h'"
  shows "history_inv h' c"
proof -
  obtain h1 r where f: "history_forget h t = Some (h1, r)" using assms(2) by (auto simp: merge_transactions_def split: bind_splits)
  note i1 = forget_inv [OF assms(1) f]
  show ?thesis
  proof (cases r)
    case None
    then show ?thesis using i1 f assms(2) by (simp add: merge_transactions_def)
  next
    case (Some tr)
    then obtain e where e: "he_transaction e = tr" "entries_ok c (e # hi_undo_stack h1 @ hi_redo_stack h1)" using i1 by auto
    let ?f = "\<lambda>d. d\<lparr>tr_edit_ids := tr_edit_ids d @ tr_edit_ids tr\<rparr>"
    show ?thesis
    proof (cases "transaction_mut h1 u ?f")
      case None
      then show ?thesis using i1 f assms(2) Some by (simp add: merge_transactions_def)
    next
      case mut: (Some h2)
      have h2: "h2 = h'" using mut f assms(2) Some by (simp add: merge_transactions_def)
      show ?thesis
      proof (cases "rposition (\<lambda>e. transaction_id e = u) (hi_undo_stack h1)")
        case (Some i)
        note i = rposition_Some(1) [OF Some]
        have "i < length (hi_undo_stack h1 @ hi_redo_stack h1)" using i by simp
        from extend_entry_ok [OF e(2) this] show ?thesis
          using mut Some i i1 e(1) h2 by (auto simp: transaction_mut_def history_inv_def nth_append list_update_append)
      next
        case None
        then obtain i where i: "rposition (\<lambda>e. transaction_id e = u) (hi_redo_stack h1) = Some i"
          using mut by (auto simp: transaction_mut_def split: option.splits)
        have "length (hi_undo_stack h1) + i < length (hi_undo_stack h1 @ hi_redo_stack h1)" using rposition_Some(1) [OF i] by simp
        from extend_entry_ok [OF e(2) this] show ?thesis
          using mut None i i1 e(1) h2 by (auto simp: transaction_mut_def history_inv_def nth_append list_update_append)
      qed
    qed
  qed
qed

lemma history_run_inv: "history_run h c \<Longrightarrow> history_inv h c"
proof (induction rule: history_run.induct)
  case (run_new base_text c)
  show ?case by (simp add: history_inv_def history_new_def entries_ok_def)
next
  case (run_clock h c c')
  then show ?case using entries_ok_later by (auto simp: history_inv_def)
next
  case (run_push h c op h')
  then show ?case using history_push_stacks [of h op h'] by (simp add: history_inv_def)
next
  case (run_start h c version now h' c' t)
  show ?case
  proof (cases "hi_transaction_depth h = 0")
    case True
    obtain c1 where t: "lamport_tick c = (c, c1)" "c < c1" using tick_after [OF run_start(2)] by (cases "lamport_tick c") auto
    define e where "e = \<lparr>he_transaction = \<lparr>tr_id = c, tr_edit_ids = [], tr_start = version\<rparr>, he_first_edit_at = now,
      he_last_edit_at = now, he_suppress_grouping = False\<rparr>"
    have h': "h' = h\<lparr>hi_transaction_depth := 1, hi_undo_stack := hi_undo_stack h @ [e]\<rparr>" "c' = c1"
      using run_start(3) t True by (simp_all add: start_transaction_def e_def Let_def)
    have "entries_ok c1 (e # hi_undo_stack h @ hi_redo_stack h)"
      unfolding e_def by (rule entries_ok_fresh [OF _ t(2)]) (use run_start in \<open>simp add: history_inv_def\<close>)
    then have "entries_ok c1 (hi_undo_stack h' @ hi_redo_stack h')"
      using h' entries_ok_mset [of "e # hi_undo_stack h @ hi_redo_stack h" "hi_undo_stack h' @ hi_redo_stack h'" c1] by simp
    then show ?thesis using h' by (simp add: history_inv_def)
  next
    case False
    then show ?thesis using run_start by (auto simp: start_transaction_def history_inv_def)
  qed
next
  case (run_edit h c t c' op h1 h')
  have t: "t = c" "c < c'" using tick_after [OF run_edit(2,3)] by simp_all
  note st = history_push_stacks [OF run_edit(4)]
  show ?case
  proof (cases "tm_get (hi_operations h1) t")
    case None
    then have "h' = h1" using run_edit(6) by (auto simp: push_undo_def split: bind_splits)
    then show ?thesis using st run_edit.IH entries_ok_later t by (auto simp: history_inv_def)
  next
    case (Some o')
    show ?thesis
    proof (cases o')
      case (EditOp ed)
      obtain e where e: "hi_undo_stack h1 \<noteq> []" "e = last (hi_undo_stack h1)"
        "h' = h1\<lparr>hi_undo_stack := butlast (hi_undo_stack h1) @
           [e\<lparr>he_transaction := (he_transaction e)\<lparr>tr_edit_ids := edits_of e @ [t]\<rparr>\<rparr>]\<rparr>"
        using run_edit(6) Some EditOp by (auto simp: push_undo_def vec_last_def Let_def split: bind_splits if_splits)
      have "hi_undo_stack h1 = butlast (hi_undo_stack h1) @ [e]" using e(1,2) by simp
      then have "entries_ok c (butlast (hi_undo_stack h1) @ e # hi_redo_stack h1)"
        using run_edit.IH st by (metis history_inv_def append.assoc append_Cons append_Nil)
      from entries_ok_push [OF this t(2)] show ?thesis using e(3) t(1) by (simp add: history_inv_def)
    next
      case (UndoOp un)
      then have "h' = h1" using run_edit(6) Some by (auto simp: push_undo_def split: bind_splits)
      then show ?thesis using st run_edit.IH entries_ok_later t by (auto simp: history_inv_def)
    qed
  qed
next
  case (run_end h c now h' r)
  have "hi_transaction_depth h \<noteq> 0" using run_end(2) by (auto simp: end_transaction_at_def end_transaction_def split: bind_splits)
  then show ?case using end_transaction_inv [OF run_end.IH, of now] run_end(2) by auto
next
  case (run_push_empty h c version now h' c' t)
  obtain c1 where t: "lamport_tick c = (c, c1)" "c < c1" using tick_after [OF run_push_empty(2)] by (cases "lamport_tick c") auto
  define e where "e = \<lparr>he_transaction = \<lparr>tr_id = c, tr_edit_ids = [], tr_start = version\<rparr>, he_first_edit_at = now,
    he_last_edit_at = now, he_suppress_grouping = False\<rparr>"
  have h': "h' = h\<lparr>hi_undo_stack := hi_undo_stack h @ [e]\<rparr>" "c' = c1" "hi_transaction_depth h = 0"
    using run_push_empty(3) t by (auto simp: push_empty_transaction_def e_def split: bind_splits)
  have "entries_ok c1 (e # hi_undo_stack h @ hi_redo_stack h)"
    unfolding e_def by (rule entries_ok_fresh [OF _ t(2)]) (use run_push_empty in \<open>simp add: history_inv_def\<close>)
  then have "entries_ok c1 (hi_undo_stack h' @ hi_redo_stack h')"
    using h' entries_ok_mset [of "e # hi_undo_stack h @ hi_redo_stack h" "hi_undo_stack h' @ hi_redo_stack h'" c1] by simp
  then show ?case using h' by (simp add: history_inv_def)
next
  case (run_push_transaction h c tr now h')
  then show ?case by (auto simp: push_transaction_def history_inv_def split: bind_splits)
next
  case (run_finalize h c)
  show ?case
  proof (cases "hi_undo_stack h" rule: rev_cases)
    case (snoc xs e)
    have "entries_ok c (xs @ e\<lparr>he_suppress_grouping := True\<rparr> # hi_redo_stack h)"
      by (rule entries_ok_change [where e = e]) (use run_finalize snoc in \<open>simp_all add: history_inv_def\<close>)
    then show ?thesis using snoc by (simp add: finalize_last_transaction_def history_inv_def vec_last_def)
  qed (use run_finalize in \<open>simp add: finalize_last_transaction_def history_inv_def\<close>)
next
  case (run_group_until h c t h')
  then show ?case using group_until_inv [of h c t] by auto
next
  case (run_undo h c h' e)
  show ?case
    by (rule vec_last_cases [of "hi_undo_stack h"]; rule inv_mset [OF run_undo.IH])
      (use run_undo in \<open>auto simp: pop_undo_def split: bind_splits\<close>)
next
  case (run_redo h c h' e)
  show ?case
    by (rule vec_last_cases [of "hi_redo_stack h"]; rule inv_mset [OF run_redo.IH])
      (use run_redo in \<open>auto simp: pop_redo_def split: bind_splits\<close>)
next
  case (run_remove h c t h' e)
  show ?case
  proof (rule inv_mset [OF run_remove.IH])
    show "mset (hi_undo_stack h' @ hi_redo_stack h') = mset (hi_undo_stack h @ hi_redo_stack h)"
    proof (cases "rposition (\<lambda>e. transaction_id e = t) (hi_undo_stack h)")
      case (Some i)
      show ?thesis using run_remove(2) Some rposition_Some(1) [OF Some] mset_split_at [OF rposition_Some(1) [OF Some]]
        by (auto simp: remove_from_undo_def vec_remove_def split: bind_splits)
    qed (use run_remove(2) in \<open>auto simp: remove_from_undo_def split: bind_splits\<close>)
    show "hi_transaction_depth h' = 0"
      using run_remove(2) by (auto simp: remove_from_undo_def vec_remove_def split: bind_splits option.splits if_splits)
  qed
next
  case (run_remove_until h c t h' es)
  have m: "mset (take i xs) + mset (drop i xs) = mset xs" "mset (drop i xs) + mset (take i xs) = mset xs"
    for i and xs :: "history_entry list"
    using mset_append [of "take i xs" "drop i xs"] by (simp_all add: add.commute)
  show ?case
    by (rule inv_mset [OF run_remove_until.IH])
      (use run_remove_until(2) m in \<open>auto simp: remove_from_undo_until_def Let_def split: bind_splits option.splits\<close>)
next
  case (run_remove_redo h c t h' es)
  have m: "mset (take i xs) + mset (drop i xs) = mset xs" "mset (drop i xs) + mset (take i xs) = mset xs"
    for i and xs :: "history_entry list"
    using mset_append [of "take i xs" "drop i xs"] by (simp_all add: add.commute)
  show ?case
    by (rule inv_mset [OF run_remove_redo.IH])
      (use run_remove_redo(2) m in \<open>auto simp: remove_from_redo_def Let_def split: bind_splits option.splits\<close>)
next
  case (run_forget h c t h' tr)
  then show ?case using forget_inv by blast
next
  case (run_merge h c t u h')
  then show ?case using merge_inv by blast
qed

subsection \<open>Grouping\<close>

definition groups_with :: "nat \<Rightarrow> history_entry \<Rightarrow> history_entry \<Rightarrow> bool" where
  "groups_with interval prev_entry e \<longleftrightarrow>
     \<not> he_suppress_grouping prev_entry \<and> he_first_edit_at e - he_last_edit_at prev_entry < interval"

lemma group_count_split:
  "\<exists>ps rest. prevs = ps @ rest \<and> length ps = group_count iv e prevs \<and>
     successively (\<lambda>x y. groups_with iv y x) (e # ps) \<and> (rest = [] \<or> \<not> groups_with iv (hd rest) (last (e # ps)))"
proof (induction iv e prevs rule: group_count.induct)
  case (2 iv e p prevs)
  show ?case
  proof (cases "groups_with iv p e")
    case True
    then obtain ps rest where "prevs = ps @ rest" "length ps = group_count iv p prevs"
      "successively (\<lambda>x y. groups_with iv y x) (p # ps)" "rest = [] \<or> \<not> groups_with iv (hd rest) (last (p # ps))"
      using 2 by (auto simp: groups_with_def)
    then show ?thesis using True by (intro exI [of _ "p # ps"] exI [of _ rest]) (simp add: groups_with_def)
  next
    case False
    then show ?thesis by (intro exI [of _ "[]"] exI [of _ "p # prevs"]) (auto simp: groups_with_def)
  qed
qed simp

text \<open>C38. Grouping. Ending a transaction groups the longest run of transactions at the top of the undo stack
  in which each one started less than the interval after the one below it ended and none below the top
  suppresses grouping: they become one entry with the id and the start of the lowest, the end of the topmost
  and the edits of all of them in order; the entries below are left alone.\<close>
theorem history_grouping:
  assumes "hi_undo_stack h \<noteq> []"
  shows "\<exists>xs e es. hi_undo_stack h = xs @ e # es \<and>
    history_group h = Some (h\<lparr>hi_undo_stack := xs @ [merge_into e es]\<rparr>, Some (transaction_id e)) \<and>
    successively (groups_with (hi_group_interval h)) (e # es) \<and>
    (xs = [] \<or> \<not> groups_with (hi_group_interval h) (last xs) e)"
proof -
  obtain top prevs where u: "rev (hi_undo_stack h) = top # prevs" using assms by (cases "rev (hi_undo_stack h)") auto
  obtain ps rest where p: "prevs = ps @ rest" "length ps = group_count (hi_group_interval h) top prevs"
    "successively (\<lambda>x y. groups_with (hi_group_interval h) y x) (top # ps)"
    "rest = [] \<or> \<not> groups_with (hi_group_interval h) (hd rest) (last (top # ps))"
    using group_count_split by blast
  obtain e es where e: "rev (top # ps) = e # es" by (cases "rev (top # ps)") auto
  have l: "last (top # ps) = e" using e by (metis list.sel(1) hd_rev rev_rev_ident)
  have "length es = length ps" using arg_cong [OF e, of length] by simp
  moreover have s: "hi_undo_stack h = rev rest @ e # es"
    using arg_cong [OF u, of rev] e p(1) by simp
  ultimately have "history_group h = Some (h\<lparr>hi_undo_stack := rev rest @ [merge_into e es]\<rparr>, Some (transaction_id e))"
    using group_trailing_at [OF s] u p(2) by (simp add: history_group_def)
  moreover have "successively (groups_with (hi_group_interval h)) (e # es)"
    using p(3) unfolding e [symmetric] successively_rev by simp
  ultimately show ?thesis using s p(4) l by (intro exI [of _ "rev rest"] exI [of _ e] exI [of _ es]) (auto simp: last_rev)
qed

lemma history_grouping_witness:
  "let t = (\<lambda>k. \<lparr>tr_id = Lamport k (ReplicaId 0), tr_edit_ids = [Lamport (k + 1) (ReplicaId 0)], tr_start = global_new\<rparr>);
       e = (\<lambda>k now. \<lparr>he_transaction = t k, he_first_edit_at = now, he_last_edit_at = now, he_suppress_grouping = False\<rparr>);
       h = (history_new rope_new)\<lparr>hi_undo_stack := [e 1 0, e 3 100]\<rparr>
   in history_group h = Some (h\<lparr>hi_undo_stack := [merge_into (e 1 0) [e 3 100]]\<rparr>, Some (Lamport 1 (ReplicaId 0)))"
proof -
  define t where "t = (\<lambda>k. \<lparr>tr_id = Lamport k (ReplicaId 0), tr_edit_ids = [Lamport (k + 1) (ReplicaId 0)], tr_start = global_new\<rparr>)"
  define e where "e = (\<lambda>k now. \<lparr>he_transaction = t k, he_first_edit_at = now, he_last_edit_at = now, he_suppress_grouping = False\<rparr>)"
  define h where "h = (history_new rope_new)\<lparr>hi_undo_stack := [e 1 0, e 3 (100 :: nat)]\<rparr>"
  have "hi_undo_stack h \<noteq> []" by (simp add: h_def)
  from history_grouping [OF this] obtain xs a es where x: "hi_undo_stack h = xs @ a # es"
    "history_group h = Some (h\<lparr>hi_undo_stack := xs @ [merge_into a es]\<rparr>, Some (transaction_id a))"
    "xs = [] \<or> \<not> groups_with (hi_group_interval h) (last xs) a" by blast
  have "groups_with (hi_group_interval h) (e 1 0) (e 3 100)" by (simp add: groups_with_def h_def e_def history_new_def)
  then have "xs = []" using x(1,3) by (cases xs) (auto simp: h_def append_eq_Cons_conv Cons_eq_append_conv)
  then have "a = e 1 0" "es = [e 3 100]" using x(1) by (simp_all add: h_def)
  moreover have "transaction_id (e 1 0) = Lamport 1 (ReplicaId 0)" by (simp add: transaction_id_def e_def t_def)
  ultimately have "history_group h = Some (h\<lparr>hi_undo_stack := [merge_into (e 1 0) [e 3 100]]\<rparr>, Some (Lamport 1 (ReplicaId 0)))"
    using x(2) \<open>xs = []\<close> by simp
  then show ?thesis by (simp add: Let_def h_def e_def t_def)
qed

subsection \<open>Undo and redo\<close>

lemma rposition_last: "P x \<Longrightarrow> (\<forall>y \<in> set ys. \<not> P y) \<Longrightarrow> rposition P (xs @ x # ys) = Some (length xs)"
proof -
  assume "P x" "\<forall>y \<in> set ys. \<not> P y"
  moreover from this have "length (takeWhile (\<lambda>x. \<not> P x) (rev ys)) = length ys"
    by (metis takeWhile_eq_all_conv set_rev length_rev)
  ultimately show ?thesis by (simp add: rposition_def takeWhile_append2 takeWhile_tail Let_def)
qed

text \<open>C36. Undo and redo. In every run, outside a transaction: undoing the top entry moves it to the redo stack
  and redoing brings the very same history back, and so does undoing after redoing; undoing down to a
  transaction moves it and everything above it, topmost first, and redoing down to the topmost one restores the
  history; undoing one transaction in the middle moves that one and keeps the order of the others.\<close>
theorem history_undo_redo:
  assumes "history_run h c" and "hi_transaction_depth h = 0" and "hi_undo_stack h = xs @ e # es"
  shows "(\<exists>h' x. pop_undo h = Some (h', Some x) \<and> x = last (e # es) \<and> pop_redo h' = Some (h, Some x)) \<and>
    (\<forall>h' x. pop_redo h = Some (h', Some x) \<longrightarrow> pop_undo h' = Some (h, Some x)) \<and>
    (\<exists>h'. remove_from_undo_until h (transaction_id e) = Some (h', rev (e # es)) \<and> hi_undo_stack h' = xs \<and>
      hi_redo_stack h' = hi_redo_stack h @ rev (e # es) \<and>
      remove_from_redo h' (transaction_id (last (e # es))) = Some (h, e # es)) \<and>
    (\<exists>h'. remove_from_undo h (transaction_id e) = Some (h', Some e) \<and> hi_undo_stack h' = xs @ es \<and>
      hi_redo_stack h' = hi_redo_stack h @ [e])"
proof -
  have "history_inv h c" by (rule history_run_inv [OF assms(1)])
  then have d: "distinct (map transaction_id (xs @ e # es @ hi_redo_stack h))"
    using assms(3) by (simp add: history_inv_def entries_ok_def)
  define x where "x = last (e # es)"
  obtain ys where ys: "xs @ e # es = ys @ [x]" unfolding x_def by (metis append_butlast_last_id append_is_Nil_conv last_appendR list.distinct(1))
  have 1: "pop_undo h = Some (h\<lparr>hi_undo_stack := ys, hi_redo_stack := hi_redo_stack h @ [x]\<rparr>, Some x)"
    "pop_redo (h\<lparr>hi_undo_stack := ys, hi_redo_stack := hi_redo_stack h @ [x]\<rparr>) = Some (h, Some x)"
    using assms(2,3) ys by (simp_all add: pop_undo_def pop_redo_def vec_last_def)
  have 2: "pop_undo h' = Some (h, Some z)" if "pop_redo h = Some (h', Some z)" for h' z
    using that assms(2) by (cases "hi_redo_stack h" rule: rev_cases) (auto simp: pop_redo_def pop_undo_def vec_last_def)
  have p: "rposition (\<lambda>a. transaction_id a = transaction_id e) (xs @ e # es) = Some (length xs)"
    by (rule rposition_last) (use d in \<open>auto simp: image_iff\<close>)
  let ?h = "h\<lparr>hi_undo_stack := xs, hi_redo_stack := hi_redo_stack h @ rev (e # es)\<rparr>"
  have 3: "remove_from_undo_until h (transaction_id e) = Some (?h, rev (e # es))"
    using assms(2,3) p by (simp add: remove_from_undo_until_def Let_def)
  obtain zs where zs: "rev (e # es) = x # zs" unfolding x_def by (metis hd_rev list.exhaust_sel rev_is_Nil_conv list.distinct(1))
  have "set (x # zs) = set (e # es)" unfolding zs [symmetric] by simp
  moreover have "distinct (map transaction_id (x # zs))" unfolding zs [symmetric] rev_map [symmetric] using d by auto
  ultimately have "rposition (\<lambda>a. transaction_id a = transaction_id x) (hi_redo_stack h @ x # zs) = Some (length (hi_redo_stack h))"
    by (intro rposition_last) (auto simp: image_iff)
  note px = this
  have 4: "remove_from_redo ?h (transaction_id x) = Some (h, e # es)"
  proof -
    have "e # es = rev zs @ [x]" using arg_cong [OF zs, of rev] by simp
    then show ?thesis using px assms(2,3) zs by (simp add: remove_from_redo_def Let_def)
  qed
  have 5: "remove_from_undo h (transaction_id e) =
      Some (h\<lparr>hi_undo_stack := xs @ es, hi_redo_stack := hi_redo_stack h @ [e]\<rparr>, Some e)"
    using assms(2,3) p by (simp add: remove_from_undo_def vec_remove_def)
  show ?thesis unfolding x_def [symmetric] using 1 2 3 4 5 by simp
qed

lemma history_undo_redo_witness:
  "\<exists>h c e1 e2 h'. history_run h c \<and> hi_undo_stack h = [e1, e2] \<and>
     remove_from_undo_until h (Lamport 1 (ReplicaId 0)) = Some (h', [e2, e1]) \<and> hi_undo_stack h' = [] \<and>
     remove_from_redo h' (Lamport 2 (ReplicaId 0)) = Some (h, [e1, e2])"
proof -
  define h1 where "h1 = fst (the (push_empty_transaction (history_new rope_new) global_new 0 (Lamport 1 (ReplicaId 0))))"
  define h2 where "h2 = fst (the (push_empty_transaction h1 global_new 5 (Lamport 2 (ReplicaId 0))))"
  obtain e1 e2 where e: "hi_undo_stack h2 = [e1, e2]" "transaction_id e1 = Lamport 1 (ReplicaId 0)" "transaction_id e2 = Lamport 2 (ReplicaId 0)"
    "hi_transaction_depth h2 = 0" "hi_redo_stack h2 = []"
    by (simp add: h2_def h1_def push_empty_transaction_def history_new_def lamport_tick_def transaction_id_def)
  have "push_empty_transaction (history_new rope_new) global_new 0 (Lamport 1 (ReplicaId 0)) =
      Some (h1, Lamport 2 (ReplicaId 0), Lamport 1 (ReplicaId 0))"
    by (simp add: h1_def push_empty_transaction_def history_new_def lamport_tick_def)
  from run_push_empty [OF run_new _ this] have r1: "history_run h1 (Lamport 2 (ReplicaId 0))" by simp
  have "push_empty_transaction h1 global_new 5 (Lamport 2 (ReplicaId 0)) = Some (h2, Lamport 3 (ReplicaId 0), Lamport 2 (ReplicaId 0))"
    by (simp add: h2_def h1_def push_empty_transaction_def history_new_def lamport_tick_def)
  from run_push_empty [OF r1 _ this] have r2: "history_run h2 (Lamport 3 (ReplicaId 0))" by simp
  have "hi_undo_stack h2 = [] @ e1 # [e2]" using e(1) by simp
  from history_undo_redo [OF r2 e(4) this] obtain h' where
    "remove_from_undo_until h2 (transaction_id e1) = Some (h', [e2, e1])" "hi_undo_stack h' = []"
    "remove_from_redo h' (transaction_id e2) = Some (h2, [e1, e2])" by auto
  then show ?thesis using r2 e(1-3) by (intro exI [of _ h2] exI [of _ "Lamport 3 (ReplicaId 0)"]) auto
qed

subsection \<open>No panics\<close>

text \<open>C37. The undo history in every run. The ids of the transactions on both stacks are distinct and older than
  the clock, an edit belongs to one transaction only, and a transaction that is open has its entry on the undo
  stack. So inside a transaction neither recording an edit nor ending the transaction panics, and outside one
  nothing else does.\<close>
theorem history_safe:
  assumes "history_run h c"
  shows "distinct (map transaction_id (hi_undo_stack h @ hi_redo_stack h)) \<and>
    distinct (concat (map edits_of (hi_undo_stack h @ hi_redo_stack h))) \<and>
    (\<forall>e \<in> set (hi_undo_stack h @ hi_redo_stack h). transaction_id e < c \<and> (\<forall>t \<in> set (edits_of e). t < c)) \<and>
    (hi_transaction_depth h \<noteq> 0 \<longrightarrow>
       hi_undo_stack h \<noteq> [] \<and> end_transaction_at h now \<noteq> None \<and> push_undo h t \<noteq> None) \<and>
    (hi_transaction_depth h = 0 \<longrightarrow> pop_undo h \<noteq> None \<and> pop_redo h \<noteq> None \<and> remove_from_undo h t \<noteq> None \<and>
       remove_from_undo_until h t \<noteq> None \<and> remove_from_redo h t \<noteq> None \<and> history_forget h t \<noteq> None \<and>
       merge_transactions h t u \<noteq> None \<and> push_transaction h tr now \<noteq> None) \<and>
    group_until h t \<noteq> None"
proof -
  have inv: "history_inv h c" by (rule history_run_inv [OF assms])
  then have ok: "entries_ok c (hi_undo_stack h @ hi_redo_stack h)" by (simp add: history_inv_def)
  have "push_undo h t \<noteq> None" if "hi_transaction_depth h \<noteq> 0"
    using that inv by (auto simp: push_undo_def history_inv_def vec_last_def Let_def split: option.splits operation.splits)
  moreover have "end_transaction_at h now \<noteq> None" if "hi_transaction_depth h \<noteq> 0"
    using end_transaction_inv [OF inv that, of now] by auto
  moreover have f: "history_forget h t \<noteq> None" if "hi_transaction_depth h = 0" for t
    using that rposition_Some(1) by (fastforce simp: history_forget_def vec_remove_def split: option.splits)
  moreover have "merge_transactions h t u \<noteq> None" if "hi_transaction_depth h = 0"
    using f [OF that, of t] by (auto simp: merge_transactions_def split: option.splits)
  moreover have "remove_from_undo h t \<noteq> None" if "hi_transaction_depth h = 0"
    using that rposition_Some(1) by (fastforce simp: remove_from_undo_def vec_remove_def split: option.splits)
  moreover have "group_until h t \<noteq> None" using group_until_inv [OF inv, of t] by auto
  moreover have "pop_undo h \<noteq> None" "pop_redo h \<noteq> None" "remove_from_undo_until h t \<noteq> None" "remove_from_redo h t \<noteq> None"
    "push_transaction h tr now \<noteq> None" if "hi_transaction_depth h = 0"
    using that by (simp_all add: pop_undo_def pop_redo_def remove_from_undo_until_def remove_from_redo_def
        push_transaction_def Let_def split: option.splits)
  moreover have "hi_undo_stack h \<noteq> []" if "hi_transaction_depth h \<noteq> 0" using that inv by (simp add: history_inv_def)
  moreover have "distinct (map transaction_id (hi_undo_stack h @ hi_redo_stack h))"
    "distinct (concat (map edits_of (hi_undo_stack h @ hi_redo_stack h)))"
    using ok unfolding entries_ok_def edits_in_def by simp_all
  moreover have "\<forall>e \<in> set (hi_undo_stack h @ hi_redo_stack h). transaction_id e < c \<and> (\<forall>t \<in> set (edits_of e). t < c)"
    using ok unfolding entries_ok_def edits_in_def by auto
  ultimately show ?thesis by blast
qed

lemma history_safe_witness:
  "\<exists>h c. history_run h c \<and> hi_transaction_depth h = 1 \<and> end_transaction_at h 7 \<noteq> None"
proof -
  obtain h c t where s: "start_transaction (history_new rope_new) global_new 0 (Lamport 1 (ReplicaId 0)) = (h, c, t)"
    by (cases "start_transaction (history_new rope_new) global_new 0 (Lamport 1 (ReplicaId 0))") auto
  from run_start [OF run_new _ this] have r: "history_run h c" by simp
  have "hi_transaction_depth h = 1" using s by (auto simp: start_transaction_def history_new_def lamport_tick_def)
  then show ?thesis using history_safe [OF r, of 7] r by auto
qed

end
