(* ===== verification/OperationQueue.thy ===== *)
theory OperationQueue
  imports Clock Keyed TreeIter
begin

text \<open>
  The queue of deferred operations (\<open>crates/text/src/operation_queue.rs\<close>): a summarised tree of
  operations ordered by their Lamport timestamps. The trait \<open>Operation\<close> is the function that gives an
  operation's timestamp. \<open>edit\<close> leaves open how its unstable sort orders edits with equal keys; here the
  keys are distinct, and the sort is the argument \<open>sort_edits\<close>.

  Both \<open>add_summary\<close> functions assert that keys increase, and panic otherwise: \<open>operation_add\<close> and
  \<open>operation_key_add\<close> return \<open>None\<close> there. The generic tree sums with total functions, so its dictionaries
  hold the total extensions \<open>operation_join\<close> and \<open>os_key\<close>, which agree with the partial ones where these are
  defined (\<open>operation_add_Some\<close>, \<open>operation_key_add_Some\<close>). A tree adds the sums of adjacent runs of its
  items, starting from the empty run: \<open>asserts_hold\<close> says that no such addition of a list of operations
  panics, and \<open>sorted_asserts\<close> that this is so for strictly increasing timestamps above \<open>Lamport::MIN\<close>.
  For an operation stamped \<open>Lamport::MIN\<close>, which no clock issues, the addition to the empty sum does panic
  (\<open>operation_add_least\<close>), so such operations are excluded.
\<close>

subsection \<open>The queue\<close>

record operation_summary =
  os_key :: lamport
  os_len :: nat

type_synonym 'op operation_queue = "('op, operation_summary) sum_tree"

text \<open>The additions of the code, with their assertions.\<close>

definition operation_add :: "operation_summary \<Rightarrow> operation_summary \<Rightarrow> operation_summary option" where
  "operation_add self other =
     (if os_key self < os_key other
      then Some \<lparr>os_key = os_key other, os_len = os_len self + os_len other\<rparr> else None)"

definition operation_key_add :: "lamport \<Rightarrow> operation_summary \<Rightarrow> lamport option" where
  "operation_key_add self s = (if self \<le> os_key s then Some (os_key s) else None)"

text \<open>The total extension of the first, and the dictionaries of the tree.\<close>

definition operation_join :: "operation_summary \<Rightarrow> operation_summary \<Rightarrow> operation_summary" where
  "operation_join self other = \<lparr>os_key = os_key other, os_len = os_len self + os_len other\<rparr>"

definition operation_ops :: "('op \<Rightarrow> lamport) \<Rightarrow> ('op, operation_summary) item_ops" where
  "operation_ops ts = \<lparr>item_summary = (\<lambda>op. \<lparr>os_key = ts op, os_len = 1\<rparr>),
     s_zero = \<lparr>os_key = lamport_MIN, os_len = 0\<rparr>, s_add = operation_join\<rparr>"

definition operation_key_dim :: "(lamport, operation_summary) dim_ops" where
  "operation_key_dim = \<lparr>d_zero = lamport_MIN, d_add = (\<lambda>_ summary. os_key summary)\<rparr>"

definition queue_new :: "('op \<Rightarrow> lamport) \<Rightarrow> 'op operation_queue" where
  "queue_new ts = new (operation_ops ts)"

definition queue_len :: "'op operation_queue \<Rightarrow> nat" where
  "queue_len self = os_len (summary self)"

definition queue_is_empty :: "'op operation_queue \<Rightarrow> bool" where
  "queue_is_empty self \<longleftrightarrow> queue_len self = 0"

text \<open>\<open>dedup_by_key\<close> removes an element whose key is that of the last one kept.\<close>

fun dedup_by :: "('a \<Rightarrow> 'k) \<Rightarrow> 'a list \<Rightarrow> 'a list" where
  "dedup_by f [] = []"
| "dedup_by f [x] = [x]"
| "dedup_by f (x # y # xs) = (if f x = f y then dedup_by f (x # xs) else x # dedup_by f (y # xs))"

definition queue_insert ::
    "('op \<Rightarrow> lamport) \<Rightarrow> (('op, lamport) edit list \<Rightarrow> ('op, lamport) edit list) \<Rightarrow> 'op operation_queue \<Rightarrow> 'op list \<Rightarrow>
      'op operation_queue option" where
  "queue_insert ts sort_edits self ops =
     (let ops = sort_key ts ops;
          ops = dedup_by ts ops
      in map_option fst (edit_sorted (operation_ops ts) operation_key_dim ts self (sort_edits (map Insert ops))))"

text \<open>\<open>drain\<close>: the queue left, and the queue drained.\<close>

definition queue_drain :: "('op \<Rightarrow> lamport) \<Rightarrow> 'op operation_queue \<Rightarrow> 'op operation_queue \<times> 'op operation_queue" where
  "queue_drain ts self = (new (operation_ops ts), self)"

definition queue_iter :: "'op operation_queue \<Rightarrow> 'op list option" where
  "queue_iter self = iter self"

subsection \<open>The contracts\<close>

lemma operation_ops_simps [simp]: "item_summary (operation_ops ts) op = \<lparr>os_key = ts op, os_len = 1\<rparr>"
  "s_zero (operation_ops ts) = \<lparr>os_key = lamport_MIN, os_len = 0\<rparr>" "s_add (operation_ops ts) = operation_join"
  "d_zero operation_key_dim = lamport_MIN" "d_add operation_key_dim d s = os_key s"
  by (simp_all add: operation_ops_def operation_key_dim_def)

interpretation operation_keyed: keyed_laws "operation_ops ts" operation_key_dim ts for ts :: "'op \<Rightarrow> lamport"
  by unfold_locales (simp_all add: operation_join_def)

lemma operation_add_Some: "operation_add a b = Some s \<longleftrightarrow> os_key a < os_key b \<and> s = s_add (operation_ops ts) a b"
  by (auto simp: operation_add_def operation_join_def)

lemma operation_key_add_Some:
  "operation_key_add k s = Some k' \<longleftrightarrow> k \<le> os_key s \<and> k' = d_add operation_key_dim k s"
  by (auto simp: operation_key_add_def)

lemma operation_add_least: "operation_add (s_zero (operation_ops ts)) (item_summary (operation_ops ts) op) = None \<longleftrightarrow>
    ts op = lamport_MIN"
  using lamport_MIN_least [of "ts op"] by (auto simp: operation_add_def order.order_iff_strict)

text \<open>What a queue represents: the operations by timestamp.\<close>

definition queue_ok :: "('op \<Rightarrow> lamport) \<Rightarrow> 'op operation_queue \<Rightarrow> bool" where
  "queue_ok ts q \<longleftrightarrow> wf_tree (operation_ops ts) q \<and> sorted_keys ts (tree_items q)"

lemma sum_fold: "foldl operation_join s (map (\<lambda>op. \<lparr>os_key = ts op, os_len = 1\<rparr>) xs) =
    \<lparr>os_key = (if xs = [] then os_key s else ts (last xs)), os_len = os_len s + length xs\<rparr>"
  by (induction xs arbitrary: s) (simp_all add: operation_join_def)

lemma operation_sum: "s_sum (operation_ops ts) (map (item_summary (operation_ops ts)) xs) =
    \<lparr>os_key = (if xs = [] then lamport_MIN else ts (last xs)), os_len = length xs\<rparr>"
proof -
  have "item_summary (operation_ops ts) = (\<lambda>op. \<lparr>os_key = ts op, os_len = 1\<rparr>)" by (simp add: fun_eq_iff)
  then show ?thesis using sum_fold [of "\<lparr>os_key = lamport_MIN, os_len = 0\<rparr>" ts xs] by (simp add: s_sum_def)
qed

text \<open>The assertions hold for the sums of any two adjacent runs of a list of operations, the first maybe
  empty, and the partial additions give the sum of both runs.\<close>

definition asserts_hold :: "('op \<Rightarrow> lamport) \<Rightarrow> 'op list \<Rightarrow> bool" where
  "asserts_hold ts xs \<longleftrightarrow> (\<forall>us ys zs vs. xs = us @ ys @ zs @ vs \<longrightarrow> zs \<noteq> [] \<longrightarrow>
     (let sum_of = (\<lambda>run. s_sum (operation_ops ts) (map (item_summary (operation_ops ts)) run))
      in operation_add (sum_of ys) (sum_of zs) = Some (sum_of (ys @ zs)) \<and>
         operation_key_add (os_key (sum_of ys)) (sum_of zs) = Some (os_key (sum_of (ys @ zs)))))"

lemma sorted_asserts:
  assumes "sorted_keys ts xs" and "\<forall>op \<in> set xs. lamport_MIN < ts op"
  shows "asserts_hold ts xs"
  unfolding asserts_hold_def Let_def operation_sum
proof (intro allI impI)
  fix us ys zs vs
  assume xs: "xs = us @ ys @ zs @ vs" and zs: "zs \<noteq> []"
  have "(if ys = [] then lamport_MIN else ts (last ys)) < ts (last zs)"
    using assms last_in_set [OF zs] last_in_set [of ys] unfolding xs by auto
  then show "operation_add \<lparr>os_key = if ys = [] then lamport_MIN else ts (last ys), os_len = length ys\<rparr>
        \<lparr>os_key = if zs = [] then lamport_MIN else ts (last zs), os_len = length zs\<rparr> =
      Some \<lparr>os_key = if ys @ zs = [] then lamport_MIN else ts (last (ys @ zs)), os_len = length (ys @ zs)\<rparr> \<and>
    operation_key_add (os_key \<lparr>os_key = if ys = [] then lamport_MIN else ts (last ys), os_len = length ys\<rparr>)
        \<lparr>os_key = if zs = [] then lamport_MIN else ts (last zs), os_len = length zs\<rparr> =
      Some (os_key \<lparr>os_key = if ys @ zs = [] then lamport_MIN else ts (last (ys @ zs)), os_len = length (ys @ zs)\<rparr>)"
    using zs by (simp add: operation_add_def operation_key_add_def)
qed

lemma wf_tree_sum: "wf_tree (operation_ops ts) q \<Longrightarrow> os_len (summary q) = length (tree_items q)"
proof (cases "tree_items q = []")
  case True
  assume "wf_tree (operation_ops ts) q"
  then have "q = new (operation_ops ts)" using wf_tree_empty True by blast
  then show ?thesis by (simp add: new_def)
next
  case False
  assume "wf_tree (operation_ops ts) q"
  then have "wf_node (operation_ops ts) (height q) q" using wf_tree_nonempty False by blast
  then show ?thesis using operation_keyed.wf_node_summary operation_sum [of ts "tree_items q"] by force
qed

lemma dedup_keys: "set (dedup_by f xs) \<subseteq> set xs" "f ` set (dedup_by f xs) = f ` set xs"
  by (induction f xs rule: dedup_by.induct) auto

lemma dedup_sorted: "sorted (map f xs) \<Longrightarrow> sorted_keys f (dedup_by f xs)" for f :: "'a \<Rightarrow> 'k::linorder"
proof (induction f xs rule: dedup_by.induct)
  case (3 f x y xs)
  show ?case
  proof (cases "f x = f y")
    case False
    have "f x < f z" if "z \<in> set (dedup_by f (y # xs))" for z
    proof -
      have "f y \<le> f z" using "3.prems" dedup_keys(1) [of f "y # xs"] that by auto
      then show ?thesis using False "3.prems" by auto
    qed
    then show ?thesis using 3 False by simp
  qed (use 3 in simp)
qed simp_all


lemma keyed_map_filter: "keyed_map f xs k = vec_first (filter (\<lambda>x. f x = k) xs)"
  by (induction xs) auto

lemma keyed_map_sort: "keyed_map f (sort_key f xs) = keyed_map f xs"
  by (rule ext) (simp only: keyed_map_filter sort_key_stable)

lemma keyed_map_dedup: "keyed_map f (dedup_by f xs) = keyed_map f xs"
  by (induction f xs rule: dedup_by.induct) (auto simp: fun_eq_iff)

lemma apply_inserts:
  "sorted_keys f xs \<Longrightarrow> foldl (apply_edit f) m (map Insert xs) = m ++ keyed_map f xs"
proof (induction xs arbitrary: m)
  case (Cons x xs)
  then have "keyed_map f xs (f x) = None" by (auto simp: keyed_map_None)
  then have "m(f x \<mapsto> x) ++ keyed_map f xs = m ++ keyed_map f (x # xs)"
    by (auto simp: fun_eq_iff map_add_def split: option.splits)
  moreover have "sorted_keys f xs" using Cons.prems by simp
  ultimately show ?case using Cons.IH [of "m(f x \<mapsto> x)"] by (simp del: keyed_map_simps fun_upd_apply)
qed simp

lemma sorted_edits_unique:
  assumes "sorted_edits f eds eds'" and "sorted_wrt (<) (map (edit_key f) eds)"
  shows "eds' = eds"
proof (rule map_sorted_distinct_set_unique)
  have "mset eds' = mset eds" "sorted (map (edit_key f) eds')" using assms(1) by (simp_all add: sorted_edits_def)
  moreover have d: "distinct (map (edit_key f) eds)" "sorted (map (edit_key f) eds)"
    using assms(2) strict_sorted_iff by blast+
  ultimately show "set eds' = set eds" "sorted (map (edit_key f) eds')" "distinct (map (edit_key f) eds')"
    using mset_eq_imp_distinct_iff [of "map (edit_key f) eds'" "map (edit_key f) eds"] by (auto dest: mset_eq_setD)
  show "sorted (map (edit_key f) eds)" "distinct (map (edit_key f) eds)" by (rule d)+
  show "inj_on (edit_key f) (set eds' \<union> set eds)" using d(1) \<open>set eds' = set eds\<close> by (simp add: distinct_map)
qed

text \<open>C39. The queue of deferred operations, for operations stamped above \<open>Lamport::MIN\<close>. Inserting operations
  returns the queue with the new operations in it, each once: of two with the same timestamp in the batch the first, of one in the batch and
  one already queued the one in the batch. The length is the number of operations, and iterating yields them in
  the order of their timestamps; draining leaves the empty queue. The assertions of both additions hold for any
  adjacent runs of the operations queued before and of those queued after.\<close>
theorem queue_insert_ok:
  assumes "queue_ok ts q" and "height q < STACK_CAPACITY" and "\<forall>eds. sorted_edits ts eds (sort_edits eds)"
    and "\<forall>op \<in> set (tree_items q) \<union> set ops. lamport_MIN < ts op"
  shows "\<exists>q'. queue_insert ts sort_edits q ops = Some q' \<and> queue_ok ts q' \<and>
    keyed_map ts (tree_items q') = keyed_map ts (tree_items q) ++ keyed_map ts ops \<and>
    queue_len q' = card (dom (keyed_map ts (tree_items q)) \<union> ts ` set ops) \<and>
    asserts_hold ts (tree_items q) \<and> asserts_hold ts (tree_items q') \<and>
    queue_ok ts (fst (queue_drain ts q')) \<and> queue_is_empty (fst (queue_drain ts q')) \<and> snd (queue_drain ts q') = q' \<and>
    (height q' < STACK_CAPACITY \<longrightarrow> (\<exists>xs. queue_iter q' = Some xs \<and> sorted_keys ts xs \<and> set xs = ran (keyed_map ts (tree_items q'))))"
proof -
  let ?ops = "dedup_by ts (sort_key ts ops)"
  have s: "sorted_keys ts ?ops" by (rule dedup_sorted) simp
  then have k: "sorted_wrt (<) (map (edit_key ts) (map Insert ?ops))" by (simp add: sorted_keys_def sorted_wrt_map)
  have e: "sort_edits (map Insert ?ops) = map Insert ?ops" using sorted_edits_unique [OF _ k] assms(3) by blast
  obtain q' where q': "queue_insert ts sort_edits q ops = Some q'" "queue_ok ts q'"
    "keyed_map ts (tree_items q') = keyed_map ts (tree_items q) ++ keyed_map ts ops"
    using operation_keyed.edit_sorted_items [of ts q, OF _ assms(2) _ k] assms(1) s e
    by (auto simp: queue_insert_def queue_ok_def Let_def apply_inserts keyed_map_dedup keyed_map_sort)
  have so: "sorted_keys ts (tree_items q')" and wf: "wf_tree (operation_ops ts) q'" using q'(2) by (simp_all add: queue_ok_def)
  have d: "dom (keyed_map ts xs) = ts ` set xs" for xs by (auto simp: keyed_map_def dom_map_of_conv_image_fst image_iff)
  have "sorted_wrt (<) (map ts (tree_items q'))" using so by (simp add: sorted_keys_def sorted_wrt_map)
  then have dis: "distinct (map ts (tree_items q'))" using strict_sorted_iff by blast
  have "card (ts ` set (tree_items q')) = length (tree_items q')" using distinct_card [OF dis] by simp
  moreover have "ts ` set (tree_items q') = dom (keyed_map ts (tree_items q)) \<union> ts ` set ops"
    using q'(3) d [of "tree_items q'"] d [of ops] by auto
  ultimately have l: "queue_len q' = card (dom (keyed_map ts (tree_items q)) \<union> ts ` set ops)"
    using wf_tree_sum [OF wf] by (simp add: queue_len_def)
  have above: "\<forall>op \<in> set (tree_items q'). lamport_MIN < ts op"
  proof
    fix op assume "op \<in> set (tree_items q')"
    then have "ts op \<in> ts ` set (tree_items q) \<union> ts ` set ops"
      using \<open>ts ` set (tree_items q') = _\<close> d [of "tree_items q"] by blast
    then show "lamport_MIN < ts op" using assms(4) by auto
  qed
  have "sorted_keys ts (tree_items q)" using assms(1) by (simp add: queue_ok_def)
  then have a: "asserts_hold ts (tree_items q)" "asserts_hold ts (tree_items q')"
    using assms(4) above so by (simp_all add: sorted_asserts)
  have "ran (keyed_map ts (tree_items q')) = set (tree_items q')"
  proof
    show "ran (keyed_map ts (tree_items q')) \<subseteq> set (tree_items q')" by (auto simp: ran_def dest: keyed_map_SomeD)
    have "keyed_map ts (tree_items q') (ts x) = Some x" if "x \<in> set (tree_items q')" for x
      unfolding keyed_map_def by (rule map_of_is_SomeI) (use dis that in \<open>simp_all add: comp_def\<close>)
    then show "set (tree_items q') \<subseteq> ran (keyed_map ts (tree_items q'))" by (auto simp: ran_def)
  qed
  then have "height q' < STACK_CAPACITY \<longrightarrow> (\<exists>xs. queue_iter q' = Some xs \<and> sorted_keys ts xs \<and> set xs = ran (keyed_map ts (tree_items q')))"
    using iter_wf [OF operation_keyed.summary_laws_axioms wf] so by (simp add: queue_iter_def)
  moreover have "queue_ok ts (new (operation_ops ts))" "queue_len (new (operation_ops ts)) = 0"
    by (simp_all add: queue_ok_def wf_tree_def queue_len_def new_def)
  ultimately show ?thesis using q' l a by (simp add: queue_drain_def queue_is_empty_def)
qed

lemma queue_insert_ok_witness:
  "\<exists>q. queue_insert (\<lambda>t. t) (\<lambda>eds. sort_key (edit_key (\<lambda>t. t)) eds) (queue_new (\<lambda>t. t))
     [Lamport 7 (ReplicaId 1), Lamport 2 (ReplicaId 0), Lamport 7 (ReplicaId 1)] = Some q \<and> queue_len q = 2"
proof -
  let ?ops = "[Lamport 7 (ReplicaId 1), Lamport 2 (ReplicaId 0), Lamport 7 (ReplicaId 1)]"
  have "queue_ok (\<lambda>t. t) (queue_new (\<lambda>t. t))" "height (queue_new (\<lambda>t. t)) < STACK_CAPACITY"
    by (simp_all add: queue_ok_def queue_new_def wf_tree_def new_def STACK_CAPACITY_def)
  moreover have "\<forall>eds. sorted_edits (\<lambda>t. t) eds (sort_key (edit_key (\<lambda>t. t)) eds)" by (simp add: sorted_edits_def)
  moreover have "\<forall>op \<in> set (tree_items (queue_new (\<lambda>t :: lamport. t))) \<union> set ?ops. lamport_MIN < op"
    by (simp add: queue_new_def new_def lamport_MIN_def lamport_less_iff)
  ultimately obtain q where "queue_insert (\<lambda>t. t) (\<lambda>eds. sort_key (edit_key (\<lambda>t. t)) eds) (queue_new (\<lambda>t. t)) ?ops = Some q"
    "queue_len q = card (dom (keyed_map (\<lambda>t. t) (tree_items (queue_new (\<lambda>t :: lamport. t)))) \<union> (\<lambda>t. t) ` set ?ops)"
    using queue_insert_ok [of "\<lambda>t. t" "queue_new (\<lambda>t. t)" "\<lambda>eds. sort_key (edit_key (\<lambda>t. t)) eds" ?ops] by blast
  moreover have "tree_items (queue_new (\<lambda>t :: lamport. t)) = []" by (simp add: queue_new_def new_def)
  ultimately show ?thesis by (simp add: insert_commute)
qed

end
