(* ===== verification/Fragments.thy ===== *)
theory Fragments
  imports History Locator
begin

text \<open>
  The fragments of a buffer's text (\<open>crates/text/src/text.rs\<close>): \<open>Fragment\<close>, its summary, the
  dimensions a fragment tree is measured in, the index of insertions and the slices each edit touched.
  Lengths and offsets in an insertion are 32-bit words; an offset in the text is a natural number.
\<close>

subsection \<open>Fragments and their summaries\<close>

record fragment =
  fr_id :: locator
  fr_timestamp :: lamport
  fr_insertion_offset :: u32
  fr_len :: u32
  fr_visible :: bool
  fr_deletions :: "lamport list"
  fr_max_undos :: global

record fragment_text_summary =
  ft_visible :: nat
  ft_deleted :: nat

record fragment_summary_data =
  fd_text :: fragment_text_summary
  fd_max_id :: locator
  fd_max_version :: global
  fd_min_insertion_version :: global
  fd_max_insertion_version :: global

definition fragment_is_visible :: "fragment \<Rightarrow> undo_map \<Rightarrow> bool option" where
  "fragment_is_visible self undos = do {
     undone \<leftarrow> is_undone undos (fr_timestamp self);
     if undone then Some False
     else foldr (\<lambda>d rest. do { u \<leftarrow> is_undone undos d; if u then rest else Some False }) (fr_deletions self) (Some True)
   }"

definition fragment_was_visible :: "fragment \<Rightarrow> global \<Rightarrow> undo_map \<Rightarrow> bool option" where
  "fragment_was_visible self version undos =
     (if \<not> global_observed version (fr_timestamp self) then Some False
      else do {
        undone \<leftarrow> was_undone undos (fr_timestamp self) version;
        if undone then Some False
        else foldr (\<lambda>d rest. if \<not> global_observed version d then rest
                    else do { u \<leftarrow> was_undone undos d version; if u then rest else Some False })
               (fr_deletions self) (Some True)
      })"

definition fragment_text_zero :: fragment_text_summary where
  "fragment_text_zero = \<lparr>ft_visible = 0, ft_deleted = 0\<rparr>"

definition fragment_summary_default :: fragment_summary_data where
  "fragment_summary_default = \<lparr>fd_text = fragment_text_zero, fd_max_id = locator_min, fd_max_version = global_new,
     fd_min_insertion_version = global_new, fd_max_insertion_version = global_new\<rparr>"

definition fragment_summary_of :: "fragment \<Rightarrow> fragment_summary_data" where
  "fragment_summary_of self =
     (let max_version = global_observe global_new (fr_timestamp self);
          max_version = foldl global_observe max_version (fr_deletions self);
          max_version = global_join max_version (fr_max_undos self);
          min_insertion_version = global_observe global_new (fr_timestamp self);
          n = unat (fr_len self)
      in \<lparr>fd_text = (if fr_visible self then \<lparr>ft_visible = n, ft_deleted = 0\<rparr> else \<lparr>ft_visible = 0, ft_deleted = n\<rparr>),
          fd_max_id = fr_id self, fd_max_version = max_version, fd_min_insertion_version = min_insertion_version,
          fd_max_insertion_version = min_insertion_version\<rparr>)"

definition fragment_text_add :: "fragment_text_summary \<Rightarrow> fragment_text_summary \<Rightarrow> fragment_text_summary" where
  "fragment_text_add a b = \<lparr>ft_visible = ft_visible a + ft_visible b, ft_deleted = ft_deleted a + ft_deleted b\<rparr>"

text \<open>\<open>assign\<close> of a locator never fails (\<open>locator_assign_ok\<close>).\<close>

definition fragment_summary_add :: "fragment_summary_data \<Rightarrow> fragment_summary_data \<Rightarrow> fragment_summary_data" where
  "fragment_summary_add self other =
     \<lparr>fd_text = fragment_text_add (fd_text self) (fd_text other),
      fd_max_id = the (locator_assign (fd_max_id self) (fd_max_id other)),
      fd_max_version = global_join (fd_max_version self) (fd_max_version other),
      fd_min_insertion_version = global_meet (fd_min_insertion_version self) (fd_min_insertion_version other),
      fd_max_insertion_version = global_join (fd_max_insertion_version self) (fd_max_insertion_version other)\<rparr>"

subsection \<open>Summaries form a monoid\<close>

text \<open>\<open>meet\<close> is associative on version vectors without trailing zeros, which are all that a summary
  ever holds in that field; the type of a fragment's summary is the type of those.\<close>

lemma global_meet_assoc:
  assumes "global_wf a" and "global_wf b" and "global_wf c"
  shows "global_meet (global_meet a b) c = global_meet a (global_meet b c)"
proof (rule global_ext)
  show "global_wf (global_meet (global_meet a b) c)" "global_wf (global_meet a (global_meet b c))"
    by (intro global_wf_meet assms)+
  fix r
  have z: "global_get g r = 0 \<or> 0 < global_get g r" for g by (auto simp: word_gt_0)
  show "global_get (global_meet (global_meet a b) c) r = global_get (global_meet a (global_meet b c)) r"
    using z [of a] z [of b] z [of c] by (auto simp: global_get_meet min.assoc min_def)
qed

lemma global_meet_new: "global_wf a \<Longrightarrow> global_meet global_new a = a"
  by (rule global_ext) (simp_all add: global_wf_meet global_get_meet)

lemma entry_list_eq: "length xs = length ys \<Longrightarrow> (\<And>i. entry xs i = entry ys i) \<Longrightarrow> xs = ys"
  by (metis entry_def nth_equalityI)

lemma entry_join: "entry (g_values (global_join a b)) i = max (entry (g_values a) i) (entry (g_values b) i)"
  unfolding global_join_def Let_def global.sel
  by (subst entry_zip_update) (auto simp: entry_def nth_resize)

lemma length_join: "length (g_values (global_join a b)) = max (length (g_values a)) (length (g_values b))"
  by (simp add: global_join_def Let_def)

lemma global_join_assoc: "global_join (global_join a b) c = global_join a (global_join b c)"
  by (rule global.expand, rule entry_list_eq) (simp_all add: length_join entry_join max.assoc)

lemma global_join_new: "global_join global_new a = a"
  by (rule global.expand, rule entry_list_eq) (simp_all add: length_join entry_join global_new_def)

definition fragment_summary_ok :: "fragment_summary_data \<Rightarrow> bool" where
  "fragment_summary_ok s \<longleftrightarrow> global_wf (fd_min_insertion_version s)"

lemma fragment_summary_of_ok: "fragment_summary_ok (fragment_summary_of f)"
  by (simp add: fragment_summary_ok_def fragment_summary_of_def Let_def global_wf_observe)

lemma fragment_summary_default_ok: "fragment_summary_ok fragment_summary_default"
  by (simp add: fragment_summary_ok_def fragment_summary_default_def)

lemma fragment_summary_add_ok: "fragment_summary_ok a \<Longrightarrow> fragment_summary_ok b \<Longrightarrow> fragment_summary_ok (fragment_summary_add a b)"
  by (simp add: fragment_summary_ok_def fragment_summary_add_def global_wf_meet)

typedef fragment_summary = "{s. fragment_summary_ok s}" morphisms fs_data Fragment_Summary
  using fragment_summary_default_ok by blast

setup_lifting type_definition_fragment_summary

lift_definition fs_zero :: fragment_summary is fragment_summary_default
  by (rule fragment_summary_default_ok)

lift_definition fs_add :: "fragment_summary \<Rightarrow> fragment_summary \<Rightarrow> fragment_summary" is fragment_summary_add
  by (rule fragment_summary_add_ok)

lift_definition fs_of :: "fragment \<Rightarrow> fragment_summary" is fragment_summary_of
  by (rule fragment_summary_of_ok)

definition fragment_ops :: "(fragment, fragment_summary) item_ops" where
  "fragment_ops = \<lparr>item_summary = fs_of, s_zero = fs_zero, s_add = fs_add\<rparr>"

abbreviation fs_text :: "fragment_summary \<Rightarrow> fragment_text_summary" where
  "fs_text s \<equiv> fd_text (fs_data s)"

lemma fragment_text_add_assoc: "fragment_text_add (fragment_text_add a b) c = fragment_text_add a (fragment_text_add b c)"
  by (simp add: fragment_text_add_def add.assoc)

lemma fragment_text_add_zero [simp]: "fragment_text_add fragment_text_zero a = a" "fragment_text_add a fragment_text_zero = a"
  by (simp_all add: fragment_text_add_def fragment_text_zero_def)

interpretation fragment_tree: summary_laws fragment_ops
proof
  show "s_add fragment_ops (s_zero fragment_ops) s = s" for s
    unfolding fragment_ops_def item_ops.simps
    by transfer (simp add: fragment_summary_add_def fragment_summary_default_def fragment_summary_ok_def
        locator_assign_ok global_join_new global_meet_new)
  show "s_add fragment_ops (s_add fragment_ops a b) c = s_add fragment_ops a (s_add fragment_ops b c)" for a b c
    unfolding fragment_ops_def item_ops.simps
    by transfer (simp add: fragment_summary_add_def fragment_summary_ok_def locator_assign_ok global_join_assoc
        global_meet_assoc fragment_text_add_assoc)
qed

lemma fragment_ops_simps [simp]: "item_summary fragment_ops = fs_of" "s_zero fragment_ops = fs_zero" "s_add fragment_ops = fs_add"
  by (simp_all add: fragment_ops_def)

lemma fs_data_simps [simp]: "fs_data (fs_of f) = fragment_summary_of f" "fs_data fs_zero = fragment_summary_default"
  "fs_data (fs_add a b) = fragment_summary_add (fs_data a) (fs_data b)"
  by (transfer, rule refl)+

lemma fragment_summary_simps [simp]:
  "fd_text (fragment_summary_add a b) = fragment_text_add (fd_text a) (fd_text b)"
  "fd_max_id (fragment_summary_add a b) = fd_max_id b"
  "fd_text fragment_summary_default = fragment_text_zero" "fd_max_id fragment_summary_default = locator_min"
  "fd_max_id (fragment_summary_of f) = fr_id f"
  by (simp_all add: fragment_summary_add_def locator_assign_ok fragment_summary_default_def fragment_summary_of_def Let_def)

subsection \<open>Dimensions and targets\<close>

definition fragment_text_dim :: "(fragment_text_summary, fragment_summary) dim_ops" where
  "fragment_text_dim = \<lparr>d_zero = fragment_text_zero, d_add = (\<lambda>self s. fragment_text_add self (fs_text s))\<rparr>"

definition visible_dim :: "(nat, fragment_summary) dim_ops" where
  "visible_dim = \<lparr>d_zero = 0, d_add = (\<lambda>self s. self + ft_visible (fs_text s))\<rparr>"

definition full_offset_dim :: "(nat, fragment_summary) dim_ops" where
  "full_offset_dim = \<lparr>d_zero = 0, d_add = (\<lambda>self s. self + (ft_visible (fs_text s) + ft_deleted (fs_text s)))\<rparr>"

definition locator_ref_dim :: "(locator option, fragment_summary) dim_ops" where
  "locator_ref_dim = \<lparr>d_zero = None, d_add = (\<lambda>_ s. Some (fd_max_id (fs_data s)))\<rparr>"

text \<open>An offset seeks in the visible text.\<close>

definition visible_target :: "nat \<Rightarrow> fragment_text_summary seek_target" where
  "visible_target n = (\<lambda>location. cmp n (ft_visible location))"

text \<open>\<open>VersionedFullOffset\<close>: the offset in the text of a version, counting deleted text; a node with
  fragments inside and outside of the version has none. \<open>cx\<close> is the version (the \<open>unwrap\<close> of the context).\<close>

datatype versioned_full_offset = Offset nat | Invalid

fun full_offset :: "versioned_full_offset \<Rightarrow> nat option" where
  "full_offset (Offset position) = Some position"
| "full_offset Invalid = None"

definition versioned_add :: "global \<Rightarrow> versioned_full_offset \<Rightarrow> fragment_summary \<Rightarrow> versioned_full_offset" where
  "versioned_add version self s =
     (case self of
        Offset offset \<Rightarrow>
          if global_observed_all version (fd_max_insertion_version (fs_data s))
          then Offset (offset + (ft_visible (fs_text s) + ft_deleted (fs_text s)))
          else if global_observed_any version (fd_min_insertion_version (fs_data s)) then Invalid
          else Offset offset
      | Invalid \<Rightarrow> Invalid)"

definition versioned_dim :: "global \<Rightarrow> (versioned_full_offset, fragment_summary) dim_ops" where
  "versioned_dim version = \<lparr>d_zero = Offset 0, d_add = versioned_add version\<rparr>"

text \<open>The targets are offsets: seeking an invalid one is \<open>unreachable!\<close>.\<close>

definition versioned_target :: "nat \<Rightarrow> versioned_full_offset seek_target" where
  "versioned_target n = (\<lambda>location. case location of Offset b \<Rightarrow> cmp n b | Invalid \<Rightarrow> Less)"

interpretation fragment_text_dim: zero_dim_laws fragment_ops fragment_text_dim
  by unfold_locales (simp_all add: fragment_text_dim_def fragment_text_add_assoc)

interpretation visible_dim: zero_dim_laws fragment_ops visible_dim
  by unfold_locales (simp_all add: visible_dim_def fragment_text_add_def fragment_text_zero_def)

interpretation full_offset_dim: zero_dim_laws fragment_ops full_offset_dim
  by unfold_locales (simp_all add: full_offset_dim_def fragment_text_add_def fragment_text_zero_def)

subsection \<open>The index of insertions\<close>

datatype insertion_key = InsertionFragmentKey (key_timestamp: lamport) (key_split_offset: u32)

instantiation insertion_key :: linorder
begin

definition less_eq_insertion_key :: "insertion_key \<Rightarrow> insertion_key \<Rightarrow> bool" where
  "less_eq_insertion_key a b \<longleftrightarrow>
     key_timestamp a < key_timestamp b \<or> key_timestamp a = key_timestamp b \<and> key_split_offset a \<le> key_split_offset b"

definition less_insertion_key :: "insertion_key \<Rightarrow> insertion_key \<Rightarrow> bool" where
  "less_insertion_key a b \<longleftrightarrow>
     key_timestamp a < key_timestamp b \<or> key_timestamp a = key_timestamp b \<and> key_split_offset a < key_split_offset b"

instance
  by standard (auto simp: less_eq_insertion_key_def less_insertion_key_def intro: insertion_key.expand)

end

record insertion_fragment =
  in_timestamp :: lamport
  in_split_offset :: u32
  in_fragment_id :: locator

definition insertion_key :: "insertion_fragment \<Rightarrow> insertion_key" where
  "insertion_key self = InsertionFragmentKey (in_timestamp self) (in_split_offset self)"

definition insertion_zero :: insertion_key where
  "insertion_zero = InsertionFragmentKey lamport_MIN 0"

definition insertion_ops :: "(insertion_fragment, insertion_key) item_ops" where
  "insertion_ops = \<lparr>item_summary = insertion_key, s_zero = insertion_zero, s_add = (\<lambda>_ summary. summary)\<rparr>"

definition insertion_dim :: "(insertion_key, insertion_key) dim_ops" where
  "insertion_dim = \<lparr>d_zero = insertion_zero, d_add = (\<lambda>_ summary. summary)\<rparr>"

definition insertion_new :: "fragment \<Rightarrow> insertion_fragment" where
  "insertion_new fragment = \<lparr>in_timestamp = fr_timestamp fragment, in_split_offset = fr_insertion_offset fragment,
     in_fragment_id = fr_id fragment\<rparr>"

definition insert_new :: "fragment \<Rightarrow> (insertion_fragment, insertion_key) edit" where
  "insert_new fragment = Insert (insertion_new fragment)"

interpretation insertion_keyed: keyed_laws insertion_ops insertion_dim insertion_key
proof unfold_locales
  show "d_zero insertion_dim \<le> insertion_key x" for x
    using lamport_MIN_least [of "in_timestamp x"] word_gt_0 [of "in_split_offset x"]
    by (simp add: insertion_dim_def insertion_zero_def insertion_key_def less_eq_insertion_key_def order.order_iff_strict)
qed (simp_all add: insertion_ops_def insertion_dim_def)

subsection \<open>The slices of insertions an edit touched\<close>

text \<open>The two timestamps, whose fields the code keeps apart to save space, are timestamps here.\<close>

datatype insertion_slice =
  InsertionSlice (sl_edit_id: lamport) (sl_insertion_id: lamport) (sl_start: u32) (sl_end: u32)

definition insertion_slice_cmp :: "insertion_slice \<Rightarrow> insertion_slice \<Rightarrow> ordering" where
  "insertion_slice_cmp self other =
     then_with (lamport_cmp (sl_edit_id self) (sl_edit_id other))
       (then_with (lamport_cmp (sl_insertion_id self) (sl_insertion_id other))
         (then_with (cmp (sl_start self) (sl_start other)) (cmp (sl_end self) (sl_end other))))"

lemma lamport_cmp_simps [simp]: "lamport_cmp a b = Less \<longleftrightarrow> a < b" "lamport_cmp a b = Equal \<longleftrightarrow> a = b"
  "lamport_cmp a b = Greater \<longleftrightarrow> b < a"
  by (auto simp: lamport_cmp_def lamport_less_iff intro: lamport.expand)

instantiation insertion_slice :: linorder
begin

definition less_eq_insertion_slice :: "insertion_slice \<Rightarrow> insertion_slice \<Rightarrow> bool" where
  "less_eq_insertion_slice a b \<longleftrightarrow> insertion_slice_cmp a b \<noteq> Greater"

definition less_insertion_slice :: "insertion_slice \<Rightarrow> insertion_slice \<Rightarrow> bool" where
  "less_insertion_slice a b \<longleftrightarrow> insertion_slice_cmp a b = Less"

instance
  by standard
    (auto simp: less_eq_insertion_slice_def less_insertion_slice_def insertion_slice_cmp_def intro: insertion_slice.expand)

end

definition slice_from_fragment :: "lamport \<Rightarrow> fragment \<Rightarrow> insertion_slice" where
  "slice_from_fragment edit_timestamp fragment =
     InsertionSlice edit_timestamp (fr_timestamp fragment) (fr_insertion_offset fragment)
       (fr_insertion_offset fragment + fr_len fragment)"

end
