(* ===== verification/Buffer.thy ===== *)
theory Buffer
  imports Fragments OperationQueue Subscription Rope
begin

text \<open>
  The buffer (\<open>crates/text/src/text.rs\<close>: \<open>Buffer\<close>, \<open>BufferSnapshot\<close>, \<open>RopeBuilder\<close>, \<open>FragmentBuilder\<close>):
  a text kept as a sequence of fragments, the visible and the deleted text as ropes, edited locally,
  by operations of other replicas, and by undo operations. What the code takes from outside is the record
  \<open>externals\<close>: the replacement of line separators by a regular expression, and the outcome of the unstable
  sorts and the order in which a hash map is iterated, of which nothing but the promise of the library is assumed (\<open>externals_ok\<close>). A channel sender is
  a number, and sending on it is recorded. \<open>(a - b) as u32\<close> is the difference of the words, which is what
  the wrapping subtraction of \<open>usize\<close> leaves after the cast.
\<close>

subsection \<open>What comes from outside\<close>

record externals =
  normalize :: "str \<Rightarrow> str"   \<comment> \<open>\<open>LINE_SEPARATORS_REGEX.replace_all(_, "\n")\<close>\<close>
  sort_insertions :: "(insertion_fragment, insertion_key) edit list \<Rightarrow> (insertion_fragment, insertion_key) edit list"
  sort_slices :: "((insertion_slice, unit) map_entry, insertion_slice option) edit list \<Rightarrow>
    ((insertion_slice, unit) map_entry, insertion_slice option) edit list"
  sort_undos :: "(undo_map_entry, undo_map_key) edit list \<Rightarrow> (undo_map_entry, undo_map_key) edit list"
  sort_operations :: "(operation, lamport) edit list \<Rightarrow> (operation, lamport) edit list"
  iteration_order :: "(lamport \<times> u32) list \<Rightarrow> (lamport \<times> u32) list"   \<comment> \<open>of a \<open>HashMap\<close>\<close>

definition externals_ok :: "externals \<Rightarrow> bool" where
  "externals_ok X \<longleftrightarrow>
     (\<forall>eds. sorted_edits insertion_key eds (sort_insertions X eds)) \<and>
     (\<forall>eds. sorted_edits entry_key eds (sort_slices X eds)) \<and>
     (\<forall>eds. sorted_edits ue_key eds (sort_undos X eds)) \<and>
     (\<forall>eds. sorted_edits op_timestamp eds (sort_operations X eds)) \<and>
     (\<forall>counts. mset (iteration_order X counts) = mset counts)"

subsection \<open>Line endings\<close>

datatype line_ending = Unix | Windows

text \<open>\<open>Default\<close>, on a Unix system.\<close>

definition line_ending_default :: line_ending where
  "line_ending_default = Unix"

fun line_ending_str :: "line_ending \<Rightarrow> str" where
  "line_ending_str Unix = [10]"
| "line_ending_str Windows = [13, 10]"

fun line_ending_label :: "line_ending \<Rightarrow> string" where
  "line_ending_label Unix = ''LF''"
| "line_ending_label Windows = ''CRLF''"

text \<open>The loop that moves down to a character boundary is \<open>str_floor_char_boundary\<close> below the length.\<close>

definition line_ending_detect :: "str \<Rightarrow> line_ending" where
  "line_ending_detect text =
     (let max_ix = str_floor_char_boundary text (min (length text) 1000);
          before = takeWhile (\<lambda>b. b \<noteq> 10) (take max_ix text)
      in if length before < length (take max_ix text) then
           (if before \<noteq> [] \<and> last before = 13 then Windows else Unix)
         else line_ending_default)"

subsection \<open>The state\<close>

record buffer_snapshot =
  bs_visible_text :: rope
  bs_deleted_text :: rope
  bs_fragments :: "(fragment, fragment_summary) sum_tree"
  bs_insertions :: "(insertion_fragment, insertion_key) sum_tree"
  bs_insertion_slices :: "insertion_slice tree_set"
  bs_undo_map :: undo_map
  bs_version :: global
  bs_remote_id :: u64
  bs_replica_id :: replica_id
  bs_line_ending :: line_ending

record buffer =
  bf_snapshot :: buffer_snapshot
  bf_history :: history
  bf_deferred_ops :: "operation operation_queue"
  bf_deferred_replicas :: "replica_id set"
  bf_lamport_clock :: lamport
  bf_subscriptions :: "nat topic_state"
  bf_edit_id_resolvers :: "lamport \<rightharpoonup> nat list"
  bf_wait_for_version_txs :: "(global \<times> nat) list"
  bf_channels :: nat                      \<comment> \<open>the channels made so far\<close>
  bf_sent :: "nat list"                   \<comment> \<open>the channels sent on\<close>

definition MAX_INSERTION_LEN :: nat where "MAX_INSERTION_LEN = 2 ^ 32 - 1"

subsection \<open>Builders\<close>

record rope_builder =
  rb_old_visible_cursor :: rope_cursor
  rb_old_deleted_cursor :: rope_cursor
  rb_new_visible :: rope
  rb_new_deleted :: rope

definition rb_new :: "rope_cursor \<Rightarrow> rope_cursor \<Rightarrow> rope_builder" where
  "rb_new old_visible_cursor old_deleted_cursor =
     \<lparr>rb_old_visible_cursor = old_visible_cursor, rb_old_deleted_cursor = old_deleted_cursor,
      rb_new_visible = rope_new, rb_new_deleted = rope_new\<rparr>"

definition rb_push :: "rope_builder \<Rightarrow> nat \<Rightarrow> bool \<Rightarrow> bool \<Rightarrow> rope_builder option" where
  "rb_push self len was_visible is_visible = do {
     (self, text) \<leftarrow> (if was_visible then do {
         (c, text) \<leftarrow> rope_cursor_slice (rb_old_visible_cursor self) (rc_offset (rb_old_visible_cursor self) + len);
         Some (self\<lparr>rb_old_visible_cursor := c\<rparr>, text)
       } else do {
         (c, text) \<leftarrow> rope_cursor_slice (rb_old_deleted_cursor self) (rc_offset (rb_old_deleted_cursor self) + len);
         Some (self\<lparr>rb_old_deleted_cursor := c\<rparr>, text)
       });
     (if is_visible then do { r \<leftarrow> rope_append (rb_new_visible self) text; Some (self\<lparr>rb_new_visible := r\<rparr>) }
      else do { r \<leftarrow> rope_append (rb_new_deleted self) text; Some (self\<lparr>rb_new_deleted := r\<rparr>) })
   }"

definition rb_append :: "rope_builder \<Rightarrow> fragment_text_summary \<Rightarrow> rope_builder option" where
  "rb_append self len = do {
     self \<leftarrow> rb_push self (ft_visible len) True True;
     rb_push self (ft_deleted len) False False
   }"

definition rb_push_fragment :: "rope_builder \<Rightarrow> fragment \<Rightarrow> bool \<Rightarrow> rope_builder option" where
  "rb_push_fragment self fragment was_visible = rb_push self (unat (fr_len fragment)) was_visible (fr_visible fragment)"

definition rb_push_str :: "rope_builder \<Rightarrow> str \<Rightarrow> rope_builder option" where
  "rb_push_str self text = do { r \<leftarrow> rope_push (rb_new_visible self) text; Some (self\<lparr>rb_new_visible := r\<rparr>) }"

definition rb_finish :: "rope_builder \<Rightarrow> (rope \<times> rope) option" where
  "rb_finish self = do {
     v \<leftarrow> rope_cursor_suffix (rb_old_visible_cursor self);
     new_visible \<leftarrow> rope_append (rb_new_visible self) v;
     d \<leftarrow> rope_cursor_suffix (rb_old_deleted_cursor self);
     new_deleted \<leftarrow> rope_append (rb_new_deleted self) d;
     Some (new_visible, new_deleted)
   }"

record fragment_builder =
  fb_fragments :: "fragment list"
  fb_summary :: fragment_summary

definition fb_new :: "(fragment, fragment_summary) sum_tree \<Rightarrow> fragment_builder option" where
  "fb_new init = do { fs \<leftarrow> iter init; Some \<lparr>fb_fragments = fs, fb_summary = summary init\<rparr> }"

definition fb_append :: "fragment_builder \<Rightarrow> (fragment, fragment_summary) sum_tree \<Rightarrow> fragment_builder option" where
  "fb_append self tree =
     (if \<not> is_empty tree then do {
        fs \<leftarrow> iter tree;
        Some \<lparr>fb_fragments = fb_fragments self @ fs, fb_summary = fs_add (fb_summary self) (summary tree)\<rparr>
      } else Some self)"

definition fb_push :: "fragment_builder \<Rightarrow> fragment \<Rightarrow> fragment_builder option" where
  "fb_push self fragment = do { t \<leftarrow> from_item fragment_ops fragment; fb_append self t }"

definition fb_to_sum_tree :: "fragment_builder \<Rightarrow> (fragment, fragment_summary) sum_tree option" where
  "fb_to_sum_tree self =
     (if 1024 < length (fb_fragments self) then Some (from_par_iter fragment_ops (fb_fragments self))
      else from_iter fragment_ops (fb_fragments self))"

subsection \<open>The steps that local and remote edits share\<close>

text \<open>The local variables of \<open>apply_local_edit\<close> and \<open>apply_remote_edit\<close>, which differ in how the old
  fragments are measured.\<close>

record 'd edit_vars =
  ev_cursor :: "(fragment, fragment_summary, 'd) cursor"
  ev_fragment_start :: nat
  ev_ropes :: rope_builder
  ev_fragments :: fragment_builder
  ev_insertions :: "(insertion_fragment, insertion_key) edit list"
  ev_insertion_offset :: u32
  ev_slices :: "insertion_slice list"
  ev_patch :: "nat patch"

definition max_id :: "'d edit_vars \<Rightarrow> locator" where
  "max_id v = fd_max_id (fs_data (fb_summary (ev_fragments v)))"

definition new_visible_len :: "'d edit_vars \<Rightarrow> nat" where
  "new_visible_len v = ft_visible (fs_text (fb_summary (ev_fragments v)))"

definition push_edit :: "'d edit_vars \<Rightarrow> nat \<Rightarrow> nat \<Rightarrow> nat \<Rightarrow> nat \<Rightarrow> 'd edit_vars" where
  "push_edit v old_start old_end new_start new_end =
     v\<lparr>ev_patch := patch_push (ev_patch v) (Edit (Rng old_start old_end) (Rng new_start new_end))\<rparr>"

text \<open>A fragment with its entry in the index, its text and the fragment itself.\<close>

definition push_piece :: "'d edit_vars \<Rightarrow> fragment \<Rightarrow> bool \<Rightarrow> 'd edit_vars option" where
  "push_piece v fragment was_visible = do {
     ropes \<leftarrow> rb_push_fragment (ev_ropes v) fragment was_visible;
     fragments \<leftarrow> fb_push (ev_fragments v) fragment;
     Some (v\<lparr>ev_insertions := ev_insertions v @ [insert_new fragment], ev_ropes := ropes, ev_fragments := fragments\<rparr>)
   }"

text \<open>The part of the current fragment from one offset to another.\<close>

definition cut_fragment :: "fragment \<Rightarrow> nat \<Rightarrow> nat \<Rightarrow> nat \<Rightarrow> fragment" where
  "cut_fragment fragment cursor_start piece_start piece_end =
     fragment\<lparr>fr_len := of_nat piece_end - of_nat piece_start,
              fr_insertion_offset := fr_insertion_offset fragment + (of_nat piece_start - of_nat cursor_start)\<rparr>"

text \<open>If the current fragment has been partially consumed, then consume the rest of it and advance to the
  next fragment. \<open>pos\<close> reads the offset of a cursor location.\<close>

definition push_rest_of_fragment ::
    "('d, fragment_summary) dim_ops \<Rightarrow> ('d \<Rightarrow> nat option) \<Rightarrow> 'd edit_vars \<Rightarrow> 'd edit_vars option" where
  "push_rest_of_fragment D pos v = do {
     start \<leftarrow> pos (c_position (ev_cursor v));
     (if start < ev_fragment_start v then do {
        e \<leftarrow> cursor_end D (ev_cursor v);
        fragment_end \<leftarrow> pos e;
        v \<leftarrow> (if ev_fragment_start v < fragment_end then do {
            it \<leftarrow> cursor_item (ev_cursor v);
            fragment \<leftarrow> it;
            let suf = cut_fragment fragment start (ev_fragment_start v) fragment_end;
            push_piece v suf (fr_visible suf)
          } else Some v);
        c \<leftarrow> cursor_next D (ev_cursor v);
        Some (v\<lparr>ev_cursor := c\<rparr>)
      } else Some v)
   }"

text \<open>Reuse the fragments in front of a target.\<close>

definition append_slice ::
    "('d, fragment_summary) dim_ops \<Rightarrow> ('d \<Rightarrow> nat option) \<Rightarrow> 'd seek_target \<Rightarrow> bias \<Rightarrow> 'd edit_vars \<Rightarrow> 'd edit_vars option" where
  "append_slice D pos target bias v = do {
     (c, sl) \<leftarrow> slice fragment_ops D (ev_cursor v) target bias;
     ropes \<leftarrow> rb_append (ev_ropes v) (fs_text (summary sl));
     fragments \<leftarrow> fb_append (ev_fragments v) sl;
     start \<leftarrow> pos (c_position c);
     Some (v\<lparr>ev_cursor := c, ev_ropes := ropes, ev_fragments := fragments, ev_fragment_start := start\<rparr>)
   }"

text \<open>Preserve any portion of the current fragment that precedes the range.\<close>

definition push_prefix :: "('d \<Rightarrow> nat option) \<Rightarrow> nat \<Rightarrow> 'd edit_vars \<Rightarrow> 'd edit_vars option" where
  "push_prefix pos range_start v =
     (if ev_fragment_start v < range_start then do {
        it \<leftarrow> cursor_item (ev_cursor v);
        fragment \<leftarrow> it;
        start \<leftarrow> pos (c_position (ev_cursor v));
        let pre = cut_fragment fragment start (ev_fragment_start v) range_start;
        let pre = pre\<lparr>fr_id := locator_between (max_id v) (fr_id pre)\<rparr>;
        v \<leftarrow> push_piece v pre (fr_visible pre);
        Some (v\<lparr>ev_fragment_start := range_start\<rparr>)
      } else Some v)"

text \<open>\<open>push_fragments_for_insertion\<close>: fragments of at most \<open>MAX_INSERTION_LEN\<close> bytes.\<close>

function insertion_loop :: "str \<Rightarrow> lamport \<Rightarrow> locator \<Rightarrow> nat \<Rightarrow> 'd edit_vars \<Rightarrow> 'd edit_vars option" where
  "insertion_loop new_text timestamp next_fragment_id text_offset v =
     (if \<not> text_offset < length new_text then Some v
      else
        let target_end = min (length new_text) (text_offset + MAX_INSERTION_LEN);
            chunk_end = (if target_end = length new_text then target_end
                         else str_floor_char_boundary new_text target_end)
        in if \<not> text_offset < chunk_end then (if chunk_end = text_offset then Some v else None)
           else
             let chunk_len = chunk_end - text_offset;
                 fragment = \<lparr>fr_id = locator_between (max_id v) next_fragment_id, fr_timestamp = timestamp,
                   fr_insertion_offset = ev_insertion_offset v, fr_len = of_nat chunk_len, fr_visible = True,
                   fr_deletions = [], fr_max_undos = global_new\<rparr>
             in case fb_push (ev_fragments v) fragment of
                  None \<Rightarrow> None
                | Some fragments \<Rightarrow>
                    insertion_loop new_text timestamp next_fragment_id chunk_end
                      (v\<lparr>ev_slices := ev_slices v @ [slice_from_fragment timestamp fragment],
                         ev_insertions := ev_insertions v @ [insert_new fragment], ev_fragments := fragments,
                         ev_insertion_offset := ev_insertion_offset v + of_nat chunk_len\<rparr>))"
  by pat_completeness auto
termination
  by (relation "measure (\<lambda>(new_text, _, _, text_offset, _). length new_text - text_offset)") auto

declare insertion_loop.simps [simp del]

definition push_fragments_for_insertion :: "str \<Rightarrow> lamport \<Rightarrow> locator \<Rightarrow> 'd edit_vars \<Rightarrow> 'd edit_vars option" where
  "push_fragments_for_insertion new_text timestamp next_fragment_id v = do {
     v \<leftarrow> insertion_loop new_text timestamp next_fragment_id 0 v;
     ropes \<leftarrow> rb_push_str (ev_ropes v) new_text;
     Some (v\<lparr>ev_ropes := ropes\<rparr>)
   }"

text \<open>The id that new text is put in front of.\<close>

definition next_fragment_id :: "'d edit_vars \<Rightarrow> locator option" where
  "next_fragment_id v = do {
     it \<leftarrow> cursor_item (ev_cursor v);
     Some (case it of None \<Rightarrow> locator_max | Some old_fragment \<Rightarrow> fr_id old_fragment)
   }"

text \<open>What both edits end with: the fragments, the texts, the index and the slices are replaced, and the
  subscribers get the patch.\<close>

definition finish_edit ::
    "externals \<Rightarrow> ('d, fragment_summary) dim_ops \<Rightarrow> ('d \<Rightarrow> nat option) \<Rightarrow> buffer \<Rightarrow> 'd edit_vars \<Rightarrow> buffer option" where
  "finish_edit X D pos self v = do {
     v \<leftarrow> push_rest_of_fragment D pos v;
     (_, suf) \<leftarrow> suffix fragment_ops D (ev_cursor v);
     ropes \<leftarrow> rb_append (ev_ropes v) (fs_text (summary suf));
     fragments \<leftarrow> fb_append (ev_fragments v) suf;
     (visible_text, deleted_text) \<leftarrow> rb_finish ropes;
     let snapshot = bf_snapshot self;
     fragments \<leftarrow> fb_to_sum_tree fragments;
     insertions \<leftarrow> edit_sorted insertion_ops insertion_dim insertion_key (bs_insertions snapshot)
       (sort_insertions X (ev_insertions v));
     slices \<leftarrow> edit_sorted map_ops map_key_ref entry_key (bs_insertion_slices snapshot)
       (sort_slices X (map (\<lambda>k. Insert \<lparr>me_key = k, me_value = ()\<rparr>) (ev_slices v)));
     Some (self\<lparr>bf_snapshot := snapshot\<lparr>bs_fragments := fragments, bs_insertions := fst insertions,
             bs_visible_text := visible_text, bs_deleted_text := deleted_text, bs_insertion_slices := fst slices\<rparr>,
           bf_subscriptions := publish (bf_subscriptions self) (ev_patch v)\<rparr>)
   }"

text \<open>The variables before the loop over the edits.\<close>

definition start_edit ::
    "('d, fragment_summary) dim_ops \<Rightarrow> ('d \<Rightarrow> nat option) \<Rightarrow> buffer_snapshot \<Rightarrow> 'd seek_target \<Rightarrow> bias \<Rightarrow> 'd edit_vars option" where
  "start_edit D pos self target bias = do {
     visible_cursor \<leftarrow> rope_cursor_new (bs_visible_text self) 0;
     deleted_cursor \<leftarrow> rope_cursor_new (bs_deleted_text self) 0;
     (c, sl) \<leftarrow> slice fragment_ops D (cursor_new D (bs_fragments self)) target bias;
     fragments \<leftarrow> fb_new sl;
     ropes \<leftarrow> rb_append (rb_new visible_cursor deleted_cursor) (fs_text (fb_summary fragments));
     start \<leftarrow> pos (c_position c);
     Some \<lparr>ev_cursor = c, ev_fragment_start = start, ev_ropes = ropes, ev_fragments = fragments, ev_insertions = [],
       ev_insertion_offset = 0, ev_slices = [], ev_patch = patch_empty\<rparr>
   }"

subsection \<open>Local edits\<close>

text \<open>\<open>usize::to_offset\<close>.\<close>

definition usize_to_offset :: "buffer_snapshot \<Rightarrow> nat \<Rightarrow> nat option" where
  "usize_to_offset snapshot offset = do {
     b \<leftarrow> rope_assert_char_boundary False (bs_visible_text snapshot) offset;
     Some (if \<not> b then rope_floor_char_boundary (bs_visible_text snapshot) offset else offset)
   }"

definition visible_pos :: "fragment_text_summary \<Rightarrow> nat option" where
  "visible_pos d = Some (ft_visible d)"

text \<open>Advance through every fragment that intersects the range, marking the intersecting portions as
  deleted: one round of the loop, and the loop.\<close>

definition local_delete_step :: "lamport \<Rightarrow> nat \<Rightarrow> fragment_text_summary edit_vars \<Rightarrow> fragment_text_summary edit_vars option" where
  "local_delete_step timestamp range_end v = do {
     it \<leftarrow> cursor_item (ev_cursor v);
     fragment \<leftarrow> it;
     e \<leftarrow> cursor_end fragment_text_dim (ev_cursor v);
     let fragment_end = ft_visible e;
     let start = ft_visible (c_position (ev_cursor v));
     let intersection_end = min range_end fragment_end;
     let intersection = (if fr_visible fragment then
         let i = cut_fragment fragment start (ev_fragment_start v) intersection_end
         in i\<lparr>fr_id := locator_between (max_id v) (fr_id i), fr_deletions := fr_deletions i @ [timestamp], fr_visible := False\<rparr>
       else fragment);
     v \<leftarrow> (if 0 < fr_len intersection then do {
         let v = (if fr_visible fragment \<and> \<not> fr_visible intersection then
             let new_start = new_visible_len v;
                 v = push_edit v (ev_fragment_start v) intersection_end new_start new_start
             in v\<lparr>ev_slices := ev_slices v @ [slice_from_fragment timestamp intersection]\<rparr>
           else v);
         v \<leftarrow> push_piece v intersection (fr_visible fragment);
         Some (v\<lparr>ev_fragment_start := intersection_end\<rparr>)
       } else Some v);
     (if fragment_end \<le> range_end then do {
        c \<leftarrow> cursor_next fragment_text_dim (ev_cursor v);
        Some (v\<lparr>ev_cursor := c\<rparr>)
      } else Some v)
   }"

partial_function (option) local_delete_loop ::
    "lamport \<Rightarrow> nat \<Rightarrow> fragment_text_summary edit_vars \<Rightarrow> fragment_text_summary edit_vars option" where
  "local_delete_loop timestamp range_end v =
     (if ev_fragment_start v < range_end then do {
        v \<leftarrow> local_delete_step timestamp range_end v;
        local_delete_loop timestamp range_end v
      } else Some v)"

text \<open>Insert the new text before any existing fragments within the range.\<close>

definition local_insert :: "lamport \<Rightarrow> str \<Rightarrow> fragment_text_summary edit_vars \<Rightarrow> fragment_text_summary edit_vars option" where
  "local_insert timestamp new_text v =
     (if new_text \<noteq> [] then do {
        let new_start = new_visible_len v;
        nid \<leftarrow> next_fragment_id v;
        v \<leftarrow> push_fragments_for_insertion new_text timestamp nid v;
        Some (push_edit v (ev_fragment_start v) (ev_fragment_start v) new_start (new_start + length new_text))
      } else Some v)"

text \<open>One edit: the variables, its range in the full text, and its normalized text.\<close>

definition local_edit_step ::
    "externals \<Rightarrow> lamport \<Rightarrow> fragment_text_summary edit_vars \<Rightarrow> nat \<times> nat \<times> str \<Rightarrow>
      (fragment_text_summary edit_vars \<times> (nat \<times> nat) \<times> str) option" where
  "local_edit_step X timestamp v = (\<lambda>(range_start, range_end, new_text). do {
     let new_text = normalize X new_text;
     e \<leftarrow> cursor_end fragment_text_dim (ev_cursor v);
     v \<leftarrow> (if ft_visible e < range_start then do {
         v \<leftarrow> push_rest_of_fragment fragment_text_dim visible_pos v;
         append_slice fragment_text_dim visible_pos (visible_target range_start) Right v
       } else Some v);
     let full_range_start = range_start + ft_deleted (c_position (ev_cursor v));
     v \<leftarrow> push_prefix visible_pos range_start v;
     v \<leftarrow> local_insert timestamp new_text v;
     v \<leftarrow> local_delete_loop timestamp range_end v;
     let full_range_end = range_end + ft_deleted (c_position (ev_cursor v));
     Some (v, (full_range_start, full_range_end), new_text)
   })"

fun local_edit_loop ::
    "externals \<Rightarrow> lamport \<Rightarrow> fragment_text_summary edit_vars \<Rightarrow> (nat \<times> nat \<times> str) list \<Rightarrow>
      (fragment_text_summary edit_vars \<times> (nat \<times> nat) list \<times> str list) option" where
  "local_edit_loop X timestamp v [] = Some (v, [], [])"
| "local_edit_loop X timestamp v (ed # eds) = do {
     (v, r, t) \<leftarrow> local_edit_step X timestamp v ed;
     (v, rs, texts) \<leftarrow> local_edit_loop X timestamp v eds;
     Some (v, r # rs, t # texts)
   }"

text \<open>\<open>apply_local_edit\<close>: the offsets are converted first; an empty sequence of edits is a panic.\<close>

definition apply_local_edit ::
    "externals \<Rightarrow> buffer \<Rightarrow> (nat \<times> nat \<times> str) list \<Rightarrow> lamport \<Rightarrow> (buffer \<times> edit_operation) option" where
  "apply_local_edit X self eds timestamp = do {
     eds \<leftarrow> those (map (\<lambda>(s, e, t). do {
       s \<leftarrow> usize_to_offset (bf_snapshot self) s;
       e \<leftarrow> usize_to_offset (bf_snapshot self) e;
       Some (s, e, t) }) eds);
     (range_start, _) \<leftarrow> vec_first eds;
     v \<leftarrow> start_edit fragment_text_dim visible_pos (bf_snapshot self) (visible_target range_start) Right;
     (v, ranges, texts) \<leftarrow> local_edit_loop X timestamp v eds;
     self' \<leftarrow> finish_edit X fragment_text_dim visible_pos self v;
     Some (self', \<lparr>eo_timestamp = timestamp, eo_version = bs_version (bf_snapshot self), eo_ranges = ranges,
       eo_new_text = texts\<rparr>)
   }"

text \<open>\<open>edit\<close>; the two instants are those of the start and of the end of its transaction.\<close>

definition buffer_edit ::
    "externals \<Rightarrow> buffer \<Rightarrow> nat \<Rightarrow> nat \<Rightarrow> (nat \<times> nat \<times> str) list \<Rightarrow> (buffer \<times> operation) option" where
  "buffer_edit X self now_start now_end eds = do {
     let (history, clock, _) = start_transaction (bf_history self) (bs_version (bf_snapshot self)) now_start (bf_lamport_clock self);
     let (timestamp, clock) = lamport_tick clock;
     (self, ed) \<leftarrow> apply_local_edit X (self\<lparr>bf_history := history, bf_lamport_clock := clock\<rparr>) eds timestamp;
     let op = EditOp ed;
     history \<leftarrow> history_push (bf_history self) op;
     history \<leftarrow> push_undo history (op_timestamp op);
     let snapshot = bf_snapshot self;
     let snapshot = snapshot\<lparr>bs_version := global_observe (bs_version snapshot) (op_timestamp op)\<rparr>;
     (history, _) \<leftarrow> end_transaction_at history now_end;
     Some (self\<lparr>bf_history := history, bf_snapshot := snapshot\<rparr>, op)
   }"

end
