(* ===== verification/BufferText.thy ===== *)
theory BufferText
  imports Buffer RopeCursor
begin

text \<open>
  What a buffer holds: its fragments with the text of each (\<open>piece\<close>), the visible and the deleted text they
  make, the identity of every character (\<open>atoms\<close>: the insertion it came from and its offset there), and the
  invariant that ties fragments, ropes, index of insertions and slices together. What the rope builder and the
  fragment builder do is stated on pieces.
\<close>

subsection \<open>Pieces\<close>

type_synonym piece = "fragment \<times> rust_char list"

abbreviation vis_piece :: "piece \<Rightarrow> bool" where
  "vis_piece x \<equiv> fr_visible (fst x)"

abbreviation piece_id :: "piece \<Rightarrow> locator" where
  "piece_id x \<equiv> fr_id (fst x)"

definition vis :: "piece list \<Rightarrow> rust_char list" where
  "vis ps = concat (map snd (filter vis_piece ps))"

definition del :: "piece list \<Rightarrow> rust_char list" where
  "del ps = concat (map snd (filter (\<lambda>x. \<not> vis_piece x) ps))"

lemma vis_simps [simp]: "vis [] = []" "vis (x # ps) = (if vis_piece x then snd x else []) @ vis ps" "vis (ps @ qs) = vis ps @ vis qs"
  by (simp_all add: vis_def)

lemma del_simps [simp]: "del [] = []" "del (x # ps) = (if vis_piece x then [] else snd x) @ del ps" "del (ps @ qs) = del ps @ del qs"
  by (simp_all add: del_def)

definition piece_ok :: "piece \<Rightarrow> bool" where
  "piece_ok x \<longleftrightarrow> snd x \<noteq> [] \<and> valid (snd x) \<and> str_len (snd x) = unat (fr_len (fst x)) \<and> locator_ok (piece_id x)"

text \<open>The identity of every character of a piece.\<close>

fun char_atoms :: "lamport \<Rightarrow> u32 \<Rightarrow> rust_char list \<Rightarrow> (lamport \<times> u32 \<times> rust_char) list" where
  "char_atoms t off [] = []"
| "char_atoms t off (c # cs) = (t, off, c) # char_atoms t (off + of_nat (len_utf8 c)) cs"

definition piece_atoms :: "piece \<Rightarrow> (lamport \<times> u32 \<times> rust_char) list" where
  "piece_atoms x = char_atoms (fr_timestamp (fst x)) (fr_insertion_offset (fst x)) (snd x)"

definition atoms :: "piece list \<Rightarrow> (lamport \<times> u32 \<times> rust_char) list" where
  "atoms ps = concat (map piece_atoms ps)"

lemma atoms_simps [simp]: "atoms [] = []" "atoms (x # ps) = piece_atoms x @ atoms ps" "atoms (ps @ qs) = atoms ps @ atoms qs"
  by (simp_all add: atoms_def)

definition atom_id :: "lamport \<times> u32 \<times> rust_char \<Rightarrow> lamport \<times> u32" where
  "atom_id a = (fst a, fst (snd a))"

lemma char_atoms_append: "char_atoms t off (xs @ ys) = char_atoms t off xs @ char_atoms t (off + of_nat (str_len xs)) ys"
  by (induction xs arbitrary: off) (simp_all add: add.assoc)

lemma char_atoms_time: "a \<in> set (char_atoms t off xs) \<Longrightarrow> fst a = t"
  by (induction xs arbitrary: off) auto

lemma piece_atoms_time: "a \<in> set (piece_atoms x) \<Longrightarrow> fst a = fr_timestamp (fst x)"
  by (auto simp: piece_atoms_def dest: char_atoms_time)

lemma filter_piece_atoms:
  "filter (\<lambda>a. fst a = t) (piece_atoms x) = (if fr_timestamp (fst x) = t then piece_atoms x else [])"
  "filter (\<lambda>a. fst a \<noteq> t) (piece_atoms x) = (if fr_timestamp (fst x) = t then [] else piece_atoms x)"
  by (auto simp: filter_id_conv filter_empty_conv dest: piece_atoms_time)

lemma filter_old_atoms:
  assumes "\<forall>x \<in> set ps. fr_timestamp (fst x) \<noteq> t"
  shows "filter (\<lambda>a. fst a = t) (atoms ps) = []" "filter (\<lambda>a. fst a \<noteq> t) (atoms ps) = atoms ps"
  using assms by (induction ps) (auto simp: filter_piece_atoms)

text \<open>The key of a piece in the index is the identity of its first character.\<close>

abbreviation piece_key :: "piece \<Rightarrow> insertion_key" where
  "piece_key x \<equiv> insertion_key (insertion_new (fst x))"

lemma piece_key_simps [simp]: "insertion_key (insertion_new f) = InsertionFragmentKey (fr_timestamp f) (fr_insertion_offset f)"
  by (simp add: insertion_key_def insertion_new_def)

lemma keys_distinct:
  assumes "distinct (map atom_id (atoms ps))" and "\<forall>x \<in> set ps. snd x \<noteq> []"
  shows "distinct (map piece_key ps)"
  using assms
proof (induction ps)
  case (Cons x ps)
  have first: "atom_id (hd (piece_atoms y)) = (fr_timestamp (fst y), fr_insertion_offset (fst y))" "piece_atoms y \<noteq> []"
    if "snd y \<noteq> []" for y
    using that by (cases "snd y"; simp add: piece_atoms_def atom_id_def)+
  have "piece_key x \<noteq> piece_key y" if "y \<in> set ps" for y
  proof
    assume k: "piece_key x = piece_key y"
    have "atom_id (hd (piece_atoms x)) = atom_id (hd (piece_atoms y))"
      using k first(1) [of x] first(1) [of y] Cons.prems(2) that by auto
    moreover have "atom_id (hd (piece_atoms x)) \<in> atom_id ` set (piece_atoms x)"
      using first(2) [of x] Cons.prems(2) by simp
    moreover have "atom_id (hd (piece_atoms y)) \<in> atom_id ` set (atoms ps)"
      using first(2) [of y] Cons.prems(2) that by (fastforce simp: atoms_def)
    ultimately show False using Cons.prems(1) by auto
  qed
  then show ?case using Cons by auto
qed simp

subsection \<open>Summaries of pieces\<close>

abbreviation piece_items :: "piece list \<Rightarrow> fragment list" where
  "piece_items ps \<equiv> map fst ps"

lemma fs_text_of: "piece_ok x \<Longrightarrow> fd_text (fragment_summary_of (fst x)) =
    (if vis_piece x then \<lparr>ft_visible = str_len (snd x), ft_deleted = 0\<rparr> else \<lparr>ft_visible = 0, ft_deleted = str_len (snd x)\<rparr>)"
  by (simp add: fragment_summary_of_def Let_def piece_ok_def)

lemma pos_after_pieces:
  assumes "\<forall>x \<in> set ps. piece_ok x"
  shows "pos_after fragment_ops fragment_text_dim d (piece_items ps) =
    \<lparr>ft_visible = ft_visible d + str_len (vis ps), ft_deleted = ft_deleted d + str_len (del ps)\<rparr>"
  using assms
proof (induction ps arbitrary: d)
  case (Cons x ps)
  have "pos_after fragment_ops fragment_text_dim d (piece_items (x # ps)) =
      pos_after fragment_ops fragment_text_dim (fragment_text_add d (fs_text (fs_of (fst x)))) (piece_items ps)"
    by (simp add: pos_after_def fragment_text_dim_def)
  also have "\<dots> = \<lparr>ft_visible = ft_visible d + str_len (vis (x # ps)), ft_deleted = ft_deleted d + str_len (del (x # ps))\<rparr>"
    using Cons fs_text_of [of x] by (simp add: fragment_text_add_def)
  finally show ?case .
qed (simp add: pos_after_def)

lemma fragment_sum:
  assumes "\<forall>x \<in> set ps. piece_ok x"
  shows "fs_text (s_sum fragment_ops (map (item_summary fragment_ops) (piece_items ps))) =
      \<lparr>ft_visible = str_len (vis ps), ft_deleted = str_len (del ps)\<rparr>"
    and "fd_max_id (fs_data (s_sum fragment_ops (map (item_summary fragment_ops) (piece_items ps)))) =
      last (locator_min # map piece_id ps)"
proof -
  have t: "fs_text (foldl fs_add s (map fs_of (piece_items ps))) =
      \<lparr>ft_visible = ft_visible (fs_text s) + str_len (vis ps), ft_deleted = ft_deleted (fs_text s) + str_len (del ps)\<rparr>" for s
    using assms by (induction ps arbitrary: s) (simp_all add: fs_text_of fragment_text_add_def add.assoc)
  have m: "fd_max_id (fs_data (foldl fs_add s (map fs_of (piece_items ps)))) = last (fd_max_id (fs_data s) # map piece_id ps)" for s
    by (induction ps arbitrary: s) auto
  show "fs_text (s_sum fragment_ops (map (item_summary fragment_ops) (piece_items ps))) =
      \<lparr>ft_visible = str_len (vis ps), ft_deleted = str_len (del ps)\<rparr>"
    using t [of fs_zero] by (simp add: s_sum_def fragment_text_zero_def)
  show "fd_max_id (fs_data (s_sum fragment_ops (map (item_summary fragment_ops) (piece_items ps)))) =
      last (locator_min # map piece_id ps)"
    using m [of fs_zero] by (simp add: s_sum_def)
qed

subsection \<open>The rope builder\<close>

text \<open>The cursors are behind \<open>xs\<close> of the old visible text and \<open>ds\<close> of the old deleted text, in front of
  \<open>ws\<close> and \<open>es\<close>; the new texts built are \<open>vs\<close> and \<open>ls\<close>.\<close>

definition ropes_at ::
    "rope \<Rightarrow> rope \<Rightarrow> rope_builder \<Rightarrow> rust_char list \<Rightarrow> rust_char list \<Rightarrow> rust_char list \<Rightarrow> rust_char list \<Rightarrow>
      rust_char list \<Rightarrow> rust_char list \<Rightarrow> bool" where
  "ropes_at V L B xs ws ds es vs ls \<longleftrightarrow>
     cursor_at (rb_old_visible_cursor B) V xs ws \<and> cursor_at (rb_old_deleted_cursor B) L ds es \<and>
     rope_text (rb_new_visible B) vs \<and> rope_text (rb_new_deleted B) ls \<and>
     height (rope_chunks V) \<le> 6 \<and> height (rope_chunks L) \<le> 6"

lemma cursor_at_offset: "cursor_at c r xs ws \<Longrightarrow> rc_offset c = str_len xs"
  by (simp add: cursor_at_def)

lemma rope_append_text:
  assumes "rope_text r as" and "rope_of s ess" and "height (rope_chunks s) < STACK_CAPACITY"
  obtains r' where "rope_append r s = Some r'" "rope_text r' (as @ concat ess)"
proof -
  obtain css where css: "rope_of r css" "as = concat css" using assms(1) by (auto simp: rope_text_def)
  obtain r' fss where r': "rope_append r s = Some r'" "rope_of r' fss" "concat fss = concat css @ concat ess"
    using rope_append_of [OF css(1) assms(2,3)] by blast
  have "rope_text r' (as @ concat ess)" by (rule rope_textI [OF r'(2)]) (simp add: r'(3) css(2))
  then show thesis using that r'(1) by blast
qed

lemma ropes_at_new:
  assumes "rope_text V xs" and "rope_text L ds" and "height (rope_chunks V) \<le> 6" and "height (rope_chunks L) \<le> 6"
  obtains c d where "rope_cursor_new V 0 = Some c" "rope_cursor_new L 0 = Some d"
    "ropes_at V L (rb_new c d) [] xs [] ds [] []"
proof -
  obtain c where c: "rope_cursor_new V 0 = Some c" "cursor_at c V [] xs" by (rule rope_cursor_zero [OF assms(1,3)])
  obtain d where d: "rope_cursor_new L 0 = Some d" "cursor_at d L [] ds" by (rule rope_cursor_zero [OF assms(2,4)])
  have n: "rope_text rope_new []" by (rule rope_textI [OF rope_of_new]) simp
  have "ropes_at V L (rb_new c d) [] xs [] ds [] []"
    using c(2) d(2) n assms(3,4) by (simp add: ropes_at_def rb_new_def)
  then show thesis using c(1) d(1) that by blast
qed

lemma rb_push_visible:
  assumes "ropes_at V L B xs (t @ ws) ds es vs ls"
  obtains B' where "rb_push B (str_len t) True v = Some B'"
    "ropes_at V L B' (xs @ t) ws ds es (if v then vs @ t else vs) (if v then ls else ls @ t)"
proof -
  have a: "cursor_at (rb_old_visible_cursor B) V xs (t @ ws)" "height (rope_chunks V) \<le> 6"
    using assms by (simp_all add: ropes_at_def)
  obtain c s ess where s: "rope_cursor_slice (rb_old_visible_cursor B) (str_len (xs @ t)) = Some (c, s)"
    "cursor_at c V (xs @ t) ws" "rope_of s ess" "concat ess = t" "height (rope_chunks s) < STACK_CAPACITY"
    by (rule rope_cursor_slice_at [OF a])
  have l: "rope_cursor_slice (rb_old_visible_cursor B) (rc_offset (rb_old_visible_cursor B) + str_len t) = Some (c, s)"
    using s(1) cursor_at_offset [OF a(1)] by simp
  obtain r where r: "rope_append (rb_new_visible B) s = Some r" "rope_text r (vs @ t)"
    using rope_append_text [OF _ s(3,5), of "rb_new_visible B" vs] assms s(4) unfolding ropes_at_def by blast
  obtain q where q: "rope_append (rb_new_deleted B) s = Some q" "rope_text q (ls @ t)"
    using rope_append_text [OF _ s(3,5), of "rb_new_deleted B" ls] assms s(4) unfolding ropes_at_def by blast
  show thesis
  proof (cases v)
    case True
    then have "rb_push B (str_len t) True v = Some (B\<lparr>rb_old_visible_cursor := c, rb_new_visible := r\<rparr>)"
      by (simp add: rb_push_def l r(1))
    then show thesis by (rule that) (use assms s(2) r(2) True in \<open>simp add: ropes_at_def\<close>)
  next
    case False
    then have "rb_push B (str_len t) True v = Some (B\<lparr>rb_old_visible_cursor := c, rb_new_deleted := q\<rparr>)"
      by (simp add: rb_push_def l q(1))
    then show thesis by (rule that) (use assms s(2) q(2) False in \<open>simp add: ropes_at_def\<close>)
  qed
qed

lemma rb_push_deleted:
  assumes "ropes_at V L B xs ws ds (t @ es) vs ls"
  obtains B' where "rb_push B (str_len t) False v = Some B'"
    "ropes_at V L B' xs ws (ds @ t) es (if v then vs @ t else vs) (if v then ls else ls @ t)"
proof -
  have a: "cursor_at (rb_old_deleted_cursor B) L ds (t @ es)" "height (rope_chunks L) \<le> 6"
    using assms by (simp_all add: ropes_at_def)
  obtain c s ess where s: "rope_cursor_slice (rb_old_deleted_cursor B) (str_len (ds @ t)) = Some (c, s)"
    "cursor_at c L (ds @ t) es" "rope_of s ess" "concat ess = t" "height (rope_chunks s) < STACK_CAPACITY"
    by (rule rope_cursor_slice_at [OF a])
  have l: "rope_cursor_slice (rb_old_deleted_cursor B) (rc_offset (rb_old_deleted_cursor B) + str_len t) = Some (c, s)"
    using s(1) cursor_at_offset [OF a(1)] by simp
  obtain r where r: "rope_append (rb_new_visible B) s = Some r" "rope_text r (vs @ t)"
    using rope_append_text [OF _ s(3,5), of "rb_new_visible B" vs] assms s(4) unfolding ropes_at_def by blast
  obtain q where q: "rope_append (rb_new_deleted B) s = Some q" "rope_text q (ls @ t)"
    using rope_append_text [OF _ s(3,5), of "rb_new_deleted B" ls] assms s(4) unfolding ropes_at_def by blast
  show thesis
  proof (cases v)
    case True
    then have "rb_push B (str_len t) False v = Some (B\<lparr>rb_old_deleted_cursor := c, rb_new_visible := r\<rparr>)"
      by (simp add: rb_push_def l r(1))
    then show thesis by (rule that) (use assms s(2) r(2) True in \<open>simp add: ropes_at_def\<close>)
  next
    case False
    then have "rb_push B (str_len t) False v = Some (B\<lparr>rb_old_deleted_cursor := c, rb_new_deleted := q\<rparr>)"
      by (simp add: rb_push_def l q(1))
    then show thesis by (rule that) (use assms s(2) q(2) False in \<open>simp add: ropes_at_def\<close>)
  qed
qed

lemma rb_append_at:
  assumes "ropes_at V L B xs (t @ ws) ds (u @ es) vs ls"
  obtains B' where "rb_append B \<lparr>ft_visible = str_len t, ft_deleted = str_len u\<rparr> = Some B'"
    "ropes_at V L B' (xs @ t) ws (ds @ u) es (vs @ t) (ls @ u)"
proof -
  obtain B1 where 1: "rb_push B (str_len t) True True = Some B1" "ropes_at V L B1 (xs @ t) ws ds (u @ es) (vs @ t) ls"
    by (rule rb_push_visible [OF assms, where v = True]) simp
  obtain B2 where 2: "rb_push B1 (str_len u) False False = Some B2" "ropes_at V L B2 (xs @ t) ws (ds @ u) es (vs @ t) (ls @ u)"
    by (rule rb_push_deleted [OF 1(2), where v = False]) simp
  show thesis by (rule that [OF _ 2(2)]) (simp add: rb_append_def 1(1) 2(1))
qed

lemma rb_push_str_at:
  assumes "ropes_at V L B xs ws ds es vs ls" and "valid t" and "str_len t < 2 ^ 63"
  obtains B' where "rb_push_str B (utf8 t) = Some B'" "ropes_at V L B' xs ws ds es (vs @ t) ls"
proof -
  obtain css where css: "rope_of (rb_new_visible B) css" "vs = concat css"
    using assms(1) by (auto simp: ropes_at_def rope_text_def)
  obtain r dss where r: "rope_push (rb_new_visible B) (utf8 t) = Some r" "rope_of r dss" "concat dss = concat css @ t"
    using rope_push_of [OF css(1) assms(2,3)] by blast
  have "rope_text r (vs @ t)" by (rule rope_textI [OF r(2)]) (simp add: r(3) css(2))
  then have "ropes_at V L (B\<lparr>rb_new_visible := r\<rparr>) xs ws ds es (vs @ t) ls" using assms(1) by (simp add: ropes_at_def)
  then show thesis by (rule that [rotated]) (simp add: rb_push_str_def r(1))
qed

lemma rb_finish_at:
  assumes "ropes_at V L B xs ws ds es vs ls"
  obtains v l where "rb_finish B = Some (v, l)" "rope_text v (vs @ ws)" "rope_text l (ls @ es)"
proof -
  have a: "cursor_at (rb_old_visible_cursor B) V xs ws" "cursor_at (rb_old_deleted_cursor B) L ds es"
    "height (rope_chunks V) \<le> 6" "height (rope_chunks L) \<le> 6" "rope_text (rb_new_visible B) vs" "rope_text (rb_new_deleted B) ls"
    using assms by (simp_all add: ropes_at_def)
  obtain s ess where s: "rope_cursor_suffix (rb_old_visible_cursor B) = Some s" "rope_of s ess" "concat ess = ws"
    "height (rope_chunks s) < STACK_CAPACITY" by (rule rope_cursor_suffix_at [OF a(1,3)])
  obtain v where v: "rope_append (rb_new_visible B) s = Some v" "rope_text v (vs @ ws)"
    using rope_append_text [OF a(5) s(2,4)] s(3) by blast
  obtain s' ess' where s': "rope_cursor_suffix (rb_old_deleted_cursor B) = Some s'" "rope_of s' ess'" "concat ess' = es"
    "height (rope_chunks s') < STACK_CAPACITY" by (rule rope_cursor_suffix_at [OF a(2,4)])
  obtain l where l: "rope_append (rb_new_deleted B) s' = Some l" "rope_text l (ls @ es)"
    using rope_append_text [OF a(6) s'(2,4)] s'(3) by blast
  show thesis by (rule that [OF _ v(2) l(2)]) (simp add: rb_finish_def s(1) v(1) s'(1) l(1))
qed

subsection \<open>The fragment builder\<close>

definition frags_at :: "fragment_builder \<Rightarrow> piece list \<Rightarrow> bool" where
  "frags_at F ps \<longleftrightarrow> fb_fragments F = piece_items ps \<and> (\<forall>x \<in> set ps. piece_ok x) \<and>
     fs_text (fb_summary F) = \<lparr>ft_visible = str_len (vis ps), ft_deleted = str_len (del ps)\<rparr> \<and>
     fd_max_id (fs_data (fb_summary F)) = last (locator_min # map piece_id ps)"

definition fragment_tree :: "(fragment, fragment_summary) sum_tree \<Rightarrow> piece list \<Rightarrow> bool" where
  "fragment_tree t ps \<longleftrightarrow> wf_tree fragment_ops t \<and> tree_items t = piece_items ps \<and> (\<forall>x \<in> set ps. piece_ok x)"

lemma fragment_tree_summary:
  assumes "fragment_tree t ps"
  shows "fs_text (summary t) = \<lparr>ft_visible = str_len (vis ps), ft_deleted = str_len (del ps)\<rparr>"
    and "fd_max_id (fs_data (summary t)) = last (locator_min # map piece_id ps)"
  using fragment_tree.wf_tree_summary [of t] fragment_sum [of ps] assms by (simp_all add: fragment_tree_def)

lemma fb_new_at:
  assumes "fragment_tree t ps" and "height t < STACK_CAPACITY"
  obtains F where "fb_new t = Some F" "frags_at F ps"
proof -
  have "iter t = Some (piece_items ps)"
    using iter_wf [OF fragment_tree.summary_laws_axioms _ assms(2)] assms(1) by (simp add: fragment_tree_def)
  then show thesis
    by (intro that [of "\<lparr>fb_fragments = piece_items ps, fb_summary = summary t\<rparr>"])
      (use fragment_tree_summary [OF assms(1)] assms(1) in \<open>simp_all add: fb_new_def frags_at_def fragment_tree_def\<close>)
qed

lemma fb_append_at:
  assumes "frags_at F ps" and "fragment_tree t qs" and "height t < STACK_CAPACITY"
  obtains F' where "fb_append F t = Some F'" "frags_at F' (ps @ qs)"
proof (cases "is_empty t")
  case True
  then have "qs = []" using assms(2) wf_tree_is_empty [of fragment_ops t] by (simp add: fragment_tree_def)
  then show thesis by (intro that [of F]) (use True assms(1) in \<open>simp_all add: fb_append_def\<close>)
next
  case False
  then have ne: "qs \<noteq> []" using assms(2) wf_tree_is_empty [of fragment_ops t] by (simp add: fragment_tree_def)
  have "iter t = Some (piece_items qs)"
    using iter_wf [OF fragment_tree.summary_laws_axioms _ assms(3)] assms(2) by (simp add: fragment_tree_def)
  then show thesis
    by (intro that [of "\<lparr>fb_fragments = fb_fragments F @ piece_items qs, fb_summary = fs_add (fb_summary F) (summary t)\<rparr>"])
      (use fragment_tree_summary [OF assms(2)] assms(1,2) False ne in
        \<open>simp_all add: fb_append_def frags_at_def fragment_tree_def fragment_text_add_def last_append ball_Un\<close>)
qed

lemma fb_push_at:
  assumes "frags_at F ps" and "piece_ok x"
  obtains F' where "fb_push F (fst x) = Some F'" "frags_at F' (ps @ [x])"
proof -
  obtain t where t: "from_item fragment_ops (fst x) = Some t" "fragment_tree t [x]" "height t < STACK_CAPACITY"
  proof -
    obtain t where "from_item fragment_ops (fst x) = Some t" "wf_tree fragment_ops t" "tree_items t = [fst x]"
      using fragment_tree.push_correct [OF wf_tree_new, of "fst x"] by (auto simp: from_item_def new_def)
    moreover have "height t = 0"
      using calculation(1) by (auto simp: from_item_def push_def append_tree_def new_def Let_def)
    ultimately show thesis by (intro that [of t]) (use assms(2) in \<open>simp_all add: fragment_tree_def STACK_CAPACITY_def\<close>)
  qed
  obtain F' where "fb_append F t = Some F'" "frags_at F' (ps @ [x])" by (rule fb_append_at [OF assms(1) t(2,3)])
  then show thesis by (intro that [of F']) (simp_all add: fb_push_def t(1))
qed

lemma fb_to_sum_tree_at:
  assumes "frags_at F ps"
  obtains t where "fb_to_sum_tree F = Some t" "fragment_tree t ps"
  using fragment_tree.from_iter_correct [of "fb_fragments F"] fragment_tree.from_iter_par_iter [of "fb_fragments F"] assms that
  by (auto simp: fb_to_sum_tree_def frags_at_def fragment_tree_def)

end
