(* ===== verification/BufferEdit.thy ===== *)
theory BufferEdit
  imports BufferText SliceHeight "HOL-Library.Sublist"
begin

text \<open>
  The steps of a local edit on pieces: where the cursor is between the old pieces, what the builders and the
  patch hold, and what each step of \<open>apply_local_edit\<close> does to them.
\<close>

subsection \<open>The patch\<close>

definition patched :: "nat patch \<Rightarrow> rust_char list \<Rightarrow> rust_char list \<Rightarrow> rust_char list \<Rightarrow> bool" where
  "patched p xs ws vs \<longleftrightarrow> separated p \<and> covers (utf8 (xs @ ws)) (utf8 vs) 0 0 p (str_len xs) (str_len vs)"

lemma same_app: "same as bs i j i' j' \<Longrightarrow> same as (bs @ u) i j i' j'"
  by (auto simp: same_def nth_append)

lemma covers_app: "covers as bs i j p i' j' \<Longrightarrow> covers as (bs @ u) i j p i' j'"
  by (induction p arbitrary: i j) (auto intro: same_app)

lemma patched_empty: "patched patch_empty [] ws []"
  by (simp add: patched_def patch_empty_def)

lemma patched_copy:
  assumes "patched p xs (t @ ws) vs"
  shows "patched p (xs @ t) ws (vs @ t)"
proof -
  have "same (utf8 (xs @ t @ ws)) (utf8 (vs @ t)) (str_len xs) (str_len vs) (str_len (xs @ t)) (str_len (vs @ t))"
    by (simp add: same_def nth_append)
  from covers_extend [OF _ this] covers_app [of "utf8 (xs @ t @ ws)" "utf8 vs", where u = "utf8 t"] assms
  show ?thesis by (simp add: patched_def)
qed

lemma patched_replace:
  assumes "patched p xs (d @ ws) vs"
  shows "patched (patch_push p (Edit (Rng (str_len xs) (str_len xs + str_len d)) (Rng (str_len vs) (str_len vs + str_len t))))
    (xs @ d) ws (vs @ t)"
proof -
  have c: "covers (utf8 (xs @ d @ ws)) (utf8 vs @ utf8 t) 0 0 p (str_len xs) (str_len vs)" "separated p"
    using covers_app [of "utf8 (xs @ d @ ws)" "utf8 vs" 0 0 p _ _ "utf8 t"] assms by (simp_all add: patched_def)
  show ?thesis unfolding patched_def
    using push_covers [OF c(1) _ _ _ _ c(2), of "str_len xs + str_len d" "str_len vs + str_len t"] by simp
qed

lemma patched_insert:
  "patched p xs ws vs \<Longrightarrow>
    patched (patch_push p (Edit (Rng (str_len xs) (str_len xs)) (Rng (str_len vs) (str_len vs + str_len t)))) xs ws (vs @ t)"
  using patched_replace [of p xs "[]" ws vs t] by simp

lemma patched_delete:
  "patched p xs (d @ ws) vs \<Longrightarrow>
    patched (patch_push p (Edit (Rng (str_len xs) (str_len xs + str_len d)) (Rng (str_len vs) (str_len vs)))) (xs @ d) ws vs"
  using patched_replace [of p xs d ws vs "[]"] by simp

lemma patched_patches: "patched p xs [] vs \<Longrightarrow> patches p (utf8 xs) (utf8 vs)"
  by (simp add: patched_def patches_def)

subsection \<open>The cursor\<close>

definition at_cursor :: "(fragment, fragment_summary) sum_tree \<Rightarrow> (fragment, fragment_summary, fragment_text_summary) cursor \<Rightarrow>
    piece list \<Rightarrow> piece list \<Rightarrow> bool" where
  "at_cursor t c D R \<longleftrightarrow> cursor_ok fragment_ops fragment_text_dim c \<and> can_seek c \<and> c_did_seek c \<and> c_tree c = t \<and>
     cursor_done c = piece_items D \<and> cursor_rest c = piece_items R \<and> (\<forall>x \<in> set (D @ R). piece_ok x)"

lemma at_cursor_position:
  assumes "at_cursor t c D R"
  shows "c_position c = \<lparr>ft_visible = str_len (vis D), ft_deleted = str_len (del D)\<rparr>"
proof -
  have "c_position c = pos_after fragment_ops fragment_text_dim (d_zero fragment_text_dim) (piece_items D)"
    using assms by (simp add: at_cursor_def cursor_ok_def)
  then show ?thesis using assms pos_after_pieces [of D]
    by (simp add: at_cursor_def fragment_text_dim_def fragment_text_zero_def)
qed

lemma at_cursor_item: "at_cursor t c D R \<Longrightarrow> cursor_item c = Some (map_option fst (vec_first R))"
  using cursor_item_ok(1) [of fragment_ops fragment_text_dim c] by (cases R) (auto simp: at_cursor_def)

lemma at_cursor_end:
  assumes "at_cursor t c D R"
  shows "cursor_end fragment_text_dim c = Some (case R of [] \<Rightarrow> c_position c
    | x # _ \<Rightarrow> \<lparr>ft_visible = str_len (vis (D @ [x])), ft_deleted = str_len (del (D @ [x]))\<rparr>)"
proof -
  have i: "cursor_item_summary c = Some (map_option fs_of (vec_first (piece_items R)))"
    using cursor_item_ok(2) [of fragment_ops fragment_text_dim c] assms by (auto simp: at_cursor_def)
  show ?thesis
  proof (cases R)
    case Nil
    then show ?thesis by (simp add: cursor_end_def i)
  next
    case (Cons x R')
    then have "piece_ok x" using assms by (simp add: at_cursor_def)
    then show ?thesis unfolding cursor_end_def i at_cursor_position [OF assms] using Cons
      by (simp add: fragment_text_dim_def fs_text_of fragment_text_add_def)
  qed
qed

lemma at_cursor_next:
  assumes "at_cursor t c D (x # R)"
  obtains c' where "cursor_next fragment_text_dim c = Some c'" "at_cursor t c' (D @ [x]) R"
proof -
  have ok: "cursor_ok fragment_ops fragment_text_dim c" using assms by (simp add: at_cursor_def)
  obtain c' where c': "cursor_next fragment_text_dim c = Some c'" "cursor_ok fragment_ops fragment_text_dim c'" "can_seek c'"
    "c_did_seek c'" "c_tree c' = c_tree c" "cursor_rest c' = pending c"
    using fragment_text_dim.cursor_next_correct [OF ok] by blast
  have "c_stack c \<noteq> []" using assms by (auto simp: at_cursor_def can_seek_def cursor_rest_def split: if_splits)
  then have r: "cursor_rest c' = piece_items R" using c'(6) assms by (simp add: pending_def at_cursor_def)
  have "cursor_done c' @ piece_items R = piece_items (D @ [x]) @ piece_items R"
    using cursor_done_rest [OF c'(2)] cursor_done_rest [OF ok] r c'(5) assms by (simp add: at_cursor_def)
  then have "at_cursor t c' (D @ [x]) R" using c' r assms by (simp add: at_cursor_def)
  then show thesis using that c'(1) by blast
qed

text \<open>Seeking an offset of the visible text to its right passes the pieces that end at it or before it.\<close>

lemma visible_pass: "passes Right (visible_target n d) \<longleftrightarrow> ft_visible d \<le> n"
  by (auto simp: passes_def visible_target_def cmp_def)

lemma visible_add: "d_add fragment_text_dim d (fs_of f) = fragment_text_add d (fd_text (fragment_summary_of f))"
  by (simp add: fragment_text_dim_def)

lemma visible_never:
  "n < ft_visible d \<Longrightarrow> never_passes fragment_ops fragment_text_dim (\<lambda>d. ft_visible d \<le> n) d fs"
  by (induction fs arbitrary: d) (simp_all add: Let_def visible_add fragment_text_add_def)

lemma visible_mono: "mono_target fragment_ops fragment_text_dim (\<lambda>d. ft_visible d \<le> n) d fs"
proof (induction fs arbitrary: d)
  case (Cons f fs)
  have "ft_visible (d_add fragment_text_dim d (fs_of f)) \<le> n \<or>
      never_passes fragment_ops fragment_text_dim (\<lambda>d. ft_visible d \<le> n) (d_add fragment_text_dim d (fs_of f)) fs"
    using visible_never by (meson not_le)
  then show ?case using Cons by (simp add: Let_def)
qed simp

lemma visible_split:
  assumes "\<forall>x \<in> set R. piece_ok x"
  shows "\<exists>A B. R = A @ B \<and> seek_split fragment_ops fragment_text_dim (\<lambda>d. ft_visible d \<le> n) d (piece_items R) =
      (piece_items A, piece_items B, pos_after fragment_ops fragment_text_dim d (piece_items A)) \<and>
    (A = [] \<or> ft_visible d + str_len (vis A) \<le> n) \<and> (B = [] \<or> n < ft_visible d + str_len (vis A) + str_len (vis [hd B]))"
  using assms
proof (induction R arbitrary: d)
  case Nil
  show ?case by (simp add: pos_after_def)
next
  case (Cons x R)
  let ?e = "fragment_text_add d (fd_text (fragment_summary_of (fst x)))"
  have e: "ft_visible ?e = ft_visible d + str_len (vis [x])" using Cons.prems by (simp add: fs_text_of fragment_text_add_def)
  show ?case
  proof (cases "ft_visible ?e \<le> n")
    case False
    then have "seek_split fragment_ops fragment_text_dim (\<lambda>d. ft_visible d \<le> n) d (piece_items (x # R)) =
        (piece_items [], piece_items (x # R), pos_after fragment_ops fragment_text_dim d (piece_items []))"
      by (simp add: Let_def visible_add pos_after_def)
    moreover have "n < ft_visible d + str_len (vis []) + str_len (vis [hd (x # R)])" using False e by simp
    ultimately show ?thesis by (intro exI [of _ "[]"] exI [of _ "x # R"]) simp
  next
    case True
    have okR: "\<forall>x \<in> set R. piece_ok x" using Cons.prems by simp
    obtain A B where s: "R = A @ B"
      "seek_split fragment_ops fragment_text_dim (\<lambda>d. ft_visible d \<le> n) ?e (piece_items R) =
        (piece_items A, piece_items B, pos_after fragment_ops fragment_text_dim ?e (piece_items A))"
      "A = [] \<or> ft_visible ?e + str_len (vis A) \<le> n" "B = [] \<or> n < ft_visible ?e + str_len (vis A) + str_len (vis [hd B])"
      using Cons.IH [where d = ?e] okR by blast
    have "seek_split fragment_ops fragment_text_dim (\<lambda>d. ft_visible d \<le> n) d (piece_items (x # R)) =
        (piece_items (x # A), piece_items B, pos_after fragment_ops fragment_text_dim d (piece_items (x # A)))"
      using s(2) True by (simp add: Let_def visible_add pos_after_def)
    moreover have "str_len (vis (x # A)) = str_len (vis [x]) + str_len (vis A)" by simp
    moreover have "ft_visible d + str_len (vis (x # A)) \<le> n" using s(3) True e calculation(2) by (cases "A = []") simp_all
    moreover have "B = [] \<or> n < ft_visible d + str_len (vis (x # A)) + str_len (vis [hd B])"
      using s(4) e calculation(2) by linarith
    ultimately show ?thesis using s(1) by (intro exI [of _ "x # A"] exI [of _ B]) simp
  qed
qed

text \<open>\<open>slice\<close> up to an offset at or after the cursor.\<close>

lemma at_cursor_slice:
  assumes "cursor_ok fragment_ops fragment_text_dim c" and "can_seek c" and "c_tree c = t"
    and "cursor_done c = piece_items D" and "cursor_rest c = piece_items R" and ok: "\<forall>x \<in> set (D @ R). piece_ok x"
    and "c_position c = \<lparr>ft_visible = str_len (vis D), ft_deleted = str_len (del D)\<rparr>" and "str_len (vis D) \<le> n"
    and h: "2 * height t < STACK_CAPACITY"
  shows "\<exists>A B c' sl. R = A @ B \<and> slice fragment_ops fragment_text_dim c (visible_target n) Right = Some (c', sl) \<and>
    fragment_tree sl A \<and> height sl < STACK_CAPACITY \<and> at_cursor t c' (D @ A) B \<and>
    str_len (vis (D @ A)) \<le> n \<and> (B = [] \<or> n < str_len (vis (D @ A @ [hd B])))"
proof -
  have P: "(\<lambda>d. passes Right (visible_target n d)) = (\<lambda>d. ft_visible d \<le> n)" by (simp add: visible_pass)
  have okR: "\<forall>x \<in> set R. piece_ok x" using ok by simp
  obtain A B where s: "R = A @ B"
    "seek_split fragment_ops fragment_text_dim (\<lambda>d. ft_visible d \<le> n) (c_position c) (piece_items R) =
      (piece_items A, piece_items B, pos_after fragment_ops fragment_text_dim (c_position c) (piece_items A))"
    "A = [] \<or> ft_visible (c_position c) + str_len (vis A) \<le> n"
    "B = [] \<or> n < ft_visible (c_position c) + str_len (vis A) + str_len (vis [hd B])"
    using visible_split [of R n "c_position c"] okR by blast
  have ge: "visible_target n (c_position c) \<noteq> Less" using assms(7,8) by (simp add: visible_target_def cmp_def)
  have mono: "mono_target fragment_ops fragment_text_dim (\<lambda>d. passes Right (visible_target n d)) (c_position c) (cursor_rest c)"
    unfolding P by (rule visible_mono)
  have sp: "seek_split fragment_ops fragment_text_dim (\<lambda>d. passes Right (visible_target n d)) (c_position c) (cursor_rest c) =
      (piece_items A, piece_items B, pos_after fragment_ops fragment_text_dim (c_position c) (piece_items A))"
    unfolding P assms(5) by (rule s(2))
  obtain c' sl where c': "slice fragment_ops fragment_text_dim c (visible_target n) Right = Some (c', sl)"
    "wf_tree fragment_ops sl" "tree_items sl = piece_items A" "cursor_ok fragment_ops fragment_text_dim c'" "can_seek c'"
    "c_did_seek c'" "c_tree c' = c_tree c" "cursor_done c' = cursor_done c @ piece_items A" "cursor_rest c' = piece_items B"
    using fragment_text_dim.slice_correct [OF assms(1,2) ge mono sp] by blast
  have "height sl \<le> 2 * height t"
    using fragment_text_dim.slice_height [OF assms(1,2) mono c'(1)] assms(3) by (simp split: if_splits)
  moreover have "at_cursor t c' (D @ A) B" using c' assms(3,4) ok s(1) by (simp add: at_cursor_def)
  moreover have "str_len (vis (D @ A)) \<le> n" using s(3) assms(7,8) by (cases "A = []") simp_all
  moreover have "B = [] \<or> n < str_len (vis (D @ A @ [hd B]))" using s(4) assms(7) by (cases "B = []") (simp_all split: if_splits)
  ultimately show ?thesis using s(1) c'(1-3) ok h
    by (intro exI [of _ A] exI [of _ B] exI [of _ c'] exI [of _ sl]) (simp add: fragment_tree_def)
qed

lemma at_cursor_suffix:
  assumes "at_cursor t c D R" and "height t < STACK_CAPACITY"
  obtains c' sl where "suffix fragment_ops fragment_text_dim c = Some (c', sl)" "fragment_tree sl R" "height sl < STACK_CAPACITY"
proof -
  have c: "cursor_ok fragment_ops fragment_text_dim c" "can_seek c" "c_tree c = t" using assms(1) by (simp_all add: at_cursor_def)
  obtain c' sl where c': "suffix fragment_ops fragment_text_dim c = Some (c', sl)" "wf_tree fragment_ops sl"
    "tree_items sl = cursor_rest c"
    using fragment_text_dim.suffix_correct [OF c(1,2)] by blast
  have "height sl < STACK_CAPACITY"
    using fragment_text_dim.suffix_height [OF c(1,2) c'(1)] c(3) assms(2) by simp
  then show thesis using that c' assms(1) by (simp add: at_cursor_def fragment_tree_def)
qed

subsection \<open>What is built\<close>

definition parts ::
    "buffer_snapshot \<Rightarrow> 'd edit_vars \<Rightarrow> rust_char list \<Rightarrow> rust_char list \<Rightarrow> rust_char list \<Rightarrow> rust_char list \<Rightarrow> piece list \<Rightarrow> bool" where
  "parts S v xs ws ds es N \<longleftrightarrow>
     ropes_at (bs_visible_text S) (bs_deleted_text S) (ev_ropes v) xs ws ds es (vis N) (del N) \<and> frags_at (ev_fragments v) N"

lemma parts_max_id: "parts S v xs ws ds es N \<Longrightarrow> max_id v = last (locator_min # map piece_id N)"
  by (simp add: parts_def frags_at_def max_id_def)

lemma parts_visible_len: "parts S v xs ws ds es N \<Longrightarrow> new_visible_len v = str_len (vis N)"
  by (simp add: parts_def frags_at_def new_visible_len_def)

lemma parts_ok: "parts S v xs ws ds es N \<Longrightarrow> \<forall>x \<in> set N. piece_ok x"
  by (simp add: parts_def frags_at_def)

text \<open>A piece whose text was visible or deleted and now is what the fragment says.\<close>

lemma push_piece_at:
  assumes "parts S v xs ((if was then t else []) @ ws) ds ((if was then [] else t) @ es) N" and "piece_ok (f, t)"
  obtains B F where
    "push_piece v f was = Some (v\<lparr>ev_insertions := ev_insertions v @ [insert_new f], ev_ropes := B, ev_fragments := F\<rparr>)"
    "parts S (v\<lparr>ev_insertions := ev_insertions v @ [insert_new f], ev_ropes := B, ev_fragments := F\<rparr>)
       (xs @ (if was then t else [])) ws (ds @ (if was then [] else t)) es (N @ [(f, t)])"
proof -
  let ?V = "bs_visible_text S" and ?L = "bs_deleted_text S"
  have r: "ropes_at ?V ?L (ev_ropes v) xs ((if was then t else []) @ ws) ds ((if was then [] else t) @ es) (vis N) (del N)"
    and F0: "frags_at (ev_fragments v) N" using assms(1) by (simp_all add: parts_def)
  obtain F where F: "fb_push (ev_fragments v) f = Some F" "frags_at F (N @ [(f, t)])"
    using fb_push_at [OF F0 assms(2)] by auto
  have l: "unat (fr_len f) = str_len t" using assms(2) by (simp add: piece_ok_def)
  obtain B where B: "rb_push (ev_ropes v) (str_len t) was (fr_visible f) = Some B"
    "ropes_at ?V ?L B (xs @ (if was then t else [])) ws (ds @ (if was then [] else t)) es (vis (N @ [(f, t)])) (del (N @ [(f, t)]))"
  proof (cases was)
    case True
    then have "ropes_at ?V ?L (ev_ropes v) xs (t @ ws) ds es (vis N) (del N)" using r by simp
    then obtain B where "rb_push (ev_ropes v) (str_len t) True (fr_visible f) = Some B"
      "ropes_at ?V ?L B (xs @ t) ws ds es (if fr_visible f then vis N @ t else vis N) (if fr_visible f then del N else del N @ t)"
      by (rule rb_push_visible)
    then show thesis by (intro that [of B]) (use True in \<open>auto split: if_splits\<close>)
  next
    case False
    then have "ropes_at ?V ?L (ev_ropes v) xs ws ds (t @ es) (vis N) (del N)" using r by simp
    then obtain B where "rb_push (ev_ropes v) (str_len t) False (fr_visible f) = Some B"
      "ropes_at ?V ?L B xs ws (ds @ t) es (if fr_visible f then vis N @ t else vis N) (if fr_visible f then del N else del N @ t)"
      by (rule rb_push_deleted)
    then show thesis by (intro that [of B]) (use False in \<open>auto split: if_splits\<close>)
  qed
  show thesis
    by (rule that [where B = B and F = F]) (use B F l in \<open>simp_all add: push_piece_def rb_push_fragment_def parts_def\<close>)
qed

lemma append_pieces_at:
  assumes "parts S v xs (vis A @ ws) ds (del A @ es) N" and "fragment_tree sl A" and "height sl < STACK_CAPACITY"
  obtains B F where "rb_append (ev_ropes v) (fs_text (summary sl)) = Some B" "fb_append (ev_fragments v) sl = Some F"
    "\<And>v'. ev_ropes v' = B \<Longrightarrow> ev_fragments v' = F \<Longrightarrow> parts S v' (xs @ vis A) ws (ds @ del A) es (N @ A)"
proof -
  have r: "ropes_at (bs_visible_text S) (bs_deleted_text S) (ev_ropes v) xs (vis A @ ws) ds (del A @ es) (vis N) (del N)"
    and F0: "frags_at (ev_fragments v) N" using assms(1) by (simp_all add: parts_def)
  obtain B where B: "rb_append (ev_ropes v) (fs_text (summary sl)) = Some B"
    "ropes_at (bs_visible_text S) (bs_deleted_text S) B (xs @ vis A) ws (ds @ del A) es (vis N @ vis A) (del N @ del A)"
    using rb_append_at [OF r] fragment_tree_summary(1) [OF assms(2)] by metis
  obtain F where F: "fb_append (ev_fragments v) sl = Some F" "frags_at F (N @ A)" by (rule fb_append_at [OF F0 assms(2,3)])
  show thesis by (rule that [OF B(1) F(1)]) (use B(2) F(2) in \<open>simp add: parts_def\<close>)
qed

subsection \<open>What an edit records\<close>

text \<open>A fragment that the edit with a timestamp inserted or deleted.\<close>

definition touched :: "lamport \<Rightarrow> piece \<Rightarrow> bool" where
  "touched ts x \<longleftrightarrow> fr_timestamp (fst x) = ts \<or> ts \<in> set (fr_deletions (fst x))"

text \<open>A fragment made from another one: kept, or deleted by the edit.\<close>

definition derived_from :: "lamport \<Rightarrow> fragment \<Rightarrow> fragment \<Rightarrow> bool" where
  "derived_from ts f g \<longleftrightarrow> fr_timestamp g = fr_timestamp f \<and> fr_max_undos g = fr_max_undos f \<and>
     (fr_visible g = fr_visible f \<and> fr_deletions g = fr_deletions f \<or>
      fr_visible f \<and> \<not> fr_visible g \<and> fr_deletions g = fr_deletions f @ [ts])"

definition part_of :: "piece \<Rightarrow> piece \<Rightarrow> bool" where
  "part_of y x \<longleftrightarrow> (\<exists>p q. snd y = p @ snd x @ q \<and>
     fr_insertion_offset (fst x) = fr_insertion_offset (fst y) + of_nat (str_len p))"

definition derived :: "lamport \<Rightarrow> piece list \<Rightarrow> piece \<Rightarrow> bool" where
  "derived ts fts x \<longleftrightarrow> fr_timestamp (fst x) = ts \<and> fr_visible (fst x) \<and> fr_deletions (fst x) = [] \<or>
     (\<exists>y \<in> set fts. derived_from ts (fst y) (fst x) \<and> part_of y x)"

lemma part_of_self: "part_of x x"
  unfolding part_of_def by (intro exI [of _ "[]"]) simp

lemma derived_old: "x \<in> set fts \<Longrightarrow> derived ts fts x"
  unfolding derived_def derived_from_def using part_of_self by blast

definition recorded :: "lamport \<Rightarrow> piece list \<Rightarrow> 'd edit_vars \<Rightarrow> piece list \<Rightarrow> rust_char list \<Rightarrow> bool" where
  "recorded ts fts v N T \<longleftrightarrow>
     (\<exists>M. subseq M N \<and> ev_insertions v = map (\<lambda>x. insert_new (fst x)) M \<and> set N \<subseteq> set M \<union> set fts) \<and>
     (\<forall>x \<in> set N. derived ts fts x) \<and> ev_slices v = map (\<lambda>x. slice_from_fragment ts (fst x)) (filter (touched ts) N) \<and>
     filter (\<lambda>a. fst a = ts) (atoms N) = char_atoms ts 0 T \<and> ev_insertion_offset v = of_nat (str_len T)"

lemma recorded_piece:
  assumes "recorded ts fts v N T" and "fr_timestamp f \<noteq> ts"
    and "ev_insertions v' = ev_insertions v @ [insert_new f]" and "ev_insertion_offset v' = ev_insertion_offset v"
    and "ev_slices v' = ev_slices v @ (if ts \<in> set (fr_deletions f) then [slice_from_fragment ts f] else [])"
    and "derived ts fts (f, t)"
  shows "recorded ts fts v' (N @ [(f, t)]) T"
proof -
  obtain M where M: "subseq M N" "ev_insertions v = map (\<lambda>x. insert_new (fst x)) M" "set N \<subseteq> set M \<union> set fts"
    using assms(1) by (auto simp: recorded_def)
  have "subseq (M @ [(f, t)]) (N @ [(f, t)])" using M(1) by (simp add: list_emb_append_mono)
  moreover have "ev_insertions v' = map (\<lambda>x. insert_new (fst x)) (M @ [(f, t)])" using M(2) assms(3) by simp
  moreover have "set (N @ [(f, t)]) \<subseteq> set (M @ [(f, t)]) \<union> set fts" using M(3) by auto
  ultimately show ?thesis using assms filter_piece_atoms(1) [of ts "(f, t)"]
    unfolding recorded_def by (intro conjI exI [of _ "M @ [(f, t)]"]) (auto simp: touched_def)
qed

lemma recorded_pieces:
  assumes "recorded ts fts v N T" and "set A \<subseteq> set fts" and "\<forall>x \<in> set A. \<not> touched ts x"
    and "ev_insertions v' = ev_insertions v" "ev_insertion_offset v' = ev_insertion_offset v" "ev_slices v' = ev_slices v"
  shows "recorded ts fts v' (N @ A) T"
proof -
  obtain M where M: "subseq M N" "ev_insertions v = map (\<lambda>x. insert_new (fst x)) M" "set N \<subseteq> set M \<union> set fts"
    using assms(1) by (auto simp: recorded_def)
  have "subseq M (N @ A)" using M(1) by (rule list_emb_prefix)
  moreover have "set (N @ A) \<subseteq> set M \<union> set fts" using M(3) assms(2) by auto
  moreover have "filter (touched ts) A = []" using assms(3) by (simp add: filter_empty_conv)
  moreover have "filter (\<lambda>a. fst a = ts) (atoms A) = []" using filter_old_atoms(1) [of A ts] assms(3) by (simp add: touched_def)
  ultimately show ?thesis using assms(1,4-6) M(2) derived_old assms(2) unfolding recorded_def
    by (intro conjI exI [of _ M]) (auto dest: subsetD)
qed

subsection \<open>Between two steps\<close>

text \<open>The old pieces \<open>D\<close> are consumed, and the part \<open>p\<close> of the text of the first piece of \<open>R\<close>; \<open>N\<close> is built,
  and \<open>T\<close> is the text inserted so far.\<close>

definition consumed :: "rust_char list \<Rightarrow> piece list \<Rightarrow> bool" where
  "consumed p R \<longleftrightarrow> p = [] \<or> (\<exists>f q R'. R = (f, p @ q) # R' \<and> fr_visible f)"

definition head_atoms :: "rust_char list \<Rightarrow> piece list \<Rightarrow> (lamport \<times> u32 \<times> rust_char) list" where
  "head_atoms p R = (case R of [] \<Rightarrow> [] | x # _ \<Rightarrow> piece_atoms (fst x, p))"

definition started :: "rust_char list \<Rightarrow> piece list \<Rightarrow> piece list \<Rightarrow> piece list" where
  "started p D R = D @ (if p = [] then [] else take 1 R)"

definition mid ::
    "buffer_snapshot \<Rightarrow> lamport \<Rightarrow> piece list \<Rightarrow> 'd edit_vars \<Rightarrow> piece list \<Rightarrow> rust_char list \<Rightarrow> piece list \<Rightarrow> piece list \<Rightarrow>
      rust_char list \<Rightarrow> bool" where
  "mid S ts fts v D p R N T \<longleftrightarrow>
     fts = D @ R \<and> consumed p R \<and>
     (\<exists>ws. vis R = p @ ws \<and> parts S v (vis D @ p) ws (del D) (del R) N \<and> patched (ev_patch v) (vis D @ p) ws (vis N)) \<and>
     filter (\<lambda>a. fst a \<noteq> ts) (atoms N) = atoms D @ head_atoms p R \<and>
     recorded ts fts v N T \<and> piece_key ` set (started p D R) \<subseteq> piece_key ` set N"

lemma mid_cong:
  assumes "mid S ts fts v D p R N T" and "ev_ropes v' = ev_ropes v" "ev_fragments v' = ev_fragments v"
    "ev_insertions v' = ev_insertions v" "ev_insertion_offset v' = ev_insertion_offset v" "ev_slices v' = ev_slices v"
    "ev_patch v' = ev_patch v"
  shows "mid S ts fts v' D p R N T"
  using assms(1) unfolding mid_def parts_def recorded_def assms(2-) .

lemma mid_parts: "mid S ts fts v D p R N T \<Longrightarrow> \<exists>ws. vis R = p @ ws \<and> parts S v (vis D @ p) ws (del D) (del R) N"
  by (auto simp: mid_def)

lemma mid_recorded: "mid S ts fts v D p R N T \<Longrightarrow> recorded ts fts v N T"
  unfolding mid_def by blast

lemma piece_atoms_Nil [simp]: "piece_atoms (f, []) = []"
  by (simp add: piece_atoms_def)

lemma head_atoms_Cons [simp]: "head_atoms p (x # R) = piece_atoms (fst x, p)"
  by (simp add: head_atoms_def)

lemma head_atoms_Nil [simp]: "head_atoms [] R = []"
  by (simp add: head_atoms_def piece_atoms_def split: list.split)

lemma piece_atoms_cut:
  assumes "fr_timestamp g = fr_timestamp f" and "fr_insertion_offset g = fr_insertion_offset f + of_nat (str_len p)"
  shows "piece_atoms (f, p @ t) = piece_atoms (f, p) @ piece_atoms (g, t)"
  using assms by (simp add: piece_atoms_def char_atoms_append)

text \<open>A part of the first piece, kept or deleted.\<close>

lemma mid_cut:
  fixes v :: "'d edit_vars"
  assumes m: "mid S ts fts v D p ((f, p @ t @ q) # R) N T" and f: "fr_visible f" "fr_timestamp f \<noteq> ts" and t: "piece_ok (g, t)"
    and g: "fr_timestamp g = fr_timestamp f" "fr_insertion_offset g = fr_insertion_offset f + of_nat (str_len p)"
    and der: "derived_from ts f g" and v1: "ev_ropes v1 = ev_ropes v" "ev_fragments v1 = ev_fragments v" "ev_insertions v1 = ev_insertions v"
      "ev_insertion_offset v1 = ev_insertion_offset v"
      "ev_slices v1 = ev_slices v @ (if ts \<in> set (fr_deletions g) then [slice_from_fragment ts g] else [])"
    and pa: "\<And>ws. patched (ev_patch v) (vis D @ p) (t @ ws) (vis N) \<Longrightarrow>
      patched (ev_patch v1) (vis D @ p @ t) ws (vis N @ (if fr_visible g then t else []))"
  shows "\<exists>v'. push_piece v1 g True = Some v' \<and> mid S ts fts v' D (p @ t) ((f, p @ t @ q) # R) (N @ [(g, t)]) T \<and>
    ev_cursor v' = ev_cursor v1 \<and> ev_fragment_start v' = ev_fragment_start v1"
proof -
  let ?R = "(f, p @ t @ q) # R"
  have ws: "vis ?R = p @ t @ q @ vis R" using f by simp
  have P: "parts S v1 (vis D @ p) (t @ q @ vis R) (del D) (del ?R) N" and Q: "patched (ev_patch v) (vis D @ p) (t @ q @ vis R) (vis N)"
    using m ws v1 by (auto simp: mid_def parts_def)
  have "parts S v1 (vis D @ p) ((if True then t else []) @ q @ vis R) (del D) ((if True then [] else t) @ del ?R) N" using P by simp
  from push_piece_at [OF this t] obtain B F where
    v': "push_piece v1 g True = Some (v1\<lparr>ev_insertions := ev_insertions v1 @ [insert_new g], ev_ropes := B, ev_fragments := F\<rparr>)"
      "parts S (v1\<lparr>ev_insertions := ev_insertions v1 @ [insert_new g], ev_ropes := B, ev_fragments := F\<rparr>)
       ((vis D @ p) @ (if True then t else [])) (q @ vis R) (del D @ (if True then [] else t)) (del ?R) (N @ [(g, t)])"
    by blast
  let ?v = "v1\<lparr>ev_insertions := ev_insertions v1 @ [insert_new g], ev_ropes := B, ev_fragments := F\<rparr>"
  have "consumed (p @ t) ?R" using f by (auto simp: consumed_def)
  moreover have "patched (ev_patch ?v) (vis D @ p @ t) (q @ vis R) (vis (N @ [(g, t)]))" using pa [OF Q] by (cases "fr_visible g") simp_all
  moreover have "filter (\<lambda>a. fst a \<noteq> ts) (atoms (N @ [(g, t)])) = atoms D @ head_atoms (p @ t) ?R"
    using m piece_atoms_cut [OF g, of t] f(2) filter_piece_atoms(2) [of ts "(g, t)"] g(1)
    by (simp add: mid_def)
  moreover have "part_of (f, p @ t @ q) (g, t)" unfolding part_of_def using g(2) by (intro exI [of _ p] exI [of _ q]) simp
  then have "derived ts fts (g, t)" using m der unfolding mid_def derived_def by force
  then have "recorded ts fts ?v (N @ [(g, t)]) T"
    by (intro recorded_piece [OF mid_recorded [OF m]]) (use f(2) g(1) v1 in simp_all)
  moreover have "piece_key ` set (started (p @ t) D ?R) \<subseteq> piece_key ` set (N @ [(g, t)])"
    using m g by (cases "p = []") (auto simp: mid_def started_def)
  ultimately have "mid S ts fts ?v D (p @ t) ?R (N @ [(g, t)]) T"
    unfolding mid_def using m v'(2) ws by (intro conjI exI [of _ "q @ vis R"]) (simp_all add: mid_def)
  then show ?thesis using v'(1) by auto
qed

text \<open>An old piece that was deleted before, unchanged.\<close>

lemma mid_whole:
  fixes v :: "'d edit_vars"
  assumes m: "mid S ts fts v D [] ((f, t) # R) N T" and f: "\<not> fr_visible f" "\<not> touched ts (f, t)" and t: "piece_ok (f, t)"
  shows "\<exists>v'. push_piece v f False = Some v' \<and> mid S ts fts v' (D @ [(f, t)]) [] R (N @ [(f, t)]) T \<and>
    ev_cursor v' = ev_cursor v \<and> ev_fragment_start v' = ev_fragment_start v"
proof -
  let ?R = "(f, t) # R"
  have P: "parts S v (vis D) (vis R) (del D) (t @ del R) N" and Q: "patched (ev_patch v) (vis D) (vis R) (vis N)"
    using m f by (auto simp: mid_def)
  have "parts S v (vis D) ((if False then t else []) @ vis R) (del D) ((if False then [] else t) @ del R) N" using P by simp
  from push_piece_at [OF this t] obtain B F where
    v': "push_piece v f False = Some (v\<lparr>ev_insertions := ev_insertions v @ [insert_new f], ev_ropes := B, ev_fragments := F\<rparr>)"
      "parts S (v\<lparr>ev_insertions := ev_insertions v @ [insert_new f], ev_ropes := B, ev_fragments := F\<rparr>)
       (vis D @ (if False then t else [])) (vis R) (del D @ (if False then [] else t)) (del R) (N @ [(f, t)])"
    by blast
  let ?v = "v\<lparr>ev_insertions := ev_insertions v @ [insert_new f], ev_ropes := B, ev_fragments := F\<rparr>"
  have "derived ts fts (f, t)" using m by (intro derived_old) (simp add: mid_def)
  then have "recorded ts fts ?v (N @ [(f, t)]) T"
    by (intro recorded_piece [OF mid_recorded [OF m]]) (use f(2) in \<open>simp_all add: touched_def\<close>)
  moreover have "filter (\<lambda>a. fst a \<noteq> ts) (atoms (N @ [(f, t)])) = atoms (D @ [(f, t)]) @ head_atoms [] R"
    using m f(2) filter_piece_atoms(2) [of ts "(f, t)"] by (simp add: mid_def touched_def)
  moreover have "piece_key ` set (started [] (D @ [(f, t)]) R) \<subseteq> piece_key ` set (N @ [(f, t)])"
    using m by (auto simp: mid_def started_def)
  ultimately have "mid S ts fts ?v (D @ [(f, t)]) [] R (N @ [(f, t)]) T"
    unfolding mid_def using m v'(2) Q f(1) by (intro conjI exI [of _ "vis R"]) (simp_all add: mid_def consumed_def)
  then show ?thesis using v'(1) by auto
qed

text \<open>Old pieces, unchanged.\<close>

lemma mid_pieces:
  fixes v :: "'d edit_vars"
  assumes m: "mid S ts fts v D [] (A @ R) N T" and f: "\<forall>x \<in> set A. \<not> touched ts x"
    and sl: "fragment_tree sl A" "height sl < STACK_CAPACITY"
  shows "\<exists>B F. rb_append (ev_ropes v) (fs_text (summary sl)) = Some B \<and> fb_append (ev_fragments v) sl = Some F \<and>
    (\<forall>c st. mid S ts fts (v\<lparr>ev_cursor := c, ev_ropes := B, ev_fragments := F, ev_fragment_start := st\<rparr>) (D @ A) [] R (N @ A) T)"
proof -
  have P: "parts S v (vis D) (vis A @ vis R) (del D) (del A @ del R) N" and Q: "patched (ev_patch v) (vis D) (vis A @ vis R) (vis N)"
    using m by (auto simp: mid_def)
  obtain B F where B: "rb_append (ev_ropes v) (fs_text (summary sl)) = Some B" "fb_append (ev_fragments v) sl = Some F"
    and P': "\<And>v' :: 'd edit_vars. ev_ropes v' = B \<Longrightarrow> ev_fragments v' = F \<Longrightarrow> parts S v' (vis D @ vis A) (vis R) (del D @ del A) (del R) (N @ A)"
    using append_pieces_at [OF P sl] by metis
  have "mid S ts fts (v\<lparr>ev_cursor := c, ev_ropes := B, ev_fragments := F, ev_fragment_start := st\<rparr>) (D @ A) [] R (N @ A) T" for c st
  proof -
    let ?v = "v\<lparr>ev_cursor := c, ev_ropes := B, ev_fragments := F, ev_fragment_start := st\<rparr>"
    have "recorded ts fts ?v (N @ A) T"
      by (rule recorded_pieces [OF mid_recorded [OF m]]) (use m f in \<open>auto simp: mid_def\<close>)
    moreover have "filter (\<lambda>a. fst a \<noteq> ts) (atoms (N @ A)) = atoms (D @ A) @ head_atoms [] R"
      using m f filter_old_atoms(2) [of A ts] by (simp add: mid_def touched_def)
    moreover have "piece_key ` set (started [] (D @ A) R) \<subseteq> piece_key ` set (N @ A)" using m by (auto simp: mid_def started_def)
    moreover have "patched (ev_patch ?v) (vis D @ vis A) (vis R) (vis (N @ A))" using patched_copy [OF Q] by simp
    ultimately show ?thesis using m P' [of ?v] by (auto simp: mid_def consumed_def)
  qed
  then show ?thesis using B by blast
qed

text \<open>The first piece is consumed to its end.\<close>

lemma mid_done:
  assumes "mid S ts fts v D t ((f, t) # R) N T" and "fr_visible f" and "t \<noteq> []"
  shows "mid S ts fts v (D @ [(f, t)]) [] R N T"
  using assms by (auto simp: mid_def consumed_def started_def)

end
