(* ===== verification/LocalEdit.thy ===== *)
theory LocalEdit
  imports BufferEdit
begin

text \<open>
  \<open>apply_local_edit\<close> step by step: what each step does to the old pieces still to consume, to the pieces
  built and to the text they show.
\<close>

subsection \<open>Ids\<close>

lemma between_facts:
  assumes "lhs < rhs" and "locator_ok rhs"
  shows "lhs < locator_between lhs rhs" "locator_between lhs rhs < rhs" "locator_ok (locator_between lhs rhs)"
proof -
  have "between_words (locator_words lhs) (locator_words rhs) \<noteq> []" by (subst between_words.simps) (simp add: Let_def)
  then show "lhs < locator_between lhs rhs" "locator_between lhs rhs < rhs" "locator_ok (locator_between lhs rhs)"
    using assms between_above [of "locator_words lhs" "locator_words rhs"]
      between_below [of "locator_words lhs" "locator_words rhs"] between_last
    by (simp_all add: less_locator_def locator_between_def locator_ok_def)
qed

lemma sorted_insert_between:
  fixes i :: "'a::linorder"
  assumes "sorted_wrt (<) (xs @ ys)" and "xs \<noteq> []" and "ys \<noteq> []" and "last xs < i" and "i < hd ys"
  shows "sorted_wrt (<) ((xs @ [i]) @ ys)"
proof -
  have s: "sorted_wrt (<) xs" "sorted_wrt (<) ys" using assms(1) by (simp_all add: sorted_wrt_append)
  have "x < i" if "x \<in> set xs" for x
  proof -
    obtain as where "xs = as @ [last xs]" using assms(2) by (metis append_butlast_last_id)
    then have "sorted_wrt (<) (as @ [last xs])" "x \<in> set (as @ [last xs])" using s(1) that by auto
    then show "x < i" using assms(4) by (auto simp: sorted_wrt_append)
  qed
  moreover have "i < y" if "y \<in> set ys" for y
    using s(2) that assms(3,5) by (cases ys) auto
  ultimately show ?thesis using assms(1) by (auto simp: sorted_wrt_append)
qed

text \<open>The ids of what is built and of what is left, between the least and the greatest.\<close>

definition ids_ok :: "piece list \<Rightarrow> piece list \<Rightarrow> bool" where
  "ids_ok N R \<longleftrightarrow> sorted_wrt (<) (locator_min # map piece_id N @ map piece_id R @ [locator_max])"

definition next_id :: "piece list \<Rightarrow> locator" where
  "next_id R = hd (map piece_id R @ [locator_max])"

lemma next_id_ok: "\<forall>x \<in> set R. piece_ok x \<Longrightarrow> locator_ok (next_id R)"
  by (cases R) (auto simp: next_id_def piece_ok_def locator_max_ok)

lemma ids_between:
  assumes "ids_ok N R" and "\<forall>x \<in> set R. piece_ok x" and "i = locator_between (last (locator_min # map piece_id N)) (next_id R)"
    and "fr_id g = i"
  shows "ids_ok (N @ [(g, t)]) R" "locator_ok i"
proof -
  let ?xs = "locator_min # map piece_id N" and ?ys = "map piece_id R @ [locator_max]"
  have s: "sorted_wrt (<) (?xs @ ?ys)" using assms(1) by (simp add: ids_ok_def)
  have "last ?xs \<in> set ?xs" "hd ?ys \<in> set ?ys" using last_in_set [of ?xs] hd_in_set [of ?ys] by blast+
  then have lt: "last ?xs < next_id R" using s unfolding sorted_wrt_append next_id_def by blast
  note b = between_facts [OF lt next_id_ok [OF assms(2)]]
  show "locator_ok i" using b(3) assms(3) by simp
  have "sorted_wrt (<) ((?xs @ [i]) @ ?ys)"
    by (rule sorted_insert_between [OF s]) (use b(1,2) assms(3) in \<open>simp_all add: next_id_def\<close>)
  then show "ids_ok (N @ [(g, t)]) R" using assms(4) by (simp add: ids_ok_def)
qed

subsection \<open>Texts and their lengths\<close>

lemma text_split:
  assumes "xs @ ys = zs @ ws" and "str_len xs \<le> str_len zs"
  obtains u where "zs = xs @ u" "ys = u @ ws"
proof -
  consider u where "zs = xs @ u" "ys = u @ ws" | u where "xs = zs @ u" "ws = u @ ys"
    using assms(1) by (auto simp: append_eq_append_conv2)
  then show thesis
  proof cases
    case (2 u)
    then have "u = []" using assms(2) by simp
    then show thesis using 2 by (intro that [of "[]"]) simp_all
  qed (rule that)
qed

lemma cut_fragment_at:
  "cut_fragment f a (a + b) (a + b + c) =
    f\<lparr>fr_len := of_nat c, fr_insertion_offset := fr_insertion_offset f + of_nat b\<rparr>"
  by (simp add: cut_fragment_def)

lemma piece_ok_cut:
  assumes "piece_ok (f, p @ t @ q)" and "t \<noteq> []" and "fr_len g = of_nat (str_len t)" and "locator_ok (fr_id g)"
  shows "piece_ok (g, t)" "fr_len g \<noteq> 0"
proof -
  have "str_len t \<le> unat (fr_len f)" using assms(1) by (simp add: piece_ok_def)
  then have "str_len t < 2 ^ LENGTH(32)" using unat_bound [of "fr_len f"] by linarith
  then have u: "unat (fr_len g) = str_len t" unfolding assms(3) unat_of_nat by (simp add: take_bit_nat_eq_self)
  then show "piece_ok (g, t)" using assms by (simp add: piece_ok_def valid_def)
  show "fr_len g \<noteq> 0" using u assms(2) by auto
qed

subsection \<open>The invariant of the loop\<close>

definition edit_setup :: "buffer_snapshot \<Rightarrow> lamport \<Rightarrow> piece list \<Rightarrow> bool" where
  "edit_setup S ts fts \<longleftrightarrow> 2 * height (bs_fragments S) < STACK_CAPACITY \<and> (\<forall>x \<in> set fts. \<not> touched ts x)"

definition loop_inv ::
    "buffer_snapshot \<Rightarrow> lamport \<Rightarrow> piece list \<Rightarrow> fragment_text_summary edit_vars \<Rightarrow> piece list \<Rightarrow> rust_char list \<Rightarrow> piece list \<Rightarrow>
      piece list \<Rightarrow> rust_char list \<Rightarrow> bool" where
  "loop_inv S ts fts v D p R N T \<longleftrightarrow>
     mid S ts fts v D p R N T \<and> at_cursor (bs_fragments S) (ev_cursor v) D R \<and> ids_ok N R"

lemma loop_inv_fts: "loop_inv S ts fts v D p R N T \<Longrightarrow> fts = D @ R"
  by (simp add: loop_inv_def mid_def)

lemma loop_inv_ok: "loop_inv S ts fts v D p R N T \<Longrightarrow> \<forall>x \<in> set (D @ R). piece_ok x"
  by (simp add: loop_inv_def at_cursor_def)

lemma loop_inv_consumed:
  assumes "loop_inv S ts fts v D p R N T" and "p \<noteq> []"
  obtains f q R' where "R = (f, p @ q) # R'" "fr_visible f"
  using assms by (auto simp: loop_inv_def mid_def consumed_def)

lemma loop_inv_vis: "loop_inv S ts fts v D p R N T \<Longrightarrow> \<exists>ws. vis R = p @ ws"
  by (auto simp: loop_inv_def mid_def)

lemma loop_inv_max_id: "loop_inv S ts fts v D p R N T \<Longrightarrow> max_id v = last (locator_min # map piece_id N)"
  unfolding loop_inv_def using mid_parts parts_max_id by blast

lemma loop_inv_visible_len: "loop_inv S ts fts v D p R N T \<Longrightarrow> new_visible_len v = str_len (vis N)"
  unfolding loop_inv_def using mid_parts parts_visible_len by blast

lemma loop_inv_position: "loop_inv S ts fts v D p R N T \<Longrightarrow> ft_visible (c_position (ev_cursor v)) = str_len (vis D)"
  using at_cursor_position by (auto simp: loop_inv_def)

lemma push_edit_simps [simp]:
  "ev_cursor (push_edit v a b c d) = ev_cursor v" "ev_fragment_start (push_edit v a b c d) = ev_fragment_start v"
  "ev_ropes (push_edit v a b c d) = ev_ropes v" "ev_fragments (push_edit v a b c d) = ev_fragments v"
  "ev_insertions (push_edit v a b c d) = ev_insertions v" "ev_insertion_offset (push_edit v a b c d) = ev_insertion_offset v"
  "ev_slices (push_edit v a b c d) = ev_slices v"
  "ev_patch (push_edit v a b c d) = patch_push (ev_patch v) (Edit (Rng a b) (Rng c d))"
  by (simp_all add: push_edit_def)

subsection \<open>Consuming the rest of a fragment\<close>

lemma push_rest_at:
  assumes inv: "loop_inv S ts fts v D p R N T" and start: "ev_fragment_start v = str_len (vis D @ p)" and su: "edit_setup S ts fts"
  obtains v' D' R' N' u where "push_rest_of_fragment fragment_text_dim visible_pos v = Some v'"
    "loop_inv S ts fts v' D' [] R' N' T" "vis D' = vis D @ p @ u" "vis N' = vis N @ u"
    "str_len (vis D') \<le> str_len (vis (D @ take 1 R))"
proof (cases "p = []")
  case True
  then have "push_rest_of_fragment fragment_text_dim visible_pos v = Some v"
    using start loop_inv_position [OF inv] by (simp add: push_rest_of_fragment_def visible_pos_def)
  then show thesis by (rule that [of _ D R N "[]"]) (use inv True in simp_all)
next
  case False
  obtain f q R' where R: "R = (f, p @ q) # R'" and f: "fr_visible f" by (rule loop_inv_consumed [OF inv False])
  have at: "at_cursor (bs_fragments S) (ev_cursor v) D ((f, p @ q) # R')" using inv R by (simp add: loop_inv_def)
  have ok: "piece_ok (f, p @ q)" using loop_inv_ok [OF inv] R by simp
  have tf: "\<not> touched ts (f, p @ q)" using su loop_inv_fts [OF inv] R by (simp add: edit_setup_def)
  have m: "mid S ts fts v D p ((f, p @ q) # R') N T" using inv R by (simp add: loop_inv_def)
  have e: "cursor_end fragment_text_dim (ev_cursor v) =
      Some \<lparr>ft_visible = str_len (vis D) + str_len p + str_len q, ft_deleted = str_len (del D)\<rparr>"
    using at_cursor_end [OF at] f by simp
  have lt: "str_len (vis D) < ev_fragment_start v" using start False by (simp add: neq0_conv [symmetric])
  obtain c where c: "cursor_next fragment_text_dim (ev_cursor v) = Some c"
    "at_cursor (bs_fragments S) c (D @ [(f, p @ q)]) R'" by (rule at_cursor_next [OF at])
  show thesis
  proof (cases "q = []")
    case True
    have "push_rest_of_fragment fragment_text_dim visible_pos v = Some (v\<lparr>ev_cursor := c\<rparr>)"
      unfolding push_rest_of_fragment_def e using lt start True c(1) loop_inv_position [OF inv]
      by (simp add: visible_pos_def)
    moreover have "mid S ts fts (v\<lparr>ev_cursor := c\<rparr>) (D @ [(f, p)]) [] R' N T"
      by (rule mid_cong [OF mid_done [of S ts fts v D p f R' N T]]) (use m True f False in simp_all)
    ultimately show thesis
      by (intro that [of "v\<lparr>ev_cursor := c\<rparr>" "D @ [(f, p)]" R' N "[]"])
        (use c(2) inv R True f in \<open>simp_all add: loop_inv_def ids_ok_def sorted_wrt_append\<close>)
  next
    case q: False
    let ?g = "cut_fragment f (str_len (vis D)) (ev_fragment_start v) (str_len (vis D) + str_len p + str_len q)"
    have g: "?g = f\<lparr>fr_len := of_nat (str_len q), fr_insertion_offset := fr_insertion_offset f + of_nat (str_len p)\<rparr>"
      using start cut_fragment_at [of f "str_len (vis D)"] by simp
    have gok: "piece_ok (?g, q)"
      by (rule piece_ok_cut [of f p q "[]"]) (use ok q g in \<open>simp_all add: piece_ok_def\<close>)
    obtain v1 where v1: "push_piece v ?g True = Some v1" "mid S ts fts v1 D (p @ q) ((f, p @ q @ []) # R') (N @ [(?g, q)]) T"
      "ev_cursor v1 = ev_cursor v"
      using mid_cut [of S ts fts v D p f q "[]" R' N T ?g v] m f tf gok g patched_copy [of "ev_patch v" "vis D @ p" q _ "vis N"]
      by (auto simp: touched_def derived_from_def)
    have "push_rest_of_fragment fragment_text_dim visible_pos v = Some (v1\<lparr>ev_cursor := c\<rparr>)"
      unfolding push_rest_of_fragment_def e using lt start q c(1) loop_inv_position [OF inv] at_cursor_item [OF at] v1(1,3) f g
      by (simp add: visible_pos_def neq0_conv [symmetric])
    moreover have "mid S ts fts (v1\<lparr>ev_cursor := c\<rparr>) (D @ [(f, p @ q)]) [] R' (N @ [(?g, q)]) T"
      by (rule mid_cong [OF mid_done [of S ts fts v1 D "p @ q" f R']]) (use v1(2) f False in simp_all)
    moreover have "ids_ok (N @ [(?g, q)]) R'" using inv R g by (simp add: loop_inv_def ids_ok_def)
    ultimately show thesis
      by (intro that [of "v1\<lparr>ev_cursor := c\<rparr>" "D @ [(f, p @ q)]" R' "N @ [(?g, q)]" q])
        (use c(2) f g R in \<open>simp_all add: loop_inv_def\<close>)
  qed
qed

subsection \<open>Going to the start of an edit\<close>

lemma append_slice_at:
  assumes inv: "loop_inv S ts fts v D [] R N T" and su: "edit_setup S ts fts" and n: "str_len (vis D) \<le> n"
  shows "\<exists>A B v'. R = A @ B \<and> append_slice fragment_text_dim visible_pos (visible_target n) Right v = Some v' \<and>
    loop_inv S ts fts v' (D @ A) [] B (N @ A) T \<and> ev_fragment_start v' = str_len (vis (D @ A)) \<and>
    str_len (vis (D @ A)) \<le> n \<and> (B = [] \<or> n < str_len (vis (D @ A @ [hd B])))"
proof -
  have at: "at_cursor (bs_fragments S) (ev_cursor v) D R" using inv by (simp add: loop_inv_def)
  have h: "2 * height (bs_fragments S) < STACK_CAPACITY" using su by (simp add: edit_setup_def)
  have at': "cursor_ok fragment_ops fragment_text_dim (ev_cursor v)" "can_seek (ev_cursor v)" "c_tree (ev_cursor v) = bs_fragments S"
    "cursor_done (ev_cursor v) = piece_items D" "cursor_rest (ev_cursor v) = piece_items R" "\<forall>x \<in> set (D @ R). piece_ok x"
    using at unfolding at_cursor_def by blast+
  obtain A B c sl where s: "R = A @ B" "slice fragment_ops fragment_text_dim (ev_cursor v) (visible_target n) Right = Some (c, sl)"
    "fragment_tree sl A" "height sl < STACK_CAPACITY" "at_cursor (bs_fragments S) c (D @ A) B"
    "str_len (vis (D @ A)) \<le> n" "B = [] \<or> n < str_len (vis (D @ A @ [hd B]))"
    using at_cursor_slice [OF at' at_cursor_position [OF at] n h] by blast
  have m: "mid S ts fts v D [] (A @ B) N T" using inv s(1) by (simp add: loop_inv_def)
  have "\<forall>x \<in> set A. \<not> touched ts x" using su loop_inv_fts [OF inv] s(1) by (simp add: edit_setup_def)
  from mid_pieces [OF m this s(3,4)] obtain P F where P: "rb_append (ev_ropes v) (fs_text (summary sl)) = Some P"
    "fb_append (ev_fragments v) sl = Some F"
    and mid: "\<And>c st. mid S ts fts (v\<lparr>ev_cursor := c, ev_ropes := P, ev_fragments := F, ev_fragment_start := st\<rparr>) (D @ A) [] B (N @ A) T"
    by blast
  let ?v = "v\<lparr>ev_cursor := c, ev_ropes := P, ev_fragments := F, ev_fragment_start := str_len (vis (D @ A))\<rparr>"
  have "append_slice fragment_text_dim visible_pos (visible_target n) Right v = Some ?v"
    using s(2) P at_cursor_position [OF s(5)] by (simp add: append_slice_def visible_pos_def)
  moreover have "loop_inv S ts fts ?v (D @ A) [] B (N @ A) T"
    using mid [of "str_len (vis (D @ A))" c] s(1,5) inv by (simp add: loop_inv_def ids_ok_def)
  ultimately show ?thesis using s(1,6,7) by (intro exI [of _ A] exI [of _ B] exI [of _ ?v]) simp
qed

lemma push_prefix_at:
  assumes inv: "loop_inv S ts fts v D p R N T" and start: "ev_fragment_start v = str_len (vis D @ p)" and su: "edit_setup S ts fts"
    and u: "u = [] \<or> (\<exists>f q R'. R = (f, p @ u @ q) # R' \<and> fr_visible f)"
  obtains v' N' where "push_prefix visible_pos (str_len (vis D @ p @ u)) v = Some v'"
    "loop_inv S ts fts v' D (p @ u) R N' T" "ev_fragment_start v' = str_len (vis D @ p @ u)" "vis N' = vis N @ u"
    "ev_cursor v' = ev_cursor v"
proof (cases "u = []")
  case True
  then show thesis using start inv by (intro that [of v N]) (simp_all add: push_prefix_def)
next
  case False
  then obtain f q R' where R: "R = (f, p @ u @ q) # R'" and f: "fr_visible f" using u by blast
  have at: "at_cursor (bs_fragments S) (ev_cursor v) D ((f, p @ u @ q) # R')" using inv R by (simp add: loop_inv_def)
  have okR: "\<forall>x \<in> set R. piece_ok x" using loop_inv_ok [OF inv] by simp
  then have ok: "piece_ok (f, p @ u @ q)" using R by simp
  have tf: "\<not> touched ts (f, p @ u @ q)" using su loop_inv_fts [OF inv] R by (simp add: edit_setup_def)
  have m: "mid S ts fts v D p ((f, p @ u @ q) # R') N T" and ids: "ids_ok N R" using inv R by (simp_all add: loop_inv_def)
  let ?i = "locator_between (max_id v) (fr_id f)"
  let ?g = "f\<lparr>fr_len := of_nat (str_len u), fr_insertion_offset := fr_insertion_offset f + of_nat (str_len p), fr_id := ?i\<rparr>"
  have ie: "?i = locator_between (last (locator_min # map piece_id N)) (next_id R)"
    by (simp add: loop_inv_max_id [OF inv] next_id_def R)
  have i: "ids_ok (N @ [(?g, u)]) R" "locator_ok ?i"
    using ids_between(1) [OF ids okR ie, of ?g u] ids_between(2) [OF ids okR ie, of ?g] by simp_all
  have "piece_ok (?g, u)" by (rule piece_ok_cut [OF ok False]) (use i(2) in simp_all)
  then obtain v1 where v1: "push_piece v ?g True = Some v1"
    "mid S ts fts v1 D (p @ u) ((f, p @ u @ q) # R') (N @ [(?g, u)]) T" "ev_cursor v1 = ev_cursor v"
    using mid_cut [of S ts fts v D p f u q R' N T ?g v] m f tf patched_copy [of "ev_patch v" "vis D @ p" u _ "vis N"]
    by (auto simp: touched_def derived_from_def)
  have "cut_fragment f (str_len (vis D)) (str_len (vis D) + str_len p) (str_len (vis D) + str_len p + str_len u) =
      f\<lparr>fr_len := of_nat (str_len u), fr_insertion_offset := fr_insertion_offset f + of_nat (str_len p)\<rparr>"
    by (rule cut_fragment_at)
  then have "push_prefix visible_pos (str_len (vis D @ p @ u)) v = Some (v1\<lparr>ev_fragment_start := str_len (vis D @ p @ u)\<rparr>)"
    unfolding push_prefix_def using start False at_cursor_item [OF at] at_cursor_position [OF at] v1(1) f R
    by (simp add: visible_pos_def neq0_conv [symmetric] add.assoc)
  moreover have "mid S ts fts (v1\<lparr>ev_fragment_start := str_len (vis D @ p @ u)\<rparr>) D (p @ u) R (N @ [(?g, u)]) T"
    unfolding R by (rule mid_cong [OF v1(2)]) simp_all
  then have "loop_inv S ts fts (v1\<lparr>ev_fragment_start := str_len (vis D @ p @ u)\<rparr>) D (p @ u) R (N @ [(?g, u)]) T"
    unfolding loop_inv_def using at v1(3) i(1) R by simp
  ultimately show thesis by (rule that) (use f v1(3) in simp_all)
qed

text \<open>The first part of a step: to the offset where the edit starts.\<close>

definition goto_start :: "nat \<Rightarrow> fragment_text_summary edit_vars \<Rightarrow> fragment_text_summary edit_vars option" where
  "goto_start n v = do {
     e \<leftarrow> cursor_end fragment_text_dim (ev_cursor v);
     (if ft_visible e < n then do {
         v \<leftarrow> push_rest_of_fragment fragment_text_dim visible_pos v;
         append_slice fragment_text_dim visible_pos (visible_target n) Right v
       } else Some v)
   }"

lemma goto_start_at:
  assumes inv: "loop_inv S ts fts v D p R N T" and start: "ev_fragment_start v = str_len (vis D @ p)" and su: "edit_setup S ts fts"
    and u: "vis R = p @ u @ w"
  shows "\<exists>v' D' p' R' N' u1 u2. goto_start (str_len (vis D @ p @ u)) v = Some v' \<and> loop_inv S ts fts v' D' p' R' N' T \<and>
    ev_fragment_start v' = str_len (vis D' @ p') \<and> u = u1 @ u2 \<and> vis D' @ p' = vis D @ p @ u1 \<and> vis N' = vis N @ u1 \<and>
    (u2 = [] \<or> (\<exists>f q R''. R' = (f, p' @ u2 @ q) # R'' \<and> fr_visible f))"
proof -
  let ?n = "str_len (vis D @ p @ u)"
  have at: "at_cursor (bs_fragments S) (ev_cursor v) D R" using inv by (simp add: loop_inv_def)
  obtain e where e: "cursor_end fragment_text_dim (ev_cursor v) = Some e"
    "ft_visible e = str_len (vis (D @ take 1 R))"
    using at_cursor_end [OF at] at_cursor_position [OF at] by (cases R) auto
  show ?thesis
  proof (cases "ft_visible e < ?n")
    case False
    then have g: "goto_start ?n v = Some v" using e(1) by (simp add: goto_start_def)
    have "u = [] \<or> (\<exists>f q R''. R = (f, p @ u @ q) # R'' \<and> fr_visible f)"
    proof (cases R)
      case Nil
      then show ?thesis using u by simp
    next
      case (Cons x R'')
      obtain f t where x: "x = (f, t)" by (cases x)
      show ?thesis
      proof (cases "fr_visible f")
        case True
        have "(p @ u) @ w = t @ vis R''" using u Cons x True by simp
        moreover have "str_len (p @ u) \<le> str_len t" using False e(2) Cons x True by simp
        ultimately obtain q where "t = (p @ u) @ q" by (rule text_split)
        then show ?thesis using Cons x True by auto
      next
        case f: False
        then have "p = []" using inv Cons x by (auto simp: loop_inv_def mid_def consumed_def)
        then show ?thesis using False e(2) Cons x f by (simp add: not_less)
      qed
    qed
    then show ?thesis using g inv start
      by (intro exI [of _ v] exI [of _ D] exI [of _ p] exI [of _ R] exI [of _ N] exI [of _ "[]"] exI [of _ u]) simp
  next
    case True
    obtain v1 D1 R1 N1 r where r: "push_rest_of_fragment fragment_text_dim visible_pos v = Some v1"
      "loop_inv S ts fts v1 D1 [] R1 N1 T" "vis D1 = vis D @ p @ r" "vis N1 = vis N @ r"
      "str_len (vis D1) \<le> str_len (vis (D @ take 1 R))"
      by (rule push_rest_at [OF inv start su])
    have all: "vis D1 @ vis R1 = vis D @ p @ u @ w"
      using arg_cong [OF loop_inv_fts [OF inv], of vis] arg_cong [OF loop_inv_fts [OF r(2)], of vis] u by simp
    have len: "str_len (vis D1) \<le> ?n" using r(5) True e(2) by linarith
    obtain A B v2 where s: "R1 = A @ B" "append_slice fragment_text_dim visible_pos (visible_target ?n) Right v1 = Some v2"
      "loop_inv S ts fts v2 (D1 @ A) [] B (N1 @ A) T" "ev_fragment_start v2 = str_len (vis (D1 @ A))"
      "str_len (vis (D1 @ A)) \<le> ?n" "B = [] \<or> ?n < str_len (vis (D1 @ A @ [hd B]))"
      using append_slice_at [OF r(2) su len] by blast
    have "vis (D1 @ A) @ vis B = (vis D @ p @ u) @ w" using all s(1) by simp
    then obtain u2 where u2: "vis D @ p @ u = vis (D1 @ A) @ u2" "vis B = u2 @ w" using s(5) by (rule text_split)
    have u1: "u = (r @ vis A) @ u2" "vis (D1 @ A) = vis D @ p @ r @ vis A" using u2(1) r(3) by simp_all
    have "u2 = [] \<or> (\<exists>f q R''. B = (f, u2 @ q) # R'' \<and> fr_visible f)"
    proof (cases B)
      case Nil
      then show ?thesis using u2(2) by simp
    next
      case (Cons x R'')
      obtain f t where x: "x = (f, t)" by (cases x)
      have "?n < str_len (vis (D1 @ A)) + str_len (vis [x])" using s(6) Cons by simp
      moreover have "?n = str_len (vis (D1 @ A)) + str_len u2" unfolding u2(1) by simp
      ultimately have l: "str_len u2 < str_len (vis [x])" by linarith
      then have f: "fr_visible f" using x by (cases "fr_visible f") simp_all
      have "u2 @ w = t @ vis R''" using u2(2) Cons x f by simp
      then obtain q where "t = u2 @ q" by (rule text_split) (use l x f in simp)
      then show ?thesis using Cons x f by auto
    qed
    moreover have "goto_start ?n v = Some v2" using e(1) True r(1) s(2) by (simp add: goto_start_def)
    moreover have "vis (N1 @ A) = vis N @ r @ vis A" using r(4) by simp
    ultimately show ?thesis using s(3,4) u1
      by (intro exI [of _ v2] exI [of _ "D1 @ A"] exI [of _ "[]"] exI [of _ B] exI [of _ "N1 @ A"] exI [of _ "r @ vis A"]
          exI [of _ u2]) simp
  qed
qed

subsection \<open>Inserting\<close>

definition inserted_fragment :: "lamport \<Rightarrow> locator \<Rightarrow> u32 \<Rightarrow> rust_char list \<Rightarrow> fragment" where
  "inserted_fragment ts i off t = \<lparr>fr_id = i, fr_timestamp = ts, fr_insertion_offset = off, fr_len = of_nat (str_len t),
     fr_visible = True, fr_deletions = [], fr_max_undos = global_new\<rparr>"

lemma insertion_loop_end: "insertion_loop t ts i (length t) v = Some v"
  by (subst insertion_loop.simps) simp

lemma insertion_loop_once:
  fixes v :: "'d edit_vars"
  assumes "t \<noteq> []" and "str_len t < 2 ^ 32"
    and "fb_push (ev_fragments v) (inserted_fragment ts (locator_between (max_id v) i) (ev_insertion_offset v) t) = Some F"
  shows "insertion_loop (utf8 t) ts i 0 v =
    (let g = inserted_fragment ts (locator_between (max_id v) i) (ev_insertion_offset v) t
     in Some (v\<lparr>ev_slices := ev_slices v @ [slice_from_fragment ts g], ev_insertions := ev_insertions v @ [insert_new g],
       ev_fragments := F, ev_insertion_offset := ev_insertion_offset v + of_nat (str_len t)\<rparr>))"
proof -
  have m: "min (str_len t) MAX_INSERTION_LEN = str_len t" using assms(2) by (simp add: MAX_INSERTION_LEN_def)
  have "0 < str_len t" using assms(1) by (simp add: neq0_conv [symmetric])
  then show ?thesis
    using insertion_loop_end [of "utf8 t", unfolded length_utf8] assms(3) unfolding inserted_fragment_def
    by (subst insertion_loop.simps) (simp add: m Let_def assms(1))
qed

lemma local_insert_at:
  assumes inv: "loop_inv S ts fts v D p R N T" and start: "ev_fragment_start v = str_len (vis D @ p)"
    and t: "valid t" "str_len T + str_len t < 2 ^ 32"
  obtains v' N' where "local_insert ts (utf8 t) v = Some v'" "loop_inv S ts fts v' D p R N' (T @ t)"
    "ev_fragment_start v' = ev_fragment_start v" "vis N' = vis N @ t" "ev_cursor v' = ev_cursor v"
proof (cases "t = []")
  case True
  then show thesis using inv by (intro that [of v N]) (simp_all add: local_insert_def)
next
  case False
  have at: "at_cursor (bs_fragments S) (ev_cursor v) D R" and ids: "ids_ok N R" and m: "mid S ts fts v D p R N T"
    using inv by (simp_all add: loop_inv_def)
  obtain ws where ws: "vis R = p @ ws" and P: "parts S v (vis D @ p) ws (del D) (del R) N"
    and Q: "patched (ev_patch v) (vis D @ p) ws (vis N)"
    using m by (auto simp: mid_def)
  have okR: "\<forall>x \<in> set R. piece_ok x" using loop_inv_ok [OF inv] by simp
  let ?i = "locator_between (max_id v) (next_id R)"
  let ?g = "inserted_fragment ts ?i (ev_insertion_offset v) t"
  have i: "ids_ok (N @ [(?g, t)]) R" "locator_ok ?i"
    using ids_between(1) [OF ids okR, of ?i ?g t] ids_between(2) [OF ids okR, of ?i ?g]
    by (simp_all add: loop_inv_max_id [OF inv] inserted_fragment_def)
  have l: "str_len t < 2 ^ 32" using t(2) by linarith
  have u: "unat (of_nat (str_len t) :: u32) = str_len t" unfolding unat_of_nat using l by (simp add: take_bit_nat_eq_self)
  have gok: "piece_ok (?g, t)" using False t(1) u i(2) by (simp add: piece_ok_def inserted_fragment_def)
  obtain F where F: "fb_push (ev_fragments v) ?g = Some F" "frags_at F (N @ [(?g, t)])"
    using fb_push_at [OF _ gok, of "ev_fragments v" N] P by (auto simp: parts_def)
  have "str_len t < 2 ^ 63" using l by simp
  then obtain B where B: "rb_push_str (ev_ropes v) (utf8 t) = Some B"
    "ropes_at (bs_visible_text S) (bs_deleted_text S) B (vis D @ p) ws (del D) (del R) (vis N @ t) (del N)"
    using rb_push_str_at [OF _ t(1), of "bs_visible_text S" "bs_deleted_text S" "ev_ropes v"] P unfolding parts_def by blast
  have nid: "next_fragment_id v = Some (next_id R)"
    using at_cursor_item [OF at] by (cases R) (simp_all add: next_fragment_id_def next_id_def)
  let ?v = "push_edit (v\<lparr>ev_slices := ev_slices v @ [slice_from_fragment ts ?g], ev_insertions := ev_insertions v @ [insert_new ?g],
      ev_fragments := F, ev_insertion_offset := ev_insertion_offset v + of_nat (str_len t), ev_ropes := B\<rparr>)
      (str_len (vis D @ p)) (str_len (vis D @ p)) (str_len (vis N)) (str_len (vis N) + str_len t)"
  have "local_insert ts (utf8 t) v = Some ?v"
    using False nid insertion_loop_once [OF False l F(1)] B(1) start loop_inv_visible_len [OF inv]
    by (simp add: local_insert_def push_fragments_for_insertion_def Let_def)
  moreover have "parts S ?v (vis D @ p) ws (del D) (del R) (N @ [(?g, t)])"
    using B(2) F(2) by (simp add: parts_def inserted_fragment_def)
  moreover have "patched (ev_patch ?v) (vis D @ p) ws (vis (N @ [(?g, t)]))"
    using patched_insert [OF Q, of t] by (simp add: inserted_fragment_def)
  moreover have "recorded ts fts ?v (N @ [(?g, t)]) (T @ t)"
  proof -
    obtain M where M: "subseq M N" "ev_insertions v = map (\<lambda>x. insert_new (fst x)) M" "set N \<subseteq> set M \<union> set fts"
      using mid_recorded [OF m] by (auto simp: recorded_def)
    have "subseq (M @ [(?g, t)]) (N @ [(?g, t)])" using M(1) by (simp add: list_emb_append_mono)
    moreover have "set (N @ [(?g, t)]) \<subseteq> set (M @ [(?g, t)]) \<union> set fts" using M(3) by auto
    moreover have "\<forall>x \<in> set (N @ [(?g, t)]). derived ts fts x"
      using mid_recorded [OF m] by (auto simp: recorded_def derived_def inserted_fragment_def)
    moreover have "touched ts (?g, t)" by (simp add: touched_def inserted_fragment_def)
    moreover have "piece_atoms (?g, t) = char_atoms ts (ev_insertion_offset v) t" by (simp add: piece_atoms_def inserted_fragment_def)
    moreover have "filter (\<lambda>a. fst a = ts) (piece_atoms (?g, t)) = piece_atoms (?g, t)"
      using filter_piece_atoms(1) [of ts "(?g, t)"] by (simp add: inserted_fragment_def)
    ultimately show ?thesis using mid_recorded [OF m] M(2) unfolding recorded_def
      by (intro conjI exI [of _ "M @ [(?g, t)]"]) (simp_all add: char_atoms_append)
  qed
  moreover have "filter (\<lambda>a. fst a \<noteq> ts) (atoms (N @ [(?g, t)])) = atoms D @ head_atoms p R"
    using m filter_piece_atoms(2) [of ts "(?g, t)"] by (simp add: mid_def inserted_fragment_def)
  moreover have "piece_key ` set (started p D R) \<subseteq> piece_key ` set (N @ [(?g, t)])" using m by (auto simp: mid_def)
  ultimately have "local_insert ts (utf8 t) v = Some ?v" "loop_inv S ts fts ?v D p R (N @ [(?g, t)]) (T @ t)"
    using m ws at i(1) by (auto simp: loop_inv_def mid_def)
  then show thesis by (rule that) (simp_all add: inserted_fragment_def)
qed

subsection \<open>Deleting\<close>

definition deleted_fragment :: "lamport \<Rightarrow> fragment \<Rightarrow> locator \<Rightarrow> nat \<Rightarrow> nat \<Rightarrow> fragment" where
  "deleted_fragment ts f i off len = f\<lparr>fr_id := i, fr_len := of_nat len, fr_insertion_offset := fr_insertion_offset f + of_nat off,
     fr_deletions := fr_deletions f @ [ts], fr_visible := False\<rparr>"

lemma deleted_fragment_simps [simp]: "fr_len (deleted_fragment ts f i off len) = of_nat len" "\<not> fr_visible (deleted_fragment ts f i off len)"
  by (simp_all add: deleted_fragment_def)

lemma deleted_fragment_eq:
  "(cut_fragment f a (a + b) (a + b + c))\<lparr>fr_id := i, fr_deletions := fr_deletions f @ [ts], fr_visible := False\<rparr> =
    deleted_fragment ts f i b c"
  by (simp add: cut_fragment_def deleted_fragment_def)

lemma delete_cut:
  assumes inv: "loop_inv S ts fts v D p R N T" and su: "edit_setup S ts fts" and R: "R = (f, p @ t @ q) # R'" and f: "fr_visible f"
    and t: "t \<noteq> []"
  defines "g \<equiv> deleted_fragment ts f (locator_between (max_id v) (fr_id f)) (str_len p) (str_len t)"
  shows "fr_len g \<noteq> 0" and "\<exists>v'. push_piece ((push_edit v (str_len (vis D @ p)) (str_len (vis D @ p) + str_len t) (new_visible_len v) (new_visible_len v))
      \<lparr>ev_slices := ev_slices v @ [slice_from_fragment ts g]\<rparr>) g True = Some v' \<and>
    mid S ts fts v' D (p @ t) R (N @ [(g, t)]) T \<and> ids_ok (N @ [(g, t)]) R \<and> ev_cursor v' = ev_cursor v"
proof -
  let ?v = "(push_edit v (str_len (vis D @ p)) (str_len (vis D @ p) + str_len t) (new_visible_len v) (new_visible_len v))
      \<lparr>ev_slices := ev_slices v @ [slice_from_fragment ts g]\<rparr>"
  have okR: "\<forall>x \<in> set R. piece_ok x" using loop_inv_ok [OF inv] by simp
  then have ok: "piece_ok (f, p @ t @ q)" using R by simp
  have tf: "\<not> touched ts (f, p @ t @ q)" using su loop_inv_fts [OF inv] R by (simp add: edit_setup_def)
  have m: "mid S ts fts v D p ((f, p @ t @ q) # R') N T" and ids: "ids_ok N R" using inv R by (simp_all add: loop_inv_def)
  have ie: "fr_id g = locator_between (last (locator_min # map piece_id N)) (next_id R)"
    by (simp add: g_def deleted_fragment_def loop_inv_max_id [OF inv] next_id_def R)
  have i: "ids_ok (N @ [(g, t)]) R" "locator_ok (fr_id g)"
    using ids_between(1) [OF ids okR ie refl, of t] ids_between(2) [OF ids okR ie refl] by simp_all
  have gok: "piece_ok (g, t)" and len: "fr_len g \<noteq> 0"
    by (rule piece_ok_cut [OF ok t]; use i(2) in \<open>simp add: g_def deleted_fragment_def\<close>)+
  show "fr_len g \<noteq> 0" by (rule len)
  have pa: "patched (ev_patch ?v) (vis D @ p @ t) ws (vis N @ (if fr_visible g then t else []))"
    if "patched (ev_patch v) (vis D @ p) (t @ ws) (vis N)" for ws
    using patched_delete [OF that] loop_inv_visible_len [OF inv] by (simp add: g_def)
  have "\<exists>v'. push_piece ?v g True = Some v' \<and> mid S ts fts v' D (p @ t) ((f, p @ t @ q) # R') (N @ [(g, t)]) T \<and>
    ev_cursor v' = ev_cursor ?v \<and> ev_fragment_start v' = ev_fragment_start ?v"
    by (rule mid_cut [OF m f _ gok _ _ _ _ _ _ _ _ pa])
      (use tf f in \<open>simp_all add: touched_def g_def deleted_fragment_def derived_from_def\<close>)
  then show "\<exists>v'. push_piece ?v g True = Some v' \<and>
    mid S ts fts v' D (p @ t) R (N @ [(g, t)]) T \<and> ids_ok (N @ [(g, t)]) R \<and> ev_cursor v' = ev_cursor v"
    using i(1) R by auto
qed

text \<open>What follows the marking of the intersection.\<close>

definition delete_next :: "nat \<Rightarrow> nat \<Rightarrow> fragment_text_summary edit_vars \<Rightarrow> fragment_text_summary edit_vars option" where
  "delete_next fragment_end range_end v =
     (if fragment_end \<le> range_end then do {
        c \<leftarrow> cursor_next fragment_text_dim (ev_cursor v);
        Some (v\<lparr>ev_cursor := c\<rparr>)
      } else Some v)"

lemma delete_step_visible:
  assumes at: "at_cursor t (ev_cursor v) D ((f, tx) # R)" and f: "fr_visible f" and a: "ev_fragment_start v = a + b" "a = str_len (vis D)"
    and c: "min n (str_len (vis D) + str_len tx) = a + b + c"
  shows "local_delete_step ts n v = (let g = deleted_fragment ts f (locator_between (max_id v) (fr_id f)) b c in do {
     v \<leftarrow> (if 0 < fr_len g then do {
         v \<leftarrow> push_piece ((push_edit v (a + b) (a + b + c) (new_visible_len v) (new_visible_len v))
               \<lparr>ev_slices := ev_slices v @ [slice_from_fragment ts g]\<rparr>) g True;
         Some (v\<lparr>ev_fragment_start := a + b + c\<rparr>)
       } else Some v);
     delete_next (a + str_len tx) n v })"
proof -
  have e: "cursor_end fragment_text_dim (ev_cursor v) = Some \<lparr>ft_visible = a + str_len tx, ft_deleted = str_len (del D)\<rparr>"
    using at_cursor_end [OF at] f a(2) by simp
  have g: "(cut_fragment f a (a + b) (a + b + c))\<lparr>fr_id := locator_between (max_id v) (fr_id (cut_fragment f a (a + b) (a + b + c))),
      fr_deletions := fr_deletions (cut_fragment f a (a + b) (a + b + c)) @ [ts], fr_visible := False\<rparr> =
      deleted_fragment ts f (locator_between (max_id v) (fr_id f)) b c"
    by (simp add: cut_fragment_def deleted_fragment_def)
  have i: "cursor_item (ev_cursor v) = Some (Some f)" using at_cursor_item [OF at] by simp
  have pos: "ft_visible (c_position (ev_cursor v)) = a" using at_cursor_position [OF at] a(2) by simp
  show ?thesis
    unfolding local_delete_step_def delete_next_def
    by (simp add: i e pos a(1) c [folded a(2)] f g Let_def del: cut_fragment_at)
qed

lemma loop_inv_next:
  assumes m: "mid S ts fts v (D @ [x]) [] R N T" and at: "at_cursor (bs_fragments S) (ev_cursor v) D (x # R)"
    and ids: "ids_ok N (x # R)" and st: "ev_fragment_start v = str_len (vis (D @ [x]))" "str_len (vis (D @ [x])) \<le> n" "m = str_len (vis (D @ [x]))"
  obtains v' where "delete_next m n v = Some v'" "loop_inv S ts fts v' (D @ [x]) [] R N T" "ev_fragment_start v' = str_len (vis (D @ [x]))"
proof -
  obtain c where c: "cursor_next fragment_text_dim (ev_cursor v) = Some c" "at_cursor (bs_fragments S) c (D @ [x]) R"
    by (rule at_cursor_next [OF at])
  have "mid S ts fts (v\<lparr>ev_cursor := c\<rparr>) (D @ [x]) [] R N T" by (rule mid_cong [OF m]) simp_all
  moreover have "ids_ok N R" using ids by (auto simp: ids_ok_def sorted_wrt_append)
  ultimately show thesis using c st
    by (intro that [of "v\<lparr>ev_cursor := c\<rparr>"]) (simp_all add: delete_next_def loop_inv_def)
qed

lemma local_delete_step_at:
  assumes inv: "loop_inv S ts fts v D p R N T" and start: "ev_fragment_start v = str_len (vis D @ p)" and su: "edit_setup S ts fts"
    and d: "vis R = p @ d @ w" "d \<noteq> []"
  shows "\<exists>v' D' p' R' N' d1 d2. local_delete_step ts (str_len (vis D @ p @ d)) v = Some v' \<and> loop_inv S ts fts v' D' p' R' N' T \<and>
    ev_fragment_start v' = str_len (vis D' @ p') \<and> d = d1 @ d2 \<and> vis D' @ p' = vis D @ p @ d1 \<and> vis N' = vis N \<and>
    (length R' < length R \<or> d2 = [])"
proof -
  let ?n = "str_len (vis D @ p @ d)"
  obtain x R1 where x: "R = x # R1" using d by (cases R) auto
  obtain f tx where ft: "x = (f, tx)" by (cases x)
  have at: "at_cursor (bs_fragments S) (ev_cursor v) D ((f, tx) # R1)" using inv x ft by (simp add: loop_inv_def)
  have ok: "piece_ok (f, tx)" using loop_inv_ok [OF inv] x ft by simp
  have m: "mid S ts fts v D p ((f, tx) # R1) N T" and ids: "ids_ok N ((f, tx) # R1)" using inv x ft by (simp_all add: loop_inv_def)
  have tf: "\<not> touched ts (f, tx)" using su loop_inv_fts [OF inv] x ft by (simp add: edit_setup_def)
  show ?thesis
  proof (cases "fr_visible f")
    case False
    then have p: "p = []" using m by (auto simp: mid_def consumed_def)
    have len: "0 < fr_len f" using ok by (auto simp: piece_ok_def word_gt_0)
    obtain v1 where v1: "push_piece v f False = Some v1" "mid S ts fts v1 (D @ [(f, tx)]) [] R1 (N @ [(f, tx)]) T"
      "ev_cursor v1 = ev_cursor v" "ev_fragment_start v1 = ev_fragment_start v"
      using mid_whole [OF m [unfolded p] False tf ok] by blast
    have e: "cursor_end fragment_text_dim (ev_cursor v) =
        Some \<lparr>ft_visible = str_len (vis D), ft_deleted = str_len (del D) + str_len tx\<rparr>"
      using at_cursor_end [OF at] False by simp
    obtain c where c: "cursor_next fragment_text_dim (ev_cursor v) = Some c" "at_cursor (bs_fragments S) c (D @ [(f, tx)]) R1"
      by (rule at_cursor_next [OF at])
    let ?v = "v1\<lparr>ev_fragment_start := str_len (vis D), ev_cursor := c\<rparr>"
    have "local_delete_step ts ?n v = Some ?v"
      unfolding local_delete_step_def using at_cursor_item [OF at] e len False v1(1,3) c(1)
      by (simp add: Let_def min_absorb2)
    moreover have "mid S ts fts ?v (D @ [(f, tx)]) [] R1 (N @ [(f, tx)]) T" by (rule mid_cong [OF v1(2)]) simp_all
    moreover have "ids_ok (N @ [(f, tx)]) R1" using ids by (simp add: ids_ok_def)
    ultimately show ?thesis using c(2) p x False
      by (intro exI [of _ ?v] exI [of _ "D @ [(f, tx)]"] exI [of _ "[]"] exI [of _ R1] exI [of _ "N @ [(f, tx)]"] exI [of _ "[]"]
          exI [of _ d]) (simp add: loop_inv_def)
  next
    case f: True
    obtain q where q: "tx = p @ q" using m f by (auto simp: mid_def consumed_def)
    have dw: "d @ w = q @ vis R1" using d(1) x ft f q by simp
    note step = delete_step_visible [OF at f, where n = ?n and a = "str_len (vis D)" and b = "str_len p" and ts = ts]
    show ?thesis
    proof (cases "q = []")
      case True
      then have pne: "p \<noteq> []" using ok q by (simp add: piece_ok_def)
      have m1: "mid S ts fts v (D @ [(f, tx)]) [] R1 N T" using mid_done [of S ts fts v D p f R1 N T] m f pne q True by simp
      obtain v' where v': "delete_next (str_len (vis D) + str_len tx) ?n v = Some v'"
        "loop_inv S ts fts v' (D @ [(f, tx)]) [] R1 N T" "ev_fragment_start v' = str_len (vis (D @ [(f, tx)]))"
        by (rule loop_inv_next [OF m1 at ids, of ?n]) (use start f q True in auto)
      have "local_delete_step ts ?n v = Some v'"
        using step [of 0] start q True v'(1) by (simp add: Let_def)
      then show ?thesis using v'(2,3) f q True x
        by (intro exI [of _ v'] exI [of _ "D @ [(f, tx)]"] exI [of _ "[]"] exI [of _ R1] exI [of _ N] exI [of _ "[]"] exI [of _ d]) simp
    next
      case qne: False
      show ?thesis
      proof (cases "str_len d < str_len q")
        case True
        obtain q' where q': "q = d @ q'" using text_split [OF dw] True by (metis less_imp_le)
        have R: "R = (f, p @ d @ q') # R1" using x ft q q' by simp
        have q'ne: "q' \<noteq> []" using q' True by auto
        let ?g = "deleted_fragment ts f (locator_between (max_id v) (fr_id f)) (str_len p) (str_len d)"
        obtain v1 where v1: "push_piece ((push_edit v (str_len (vis D @ p)) (str_len (vis D @ p) + str_len d) (new_visible_len v) (new_visible_len v))
            \<lparr>ev_slices := ev_slices v @ [slice_from_fragment ts ?g]\<rparr>) ?g True = Some v1"
          "mid S ts fts v1 D (p @ d) R (N @ [(?g, d)]) T" "ids_ok (N @ [(?g, d)]) R" "ev_cursor v1 = ev_cursor v"
          using delete_cut(2) [OF inv su R f d(2)] by blast
        let ?v = "v1\<lparr>ev_fragment_start := ?n\<rparr>"
        have "fr_len ?g \<noteq> 0" by (rule delete_cut(1) [OF inv su R f d(2)])
        then have "local_delete_step ts ?n v = Some ?v"
          using step [of "str_len d"] start q q' q'ne v1(1) by (simp add: Let_def delete_next_def word_gt_0 add.assoc)
        moreover have "mid S ts fts ?v D (p @ d) R (N @ [(?g, d)]) T" by (rule mid_cong [OF v1(2)]) simp_all
        ultimately show ?thesis using v1(3,4) inv
          by (intro exI [of _ ?v] exI [of _ D] exI [of _ "p @ d"] exI [of _ R] exI [of _ "N @ [(?g, d)]"] exI [of _ d] exI [of _ "[]"])
            (simp add: loop_inv_def)
      next
        case False
        obtain d2 where d2: "d = q @ d2" by (rule text_split [OF dw [symmetric]]) (use False in simp)
        have R: "R = (f, p @ q @ []) # R1" using x ft q by simp
        let ?g = "deleted_fragment ts f (locator_between (max_id v) (fr_id f)) (str_len p) (str_len q)"
        obtain v1 where v1: "push_piece ((push_edit v (str_len (vis D @ p)) (str_len (vis D @ p) + str_len q) (new_visible_len v) (new_visible_len v))
            \<lparr>ev_slices := ev_slices v @ [slice_from_fragment ts ?g]\<rparr>) ?g True = Some v1"
          "mid S ts fts v1 D (p @ q) R (N @ [(?g, q)]) T" "ids_ok (N @ [(?g, q)]) R" "ev_cursor v1 = ev_cursor v"
          using delete_cut(2) [OF inv su R f qne] by blast
        let ?v = "v1\<lparr>ev_fragment_start := str_len (vis D) + str_len p + str_len q\<rparr>"
        have m1: "mid S ts fts v1 (D @ [(f, tx)]) [] R1 (N @ [(?g, q)]) T"
          using mid_done [of S ts fts v1 D "p @ q" f R1] v1(2) R f qne q by simp
        have m2: "mid S ts fts ?v (D @ [(f, tx)]) [] R1 (N @ [(?g, q)]) T" by (rule mid_cong [OF m1]) simp_all
        have at2: "at_cursor (bs_fragments S) (ev_cursor ?v) D ((f, tx) # R1)" using at v1(4) by simp
        have ids2: "ids_ok (N @ [(?g, q)]) ((f, tx) # R1)" using v1(3) x ft by simp
        obtain v' where v': "delete_next (str_len (vis D) + str_len tx) ?n ?v = Some v'"
          "loop_inv S ts fts v' (D @ [(f, tx)]) [] R1 (N @ [(?g, q)]) T" "ev_fragment_start v' = str_len (vis (D @ [(f, tx)]))"
          by (rule loop_inv_next [OF m2 at2 ids2, of ?n]) (use f q d2 in auto)
        have "fr_len ?g \<noteq> 0" by (rule delete_cut(1) [OF inv su R f qne])
        then have "local_delete_step ts ?n v = Some v'"
          using step [of "str_len q"] start q d2 v1(1) v'(1) by (simp add: Let_def word_gt_0 add.assoc)
        then show ?thesis using v'(2,3) f q d2 x
          by (intro exI [of _ v'] exI [of _ "D @ [(f, tx)]"] exI [of _ "[]"] exI [of _ R1] exI [of _ "N @ [(?g, q)]"] exI [of _ q]
              exI [of _ d2]) simp
      qed
    qed
  qed
qed

lemma local_delete_loop_at:
  assumes "loop_inv S ts fts v D p R N T" and "ev_fragment_start v = str_len (vis D @ p)" and su: "edit_setup S ts fts"
    and "vis R = p @ d @ w"
  shows "\<exists>v' D' p' R' N'. local_delete_loop ts (str_len (vis D @ p @ d)) v = Some v' \<and> loop_inv S ts fts v' D' p' R' N' T \<and>
    ev_fragment_start v' = str_len (vis D' @ p') \<and> vis D' @ p' = vis D @ p @ d \<and> vis N' = vis N"
  using assms(1,2,4)
proof (induction "length R" arbitrary: v D p R N d w rule: less_induct)
  case less
  note inv = less.prems(1) and start = less.prems(2)
  show ?case
  proof (cases "d = []")
    case True
    then have "local_delete_loop ts (str_len (vis D @ p @ d)) v = Some v"
      using start by (subst local_delete_loop.simps) simp
    then show ?thesis using inv start True by (intro exI [of _ v] exI [of _ D] exI [of _ p] exI [of _ R] exI [of _ N]) simp
  next
    case False
    obtain v1 D1 p1 R1 N1 d1 d2 where s: "local_delete_step ts (str_len (vis D @ p @ d)) v = Some v1"
      "loop_inv S ts fts v1 D1 p1 R1 N1 T" "ev_fragment_start v1 = str_len (vis D1 @ p1)" "d = d1 @ d2"
      "vis D1 @ p1 = vis D @ p @ d1" "vis N1 = vis N" "length R1 < length R \<or> d2 = []"
      using local_delete_step_at [OF inv start su less.prems(3) False] by blast
    have n: "vis D @ p @ d = vis D1 @ p1 @ d2" using s(4,5) by (metis append.assoc)
    have "0 < str_len d" using False by (simp add: neq0_conv [symmetric])
    then have "ev_fragment_start v < str_len (vis D @ p @ d)" using start by simp
    then have loop: "local_delete_loop ts (str_len (vis D @ p @ d)) v = local_delete_loop ts (str_len (vis D1 @ p1 @ d2)) v1"
      using s(1) unfolding n by (subst local_delete_loop.simps) simp
    have "vis D1 @ vis R1 = vis D @ vis R"
      using arg_cong [OF loop_inv_fts [OF inv], of vis] arg_cong [OF loop_inv_fts [OF s(2)], of vis] by simp
    then have w: "vis R1 = p1 @ d2 @ w"
      using less.prems(3) loop_inv_vis [OF s(2)] s(4,5) by (metis append.assoc same_append_eq)
    show ?thesis
    proof (cases "d2 = []")
      case True
      have "local_delete_loop ts (str_len (vis D1 @ p1 @ d2)) v1 = Some v1"
        using s(3) True by (subst local_delete_loop.simps) simp
      then show ?thesis using loop s True
        by (intro exI [of _ v1] exI [of _ D1] exI [of _ p1] exI [of _ R1] exI [of _ N1]) simp
    next
      case False
      then have "length R1 < length R" using s(7) by blast
      from less.hyps [OF this s(2,3) w] show ?thesis unfolding loop unfolding n s(6) [symmetric] by simp
    qed
  qed
qed

subsection \<open>One edit and all of them\<close>

lemma local_edit_step_alt:
  "local_edit_step X ts v (range_start, range_end, raw) = do {
     v \<leftarrow> goto_start range_start v;
     let full_range_start = range_start + ft_deleted (c_position (ev_cursor v));
     v \<leftarrow> push_prefix visible_pos range_start v;
     v \<leftarrow> local_insert ts (normalize X raw) v;
     v \<leftarrow> local_delete_loop ts range_end v;
     let full_range_end = range_end + ft_deleted (c_position (ev_cursor v));
     Some (v, (full_range_start, full_range_end), normalize X raw) }"
  by (cases "cursor_end fragment_text_dim (ev_cursor v)") (simp_all add: local_edit_step_def goto_start_def Let_def)

lemma local_edit_step_at:
  assumes inv: "loop_inv S ts fts v D p R N T" and start: "ev_fragment_start v = str_len (vis D @ p)" and su: "edit_setup S ts fts"
    and w: "vis R = p @ g @ d @ w" and t: "normalize X raw = utf8 t" "valid t" "str_len T + str_len t < 2 ^ 32"
  shows "\<exists>v' D' p' R' N' r. local_edit_step X ts v (str_len (vis D @ p @ g), str_len (vis D @ p @ g @ d), raw) = Some (v', r, utf8 t) \<and>
    loop_inv S ts fts v' D' p' R' N' (T @ t) \<and> ev_fragment_start v' = str_len (vis D' @ p') \<and>
    vis D' @ p' = vis D @ p @ g @ d \<and> vis N' = vis N @ g @ t"
proof -
  obtain v1 D1 p1 R1 N1 u1 u2 where 1: "goto_start (str_len (vis D @ p @ g)) v = Some v1" "loop_inv S ts fts v1 D1 p1 R1 N1 T"
    "ev_fragment_start v1 = str_len (vis D1 @ p1)" "g = u1 @ u2" "vis D1 @ p1 = vis D @ p @ u1" "vis N1 = vis N @ u1"
    "u2 = [] \<or> (\<exists>f q R''. R1 = (f, p1 @ u2 @ q) # R'' \<and> fr_visible f)"
    using goto_start_at [OF inv start su w] by blast
  have n: "vis D @ p @ g = vis D1 @ p1 @ u2" using 1(4,5) by (metis append.assoc)
  obtain v2 N2 where 2: "push_prefix visible_pos (str_len (vis D1 @ p1 @ u2)) v1 = Some v2" "loop_inv S ts fts v2 D1 (p1 @ u2) R1 N2 T"
    "ev_fragment_start v2 = str_len (vis D1 @ p1 @ u2)" "vis N2 = vis N1 @ u2"
    by (rule push_prefix_at [OF 1(2,3) su 1(7)])
  obtain v3 N3 where 3: "local_insert ts (utf8 t) v2 = Some v3" "loop_inv S ts fts v3 D1 (p1 @ u2) R1 N3 (T @ t)"
    "ev_fragment_start v3 = ev_fragment_start v2" "vis N3 = vis N2 @ t"
    by (rule local_insert_at [OF 2(2,3) t(2,3)])
  have "vis D1 @ vis R1 = vis D @ vis R"
    using arg_cong [OF loop_inv_fts [OF inv], of vis] arg_cong [OF loop_inv_fts [OF 1(2)], of vis] by simp
  then have w1: "vis R1 = (p1 @ u2) @ d @ w" using w n loop_inv_vis [OF 2(2)] by (metis append.assoc same_append_eq)
  have s3: "ev_fragment_start v3 = str_len (vis D1 @ (p1 @ u2))" using 2(3) 3(3) by simp
  obtain v4 D4 p4 R4 N4 where 4: "local_delete_loop ts (str_len (vis D1 @ (p1 @ u2) @ d)) v3 = Some v4"
    "loop_inv S ts fts v4 D4 p4 R4 N4 (T @ t)" "ev_fragment_start v4 = str_len (vis D4 @ p4)"
    "vis D4 @ p4 = vis D1 @ (p1 @ u2) @ d" "vis N4 = vis N3"
    using local_delete_loop_at [OF 3(2) s3 su w1] by blast
  have e: "vis D @ p @ g @ d = vis D1 @ (p1 @ u2) @ d" using n by (metis append.assoc)
  have "\<exists>r. local_edit_step X ts v (str_len (vis D @ p @ g), str_len (vis D @ p @ g @ d), raw) = Some (v4, r, utf8 t)"
    unfolding local_edit_step_alt 1(1) bind.bind_lunit Let_def unfolding n e 2(1) bind.bind_lunit t(1) 3(1) 4(1) by simp
  moreover have "vis N4 = vis N @ g @ t" using 1(4,6) 2(4) 3(4) 4(5) by simp
  moreover have "vis D4 @ p4 = vis D @ p @ g @ d" using 4(4) e by simp
  ultimately show ?thesis using 4(2,3) by blast
qed

text \<open>Edits as texts: what is kept in front of each, what it deletes, the new text as given and normalized.\<close>

type_synonym text_change = "rust_char list \<times> rust_char list \<times> str \<times> rust_char list"

fun edit_args :: "nat \<Rightarrow> text_change list \<Rightarrow> (nat \<times> nat \<times> str) list" where
  "edit_args n [] = []"
| "edit_args n ((g, d, raw, t) # es) =
     (n + str_len g, n + str_len g + str_len d, raw) # edit_args (n + str_len g + str_len d) es"

definition text_before :: "text_change list \<Rightarrow> rust_char list" where
  "text_before es = concat (map (\<lambda>(g, d, raw, t). g @ d) es)"

definition text_after :: "text_change list \<Rightarrow> rust_char list" where
  "text_after es = concat (map (\<lambda>(g, d, raw, t). g @ t) es)"

definition text_new :: "text_change list \<Rightarrow> rust_char list" where
  "text_new es = concat (map (\<lambda>(g, d, raw, t). t) es)"

definition changes_ok :: "externals \<Rightarrow> text_change list \<Rightarrow> bool" where
  "changes_ok X es \<longleftrightarrow> (\<forall>(g, d, raw, t) \<in> set es. normalize X raw = utf8 t \<and> valid t) \<and> str_len (text_new es) < 2 ^ 32"

lemma text_simps [simp]:
  "text_before [] = []" "text_before ((g, d, raw, t) # es) = g @ d @ text_before es"
  "text_after [] = []" "text_after ((g, d, raw, t) # es) = g @ t @ text_after es"
  "text_new [] = []" "text_new ((g, d, raw, t) # es) = t @ text_new es"
  by (simp_all add: text_before_def text_after_def text_new_def)

lemma local_edit_loop_at:
  assumes "loop_inv S ts fts v D p R N T" and "ev_fragment_start v = str_len (vis D @ p)" and su: "edit_setup S ts fts"
    and "vis R = p @ text_before es @ w" and "\<forall>(g, d, raw, t) \<in> set es. normalize X raw = utf8 t \<and> valid t"
    and "str_len T + str_len (text_new es) < 2 ^ 32"
  shows "\<exists>v' D' p' R' N' rs. local_edit_loop X ts v (edit_args (str_len (vis D @ p)) es) =
      Some (v', rs, map (\<lambda>(g, d, raw, t). utf8 t) es) \<and>
    loop_inv S ts fts v' D' p' R' N' (T @ text_new es) \<and> ev_fragment_start v' = str_len (vis D' @ p') \<and>
    vis D' @ p' = vis D @ p @ text_before es \<and> vis N' = vis N @ text_after es"
  using assms(1,2,4-)
proof (induction es arbitrary: v D p R N T)
  case Nil
  then show ?case by auto
next
  case (Cons ch es)
  obtain g d raw t where ch: "ch = (g, d, raw, t)" by (cases ch)
  have w: "vis R = p @ g @ d @ text_before es @ w" using Cons.prems(3) ch by simp
  have t: "normalize X raw = utf8 t" "valid t" "str_len T + str_len t < 2 ^ 32" using Cons.prems(4,5) ch by auto
  obtain v1 D1 p1 R1 N1 r where 1:
    "local_edit_step X ts v (str_len (vis D @ p @ g), str_len (vis D @ p @ g @ d), raw) = Some (v1, r, utf8 t)"
    "loop_inv S ts fts v1 D1 p1 R1 N1 (T @ t)" "ev_fragment_start v1 = str_len (vis D1 @ p1)"
    "vis D1 @ p1 = vis D @ p @ g @ d" "vis N1 = vis N @ g @ t"
    using local_edit_step_at [OF Cons.prems(1,2) su w t] by blast
  have "vis D1 @ vis R1 = vis D @ vis R"
    using arg_cong [OF loop_inv_fts [OF Cons.prems(1)], of vis] arg_cong [OF loop_inv_fts [OF 1(2)], of vis] by simp
  then have w1: "vis R1 = p1 @ text_before es @ w"
    using w 1(4) loop_inv_vis [OF 1(2)] by (metis append.assoc same_append_eq)
  have "\<forall>(g, d, raw, t) \<in> set es. normalize X raw = utf8 t \<and> valid t" "str_len (T @ t) + str_len (text_new es) < 2 ^ 32"
    using Cons.prems(4,5) ch by auto
  from Cons.IH [OF 1(2,3) w1 this] obtain v2 D2 p2 R2 N2 rs where 2:
    "local_edit_loop X ts v1 (edit_args (str_len (vis D1 @ p1)) es) = Some (v2, rs, map (\<lambda>(g, d, raw, t). utf8 t) es)"
    "loop_inv S ts fts v2 D2 p2 R2 N2 ((T @ t) @ text_new es)" "ev_fragment_start v2 = str_len (vis D2 @ p2)"
    "vis D2 @ p2 = vis D1 @ p1 @ text_before es" "vis N2 = vis N1 @ text_after es" by blast
  have a: "edit_args (str_len (vis D @ p)) (ch # es) =
      (str_len (vis D @ p @ g), str_len (vis D @ p @ g @ d), raw) # edit_args (str_len (vis D1 @ p1)) es"
    unfolding 1(4) ch by (simp add: add.assoc)
  have "local_edit_loop X ts v (edit_args (str_len (vis D @ p)) (ch # es)) =
      Some (v2, r # rs, map (\<lambda>(g, d, raw, t). utf8 t) (ch # es))"
    unfolding a local_edit_loop.simps 1(1) using 2(1) ch by simp
  moreover have "loop_inv S ts fts v2 D2 p2 R2 N2 (T @ text_new (ch # es))" using 2(2) ch by simp
  moreover have "vis D2 @ p2 = vis D @ p @ text_before (ch # es)" using 2(4) 1(4) ch by (metis append.assoc text_simps(2))
  moreover have "vis N2 = vis N @ text_after (ch # es)" using 2(5) 1(5) ch by simp
  ultimately show ?case using 2(3) by blast
qed

end
