(* ===== verification/BufferSpec.thy ===== *)
theory BufferSpec
  imports LocalEdit RopeClip
begin

text \<open>
  Local edits of a buffer: the invariant of a snapshot, the start and the end of \<open>apply_local_edit\<close>, and what a
  local edit does to the text, to the characters and to the subscribers.
\<close>

subsection \<open>The invariant of a snapshot\<close>

text \<open>What \<open>check_invariants\<close> checks, and more: fragments in the order of their ids, the ropes the texts
  of the visible and of the deleted fragments, the index an entry for every fragment and for nothing else, and no
  character of an insertion twice.\<close>

definition snapshot_ok :: "buffer_snapshot \<Rightarrow> piece list \<Rightarrow> bool" where
  "snapshot_ok S fts \<longleftrightarrow>
     fragment_tree (bs_fragments S) fts \<and> ids_ok fts [] \<and> distinct (map atom_id (atoms fts)) \<and>
     rope_text (bs_visible_text S) (vis fts) \<and> rope_text (bs_deleted_text S) (del fts) \<and>
     wf_tree insertion_ops (bs_insertions S) \<and> sorted_keys insertion_key (tree_items (bs_insertions S)) \<and>
     set (tree_items (bs_insertions S)) = (\<lambda>x. insertion_new (fst x)) ` set fts \<and> tm_ok (bs_insertion_slices S)"

text \<open>The bounds on heights that the stacks of the cursors impose.\<close>

definition snapshot_fits :: "buffer_snapshot \<Rightarrow> bool" where
  "snapshot_fits S \<longleftrightarrow> 2 * height (bs_fragments S) < STACK_CAPACITY \<and> height (bs_insertions S) < STACK_CAPACITY \<and>
     height (bs_insertion_slices S) < STACK_CAPACITY \<and> height (rope_chunks (bs_visible_text S)) \<le> 6 \<and>
     height (rope_chunks (bs_deleted_text S)) \<le> 6"

text \<open>A timestamp that no fragment has seen.\<close>

definition fresh :: "lamport \<Rightarrow> piece list \<Rightarrow> bool" where
  "fresh ts fts \<longleftrightarrow> (\<forall>x \<in> set fts. \<not> touched ts x)"

lemma edit_setup_of: "snapshot_fits S \<Longrightarrow> fresh ts fts \<Longrightarrow> edit_setup S ts fts"
  by (simp add: snapshot_fits_def fresh_def edit_setup_def)

subsection \<open>The index of insertions after an edit\<close>

lemma keyed_map_mem: "distinct (map key xs) \<Longrightarrow> keyed_map key xs k = Some y \<longleftrightarrow> y \<in> set xs \<and> key y = k"
  by (auto simp: keyed_map_def map_of_eq_Some_iff comp_def)

lemma sorted_keys_distinct: "sorted_keys key xs \<Longrightarrow> distinct (map key xs)"
proof -
  assume "sorted_keys key xs"
  then have "sorted_wrt (<) (map key xs)" by (simp add: sorted_keys_def sorted_wrt_map)
  then show "distinct (map key xs)" using strict_sorted_iff by blast
qed

lemma subseq_distinct: "subseq xs ys \<Longrightarrow> distinct ys \<Longrightarrow> distinct xs"
proof (induction rule: list_emb.induct)
  case (list_emb_Cons2 x y xs ys)
  then have "x \<notin> set xs" by (auto elim: list_emb_set)
  then show ?case using list_emb_Cons2 by simp
qed simp_all

lemma index_after:
  assumes old: "set old = (\<lambda>x. insertion_new (fst x)) ` set fts" "sorted_keys insertion_key old"
    and M: "subseq M N" "set N \<subseteq> set M \<union> set fts" and d: "distinct (map piece_key N)"
    and k: "piece_key ` set fts \<subseteq> piece_key ` set N"
    and r: "sorted_keys insertion_key xs"
      "keyed_map insertion_key xs = keyed_map insertion_key old ++ keyed_map insertion_key (map (\<lambda>x. insertion_new (fst x)) M)"
  shows "set xs = (\<lambda>x. insertion_new (fst x)) ` set N"
proof -
  let ?e = "\<lambda>x :: piece. insertion_new (fst x)"
  have MN: "set M \<subseteq> set N" by (auto elim: list_emb_set [OF M(1)])
  have "distinct (map piece_key M)" using subseq_map [OF M(1), of piece_key] d by (rule subseq_distinct)
  then have dM: "distinct (map insertion_key (map ?e M))" by (simp add: comp_def)
  note dxs = sorted_keys_distinct [OF r(1)] and dold = sorted_keys_distinct [OF old(2)]
  have mem: "y \<in> set xs \<longleftrightarrow> y \<in> ?e ` set M \<or> insertion_key y \<notin> piece_key ` set M \<and> y \<in> ?e ` set fts" for y
  proof -
    have "y \<in> set xs \<longleftrightarrow> (keyed_map insertion_key old ++ keyed_map insertion_key (map ?e M)) (insertion_key y) = Some y"
      using keyed_map_mem [OF dxs, of "insertion_key y" y] r(2) by simp
    also have "\<dots> \<longleftrightarrow> keyed_map insertion_key (map ?e M) (insertion_key y) = Some y \<or>
        keyed_map insertion_key (map ?e M) (insertion_key y) = None \<and> keyed_map insertion_key old (insertion_key y) = Some y"
      by (auto simp: map_add_Some_iff)
    also have "keyed_map insertion_key (map ?e M) (insertion_key y) = None \<longleftrightarrow> insertion_key y \<notin> piece_key ` set M"
      unfolding keyed_map_def by (auto simp: map_of_eq_None_iff image_iff comp_def)
    finally show ?thesis using keyed_map_mem [OF dM, of "insertion_key y" y] keyed_map_mem [OF dold, of "insertion_key y" y] old(1)
      by auto
  qed
  have same: "x = z" if "x \<in> set N" "z \<in> set N" "piece_key x = piece_key z" for x z
    using d that by (meson distinct_map inj_onD)
  show ?thesis
  proof (intro set_eqI iffI)
    fix y assume "y \<in> set xs"
    then consider "y \<in> ?e ` set M" | x where "x \<in> set fts" "y = ?e x" "piece_key x \<notin> piece_key ` set M" using mem by auto
    then show "y \<in> ?e ` set N"
    proof cases
      case (2 x)
      obtain z where z: "z \<in> set N" "piece_key z = piece_key x" using k 2(1) by (metis (no_types, lifting) image_iff subsetD)
      then have "z \<notin> set M" using 2(3) by (metis (no_types, lifting) image_eqI)
      then have "?e z \<in> set old" "?e x \<in> set old" using z(1) M(2) old(1) 2(1) by auto
      then have "?e z = ?e x" using z(2) dold by (meson distinct_map inj_onD)
      then show ?thesis using z(1) 2(2) by (metis image_eqI)
    qed (use MN in auto)
  next
    fix y assume "y \<in> ?e ` set N"
    then obtain z where z: "z \<in> set N" "y = ?e z" by auto
    show "y \<in> set xs"
    proof (cases "z \<in> set M")
      case False
      have "piece_key z \<notin> piece_key ` set M"
      proof
        assume "piece_key z \<in> piece_key ` set M"
        then obtain m where "m \<in> set M" "piece_key z = piece_key m" by (rule imageE)
        then show False using same [OF z(1), of m] MN False by auto
      qed
      moreover have "z \<in> set fts" using z(1) M(2) False by auto
      ultimately show ?thesis using mem z(2) by blast
    qed (use z mem in blast)
  qed
qed

subsection \<open>Characters after an edit\<close>

lemma char_atoms_offsets:
  "n + str_len xs < 2 ^ 32 \<Longrightarrow> a \<in> set (char_atoms t (of_nat n) xs) \<Longrightarrow> n \<le> unat (fst (snd a)) \<and> unat (fst (snd a)) < n + str_len xs"
proof (induction xs arbitrary: n)
  case (Cons c xs)
  have u: "unat (of_nat n :: u32) = n" unfolding unat_of_nat using Cons.prems(1) by (simp add: take_bit_nat_eq_self)
  have p: "0 < len_utf8 c" by (simp add: len_utf8_def)
  consider "a = (t, of_nat n, c)" | "a \<in> set (char_atoms t (of_nat (n + len_utf8 c)) xs)" using Cons.prems(2) by auto
  then show ?case
  proof cases
    case 1
    then show ?thesis using u p by simp
  next
    case 2
    then show ?thesis using Cons.IH [OF _ 2] Cons.prems(1) by simp
  qed
qed simp

lemma char_atoms_distinct: "n + str_len xs < 2 ^ 32 \<Longrightarrow> distinct (map atom_id (char_atoms t (of_nat n) xs))"
proof (induction xs arbitrary: n)
  case (Cons c xs)
  have u: "unat (of_nat n :: u32) = n" unfolding unat_of_nat using Cons.prems by (simp add: take_bit_nat_eq_self)
  have p: "0 < len_utf8 c" by (simp add: len_utf8_def)
  have l: "(n + len_utf8 c) + str_len xs < 2 ^ 32" using Cons.prems by simp
  have "n < unat (fst (snd a))" if "a \<in> set (char_atoms t (of_nat (n + len_utf8 c)) xs)" for a
    using char_atoms_offsets [OF l that] p by linarith
  then have "(t, of_nat n) \<notin> atom_id ` set (char_atoms t (of_nat (n + len_utf8 c)) xs)"
    using u by (fastforce simp: atom_id_def)
  then show ?case using Cons.IH [OF l] by (simp add: atom_id_def)
qed simp

lemma atoms_distinct:
  assumes "distinct (map atom_id (filter (\<lambda>a. fst a \<noteq> ts) as))" and "distinct (map atom_id (filter (\<lambda>a. fst a = ts) as))"
  shows "distinct (map atom_id as)"
  using assms by (induction as) (auto simp: atom_id_def split: if_splits)

subsection \<open>Before the first edit\<close>

lemma start_edit_at:
  assumes ok: "snapshot_ok S fts" and fits: "snapshot_fits S" and fr: "fresh ts fts"
  shows "\<exists>v D R. start_edit fragment_text_dim visible_pos S (visible_target n) Right = Some v \<and>
    loop_inv S ts fts v D [] R D [] \<and> ev_fragment_start v = str_len (vis D) \<and> str_len (vis D) \<le> n"
proof -
  have t: "wf_tree fragment_ops (bs_fragments S)" "tree_items (bs_fragments S) = piece_items fts" "\<forall>x \<in> set ([] @ fts). piece_ok x"
    and ids: "ids_ok fts []" using ok by (simp_all add: snapshot_ok_def fragment_tree_def)
  have h: "2 * height (bs_fragments S) < STACK_CAPACITY" using fits by (simp add: snapshot_fits_def)
  then have h': "height (bs_fragments S) < STACK_CAPACITY" by simp
  let ?c = "cursor_new fragment_text_dim (bs_fragments S)"
  have c: "cursor_ok fragment_ops fragment_text_dim ?c" "can_seek ?c" "cursor_done ?c = piece_items []" "cursor_rest ?c = piece_items fts"
    using cursor_new_ok [OF t(1) h', of fragment_text_dim] t(2) by simp_all
  have pos: "c_tree ?c = bs_fragments S" "c_position ?c = \<lparr>ft_visible = str_len (vis []), ft_deleted = str_len (del [])\<rparr>"
    by (simp_all add: cursor_new_def fragment_text_dim_def fragment_text_zero_def)
  obtain A B c' sl where s: "fts = A @ B" "slice fragment_ops fragment_text_dim ?c (visible_target n) Right = Some (c', sl)"
    "fragment_tree sl A" "height sl < STACK_CAPACITY" "at_cursor (bs_fragments S) c' ([] @ A) B" "str_len (vis ([] @ A)) \<le> n"
    using at_cursor_slice [OF c(1,2) pos(1) c(3,4) t(3) pos(2) _ h, of n] by auto
  have at: "at_cursor (bs_fragments S) c' A B" using s(5) by simp
  obtain F where F: "fb_new sl = Some F" "frags_at F A" by (rule fb_new_at [OF s(3,4)])
  have texts: "rope_text (bs_visible_text S) (vis A @ vis B)" "rope_text (bs_deleted_text S) (del A @ del B)"
    using ok s(1) by (simp_all add: snapshot_ok_def)
  have hs: "height (rope_chunks (bs_visible_text S)) \<le> 6" "height (rope_chunks (bs_deleted_text S)) \<le> 6"
    using fits by (simp_all add: snapshot_fits_def)
  obtain vc dc where vd: "rope_cursor_new (bs_visible_text S) 0 = Some vc" "rope_cursor_new (bs_deleted_text S) 0 = Some dc"
    and R0: "ropes_at (bs_visible_text S) (bs_deleted_text S) (rb_new vc dc) [] (vis A @ vis B) [] (del A @ del B) [] []"
    by (rule ropes_at_new [OF texts hs])
  obtain P where P: "rb_append (rb_new vc dc) \<lparr>ft_visible = str_len (vis A), ft_deleted = str_len (del A)\<rparr> = Some P"
    "ropes_at (bs_visible_text S) (bs_deleted_text S) P ([] @ vis A) (vis B) ([] @ del A) (del B) ([] @ vis A) ([] @ del A)"
    by (rule rb_append_at [OF R0])
  have sum: "fs_text (fb_summary F) = \<lparr>ft_visible = str_len (vis A), ft_deleted = str_len (del A)\<rparr>"
    using F(2) by (simp add: frags_at_def)
  let ?v = "\<lparr>ev_cursor = c', ev_fragment_start = str_len (vis A), ev_ropes = P, ev_fragments = F, ev_insertions = [],
    ev_insertion_offset = 0, ev_slices = [], ev_patch = patch_empty\<rparr>"
  have "start_edit fragment_text_dim visible_pos S (visible_target n) Right = Some ?v"
    using vd s(2) F(1) P(1) sum at_cursor_position [OF at] by (simp add: start_edit_def visible_pos_def)
  moreover have "parts S ?v (vis A) (vis B) (del A) (del B) A" using P(2) F(2) by (simp add: parts_def)
  moreover have "patched (ev_patch ?v) (vis A) (vis B) (vis A)"
    using patched_copy [of patch_empty "[]" "vis A" "vis B" "[]"] patched_empty by simp
  moreover have nt: "\<forall>x \<in> set A. fr_timestamp (fst x) \<noteq> ts" "\<forall>x \<in> set A. \<not> touched ts x"
    using fr s(1) by (simp_all add: fresh_def touched_def)
  moreover have "recorded ts fts ?v A []"
    unfolding recorded_def using s(1) filter_old_atoms(1) [OF nt(1)] nt(2) derived_old
    by (intro conjI exI [of _ "[]"]) (auto simp: filter_empty_conv)
  moreover have "ids_ok A B" using ids s(1) by (simp add: ids_ok_def)
  ultimately have "start_edit fragment_text_dim visible_pos S (visible_target n) Right = Some ?v"
    "loop_inv S ts fts ?v A [] B A []"
    using at s(1) filter_old_atoms(2) [OF nt(1)] by (simp_all add: loop_inv_def mid_def consumed_def started_def)
  then show ?thesis using s(6) by (intro exI [of _ ?v] exI [of _ A] exI [of _ B]) simp
qed

subsection \<open>After the last edit\<close>

lemma insertions_after:
  assumes ok: "snapshot_ok S fts" and fits: "snapshot_fits S" and X: "externals_ok X"
    and M: "subseq M N" "set N \<subseteq> set M \<union> set fts" and d: "distinct (map piece_key N)"
    and k: "piece_key ` set fts \<subseteq> piece_key ` set N"
  shows "\<exists>t rm. edit_sorted insertion_ops insertion_dim insertion_key (bs_insertions S)
      (sort_insertions X (map (\<lambda>x. insert_new (fst x)) M)) = Some (t, rm) \<and> wf_tree insertion_ops t \<and>
    sorted_keys insertion_key (tree_items t) \<and> set (tree_items t) = (\<lambda>x. insertion_new (fst x)) ` set N"
proof -
  let ?xs = "map (\<lambda>x. insertion_new (fst x)) M"
  have t: "wf_tree insertion_ops (bs_insertions S)" "height (bs_insertions S) < STACK_CAPACITY"
    and s: "sorted_keys insertion_key (tree_items (bs_insertions S))"
    and old: "set (tree_items (bs_insertions S)) = (\<lambda>x. insertion_new (fst x)) ` set fts"
    using ok fits by (simp_all add: snapshot_ok_def snapshot_fits_def)
  have "distinct (map piece_key M)" using subseq_map [OF M(1), of piece_key] d by (rule subseq_distinct)
  then have dx: "distinct (map insertion_key ?xs)" by (simp add: comp_def)
  have e: "map (\<lambda>x. insert_new (fst x)) M = map Insert ?xs" by (simp add: insert_new_def)
  have "edits insertion_ops insertion_dim insertion_key (bs_insertions S) (map Insert ?xs)
      (edit_sorted insertion_ops insertion_dim insertion_key (bs_insertions S) (sort_insertions X (map Insert ?xs)))"
    using X unfolding edits_def externals_ok_def by blast
  from insertion_keyed.insert_edits [OF t s dx this] obtain t' rm where
    "edit_sorted insertion_ops insertion_dim insertion_key (bs_insertions S) (sort_insertions X (map Insert ?xs)) = Some (t', rm)"
    "wf_tree insertion_ops t'" "sorted_keys insertion_key (tree_items t')"
    "keyed_map insertion_key (tree_items t') = keyed_map insertion_key (tree_items (bs_insertions S)) ++ keyed_map insertion_key ?xs"
    by blast
  with index_after [OF old s M d k] show ?thesis unfolding e by blast
qed

lemma slices_after:
  assumes ok: "snapshot_ok S fts" and fits: "snapshot_fits S" and X: "externals_ok X" and d: "distinct ks"
  shows "\<exists>t rm. edit_sorted map_ops map_key_ref entry_key (bs_insertion_slices S)
      (sort_slices X (map (\<lambda>k. Insert \<lparr>me_key = k, me_value = ()\<rparr>) ks)) = Some (t, rm) \<and> tm_ok t \<and>
    dom (tm_map t) = dom (tm_map (bs_insertion_slices S)) \<union> set ks"
proof -
  let ?kvs = "map (\<lambda>k. (k, ())) ks"
  have t: "tm_ok (bs_insertion_slices S)" "fits_stack (bs_insertion_slices S)"
    using ok fits by (simp_all add: snapshot_ok_def snapshot_fits_def fits_stack_def)
  have e: "map (\<lambda>k. Insert \<lparr>me_key = k, me_value = ()\<rparr>) ks = map (\<lambda>(k, v). Insert \<lparr>me_key = k, me_value = v\<rparr>) ?kvs" by simp
  have dk: "distinct (map fst ?kvs)" using d by (simp add: comp_def)
  have "edits map_ops map_key_ref entry_key (bs_insertion_slices S) (map (\<lambda>(k, v). Insert \<lparr>me_key = k, me_value = v\<rparr>) ?kvs)
      (edit_sorted map_ops map_key_ref entry_key (bs_insertion_slices S)
        (sort_slices X (map (\<lambda>(k, v). Insert \<lparr>me_key = k, me_value = v\<rparr>) ?kvs)))"
    using X unfolding edits_def externals_ok_def by blast
  from tm_edits_ok [OF t dk this] obtain t' rm where
    "edit_sorted map_ops map_key_ref entry_key (bs_insertion_slices S)
        (sort_slices X (map (\<lambda>(k, v). Insert \<lparr>me_key = k, me_value = v\<rparr>) ?kvs)) = Some (t', rm)" "tm_ok t'"
    "tm_map t' = tm_map (bs_insertion_slices S) ++ map_of ?kvs" by blast
  moreover have "dom (map_of ?kvs) = set ks" by (simp add: dom_map_of_conv_image_fst image_comp comp_def)
  ultimately show ?thesis unfolding e by (auto simp: dom_map_add)
qed

text \<open>What an edit leaves: the old characters in their order, the new ones in theirs, and the slices.\<close>

definition edited :: "lamport \<Rightarrow> buffer_snapshot \<Rightarrow> piece list \<Rightarrow> buffer_snapshot \<Rightarrow> piece list \<Rightarrow> rust_char list \<Rightarrow> bool" where
  "edited ts S fts S' fts' T \<longleftrightarrow> snapshot_ok S' fts' \<and> (\<forall>x \<in> set fts'. derived ts fts x) \<and>
     filter (\<lambda>a. fst a \<noteq> ts) (atoms fts') = atoms fts \<and> filter (\<lambda>a. fst a = ts) (atoms fts') = char_atoms ts 0 T \<and>
     dom (tm_map (bs_insertion_slices S')) =
       dom (tm_map (bs_insertion_slices S)) \<union> (\<lambda>x. slice_from_fragment ts (fst x)) ` {x \<in> set fts'. touched ts x} \<and>
     bs_undo_map S' = bs_undo_map S \<and> bs_version S' = bs_version S \<and> bs_remote_id S' = bs_remote_id S \<and>
     bs_replica_id S' = bs_replica_id S \<and> bs_line_ending S' = bs_line_ending S"

lemma slices_distinct:
  assumes "distinct (map piece_key N)"
  shows "distinct (map (\<lambda>x. slice_from_fragment ts (fst x)) (filter P N))"
proof -
  have d: "distinct (map piece_key (filter P N))" using subseq_map [OF subseq_filter_left, of piece_key P N] assms by (rule subseq_distinct)
  have "piece_key x = piece_key y" if "slice_from_fragment ts (fst x) = slice_from_fragment ts (fst y)" for x y
    using that by (simp add: slice_from_fragment_def)
  then show ?thesis using d unfolding distinct_map inj_on_def by blast
qed

lemma finish_edit_at:
  assumes inv: "loop_inv (bf_snapshot self) ts fts v D p R N T" and start: "ev_fragment_start v = str_len (vis D @ p)"
    and ok: "snapshot_ok (bf_snapshot self) fts" and fits: "snapshot_fits (bf_snapshot self)" and fr: "fresh ts fts"
    and X: "externals_ok X" and T: "str_len T < 2 ^ 32" and w: "vis R = p @ w"
  shows "\<exists>S' fts' pt. finish_edit X fragment_text_dim visible_pos self v =
      Some (self\<lparr>bf_snapshot := S', bf_subscriptions := publish (bf_subscriptions self) pt\<rparr>) \<and>
    edited ts (bf_snapshot self) fts S' fts' T \<and> vis fts' = vis N @ w \<and>
    patches pt (utf8 (vis fts)) (utf8 (vis fts')) \<and> separated pt"
proof -
  let ?S = "bf_snapshot self"
  have su: "edit_setup ?S ts fts" by (rule edit_setup_of [OF fits fr])
  obtain v1 D1 R1 N1 u where r: "push_rest_of_fragment fragment_text_dim visible_pos v = Some v1"
    "loop_inv ?S ts fts v1 D1 [] R1 N1 T" "vis D1 = vis D @ p @ u" "vis N1 = vis N @ u"
    by (rule push_rest_at [OF inv start su])
  have at: "at_cursor (bs_fragments ?S) (ev_cursor v1) D1 R1" using r(2) by (simp add: loop_inv_def)
  have h: "height (bs_fragments ?S) < STACK_CAPACITY" using su by (simp add: edit_setup_def)
  obtain c sl where sl: "suffix fragment_ops fragment_text_dim (ev_cursor v1) = Some (c, sl)" "fragment_tree sl R1"
    "height sl < STACK_CAPACITY" by (rule at_cursor_suffix [OF at h])
  have nt: "\<forall>x \<in> set R1. \<not> touched ts x" using fr loop_inv_fts [OF r(2)] by (simp add: fresh_def)
  have "mid ?S ts fts v1 D1 [] (R1 @ []) N1 T" using r(2) by (simp add: loop_inv_def)
  from mid_pieces [OF this nt sl(2,3)] obtain B F where B: "rb_append (ev_ropes v1) (fs_text (summary sl)) = Some B"
    "fb_append (ev_fragments v1) sl = Some F"
    and mids: "\<And>c st. mid ?S ts fts (v1\<lparr>ev_cursor := c, ev_ropes := B, ev_fragments := F, ev_fragment_start := st\<rparr>)
      (D1 @ R1) [] [] (N1 @ R1) T" by blast
  define v2 where "v2 = v1\<lparr>ev_cursor := c, ev_ropes := B, ev_fragments := F, ev_fragment_start := 0\<rparr>"
  define fts' where "fts' = N1 @ R1"
  have m: "mid ?S ts fts v2 (D1 @ R1) [] [] fts' T" unfolding v2_def fts'_def by (rule mids)
  have fts: "fts = D1 @ R1" by (rule loop_inv_fts [OF r(2)])
  have v2: "ev_ropes v2 = B" "ev_fragments v2 = F" "ev_patch v2 = ev_patch v1" "ev_insertions v2 = ev_insertions v1"
    "ev_slices v2 = ev_slices v1" by (simp_all add: v2_def)
  have P: "parts ?S v2 (vis fts) [] (del fts) [] fts'" and Q: "patched (ev_patch v2) (vis fts) [] (vis fts')"
    using m fts by (auto simp: mid_def)
  obtain vt dt where vd: "rb_finish B = Some (vt, dt)" "rope_text vt (vis fts' @ [])" "rope_text dt (del fts' @ [])"
    using rb_finish_at [of "bs_visible_text ?S" "bs_deleted_text ?S" B] P v2(1) unfolding parts_def by blast
  obtain t where t: "fb_to_sum_tree F = Some t" "fragment_tree t fts'"
    using fb_to_sum_tree_at [of F fts'] P v2(2) unfolding parts_def by blast
  have at1: "filter (\<lambda>a. fst a \<noteq> ts) (atoms fts') = atoms fts" "filter (\<lambda>a. fst a = ts) (atoms fts') = char_atoms ts 0 T"
    using m fts mid_recorded [OF m] by (simp_all add: mid_def recorded_def)
  have dist: "distinct (map atom_id (atoms fts'))"
    by (rule atoms_distinct [of ts]) (use at1 ok char_atoms_distinct [of 0 T ts] T in \<open>simp_all add: snapshot_ok_def\<close>)
  have "\<forall>x \<in> set fts'. snd x \<noteq> []" using t(2) by (simp add: fragment_tree_def piece_ok_def)
  then have keys: "distinct (map piece_key fts')" by (rule keys_distinct [OF dist])
  obtain M where M: "subseq M fts'" "ev_insertions v1 = map (\<lambda>x. insert_new (fst x)) M" "set fts' \<subseteq> set M \<union> set fts"
    and der: "\<forall>x \<in> set fts'. derived ts fts x" and slices: "ev_slices v1 = map (\<lambda>x. slice_from_fragment ts (fst x)) (filter (touched ts) fts')"
    using mid_recorded [OF m] v2(4,5) by (auto simp: recorded_def)
  have k: "piece_key ` set fts \<subseteq> piece_key ` set fts'" using m fts unfolding mid_def started_def by simp
  obtain it rm where it: "edit_sorted insertion_ops insertion_dim insertion_key (bs_insertions ?S)
      (sort_insertions X (ev_insertions v1)) = Some (it, rm)" "wf_tree insertion_ops it"
    "sorted_keys insertion_key (tree_items it)" "set (tree_items it) = (\<lambda>x. insertion_new (fst x)) ` set fts'"
    using insertions_after [OF ok fits X M(1,3) keys k] M(2) by auto
  obtain st rm' where st: "edit_sorted map_ops map_key_ref entry_key (bs_insertion_slices ?S)
      (sort_slices X (map (\<lambda>k. Insert \<lparr>me_key = k, me_value = ()\<rparr>) (ev_slices v1))) = Some (st, rm')" "tm_ok st"
    "dom (tm_map st) = dom (tm_map (bs_insertion_slices ?S)) \<union> set (ev_slices v1)"
    using slices_after [OF ok fits X slices_distinct [OF keys, of ts "touched ts"]] slices by auto
  let ?S' = "?S\<lparr>bs_fragments := t, bs_insertions := it, bs_visible_text := vt, bs_deleted_text := dt, bs_insertion_slices := st\<rparr>"
  have "finish_edit X fragment_text_dim visible_pos self v =
      Some (self\<lparr>bf_snapshot := ?S', bf_subscriptions := publish (bf_subscriptions self) (ev_patch v1)\<rparr>)"
    using r(1) sl(1) B vd(1) t(1) it(1) st(1) by (simp add: finish_edit_def Let_def)
  moreover have "ids_ok fts' []" using r(2) by (simp add: fts'_def loop_inv_def ids_ok_def)
  then have "snapshot_ok ?S' fts'" using t(2) dist vd(2,3) it(2-) st(2) by (simp add: snapshot_ok_def)
  then have "edited ts ?S fts ?S' fts' T" using at1 st(3) slices der by (auto simp: edited_def)
  moreover have "vis fts' = vis N @ w"
  proof -
    have "vis D1 @ vis R1 = vis D @ vis R" using arg_cong [OF loop_inv_fts [OF inv], of vis] fts by simp
    then have "w = u @ vis R1" using r(3) w by simp
    then show ?thesis using r(4) by (simp add: fts'_def)
  qed
  moreover have "patches (ev_patch v1) (utf8 (vis fts)) (utf8 (vis fts'))" using patched_patches [OF Q] v2(3) by simp
  moreover have "separated (ev_patch v1)" using Q v2(3) by (simp add: patched_def)
  ultimately show ?thesis by blast
qed

subsection \<open>Local edits\<close>

lemma usize_to_offset_at:
  assumes "rope_text (bs_visible_text S) cs"
  shows "usize_to_offset S i = Some (rope_floor_char_boundary (bs_visible_text S) i)"
proof -
  obtain css where r: "rope_of (bs_visible_text S) css" using assms by (auto simp: rope_text_def)
  note b = rope_boundary_of(2) [OF r, of False i]
  note f = rope_floor_of [OF r, of i i]
  show ?thesis using b f by (auto simp: usize_to_offset_def)
qed

abbreviation floors :: "buffer_snapshot \<Rightarrow> (nat \<times> nat \<times> str) list \<Rightarrow> (nat \<times> nat \<times> str) list" where
  "floors S eds \<equiv> map (\<lambda>(s, e, t). (rope_floor_char_boundary (bs_visible_text S) s, rope_floor_char_boundary (bs_visible_text S) e, t)) eds"

lemma those_offsets:
  assumes "rope_text (bs_visible_text S) cs"
  shows "those (map (\<lambda>(s, e, t). do { s \<leftarrow> usize_to_offset S s; e \<leftarrow> usize_to_offset S e; Some (s, e, t) }) eds) = Some (floors S eds)"
  by (induction eds) (auto simp: usize_to_offset_at [OF assms])

lemma apply_local_edit_at:
  assumes X: "externals_ok X" and ok: "snapshot_ok (bf_snapshot self) fts" and fits: "snapshot_fits (bf_snapshot self)"
    and fr: "fresh ts fts" and es: "es \<noteq> []" "changes_ok X es" "vis fts = text_before es @ w"
    and eds: "floors (bf_snapshot self) eds = edit_args 0 es"
  shows "\<exists>S' fts' pt rs. apply_local_edit X self eds ts =
      Some (self\<lparr>bf_snapshot := S', bf_subscriptions := publish (bf_subscriptions self) pt\<rparr>,
        \<lparr>eo_timestamp = ts, eo_version = bs_version (bf_snapshot self), eo_ranges = rs, eo_new_text = map (\<lambda>(g, d, raw, t). utf8 t) es\<rparr>) \<and>
    edited ts (bf_snapshot self) fts S' fts' (text_new es) \<and> vis fts' = text_after es @ w \<and>
    patches pt (utf8 (vis fts)) (utf8 (vis fts')) \<and> separated pt"
proof -
  let ?S = "bf_snapshot self"
  obtain g d raw t es' where es': "es = (g, d, raw, t) # es'" using es(1) by (metis list.exhaust prod_cases4)
  have su: "edit_setup ?S ts fts" by (rule edit_setup_of [OF fits fr])
  obtain v D R where 1: "start_edit fragment_text_dim visible_pos ?S (visible_target (str_len g)) Right = Some v"
    "loop_inv ?S ts fts v D [] R D []" "ev_fragment_start v = str_len (vis D)" "str_len (vis D) \<le> str_len g"
    using start_edit_at [OF ok fits fr, of "str_len g"] by blast
  have "vis D @ vis R = g @ d @ text_before es' @ w" using arg_cong [OF loop_inv_fts [OF 1(2)], of vis] es(3) es' by simp
  then obtain g' where g': "g = vis D @ g'" "vis R = g' @ d @ text_before es' @ w" using 1(4) by (rule text_split)
  let ?es = "(g', d, raw, t) # es'"
  have args: "edit_args 0 es = edit_args (str_len (vis D @ [])) ?es" by (simp add: es' g'(1))
  have s: "ev_fragment_start v = str_len (vis D @ [])" using 1(3) by simp
  have w1: "vis R = [] @ text_before ?es @ w" using g'(2) by simp
  have t: "\<forall>(g, d, raw, t) \<in> set ?es. normalize X raw = utf8 t \<and> valid t" "str_len [] + str_len (text_new ?es) < 2 ^ 32"
    using es(2) by (auto simp: changes_ok_def es')
  obtain v' D' p' R' N' rs where 2: "local_edit_loop X ts v (edit_args (str_len (vis D @ [])) ?es) =
      Some (v', rs, map (\<lambda>(g, d, raw, t). utf8 t) ?es)"
    "loop_inv ?S ts fts v' D' p' R' N' ([] @ text_new ?es)" "ev_fragment_start v' = str_len (vis D' @ p')"
    "vis D' @ p' = vis D @ [] @ text_before ?es" "vis N' = vis D @ text_after ?es"
    using local_edit_loop_at [OF 1(2) s su w1 t] by blast
  have "vis D' @ vis R' = vis D @ vis R"
    using arg_cong [OF loop_inv_fts [OF 1(2)], of vis] arg_cong [OF loop_inv_fts [OF 2(2)], of vis] by simp
  then have w2: "vis R' = p' @ w" using w1 2(4) loop_inv_vis [OF 2(2)] by (metis append.assoc same_append_eq append_Nil)
  have T: "str_len ([] @ text_new ?es) < 2 ^ 32" using t(2) by simp
  obtain S' fts' pt where 3: "finish_edit X fragment_text_dim visible_pos self v' =
      Some (self\<lparr>bf_snapshot := S', bf_subscriptions := publish (bf_subscriptions self) pt\<rparr>)"
    "edited ts ?S fts S' fts' ([] @ text_new ?es)" "vis fts' = vis N' @ w" "patches pt (utf8 (vis fts)) (utf8 (vis fts'))" "separated pt"
    using finish_edit_at [OF 2(2,3) ok fits fr X T w2] by blast
  have vt: "rope_text (bs_visible_text ?S) (vis fts)" using ok by (simp add: snapshot_ok_def)
  have first: "vec_first (edit_args 0 es) = Some (str_len g, str_len g + str_len d, raw)" by (simp add: es')
  have loop: "local_edit_loop X ts v (edit_args 0 es) = Some (v', rs, map (\<lambda>(g, d, raw, t). utf8 t) es)"
    unfolding args unfolding 2(1) by (simp add: es')
  have "apply_local_edit X self eds ts = Some (self\<lparr>bf_snapshot := S', bf_subscriptions := publish (bf_subscriptions self) pt\<rparr>,
        \<lparr>eo_timestamp = ts, eo_version = bs_version ?S, eo_ranges = rs, eo_new_text = map (\<lambda>(g, d, raw, t). utf8 t) es\<rparr>)"
    unfolding apply_local_edit_def those_offsets [OF vt] eds bind.bind_lunit first
    using 1(1) loop 3(1) by simp
  moreover have "vis fts' = text_after es @ w" using 3(3) 2(5) g'(1) es' by simp
  moreover have "edited ts ?S fts S' fts' (text_new es)" using 3(2) es' by simp
  ultimately show ?thesis using 3(4,5) by blast
qed

end
