(* ===== verification/BufferOps.thy ===== *)
theory BufferOps
  imports Buffer "HOL-Library.Product_Lexorder" "HOL-Library.AList"
begin

text \<open>
  The rest of \<open>Buffer\<close> in \<open>crates/text/src/text.rs\<close>: making a buffer, applying edits of other replicas
  and undo operations, deferring the operations that arrive too early, undoing and redoing transactions, and
  waiting for edits and versions. A function that changes the buffer returns it first.
\<close>

subsection \<open>Making a buffer\<close>

text \<open>The loop that splits the text into fragments.\<close>

record base_vars =
  bv_fragments :: "(fragment, fragment_summary) sum_tree"
  bv_insertions :: "(insertion_fragment, insertion_key) sum_tree"
  bv_prev_locator :: locator
  bv_insertion_offset :: u32
  bv_text_offset :: nat

partial_function (option) base_loop :: "rope \<Rightarrow> lamport \<Rightarrow> base_vars \<Rightarrow> base_vars option" where
  "base_loop visible_text insertion_timestamp v =
     (if bv_text_offset v < rope_len visible_text then do {
        let target_end = min (rope_len visible_text) (bv_text_offset v + MAX_INSERTION_LEN);
        let chunk_end = (if target_end = rope_len visible_text then target_end
          else rope_floor_char_boundary visible_text target_end);
        let chunk_len = chunk_end - bv_text_offset v;
        let fragment_id = locator_between (bv_prev_locator v) locator_max;
        let fragment = \<lparr>fr_id = fragment_id, fr_timestamp = insertion_timestamp,
          fr_insertion_offset = bv_insertion_offset v, fr_len = of_nat chunk_len, fr_visible = True,
          fr_deletions = [], fr_max_undos = global_new\<rparr>;
        insertions \<leftarrow> push insertion_ops (bv_insertions v) (insertion_new fragment);
        fragments \<leftarrow> push fragment_ops (bv_fragments v) fragment;
        base_loop visible_text insertion_timestamp
          (v\<lparr>bv_fragments := fragments, bv_insertions := insertions, bv_prev_locator := fragment_id,
             bv_insertion_offset := bv_insertion_offset v + of_nat chunk_len, bv_text_offset := chunk_end\<rparr>)
      } else Some v)"

definition buffer_new_normalized :: "replica_id \<Rightarrow> u64 \<Rightarrow> line_ending \<Rightarrow> rope \<Rightarrow> buffer option" where
  "buffer_new_normalized replica_id remote_id line_ending normalized = do {
     let history = history_new normalized;
     let lamport_clock = lamport_new replica_id;
     let version = global_new;
     let visible_text = hi_base_text history;
     let v = \<lparr>bv_fragments = new fragment_ops, bv_insertions = new insertion_ops, bv_prev_locator = locator_min,
       bv_insertion_offset = 0, bv_text_offset = 0\<rparr>;
     (v, lamport_clock, version) \<leftarrow> (if \<not> rope_is_empty visible_text then do {
         let insertion_timestamp = lamport_new LOCAL;
         let lamport_clock = lamport_observe lamport_clock insertion_timestamp;
         let version = global_observe version insertion_timestamp;
         v \<leftarrow> base_loop visible_text insertion_timestamp v;
         Some (v, lamport_clock, version)
       } else Some (v, lamport_clock, version));
     Some \<lparr>bf_snapshot = \<lparr>bs_visible_text = visible_text, bs_deleted_text = rope_new, bs_fragments = bv_fragments v,
             bs_insertions = bv_insertions v, bs_insertion_slices = tm_empty, bs_undo_map = undo_map_new,
             bs_version = version, bs_remote_id = remote_id, bs_replica_id = replica_id, bs_line_ending = line_ending\<rparr>,
           bf_history = history, bf_deferred_ops = queue_new op_timestamp, bf_deferred_replicas = {},
           bf_lamport_clock = lamport_clock, bf_subscriptions = topic_default, bf_edit_id_resolvers = Map.empty,
           bf_wait_for_version_txs = [], bf_channels = 0, bf_sent = []\<rparr>
   }"

definition buffer_new :: "externals \<Rightarrow> replica_id \<Rightarrow> u64 \<Rightarrow> str \<Rightarrow> buffer option" where
  "buffer_new X replica_id remote_id base_text = do {
     let line_ending = line_ending_detect base_text;
     let base_text = normalize X base_text;
     r \<leftarrow> rope_from base_text;
     buffer_new_normalized replica_id remote_id line_ending r
   }"

text \<open>A branch shares the snapshot and has a history and a clock of its own.\<close>

definition branch :: "buffer \<Rightarrow> buffer" where
  "branch self =
     \<lparr>bf_snapshot = bf_snapshot self, bf_history = history_new (hi_base_text (bf_history self)),
      bf_deferred_ops = queue_new op_timestamp, bf_deferred_replicas = {},
      bf_lamport_clock = lamport_new LOCAL_BRANCH, bf_subscriptions = topic_default,
      bf_edit_id_resolvers = Map.empty, bf_wait_for_version_txs = [], bf_channels = 0, bf_sent = []\<rparr>"

definition set_line_ending :: "buffer \<Rightarrow> line_ending \<Rightarrow> buffer" where
  "set_line_ending self line_ending = self\<lparr>bf_snapshot := (bf_snapshot self)\<lparr>bs_line_ending := line_ending\<rparr>\<rparr>"

definition set_group_interval :: "buffer \<Rightarrow> nat \<Rightarrow> buffer" where
  "set_group_interval self group_interval =
     self\<lparr>bf_history := (bf_history self)\<lparr>hi_group_interval := group_interval\<rparr>\<rparr>"

definition buffer_subscribe :: "buffer \<Rightarrow> buffer \<times> nat" where
  "buffer_subscribe self =
     (let (subscriptions, subscription) = subscribe (bf_subscriptions self)
      in (self\<lparr>bf_subscriptions := subscriptions\<rparr>, subscription))"

subsection \<open>Edits of other replicas\<close>

type_synonym remote_vars = "(versioned_full_offset \<times> nat) edit_vars"

definition full_pos :: "versioned_full_offset \<times> nat \<Rightarrow> nat option" where
  "full_pos d = full_offset (fst d)"

abbreviation remote_dim :: "global \<Rightarrow> (versioned_full_offset \<times> nat, fragment_summary) dim_ops" where
  "remote_dim version \<equiv> dimensions2 (versioned_dim version) visible_dim"

abbreviation full_target :: "nat \<Rightarrow> (versioned_full_offset \<times> nat) seek_target" where
  "full_target n \<equiv> target_fst (versioned_target n)"

text \<open>\<open>p + (a - b)\<close> on words of 64 bits.\<close>

definition offset_by :: "nat \<Rightarrow> nat \<Rightarrow> nat \<Rightarrow> nat" where
  "offset_by p a b = nat ((int p + int a - int b) mod 2 ^ 64)"

text \<open>If we are at the end of a non-concurrent fragment, advance to the next one.\<close>

definition finish_fragment :: "global \<Rightarrow> nat \<Rightarrow> remote_vars \<Rightarrow> remote_vars option" where
  "finish_fragment version range_start v = do {
     e \<leftarrow> cursor_end (remote_dim version) (ev_cursor v);
     fragment_end \<leftarrow> full_pos e;
     (if fragment_end = range_start \<and> ev_fragment_start v < fragment_end then do {
        it \<leftarrow> cursor_item (ev_cursor v);
        fragment \<leftarrow> it;
        start \<leftarrow> full_pos (c_position (ev_cursor v));
        let fragment = cut_fragment fragment start (ev_fragment_start v) fragment_end;
        v \<leftarrow> push_piece v fragment (fr_visible fragment);
        c \<leftarrow> cursor_next (remote_dim version) (ev_cursor v);
        fragment_start \<leftarrow> full_pos (c_position c);
        Some (v\<lparr>ev_cursor := c, ev_fragment_start := fragment_start\<rparr>)
      } else Some v)
   }"

text \<open>Skip over insertions that are concurrent to this edit, but have a higher Lamport timestamp.\<close>

partial_function (option) skip_concurrent :: "global \<Rightarrow> lamport \<Rightarrow> nat \<Rightarrow> remote_vars \<Rightarrow> remote_vars option" where
  "skip_concurrent version timestamp range_start v = do {
     it \<leftarrow> cursor_item (ev_cursor v);
     (case it of
        Some fragment \<Rightarrow>
          if ev_fragment_start v = range_start \<and> timestamp < fr_timestamp fragment then do {
            ropes \<leftarrow> rb_push_fragment (ev_ropes v) fragment (fr_visible fragment);
            fragments \<leftarrow> fb_push (ev_fragments v) fragment;
            c \<leftarrow> cursor_next (remote_dim version) (ev_cursor v);
            skip_concurrent version timestamp range_start (v\<lparr>ev_cursor := c, ev_ropes := ropes, ev_fragments := fragments\<rparr>)
          } else Some v
      | None \<Rightarrow> Some v)
   }"

definition remote_insert :: "lamport \<Rightarrow> str \<Rightarrow> remote_vars \<Rightarrow> remote_vars option" where
  "remote_insert timestamp new_text v =
     (if new_text \<noteq> [] then do {
        it \<leftarrow> cursor_item (ev_cursor v);
        old_start \<leftarrow> (case it of
            Some f \<Rightarrow>
              if fr_visible f then do {
                start \<leftarrow> full_pos (c_position (ev_cursor v));
                Some (offset_by (snd (c_position (ev_cursor v))) (ev_fragment_start v) start)
              } else Some (snd (c_position (ev_cursor v)))
          | None \<Rightarrow> Some (snd (c_position (ev_cursor v))));
        let new_start = new_visible_len v;
        nid \<leftarrow> next_fragment_id v;
        v \<leftarrow> push_fragments_for_insertion new_text timestamp nid v;
        Some (push_edit v old_start old_start new_start (new_start + length new_text))
      } else Some v)"

text \<open>The intersection of the current fragment with the range, and the slice recorded if it is deleted.\<close>

definition remote_intersection ::
    "undo_map \<Rightarrow> global \<Rightarrow> lamport \<Rightarrow> nat \<Rightarrow> fragment \<Rightarrow> remote_vars \<Rightarrow> (fragment \<times> insertion_slice list) option" where
  "remote_intersection undos version timestamp intersection_end fragment v =
     (if global_observed version (fr_timestamp fragment) then do {
        start \<leftarrow> full_pos (c_position (ev_cursor v));
        let intersection = cut_fragment fragment start (ev_fragment_start v) intersection_end;
        let intersection = intersection\<lparr>fr_id := locator_between (max_id v) (fr_id intersection)\<rparr>;
        was_visible \<leftarrow> fragment_was_visible fragment version undos;
        (if was_visible then
           let intersection = intersection\<lparr>fr_deletions := fr_deletions intersection @ [timestamp], fr_visible := False\<rparr>
           in Some (intersection, [slice_from_fragment timestamp intersection])
         else Some (intersection, []))
      } else Some (fragment, []))"

definition remote_delete_step ::
    "undo_map \<Rightarrow> global \<Rightarrow> lamport \<Rightarrow> nat \<Rightarrow> remote_vars \<Rightarrow> remote_vars option" where
  "remote_delete_step undos version timestamp range_end v = do {
     it \<leftarrow> cursor_item (ev_cursor v);
     fragment \<leftarrow> it;
     e \<leftarrow> cursor_end (remote_dim version) (ev_cursor v);
     fragment_end \<leftarrow> full_pos e;
     let intersection_end = min range_end fragment_end;
     (intersection, slices) \<leftarrow> remote_intersection undos version timestamp intersection_end fragment v;
     let v = v\<lparr>ev_slices := ev_slices v @ slices\<rparr>;
     v \<leftarrow> (if 0 < fr_len intersection then do {
         v \<leftarrow> (if fr_visible fragment \<and> \<not> fr_visible intersection then do {
             start \<leftarrow> full_pos (c_position (ev_cursor v));
             let old_start = offset_by (snd (c_position (ev_cursor v))) (ev_fragment_start v) start;
             let new_start = new_visible_len v;
             Some (push_edit v old_start (old_start + unat (fr_len intersection)) new_start new_start)
           } else Some v);
         v \<leftarrow> push_piece v intersection (fr_visible fragment);
         Some (v\<lparr>ev_fragment_start := intersection_end\<rparr>)
       } else Some v);
     (if fragment_end \<le> range_end then do {
        c \<leftarrow> cursor_next (remote_dim version) (ev_cursor v);
        Some (v\<lparr>ev_cursor := c\<rparr>)
      } else Some v)
   }"

partial_function (option) remote_delete_loop ::
    "undo_map \<Rightarrow> global \<Rightarrow> lamport \<Rightarrow> nat \<Rightarrow> remote_vars \<Rightarrow> remote_vars option" where
  "remote_delete_loop undos version timestamp range_end v =
     (if ev_fragment_start v < range_end then do {
        v \<leftarrow> remote_delete_step undos version timestamp range_end v;
        remote_delete_loop undos version timestamp range_end v
      } else Some v)"

definition remote_edit_step ::
    "undo_map \<Rightarrow> global \<Rightarrow> lamport \<Rightarrow> remote_vars \<Rightarrow> (nat \<times> nat) \<times> str \<Rightarrow> remote_vars option" where
  "remote_edit_step undos version timestamp v = (\<lambda>((range_start, range_end), new_text). do {
     e \<leftarrow> cursor_end (remote_dim version) (ev_cursor v);
     fragment_end \<leftarrow> full_pos e;
     v \<leftarrow> (if fragment_end < range_start then do {
         v \<leftarrow> push_rest_of_fragment (remote_dim version) full_pos v;
         append_slice (remote_dim version) full_pos (full_target range_start) Left v
       } else Some v);
     v \<leftarrow> finish_fragment version range_start v;
     v \<leftarrow> skip_concurrent version timestamp range_start v;
     v \<leftarrow> push_prefix full_pos range_start v;
     v \<leftarrow> remote_insert timestamp new_text v;
     remote_delete_loop undos version timestamp range_end v
   })"

fun remote_edit_loop ::
    "undo_map \<Rightarrow> global \<Rightarrow> lamport \<Rightarrow> remote_vars \<Rightarrow> ((nat \<times> nat) \<times> str) list \<Rightarrow> remote_vars option" where
  "remote_edit_loop undos version timestamp v [] = Some v"
| "remote_edit_loop undos version timestamp v (ed # eds) = do {
     v \<leftarrow> remote_edit_step undos version timestamp v ed;
     remote_edit_loop undos version timestamp v eds
   }"

definition apply_remote_edit ::
    "externals \<Rightarrow> buffer \<Rightarrow> global \<Rightarrow> (nat \<times> nat) list \<Rightarrow> str list \<Rightarrow> lamport \<Rightarrow> buffer option" where
  "apply_remote_edit X self version ranges new_text timestamp =
     (case ranges of
        [] \<Rightarrow> Some self
      | (first_start, _) # _ \<Rightarrow> do {
          let undos = bs_undo_map (bf_snapshot self);
          v \<leftarrow> start_edit (remote_dim version) full_pos (bf_snapshot self) (full_target first_start) Left;
          v \<leftarrow> remote_edit_loop undos version timestamp v (zip ranges new_text);
          finish_edit X (remote_dim version) full_pos self v
        })"

subsection \<open>Undo operations\<close>

text \<open>All of the insertion slices changed by the given edits.\<close>

fun slices_of_edits :: "insertion_slice tree_set \<Rightarrow> lamport list \<Rightarrow> insertion_slice list option" where
  "slices_of_edits slices [] = Some []"
| "slices_of_edits slices (eid # eids) = do {
     ss \<leftarrow> ts_iter_from slices (InsertionSlice eid lamport_MIN 0 0);
     rest \<leftarrow> slices_of_edits slices eids;
     Some (takeWhile (\<lambda>s. sl_edit_id s = eid) ss @ rest)
   }"

text \<open>The key of the sort; two slices with one key differ in their edit only, which is not looked at
  after the sort. \<open>Reverse\<close> of the end is its negation.\<close>

definition slice_order :: "insertion_slice \<Rightarrow> lamport \<times> u32 \<times> int" where
  "slice_order s = (sl_insertion_id s, sl_start s, - uint (sl_end s))"

partial_function (option) collect_fragment_ids ::
    "lamport \<Rightarrow> u32 \<Rightarrow> (insertion_fragment, insertion_key, insertion_key) cursor \<Rightarrow>
      ((insertion_fragment, insertion_key, insertion_key) cursor \<times> locator list) option" where
  "collect_fragment_ids insertion_id range_end cursor = do {
     it \<leftarrow> cursor_item cursor;
     (case it of
        Some item \<Rightarrow>
          if in_timestamp item \<noteq> insertion_id \<or> range_end \<le> in_split_offset item then Some (cursor, [])
          else do {
            c \<leftarrow> cursor_next insertion_dim cursor;
            (c, ids) \<leftarrow> collect_fragment_ids insertion_id range_end c;
            Some (c, in_fragment_id item # ids)
          }
      | None \<Rightarrow> Some (cursor, []))
   }"

fun fragment_ids_for_slices ::
    "(insertion_fragment, insertion_key, insertion_key) cursor \<Rightarrow> insertion_slice list \<Rightarrow> locator list option" where
  "fragment_ids_for_slices cursor [] = Some []"
| "fragment_ids_for_slices cursor (s # slices) = do {
     cursor \<leftarrow> (if sl_insertion_id s \<noteq> key_timestamp (c_position cursor) \<or> key_split_offset (c_position cursor) < sl_start s
       then map_option fst
         (seek_forward insertion_dim cursor (key_target (InsertionFragmentKey (sl_insertion_id s) (sl_start s))) Left)
       else Some cursor);
     (cursor, ids) \<leftarrow> collect_fragment_ids (sl_insertion_id s) (sl_end s) cursor;
     rest \<leftarrow> fragment_ids_for_slices cursor slices;
     Some (ids @ rest)
   }"

definition fragment_ids_for_edits :: "buffer_snapshot \<Rightarrow> lamport list \<Rightarrow> locator list option" where
  "fragment_ids_for_edits self eids = do {
     slices \<leftarrow> slices_of_edits (bs_insertion_slices self) eids;
     ids \<leftarrow> fragment_ids_for_slices (cursor_new insertion_dim (bs_insertions self)) (sort_key slice_order slices);
     Some (sort ids)
   }"

text \<open>\<open>UndoMap::insert\<close>, with the sort of its edits.\<close>

definition undo_map_insert :: "externals \<Rightarrow> undo_map \<Rightarrow> undo_operation \<Rightarrow> undo_map option" where
  "undo_map_insert X self undo = map_option fst
     (edit_sorted undo_ops undo_dim ue_key self
       (sort_undos X (map (\<lambda>(eid, count).
          Insert \<lparr>ue_key = UndoMapKey eid (undo_timestamp undo), ue_count = count\<rparr>) (undo_counts undo))))"

record undo_vars =
  uv_cursor :: "(fragment, fragment_summary, locator option \<times> nat) cursor"
  uv_fragments :: "(fragment, fragment_summary) sum_tree"
  uv_ropes :: rope_builder
  uv_patch :: "nat patch"

abbreviation undo_cursor_dim :: "(locator option \<times> nat, fragment_summary) dim_ops" where
  "undo_cursor_dim \<equiv> dimensions2 locator_ref_dim visible_dim"

text \<open>The edit of the patch for a fragment whose visibility may have changed.\<close>

definition undo_patch :: "nat patch \<Rightarrow> fragment \<Rightarrow> bool \<Rightarrow> nat \<Rightarrow> nat \<Rightarrow> nat patch" where
  "undo_patch p fragment was_visible old_start new_start =
     (if was_visible \<and> \<not> fr_visible fragment
      then patch_push p (Edit (Rng old_start (old_start + unat (fr_len fragment))) (Rng new_start new_start))
      else if \<not> was_visible \<and> fr_visible fragment
      then patch_push p (Edit (Rng old_start old_start) (Rng new_start (new_start + unat (fr_len fragment))))
      else p)"

definition undo_step :: "undo_map \<Rightarrow> lamport \<Rightarrow> undo_vars \<Rightarrow> locator \<Rightarrow> undo_vars option" where
  "undo_step undos timestamp v fragment_id = do {
     (c, preceding_fragments) \<leftarrow>
       slice fragment_ops undo_cursor_dim (uv_cursor v) (target_fst (key_target (Some fragment_id))) Left;
     ropes \<leftarrow> rb_append (uv_ropes v) (fs_text (summary preceding_fragments));
     fragments \<leftarrow> append_tree fragment_ops (uv_fragments v) preceding_fragments;
     it \<leftarrow> cursor_item c;
     (case it of
        Some fragment \<Rightarrow> do {
          let was_visible = fr_visible fragment;
          visible \<leftarrow> fragment_is_visible fragment undos;
          let fragment = fragment\<lparr>fr_visible := visible, fr_max_undos := global_observe (fr_max_undos fragment) timestamp\<rparr>;
          let old_start = snd (c_position c);
          let new_start = ft_visible (fs_text (summary fragments));
          let p = undo_patch (uv_patch v) fragment was_visible old_start new_start;
          ropes \<leftarrow> rb_push_fragment ropes fragment was_visible;
          fragments \<leftarrow> push fragment_ops fragments fragment;
          c \<leftarrow> cursor_next undo_cursor_dim c;
          Some \<lparr>uv_cursor = c, uv_fragments = fragments, uv_ropes = ropes, uv_patch = p\<rparr>
        }
      | None \<Rightarrow> Some \<lparr>uv_cursor = c, uv_fragments = fragments, uv_ropes = ropes, uv_patch = uv_patch v\<rparr>)
   }"

fun undo_loop :: "undo_map \<Rightarrow> lamport \<Rightarrow> undo_vars \<Rightarrow> locator list \<Rightarrow> undo_vars option" where
  "undo_loop undos timestamp v [] = Some v"
| "undo_loop undos timestamp v (fragment_id # ids) = do {
     v \<leftarrow> undo_step undos timestamp v fragment_id;
     undo_loop undos timestamp v ids
   }"

definition apply_undo :: "externals \<Rightarrow> buffer \<Rightarrow> undo_operation \<Rightarrow> buffer option" where
  "apply_undo X self undo = do {
     undos \<leftarrow> undo_map_insert X (bs_undo_map (bf_snapshot self)) undo;
     let snapshot = (bf_snapshot self)\<lparr>bs_undo_map := undos\<rparr>;
     visible_cursor \<leftarrow> rope_cursor_new (bs_visible_text snapshot) 0;
     deleted_cursor \<leftarrow> rope_cursor_new (bs_deleted_text snapshot) 0;
     ids \<leftarrow> fragment_ids_for_edits snapshot (map fst (undo_counts undo));
     v \<leftarrow> undo_loop undos (undo_timestamp undo)
       \<lparr>uv_cursor = cursor_new undo_cursor_dim (bs_fragments snapshot), uv_fragments = new fragment_ops,
        uv_ropes = rb_new visible_cursor deleted_cursor, uv_patch = patch_empty\<rparr> ids;
     (_, suf) \<leftarrow> suffix fragment_ops undo_cursor_dim (uv_cursor v);
     ropes \<leftarrow> rb_append (uv_ropes v) (fs_text (summary suf));
     fragments \<leftarrow> append_tree fragment_ops (uv_fragments v) suf;
     (visible_text, deleted_text) \<leftarrow> rb_finish ropes;
     Some (self\<lparr>bf_snapshot := snapshot\<lparr>bs_fragments := fragments, bs_visible_text := visible_text,
               bs_deleted_text := deleted_text\<rparr>,
             bf_subscriptions := publish (bf_subscriptions self) (uv_patch v)\<rparr>)
   }"

subsection \<open>Operations that arrive\<close>

definition can_apply_op :: "buffer \<Rightarrow> operation \<Rightarrow> bool" where
  "can_apply_op self op \<longleftrightarrow>
     (if op_replica_id op \<in> bf_deferred_replicas self then False
      else global_observed_all (bs_version (bf_snapshot self)) (op_version op))"

definition resolve_edit :: "buffer \<Rightarrow> lamport \<Rightarrow> buffer" where
  "resolve_edit self eid =
     (let txs = (case bf_edit_id_resolvers self eid of Some txs \<Rightarrow> txs | None \<Rightarrow> [])
      in self\<lparr>bf_edit_id_resolvers := (bf_edit_id_resolvers self)(eid := None), bf_sent := bf_sent self @ txs\<rparr>)"

definition observe_op :: "buffer \<Rightarrow> lamport \<Rightarrow> buffer" where
  "observe_op self timestamp =
     self\<lparr>bf_snapshot := (bf_snapshot self)\<lparr>bs_version := global_observe (bs_version (bf_snapshot self)) timestamp\<rparr>,
          bf_lamport_clock := lamport_observe (bf_lamport_clock self) timestamp\<rparr>"

text \<open>\<open>retain_mut\<close> over the versions waited for.\<close>

definition resolve_versions :: "buffer \<Rightarrow> buffer" where
  "resolve_versions self =
     (let reached = (\<lambda>(version, _). global_observed_all (bs_version (bf_snapshot self)) version)
      in self\<lparr>bf_wait_for_version_txs := filter (\<lambda>w. \<not> reached w) (bf_wait_for_version_txs self),
              bf_sent := bf_sent self @ map snd (filter reached (bf_wait_for_version_txs self))\<rparr>)"

definition apply_op :: "externals \<Rightarrow> buffer \<Rightarrow> operation \<Rightarrow> buffer option" where
  "apply_op X self op = do {
     self \<leftarrow> (case op of
         EditOp ed \<Rightarrow>
           if \<not> global_observed (bs_version (bf_snapshot self)) (eo_timestamp ed) then do {
             self \<leftarrow> apply_remote_edit X self (eo_version ed) (eo_ranges ed) (eo_new_text ed) (eo_timestamp ed);
             Some (resolve_edit (observe_op self (eo_timestamp ed)) (eo_timestamp ed))
           } else Some self
       | UndoOp undo \<Rightarrow>
           if \<not> global_observed (bs_version (bf_snapshot self)) (undo_timestamp undo) then do {
             self \<leftarrow> apply_undo X self undo;
             Some (observe_op self (undo_timestamp undo))
           } else Some self);
     Some (resolve_versions self)
   }"

text \<open>The loops of \<open>apply_ops\<close> and \<open>flush_deferred_ops\<close>: the buffer, and the operations to defer.\<close>

definition apply_or_defer :: "externals \<Rightarrow> buffer \<Rightarrow> operation list \<Rightarrow> operation \<Rightarrow> (buffer \<times> operation list) option" where
  "apply_or_defer X self deferred_ops op =
     (if can_apply_op self op then do { self \<leftarrow> apply_op X self op; Some (self, deferred_ops) }
      else Some (self\<lparr>bf_deferred_replicas := insert (op_replica_id op) (bf_deferred_replicas self)\<rparr>, deferred_ops @ [op]))"

fun flush_loop :: "externals \<Rightarrow> buffer \<Rightarrow> operation list \<Rightarrow> operation list \<Rightarrow> (buffer \<times> operation list) option" where
  "flush_loop X self deferred_ops [] = Some (self, deferred_ops)"
| "flush_loop X self deferred_ops (op # ops) = do {
     (self, deferred_ops) \<leftarrow> apply_or_defer X self deferred_ops op;
     flush_loop X self deferred_ops ops
   }"

definition defer_ops :: "externals \<Rightarrow> buffer \<Rightarrow> operation list \<Rightarrow> buffer option" where
  "defer_ops X self ops = do {
     q \<leftarrow> queue_insert op_timestamp (sort_operations X) (bf_deferred_ops self) ops;
     Some (self\<lparr>bf_deferred_ops := q\<rparr>)
   }"

definition flush_deferred_ops :: "externals \<Rightarrow> buffer \<Rightarrow> buffer option" where
  "flush_deferred_ops X self = do {
     let self = self\<lparr>bf_deferred_replicas := {}\<rparr>;
     let (left, drained) = queue_drain op_timestamp (bf_deferred_ops self);
     ops \<leftarrow> queue_iter drained;
     (self, deferred_ops) \<leftarrow> flush_loop X (self\<lparr>bf_deferred_ops := left\<rparr>) [] ops;
     defer_ops X self deferred_ops
   }"

fun apply_ops_loop :: "externals \<Rightarrow> buffer \<Rightarrow> operation list \<Rightarrow> operation list \<Rightarrow> (buffer \<times> operation list) option" where
  "apply_ops_loop X self deferred_ops [] = Some (self, deferred_ops)"
| "apply_ops_loop X self deferred_ops (op # ops) = do {
     history \<leftarrow> history_push (bf_history self) op;
     (self, deferred_ops) \<leftarrow> apply_or_defer X (self\<lparr>bf_history := history\<rparr>) deferred_ops op;
     apply_ops_loop X self deferred_ops ops
   }"

definition apply_ops :: "externals \<Rightarrow> buffer \<Rightarrow> operation list \<Rightarrow> buffer option" where
  "apply_ops X self ops = do {
     (self, deferred_ops) \<leftarrow> apply_ops_loop X self [] ops;
     self \<leftarrow> defer_ops X self deferred_ops;
     flush_deferred_ops X self
   }"

definition has_deferred_ops :: "buffer \<Rightarrow> bool" where
  "has_deferred_ops self \<longleftrightarrow> \<not> queue_is_empty (bf_deferred_ops self)"

definition deferred_ops_len :: "buffer \<Rightarrow> nat" where
  "deferred_ops_len self = queue_len (bf_deferred_ops self)"

subsection \<open>Transactions\<close>

definition peek_undo_stack :: "buffer \<Rightarrow> history_entry option" where
  "peek_undo_stack self = vec_last (hi_undo_stack (bf_history self))"

definition peek_redo_stack :: "buffer \<Rightarrow> history_entry option" where
  "peek_redo_stack self = vec_last (hi_redo_stack (bf_history self))"

definition start_transaction_at :: "buffer \<Rightarrow> nat \<Rightarrow> buffer \<times> lamport option" where
  "start_transaction_at self now =
     (let (history, clock, tid) = start_transaction (bf_history self) (bs_version (bf_snapshot self)) now (bf_lamport_clock self)
      in (self\<lparr>bf_history := history, bf_lamport_clock := clock\<rparr>, tid))"

definition buffer_end_transaction_at :: "buffer \<Rightarrow> nat \<Rightarrow> (buffer \<times> (lamport \<times> global) option) option" where
  "buffer_end_transaction_at self now = do {
     (history, ended) \<leftarrow> end_transaction_at (bf_history self) now;
     Some (self\<lparr>bf_history := history\<rparr>, ended)
   }"

definition buffer_finalize_last_transaction :: "buffer \<Rightarrow> buffer \<times> transaction option" where
  "buffer_finalize_last_transaction self =
     (let (history, t) = finalize_last_transaction (bf_history self) in (self\<lparr>bf_history := history\<rparr>, t))"

definition group_until_transaction :: "buffer \<Rightarrow> lamport \<Rightarrow> buffer option" where
  "group_until_transaction self tid = do { h \<leftarrow> group_until (bf_history self) tid; Some (self\<lparr>bf_history := h\<rparr>) }"

definition forget_transaction :: "buffer \<Rightarrow> lamport \<Rightarrow> (buffer \<times> transaction option) option" where
  "forget_transaction self tid = do {
     (history, t) \<leftarrow> history_forget (bf_history self) tid;
     Some (self\<lparr>bf_history := history\<rparr>, t)
   }"

definition get_transaction :: "buffer \<Rightarrow> lamport \<Rightarrow> transaction option" where
  "get_transaction self tid = history_transaction (bf_history self) tid"

definition buffer_merge_transactions :: "buffer \<Rightarrow> lamport \<Rightarrow> lamport \<Rightarrow> buffer option" where
  "buffer_merge_transactions self t destination = do {
     h \<leftarrow> merge_transactions (bf_history self) t destination;
     Some (self\<lparr>bf_history := h\<rparr>)
   }"

definition buffer_push_transaction :: "buffer \<Rightarrow> transaction \<Rightarrow> nat \<Rightarrow> buffer option" where
  "buffer_push_transaction self t now = do { h \<leftarrow> push_transaction (bf_history self) t now; Some (self\<lparr>bf_history := h\<rparr>) }"

definition buffer_push_empty_transaction :: "buffer \<Rightarrow> nat \<Rightarrow> (buffer \<times> lamport) option" where
  "buffer_push_empty_transaction self now = do {
     (history, clock, tid) \<leftarrow>
       push_empty_transaction (bf_history self) (bs_version (bf_snapshot self)) now (bf_lamport_clock self);
     Some (self\<lparr>bf_history := history, bf_lamport_clock := clock\<rparr>, tid)
   }"

definition undo_operations :: "externals \<Rightarrow> buffer \<Rightarrow> (lamport \<times> u32) list \<Rightarrow> (buffer \<times> operation) option" where
  "undo_operations X self counts = do {
     let (timestamp, clock) = lamport_tick (bf_lamport_clock self);
     let version = bs_version (bf_snapshot self);
     let undo = \<lparr>undo_timestamp = timestamp, undo_version = version, undo_counts = counts\<rparr>;
     self \<leftarrow> apply_undo X
       (self\<lparr>bf_lamport_clock := clock, bf_snapshot := (bf_snapshot self)\<lparr>bs_version := global_observe version timestamp\<rparr>\<rparr>)
       undo;
     Some (self, UndoOp undo)
   }"

text \<open>The map of counts: inserting a key that is there replaces its value.\<close>

fun insert_counts :: "undo_map \<Rightarrow> lamport list \<Rightarrow> (lamport \<times> u32) list \<Rightarrow> (lamport \<times> u32) list option" where
  "insert_counts undos [] counts = Some counts"
| "insert_counts undos (eid # eids) counts = do {
     n \<leftarrow> undo_count undos eid;
     insert_counts undos eids (AList.update eid (if n = - 1 then n else n + 1) counts)
   }"

definition undo_or_redo :: "externals \<Rightarrow> buffer \<Rightarrow> transaction \<Rightarrow> (buffer \<times> operation) option" where
  "undo_or_redo X self transaction = do {
     counts \<leftarrow> insert_counts (bs_undo_map (bf_snapshot self)) (tr_edit_ids transaction) [];
     (self, op) \<leftarrow> undo_operations X self (iteration_order X counts);
     history \<leftarrow> history_push (bf_history self) op;
     Some (self\<lparr>bf_history := history\<rparr>, op)
   }"

definition undo_or_redo_entry ::
    "externals \<Rightarrow> buffer \<Rightarrow> history \<times> history_entry option \<Rightarrow> (buffer \<times> (lamport \<times> operation) option) option" where
  "undo_or_redo_entry X self popped = (case popped of
       (history, Some e) \<Rightarrow> do {
         (self, op) \<leftarrow> undo_or_redo X (self\<lparr>bf_history := history\<rparr>) (he_transaction e);
         Some (self, Some (tr_id (he_transaction e), op))
       }
     | (history, None) \<Rightarrow> Some (self\<lparr>bf_history := history\<rparr>, None))"

definition buffer_undo :: "externals \<Rightarrow> buffer \<Rightarrow> (buffer \<times> (lamport \<times> operation) option) option" where
  "buffer_undo X self = do { popped \<leftarrow> pop_undo (bf_history self); undo_or_redo_entry X self popped }"

definition buffer_redo :: "externals \<Rightarrow> buffer \<Rightarrow> (buffer \<times> (lamport \<times> operation) option) option" where
  "buffer_redo X self = do { popped \<leftarrow> pop_redo (bf_history self); undo_or_redo_entry X self popped }"

definition undo_transaction :: "externals \<Rightarrow> buffer \<Rightarrow> lamport \<Rightarrow> (buffer \<times> operation option) option" where
  "undo_transaction X self tid = do {
     popped \<leftarrow> remove_from_undo (bf_history self) tid;
     (self, r) \<leftarrow> undo_or_redo_entry X self popped;
     Some (self, map_option snd r)
   }"

fun undo_or_redo_all :: "externals \<Rightarrow> buffer \<Rightarrow> transaction list \<Rightarrow> (buffer \<times> operation list) option" where
  "undo_or_redo_all X self [] = Some (self, [])"
| "undo_or_redo_all X self (t # ts) = do {
     (self, op) \<leftarrow> undo_or_redo X self t;
     (self, ops) \<leftarrow> undo_or_redo_all X self ts;
     Some (self, op # ops)
   }"

definition undo_to_transaction :: "externals \<Rightarrow> buffer \<Rightarrow> lamport \<Rightarrow> (buffer \<times> operation list) option" where
  "undo_to_transaction X self tid = do {
     (history, removed) \<leftarrow> remove_from_undo_until (bf_history self) tid;
     undo_or_redo_all X (self\<lparr>bf_history := history\<rparr>) (map he_transaction removed)
   }"

definition redo_to_transaction :: "externals \<Rightarrow> buffer \<Rightarrow> lamport \<Rightarrow> (buffer \<times> operation list) option" where
  "redo_to_transaction X self tid = do {
     (history, removed) \<leftarrow> remove_from_redo (bf_history self) tid;
     undo_or_redo_all X (self\<lparr>bf_history := history\<rparr>) (map he_transaction removed)
   }"

subsection \<open>Waiting\<close>

text \<open>A future is the channels it receives from; each wait makes channels of its own.\<close>

fun wait_for_edits :: "buffer \<Rightarrow> lamport list \<Rightarrow> buffer \<times> nat list" where
  "wait_for_edits self [] = (self, [])"
| "wait_for_edits self (eid # eids) =
     (if \<not> global_observed (bs_version (bf_snapshot self)) eid then
        let tx = bf_channels self;
            txs = (case bf_edit_id_resolvers self eid of Some txs \<Rightarrow> txs | None \<Rightarrow> []);
            (self, rxs) = wait_for_edits
              (self\<lparr>bf_edit_id_resolvers := (bf_edit_id_resolvers self)(eid \<mapsto> txs @ [tx]), bf_channels := tx + 1\<rparr>) eids
        in (self, tx # rxs)
      else wait_for_edits self eids)"

definition wait_for_version :: "buffer \<Rightarrow> global \<Rightarrow> buffer \<times> nat option" where
  "wait_for_version self version =
     (if \<not> global_observed_all (bs_version (bf_snapshot self)) version then
        let tx = bf_channels self
        in (self\<lparr>bf_wait_for_version_txs := bf_wait_for_version_txs self @ [(version, tx)], bf_channels := tx + 1\<rparr>, Some tx)
      else (self, None))"

definition give_up_waiting :: "buffer \<Rightarrow> buffer" where
  "give_up_waiting self = self\<lparr>bf_edit_id_resolvers := Map.empty, bf_wait_for_version_txs := []\<rparr>"

end
