(* ===== verification/BufferRun.thy ===== *)
theory BufferRun
  imports BufferSpec BufferOps HistorySpec
begin

text \<open>
  Buffers: a new buffer holds its text, and \<open>edit\<close> keeps the invariant of a buffer, replaces the text of
  its ranges and publishes a patch between the two texts.
\<close>

subsection \<open>The invariant of a buffer\<close>

text \<open>The edits a fragment knows of are older than the clock.\<close>

definition older_than :: "lamport \<Rightarrow> piece list \<Rightarrow> bool" where
  "older_than c fts \<longleftrightarrow> (\<forall>x \<in> set fts. fr_timestamp (fst x) < c \<and> (\<forall>d \<in> set (fr_deletions (fst x)). d < c))"

definition buffer_ok :: "buffer \<Rightarrow> piece list \<Rightarrow> bool" where
  "buffer_ok self fts \<longleftrightarrow> snapshot_ok (bf_snapshot self) fts \<and> older_than (bf_lamport_clock self) fts \<and>
     history_run (bf_history self) (bf_lamport_clock self) \<and> tm_ok (hi_operations (bf_history self))"

text \<open>The bounds: on the heights of the trees, and two more ticks of the clock.\<close>

definition buffer_fits :: "buffer \<Rightarrow> bool" where
  "buffer_fits self \<longleftrightarrow> snapshot_fits (bf_snapshot self) \<and> fits_stack (hi_operations (bf_history self)) \<and>
     unat (lam_value (bf_lamport_clock self)) + 2 < 2 ^ 32"

lemma older_fresh: "older_than c fts \<Longrightarrow> c \<le> ts \<Longrightarrow> fresh ts fts"
  by (fastforce simp: older_than_def fresh_def touched_def)

lemma older_later: "older_than c fts \<Longrightarrow> c \<le> c' \<Longrightarrow> older_than c' fts"
  by (auto simp: older_than_def intro: less_le_trans)

lemma older_derived:
  assumes "older_than c fts" and "c \<le> ts" and "ts < c'" and "\<forall>x \<in> set fts'. derived ts fts x"
  shows "older_than c' fts'"
  unfolding older_than_def
proof
  fix x assume "x \<in> set fts'"
  with assms(4) have "derived ts fts x" by blast
  then consider "fr_timestamp (fst x) = ts" "fr_deletions (fst x) = []"
    | y where "y \<in> set fts" "derived_from ts (fst y) (fst x)" by (auto simp: derived_def)
  then show "fr_timestamp (fst x) < c' \<and> (\<forall>d \<in> set (fr_deletions (fst x)). d < c')"
  proof cases
    case (2 y)
    then have "fr_timestamp (fst y) < c'" "\<forall>d \<in> set (fr_deletions (fst y)). d < c'"
      using assms(1-3) by (fastforce simp: older_than_def)+
    then show ?thesis using 2(2) assms(3) by (auto simp: derived_from_def)
  qed (use assms(3) in simp)
qed

subsection \<open>A new buffer\<close>

lemma push_new: "push I (new I) x = Some (Leaf (item_summary I x) [x] [item_summary I x])"
  by (simp add: push_def append_tree_def new_def Let_def)

definition base_fragment :: "rust_char list \<Rightarrow> fragment" where
  "base_fragment cs = \<lparr>fr_id = locator_between locator_min locator_max, fr_timestamp = lamport_new LOCAL,
     fr_insertion_offset = 0, fr_len = of_nat (str_len cs), fr_visible = True, fr_deletions = [], fr_max_undos = global_new\<rparr>"

definition base_pieces :: "rust_char list \<Rightarrow> piece list" where
  "base_pieces cs = (if cs = [] then [] else [(base_fragment cs, cs)])"

lemma base_pieces_simps [simp]: "vis (base_pieces cs) = cs" "del (base_pieces cs) = []"
  by (simp_all add: base_pieces_def base_fragment_def)

lemma leaf_wf:
  "s_add I (s_zero I) (item_summary I x) = item_summary I x \<Longrightarrow> wf_tree I (Leaf (item_summary I x) [x] [item_summary I x])"
  by (rule wf_treeI [of _ 0]) (simp add: s_sum_def)

lemma locator_ends: "locator_min < locator_max"
  by (simp add: less_locator_def locator_min_def locator_max_def word_gt_0)

lemma base_id: "ids_ok [(base_fragment cs, cs)] []" "locator_ok (fr_id (base_fragment cs))"
proof -
  have e: "ids_ok [] []" by (simp add: ids_ok_def locator_ends)
  note i = ids_between [OF e, of "fr_id (base_fragment cs)" "base_fragment cs"]
  show "ids_ok [(base_fragment cs, cs)] []" using i(1) [of cs] by (simp add: base_fragment_def next_id_def)
  show "locator_ok (fr_id (base_fragment cs))" using i(2) by (simp add: base_fragment_def next_id_def)
qed

lemma rope_of_text:
  assumes "rope_text r cs"
  shows "rope_len r = str_len cs" "rope_is_empty r \<longleftrightarrow> cs = []" "valid cs"
proof -
  obtain css where r: "rope_of r css" "cs = concat css" using assms by (auto simp: rope_text_def)
  show "rope_len r = str_len cs" "valid cs" using rope_measures(1) [OF r(1)] rope_text_valid [OF r(1)] r(2) by simp_all
  show "rope_is_empty r \<longleftrightarrow> cs = []" using rope_measures(5) [OF r(1)] r by (cases css) (auto simp: rope_of_def chunk_text_def)
qed

text \<open>The loop over a text that fits in one fragment.\<close>

lemma base_loop_at:
  assumes "rope_text r cs" and "cs \<noteq> []" and "str_len cs < 2 ^ 32"
  shows "\<exists>v. base_loop r (lamport_new LOCAL) \<lparr>bv_fragments = new fragment_ops, bv_insertions = new insertion_ops,
      bv_prev_locator = locator_min, bv_insertion_offset = 0, bv_text_offset = 0\<rparr> = Some v \<and>
    bv_fragments v = Leaf (fs_of (base_fragment cs)) [base_fragment cs] [fs_of (base_fragment cs)] \<and>
    bv_insertions v = Leaf (insertion_key (insertion_new (base_fragment cs))) [insertion_new (base_fragment cs)]
      [insertion_key (insertion_new (base_fragment cs))]"
proof -
  have l: "rope_len r = str_len cs" using rope_of_text(1) [OF assms(1)] .
  have m: "min (str_len cs) MAX_INSERTION_LEN = str_len cs" using assms(3) by (simp add: MAX_INSERTION_LEN_def)
  have p: "0 < str_len cs" using assms(2) by (cases cs) (simp_all add: len_utf8_def)
  show ?thesis
    using push_new [of fragment_ops "base_fragment cs"] push_new [of insertion_ops "insertion_new (base_fragment cs)"] p
    by (subst base_loop.simps, subst base_loop.simps)
      (simp add: l m Let_def base_fragment_def [symmetric] insertion_ops_def)
qed

definition base_snapshot :: "rope \<Rightarrow> rust_char list \<Rightarrow> buffer_snapshot \<Rightarrow> bool" where
  "base_snapshot r cs S \<longleftrightarrow> bs_visible_text S = r \<and> bs_deleted_text S = rope_new \<and>
     bs_insertion_slices S = tm_empty \<and> bs_undo_map S = undo_map_new \<and>
     (cs = [] \<longrightarrow> bs_fragments S = new fragment_ops \<and> bs_insertions S = new insertion_ops) \<and>
     (cs \<noteq> [] \<longrightarrow> bs_fragments S = Leaf (fs_of (base_fragment cs)) [base_fragment cs] [fs_of (base_fragment cs)] \<and>
        bs_insertions S = Leaf (insertion_key (insertion_new (base_fragment cs))) [insertion_new (base_fragment cs)]
          [insertion_key (insertion_new (base_fragment cs))])"

lemma new_normalized_base:
  assumes "rope_text r cs" and "str_len cs < 2 ^ 32"
  shows "\<exists>self. buffer_new_normalized replica_id remote_id le r = Some self \<and> base_snapshot r cs (bf_snapshot self) \<and>
    bf_history self = history_new r \<and> bf_subscriptions self = topic_default \<and>
    bf_lamport_clock self = Lamport (if cs = [] then 1 else 2) replica_id"
proof (cases "cs = []")
  case True
  then show ?thesis using rope_of_text(2) [OF assms(1)]
    by (simp add: buffer_new_normalized_def Let_def history_new_def base_snapshot_def lamport_new_def)
next
  case False
  obtain v where "base_loop r (lamport_new LOCAL) \<lparr>bv_fragments = new fragment_ops, bv_insertions = new insertion_ops,
      bv_prev_locator = locator_min, bv_insertion_offset = 0, bv_text_offset = 0\<rparr> = Some v"
    "bv_fragments v = Leaf (fs_of (base_fragment cs)) [base_fragment cs] [fs_of (base_fragment cs)]"
    "bv_insertions v = Leaf (insertion_key (insertion_new (base_fragment cs))) [insertion_new (base_fragment cs)]
      [insertion_key (insertion_new (base_fragment cs))]"
    using base_loop_at [OF assms(1) False assms(2)] by blast
  then show ?thesis using False rope_of_text(2) [OF assms(1)]
    by (simp add: buffer_new_normalized_def Let_def history_new_def base_snapshot_def lamport_new_def lamport_observe_def)
qed

lemma base_snapshot_ok:
  assumes S: "base_snapshot r cs S" and r: "rope_text r cs" and len: "str_len cs < 2 ^ 32" and h: "height (rope_chunks r) \<le> 6"
  shows "snapshot_ok S (base_pieces cs)" "snapshot_fits S"
proof -
  have d: "rope_text rope_new []" by (rule rope_textI [OF rope_of_new]) simp
  have hs: "height (rope_chunks rope_new) \<le> 6" by (simp add: rope_new_def new_def)
  show "snapshot_fits S" using S h hs by (cases "cs = []")
    (simp_all add: base_snapshot_def snapshot_fits_def new_def STACK_CAPACITY_def tm_empty_def)
  show "snapshot_ok S (base_pieces cs)"
  proof (cases "cs = []")
    case True
    then show ?thesis using S r d
      by (simp add: base_snapshot_def snapshot_ok_def base_pieces_def fragment_tree_def ids_ok_def locator_ends tm_empty_ok sorted_keys_def)
  next
    case False
    have w: "wf_tree fragment_ops (bs_fragments S)" "wf_tree insertion_ops (bs_insertions S)"
      using leaf_wf [of fragment_ops "base_fragment cs"] leaf_wf [of insertion_ops "insertion_new (base_fragment cs)"]
        fragment_tree.zero_left S False by (simp_all add: base_snapshot_def insertion_ops_def)
    have "piece_ok (base_fragment cs, cs)"
      using False len base_id(2) rope_of_text(3) [OF r]
      by (simp add: piece_ok_def base_fragment_def unat_of_nat take_bit_nat_eq_self)
    moreover have "distinct (map atom_id (atoms (base_pieces cs)))"
      using char_atoms_distinct [of 0 cs "lamport_new LOCAL"] len False by (simp add: base_pieces_def piece_atoms_def base_fragment_def)
    ultimately show ?thesis using S r d w False base_id(1) [of cs]
      by (simp add: base_snapshot_def snapshot_ok_def base_pieces_def fragment_tree_def tm_empty_ok sorted_keys_def base_fragment_def)
  qed
qed

lemma new_buffer_ok:
  assumes "rope_text r cs" and "str_len cs < 2 ^ 32" and "height (rope_chunks r) \<le> 6"
  shows "\<exists>self. buffer_new_normalized replica_id remote_id le r = Some self \<and> buffer_ok self (base_pieces cs) \<and>
    buffer_fits self \<and> bf_subscriptions self = topic_default"
proof -
  obtain self where b: "buffer_new_normalized replica_id remote_id le r = Some self" "base_snapshot r cs (bf_snapshot self)"
    "bf_history self = history_new r" "bf_subscriptions self = topic_default"
    "bf_lamport_clock self = Lamport (if cs = [] then 1 else 2) replica_id"
    using new_normalized_base [OF assms(1,2)] by blast
  note s = base_snapshot_ok [OF b(2) assms]
  have "older_than (bf_lamport_clock self) (base_pieces cs)"
    using b(5) by (simp add: older_than_def base_pieces_def base_fragment_def lamport_new_def lamport_less_iff)
  then have "buffer_ok self (base_pieces cs)" using s(1) run_new b(3) by (simp add: buffer_ok_def history_new_def tm_empty_ok)
  moreover have "buffer_fits self" using s(2) b(3,5) by (simp add: buffer_fits_def history_new_def tm_empty_ok)
  ultimately show ?thesis using b(1,4) by blast
qed

subsection \<open>Edits\<close>

text \<open>The start of a transaction: at most one tick of the clock, and an entry on the undo stack.\<close>

lemma start_transaction_at:
  assumes "history_run h c" and "unat (lam_value c) + 2 < 2 ^ 32" and "start_transaction h version now c = (h', c', t)"
  shows "history_run h' c'" "c \<le> c'" "unat (lam_value c') + 1 < 2 ^ 32" "hi_transaction_depth h' = hi_transaction_depth h + 1"
    "hi_operations h' = hi_operations h"
proof -
  have v: "lam_value c \<noteq> - 1" using assms(2) by (auto simp: unsigned_minus_1_eq_mask mask_eq_exp_minus_1)
  show "history_run h' c'" by (rule run_start [OF assms(1) v assms(3)])
  have t: "lam_value c < lam_value c + 1" "unat (lam_value c + 1) = unat (lam_value c) + 1"
    using v assms(2) word_less_inc [of "lam_value c"] by (simp_all add: unat_word_ariths)
  show "c \<le> c'" using assms(3) t(1) by (auto simp: start_transaction_def lamport_tick_def lamport_le_iff Let_def split: if_splits)
  show "unat (lam_value c') + 1 < 2 ^ 32" using assms(2,3) t(2) by (auto simp: start_transaction_def lamport_tick_def Let_def split: if_splits)
  show "hi_transaction_depth h' = hi_transaction_depth h + 1" "hi_operations h' = hi_operations h"
    using assms(3) by (auto simp: start_transaction_def lamport_tick_def Let_def split: if_splits)
qed

lemma push_undo_at:
  assumes "history_inv h c" and "hi_transaction_depth h \<noteq> 0"
  shows "\<exists>h'. push_undo h t = Some h' \<and> hi_operations h' = hi_operations h \<and> hi_transaction_depth h' = hi_transaction_depth h"
  using assms by (auto simp: push_undo_def history_inv_def vec_last_def Let_def split: option.splits operation.splits)

lemma end_transaction_operations:
  assumes "end_transaction_at h now = Some (h', r)" shows "hi_operations h' = hi_operations h"
  using assms
  by (auto simp: end_transaction_at_def end_transaction_def history_group_def group_trailing_def Let_def
      split: bind_splits if_splits option.splits)

text \<open>What \<open>edit\<close> does to a buffer.\<close>

lemma buffer_edit_at:
  assumes X: "externals_ok X" and ok: "buffer_ok self fts" and fits: "buffer_fits self"
    and es: "es \<noteq> []" "changes_ok X es" "vis fts = text_before es @ w"
    and eds: "floors (bf_snapshot self) eds = edit_args 0 es"
  shows "\<exists>self' fts' S' pt ts rs. buffer_edit X self now_start now_end eds = Some (self', EditOp \<lparr>eo_timestamp = ts,
      eo_version = bs_version (bf_snapshot self), eo_ranges = rs, eo_new_text = map (\<lambda>(g, d, raw, t). utf8 t) es\<rparr>) \<and>
    buffer_ok self' fts' \<and> edited ts (bf_snapshot self) fts S' fts' (text_new es) \<and> fresh ts fts \<and>
    bf_lamport_clock self \<le> ts \<and> ts < bf_lamport_clock self' \<and>
    bf_snapshot self' = S'\<lparr>bs_version := global_observe (bs_version (bf_snapshot self)) ts\<rparr> \<and>
    vis fts' = text_after es @ w \<and> bf_subscriptions self' = publish (bf_subscriptions self) pt \<and>
    patches pt (utf8 (vis fts)) (utf8 (vis fts')) \<and>
    tm_map (hi_operations (bf_history self')) = (tm_map (hi_operations (bf_history self)))(ts \<mapsto>
      EditOp \<lparr>eo_timestamp = ts, eo_version = bs_version (bf_snapshot self), eo_ranges = rs,
        eo_new_text = map (\<lambda>(g, d, raw, t). utf8 t) es\<rparr>)"
proof -
  let ?S = "bf_snapshot self"
  obtain h1 c1 t1 where 1: "start_transaction (bf_history self) (bs_version ?S) now_start (bf_lamport_clock self) = (h1, c1, t1)"
    by (metis prod_cases3)
  have run: "history_run (bf_history self) (bf_lamport_clock self)" and v: "unat (lam_value (bf_lamport_clock self)) + 2 < 2 ^ 32"
    and old: "older_than (bf_lamport_clock self) fts" and m: "tm_ok (hi_operations (bf_history self))" "fits_stack (hi_operations (bf_history self))"
    using ok fits by (simp_all add: buffer_ok_def buffer_fits_def)
  note s = start_transaction_at [OF run v 1]
  define c2 where "c2 = Lamport (lam_value c1 + 1) (lam_replica c1)"
  have tick: "lamport_tick c1 = (c1, c2)" by (simp add: lamport_tick_def c2_def)
  have v1: "lam_value c1 \<noteq> - 1" using s(3) by (auto simp: unsigned_minus_1_eq_mask mask_eq_exp_minus_1)
  have lt: "c1 < c2" using tick_after [OF v1 tick] by simp
  let ?self = "self\<lparr>bf_history := h1, bf_lamport_clock := c2\<rparr>"
  have snap: "snapshot_ok (bf_snapshot ?self) fts" "snapshot_fits (bf_snapshot ?self)" "floors (bf_snapshot ?self) eds = edit_args 0 es"
    using ok fits eds by (simp_all add: buffer_ok_def buffer_fits_def)
  have fr: "fresh c1 fts" using older_fresh [OF old s(2)] .
  obtain S' fts' pt rs where a: "apply_local_edit X ?self eds c1 =
      Some (?self\<lparr>bf_snapshot := S', bf_subscriptions := publish (bf_subscriptions self) pt\<rparr>,
        \<lparr>eo_timestamp = c1, eo_version = bs_version ?S, eo_ranges = rs, eo_new_text = map (\<lambda>(g, d, raw, t). utf8 t) es\<rparr>)"
    "edited c1 ?S fts S' fts' (text_new es)" "vis fts' = text_after es @ w" "patches pt (utf8 (vis fts)) (utf8 (vis fts'))"
    using apply_local_edit_at [OF X snap(1,2) fr es snap(3)] by auto
  let ?ed = "\<lparr>eo_timestamp = c1, eo_version = bs_version ?S, eo_ranges = rs, eo_new_text = map (\<lambda>(g, d, raw, t). utf8 t) es\<rparr>"
  obtain ops where ops: "tm_insert (hi_operations h1) c1 (EditOp ?ed) = Some ops" "tm_ok ops"
    "tm_map ops = (tm_map (hi_operations (bf_history self)))(c1 \<mapsto> EditOp ?ed)"
    using tm_insert_or_replace_ok [OF m, of c1 "EditOp ?ed"] s(5) by auto
  let ?h2 = "h1\<lparr>hi_operations := ops\<rparr>"
  have p: "history_push h1 (EditOp ?ed) = Some ?h2" using ops(1) by (simp add: history_push_def)
  have d: "hi_transaction_depth ?h2 \<noteq> 0" using s(4) by simp
  have i2: "history_inv ?h2 c1" using history_run_inv [OF run_push [OF s(1) p]] .
  obtain h3 where h3: "push_undo ?h2 c1 = Some h3" "hi_operations h3 = ops" "hi_transaction_depth h3 = hi_transaction_depth h1"
    using push_undo_at [OF i2 d, of c1] by auto
  have r3: "history_run h3 c2" by (rule run_edit [OF s(1) v1 tick p _ h3(1)]) simp
  obtain h4 r where h4: "end_transaction_at h3 now_end = Some (h4, r)"
    using end_transaction_inv [OF history_run_inv [OF r3], of now_end] h3(3) s(4) by auto
  have o4: "hi_operations h4 = ops" using end_transaction_operations [OF h4] h3(2) by simp
  let ?S2 = "S'\<lparr>bs_version := global_observe (bs_version ?S) c1\<rparr>"
  let ?self' = "self\<lparr>bf_snapshot := ?S2, bf_history := h4, bf_lamport_clock := c2,
    bf_subscriptions := publish (bf_subscriptions self) pt\<rparr>"
  have ver: "bs_version S' = bs_version ?S" using a(2) by (simp add: edited_def)
  have "buffer_edit X self now_start now_end eds = Some (?self', EditOp ?ed)"
    using 1 tick a(1) p h3(1) h4 ver by (simp add: buffer_edit_def Let_def)
  moreover have "buffer_ok ?self' fts'"
  proof -
    have "snapshot_ok ?S2 fts'" using a(2) by (simp add: edited_def snapshot_ok_def)
    moreover have "older_than c2 fts'"
      by (rule older_derived [OF old s(2) lt]) (use a(2) in \<open>simp add: edited_def\<close>)
    ultimately show ?thesis using run_end [OF r3 h4] o4 ops(2) by (simp add: buffer_ok_def)
  qed
  ultimately show ?thesis using a(2-4) fr s(2) lt o4 ops(3)
    by (intro exI [of _ ?self'] exI [of _ fts'] exI [of _ S'] exI [of _ pt] exI [of _ c1] exI [of _ rs]) simp
qed

subsection \<open>At a concrete buffer\<close>

definition sample_externals :: externals where
  "sample_externals = \<lparr>normalize = (\<lambda>text. text), sort_insertions = sort_key (edit_key insertion_key),
     sort_slices = sort_key (edit_key entry_key), sort_undos = sort_key (edit_key ue_key),
     sort_operations = sort_key (edit_key op_timestamp), iteration_order = (\<lambda>counts. counts)\<rparr>"

lemma sample_externals_ok: "externals_ok sample_externals"
  by (simp add: externals_ok_def sample_externals_def sorted_edits_def)

definition sample_changes :: "text_change list" where
  "sample_changes = [([97], [98], utf8 [120, 121], [120, 121])]"

lemma floor_boundary:
  assumes "rope_text r cs" and "boundary cs i" shows "rope_floor_char_boundary r i = i"
proof -
  obtain css where "rope_of r css" "cs = concat css" using assms(1) by (auto simp: rope_text_def)
  with rope_floor_of [of r css i i] assms(2) show ?thesis by simp
qed

text \<open>The buffer of the text \<open>abc\<close>, and the replacement of its second character.\<close>

lemma sample_buffer:
  obtains r self where "push_chunk rope_new (chunk_of [97, 98, 99]) = Some r"
    "buffer_new_normalized (ReplicaId 1) 1 Unix r = Some self" "buffer_ok self (base_pieces [97, 98, 99])" "buffer_fits self"
    "bf_subscriptions self = topic_default" "floors (bf_snapshot self) [(1, 2, utf8 [120, 121])] = edit_args 0 sample_changes"
proof -
  have t: "valid [97, 98, 99]" "str_len [97, 98, 99] \<le> 128" by (simp_all add: scalar_value_def len_utf8_def)
  obtain r css where r: "push_chunk rope_new (chunk_of [97, 98, 99]) = Some r" "rope_of r css" "concat css = [97, 98, 99]"
    "height (rope_chunks r) \<le> 1"
    using push_chunk_of [OF rope_of_new t] by (auto simp: rope_new_def new_def)
  have rt: "rope_text r [97, 98, 99]" by (rule rope_textI [OF r(2,3)])
  have "str_len [97, 98, 99] < 2 ^ 32" "height (rope_chunks r) \<le> 6" using t(2) r(4) by simp_all
  from new_buffer_ok [OF rt this] obtain self where self: "buffer_new_normalized (ReplicaId 1) 1 Unix r = Some self"
    "buffer_ok self (base_pieces [97, 98, 99])" "buffer_fits self" "bf_subscriptions self = topic_default" by blast
  have "rope_text (bs_visible_text (bf_snapshot self)) [97, 98, 99]" using self(2) by (simp add: buffer_ok_def snapshot_ok_def)
  from floor_boundary [OF this] have "floors (bf_snapshot self) [(1, 2, utf8 [120, 121])] = edit_args 0 sample_changes"
    by (simp add: sample_changes_def boundary_Cons len_utf8_def)
  with r(1) self show thesis by (rule that)
qed

lemma sample_changes_ok:
  "sample_changes \<noteq> []" "changes_ok sample_externals sample_changes" "vis (base_pieces [97, 98, 99]) = text_before sample_changes @ [99]"
  by (simp_all add: sample_changes_def changes_ok_def sample_externals_def scalar_value_def len_utf8_def)

subsection \<open>Properties\<close>

text \<open>C1. \<open>Buffer::edit\<close> on ranges of a buffer's text, moved down to character boundaries, in order and not
  overlapping: it does not panic, the ranges are replaced by the normalized new texts, and the visible text of the
  buffer is the new text. The invariant of the buffer is kept (the fragments in the order of their ids, the ropes the
  texts of the visible and of the deleted fragments, the index an entry for every fragment), the operation
  returned carries the version before the edit and the normalized texts, and it is recorded in the history. Bounds:
  the heights of the trees, two ticks of the clock, less than 4 GiB of new text.\<close>
theorem edit_replaces_text:
  assumes "externals_ok X" and "buffer_ok self fts" and "buffer_fits self" and "es \<noteq> []" and "changes_ok X es"
    and "vis fts = text_before es @ w" and "floors (bf_snapshot self) eds = edit_args 0 es"
  shows "\<exists>self' ed fts'. buffer_edit X self now_start now_end eds = Some (self', EditOp ed) \<and> buffer_ok self' fts' \<and>
    vis fts' = text_after es @ w \<and> rope_text (bs_visible_text (bf_snapshot self')) (text_after es @ w) \<and>
    eo_version ed = bs_version (bf_snapshot self) \<and> eo_new_text ed = map (\<lambda>(_, _, _, t). utf8 t) es \<and>
    bs_version (bf_snapshot self') = global_observe (bs_version (bf_snapshot self)) (eo_timestamp ed) \<and>
    tm_map (hi_operations (bf_history self')) = (tm_map (hi_operations (bf_history self)))(eo_timestamp ed \<mapsto> EditOp ed)"
proof -
  from buffer_edit_at [OF assms, of now_start now_end] obtain self' fts' S' pt ts rs
    where e: "buffer_edit X self now_start now_end eds = Some (self', EditOp \<lparr>eo_timestamp = ts,
      eo_version = bs_version (bf_snapshot self), eo_ranges = rs, eo_new_text = map (\<lambda>(g, d, raw, t). utf8 t) es\<rparr>)"
    "buffer_ok self' fts'" "bf_snapshot self' = S'\<lparr>bs_version := global_observe (bs_version (bf_snapshot self)) ts\<rparr>"
    "vis fts' = text_after es @ w"
    "tm_map (hi_operations (bf_history self')) = (tm_map (hi_operations (bf_history self)))(ts \<mapsto>
      EditOp \<lparr>eo_timestamp = ts, eo_version = bs_version (bf_snapshot self), eo_ranges = rs,
        eo_new_text = map (\<lambda>(g, d, raw, t). utf8 t) es\<rparr>)" by blast
  let ?ed = "\<lparr>eo_timestamp = ts, eo_version = bs_version (bf_snapshot self), eo_ranges = rs,
    eo_new_text = map (\<lambda>(g, d, raw, t). utf8 t) es\<rparr>"
  have "rope_text (bs_visible_text (bf_snapshot self')) (vis fts')" using e(2) by (simp add: buffer_ok_def snapshot_ok_def)
  then show ?thesis using e(1,2,4,5) by (intro exI [of _ self'] exI [of _ ?ed] exI [of _ fts']) (simp add: e(3))
qed

lemma edit_replaces_text_witness:
  "\<exists>r self self' op. push_chunk rope_new (chunk_of [97, 98, 99]) = Some r \<and>
     buffer_new_normalized (ReplicaId 1) 1 Unix r = Some self \<and>
     buffer_edit sample_externals self 0 0 [(1, 2, utf8 [120, 121])] = Some (self', op) \<and>
     rope_text (bs_visible_text (bf_snapshot self')) [97, 120, 121, 99]"
proof -
  obtain r self where s: "push_chunk rope_new (chunk_of [97, 98, 99]) = Some r"
    "buffer_new_normalized (ReplicaId 1) 1 Unix r = Some self" "buffer_ok self (base_pieces [97, 98, 99])" "buffer_fits self"
    "floors (bf_snapshot self) [(1, 2, utf8 [120, 121])] = edit_args 0 sample_changes" by (rule sample_buffer)
  have "text_after sample_changes @ [99] = [97, 120, 121, 99]" by (simp add: sample_changes_def)
  then show ?thesis
    using edit_replaces_text [OF sample_externals_ok s(3,4) sample_changes_ok s(5), of 0 0] s(1,2) by auto
qed

text \<open>C2. What a local edit does to the characters of a buffer, deleted ones included, each identified by the
  insertion it came from and its offset there. Those that were there are all kept, in their order, deleted or
  not; the new ones are in their order, numbered from 0; and every fragment is either new and visible, or part of an old
  one that is as visible as before, or was visible and is now deleted by this edit. The index of slices gains
  exactly the slices of the fragments the edit inserted or deleted.\<close>
theorem local_edit_keeps_characters:
  assumes "externals_ok X" and "snapshot_ok (bf_snapshot self) fts" and "snapshot_fits (bf_snapshot self)" and "fresh ts fts"
    and "es \<noteq> []" and "changes_ok X es" and "vis fts = text_before es @ w" and "floors (bf_snapshot self) eds = edit_args 0 es"
  shows "\<exists>self' ed fts'. apply_local_edit X self eds ts = Some (self', ed) \<and> snapshot_ok (bf_snapshot self') fts' \<and>
    filter (\<lambda>a. fst a \<noteq> ts) (atoms fts') = atoms fts \<and>
    filter (\<lambda>a. fst a = ts) (atoms fts') = char_atoms ts 0 (text_new es) \<and>
    (\<forall>x \<in> set fts'. derived ts fts x) \<and>
    dom (tm_map (bs_insertion_slices (bf_snapshot self'))) = dom (tm_map (bs_insertion_slices (bf_snapshot self))) \<union>
      (\<lambda>x. slice_from_fragment ts (fst x)) ` {x \<in> set fts'. touched ts x}"
proof -
  from apply_local_edit_at [OF assms] obtain S' fts' pt ed where
    "apply_local_edit X self eds ts =
      Some (self\<lparr>bf_snapshot := S', bf_subscriptions := publish (bf_subscriptions self) pt\<rparr>, ed)"
    "edited ts (bf_snapshot self) fts S' fts' (text_new es)" by blast
  then show ?thesis unfolding edited_def
    by (intro exI [of _ "self\<lparr>bf_snapshot := S', bf_subscriptions := publish (bf_subscriptions self) pt\<rparr>"]
        exI [of _ ed] exI [of _ fts']) simp
qed

lemma local_edit_keeps_characters_witness:
  "\<exists>r self self' ed fts'. push_chunk rope_new (chunk_of [97, 98, 99]) = Some r \<and>
     buffer_new_normalized (ReplicaId 1) 1 Unix r = Some self \<and>
     apply_local_edit sample_externals self [(1, 2, utf8 [120, 121])] (Lamport 5 (ReplicaId 1)) = Some (self', ed) \<and>
     snapshot_ok (bf_snapshot self') fts' \<and>
     filter (\<lambda>a. fst a = Lamport 5 (ReplicaId 1)) (atoms fts') = char_atoms (Lamport 5 (ReplicaId 1)) 0 [120, 121]"
proof -
  obtain r self where s: "push_chunk rope_new (chunk_of [97, 98, 99]) = Some r"
    "buffer_new_normalized (ReplicaId 1) 1 Unix r = Some self" "buffer_ok self (base_pieces [97, 98, 99])" "buffer_fits self"
    "floors (bf_snapshot self) [(1, 2, utf8 [120, 121])] = edit_args 0 sample_changes" by (rule sample_buffer)
  have k: "snapshot_ok (bf_snapshot self) (base_pieces [97, 98, 99])" "snapshot_fits (bf_snapshot self)"
    using s(3,4) by (simp_all add: buffer_ok_def buffer_fits_def)
  have f: "fresh (Lamport 5 (ReplicaId 1)) (base_pieces [97, 98, 99])"
    by (simp add: fresh_def touched_def base_pieces_def base_fragment_def lamport_new_def)
  have n: "text_new sample_changes = [120, 121]" by (simp add: sample_changes_def)
  from local_edit_keeps_characters [OF sample_externals_ok k f sample_changes_ok s(5)] obtain self' ed fts' where
    "apply_local_edit sample_externals self [(1, 2, utf8 [120, 121])] (Lamport 5 (ReplicaId 1)) = Some (self', ed)"
    "snapshot_ok (bf_snapshot self') fts'"
    "filter (\<lambda>a. fst a = Lamport 5 (ReplicaId 1)) (atoms fts') = char_atoms (Lamport 5 (ReplicaId 1)) 0 (text_new sample_changes)"
    by blast
  then show ?thesis using s(1,2) unfolding n by blast
qed

text \<open>C3. A local edit publishes a patch from the text before it to the text after it, so whoever subscribed to the
  buffer, whatever it has consumed, holds a patch from the text it last saw to the text of the buffer.\<close>
theorem edit_publishes:
  assumes "externals_ok X" and "buffer_ok self fts" and "buffer_fits self" and "es \<noteq> []" and "changes_ok X es"
    and "vis fts = text_before es @ w" and "floors (bf_snapshot self) eds = edit_args 0 es"
    and "topic_run (bf_subscriptions self) (utf8 (vis fts)) seen"
  shows "\<exists>self' op. buffer_edit X self now_start now_end eds = Some (self', op) \<and>
    topic_run (bf_subscriptions self') (utf8 (text_after es @ w)) seen \<and>
    (\<forall>s t p. consume (bf_subscriptions self') s = Some (t, p) \<longrightarrow> patches p (seen s) (utf8 (text_after es @ w)))"
proof -
  from buffer_edit_at [OF assms(1-7), of now_start now_end] obtain self' op fts' pt
    where e: "buffer_edit X self now_start now_end eds = Some (self', op)" "vis fts' = text_after es @ w"
      "bf_subscriptions self' = publish (bf_subscriptions self) pt" "patches pt (utf8 (vis fts)) (utf8 (vis fts'))" by blast
  have r: "topic_run (bf_subscriptions self') (utf8 (text_after es @ w)) seen"
    using run_publish [OF assms(8) e(4)] e(2,3) by simp
  have "patches p (seen s) (utf8 (text_after es @ w))" if "consume (bf_subscriptions self') s = Some (t, p)" for s t p
    using topic_run_inv [OF r] that by (auto simp: topic_inv_def consume_def split: option.splits)
  then show ?thesis using e(1) r by blast
qed

lemma edit_publishes_witness:
  "\<exists>r self self' op t s. push_chunk rope_new (chunk_of [97, 98, 99]) = Some r \<and>
     buffer_new_normalized (ReplicaId 1) 1 Unix r = Some self \<and> buffer_subscribe self = (t, s) \<and>
     buffer_edit sample_externals t 0 0 [(1, 2, utf8 [120, 121])] = Some (self', op) \<and>
     topic_run (bf_subscriptions self') (utf8 [97, 120, 121, 99]) (\<lambda>_. utf8 [97, 98, 99])"
proof -
  obtain r self where s: "push_chunk rope_new (chunk_of [97, 98, 99]) = Some r"
    "buffer_new_normalized (ReplicaId 1) 1 Unix r = Some self" "buffer_ok self (base_pieces [97, 98, 99])" "buffer_fits self"
    "bf_subscriptions self = topic_default" "floors (bf_snapshot self) [(1, 2, utf8 [120, 121])] = edit_args 0 sample_changes"
    by (rule sample_buffer)
  obtain t k where t: "subscribe topic_default = (t :: nat topic_state, k)" by (metis surj_pair)
  let ?b = "self\<lparr>bf_subscriptions := t\<rparr>"
  have b: "buffer_subscribe self = (?b, k)" using s(5) t by (simp add: buffer_subscribe_def)
  have k: "buffer_ok ?b (base_pieces [97, 98, 99])" "buffer_fits ?b"
    "floors (bf_snapshot ?b) [(1, 2, utf8 [120, 121])] = edit_args 0 sample_changes"
    using s(3,4,6) by (simp_all add: buffer_ok_def buffer_fits_def)
  have "topic_run t (utf8 (vis (base_pieces [97, 98, 99]))) ((\<lambda>_. utf8 [97, 98, 99])(k := utf8 (vis (base_pieces [97, 98, 99]))))"
    by (rule run_subscribe [OF topic_run.run_start t])
  then have "topic_run (bf_subscriptions ?b) (utf8 (vis (base_pieces [97, 98, 99]))) (\<lambda>_. utf8 [97, 98, 99])"
    by (simp add: fun_upd_idem)
  from edit_publishes [OF sample_externals_ok k(1,2) sample_changes_ok k(3) this, of 0 0]
  show ?thesis using s(1,2) b by (auto simp: sample_changes_def)
qed

end
