(* ===== verification/Spec2Isabelle.thy ===== *)
theory Spec2Isabelle
  imports Clock SumTreeSpec Locator UndoMap Subscription RopeLines Selection HistorySpec OperationQueue BufferRun
begin

text \<open>
  Verification library for the text model of the vendored editor core: the Rust crates under
  \<open>src/third-party-apps/wedit/zed/crates/\<close> that hold text and edit it. Paths below are relative to
  that directory.

  \<^bold>\<open>What is modelled.\<close> The release build: fixed-width integers wrap, debug assertions are not run,
  and whatever panics in it (\<open>assert!\<close>, \<open>unwrap\<close>, an index out of range, a full \<open>ArrayVec\<close>) is the
  value \<open>None\<close>. Traits are dictionaries (records of functions), their contracts locales, and each
  locale is interpreted on the dictionaries of the code. Shared pointers (\<open>Arc\<close>) are values, because
  the code mutates through \<open>Arc::make_mut\<close> only.

  \<^bold>\<open>The parts.\<close> A buffer's text is a rope: a B+ tree (\<open>sum_tree\<close>) of chunks of at most 128
  bytes, whose summaries measure the text in bytes, UTF-16 units, rows and columns. Cursors seek in the
  tree by any of these measures. Edits are described by patches, delivered by subscriptions; replicas are
  ordered by Lamport clocks, fragments of text by locators, undone edits counted by the undo map.

  \<^item> \<open>Prelude\<close>: the order of the code (\<open>cmp\<close>), the option monad, lists and vectors.
  \<^item> \<open>Clock\<close>: \<open>clock/src/clock.rs\<close>, replica ids, Lamport timestamps, version vectors.
  \<^item> \<open>SumTree\<close>, \<open>SumTreeFind\<close>: \<open>sum_tree/src/sum_tree.rs\<close>, the summarised B+ tree, its invariant
    (\<open>wf_tree\<close>), construction, concatenation, the stackless descents; the contracts of summaries
    (\<open>summary_laws\<close>) and of dimensions (\<open>dim_laws\<close>, and \<open>zero_dim_laws\<close> where zero is a unit).
  \<^item> \<open>Cursor\<close>, \<open>TreeIter\<close>: \<open>sum_tree/src/cursor.rs\<close>, the cursor and the iterators;
    \<open>CursorSeek\<close>, \<open>CursorMove\<close>, \<open>CursorBack\<close> hold what seeking, moving forward and moving
    backward do to the items behind and in front of the cursor; \<open>SliceHeight\<close> bounds the height of
    the trees that \<open>slice\<close> and \<open>suffix\<close> build.
  \<^item> \<open>Keyed\<close>: \<open>impl SumTree<T: KeyedItem>\<close>; \<open>TreeMap\<close>: \<open>sum_tree/src/tree_map.rs\<close>.
  \<^item> \<open>SumTreeSpec\<close>: the properties of the tree, the cursor and the keyed operations.
  \<^item> \<open>Locator\<close>, \<open>UndoMap\<close>: \<open>text/src/locator.rs\<close>, \<open>text/src/undo_map.rs\<close>.
  \<^item> \<open>Patch\<close>: \<open>text/src/patch.rs\<close>; \<open>PatchSpec\<close>: a patch relates an old and a new text, and
    composition composes the relations. \<open>Subscription\<close>: \<open>text/src/subscription.rs\<close>, a transition
    system of publishing and consuming over a heap of patches.
  \<^item> \<open>Points\<close>: \<open>rope/src/point.rs\<close>, \<open>point_utf16.rs\<close>, \<open>offset_utf16.rs\<close>, \<open>unclipped.rs\<close>.
  \<^item> \<open>TextSummary\<close>: the summary of a text and its sum, in \<open>rope/src/rope.rs\<close>.
  \<^item> \<open>Bits\<close>, \<open>Chunk\<close>: \<open>rope/src/chunk.rs\<close>, the bit searches, chunks and slices of them.
    \<open>Bitmap\<close> and \<open>ChunkText\<close> relate the bitmaps to the text (\<open>chunk_of cs\<close> is the chunk of the
    characters \<open>cs\<close>), \<open>ChunkSummary\<close> the measures, \<open>ChunkPosition\<close> the conversions and clipping.
  \<^item> \<open>RopeSummary\<close>: chunks as items of the tree, the dimensions of \<open>rope/src/rope.rs\<close>, and the
    locales \<open>text_measure\<close> and \<open>text_position\<close> of what a dimension measures of a text.
  \<^item> \<open>Rope\<close>: \<open>rope/src/rope.rs\<close>, ropes, their edits, cursor, conversions and clipping. \<open>RopeText\<close>
    states what a rope represents (\<open>rope_text r cs\<close>) and what edits do to it, \<open>RopeSeek\<close> what seeking
    by a measure finds, \<open>RopeCursor\<close> slices, replacements and summaries of ranges, \<open>RopePosition\<close> the
    conversions, \<open>RopeClip\<close> the boundaries and clipping.
  \<^item> \<open>RopeIter\<close>: \<open>rope/src/rope.rs\<close>, the iterators over chunks, bitmaps, bytes and lines of a range and
    the comparisons with a string; \<open>RopeChunks\<close> and \<open>RopeLines\<close> show that what the iterators over
    chunks and lines yield is the text of the range, in either direction.

  \<^item> \<open>Selection\<close>: \<open>text/src/selection.rs\<close>; \<open>OperationQueue\<close>: \<open>text/src/operation_queue.rs\<close>, the queue
    of deferred operations, for any type of operations with timestamps. Its additions assert that keys increase:
    they are partial there, the tree sums with their total extensions, and the assertions are shown to hold for
    the sums of adjacent runs of the operations of a queue, when these are stamped above \<open>Lamport::MIN\<close>.
  \<^item> \<open>History\<close>: operations, transactions and the undo history of \<open>text/src/text.rs\<close>; \<open>HistorySpec\<close>: the runs
    of the history as a transition system, and what undo, redo and grouping do in every run.
  \<^item> \<open>Fragments\<close>: the fragments of \<open>text/src/text.rs\<close>, their summaries, dimensions and seek targets, the index of
    insertions and the slices of edits; \<open>Buffer\<close>: the state of a buffer, the builders, line endings and local
    edits; \<open>BufferOps\<close>: new buffers, edits of other replicas, undo operations, deferred operations, transactions,
    waiting; the properties of the buffer are about local edits, so these operations are definitions that later
    properties can use.
  \<^item> \<open>BufferText\<close> states what the fragments and the ropes of a buffer stand for: a list of \<open>pieces\<close>, fragments
    with their characters; \<open>BufferEdit\<close> what every step of an edit does to the pieces, the ropes, the index and the patch,
    \<open>LocalEdit\<close> the invariant of the loop over the edits, \<open>BufferSpec\<close> the invariant of a snapshot and that
    \<open>apply_local_edit\<close> keeps it, and \<open>BufferRun\<close> the invariant of a buffer and the properties of \<open>edit\<close>.

  \<^bold>\<open>Texts.\<close> A string is its UTF-8 bytes (\<open>u8 list\<close>); \<open>utf8 cs\<close> encodes a list of scalar values
  (\<open>rust_char list\<close>), and \<open>valid cs\<close> says that they are scalar values. Every property of ropes and
  chunks is stated over \<open>cs\<close>.

  \<^bold>\<open>Bounds.\<close> The height of a node is a natural number (\<open>u8\<close> in the code); subtracting a greater
  height from a smaller one is \<open>None\<close>, and is shown not to happen. A cursor's stack holds
  \<open>STACK_CAPACITY\<close> = 16 entries, so the properties of cursors assume a tree of height below 16:
  with \<open>TREE_BASE\<close> = 6 such a tree holds more items than memory. A slice of a tree of height \<open>h\<close> is
  shown to have height at most \<open>2 h\<close>, so the properties of ropes that slice and append assume height
  at most 6, and those of buffers that the fragment tree is lower than 8; an edit inserts less than 4 GiB
  (\<open>MAX_INSERTION_LEN\<close>), and the clock has two ticks left. Offsets in chunks and ropes are natural numbers; a chunk has at most 128 bytes, a text fewer
  than \<open>2 ^ 63\<close> bytes. Loops over trees and stacks are total functions, terminating on the size of
  what is left to visit; the loops that a cursor drives and the searches for a character boundary are
  \<open>partial_function (option)\<close>, and are shown to return.

  \<^bold>\<open>Parameters.\<close> The grapheme segmentation of \<open>clip_point\<close> is a function argument; the properties
  assume that it takes the start and the end of a text as boundaries. The summary of a chunk is a type of
  its own (\<open>chunk_summary\<close>), whose elements satisfy what the code keeps of every summary of a text; so is
  the summary of a fragment (\<open>fragment_summary\<close>). The regular expression that normalizes line separators, the
  outcomes of the unstable sorts and the iteration order of hash maps are fields of the record \<open>externals\<close>.

  \<^bold>\<open>Nondeterminism.\<close> \<open>SumTree::edit\<close> sorts with an unstable sort: it is a relation with one outcome
  for every sorted permutation of the edits.

  \<^bold>\<open>Not modelled.\<close> Of the buffer in \<open>text/src/text.rs\<close>: anchors and the queries of a snapshot, which change
  nothing; the crates on top of it
  (language, multi buffer, editor, project, workspace, vim, agents), mostly user interface and I/O over external
  libraries; the UI framework, the servers and their generated messages; serialization, formatting, logging and
  test helpers of the modelled files.
\<close>

end
